(* ===== verification/Prelude.thy ===== *)
theory Prelude
  imports "HOL-Library.Word"
begin

text \<open>
  What the component theories share: machine integers at the widths the code uses, faults
  as values, and lemmas about lists that several components need.

  The library stops on a failed \<open>really_assert\<close> or \<open>assert\<close> (infra/util/ReallyAssert.hpp).
  A model function that can stop so returns a \<open>result\<close>: \<open>Inl\<close> with the fault, or \<open>Inr\<close>
  with the value. The fault \<open>Out_of_bounds\<close> stands for an access the code makes without a
  check and that leaves the valid range, so that no theorem hides it; \<open>Diverges\<close> for a loop whose
  iteration changes nothing, so that the code would stay in it.
\<close>

unbundle bit_operations_syntax

section \<open>Machine integers\<close>

type_synonym u8 = "8 word"
type_synonym u16 = "16 word"
type_synonym u32 = "32 word"
type_synonym u64 = "64 word"
type_synonym byte = "8 word"

section \<open>Faults as values\<close>

datatype fault = Assert_failed | Out_of_bounds | Diverges

type_synonym 'a result = "fault + 'a"

definition really_assert :: "bool \<Rightarrow> 'a result \<Rightarrow> 'a result" where
  "really_assert c r = (if c then r else Inl Assert_failed)"

definition in_bounds :: "bool \<Rightarrow> 'a result \<Rightarrow> 'a result" where
  "in_bounds c r = (if c then r else Inl Out_of_bounds)"

fun rbind :: "'a result \<Rightarrow> ('a \<Rightarrow> 'b result) \<Rightarrow> 'b result" where
  "rbind (Inl e) f = Inl e"
| "rbind (Inr x) f = f x"

lemma really_assert_simps [simp]:
  "c \<Longrightarrow> really_assert c r = r"
  "\<not> c \<Longrightarrow> really_assert c r = Inl Assert_failed"
  by (simp_all add: really_assert_def)

lemma in_bounds_simps [simp]:
  "c \<Longrightarrow> in_bounds c r = r"
  "\<not> c \<Longrightarrow> in_bounds c r = Inl Out_of_bounds"
  by (simp_all add: in_bounds_def)

lemma really_assert_Inr: "really_assert c r = Inr x \<longleftrightarrow> c \<and> r = Inr x"
  by (simp add: really_assert_def)

lemma in_bounds_Inr: "in_bounds c r = Inr x \<longleftrightarrow> c \<and> r = Inr x"
  by (simp add: in_bounds_def)

lemma rbind_Inr: "rbind r f = Inr y \<longleftrightarrow> (\<exists>x. r = Inr x \<and> f x = Inr y)"
  by (cases r) auto

lemma rbind_assoc: "rbind (rbind r f) g = rbind r (\<lambda>x. rbind (f x) g)"
  by (cases r) auto

lemma rbind_Inl: "rbind r f = Inl e \<longleftrightarrow> r = Inl e \<or> (\<exists>x. r = Inr x \<and> f x = Inl e)"
  by (cases r) auto

lemmas result_Inr = really_assert_Inr in_bounds_Inr rbind_Inr

section \<open>Lists\<close>

lemma takeWhile_take_le:
  "length (takeWhile P (take n xs)) \<le> n"
  by (rule order_trans [OF length_takeWhile_le]) simp

lemma drop_length_takeWhile:
  "drop (length (takeWhile P xs)) xs = dropWhile P xs"
  by (induction xs) auto

lemma take_length_takeWhile:
  "take (length (takeWhile P xs)) xs = takeWhile P xs"
  by (induction xs) auto

lemma hd_dropWhile_not:
  "dropWhile P xs = y # ys \<Longrightarrow> \<not> P y"
  by (metis hd_dropWhile list.distinct(1) list.sel(1))

lemma take_in_two:
  assumes "m \<le> n"
  shows "take m ys @ take (n - length (take m ys)) (drop (length (take m ys)) ys) = take n ys"
proof (cases "m \<le> length ys")
  case True
  then show ?thesis using assms take_add [of m "n - m" ys] by (simp add: min_absorb2)
qed (use assms in simp)

text \<open>\<open>std::equal\<close> over two sequences of one length and \<open>std::lexicographical_compare\<close>.\<close>

fun lexicographical_compare :: "('a::linorder) list \<Rightarrow> 'a list \<Rightarrow> bool" where
  "lexicographical_compare [] [] = False"
| "lexicographical_compare [] (y # ys) = True"
| "lexicographical_compare (x # xs) [] = False"
| "lexicographical_compare (x # xs) (y # ys) =
    (if x < y then True else if y < x then False else lexicographical_compare xs ys)"

lemma lexicographical_compare_irrefl: "\<not> lexicographical_compare xs xs"
  by (induction xs) auto

lemma lexicographical_compare_trans:
  "lexicographical_compare xs ys \<Longrightarrow> lexicographical_compare ys zs \<Longrightarrow> lexicographical_compare xs zs"
proof (induction xs ys arbitrary: zs rule: lexicographical_compare.induct)
  case (4 x xs y ys)
  then show ?case by (cases zs) (auto split: if_splits)
qed (auto elim: lexicographical_compare.elims)

lemma lexicographical_compare_total:
  "xs \<noteq> ys \<Longrightarrow> lexicographical_compare xs ys \<or> lexicographical_compare ys xs"
  by (induction xs ys rule: lexicographical_compare.induct) auto

section \<open>Words\<close>

lemma unat_u8_less [simp]: "unat (x :: u8) < 256"
  using unsigned_less [of x] by simp

lemma unat_u16_less [simp]: "unat (x :: u16) < 65536"
  using unsigned_less [of x] by simp

lemma unat_of_nat_u8 [simp]: "n < 256 \<Longrightarrow> unat (of_nat n :: u8) = n"
  by (simp add: unat_of_nat take_bit_eq_mod)

lemma unat_of_nat_u16 [simp]: "n < 65536 \<Longrightarrow> unat (of_nat n :: u16) = n"
  by (simp add: unat_of_nat take_bit_eq_mod)

lemma unat_u32_less [simp]: "unat (x :: u32) < 4294967296"
  using unsigned_less [of x] by simp

lemma unat_of_nat_u32 [simp]: "n < 4294967296 \<Longrightarrow> unat (of_nat n :: u32) = n"
  by (simp add: unat_of_nat take_bit_eq_mod)

lemma unat_sub_of_nat_u32:
  assumes "n \<le> unat (x :: u32)"
  shows "unat (x - of_nat n) = unat x - n"
proof -
  have "unat (of_nat n :: u32) = n"
    using order_le_less_trans [OF assms unat_u32_less] by (rule unat_of_nat_u32)
  with assms show ?thesis by (simp add: unat_sub word_le_nat_alt)
qed

lemma unat_add_u32:
  "unat (x :: u32) + unat y < 4294967296 \<Longrightarrow> unat (x + y) = unat x + unat y"
  by (simp add: unat_plus_if_size word_size)

lemma of_nat_u8_eq_0_iff: "n < 256 \<Longrightarrow> (of_nat n :: u8) = 0 \<longleftrightarrow> n = 0"
  by (metis unat_of_nat_u8 unat_eq_zero of_nat_0)

end
