(* ===== verification/Slots.thy ===== *)
theory Slots
  imports Prelude
begin

text \<open>
  The loops the bounded containers of infra/util share. A container keeps its elements in
  slots reached by a logical position; \<open>put\<close> and \<open>get\<close> write and read one slot. The loops
  are stated once over any \<open>put\<close> and \<open>get\<close>, and the locale \<open>slot_store\<close> holds the law
  (reading after writing) from which their effect on the sequence of elements follows.
  The element type is trivially copyable, as the bytes and integers the rest of the library
  stores: constructing and assigning a slot are then the same write, moving from a slot
  leaves its bytes, and destroying one does nothing.
\<close>

section \<open>The loops\<close>

fun fill_slots :: "('s \<Rightarrow> nat \<Rightarrow> 'a \<Rightarrow> 's) \<Rightarrow> 's \<Rightarrow> nat \<Rightarrow> 'a list \<Rightarrow> 's" where
  "fill_slots put s e [] = s"
| "fill_slots put s e (x # xs) = fill_slots put (put s e x) (Suc e) xs"

text \<open>\<open>shift_up put get k c n s\<close> makes \<open>k\<close> copies, from position \<open>c\<close> downwards, each from \<open>n\<close>
  positions below.\<close>

fun shift_up :: "('s \<Rightarrow> nat \<Rightarrow> 'a \<Rightarrow> 's) \<Rightarrow> ('s \<Rightarrow> nat \<Rightarrow> 'a) \<Rightarrow> nat \<Rightarrow> nat \<Rightarrow> nat \<Rightarrow> 's \<Rightarrow> 's" where
  "shift_up put get 0 c n s = s"
| "shift_up put get (Suc k) c n s = shift_up put get k (c - 1) n (put s c (get s (c - n)))"

text \<open>\<open>shift_down put get k f l s\<close> moves the \<open>k\<close> elements from position \<open>l\<close> upwards to \<open>f\<close>.\<close>

fun shift_down :: "('s \<Rightarrow> nat \<Rightarrow> 'a \<Rightarrow> 's) \<Rightarrow> ('s \<Rightarrow> nat \<Rightarrow> 'a) \<Rightarrow> nat \<Rightarrow> nat \<Rightarrow> nat \<Rightarrow> 's \<Rightarrow> 's" where
  "shift_down put get 0 f l s = s"
| "shift_down put get (Suc k) f l s = shift_down put get k (Suc f) (Suc l) (put s f (get s l))"

fun store_first :: "'a list \<Rightarrow> nat \<Rightarrow> 'a list \<Rightarrow> 'a list" where
  "store_first storage i [] = storage"
| "store_first storage i (x # xs) = store_first (storage[i := x]) (Suc i) xs"

definition view :: "('s \<Rightarrow> nat \<Rightarrow> 'a) \<Rightarrow> 's \<Rightarrow> nat \<Rightarrow> 'a list" where
  "view get s n = map (get s) [0..<n]"

lemma length_view [simp]: "length (view get s n) = n"
  by (simp add: view_def)

lemma nth_view [simp]: "i < n \<Longrightarrow> view get s n ! i = get s i"
  by (simp add: view_def)

section \<open>What the loops do to the elements\<close>

locale slot_store =
  fixes put :: "'s \<Rightarrow> nat \<Rightarrow> 'a \<Rightarrow> 's"
    and get :: "'s \<Rightarrow> nat \<Rightarrow> 'a"
    and cap :: "'s \<Rightarrow> nat"
    and ok :: "'s \<Rightarrow> bool"
  assumes ok_put: "ok s \<Longrightarrow> ok (put s i v)"
    and cap_put: "cap (put s i v) = cap s"
    and get_put: "ok s \<Longrightarrow> i < cap s \<Longrightarrow> j < cap s \<Longrightarrow>
      get (put s i v) j = (if j = i then v else get s j)"
begin

lemma cap_fill: "cap (fill_slots put s e xs) = cap s"
  by (induction xs arbitrary: s e) (simp_all add: cap_put)

lemma ok_fill: "ok s \<Longrightarrow> ok (fill_slots put s e xs)"
  by (induction xs arbitrary: s e) (simp_all add: ok_put)

lemma get_fill:
  "ok s \<Longrightarrow> e + length xs \<le> cap s \<Longrightarrow> j < cap s \<Longrightarrow>
   get (fill_slots put s e xs) j = (if e \<le> j \<and> j < e + length xs then xs ! (j - e) else get s j)"
proof (induction xs arbitrary: s e)
  case Nil
  then show ?case by auto
next
  case (Cons x xs)
  then show ?case
    by (auto simp: ok_put cap_put get_put nth_Cons' Suc_diff_le not_less_eq_eq)
qed

lemma cap_shift_up: "cap (shift_up put get k c n s) = cap s"
  by (induction k arbitrary: c s) (simp_all add: cap_put)

lemma ok_shift_up: "ok s \<Longrightarrow> ok (shift_up put get k c n s)"
  by (induction k arbitrary: c s) (simp_all add: ok_put)

lemma get_shift_up:
  "ok s \<Longrightarrow> k + n \<le> Suc c \<Longrightarrow> (k = 0 \<or> c < cap s) \<Longrightarrow> j < cap s \<Longrightarrow>
   get (shift_up put get k c n s) j = (if Suc c - k \<le> j \<and> j \<le> c then get s (j - n) else get s j)"
proof (induction k arbitrary: c s)
  case 0
  then show ?case by auto
next
  case (Suc k)
  let ?s = "put s c (get s (c - n))"
  have c: "c < cap s" using Suc.prems by simp
  have "get (shift_up put get k (c - 1) n ?s) j =
      (if Suc (c - 1) - k \<le> j \<and> j \<le> c - 1 then get ?s (j - n) else get ?s j)"
    using Suc.prems by (intro Suc.IH) (auto simp: ok_put cap_put)
  moreover have "get ?s j = (if j = c then get s (c - n) else get s j)"
    using Suc.prems c by (simp add: get_put)
  moreover have "get ?s (j - n) = (if j - n = c then get s (c - n) else get s (j - n))"
    using Suc.prems c by (subst get_put) auto
  ultimately show ?case using Suc.prems(2) c by (cases c) (auto split: if_splits)
qed

lemma cap_shift_down: "cap (shift_down put get k f l s) = cap s"
  by (induction k arbitrary: f l s) (simp_all add: cap_put)

lemma ok_shift_down: "ok s \<Longrightarrow> ok (shift_down put get k f l s)"
  by (induction k arbitrary: f l s) (simp_all add: ok_put)

lemma get_shift_down:
  "ok s \<Longrightarrow> f \<le> l \<Longrightarrow> l + k \<le> cap s \<Longrightarrow> j < cap s \<Longrightarrow>
   get (shift_down put get k f l s) j = (if f \<le> j \<and> j < f + k then get s (j + l - f) else get s j)"
proof (induction k arbitrary: f l s)
  case 0
  then show ?case by auto
next
  case (Suc k)
  let ?s = "put s f (get s l)"
  have "get (shift_down put get k (Suc f) (Suc l) ?s) j =
      (if Suc f \<le> j \<and> j < Suc f + k then get ?s (j + Suc l - Suc f) else get ?s j)"
    using Suc.prems by (intro Suc.IH) (auto simp: ok_put cap_put)
  moreover have "get ?s j = (if j = f then get s l else get s j)"
    using Suc.prems by (simp add: get_put)
  moreover have "get ?s (j + l - f) = (if j + l - f = f then get s l else get s (j + l - f))"
    if "j < Suc f + k" using Suc.prems that by (subst get_put) auto
  ultimately show ?case using Suc.prems(2-4) by auto
qed

lemma view_put_end:
  "ok s \<Longrightarrow> n < cap s \<Longrightarrow> view get (put s n v) (Suc n) = view get s n @ [v]"
  by (intro nth_equalityI) (auto simp: get_put nth_append less_Suc_eq)

lemma view_fill:
  assumes "ok s" and "e + length xs \<le> n" and "n \<le> cap s"
  shows "view get (fill_slots put s e xs) n = take e (view get s n) @ xs @ drop (e + length xs) (view get s n)"
  using assms by (intro nth_equalityI) (auto simp: get_fill nth_append)

lemma view_insert:
  assumes ok: "ok s" and p: "p \<le> n" and room: "n + length xs \<le> cap s"
  shows "view get (fill_slots put (shift_up put get (n - p) (n - 1 + length xs) (length xs) s) p xs) (n + length xs) =
    take p (view get s n) @ xs @ drop p (view get s n)"
proof (intro nth_equalityI)
  let ?m = "length xs"
  let ?s = "shift_up put get (n - p) (n - 1 + ?m) ?m s"
  have shifted: "get ?s j = (if p + ?m \<le> j then get s (j - ?m) else get s j)"
    if "j < n + ?m" for j
  proof (cases "n = p")
    case True
    then show ?thesis using that by simp
  next
    case False
    then show ?thesis using that p room ok by (subst get_shift_up) auto
  qed
  fix i
  assume "i < length (view get (fill_slots put ?s p xs) (n + ?m))"
  then have i: "i < n + ?m" by simp
  have "get (fill_slots put ?s p xs) i = (if p \<le> i \<and> i < p + ?m then xs ! (i - p) else get ?s i)"
    using ok p room i by (intro get_fill) (auto simp: ok_shift_up cap_shift_up)
  with i p shifted [of i] show "view get (fill_slots put ?s p xs) (n + ?m) ! i =
      (take p (view get s n) @ xs @ drop p (view get s n)) ! i"
    by (auto simp: nth_append)
qed (use p in simp)

lemma view_erase:
  assumes "ok s" and "f \<le> l" and "l \<le> n" and "n \<le> cap s"
  shows "view get (shift_down put get (n - l) f l s) (n - (l - f)) =
    take f (view get s n) @ drop l (view get s n)"
  using assms by (intro nth_equalityI) (auto simp: get_shift_down nth_append algebra_simps)

end

lemma length_store_first [simp]: "length (store_first st i xs) = length st"
  by (induction xs arbitrary: st i) simp_all

lemma nth_store_first:
  "i + length xs \<le> length st \<Longrightarrow> j < length st \<Longrightarrow>
   store_first st i xs ! j = (if i \<le> j \<and> j < i + length xs then xs ! (j - i) else st ! j)"
  by (induction xs arbitrary: st i) (auto simp: nth_list_update nth_Cons' Suc_diff_le not_less_eq_eq)

end
