(* ===== verification/Refinement.thy ===== *)
theory Refinement
  imports Prelude
begin

text \<open>
  Data refinement of a component with faulting operations: a concrete step function over the
  component's state, an abstract one over what the state stands for, and an invariant. The
  locale \<open>refinement\<close> asks for one operation at a time; its lemma covers every sequence of
  operations, and says that both sides stop with the same fault at the same operation.
\<close>

fun run_ops :: "('op \<Rightarrow> 's \<Rightarrow> 's result) \<Rightarrow> 'op list \<Rightarrow> 's \<Rightarrow> 's result" where
  "run_ops step [] s = Inr s"
| "run_ops step (x # xs) s = rbind (step x s) (run_ops step xs)"

lemma run_ops_append:
  "run_ops step (xs @ ys) s = rbind (run_ops step xs s) (run_ops step ys)"
proof (induction xs arbitrary: s)
  case (Cons x xs)
  then show ?case by (cases "step x s") simp_all
qed simp

text \<open>Where the callers owe something for an operation (\<open>pre\<close>, over the abstract state), the sequences are those in
  which every operation that is reached has it.\<close>

fun run_obliged :: "('op \<Rightarrow> 'a \<Rightarrow> bool) \<Rightarrow> ('op \<Rightarrow> 'a \<Rightarrow> 'a result) \<Rightarrow> 'op list \<Rightarrow> 'a \<Rightarrow> bool" where
  "run_obliged pre astep [] a = True"
| "run_obliged pre astep (x # xs) a =
     (pre x a \<and> (case astep x a of Inl e \<Rightarrow> True | Inr a' \<Rightarrow> run_obliged pre astep xs a'))"

locale obliged_refinement =
  fixes inv :: "'s \<Rightarrow> bool"
    and abs :: "'s \<Rightarrow> 'a"
    and pre :: "'op \<Rightarrow> 'a \<Rightarrow> bool"
    and cstep :: "'op \<Rightarrow> 's \<Rightarrow> 's result"
    and astep :: "'op \<Rightarrow> 'a \<Rightarrow> 'a result"
  assumes step_simulates: "inv s \<Longrightarrow> pre x (abs s) \<Longrightarrow> map_sum id abs (cstep x s) = astep x (abs s)"
    and step_inv: "inv s \<Longrightarrow> pre x (abs s) \<Longrightarrow> cstep x s = Inr s' \<Longrightarrow> inv s'"
begin

lemma run_simulates:
  "inv s \<Longrightarrow> run_obliged pre astep xs (abs s) \<Longrightarrow> map_sum id abs (run_ops cstep xs s) = run_ops astep xs (abs s)"
proof (induction xs arbitrary: s)
  case (Cons x xs)
  then have p: "pre x (abs s)" by simp
  show ?case
  proof (cases "cstep x s")
    case (Inl e)
    then have "astep x (abs s) = Inl e" using step_simulates [OF Cons.prems(1) p] by simp
    then show ?thesis using Inl by simp
  next
    case (Inr t)
    then have "astep x (abs s) = Inr (abs t)" using step_simulates [OF Cons.prems(1) p] by simp
    then show ?thesis using Inr Cons.IH [of t] step_inv [OF Cons.prems(1) p Inr] Cons.prems(2) by simp
  qed
qed simp

end

locale refinement =
  fixes inv :: "'s \<Rightarrow> bool"
    and abs :: "'s \<Rightarrow> 'a"
    and cstep :: "'op \<Rightarrow> 's \<Rightarrow> 's result"
    and astep :: "'op \<Rightarrow> 'a \<Rightarrow> 'a result"
  assumes step_simulates: "inv s \<Longrightarrow> map_sum id abs (cstep x s) = astep x (abs s)"
    and step_inv: "inv s \<Longrightarrow> cstep x s = Inr s' \<Longrightarrow> inv s'"
begin

lemma run_inv: "inv s \<Longrightarrow> run_ops cstep xs s = Inr s' \<Longrightarrow> inv s'"
  by (induction xs arbitrary: s) (auto simp: rbind_Inr dest: step_inv)

end

lemma run_obliged_True: "run_obliged (\<lambda>x a. True) astep xs a"
  by (induction xs arbitrary: a) (auto split: sum.splits)

sublocale refinement \<subseteq> unobliged: obliged_refinement inv abs "\<lambda>x a. True" cstep astep
  by unfold_locales (auto intro: step_simulates step_inv)

context refinement begin

lemma run_simulates: "inv s \<Longrightarrow> map_sum id abs (run_ops cstep xs s) = run_ops astep xs (abs s)"
  by (rule unobliged.run_simulates [OF _ run_obliged_True])

end

section \<open>Refinement under the caller's obligations\<close>

text \<open>Some components rely on their callers: an intrusive list does not look whether a node is linked
  already. What the caller owes is a condition \<open>pre\<close> over the abstract state, and \<open>rep\<close> relates that
  state to the component's. As long as the caller keeps to it no operation stops, and the
  component follows the abstract steps.\<close>

fun run_pre :: "('op \<Rightarrow> 'a \<Rightarrow> bool) \<Rightarrow> ('op \<Rightarrow> 'a \<Rightarrow> 'a) \<Rightarrow> 'op list \<Rightarrow> 'a \<Rightarrow> bool" where
  "run_pre pre astep [] a = True"
| "run_pre pre astep (x # xs) a = (pre x a \<and> run_pre pre astep xs (astep x a))"

locale guarded_refinement =
  fixes rep :: "'a \<Rightarrow> 's \<Rightarrow> bool"
    and pre :: "'op \<Rightarrow> 'a \<Rightarrow> bool"
    and cstep :: "'op \<Rightarrow> 's \<Rightarrow> 's result"
    and astep :: "'op \<Rightarrow> 'a \<Rightarrow> 'a"
  assumes step_rep: "rep a s \<Longrightarrow> pre x a \<Longrightarrow> \<exists>t. cstep x s = Inr t \<and> rep (astep x a) t"
begin

lemma run_rep:
  "rep a s \<Longrightarrow> run_pre pre astep xs a \<Longrightarrow> \<exists>t. run_ops cstep xs s = Inr t \<and> rep (fold astep xs a) t"
proof (induction xs arbitrary: a s)
  case (Cons x xs)
  then obtain t where "cstep x s = Inr t" "rep (astep x a) t" using step_rep by fastforce
  with Cons.IH [of "astep x a" t] Cons.prems show ?case by auto
qed simp

end

section \<open>A bounded sequence\<close>

text \<open>The operations of the bounded containers, and what they promise over the capacity and the
  sequence held. Erasing is left to each container, since they check its arguments differently.\<close>

datatype 'a seq_op =
    Push_back 'a | Push_front 'a | Pop_back | Pop_front
  | Insert_range nat "'a list" | Erase_range nat nat
  | Clear | Assign "'a list" | Resize nat 'a

fun seq_step :: "'a seq_op \<Rightarrow> nat \<times> 'a list \<Rightarrow> (nat \<times> 'a list) result" where
  "seq_step (Push_back v) (m, xs) = really_assert (length xs < m) (Inr (m, xs @ [v]))"
| "seq_step (Push_front v) (m, xs) = really_assert (length xs < m) (Inr (m, v # xs))"
| "seq_step Pop_back (m, xs) = really_assert (xs \<noteq> []) (Inr (m, butlast xs))"
| "seq_step Pop_front (m, xs) = really_assert (xs \<noteq> []) (Inr (m, tl xs))"
| "seq_step (Insert_range p ys) (m, xs) = really_assert (length xs + length ys \<le> m)
     (in_bounds (p \<le> length xs) (Inr (m, take p xs @ ys @ drop p xs)))"
| "seq_step (Erase_range f l) (m, xs) = really_assert (f \<le> l \<and> l - f \<le> length xs)
     (in_bounds (l \<le> length xs) (Inr (m, take f xs @ drop l xs)))"
| "seq_step Clear (m, xs) = Inr (m, [])"
| "seq_step (Assign ys) (m, xs) = really_assert (length ys \<le> m) (Inr (m, ys))"
| "seq_step (Resize n v) (m, xs) = really_assert (n \<le> m)
     (Inr (m, take n xs @ replicate (n - length xs) v))"

end
