(* ===== verification/Bounded_Deque.thy ===== *)
theory Bounded_Deque
  imports Slots Refinement
begin

text \<open>
  \<open>infra::BoundedDeque\<close> (infra/util/BoundedDeque.hpp): a double-ended queue in a fixed ring of
  slots. The record has the class's three fields; the abstraction \<open>dq_elems\<close> is the sequence the
  deque stands for, and one lemma per operation gives its effect on it. Positions given to
  \<open>insert\<close> and \<open>erase\<close> are the indices the iterators hold. The iterator's own arithmetic is
  modelled on 64-bit words at the end.
\<close>

section \<open>State and index arithmetic\<close>

record 'a deque =
  dq_storage :: "'a list"
  dq_numAllocated :: nat
  dq_start :: nat

definition dq_size :: "'a deque \<Rightarrow> nat" where
  "dq_size d = dq_numAllocated d"

definition dq_max_size :: "'a deque \<Rightarrow> nat" where
  "dq_max_size d = length (dq_storage d)"

definition dq_empty :: "'a deque \<Rightarrow> bool" where
  "dq_empty d \<longleftrightarrow> dq_numAllocated d = 0"

definition dq_full :: "'a deque \<Rightarrow> bool" where
  "dq_full d \<longleftrightarrow> dq_numAllocated d = dq_max_size d"

definition dq_index :: "'a deque \<Rightarrow> nat \<Rightarrow> nat" where
  "dq_index d i = (let index = dq_start d + i in
     if index < dq_max_size d then index else index - dq_max_size d)"

definition dq_get :: "'a deque \<Rightarrow> nat \<Rightarrow> 'a" where
  "dq_get d i = dq_storage d ! dq_index d i"

definition dq_put :: "'a deque \<Rightarrow> nat \<Rightarrow> 'a \<Rightarrow> 'a deque" where
  "dq_put d i v = d\<lparr>dq_storage := (dq_storage d)[dq_index d i := v]\<rparr>"

definition dq_new :: "'a list \<Rightarrow> 'a deque" where
  "dq_new storage = \<lparr>dq_storage = storage, dq_numAllocated = 0, dq_start = 0\<rparr>"

section \<open>Element access\<close>

definition dq_at :: "'a deque \<Rightarrow> nat \<Rightarrow> 'a result" where
  "dq_at d position = really_assert (position < dq_size d) (Inr (dq_get d position))"

definition dq_front :: "'a deque \<Rightarrow> 'a result" where
  "dq_front d = really_assert (\<not> dq_empty d) (Inr (dq_storage d ! dq_start d))"

definition dq_back :: "'a deque \<Rightarrow> 'a result" where
  "dq_back d = really_assert (\<not> dq_empty d) (Inr (dq_get d (dq_numAllocated d - 1)))"

text \<open>The two views of a contiguous part of the ring, as the elements of the range.\<close>

definition dq_contiguous_range :: "'a deque \<Rightarrow> nat \<Rightarrow> 'a list" where
  "dq_contiguous_range d from =
     (if \<not> dq_empty d
      then let i = dq_index d from
           in take (min (i + dq_numAllocated d - from) (length (dq_storage d)) - i) (drop i (dq_storage d))
      else [])"

definition dq_contiguous_range_at_end :: "'a deque \<Rightarrow> nat \<Rightarrow> 'a list" where
  "dq_contiguous_range_at_end d to =
     (if \<not> dq_empty d
      then let i0 = dq_index d to; i = (if i0 = 0 then length (dq_storage d) else i0)
           in take (i - (i - to)) (drop (i - to) (dq_storage d))
      else [])"

section \<open>Operations at the ends\<close>

definition dq_push_front :: "'a deque \<Rightarrow> 'a \<Rightarrow> 'a deque result" where
  "dq_push_front d value = really_assert (\<not> dq_full d)
     (let start = dq_index d (dq_max_size d - 1) in
      Inr (d\<lparr>dq_start := start, dq_storage := (dq_storage d)[start := value],
             dq_numAllocated := dq_numAllocated d + 1\<rparr>))"

definition dq_pop_front :: "'a deque \<Rightarrow> 'a deque result" where
  "dq_pop_front d = really_assert (\<not> dq_empty d)
     (Inr (d\<lparr>dq_start := dq_index d 1, dq_numAllocated := dq_numAllocated d - 1\<rparr>))"

definition dq_push_back :: "'a deque \<Rightarrow> 'a \<Rightarrow> 'a deque result" where
  "dq_push_back d value = really_assert (\<not> dq_full d)
     (Inr ((dq_put d (dq_numAllocated d) value)\<lparr>dq_numAllocated := dq_numAllocated d + 1\<rparr>))"

definition dq_pop_back :: "'a deque \<Rightarrow> 'a deque result" where
  "dq_pop_back d = really_assert (\<not> dq_empty d)
     (Inr (d\<lparr>dq_numAllocated := dq_numAllocated d - 1\<rparr>))"

definition dq_emplace_front :: "'a deque \<Rightarrow> 'a \<Rightarrow> 'a deque result" where
  "dq_emplace_front d value = really_assert (dq_size d \<noteq> dq_max_size d)
     (let d1 = d\<lparr>dq_start := (if dq_start d \<noteq> 0 then dq_start d - 1 else dq_max_size d - 1)\<rparr> in
      Inr ((dq_put d1 0 value)\<lparr>dq_numAllocated := dq_numAllocated d + 1\<rparr>))"

definition dq_emplace_back :: "'a deque \<Rightarrow> 'a \<Rightarrow> 'a deque result" where
  "dq_emplace_back d value = really_assert (dq_size d \<noteq> dq_max_size d)
     (Inr ((dq_put d (dq_numAllocated d) value)\<lparr>dq_numAllocated := dq_numAllocated d + 1\<rparr>))"

definition dq_clear :: "'a deque \<Rightarrow> 'a deque" where
  "dq_clear d = d\<lparr>dq_numAllocated := 0, dq_start := 0\<rparr>"

section \<open>Filling and resizing\<close>

fun dq_push_all :: "'a deque \<Rightarrow> 'a list \<Rightarrow> 'a deque result" where
  "dq_push_all d [] = Inr d"
| "dq_push_all d (x # xs) = rbind (dq_push_back d x) (\<lambda>d. dq_push_all d xs)"

fun dq_pop_n :: "nat \<Rightarrow> 'a deque \<Rightarrow> 'a deque result" where
  "dq_pop_n 0 d = Inr d"
| "dq_pop_n (Suc k) d = rbind (dq_pop_back d) (dq_pop_n k)"

definition dq_assign :: "'a deque \<Rightarrow> 'a list \<Rightarrow> 'a deque result" where
  "dq_assign d xs = dq_push_all (dq_clear d) xs"

definition dq_assign_n :: "'a deque \<Rightarrow> nat \<Rightarrow> 'a \<Rightarrow> 'a deque result" where
  "dq_assign_n d n value = dq_push_all (dq_clear d) (replicate n value)"

definition dq_resize :: "'a deque \<Rightarrow> nat \<Rightarrow> 'a \<Rightarrow> 'a deque result" where
  "dq_resize d n value = rbind (dq_pop_n (dq_size d - n) d)
     (\<lambda>d. dq_push_all d (replicate (n - dq_size d) value))"

definition dq_construct_n :: "'a list \<Rightarrow> nat \<Rightarrow> 'a \<Rightarrow> 'a deque result" where
  "dq_construct_n storage n value = dq_resize (dq_new storage) n value"

definition dq_construct_range :: "'a list \<Rightarrow> 'a list \<Rightarrow> 'a deque result" where
  "dq_construct_range storage xs = dq_assign (dq_new storage) xs"

section \<open>Insertion and removal in the middle\<close>

definition dq_move_up :: "'a deque \<Rightarrow> nat \<Rightarrow> nat \<Rightarrow> 'a deque" where
  "dq_move_up d position n =
     (shift_up dq_put dq_get (dq_numAllocated d - position) (dq_numAllocated d - 1 + n) n d)
       \<lparr>dq_numAllocated := dq_numAllocated d + n\<rparr>"

definition dq_insert_range :: "'a deque \<Rightarrow> nat \<Rightarrow> 'a list \<Rightarrow> 'a deque result" where
  "dq_insert_range d element_index xs =
     (let n = length xs in
      really_assert (dq_size d + n \<le> dq_max_size d)
        (if element_index = 0 \<and> dq_numAllocated d \<noteq> 0
         then Inr (fill_slots dq_put
                (d\<lparr>dq_start := dq_index d (dq_max_size d - n), dq_numAllocated := dq_numAllocated d + n\<rparr>)
                element_index xs)
         else in_bounds (element_index \<le> dq_numAllocated d)
                (Inr (fill_slots dq_put (dq_move_up d element_index n) element_index xs))))"

definition dq_insert_n :: "'a deque \<Rightarrow> nat \<Rightarrow> nat \<Rightarrow> 'a \<Rightarrow> 'a deque result" where
  "dq_insert_n d element_index n value =
     really_assert (dq_size d + n \<le> dq_max_size d)
       (if element_index = 0 \<and> dq_numAllocated d \<noteq> 0
        then Inr (fill_slots dq_put
               (d\<lparr>dq_start := dq_index d (dq_max_size d - n), dq_numAllocated := dq_numAllocated d + n\<rparr>)
               element_index (replicate n value))
        else in_bounds (element_index \<le> dq_numAllocated d)
               (Inr (fill_slots dq_put (dq_move_up d element_index n) element_index (replicate n value))))"

definition dq_insert :: "'a deque \<Rightarrow> nat \<Rightarrow> 'a \<Rightarrow> 'a deque result" where
  "dq_insert d position value = dq_insert_n d position 1 value"

definition dq_emplace :: "'a deque \<Rightarrow> nat \<Rightarrow> 'a \<Rightarrow> 'a deque result" where
  "dq_emplace d element_index value = really_assert (dq_size d \<noteq> dq_max_size d)
     (in_bounds (element_index \<le> dq_numAllocated d)
       (Inr (dq_put (dq_move_up d element_index 1) element_index value)))"

fun dq_drop_front :: "nat \<Rightarrow> 'a deque \<Rightarrow> 'a deque" where
  "dq_drop_front 0 d = d"
| "dq_drop_front (Suc k) d =
     dq_drop_front k (d\<lparr>dq_numAllocated := dq_numAllocated d - 1, dq_start := dq_index d 1\<rparr>)"

definition dq_erase_range :: "'a deque \<Rightarrow> nat \<Rightarrow> nat \<Rightarrow> 'a deque result" where
  "dq_erase_range d first_index last_index =
     really_assert (first_index \<le> last_index \<and> last_index - first_index \<le> dq_size d)
       (if first_index = 0 then Inr (dq_drop_front last_index d)
        else in_bounds (last_index \<le> dq_numAllocated d)
          (let d1 = shift_down dq_put dq_get (dq_numAllocated d - last_index) first_index last_index d
           in Inr (d1\<lparr>dq_numAllocated := dq_numAllocated d - (last_index - first_index)\<rparr>)))"

definition dq_erase :: "'a deque \<Rightarrow> nat \<Rightarrow> 'a deque result" where
  "dq_erase d position = dq_erase_range d position (position + 1)"

section \<open>Copying, moving, swapping, comparing\<close>

text \<open>Copy construction and assignment assign the elements of the other deque; moving copies
  them to the first slots of the storage, whose bounds are checked only by the range's \<open>assert\<close>.\<close>

definition dq_elems :: "'a deque \<Rightarrow> 'a list" where
  "dq_elems d = view dq_get d (dq_numAllocated d)"

definition dq_copy_construct :: "'a list \<Rightarrow> 'a deque \<Rightarrow> 'a deque result" where
  "dq_copy_construct storage other = dq_assign (dq_new storage) (dq_elems other)"

definition dq_copy_assign :: "'a deque \<Rightarrow> 'a deque \<Rightarrow> 'a deque result" where
  "dq_copy_assign d other = dq_assign d (dq_elems other)"

definition dq_move_construct :: "'a list \<Rightarrow> 'a deque \<Rightarrow> 'a deque result" where
  "dq_move_construct storage other =
     in_bounds (dq_numAllocated other \<le> length storage)
       (Inr \<lparr>dq_storage = store_first storage 0 (dq_elems other),
             dq_numAllocated = dq_numAllocated other, dq_start = 0\<rparr>)"

definition dq_move_assign :: "'a deque \<Rightarrow> 'a deque \<Rightarrow> 'a deque result" where
  "dq_move_assign d other =
     in_bounds (dq_numAllocated other \<le> dq_max_size d)
       (let d1 = dq_clear d in
        Inr (d1\<lparr>dq_numAllocated := dq_numAllocated other,
                dq_storage := store_first (dq_storage d1) 0 (dq_elems other)\<rparr>))"

definition dq_swap_slot :: "nat \<Rightarrow> 'a deque \<times> 'a deque \<Rightarrow> 'a deque \<times> 'a deque" where
  "dq_swap_slot i p = (case p of (d, e) \<Rightarrow> (dq_put d i (dq_get e i), dq_put e i (dq_get d i)))"

definition dq_swap :: "'a deque \<Rightarrow> 'a deque \<Rightarrow> ('a deque \<times> 'a deque) result" where
  "dq_swap d other =
     in_bounds (list_all (\<lambda>i. dq_index d i < dq_max_size d) [dq_size d..<dq_size other] \<and>
                list_all (\<lambda>i. dq_index other i < dq_max_size other) [dq_size other..<dq_size d])
       (let (d1, o1) = fold dq_swap_slot [0..<min (dq_size d) (dq_size other)] (d, other);
            d2 = fold (\<lambda>i d. dq_put d i (dq_get o1 i)) [dq_size d..<dq_size other] d1;
            o2 = fold (\<lambda>i e. dq_put e i (dq_get d2 i)) [dq_size other..<dq_size d] o1
        in Inr (d2\<lparr>dq_numAllocated := dq_numAllocated other\<rparr>, o2\<lparr>dq_numAllocated := dq_numAllocated d\<rparr>))"

definition dq_eq :: "'a deque \<Rightarrow> 'a deque \<Rightarrow> bool" where
  "dq_eq d other \<longleftrightarrow> dq_size d = dq_size other \<and> dq_elems d = dq_elems other"

definition dq_ne :: "'a deque \<Rightarrow> 'a deque \<Rightarrow> bool" where
  "dq_ne d other \<longleftrightarrow> \<not> dq_eq d other"

definition dq_less :: "('a::linorder) deque \<Rightarrow> 'a deque \<Rightarrow> bool" where
  "dq_less d other \<longleftrightarrow> lexicographical_compare (dq_elems d) (dq_elems other)"

definition dq_less_eq :: "('a::linorder) deque \<Rightarrow> 'a deque \<Rightarrow> bool" where
  "dq_less_eq d other \<longleftrightarrow> \<not> dq_less other d"

definition dq_greater :: "('a::linorder) deque \<Rightarrow> 'a deque \<Rightarrow> bool" where
  "dq_greater d other \<longleftrightarrow> dq_less other d"

definition dq_greater_eq :: "('a::linorder) deque \<Rightarrow> 'a deque \<Rightarrow> bool" where
  "dq_greater_eq d other \<longleftrightarrow> \<not> dq_less d other"

section \<open>The invariant and the ring as a slot store\<close>

definition dq_ok :: "'a deque \<Rightarrow> bool" where
  "dq_ok d \<longleftrightarrow> dq_start d < dq_max_size d \<or> dq_max_size d = 0 \<and> dq_start d = 0"

definition dq_inv :: "'a deque \<Rightarrow> bool" where
  "dq_inv d \<longleftrightarrow> dq_ok d \<and> dq_numAllocated d \<le> dq_max_size d"

named_theorems dq_defs
lemmas [dq_defs] = dq_inv_def dq_ok_def dq_max_size_def dq_size_def dq_empty_def dq_full_def

lemma dq_index_less:
  "dq_ok d \<Longrightarrow> i < dq_max_size d \<Longrightarrow> dq_index d i < dq_max_size d"
  by (auto simp: dq_index_def dq_ok_def Let_def)

lemma dq_index_inj:
  "dq_ok d \<Longrightarrow> i < dq_max_size d \<Longrightarrow> j < dq_max_size d \<Longrightarrow> dq_index d i = dq_index d j \<longleftrightarrow> i = j"
  by (auto simp: dq_index_def dq_ok_def Let_def split: if_splits)

lemma dq_put_simps [simp]:
  "dq_numAllocated (dq_put d i v) = dq_numAllocated d"
  "dq_start (dq_put d i v) = dq_start d"
  "dq_max_size (dq_put d i v) = dq_max_size d"
  "dq_index (dq_put d i v) j = dq_index d j"
  "dq_ok (dq_put d i v) = dq_ok d"
  by (simp_all add: dq_put_def dq_max_size_def dq_index_def dq_ok_def Let_def)

interpretation dq: slot_store dq_put dq_get dq_max_size dq_ok
proof unfold_locales
  fix d :: "'a deque" and i j and v
  assume "dq_ok d" "i < dq_max_size d" "j < dq_max_size d"
  then show "dq_get (dq_put d i v) j = (if j = i then v else dq_get d j)"
    using dq_index_less [of d i] dq_index_inj [of d i j]
    by (simp add: dq_get_def) (auto simp: dq_put_def dq_max_size_def nth_list_update)
qed simp_all

text \<open>Only the number of elements and the start matter to what the slots hold.\<close>

lemma dq_frame [simp]:
  "dq_get (d\<lparr>dq_numAllocated := n\<rparr>) i = dq_get d i"
  "dq_ok (d\<lparr>dq_numAllocated := n\<rparr>) = dq_ok d"
  "dq_max_size (d\<lparr>dq_numAllocated := n\<rparr>) = dq_max_size d"
  "dq_max_size (d\<lparr>dq_start := a\<rparr>) = dq_max_size d"
  "dq_index (d\<lparr>dq_numAllocated := n\<rparr>) i = dq_index d i"
  by (simp_all add: dq_get_def dq_ok_def dq_max_size_def dq_index_def Let_def)

lemma view_dq_frame [simp]: "view dq_get (d\<lparr>dq_numAllocated := n\<rparr>) m = view dq_get d m"
  by (simp add: view_def)

lemma dq_loop_numAllocated [simp]:
  "dq_numAllocated (fill_slots dq_put d e xs) = dq_numAllocated d"
  "dq_numAllocated (shift_up dq_put dq_get k c n d) = dq_numAllocated d"
  "dq_numAllocated (shift_down dq_put dq_get k f l d) = dq_numAllocated d"
  by (induction xs arbitrary: d e, simp_all)
     (induction k arbitrary: c d f l, simp_all)+

lemma dq_put_num: "dq_put (d\<lparr>dq_numAllocated := n\<rparr>) i v = (dq_put d i v)\<lparr>dq_numAllocated := n\<rparr>"
  by (simp add: dq_put_def)

lemma dq_fill_num [simp]:
  "fill_slots dq_put (d\<lparr>dq_numAllocated := n\<rparr>) e xs = (fill_slots dq_put d e xs)\<lparr>dq_numAllocated := n\<rparr>"
  by (induction xs arbitrary: d e) (simp_all add: dq_put_num)

lemmas dq_loop_simps [simp] =
  dq.cap_fill dq.ok_fill dq.cap_shift_up dq.ok_shift_up dq.cap_shift_down dq.ok_shift_down

lemma length_dq_elems [simp]: "length (dq_elems d) = dq_size d"
  by (simp add: dq_elems_def dq_size_def)

lemma dq_inv_new: "dq_inv (dq_new storage)"
  by (auto simp: dq_defs dq_new_def)

lemma dq_elems_new [simp]: "dq_elems (dq_new storage) = []"
  by (simp add: dq_elems_def dq_new_def view_def)

section \<open>The effect of each operation on the elements\<close>

definition dq_yields :: "'a deque result \<Rightarrow> nat \<Rightarrow> 'a list \<Rightarrow> bool" where
  "dq_yields r m xs \<longleftrightarrow> (\<exists>d. r = Inr d \<and> dq_inv d \<and> dq_max_size d = m \<and> dq_elems d = xs)"

lemma dq_yieldsI:
  "dq_inv d \<Longrightarrow> dq_max_size d = m \<Longrightarrow> dq_elems d = xs \<Longrightarrow> dq_yields (Inr d) m xs"
  by (auto simp: dq_yields_def)

lemma dq_yields_Inr: "dq_yields (Inr d) m xs \<longleftrightarrow> dq_inv d \<and> dq_max_size d = m \<and> dq_elems d = xs"
  by (auto simp: dq_yields_def)

text \<open>Moving the start back by \<open>n\<close> slots renumbers the elements by \<open>n\<close>, moving it on by one
  renumbers them the other way.\<close>

lemma dq_index_back:
  assumes "dq_ok d" and "n \<le> dq_max_size d" and "i + n \<le> dq_max_size d" and "i < dq_max_size d"
  shows "dq_index (d\<lparr>dq_start := dq_index d (dq_max_size d - n)\<rparr>) (i + n) = dq_index d i"
  using assms by (auto simp: dq_index_def Let_def dq_ok_def)

lemma dq_index_on:
  assumes "dq_ok d" and "Suc i < dq_max_size d"
  shows "dq_index (d\<lparr>dq_start := dq_index d 1\<rparr>) i = dq_index d (Suc i)"
  using assms by (auto simp: dq_index_def Let_def dq_ok_def)

lemma dq_index_start: "k < dq_max_size d \<Longrightarrow> dq_index (d\<lparr>dq_start := k\<rparr>) 0 = k"
  by (simp add: dq_index_def dq_max_size_def)

lemma dq_push_back_yields:
  assumes "dq_inv d" and "\<not> dq_full d"
  shows "dq_yields (dq_push_back d v) (dq_max_size d) (dq_elems d @ [v])"
  using assms by (auto simp: dq_push_back_def dq_yields_Inr dq_inv_def dq_full_def dq_elems_def
    dq.view_put_end)

lemma dq_emplace_back_yields:
  assumes "dq_inv d" and "\<not> dq_full d"
  shows "dq_yields (dq_emplace_back d v) (dq_max_size d) (dq_elems d @ [v])"
  using dq_push_back_yields [OF assms] assms(2)
  by (simp add: dq_emplace_back_def dq_push_back_def dq_size_def dq_full_def)

lemma dq_push_full:
  "dq_full d \<Longrightarrow> dq_push_back d v = Inl Assert_failed"
  "dq_full d \<Longrightarrow> dq_push_front d v = Inl Assert_failed"
  "dq_full d \<Longrightarrow> dq_emplace_back d v = Inl Assert_failed"
  "dq_full d \<Longrightarrow> dq_emplace_front d v = Inl Assert_failed"
  by (simp_all add: dq_push_back_def dq_push_front_def dq_emplace_back_def dq_emplace_front_def
    dq_full_def dq_size_def)

lemma dq_push_all_yields:
  assumes "dq_inv d" and "dq_size d + length xs \<le> dq_max_size d"
  shows "dq_yields (dq_push_all d xs) (dq_max_size d) (dq_elems d @ xs)"
  using assms
proof (induction xs arbitrary: d)
  case Nil
  then show ?case by (simp add: dq_yields_Inr)
next
  case (Cons x xs)
  have "\<not> dq_full d" using Cons.prems by (simp add: dq_full_def dq_size_def)
  from dq_push_back_yields [OF Cons.prems(1) this, of x]
  obtain d' where d': "dq_push_back d x = Inr d'" "dq_inv d'" "dq_max_size d' = dq_max_size d"
      "dq_elems d' = dq_elems d @ [x]"
    by (auto simp: dq_yields_def)
  then have "dq_size d' = Suc (dq_size d)"
    by (metis length_append_singleton length_dq_elems)
  with Cons.IH [of d'] Cons.prems d' show ?case by simp
qed

lemma dq_push_all_overflow:
  assumes "dq_inv d" and "dq_max_size d < dq_size d + length xs"
  shows "dq_push_all d xs = Inl Assert_failed"
  using assms
proof (induction xs arbitrary: d)
  case Nil
  then show ?case by (simp add: dq_inv_def dq_size_def)
next
  case (Cons x xs)
  show ?case
  proof (cases "dq_full d")
    case True
    then show ?thesis by (simp add: dq_push_full)
  next
    case False
    from dq_push_back_yields [OF Cons.prems(1) this, of x]
    obtain d' where d': "dq_push_back d x = Inr d'" "dq_inv d'" "dq_max_size d' = dq_max_size d"
        "dq_elems d' = dq_elems d @ [x]"
      by (auto simp: dq_yields_def)
    then have "dq_size d' = Suc (dq_size d)"
      by (metis length_append_singleton length_dq_elems)
    with Cons.IH [of d'] Cons.prems d' show ?thesis by simp
  qed
qed

lemma dq_clear_props [simp]:
  "dq_inv d \<Longrightarrow> dq_inv (dq_clear d)" "dq_max_size (dq_clear d) = dq_max_size d"
  "dq_elems (dq_clear d) = []" "dq_size (dq_clear d) = 0"
  by (auto simp: dq_clear_def dq_defs dq_elems_def view_def)

lemma dq_assign_yields:
  assumes "dq_inv d"
  shows "length xs \<le> dq_max_size d \<Longrightarrow> dq_yields (dq_assign d xs) (dq_max_size d) xs"
    and "dq_max_size d < length xs \<Longrightarrow> dq_assign d xs = Inl Assert_failed"
  using dq_push_all_yields [of "dq_clear d" xs] dq_push_all_overflow [of "dq_clear d" xs] assms
  by (simp_all add: dq_assign_def)

lemma dq_pop_back_yields:
  assumes "dq_inv d" and "\<not> dq_empty d"
  shows "dq_yields (dq_pop_back d) (dq_max_size d) (butlast (dq_elems d))"
proof -
  have "view dq_get d (dq_numAllocated d - 1) = butlast (view dq_get d (dq_numAllocated d))"
    by (intro nth_equalityI) (simp_all add: nth_butlast)
  with assms show ?thesis
    by (auto simp: dq_pop_back_def dq_yields_Inr dq_inv_def dq_empty_def dq_elems_def)
qed

lemma dq_pop_empty:
  "dq_empty d \<Longrightarrow> dq_pop_back d = Inl Assert_failed"
  "dq_empty d \<Longrightarrow> dq_pop_front d = Inl Assert_failed"
  by (simp_all add: dq_pop_back_def dq_pop_front_def)

lemma dq_pop_n_yields:
  assumes "dq_inv d" and "k \<le> dq_size d"
  shows "dq_yields (dq_pop_n k d) (dq_max_size d) (take (dq_size d - k) (dq_elems d))"
  using assms
proof (induction k arbitrary: d)
  case 0
  then show ?case by (simp add: dq_yields_Inr)
next
  case (Suc k)
  have "\<not> dq_empty d" using Suc.prems by (simp add: dq_empty_def dq_size_def)
  from dq_pop_back_yields [OF Suc.prems(1) this]
  obtain d' where d': "dq_pop_back d = Inr d'" "dq_inv d'" "dq_max_size d' = dq_max_size d"
      "dq_elems d' = butlast (dq_elems d)"
    by (auto simp: dq_yields_def)
  then have s: "dq_size d' = dq_size d - 1"
    by (metis length_butlast length_dq_elems)
  have "take (dq_size d' - k) (dq_elems d') = take (dq_size d - Suc k) (dq_elems d)"
    using d' s by (simp add: butlast_conv_take)
  with Suc.IH [of d'] Suc.prems d' s show ?case by simp
qed

lemma dq_resize_yields:
  assumes inv: "dq_inv d" and n: "n \<le> dq_max_size d"
  shows "dq_yields (dq_resize d n v) (dq_max_size d)
    (take n (dq_elems d) @ replicate (n - dq_size d) v)"
proof -
  obtain d' where d': "dq_pop_n (dq_size d - n) d = Inr d'" "dq_inv d'" "dq_max_size d' = dq_max_size d"
      "dq_elems d' = take (dq_size d - (dq_size d - n)) (dq_elems d)"
    using dq_pop_n_yields [OF inv, of "dq_size d - n"] by (auto simp: dq_yields_def)
  then have e: "dq_elems d' = take n (dq_elems d)"
    by (cases "n \<le> dq_size d") simp_all
  then have s: "dq_size d' = min (dq_size d) n"
    by (metis length_dq_elems length_take min.commute)
  have "n - dq_size d' = n - dq_size d" and "dq_size d' + (n - dq_size d) \<le> dq_max_size d"
    using s n inv by (auto simp: dq_inv_def dq_size_def)
  with dq_push_all_yields [OF d'(2), of "replicate (n - dq_size d) v"] d' e show ?thesis
    by (simp add: dq_resize_def)
qed

lemma dq_elems_front:
  assumes ok: "dq_ok d" and room: "dq_numAllocated d + length xs \<le> dq_max_size d"
    and ne: "xs \<noteq> [] \<or> dq_max_size d \<noteq> 0"
  defines "e \<equiv> d\<lparr>dq_start := dq_index d (dq_max_size d - length xs),
                 dq_numAllocated := dq_numAllocated d + length xs\<rparr>"
  shows "dq_yields (Inr (fill_slots dq_put e 0 xs)) (dq_max_size d) (xs @ dq_elems d)"
proof -
  have pos: "0 < dq_max_size d" using ne room by (cases xs) auto
  have m: "dq_max_size e = dq_max_size d" by (simp add: e_def dq_max_size_def)
  have oke: "dq_ok e"
    using ok pos room unfolding dq_ok_def m by (auto simp: e_def dq_index_def Let_def)
  have old: "dq_get e (i + length xs) = dq_get d i" if "i < dq_numAllocated d" for i
    using dq_index_back [OF ok, of "length xs" i] room that
    by (simp add: dq_get_def e_def)
  have "view dq_get (fill_slots dq_put e 0 xs) (dq_numAllocated d + length xs) = xs @ view dq_get d (dq_numAllocated d)"
  proof (rule nth_equalityI)
    fix i
    assume "i < length (view dq_get (fill_slots dq_put e 0 xs) (dq_numAllocated d + length xs))"
    then show "view dq_get (fill_slots dq_put e 0 xs) (dq_numAllocated d + length xs) ! i =
        (xs @ view dq_get d (dq_numAllocated d)) ! i"
      using room m old [of "i - length xs"]
      by (auto simp: dq.get_fill [OF oke] nth_append)
  qed simp
  then show ?thesis
    using oke m room by (simp add: dq_yields_Inr dq_elems_def dq_inv_def) (simp add: e_def)
qed

lemma dq_push_front_yields:
  assumes "dq_inv d" and "\<not> dq_full d"
  shows "dq_yields (dq_push_front d v) (dq_max_size d) (v # dq_elems d)"
proof -
  let ?a = "dq_index d (dq_max_size d - 1)"
  have lt: "?a < dq_max_size d"
    using assms by (intro dq_index_less) (auto simp: dq_inv_def dq_full_def)
  have "dq_put (d\<lparr>dq_start := ?a, dq_numAllocated := dq_numAllocated d + 1\<rparr>) 0 v =
      d\<lparr>dq_start := ?a, dq_storage := (dq_storage d)[?a := v], dq_numAllocated := dq_numAllocated d + 1\<rparr>"
    using dq_index_start [OF lt] by (simp add: dq_put_def)
  then show ?thesis
    using dq_elems_front [of d "[v]"] assms
    by (simp add: dq_push_front_def dq_inv_def dq_full_def Let_def)
qed

lemma dq_emplace_front_eq:
  assumes "dq_inv d"
  shows "dq_emplace_front d v = dq_push_front d v"
proof (cases "dq_full d")
  case True
  then show ?thesis by (simp add: dq_push_full)
next
  case False
  have a: "dq_index d (dq_max_size d - 1) = (if dq_start d \<noteq> 0 then dq_start d - 1 else dq_max_size d - 1)"
    using assms False by (auto simp: dq_index_def dq_defs Let_def)
  moreover have "dq_index d (dq_max_size d - 1) < dq_max_size d"
    using assms False by (intro dq_index_less) (auto simp: dq_defs)
  ultimately show ?thesis
    using False by (auto simp: a dq_index_start dq_emplace_front_def dq_push_front_def dq_put_def
      dq_full_def dq_size_def Let_def split: if_splits)
qed

lemma dq_pop_front_yields:
  assumes "dq_inv d" and "\<not> dq_empty d"
  shows "dq_yields (dq_pop_front d) (dq_max_size d) (tl (dq_elems d))"
proof -
  let ?e = "d\<lparr>dq_start := dq_index d 1\<rparr>"
  have ok: "dq_ok d" and n: "dq_numAllocated d \<le> dq_max_size d" "0 < dq_numAllocated d"
    using assms by (simp_all add: dq_inv_def dq_empty_def)
  have oke: "dq_ok ?e"
    using ok n by (auto simp: dq_ok_def dq_index_def Let_def)
  have "view dq_get ?e (dq_numAllocated d - 1) = tl (view dq_get d (dq_numAllocated d))"
  proof (rule nth_equalityI)
    fix i
    assume "i < length (view dq_get ?e (dq_numAllocated d - 1))"
    then show "view dq_get ?e (dq_numAllocated d - 1) ! i = tl (view dq_get d (dq_numAllocated d)) ! i"
      using dq_index_on [OF ok, of i] n by (simp add: nth_tl dq_get_def)
  qed simp
  then show ?thesis
    using assms oke n by (simp add: dq_pop_front_def dq_yields_Inr dq_inv_def dq_elems_def)
qed

lemma dq_drop_front_yields:
  assumes "dq_inv d" and "k \<le> dq_size d"
  shows "dq_yields (Inr (dq_drop_front k d)) (dq_max_size d) (drop k (dq_elems d))"
  using assms
proof (induction k arbitrary: d)
  case 0
  then show ?case by (simp add: dq_yields_Inr)
next
  case (Suc k)
  let ?d = "d\<lparr>dq_numAllocated := dq_numAllocated d - 1, dq_start := dq_index d 1\<rparr>"
  have ne: "\<not> dq_empty d" using Suc.prems by (simp add: dq_empty_def dq_size_def)
  have "dq_pop_front d = Inr ?d" using ne by (simp add: dq_pop_front_def)
  with dq_pop_front_yields [OF Suc.prems(1) ne]
  have "dq_inv ?d" "dq_max_size ?d = dq_max_size d" "dq_elems ?d = tl (dq_elems d)"
    by (simp_all add: dq_yields_Inr)
  moreover have "dq_size ?d = dq_size d - 1" by (simp add: dq_size_def)
  ultimately show ?case
    using Suc.IH [of ?d] Suc.prems by (simp add: drop_Suc)
qed

section \<open>Insertion and removal\<close>

lemma dq_insert_range_yields:
  assumes inv: "dq_inv d" and p: "p \<le> dq_size d" and room: "dq_size d + length xs \<le> dq_max_size d"
  shows "dq_yields (dq_insert_range d p xs) (dq_max_size d) (take p (dq_elems d) @ xs @ drop p (dq_elems d))"
proof (cases "p = 0 \<and> dq_numAllocated d \<noteq> 0")
  case True
  then have "xs \<noteq> [] \<or> dq_max_size d \<noteq> 0" using inv by (auto simp: dq_inv_def)
  with True show ?thesis
    using dq_elems_front [of d xs] inv room
    by (simp add: dq_insert_range_def dq_inv_def dq_size_def Let_def)
next
  case False
  with inv p room show ?thesis
    using dq.view_insert [of d p "dq_numAllocated d" xs]
    by (auto simp: dq_insert_range_def dq_size_def dq_yields_Inr dq_inv_def dq_elems_def dq_move_up_def Let_def)
qed

lemma dq_insert_n_range: "dq_insert_n d p n v = dq_insert_range d p (replicate n v)"
  by (simp add: dq_insert_n_def dq_insert_range_def Let_def)

lemma dq_insert_range_overflow:
  "dq_max_size d < dq_size d + length xs \<Longrightarrow> dq_insert_range d p xs = Inl Assert_failed"
  by (simp add: dq_insert_range_def Let_def)

lemma dq_insert_yields:
  assumes "dq_inv d" and "p \<le> dq_size d" and "\<not> dq_full d"
  shows "dq_yields (dq_insert d p v) (dq_max_size d) (take p (dq_elems d) @ v # drop p (dq_elems d))"
  using dq_insert_range_yields [of d p "[v]"] assms
  by (simp add: dq_insert_def dq_insert_n_range dq_full_def dq_inv_def dq_size_def)

lemma dq_emplace_yields:
  assumes inv: "dq_inv d" and p: "p \<le> dq_size d" and room: "\<not> dq_full d"
  shows "dq_yields (dq_emplace d p v) (dq_max_size d) (take p (dq_elems d) @ v # drop p (dq_elems d))"
  using assms dq.view_insert [of d p "dq_numAllocated d" "[v]"]
  by (simp add: dq_emplace_def dq_move_up_def dq_put_num dq_yields_Inr dq_inv_def dq_elems_def
    dq_size_def dq_full_def)

lemma dq_erase_range_yields:
  assumes inv: "dq_inv d" and f: "f \<le> l" and l: "l \<le> dq_size d"
  shows "dq_yields (dq_erase_range d f l) (dq_max_size d) (take f (dq_elems d) @ drop l (dq_elems d))"
proof (cases "f = 0")
  case True
  with dq_drop_front_yields [OF inv l] l show ?thesis by (simp add: dq_erase_range_def)
next
  case False
  with assms show ?thesis
    using dq.view_erase [of d f l "dq_numAllocated d"]
    by (auto simp: dq_erase_range_def dq_size_def dq_yields_Inr dq_inv_def dq_elems_def Let_def)
qed

lemma dq_erase_yields:
  assumes "dq_inv d" and "p < dq_size d"
  shows "dq_yields (dq_erase d p) (dq_max_size d) (take p (dq_elems d) @ drop (Suc p) (dq_elems d))"
  using dq_erase_range_yields [of d p "Suc p"] assms by (simp add: dq_erase_def)

section \<open>Reading\<close>

lemma dq_reads:
  assumes "dq_inv d"
  shows "i < dq_size d \<Longrightarrow> dq_at d i = Inr (dq_elems d ! i)"
    and "dq_size d \<le> i \<Longrightarrow> dq_at d i = Inl Assert_failed"
    and "dq_elems d \<noteq> [] \<Longrightarrow> dq_front d = Inr (hd (dq_elems d))"
    and "dq_elems d \<noteq> [] \<Longrightarrow> dq_back d = Inr (last (dq_elems d))"
    and "dq_elems d = [] \<Longrightarrow> dq_front d = Inl Assert_failed \<and> dq_back d = Inl Assert_failed"
proof -
  have e: "dq_elems d = [] \<longleftrightarrow> dq_empty d"
    by (metis dq_empty_def dq_size_def length_0_conv length_dq_elems)
  have "dq_index d 0 = dq_start d" if "\<not> dq_empty d"
    using assms that by (auto simp: dq_defs dq_index_def)
  then show "dq_elems d \<noteq> [] \<Longrightarrow> dq_front d = Inr (hd (dq_elems d))"
    using e by (auto simp: dq_front_def hd_conv_nth dq_elems_def dq_get_def dq_empty_def)
  show "dq_elems d \<noteq> [] \<Longrightarrow> dq_back d = Inr (last (dq_elems d))"
    using e by (auto simp: dq_back_def last_conv_nth dq_elems_def dq_empty_def)
  show "dq_elems d = [] \<Longrightarrow> dq_front d = Inl Assert_failed \<and> dq_back d = Inl Assert_failed"
    using e by (simp add: dq_front_def dq_back_def)
qed (simp_all add: dq_at_def dq_elems_def dq_size_def)

text \<open>The two contiguous ranges are a prefix of the elements from a position on, and a suffix
  of the elements before a position.\<close>

lemma dq_contiguous_range_prefix:
  assumes inv: "dq_inv d" and p: "p \<le> dq_size d" and n: "\<not> dq_empty d" and q: "p < dq_max_size d"
  shows "dq_contiguous_range d p = take (min (dq_size d - p) (dq_max_size d - dq_index d p)) (drop p (dq_elems d))"
proof -
  let ?i = "dq_index d p"
  have lt: "?i < dq_max_size d" using inv q by (intro dq_index_less) (auto simp: dq_inv_def)
  have "dq_storage d ! (?i + k) = dq_get d (p + k)" if "k < dq_max_size d - ?i" "p + k < dq_size d" for k
    using that inv by (auto simp: dq_get_def dq_index_def dq_defs Let_def add.assoc split: if_splits)
  then show ?thesis
    using lt p n by (intro nth_equalityI)
      (auto simp: dq_contiguous_range_def Let_def dq_elems_def dq_size_def dq_max_size_def less_diff_conv)
qed

text \<open>Every contiguous range of the deque shows elements from a position on, and one of them at
  least when there is one.\<close>

lemma dq_contiguous_range_take:
  assumes inv: "dq_inv d" and p: "p \<le> dq_size d"
  shows "\<exists>k. dq_contiguous_range d p = take k (drop p (dq_elems d)) \<and> (p < dq_size d \<longrightarrow> 0 < k)"
proof (cases "p < dq_size d")
  case True
  then have n: "\<not> dq_empty d" and m: "p < dq_max_size d" using inv by (auto simp: dq_defs)
  have "dq_index d p < dq_max_size d" using inv m by (intro dq_index_less) (auto simp: dq_inv_def)
  then show ?thesis unfolding dq_contiguous_range_prefix [OF inv p n m] using True
    by (intro exI [of _ "min (dq_size d - p) (dq_max_size d - dq_index d p)"]) simp
next
  case False
  with p have e: "p = dq_size d" by simp
  have "dq_contiguous_range d p = []"
    using inv by (auto simp: e dq_contiguous_range_def dq_defs Let_def)
  with e show ?thesis by simp
qed

text \<open>Two contiguous ranges of the deque hold all it has.\<close>

lemma dq_two_ranges:
  assumes inv: "dq_inv d" and p: "p < dq_size d"
  shows "dq_contiguous_range d p @ dq_contiguous_range d (p + length (dq_contiguous_range d p)) = drop p (dq_elems d)"
proof -
  have n: "\<not> dq_empty d" and m: "p < dq_max_size d" using inv p by (auto simp: dq_defs)
  note r1 = dq_contiguous_range_prefix [OF inv less_imp_le [OF p] n m]
  let ?k = "min (dq_size d - p) (dq_max_size d - dq_index d p)"
  have k: "length (dq_contiguous_range d p) = ?k" by (simp add: r1)
  show ?thesis
  proof (cases "?k = dq_size d - p")
    case True
    then have "p + ?k = dq_size d" using p by simp
    moreover obtain j where "dq_contiguous_range d (dq_size d) = take j (drop (dq_size d) (dq_elems d))"
      using dq_contiguous_range_take [OF inv order_refl] by blast
    ultimately show ?thesis using True unfolding k by (simp add: r1)
  next
    case False
    then have lt: "p + ?k < dq_size d" and ke: "?k = dq_max_size d - dq_index d p" by auto
    then have m2: "p + ?k < dq_max_size d" using inv by (auto simp: dq_defs)
    have "dq_index d (p + ?k) = 0"
      using inv m m2 unfolding ke by (auto simp: dq_index_def dq_defs Let_def split: if_splits)
    then have "dq_contiguous_range d (p + ?k) = drop (p + ?k) (dq_elems d)"
      unfolding dq_contiguous_range_prefix [OF inv less_imp_le [OF lt] n m2] using inv by (auto simp: dq_inv_def dq_size_def intro: order_trans [OF diff_le_self])
    then show ?thesis unfolding k unfolding r1 using append_take_drop_id [of ?k "drop p (dq_elems d)"] by (simp add: add.commute)
  qed
qed

lemma dq_drop_front_start:
  "dq_ok d \<Longrightarrow> l \<le> dq_max_size d \<Longrightarrow> dq_start (dq_drop_front l d) = dq_index d l"
proof (induction l arbitrary: d)
  case 0
  then show ?case by (auto simp: dq_index_def dq_ok_def Let_def)
next
  case (Suc l)
  let ?d = "d\<lparr>dq_numAllocated := dq_numAllocated d - 1, dq_start := dq_index d 1\<rparr>"
  have m: "dq_max_size ?d = dq_max_size d" by (simp add: dq_max_size_def)
  have "dq_start ?d < dq_max_size d" using dq_index_less [of d 1] Suc.prems
    by (auto simp: dq_ok_def dq_index_def Let_def)
  then have "dq_ok ?d" by (simp add: dq_ok_def m)
  from Suc.IH [OF this] Suc.prems have "dq_start (dq_drop_front (Suc l) d) = dq_index ?d l" by (simp add: m)
  also have "\<dots> = dq_index d (Suc l)"
    using Suc.prems by (auto simp: dq_index_def m Let_def dq_ok_def)
  finally show ?case .
qed

lemma dq_contiguous_range_at_end_suffix:
  assumes inv: "dq_inv d" and p: "p \<le> dq_size d" and n: "\<not> dq_empty d" and q: "p < dq_max_size d"
  shows "\<exists>k \<le> p. dq_contiguous_range_at_end d p = drop k (take p (dq_elems d)) \<and> (p = 0 \<or> k < p)"
proof -
  let ?b = "dq_index d p"
  let ?i = "if ?b = 0 then dq_max_size d else ?b"
  let ?k = "p - ?i"
  have lt: "?b < dq_max_size d" using inv q by (intro dq_index_less) (auto simp: dq_inv_def)
  have pos: "0 < ?i" using lt by auto
  have get: "dq_storage d ! (?i - p + k) = dq_get d (?k + k)" if "k < ?i - (?i - p)" for k
    using that inv p q lt by (auto simp: dq_get_def dq_index_def dq_defs Let_def add.assoc split: if_splits
      intro!: arg_cong [where f = "(!) (dq_storage d)"])
  have len: "?i \<le> dq_max_size d" using lt by auto
  have "dq_contiguous_range_at_end d p = take (?i - (?i - p)) (drop (?i - p) (dq_storage d))"
    using n by (simp add: dq_contiguous_range_at_end_def Let_def dq_max_size_def)
  also have "\<dots> = drop ?k (take p (dq_elems d))"
    using get len p by (intro nth_equalityI) (auto simp: dq_elems_def dq_size_def dq_max_size_def)
  finally show ?thesis
    using pos by (intro exI [of _ ?k]) auto
qed

section \<open>Moving and swapping\<close>

lemma dq_get_unrotated: "dq_start d = 0 \<Longrightarrow> i < dq_max_size d \<Longrightarrow> dq_get d i = dq_storage d ! i"
  by (simp add: dq_get_def dq_index_def)

lemma dq_move_assign_yields:
  assumes "dq_inv d" and "dq_size other \<le> dq_max_size d"
  shows "dq_yields (dq_move_assign d other) (dq_max_size d) (dq_elems other)"
proof -
  let ?e = "(dq_clear d)\<lparr>dq_numAllocated := dq_numAllocated other,
      dq_storage := store_first (dq_storage d) 0 (dq_elems other)\<rparr>"
  have "dq_get ?e i = dq_elems other ! i" if "i < dq_size other" for i
    using assms that by (subst dq_get_unrotated)
      (auto simp: dq_size_def dq_max_size_def dq_clear_def nth_store_first)
  then have "dq_elems ?e = dq_elems other"
    by (intro nth_equalityI) (simp_all add: dq_elems_def dq_size_def)
  moreover have "dq_inv ?e"
    using assms by (auto simp: dq_defs dq_clear_def)
  ultimately show ?thesis
    using assms by (simp add: dq_move_assign_def dq_yields_Inr dq_size_def dq_clear_def dq_max_size_def)
qed

lemma dq_copy_assign_yields:
  assumes "dq_inv d"
  shows "dq_size other \<le> dq_max_size d \<Longrightarrow> dq_yields (dq_copy_assign d other) (dq_max_size d) (dq_elems other)"
    and "dq_max_size d < dq_size other \<Longrightarrow> dq_copy_assign d other = Inl Assert_failed"
  using dq_assign_yields [OF assms, of "dq_elems other"] by (simp_all add: dq_copy_assign_def)

lemma dq_swap_common:
  assumes "dq_ok d" and "dq_ok e" and "n \<le> dq_max_size d" and "n \<le> dq_max_size e"
  shows "case fold dq_swap_slot [0..<n] (d, e) of (d', e') \<Rightarrow>
    dq_ok d' \<and> dq_ok e' \<and> dq_max_size d' = dq_max_size d \<and> dq_max_size e' = dq_max_size e \<and>
    (\<forall>i. dq_index d' i = dq_index d i \<and> dq_index e' i = dq_index e i) \<and>
    (\<forall>i < dq_max_size d. dq_get d' i = (if i < n then dq_get e i else dq_get d i)) \<and>
    (\<forall>i < dq_max_size e. dq_get e' i = (if i < n then dq_get d i else dq_get e i))"
  using assms
proof (induction n)
  case 0
  then show ?case by simp
next
  case (Suc n)
  obtain d' e' where r: "fold dq_swap_slot [0..<n] (d, e) = (d', e')"
    by (cases "fold dq_swap_slot [0..<n] (d, e)")
  with Suc show ?case
    by (auto simp: dq_swap_slot_def dq.get_put)
qed

lemma dq_copy_up:
  assumes "dq_ok d" and "b \<le> dq_max_size d"
  shows "dq_ok (fold (\<lambda>i d. dq_put d i (f i)) [a..<b] d) \<and>
    dq_max_size (fold (\<lambda>i d. dq_put d i (f i)) [a..<b] d) = dq_max_size d \<and>
    (\<forall>i < dq_max_size d. dq_get (fold (\<lambda>i d. dq_put d i (f i)) [a..<b] d) i =
       (if a \<le> i \<and> i < b then f i else dq_get d i))"
  using assms by (induction b) (auto simp: dq.get_put less_Suc_eq le_less)

theorem dq_swap_yields:
  assumes d: "dq_inv d" and e: "dq_inv e" and de: "dq_size d \<le> dq_max_size e" and ed: "dq_size e \<le> dq_max_size d"
  shows "\<exists>d' e'. dq_swap d e = Inr (d', e') \<and> dq_inv d' \<and> dq_inv e' \<and>
    dq_max_size d' = dq_max_size d \<and> dq_max_size e' = dq_max_size e \<and>
    dq_elems d' = dq_elems e \<and> dq_elems e' = dq_elems d"
proof -
  let ?n = "min (dq_size d) (dq_size e)"
  obtain d1 e1 where r: "fold dq_swap_slot [0..<?n] (d, e) = (d1, e1)"
    by (cases "fold dq_swap_slot [0..<?n] (d, e)")
  have le: "?n \<le> dq_max_size d" "?n \<le> dq_max_size e"
    using d e by (auto simp: dq_inv_def dq_size_def)
  have c: "dq_ok d1" "dq_ok e1" "dq_max_size d1 = dq_max_size d" "dq_max_size e1 = dq_max_size e"
    "\<forall>i < dq_max_size d. dq_get d1 i = (if i < ?n then dq_get e i else dq_get d i)"
    "\<forall>i < dq_max_size e. dq_get e1 i = (if i < ?n then dq_get d i else dq_get e i)"
    using dq_swap_common [OF _ _ le] d e r by (simp_all add: dq_inv_def)
  let ?d2 = "fold (\<lambda>i d. dq_put d i (dq_get e1 i)) [dq_size d..<dq_size e] d1"
  let ?e2 = "fold (\<lambda>i e. dq_put e i (dq_get ?d2 i)) [dq_size e..<dq_size d] e1"
  have guard: "list_all (\<lambda>i. dq_index d i < dq_max_size d) [dq_size d..<dq_size e]"
      "list_all (\<lambda>i. dq_index e i < dq_max_size e) [dq_size e..<dq_size d]"
    using d e de ed dq_index_less [of d] dq_index_less [of e] by (auto simp: list_all_iff dq_inv_def)
  have d2: "dq_ok ?d2" "dq_max_size ?d2 = dq_max_size d"
    "\<forall>i < dq_size e. dq_get ?d2 i = dq_get e i" "\<forall>i. dq_size e \<le> i \<and> i < dq_size d \<longrightarrow> dq_get ?d2 i = dq_get d i"
    using dq_copy_up [of d1 "dq_size e" "dq_get e1" "dq_size d"] c d e de ed by (auto simp: dq_inv_def dq_size_def)
  have e2: "dq_ok ?e2" "dq_max_size ?e2 = dq_max_size e" "\<forall>i < dq_size d. dq_get ?e2 i = dq_get d i"
    using dq_copy_up [of e1 "dq_size d" "dq_get ?d2" "dq_size e"] c d e de ed d2 by (auto simp: dq_inv_def dq_size_def)
  have "dq_swap d e = Inr (?d2\<lparr>dq_numAllocated := dq_numAllocated e\<rparr>, ?e2\<lparr>dq_numAllocated := dq_numAllocated d\<rparr>)"
    using guard r by (simp add: dq_swap_def Let_def)
  moreover have "view dq_get ?d2 (dq_size e) = dq_elems e" "view dq_get ?e2 (dq_size d) = dq_elems d"
    using d2 e2 by (auto intro!: nth_equalityI simp: dq_elems_def dq_size_def)
  ultimately show ?thesis
    using d2(1,2) e2(1,2) de ed by (auto simp: dq_inv_def dq_elems_def dq_size_def)
qed

section \<open>Refinement to a bounded sequence\<close>

fun dq_step :: "'a seq_op \<Rightarrow> 'a deque \<Rightarrow> 'a deque result" where
  "dq_step (Push_back v) d = dq_push_back d v"
| "dq_step (Push_front v) d = dq_push_front d v"
| "dq_step Pop_back d = dq_pop_back d"
| "dq_step Pop_front d = dq_pop_front d"
| "dq_step (Insert_range p xs) d = dq_insert_range d p xs"
| "dq_step (Erase_range f l) d = dq_erase_range d f l"
| "dq_step Clear d = Inr (dq_clear d)"
| "dq_step (Assign xs) d = dq_assign d xs"
| "dq_step (Resize n v) d = dq_resize d n v"

definition dq_abs :: "'a deque \<Rightarrow> nat \<times> 'a list" where
  "dq_abs d = (dq_max_size d, dq_elems d)"

lemma dq_yields_abs:
  "dq_yields r m xs \<Longrightarrow> map_sum id dq_abs r = Inr (m, xs) \<and> (\<forall>d. r = Inr d \<longrightarrow> dq_inv d)"
  by (auto simp: dq_yields_def dq_abs_def)

lemma dq_size_bounds:
  assumes "dq_inv d"
  shows "dq_full d \<longleftrightarrow> \<not> dq_size d < dq_max_size d" and "dq_empty d \<longleftrightarrow> dq_elems d = []"
  using assms by (auto simp: dq_defs dq_elems_def view_def)

lemma dq_resize_overflow:
  assumes "dq_inv d" and "dq_max_size d < n"
  shows "dq_resize d n v = Inl Assert_failed"
  using assms dq_push_all_overflow [of d "replicate (n - dq_size d) v"]
  by (auto simp: dq_resize_def dq_inv_def dq_size_def)

lemma dq_step_refines:
  assumes inv: "dq_inv d"
  shows "map_sum id dq_abs (dq_step x d) = seq_step x (dq_abs d) \<and> (\<forall>d'. dq_step x d = Inr d' \<longrightarrow> dq_inv d')"
proof (cases x)
  case (Push_back v)
  then show ?thesis using dq_push_back_yields [OF inv, of v, THEN dq_yields_abs] dq_push_full [of d v]
    by (cases "dq_full d") (auto simp: dq_abs_def dq_size_bounds [OF inv])
next
  case (Push_front v)
  then show ?thesis using dq_push_front_yields [OF inv, of v, THEN dq_yields_abs] dq_push_full [of d v]
    by (cases "dq_full d") (auto simp: dq_abs_def dq_size_bounds [OF inv])
next
  case Pop_back
  then show ?thesis using dq_pop_back_yields [OF inv, THEN dq_yields_abs] dq_pop_empty [of d]
    by (cases "dq_empty d") (auto simp: dq_abs_def dq_size_bounds [OF inv])
next
  case Pop_front
  then show ?thesis using dq_pop_front_yields [OF inv, THEN dq_yields_abs] dq_pop_empty [of d]
    by (cases "dq_empty d") (auto simp: dq_abs_def dq_size_bounds [OF inv])
next
  case (Insert_range p xs)
  show ?thesis
  proof (cases "dq_size d + length xs \<le> dq_max_size d \<and> p \<le> dq_size d")
    case True
    then show ?thesis using Insert_range dq_insert_range_yields [OF inv, of p xs, THEN dq_yields_abs]
      by (auto simp: dq_abs_def)
  next
    case False
    then show ?thesis using Insert_range
      by (auto simp: dq_abs_def dq_insert_range_def Let_def dq_size_def really_assert_def in_bounds_def)
  qed
next
  case (Erase_range f l)
  show ?thesis
  proof (cases "f \<le> l \<and> l \<le> dq_size d")
    case True
    then show ?thesis using Erase_range dq_erase_range_yields [OF inv, of f l, THEN dq_yields_abs]
      by (auto simp: dq_abs_def)
  next
    case False
    then show ?thesis using Erase_range
      by (auto simp: dq_abs_def dq_erase_range_def dq_size_def really_assert_def in_bounds_def)
  qed
next
  case Clear
  then show ?thesis using inv by (simp add: dq_abs_def)
next
  case (Assign xs)
  then show ?thesis using dq_assign_yields(1) [OF inv, of xs, THEN dq_yields_abs] dq_assign_yields(2) [OF inv, of xs]
    by (cases "length xs \<le> dq_max_size d") (auto simp: dq_abs_def)
next
  case (Resize n v)
  then show ?thesis using dq_resize_yields [OF inv, of n v, THEN dq_yields_abs] dq_resize_overflow [OF inv, of n v]
    by (cases "n \<le> dq_max_size d") (auto simp: dq_abs_def)
qed

interpretation dq_ref: refinement dq_inv dq_abs dq_step seq_step
  by unfold_locales (use dq_step_refines in blast)+

text \<open>C1: starting from any well-formed ring, every sequence of deque operations gives what the
  same operations give on a bounded sequence, or stops with the same fault at the same operation;
  a full or an empty deque is detected exactly when the sequence is full or empty, whatever the
  position of the ring's start.\<close>

theorem deque_refines_sequence:
  assumes "dq_inv d"
  shows "map_sum id dq_abs (run_ops dq_step xs d) = run_ops seq_step xs (dq_abs d)"
  using assms by (rule dq_ref.run_simulates)

theorem deque_refines_sequence_witness:
  "map_sum id dq_abs (run_ops dq_step [Push_back 1, Push_front 2, Insert_range 1 [3, 4], Erase_range 1 2]
      (dq_new (replicate 4 (0::nat)))) = Inr (4, [2, 4, 1])"
  using deque_refines_sequence [OF dq_inv_new, of "[Push_back 1, Push_front 2, Insert_range 1 [3, 4], Erase_range 1 2]"
      "replicate 4 (0::nat)"]
  by (simp add: dq_abs_def dq_new_def dq_max_size_def dq_elems_def view_def numeral_nat)

section \<open>Iterators\<close>

text \<open>\<open>detail::BoundedDequeIterator\<close> is an index of type \<open>std::size_t\<close> and the address of its deque.
  Comparing iterators of two deques fails an assertion; arithmetic wraps at 64 bits.\<close>

record dq_iterator =
  it_index :: u64
  it_deque :: nat

definition it_plus :: "dq_iterator \<Rightarrow> int \<Rightarrow> dq_iterator" where
  "it_plus it offset = it\<lparr>it_index := it_index it + word_of_int offset\<rparr>"

definition it_minus :: "dq_iterator \<Rightarrow> int \<Rightarrow> dq_iterator" where
  "it_minus it offset = it\<lparr>it_index := it_index it - word_of_int offset\<rparr>"

definition it_incr :: "dq_iterator \<Rightarrow> dq_iterator" where
  "it_incr it = it\<lparr>it_index := it_index it + 1\<rparr>"

definition it_post_incr :: "dq_iterator \<Rightarrow> dq_iterator \<times> dq_iterator" where
  "it_post_incr it = (it, it\<lparr>it_index := it_index it + 1\<rparr>)"

definition it_decr :: "dq_iterator \<Rightarrow> dq_iterator" where
  "it_decr it = it\<lparr>it_index := it_index it - 1\<rparr>"

definition it_post_decr :: "dq_iterator \<Rightarrow> dq_iterator \<times> dq_iterator" where
  "it_post_decr it = (it, it\<lparr>it_index := it_index it - 1\<rparr>)"

definition it_distance :: "dq_iterator \<Rightarrow> dq_iterator \<Rightarrow> int" where
  "it_distance it other = sint (it_index it - it_index other)"

definition it_deref :: "'a deque \<Rightarrow> dq_iterator \<Rightarrow> 'a result" where
  "it_deref d it = dq_at d (unat (it_index it))"

definition it_subscript :: "'a deque \<Rightarrow> dq_iterator \<Rightarrow> int \<Rightarrow> 'a result" where
  "it_subscript d it offset = dq_at d (unat (it_index it + word_of_int offset))"

definition it_eq :: "dq_iterator \<Rightarrow> dq_iterator \<Rightarrow> bool result" where
  "it_eq it other = really_assert (it_deque it = it_deque other) (Inr (it_index it = it_index other))"

definition it_ne :: "dq_iterator \<Rightarrow> dq_iterator \<Rightarrow> bool result" where
  "it_ne it other = rbind (it_eq it other) (\<lambda>b. Inr (\<not> b))"

definition it_less :: "dq_iterator \<Rightarrow> dq_iterator \<Rightarrow> bool result" where
  "it_less it other = really_assert (it_deque it = it_deque other) (Inr (it_index it < it_index other))"

definition it_greater :: "dq_iterator \<Rightarrow> dq_iterator \<Rightarrow> bool result" where
  "it_greater it other = it_less other it"

definition it_less_eq :: "dq_iterator \<Rightarrow> dq_iterator \<Rightarrow> bool result" where
  "it_less_eq it other = rbind (it_less other it) (\<lambda>b. Inr (\<not> b))"

definition it_greater_eq :: "dq_iterator \<Rightarrow> dq_iterator \<Rightarrow> bool result" where
  "it_greater_eq it other = rbind (it_less it other) (\<lambda>b. Inr (\<not> b))"

definition dq_begin :: "nat \<Rightarrow> 'a deque \<Rightarrow> dq_iterator" where
  "dq_begin address d = \<lparr>it_index = 0, it_deque = address\<rparr>"

definition dq_end :: "nat \<Rightarrow> 'a deque \<Rightarrow> dq_iterator" where
  "dq_end address d = \<lparr>it_index = of_nat (dq_numAllocated d), it_deque = address\<rparr>"

lemma it_plus_minus [simp]: "it_minus (it_plus it k) k = it" "it_plus (it_minus it k) k = it"
  by (simp_all add: it_plus_def it_minus_def)

lemma it_incr_decr [simp]: "it_decr (it_incr it) = it" "it_incr (it_decr it) = it"
  by (simp_all add: it_incr_def it_decr_def)

lemma it_plus_add: "it_plus (it_plus it j) k = it_plus it (j + k)"
  by (simp add: it_plus_def add.assoc)

lemma it_distance_plus:
  "- (2 ^ 63) \<le> k \<Longrightarrow> k < 2 ^ 63 \<Longrightarrow> it_distance (it_plus it k) it = k"
  by (simp add: it_distance_def it_plus_def signed_of_int signed_take_bit_int_eq_self)

text \<open>Iterating from \<open>begin\<close> reads the elements in order and reaches \<open>end\<close> after \<open>size\<close> steps.\<close>

lemma it_deref_elem:
  assumes "dq_inv d" and "i < dq_size d" and "dq_size d < 2 ^ 64"
  shows "it_deref d (it_plus (dq_begin a d) (int i)) = Inr (dq_elems d ! i)"
  using assms dq_reads(1) [OF assms(1,2)]
  by (simp add: it_deref_def it_plus_def dq_begin_def unat_of_nat take_bit_nat_eq_self)

lemma it_begin_end:
  "it_eq (it_plus (dq_begin a d) (int (dq_size d))) (dq_end a d) = Inr True"
  by (simp add: it_eq_def it_plus_def dq_begin_def dq_end_def dq_size_def)

end
