(* ===== verification/Bounded_Vector.thy ===== *)
theory Bounded_Vector
  imports Slots Refinement
begin

text \<open>
  \<open>infra::BoundedVector\<close> (infra/util/BoundedVector.hpp): a vector in fixed storage. Iterators are
  pointers into the storage and are modelled by their distance from \<open>begin()\<close>. The slots are the
  storage itself, so the loops of theory Slots apply with the identity as index.
\<close>

section \<open>State and element access\<close>

record 'a vec =
  vec_storage :: "'a list"
  vec_numAllocated :: nat

definition vec_new :: "'a list \<Rightarrow> 'a vec" where
  "vec_new storage = \<lparr>vec_storage = storage, vec_numAllocated = 0\<rparr>"

definition vec_size :: "'a vec \<Rightarrow> nat" where
  "vec_size v = vec_numAllocated v"

definition vec_max_size :: "'a vec \<Rightarrow> nat" where
  "vec_max_size v = length (vec_storage v)"

definition vec_empty :: "'a vec \<Rightarrow> bool" where
  "vec_empty v \<longleftrightarrow> vec_numAllocated v = 0"

definition vec_full :: "'a vec \<Rightarrow> bool" where
  "vec_full v \<longleftrightarrow> vec_numAllocated v = vec_max_size v"

definition vec_get :: "'a vec \<Rightarrow> nat \<Rightarrow> 'a" where
  "vec_get v i = vec_storage v ! i"

definition vec_put :: "'a vec \<Rightarrow> nat \<Rightarrow> 'a \<Rightarrow> 'a vec" where
  "vec_put v i x = v\<lparr>vec_storage := (vec_storage v)[i := x]\<rparr>"

definition vec_range :: "'a vec \<Rightarrow> 'a list" where
  "vec_range v = view vec_get v (vec_size v)"

definition vec_at :: "'a vec \<Rightarrow> nat \<Rightarrow> 'a result" where
  "vec_at v position = really_assert (position < vec_size v) (Inr (vec_get v position))"

definition vec_front :: "'a vec \<Rightarrow> 'a result" where
  "vec_front v = really_assert (\<not> vec_empty v) (Inr (vec_get v 0))"

definition vec_back :: "'a vec \<Rightarrow> 'a result" where
  "vec_back v = really_assert (\<not> vec_empty v) (Inr (vec_get v (vec_size v - 1)))"

section \<open>Operations at the end, filling and resizing\<close>

definition vec_push_back :: "'a vec \<Rightarrow> 'a \<Rightarrow> 'a vec result" where
  "vec_push_back v x = really_assert (\<not> vec_full v)
     (Inr ((vec_put v (vec_numAllocated v) x)\<lparr>vec_numAllocated := vec_numAllocated v + 1\<rparr>))"

definition vec_emplace_back :: "'a vec \<Rightarrow> 'a \<Rightarrow> 'a vec result" where
  "vec_emplace_back v x = really_assert (vec_size v \<noteq> vec_max_size v)
     (Inr ((vec_put v (vec_numAllocated v) x)\<lparr>vec_numAllocated := vec_numAllocated v + 1\<rparr>))"

definition vec_pop_back :: "'a vec \<Rightarrow> 'a vec result" where
  "vec_pop_back v = really_assert (\<not> vec_empty v) (Inr (v\<lparr>vec_numAllocated := vec_numAllocated v - 1\<rparr>))"

fun vec_pop_n :: "nat \<Rightarrow> 'a vec \<Rightarrow> 'a vec result" where
  "vec_pop_n 0 v = Inr v"
| "vec_pop_n (Suc k) v = rbind (vec_pop_back v) (vec_pop_n k)"

definition vec_clear :: "'a vec \<Rightarrow> 'a vec result" where
  "vec_clear v = vec_pop_n (vec_size v) v"

fun vec_push_all :: "'a vec \<Rightarrow> 'a list \<Rightarrow> 'a vec result" where
  "vec_push_all v [] = Inr v"
| "vec_push_all v (x # xs) = rbind (vec_emplace_back v x) (\<lambda>v. vec_push_all v xs)"

definition vec_assign :: "'a vec \<Rightarrow> 'a list \<Rightarrow> 'a vec result" where
  "vec_assign v xs = rbind (vec_clear v) (\<lambda>v. vec_push_all v xs)"

definition vec_assign_n :: "'a vec \<Rightarrow> nat \<Rightarrow> 'a \<Rightarrow> 'a vec result" where
  "vec_assign_n v n x = rbind (vec_clear v) (\<lambda>v. vec_push_all v (replicate n x))"

fun vec_push_n :: "nat \<Rightarrow> 'a \<Rightarrow> 'a vec \<Rightarrow> 'a vec result" where
  "vec_push_n 0 x v = Inr v"
| "vec_push_n (Suc k) x v = rbind (vec_push_back v x) (vec_push_n k x)"

definition vec_resize :: "'a vec \<Rightarrow> nat \<Rightarrow> 'a \<Rightarrow> 'a vec result" where
  "vec_resize v n x = rbind (vec_pop_n (vec_size v - n) v) (\<lambda>v. vec_push_n (n - vec_size v) x v)"

definition vec_construct_n :: "'a list \<Rightarrow> nat \<Rightarrow> 'a \<Rightarrow> 'a vec result" where
  "vec_construct_n storage n x = vec_resize (vec_new storage) n x"

definition vec_construct_range :: "'a list \<Rightarrow> 'a list \<Rightarrow> 'a vec result" where
  "vec_construct_range storage xs = vec_assign (vec_new storage) xs"

section \<open>Insertion and removal\<close>

definition vec_move_up :: "'a vec \<Rightarrow> nat \<Rightarrow> nat \<Rightarrow> 'a vec" where
  "vec_move_up v position n =
     (shift_up vec_put vec_get (vec_numAllocated v - position) (vec_numAllocated v - 1 + n) n v)
       \<lparr>vec_numAllocated := vec_numAllocated v + n\<rparr>"

definition vec_insert_range :: "'a vec \<Rightarrow> nat \<Rightarrow> 'a list \<Rightarrow> 'a vec result" where
  "vec_insert_range v position xs =
     (let n = length xs in
      really_assert (vec_size v + n \<le> vec_max_size v)
        (in_bounds (position \<le> vec_size v)
          (let initialized_size = min (min (position + n) (vec_size v)) n;
               v1 = vec_move_up v position n;
               v2 = fill_slots vec_put v1 position (take initialized_size xs)
           in Inr (fill_slots vec_put v2 (position + initialized_size) (drop initialized_size xs)))))"

definition vec_insert_n :: "'a vec \<Rightarrow> nat \<Rightarrow> nat \<Rightarrow> 'a \<Rightarrow> 'a vec result" where
  "vec_insert_n v position n x =
     really_assert (vec_size v + n \<le> vec_max_size v)
       (in_bounds (position \<le> vec_size v)
         (let initialized_size = min (min (position + n) (vec_size v)) n;
              v1 = vec_move_up v position n;
              v2 = fill_slots vec_put v1 position (replicate initialized_size x)
          in Inr (fill_slots vec_put v2 (position + initialized_size) (replicate (n - initialized_size) x))))"

definition vec_insert :: "'a vec \<Rightarrow> nat \<Rightarrow> 'a \<Rightarrow> 'a vec result" where
  "vec_insert v position x = vec_insert_n v position 1 x"

definition vec_emplace :: "'a vec \<Rightarrow> nat \<Rightarrow> 'a \<Rightarrow> 'a vec result" where
  "vec_emplace v position x = really_assert (vec_size v \<noteq> vec_max_size v)
     (in_bounds (position \<le> vec_size v) (Inr (vec_put (vec_move_up v position 1) position x)))"

definition vec_erase_range :: "'a vec \<Rightarrow> nat \<Rightarrow> nat \<Rightarrow> 'a vec result" where
  "vec_erase_range v first_index last_index =
     in_bounds (first_index \<le> last_index \<and> last_index \<le> vec_size v)
       (Inr ((shift_down vec_put vec_get (vec_numAllocated v - last_index) first_index last_index v)
         \<lparr>vec_numAllocated := vec_numAllocated v - (last_index - first_index)\<rparr>))"

definition vec_erase :: "'a vec \<Rightarrow> nat \<Rightarrow> 'a vec result" where
  "vec_erase v position = vec_erase_range v position (position + 1)"

text \<open>\<open>vec_compact pred k i j v\<close> is the loop of \<open>erase_if\<close> with \<open>k\<close> elements left to read at \<open>i\<close>,
  \<open>j\<close> the place of the next one kept; it returns the vector and the final \<open>j\<close>.\<close>

fun vec_compact :: "('a \<Rightarrow> bool) \<Rightarrow> nat \<Rightarrow> nat \<Rightarrow> nat \<Rightarrow> 'a vec \<Rightarrow> 'a vec \<times> nat" where
  "vec_compact pred 0 i j v = (v, j)"
| "vec_compact pred (Suc k) i j v =
     (if pred (vec_get v i) then vec_compact pred k (Suc i) j v
      else vec_compact pred k (Suc i) (Suc j) (if i \<noteq> j then vec_put v j (vec_get v i) else v))"

definition vec_erase_if :: "'a vec \<Rightarrow> ('a \<Rightarrow> bool) \<Rightarrow> ('a vec \<times> nat) result" where
  "vec_erase_if v pred =
     (let (v1, j) = vec_compact pred (vec_size v) 0 0 v; n = vec_size v1 - j
      in rbind (vec_erase_range v1 j (vec_size v1)) (\<lambda>v2. Inr (v2, n)))"

definition vec_erase_value :: "'a vec \<Rightarrow> 'a \<Rightarrow> ('a vec \<times> nat) result" where
  "vec_erase_value v x = vec_erase_if v (\<lambda>y. y = x)"

section \<open>Copying, moving, swapping, comparing\<close>

definition vec_copy_construct :: "'a list \<Rightarrow> 'a vec \<Rightarrow> 'a vec result" where
  "vec_copy_construct storage other = vec_assign (vec_new storage) (vec_range other)"

definition vec_copy_assign :: "'a vec \<Rightarrow> 'a vec \<Rightarrow> 'a vec result" where
  "vec_copy_assign v other = vec_assign v (vec_range other)"

definition vec_move_construct :: "'a list \<Rightarrow> 'a vec \<Rightarrow> 'a vec result" where
  "vec_move_construct storage other =
     in_bounds (vec_size other \<le> length storage)
       (Inr \<lparr>vec_storage = store_first storage 0 (vec_range other), vec_numAllocated = vec_numAllocated other\<rparr>)"

definition vec_move_assign :: "'a vec \<Rightarrow> 'a vec \<Rightarrow> 'a vec result" where
  "vec_move_assign v other =
     rbind (vec_clear v) (\<lambda>v.
       in_bounds (vec_size other \<le> vec_max_size v)
         (Inr (v\<lparr>vec_storage := store_first (vec_storage v) 0 (vec_range other), vec_numAllocated := vec_size other\<rparr>)))"

definition vec_swap_slot :: "nat \<Rightarrow> 'a vec \<times> 'a vec \<Rightarrow> 'a vec \<times> 'a vec" where
  "vec_swap_slot i p = (case p of (v, w) \<Rightarrow> (vec_put v i (vec_get w i), vec_put w i (vec_get v i)))"

definition vec_swap :: "'a vec \<Rightarrow> 'a vec \<Rightarrow> ('a vec \<times> 'a vec) result" where
  "vec_swap v other =
     really_assert (vec_size v \<le> vec_max_size other \<and> vec_size other < vec_max_size v)
       (let (v1, o1) = fold vec_swap_slot [0..<min (vec_size v) (vec_size other)] (v, other);
            v2 = fold (\<lambda>i v. vec_put v i (vec_get o1 i)) [vec_size v..<vec_size other] v1;
            o2 = fold (\<lambda>i w. vec_put w i (vec_get v2 i)) [vec_size other..<vec_size v] o1
        in Inr (v2\<lparr>vec_numAllocated := vec_numAllocated other\<rparr>, o2\<lparr>vec_numAllocated := vec_numAllocated v\<rparr>))"

definition vec_eq :: "'a vec \<Rightarrow> 'a vec \<Rightarrow> bool" where
  "vec_eq v other \<longleftrightarrow> vec_size v = vec_size other \<and> vec_range v = vec_range other"

definition vec_ne :: "'a vec \<Rightarrow> 'a vec \<Rightarrow> bool" where
  "vec_ne v other \<longleftrightarrow> \<not> vec_eq v other"

definition vec_less :: "('a::linorder) vec \<Rightarrow> 'a vec \<Rightarrow> bool" where
  "vec_less v other \<longleftrightarrow> lexicographical_compare (vec_range v) (vec_range other)"

definition vec_less_eq :: "('a::linorder) vec \<Rightarrow> 'a vec \<Rightarrow> bool" where
  "vec_less_eq v other \<longleftrightarrow> \<not> vec_less other v"

definition vec_greater :: "('a::linorder) vec \<Rightarrow> 'a vec \<Rightarrow> bool" where
  "vec_greater v other \<longleftrightarrow> vec_less other v"

definition vec_greater_eq :: "('a::linorder) vec \<Rightarrow> 'a vec \<Rightarrow> bool" where
  "vec_greater_eq v other \<longleftrightarrow> \<not> vec_less v other"

section \<open>The invariant and the storage as a slot store\<close>

definition vec_inv :: "'a vec \<Rightarrow> bool" where
  "vec_inv v \<longleftrightarrow> vec_numAllocated v \<le> vec_max_size v"

named_theorems vec_defs
lemmas [vec_defs] = vec_inv_def vec_max_size_def vec_size_def vec_empty_def vec_full_def

lemma vec_put_simps [simp]:
  "vec_numAllocated (vec_put v i x) = vec_numAllocated v"
  "vec_max_size (vec_put v i x) = vec_max_size v"
  by (simp_all add: vec_put_def vec_max_size_def)

interpretation vs: slot_store vec_put vec_get vec_max_size "\<lambda>_. True"
  by unfold_locales (auto simp: vec_get_def vec_put_def vec_max_size_def nth_list_update)

lemma vec_frame [simp]:
  "vec_get (v\<lparr>vec_numAllocated := n\<rparr>) i = vec_get v i"
  "vec_max_size (v\<lparr>vec_numAllocated := n\<rparr>) = vec_max_size v"
  "view vec_get (v\<lparr>vec_numAllocated := n\<rparr>) m = view vec_get v m"
  by (simp_all add: vec_get_def vec_max_size_def view_def)

lemma vec_put_num: "vec_put (v\<lparr>vec_numAllocated := n\<rparr>) i x = (vec_put v i x)\<lparr>vec_numAllocated := n\<rparr>"
  by (simp add: vec_put_def)

lemma vec_fill_num [simp]:
  "fill_slots vec_put (v\<lparr>vec_numAllocated := n\<rparr>) e xs = (fill_slots vec_put v e xs)\<lparr>vec_numAllocated := n\<rparr>"
  by (induction xs arbitrary: v e) (simp_all add: vec_put_num)

lemma vec_loop_numAllocated [simp]:
  "vec_numAllocated (fill_slots vec_put v e xs) = vec_numAllocated v"
  "vec_numAllocated (shift_up vec_put vec_get k c n v) = vec_numAllocated v"
  "vec_numAllocated (shift_down vec_put vec_get k f l v) = vec_numAllocated v"
  by (induction xs arbitrary: v e, simp_all)
     (induction k arbitrary: c v f l, simp_all)+

lemmas vec_loop_simps [simp] = vs.cap_fill vs.cap_shift_up vs.cap_shift_down

lemma length_vec_range [simp]: "length (vec_range v) = vec_size v"
  by (simp add: vec_range_def)

lemma vec_inv_new [simp]: "vec_inv (vec_new storage)" "vec_range (vec_new storage) = []"
  "vec_max_size (vec_new storage) = length storage"
  by (simp_all add: vec_inv_def vec_new_def vec_range_def vec_size_def view_def vec_max_size_def)

section \<open>The effect of each operation on the elements\<close>

definition vec_yields :: "'a vec result \<Rightarrow> nat \<Rightarrow> 'a list \<Rightarrow> bool" where
  "vec_yields r m xs \<longleftrightarrow> (\<exists>v. r = Inr v \<and> vec_inv v \<and> vec_max_size v = m \<and> vec_range v = xs)"

lemma vec_yields_Inr: "vec_yields (Inr v) m xs \<longleftrightarrow> vec_inv v \<and> vec_max_size v = m \<and> vec_range v = xs"
  by (auto simp: vec_yields_def)

lemma vec_yields_bind:
  assumes "vec_yields r m xs" and "\<And>v. vec_inv v \<Longrightarrow> vec_max_size v = m \<Longrightarrow> vec_range v = xs \<Longrightarrow> vec_yields (f v) m ys"
  shows "vec_yields (rbind r f) m ys"
  using assms by (auto simp: vec_yields_def)

lemma vec_push_back_yields:
  assumes "vec_inv v" and "vec_size v < vec_max_size v"
  shows "vec_yields (vec_push_back v x) (vec_max_size v) (vec_range v @ [x])"
  using assms by (auto simp: vec_push_back_def vec_yields_Inr vec_inv_def vec_full_def vec_range_def
    vec_size_def vs.view_put_end)

lemma vec_emplace_back_eq: "vec_emplace_back v x = vec_push_back v x"
  by (simp add: vec_emplace_back_def vec_push_back_def vec_full_def vec_size_def)

lemma vec_push_full: "vec_size v = vec_max_size v \<Longrightarrow> vec_push_back v x = Inl Assert_failed"
  by (simp add: vec_push_back_def vec_full_def vec_size_def)

lemma vec_size_range: "vec_range v = xs \<Longrightarrow> vec_size v = length xs"
  by auto

lemma vec_push_all_yields:
  "vec_inv v \<Longrightarrow> vec_size v + length xs \<le> vec_max_size v \<Longrightarrow>
   vec_yields (vec_push_all v xs) (vec_max_size v) (vec_range v @ xs)"
proof (induction xs arbitrary: v)
  case Nil
  then show ?case by (simp add: vec_yields_Inr)
next
  case (Cons x xs)
  show ?case
    using Cons.prems Cons.IH
    by (auto simp: vec_emplace_back_eq dest: vec_size_range
        intro!: vec_yields_bind [OF vec_push_back_yields] simp flip: append_Cons)
       (metis append.assoc append_Cons append_Nil length_append_singleton vec_size_range add_Suc add_Suc_right)
qed

lemma vec_push_all_overflow:
  "vec_inv v \<Longrightarrow> vec_max_size v < vec_size v + length xs \<Longrightarrow> vec_push_all v xs = Inl Assert_failed"
proof (induction xs arbitrary: v)
  case Nil
  then show ?case by (simp add: vec_inv_def vec_size_def)
next
  case (Cons x xs)
  show ?case
  proof (cases "vec_size v < vec_max_size v")
    case True
    from vec_push_back_yields [OF Cons.prems(1) this, of x]
    obtain w where "vec_push_back v x = Inr w" "vec_inv w" "vec_max_size w = vec_max_size v"
        "vec_range w = vec_range v @ [x]"
      by (auto simp: vec_yields_def)
    with Cons.IH [of w] Cons.prems vec_size_range [of w] show ?thesis
      by (simp add: vec_emplace_back_eq)
  next
    case False
    with Cons.prems show ?thesis
      by (simp add: vec_emplace_back_eq vec_push_full vec_inv_def vec_size_def)
  qed
qed

lemma vec_pop_n_eq: "k \<le> vec_size v \<Longrightarrow> vec_pop_n k v = Inr (v\<lparr>vec_numAllocated := vec_numAllocated v - k\<rparr>)"
  by (induction k arbitrary: v) (auto simp: vec_pop_back_def vec_empty_def vec_size_def)

lemma vec_clear_eq [simp]: "vec_clear v = Inr (v\<lparr>vec_numAllocated := 0\<rparr>)"
  by (simp add: vec_clear_def vec_pop_n_eq) (simp add: vec_size_def)

lemma vec_cleared [simp]:
  "vec_inv (v\<lparr>vec_numAllocated := 0\<rparr>)" "vec_range (v\<lparr>vec_numAllocated := 0\<rparr>) = []"
  "vec_size (v\<lparr>vec_numAllocated := 0\<rparr>) = 0"
  by (simp_all add: vec_inv_def vec_range_def vec_size_def view_def)

lemma vec_assign_yields:
  assumes "vec_inv v"
  shows "length xs \<le> vec_max_size v \<Longrightarrow> vec_yields (vec_assign v xs) (vec_max_size v) xs"
    and "vec_max_size v < length xs \<Longrightarrow> vec_assign v xs = Inl Assert_failed"
  using vec_push_all_yields [of "v\<lparr>vec_numAllocated := 0\<rparr>" xs]
    vec_push_all_overflow [of "v\<lparr>vec_numAllocated := 0\<rparr>" xs]
  by (simp_all add: vec_assign_def)

lemma vec_push_n_all: "vec_push_n k x v = vec_push_all v (replicate k x)"
proof (induction k arbitrary: v)
  case (Suc k)
  then show ?case by (cases "vec_push_back v x") (simp_all add: vec_emplace_back_eq)
qed simp

lemma vec_take_view: "n \<le> vec_size v \<Longrightarrow> vec_range (v\<lparr>vec_numAllocated := n\<rparr>) = take n (vec_range v)"
  by (intro nth_equalityI) (auto simp: vec_range_def vec_size_def)

lemma vec_resize_yields:
  assumes inv: "vec_inv v"
  shows "n \<le> vec_max_size v \<Longrightarrow>
      vec_yields (vec_resize v n x) (vec_max_size v) (take n (vec_range v) @ replicate (n - vec_size v) x)"
    and "vec_max_size v < n \<Longrightarrow> vec_resize v n x = Inl Assert_failed"
proof -
  let ?w = "v\<lparr>vec_numAllocated := vec_numAllocated v - (vec_size v - n)\<rparr>"
  have w: "vec_inv ?w" "vec_size ?w = min n (vec_size v)" "vec_range ?w = take n (vec_range v)"
    using inv vec_take_view [of "vec_size v - (vec_size v - n)" v]
    by (cases "n \<le> vec_size v"; auto simp: vec_inv_def vec_size_def min_def)+
  have r: "vec_resize v n x = vec_push_all ?w (replicate (n - vec_size v) x)"
    using w(2) by (simp add: vec_resize_def vec_pop_n_eq vec_push_n_all min_def)
  show "n \<le> vec_max_size v \<Longrightarrow>
      vec_yields (vec_resize v n x) (vec_max_size v) (take n (vec_range v) @ replicate (n - vec_size v) x)"
    using vec_push_all_yields [OF w(1), of "replicate (n - vec_size v) x"] w inv unfolding r
    by (simp add: vec_inv_def vec_size_def min_def split: if_splits)
  show "vec_max_size v < n \<Longrightarrow> vec_resize v n x = Inl Assert_failed"
    using vec_push_all_overflow [OF w(1), of "replicate (n - vec_size v) x"] w inv unfolding r
    by (simp add: vec_inv_def vec_size_def)
qed

lemma fill_slots_append:
  "fill_slots put (fill_slots put s e xs) (e + length xs) ys = fill_slots put s e (xs @ ys)"
proof (induction xs arbitrary: s e)
  case (Cons x xs)
  from Cons.IH [of "put s e x" "Suc e"] show ?case by simp
qed simp

lemma vec_insert_range_eq:
  assumes "vec_size v + length xs \<le> vec_max_size v" and "p \<le> vec_size v"
  shows "vec_insert_range v p xs = Inr (fill_slots vec_put (vec_move_up v p (length xs)) p xs)"
proof -
  let ?k = "min (min (p + length xs) (vec_size v)) (length xs)"
  have "fill_slots vec_put (fill_slots vec_put s p (take ?k xs)) (p + ?k) (drop ?k xs) = fill_slots vec_put s p xs" for s
    using fill_slots_append [of vec_put s p "take ?k xs" "drop ?k xs"] by simp
  with assms show ?thesis by (simp add: vec_insert_range_def Let_def)
qed

lemma vec_insert_n_range: "vec_insert_n v p n x = vec_insert_range v p (replicate n x)"
  by (simp add: vec_insert_n_def vec_insert_range_def Let_def)

lemma vec_insert_range_yields:
  assumes "vec_size v + length xs \<le> vec_max_size v" and "p \<le> vec_size v"
  shows "vec_yields (vec_insert_range v p xs) (vec_max_size v) (take p (vec_range v) @ xs @ drop p (vec_range v))"
  using vs.view_insert [where s = v and p = p and n = "vec_numAllocated v" and xs = xs] assms
  by (simp add: vec_insert_range_eq vec_yields_Inr vec_move_up_def vec_range_def vec_inv_def vec_size_def)

lemma vec_emplace_yields:
  assumes "vec_size v < vec_max_size v" and "p \<le> vec_size v"
  shows "vec_yields (vec_emplace v p x) (vec_max_size v) (take p (vec_range v) @ x # drop p (vec_range v))"
  using vs.view_insert [where s = v and p = p and n = "vec_numAllocated v" and xs = "[x]"] assms
  by (simp add: vec_emplace_def vec_yields_Inr vec_move_up_def vec_put_num vec_range_def vec_inv_def vec_size_def)

lemma vec_erase_range_yields:
  assumes "vec_inv v" and "f \<le> l" and "l \<le> vec_size v"
  shows "vec_yields (vec_erase_range v f l) (vec_max_size v) (take f (vec_range v) @ drop l (vec_range v))"
  using vs.view_erase [where s = v and f = f and l = l and n = "vec_numAllocated v"] assms
  by (simp add: vec_erase_range_def vec_yields_Inr vec_range_def vec_inv_def vec_size_def)

lemma vec_erase_prefix:
  assumes "vec_inv v" and "n \<le> vec_size v"
  shows "vec_yields (vec_erase_range v 0 n) (vec_max_size v) (drop n (vec_range v))"
  using vec_erase_range_yields [of v 0 n] assms by simp

lemma vec_compact_props:
  assumes "vec_compact pred k i j v = (w, m)" and "j \<le> i" and "i + k \<le> vec_max_size v"
  shows "vec_numAllocated w = vec_numAllocated v \<and> vec_max_size w = vec_max_size v \<and>
    m = j + length (filter (\<lambda>x. \<not> pred x) (map (vec_get v) [i..<i + k])) \<and>
    (\<forall>n < j. vec_get w n = vec_get v n) \<and>
    map (vec_get w) [j..<m] = filter (\<lambda>x. \<not> pred x) (map (vec_get v) [i..<i + k])"
  using assms
proof (induction k arbitrary: i j v)
  case 0
  then show ?case by simp
next
  case (Suc k)
  let ?R = "filter (\<lambda>x. \<not> pred x) (map (vec_get v) [Suc i..<Suc i + k])"
  have l: "[i..<i + Suc k] = i # [Suc i..<Suc i + k]"
    by (metis add_Suc_right add_Suc less_add_Suc1 upt_conv_Cons)
  show ?case
  proof (cases "pred (vec_get v i)")
    case True
    then have e: "filter (\<lambda>x. \<not> pred x) (map (vec_get v) (i # [Suc i..<Suc i + k])) = ?R"
      by (simp del: upt_Suc)
    have "vec_compact pred k (Suc i) j v = (w, m)" "j \<le> Suc i" "Suc i + k \<le> vec_max_size v"
      using Suc.prems True by simp_all
    then show ?thesis
      unfolding l e by (rule Suc.IH)
  next
    case False
    let ?v = "if i \<noteq> j then vec_put v j (vec_get v i) else v"
    have g: "vec_get ?v n = (if n = j then vec_get v i else vec_get v n)" if "n < vec_max_size v" for n
      using Suc.prems that vs.get_put [of j v n] by auto
    have same: "map (vec_get ?v) [Suc i..<Suc i + k] = map (vec_get v) [Suc i..<Suc i + k]"
      using g Suc.prems by (intro map_cong) auto
    have "vec_compact pred k (Suc i) (Suc j) ?v = (w, m)" "Suc j \<le> Suc i" "Suc i + k \<le> vec_max_size ?v"
      using Suc.prems False by simp_all
    note step = Suc.IH [OF this, unfolded same]
    then have ih: "vec_numAllocated w = vec_numAllocated ?v" "vec_max_size w = vec_max_size ?v"
      "m = Suc j + length ?R" "\<forall>n < Suc j. vec_get w n = vec_get ?v n" "map (vec_get w) [Suc j..<m] = ?R"
      by blast+
    have "vec_get w j = vec_get v i" using ih(4) g [of j] Suc.prems by simp
    moreover have "[j..<m] = j # [Suc j..<m]" using ih(3) by (intro upt_conv_Cons) linarith
    moreover have "\<forall>n < j. vec_get w n = vec_get v n" using ih(4) g Suc.prems by simp
    ultimately have "map (vec_get w) [j..<m] = vec_get v i # ?R" using ih(5) by (simp del: upt_Suc)
    moreover have e: "filter (\<lambda>x. \<not> pred x) (map (vec_get v) (i # [Suc i..<Suc i + k])) = vec_get v i # ?R"
      using False by (simp del: upt_Suc)
    moreover have "vec_max_size ?v = vec_max_size v" "vec_numAllocated ?v = vec_numAllocated v" by simp_all
    ultimately show ?thesis
      using \<open>\<forall>n < j. vec_get w n = vec_get v n\<close> ih(1,2,3) unfolding l e by (simp del: upt_Suc list.map filter.simps)
  qed
qed

theorem vec_erase_if_yields:
  assumes "vec_inv v"
  shows "\<exists>w. vec_erase_if v pred = Inr (w, length (filter pred (vec_range v))) \<and> vec_inv w \<and>
    vec_max_size w = vec_max_size v \<and> vec_range w = filter (\<lambda>x. \<not> pred x) (vec_range v)"
proof -
  obtain w m where c: "vec_compact pred (vec_size v) 0 0 v = (w, m)"
    by (cases "vec_compact pred (vec_size v) 0 0 v")
  have r: "vec_range v = map (vec_get v) [0..<vec_size v]"
    by (simp add: vec_range_def view_def)
  have w: "vec_size w = vec_size v" "vec_max_size w = vec_max_size v"
      "m = length (filter (\<lambda>x. \<not> pred x) (vec_range v))" "map (vec_get w) [0..<m] = filter (\<lambda>x. \<not> pred x) (vec_range v)"
    using vec_compact_props [OF c order_refl] assms unfolding r add_0 vec_inv_def vec_size_def by blast+
  have m: "m \<le> vec_size v" and n: "length (filter pred (vec_range v)) = vec_size v - m"
    using sum_length_filter_compl [of pred "vec_range v"] w(3) by auto
  have "take m (vec_range w) = filter (\<lambda>x. \<not> pred x) (vec_range v)"
    using w m by (metis (no_types, lifting) vec_range_def view_def take_map take_upt add_0)
  moreover have "vec_yields (vec_erase_range w m (vec_size w)) (vec_max_size w) (take m (vec_range w))"
    using vec_erase_range_yields [of w m "vec_size w"] w m assms
    by (simp add: vec_inv_def vec_size_def)
  ultimately show ?thesis
    using c n w by (auto simp: vec_erase_if_def vec_yields_def)
qed

section \<open>Swapping\<close>

text \<open>The precondition of \<open>swap\<close> compares one size with \<open>\<le>\<close> and the other with \<open><\<close>, so a vector that is
  full cannot be swapped into one of the same capacity.\<close>

lemma vec_swap_rejects_full:
  "vec_full w \<Longrightarrow> vec_max_size v \<le> vec_max_size w \<Longrightarrow> vec_swap v w = Inl Assert_failed"
  by (simp add: vec_swap_def vec_full_def vec_size_def)

lemma vec_swap_common:
  assumes "n \<le> vec_max_size v" and "n \<le> vec_max_size w"
  shows "case fold vec_swap_slot [0..<n] (v, w) of (v', w') \<Rightarrow>
    vec_max_size v' = vec_max_size v \<and> vec_max_size w' = vec_max_size w \<and>
    (\<forall>i < vec_max_size v. vec_get v' i = (if i < n then vec_get w i else vec_get v i)) \<and>
    (\<forall>i < vec_max_size w. vec_get w' i = (if i < n then vec_get v i else vec_get w i))"
  using assms
proof (induction n)
  case 0
  then show ?case by simp
next
  case (Suc n)
  obtain v' w' where r: "fold vec_swap_slot [0..<n] (v, w) = (v', w')"
    by (cases "fold vec_swap_slot [0..<n] (v, w)")
  with Suc show ?case
    by (auto simp: vec_swap_slot_def vs.get_put)
qed

lemma vec_copy_up:
  assumes "b \<le> vec_max_size v"
  shows "vec_max_size (fold (\<lambda>i v. vec_put v i (f i)) [a..<b] v) = vec_max_size v \<and>
    (\<forall>i < vec_max_size v. vec_get (fold (\<lambda>i v. vec_put v i (f i)) [a..<b] v) i =
       (if a \<le> i \<and> i < b then f i else vec_get v i))"
  using assms by (induction b) (auto simp: vs.get_put less_Suc_eq le_less)

theorem vec_swap_yields:
  assumes v: "vec_inv v" and w: "vec_inv w" and vw: "vec_size v \<le> vec_max_size w" and wv: "vec_size w < vec_max_size v"
  shows "\<exists>v' w'. vec_swap v w = Inr (v', w') \<and> vec_inv v' \<and> vec_inv w' \<and>
    vec_max_size v' = vec_max_size v \<and> vec_max_size w' = vec_max_size w \<and>
    vec_range v' = vec_range w \<and> vec_range w' = vec_range v"
proof -
  let ?n = "min (vec_size v) (vec_size w)"
  obtain v1 w1 where r: "fold vec_swap_slot [0..<?n] (v, w) = (v1, w1)"
    by (cases "fold vec_swap_slot [0..<?n] (v, w)")
  have le: "?n \<le> vec_max_size v" "?n \<le> vec_max_size w"
    using v w by (auto simp: vec_inv_def vec_size_def)
  have c: "vec_max_size v1 = vec_max_size v" "vec_max_size w1 = vec_max_size w"
    "\<forall>i < vec_max_size v. vec_get v1 i = (if i < ?n then vec_get w i else vec_get v i)"
    "\<forall>i < vec_max_size w. vec_get w1 i = (if i < ?n then vec_get v i else vec_get w i)"
    using vec_swap_common [OF le] r by simp_all
  let ?v2 = "fold (\<lambda>i v. vec_put v i (vec_get w1 i)) [vec_size v..<vec_size w] v1"
  let ?w2 = "fold (\<lambda>i w. vec_put w i (vec_get ?v2 i)) [vec_size w..<vec_size v] w1"
  have v2: "vec_max_size ?v2 = vec_max_size v"
    "\<forall>i < vec_size w. vec_get ?v2 i = vec_get w i" "\<forall>i. vec_size w \<le> i \<and> i < vec_size v \<longrightarrow> vec_get ?v2 i = vec_get v i"
    using vec_copy_up [of "vec_size w" v1 "vec_get w1" "vec_size v"] c v w vw wv by (auto simp: vec_inv_def vec_size_def)
  have w2: "vec_max_size ?w2 = vec_max_size w" "\<forall>i < vec_size v. vec_get ?w2 i = vec_get v i"
    using vec_copy_up [of "vec_size v" w1 "vec_get ?v2" "vec_size w"] c v w vw wv v2 by (auto simp: vec_inv_def vec_size_def)
  have "vec_swap v w = Inr (?v2\<lparr>vec_numAllocated := vec_numAllocated w\<rparr>, ?w2\<lparr>vec_numAllocated := vec_numAllocated v\<rparr>)"
    using r vw wv by (simp add: vec_swap_def Let_def)
  moreover have "view vec_get ?v2 (vec_size w) = vec_range w" "view vec_get ?w2 (vec_size v) = vec_range v"
    using v2 w2 by (auto intro!: nth_equalityI simp: vec_range_def vec_size_def)
  ultimately show ?thesis
    using v2(1) w2(1) vw wv by (auto simp: vec_inv_def vec_range_def vec_size_def)
qed

section \<open>Refinement to a bounded sequence\<close>

text \<open>The sequence operations on a vector, for a client that checks the range it erases: the vector
  itself does not, and a bad range is an access out of bounds (\<open>vec_erase_range\<close>). Pushing to the
  front is an insertion, popping from it an erasure.\<close>

fun vec_step :: "'a seq_op \<Rightarrow> 'a vec \<Rightarrow> 'a vec result" where
  "vec_step (Push_back x) v = vec_push_back v x"
| "vec_step (Push_front x) v = vec_insert v 0 x"
| "vec_step Pop_back v = vec_pop_back v"
| "vec_step Pop_front v = really_assert (\<not> vec_empty v) (vec_erase v 0)"
| "vec_step (Insert_range p xs) v = vec_insert_range v p xs"
| "vec_step (Erase_range f l) v = really_assert (f \<le> l \<and> l - f \<le> vec_size v) (vec_erase_range v f l)"
| "vec_step Clear v = vec_clear v"
| "vec_step (Assign xs) v = vec_assign v xs"
| "vec_step (Resize n x) v = vec_resize v n x"

definition vec_abs :: "'a vec \<Rightarrow> nat \<times> 'a list" where
  "vec_abs v = (vec_max_size v, vec_range v)"

lemma vec_yields_abs:
  "vec_yields r m xs \<Longrightarrow> map_sum id vec_abs r = Inr (m, xs) \<and> (\<forall>v. r = Inr v \<longrightarrow> vec_inv v)"
  by (auto simp: vec_yields_def vec_abs_def)

lemma vec_pop_back_yields:
  assumes "vec_inv v" and "vec_range v \<noteq> []"
  shows "vec_yields (vec_pop_back v) (vec_max_size v) (butlast (vec_range v))"
proof -
  have n: "0 < vec_size v" using assms(2) by (metis length_greater_0_conv length_vec_range)
  then have "vec_range (v\<lparr>vec_numAllocated := vec_size v - 1\<rparr>) = butlast (vec_range v)"
    by (simp add: vec_take_view butlast_conv_take)
  with assms(1) n show ?thesis
    by (simp add: vec_pop_back_def vec_yields_Inr vec_inv_def vec_empty_def vec_size_def)
qed

lemma vec_step_refines:
  assumes inv: "vec_inv v"
  shows "map_sum id vec_abs (vec_step x v) = seq_step x (vec_abs v) \<and> (\<forall>w. vec_step x v = Inr w \<longrightarrow> vec_inv w)"
proof -
  have cap: "vec_size v \<le> vec_max_size v" using inv by (simp add: vec_inv_def vec_size_def)
  have ne: "vec_range v = [] \<longleftrightarrow> vec_size v = 0" by (metis length_0_conv length_vec_range)
  note ins = vec_insert_range_yields [THEN vec_yields_abs] and era = vec_erase_range_yields [OF inv, THEN vec_yields_abs]
  show ?thesis
  proof (cases x)
    case (Push_back y)
    then show ?thesis
      using vec_push_back_yields [OF inv, of y, THEN vec_yields_abs] vec_push_full [of v y] cap
      by (cases "vec_size v < vec_max_size v") (auto simp: vec_abs_def)
  next
    case (Push_front y)
    then show ?thesis using ins [of v "[y]" 0] cap
      by (cases "vec_size v < vec_max_size v")
        (auto simp: vec_abs_def vec_insert_def vec_insert_n_range vec_insert_range_def Let_def)
  next
    case Pop_back
    then show ?thesis using vec_pop_back_yields [OF inv, THEN vec_yields_abs] ne
      by (cases "vec_size v = 0") (auto simp: vec_abs_def vec_pop_back_def vec_empty_def vec_size_def)
  next
    case Pop_front
    then show ?thesis using era [of 0 1] ne
      by (cases "vec_size v = 0") (auto simp: vec_abs_def vec_erase_def vec_empty_def vec_size_def drop_Suc)
  next
    case (Insert_range p xs)
    then show ?thesis using ins [of v xs p]
      by (cases "vec_size v + length xs \<le> vec_max_size v \<and> p \<le> vec_size v")
        (auto simp: vec_abs_def vec_insert_range_def Let_def really_assert_def in_bounds_def)
  next
    case (Erase_range f l)
    then show ?thesis using era [of f l]
      by (cases "f \<le> l \<and> l \<le> vec_size v")
        (auto simp: vec_abs_def vec_erase_range_def really_assert_def in_bounds_def)
  next
    case Clear
    then show ?thesis by (simp add: vec_abs_def)
  next
    case (Assign xs)
    then show ?thesis using vec_assign_yields [OF inv, of xs] vec_yields_abs
      by (cases "length xs \<le> vec_max_size v") (fastforce simp: vec_abs_def)+
  next
    case (Resize n y)
    then show ?thesis using vec_resize_yields [OF inv, of n y] vec_yields_abs
      by (cases "n \<le> vec_max_size v") (fastforce simp: vec_abs_def)+
  qed
qed

interpretation vec_ref: refinement vec_inv vec_abs vec_step seq_step
  by unfold_locales (use vec_step_refines in blast)+

text \<open>C18: every sequence of vector operations, run by a client that checks the ranges it erases,
  gives what the same operations give on a bounded sequence, or stops with the same fault at the
  same operation. The vector and the deque are interchangeable implementations of that sequence.\<close>

theorem vector_refines_sequence:
  assumes "vec_inv v"
  shows "map_sum id vec_abs (run_ops vec_step xs v) = run_ops seq_step xs (vec_abs v)"
  using assms by (rule vec_ref.run_simulates)

theorem vector_refines_sequence_witness:
  "map_sum id vec_abs (run_ops vec_step [Push_back 1, Push_back 2, Insert_range 1 [3, 4], Erase_range 0 1]
      (vec_new (replicate 4 (0::nat)))) = Inr (4, [3, 4, 2])"
  using vector_refines_sequence [OF vec_inv_new(1), of "[Push_back 1, Push_back 2, Insert_range 1 [3, 4], Erase_range 0 1]"
      "replicate 4 (0::nat)"]
  by (simp add: vec_abs_def numeral_nat)

text \<open>\<open>erase_if\<close> removes exactly the elements that satisfy the predicate, keeps the others in
  their order, and returns the number removed.\<close>

lemma vector_erase_if:
  assumes "vec_inv v"
  shows "\<exists>w. vec_erase_if v pred = Inr (w, length (filter pred (vec_range v))) \<and> vec_inv w \<and>
    vec_max_size w = vec_max_size v \<and> vec_range w = filter (\<lambda>x. \<not> pred x) (vec_range v)"
  using assms by (rule vec_erase_if_yields)

lemma vector_erase_if_witness:
  "\<exists>w. vec_erase_if \<lparr>vec_storage = [1, 2, 1, 4::int], vec_numAllocated = 3\<rparr> (\<lambda>x. x = 1) = Inr (w, 2) \<and> vec_range w = [2]"
proof -
  let ?v = "\<lparr>vec_storage = [1, 2, 1, 4::int], vec_numAllocated = 3\<rparr>"
  have "vec_inv ?v" and "vec_range ?v = [1, 2, 1]"
    by (simp_all add: vec_inv_def vec_max_size_def vec_range_def view_def vec_size_def vec_get_def
        upt_rec_numeral upt_conv_Cons eval_nat_numeral)
  with vector_erase_if [of ?v "\<lambda>x. x = 1"] show ?thesis by auto
qed

end
