(* ===== verification/Linked.thy ===== *)
theory Linked
  imports Prelude
begin

text \<open>
  Linked storage: what the lists of infra/util share. A pointer to a node is the node's number or
  nothing for a null pointer, and the links of the nodes are functions from nodes to pointers, so
  that writing \<open>node->next\<close> is an update of the function at the node. Following a null pointer is
  the fault \<open>Out_of_bounds\<close>.

  \<open>links\<close> says that a chain of pointers runs through a list of nodes, \<open>chain\<close> that the nodes are
  linked in both directions. Both are segments, with the pointer that enters and the one that leaves,
  so that a list can be cut where an operation changes it, and the lemmas about a change outside the
  segment (\<open>links_frame\<close>, \<open>chain_frame\<close>) leave the two parts alone.
\<close>

type_synonym pointer = "nat option"

definition deref :: "pointer \<Rightarrow> (nat \<Rightarrow> 'a result) \<Rightarrow> 'a result" where
  "deref p f = (case p of None \<Rightarrow> Inl Out_of_bounds | Some i \<Rightarrow> f i)"

lemma deref_simps [simp]:
  "deref None f = Inl Out_of_bounds" "deref (Some i) f = f i"
  by (simp_all add: deref_def)

lemma deref_Inr: "deref p f = Inr r \<longleftrightarrow> (\<exists>i. p = Some i \<and> f i = Inr r)"
  by (cases p) simp_all

section \<open>One direction\<close>

fun links :: "(nat \<Rightarrow> pointer) \<Rightarrow> pointer \<Rightarrow> nat list \<Rightarrow> pointer \<Rightarrow> bool" where
  "links nx p [] q = (p = q)"
| "links nx p (x # xs) q = (p = Some x \<and> links nx (nx x) xs q)"

lemma links_frame [simp]: "y \<notin> set xs \<Longrightarrow> links (nx(y := r)) p xs q = links nx p xs q"
  by (induction xs arbitrary: p) auto

lemma links_cong: "(\<And>x. x \<in> set xs \<Longrightarrow> nx' x = nx x) \<Longrightarrow> links nx' p xs q = links nx p xs q"
  by (induction xs arbitrary: p) auto

lemma links_append: "links nx p (xs @ ys) q \<longleftrightarrow> (\<exists>r. links nx p xs r \<and> links nx r ys q)"
  by (induction xs arbitrary: p) auto

lemma links_snoc: "links nx p (xs @ [x]) q \<longleftrightarrow> links nx p xs (Some x) \<and> nx x = q"
  by (auto simp: links_append)

lemma links_unique: "links nx p xs None \<Longrightarrow> links nx p ys None \<Longrightarrow> xs = ys"
proof (induction xs arbitrary: p ys)
  case Nil
  then show ?case by (cases ys) auto
next
  case (Cons x xs)
  then show ?case by (cases ys) auto
qed

text \<open>A chain that ends in a null pointer does not come back to a node.\<close>

lemma links_suffix: "links nx p xs None \<Longrightarrow> x \<in> set xs \<Longrightarrow> \<exists>ys. links nx (Some x) (x # ys) None \<and> length (x # ys) \<le> length xs"
proof (induction xs arbitrary: p)
  case (Cons y xs)
  show ?case
  proof (cases "x = y")
    case True
    then show ?thesis using Cons.prems by (intro exI [of _ xs]) simp
  next
    case False
    then have "\<exists>ys. links nx (Some x) (x # ys) None \<and> length (x # ys) \<le> length xs"
      using Cons.prems by (intro Cons.IH [of "nx y"]) simp_all
    then show ?thesis by auto
  qed
qed simp

lemma links_None_distinct: "links nx p xs None \<Longrightarrow> distinct xs"
proof (induction xs arbitrary: p)
  case (Cons x xs)
  have "x \<notin> set xs"
  proof
    assume "x \<in> set xs"
    with Cons.prems obtain ys where y: "links nx (Some x) (x # ys) None" "length (x # ys) \<le> length xs"
      using links_suffix [of nx "nx x" xs x] by auto
    have "links nx (Some x) (x # xs) None" using Cons.prems by simp
    then show False using links_unique [OF y(1)] y(2) by fastforce
  qed
  with Cons show ?case by auto
qed simp

section \<open>Both directions\<close>

text \<open>\<open>chain nx pv f b xs e l\<close>: entered at \<open>f\<close> from \<open>b\<close>, the nodes \<open>xs\<close> are linked forward to \<open>e\<close>
  and backward from \<open>l\<close>.\<close>

fun chain :: "(nat \<Rightarrow> pointer) \<Rightarrow> (nat \<Rightarrow> pointer) \<Rightarrow> pointer \<Rightarrow> pointer \<Rightarrow> nat list \<Rightarrow> pointer \<Rightarrow> pointer \<Rightarrow> bool" where
  "chain nx pv f b [] e l = (f = e \<and> l = b)"
| "chain nx pv f b (x # xs) e l = (f = Some x \<and> pv x = b \<and> chain nx pv (nx x) (Some x) xs e l)"

lemma chain_frame [simp]:
  "y \<notin> set xs \<Longrightarrow> chain (nx(y := r)) pv f b xs e l = chain nx pv f b xs e l"
  "y \<notin> set xs \<Longrightarrow> chain nx (pv(y := r)) f b xs e l = chain nx pv f b xs e l"
  by (induction xs arbitrary: f b) auto

lemma chain_append:
  "chain nx pv f b (xs @ ys) e l \<longleftrightarrow> (\<exists>m n. chain nx pv f b xs m n \<and> chain nx pv m n ys e l)"
  by (induction xs arbitrary: f b) auto

lemma chain_snoc:
  "chain nx pv f b (xs @ [x]) e l \<longleftrightarrow> l = Some x \<and> nx x = e \<and> chain nx pv f b xs (Some x) (pv x)"
  by (auto simp: chain_append)

lemma chain_middle:
  "chain nx pv f b (xs @ y # ys) e l \<longleftrightarrow>
   chain nx pv f b xs (Some y) (pv y) \<and> chain nx pv (nx y) (Some y) ys e l"
  by (auto simp: chain_append)

lemma chain_links: "chain nx pv f b xs e l \<Longrightarrow> links nx f xs e"
  by (induction xs arbitrary: f b) auto

lemma chain_links_back: "chain nx pv f b xs e l \<Longrightarrow> links pv l (rev xs) b"
  by (induction xs arbitrary: f b) (auto simp: links_snoc)

lemma chain_iff_links: "chain nx pv f b xs e l \<longleftrightarrow> links nx f xs e \<and> links pv l (rev xs) b"
  by (induction xs arbitrary: f b) (auto simp: links_snoc)

text \<open>The pointers at both ends.\<close>

lemma chain_ends:
  assumes "chain nx pv f b xs e l"
  shows "f = (if xs = [] then e else Some (hd xs))" "l = (if xs = [] then b else Some (List.last xs))"
proof -
  show "f = (if xs = [] then e else Some (hd xs))" using assms by (cases xs) auto
  show "l = (if xs = [] then b else Some (List.last xs))"
    using assms by (cases xs rule: rev_cases) (auto simp: chain_snoc)
qed

text \<open>Redirecting the pointer that leaves a segment, and the one that comes back into it.\<close>

lemma chain_new_end:
  "chain nx pv f b (xs @ [x]) e l \<Longrightarrow> distinct (xs @ [x]) \<Longrightarrow> chain (nx(x := e')) pv f b (xs @ [x]) e' l"
  by (auto simp: chain_snoc)

lemma chain_new_front:
  "chain nx pv f b (x # xs) e l \<Longrightarrow> x \<notin> set xs \<Longrightarrow> chain nx (pv(x := b')) f b' (x # xs) e l"
  by auto

end
