(* ===== verification/Bounded_List.thy ===== *)
theory Bounded_List
  imports Linked Refinement
begin

text \<open>
  BoundedList (infra/util/BoundedList.hpp): a doubly linked list whose nodes are the elements of a
  fixed storage. A node that is erased goes to a free list, which is threaded through the nodes'
  \<open>next\<close>; a node is taken from there first, and from the storage when none was given back.
  \<open>bl_linked\<close> says how a list with the nodes \<open>xs\<close> and the free nodes \<open>fs\<close> lies in the storage;
  from it follow what every operation does to the sequence of elements, which nodes it leaves in
  place, and that every sequence of operations is one on a bounded sequence.

  Values are trivially copyable, so a value that is moved from keeps its contents; a destructed one
  is gone. Two lists have storages of their own, as the class demands; for \<open>swap\<close> and the assignments
  between lists the two are different objects, and an assignment of a list to itself is said to be so.
\<close>

section \<open>The list\<close>

record 'a blist =
  bl_storage_size :: nat
  bl_value :: "nat \<Rightarrow> 'a option"
  bl_next :: "nat \<Rightarrow> pointer"
  bl_previous :: "nat \<Rightarrow> pointer"
  bl_numAllocated :: nat
  bl_numInitialized :: nat
  bl_firstNode :: pointer
  bl_lastNode :: pointer
  bl_freeList :: pointer

definition bl_new :: "nat \<Rightarrow> 'a blist" where
  "bl_new n = \<lparr>bl_storage_size = n, bl_value = (\<lambda>i. None), bl_next = (\<lambda>i. None), bl_previous = (\<lambda>i. None),
     bl_numAllocated = 0, bl_numInitialized = 0, bl_firstNode = None, bl_lastNode = None, bl_freeList = None\<rparr>"

definition bl_size :: "'a blist \<Rightarrow> nat" where
  "bl_size s = bl_numAllocated s"

definition bl_max_size :: "'a blist \<Rightarrow> nat" where
  "bl_max_size s = bl_storage_size s"

definition bl_empty :: "'a blist \<Rightarrow> bool" where
  "bl_empty s = (bl_numAllocated s = 0)"

definition bl_full :: "'a blist \<Rightarrow> bool" where
  "bl_full s = (bl_numAllocated s = bl_storage_size s)"

text \<open>The value of a node; there is none in a node that holds no value.\<close>

definition bl_read :: "'a blist \<Rightarrow> nat \<Rightarrow> 'a result" where
  "bl_read s i = (case bl_value s i of None \<Rightarrow> Inl Out_of_bounds | Some v \<Rightarrow> Inr v)"

definition bl_set :: "'a blist \<Rightarrow> nat \<Rightarrow> 'a \<Rightarrow> 'a blist" where
  "bl_set s i v = s\<lparr>bl_value := (bl_value s)(i := Some v)\<rparr>"

definition bl_front :: "'a blist \<Rightarrow> 'a result" where
  "bl_front s = deref (bl_firstNode s) (bl_read s)"

definition bl_back :: "'a blist \<Rightarrow> 'a result" where
  "bl_back s = deref (bl_lastNode s) (bl_read s)"

section \<open>Iterators\<close>

text \<open>An iterator is the node it stands at, and nothing at the end; \<open>operator--\<close> at the end goes to the
  node of the last value of its container.\<close>

definition bl_begin :: "'a blist \<Rightarrow> pointer" where
  "bl_begin s = bl_firstNode s"

definition bl_end :: "'a blist \<Rightarrow> pointer" where
  "bl_end s = None"

definition bl_deref :: "'a blist \<Rightarrow> pointer \<Rightarrow> 'a result" where
  "bl_deref s p = deref p (bl_read s)"

definition bl_increment :: "'a blist \<Rightarrow> pointer \<Rightarrow> pointer result" where
  "bl_increment s p = deref p (\<lambda>i. Inr (bl_next s i))"

definition bl_decrement :: "'a blist \<Rightarrow> pointer \<Rightarrow> pointer result" where
  "bl_decrement s p = (case p of
     Some i \<Rightarrow> Inr (bl_previous s i)
   | None \<Rightarrow> deref (bl_lastNode s) (\<lambda>i. Inr (Some i)))"

definition bl_iter_eq :: "pointer \<Rightarrow> pointer \<Rightarrow> bool" where
  "bl_iter_eq p q = (p = q)"

section \<open>Adding and removing elements\<close>

definition bl_AllocateNode :: "'a blist \<Rightarrow> (nat \<times> 'a blist) result" where
  "bl_AllocateNode s = (case bl_freeList s of
     Some i \<Rightarrow> Inr (i, s\<lparr>bl_freeList := bl_next s i\<rparr>)
   | None \<Rightarrow> really_assert (bl_numInitialized s \<noteq> bl_storage_size s)
       (Inr (bl_numInitialized s, s\<lparr>bl_numInitialized := bl_numInitialized s + 1\<rparr>)))"

definition bl_push_front :: "'a \<Rightarrow> 'a blist \<Rightarrow> 'a blist result" where
  "bl_push_front v s = rbind (bl_AllocateNode s) (\<lambda>(node, s).
     let s = bl_set s node v;
         s = s\<lparr>bl_next := (bl_next s)(node := bl_firstNode s), bl_previous := (bl_previous s)(node := None)\<rparr>;
         s = (case bl_firstNode s of
             Some f \<Rightarrow> s\<lparr>bl_previous := (bl_previous s)(f := Some node)\<rparr>
           | None \<Rightarrow> s\<lparr>bl_lastNode := Some node\<rparr>)
     in Inr (s\<lparr>bl_firstNode := Some node, bl_numAllocated := bl_numAllocated s + 1\<rparr>))"

definition bl_push_back :: "'a \<Rightarrow> 'a blist \<Rightarrow> 'a blist result" where
  "bl_push_back v s = rbind (bl_AllocateNode s) (\<lambda>(node, s).
     let s = bl_set s node v;
         s = s\<lparr>bl_previous := (bl_previous s)(node := bl_lastNode s), bl_next := (bl_next s)(node := None)\<rparr>;
         s = (case bl_lastNode s of
             Some l \<Rightarrow> s\<lparr>bl_next := (bl_next s)(l := Some node)\<rparr>
           | None \<Rightarrow> s\<lparr>bl_firstNode := Some node\<rparr>)
     in Inr (s\<lparr>bl_lastNode := Some node, bl_numAllocated := bl_numAllocated s + 1\<rparr>))"

text \<open>\<open>emplace_front\<close> and \<open>emplace_back\<close> are the same code, with the value constructed from arguments.\<close>

definition bl_emplace_front :: "'a \<Rightarrow> 'a blist \<Rightarrow> 'a blist result" where
  "bl_emplace_front v s = bl_push_front v s"

definition bl_emplace_back :: "'a \<Rightarrow> 'a blist \<Rightarrow> 'a blist result" where
  "bl_emplace_back v s = bl_push_back v s"

text \<open>Destructing the value of a node that holds none is a fault as reading it is.\<close>

definition bl_destruct :: "nat \<Rightarrow> 'a blist \<Rightarrow> 'a blist result" where
  "bl_destruct i s = in_bounds (bl_value s i \<noteq> None) (Inr (s\<lparr>bl_value := (bl_value s)(i := None)\<rparr>))"

definition bl_free :: "nat \<Rightarrow> 'a blist \<Rightarrow> 'a blist" where
  "bl_free i s = s\<lparr>bl_next := (bl_next s)(i := bl_freeList s), bl_freeList := Some i,
     bl_numAllocated := bl_numAllocated s - 1\<rparr>"

definition bl_pop_front :: "'a blist \<Rightarrow> 'a blist result" where
  "bl_pop_front s = deref (bl_firstNode s) (\<lambda>oldStart. rbind (bl_destruct oldStart s) (\<lambda>s.
     let s = s\<lparr>bl_firstNode := bl_next s oldStart\<rparr>;
         s = (case bl_firstNode s of
             Some f \<Rightarrow> s\<lparr>bl_previous := (bl_previous s)(f := None)\<rparr>
           | None \<Rightarrow> s\<lparr>bl_lastNode := None\<rparr>)
     in Inr (bl_free oldStart s)))"

definition bl_pop_back :: "'a blist \<Rightarrow> 'a blist result" where
  "bl_pop_back s = deref (bl_lastNode s) (\<lambda>oldEnd. rbind (bl_destruct oldEnd s) (\<lambda>s.
     let s = s\<lparr>bl_lastNode := bl_previous s oldEnd\<rparr>;
         s = (case bl_lastNode s of
             Some l \<Rightarrow> s\<lparr>bl_next := (bl_next s)(l := None)\<rparr>
           | None \<Rightarrow> s\<lparr>bl_firstNode := None\<rparr>)
     in Inr (bl_free oldEnd s)))"

text \<open>\<open>insert\<close> before a position that is not the end links the new node to the position's node first,
  so that the case of no next node, which the code has, does not come up.\<close>

definition bl_insert :: "pointer \<Rightarrow> 'a \<Rightarrow> 'a blist \<Rightarrow> 'a blist result" where
  "bl_insert position v s = (if position \<noteq> bl_end s then
     rbind (bl_AllocateNode s) (\<lambda>(node, s).
       let s = bl_set s node v;
           s = s\<lparr>bl_next := (bl_next s)(node := position)\<rparr>;
           s = (case bl_next s node of
               Some n \<Rightarrow> (let s = s\<lparr>bl_previous := (bl_previous s)(node := bl_previous s n)\<rparr>
                          in s\<lparr>bl_previous := (bl_previous s)(n := Some node)\<rparr>)
             | None \<Rightarrow> s\<lparr>bl_previous := (bl_previous s)(node := bl_lastNode s), bl_lastNode := Some node\<rparr>);
           s = (case bl_previous s node of
               Some p \<Rightarrow> s\<lparr>bl_next := (bl_next s)(p := Some node)\<rparr>
             | None \<Rightarrow> s\<lparr>bl_firstNode := Some node\<rparr>)
       in Inr (s\<lparr>bl_numAllocated := bl_numAllocated s + 1\<rparr>))
   else bl_push_back v s)"

definition bl_erase :: "pointer \<Rightarrow> 'a blist \<Rightarrow> 'a blist result" where
  "bl_erase position s = deref position (\<lambda>node.
     let n = bl_next s node; p = bl_previous s node;
         s = (case n of Some i \<Rightarrow> s\<lparr>bl_previous := (bl_previous s)(i := p)\<rparr> | None \<Rightarrow> s\<lparr>bl_lastNode := p\<rparr>);
         s = (case p of Some i \<Rightarrow> s\<lparr>bl_next := (bl_next s)(i := n)\<rparr> | None \<Rightarrow> s\<lparr>bl_firstNode := n\<rparr>)
     in rbind (bl_destruct node s) (\<lambda>s. Inr (bl_free node s)))"

text \<open>\<open>remove\<close> takes a reference to a value in the list, which is the address of its node.\<close>

definition bl_remove :: "nat \<Rightarrow> 'a blist \<Rightarrow> 'a blist result" where
  "bl_remove node s = bl_erase (Some node) s"

text \<open>The nodes behind a position are freed one after the other; the fuel bounds a chain that does
  not end.\<close>

fun bl_free_all :: "nat \<Rightarrow> pointer \<Rightarrow> 'a blist \<Rightarrow> 'a blist result" where
  "bl_free_all fuel None s = Inr s"
| "bl_free_all 0 (Some node) s = Inl Diverges"
| "bl_free_all (Suc fuel) (Some node) s =
     (let n = bl_next s node in rbind (bl_destruct node s) (\<lambda>s. bl_free_all fuel n (bl_free node s)))"

definition bl_erase_all_after :: "pointer \<Rightarrow> 'a blist \<Rightarrow> 'a blist result" where
  "bl_erase_all_after position s = deref position (\<lambda>node.
     bl_free_all (bl_storage_size s) (bl_next s node)
       (s\<lparr>bl_next := (bl_next s)(node := None), bl_lastNode := Some node\<rparr>))"

lemma bl_pop_back_smaller [termination_simp]:
  "bl_numAllocated s \<noteq> 0 \<Longrightarrow> bl_pop_back s = Inr t \<Longrightarrow> bl_numAllocated t < bl_numAllocated s"
  by (auto simp: bl_pop_back_def bl_destruct_def bl_free_def Let_def result_Inr deref_Inr split: option.splits)

function bl_clear :: "'a blist \<Rightarrow> 'a blist result" where
  "bl_clear s = (if bl_empty s then Inr s else
     (case bl_pop_back s of Inl e \<Rightarrow> Inl e | Inr t \<Rightarrow> bl_clear t))"
  by pat_completeness auto
termination
  by (relation "measure bl_numAllocated") (auto simp: bl_empty_def bl_pop_back_smaller)

declare bl_clear.simps [simp del]

definition bl_destroy :: "'a blist \<Rightarrow> 'a blist result" where
  "bl_destroy s = bl_clear s"

section \<open>Assigning from values and from another list\<close>

fun bl_push_all :: "'a list \<Rightarrow> 'a blist \<Rightarrow> 'a blist result" where
  "bl_push_all [] s = Inr s"
| "bl_push_all (v # vs) s = rbind (bl_push_back v s) (bl_push_all vs)"

definition bl_assign :: "'a list \<Rightarrow> 'a blist \<Rightarrow> 'a blist result" where
  "bl_assign vs s = rbind (bl_clear s) (bl_push_all vs)"

definition bl_assign_n :: "nat \<Rightarrow> 'a \<Rightarrow> 'a blist \<Rightarrow> 'a blist result" where
  "bl_assign_n n v s = rbind (bl_clear s) (bl_push_all (replicate n v))"

text \<open>The range \<open>[first, last)\<close> is one of iterators of another list.\<close>

fun bl_push_range :: "nat \<Rightarrow> 'a blist \<Rightarrow> pointer \<Rightarrow> pointer \<Rightarrow> 'a blist \<Rightarrow> 'a blist result" where
  "bl_push_range 0 other first l s = Inl Diverges"
| "bl_push_range (Suc fuel) other first l s = (if first \<noteq> l then
     rbind (bl_deref other first) (\<lambda>v. rbind (bl_push_back v s) (\<lambda>s.
       rbind (bl_increment other first) (\<lambda>first. bl_push_range fuel other first l s)))
   else Inr s)"

definition bl_assign_range :: "'a blist \<Rightarrow> pointer \<Rightarrow> pointer \<Rightarrow> 'a blist \<Rightarrow> 'a blist result" where
  "bl_assign_range other first l s =
     rbind (bl_clear s) (bl_push_range (bl_storage_size other + 1) other first l)"

definition bl_move_from_range :: "'a blist \<Rightarrow> pointer \<Rightarrow> pointer \<Rightarrow> 'a blist \<Rightarrow> 'a blist result" where
  "bl_move_from_range other first l s =
     rbind (bl_clear s) (bl_push_range (bl_storage_size other + 1) other first l)"

definition bl_construct_n :: "nat \<Rightarrow> nat \<Rightarrow> 'a \<Rightarrow> 'a blist result" where
  "bl_construct_n m n v = bl_assign_n n v (bl_new m)"

definition bl_construct_range :: "nat \<Rightarrow> 'a list \<Rightarrow> 'a blist result" where
  "bl_construct_range m vs = bl_assign vs (bl_new m)"

definition bl_copy_construct :: "nat \<Rightarrow> 'a blist \<Rightarrow> 'a blist result" where
  "bl_copy_construct n other = bl_assign_range other (bl_begin other) (bl_end other) (bl_new n)"

text \<open>The move constructor clears the other list, the move assignment leaves it as it is.\<close>

definition bl_move_construct :: "nat \<Rightarrow> 'a blist \<Rightarrow> ('a blist \<times> 'a blist) result" where
  "bl_move_construct n other = rbind (bl_move_from_range other (bl_begin other) (bl_end other) (bl_new n))
     (\<lambda>s. rbind (bl_clear other) (\<lambda>other. Inr (s, other)))"

definition bl_copy_assign :: "bool \<Rightarrow> 'a blist \<Rightarrow> 'a blist \<Rightarrow> 'a blist result" where
  "bl_copy_assign same other s = (if \<not> same then
     rbind (bl_clear s) (bl_assign_range other (bl_begin other) (bl_end other)) else Inr s)"

definition bl_move_assign :: "'a blist \<Rightarrow> 'a blist \<Rightarrow> 'a blist result" where
  "bl_move_assign other s = rbind (bl_clear s) (bl_move_from_range other (bl_begin other) (bl_end other))"

section \<open>Swapping\<close>

text \<open>The values are swapped node by node as far as both lists go; the iterators of the last nodes
  swapped are null pointers before the first swap.\<close>

fun bl_swap_common :: "nat \<Rightarrow> 'a blist \<times> 'a blist \<Rightarrow> pointer \<times> pointer \<Rightarrow> pointer \<times> pointer \<Rightarrow>
    (('a blist \<times> 'a blist) \<times> (pointer \<times> pointer) \<times> (pointer \<times> pointer)) result" where
  "bl_swap_common 0 ab i old = Inl Diverges"
| "bl_swap_common (Suc fuel) (a, b) (i1, i2) old = (case (i1, i2) of
     (Some n1, Some n2) \<Rightarrow> rbind (bl_read a n1) (\<lambda>v1. rbind (bl_read b n2) (\<lambda>v2.
       bl_swap_common fuel (bl_set a n1 v2, bl_set b n2 v1) (bl_next a n1, bl_next b n2) (i1, i2)))
   | _ \<Rightarrow> Inr ((a, b), (i1, i2), old))"

text \<open>What is left of one list goes behind the other and is erased.\<close>

definition bl_swap_rest :: "pointer \<Rightarrow> pointer \<Rightarrow> 'a blist \<Rightarrow> 'a blist \<Rightarrow> ('a blist \<times> 'a blist) result" where
  "bl_swap_rest i old s other = (if i \<noteq> bl_end s then
     rbind (bl_push_range (bl_storage_size s + 1) s i (bl_end s) other) (\<lambda>other.
       rbind (bl_erase_all_after old s) (\<lambda>s. Inr (s, other)))
   else Inr (s, other))"

definition bl_swap :: "'a blist \<Rightarrow> 'a blist \<Rightarrow> ('a blist \<times> 'a blist) result" where
  "bl_swap a b = rbind (bl_swap_common (bl_storage_size a + 1) (a, b) (bl_begin a, bl_begin b) (None, None))
     (\<lambda>((a, b), (i1, i2), (o1, o2)). rbind (bl_swap_rest i1 o1 a b) (\<lambda>(a, b).
        rbind (bl_swap_rest i2 o2 b a) (\<lambda>(b, a). Inr (a, b))))"

section \<open>Comparing\<close>

fun bl_equal_from :: "nat \<Rightarrow> ('a::linorder) blist \<Rightarrow> 'a blist \<Rightarrow> pointer \<Rightarrow> pointer \<Rightarrow> bool result" where
  "bl_equal_from 0 a b i j = Inl Diverges"
| "bl_equal_from (Suc fuel) a b i j = (if i = bl_end a then Inr True else
     rbind (bl_deref a i) (\<lambda>x. rbind (bl_deref b j) (\<lambda>y. if x \<noteq> y then Inr False else
       rbind (bl_increment a i) (\<lambda>i. rbind (bl_increment b j) (\<lambda>j. bl_equal_from fuel a b i j)))))"

definition bl_eq :: "('a::linorder) blist \<Rightarrow> 'a blist \<Rightarrow> bool result" where
  "bl_eq a b = (if bl_size a = bl_size b
     then bl_equal_from (bl_storage_size a + 1) a b (bl_begin a) (bl_begin b) else Inr False)"

fun bl_less_from :: "nat \<Rightarrow> ('a::linorder) blist \<Rightarrow> 'a blist \<Rightarrow> pointer \<Rightarrow> pointer \<Rightarrow> bool result" where
  "bl_less_from 0 a b i j = Inl Diverges"
| "bl_less_from (Suc fuel) a b i j =
     (if i = bl_end a then Inr (j \<noteq> bl_end b) else if j = bl_end b then Inr False else
     rbind (bl_deref a i) (\<lambda>x. rbind (bl_deref b j) (\<lambda>y.
       if x < y then Inr True else if y < x then Inr False else
       rbind (bl_increment a i) (\<lambda>i. rbind (bl_increment b j) (\<lambda>j. bl_less_from fuel a b i j)))))"

definition bl_less :: "('a::linorder) blist \<Rightarrow> 'a blist \<Rightarrow> bool result" where
  "bl_less a b = bl_less_from (bl_storage_size a + 1) a b (bl_begin a) (bl_begin b)"

text \<open>The other comparisons, from these two.\<close>

definition bl_not_eq :: "('a::linorder) blist \<Rightarrow> 'a blist \<Rightarrow> bool result" where
  "bl_not_eq a b = rbind (bl_eq a b) (\<lambda>r. Inr (\<not> r))"

definition bl_less_eq :: "('a::linorder) blist \<Rightarrow> 'a blist \<Rightarrow> bool result" where
  "bl_less_eq a b = rbind (bl_less b a) (\<lambda>r. Inr (\<not> r))"

definition bl_greater :: "('a::linorder) blist \<Rightarrow> 'a blist \<Rightarrow> bool result" where
  "bl_greater a b = bl_less b a"

definition bl_greater_eq :: "('a::linorder) blist \<Rightarrow> 'a blist \<Rightarrow> bool result" where
  "bl_greater_eq a b = rbind (bl_less a b) (\<lambda>r. Inr (\<not> r))"

section \<open>How a list lies in its storage\<close>

text \<open>\<open>bl_holds xs ys fs\<close>: the list runs through \<open>xs\<close>, the nodes \<open>ys\<close> are being handled by an operation,
  and the free list runs through \<open>fs\<close>; these are all the nodes that were ever used.\<close>

definition bl_holds :: "nat list \<Rightarrow> nat list \<Rightarrow> nat list \<Rightarrow> 'a blist \<Rightarrow> bool" where
  "bl_holds xs ys fs s \<longleftrightarrow>
     chain (bl_next s) (bl_previous s) (bl_firstNode s) None xs None (bl_lastNode s) \<and>
     links (bl_next s) (bl_freeList s) fs None \<and>
     distinct (xs @ ys @ fs) \<and> set (xs @ ys @ fs) = {0..<bl_numInitialized s} \<and>
     bl_numInitialized s \<le> bl_storage_size s \<and> (\<forall>i\<in>set xs. bl_value s i \<noteq> None)"

definition bl_linked :: "nat list \<Rightarrow> nat list \<Rightarrow> 'a blist \<Rightarrow> bool" where
  "bl_linked xs fs s \<longleftrightarrow> bl_holds xs [] fs s \<and> bl_numAllocated s = length xs"

definition bl_inv :: "'a blist \<Rightarrow> bool" where
  "bl_inv s = (\<exists>xs fs. bl_linked xs fs s)"

text \<open>The nodes of the list from its start, and the values in them.\<close>

fun bl_walk :: "nat \<Rightarrow> 'a blist \<Rightarrow> pointer \<Rightarrow> nat list" where
  "bl_walk 0 s p = []"
| "bl_walk (Suc n) s p = (case p of None \<Rightarrow> [] | Some i \<Rightarrow> i # bl_walk n s (bl_next s i))"

definition bl_nodes :: "'a blist \<Rightarrow> nat list" where
  "bl_nodes s = bl_walk (bl_numAllocated s) s (bl_firstNode s)"

definition bl_elems :: "'a blist \<Rightarrow> 'a list" where
  "bl_elems s = map (\<lambda>i. the (bl_value s i)) (bl_nodes s)"

lemma bl_walk_links: "links (bl_next s) p xs None \<Longrightarrow> length xs \<le> n \<Longrightarrow> bl_walk n s p = xs"
proof (induction xs arbitrary: p n)
  case Nil
  then show ?case by (cases n) auto
next
  case (Cons x xs)
  then show ?case by (cases n) auto
qed

lemma bl_linked_nodes: "bl_linked xs fs s \<Longrightarrow> bl_nodes s = xs"
  unfolding bl_nodes_def bl_linked_def bl_holds_def
  by (rule bl_walk_links) (auto dest: chain_links)

lemma bl_linked_elems: "bl_linked xs fs s \<Longrightarrow> bl_elems s = map (\<lambda>i. the (bl_value s i)) xs"
  by (simp add: bl_elems_def bl_linked_nodes)

lemma bl_holds_count:
  assumes "bl_holds xs ys fs s"
  shows "length xs + length ys + length fs = bl_numInitialized s"
proof -
  have "card (set (xs @ ys @ fs)) = bl_numInitialized s" using assms by (simp add: bl_holds_def)
  moreover have "card (set (xs @ ys @ fs)) = length (xs @ ys @ fs)"
    using assms unfolding bl_holds_def by (intro distinct_card) simp
  ultimately show ?thesis by simp
qed

text \<open>An operation that leaves the free list alone.\<close>

lemma bl_holdsI:
  assumes "bl_holds xs ys fs s"
    and "bl_freeList t = bl_freeList s" "bl_numInitialized t = bl_numInitialized s"
    and "bl_storage_size t = bl_storage_size s"
    and "\<And>x. x \<in> set fs \<Longrightarrow> bl_next t x = bl_next s x"
    and "chain (bl_next t) (bl_previous t) (bl_firstNode t) None zs None (bl_lastNode t)"
    and "distinct (zs @ ws)" "set (zs @ ws) = set (xs @ ys)"
    and "\<And>x. x \<in> set zs \<Longrightarrow> bl_value t x \<noteq> None"
  shows "bl_holds zs ws fs t"
proof -
  have "links (bl_next t) (bl_freeList t) fs None"
    using assms(1,2) links_cong [OF assms(5)] by (simp add: bl_holds_def)
  moreover have "distinct (zs @ ws @ fs)" using assms(1,7,8) by (auto simp: bl_holds_def)
  moreover have "set (zs @ ws @ fs) = {0..<bl_numInitialized t}"
    using assms(1,3,8) by (auto simp: bl_holds_def)
  ultimately show ?thesis using assms by (simp add: bl_holds_def)
qed

lemma bl_linked_new: "bl_linked [] [] (bl_new n)"
  by (simp add: bl_linked_def bl_holds_def bl_new_def)

lemma bl_allocate:
  assumes "bl_holds xs [] fs s" "length xs < bl_storage_size s"
  obtains i p n fs' where "bl_AllocateNode s = Inr (i, s\<lparr>bl_freeList := p, bl_numInitialized := n\<rparr>)"
    "bl_holds xs [i] fs' (s\<lparr>bl_freeList := p, bl_numInitialized := n\<rparr>)"
proof (cases fs)
  case Nil
  then have "bl_freeList s = None" "bl_numInitialized s = length xs"
    using assms bl_holds_count [OF assms(1)] by (auto simp: bl_holds_def)
  with Nil assms have "bl_AllocateNode s = Inr (bl_numInitialized s,
      s\<lparr>bl_freeList := None, bl_numInitialized := bl_numInitialized s + 1\<rparr>)"
    "bl_holds xs [bl_numInitialized s] [] (s\<lparr>bl_freeList := None, bl_numInitialized := bl_numInitialized s + 1\<rparr>)"
    by (auto simp: bl_AllocateNode_def bl_holds_def)
  then show ?thesis by (rule that)
next
  case (Cons i fs')
  with assms have "bl_AllocateNode s = Inr (i, s\<lparr>bl_freeList := bl_next s i, bl_numInitialized := bl_numInitialized s\<rparr>)"
    "bl_holds xs [i] fs' (s\<lparr>bl_freeList := bl_next s i, bl_numInitialized := bl_numInitialized s\<rparr>)"
    by (auto simp: bl_AllocateNode_def bl_holds_def)
  then show ?thesis by (rule that)
qed

lemma bl_allocate_full:
  assumes "bl_holds xs [] fs s" "length xs = bl_storage_size s"
  shows "bl_AllocateNode s = Inl Assert_failed"
proof -
  have "bl_numInitialized s \<le> bl_storage_size s" using assms(1) by (simp add: bl_holds_def)
  then have "length fs = 0" "bl_numInitialized s = bl_storage_size s"
    using assms(2) bl_holds_count [OF assms(1)] by linarith+
  then show ?thesis using assms by (auto simp: bl_AllocateNode_def bl_holds_def)
qed

lemma bl_linked_le: "bl_linked xs fs s \<Longrightarrow> length xs \<le> bl_storage_size s"
  using bl_holds_count [of xs "[]" fs s] by (auto simp: bl_linked_def bl_holds_def)

section \<open>What the operations do to the nodes\<close>

text \<open>\<open>bl_puts r s xs ys v\<close>: \<open>r\<close> is the list \<open>s\<close> with a node for \<open>v\<close> between its nodes \<open>xs\<close> and \<open>ys\<close>.\<close>

definition bl_puts :: "'a blist result \<Rightarrow> 'a blist \<Rightarrow> nat list \<Rightarrow> nat list \<Rightarrow> 'a \<Rightarrow> bool" where
  "bl_puts r s xs ys v \<longleftrightarrow> (\<exists>t i fs. r = Inr t \<and> bl_linked (xs @ i # ys) fs t \<and> i \<notin> set (xs @ ys) \<and>
     bl_value t = (bl_value s)(i := Some v) \<and> bl_storage_size t = bl_storage_size s)"

text \<open>An operation that takes the new node \<open>i\<close> and links it into \<open>t\<close>.\<close>

lemma bl_putsI:
  assumes "bl_linked (xs @ ys) fs s" "length (xs @ ys) < bl_storage_size s"
    and links: "\<And>i p k fs'. bl_AllocateNode s = Inr (i, s\<lparr>bl_freeList := p, bl_numInitialized := k\<rparr>) \<Longrightarrow>
      i \<notin> set (xs @ ys) \<Longrightarrow> i \<notin> set fs' \<Longrightarrow> distinct (xs @ ys) \<Longrightarrow> set fs' \<inter> set (xs @ ys) = {} \<Longrightarrow>
      chain (bl_next s) (bl_previous s) (bl_firstNode s) None (xs @ ys) None (bl_lastNode s) \<Longrightarrow>
      \<exists>t. r = Inr t \<and> chain (bl_next t) (bl_previous t) (bl_firstNode t) None (xs @ i # ys) None (bl_lastNode t) \<and>
        (\<forall>x. x \<in> set fs' \<longrightarrow> bl_next t x = bl_next s x) \<and> bl_value t = (bl_value s)(i := Some v) \<and>
        bl_freeList t = p \<and> bl_numInitialized t = k \<and> bl_storage_size t = bl_storage_size s \<and>
        bl_numAllocated t = bl_numAllocated s + 1"
  shows "bl_puts r s xs ys v"
proof -
  from assms have h: "bl_holds (xs @ ys) [] fs s" and n: "bl_numAllocated s = length (xs @ ys)"
    by (auto simp: bl_linked_def)
  obtain i p k fs' where a: "bl_AllocateNode s = Inr (i, s\<lparr>bl_freeList := p, bl_numInitialized := k\<rparr>)"
    and h': "bl_holds (xs @ ys) [i] fs' (s\<lparr>bl_freeList := p, bl_numInitialized := k\<rparr>)"
    using bl_allocate [OF h assms(2)] .
  have i: "i \<notin> set (xs @ ys)" "i \<notin> set fs'" "distinct (xs @ ys)" "set fs' \<inter> set (xs @ ys) = {}"
    using h' by (auto simp: bl_holds_def)
  from h have "chain (bl_next s) (bl_previous s) (bl_firstNode s) None (xs @ ys) None (bl_lastNode s)"
    by (simp add: bl_holds_def)
  from links [OF a i this] obtain t where t: "r = Inr t"
    "chain (bl_next t) (bl_previous t) (bl_firstNode t) None (xs @ i # ys) None (bl_lastNode t)"
    "\<forall>x. x \<in> set fs' \<longrightarrow> bl_next t x = bl_next s x" "bl_value t = (bl_value s)(i := Some v)"
    "bl_freeList t = p" "bl_numInitialized t = k" "bl_storage_size t = bl_storage_size s"
    "bl_numAllocated t = bl_numAllocated s + 1" by auto
  have "bl_holds (xs @ i # ys) [] fs' t"
    by (rule bl_holdsI [OF h']) (use t i h in \<open>auto simp: bl_holds_def\<close>)
  then show ?thesis using t n i by (auto simp: bl_puts_def bl_linked_def)
qed

lemma bl_push_front_puts:
  assumes "bl_linked xs fs s" "length xs < bl_storage_size s"
  shows "bl_puts (bl_push_front v s) s [] xs v"
  by (rule bl_putsI [of "[]" xs fs s])
    (use assms in \<open>cases xs; force simp: bl_push_front_def bl_set_def Let_def\<close>)+

lemma bl_push_back_puts:
  assumes "bl_linked xs fs s" "length xs < bl_storage_size s"
  shows "bl_puts (bl_push_back v s) s xs [] v"
  by (rule bl_putsI [of xs "[]" fs s])
    (use assms in \<open>cases xs rule: rev_cases; force simp: bl_push_back_def bl_set_def Let_def chain_middle\<close>)+

lemma bl_insert_puts:
  assumes "bl_linked (xs @ y # ys) fs s" "length (xs @ y # ys) < bl_storage_size s"
  shows "bl_puts (bl_insert (Some y) v s) s xs (y # ys) v"
  by (rule bl_putsI [of xs "y # ys" fs s])
    (use assms in \<open>cases xs rule: rev_cases; cases ys; force simp: bl_insert_def bl_end_def bl_set_def Let_def chain_middle\<close>)+

text \<open>\<open>bl_takes r s xs y ys\<close>: \<open>r\<close> is the list \<open>s\<close>, with nodes \<open>xs @ y # ys\<close>, without its node \<open>y\<close>.\<close>

definition bl_takes :: "'a blist result \<Rightarrow> 'a blist \<Rightarrow> nat list \<Rightarrow> nat \<Rightarrow> nat list \<Rightarrow> bool" where
  "bl_takes r s xs y ys \<longleftrightarrow> (\<exists>t fs. r = Inr t \<and> bl_linked (xs @ ys) fs t \<and>
     bl_value t = (bl_value s)(y := None) \<and> bl_storage_size t = bl_storage_size s)"

lemma bl_free_linked:
  assumes "bl_holds xs [y] fs s" "bl_numAllocated s = Suc (length xs)"
  shows "bl_linked xs (y # fs) (bl_free y s)"
  using assms by (auto simp: bl_linked_def bl_holds_def bl_free_def)

lemma bl_takesI:
  assumes "bl_linked (xs @ y # ys) fs s"
    and unlinks: "y \<notin> set (xs @ ys) \<Longrightarrow> y \<notin> set fs \<Longrightarrow> distinct (xs @ ys) \<Longrightarrow> set fs \<inter> set (xs @ ys) = {} \<Longrightarrow>
      bl_value s y \<noteq> None \<Longrightarrow>
      chain (bl_next s) (bl_previous s) (bl_firstNode s) None (xs @ y # ys) None (bl_lastNode s) \<Longrightarrow>
      \<exists>t. r = Inr (bl_free y t) \<and>
        chain (bl_next t) (bl_previous t) (bl_firstNode t) None (xs @ ys) None (bl_lastNode t) \<and>
        (\<forall>x. x \<in> set fs \<longrightarrow> bl_next t x = bl_next s x) \<and> bl_value t = (bl_value s)(y := None) \<and>
        bl_freeList t = bl_freeList s \<and> bl_numInitialized t = bl_numInitialized s \<and>
        bl_storage_size t = bl_storage_size s \<and> bl_numAllocated t = bl_numAllocated s"
  shows "bl_takes r s xs y ys"
proof -
  from assms(1) have h: "bl_holds (xs @ y # ys) [] fs s" and n: "bl_numAllocated s = Suc (length (xs @ ys))"
    by (auto simp: bl_linked_def)
  have "y \<notin> set (xs @ ys)" "y \<notin> set fs" "distinct (xs @ ys)" "set fs \<inter> set (xs @ ys) = {}" "bl_value s y \<noteq> None"
    "chain (bl_next s) (bl_previous s) (bl_firstNode s) None (xs @ y # ys) None (bl_lastNode s)"
    using h by (auto simp: bl_holds_def)
  note y = this
  from unlinks [OF y] obtain t where t: "r = Inr (bl_free y t)"
    "chain (bl_next t) (bl_previous t) (bl_firstNode t) None (xs @ ys) None (bl_lastNode t)"
    "\<forall>x. x \<in> set fs \<longrightarrow> bl_next t x = bl_next s x" "bl_value t = (bl_value s)(y := None)"
    "bl_freeList t = bl_freeList s" "bl_numInitialized t = bl_numInitialized s"
    "bl_storage_size t = bl_storage_size s" "bl_numAllocated t = bl_numAllocated s" by auto
  have "bl_holds (xs @ ys) [y] fs t"
    by (rule bl_holdsI [OF h]) (use t y h in \<open>auto simp: bl_holds_def\<close>)
  then have "bl_linked (xs @ ys) (y # fs) (bl_free y t)" using n t by (intro bl_free_linked) auto
  then show ?thesis using t by (auto simp: bl_takes_def bl_free_def)
qed

lemma bl_erase_takes:
  assumes "bl_linked (xs @ y # ys) fs s"
  shows "bl_takes (bl_erase (Some y) s) s xs y ys"
  by (rule bl_takesI [of xs y ys fs s])
    (use assms in \<open>cases xs rule: rev_cases; cases ys; force simp: bl_erase_def bl_destruct_def Let_def chain_middle\<close>)+

lemma bl_pop_front_takes:
  assumes "bl_linked (y # ys) fs s"
  shows "bl_takes (bl_pop_front s) s [] y ys"
  by (rule bl_takesI [of "[]" y ys fs s])
    (use assms in \<open>cases ys; force simp: bl_pop_front_def bl_destruct_def Let_def\<close>)+

lemma bl_pop_back_takes:
  assumes "bl_linked (xs @ [y]) fs s"
  shows "bl_takes (bl_pop_back s) s xs y []"
  by (rule bl_takesI [of xs y "[]" fs s])
    (use assms in \<open>cases xs rule: rev_cases; force simp: bl_pop_back_def bl_destruct_def Let_def chain_middle\<close>)+

lemma bl_linked_Nil_pointers:
  "bl_linked [] fs s \<Longrightarrow> bl_firstNode s = None" "bl_linked [] fs s \<Longrightarrow> bl_lastNode s = None"
  by (auto simp: bl_linked_def bl_holds_def)

lemma bl_free_all_linked:
  assumes "bl_holds xs ys fs s" "links (bl_next s) p ys None" "\<forall>y\<in>set ys. bl_value s y \<noteq> None"
    and "bl_numAllocated s = length xs + length ys" "length ys \<le> fuel"
  shows "\<exists>t. bl_free_all fuel p s = Inr t \<and> bl_linked xs (rev ys @ fs) t \<and>
    bl_value t = (\<lambda>i. if i \<in> set ys then None else bl_value s i) \<and> bl_storage_size t = bl_storage_size s"
  using assms
proof (induction ys arbitrary: p s fs fuel)
  case Nil
  then show ?case by (auto simp: bl_linked_def)
next
  case (Cons y ys)
  from Cons.prems obtain k where k: "fuel = Suc k" "length ys \<le> k" by (cases fuel) auto
  have y: "y \<notin> set xs" "y \<notin> set ys" "y \<notin> set fs" "p = Some y" using Cons.prems(1,2) by (auto simp: bl_holds_def)
  let ?s = "s\<lparr>bl_value := (bl_value s)(y := None)\<rparr>"
  have "bl_holds xs ys (y # fs) (bl_free y ?s)"
    using Cons.prems(1) y by (auto simp: bl_holds_def bl_free_def)
  moreover have "links (bl_next (bl_free y ?s)) (bl_next s y) ys None"
    using Cons.prems(2) y by (simp add: bl_free_def)
  moreover have "\<forall>z\<in>set ys. bl_value (bl_free y ?s) z \<noteq> None"
    "bl_numAllocated (bl_free y ?s) = length xs + length ys"
    using Cons.prems(3,4) y by (auto simp: bl_free_def)
  ultimately obtain t where
    t: "bl_free_all k (bl_next s y) (bl_free y ?s) = Inr t" "bl_linked xs (rev ys @ y # fs) t"
    "bl_value t = (\<lambda>i. if i \<in> set ys then None else bl_value (bl_free y ?s) i)"
    "bl_storage_size t = bl_storage_size (bl_free y ?s)"
    using Cons.IH k(2) by blast
  then have "bl_storage_size t = bl_storage_size s" by (simp add: bl_free_def)
  note t = t(1-3) this
  have "bl_free_all fuel p s = Inr t" using Cons.prems(3) t(1) y k by (simp add: bl_destruct_def Let_def)
  moreover have "bl_value t = (\<lambda>i. if i \<in> set (y # ys) then None else bl_value s i)"
    using t(3) by (auto simp: bl_free_def)
  ultimately show ?case using t(2,4) by auto
qed

lemma bl_erase_all_after_linked:
  assumes "bl_linked (xs @ y # ys) fs s"
  obtains t gs where "bl_erase_all_after (Some y) s = Inr t" "bl_linked (xs @ [y]) gs t"
    "bl_value t = (\<lambda>i. if i \<in> set ys then None else bl_value s i)" "bl_storage_size t = bl_storage_size s"
proof -
  let ?s = "s\<lparr>bl_next := (bl_next s)(y := None), bl_lastNode := Some y\<rparr>"
  have h: "bl_holds (xs @ y # ys) [] fs s" and n: "bl_numAllocated s = length (xs @ y # ys)"
    using assms by (auto simp: bl_linked_def)
  then have y: "y \<notin> set xs" "y \<notin> set ys" "y \<notin> set fs" "\<forall>y\<in>set ys. bl_value s y \<noteq> None"
    "links (bl_next s) (bl_next s y) ys None"
    by (auto simp: bl_holds_def chain_middle dest: chain_links)
  have "bl_holds (xs @ [y]) ys fs ?s"
    by (rule bl_holdsI [OF h]) (use h y in \<open>auto simp: bl_holds_def chain_middle\<close>)
  moreover have "links (bl_next ?s) (bl_next s y) ys None" using y by simp
  moreover have "length ys \<le> bl_storage_size s" using bl_linked_le [OF assms] by simp
  ultimately have "\<exists>t. bl_free_all (bl_storage_size s) (bl_next s y) ?s = Inr t \<and> bl_linked (xs @ [y]) (rev ys @ fs) t \<and>
      bl_value t = (\<lambda>i. if i \<in> set ys then None else bl_value ?s i) \<and> bl_storage_size t = bl_storage_size ?s"
    using y n by (intro bl_free_all_linked) simp_all
  then obtain t where "bl_free_all (bl_storage_size s) (bl_next s y) ?s = Inr t"
    "bl_linked (xs @ [y]) (rev ys @ fs) t" "bl_value t = (\<lambda>i. if i \<in> set ys then None else bl_value s i)"
    "bl_storage_size t = bl_storage_size s" by (auto cong: if_cong)
  then show ?thesis by (intro that [of t "rev ys @ fs"]) (simp_all add: bl_erase_all_after_def)
qed

section \<open>What the operations do to the elements\<close>

definition bl_yields :: "'a blist result \<Rightarrow> nat \<Rightarrow> 'a list \<Rightarrow> bool" where
  "bl_yields r m vs \<longleftrightarrow> (\<exists>t. r = Inr t \<and> bl_inv t \<and> bl_storage_size t = m \<and> bl_elems t = vs)"

abbreviation bl_vals :: "'a blist \<Rightarrow> nat list \<Rightarrow> 'a list" where
  "bl_vals s xs \<equiv> map (\<lambda>i. the (bl_value s i)) xs"

lemma bl_puts_yields:
  "bl_puts r s xs ys v \<Longrightarrow> bl_yields r (bl_storage_size s) (bl_vals s xs @ v # bl_vals s ys)"
  unfolding bl_puts_def bl_yields_def bl_inv_def by (force simp: bl_linked_elems)

lemma bl_takes_yields:
  "bl_linked (xs @ y # ys) fs s \<Longrightarrow> bl_takes r s xs y ys \<Longrightarrow> bl_yields r (bl_storage_size s) (bl_vals s xs @ bl_vals s ys)"
  unfolding bl_takes_def bl_yields_def bl_inv_def bl_linked_def [of "xs @ y # ys"] bl_holds_def
  by (force simp: bl_linked_elems)

lemma bl_inv_linked:
  assumes "bl_inv s"
  obtains fs where "bl_linked (bl_nodes s) fs s"
  using assms by (auto simp: bl_inv_def bl_linked_nodes)

lemma bl_inv_length: "bl_inv s \<Longrightarrow> length (bl_elems s) = bl_numAllocated s"
  by (erule bl_inv_linked) (simp add: bl_elems_def bl_linked_def)

lemma bl_inv_le: "bl_inv s \<Longrightarrow> length (bl_elems s) \<le> bl_storage_size s"
  by (erule bl_inv_linked) (auto simp: bl_elems_def dest: bl_linked_le)

lemma bl_inv_cases:
  assumes "bl_inv s"
  obtains xs fs where "bl_linked xs fs s" "bl_elems s = bl_vals s xs" "bl_nodes s = xs"
  using assms by (auto simp: bl_inv_def bl_linked_nodes bl_linked_elems)

lemma bl_push_back_yields:
  "bl_inv s \<Longrightarrow> length (bl_elems s) < bl_storage_size s \<Longrightarrow>
   bl_yields (bl_push_back v s) (bl_storage_size s) (bl_elems s @ [v])"
  by (erule bl_inv_cases) (use bl_puts_yields [OF bl_push_back_puts] in force)

lemma bl_push_front_yields:
  "bl_inv s \<Longrightarrow> length (bl_elems s) < bl_storage_size s \<Longrightarrow>
   bl_yields (bl_push_front v s) (bl_storage_size s) (v # bl_elems s)"
  by (erule bl_inv_cases) (use bl_puts_yields [OF bl_push_front_puts] in force)

lemma bl_push_full:
  assumes "bl_inv s" "length (bl_elems s) = bl_storage_size s"
  shows "bl_push_back v s = Inl Assert_failed" "bl_push_front v s = Inl Assert_failed"
    "bl_insert p v s = Inl Assert_failed"
proof -
  have "bl_AllocateNode s = Inl Assert_failed"
    using assms by (auto elim!: bl_inv_cases simp: bl_linked_def intro!: bl_allocate_full)
  then show "bl_push_back v s = Inl Assert_failed" "bl_push_front v s = Inl Assert_failed"
    "bl_insert p v s = Inl Assert_failed"
    by (simp_all add: bl_push_back_def bl_push_front_def bl_insert_def)
qed

lemma bl_pop_front_yields:
  "bl_inv s \<Longrightarrow> bl_elems s \<noteq> [] \<Longrightarrow> bl_yields (bl_pop_front s) (bl_storage_size s) (tl (bl_elems s))"
proof (erule bl_inv_cases)
  fix xs fs assume *: "bl_linked xs fs s" "bl_elems s = bl_vals s xs" "bl_elems s \<noteq> []"
  then obtain y ys where "xs = y # ys" by (cases xs) auto
  with * show ?thesis using bl_takes_yields [of "[]" y ys fs s, OF _ bl_pop_front_takes] by auto
qed

lemma bl_pop_back_yields:
  "bl_inv s \<Longrightarrow> bl_elems s \<noteq> [] \<Longrightarrow> bl_yields (bl_pop_back s) (bl_storage_size s) (butlast (bl_elems s))"
proof (erule bl_inv_cases)
  fix xs fs assume *: "bl_linked xs fs s" "bl_elems s = bl_vals s xs" "bl_elems s \<noteq> []"
  then obtain y ys where "xs = ys @ [y]" by (cases xs rule: rev_cases) auto
  with * show ?thesis using bl_takes_yields [of ys y "[]" fs s, OF _ bl_pop_back_takes] by auto
qed

lemma bl_pop_empty:
  assumes "bl_inv s" "bl_elems s = []"
  shows "bl_pop_front s = Inl Out_of_bounds" "bl_pop_back s = Inl Out_of_bounds"
  using assms by (auto elim!: bl_inv_cases simp: bl_pop_front_def bl_pop_back_def bl_linked_Nil_pointers)

lemma bl_clear_yields: "bl_inv s \<Longrightarrow> bl_yields (bl_clear s) (bl_storage_size s) []"
proof (induction "bl_numAllocated s" arbitrary: s)
  case 0
  then show ?case using bl_inv_length [OF 0(2)] by (simp add: bl_clear.simps bl_empty_def bl_yields_def)
next
  case (Suc n)
  then have "bl_elems s \<noteq> []" using bl_inv_length [of s] by auto
  from bl_pop_back_yields [OF Suc.prems this] obtain t where
    t: "bl_pop_back s = Inr t" "bl_inv t" "bl_storage_size t = bl_storage_size s" "bl_elems t = butlast (bl_elems s)"
    by (auto simp: bl_yields_def)
  then have "bl_numAllocated t = n"
    using bl_inv_length [OF t(2)] bl_inv_length [OF Suc.prems] Suc(2) by simp
  from Suc(1) [OF this [symmetric] t(2)] show ?case
    using Suc(2) t by (subst bl_clear.simps) (simp add: bl_empty_def)
qed

lemma bl_push_all_yields:
  assumes "bl_inv s"
  shows "length (bl_elems s) + length vs \<le> bl_storage_size s \<Longrightarrow>
      bl_yields (bl_push_all vs s) (bl_storage_size s) (bl_elems s @ vs)"
    and "\<not> length (bl_elems s) + length vs \<le> bl_storage_size s \<Longrightarrow> bl_push_all vs s = Inl Assert_failed"
  using assms
proof (induction vs arbitrary: s)
  case (Cons v vs)
  {
    case 1
    then obtain t where t: "bl_push_back v s = Inr t" "bl_inv t" "bl_storage_size t = bl_storage_size s"
      "bl_elems t = bl_elems s @ [v]"
      using bl_push_back_yields [of s v] by (auto simp: bl_yields_def)
    show ?case using Cons.IH(1) [of t] 1 t by auto
  next
    case 2
    show ?case
    proof (cases "length (bl_elems s) < bl_storage_size s")
      case True
      with 2 obtain t where t: "bl_push_back v s = Inr t" "bl_inv t" "bl_storage_size t = bl_storage_size s"
        "bl_elems t = bl_elems s @ [v]"
        using bl_push_back_yields [of s v] by (auto simp: bl_yields_def)
      then show ?thesis using Cons.IH(2) [of t] 2 by auto
    next
      case False
      then have "length (bl_elems s) = bl_storage_size s" using bl_inv_le [of s] 2 by simp
      then show ?thesis using bl_push_full(1) [of s v] 2 by simp
    qed
  }
qed (auto simp: bl_yields_def dest: bl_inv_le)

lemma bl_assign_yields:
  assumes "bl_inv s"
  shows "bl_assign vs s = Inl Assert_failed \<and> \<not> length vs \<le> bl_storage_size s \<or>
    bl_yields (bl_assign vs s) (bl_storage_size s) vs \<and> length vs \<le> bl_storage_size s"
proof -
  obtain t where t: "bl_clear s = Inr t" "bl_inv t" "bl_storage_size t = bl_storage_size s" "bl_elems t = []"
    using bl_clear_yields [OF assms] by (auto simp: bl_yields_def)
  then show ?thesis using bl_push_all_yields [of t vs] by (auto simp: bl_assign_def)
qed

text \<open>Going over another list while pushing its values is pushing all its values.\<close>

lemma bl_push_range_all:
  assumes "links (bl_next other) p ys None" "\<forall>y\<in>set ys. bl_value other y \<noteq> None" "length ys < fuel"
  shows "bl_push_range fuel other p None s = bl_push_all (bl_vals other ys) s"
  using assms
proof (induction ys arbitrary: p s fuel)
  case Nil
  then show ?case by (cases fuel) auto
next
  case (Cons y ys)
  then obtain k where "fuel = Suc k" by (cases fuel) auto
  then show ?case using Cons
    by (auto simp: bl_deref_def bl_read_def bl_increment_def intro!: arg_cong [where f = "rbind _"])
qed

lemma bl_linked_links: "bl_linked xs fs s \<Longrightarrow> links (bl_next s) (bl_firstNode s) xs None"
  by (auto simp: bl_linked_def bl_holds_def dest: chain_links)

lemma bl_linked_values: "bl_linked xs fs s \<Longrightarrow> \<forall>x\<in>set xs. bl_value s x \<noteq> None"
  by (simp add: bl_linked_def bl_holds_def)

lemma bl_push_range_elems:
  "bl_inv other \<Longrightarrow> bl_push_range (bl_storage_size other + 1) other (bl_begin other) (bl_end other) =
   bl_push_all (bl_elems other)"
  by (rule ext, erule bl_inv_cases)
    (simp add: bl_begin_def bl_end_def bl_push_range_all bl_linked_links bl_linked_values bl_linked_le
      less_Suc_eq_le del: bl_push_range.simps)

lemma bl_assign_range_all:
  assumes "bl_inv other"
  shows "bl_assign_range other (bl_begin other) (bl_end other) s = bl_assign (bl_elems other) s"
    "bl_move_from_range other (bl_begin other) (bl_end other) s = bl_assign (bl_elems other) s"
  by (simp_all add: bl_assign_range_def bl_move_from_range_def bl_assign_def
      bl_push_range_elems [OF assms, unfolded add_Suc_right add_0_right One_nat_def] del: bl_push_range.simps)

lemma bl_copy_assign_yields:
  assumes "bl_inv s" "bl_inv other"
  shows "length (bl_elems other) \<le> bl_storage_size s \<Longrightarrow>
    bl_yields (bl_copy_assign False other s) (bl_storage_size s) (bl_elems other)"
    "length (bl_elems other) \<le> bl_storage_size s \<Longrightarrow>
    bl_yields (bl_move_assign other s) (bl_storage_size s) (bl_elems other)"
proof -
  obtain t where "bl_clear s = Inr t" "bl_inv t" "bl_storage_size t = bl_storage_size s"
    using bl_clear_yields [OF assms(1)] by (auto simp: bl_yields_def)
  then show "length (bl_elems other) \<le> bl_storage_size s \<Longrightarrow>
      bl_yields (bl_copy_assign False other s) (bl_storage_size s) (bl_elems other)"
    "length (bl_elems other) \<le> bl_storage_size s \<Longrightarrow>
      bl_yields (bl_move_assign other s) (bl_storage_size s) (bl_elems other)"
    using bl_assign_yields [of t "bl_elems other"]
    by (auto simp: bl_copy_assign_def bl_move_assign_def bl_assign_range_all [OF assms(2)])
qed

section \<open>Comparing lists\<close>

lemma bl_equal_from_links:
  assumes "links (bl_next a) p xs None" "links (bl_next b) q ys None"
    and "\<forall>x\<in>set xs. bl_value a x \<noteq> None" "\<forall>y\<in>set ys. bl_value b y \<noteq> None"
    and "length xs = length ys" "length xs < fuel"
  shows "bl_equal_from fuel a b p q = Inr (bl_vals a xs = bl_vals b ys)"
  using assms
proof (induction xs arbitrary: p q ys fuel)
  case Nil
  then show ?case by (cases fuel) (auto simp: bl_end_def)
next
  case (Cons x xs)
  then obtain k y zs where "fuel = Suc k" "ys = y # zs" by (cases fuel; cases ys) auto
  then show ?case using Cons by (auto simp: bl_deref_def bl_read_def bl_increment_def bl_end_def)
qed

lemma bl_less_from_links:
  assumes "links (bl_next a) p xs None" "links (bl_next b) q ys None"
    and "\<forall>x\<in>set xs. bl_value a x \<noteq> None" "\<forall>y\<in>set ys. bl_value b y \<noteq> None" "length xs < fuel"
  shows "bl_less_from fuel a b p q = Inr (lexicographical_compare (bl_vals a xs) (bl_vals b ys))"
  using assms
proof (induction xs arbitrary: p q ys fuel)
  case Nil
  then show ?case by (cases fuel; cases ys) (auto simp: bl_end_def)
next
  case (Cons x xs)
  then obtain k where k: "fuel = Suc k" by (cases fuel) auto
  show ?case
  proof (cases ys)
    case Nil
    then show ?thesis using Cons k by (auto simp: bl_end_def)
  next
    case (Cons y zs)
    then show ?thesis using Cons.prems Cons.IH [of "bl_next a x" "bl_next b y" zs k] k
      by (auto simp: bl_deref_def bl_read_def bl_increment_def bl_end_def)
  qed
qed

lemma bl_eq_elems:
  assumes "bl_inv a" "bl_inv b"
  shows "bl_eq a b = Inr (bl_elems a = bl_elems b)"
proof -
  from assms obtain xs fs ys gs where l: "bl_linked xs fs a" "bl_elems a = bl_vals a xs"
    "bl_linked ys gs b" "bl_elems b = bl_vals b ys" by (auto elim!: bl_inv_cases)
  have n: "bl_size a = length xs" "bl_size b = length ys"
    using l by (simp_all add: bl_size_def bl_linked_def)
  show ?thesis
  proof (cases "length xs = length ys")
    case True
    then show ?thesis
      using bl_equal_from_links [OF bl_linked_links [OF l(1)] bl_linked_links [OF l(3)]
          bl_linked_values [OF l(1)] bl_linked_values [OF l(3)], of "bl_storage_size a + 1"]
        bl_linked_le [OF l(1)] l n
      by (simp add: bl_eq_def bl_begin_def del: bl_equal_from.simps)
  next
    case False
    then have "bl_elems a \<noteq> bl_elems b" using l by (auto dest: map_eq_imp_length_eq)
    then show ?thesis using False n by (simp add: bl_eq_def)
  qed
qed

lemma bl_less_elems:
  assumes "bl_inv a" "bl_inv b"
  shows "bl_less a b = Inr (lexicographical_compare (bl_elems a) (bl_elems b))"
proof -
  from assms obtain xs fs ys gs where l: "bl_linked xs fs a" "bl_elems a = bl_vals a xs"
    "bl_linked ys gs b" "bl_elems b = bl_vals b ys" by (auto elim!: bl_inv_cases)
  then show ?thesis
    using bl_less_from_links [OF bl_linked_links [OF l(1)] bl_linked_links [OF l(3)]
        bl_linked_values [OF l(1)] bl_linked_values [OF l(3)], of "bl_storage_size a + 1"]
      bl_linked_le [OF l(1)]
    by (simp add: bl_less_def bl_begin_def del: bl_less_from.simps)
qed

section \<open>Going back and forth\<close>

text \<open>\<open>operator--\<close> undoes \<open>operator++\<close>, also from the end.\<close>

lemma bl_decrement_increment:
  assumes "bl_inv s" "i \<in> set (bl_nodes s)" "bl_increment s (Some i) = Inr p"
  shows "bl_decrement s p = Inr (Some i)"
proof -
  from assms(1) obtain xs fs where l: "bl_linked xs fs s" "bl_nodes s = xs" by (rule bl_inv_cases)
  then obtain ys zs where "xs = ys @ i # zs" using assms(2) by (auto simp: in_set_conv_decomp)
  with l have "chain (bl_next s) (bl_previous s) (bl_next s i) (Some i) zs None (bl_lastNode s)"
    by (simp add: bl_linked_def bl_holds_def chain_middle)
  then show ?thesis using assms(3) by (cases zs) (auto simp: bl_increment_def bl_decrement_def)
qed

section \<open>Swapping\<close>

lemma bl_swap_common_values:
  assumes "links (bl_next a) p xs None" "links (bl_next b) q ys None" "distinct xs" "distinct ys"
    and "\<forall>x\<in>set xs. bl_value a x \<noteq> None" "\<forall>y\<in>set ys. bl_value b y \<noteq> None" "length xs < fuel"
    and "n = min (length xs) (length ys)"
  shows "\<exists>va vb. bl_swap_common fuel (a, b) (p, q) old = Inr ((a\<lparr>bl_value := va\<rparr>, b\<lparr>bl_value := vb\<rparr>),
      (if n < length xs then Some (xs ! n) else None, if n < length ys then Some (ys ! n) else None),
      (if n = 0 then old else (Some (xs ! (n - 1)), Some (ys ! (n - 1))))) \<and>
    map va xs = take n (map (bl_value b) ys) @ drop n (map (bl_value a) xs) \<and>
    map vb ys = take n (map (bl_value a) xs) @ drop n (map (bl_value b) ys) \<and>
    (\<forall>z. z \<notin> set xs \<longrightarrow> va z = bl_value a z) \<and> (\<forall>z. z \<notin> set ys \<longrightarrow> vb z = bl_value b z)"
  using assms
proof (induction xs arbitrary: a b p q ys fuel old n)
  case Nil
  then show ?case
    by - (rule exI [of _ "bl_value a"], rule exI [of _ "bl_value b"], (cases fuel; cases ys; auto))
next
  case (Cons x xs)
  then obtain k where k: "fuel = Suc k" by (cases fuel) auto
  show ?case
  proof (cases ys)
    case Nil
    then show ?thesis using Cons.prems k
      by - (rule exI [of _ "bl_value a"], rule exI [of _ "bl_value b"], auto)
  next
    case [simp]: (Cons y zs)
    from Cons.prems obtain v w where v: "bl_value a x = Some v" "bl_value b y = Some w" by auto
    let ?a = "bl_set a x w" and ?b = "bl_set b y v" and ?m = "min (length xs) (length zs)"
    have n: "n = Suc ?m" using Cons.prems(8) by simp
    have "\<exists>va vb. bl_swap_common k (?a, ?b) (bl_next a x, bl_next b y) (p, q) = Inr ((?a\<lparr>bl_value := va\<rparr>, ?b\<lparr>bl_value := vb\<rparr>),
      (if ?m < length xs then Some (xs ! ?m) else None, if ?m < length zs then Some (zs ! ?m) else None),
      (if ?m = 0 then (p, q) else (Some (xs ! (?m - 1)), Some (zs ! (?m - 1))))) \<and>
      map va xs = take ?m (map (bl_value ?b) zs) @ drop ?m (map (bl_value ?a) xs) \<and>
      map vb zs = take ?m (map (bl_value ?a) xs) @ drop ?m (map (bl_value ?b) zs) \<and>
      (\<forall>z. z \<notin> set xs \<longrightarrow> va z = bl_value ?a z) \<and> (\<forall>z. z \<notin> set zs \<longrightarrow> vb z = bl_value ?b z)"
      by (rule Cons.IH) (use Cons.prems k in \<open>auto simp: bl_set_def\<close>)
    then obtain va vb where i: "bl_swap_common k (?a, ?b) (bl_next a x, bl_next b y) (p, q) = Inr ((?a\<lparr>bl_value := va\<rparr>, ?b\<lparr>bl_value := vb\<rparr>),
      (if ?m < length xs then Some (xs ! ?m) else None, if ?m < length zs then Some (zs ! ?m) else None),
      (if ?m = 0 then (p, q) else (Some (xs ! (?m - 1)), Some (zs ! (?m - 1)))))"
      "map va xs = take ?m (map (bl_value ?b) zs) @ drop ?m (map (bl_value ?a) xs)"
      "map vb zs = take ?m (map (bl_value ?a) xs) @ drop ?m (map (bl_value ?b) zs)"
      "\<forall>z. z \<notin> set xs \<longrightarrow> va z = bl_value ?a z" "\<forall>z. z \<notin> set zs \<longrightarrow> vb z = bl_value ?b z" by blast
    have e: "map (bl_value ?b) zs = map (bl_value b) zs" "map (bl_value ?a) xs = map (bl_value a) xs"
      "?a\<lparr>bl_value := va\<rparr> = a\<lparr>bl_value := va\<rparr>" "?b\<lparr>bl_value := vb\<rparr> = b\<lparr>bl_value := vb\<rparr>"
      "va x = Some w" "vb y = Some v"
      using Cons.prems(3,4) i(4,5) by (auto simp: bl_set_def)
    have "p = Some x" "q = Some y" using Cons.prems by auto
    then have "bl_swap_common fuel (a, b) (p, q) old = Inr ((a\<lparr>bl_value := va\<rparr>, b\<lparr>bl_value := vb\<rparr>),
      (if n < length (x # xs) then Some ((x # xs) ! n) else None, if n < length ys then Some (ys ! n) else None),
      (if n = 0 then old else (Some ((x # xs) ! (n - 1)), Some (ys ! (n - 1)))))"
      using i(1) k n v e by (cases "?m") (auto simp: bl_read_def)
    moreover have "\<forall>z. z \<notin> set (x # xs) \<longrightarrow> va z = bl_value a z" "\<forall>z. z \<notin> set ys \<longrightarrow> vb z = bl_value b z"
      using i(4,5) by (auto simp: bl_set_def)
    ultimately show ?thesis using i(2,3) e n v by (intro exI [of _ va] exI [of _ vb]) simp
  qed
qed

lemma bl_linked_set_values:
  assumes "bl_linked xs fs s" "None \<notin> set (map va xs)"
  shows "bl_linked xs fs (s\<lparr>bl_value := va\<rparr>)"
proof -
  have "\<forall>x\<in>set xs. va x \<noteq> None" using assms(2) by (metis image_eqI set_map)
  then show ?thesis using assms(1) by (simp add: bl_linked_def bl_holds_def)
qed

lemma bl_swap_rest_none [simp]: "bl_swap_rest None old s other = Inr (s, other)"
  by (simp add: bl_swap_rest_def bl_end_def)

text \<open>What is left of a list, from its node \<open>z\<close> on, is pushed onto the other list, and erased behind the
  last node that was swapped, which has to be there.\<close>

lemma bl_swap_rest_push:
  assumes "bl_linked (xs @ z # zs) fs s"
  shows "bl_swap_rest (Some z) old s other = rbind (bl_push_all (bl_vals s (z # zs)) other) (\<lambda>other.
    rbind (bl_erase_all_after old s) (\<lambda>s. Inr (s, other)))"
proof -
  have h: "links (bl_next s) (Some z) (z # zs) None" "\<forall>y\<in>set (z # zs). bl_value s y \<noteq> None"
    "length (z # zs) < bl_storage_size s + 1"
    using bl_linked_links [OF assms] bl_linked_values [OF assms] bl_linked_le [OF assms]
    by (auto simp: links_append)
  then show ?thesis
    using bl_push_range_all [OF h] by (simp add: bl_swap_rest_def bl_end_def del: bl_push_range.simps)
qed

lemma bl_swap_rest_moves:
  assumes "bl_linked (ys @ z # zs) fs s" "bl_inv other" "length (bl_elems other) + length (z # zs) \<le> bl_storage_size other"
    and "ys \<noteq> []"
  obtains s' other' where "bl_swap_rest (Some z) (Some (List.last ys)) s other = Inr (s', other')"
    "bl_yields (Inr s') (bl_storage_size s) (bl_vals s ys)"
    "bl_yields (Inr other') (bl_storage_size other) (bl_elems other @ bl_vals s (z # zs))"
proof -
  obtain xs y where y: "ys = xs @ [y]" using assms(4) by (cases ys rule: rev_cases) auto
  have l: "bl_linked (xs @ y # z # zs) fs s" using assms(1) y by simp
  obtain other' where o: "bl_push_all (bl_vals s (z # zs)) other = Inr other'"
    "bl_yields (Inr other') (bl_storage_size other) (bl_elems other @ bl_vals s (z # zs))"
    using bl_push_all_yields(1) [OF assms(2), of "bl_vals s (z # zs)"] assms(3) by (auto simp: bl_yields_def)
  obtain t gs where t: "bl_erase_all_after (Some y) s = Inr t" "bl_linked ys gs t"
    "bl_value t = (\<lambda>i. if i \<in> set (z # zs) then None else bl_value s i)" "bl_storage_size t = bl_storage_size s"
    using bl_erase_all_after_linked [OF l] y by auto
  have "distinct (ys @ z # zs)" using assms(1) by (auto simp: bl_linked_def bl_holds_def)
  then have "bl_vals t ys = bl_vals s ys" using t(3) by auto
  then have "bl_yields (Inr t) (bl_storage_size s) (bl_vals s ys)"
    using t by (auto simp: bl_yields_def bl_inv_def bl_linked_elems)
  then show ?thesis using bl_swap_rest_push [OF assms(1), of "Some y" other] t(1) o y by (intro that) simp_all
qed

lemma bl_swap_rest_fault:
  assumes "bl_linked (xs @ z # zs) fs s" "bl_inv other"
  shows "\<not> length (bl_elems other) + length (z # zs) \<le> bl_storage_size other \<Longrightarrow>
      bl_swap_rest (Some z) old s other = Inl Assert_failed"
    and "length (bl_elems other) + length (z # zs) \<le> bl_storage_size other \<Longrightarrow>
      bl_swap_rest (Some z) None s other = Inl Out_of_bounds"
  using bl_push_all_yields [OF assms(2), of "bl_vals s (z # zs)"]
  by (auto simp: bl_swap_rest_push [OF assms(1)] bl_erase_all_after_def bl_yields_def)

text \<open>The lists after the values were swapped as far as both go.\<close>

lemma bl_swap_common_lists:
  assumes "bl_linked xs fs a" "bl_linked ys gs b" "n = min (length xs) (length ys)"
  obtains a' b' where "bl_linked xs fs a'" "bl_linked ys gs b'"
    "bl_storage_size a' = bl_storage_size a" "bl_storage_size b' = bl_storage_size b"
    "bl_vals a' xs = take n (bl_vals b ys) @ drop n (bl_vals a xs)"
    "bl_vals b' ys = take n (bl_vals a xs) @ drop n (bl_vals b ys)"
    "bl_swap a b = rbind (bl_swap_rest (if n < length xs then Some (xs ! n) else None)
        (if n = 0 then None else Some (xs ! (n - 1))) a' b') (\<lambda>(a', b').
      rbind (bl_swap_rest (if n < length ys then Some (ys ! n) else None)
        (if n = 0 then None else Some (ys ! (n - 1))) b' a') (\<lambda>(b', a'). Inr (a', b')))"
proof -
  have d: "distinct xs" "distinct ys" using assms by (auto simp: bl_linked_def bl_holds_def)
  have f: "length xs < bl_storage_size a + 1" using bl_linked_le [OF assms(1)] by simp
  from bl_swap_common_values [OF bl_linked_links [OF assms(1)] bl_linked_links [OF assms(2)] d
      bl_linked_values [OF assms(1)] bl_linked_values [OF assms(2)] f assms(3), of "(None, None)"]
  obtain va vb where v:
    "bl_swap_common (bl_storage_size a + 1) (a, b) (bl_firstNode a, bl_firstNode b) (None, None) =
      Inr ((a\<lparr>bl_value := va\<rparr>, b\<lparr>bl_value := vb\<rparr>),
      (if n < length xs then Some (xs ! n) else None, if n < length ys then Some (ys ! n) else None),
      (if n = 0 then (None, None) else (Some (xs ! (n - 1)), Some (ys ! (n - 1)))))"
    "map va xs = take n (map (bl_value b) ys) @ drop n (map (bl_value a) xs)"
    "map vb ys = take n (map (bl_value a) xs) @ drop n (map (bl_value b) ys)" by blast
  have the: "map (\<lambda>i. the (f i)) zs = map the (map f zs)" for f :: "nat \<Rightarrow> 'a option" and zs by simp
  have ok: "None \<notin> set (map (bl_value a) xs)" "None \<notin> set (map (bl_value b) ys)"
    using bl_linked_values [OF assms(1)] bl_linked_values [OF assms(2)] by force+
  have "None \<notin> set (map va xs)" "None \<notin> set (map vb ys)"
    unfolding v(2,3) using ok by (auto dest: in_set_takeD in_set_dropD)
  then show ?thesis
    using v(1) by (intro that [of "a\<lparr>bl_value := va\<rparr>" "b\<lparr>bl_value := vb\<rparr>"])
      (auto simp: bl_swap_def bl_begin_def bl_linked_set_values assms(1,2) the v(2,3) take_map drop_map
        simp del: bl_swap_common.simps map_map)
qed

lemma take_at: "n < length xs \<Longrightarrow> xs = take n xs @ xs ! n # drop (Suc n) xs"
  by (simp add: Cons_nth_drop_Suc)

text \<open>Both lists have nodes, and the first goes further than the second, or as far.\<close>

lemma bl_swap_pair:
  assumes "bl_linked xs fs a" "bl_linked ys gs b" "xs \<noteq> []" "ys \<noteq> []"
    and "length xs \<le> bl_storage_size b" "length ys \<le> bl_storage_size a"
  obtains a' b' where "bl_swap a b = Inr (a', b')" "bl_yields (Inr a') (bl_storage_size a) (bl_elems b)"
    "bl_yields (Inr b') (bl_storage_size b) (bl_elems a)"
proof -
  define n where "n = min (length xs) (length ys)"
  from bl_swap_common_lists [OF assms(1,2) n_def] obtain a1 b1 where c:
    "bl_linked xs fs a1" "bl_linked ys gs b1"
    "bl_storage_size a1 = bl_storage_size a" "bl_storage_size b1 = bl_storage_size b"
    "bl_vals a1 xs = take n (bl_vals b ys) @ drop n (bl_vals a xs)"
    "bl_vals b1 ys = take n (bl_vals a xs) @ drop n (bl_vals b ys)"
    "bl_swap a b = rbind (bl_swap_rest (if n < length xs then Some (xs ! n) else None)
        (if n = 0 then None else Some (xs ! (n - 1))) a1 b1) (\<lambda>(a', b').
      rbind (bl_swap_rest (if n < length ys then Some (ys ! n) else None)
        (if n = 0 then None else Some (ys ! (n - 1))) b' a') (\<lambda>(b', a'). Inr (a', b')))" by blast
  have e: "bl_elems a = bl_vals a xs" "bl_elems b = bl_vals b ys" "bl_elems a1 = bl_vals a1 xs" "bl_elems b1 = bl_vals b1 ys"
    "bl_inv a1" "bl_inv b1"
    using assms(1,2) c(1,2) by (auto simp: bl_linked_elems bl_inv_def)
  have n: "n \<noteq> 0" "n \<le> length xs" "n \<le> length ys" using assms(3,4) by (auto simp: n_def)
  have last: "List.last (take n zs) = zs ! (n - 1)" if "n \<le> length zs" for zs :: "nat list"
    using that n(1) by (cases zs) (auto simp: last_conv_nth min_absorb2)
  show ?thesis
  proof (cases "length xs" "length ys" rule: linorder_cases)
    case equal
    then have "n = length xs" "n = length ys" by (simp_all add: n_def)
    with c e n show ?thesis by (intro that [of a1 b1]) (simp_all add: bl_yields_def)
  next
    case less
    then have nx: "n = length xs" by (simp add: n_def)
    then have ys: "bl_linked (take n ys @ ys ! n # drop (Suc n) ys) gs b1" "take n ys \<noteq> []"
      using c(2) n less by (auto simp flip: take_at)
    have "length (ys ! n # drop (Suc n) ys) = length ys - n" using less nx by (simp add: Suc_diff_Suc)
    then have "length (bl_elems a1) + length (ys ! n # drop (Suc n) ys) \<le> bl_storage_size a1"
      unfolding e(3) using assms(6) less nx c(3) by simp
    from bl_swap_rest_moves [OF ys(1) e(5) this ys(2)] obtain b2 a2 where
      r: "bl_swap_rest (Some (ys ! n)) (Some (ys ! (n - 1))) b1 a1 = Inr (b2, a2)"
      "bl_yields (Inr b2) (bl_storage_size b) (bl_vals b1 (take n ys))"
      "bl_yields (Inr a2) (bl_storage_size a) (bl_elems a1 @ bl_vals b1 (ys ! n # drop (Suc n) ys))"
      using n c(3,4) last [of ys] by metis
    have "bl_vals b1 (ys ! n # drop (Suc n) ys) = drop n (bl_vals b1 ys)"
      using less nx by (simp add: drop_map Cons_nth_drop_Suc)
    moreover have "bl_vals b1 (take n ys) = take n (bl_vals b1 ys)" by (simp add: take_map)
    ultimately show ?thesis using r c e n nx less by (intro that [of a2 b2]) (simp_all)
  next
    case greater
    then have ny: "n = length ys" by (simp add: n_def)
    then have xs: "bl_linked (take n xs @ xs ! n # drop (Suc n) xs) fs a1" "take n xs \<noteq> []"
      using c(1) n greater by (auto simp flip: take_at)
    have "length (xs ! n # drop (Suc n) xs) = length xs - n" using greater ny by (simp add: Suc_diff_Suc)
    then have "length (bl_elems b1) + length (xs ! n # drop (Suc n) xs) \<le> bl_storage_size b1"
      unfolding e(4) using assms(5) greater ny c(4) by simp
    from bl_swap_rest_moves [OF xs(1) e(6) this xs(2)] obtain a2 b2 where
      r: "bl_swap_rest (Some (xs ! n)) (Some (xs ! (n - 1))) a1 b1 = Inr (a2, b2)"
      "bl_yields (Inr a2) (bl_storage_size a) (bl_vals a1 (take n xs))"
      "bl_yields (Inr b2) (bl_storage_size b) (bl_elems b1 @ bl_vals a1 (xs ! n # drop (Suc n) xs))"
      using n c(3,4) last [of xs] by metis
    have "bl_vals a1 (xs ! n # drop (Suc n) xs) = drop n (bl_vals a1 xs)"
      using greater ny by (simp add: drop_map Cons_nth_drop_Suc)
    moreover have "bl_vals a1 (take n xs) = take n (bl_vals a1 xs)" by (simp add: take_map)
    ultimately show ?thesis using r c e n ny greater by (intro that [of a2 b2]) (simp_all)
  qed
qed

lemma bl_swap_no_room:
  assumes "bl_linked xs fs a" "bl_linked ys gs b"
    and "length xs > bl_storage_size b \<or> length ys > bl_storage_size a"
  shows "bl_swap a b = Inl Assert_failed"
proof -
  define n where "n = min (length xs) (length ys)"
  from bl_swap_common_lists [OF assms(1,2) n_def] obtain a1 b1 where c:
    "bl_linked xs fs a1" "bl_linked ys gs b1"
    "bl_storage_size a1 = bl_storage_size a" "bl_storage_size b1 = bl_storage_size b"
    "bl_swap a b = rbind (bl_swap_rest (if n < length xs then Some (xs ! n) else None)
        (if n = 0 then None else Some (xs ! (n - 1))) a1 b1) (\<lambda>(a', b').
      rbind (bl_swap_rest (if n < length ys then Some (ys ! n) else None)
        (if n = 0 then None else Some (ys ! (n - 1))) b' a') (\<lambda>(b', a'). Inr (a', b')))" by blast
  have e: "length (bl_elems a1) = length xs" "length (bl_elems b1) = length ys" "bl_inv a1" "bl_inv b1"
    using c(1,2) by (auto simp: bl_linked_elems bl_inv_def)
  have le: "length xs \<le> bl_storage_size a" "length ys \<le> bl_storage_size b"
    using bl_linked_le assms(1,2) by blast+
  show ?thesis
  proof (cases "length xs < length ys")
    case True
    then have n: "n = length xs" "n < length ys" by (simp_all add: n_def)
    then have "bl_linked (take n ys @ ys ! n # drop (Suc n) ys) gs b1" using c(2) by (simp flip: take_at)
    from bl_swap_rest_fault(1) [OF this e(3)] show ?thesis using n c e assms(3) le by simp
  next
    case False
    then have n: "n = length ys" "n < length xs" using assms(3) le by (auto simp: n_def)
    then have "bl_linked (take n xs @ xs ! n # drop (Suc n) xs) fs a1" using c(1) by (simp flip: take_at)
    from bl_swap_rest_fault(1) [OF this e(4)] show ?thesis using n c e assms(3) le by simp
  qed
qed

lemma bl_swap_one_empty:
  assumes "bl_linked xs fs a" "bl_linked ys gs b" "(xs = []) \<noteq> (ys = [])"
    and "length xs \<le> bl_storage_size b" "length ys \<le> bl_storage_size a"
  shows "bl_swap a b = Inl Out_of_bounds"
proof -
  define n where "n = min (length xs) (length ys)"
  have n: "n = 0" using assms(3) by (auto simp: n_def)
  from bl_swap_common_lists [OF assms(1,2) n_def] obtain a1 b1 where c:
    "bl_linked xs fs a1" "bl_linked ys gs b1"
    "bl_storage_size a1 = bl_storage_size a" "bl_storage_size b1 = bl_storage_size b"
    "bl_swap a b = rbind (bl_swap_rest (if n < length xs then Some (xs ! n) else None)
        (if n = 0 then None else Some (xs ! (n - 1))) a1 b1) (\<lambda>(a', b').
      rbind (bl_swap_rest (if n < length ys then Some (ys ! n) else None)
        (if n = 0 then None else Some (ys ! (n - 1))) b' a') (\<lambda>(b', a'). Inr (a', b')))" by blast
  have e: "length (bl_elems a1) = length xs" "length (bl_elems b1) = length ys" "bl_inv a1" "bl_inv b1"
    using c(1,2) by (auto simp: bl_linked_elems bl_inv_def)
  show ?thesis
  proof (cases xs)
    case Nil
    then obtain y zs where ys: "ys = y # zs" using assms(3) by (cases ys) auto
    then have "bl_linked ([] @ y # zs) gs b1" using c(2) by simp
    from bl_swap_rest_fault(2) [OF this e(3)] show ?thesis using Nil ys c e n assms(5) by simp
  next
    case (Cons x zs)
    then have ys: "ys = []" using assms(3) by simp
    from Cons have "bl_linked ([] @ x # zs) fs a1" using c(1) by simp
    from bl_swap_rest_fault(2) [OF this e(4)] show ?thesis using Cons ys c e n assms(4) by simp
  qed
qed

lemma bl_swap_both_empty:
  assumes "bl_linked [] fs a" "bl_linked [] gs b"
  shows "bl_swap a b = Inr (a, b)"
  using assms by (simp add: bl_swap_def bl_begin_def bl_linked_Nil_pointers)

section \<open>The operations as steps\<close>

text \<open>Positions are given by how often \<open>begin()\<close> was incremented.\<close>

fun bl_advance :: "nat \<Rightarrow> 'a blist \<Rightarrow> pointer \<Rightarrow> pointer result" where
  "bl_advance 0 s p = Inr p"
| "bl_advance (Suc k) s p = rbind (bl_increment s p) (bl_advance k s)"

datatype 'a list_op =
    List_push_front 'a | List_push_back 'a | List_pop_front | List_pop_back
  | List_insert nat 'a | List_erase nat | List_erase_all_after nat | List_clear | List_assign "'a list"

fun bl_step :: "'a list_op \<Rightarrow> 'a blist \<Rightarrow> 'a blist result" where
  "bl_step (List_push_front v) s = bl_push_front v s"
| "bl_step (List_push_back v) s = bl_push_back v s"
| "bl_step List_pop_front s = bl_pop_front s"
| "bl_step List_pop_back s = bl_pop_back s"
| "bl_step (List_insert k v) s = rbind (bl_advance k s (bl_begin s)) (\<lambda>p. bl_insert p v s)"
| "bl_step (List_erase k) s = rbind (bl_advance k s (bl_begin s)) (\<lambda>p. bl_erase p s)"
| "bl_step (List_erase_all_after k) s = rbind (bl_advance k s (bl_begin s)) (\<lambda>p. bl_erase_all_after p s)"
| "bl_step List_clear s = bl_clear s"
| "bl_step (List_assign vs) s = bl_assign vs s"

text \<open>What a list of at most \<open>m\<close> elements promises.\<close>

fun list_step :: "'a list_op \<Rightarrow> nat \<times> 'a list \<Rightarrow> (nat \<times> 'a list) result" where
  "list_step (List_push_front v) (m, xs) = really_assert (length xs < m) (Inr (m, v # xs))"
| "list_step (List_push_back v) (m, xs) = really_assert (length xs < m) (Inr (m, xs @ [v]))"
| "list_step List_pop_front (m, xs) = in_bounds (xs \<noteq> []) (Inr (m, tl xs))"
| "list_step List_pop_back (m, xs) = in_bounds (xs \<noteq> []) (Inr (m, butlast xs))"
| "list_step (List_insert k v) (m, xs) = in_bounds (k \<le> length xs)
     (really_assert (length xs < m) (Inr (m, take k xs @ v # drop k xs)))"
| "list_step (List_erase k) (m, xs) = in_bounds (k < length xs) (Inr (m, take k xs @ drop (Suc k) xs))"
| "list_step (List_erase_all_after k) (m, xs) = in_bounds (k < length xs) (Inr (m, take (Suc k) xs))"
| "list_step List_clear (m, xs) = Inr (m, [])"
| "list_step (List_assign vs) (m, xs) = really_assert (length vs \<le> m) (Inr (m, vs))"

lemma bl_advance_links:
  "links (bl_next s) p xs None \<Longrightarrow> bl_advance k s p = in_bounds (k \<le> length xs)
     (Inr (if k < length xs then Some (xs ! k) else None))"
proof (induction k arbitrary: p xs)
  case 0
  then show ?case by (cases xs) auto
next
  case (Suc k)
  then show ?case by (cases xs) (auto simp: bl_increment_def)
qed

definition bl_abs :: "'a blist \<Rightarrow> nat \<times> 'a list" where
  "bl_abs s = (bl_storage_size s, bl_elems s)"

text \<open>A step gives what the sequence promises, or the same fault.\<close>

definition bl_simulates :: "'a blist result \<Rightarrow> (nat \<times> 'a list) result \<Rightarrow> bool" where
  "bl_simulates r q = (map_sum id bl_abs r = q \<and> (\<forall>t. r = Inr t \<longrightarrow> bl_inv t))"

lemma bl_yields_simulates: "bl_yields r m vs \<Longrightarrow> bl_simulates r (Inr (m, vs))"
  by (auto simp: bl_yields_def bl_simulates_def bl_abs_def)

lemma bl_fault_simulates [simp]: "bl_simulates (Inl e) q = (q = Inl e)"
  by (auto simp: bl_simulates_def)

lemma bl_insert_yields:
  assumes "bl_linked (xs @ y # ys) fs s" "length (xs @ y # ys) < bl_storage_size s"
  shows "bl_yields (bl_insert (Some y) v s) (bl_storage_size s) (bl_vals s xs @ v # bl_vals s (y # ys))"
  by (rule bl_puts_yields [OF bl_insert_puts [OF assms]])

lemma bl_step_insert:
  assumes "bl_inv s"
  shows "bl_simulates (bl_step (List_insert k v) s) (list_step (List_insert k v) (bl_abs s))"
proof -
  from assms obtain xs fs where l: "bl_linked xs fs s" "bl_elems s = bl_vals s xs" by (rule bl_inv_cases)
  have a: "bl_advance k s (bl_begin s) = in_bounds (k \<le> length xs) (Inr (if k < length xs then Some (xs ! k) else None))"
    using bl_advance_links [OF bl_linked_links [OF l(1)]] by (simp add: bl_begin_def)
  consider "\<not> k \<le> length xs" | "k \<le> length xs" "length xs = bl_storage_size s"
    | "k = length xs" "length xs < bl_storage_size s" | "k < length xs" "length xs < bl_storage_size s"
    using bl_linked_le [OF l(1)] by linarith
  then show ?thesis
  proof cases
    case 4
    then have "bl_linked (take k xs @ xs ! k # drop (Suc k) xs) fs s" using l(1) by (simp flip: take_at)
    moreover have "length (take k xs @ xs ! k # drop (Suc k) xs) < bl_storage_size s"
      using 4 by (simp flip: take_at)
    ultimately have "bl_yields (bl_insert (Some (xs ! k)) v s) (bl_storage_size s)
        (bl_vals s (take k xs) @ v # bl_vals s (xs ! k # drop (Suc k) xs))" by (rule bl_insert_yields)
    moreover have "bl_vals s (xs ! k # drop (Suc k) xs) = drop k (bl_vals s xs)"
      using 4 by (simp add: drop_map Cons_nth_drop_Suc)
    ultimately show ?thesis using 4 a l by (auto simp: bl_abs_def take_map intro!: bl_yields_simulates)
  next
    case 3
    then show ?thesis using a l bl_push_back_yields [OF assms, of v]
      by (auto simp: bl_abs_def bl_insert_def bl_end_def intro!: bl_yields_simulates)
  qed (use a l bl_push_full(3) [OF assms] in \<open>auto simp: bl_abs_def\<close>)
qed

lemma bl_step_erase:
  assumes "bl_inv s"
  shows "bl_simulates (bl_step (List_erase k) s) (list_step (List_erase k) (bl_abs s))"
    "bl_simulates (bl_step (List_erase_all_after k) s) (list_step (List_erase_all_after k) (bl_abs s))"
proof -
  from assms obtain xs fs where l: "bl_linked xs fs s" "bl_elems s = bl_vals s xs" by (rule bl_inv_cases)
  have a: "bl_advance k s (bl_begin s) = in_bounds (k \<le> length xs) (Inr (if k < length xs then Some (xs ! k) else None))"
    using bl_advance_links [OF bl_linked_links [OF l(1)]] by (simp add: bl_begin_def)
  have "bl_simulates (bl_step (List_erase k) s) (list_step (List_erase k) (bl_abs s)) \<and>
      bl_simulates (bl_step (List_erase_all_after k) s) (list_step (List_erase_all_after k) (bl_abs s))"
  proof (cases "k < length xs")
    case True
    then have s: "bl_linked (take k xs @ xs ! k # drop (Suc k) xs) fs s" using l(1) by (simp flip: take_at)
    have "bl_yields (bl_erase (Some (xs ! k)) s) (bl_storage_size s) (bl_vals s (take k xs) @ bl_vals s (drop (Suc k) xs))"
      by (rule bl_takes_yields [OF s bl_erase_takes [OF s]])
    moreover obtain t gs where t: "bl_erase_all_after (Some (xs ! k)) s = Inr t" "bl_linked (take k xs @ [xs ! k]) gs t"
      "bl_value t = (\<lambda>i. if i \<in> set (drop (Suc k) xs) then None else bl_value s i)" "bl_storage_size t = bl_storage_size s"
      using bl_erase_all_after_linked [OF s] .
    have "distinct xs" using l(1) by (simp add: bl_linked_def bl_holds_def)
    then have "set (take (Suc k) xs) \<inter> set (drop (Suc k) xs) = {}"
      by (rule set_take_disj_set_drop_if_distinct) simp
    then have "bl_vals t (take (Suc k) xs) = bl_vals s (take (Suc k) xs)" using t(3) by auto
    then have "bl_yields (bl_erase_all_after (Some (xs ! k)) s) (bl_storage_size s) (take (Suc k) (bl_vals s xs))"
      using t True by (auto simp: bl_yields_def bl_inv_def bl_linked_elems take_Suc_conv_app_nth take_map)
    ultimately show ?thesis using a l True by (auto simp: bl_abs_def take_map drop_map intro!: bl_yields_simulates)
  qed (use a l in \<open>auto simp: bl_abs_def bl_erase_def bl_erase_all_after_def in_bounds_def\<close>)
  then show "bl_simulates (bl_step (List_erase k) s) (list_step (List_erase k) (bl_abs s))"
    "bl_simulates (bl_step (List_erase_all_after k) s) (list_step (List_erase_all_after k) (bl_abs s))" by simp_all
qed

lemma bl_step_simulates:
  assumes "bl_inv s"
  shows "bl_simulates (bl_step x s) (list_step x (bl_abs s))"
proof (cases x)
  case (List_push_front v)
  then show ?thesis using bl_push_front_yields [OF assms, of v] bl_push_full [OF assms] bl_inv_le [OF assms]
    by (cases "length (bl_elems s) < bl_storage_size s") (auto simp: bl_abs_def dest: bl_yields_simulates)
next
  case (List_push_back v)
  then show ?thesis using bl_push_back_yields [OF assms, of v] bl_push_full [OF assms] bl_inv_le [OF assms]
    by (cases "length (bl_elems s) < bl_storage_size s") (auto simp: bl_abs_def dest: bl_yields_simulates)
next
  case List_pop_front
  then show ?thesis using bl_pop_front_yields [OF assms] bl_pop_empty [OF assms]
    by (cases "bl_elems s = []") (auto simp: bl_abs_def dest: bl_yields_simulates)
next
  case List_pop_back
  then show ?thesis using bl_pop_back_yields [OF assms] bl_pop_empty [OF assms]
    by (cases "bl_elems s = []") (auto simp: bl_abs_def dest: bl_yields_simulates)
next
  case List_clear
  then show ?thesis using bl_clear_yields [OF assms] by (auto simp: bl_abs_def dest: bl_yields_simulates)
next
  case (List_assign vs)
  then show ?thesis using bl_assign_yields [OF assms, of vs] by (auto simp: bl_abs_def dest: bl_yields_simulates)
qed (use bl_step_insert [OF assms] bl_step_erase [OF assms] in simp_all)

interpretation blist: refinement bl_inv bl_abs bl_step list_step
  by unfold_locales (use bl_step_simulates in \<open>auto simp: bl_simulates_def\<close>)

section \<open>Properties\<close>

text \<open>C19: a BoundedList is a bounded sequence. Starting from an empty list over a storage of \<open>m\<close> nodes,
  every sequence of pushes, pops, inserts and erasures at a position reached by incrementing \<open>begin()\<close>,
  of \<open>clear\<close> and of \<open>assign\<close> has the result the sequence of elements has: the same elements in
  the same order, the assertion when a value is added to a full list, and the null pointer
  when something is taken from an empty one or a position is beyond the end.\<close>

theorem list_refines_sequence:
  "map_sum id bl_abs (run_ops bl_step ops (bl_new m)) = run_ops list_step ops (m, [])"
proof -
  have "bl_inv (bl_new m)" "bl_abs (bl_new m) = (m, [])"
    using bl_linked_new [of m] bl_linked_elems [OF bl_linked_new, of m] by (auto simp: bl_inv_def bl_abs_def bl_new_def)
  then show ?thesis using blist.run_simulates by metis
qed

text \<open>A step other than \<open>clear\<close> and \<open>assign\<close> adds one node, or takes nodes away.\<close>

definition bl_stays :: "'a blist result \<Rightarrow> 'a blist \<Rightarrow> bool" where
  "bl_stays r s \<longleftrightarrow> (\<forall>t. r = Inr t \<longrightarrow>
     (\<forall>i \<in> set (bl_nodes s) \<inter> set (bl_nodes t). bl_value t i = bl_value s i) \<and>
     filter (\<lambda>i. i \<in> set (bl_nodes t)) (bl_nodes s) = filter (\<lambda>i. i \<in> set (bl_nodes s)) (bl_nodes t))"

lemma bl_linked_distinct: "bl_linked xs fs s \<Longrightarrow> distinct xs"
  by (simp add: bl_linked_def bl_holds_def)

lemma bl_puts_stays:
  assumes "bl_linked (xs @ ys) fs s" "bl_puts r s xs ys v"
  shows "bl_stays r s"
  using assms by (auto simp: bl_puts_def bl_stays_def bl_linked_nodes intro!: filter_cong)

lemma bl_takes_stays:
  assumes "bl_linked (xs @ y # ys) fs s" "bl_takes r s xs y ys"
  shows "bl_stays r s"
  using assms bl_linked_distinct [OF assms(1)]
  by (auto simp: bl_takes_def bl_stays_def bl_linked_nodes intro!: filter_cong)

lemma bl_erase_all_after_stays:
  assumes "bl_linked (xs @ y # ys) fs s"
  shows "bl_stays (bl_erase_all_after (Some y) s) s"
proof -
  obtain t gs where t: "bl_erase_all_after (Some y) s = Inr t" "bl_linked (xs @ [y]) gs t"
    "bl_value t = (\<lambda>i. if i \<in> set ys then None else bl_value s i)"
    using bl_erase_all_after_linked [OF assms] .
  have d: "distinct (xs @ y # ys)" using assms by (rule bl_linked_distinct)
  have f: "filter (\<lambda>i. i = y \<or> i \<in> set xs) ys = []" using d by (auto simp: filter_empty_conv)
  show ?thesis
    using t d f by (auto simp: bl_stays_def bl_linked_nodes [OF assms] bl_linked_nodes [OF t(2)])
qed

lemma bl_stays_fault [simp]: "bl_stays (Inl e) s"
  by (simp add: bl_stays_def)

lemma bl_add_stays:
  assumes "bl_inv s"
  shows "bl_stays (bl_push_front v s) s" "bl_stays (bl_push_back v s) s"
proof -
  obtain xs fs where l: "bl_linked xs fs s" "bl_elems s = bl_vals s xs" using assms by (rule bl_inv_cases)
  consider "length xs = bl_storage_size s" | "length xs < bl_storage_size s"
    using bl_linked_le [OF l(1)] by linarith
  then have "bl_stays (bl_push_front v s) s \<and> bl_stays (bl_push_back v s) s"
  proof cases
    case 2
    then show ?thesis
      using bl_puts_stays [of "[]" xs fs s, OF _ bl_push_front_puts [OF l(1)]]
        bl_puts_stays [of xs "[]" fs s, OF _ bl_push_back_puts [OF l(1)]] l(1) by simp
  qed (use l bl_push_full [OF assms] in simp)
  then show "bl_stays (bl_push_front v s) s" "bl_stays (bl_push_back v s) s" by simp_all
qed

lemma bl_pop_stays:
  assumes "bl_inv s"
  shows "bl_stays (bl_pop_front s) s" "bl_stays (bl_pop_back s) s"
proof -
  obtain xs fs where l: "bl_linked xs fs s" "bl_elems s = bl_vals s xs" using assms by (rule bl_inv_cases)
  show "bl_stays (bl_pop_front s) s"
    using l bl_pop_empty [OF assms] bl_takes_stays [of "[]", OF _ bl_pop_front_takes] by (cases xs) auto
  show "bl_stays (bl_pop_back s) s"
    using l bl_pop_empty [OF assms] bl_takes_stays [of _ _ "[]", OF _ bl_pop_back_takes]
    by (cases xs rule: rev_cases) auto
qed

lemma bl_step_at_stays:
  assumes "bl_inv s"
  shows "bl_stays (bl_step (List_insert k v) s) s" "bl_stays (bl_step (List_erase k) s) s"
    "bl_stays (bl_step (List_erase_all_after k) s) s"
proof -
  obtain xs fs where l: "bl_linked xs fs s" "bl_elems s = bl_vals s xs" using assms by (rule bl_inv_cases)
  have a: "bl_advance k s (bl_begin s) = in_bounds (k \<le> length xs) (Inr (if k < length xs then Some (xs ! k) else None))"
    using bl_advance_links [OF bl_linked_links [OF l(1)]] by (simp add: bl_begin_def)
  have "bl_stays (bl_step (List_insert k v) s) s \<and> bl_stays (bl_step (List_erase k) s) s \<and>
    bl_stays (bl_step (List_erase_all_after k) s) s"
  proof (cases "k < length xs")
    case True
    then have s: "bl_linked (take k xs @ xs ! k # drop (Suc k) xs) fs s" using l(1) by (simp flip: take_at)
    consider "length xs = bl_storage_size s" | "length (take k xs @ xs ! k # drop (Suc k) xs) < bl_storage_size s"
      using bl_linked_le [OF s] take_at [OF True] by fastforce
    then have "bl_stays (bl_insert (Some (xs ! k)) v s) s"
    proof cases
      case 2
      then show ?thesis by (rule bl_puts_stays [OF s bl_insert_puts [OF s]])
    qed (use l bl_push_full [OF assms] in simp)
    moreover have "bl_stays (bl_erase (Some (xs ! k)) s) s" by (rule bl_takes_stays [OF s bl_erase_takes [OF s]])
    ultimately show ?thesis using a True bl_erase_all_after_stays [OF s] by simp
  next
    case False
    then show ?thesis using a bl_add_stays [OF assms, of v]
      by (cases "k = length xs") (simp_all add: bl_insert_def bl_end_def bl_erase_def bl_erase_all_after_def)
  qed
  then show "bl_stays (bl_step (List_insert k v) s) s" "bl_stays (bl_step (List_erase k) s) s"
    "bl_stays (bl_step (List_erase_all_after k) s) s" by simp_all
qed

text \<open>C21: iterators and references stay valid. In a list reached from an empty one, a push, a pop, an
  insertion or an erasure leaves every node that is still in the list where it is: it holds
  the same value, and the nodes that stay follow one another in the same order; no
  operation copies a value from one node to another.\<close>

theorem list_nodes_stay:
  assumes "run_ops bl_step ops (bl_new m) = Inr s" "bl_step x s = Inr t"
    and "x \<noteq> List_clear" "\<forall>vs. x \<noteq> List_assign vs"
  shows "(\<forall>i \<in> set (bl_nodes s) \<inter> set (bl_nodes t). bl_value t i = bl_value s i) \<and>
    filter (\<lambda>i. i \<in> set (bl_nodes t)) (bl_nodes s) = filter (\<lambda>i. i \<in> set (bl_nodes s)) (bl_nodes t)"
proof -
  have "bl_inv (bl_new m)" using bl_linked_new by (auto simp: bl_inv_def)
  then have "bl_inv s" using assms(1) by (rule blist.run_inv)
  then have "bl_stays (bl_step x s) s"
    using assms(3,4) bl_add_stays bl_pop_stays bl_step_at_stays by (cases x) auto
  then show ?thesis using assms(2) by (simp add: bl_stays_def)
qed

lemma bl_run_Inr:
  assumes "run_ops list_step ops (m, []) = Inr (m', vs)"
  obtains s where "run_ops bl_step ops (bl_new m) = Inr s" "bl_inv s" "bl_storage_size s = m'" "bl_elems s = vs"
proof -
  have i: "bl_inv (bl_new m)" "bl_abs (bl_new m) = (m, [])"
    using bl_linked_new [of m] bl_linked_elems [OF bl_linked_new, of m] by (auto simp: bl_inv_def bl_abs_def bl_new_def)
  then have "map_sum id bl_abs (run_ops bl_step ops (bl_new m)) = Inr (m', vs)"
    using assms blist.run_simulates by metis
  then obtain s where s: "run_ops bl_step ops (bl_new m) = Inr s" "bl_abs s = (m', vs)"
    by (cases "run_ops bl_step ops (bl_new m)") auto
  then show ?thesis using blist.run_inv [OF i(1) s(1)] by (intro that) (auto simp: bl_abs_def)
qed

theorem list_nodes_stay_witness:
  "\<exists>s t. run_ops bl_step [List_push_back (1 :: nat), List_push_back 2, List_push_front 3] (bl_new 3) = Inr s \<and>
    bl_step (List_erase 1) s = Inr t \<and> bl_elems t = [3, 2] \<and>
    filter (\<lambda>i. i \<in> set (bl_nodes t)) (bl_nodes s) = filter (\<lambda>i. i \<in> set (bl_nodes s)) (bl_nodes t)"
proof -
  have "run_ops list_step [List_push_back (1 :: nat), List_push_back 2, List_push_front 3] (3, []) = Inr (3, [3, 1, 2])"
    by simp
  then obtain s where s: "run_ops bl_step [List_push_back (1 :: nat), List_push_back 2, List_push_front 3] (bl_new 3) = Inr s"
    "bl_inv s" "bl_storage_size s = 3" "bl_elems s = [3, 1, 2]" by (rule bl_run_Inr)
  then have "map_sum id bl_abs (bl_step (List_erase 1) s) = Inr (3, [3, 2])"
    using bl_step_simulates [OF s(2), of "List_erase 1"] by (simp add: bl_simulates_def bl_abs_def)
  then obtain t where t: "bl_step (List_erase 1) s = Inr t" "bl_elems t = [3, 2]"
    by (cases "bl_step (List_erase 1) s") (auto simp: bl_abs_def)
  from list_nodes_stay [OF s(1) t(1)] s(1) t show ?thesis by (intro exI [of _ s] exI [of _ t]) simp
qed

text \<open>C20: \<open>swap\<close> of two lists that fit into each other's storage exchanges their elements when both
  have elements, of whatever number, or neither has; when exactly one is empty the code erases behind an
  iterator that was never set, which follows a null pointer. When the elements do not fit, the
  assertion of the node allocation stops it.\<close>

theorem list_swap:
  assumes "bl_inv a" "bl_inv b"
  shows "if length (bl_elems a) \<le> bl_storage_size b \<and> length (bl_elems b) \<le> bl_storage_size a
    then (if (bl_elems a = []) = (bl_elems b = [])
      then (\<exists>a' b'. bl_swap a b = Inr (a', b') \<and> bl_inv a' \<and> bl_inv b' \<and>
        bl_abs a' = (bl_storage_size a, bl_elems b) \<and> bl_abs b' = (bl_storage_size b, bl_elems a))
      else bl_swap a b = Inl Out_of_bounds)
    else bl_swap a b = Inl Assert_failed"
proof -
  obtain xs fs where a: "bl_linked xs fs a" "bl_elems a = bl_vals a xs" using assms(1) by (rule bl_inv_cases)
  obtain ys gs where b: "bl_linked ys gs b" "bl_elems b = bl_vals b ys" using assms(2) by (rule bl_inv_cases)
  consider "length xs > bl_storage_size b \<or> length ys > bl_storage_size a"
    | "(xs = []) \<noteq> (ys = [])" "length xs \<le> bl_storage_size b" "length ys \<le> bl_storage_size a"
    | "xs = []" "ys = []" | "xs \<noteq> []" "ys \<noteq> []" "length xs \<le> bl_storage_size b" "length ys \<le> bl_storage_size a"
    by force
  then show ?thesis
  proof cases
    case 1
    then show ?thesis using bl_swap_no_room [OF a(1) b(1)] a(2) b(2) by auto
  next
    case 2
    then show ?thesis using bl_swap_one_empty [OF a(1) b(1)] a(2) b(2) by auto
  next
    case 3
    then show ?thesis using bl_swap_both_empty [of fs a gs b] a b assms by (auto simp: bl_abs_def)
  next
    case 4
    obtain a' b' where "bl_swap a b = Inr (a', b')" "bl_yields (Inr a') (bl_storage_size a) (bl_elems b)"
      "bl_yields (Inr b') (bl_storage_size b) (bl_elems a)" by (rule bl_swap_pair [OF a(1) b(1) 4])
    then show ?thesis using 4 a(2) b(2) by (auto simp: bl_yields_def bl_abs_def)
  qed
qed

theorem list_swap_witness:
  "\<exists>a b a' b'. bl_elems a = [1 :: nat] \<and> bl_elems b = [2, 3] \<and> bl_swap a b = Inr (a', b') \<and>
    bl_abs a' = (4, [2, 3]) \<and> bl_abs b' = (2, [1])"
proof -
  have "run_ops list_step [List_push_back (1 :: nat)] (4, []) = Inr (4, [1])"
    "run_ops list_step [List_push_back (2 :: nat), List_push_back 3] (2, []) = Inr (2, [2, 3])" by simp_all
  then obtain a b where l: "bl_inv a" "bl_storage_size a = 4" "bl_elems a = [1 :: nat]"
    "bl_inv b" "bl_storage_size b = 2" "bl_elems b = [2, 3 :: nat]" by (metis bl_run_Inr)
  have "length (bl_elems a) \<le> bl_storage_size b \<and> length (bl_elems b) \<le> bl_storage_size a"
    "(bl_elems a = []) = (bl_elems b = [])" using l by simp_all
  with list_swap [OF l(1,4)] have "\<exists>a' b'. bl_swap a b = Inr (a', b') \<and> bl_inv a' \<and> bl_inv b' \<and>
      bl_abs a' = (bl_storage_size a, bl_elems b) \<and> bl_abs b' = (bl_storage_size b, bl_elems a)" by presburger
  with l show ?thesis by metis
qed

end
