(* ===== verification/Bounded_Forward_List.thy ===== *)
theory Bounded_Forward_List
  imports Bounded_List
begin

text \<open>
  BoundedForwardList (infra/util/BoundedForwardList.hpp): the singly linked list over a storage of nodes. The
  nodes, the free list and their lemmas are as in Bounded_List, with one direction of links. \<open>erase_slow\<close>
  gives a node back without destructing its value, which the model shows as a value left in a free
  node; \<open>operator<\<close> is not an order; \<open>swap\<close> fails when exactly one of the lists is empty.
\<close>

section \<open>The list\<close>

record 'a bflist =
  bf_storage_size :: nat
  bf_value :: "nat \<Rightarrow> 'a option"
  bf_next :: "nat \<Rightarrow> pointer"
  bf_numAllocated :: nat
  bf_numInitialized :: nat
  bf_firstNode :: pointer
  bf_freeList :: pointer

definition bf_new :: "nat \<Rightarrow> 'a bflist" where
  "bf_new n = \<lparr>bf_storage_size = n, bf_value = (\<lambda>i. None), bf_next = (\<lambda>i. None),
     bf_numAllocated = 0, bf_numInitialized = 0, bf_firstNode = None, bf_freeList = None\<rparr>"

definition bf_size :: "'a bflist \<Rightarrow> nat" where
  "bf_size s = bf_numAllocated s"

definition bf_max_size :: "'a bflist \<Rightarrow> nat" where
  "bf_max_size s = bf_storage_size s"

definition bf_empty :: "'a bflist \<Rightarrow> bool" where
  "bf_empty s = (bf_numAllocated s = 0)"

definition bf_full :: "'a bflist \<Rightarrow> bool" where
  "bf_full s = (bf_numAllocated s = bf_storage_size s)"

definition bf_read :: "'a bflist \<Rightarrow> nat \<Rightarrow> 'a result" where
  "bf_read s i = (case bf_value s i of None \<Rightarrow> Inl Out_of_bounds | Some v \<Rightarrow> Inr v)"

definition bf_set :: "'a bflist \<Rightarrow> nat \<Rightarrow> 'a \<Rightarrow> 'a bflist" where
  "bf_set s i v = s\<lparr>bf_value := (bf_value s)(i := Some v)\<rparr>"

definition bf_front :: "'a bflist \<Rightarrow> 'a result" where
  "bf_front s = deref (bf_firstNode s) (bf_read s)"

definition bf_begin :: "'a bflist \<Rightarrow> pointer" where
  "bf_begin s = bf_firstNode s"

definition bf_end :: "'a bflist \<Rightarrow> pointer" where
  "bf_end s = None"

definition bf_deref :: "'a bflist \<Rightarrow> pointer \<Rightarrow> 'a result" where
  "bf_deref s p = deref p (bf_read s)"

definition bf_node :: "pointer \<Rightarrow> nat result" where
  "bf_node p = really_assert (p \<noteq> None) (deref p Inr)"

definition bf_increment :: "'a bflist \<Rightarrow> pointer \<Rightarrow> pointer result" where
  "bf_increment s p = deref p (\<lambda>i. Inr (bf_next s i))"

definition bf_iter_eq :: "pointer \<Rightarrow> pointer \<Rightarrow> bool" where
  "bf_iter_eq p q = (p = q)"

section \<open>Adding and removing elements\<close>

definition bf_AllocateNode :: "'a bflist \<Rightarrow> (nat \<times> 'a bflist) result" where
  "bf_AllocateNode s = (case bf_freeList s of
     Some i \<Rightarrow> Inr (i, s\<lparr>bf_freeList := bf_next s i\<rparr>)
   | None \<Rightarrow> really_assert (bf_numInitialized s \<noteq> bf_storage_size s)
       (Inr (bf_numInitialized s, s\<lparr>bf_numInitialized := bf_numInitialized s + 1\<rparr>)))"

definition bf_push_front :: "'a \<Rightarrow> 'a bflist \<Rightarrow> 'a bflist result" where
  "bf_push_front v s = rbind (bf_AllocateNode s) (\<lambda>(node, s).
     let s = bf_set s node v;
         s = s\<lparr>bf_next := (bf_next s)(node := bf_firstNode s)\<rparr>
     in Inr (s\<lparr>bf_firstNode := Some node, bf_numAllocated := bf_numAllocated s + 1\<rparr>))"

definition bf_emplace_front :: "'a \<Rightarrow> 'a bflist \<Rightarrow> 'a bflist result" where
  "bf_emplace_front v s = bf_push_front v s"

definition bf_destruct :: "nat \<Rightarrow> 'a bflist \<Rightarrow> 'a bflist result" where
  "bf_destruct i s = in_bounds (bf_value s i \<noteq> None) (Inr (s\<lparr>bf_value := (bf_value s)(i := None)\<rparr>))"

definition bf_free :: "nat \<Rightarrow> 'a bflist \<Rightarrow> 'a bflist" where
  "bf_free i s = s\<lparr>bf_next := (bf_next s)(i := bf_freeList s), bf_freeList := Some i,
     bf_numAllocated := bf_numAllocated s - 1\<rparr>"

definition bf_pop_front :: "'a bflist \<Rightarrow> 'a bflist result" where
  "bf_pop_front s = deref (bf_firstNode s) (\<lambda>oldStart. rbind (bf_destruct oldStart s) (\<lambda>s.
     Inr (bf_free oldStart (s\<lparr>bf_firstNode := bf_next s oldStart\<rparr>))))"

definition bf_insert_after :: "pointer \<Rightarrow> 'a \<Rightarrow> 'a bflist \<Rightarrow> 'a bflist result" where
  "bf_insert_after position v s = rbind (bf_AllocateNode s) (\<lambda>(node, s).
     let s = bf_set s node v in rbind (bf_node position) (\<lambda>p.
       let s = s\<lparr>bf_next := (bf_next s)(node := bf_next s p)\<rparr>;
           s = s\<lparr>bf_next := (bf_next s)(p := Some node)\<rparr>
       in Inr (s\<lparr>bf_numAllocated := bf_numAllocated s + 1\<rparr>)))"

text \<open>The node before a node is looked for from the start.\<close>

fun bf_find_previous :: "nat \<Rightarrow> 'a bflist \<Rightarrow> pointer \<Rightarrow> nat \<Rightarrow> nat result" where
  "bf_find_previous 0 s previous node = Inl Diverges"
| "bf_find_previous (Suc fuel) s previous node = deref previous (\<lambda>p.
     if bf_next s p \<noteq> Some node then bf_find_previous fuel s (bf_next s p) node else Inr p)"

definition bf_erase_slow :: "pointer \<Rightarrow> 'a bflist \<Rightarrow> 'a bflist result" where
  "bf_erase_slow position s = rbind (bf_node position) (\<lambda>node.
     rbind (if bf_firstNode s = Some node then Inr (s\<lparr>bf_firstNode := bf_next s node\<rparr>)
       else rbind (bf_find_previous (bf_storage_size s) s (bf_firstNode s) node) (\<lambda>p.
         Inr (s\<lparr>bf_next := (bf_next s)(p := bf_next s node)\<rparr>)))
     (\<lambda>s. Inr (bf_free node s)))"

fun bf_free_all :: "nat \<Rightarrow> pointer \<Rightarrow> 'a bflist \<Rightarrow> 'a bflist result" where
  "bf_free_all fuel None s = Inr s"
| "bf_free_all 0 (Some node) s = Inl Diverges"
| "bf_free_all (Suc fuel) (Some node) s =
     (let n = bf_next s node in rbind (bf_destruct node s) (\<lambda>s. bf_free_all fuel n (bf_free node s)))"

definition bf_erase_all_after :: "pointer \<Rightarrow> 'a bflist \<Rightarrow> 'a bflist result" where
  "bf_erase_all_after position s = rbind (bf_node position) (\<lambda>node.
     bf_free_all (bf_storage_size s) (bf_next s node) (s\<lparr>bf_next := (bf_next s)(node := None)\<rparr>))"

text \<open>\<open>clear\<close> goes by the pointer to the first node, not by the count; the fuel bounds a chain that does not
  end.\<close>

fun bf_clear_loop :: "nat \<Rightarrow> 'a bflist \<Rightarrow> 'a bflist result" where
  "bf_clear_loop 0 s = (if bf_firstNode s \<noteq> None then Inl Diverges else Inr s)"
| "bf_clear_loop (Suc fuel) s = (if bf_firstNode s \<noteq> None
     then rbind (bf_pop_front s) (bf_clear_loop fuel) else Inr s)"

definition bf_clear :: "'a bflist \<Rightarrow> 'a bflist result" where
  "bf_clear s = bf_clear_loop (bf_storage_size s) s"

definition bf_destroy :: "'a bflist \<Rightarrow> 'a bflist result" where
  "bf_destroy s = bf_clear s"

section \<open>Assigning\<close>

text \<open>One round of the loop of \<open>assign\<close> and \<open>move_from_range\<close>: \<open>current\<close> is the last node so far.\<close>

definition bf_append :: "'a \<Rightarrow> pointer \<times> 'a bflist \<Rightarrow> (pointer \<times> 'a bflist) result" where
  "bf_append v cs = (case cs of (current, s) \<Rightarrow> if bf_empty s
     then rbind (bf_push_front v s) (\<lambda>s. Inr (bf_begin s, s))
     else rbind (bf_insert_after current v s) (\<lambda>s. rbind (bf_increment s current) (\<lambda>current. Inr (current, s))))"

fun bf_append_all :: "'a list \<Rightarrow> pointer \<times> 'a bflist \<Rightarrow> 'a bflist result" where
  "bf_append_all [] cs = Inr (snd cs)"
| "bf_append_all (v # vs) cs = rbind (bf_append v cs) (bf_append_all vs)"

definition bf_assign :: "'a list \<Rightarrow> 'a bflist \<Rightarrow> 'a bflist result" where
  "bf_assign vs s = rbind (bf_clear s) (\<lambda>s. bf_append_all vs (None, s))"

fun bf_push_n :: "nat \<Rightarrow> 'a \<Rightarrow> 'a bflist \<Rightarrow> 'a bflist result" where
  "bf_push_n 0 v s = Inr s"
| "bf_push_n (Suc n) v s = rbind (bf_push_front v s) (bf_push_n n v)"

definition bf_assign_n :: "nat \<Rightarrow> 'a \<Rightarrow> 'a bflist \<Rightarrow> 'a bflist result" where
  "bf_assign_n n v s = rbind (bf_clear s) (bf_push_n n v)"

fun bf_append_range :: "nat \<Rightarrow> 'a bflist \<Rightarrow> pointer \<Rightarrow> pointer \<Rightarrow> pointer \<times> 'a bflist \<Rightarrow> 'a bflist result" where
  "bf_append_range 0 other first l cs = Inl Diverges"
| "bf_append_range (Suc fuel) other first l cs = (if first \<noteq> l then
     rbind (bf_deref other first) (\<lambda>v. rbind (bf_append v cs) (\<lambda>cs.
       rbind (bf_increment other first) (\<lambda>first. bf_append_range fuel other first l cs)))
   else Inr (snd cs))"

definition bf_move_from_range :: "'a bflist \<Rightarrow> pointer \<Rightarrow> pointer \<Rightarrow> 'a bflist \<Rightarrow> 'a bflist result" where
  "bf_move_from_range other first l s = rbind (bf_clear s) (\<lambda>s.
     bf_append_range (bf_storage_size other + 1) other first l (None, s))"

definition bf_assign_range :: "'a bflist \<Rightarrow> pointer \<Rightarrow> pointer \<Rightarrow> 'a bflist \<Rightarrow> 'a bflist result" where
  "bf_assign_range other first l s = rbind (bf_clear s) (\<lambda>s.
     bf_append_range (bf_storage_size other + 1) other first l (None, s))"

definition bf_construct_n :: "nat \<Rightarrow> nat \<Rightarrow> 'a \<Rightarrow> 'a bflist result" where
  "bf_construct_n m n v = bf_assign_n n v (bf_new m)"

definition bf_construct_range :: "nat \<Rightarrow> 'a list \<Rightarrow> 'a bflist result" where
  "bf_construct_range m vs = bf_assign vs (bf_new m)"

definition bf_copy_construct :: "nat \<Rightarrow> 'a bflist \<Rightarrow> 'a bflist result" where
  "bf_copy_construct n other = bf_assign_range other (bf_begin other) (bf_end other) (bf_new n)"

definition bf_move_construct :: "nat \<Rightarrow> 'a bflist \<Rightarrow> ('a bflist \<times> 'a bflist) result" where
  "bf_move_construct n other = rbind (bf_move_from_range other (bf_begin other) (bf_end other) (bf_new n))
     (\<lambda>s. rbind (bf_clear other) (\<lambda>other. Inr (s, other)))"

definition bf_copy_assign :: "bool \<Rightarrow> 'a bflist \<Rightarrow> 'a bflist \<Rightarrow> 'a bflist result" where
  "bf_copy_assign same other s = (if \<not> same then
     rbind (bf_clear s) (bf_assign_range other (bf_begin other) (bf_end other)) else Inr s)"

definition bf_move_assign :: "'a bflist \<Rightarrow> 'a bflist \<Rightarrow> 'a bflist result" where
  "bf_move_assign other s = rbind (bf_clear s) (bf_move_from_range other (bf_begin other) (bf_end other))"

section \<open>Swapping\<close>

fun bf_swap_common :: "nat \<Rightarrow> 'a bflist \<times> 'a bflist \<Rightarrow> pointer \<times> pointer \<Rightarrow> pointer \<times> pointer \<Rightarrow>
    (('a bflist \<times> 'a bflist) \<times> (pointer \<times> pointer) \<times> (pointer \<times> pointer)) result" where
  "bf_swap_common 0 ab i old = Inl Diverges"
| "bf_swap_common (Suc fuel) (a, b) (i1, i2) old = (case (i1, i2) of
     (Some n1, Some n2) \<Rightarrow> rbind (bf_read a n1) (\<lambda>v1. rbind (bf_read b n2) (\<lambda>v2.
       bf_swap_common fuel (bf_set a n1 v2, bf_set b n2 v1) (bf_next a n1, bf_next b n2) (i1, i2)))
   | _ \<Rightarrow> Inr ((a, b), (i1, i2), old))"

text \<open>What is left of one list is inserted behind the last swapped node of the other.\<close>

fun bf_insert_rest :: "nat \<Rightarrow> 'a bflist \<Rightarrow> pointer \<Rightarrow> pointer \<Rightarrow> 'a bflist \<Rightarrow> 'a bflist result" where
  "bf_insert_rest 0 s i p other = Inl Diverges"
| "bf_insert_rest (Suc fuel) s i p other = (if i \<noteq> bf_end s then
     rbind (bf_deref s i) (\<lambda>v. rbind (bf_insert_after p v other) (\<lambda>other.
       rbind (bf_increment other p) (\<lambda>p. rbind (bf_increment s i) (\<lambda>i. bf_insert_rest fuel s i p other))))
   else Inr other)"

definition bf_swap_rest :: "pointer \<Rightarrow> pointer \<Rightarrow> pointer \<Rightarrow> 'a bflist \<Rightarrow> 'a bflist \<Rightarrow> ('a bflist \<times> 'a bflist) result" where
  "bf_swap_rest i cutOff p s other = (if i \<noteq> bf_end s then
     rbind (bf_insert_rest (bf_storage_size s + 1) s i p other) (\<lambda>other.
       rbind (bf_erase_all_after cutOff s) (\<lambda>s. Inr (s, other)))
   else Inr (s, other))"

definition bf_swap :: "'a bflist \<Rightarrow> 'a bflist \<Rightarrow> ('a bflist \<times> 'a bflist) result" where
  "bf_swap a b = rbind (bf_swap_common (bf_storage_size a + 1) (a, b) (bf_begin a, bf_begin b) (None, None))
     (\<lambda>((a, b), (i1, i2), (o1, o2)). rbind (bf_swap_rest i1 o1 o2 a b) (\<lambda>(a, b).
        rbind (bf_swap_rest i2 o2 o1 b a) (\<lambda>(b, a). Inr (a, b))))"

section \<open>Comparing\<close>

fun bf_equal_from :: "nat \<Rightarrow> ('a::linorder) bflist \<Rightarrow> 'a bflist \<Rightarrow> pointer \<Rightarrow> pointer \<Rightarrow> bool result" where
  "bf_equal_from 0 a b i j = Inl Diverges"
| "bf_equal_from (Suc fuel) a b i j = (if i = bf_end a then Inr True else
     rbind (bf_deref a i) (\<lambda>x. rbind (bf_deref b j) (\<lambda>y. if x \<noteq> y then Inr False else
       rbind (bf_increment a i) (\<lambda>i. rbind (bf_increment b j) (\<lambda>j. bf_equal_from fuel a b i j)))))"

definition bf_eq :: "('a::linorder) bflist \<Rightarrow> 'a bflist \<Rightarrow> bool result" where
  "bf_eq a b = (if bf_size a = bf_size b
     then bf_equal_from (bf_storage_size a + 1) a b (bf_begin a) (bf_begin b) else Inr False)"

text \<open>The loop of \<open>operator<\<close> ends with true at the first element that is smaller, and goes on past
  one that is larger.\<close>

fun bf_less_from :: "nat \<Rightarrow> ('a::linorder) bflist \<Rightarrow> 'a bflist \<Rightarrow> pointer \<Rightarrow> pointer \<Rightarrow> bool result" where
  "bf_less_from 0 a b i j = Inl Diverges"
| "bf_less_from (Suc fuel) a b i j = (if i \<noteq> bf_end a \<and> j \<noteq> bf_end b then
     rbind (bf_deref a i) (\<lambda>x. rbind (bf_deref b j) (\<lambda>y. if x < y then Inr True else
       rbind (bf_increment a i) (\<lambda>i. rbind (bf_increment b j) (\<lambda>j. bf_less_from fuel a b i j))))
   else Inr (bf_size a < bf_size b))"

definition bf_less :: "('a::linorder) bflist \<Rightarrow> 'a bflist \<Rightarrow> bool result" where
  "bf_less a b = bf_less_from (bf_storage_size a + 1) a b (bf_begin a) (bf_begin b)"

definition bf_not_eq :: "('a::linorder) bflist \<Rightarrow> 'a bflist \<Rightarrow> bool result" where
  "bf_not_eq a b = rbind (bf_eq a b) (\<lambda>r. Inr (\<not> r))"

definition bf_less_eq :: "('a::linorder) bflist \<Rightarrow> 'a bflist \<Rightarrow> bool result" where
  "bf_less_eq a b = rbind (bf_less b a) (\<lambda>r. Inr (\<not> r))"

definition bf_greater :: "('a::linorder) bflist \<Rightarrow> 'a bflist \<Rightarrow> bool result" where
  "bf_greater a b = bf_less b a"

definition bf_greater_eq :: "('a::linorder) bflist \<Rightarrow> 'a bflist \<Rightarrow> bool result" where
  "bf_greater_eq a b = rbind (bf_less a b) (\<lambda>r. Inr (\<not> r))"

section \<open>How a list lies in its storage\<close>

definition bf_holds :: "nat list \<Rightarrow> nat list \<Rightarrow> nat list \<Rightarrow> 'a bflist \<Rightarrow> bool" where
  "bf_holds xs ys fs s \<longleftrightarrow>
     links (bf_next s) (bf_firstNode s) xs None \<and> links (bf_next s) (bf_freeList s) fs None \<and>
     distinct (xs @ ys @ fs) \<and> set (xs @ ys @ fs) = {0..<bf_numInitialized s} \<and>
     bf_numInitialized s \<le> bf_storage_size s \<and> (\<forall>i\<in>set xs. bf_value s i \<noteq> None)"

definition bf_linked :: "nat list \<Rightarrow> nat list \<Rightarrow> 'a bflist \<Rightarrow> bool" where
  "bf_linked xs fs s \<longleftrightarrow> bf_holds xs [] fs s \<and> bf_numAllocated s = length xs"

definition bf_inv :: "'a bflist \<Rightarrow> bool" where
  "bf_inv s = (\<exists>xs fs. bf_linked xs fs s)"

fun bf_walk :: "nat \<Rightarrow> 'a bflist \<Rightarrow> pointer \<Rightarrow> nat list" where
  "bf_walk 0 s p = []"
| "bf_walk (Suc n) s p = (case p of None \<Rightarrow> [] | Some i \<Rightarrow> i # bf_walk n s (bf_next s i))"

definition bf_nodes :: "'a bflist \<Rightarrow> nat list" where
  "bf_nodes s = bf_walk (bf_numAllocated s) s (bf_firstNode s)"

definition bf_elems :: "'a bflist \<Rightarrow> 'a list" where
  "bf_elems s = map (\<lambda>i. the (bf_value s i)) (bf_nodes s)"

abbreviation bf_vals :: "'a bflist \<Rightarrow> nat list \<Rightarrow> 'a list" where
  "bf_vals s xs \<equiv> map (\<lambda>i. the (bf_value s i)) xs"

lemma bf_walk_links: "links (bf_next s) p xs None \<Longrightarrow> length xs \<le> n \<Longrightarrow> bf_walk n s p = xs"
proof (induction xs arbitrary: p n)
  case Nil
  then show ?case by (cases n) auto
next
  case (Cons x xs)
  then show ?case by (cases n) auto
qed

lemma bf_linked_nodes: "bf_linked xs fs s \<Longrightarrow> bf_nodes s = xs"
  unfolding bf_nodes_def bf_linked_def bf_holds_def by (rule bf_walk_links) auto

lemma bf_linked_elems: "bf_linked xs fs s \<Longrightarrow> bf_elems s = bf_vals s xs"
  by (simp add: bf_elems_def bf_linked_nodes)

lemma bf_inv_cases:
  assumes "bf_inv s"
  obtains xs fs where "bf_linked xs fs s" "bf_elems s = bf_vals s xs"
  using assms by (auto simp: bf_inv_def bf_linked_elems)

lemma bf_holds_count:
  assumes "bf_holds xs ys fs s"
  shows "length xs + length ys + length fs = bf_numInitialized s"
proof -
  have "card (set (xs @ ys @ fs)) = bf_numInitialized s" using assms by (simp add: bf_holds_def)
  moreover have "card (set (xs @ ys @ fs)) = length (xs @ ys @ fs)"
    using assms unfolding bf_holds_def by (intro distinct_card) simp
  ultimately show ?thesis by simp
qed

lemma bf_linked_le: "bf_linked xs fs s \<Longrightarrow> length xs \<le> bf_storage_size s"
  using bf_holds_count [of xs "[]" fs s] by (auto simp: bf_linked_def bf_holds_def)

lemma bf_linked_links: "bf_linked xs fs s \<Longrightarrow> links (bf_next s) (bf_firstNode s) xs None"
  by (simp add: bf_linked_def bf_holds_def)

lemma bf_linked_values: "bf_linked xs fs s \<Longrightarrow> \<forall>x\<in>set xs. bf_value s x \<noteq> None"
  by (simp add: bf_linked_def bf_holds_def)

lemma bf_linked_distinct: "bf_linked xs fs s \<Longrightarrow> distinct xs"
  by (simp add: bf_linked_def bf_holds_def)

lemma bf_linked_new: "bf_linked [] [] (bf_new n)"
  by (simp add: bf_linked_def bf_holds_def bf_new_def)

lemma bf_allocate:
  assumes "bf_holds xs [] fs s" "length xs < bf_storage_size s"
  obtains i p n fs' where "bf_AllocateNode s = Inr (i, s\<lparr>bf_freeList := p, bf_numInitialized := n\<rparr>)"
    "bf_holds xs [i] fs' (s\<lparr>bf_freeList := p, bf_numInitialized := n\<rparr>)"
proof (cases fs)
  case Nil
  then have "bf_freeList s = None" "bf_numInitialized s = length xs"
    using assms bf_holds_count [OF assms(1)] by (auto simp: bf_holds_def)
  with Nil assms have "bf_AllocateNode s = Inr (bf_numInitialized s,
      s\<lparr>bf_freeList := None, bf_numInitialized := bf_numInitialized s + 1\<rparr>)"
    "bf_holds xs [bf_numInitialized s] [] (s\<lparr>bf_freeList := None, bf_numInitialized := bf_numInitialized s + 1\<rparr>)"
    by (auto simp: bf_AllocateNode_def bf_holds_def)
  then show ?thesis by (rule that)
next
  case (Cons i fs')
  with assms have "bf_AllocateNode s = Inr (i, s\<lparr>bf_freeList := bf_next s i, bf_numInitialized := bf_numInitialized s\<rparr>)"
    "bf_holds xs [i] fs' (s\<lparr>bf_freeList := bf_next s i, bf_numInitialized := bf_numInitialized s\<rparr>)"
    by (auto simp: bf_AllocateNode_def bf_holds_def)
  then show ?thesis by (rule that)
qed

lemma bf_allocate_full:
  assumes "bf_holds xs [] fs s" "length xs = bf_storage_size s"
  shows "bf_AllocateNode s = Inl Assert_failed"
proof -
  have "bf_numInitialized s \<le> bf_storage_size s" using assms(1) by (simp add: bf_holds_def)
  then have "length fs = 0" "bf_numInitialized s = bf_storage_size s"
    using assms(2) bf_holds_count [OF assms(1)] by linarith+
  then show ?thesis using assms by (auto simp: bf_AllocateNode_def bf_holds_def)
qed

section \<open>What the operations do to the nodes\<close>

definition bf_puts :: "'a bflist result \<Rightarrow> 'a bflist \<Rightarrow> nat list \<Rightarrow> nat list \<Rightarrow> 'a \<Rightarrow> bool" where
  "bf_puts r s xs ys v \<longleftrightarrow> (\<exists>t i fs. r = Inr t \<and> bf_linked (xs @ i # ys) fs t \<and> i \<notin> set (xs @ ys) \<and>
     bf_value t = (bf_value s)(i := Some v) \<and> bf_storage_size t = bf_storage_size s)"

lemma bf_push_front_puts:
  assumes "bf_linked xs fs s" "length xs < bf_storage_size s"
  shows "bf_puts (bf_push_front v s) s [] xs v"
proof -
  from assms(1) have h: "bf_holds xs [] fs s" "bf_numAllocated s = length xs" by (simp_all add: bf_linked_def)
  obtain i p k fs' where a: "bf_AllocateNode s = Inr (i, s\<lparr>bf_freeList := p, bf_numInitialized := k\<rparr>)"
    "bf_holds xs [i] fs' (s\<lparr>bf_freeList := p, bf_numInitialized := k\<rparr>)" by (rule bf_allocate [OF h(1) assms(2)])
  obtain t where t: "bf_push_front v s = Inr t" by (simp add: bf_push_front_def a(1) Let_def)
  then have "bf_linked (i # xs) fs' t" "i \<notin> set xs" "bf_value t = (bf_value s)(i := Some v)"
    "bf_storage_size t = bf_storage_size s"
    using a h by (auto simp: bf_push_front_def Let_def bf_set_def bf_linked_def bf_holds_def)
  with t show ?thesis by (auto simp: bf_puts_def)
qed

lemma bf_insert_after_puts:
  assumes "bf_linked (xs @ x # ys) fs s" "length (xs @ x # ys) < bf_storage_size s"
  shows "bf_puts (bf_insert_after (Some x) v s) s (xs @ [x]) ys v"
proof -
  from assms(1) have h: "bf_holds (xs @ x # ys) [] fs s" "bf_numAllocated s = length (xs @ x # ys)"
    by (simp_all add: bf_linked_def)
  obtain i p k fs' where a: "bf_AllocateNode s = Inr (i, s\<lparr>bf_freeList := p, bf_numInitialized := k\<rparr>)"
    "bf_holds (xs @ x # ys) [i] fs' (s\<lparr>bf_freeList := p, bf_numInitialized := k\<rparr>)" by (rule bf_allocate [OF h(1) assms(2)])
  obtain t where t: "bf_insert_after (Some x) v s = Inr t" by (simp add: bf_insert_after_def a(1) bf_node_def Let_def)
  then have "bf_linked (xs @ x # i # ys) fs' t" "i \<notin> set (xs @ x # ys)" "bf_value t = (bf_value s)(i := Some v)"
    "bf_storage_size t = bf_storage_size s"
    using a h by (auto simp: bf_insert_after_def bf_node_def Let_def bf_set_def bf_linked_def bf_holds_def links_append)
  with t show ?thesis by (auto simp: bf_puts_def)
qed

lemma bf_add_full:
  assumes "bf_linked xs fs s" "length xs = bf_storage_size s"
  shows "bf_push_front v s = Inl Assert_failed" "bf_insert_after p v s = Inl Assert_failed"
proof -
  have "bf_AllocateNode s = Inl Assert_failed" using assms bf_allocate_full by (auto simp: bf_linked_def)
  then show "bf_push_front v s = Inl Assert_failed" "bf_insert_after p v s = Inl Assert_failed"
    by (simp_all add: bf_push_front_def bf_insert_after_def)
qed

lemma bf_insert_after_null:
  assumes "bf_linked xs fs s" "length xs < bf_storage_size s"
  shows "bf_insert_after None v s = Inl Assert_failed"
proof -
  from assms(1) have h: "bf_holds xs [] fs s" by (simp add: bf_linked_def)
  then show ?thesis by (rule bf_allocate [OF _ assms(2)]) (simp add: bf_insert_after_def bf_node_def Let_def)
qed

text \<open>\<open>erase_slow\<close> leaves the value in the node.\<close>

definition bf_takes :: "'a bflist result \<Rightarrow> 'a bflist \<Rightarrow> nat list \<Rightarrow> nat \<Rightarrow> nat list \<Rightarrow> bool" where
  "bf_takes r s xs y ys \<longleftrightarrow> (\<exists>t fs. r = Inr t \<and> bf_linked (xs @ ys) fs t \<and>
     (\<forall>i. i \<noteq> y \<longrightarrow> bf_value t i = bf_value s i) \<and> bf_storage_size t = bf_storage_size s)"

lemma bf_pop_front_takes:
  assumes "bf_linked (y # ys) fs s"
  shows "bf_takes (bf_pop_front s) s [] y ys"
proof -
  obtain t where t: "bf_pop_front s = Inr t"
    using assms by (auto simp: bf_pop_front_def bf_destruct_def bf_linked_def bf_holds_def)
  then have "bf_linked ys (y # fs) t" "\<forall>i. i \<noteq> y \<longrightarrow> bf_value t i = bf_value s i" "bf_storage_size t = bf_storage_size s"
    using assms by (auto simp: bf_pop_front_def bf_destruct_def bf_free_def bf_linked_def bf_holds_def)
  with t show ?thesis by (auto simp: bf_takes_def)
qed

lemma bf_find_previous_links:
  "links (bf_next s) p (xs @ [x, y]) q \<Longrightarrow> distinct (xs @ [x, y]) \<Longrightarrow> length xs < fuel \<Longrightarrow>
   bf_find_previous fuel s p y = Inr x"
proof (induction xs arbitrary: p fuel)
  case Nil
  then show ?case by (cases fuel) auto
next
  case (Cons z xs)
  then obtain k where k: "fuel = Suc k" "length xs < k" by (cases fuel) auto
  have "bf_next s z \<noteq> Some y" using Cons.prems by (cases xs) auto
  then show ?case using Cons.IH [of "bf_next s z" k] Cons.prems k by auto
qed

lemma bf_erase_slow_takes:
  assumes "bf_linked (xs @ y # ys) fs s"
  shows "bf_takes (bf_erase_slow (Some y) s) s xs y ys"
proof (cases xs rule: rev_cases)
  case Nil
  with assms have t: "bf_erase_slow (Some y) s = Inr (bf_free y (s\<lparr>bf_firstNode := bf_next s y\<rparr>))"
    by (simp add: bf_erase_slow_def bf_node_def bf_linked_def bf_holds_def)
  moreover have "bf_linked ys (y # fs) (bf_free y (s\<lparr>bf_firstNode := bf_next s y\<rparr>))"
    using assms Nil by (auto simp: bf_free_def bf_linked_def bf_holds_def)
  ultimately show ?thesis using Nil by (auto simp: bf_takes_def bf_free_def)
next
  case (snoc zs x)
  have d: "distinct (zs @ [x, y])" using bf_linked_distinct [OF assms] snoc by auto
  have "links (bf_next s) (bf_firstNode s) (zs @ [x, y]) (bf_next s y)"
    using bf_linked_links [OF assms] snoc by (auto simp: links_append)
  moreover have "length zs < bf_storage_size s" using bf_linked_le [OF assms] snoc by simp
  ultimately have p: "bf_find_previous (bf_storage_size s) s (bf_firstNode s) y = Inr x"
    using d by (intro bf_find_previous_links)
  have f: "bf_firstNode s \<noteq> Some y" using bf_linked_links [OF assms] snoc d by (cases zs) auto
  have "bf_erase_slow (Some y) s = Inr (bf_free y (s\<lparr>bf_next := (bf_next s)(x := bf_next s y)\<rparr>))"
    using p f by (simp add: bf_erase_slow_def bf_node_def)
  moreover have "bf_linked (xs @ ys) (y # fs) (bf_free y (s\<lparr>bf_next := (bf_next s)(x := bf_next s y)\<rparr>))"
    using assms snoc by (auto simp: bf_free_def bf_linked_def bf_holds_def links_append)
  ultimately show ?thesis by (auto simp: bf_takes_def bf_free_def)
qed

lemma bf_free_all_linked:
  assumes "bf_holds xs ys fs s" "links (bf_next s) p ys None" "\<forall>y\<in>set ys. bf_value s y \<noteq> None"
    and "bf_numAllocated s = length xs + length ys" "length ys \<le> fuel"
  shows "\<exists>t. bf_free_all fuel p s = Inr t \<and> bf_linked xs (rev ys @ fs) t \<and>
    (\<forall>i. i \<notin> set ys \<longrightarrow> bf_value t i = bf_value s i) \<and> bf_storage_size t = bf_storage_size s"
  using assms
proof (induction ys arbitrary: p s fs fuel)
  case Nil
  then show ?case by (auto simp: bf_linked_def)
next
  case (Cons y ys)
  from Cons.prems obtain k where k: "fuel = Suc k" "length ys \<le> k" by (cases fuel) auto
  have y: "y \<notin> set xs" "y \<notin> set ys" "y \<notin> set fs" "p = Some y" using Cons.prems(1,2) by (auto simp: bf_holds_def)
  let ?s = "bf_free y (s\<lparr>bf_value := (bf_value s)(y := None)\<rparr>)"
  have "bf_holds xs ys (y # fs) ?s"
    using Cons.prems(1) y by (auto simp: bf_holds_def bf_free_def)
  moreover have "links (bf_next ?s) (bf_next s y) ys None"
    using Cons.prems(2) y by (simp add: bf_free_def)
  moreover have "\<forall>z\<in>set ys. bf_value ?s z \<noteq> None" "bf_numAllocated ?s = length xs + length ys"
    using Cons.prems(3,4) y by (auto simp: bf_free_def)
  ultimately obtain t where t: "bf_free_all k (bf_next s y) ?s = Inr t" "bf_linked xs (rev ys @ y # fs) t"
    "\<forall>i. i \<notin> set ys \<longrightarrow> bf_value t i = bf_value ?s i" "bf_storage_size t = bf_storage_size ?s"
    using Cons.IH k(2) by blast
  moreover have "bf_free_all fuel p s = bf_free_all k (bf_next s y) ?s"
    using Cons.prems(3) y k by (simp add: bf_destruct_def Let_def)
  ultimately show ?case by (auto simp: bf_free_def)
qed

lemma bf_erase_all_after_linked:
  assumes "bf_linked (xs @ y # ys) fs s"
  obtains t gs where "bf_erase_all_after (Some y) s = Inr t" "bf_linked (xs @ [y]) gs t"
    "\<forall>i. i \<notin> set ys \<longrightarrow> bf_value t i = bf_value s i" "bf_storage_size t = bf_storage_size s"
proof -
  let ?s = "s\<lparr>bf_next := (bf_next s)(y := None)\<rparr>"
  have h: "bf_holds (xs @ y # ys) [] fs s" and n: "bf_numAllocated s = length (xs @ y # ys)"
    using assms by (auto simp: bf_linked_def)
  then have y: "y \<notin> set xs" "y \<notin> set ys" "y \<notin> set fs" "\<forall>y\<in>set ys. bf_value s y \<noteq> None"
    "links (bf_next s) (bf_next s y) ys None"
    by (auto simp: bf_holds_def links_append)
  have "bf_holds (xs @ [y]) ys fs ?s" using h y by (auto simp: bf_holds_def links_append)
  moreover have "links (bf_next ?s) (bf_next s y) ys None" using y by simp
  moreover have "length ys \<le> bf_storage_size s" using bf_linked_le [OF assms] by simp
  ultimately have "\<exists>t. bf_free_all (bf_storage_size s) (bf_next s y) ?s = Inr t \<and> bf_linked (xs @ [y]) (rev ys @ fs) t \<and>
      (\<forall>i. i \<notin> set ys \<longrightarrow> bf_value t i = bf_value ?s i) \<and> bf_storage_size t = bf_storage_size ?s"
    using y n by (intro bf_free_all_linked) simp_all
  then show ?thesis by (auto simp: bf_erase_all_after_def bf_node_def intro: that)
qed

lemma bf_clear_linked:
  assumes "bf_linked xs fs s"
  shows "\<exists>t gs. bf_clear s = Inr t \<and> bf_linked [] gs t \<and> bf_storage_size t = bf_storage_size s"
proof -
  have "\<exists>t gs. bf_clear_loop fuel s = Inr t \<and> bf_linked [] gs t \<and> bf_storage_size t = bf_storage_size s"
    if "bf_linked xs fs s" "length xs \<le> fuel" for fuel
    using that
  proof (induction xs arbitrary: s fs fuel)
    case Nil
    then have "bf_firstNode s = None" by (simp add: bf_linked_def bf_holds_def)
    then show ?case using Nil by (cases fuel) auto
  next
    case (Cons x xs)
    then obtain k where k: "fuel = Suc k" "length xs \<le> k" by (cases fuel) auto
    obtain u gs where u: "bf_pop_front s = Inr u" "bf_linked xs gs u" "bf_storage_size u = bf_storage_size s"
      using bf_pop_front_takes [OF Cons.prems(1)] by (auto simp: bf_takes_def)
    moreover have "bf_firstNode s \<noteq> None" using Cons.prems(1) by (simp add: bf_linked_def bf_holds_def)
    ultimately show ?case using Cons.IH [OF u(2) k(2)] k by simp
  qed
  then show ?thesis using assms bf_linked_le [OF assms] by (simp add: bf_clear_def)
qed

text \<open>Appending behind the last node, which is where \<open>current\<close> stands.\<close>

lemma bf_append_linked:
  assumes "bf_linked xs fs s" "length xs < bf_storage_size s" "xs = [] \<or> current = Some (List.last xs)"
  shows "\<exists>t i gs. bf_append v (current, s) = Inr (Some i, t) \<and> bf_linked (xs @ [i]) gs t \<and>
    bf_vals t (xs @ [i]) = bf_vals s xs @ [v] \<and> bf_storage_size t = bf_storage_size s"
proof (cases xs rule: rev_cases)
  case Nil
  then have e: "bf_empty s" using assms(1) by (simp add: bf_empty_def bf_linked_def)
  obtain t i gs where t: "bf_push_front v s = Inr t" "bf_linked [i] gs t"
    "bf_value t = (bf_value s)(i := Some v)" "bf_storage_size t = bf_storage_size s"
    using bf_push_front_puts [OF assms(1,2), of v] Nil by (auto simp: bf_puts_def)
  then have "bf_begin t = Some i" by (auto simp: bf_begin_def dest: bf_linked_links)
  then show ?thesis using t e Nil by (auto simp: bf_append_def)
next
  case (snoc ys y)
  then have e: "\<not> bf_empty s" using assms(1) by (simp add: bf_empty_def bf_linked_def)
  obtain t i gs where t: "bf_insert_after (Some y) v s = Inr t" "bf_linked (ys @ [y, i]) gs t" "i \<notin> set (ys @ [y])"
    "bf_value t = (bf_value s)(i := Some v)" "bf_storage_size t = bf_storage_size s"
    using bf_insert_after_puts [of ys y "[]" fs s v] assms(1,2) snoc by (auto simp: bf_puts_def)
  then have "bf_next t y = Some i" by (auto simp: links_append dest: bf_linked_links)
  then show ?thesis using t e snoc assms(3) by (auto simp: bf_append_def bf_increment_def)
qed

lemma bf_append_full:
  assumes "bf_linked xs fs s" "length xs = bf_storage_size s"
  shows "bf_append v (current, s) = Inl Assert_failed"
  using bf_add_full [OF assms] by (simp add: bf_append_def)

lemma bf_append_all_linked:
  assumes "bf_linked xs fs s" "xs = [] \<or> current = Some (List.last xs)" "length xs + length vs \<le> bf_storage_size s"
  shows "\<exists>t ys gs. bf_append_all vs (current, s) = Inr t \<and> bf_linked ys gs t \<and>
    bf_vals t ys = bf_vals s xs @ vs \<and> bf_storage_size t = bf_storage_size s"
  using assms
proof (induction vs arbitrary: xs fs s current)
  case (Cons v vs)
  obtain t i gs where t: "bf_append v (current, s) = Inr (Some i, t)" "bf_linked (xs @ [i]) gs t"
    "bf_vals t (xs @ [i]) = bf_vals s xs @ [v]" "bf_storage_size t = bf_storage_size s"
    using bf_append_linked [OF Cons.prems(1) _ Cons.prems(2)] Cons.prems(3) by fastforce
  have "\<exists>u ys gs. bf_append_all vs (Some i, t) = Inr u \<and> bf_linked ys gs u \<and>
      bf_vals u ys = bf_vals t (xs @ [i]) @ vs \<and> bf_storage_size u = bf_storage_size t"
    by (rule Cons.IH [OF t(2)]) (use t(4) Cons.prems(3) in simp_all)
  then show ?case unfolding t(3) using t(1,4) by auto
qed auto

lemma bf_append_all_full:
  assumes "bf_linked xs fs s" "xs = [] \<or> current = Some (List.last xs)" "\<not> length xs + length vs \<le> bf_storage_size s"
  shows "bf_append_all vs (current, s) = Inl Assert_failed"
  using assms
proof (induction vs arbitrary: xs fs s current)
  case Nil
  then show ?case using bf_linked_le [OF Nil.prems(1)] by simp
next
  case (Cons v vs)
  show ?case
  proof (cases "length xs = bf_storage_size s")
    case True
    then show ?thesis using bf_append_full [OF Cons.prems(1)] by simp
  next
    case False
    then have "length xs < bf_storage_size s" using bf_linked_le [OF Cons.prems(1)] by simp
    then obtain t i gs where t: "bf_append v (current, s) = Inr (Some i, t)" "bf_linked (xs @ [i]) gs t"
      "bf_storage_size t = bf_storage_size s"
      using bf_append_linked [OF Cons.prems(1) _ Cons.prems(2)] by fastforce
    have "bf_append_all vs (Some i, t) = Inl Assert_failed"
      by (rule Cons.IH [OF t(2)]) (use t(3) Cons.prems(3) in simp_all)
    then show ?thesis using t(1) by simp
  qed
qed

section \<open>What the operations do to the elements\<close>

definition bf_yields :: "'a bflist result \<Rightarrow> nat \<Rightarrow> 'a list \<Rightarrow> bool" where
  "bf_yields r m vs \<longleftrightarrow> (\<exists>t. r = Inr t \<and> bf_inv t \<and> bf_storage_size t = m \<and> bf_elems t = vs)"

lemma bf_yieldsI:
  "r = Inr t \<Longrightarrow> bf_linked xs fs t \<Longrightarrow> bf_storage_size t = m \<Longrightarrow> bf_vals t xs = vs \<Longrightarrow> bf_yields r m vs"
  by (auto simp: bf_yields_def bf_inv_def bf_linked_elems)

lemma bf_puts_yields:
  "bf_puts r s xs ys v \<Longrightarrow> bf_yields r (bf_storage_size s) (bf_vals s xs @ v # bf_vals s ys)"
  unfolding bf_puts_def bf_yields_def bf_inv_def by (force simp: bf_linked_elems)

lemma bf_takes_yields:
  assumes "bf_linked (xs @ y # ys) fs s" "bf_takes r s xs y ys"
  shows "bf_yields r (bf_storage_size s) (bf_vals s xs @ bf_vals s ys)"
proof -
  have "y \<notin> set xs" "y \<notin> set ys" using bf_linked_distinct [OF assms(1)] by auto
  moreover from assms(2) obtain t gs where t: "r = Inr t" "bf_linked (xs @ ys) gs t"
    "\<forall>i. i \<noteq> y \<longrightarrow> bf_value t i = bf_value s i" "bf_storage_size t = bf_storage_size s"
    by (auto simp: bf_takes_def)
  ultimately have "bf_vals t (xs @ ys) = bf_vals s xs @ bf_vals s ys" by auto
  then show ?thesis using t by (auto intro: bf_yieldsI)
qed

lemma bf_assign_yields:
  assumes "bf_inv s"
  shows "bf_assign vs s = Inl Assert_failed \<and> \<not> length vs \<le> bf_storage_size s \<or>
    bf_yields (bf_assign vs s) (bf_storage_size s) vs \<and> length vs \<le> bf_storage_size s"
proof -
  from assms obtain xs fs where "bf_linked xs fs s" by (auto simp: bf_inv_def)
  from bf_clear_linked [OF this] obtain t gs where
    t: "bf_clear s = Inr t" "bf_linked [] gs t" "bf_storage_size t = bf_storage_size s" by auto
  show ?thesis
  proof (cases "length vs \<le> bf_storage_size s")
    case True
    then obtain u ys hs where "bf_append_all vs (None, t) = Inr u" "bf_linked ys hs u" "bf_vals u ys = vs"
      "bf_storage_size u = bf_storage_size s"
      using bf_append_all_linked [OF t(2), of None vs] t(3) by auto
    then show ?thesis using t True by (auto simp: bf_assign_def intro!: bf_yieldsI)
  next
    case False
    then show ?thesis using t bf_append_all_full [OF t(2), of None vs] by (simp add: bf_assign_def)
  qed
qed

text \<open>Going over another list while appending its values is appending all its values.\<close>

lemma bf_append_range_all:
  assumes "links (bf_next other) p ys None" "\<forall>y\<in>set ys. bf_value other y \<noteq> None" "length ys < fuel"
  shows "bf_append_range fuel other p None cs = bf_append_all (bf_vals other ys) cs"
  using assms
proof (induction ys arbitrary: p cs fuel)
  case Nil
  then show ?case by (cases fuel) auto
next
  case (Cons y ys)
  then obtain k where "fuel = Suc k" by (cases fuel) auto
  then show ?case using Cons
    by (auto simp: bf_deref_def bf_read_def bf_increment_def intro!: arg_cong [where f = "rbind _"])
qed

lemma bf_assign_range_elems:
  assumes "bf_inv other"
  shows "bf_assign_range other (bf_begin other) (bf_end other) s = bf_assign (bf_elems other) s"
    "bf_move_from_range other (bf_begin other) (bf_end other) s = bf_assign (bf_elems other) s"
proof -
  obtain ys fs where l: "bf_linked ys fs other" "bf_elems other = bf_vals other ys"
    using assms by (rule bf_inv_cases)
  have "bf_append_range (bf_storage_size other + 1) other (bf_begin other) (bf_end other) cs = bf_append_all (bf_elems other) cs" for cs
    unfolding bf_begin_def bf_end_def l(2)
    by (rule bf_append_range_all [OF bf_linked_links [OF l(1)] bf_linked_values [OF l(1)]]) (use bf_linked_le [OF l(1)] in simp)
  then show "bf_assign_range other (bf_begin other) (bf_end other) s = bf_assign (bf_elems other) s"
    "bf_move_from_range other (bf_begin other) (bf_end other) s = bf_assign (bf_elems other) s"
    by (simp_all only: bf_assign_range_def bf_move_from_range_def bf_assign_def)
qed

lemma bf_push_n_linked:
  assumes "bf_linked xs fs s" "length xs + n \<le> bf_storage_size s"
  shows "\<exists>t ys gs. bf_push_n n v s = Inr t \<and> bf_linked ys gs t \<and> bf_vals t ys = replicate n v @ bf_vals s xs \<and>
    bf_storage_size t = bf_storage_size s"
  using assms
proof (induction n arbitrary: xs fs s)
  case (Suc n)
  obtain t i gs where t: "bf_push_front v s = Inr t" "bf_linked (i # xs) gs t" "i \<notin> set xs"
    "bf_value t = (bf_value s)(i := Some v)" "bf_storage_size t = bf_storage_size s"
    using bf_push_front_puts [OF Suc.prems(1), of v] Suc.prems(2) by (auto simp: bf_puts_def)
  have "\<exists>u ys gs. bf_push_n n v t = Inr u \<and> bf_linked ys gs u \<and> bf_vals u ys = replicate n v @ bf_vals t (i # xs) \<and>
      bf_storage_size u = bf_storage_size t"
    by (rule Suc.IH [OF t(2)]) (use t(5) Suc.prems(2) in simp)
  then obtain u ys hs where u: "bf_push_n n v t = Inr u" "bf_linked ys hs u" "bf_vals u ys = replicate n v @ bf_vals t (i # xs)"
    "bf_storage_size u = bf_storage_size t" by blast
  have "bf_vals t (i # xs) = v # bf_vals s xs" using t(3,4) by auto
  then have "bf_vals u ys = replicate (Suc n) v @ bf_vals s xs" using u(3) by (simp only: replicate_app_Cons_same replicate_Suc append_Cons)
  then show ?case using t(1,5) u by (intro exI [of _ u] exI [of _ ys] exI [of _ hs]) simp
qed auto

section \<open>The operations as steps\<close>

fun bf_advance :: "nat \<Rightarrow> 'a bflist \<Rightarrow> pointer \<Rightarrow> pointer result" where
  "bf_advance 0 s p = Inr p"
| "bf_advance (Suc k) s p = rbind (bf_increment s p) (bf_advance k s)"

datatype 'a forward_op =
    Forward_push_front 'a | Forward_pop_front | Forward_insert_after nat 'a | Forward_erase_slow nat
  | Forward_erase_all_after nat | Forward_clear | Forward_assign "'a list"

fun bf_step :: "'a forward_op \<Rightarrow> 'a bflist \<Rightarrow> 'a bflist result" where
  "bf_step (Forward_push_front v) s = bf_push_front v s"
| "bf_step Forward_pop_front s = bf_pop_front s"
| "bf_step (Forward_insert_after k v) s = rbind (bf_advance k s (bf_begin s)) (\<lambda>p. bf_insert_after p v s)"
| "bf_step (Forward_erase_slow k) s = rbind (bf_advance k s (bf_begin s)) (\<lambda>p. bf_erase_slow p s)"
| "bf_step (Forward_erase_all_after k) s = rbind (bf_advance k s (bf_begin s)) (\<lambda>p. bf_erase_all_after p s)"
| "bf_step Forward_clear s = bf_clear s"
| "bf_step (Forward_assign vs) s = bf_assign vs s"

text \<open>A position is reached from \<open>begin()\<close> by incrementing: going on from the end follows the null pointer
  (\<open>Out_of_bounds\<close>), and an operation at the end stops with the assertion of \<open>node()\<close>.\<close>

fun forward_step :: "'a forward_op \<Rightarrow> nat \<times> 'a list \<Rightarrow> (nat \<times> 'a list) result" where
  "forward_step (Forward_push_front v) (m, xs) = really_assert (length xs < m) (Inr (m, v # xs))"
| "forward_step Forward_pop_front (m, xs) = in_bounds (xs \<noteq> []) (Inr (m, tl xs))"
| "forward_step (Forward_insert_after k v) (m, xs) = in_bounds (k \<le> length xs)
     (really_assert (length xs < m \<and> k < length xs) (Inr (m, take (Suc k) xs @ v # drop (Suc k) xs)))"
| "forward_step (Forward_erase_slow k) (m, xs) = in_bounds (k \<le> length xs)
     (really_assert (k < length xs) (Inr (m, take k xs @ drop (Suc k) xs)))"
| "forward_step (Forward_erase_all_after k) (m, xs) = in_bounds (k \<le> length xs)
     (really_assert (k < length xs) (Inr (m, take (Suc k) xs)))"
| "forward_step Forward_clear (m, xs) = Inr (m, [])"
| "forward_step (Forward_assign vs) (m, xs) = really_assert (length vs \<le> m) (Inr (m, vs))"

lemma bf_advance_links:
  "links (bf_next s) p xs None \<Longrightarrow> bf_advance k s p = in_bounds (k \<le> length xs)
     (Inr (if k < length xs then Some (xs ! k) else None))"
proof (induction k arbitrary: p xs)
  case 0
  then show ?case by (cases xs) auto
next
  case (Suc k)
  then show ?case by (cases xs) (auto simp: bf_increment_def)
qed

definition bf_abs :: "'a bflist \<Rightarrow> nat \<times> 'a list" where
  "bf_abs s = (bf_storage_size s, bf_elems s)"

definition bf_simulates :: "'a bflist result \<Rightarrow> (nat \<times> 'a list) result \<Rightarrow> bool" where
  "bf_simulates r q = (map_sum id bf_abs r = q \<and> (\<forall>t. r = Inr t \<longrightarrow> bf_inv t))"

lemma bf_yields_simulates: "bf_yields r m vs \<Longrightarrow> bf_simulates r (Inr (m, vs))"
  by (auto simp: bf_yields_def bf_simulates_def bf_abs_def)

lemma bf_fault_simulates [simp]: "bf_simulates (Inl e) q = (q = Inl e)"
  by (auto simp: bf_simulates_def)

lemma bf_step_insert:
  assumes "bf_inv s"
  shows "bf_simulates (bf_step (Forward_insert_after k v) s) (forward_step (Forward_insert_after k v) (bf_abs s))"
proof -
  from assms obtain xs fs where l: "bf_linked xs fs s" "bf_elems s = bf_vals s xs" by (rule bf_inv_cases)
  have a: "bf_advance k s (bf_begin s) = in_bounds (k \<le> length xs) (Inr (if k < length xs then Some (xs ! k) else None))"
    using bf_advance_links [OF bf_linked_links [OF l(1)]] by (simp add: bf_begin_def)
  consider "\<not> k \<le> length xs" | "k \<le> length xs" "length xs = bf_storage_size s"
    | "k = length xs" "length xs < bf_storage_size s" | "k < length xs" "length xs < bf_storage_size s"
    using bf_linked_le [OF l(1)] by linarith
  then show ?thesis
  proof cases
    case 4
    then have x: "take k xs @ xs ! k # drop (Suc k) xs = xs" by (simp add: Cons_nth_drop_Suc)
    have "bf_puts (bf_insert_after (Some (xs ! k)) v s) s (take k xs @ [xs ! k]) (drop (Suc k) xs) v"
      by (rule bf_insert_after_puts; unfold x; use l(1) 4 in simp)
    from bf_puts_yields [OF this] show ?thesis using 4 a l
      by (auto simp: bf_abs_def take_map drop_map take_Suc_conv_app_nth intro!: bf_yields_simulates)
  next
    case 3
    then show ?thesis using a l bf_insert_after_null [OF l(1)] by (simp add: bf_abs_def)
  qed (use a l bf_add_full(2) [OF l(1)] in \<open>auto simp: bf_abs_def\<close>)
qed

lemma bf_step_erase:
  assumes "bf_inv s"
  shows "bf_simulates (bf_step (Forward_erase_slow k) s) (forward_step (Forward_erase_slow k) (bf_abs s))"
    "bf_simulates (bf_step (Forward_erase_all_after k) s) (forward_step (Forward_erase_all_after k) (bf_abs s))"
proof -
  from assms obtain xs fs where l: "bf_linked xs fs s" "bf_elems s = bf_vals s xs" by (rule bf_inv_cases)
  have a: "bf_advance k s (bf_begin s) = in_bounds (k \<le> length xs) (Inr (if k < length xs then Some (xs ! k) else None))"
    using bf_advance_links [OF bf_linked_links [OF l(1)]] by (simp add: bf_begin_def)
  have "bf_simulates (bf_step (Forward_erase_slow k) s) (forward_step (Forward_erase_slow k) (bf_abs s)) \<and>
      bf_simulates (bf_step (Forward_erase_all_after k) s) (forward_step (Forward_erase_all_after k) (bf_abs s))"
  proof (cases "k < length xs")
    case True
    then have s: "bf_linked (take k xs @ xs ! k # drop (Suc k) xs) fs s" using l(1) by (simp flip: take_at)
    have "bf_yields (bf_erase_slow (Some (xs ! k)) s) (bf_storage_size s) (bf_vals s (take k xs) @ bf_vals s (drop (Suc k) xs))"
      by (rule bf_takes_yields [OF s bf_erase_slow_takes [OF s]])
    moreover obtain t gs where t: "bf_erase_all_after (Some (xs ! k)) s = Inr t" "bf_linked (take k xs @ [xs ! k]) gs t"
      "\<forall>i. i \<notin> set (drop (Suc k) xs) \<longrightarrow> bf_value t i = bf_value s i" "bf_storage_size t = bf_storage_size s"
      using bf_erase_all_after_linked [OF s] .
    have "set (take (Suc k) xs) \<inter> set (drop (Suc k) xs) = {}"
      using bf_linked_distinct [OF l(1)] by (rule set_take_disj_set_drop_if_distinct) simp
    then have "bf_vals t (take (Suc k) xs) = bf_vals s (take (Suc k) xs)" using t(3) by auto
    then have "bf_yields (bf_erase_all_after (Some (xs ! k)) s) (bf_storage_size s) (take (Suc k) (bf_vals s xs))"
      using t True by (intro bf_yieldsI [OF t(1,2)]) (simp_all add: take_Suc_conv_app_nth take_map)
    ultimately show ?thesis using a l True by (auto simp: bf_abs_def take_map drop_map intro!: bf_yields_simulates)
  qed (use a l in \<open>auto simp: bf_abs_def bf_erase_slow_def bf_erase_all_after_def bf_node_def in_bounds_def\<close>)
  then show "bf_simulates (bf_step (Forward_erase_slow k) s) (forward_step (Forward_erase_slow k) (bf_abs s))"
    "bf_simulates (bf_step (Forward_erase_all_after k) s) (forward_step (Forward_erase_all_after k) (bf_abs s))" by simp_all
qed

lemma bf_step_ends:
  assumes "bf_inv s"
  shows "bf_simulates (bf_push_front v s) (forward_step (Forward_push_front v) (bf_abs s))"
    "bf_simulates (bf_pop_front s) (forward_step Forward_pop_front (bf_abs s))"
proof -
  from assms obtain xs fs where l: "bf_linked xs fs s" "bf_elems s = bf_vals s xs" by (rule bf_inv_cases)
  consider "length xs = bf_storage_size s" | "length xs < bf_storage_size s"
    using bf_linked_le [OF l(1)] by linarith
  then show "bf_simulates (bf_push_front v s) (forward_step (Forward_push_front v) (bf_abs s))"
  proof cases
    case 2
    then show ?thesis using bf_puts_yields [OF bf_push_front_puts [OF l(1) 2, of v]] l(2)
      by (auto simp: bf_abs_def intro!: bf_yields_simulates)
  qed (use l bf_add_full(1) [OF l(1)] in \<open>auto simp: bf_abs_def\<close>)
  show "bf_simulates (bf_pop_front s) (forward_step Forward_pop_front (bf_abs s))"
  proof (cases xs)
    case Nil
    then show ?thesis using l by (simp add: bf_abs_def bf_pop_front_def bf_linked_def bf_holds_def)
  next
    case (Cons y ys)
    then have "bf_linked ([] @ y # ys) fs s" "bf_linked (y # ys) fs s" using l(1) by simp_all
    then show ?thesis using bf_takes_yields [of "[]" y ys fs s, OF _ bf_pop_front_takes] Cons l(2)
      by (auto simp: bf_abs_def intro!: bf_yields_simulates)
  qed
qed

lemma bf_step_simulates:
  assumes "bf_inv s"
  shows "bf_simulates (bf_step x s) (forward_step x (bf_abs s))"
proof (cases x)
  case Forward_clear
  from assms obtain xs fs where "bf_linked xs fs s" by (auto simp: bf_inv_def)
  then obtain t gs where "bf_clear s = Inr t" "bf_linked [] gs t" "bf_storage_size t = bf_storage_size s"
    using bf_clear_linked by blast
  then have "bf_yields (bf_clear s) (bf_storage_size s) []" by (auto intro: bf_yieldsI)
  then show ?thesis using Forward_clear by (auto simp: bf_abs_def intro!: bf_yields_simulates)
next
  case (Forward_assign vs)
  then show ?thesis using bf_assign_yields [OF assms, of vs] by (auto simp: bf_abs_def dest: bf_yields_simulates)
qed (use bf_step_ends [OF assms] bf_step_insert [OF assms] bf_step_erase [OF assms] in simp_all)

interpretation bflist: refinement bf_inv bf_abs bf_step forward_step
  by unfold_locales (use bf_step_simulates in \<open>auto simp: bf_simulates_def\<close>)

lemma bf_new_inv: "bf_inv (bf_new m)" "bf_abs (bf_new m) = (m, [])"
  using bf_linked_new [of m] bf_linked_elems [OF bf_linked_new, of m] by (auto simp: bf_inv_def bf_abs_def bf_new_def)

lemma bf_run_Inr:
  assumes "run_ops forward_step ops (m, []) = Inr (m', vs)"
  obtains s where "run_ops bf_step ops (bf_new m) = Inr s" "bf_inv s" "bf_storage_size s = m'" "bf_elems s = vs"
proof -
  have "map_sum id bf_abs (run_ops bf_step ops (bf_new m)) = Inr (m', vs)"
    using assms bflist.run_simulates bf_new_inv by metis
  then obtain s where s: "run_ops bf_step ops (bf_new m) = Inr s" "bf_abs s = (m', vs)"
    by (cases "run_ops bf_step ops (bf_new m)") auto
  then show ?thesis using bflist.run_inv [OF bf_new_inv(1) s(1)] by (intro that) (auto simp: bf_abs_def)
qed

section \<open>Comparing lists\<close>

lemma bf_equal_from_links:
  assumes "links (bf_next a) p xs None" "links (bf_next b) q ys None"
    and "\<forall>x\<in>set xs. bf_value a x \<noteq> None" "\<forall>y\<in>set ys. bf_value b y \<noteq> None"
    and "length xs = length ys" "length xs < fuel"
  shows "bf_equal_from fuel a b p q = Inr (bf_vals a xs = bf_vals b ys)"
  using assms
proof (induction xs arbitrary: p q ys fuel)
  case Nil
  then show ?case by (cases fuel) (auto simp: bf_end_def)
next
  case (Cons x xs)
  then obtain k y zs where "fuel = Suc k" "ys = y # zs" by (cases fuel; cases ys) auto
  then show ?case using Cons by (auto simp: bf_deref_def bf_read_def bf_increment_def bf_end_def)
qed

text \<open>What \<open>operator<\<close> decides: some element is smaller than the one at the same position, or the list
  is shorter.\<close>

definition pointwise_less :: "('a::linorder) list \<Rightarrow> 'a list \<Rightarrow> bool" where
  "pointwise_less xs ys = ((\<exists>(x, y)\<in>set (zip xs ys). x < y) \<or> length xs < length ys)"

lemma bf_less_from_links:
  assumes "links (bf_next a) p xs None" "links (bf_next b) q ys None"
    and "\<forall>x\<in>set xs. bf_value a x \<noteq> None" "\<forall>y\<in>set ys. bf_value b y \<noteq> None" "length xs < fuel"
  shows "bf_less_from fuel a b p q =
    Inr ((\<exists>(x, y)\<in>set (zip (bf_vals a xs) (bf_vals b ys)). x < y) \<or> bf_size a < bf_size b)"
  using assms
proof (induction xs arbitrary: p q ys fuel)
  case Nil
  then show ?case by (cases fuel; cases ys) (auto simp: bf_end_def)
next
  case (Cons x xs)
  then obtain k where k: "fuel = Suc k" by (cases fuel) auto
  show ?case
  proof (cases ys)
    case Nil
    then show ?thesis using Cons k by (auto simp: bf_end_def)
  next
    case (Cons y zs)
    then show ?thesis using Cons.prems Cons.IH [of "bf_next a x" "bf_next b y" zs k] k
      by (auto simp: bf_deref_def bf_read_def bf_increment_def bf_end_def)
  qed
qed

lemma bf_compare_elems:
  assumes "bf_inv a" "bf_inv b"
  shows "bf_eq a b = Inr (bf_elems a = bf_elems b)" "bf_less a b = Inr (pointwise_less (bf_elems a) (bf_elems b))"
proof -
  from assms obtain xs fs ys gs where l: "bf_linked xs fs a" "bf_elems a = bf_vals a xs"
    "bf_linked ys gs b" "bf_elems b = bf_vals b ys" by (auto elim!: bf_inv_cases)
  have n: "bf_size a = length xs" "bf_size b = length ys"
    using l by (simp_all add: bf_size_def bf_linked_def)
  have f: "length xs < bf_storage_size a + 1" using bf_linked_le [OF l(1)] by simp
  note p = bf_linked_links [OF l(1)] bf_linked_links [OF l(3)] bf_linked_values [OF l(1)] bf_linked_values [OF l(3)]
  show "bf_less a b = Inr (pointwise_less (bf_elems a) (bf_elems b))"
    using bf_less_from_links [OF p f] l n by (simp add: bf_less_def bf_begin_def pointwise_less_def del: bf_less_from.simps)
  show "bf_eq a b = Inr (bf_elems a = bf_elems b)"
  proof (cases "length xs = length ys")
    case True
    then show ?thesis using bf_equal_from_links [OF p _ f] l n
      by (simp add: bf_eq_def bf_begin_def del: bf_equal_from.simps)
  next
    case False
    then have "bf_elems a \<noteq> bf_elems b" using l by (auto dest: map_eq_imp_length_eq)
    then show ?thesis using False n by (simp add: bf_eq_def)
  qed
qed

section \<open>Swapping lists\<close>

text \<open>The first loop is that of BoundedList, on the links and values alone.\<close>

definition bf_as_bl :: "'a bflist \<Rightarrow> 'a blist" where
  "bf_as_bl s = (bl_new 0)\<lparr>bl_value := bf_value s, bl_next := bf_next s\<rparr>"

lemma bf_as_bl_simps [simp]:
  "bl_next (bf_as_bl s) = bf_next s" "bl_value (bf_as_bl s) = bf_value s"
  "bl_read (bf_as_bl s) i = bf_read s i" "bl_set (bf_as_bl s) i v = bf_as_bl (bf_set s i v)"
  "(bf_set s i v)\<lparr>bf_value := f\<rparr> = s\<lparr>bf_value := f\<rparr>" "bf_next (bf_set s i v) = bf_next s"
  by (simp_all add: bf_as_bl_def bl_read_def bf_read_def bl_set_def bf_set_def)

lemma bf_swap_common_eq:
  "bf_swap_common fuel (a, b) i old = map_sum id (\<lambda>((a', b'), r). ((a\<lparr>bf_value := bl_value a'\<rparr>, b\<lparr>bf_value := bl_value b'\<rparr>), r))
     (bl_swap_common fuel (bf_as_bl a, bf_as_bl b) i old)"
proof (induction fuel arbitrary: a b i old)
  case (Suc fuel)
  obtain i1 i2 where i: "i = (i1, i2)" by (cases i)
  show ?case
  proof (cases "\<exists>n1 n2. i1 = Some n1 \<and> i2 = Some n2")
    case True
    then obtain n1 n2 where n: "i1 = Some n1" "i2 = Some n2" by blast
    show ?thesis unfolding i n by (cases "bf_read a n1"; cases "bf_read b n2") (simp_all add: Suc.IH)
  next
    case False
    then show ?thesis unfolding i by (cases i1; cases i2) simp_all
  qed
qed simp

lemma bf_linked_set_values:
  assumes "bf_linked xs fs s" "None \<notin> set (map va xs)"
  shows "bf_linked xs fs (s\<lparr>bf_value := va\<rparr>)"
proof -
  have "\<forall>x\<in>set xs. va x \<noteq> None" using assms(2) by (metis image_eqI set_map)
  then show ?thesis using assms(1) by (simp add: bf_linked_def bf_holds_def)
qed

lemma bf_swap_common_lists:
  assumes "bf_linked xs fs a" "bf_linked ys gs b" "n = min (length xs) (length ys)"
  obtains a' b' where "bf_linked xs fs a'" "bf_linked ys gs b'"
    "bf_storage_size a' = bf_storage_size a" "bf_storage_size b' = bf_storage_size b"
    "bf_vals a' xs = take n (bf_vals b ys) @ drop n (bf_vals a xs)"
    "bf_vals b' ys = take n (bf_vals a xs) @ drop n (bf_vals b ys)"
    "bf_swap a b = rbind (bf_swap_rest (if n < length xs then Some (xs ! n) else None)
        (if n = 0 then None else Some (xs ! (n - 1))) (if n = 0 then None else Some (ys ! (n - 1))) a' b') (\<lambda>(a', b').
      rbind (bf_swap_rest (if n < length ys then Some (ys ! n) else None)
        (if n = 0 then None else Some (ys ! (n - 1))) (if n = 0 then None else Some (xs ! (n - 1))) b' a') (\<lambda>(b', a'). Inr (a', b')))"
proof -
  have f: "length xs < bf_storage_size a + 1" using bf_linked_le [OF assms(1)] by simp
  have l: "links (bl_next (bf_as_bl a)) (bf_firstNode a) xs None" "links (bl_next (bf_as_bl b)) (bf_firstNode b) ys None"
    "\<forall>x\<in>set xs. bl_value (bf_as_bl a) x \<noteq> None" "\<forall>y\<in>set ys. bl_value (bf_as_bl b) y \<noteq> None"
    using bf_linked_values [OF assms(1)] bf_linked_values [OF assms(2)] assms(1,2) by (auto simp: bf_linked_links)
  from bl_swap_common_values [OF l(1,2) bf_linked_distinct [OF assms(1)] bf_linked_distinct [OF assms(2)] l(3,4) f assms(3), of "(None, None)"]
  obtain va vb where v: "bl_swap_common (bf_storage_size a + 1) (bf_as_bl a, bf_as_bl b) (bf_firstNode a, bf_firstNode b) (None, None) =
      Inr (((bf_as_bl a)\<lparr>bl_value := va\<rparr>, (bf_as_bl b)\<lparr>bl_value := vb\<rparr>),
      (if n < length xs then Some (xs ! n) else None, if n < length ys then Some (ys ! n) else None),
      (if n = 0 then (None, None) else (Some (xs ! (n - 1)), Some (ys ! (n - 1)))))"
    "map va xs = take n (map (bf_value b) ys) @ drop n (map (bf_value a) xs)"
    "map vb ys = take n (map (bf_value a) xs) @ drop n (map (bf_value b) ys)" by auto
  have the: "map (\<lambda>i. the (f i)) zs = map the (map f zs)" for f :: "nat \<Rightarrow> 'a option" and zs by simp
  have ok: "None \<notin> set (map (bf_value a) xs)" "None \<notin> set (map (bf_value b) ys)"
    using bf_linked_values [OF assms(1)] bf_linked_values [OF assms(2)] by force+
  have "None \<notin> set (map va xs)" "None \<notin> set (map vb ys)"
    unfolding v(2,3) using ok by (auto dest: in_set_takeD in_set_dropD)
  then show ?thesis
    using v(1) by (intro that [of "a\<lparr>bf_value := va\<rparr>" "b\<lparr>bf_value := vb\<rparr>"])
      (auto simp: bf_swap_def bf_begin_def bf_swap_common_eq bf_linked_set_values assms(1,2) the v(2,3) take_map drop_map
        simp del: bf_swap_common.simps bl_swap_common.simps map_map)
qed

lemma bf_swap_rest_none [simp]: "bf_swap_rest None c p s other = Inr (s, other)"
  by (simp add: bf_swap_rest_def bf_end_def)

text \<open>Inserting the rest behind a node of a list with elements is appending it.\<close>

lemma bf_insert_after_some: "bf_insert_after p v s = Inr t \<Longrightarrow> bf_numAllocated t \<noteq> 0"
  by (auto simp: bf_insert_after_def Let_def rbind_Inr)

lemma bf_insert_rest_all:
  assumes "links (bf_next s) i zs None" "\<forall>z\<in>set zs. bf_value s z \<noteq> None" "length zs < fuel" "bf_numAllocated other \<noteq> 0"
  shows "bf_insert_rest fuel s i p other = bf_append_all (bf_vals s zs) (p, other)"
  using assms
proof (induction zs arbitrary: i p other fuel)
  case Nil
  then show ?case by (cases fuel) (auto simp: bf_end_def)
next
  case (Cons z zs)
  then obtain k where k: "fuel = Suc k" by (cases fuel) auto
  show ?case
  proof (cases "bf_insert_after p (the (bf_value s z)) other")
    case (Inl e)
    then show ?thesis using Cons.prems k
      by (auto simp: bf_deref_def bf_read_def bf_end_def bf_append_def bf_empty_def)
  next
    case (Inr t)
    then show ?thesis using Cons.prems k Cons.IH [of "bf_next s z" k t] bf_insert_after_some [OF Inr]
      by (cases p) (auto simp: bf_deref_def bf_read_def bf_end_def bf_append_def bf_empty_def bf_increment_def)
  qed
qed

lemma bf_swap_rest_append:
  assumes "bf_linked (ws @ z # zs) fs s" "bf_numAllocated other \<noteq> 0"
  shows "bf_swap_rest (Some z) c p s other = rbind (bf_append_all (bf_vals s (z # zs)) (p, other)) (\<lambda>other.
    rbind (bf_erase_all_after c s) (\<lambda>s. Inr (s, other)))"
proof -
  have h: "links (bf_next s) (Some z) (z # zs) None" "\<forall>y\<in>set (z # zs). bf_value s y \<noteq> None"
    "length (z # zs) < bf_storage_size s + 1"
    using bf_linked_links [OF assms(1)] bf_linked_values [OF assms(1)] bf_linked_le [OF assms(1)]
    by (auto simp: links_append)
  then show ?thesis
    using bf_insert_rest_all [OF h assms(2)] by (simp add: bf_swap_rest_def bf_end_def del: bf_insert_rest.simps)
qed

lemma bf_swap_rest_moves:
  assumes "bf_linked (ws @ z # zs) fs s" "bf_linked ys gs other" "ws \<noteq> []" "ys \<noteq> []"
  shows "if length ys + length (z # zs) \<le> bf_storage_size other
    then (\<exists>s' other'. bf_swap_rest (Some z) (Some (List.last ws)) (Some (List.last ys)) s other = Inr (s', other') \<and>
      bf_yields (Inr s') (bf_storage_size s) (bf_vals s ws) \<and>
      bf_yields (Inr other') (bf_storage_size other) (bf_vals other ys @ bf_vals s (z # zs)))
    else bf_swap_rest (Some z) (Some (List.last ws)) (Some (List.last ys)) s other = Inl Assert_failed"
proof -
  obtain us y where y: "ws = us @ [y]" using assms(3) by (cases ws rule: rev_cases) auto
  have l: "bf_linked (us @ y # z # zs) fs s" using assms(1) y by simp
  have n: "bf_numAllocated other \<noteq> 0" using assms(2,4) by (simp add: bf_linked_def)
  obtain t hs where t: "bf_erase_all_after (Some y) s = Inr t" "bf_linked ws hs t"
    "\<forall>i. i \<notin> set (z # zs) \<longrightarrow> bf_value t i = bf_value s i" "bf_storage_size t = bf_storage_size s"
    using bf_erase_all_after_linked [OF l] y by auto
  have "set ws \<inter> set (z # zs) = {}" using bf_linked_distinct [OF assms(1)] by auto
  then have v: "bf_vals t ws = bf_vals s ws" using t(3) by (auto intro!: map_cong)
  show ?thesis
  proof (cases "length ys + length (bf_vals s (z # zs)) \<le> bf_storage_size other")
    case True
    from bf_append_all_linked [OF assms(2) disjI2 True, of "Some (List.last ys)"] obtain u vs ks where
      "bf_append_all (bf_vals s (z # zs)) (Some (List.last ys), other) = Inr u" "bf_linked vs ks u"
      "bf_vals u vs = bf_vals other ys @ bf_vals s (z # zs)" "bf_storage_size u = bf_storage_size other" by blast
    then show ?thesis using t v True y
      by (auto simp: bf_swap_rest_append [OF assms(1) n] simp del: bf_append_all.simps list.map intro!: bf_yieldsI)
  next
    case False
    then show ?thesis using bf_append_all_full [OF assms(2) disjI2 False, of "Some (List.last ys)"]
      by (simp add: bf_swap_rest_append [OF assms(1) n] del: bf_append_all.simps list.map)
  qed
qed

text \<open>When nothing was swapped the rest would go behind a default-constructed iterator, at which \<open>node()\<close> asserts.\<close>

lemma bf_swap_rest_null:
  assumes "bf_linked (z # zs) fs s" "bf_linked [] gs other"
  shows "bf_swap_rest (Some z) None None s other = Inl Assert_failed"
proof -
  have "bf_deref s (Some z) = Inr (the (bf_value s z))"
    using assms(1) by (auto simp: bf_deref_def bf_read_def bf_linked_def bf_holds_def)
  then show ?thesis using bf_add_full(2) [OF assms(2)] bf_insert_after_null [OF assms(2)]
    by (cases "bf_storage_size other = 0") (simp_all add: bf_swap_rest_def bf_end_def)
qed

lemma bf_swap_pair:
  assumes "bf_linked xs fs a" "bf_linked ys gs b" "xs \<noteq> []" "ys \<noteq> []"
  shows "if length xs \<le> bf_storage_size b \<and> length ys \<le> bf_storage_size a
    then (\<exists>a' b'. bf_swap a b = Inr (a', b') \<and> bf_yields (Inr a') (bf_storage_size a) (bf_vals b ys) \<and>
      bf_yields (Inr b') (bf_storage_size b) (bf_vals a xs))
    else bf_swap a b = Inl Assert_failed"
proof -
  define n where "n = min (length xs) (length ys)"
  from bf_swap_common_lists [OF assms(1,2) n_def] obtain a1 b1 where c:
    "bf_linked xs fs a1" "bf_linked ys gs b1"
    "bf_storage_size a1 = bf_storage_size a" "bf_storage_size b1 = bf_storage_size b"
    "bf_vals a1 xs = take n (bf_vals b ys) @ drop n (bf_vals a xs)"
    "bf_vals b1 ys = take n (bf_vals a xs) @ drop n (bf_vals b ys)"
    "bf_swap a b = rbind (bf_swap_rest (if n < length xs then Some (xs ! n) else None)
        (if n = 0 then None else Some (xs ! (n - 1))) (if n = 0 then None else Some (ys ! (n - 1))) a1 b1) (\<lambda>(a', b').
      rbind (bf_swap_rest (if n < length ys then Some (ys ! n) else None)
        (if n = 0 then None else Some (ys ! (n - 1))) (if n = 0 then None else Some (xs ! (n - 1))) b' a') (\<lambda>(b', a'). Inr (a', b')))"
    by blast
  have le: "length xs \<le> bf_storage_size a" "length ys \<le> bf_storage_size b"
    using bf_linked_le assms(1,2) by blast+
  have n: "n \<noteq> 0" "n \<le> length xs" "n \<le> length ys" using assms(3,4) by (auto simp: n_def)
  have last: "List.last (take n zs) = zs ! (n - 1)" if "n \<le> length zs" for zs :: "nat list"
    using that n(1) by (cases zs) (auto simp: last_conv_nth min_absorb2)
  have rest: "bf_vals s (zs ! n # drop (Suc n) zs) = drop n (bf_vals s zs)" if "n < length zs" for s and zs :: "nat list"
    using that by (simp add: drop_map Cons_nth_drop_Suc)
  have size: "length (zs ! n # drop (Suc n) zs) = length zs - n" if "n < length zs" for zs :: "nat list"
    using that by (simp add: Suc_diff_Suc)
  consider "length xs = length ys" | "length xs < length ys" | "length ys < length xs" by linarith
  then show ?thesis
  proof cases
    case 1
    then have "n = length xs" "n = length ys" by (simp_all add: n_def)
    with c le 1 show ?thesis by (auto intro!: bf_yieldsI)
  next
    case 2
    then have nx: "n = length xs" by (simp add: n_def)
    have ys: "bf_linked (take n ys @ ys ! n # drop (Suc n) ys) gs b1" "take n ys \<noteq> []" "n < length ys"
      using c(2) n 2 nx assms(4) by (auto simp flip: take_at)
    have l: "List.last xs = xs ! (n - 1)" using last [of xs] nx by simp
    have v: "bf_vals b1 (take n ys) = bf_vals a xs" "bf_vals a1 xs @ drop n (bf_vals b1 ys) = bf_vals b ys"
      unfolding take_map [symmetric] c(5,6) using nx by simp_all
    have k: "length xs + (length ys - n) = length ys" using nx 2 by simp
    note r = bf_swap_rest_moves [OF ys(1) c(1) ys(2) assms(3), unfolded rest [OF ys(3)] size [OF ys(3)] last [OF n(3)] l v k c(3,4)]
    show ?thesis using r c(7) le n nx 2 by auto
  next
    case 3
    then have ny: "n = length ys" by (simp add: n_def)
    have xs: "bf_linked (take n xs @ xs ! n # drop (Suc n) xs) fs a1" "take n xs \<noteq> []" "n < length xs"
      using c(1) n 3 ny assms(3) by (auto simp flip: take_at)
    have l: "List.last ys = ys ! (n - 1)" using last [of ys] ny by simp
    have v: "bf_vals a1 (take n xs) = bf_vals b ys" "bf_vals b1 ys @ drop n (bf_vals a1 xs) = bf_vals a xs"
      unfolding take_map [symmetric] c(5,6) using ny by simp_all
    have k: "length ys + (length xs - n) = length xs" using ny 3 by simp
    note r = bf_swap_rest_moves [OF xs(1) c(2) xs(2) assms(4), unfolded rest [OF xs(3)] size [OF xs(3)] last [OF n(2)] l v k c(3,4)]
    show ?thesis using r c(7) le n ny 3 by auto
  qed
qed

lemma bf_swap_one_empty:
  assumes "bf_linked xs fs a" "bf_linked ys gs b" "(xs = []) \<noteq> (ys = [])"
  shows "bf_swap a b = Inl Assert_failed"
proof -
  define n where "n = min (length xs) (length ys)"
  have n: "n = 0" using assms(3) by (auto simp: n_def)
  from bf_swap_common_lists [OF assms(1,2) n_def] obtain a1 b1 where c:
    "bf_linked xs fs a1" "bf_linked ys gs b1"
    "bf_storage_size a1 = bf_storage_size a" "bf_storage_size b1 = bf_storage_size b"
    "bf_swap a b = rbind (bf_swap_rest (if n < length xs then Some (xs ! n) else None)
        (if n = 0 then None else Some (xs ! (n - 1))) (if n = 0 then None else Some (ys ! (n - 1))) a1 b1) (\<lambda>(a', b').
      rbind (bf_swap_rest (if n < length ys then Some (ys ! n) else None)
        (if n = 0 then None else Some (ys ! (n - 1))) (if n = 0 then None else Some (xs ! (n - 1))) b' a') (\<lambda>(b', a'). Inr (a', b')))"
    by blast
  show ?thesis
  proof (cases xs)
    case Nil
    then obtain y zs where ys: "ys = y # zs" using assms(3) by (cases ys) auto
    then show ?thesis using Nil c n bf_swap_rest_null [of y zs gs b1 fs a1] by simp
  next
    case (Cons x zs)
    then have "ys = []" using assms(3) by simp
    then show ?thesis using Cons c n bf_swap_rest_null [of x zs fs a1 gs b1] by simp
  qed
qed

lemma bf_swap_both_empty:
  assumes "bf_linked [] fs a" "bf_linked [] gs b"
  shows "bf_swap a b = Inr (a, b)"
  using bf_linked_links [OF assms(1)] bf_linked_links [OF assms(2)] by (simp add: bf_swap_def bf_begin_def)

text \<open>\<open>erase_slow\<close> does not destruct the value of the node it gives back.\<close>

lemma bf_erase_slow_no_destruct:
  assumes "bf_linked (xs @ y # ys) fs s"
  shows "\<exists>t. bf_erase_slow (Some y) s = Inr t \<and> y \<notin> set (bf_nodes t) \<and> bf_value t y = bf_value s y \<and> bf_value s y \<noteq> None"
proof -
  obtain t gs where t: "bf_erase_slow (Some y) s = Inr t" "bf_linked (xs @ ys) gs t"
    using bf_erase_slow_takes [OF assms] by (auto simp: bf_takes_def)
  have "bf_value t = bf_value s" using t(1) by (auto simp: bf_erase_slow_def bf_node_def bf_free_def rbind_Inr split: if_splits)
  then show ?thesis using t bf_linked_distinct [OF assms] bf_linked_values [OF assms] bf_linked_nodes [OF t(2)] by auto
qed

text \<open>\<open>operator<\<close> holds both ways for the lists 1 2 and 2 1, and does not tell which comes first.\<close>

lemma bf_less_both_ways:
  assumes "bf_inv (a :: nat bflist)" "bf_inv b" "bf_elems a = [1, 2]" "bf_elems b = [2, 1]"
  shows "bf_less a b = Inr True" "bf_less b a = Inr True"
  using bf_compare_elems(2) [OF assms(1,2)] bf_compare_elems(2) [OF assms(2,1)] assms(3,4)
  by (simp_all add: pointwise_less_def)

section \<open>Properties\<close>

text \<open>C22: a BoundedForwardList is a bounded sequence. Starting from an empty list over a storage of
  \<open>m\<close> nodes, every sequence of pushes, pops, insertions and erasures at a position reached by incrementing
  \<open>begin()\<close>, and of \<open>clear\<close> and \<open>assign\<close>, has the result the sequence of elements has: an assertion
  stops it when a value is added to a full list and when an element is inserted behind, or erased at, the end, and
  popping from an empty list and incrementing an iterator at the end follow the null pointer.\<close>

theorem forward_list_refines_sequence:
  "map_sum id bf_abs (run_ops bf_step ops (bf_new m)) = run_ops forward_step ops (m, [])"
  using bflist.run_simulates [OF bf_new_inv(1)] by (simp add: bf_new_inv(2))

text \<open>\<open>swap\<close> of two forward lists that both have elements exchanges the elements when they fit into
  each other's storage, and stops with the assertion when they do not; two empty lists stay as
  they are. When exactly one is empty the first insertion is at a default-constructed iterator and stops with the
  assertion of \<open>node()\<close>, whether or not the elements fit.\<close>

lemma forward_list_swap:
  assumes "bf_inv a" "bf_inv b"
  shows "if (bf_elems a = []) \<noteq> (bf_elems b = [])
    then bf_swap a b = Inl Assert_failed
    else if length (bf_elems a) \<le> bf_storage_size b \<and> length (bf_elems b) \<le> bf_storage_size a
    then (\<exists>a' b'. bf_swap a b = Inr (a', b') \<and> bf_inv a' \<and> bf_inv b' \<and>
      bf_abs a' = (bf_storage_size a, bf_elems b) \<and> bf_abs b' = (bf_storage_size b, bf_elems a))
    else bf_swap a b = Inl Assert_failed"
proof -
  obtain xs fs where a: "bf_linked xs fs a" "bf_elems a = bf_vals a xs" using assms(1) by (rule bf_inv_cases)
  obtain ys gs where b: "bf_linked ys gs b" "bf_elems b = bf_vals b ys" using assms(2) by (rule bf_inv_cases)
  consider "(xs = []) \<noteq> (ys = [])" | "xs = []" "ys = []" | "xs \<noteq> []" "ys \<noteq> []" by blast
  then show ?thesis
  proof cases
    case 1
    then show ?thesis using bf_swap_one_empty [OF a(1) b(1)] a(2) b(2) by auto
  next
    case 2
    then show ?thesis using bf_swap_both_empty [of fs a gs b] a b assms by (auto simp: bf_abs_def)
  next
    case 3
    then show ?thesis using bf_swap_pair [OF a(1) b(1)] a(2) b(2) by (auto simp: bf_yields_def bf_abs_def)
  qed
qed

lemma forward_list_swap_witness:
  "\<exists>a b a' b'. bf_elems a = [1 :: nat] \<and> bf_elems b = [2, 3] \<and> bf_swap a b = Inr (a', b') \<and>
    bf_abs a' = (4, [2, 3]) \<and> bf_abs b' = (2, [1])"
proof -
  have "run_ops forward_step [Forward_push_front (1 :: nat)] (4, []) = Inr (4, [1])"
    "run_ops forward_step [Forward_push_front (3 :: nat), Forward_push_front 2] (2, []) = Inr (2, [2, 3])" by simp_all
  then obtain a b where l: "bf_inv a" "bf_storage_size a = 4" "bf_elems a = [1 :: nat]"
    "bf_inv b" "bf_storage_size b = 2" "bf_elems b = [2, 3 :: nat]" by (metis bf_run_Inr)
  have "length (bf_elems a) \<le> bf_storage_size b \<and> length (bf_elems b) \<le> bf_storage_size a"
    "\<not> (bf_elems a = []) \<noteq> (bf_elems b = [])" using l by simp_all
  with forward_list_swap [OF l(1,4)] have "\<exists>a' b'. bf_swap a b = Inr (a', b') \<and> bf_inv a' \<and> bf_inv b' \<and>
      bf_abs a' = (bf_storage_size a, bf_elems b) \<and> bf_abs b' = (bf_storage_size b, bf_elems a)" by presburger
  with l show ?thesis by metis
qed

end
