(* ===== verification/Intrusive_List.thy ===== *)
theory Intrusive_List
  imports Linked Refinement
begin

text \<open>
  IntrusiveList (infra/util/IntrusiveList.hpp): a doubly linked list of objects that carry their own
  links. The objects lie in a memory that several lists share, each with a node; a list has a
  count, a pointer to its first node and an end node of its own, whose \<open>previous\<close> is the last node. The
  count is a \<open>size_t\<close> of 32 bits, since the code may count below zero.

  An object may only be in one list, and only once, which the code leaves to its callers; \<open>il_pre\<close>
  is what they owe. As long as they keep to it, a list follows the sequence of its nodes. Two cases
  in which the code does not are shown at the end: \<open>pop_back\<close> of the only element, and \<open>swap\<close>.
\<close>

section \<open>The memory and the lists\<close>

record 'a il_heap =
  il_next :: "nat \<Rightarrow> pointer"
  il_previous :: "nat \<Rightarrow> pointer"
  il_value :: "nat \<Rightarrow> 'a"

record ilist =
  il_numberOfElements :: u32
  il_beginNode :: pointer
  il_endNode :: nat

type_synonym 'a il_state = "ilist \<times> 'a il_heap"

text \<open>The constructor, for a list whose end node is at address \<open>e\<close>; the links of a node are null
  pointers when it is constructed.\<close>

definition il_node_init :: "nat \<Rightarrow> 'a il_heap \<Rightarrow> 'a il_heap" where
  "il_node_init i h = h\<lparr>il_next := (il_next h)(i := None), il_previous := (il_previous h)(i := None)\<rparr>"

definition il_new :: "nat \<Rightarrow> 'a il_heap \<Rightarrow> 'a il_state" where
  "il_new e h = (\<lparr>il_numberOfElements = 0, il_beginNode = Some e, il_endNode = e\<rparr>, il_node_init e h)"

definition il_size :: "ilist \<Rightarrow> u32" where
  "il_size l = il_numberOfElements l"

definition il_empty :: "ilist \<Rightarrow> bool" where
  "il_empty l = (il_numberOfElements l = 0)"

text \<open>References are addresses of nodes; the first and the last are not looked at.\<close>

definition il_front :: "ilist \<Rightarrow> nat result" where
  "il_front l = deref (il_beginNode l) Inr"

definition il_back :: "'a il_state \<Rightarrow> nat result" where
  "il_back s = (case s of (l, h) \<Rightarrow> deref (il_previous h (il_endNode l)) Inr)"

section \<open>Iterators\<close>

definition il_begin :: "ilist \<Rightarrow> pointer" where
  "il_begin l = il_beginNode l"

definition il_end :: "ilist \<Rightarrow> pointer" where
  "il_end l = Some (il_endNode l)"

definition il_deref :: "pointer \<Rightarrow> nat result" where
  "il_deref p = deref p Inr"

definition il_increment :: "'a il_heap \<Rightarrow> pointer \<Rightarrow> pointer result" where
  "il_increment h p = deref p (\<lambda>i. Inr (il_next h i))"

definition il_decrement :: "'a il_heap \<Rightarrow> pointer \<Rightarrow> pointer result" where
  "il_decrement h p = deref p (\<lambda>i. Inr (il_previous h i))"

definition il_iter_eq :: "pointer \<Rightarrow> pointer \<Rightarrow> bool" where
  "il_iter_eq p q = (p = q)"

text \<open>Going over \<open>[p, end())\<close> and collecting the nodes; and backwards, from \<open>rbegin()\<close> to \<open>rend()\<close>, where a
  reverse iterator shows the node before the one it stands at.\<close>

fun il_nodes_from :: "nat \<Rightarrow> 'a il_state \<Rightarrow> pointer \<Rightarrow> nat list result" where
  "il_nodes_from 0 s p = (if p = il_end (fst s) then Inr [] else Inl Diverges)"
| "il_nodes_from (Suc fuel) s p = (if p = il_end (fst s) then Inr [] else
     rbind (il_deref p) (\<lambda>i. rbind (il_increment (snd s) p) (\<lambda>q.
       rbind (il_nodes_from fuel s q) (\<lambda>xs. Inr (i # xs)))))"

fun il_reverse_from :: "nat \<Rightarrow> 'a il_state \<Rightarrow> pointer \<Rightarrow> nat list result" where
  "il_reverse_from 0 s p = (if p = il_begin (fst s) then Inr [] else Inl Diverges)"
| "il_reverse_from (Suc fuel) s p = (if p = il_begin (fst s) then Inr [] else
     rbind (il_decrement (snd s) p) (\<lambda>q. rbind (il_deref q) (\<lambda>i.
       rbind (il_reverse_from fuel s q) (\<lambda>xs. Inr (i # xs)))))"

text \<open>\<open>has_element\<close> compares addresses and stops at the first that is equal.\<close>

fun il_has_from :: "nat \<Rightarrow> 'a il_state \<Rightarrow> nat \<Rightarrow> pointer \<Rightarrow> bool result" where
  "il_has_from 0 s v p = (if p = il_end (fst s) then Inr False else Inl Diverges)"
| "il_has_from (Suc fuel) s v p = (if p = il_end (fst s) then Inr False else
     rbind (il_deref p) (\<lambda>i. if i = v then Inr True else
       rbind (il_increment (snd s) p) (il_has_from fuel s v)))"

definition il_has_element :: "nat \<Rightarrow> 'a il_state \<Rightarrow> nat \<Rightarrow> bool result" where
  "il_has_element fuel s v = il_has_from fuel s v (il_begin (fst s))"

section \<open>Adding and removing elements\<close>

definition il_push_front :: "nat \<Rightarrow> 'a il_state \<Rightarrow> 'a il_state result" where
  "il_push_front node s = (case s of (l, h) \<Rightarrow>
     let h = h\<lparr>il_next := (il_next h)(node := il_beginNode l), il_previous := (il_previous h)(node := None)\<rparr>;
         h = (case il_next h node of
             Some n \<Rightarrow> h\<lparr>il_previous := (il_previous h)(n := Some node)\<rparr>
           | None \<Rightarrow> h)
     in Inr (l\<lparr>il_beginNode := Some node, il_numberOfElements := il_numberOfElements l + 1\<rparr>, h))"

definition il_push_back :: "nat \<Rightarrow> 'a il_state \<Rightarrow> 'a il_state result" where
  "il_push_back node s = (case s of (l, h) \<Rightarrow>
     let e = il_endNode l;
         h = h\<lparr>il_next := (il_next h)(node := Some e), il_previous := (il_previous h)(node := il_previous h e)\<rparr>;
         (l, h) = (case il_previous h node of
             Some p \<Rightarrow> (l, h\<lparr>il_next := (il_next h)(p := Some node)\<rparr>)
           | None \<Rightarrow> (l\<lparr>il_beginNode := Some node\<rparr>, h))
     in Inr (l\<lparr>il_numberOfElements := il_numberOfElements l + 1\<rparr>,
          h\<lparr>il_previous := (il_previous h)(e := Some node)\<rparr>))"

definition il_pop_front :: "'a il_state \<Rightarrow> 'a il_state result" where
  "il_pop_front s = (case s of (l, h) \<Rightarrow> deref (il_beginNode l) (\<lambda>erasingNode.
     deref (il_next h erasingNode) (\<lambda>b.
       let h = h\<lparr>il_previous := (il_previous h)(b := None)\<rparr>;
           h = h\<lparr>il_next := (il_next h)(erasingNode := None)\<rparr>
       in Inr (l\<lparr>il_beginNode := Some b, il_numberOfElements := il_numberOfElements l - 1\<rparr>, h))))"

definition il_pop_back :: "'a il_state \<Rightarrow> 'a il_state result" where
  "il_pop_back s = (case s of (l, h) \<Rightarrow>
     let e = il_endNode l
     in deref (il_previous h e) (\<lambda>erasingNode.
       let h = h\<lparr>il_previous := (il_previous h)(e := il_previous h erasingNode)\<rparr>;
           h = (case il_previous h e of
               Some p \<Rightarrow> h\<lparr>il_next := (il_next h)(p := Some e)\<rparr>
             | None \<Rightarrow> h);
           h = h\<lparr>il_previous := (il_previous h)(erasingNode := None)\<rparr>
       in Inr (l\<lparr>il_numberOfElements := il_numberOfElements l - 1\<rparr>, h)))"

definition il_insert :: "pointer \<Rightarrow> nat \<Rightarrow> 'a il_state \<Rightarrow> 'a il_state result" where
  "il_insert position node s = (case s of (l, h) \<Rightarrow> deref position (\<lambda>p.
     let h = h\<lparr>il_previous := (il_previous h)(node := il_previous h p), il_next := (il_next h)(node := position)\<rparr>;
         h = h\<lparr>il_previous := (il_previous h)(p := Some node)\<rparr>;
         (l, h) = (case il_previous h node of
             Some q \<Rightarrow> (l, h\<lparr>il_next := (il_next h)(q := Some node)\<rparr>)
           | None \<Rightarrow> (l\<lparr>il_beginNode := Some node\<rparr>, h))
     in Inr (l\<lparr>il_numberOfElements := il_numberOfElements l + 1\<rparr>, h)))"

text \<open>A node with no previous node that is not the first is in no list, and \<open>erase\<close> returns.\<close>

definition il_unlink :: "nat \<Rightarrow> 'a il_state \<Rightarrow> 'a il_state result" where
  "il_unlink node s = (case s of (l, h) \<Rightarrow> deref (il_next h node) (\<lambda>n.
     let h = h\<lparr>il_previous := (il_previous h)(n := il_previous h node)\<rparr>;
         h = h\<lparr>il_previous := (il_previous h)(node := None), il_next := (il_next h)(node := None)\<rparr>
     in Inr (l\<lparr>il_numberOfElements := il_numberOfElements l - 1\<rparr>, h)))"

definition il_erase :: "nat \<Rightarrow> 'a il_state \<Rightarrow> 'a il_state result" where
  "il_erase node s = (case s of (l, h) \<Rightarrow> (case il_previous h node of
     Some p \<Rightarrow> il_unlink node (l, h\<lparr>il_next := (il_next h)(p := il_next h node)\<rparr>)
   | None \<Rightarrow> if il_beginNode l \<noteq> Some node then Inr (l, h)
       else il_unlink node (l\<lparr>il_beginNode := il_next h node\<rparr>, h)))"

lemma il_pop_front_smaller:
  "il_numberOfElements (fst s) \<noteq> 0 \<Longrightarrow> il_pop_front s = Inr t \<Longrightarrow>
   unat (il_numberOfElements (fst t)) < unat (il_numberOfElements (fst s))"
  by (auto simp: il_pop_front_def Let_def deref_Inr measure_unat split: prod.splits)

function il_clear :: "'a il_state \<Rightarrow> 'a il_state result" where
  "il_clear s = (if il_empty (fst s) then Inr s else
     (case il_pop_front s of Inl e \<Rightarrow> Inl e | Inr t \<Rightarrow> il_clear t))"
  by pat_completeness auto
termination
  by (relation "measure (\<lambda>s. unat (il_numberOfElements (fst s)))") (auto simp: il_empty_def il_pop_front_smaller)

declare il_clear.simps [simp del]

fun il_push_all :: "nat list \<Rightarrow> 'a il_state \<Rightarrow> 'a il_state result" where
  "il_push_all [] s = Inr s"
| "il_push_all (v # vs) s = rbind (il_push_back v s) (il_push_all vs)"

definition il_assign :: "nat list \<Rightarrow> 'a il_state \<Rightarrow> 'a il_state result" where
  "il_assign vs s = rbind (il_clear s) (il_push_all vs)"

definition il_construct_range :: "nat \<Rightarrow> nat list \<Rightarrow> 'a il_heap \<Rightarrow> 'a il_state result" where
  "il_construct_range e vs h = il_assign vs (il_new e h)"

section \<open>Moving and swapping\<close>

definition il_move_assign :: "ilist \<Rightarrow> 'a il_state \<Rightarrow> (ilist \<times> 'a il_state) result" where
  "il_move_assign other s = rbind (il_clear s) (\<lambda>(l, h).
     let l = l\<lparr>il_numberOfElements := il_numberOfElements other\<rparr>;
         l = (if il_beginNode other \<noteq> Some (il_endNode other) then l\<lparr>il_beginNode := il_beginNode other\<rparr> else l);
         h = h\<lparr>il_previous := (il_previous h)(il_endNode l := il_previous h (il_endNode other))\<rparr>;
         h = (case il_previous h (il_endNode l) of
             Some p \<Rightarrow> h\<lparr>il_next := (il_next h)(p := Some (il_endNode l))\<rparr>
           | None \<Rightarrow> h);
         other = other\<lparr>il_beginNode := Some (il_endNode other)\<rparr>;
         h = h\<lparr>il_previous := (il_previous h)(il_endNode other := None)\<rparr>
     in Inr (other\<lparr>il_numberOfElements := 0\<rparr>, l, h))"

definition il_move_construct :: "nat \<Rightarrow> ilist \<Rightarrow> 'a il_heap \<Rightarrow> (ilist \<times> 'a il_state) result" where
  "il_move_construct e other h = il_move_assign other (il_new e h)"

definition il_destroy :: "'a il_state \<Rightarrow> 'a il_state result" where
  "il_destroy s = il_clear s"

text \<open>Copying a node copies nothing, so that an object may be copied while it is in a list: the copy
  constructor leaves the new node without links, the assignment leaves the node as it is. \<open>std::swap\<close> of two
  nodes is a copy and two assignments, with a node \<open>tmp\<close> of its own.\<close>

definition il_node_copy :: "nat \<Rightarrow> nat \<Rightarrow> 'a il_heap \<Rightarrow> 'a il_heap" where
  "il_node_copy i other h = il_node_init i h"

definition il_node_assign :: "nat \<Rightarrow> nat \<Rightarrow> 'a il_heap \<Rightarrow> 'a il_heap" where
  "il_node_assign i other h = h"

definition il_swap_nodes :: "nat \<Rightarrow> nat \<Rightarrow> nat \<Rightarrow> 'a il_heap \<Rightarrow> 'a il_heap" where
  "il_swap_nodes tmp i j h = il_node_assign j tmp (il_node_assign i j (il_node_copy tmp i h))"

text \<open>The end of a list is joined to its last node again, or the list to its end.\<close>

definition il_rejoin :: "ilist \<Rightarrow> 'a il_heap \<Rightarrow> 'a il_state" where
  "il_rejoin l h = (case il_previous h (il_endNode l) of
     Some p \<Rightarrow> (l, h\<lparr>il_next := (il_next h)(p := Some (il_endNode l))\<rparr>)
   | None \<Rightarrow> (l\<lparr>il_beginNode := Some (il_endNode l)\<rparr>, h))"

definition il_swap :: "nat \<Rightarrow> ilist \<Rightarrow> ilist \<Rightarrow> 'a il_heap \<Rightarrow> ilist \<times> ilist \<times> 'a il_heap" where
  "il_swap tmp a b h =
    (let h = il_swap_nodes tmp (il_endNode a) (il_endNode b) h;
         (a, b) = (a\<lparr>il_beginNode := il_beginNode b\<rparr>, b\<lparr>il_beginNode := il_beginNode a\<rparr>);
         (a, b) = (a\<lparr>il_numberOfElements := il_numberOfElements b\<rparr>, b\<lparr>il_numberOfElements := il_numberOfElements a\<rparr>);
         (a, h) = il_rejoin a h;
         (b, h) = il_rejoin b h
     in (a, b, h))"

section \<open>Comparing\<close>

fun il_equal_from :: "nat \<Rightarrow> ('a::linorder) il_heap \<Rightarrow> ilist \<Rightarrow> pointer \<Rightarrow> pointer \<Rightarrow> bool result" where
  "il_equal_from 0 h a i j = (if i = il_end a then Inr True else Inl Diverges)"
| "il_equal_from (Suc fuel) h a i j = (if i = il_end a then Inr True else
     rbind (il_deref i) (\<lambda>x. rbind (il_deref j) (\<lambda>y. if il_value h x \<noteq> il_value h y then Inr False else
       rbind (il_increment h i) (\<lambda>i. rbind (il_increment h j) (\<lambda>j. il_equal_from fuel h a i j)))))"

definition il_eq :: "nat \<Rightarrow> ('a::linorder) il_heap \<Rightarrow> ilist \<Rightarrow> ilist \<Rightarrow> bool result" where
  "il_eq fuel h a b = (if il_size a = il_size b
     then il_equal_from fuel h a (il_begin a) (il_begin b) else Inr False)"

fun il_less_from :: "nat \<Rightarrow> ('a::linorder) il_heap \<Rightarrow> ilist \<Rightarrow> ilist \<Rightarrow> pointer \<Rightarrow> pointer \<Rightarrow> bool result" where
  "il_less_from 0 h a b i j = (if i = il_end a then Inr (j \<noteq> il_end b) else Inl Diverges)"
| "il_less_from (Suc fuel) h a b i j =
     (if i = il_end a then Inr (j \<noteq> il_end b) else if j = il_end b then Inr False else
     rbind (il_deref i) (\<lambda>x. rbind (il_deref j) (\<lambda>y.
       if il_value h x < il_value h y then Inr True else if il_value h y < il_value h x then Inr False else
       rbind (il_increment h i) (\<lambda>i. rbind (il_increment h j) (\<lambda>j. il_less_from fuel h a b i j)))))"

definition il_less :: "nat \<Rightarrow> ('a::linorder) il_heap \<Rightarrow> ilist \<Rightarrow> ilist \<Rightarrow> bool result" where
  "il_less fuel h a b = il_less_from fuel h a b (il_begin a) (il_begin b)"

definition il_not_eq :: "nat \<Rightarrow> ('a::linorder) il_heap \<Rightarrow> ilist \<Rightarrow> ilist \<Rightarrow> bool result" where
  "il_not_eq fuel h a b = rbind (il_eq fuel h a b) (\<lambda>r. Inr (\<not> r))"

definition il_less_eq :: "nat \<Rightarrow> ('a::linorder) il_heap \<Rightarrow> ilist \<Rightarrow> ilist \<Rightarrow> bool result" where
  "il_less_eq fuel h a b = rbind (il_less fuel h b a) (\<lambda>r. Inr (\<not> r))"

definition il_greater :: "nat \<Rightarrow> ('a::linorder) il_heap \<Rightarrow> ilist \<Rightarrow> ilist \<Rightarrow> bool result" where
  "il_greater fuel h a b = il_less fuel h b a"

definition il_greater_eq :: "nat \<Rightarrow> ('a::linorder) il_heap \<Rightarrow> ilist \<Rightarrow> ilist \<Rightarrow> bool result" where
  "il_greater_eq fuel h a b = rbind (il_less fuel h a b) (\<lambda>r. Inr (\<not> r))"

section \<open>How a list lies in the memory\<close>

definition il_linked :: "nat list \<Rightarrow> 'a il_state \<Rightarrow> bool" where
  "il_linked xs s \<longleftrightarrow> (case s of (l, h) \<Rightarrow>
     chain (il_next h) (il_previous h) (il_beginNode l) None xs (Some (il_endNode l)) (il_previous h (il_endNode l)) \<and>
     distinct (il_endNode l # xs) \<and> il_next h (il_endNode l) = None \<and>
     il_numberOfElements l = of_nat (length xs) \<and> length xs < 2 ^ 32)"

text \<open>\<open>il_rep e F g xs\<close>: the list with the end node \<open>e\<close> runs through the nodes \<open>xs\<close>. \<open>F\<close> are nodes of others, which
  are as in the memory \<open>g\<close>; the nodes that are neither in the list nor of others are in no list, so that
  their \<open>previous\<close> is a null pointer.\<close>

definition il_rep :: "nat \<Rightarrow> nat set \<Rightarrow> 'a il_heap \<Rightarrow> nat list \<Rightarrow> 'a il_state \<Rightarrow> bool" where
  "il_rep e F g xs s \<longleftrightarrow> il_linked xs s \<and> il_endNode (fst s) = e \<and> set (e # xs) \<inter> F = {} \<and>
     (\<forall>i\<in>F. il_next (snd s) i = il_next g i \<and> il_previous (snd s) i = il_previous g i) \<and>
     dom (il_previous (snd s)) \<subseteq> set (e # xs) \<union> F \<and> il_value (snd s) = il_value g"

lemmas il_rep_defs = il_rep_def il_linked_def

lemma il_rep_cases:
  assumes "il_rep e F g xs s"
  obtains b nx pv where "s = (\<lparr>il_numberOfElements = of_nat (length xs), il_beginNode = b, il_endNode = e\<rparr>,
      \<lparr>il_next = nx, il_previous = pv, il_value = il_value g\<rparr>)"
    "chain nx pv b None xs (Some e) (pv e)" "distinct (e # xs)" "nx e = None" "length xs < 2 ^ 32"
    "set (e # xs) \<inter> F = {}" "\<And>i. i \<in> F \<Longrightarrow> nx i = il_next g i" "\<And>i. i \<in> F \<Longrightarrow> pv i = il_previous g i"
    "dom pv \<subseteq> set (e # xs) \<union> F"
proof -
  obtain l h where s: "s = (l, h)" by (cases s)
  show ?thesis
    by (rule that [of "il_beginNode l" "il_next h" "il_previous h"])
      (use assms in \<open>auto simp: il_rep_defs s intro!: ilist.equality il_heap.equality\<close>)
qed

lemma il_repI:
  assumes "chain nx pv b None xs (Some e) (pv e)" "distinct (e # xs)" "nx e = None" "length xs < 2 ^ 32"
    "set (e # xs) \<inter> F = {}" "\<And>i. i \<in> F \<Longrightarrow> nx i = il_next g i" "\<And>i. i \<in> F \<Longrightarrow> pv i = il_previous g i"
    "dom pv \<subseteq> set (e # xs) \<union> F" "c = of_nat (length xs)" "vl = il_value g"
  shows "il_rep e F g xs (\<lparr>il_numberOfElements = c, il_beginNode = b, il_endNode = e\<rparr>,
      \<lparr>il_next = nx, il_previous = pv, il_value = vl\<rparr>)"
  using assms by (auto simp: il_rep_defs)

lemma dom_subsetD: "dom m \<subseteq> A \<Longrightarrow> m a = Some b \<Longrightarrow> a \<in> A"
  by auto

lemma il_push_front_rep:
  assumes "il_rep e F g xs s" "v \<notin> set (e # xs) \<union> F" "length xs + 1 < 2 ^ 32"
  shows "\<exists>t. il_push_front v s = Inr t \<and> il_rep e F g (v # xs) t"
proof -
  from assms(1) show ?thesis
  proof (cases rule: il_rep_cases)
    case (1 b nx pv)
    then show ?thesis using assms(2,3)
      by (cases xs) (auto simp: il_push_front_def Let_def intro!: il_repI split: if_splits dest: dom_subsetD)
  qed
qed

lemma il_push_back_rep:
  assumes "il_rep e F g xs s" "v \<notin> set (e # xs) \<union> F" "length xs + 1 < 2 ^ 32"
  shows "\<exists>t. il_push_back v s = Inr t \<and> il_rep e F g (xs @ [v]) t"
  using assms(1)
proof (cases rule: il_rep_cases)
  case (1 b nx pv)
  then show ?thesis using assms(2,3)
    by (cases xs rule: rev_cases) (auto simp: il_push_back_def Let_def chain_middle intro!: il_repI split: if_splits dest: dom_subsetD)
qed

lemma il_pop_front_rep:
  assumes "il_rep e F g (x # xs) s"
  shows "\<exists>t. il_pop_front s = Inr t \<and> il_rep e F g xs t"
  using assms(1)
proof (cases rule: il_rep_cases)
  case (1 b nx pv)
  then show ?thesis by (cases xs) (auto simp: il_pop_front_def Let_def intro!: il_repI split: if_splits dest: dom_subsetD)
qed

text \<open>\<open>pop_back\<close> needs a node that stays.\<close>

lemma il_pop_back_rep:
  assumes "il_rep e F g (xs @ [y, z]) s"
  shows "\<exists>t. il_pop_back s = Inr t \<and> il_rep e F g (xs @ [y]) t"
  using assms(1)
proof (cases rule: il_rep_cases)
  case (1 b nx pv)
  then show ?thesis by (auto simp: il_pop_back_def Let_def chain_middle intro!: il_repI split: if_splits dest: dom_subsetD)
qed

lemma il_insert_rep:
  assumes "il_rep e F g (xs @ y # ys) s" "v \<notin> set (e # xs @ y # ys) \<union> F" "length (xs @ y # ys) + 1 < 2 ^ 32"
  shows "\<exists>t. il_insert (Some y) v s = Inr t \<and> il_rep e F g (xs @ v # y # ys) t"
  using assms(1)
proof (cases rule: il_rep_cases)
  case (1 b nx pv)
  then have "chain nx pv b None xs (Some y) (pv y)" "chain nx pv (nx y) (Some y) ys (Some e) (pv e)"
    by (auto simp: chain_middle)
  note c = this 1(3-9) assms(2)
  show ?thesis
  proof (cases xs rule: rev_cases)
    case Nil
    then have "il_insert (Some y) v s = Inr (\<lparr>il_numberOfElements = of_nat (length (xs @ y # ys)) + 1, il_beginNode = Some v,
        il_endNode = e\<rparr>, \<lparr>il_next = nx(v := Some y), il_previous = pv(v := None, y := Some v), il_value = il_value g\<rparr>)"
      using c 1(1) by (auto simp: il_insert_def Let_def)
    moreover have "il_rep e F g (xs @ v # y # ys) (\<lparr>il_numberOfElements = of_nat (length (xs @ y # ys)) + 1, il_beginNode = Some v,
        il_endNode = e\<rparr>, \<lparr>il_next = nx(v := Some y), il_previous = pv(v := None, y := Some v), il_value = il_value g\<rparr>)"
      by (rule il_repI) (use c Nil assms(3) in \<open>auto\<close>)
    ultimately show ?thesis by simp
  next
    case (snoc ws x)
    then have "il_insert (Some y) v s = Inr (\<lparr>il_numberOfElements = of_nat (length (xs @ y # ys)) + 1, il_beginNode = b,
        il_endNode = e\<rparr>, \<lparr>il_next = nx(v := Some y, x := Some v), il_previous = pv(v := Some x, y := Some v), il_value = il_value g\<rparr>)"
      using c 1(1) by (auto simp: il_insert_def Let_def chain_snoc)
    moreover have "il_rep e F g (xs @ v # y # ys) (\<lparr>il_numberOfElements = of_nat (length (xs @ y # ys)) + 1, il_beginNode = b,
        il_endNode = e\<rparr>, \<lparr>il_next = nx(v := Some y, x := Some v), il_previous = pv(v := Some x, y := Some v), il_value = il_value g\<rparr>)"
      by (rule il_repI) (use c snoc assms(3) in \<open>auto simp: chain_middle\<close>)
    ultimately show ?thesis by simp
  qed
qed

lemma il_insert_end_rep:
  assumes "il_rep e F g xs s" "v \<notin> set (e # xs) \<union> F" "length xs + 1 < 2 ^ 32"
  shows "\<exists>t. il_insert (Some e) v s = Inr t \<and> il_rep e F g (xs @ [v]) t"
  using assms(1)
proof (cases rule: il_rep_cases)
  case (1 b nx pv)
  then show ?thesis using assms(2,3)
    by (cases xs rule: rev_cases) (auto simp: il_insert_def Let_def chain_middle intro!: il_repI split: if_splits dest: dom_subsetD)
qed

text \<open>Erasing \<open>v\<close> joins the node or the list's start before it to the node \<open>n\<close> behind it, which may be
  the end node.\<close>

lemma il_erase_rep:
  assumes "il_rep e F g (xs @ v # ys) s"
  shows "\<exists>t. il_erase v s = Inr t \<and> il_rep e F g (xs @ ys) t"
  using assms(1)
proof (cases rule: il_rep_cases)
  case (1 b nx pv)
  define n where "n = (if ys = [] then e else hd ys)"
  have c: "chain nx pv b None xs (Some v) (pv v)" "chain nx pv (Some n) (Some v) ys (Some e) (pv e)" "nx v = Some n"
    "n \<noteq> v" "n \<notin> set xs" "pv n = Some v"
    using 1 by (cases ys; auto simp: chain_middle n_def)+
  note c = c 1(3-9)
  show ?thesis
  proof (cases xs rule: rev_cases)
    case Nil
    let ?t = "(\<lparr>il_numberOfElements = of_nat (length (xs @ v # ys)) - 1, il_beginNode = Some n, il_endNode = e\<rparr>,
        \<lparr>il_next = nx(v := None), il_previous = pv(n := None, v := None), il_value = il_value g\<rparr>)"
    have "il_erase v s = Inr ?t" using Nil c 1(1) by (auto simp: il_erase_def il_unlink_def Let_def)
    moreover have "il_rep e F g (xs @ ys) ?t"
      by (rule il_repI; use c Nil in \<open>cases ys; auto simp: n_def dest: dom_subsetD split: if_splits\<close>)
    ultimately show ?thesis by blast
  next
    case (snoc ws x)
    let ?t = "(\<lparr>il_numberOfElements = of_nat (length (xs @ v # ys)) - 1, il_beginNode = b, il_endNode = e\<rparr>,
        \<lparr>il_next = nx(x := Some n, v := None), il_previous = pv(n := Some x, v := None), il_value = il_value g\<rparr>)"
    have "il_erase v s = Inr ?t" using snoc c 1(1) by (auto simp: il_erase_def il_unlink_def Let_def chain_snoc)
    moreover have "il_rep e F g (xs @ ys) ?t"
      by (rule il_repI; use c snoc in \<open>cases ys; auto simp: n_def chain_middle dest: dom_subsetD split: if_splits\<close>)
    ultimately show ?thesis by blast
  qed
qed

text \<open>A node that is in no list is left alone.\<close>

lemma il_erase_unlinked:
  assumes "il_rep e F g xs s" "v \<notin> set (e # xs) \<union> F"
  shows "il_erase v s = Inr s"
  using assms(1)
proof (cases rule: il_rep_cases)
  case (1 b nx pv)
  then have "pv v = None" "b \<noteq> Some v" using assms(2) by (cases xs; auto dest: dom_subsetD)+
  then show ?thesis using 1 by (simp add: il_erase_def)
qed

lemma of_nat_u32_eq_0: "n < 2 ^ 32 \<Longrightarrow> (of_nat n :: u32) = 0 \<longleftrightarrow> n = 0"
  using unat_of_nat_u32 [of n] by (auto simp flip: unat_eq_0)

lemma il_rep_facts:
  assumes "il_rep e F g xs s"
  shows "il_empty (fst s) \<longleftrightarrow> xs = []" "unat (il_size (fst s)) = length xs" "il_endNode (fst s) = e"
    "links (il_next (snd s)) (il_begin (fst s)) xs (Some e)" "length xs < 2 ^ 32"
    "links (il_previous (snd s)) (il_previous (snd s) e) (rev xs) None" "e \<notin> set xs" "distinct xs"
  using assms by (auto simp: il_rep_defs il_empty_def il_size_def il_begin_def of_nat_u32_eq_0
      dest: chain_links chain_links_back)

lemma il_clear_rep: "il_rep e F g xs s \<Longrightarrow> \<exists>t. il_clear s = Inr t \<and> il_rep e F g [] t"
proof (induction xs arbitrary: s)
  case Nil
  then show ?case using il_rep_facts(1) [OF Nil] by (simp add: il_clear.simps)
next
  case (Cons x xs)
  obtain t where "il_pop_front s = Inr t" "il_rep e F g xs t" using il_pop_front_rep [OF Cons.prems] by blast
  then show ?case using Cons.IH [of t] il_rep_facts(1) [OF Cons.prems] by (subst il_clear.simps) simp
qed

lemma il_push_all_rep:
  assumes "il_rep e F g xs s" "distinct (xs @ vs)" "set vs \<inter> (insert e F) = {}" "length (xs @ vs) < 2 ^ 32"
  shows "\<exists>t. il_push_all vs s = Inr t \<and> il_rep e F g (xs @ vs) t"
  using assms
proof (induction vs arbitrary: xs s)
  case (Cons v vs)
  then obtain t where "il_push_back v s = Inr t" "il_rep e F g (xs @ [v]) t"
    using il_push_back_rep [of e F g xs s v] by auto
  then show ?case using Cons.IH [of "xs @ [v]" t] Cons.prems by auto
qed simp

lemma il_assign_rep:
  assumes "il_rep e F g xs s" "distinct vs" "set vs \<inter> (insert e F) = {}" "length vs < 2 ^ 32"
  shows "\<exists>t. il_assign vs s = Inr t \<and> il_rep e F g vs t"
proof -
  obtain u where "il_clear s = Inr u" "il_rep e F g [] u" using il_clear_rep [OF assms(1)] by blast
  then show ?thesis using il_push_all_rep [of e F g "[]" u vs] assms(2-4) by (simp add: il_assign_def)
qed

lemma il_new_rep:
  assumes "e \<notin> F" "dom (il_previous h) \<subseteq> insert e F"
  shows "il_rep e F h [] (il_new e h)"
  using assms by (auto simp: il_rep_defs il_new_def il_node_init_def)

section \<open>Going over a list\<close>

lemma il_nodes_from_links:
  "links (il_next (snd s)) p xs (il_end (fst s)) \<Longrightarrow> il_endNode (fst s) \<notin> set xs \<Longrightarrow> length xs \<le> fuel \<Longrightarrow>
   il_nodes_from fuel s p = Inr xs"
proof (induction xs arbitrary: p fuel)
  case Nil
  then show ?case by (cases fuel) auto
next
  case (Cons x xs)
  then show ?case by (cases fuel) (auto simp: il_end_def il_deref_def il_increment_def)
qed

lemma il_reverse_from_links:
  "links (il_previous (snd s)) (il_previous (snd s) q) (rev xs) None \<Longrightarrow>
   il_begin (fst s) = (if xs = [] then Some q else Some (hd xs)) \<Longrightarrow> distinct (q # xs) \<Longrightarrow> length xs \<le> fuel \<Longrightarrow>
   il_reverse_from fuel s (Some q) = Inr (rev xs)"
proof (induction xs arbitrary: q fuel rule: rev_induct)
  case Nil
  then show ?case by (cases fuel) auto
next
  case (snoc x xs)
  from snoc.prems(4) obtain k where k: "fuel = Suc k" "length xs \<le> k" by (cases fuel) auto
  have "il_begin (fst s) = (if xs = [] then Some x else Some (hd xs))" using snoc.prems(2) by (cases xs) auto
  then have "il_reverse_from k s (Some x) = Inr (rev xs)"
    using snoc.prems(1,3) k(2) by (intro snoc.IH) auto
  moreover have "il_begin (fst s) \<noteq> Some q" using snoc.prems(2,3) by (cases xs) auto
  ultimately show ?case using snoc.prems(1) k by (auto simp: il_decrement_def il_deref_def)
qed

lemma il_has_from_links:
  "links (il_next (snd s)) p xs (il_end (fst s)) \<Longrightarrow> il_endNode (fst s) \<notin> set xs \<Longrightarrow> length xs \<le> fuel \<Longrightarrow>
   il_has_from fuel s v p = Inr (v \<in> set xs)"
proof (induction xs arbitrary: p fuel)
  case Nil
  then show ?case by (cases fuel) auto
next
  case (Cons x xs)
  then show ?case by (cases fuel) (auto simp: il_end_def il_deref_def il_increment_def)
qed

lemma il_rep_observed:
  assumes "il_rep e F g xs s"
  shows "il_nodes_from (length xs) s (il_begin (fst s)) = Inr xs"
    "il_reverse_from (length xs) s (il_end (fst s)) = Inr (rev xs)"
    "il_has_element (length xs) s v = Inr (v \<in> set xs)"
    "unat (il_size (fst s)) = length xs"
proof -
  note f = il_rep_facts [OF assms]
  have l: "links (il_next (snd s)) (il_begin (fst s)) xs (il_end (fst s))" "il_endNode (fst s) \<notin> set xs"
    using f by (simp_all add: il_end_def)
  then show "il_nodes_from (length xs) s (il_begin (fst s)) = Inr xs" by (simp add: il_nodes_from_links)
  from l show "il_has_element (length xs) s v = Inr (v \<in> set xs)"
    by (simp add: il_has_element_def il_has_from_links)
  have "il_begin (fst s) = (if xs = [] then Some e else Some (hd xs))" using f(4) by (cases xs) auto
  then show "il_reverse_from (length xs) s (il_end (fst s)) = Inr (rev xs)"
    unfolding il_end_def f(3) using f(6,7,8) by (intro il_reverse_from_links) simp_all
  show "unat (il_size (fst s)) = length xs" using f by simp
qed

section \<open>The operations as steps\<close>

fun il_advance :: "nat \<Rightarrow> 'a il_heap \<Rightarrow> pointer \<Rightarrow> pointer result" where
  "il_advance 0 h p = Inr p"
| "il_advance (Suc k) h p = rbind (il_increment h p) (il_advance k h)"

datatype il_op =
    Il_push_front nat | Il_push_back nat | Il_pop_front | Il_pop_back
  | Il_insert nat nat | Il_erase nat | Il_clear | Il_assign "nat list"

fun il_step :: "il_op \<Rightarrow> 'a il_state \<Rightarrow> 'a il_state result" where
  "il_step (Il_push_front v) s = il_push_front v s"
| "il_step (Il_push_back v) s = il_push_back v s"
| "il_step Il_pop_front s = il_pop_front s"
| "il_step Il_pop_back s = il_pop_back s"
| "il_step (Il_insert k v) s = rbind (il_advance k (snd s) (il_begin (fst s))) (\<lambda>p. il_insert p v s)"
| "il_step (Il_erase v) s = il_erase v s"
| "il_step Il_clear s = il_clear s"
| "il_step (Il_assign vs) s = il_assign vs s"

text \<open>What an operation does to the sequence of nodes, and what the caller owes: an object is not
  linked twice nor in another list, nothing is taken from an empty list, and \<open>pop_back\<close> does not take the
  only element. Erasing an object that is in no list is allowed.\<close>

fun il_spec :: "il_op \<Rightarrow> nat list \<Rightarrow> nat list" where
  "il_spec (Il_push_front v) xs = v # xs"
| "il_spec (Il_push_back v) xs = xs @ [v]"
| "il_spec Il_pop_front xs = tl xs"
| "il_spec Il_pop_back xs = butlast xs"
| "il_spec (Il_insert k v) xs = take k xs @ v # drop k xs"
| "il_spec (Il_erase v) xs = remove1 v xs"
| "il_spec Il_clear xs = []"
| "il_spec (Il_assign vs) xs = vs"

fun il_pre :: "nat \<Rightarrow> nat set \<Rightarrow> il_op \<Rightarrow> nat list \<Rightarrow> bool" where
  "il_pre e F (Il_push_front v) xs = (v \<notin> set (e # xs) \<union> F \<and> length xs + 1 < 2 ^ 32)"
| "il_pre e F (Il_push_back v) xs = (v \<notin> set (e # xs) \<union> F \<and> length xs + 1 < 2 ^ 32)"
| "il_pre e F Il_pop_front xs = (xs \<noteq> [])"
| "il_pre e F Il_pop_back xs = (1 < length xs)"
| "il_pre e F (Il_insert k v) xs = (k \<le> length xs \<and> v \<notin> set (e # xs) \<union> F \<and> length xs + 1 < 2 ^ 32)"
| "il_pre e F (Il_erase v) xs = (v \<notin> insert e F)"
| "il_pre e F Il_clear xs = True"
| "il_pre e F (Il_assign vs) xs = (distinct vs \<and> set vs \<inter> (insert e F) = {} \<and> length vs < 2 ^ 32)"

lemma il_advance_links:
  "links (il_next h) p xs q \<Longrightarrow> k \<le> length xs \<Longrightarrow> il_advance k h p = Inr (if k < length xs then Some (xs ! k) else q)"
proof (induction k arbitrary: p xs)
  case 0
  then show ?case by (cases xs) auto
next
  case (Suc k)
  then show ?case by (cases xs) (auto simp: il_increment_def)
qed

lemma il_step_insert_rep:
  assumes "il_rep e F g xs s" "il_pre e F (Il_insert k v) xs"
  shows "\<exists>t. il_step (Il_insert k v) s = Inr t \<and> il_rep e F g (il_spec (Il_insert k v) xs) t"
proof (cases "k < length xs")
  case True
  then have x: "take k xs @ xs ! k # drop (Suc k) xs = xs" by (simp add: Cons_nth_drop_Suc)
  have "\<exists>t. il_insert (Some (xs ! k)) v s = Inr t \<and> il_rep e F g (take k xs @ v # xs ! k # drop (Suc k) xs) t"
    by (rule il_insert_rep; unfold x; use assms in simp)
  then show ?thesis using True il_advance_links [OF il_rep_facts(4) [OF assms(1)], of k]
    by (simp add: Cons_nth_drop_Suc)
next
  case False
  then show ?thesis using assms il_advance_links [OF il_rep_facts(4) [OF assms(1)], of k]
      il_insert_end_rep [OF assms(1), of v] by simp
qed

lemma il_step_rep:
  assumes "il_rep e F g xs s" "il_pre e F x xs"
  shows "\<exists>t. il_step x s = Inr t \<and> il_rep e F g (il_spec x xs) t"
proof (cases x)
  case Il_pop_front
  then show ?thesis using assms il_pop_front_rep [of e F g "hd xs" "tl xs" s] by simp
next
  case Il_pop_back
  then obtain zs z where z: "xs = zs @ [z]" "zs \<noteq> []" using assms(2) by (cases xs rule: rev_cases) auto
  then obtain ys y where "zs = ys @ [y]" by (cases zs rule: rev_cases) auto
  with z have "xs = ys @ [y, z]" by simp
  then show ?thesis using assms(1) Il_pop_back il_pop_back_rep [of e F g ys y z s] by (simp add: butlast_append)
next
  case (Il_erase v)
  show ?thesis
  proof (cases "v \<in> set xs")
    case True
    then obtain ys zs where "xs = ys @ v # zs" "v \<notin> set ys" by (metis split_list_first)
    then show ?thesis using assms(1) Il_erase il_erase_rep [of e F g ys v zs s] by (simp add: remove1_append)
  next
    case False
    then show ?thesis using assms Il_erase il_erase_unlinked [of e F g xs s v] by (simp add: remove1_idem)
  qed
next
  case (Il_insert k v)
  then show ?thesis using assms il_step_insert_rep by blast
next
  case (Il_push_front v)
  then show ?thesis using assms il_push_front_rep [OF assms(1), of v] by simp
next
  case (Il_push_back v)
  then show ?thesis using assms il_push_back_rep [OF assms(1), of v] by simp
next
  case Il_clear
  then show ?thesis using il_clear_rep [OF assms(1)] by simp
next
  case (Il_assign vs)
  then show ?thesis using assms il_assign_rep [OF assms(1), of vs] by simp
qed

interpretation ilist: guarded_refinement "il_rep e F g" "il_pre e F" il_step il_spec for e F g
  by unfold_locales (rule il_step_rep)

section \<open>Comparing lists\<close>

lemma il_equal_from_links:
  assumes "links (il_next h) p xs (il_end a)" "il_endNode a \<notin> set xs" "links (il_next h) q ys r"
    and "length xs = length ys" "length xs \<le> fuel"
  shows "il_equal_from fuel h a p q = Inr (map (il_value h) xs = map (il_value h) ys)"
  using assms
proof (induction xs arbitrary: p q ys fuel)
  case Nil
  then show ?case by (cases fuel) auto
next
  case (Cons x xs)
  then obtain k y zs where "fuel = Suc k" "ys = y # zs" by (cases fuel; cases ys) auto
  then show ?case using Cons by (auto simp: il_end_def il_deref_def il_increment_def)
qed

lemma il_less_from_links:
  assumes "links (il_next h) p xs (il_end a)" "il_endNode a \<notin> set xs"
    and "links (il_next h) q ys (il_end b)" "il_endNode b \<notin> set ys" "length xs \<le> fuel"
  shows "il_less_from fuel h a b p q = Inr (lexicographical_compare (map (il_value h) xs) (map (il_value h) ys))"
  using assms
proof (induction xs arbitrary: p q ys fuel)
  case Nil
  then show ?case by (cases fuel; cases ys) (auto simp: il_end_def)
next
  case (Cons x xs)
  then obtain k where k: "fuel = Suc k" by (cases fuel) auto
  show ?case
  proof (cases ys)
    case Nil
    then show ?thesis using Cons.prems k by (auto simp: il_end_def)
  next
    case (Cons y zs)
    then show ?thesis using Cons.prems Cons.IH [of "il_next h x" "il_next h y" zs k] k
      by (auto simp: il_end_def il_deref_def il_increment_def)
  qed
qed

text \<open>Two lists in one memory.\<close>

definition il_two :: "nat list \<Rightarrow> nat list \<Rightarrow> ilist \<Rightarrow> ilist \<Rightarrow> 'a il_heap \<Rightarrow> bool" where
  "il_two xs ys a b h \<longleftrightarrow> il_linked xs (a, h) \<and> il_linked ys (b, h) \<and>
     set (il_endNode a # xs) \<inter> set (il_endNode b # ys) = {}"

lemma il_linked_rep: "il_linked xs (l, h) \<Longrightarrow> il_rep (il_endNode l) (- set (il_endNode l # xs)) h xs (l, h)"
  by (auto simp: il_rep_def)

lemma il_compare_values:
  assumes "il_linked xs (a, h)" "il_linked ys (b, h)"
  shows "il_eq (length xs) h a b = Inr (map (il_value h) xs = map (il_value h) ys)"
    "il_less (length xs) h a b = Inr (lexicographical_compare (map (il_value h) xs) (map (il_value h) ys))"
proof -
  note f = il_rep_facts [OF il_linked_rep [OF assms(1)]] and g = il_rep_facts [OF il_linked_rep [OF assms(2)]]
  have a: "links (il_next h) (il_begin a) xs (il_end a)" "il_endNode a \<notin> set xs"
    and b: "links (il_next h) (il_begin b) ys (il_end b)" "il_endNode b \<notin> set ys"
    using f g by (simp_all add: il_end_def)
  show "il_less (length xs) h a b = Inr (lexicographical_compare (map (il_value h) xs) (map (il_value h) ys))"
    using il_less_from_links [OF a b] by (simp add: il_less_def)
  have "il_size a = il_size b \<longleftrightarrow> length xs = length ys"
    using f(2) g(2) by (metis fst_conv word_unat_eq_iff)
  then show "il_eq (length xs) h a b = Inr (map (il_value h) xs = map (il_value h) ys)"
    using il_equal_from_links [OF a b(1)] by (auto simp: il_eq_def dest: map_eq_imp_length_eq)
qed

section \<open>Moving a list\<close>

lemma il_linked_frame:
  assumes "il_linked ys (b, h)" "\<And>i. i \<in> set (il_endNode b # ys) \<Longrightarrow> il_next h' i = il_next h i \<and> il_previous h' i = il_previous h i"
  shows "il_linked ys (b, h')"
proof -
  have "links (il_next h') p zs q = links (il_next h) p zs q" "links (il_previous h') p zs q = links (il_previous h) p zs q"
    if "set zs \<subseteq> set ys" for p q zs
    using assms(2) that by (auto intro!: links_cong)
  then show ?thesis using assms by (simp add: il_linked_def chain_iff_links)
qed

lemma il_move_assign_moves:
  assumes "il_two xs ys a b h"
  shows "\<exists>a' b' h'. il_move_assign b (a, h) = Inr (b', a', h') \<and> il_two ys [] a' b' h' \<and>
    il_endNode a' = il_endNode a \<and> il_endNode b' = il_endNode b"
proof -
  from assms have l: "il_linked xs (a, h)" "il_linked ys (b, h)"
    and d: "set (il_endNode a # xs) \<inter> set (il_endNode b # ys) = {}" by (simp_all add: il_two_def)
  obtain a1 h1 where c: "il_clear (a, h) = Inr (a1, h1)"
    "il_rep (il_endNode a) (- set (il_endNode a # xs)) h [] (a1, h1)"
    using il_clear_rep [OF il_linked_rep [OF l(1)]] by auto
  have e: "il_endNode a1 = il_endNode a" "il_beginNode a1 = Some (il_endNode a)" "il_next h1 (il_endNode a) = None"
    "il_previous h1 (il_endNode a) = None"
    using c(2) by (auto simp: il_rep_defs)
  have "il_linked ys (b, h1)"
    by (rule il_linked_frame [OF l(2)]) (use c(2) d in \<open>auto simp: il_rep_def\<close>)
  then have y: "chain (il_next h1) (il_previous h1) (il_beginNode b) None ys (Some (il_endNode b)) (il_previous h1 (il_endNode b))"
    and y': "distinct (il_endNode b # ys)" "il_next h1 (il_endNode b) = None" "il_numberOfElements b = of_nat (length ys)"
      "length ys < 2 ^ 32"
    by (auto simp: il_linked_def)
  have n: "il_endNode a \<noteq> il_endNode b" "il_endNode a \<notin> set ys" using d by auto
  show ?thesis
  proof (cases ys rule: rev_cases)
    case Nil
    then show ?thesis using c(1) e y y' n
      by (simp add: il_move_assign_def Let_def il_two_def il_linked_def)
  next
    case (snoc zs z)
    then have "il_beginNode b \<noteq> Some (il_endNode b)" using y y'(1) chain_ends(1) [OF y] by (cases zs) auto
    then show ?thesis using snoc c(1) e y y' n
      by (auto simp: il_move_assign_def Let_def il_two_def il_linked_def chain_middle)
  qed
qed

section \<open>Properties\<close>

text \<open>C23: an intrusive list follows the sequence of its nodes. In a memory with any other nodes \<open>F\<close>, a
  list starts empty, and every sequence of operations that keeps to what the caller owes runs to its
  end; going over the list from \<open>begin()\<close> then shows exactly the nodes of the sequence, going over it in
  reverse shows them in reverse, \<open>has_element\<close> and \<open>size\<close> agree with it, and no link of another node was
  written.\<close>

theorem intrusive_list_refines:
  assumes "e \<notin> F" "dom (il_previous h) \<subseteq> insert e F" "run_pre (il_pre e F) il_spec ops []"
    and "xs = fold il_spec ops []"
  shows "\<exists>t. run_ops il_step ops (il_new e h) = Inr t \<and>
    il_nodes_from (length xs) t (il_begin (fst t)) = Inr xs \<and>
    il_reverse_from (length xs) t (il_end (fst t)) = Inr (rev xs) \<and>
    il_has_element (length xs) t v = Inr (v \<in> set xs) \<and> unat (il_size (fst t)) = length xs \<and>
    (\<forall>i. i \<in> F \<longrightarrow> il_next (snd t) i = il_next h i \<and> il_previous (snd t) i = il_previous h i)"
proof -
  obtain t where t: "run_ops il_step ops (il_new e h) = Inr t" "il_rep e F h xs t"
    using ilist.run_rep [OF il_new_rep [OF assms(1,2)] assms(3)] assms(4) by blast
  with il_rep_observed [OF t(2)] show ?thesis by (auto simp: il_rep_def)
qed

definition il_blank :: "nat il_heap" where
  "il_blank = \<lparr>il_next = (\<lambda>i. None), il_previous = (\<lambda>i. None), il_value = (\<lambda>i. i)\<rparr>"

theorem intrusive_list_refines_witness:
  "\<exists>t. run_ops il_step [Il_push_back 1, Il_push_front 2, Il_insert 1 3, Il_erase 1, Il_erase 4] (il_new 0 il_blank) = Inr t \<and>
    il_nodes_from 2 t (il_begin (fst t)) = Inr [2, 3]"
proof -
  let ?ops = "[Il_push_back 1, Il_push_front 2, Il_insert 1 3, Il_erase 1, Il_erase 4]"
  have p: "run_pre (il_pre 0 {}) il_spec ?ops []" and f: "[2, 3] = fold il_spec ?ops []"
    and d: "dom (il_previous il_blank) \<subseteq> insert 0 {}" and l: "length [2, 3 :: nat] = 2"
    by (simp_all add: il_blank_def)
  from intrusive_list_refines [OF _ d p f] show ?thesis unfolding l by blast
qed

lemma il_pop_back_only_rep:
  assumes "il_rep e F g [x] s" "y \<notin> {e, x} \<union> F"
  shows "\<exists>t. il_pop_back s = Inr t \<and> il_empty (fst t) \<and> il_begin (fst t) \<noteq> il_end (fst t) \<and>
    il_nodes_from 1 t (il_begin (fst t)) = Inr [x] \<and>
    (\<exists>u. il_erase x t = Inr u \<and> il_size (fst u) = 2 ^ 32 - 1) \<and>
    (\<exists>u. il_push_front y t = Inr u \<and> il_size (fst u) = 1 \<and> il_nodes_from 2 u (il_begin (fst u)) = Inr [y, x])"
proof -
  have two: "il_nodes_from 2 = il_nodes_from (Suc (Suc 0))" by (simp only: numeral_2_eq_2)
  obtain b nx pv where s: "s = (\<lparr>il_numberOfElements = of_nat (length [x]), il_beginNode = b, il_endNode = e\<rparr>,
      \<lparr>il_next = nx, il_previous = pv, il_value = il_value g\<rparr>)"
    "chain nx pv b None [x] (Some e) (pv e)" "distinct [e, x]"
    using il_rep_cases [OF assms(1)] by blast
  then show ?thesis using assms(2)
    by (auto simp: two il_pop_back_def Let_def il_empty_def il_begin_def il_end_def il_deref_def il_increment_def
        il_erase_def il_unlink_def il_size_def il_push_front_def)
qed

text \<open>C25: \<open>pop_back\<close> of the only element does not set the pointer to the first node. Whenever a list, after
  any sequence of operations that keeps to what the caller owes, holds one element and that is popped, the list
  is empty by its count, but \<open>begin()\<close> is not \<open>end()\<close>, and going over the list still shows the object that was
  popped; erasing the object, as its destructor may, finds it to be the first node and counts down from zero;
  and \<open>push_front\<close> of another object makes a list with a count of one that shows both.\<close>

theorem intrusive_pop_back_only:
  assumes "e \<notin> F" "dom (il_previous h) \<subseteq> insert e F" "run_pre (il_pre e F) il_spec ops []"
    and "fold il_spec ops [] = [x]" and "y \<notin> {e, x} \<union> F"
  shows "\<exists>t. run_ops il_step (ops @ [Il_pop_back]) (il_new e h) = Inr t \<and>
    il_empty (fst t) \<and> il_begin (fst t) \<noteq> il_end (fst t) \<and>
    il_nodes_from 1 t (il_begin (fst t)) = Inr [x] \<and>
    (\<exists>u. il_erase x t = Inr u \<and> il_size (fst u) = 2 ^ 32 - 1) \<and>
    (\<exists>u. il_push_front y t = Inr u \<and> il_size (fst u) = 1 \<and> il_nodes_from 2 u (il_begin (fst u)) = Inr [y, x])"
proof -
  obtain s where s: "run_ops il_step ops (il_new e h) = Inr s" "il_rep e F h [x] s"
    using ilist.run_rep [OF il_new_rep [OF assms(1,2)] assms(3)] assms(4) by auto
  show ?thesis using il_pop_back_only_rep [OF s(2) assms(5)] s(1) by (auto simp: run_ops_append)
qed

theorem intrusive_pop_back_only_witness:
  "\<exists>t. run_ops il_step ([Il_push_back 1, Il_push_front 2, Il_erase 1] @ [Il_pop_back]) (il_new 0 il_blank) = Inr t \<and>
    il_empty (fst t) \<and> il_begin (fst t) \<noteq> il_end (fst t)"
proof -
  let ?ops = "[Il_push_back 1, Il_push_front 2, Il_erase 1]"
  have p: "run_pre (il_pre 0 {}) il_spec ?ops []" and f: "fold il_spec ?ops [] = [2]"
    and d: "dom (il_previous il_blank) \<subseteq> insert 0 {}" by (simp_all add: il_blank_def)
  from intrusive_pop_back_only [OF _ d p f, of 3] show ?thesis by auto
qed

text \<open>A walk that runs into another list's end node does not meet its own end.\<close>

lemma il_nodes_from_lost:
  assumes "links (il_next (snd s)) p xs (Some d)" "il_endNode (fst s) \<notin> insert d (set xs)" "il_next (snd s) d = None"
    and "length xs + 2 \<le> fuel"
  shows "il_nodes_from fuel s p = Inl Out_of_bounds"
  using assms
proof (induction xs arbitrary: p fuel)
  case Nil
  obtain k where "fuel = Suc (Suc k)" using Nil.prems(4) by (intro that [of "fuel - 2"]) simp
  then show ?case using Nil.prems by (auto simp: il_end_def il_deref_def il_increment_def)
next
  case (Cons x xs)
  then obtain k where "fuel = Suc k" by (cases fuel) auto
  then show ?case using Cons by (auto simp: il_end_def il_deref_def il_increment_def)
qed

definition il_swapped :: "ilist \<Rightarrow> ilist \<Rightarrow> ilist" where
  "il_swapped a b = \<lparr>il_numberOfElements = il_numberOfElements b, il_beginNode = il_beginNode b, il_endNode = il_endNode a\<rparr>"

lemma il_rejoin_same:
  assumes "chain (il_next h) (il_previous h) b None xs (Some e) (il_previous h e)" "il_endNode l = e"
  shows "il_rejoin l h = (if xs = [] then l\<lparr>il_beginNode := Some e\<rparr> else l, h)"
proof (cases xs rule: rev_cases)
  case Nil
  then show ?thesis using assms by (simp add: il_rejoin_def)
next
  case (snoc ys y)
  then have "il_previous h e = Some y" "il_next h y = Some e" using assms(1) by (simp_all add: chain_snoc)
  then show ?thesis using snoc assms(2) fun_upd_idem [of "il_next h" y "Some e"] by (simp add: il_rejoin_def)
qed

text \<open>C24: \<open>swap\<close> exchanges the pointers to the first nodes and the counts, but the end nodes it means to
  swap with them keep their links, since copying a node copies nothing. For two lists of which the
  first has elements, going over the first list after the swap, with whatever fuel that is enough to
  see the elements it should have, runs into the end node of the other list and on through its null pointer;
  and so for the second.\<close>

theorem intrusive_swap_loses_end:
  assumes "il_two xs ys a b h" "t \<notin> set (il_endNode a # xs @ il_endNode b # ys)"
    and "il_swap t a b h = (a', b', h')"
  shows "il_size a' = il_size b \<and> il_size b' = il_size a \<and>
    (xs \<noteq> [] \<longrightarrow> (\<forall>fuel\<ge>length ys + 2. il_nodes_from fuel (a', h') (il_begin a') = Inl Out_of_bounds)) \<and>
    (ys \<noteq> [] \<longrightarrow> (\<forall>fuel\<ge>length xs + 2. il_nodes_from fuel (b', h') (il_begin b') = Inl Out_of_bounds))"
proof -
  note f = il_rep_facts [OF il_linked_rep [of xs a h]] and g = il_rep_facts [OF il_linked_rep [of ys b h]]
  have x: "chain (il_next h) (il_previous h) (il_beginNode a) None xs (Some (il_endNode a)) (il_previous h (il_endNode a))"
    and y: "chain (il_next h) (il_previous h) (il_beginNode b) None ys (Some (il_endNode b)) (il_previous h (il_endNode b))"
    and n: "il_next h (il_endNode a) = None" "il_next h (il_endNode b) = None"
    and d: "il_endNode a \<notin> insert (il_endNode b) (set ys)" "il_endNode b \<notin> insert (il_endNode a) (set xs)"
      "set xs \<inter> set ys = {}" "distinct xs" "distinct ys" "il_endNode a \<notin> set xs" "il_endNode b \<notin> set ys"
    using assms(1) by (auto simp: il_two_def il_linked_def)
  have t: "t \<noteq> il_endNode a" "t \<noteq> il_endNode b" "t \<notin> set xs" "t \<notin> set ys" using assms(2) by auto
  let ?h = "il_node_init t h"
  have x': "chain (il_next ?h) (il_previous ?h) (il_beginNode a) None xs (Some (il_endNode a)) (il_previous ?h (il_endNode a))"
    and y': "chain (il_next ?h) (il_previous ?h) (il_beginNode b) None ys (Some (il_endNode b)) (il_previous ?h (il_endNode b))"
    and n': "il_next ?h (il_endNode a) = None" "il_next ?h (il_endNode b) = None"
    using x y t n by (simp_all add: il_node_init_def)
  have w: "a\<lparr>il_beginNode := il_beginNode b, il_numberOfElements := il_numberOfElements b\<rparr> = il_swapped a b"
    "b\<lparr>il_beginNode := il_beginNode a, il_numberOfElements := il_numberOfElements a\<rparr> = il_swapped b a"
    "il_endNode (il_swapped a b) = il_endNode a" "il_endNode (il_swapped b a) = il_endNode b"
    by (simp_all add: il_swapped_def)
  have r: "a' = (if xs = [] then il_swapped a b\<lparr>il_beginNode := Some (il_endNode a)\<rparr> else il_swapped a b)"
    "b' = (if ys = [] then il_swapped b a\<lparr>il_beginNode := Some (il_endNode b)\<rparr> else il_swapped b a)" "h' = ?h"
    using assms(3) w(3,4) il_rejoin_same [OF x', of "il_swapped a b"] il_rejoin_same [OF y', of "il_swapped b a"]
    by (simp_all add: il_swap_def il_swap_nodes_def il_node_assign_def il_node_copy_def Let_def w)
  have "il_size a' = il_size b" "il_size b' = il_size a" by (simp_all add: r il_swapped_def il_size_def)
  moreover have "il_nodes_from fuel (a', h') (il_begin a') = Inl Out_of_bounds"
    if "xs \<noteq> []" "length ys + 2 \<le> fuel" for fuel
    using that chain_links [OF y'] d n' by (intro il_nodes_from_lost [where d = "il_endNode b" and xs = ys]) (simp_all add: r il_swapped_def il_begin_def)
  moreover have "il_nodes_from fuel (b', h') (il_begin b') = Inl Out_of_bounds"
    if "ys \<noteq> []" "length xs + 2 \<le> fuel" for fuel
    using that chain_links [OF x'] d n' by (intro il_nodes_from_lost [where d = "il_endNode a" and xs = xs]) (simp_all add: r il_swapped_def il_begin_def)
  ultimately show ?thesis by blast
qed

theorem intrusive_swap_loses_end_witness:
  "\<exists>a b a' b' (h :: nat il_heap) h'. il_swap 9 a b h = (a', b', h') \<and> il_size a' = il_size b \<and>
    il_nodes_from 3 (a', h') (il_begin a') = Inl Out_of_bounds"
proof -
  define h where "h = \<lparr>il_next = ((\<lambda>i. None) :: nat \<Rightarrow> pointer)(1 := Some 0, 3 := Some 2),
    il_previous = (\<lambda>i. None)(0 := Some 1, 2 := Some 3), il_value = (\<lambda>i. i)\<rparr>"
  define a where "a = \<lparr>il_numberOfElements = 1, il_beginNode = Some 1, il_endNode = 0\<rparr>"
  define b where "b = \<lparr>il_numberOfElements = 1, il_beginNode = Some 3, il_endNode = 2\<rparr>"
  have two: "il_two [1] [3] a b h" by (simp add: il_two_def il_linked_def a_def b_def h_def)
  have t: "9 \<notin> set (il_endNode a # [1] @ il_endNode b # [3])" by (simp add: a_def b_def)
  obtain a' b' h' where s: "il_swap 9 a b h = (a', b', h')" by (metis prod_cases3)
  have "(\<forall>fuel\<ge>length [3 :: nat] + 2. P fuel) \<Longrightarrow> P 3" for P by simp
  with intrusive_swap_loses_end [OF two t s] have "il_size a' = il_size b"
    "il_nodes_from 3 (a', h') (il_begin a') = Inl Out_of_bounds" by simp_all
  with s show ?thesis by blast
qed

end
