(* ===== verification/Intrusive_Forward_List.thy ===== *)
theory Intrusive_Forward_List
  imports Linked Refinement
begin

text \<open>
  IntrusiveForwardList (infra/util/IntrusiveForwardList.hpp): a singly linked list of objects that carry
  their own link; a list is a pointer to its first node. As with IntrusiveList the callers see to it that an
  object is in one list only; as long as they do (\<open>fl_pre\<close>) a list follows the sequence of its nodes. Here
  \<open>swap\<close> and moving exchange or hand over the one pointer, and hold for all lists.
\<close>

section \<open>The memory and the lists\<close>

record 'a fl_heap =
  fl_next :: "nat \<Rightarrow> pointer"
  fl_value :: "nat \<Rightarrow> 'a"

record flist =
  fl_beginNode :: pointer

type_synonym 'a fl_state = "flist \<times> 'a fl_heap"

text \<open>Constructing or copying a node gives it no link, assigning to it keeps the one it has.\<close>

definition fl_node_init :: "nat \<Rightarrow> 'a fl_heap \<Rightarrow> 'a fl_heap" where
  "fl_node_init i h = h\<lparr>fl_next := (fl_next h)(i := None)\<rparr>"

definition fl_node_assign :: "nat \<Rightarrow> nat \<Rightarrow> 'a fl_heap \<Rightarrow> 'a fl_heap" where
  "fl_node_assign i other h = h"

definition fl_new :: flist where
  "fl_new = \<lparr>fl_beginNode = None\<rparr>"

definition fl_begin :: "flist \<Rightarrow> pointer" where
  "fl_begin l = fl_beginNode l"

definition fl_end :: "flist \<Rightarrow> pointer" where
  "fl_end l = None"

definition fl_deref :: "pointer \<Rightarrow> nat result" where
  "fl_deref p = deref p Inr"

definition fl_increment :: "'a fl_heap \<Rightarrow> pointer \<Rightarrow> pointer result" where
  "fl_increment h p = deref p (\<lambda>i. Inr (fl_next h i))"

definition fl_iter_eq :: "pointer \<Rightarrow> pointer \<Rightarrow> bool" where
  "fl_iter_eq p q = (p = q)"

definition fl_empty :: "flist \<Rightarrow> bool" where
  "fl_empty l = (fl_beginNode l = None)"

definition fl_front :: "flist \<Rightarrow> nat result" where
  "fl_front l = deref (fl_beginNode l) Inr"

fun fl_nodes_from :: "nat \<Rightarrow> 'a fl_heap \<Rightarrow> pointer \<Rightarrow> nat list result" where
  "fl_nodes_from 0 h p = (if p = None then Inr [] else Inl Diverges)"
| "fl_nodes_from (Suc fuel) h p = (if p = None then Inr [] else
     rbind (fl_deref p) (\<lambda>i. rbind (fl_increment h p) (\<lambda>q.
       rbind (fl_nodes_from fuel h q) (\<lambda>xs. Inr (i # xs)))))"

fun fl_has_from :: "nat \<Rightarrow> 'a fl_heap \<Rightarrow> nat \<Rightarrow> pointer \<Rightarrow> bool result" where
  "fl_has_from 0 h v p = (if p = None then Inr False else Inl Diverges)"
| "fl_has_from (Suc fuel) h v p = (if p = None then Inr False else
     rbind (fl_deref p) (\<lambda>i. if i = v then Inr True else
       rbind (fl_increment h p) (fl_has_from fuel h v)))"

definition fl_has_element :: "nat \<Rightarrow> 'a fl_state \<Rightarrow> nat \<Rightarrow> bool result" where
  "fl_has_element fuel s v = fl_has_from fuel (snd s) v (fl_begin (fst s))"

section \<open>Adding and removing elements\<close>

definition fl_push_front :: "nat \<Rightarrow> 'a fl_state \<Rightarrow> 'a fl_state" where
  "fl_push_front node s = (case s of (l, h) \<Rightarrow>
     (l\<lparr>fl_beginNode := Some node\<rparr>, h\<lparr>fl_next := (fl_next h)(node := fl_beginNode l)\<rparr>))"

definition fl_pop_front :: "'a fl_state \<Rightarrow> 'a fl_state result" where
  "fl_pop_front s = (case s of (l, h) \<Rightarrow> deref (fl_beginNode l) (\<lambda>b. Inr (l\<lparr>fl_beginNode := fl_next h b\<rparr>, h)))"

definition fl_insert_after :: "pointer \<Rightarrow> nat \<Rightarrow> 'a fl_state \<Rightarrow> 'a fl_state result" where
  "fl_insert_after position node s = (case s of (l, h) \<Rightarrow> deref position (\<lambda>p.
     let h = h\<lparr>fl_next := (fl_next h)(node := fl_next h p)\<rparr>
     in Inr (l, h\<lparr>fl_next := (fl_next h)(p := Some node)\<rparr>)))"

definition fl_erase_after :: "nat \<Rightarrow> 'a fl_state \<Rightarrow> 'a fl_state result" where
  "fl_erase_after node s = (case s of (l, h) \<Rightarrow> deref (fl_next h node) (\<lambda>n.
     Inr (l, h\<lparr>fl_next := (fl_next h)(node := fl_next h n)\<rparr>)))"

text \<open>The loop of \<open>erase_slow\<close> remembers the node before the one it looks at.\<close>

fun fl_erase_from :: "nat \<Rightarrow> nat \<Rightarrow> pointer \<Rightarrow> pointer \<Rightarrow> 'a fl_state \<Rightarrow> 'a fl_state result" where
  "fl_erase_from 0 v previous index s = (if index = fl_end (fst s) then Inr s else Inl Diverges)"
| "fl_erase_from (Suc fuel) v previous index s = (if index = fl_end (fst s) then Inr s else
     rbind (fl_deref index) (\<lambda>i. if i = v then
         (if index \<noteq> fl_begin (fst s) then rbind (fl_deref previous) (\<lambda>p. fl_erase_after p s)
          else fl_pop_front s)
       else rbind (fl_increment (snd s) index) (\<lambda>q. fl_erase_from fuel v index q s)))"

definition fl_erase_slow :: "nat \<Rightarrow> nat \<Rightarrow> 'a fl_state \<Rightarrow> 'a fl_state result" where
  "fl_erase_slow fuel v s = fl_erase_from fuel v None (fl_begin (fst s)) s"

definition fl_clear :: "'a fl_state \<Rightarrow> 'a fl_state" where
  "fl_clear s = (case s of (l, h) \<Rightarrow> (l\<lparr>fl_beginNode := None\<rparr>, h))"

fun fl_assign_loop :: "nat list \<Rightarrow> pointer \<Rightarrow> 'a fl_state \<Rightarrow> 'a fl_state result" where
  "fl_assign_loop [] current s = Inr s"
| "fl_assign_loop (v # vs) current s = (if fl_empty (fst s) then
     (let s = fl_push_front v s in fl_assign_loop vs (fl_begin (fst s)) s)
   else rbind (fl_insert_after current v s) (\<lambda>s.
     rbind (fl_increment (snd s) current) (\<lambda>current. fl_assign_loop vs current s)))"

definition fl_assign :: "nat list \<Rightarrow> 'a fl_state \<Rightarrow> 'a fl_state result" where
  "fl_assign vs s = fl_assign_loop vs None (fl_clear s)"

definition fl_construct_range :: "nat list \<Rightarrow> 'a fl_heap \<Rightarrow> 'a fl_state result" where
  "fl_construct_range vs h = fl_assign vs (fl_new, h)"

section \<open>Moving, swapping and comparing\<close>

text \<open>These change no node.\<close>

definition fl_move_construct :: "flist \<Rightarrow> flist \<times> flist" where
  "fl_move_construct other = (\<lparr>fl_beginNode = fl_beginNode other\<rparr>, other\<lparr>fl_beginNode := None\<rparr>)"

definition fl_move_assign :: "flist \<Rightarrow> flist \<Rightarrow> flist \<times> flist" where
  "fl_move_assign l other = (l\<lparr>fl_beginNode := fl_beginNode other\<rparr>, other\<lparr>fl_beginNode := None\<rparr>)"

definition fl_swap :: "flist \<Rightarrow> flist \<Rightarrow> flist \<times> flist" where
  "fl_swap a b = (a\<lparr>fl_beginNode := fl_beginNode b\<rparr>, b\<lparr>fl_beginNode := fl_beginNode a\<rparr>)"

text \<open>Two nodes are equal if the objects are.\<close>

definition fl_node_eq :: "'a fl_heap \<Rightarrow> nat \<Rightarrow> nat \<Rightarrow> bool" where
  "fl_node_eq h i j = (fl_value h i = fl_value h j)"

definition fl_node_not_eq :: "'a fl_heap \<Rightarrow> nat \<Rightarrow> nat \<Rightarrow> bool" where
  "fl_node_not_eq h i j = (\<not> fl_node_eq h i j)"

fun fl_equal_from :: "nat \<Rightarrow> 'a fl_heap \<Rightarrow> pointer \<Rightarrow> pointer \<Rightarrow> bool result" where
  "fl_equal_from 0 h i j = (if i \<noteq> None \<and> j \<noteq> None then Inl Diverges else Inr (i = j))"
| "fl_equal_from (Suc fuel) h i j = (if i \<noteq> None \<and> j \<noteq> None then
     deref i (\<lambda>x. deref j (\<lambda>y. if fl_node_not_eq h x y then Inr False
       else fl_equal_from fuel h (fl_next h x) (fl_next h y)))
   else Inr (i = j))"

definition fl_eq :: "nat \<Rightarrow> 'a fl_heap \<Rightarrow> flist \<Rightarrow> flist \<Rightarrow> bool result" where
  "fl_eq fuel h a b = fl_equal_from fuel h (fl_beginNode a) (fl_beginNode b)"

definition fl_not_eq :: "nat \<Rightarrow> 'a fl_heap \<Rightarrow> flist \<Rightarrow> flist \<Rightarrow> bool result" where
  "fl_not_eq fuel h a b = rbind (fl_eq fuel h a b) (\<lambda>r. Inr (\<not> r))"

fun fl_less_from :: "nat \<Rightarrow> ('a::linorder) fl_heap \<Rightarrow> pointer \<Rightarrow> pointer \<Rightarrow> bool result" where
  "fl_less_from 0 h i j = (if i = None then Inr (j \<noteq> None) else Inl Diverges)"
| "fl_less_from (Suc fuel) h i j =
     (if i = None then Inr (j \<noteq> None) else if j = None then Inr False else
     rbind (fl_deref i) (\<lambda>x. rbind (fl_deref j) (\<lambda>y.
       if fl_value h x < fl_value h y then Inr True else if fl_value h y < fl_value h x then Inr False else
       rbind (fl_increment h i) (\<lambda>i. rbind (fl_increment h j) (\<lambda>j. fl_less_from fuel h i j)))))"

definition fl_less :: "nat \<Rightarrow> ('a::linorder) fl_heap \<Rightarrow> flist \<Rightarrow> flist \<Rightarrow> bool result" where
  "fl_less fuel h a b = fl_less_from fuel h (fl_begin a) (fl_begin b)"

definition fl_less_eq :: "nat \<Rightarrow> ('a::linorder) fl_heap \<Rightarrow> flist \<Rightarrow> flist \<Rightarrow> bool result" where
  "fl_less_eq fuel h a b = rbind (fl_less fuel h b a) (\<lambda>r. Inr (\<not> r))"

definition fl_greater :: "nat \<Rightarrow> ('a::linorder) fl_heap \<Rightarrow> flist \<Rightarrow> flist \<Rightarrow> bool result" where
  "fl_greater fuel h a b = fl_less fuel h b a"

definition fl_greater_eq :: "nat \<Rightarrow> ('a::linorder) fl_heap \<Rightarrow> flist \<Rightarrow> flist \<Rightarrow> bool result" where
  "fl_greater_eq fuel h a b = rbind (fl_less fuel h a b) (\<lambda>r. Inr (\<not> r))"

section \<open>How a list lies in the memory\<close>

text \<open>\<open>fl_rep F g xs\<close>: the list runs through \<open>xs\<close>, and the nodes \<open>F\<close> of others are as in the memory \<open>g\<close>.\<close>

definition fl_rep :: "nat set \<Rightarrow> 'a fl_heap \<Rightarrow> nat list \<Rightarrow> 'a fl_state \<Rightarrow> bool" where
  "fl_rep F g xs s \<longleftrightarrow> links (fl_next (snd s)) (fl_beginNode (fst s)) xs None \<and> set xs \<inter> F = {} \<and>
     (\<forall>i\<in>F. fl_next (snd s) i = fl_next g i) \<and> fl_value (snd s) = fl_value g"

lemma fl_rep_distinct: "fl_rep F g xs s \<Longrightarrow> distinct xs"
  by (auto simp: fl_rep_def dest: links_None_distinct)

lemma fl_push_front_rep:
  "fl_rep F g xs s \<Longrightarrow> v \<notin> set xs \<union> F \<Longrightarrow> fl_rep F g (v # xs) (fl_push_front v s)"
  by (auto simp: fl_rep_def fl_push_front_def split: prod.splits)

lemma fl_pop_front_rep:
  "fl_rep F g (x # xs) s \<Longrightarrow> \<exists>t. fl_pop_front s = Inr t \<and> fl_rep F g xs t"
  by (auto simp: fl_rep_def fl_pop_front_def split: prod.splits)

lemma fl_insert_after_rep:
  assumes "fl_rep F g (xs @ x # ys) s" "v \<notin> set (xs @ x # ys) \<union> F"
  shows "\<exists>t. fl_insert_after (Some x) v s = Inr t \<and> fl_rep F g (xs @ x # v # ys) t \<and> fl_next (snd t) x = Some v"
  using assms fl_rep_distinct [OF assms(1)]
  by (auto simp: fl_rep_def fl_insert_after_def Let_def links_append split: prod.splits)

lemma fl_erase_after_rep:
  assumes "fl_rep F g (xs @ x # y # ys) s"
  shows "\<exists>t. fl_erase_after x s = Inr t \<and> fl_rep F g (xs @ x # ys) t"
  using assms fl_rep_distinct [OF assms(1)]
  by (auto simp: fl_rep_def fl_erase_after_def links_append split: prod.splits)

lemma fl_clear_rep: "fl_rep F g xs s \<Longrightarrow> fl_rep F g [] (fl_clear s)"
  by (auto simp: fl_rep_def fl_clear_def split: prod.splits)

lemma fl_erase_from_rep:
  assumes "fl_rep F g (xs @ ys) s" "v \<notin> set xs" "length ys \<le> fuel"
    and "index = (if ys = [] then None else Some (hd ys))" "previous = (if xs = [] then None else Some (List.last xs))"
  shows "\<exists>t. fl_erase_from fuel v previous index s = Inr t \<and> fl_rep F g (remove1 v (xs @ ys)) t"
  using assms
proof (induction ys arbitrary: xs fuel previous index)
  case Nil
  then show ?case by (cases fuel) (auto simp: fl_end_def remove1_idem)
next
  case (Cons y ys)
  from Cons.prems(3) obtain k where k: "fuel = Suc k" "length ys \<le> k" by (cases fuel) auto
  have d: "distinct (xs @ y # ys)" by (rule fl_rep_distinct [OF Cons.prems(1)])
  have b: "fl_begin (fst s) = Some (hd (xs @ y # ys))"
    using Cons.prems(1) by (cases xs) (auto simp: fl_rep_def fl_begin_def)
  show ?case
  proof (cases "y = v")
    case True
    show ?thesis
    proof (cases xs rule: rev_cases)
      case Nil
      then show ?thesis using True Cons.prems b k fl_pop_front_rep [of F g y ys s]
        by (simp add: fl_deref_def fl_end_def)
    next
      case (snoc zs z)
      have "hd (xs @ y # ys) \<noteq> y" using d snoc by (cases zs) auto
      then show ?thesis using True Cons.prems b k snoc fl_erase_after_rep [of F g zs z y ys s]
        by (simp add: fl_deref_def fl_end_def remove1_append)
    qed
  next
    case False
    have n: "fl_next (snd s) y = (if ys = [] then None else Some (hd ys))"
      using Cons.prems(1) by (cases ys) (auto simp: fl_rep_def links_append)
    have "\<exists>t. fl_erase_from k v (Some y) (fl_next (snd s) y) s = Inr t \<and> fl_rep F g (remove1 v ((xs @ [y]) @ ys)) t"
      by (rule Cons.IH) (use Cons.prems False k n in auto)
    then show ?thesis using False Cons.prems(4) k by (simp add: fl_deref_def fl_end_def fl_increment_def)
  qed
qed

lemma fl_assign_loop_rep:
  assumes "fl_rep F g xs s" "current = (if xs = [] then None else Some (List.last xs))"
    and "distinct (xs @ vs)" "set vs \<inter> F = {}"
  shows "\<exists>t. fl_assign_loop vs current s = Inr t \<and> fl_rep F g (xs @ vs) t"
  using assms
proof (induction vs arbitrary: xs current s)
  case (Cons v vs)
  show ?case
  proof (cases xs rule: rev_cases)
    case Nil
    then have "fl_empty (fst s)" using Cons.prems(1) by (simp add: fl_empty_def fl_rep_def)
    moreover have "fl_rep F g [v] (fl_push_front v s)"
      using fl_push_front_rep [of F g "[]" s v] Cons.prems Nil by simp
    moreover have "fl_begin (fst (fl_push_front v s)) = Some v"
      by (simp add: fl_begin_def fl_push_front_def split: prod.splits)
    ultimately show ?thesis using Cons.IH [of "[v]" "fl_push_front v s" "Some v"] Cons.prems(3,4) Nil
      by (simp add: Let_def)
  next
    case (snoc zs z)
    then have e: "\<not> fl_empty (fst s)" using Cons.prems(1) by (cases zs) (auto simp: fl_empty_def fl_rep_def)
    obtain t where t: "fl_insert_after (Some z) v s = Inr t" "fl_rep F g (zs @ [z, v]) t" "fl_next (snd t) z = Some v"
      using fl_insert_after_rep [of F g zs z "[]" s v] Cons.prems snoc by auto
    then show ?thesis using Cons.IH [of "xs @ [v]" t "Some v"] Cons.prems snoc e
      by (simp add: fl_increment_def)
  qed
qed simp

section \<open>Going over and comparing\<close>

lemma fl_nodes_from_links:
  "links (fl_next h) p xs None \<Longrightarrow> length xs \<le> fuel \<Longrightarrow> fl_nodes_from fuel h p = Inr xs"
proof (induction xs arbitrary: p fuel)
  case Nil
  then show ?case by (cases fuel) auto
next
  case (Cons x xs)
  then show ?case by (cases fuel) (auto simp: fl_deref_def fl_increment_def)
qed

lemma fl_has_from_links:
  "links (fl_next h) p xs None \<Longrightarrow> length xs \<le> fuel \<Longrightarrow> fl_has_from fuel h v p = Inr (v \<in> set xs)"
proof (induction xs arbitrary: p fuel)
  case Nil
  then show ?case by (cases fuel) auto
next
  case (Cons x xs)
  then show ?case by (cases fuel) (auto simp: fl_deref_def fl_increment_def)
qed

lemma fl_equal_from_links:
  "links (fl_next h) p xs None \<Longrightarrow> links (fl_next h) q ys None \<Longrightarrow> length xs \<le> fuel \<Longrightarrow>
   fl_equal_from fuel h p q = Inr (map (fl_value h) xs = map (fl_value h) ys)"
proof (induction xs arbitrary: p q ys fuel)
  case Nil
  then show ?case by (cases fuel; cases ys) auto
next
  case (Cons x xs)
  then obtain k where k: "fuel = Suc k" by (cases fuel) auto
  then show ?case using Cons by (cases ys) (auto simp: fl_node_not_eq_def fl_node_eq_def)
qed

lemma fl_less_from_links:
  "links (fl_next h) p xs None \<Longrightarrow> links (fl_next h) q ys None \<Longrightarrow> length xs \<le> fuel \<Longrightarrow>
   fl_less_from fuel h p q = Inr (lexicographical_compare (map (fl_value h) xs) (map (fl_value h) ys))"
proof (induction xs arbitrary: p q ys fuel)
  case Nil
  then show ?case by (cases fuel; cases ys) auto
next
  case (Cons x xs)
  then obtain k where k: "fuel = Suc k" by (cases fuel) auto
  then show ?case using Cons by (cases ys) (auto simp: fl_deref_def fl_increment_def)
qed

text \<open>Equality and order are those of the sequences of values.\<close>

lemma fl_compare_values:
  assumes "links (fl_next h) (fl_beginNode a) xs None" "links (fl_next h) (fl_beginNode b) ys None"
  shows "fl_eq (length xs) h a b = Inr (map (fl_value h) xs = map (fl_value h) ys)"
    "fl_less (length xs) h a b = Inr (lexicographical_compare (map (fl_value h) xs) (map (fl_value h) ys))"
  using assms by (simp_all add: fl_eq_def fl_less_def fl_begin_def fl_equal_from_links fl_less_from_links)

lemma fl_swap_exchanges:
  assumes "links (fl_next h) (fl_beginNode a) xs None" "links (fl_next h) (fl_beginNode b) ys None"
  shows "fl_nodes_from (length ys) h (fl_begin (fst (fl_swap a b))) = Inr ys"
    "fl_nodes_from (length xs) h (fl_begin (snd (fl_swap a b))) = Inr xs"
  using assms by (simp_all add: fl_swap_def fl_begin_def fl_nodes_from_links)

section \<open>The operations as steps\<close>

fun fl_advance :: "nat \<Rightarrow> 'a fl_heap \<Rightarrow> pointer \<Rightarrow> pointer result" where
  "fl_advance 0 h p = Inr p"
| "fl_advance (Suc k) h p = rbind (fl_increment h p) (fl_advance k h)"

datatype fl_op =
    Fl_push_front nat | Fl_pop_front | Fl_insert_after nat nat | Fl_erase_after nat
  | Fl_erase_slow nat | Fl_clear | Fl_assign "nat list"

text \<open>\<open>m\<close> is fuel for the loop of \<open>erase_slow\<close>, enough for all lists of at most \<open>m\<close> nodes.\<close>

fun fl_step :: "nat \<Rightarrow> fl_op \<Rightarrow> 'a fl_state \<Rightarrow> 'a fl_state result" where
  "fl_step m (Fl_push_front v) s = Inr (fl_push_front v s)"
| "fl_step m Fl_pop_front s = fl_pop_front s"
| "fl_step m (Fl_insert_after k v) s = rbind (fl_advance k (snd s) (fl_begin (fst s))) (\<lambda>p. fl_insert_after p v s)"
| "fl_step m (Fl_erase_after x) s = fl_erase_after x s"
| "fl_step m (Fl_erase_slow v) s = fl_erase_slow m v s"
| "fl_step m Fl_clear s = Inr (fl_clear s)"
| "fl_step m (Fl_assign vs) s = fl_assign vs s"

fun remove_after :: "nat \<Rightarrow> nat list \<Rightarrow> nat list" where
  "remove_after x [] = []"
| "remove_after x (y # ys) = (if x = y then y # tl ys else y # remove_after x ys)"

fun fl_spec :: "fl_op \<Rightarrow> nat list \<Rightarrow> nat list" where
  "fl_spec (Fl_push_front v) xs = v # xs"
| "fl_spec Fl_pop_front xs = tl xs"
| "fl_spec (Fl_insert_after k v) xs = take (Suc k) xs @ v # drop (Suc k) xs"
| "fl_spec (Fl_erase_after x) xs = remove_after x xs"
| "fl_spec (Fl_erase_slow v) xs = remove1 v xs"
| "fl_spec Fl_clear xs = []"
| "fl_spec (Fl_assign vs) xs = vs"

fun fl_pre :: "nat \<Rightarrow> nat set \<Rightarrow> fl_op \<Rightarrow> nat list \<Rightarrow> bool" where
  "fl_pre m F (Fl_push_front v) xs = (v \<notin> set xs \<union> F)"
| "fl_pre m F Fl_pop_front xs = (xs \<noteq> [])"
| "fl_pre m F (Fl_insert_after k v) xs = (k < length xs \<and> v \<notin> set xs \<union> F)"
| "fl_pre m F (Fl_erase_after x) xs = (x \<in> set (butlast xs))"
| "fl_pre m F (Fl_erase_slow v) xs = (length xs \<le> m)"
| "fl_pre m F Fl_clear xs = True"
| "fl_pre m F (Fl_assign vs) xs = (distinct vs \<and> set vs \<inter> F = {})"

lemma fl_advance_links:
  "links (fl_next h) p xs q \<Longrightarrow> k < length xs \<Longrightarrow> fl_advance k h p = Inr (Some (xs ! k))"
proof (induction k arbitrary: p xs)
  case 0
  then show ?case by (cases xs) auto
next
  case (Suc k)
  then show ?case by (cases xs) (auto simp: fl_increment_def)
qed

lemma remove_after_append: "x \<notin> set xs \<Longrightarrow> remove_after x (xs @ x # y # ys) = xs @ x # ys"
  by (induction xs) auto

lemma fl_step_rep:
  assumes "fl_rep F g xs s" "fl_pre m F x xs"
  shows "\<exists>t. fl_step m x s = Inr t \<and> fl_rep F g (fl_spec x xs) t"
proof (cases x)
  case (Fl_push_front v)
  then show ?thesis using assms fl_push_front_rep [of F g xs s v] by simp
next
  case Fl_pop_front
  then show ?thesis using assms fl_pop_front_rep [of F g "hd xs" "tl xs" s] by simp
next
  case (Fl_insert_after k v)
  then have k: "k < length xs" "v \<notin> set xs \<union> F" using assms(2) by auto
  then have e: "take k xs @ xs ! k # drop (Suc k) xs = xs" by (simp add: Cons_nth_drop_Suc)
  have "\<exists>t. fl_insert_after (Some (xs ! k)) v s = Inr t \<and> fl_rep F g (take k xs @ xs ! k # v # drop (Suc k) xs) t \<and>
      fl_next (snd t) (xs ! k) = Some v"
    by (rule fl_insert_after_rep; unfold e; use assms(1) k in simp)
  then show ?thesis
    using Fl_insert_after k fl_advance_links [of "snd s" "fl_begin (fst s)" xs None k] assms(1)
    by (auto simp: fl_rep_def fl_begin_def take_Suc_conv_app_nth)
next
  case (Fl_erase_after v)
  then have "v \<in> set (butlast xs)" "xs \<noteq> []" using assms(2) by auto
  then obtain ys zs where "butlast xs = ys @ v # zs" "v \<notin> set ys" by (metis split_list_first)
  then have "xs = ys @ v # (zs @ [List.last xs])" "v \<notin> set ys"
    using append_butlast_last_id [OF \<open>xs \<noteq> []\<close>] by simp_all
  moreover obtain z ws where "zs @ [List.last xs] = z # ws" by (cases "zs @ [List.last xs]") auto
  ultimately have y: "xs = ys @ v # z # ws" "v \<notin> set ys" by simp_all
  then show ?thesis using Fl_erase_after assms(1) fl_erase_after_rep [of F g ys v z ws s]
    by (simp add: remove_after_append)
next
  case (Fl_erase_slow v)
  have "fl_begin (fst s) = (if xs = [] then None else Some (hd xs))"
    using assms(1) by (cases xs) (auto simp: fl_rep_def fl_begin_def)
  then show ?thesis using Fl_erase_slow assms fl_erase_from_rep [of F g "[]" xs s v m]
    by (simp add: fl_erase_slow_def)
next
  case Fl_clear
  then show ?thesis using fl_clear_rep [OF assms(1)] by simp
next
  case (Fl_assign vs)
  then show ?thesis using assms(2) fl_assign_loop_rep [OF fl_clear_rep [OF assms(1)], of None vs]
    by (simp add: fl_assign_def)
qed

interpretation flist: guarded_refinement "fl_rep F g" "fl_pre m F" "fl_step m" fl_spec for F g m
  by unfold_locales (rule fl_step_rep)

section \<open>Properties\<close>

text \<open>C26: an intrusive forward list follows the sequence of its nodes. Every sequence of operations that
  keeps to what the caller owes (an object is in one list, nothing is taken from an empty list, and
  \<open>erase_after\<close> is given a node with one behind it) runs to its end, and going over the list then shows exactly the nodes
  of the sequence, \<open>has_element\<close> finds them, and no link of another node was written.\<close>

theorem intrusive_forward_list_refines:
  assumes "run_pre (fl_pre m F) fl_spec ops []" "xs = fold fl_spec ops []"
  shows "\<exists>t. run_ops (fl_step m) ops (fl_new, h) = Inr t \<and>
    fl_nodes_from (length xs) (snd t) (fl_begin (fst t)) = Inr xs \<and>
    fl_has_element (length xs) t v = Inr (v \<in> set xs) \<and>
    (\<forall>i. i \<in> F \<longrightarrow> fl_next (snd t) i = fl_next h i)"
proof -
  have "fl_rep F h [] (fl_new, h)" by (simp add: fl_rep_def fl_new_def)
  then obtain t where t: "run_ops (fl_step m) ops (fl_new, h) = Inr t" "fl_rep F h xs t"
    using flist.run_rep assms by blast
  then show ?thesis
    by (auto simp: fl_rep_def fl_has_element_def fl_begin_def fl_nodes_from_links fl_has_from_links)
qed

theorem intrusive_forward_list_refines_witness:
  "\<exists>t. run_ops (fl_step 4) [Fl_push_front 1, Fl_push_front 2, Fl_insert_after 1 3, Fl_erase_slow 1, Fl_erase_slow 5]
      (fl_new, \<lparr>fl_next = (\<lambda>i. None), fl_value = (\<lambda>i. i)\<rparr>) = Inr t \<and>
    fl_nodes_from 2 (snd t) (fl_begin (fst t)) = Inr [2, 3]"
proof -
  let ?ops = "[Fl_push_front 1, Fl_push_front 2, Fl_insert_after 1 3, Fl_erase_slow 1, Fl_erase_slow 5]"
  have p: "run_pre (fl_pre 4 {}) fl_spec ?ops []" and f: "[2, 3] = fold fl_spec ?ops []"
    and l: "length [2, 3 :: nat] = 2" by simp_all
  from intrusive_forward_list_refines [OF p f] show ?thesis unfolding l by blast
qed

end
