(* ===== verification/Memory_Range.thy ===== *)
theory Memory_Range
  imports Prelude
begin

text \<open>
  \<open>infra::MemoryRange\<close> (infra/util/MemoryRange.hpp): a view given by two pointers. A pointer is an
  address, \<open>0\<close> the null pointer; addresses are counted in elements. What a range shows of a
  memory is \<open>mr_contents\<close>; the lemmas give each operation's effect on it. Components that only
  look at the bytes of a range use the list operations these lemmas end in
  (\<open>take\<close>, \<open>drop\<close>, \<open>takeWhile\<close>, \<open>dropWhile\<close>).
\<close>

record range =
  mr_begin :: nat
  mr_end :: nat

definition mr_null :: range where
  "mr_null = \<lparr>mr_begin = 0, mr_end = 0\<rparr>"

definition mr_make :: "nat \<Rightarrow> nat \<Rightarrow> range" where
  "mr_make b e = \<lparr>mr_begin = b, mr_end = e\<rparr>"

definition mr_of_array :: "nat \<Rightarrow> nat \<Rightarrow> range" where
  "mr_of_array front N = \<lparr>mr_begin = (if N \<noteq> 0 then front else 0), mr_end = (if N \<noteq> 0 then front + N else 0)\<rparr>"

definition mr_of_object :: "nat \<Rightarrow> range" where
  "mr_of_object address = \<lparr>mr_begin = address, mr_end = address + 1\<rparr>"

definition mr_empty :: "range \<Rightarrow> bool" where
  "mr_empty r \<longleftrightarrow> mr_begin r = mr_end r"

definition mr_size :: "range \<Rightarrow> nat" where
  "mr_size r = mr_end r - mr_begin r"

definition mr_at :: "(nat \<Rightarrow> 'a) \<Rightarrow> range \<Rightarrow> nat \<Rightarrow> 'a result" where
  "mr_at mem r index = really_assert (index < mr_size r) (Inr (mem (mr_begin r + index)))"

definition mr_eq :: "range \<Rightarrow> range \<Rightarrow> bool" where
  "mr_eq r rhs \<longleftrightarrow> mr_empty r \<and> mr_empty rhs \<or> mr_begin r = mr_begin rhs \<and> mr_end r = mr_end rhs"

definition mr_ne :: "range \<Rightarrow> range \<Rightarrow> bool" where
  "mr_ne r rhs \<longleftrightarrow> \<not> mr_eq r rhs"

definition mr_front :: "(nat \<Rightarrow> 'a) \<Rightarrow> range \<Rightarrow> 'a result" where
  "mr_front mem r = in_bounds (mr_begin r < mr_end r) (Inr (mem (mr_begin r)))"

definition mr_back :: "(nat \<Rightarrow> 'a) \<Rightarrow> range \<Rightarrow> 'a result" where
  "mr_back mem r = in_bounds (mr_begin r < mr_end r) (Inr (mem (mr_end r - 1)))"

definition mr_contains :: "range \<Rightarrow> nat \<Rightarrow> bool" where
  "mr_contains r element \<longleftrightarrow> mr_begin r \<le> element \<and> element < mr_end r"

definition mr_contains_or_end :: "range \<Rightarrow> nat \<Rightarrow> bool" where
  "mr_contains_or_end r element \<longleftrightarrow> mr_begin r \<le> element \<and> element \<le> mr_end r"

definition mr_clear :: "range \<Rightarrow> range" where
  "mr_clear r = r\<lparr>mr_begin := 0, mr_end := 0\<rparr>"

definition mr_pop_front :: "range \<Rightarrow> nat \<Rightarrow> range result" where
  "mr_pop_front r num = really_assert (num \<le> mr_size r) (Inr (r\<lparr>mr_begin := mr_begin r + num\<rparr>))"

definition mr_pop_back :: "range \<Rightarrow> nat \<Rightarrow> range result" where
  "mr_pop_back r num = really_assert (num \<le> mr_size r) (Inr (r\<lparr>mr_end := mr_end r - num\<rparr>))"

definition mr_shrink_from_front_to :: "range \<Rightarrow> nat \<Rightarrow> range" where
  "mr_shrink_from_front_to r newSize = (if newSize < mr_size r then r\<lparr>mr_begin := mr_end r - newSize\<rparr> else r)"

definition mr_shrink_from_back_to :: "range \<Rightarrow> nat \<Rightarrow> range" where
  "mr_shrink_from_back_to r newSize = (if newSize < mr_size r then r\<lparr>mr_end := mr_begin r + newSize\<rparr> else r)"

definition mr_head :: "range \<Rightarrow> nat \<Rightarrow> range" where
  "mr_head r n = mr_shrink_from_back_to r n"

definition mr_tail :: "range \<Rightarrow> nat \<Rightarrow> range" where
  "mr_tail r n = mr_shrink_from_front_to r n"

definition mr_discard_head :: "range \<Rightarrow> nat \<Rightarrow> range result" where
  "mr_discard_head r n = (if mr_size r \<le> n then Inr mr_null else mr_pop_front r n)"

definition mr_discard_tail :: "range \<Rightarrow> nat \<Rightarrow> range result" where
  "mr_discard_tail r n = (if mr_size r \<le> n then Inr mr_null else mr_pop_back r n)"

definition mr_intersecting :: "range \<Rightarrow> range \<Rightarrow> range" where
  "mr_intersecting x y = (if mr_begin x > mr_end y \<or> mr_end x < mr_begin y then mr_null
     else \<lparr>mr_begin = max (mr_begin x) (mr_begin y), mr_end = min (mr_end x) (mr_end y)\<rparr>)"

definition mr_contents :: "(nat \<Rightarrow> 'a) \<Rightarrow> range \<Rightarrow> 'a list" where
  "mr_contents mem r = map mem [mr_begin r..<mr_end r]"

definition mr_contents_equal :: "(nat \<Rightarrow> 'a) \<Rightarrow> range \<Rightarrow> range \<Rightarrow> bool" where
  "mr_contents_equal mem x y \<longleftrightarrow> mr_size x = mr_size y \<and> mr_contents mem x = mr_contents mem y"

definition mr_find_and_split :: "(nat \<Rightarrow> 'a) \<Rightarrow> range \<Rightarrow> 'a \<Rightarrow> range \<times> range" where
  "mr_find_and_split mem r search =
     (let position = mr_begin r + length (takeWhile (\<lambda>x. x \<noteq> search) (mr_contents mem r))
      in (mr_make (mr_begin r) position, mr_make position (mr_end r)))"

fun copy_to :: "(nat \<Rightarrow> 'a) \<Rightarrow> nat \<Rightarrow> 'a list \<Rightarrow> nat \<Rightarrow> 'a" where
  "copy_to mem a [] = mem"
| "copy_to mem a (x # xs) = copy_to (mem(a := x)) (Suc a) xs"

definition mr_copy :: "(nat \<Rightarrow> 'a) \<Rightarrow> range \<Rightarrow> range \<Rightarrow> (nat \<Rightarrow> 'a) result" where
  "mr_copy mem from to = really_assert (mr_size from = mr_size to)
     (Inr (copy_to mem (mr_begin to) (mr_contents mem from)))"

section \<open>What the operations show of a memory\<close>

definition mr_ok :: "range \<Rightarrow> bool" where
  "mr_ok r \<longleftrightarrow> mr_begin r \<le> mr_end r"

lemma length_mr_contents [simp]: "length (mr_contents mem r) = mr_size r"
  by (simp add: mr_contents_def mr_size_def)

lemma mr_contents_nth [simp]: "i < mr_size r \<Longrightarrow> mr_contents mem r ! i = mem (mr_begin r + i)"
  by (simp add: mr_contents_def mr_size_def)

lemma mr_contents_null [simp]: "mr_contents mem mr_null = []"
  by (simp add: mr_contents_def mr_null_def)

lemma mr_contents_head [simp]: "mr_contents mem (mr_head r n) = take n (mr_contents mem r)"
  by (intro nth_equalityI)
     (auto simp: mr_head_def mr_shrink_from_back_to_def mr_size_def mr_contents_def)

lemma mr_contents_tail: "mr_ok r \<Longrightarrow> mr_contents mem (mr_tail r n) = drop (mr_size r - n) (mr_contents mem r)"
  by (intro nth_equalityI)
     (auto simp: mr_tail_def mr_shrink_from_front_to_def mr_size_def mr_contents_def mr_ok_def)

lemma mr_discard_head_contents:
  "\<exists>r'. mr_discard_head r n = Inr r' \<and> mr_contents mem r' = drop n (mr_contents mem r)"
proof (cases "mr_size r \<le> n")
  case True
  then show ?thesis by (simp add: mr_discard_head_def)
next
  case False
  then have "mr_contents mem (r\<lparr>mr_begin := mr_begin r + n\<rparr>) = drop n (mr_contents mem r)"
    by (intro nth_equalityI) (auto simp: mr_contents_def mr_size_def add.assoc)
  with False show ?thesis by (simp add: mr_discard_head_def mr_pop_front_def)
qed

lemma mr_discard_tail_contents:
  "\<exists>r'. mr_discard_tail r n = Inr r' \<and> mr_contents mem r' = take (mr_size r - n) (mr_contents mem r)"
proof (cases "mr_size r \<le> n")
  case True
  then show ?thesis by (simp add: mr_discard_tail_def)
next
  case False
  then have "mr_contents mem (r\<lparr>mr_end := mr_end r - n\<rparr>) = take (mr_size r - n) (mr_contents mem r)"
    by (intro nth_equalityI) (auto simp: mr_contents_def mr_size_def)
  with False show ?thesis by (simp add: mr_discard_tail_def mr_pop_back_def)
qed

lemma mr_head_discard_head:
  assumes "mr_discard_head r n = Inr r'"
  shows "mr_contents mem (mr_head r n) @ mr_contents mem r' = mr_contents mem r"
  using mr_discard_head_contents [of r n mem] assms by auto

lemma mr_find_and_split_contents:
  assumes "mr_ok r" and "mr_find_and_split mem r x = (pre, post)"
  shows "mr_contents mem pre = takeWhile (\<lambda>y. y \<noteq> x) (mr_contents mem r)"
    and "mr_contents mem post = dropWhile (\<lambda>y. y \<noteq> x) (mr_contents mem r)"
proof -
  let ?k = "length (takeWhile (\<lambda>y. y \<noteq> x) (mr_contents mem r))"
  have k: "?k \<le> mr_size r"
    using length_takeWhile_le [of _ "mr_contents mem r"] by simp
  have "mr_contents mem pre = take ?k (mr_contents mem r)" "mr_contents mem post = drop ?k (mr_contents mem r)"
    using assms k
    by (auto simp: mr_find_and_split_def Let_def mr_make_def mr_contents_def mr_size_def mr_ok_def
        add.assoc intro!: nth_equalityI)
  then show "mr_contents mem pre = takeWhile (\<lambda>y. y \<noteq> x) (mr_contents mem r)"
    and "mr_contents mem post = dropWhile (\<lambda>y. y \<noteq> x) (mr_contents mem r)"
    by (simp_all add: take_length_takeWhile drop_length_takeWhile)
qed

lemma mr_intersecting_contains:
  assumes "mr_ok x" and "mr_ok y"
  shows "mr_contains (mr_intersecting x y) a \<longleftrightarrow> mr_contains x a \<and> mr_contains y a"
  using assms by (auto simp: mr_intersecting_def mr_contains_def mr_null_def mr_ok_def)

lemma copy_to_app: "copy_to mem a xs i = (if a \<le> i \<and> i < a + length xs then xs ! (i - a) else mem i)"
  by (induction xs arbitrary: mem a) (auto simp: nth_Cons' Suc_diff_le not_less_eq_eq)

lemma mr_copy_contents:
  assumes "mr_size from = mr_size to"
  shows "\<exists>mem'. mr_copy mem from to = Inr mem' \<and> mr_contents mem' to = mr_contents mem from \<and>
    (\<forall>i. \<not> mr_contains to i \<longrightarrow> mem' i = mem i)"
  using assms by (auto simp: mr_copy_def copy_to_app mr_contains_def mr_size_def intro!: nth_equalityI)

end
