(* ===== verification/Ring.thy ===== *)
theory Ring
  imports Slots
begin

text \<open>
  The elements of a ring: \<open>n\<close> slots of a storage from slot \<open>b\<close> on, wrapping at its end. The cyclic
  queues of the library (CyclicBuffer, AtomicByteQueue, QueueForOneReaderOneIrqWriter) differ in how
  they tell a full ring from an empty one; what a write after the last element and a removal at the
  front do to the elements is the same for all of them, and is proved here.
\<close>

definition ring_elems :: "'a list \<Rightarrow> nat \<Rightarrow> nat \<Rightarrow> 'a list" where
  "ring_elems st b n = map (\<lambda>i. st ! ((b + i) mod length st)) [0..<n]"

lemma length_ring_elems [simp]: "length (ring_elems st b n) = n"
  by (simp add: ring_elems_def)

lemma nth_ring_elems [simp]: "i < n \<Longrightarrow> ring_elems st b n ! i = st ! ((b + i) mod length st)"
  by (simp add: ring_elems_def)

lemma ring_elems_0 [simp]: "ring_elems st b 0 = []"
  by (simp add: ring_elems_def)

lemma ring_slot_inj_le:
  fixes c :: nat
  assumes "i \<le> j" and "j < c" and "(b + i) mod c = (b + j) mod c"
  shows "i = j"
proof -
  have "c dvd j - i"
    using assms mod_eq_dvd_iff_nat [of "b + i" "b + j" c] by simp
  moreover have "j - i < c" using assms(2) by simp
  ultimately have "j - i = 0" using nat_dvd_not_less by blast
  with assms(1) show ?thesis by simp
qed

lemma ring_slot_inj:
  fixes c :: nat
  assumes "i < c" and "j < c" and "(b + i) mod c = (b + j) mod c"
  shows "i = j"
  using ring_slot_inj_le [of i j c b] ring_slot_inj_le [of j i c b] assms by (metis nat_le_linear)

lemma ring_append:
  assumes e: "e = (b + n) mod length st" and fit: "e + length xs \<le> length st" and room: "n + length xs \<le> length st"
  shows "ring_elems (store_first st e xs) b (n + length xs) = ring_elems st b n @ xs"
proof (rule nth_equalityI)
  fix i
  assume "i < length (ring_elems (store_first st e xs) b (n + length xs))"
  then have i: "i < n + length xs" by simp
  then have c: "0 < length st" using room by linarith
  have slot: "(b + (n + k)) mod length st = e + k" if "k < length xs" for k
  proof -
    have "(b + (n + k)) mod length st = (e + k) mod length st"
      by (simp add: e mod_add_left_eq add.assoc)
    then show ?thesis using fit that by simp
  qed
  show "ring_elems (store_first st e xs) b (n + length xs) ! i = (ring_elems st b n @ xs) ! i"
  proof (cases "i < n")
    case True
    have "\<not> (e \<le> (b + i) mod length st \<and> (b + i) mod length st < e + length xs)"
    proof
      assume h: "e \<le> (b + i) mod length st \<and> (b + i) mod length st < e + length xs"
      then obtain k where k: "(b + i) mod length st = e + k" "k < length xs"
        by (metis le_Suc_ex nat_add_left_cancel_less)
      have "i < length st" "n + k < length st" using True room k(2) by linarith+
      moreover have "(b + i) mod length st = (b + (n + k)) mod length st" using k slot by simp
      ultimately have "i = n + k" by (rule ring_slot_inj)
      with True show False by simp
    qed
    moreover have "(b + i) mod length st < length st" using c by simp
    ultimately have "store_first st e xs ! ((b + i) mod length st) = st ! ((b + i) mod length st)"
      by (subst nth_store_first [OF fit]) metis+
    with True i show ?thesis by (simp add: nth_append)
  next
    case False
    with i obtain k where "i = n + k" "k < length xs" by (metis le_Suc_ex not_less nat_add_left_cancel_less)
    with slot fit c show ?thesis by (simp add: nth_store_first nth_append)
  qed
qed simp

lemma ring_append_one:
  assumes "e = (b + n) mod length st" and "n < length st"
  shows "ring_elems (st[e := x]) b (Suc n) = ring_elems st b n @ [x]"
proof -
  have "0 < length st" using assms(2) by linarith
  then have "e < length st" unfolding assms(1) by (rule mod_less_divisor)
  with ring_append [of e b n st "[x]"] assms show ?thesis by simp
qed

lemma ring_drop: "k \<le> n \<Longrightarrow> ring_elems st ((b + k) mod length st) (n - k) = drop k (ring_elems st b n)"
  by (rule nth_equalityI) (auto simp: mod_add_left_eq add.assoc)

lemma ring_contiguous:
  assumes "b + k + m \<le> length st" and "k + m \<le> n"
  shows "take m (drop (b + k) st) = take m (drop k (ring_elems st b n))"
  using assms by (intro nth_equalityI) (auto simp: add.assoc)

lemma ring_contiguous_wrapped:
  assumes "b < length st" and "length st \<le> b + k" and "b + k + m \<le> length st + length st" and "k + m \<le> n"
  shows "take m (drop (b + k - length st) st) = take m (drop k (ring_elems st b n))"
proof (rule nth_equalityI)
  fix i
  assume "i < length (take m (drop (b + k - length st) st))"
  then have i: "i < m" "b + k - length st + i < length st" by auto
  have "(b + (k + i)) mod length st = b + k - length st + i"
    using assms(2) i by (simp add: mod_if [of "b + (k + i)"] le_mod_geq)
  then show "take m (drop (b + k - length st) st) ! i = take m (drop k (ring_elems st b n)) ! i"
    using i assms by simp
qed (use assms in auto)

lemma ring_unchanged:
  assumes "e = (b + n) mod length st" and "e + length xs \<le> length st" and "n + length xs \<le> length st"
  shows "ring_elems (store_first st e xs) b n = ring_elems st b n"
proof -
  have "take n (ring_elems (store_first st e xs) b (n + length xs)) = ring_elems (store_first st e xs) b n"
    by (intro nth_equalityI) auto
  with ring_append [OF assms] show ?thesis by simp
qed

end
