(* ===== verification/Atomic_Byte_Queue.thy ===== *)
theory Atomic_Byte_Queue
  imports Ring
begin

text \<open>
  \<open>infra::AtomicByteQueue\<close> (infra/stream/AtomicByteQueue.cpp): a queue of bytes with one reader and
  one writer that may interrupt each other; the two cursors are atomic and one slot always stays
  free. The operations are first modelled as they run undisturbed, then as their atomic steps, in
  any interleaving of a pushing and a popping thread.
\<close>

section \<open>State and operations\<close>

record 'a abq =
  abq_storage :: "'a list"
  abq_b :: nat
  abq_e :: nat

definition abq_new :: "'a list \<Rightarrow> 'a abq" where
  "abq_new storage = \<lparr>abq_storage = storage, abq_b = 0, abq_e = 0\<rparr>"

definition abq_size :: "'a abq \<Rightarrow> nat" where
  "abq_size q = (let bgn = abq_b q; fin = abq_e q in
     if bgn \<le> fin then fin - bgn else length (abq_storage q) + fin - bgn)"

definition abq_max_size :: "'a abq \<Rightarrow> nat" where
  "abq_max_size q = length (abq_storage q) - 1"

definition abq_empty :: "'a abq \<Rightarrow> bool" where
  "abq_empty q \<longleftrightarrow> abq_b q = abq_e q"

text \<open>The body of the loop of \<open>Push\<close> in its three steps: copy a segment behind the published bytes,
  publish it, go back to the start of the storage at its end.\<close>

definition abq_segment :: "'a abq \<Rightarrow> 'a list \<Rightarrow> 'a list" where
  "abq_segment q bytes = take (length (abq_storage q) - abq_e q) bytes"

definition abq_copy :: "'a abq \<Rightarrow> 'a list \<Rightarrow> 'a abq" where
  "abq_copy q seg = q\<lparr>abq_storage := store_first (abq_storage q) (abq_e q) seg\<rparr>"

definition abq_publish :: "'a abq \<Rightarrow> nat \<Rightarrow> 'a abq" where
  "abq_publish q n = q\<lparr>abq_e := abq_e q + n\<rparr>"

definition abq_wrap_e :: "'a abq \<Rightarrow> 'a abq" where
  "abq_wrap_e q = (if abq_e q = length (abq_storage q) then q\<lparr>abq_e := 0\<rparr> else q)"

text \<open>The loop ends because each segment is not empty; on a storage without slots the code would
  not get on, which is the fault here.\<close>

function abq_push_loop :: "'a abq \<Rightarrow> 'a list \<Rightarrow> 'a abq result" where
  "abq_push_loop q bytes =
     (if bytes = [] then Inr q
      else in_bounds (abq_segment q bytes \<noteq> [])
        (let seg = abq_segment q bytes
         in if seg = [] then Inr q
            else abq_push_loop (abq_wrap_e (abq_publish (abq_copy q seg) (length seg))) (drop (length seg) bytes)))"
  by pat_completeness auto
termination by (relation "measure (\<lambda>(q, bytes). length bytes)") (auto simp: abq_segment_def)

declare abq_push_loop.simps [simp del]

definition abq_push :: "'a abq \<Rightarrow> 'a list \<Rightarrow> 'a abq result" where
  "abq_push q bytes = really_assert (length bytes \<le> abq_max_size q - abq_size q)
     (rbind (abq_push_loop q bytes) (\<lambda>q. really_assert (abq_e q < length (abq_storage q) \<and> abq_b q \<le> length (abq_storage q)) (Inr q)))"

definition abq_advance_b :: "'a abq \<Rightarrow> nat \<Rightarrow> 'a abq \<times> nat" where
  "abq_advance_b q n = (let takenFromEnd = min n (length (abq_storage q) - abq_b q)
     in (q\<lparr>abq_b := abq_b q + takenFromEnd\<rparr>, takenFromEnd))"

definition abq_wrap_b :: "'a abq \<Rightarrow> nat \<Rightarrow> 'a abq" where
  "abq_wrap_b q rest = (if abq_b q = length (abq_storage q) then q\<lparr>abq_b := rest\<rparr> else q)"

definition abq_pop :: "'a abq \<Rightarrow> nat \<Rightarrow> 'a abq result" where
  "abq_pop q n = (let (q1, takenFromEnd) = abq_advance_b q n; cap = length (abq_storage q) in
     really_assert (abq_b q1 \<le> cap \<and> abq_e q1 \<le> cap)
       (let q2 = abq_wrap_b q1 (n - takenFromEnd)
        in really_assert (abq_b q2 < cap \<and> abq_e q2 \<le> cap) (Inr q2)))"

definition abq_peek_contiguous_range :: "'a abq \<Rightarrow> nat \<Rightarrow> 'a list" where
  "abq_peek_contiguous_range q start =
     (let cap = length (abq_storage q);
          takenFromEnd = min start (cap - abq_b q);
          b1 = abq_b q + takenFromEnd;
          b2 = (if b1 = cap then start - takenFromEnd else b1)
      in if b2 \<le> abq_e q then take (abq_e q - b2) (drop b2 (abq_storage q)) else drop b2 (abq_storage q))"

section \<open>What the queue holds\<close>

definition abq_elems :: "'a abq \<Rightarrow> 'a list" where
  "abq_elems q = ring_elems (abq_storage q) (abq_b q) (abq_size q)"

definition abq_inv :: "'a abq \<Rightarrow> bool" where
  "abq_inv q \<longleftrightarrow> abq_b q < length (abq_storage q) \<and> abq_e q < length (abq_storage q)"

text \<open>Between the steps of an operation a cursor may stand at the end of the storage.\<close>

definition abq_wf :: "'a abq \<Rightarrow> bool" where
  "abq_wf q \<longleftrightarrow> abq_b q \<le> length (abq_storage q) \<and> abq_e q \<le> length (abq_storage q) \<and> abq_storage q \<noteq> []
     \<and> abq_size q < length (abq_storage q)"

lemma length_abq_elems [simp]: "length (abq_elems q) = abq_size q"
  by (simp add: abq_elems_def)

lemma abq_inv_wf: "abq_inv q \<Longrightarrow> abq_wf q"
  by (auto simp: abq_inv_def abq_wf_def abq_size_def Let_def)

lemma abq_end_slot: "abq_wf q \<Longrightarrow> abq_e q mod length (abq_storage q) = (abq_b q + abq_size q) mod length (abq_storage q)"
  by (auto simp: abq_wf_def abq_size_def Let_def)

lemma abq_copy_elems:
  assumes "abq_wf q" and "abq_e q + length seg \<le> length (abq_storage q)" and "abq_e q < length (abq_storage q)"
    and "abq_size q + length seg \<le> length (abq_storage q)"
  shows "abq_elems (abq_copy q seg) = abq_elems q" and "abq_size (abq_copy q seg) = abq_size q"
proof -
  show s: "abq_size (abq_copy q seg) = abq_size q" by (simp add: abq_size_def abq_copy_def Let_def)
  have "abq_e q = (abq_b q + abq_size q) mod length (abq_storage q)"
    using abq_end_slot [OF assms(1)] assms(3) by simp
  from ring_unchanged [OF this assms(2,4)] s show "abq_elems (abq_copy q seg) = abq_elems q"
    by (simp add: abq_elems_def abq_copy_def)
qed

lemma abq_publish_size:
  assumes "abq_wf q" and "abq_e q + n \<le> length (abq_storage q)" and "abq_size q + n < length (abq_storage q)"
  shows "abq_size (abq_publish q n) = abq_size q + n" and "abq_wf (abq_publish q n)"
  using assms by (auto simp: abq_wf_def abq_size_def abq_publish_def Let_def split: if_splits)

lemma abq_publish_elems:
  assumes wf: "abq_wf q" and fit: "abq_e q + length seg \<le> length (abq_storage q)" and e: "abq_e q < length (abq_storage q)"
    and room: "abq_size q + length seg < length (abq_storage q)"
    and seg: "take (length seg) (drop (abq_e q) (abq_storage q)) = seg"
  shows "abq_elems (abq_publish q (length seg)) = abq_elems q @ seg"
proof -
  have "seg ! k = abq_storage q ! (abq_e q + k)" if "k < length seg" for k
    using arg_cong [OF seg, of "\<lambda>xs. xs ! k"] that fit by simp
  then have "store_first (abq_storage q) (abq_e q) seg = abq_storage q"
    using fit by (intro nth_equalityI) (auto simp: nth_store_first)
  with ring_append [of "abq_e q" "abq_b q" "abq_size q" "abq_storage q" seg] abq_end_slot [OF wf] e fit room
    abq_publish_size [OF wf fit room]
  show ?thesis by (simp add: abq_elems_def) (simp add: abq_publish_def)
qed

lemma abq_wrap_e_props:
  assumes "abq_wf q" and "0 < abq_b q \<or> abq_e q < length (abq_storage q)"
  shows "abq_size (abq_wrap_e q) = abq_size q" and "abq_wf (abq_wrap_e q)" and "abq_elems (abq_wrap_e q) = abq_elems q"
  using assms by (auto simp: abq_wrap_e_def abq_size_def abq_wf_def abq_elems_def Let_def)

lemma abq_full_lap: "abq_wf q \<Longrightarrow> abq_e q = length (abq_storage q) \<Longrightarrow> 0 < abq_b q"
  by (auto simp: abq_wf_def abq_size_def Let_def)

text \<open>The reader's two steps.\<close>

lemma abq_advance_b_props:
  assumes "abq_wf q" and "n \<le> abq_size q" and "abq_advance_b q n = (q1, t)"
  shows "t \<le> n" and "abq_wf q1" and "abq_size q1 = abq_size q - t" and "abq_elems q1 = drop t (abq_elems q)"
    and "t = n \<or> abq_b q1 = length (abq_storage q1)" and "abq_e q1 = abq_e q" and "abq_storage q1 = abq_storage q"
proof -
  have q1: "q1 = q\<lparr>abq_b := abq_b q + t\<rparr>" and t: "t = min n (length (abq_storage q) - abq_b q)"
    using assms(3) by (auto simp: abq_advance_b_def Let_def)
  show s: "abq_size q1 = abq_size q - t"
    using assms(1,2) unfolding q1 t by (auto simp: abq_size_def abq_wf_def Let_def min_def split: if_splits)
  have "ring_elems (abq_storage q) (abq_b q + t) (abq_size q - t) = drop t (abq_elems q)"
    using ring_drop [of t "abq_size q" "abq_storage q" "abq_b q"] assms(2) t
    by (simp add: abq_elems_def ring_elems_def mod_add_left_eq)
  then show "abq_elems q1 = drop t (abq_elems q)"
    by (simp only: abq_elems_def s) (simp add: q1)
  show "abq_wf q1"
    using assms(1) s by (auto simp: abq_wf_def) (auto simp: q1 t)
qed (use assms in \<open>auto simp: abq_advance_b_def abq_wf_def Let_def\<close>)

lemma abq_wrap_b_props:
  assumes "abq_wf q" and "r \<le> abq_size q" and "r = 0 \<or> abq_b q = length (abq_storage q)"
    and "abq_e q < length (abq_storage q)"
  shows "abq_wf (abq_wrap_b q r)" and "abq_elems (abq_wrap_b q r) = drop r (abq_elems q)"
    and "abq_size (abq_wrap_b q r) = abq_size q - r" and "abq_b (abq_wrap_b q r) < length (abq_storage q)"
proof -
  show s: "abq_size (abq_wrap_b q r) = abq_size q - r"
    using assms by (auto simp: abq_size_def abq_wrap_b_def abq_wf_def Let_def split: if_splits)
  show b: "abq_b (abq_wrap_b q r) < length (abq_storage q)"
    using assms by (auto simp: abq_wrap_b_def abq_wf_def)
  have "abq_storage (abq_wrap_b q r) = abq_storage q" "abq_e (abq_wrap_b q r) = abq_e q"
    by (simp_all add: abq_wrap_b_def)
  with assms s b show "abq_wf (abq_wrap_b q r)"
    by (auto simp: abq_wf_def)
  have "ring_elems (abq_storage q) r (abq_size q - r) = drop r (abq_elems q)" if "abq_b q = length (abq_storage q)"
    using ring_drop [of r "abq_size q" "abq_storage q" "abq_b q"] assms(2) that
    by (simp add: abq_elems_def ring_elems_def mod_add_left_eq)
  then show "abq_elems (abq_wrap_b q r) = drop r (abq_elems q)"
    using assms(3) s by (auto simp: abq_elems_def) (auto simp: abq_wrap_b_def)
qed

section \<open>The operations undisturbed\<close>

lemma abq_push_round:
  assumes wf: "abq_wf q" and e: "abq_e q < length (abq_storage q)" and room: "abq_size q + length xs < length (abq_storage q)"
    and ne: "xs \<noteq> []"
  defines "seg \<equiv> abq_segment q xs"
  defines "q' \<equiv> abq_wrap_e (abq_publish (abq_copy q seg) (length seg))"
  shows "seg \<noteq> []" and "abq_wf q'" and "abq_e q' < length (abq_storage q')" and "abq_size q' = abq_size q + length seg"
    and "length (abq_storage q') = length (abq_storage q)" and "abq_b q' = abq_b q" and "abq_elems q' = abq_elems q @ seg"
    and "xs = seg @ drop (length seg) xs"
proof -
  have seg: "seg = take (length (abq_storage q) - abq_e q) xs" by (simp add: seg_def abq_segment_def)
  then have fit: "abq_e q + length seg \<le> length (abq_storage q)" using e by simp
  have len: "length seg \<le> length xs" by (simp add: seg)
  let ?c = "abq_copy q seg"
  have cst: "length (abq_storage ?c) = length (abq_storage q)" "abq_e ?c = abq_e q" "abq_b ?c = abq_b q"
    by (simp_all add: abq_copy_def)
  have ce: "abq_elems ?c = abq_elems q" "abq_size ?c = abq_size q"
    using abq_copy_elems [OF wf fit e] room len by simp_all
  have cw: "abq_wf ?c" using wf cst ce(2) by (auto simp: abq_wf_def)
  have written: "take (length seg) (drop (abq_e ?c) (abq_storage ?c)) = seg"
    using fit by (intro nth_equalityI) (auto simp: abq_copy_def nth_store_first)
  let ?p = "abq_publish ?c (length seg)"
  have pe: "abq_elems ?p = abq_elems q @ seg"
    using abq_publish_elems [OF cw, of seg] cst ce fit e room len written by simp
  have ps: "abq_size ?p = abq_size q + length seg" and pw: "abq_wf ?p"
    using abq_publish_size [OF cw, of "length seg"] cst ce fit room len by simp_all
  have lap: "0 < abq_b ?p \<or> abq_e ?p < length (abq_storage ?p)"
    using abq_full_lap [OF pw] pw by (auto simp: abq_wf_def)
  show "abq_wf q'" "abq_size q' = abq_size q + length seg" "abq_elems q' = abq_elems q @ seg"
    unfolding q'_def using abq_wrap_e_props [OF pw lap] ps pe by simp_all
  show "abq_e q' < length (abq_storage q')"
    using pw by (auto simp: q'_def abq_wrap_e_def abq_wf_def)
  show "length (abq_storage q') = length (abq_storage q)" "abq_b q' = abq_b q"
    using cst by (simp_all add: q'_def abq_wrap_e_def abq_publish_def)
  show "seg \<noteq> []" using ne e by (simp add: seg)
  show "xs = seg @ drop (length seg) xs" by (simp add: seg min_def)
qed

lemma abq_push_loop_spec:
  assumes "abq_wf q" and "abq_e q < length (abq_storage q)" and "abq_size q + length xs < length (abq_storage q)"
  shows "\<exists>q'. abq_push_loop q xs = Inr q' \<and> abq_wf q' \<and> abq_e q' < length (abq_storage q') \<and>
    length (abq_storage q') = length (abq_storage q) \<and> abq_b q' = abq_b q \<and> abq_elems q' = abq_elems q @ xs"
  using assms
proof (induction q xs rule: abq_push_loop.induct)
  case (1 q xs)
  show ?case
  proof (cases "xs = []")
    case True
    then show ?thesis using "1.prems" by (simp add: abq_push_loop.simps [of q])
  next
    case False
    let ?seg = "abq_segment q xs"
    let ?q = "abq_wrap_e (abq_publish (abq_copy q ?seg) (length ?seg))"
    note r = abq_push_round [OF "1.prems" False]
    have "length ?seg \<le> length xs" by (simp add: abq_segment_def)
    then have "\<exists>q'. abq_push_loop ?q (drop (length ?seg) xs) = Inr q' \<and> abq_wf q' \<and> abq_e q' < length (abq_storage q') \<and>
        length (abq_storage q') = length (abq_storage ?q) \<and> abq_b q' = abq_b ?q \<and>
        abq_elems q' = abq_elems ?q @ drop (length ?seg) xs"
      using False r "1.prems"(3) by (intro "1.IH") auto
    moreover have "abq_push_loop q xs = abq_push_loop ?q (drop (length ?seg) xs)"
      using False r(1) by (subst abq_push_loop.simps) (simp add: Let_def)
    ultimately show ?thesis using r(5-8) by auto
  qed
qed

lemma abq_push_spec:
  assumes wf: "abq_wf q" and e: "abq_e q < length (abq_storage q)"
  shows "length xs \<le> abq_max_size q - abq_size q \<Longrightarrow>
      \<exists>q'. abq_push q xs = Inr q' \<and> abq_wf q' \<and> abq_e q' < length (abq_storage q') \<and>
        length (abq_storage q') = length (abq_storage q) \<and> abq_b q' = abq_b q \<and> abq_elems q' = abq_elems q @ xs"
    and "abq_max_size q - abq_size q < length xs \<Longrightarrow> abq_push q xs = Inl Assert_failed"
proof -
  assume "length xs \<le> abq_max_size q - abq_size q"
  moreover from this have "abq_size q + length xs < length (abq_storage q)"
    using wf by (auto simp: abq_wf_def abq_max_size_def)
  ultimately show "\<exists>q'. abq_push q xs = Inr q' \<and> abq_wf q' \<and> abq_e q' < length (abq_storage q') \<and>
      length (abq_storage q') = length (abq_storage q) \<and> abq_b q' = abq_b q \<and> abq_elems q' = abq_elems q @ xs"
    using abq_push_loop_spec [OF wf e] by (force simp: abq_push_def abq_wf_def)
qed (simp add: abq_push_def)

lemma abq_pop_spec:
  assumes inv: "abq_inv q" and n: "n \<le> abq_size q"
  shows "\<exists>q'. abq_pop q n = Inr q' \<and> abq_inv q' \<and> abq_elems q' = drop n (abq_elems q) \<and> abq_storage q' = abq_storage q"
proof -
  obtain q1 t where a: "abq_advance_b q n = (q1, t)" by (cases "abq_advance_b q n")
  note p = abq_advance_b_props [OF abq_inv_wf [OF inv] n a]
  have e: "abq_e q1 < length (abq_storage q1)" using inv p(6,7) by (simp add: abq_inv_def)
  have w: "abq_wf (abq_wrap_b q1 (n - t))" "abq_elems (abq_wrap_b q1 (n - t)) = drop (n - t) (abq_elems q1)"
    "abq_b (abq_wrap_b q1 (n - t)) < length (abq_storage q1)"
    using abq_wrap_b_props [of q1 "n - t"] p e n by auto
  have f: "abq_e (abq_wrap_b q1 (n - t)) = abq_e q" "abq_storage (abq_wrap_b q1 (n - t)) = abq_storage q"
    using p(6,7) by (simp_all add: abq_wrap_b_def)
  have "abq_pop q n = Inr (abq_wrap_b q1 (n - t))"
    using a p e w f by (auto simp: abq_pop_def abq_wf_def)
  then show ?thesis
    using w f p e by (auto simp: abq_inv_def)
qed

lemma abq_peek_prefix:
  assumes inv: "abq_inv q" and n: "n \<le> abq_size q"
  shows "\<exists>k. abq_peek_contiguous_range q n = take k (drop n (abq_elems q)) \<and> (n < abq_size q \<longrightarrow> 0 < k)"
proof -
  let ?cap = "length (abq_storage q)" and ?b = "abq_b q" and ?e = "abq_e q"
  have lt: "?b < ?cap" "?e < ?cap" using inv by (simp_all add: abq_inv_def)
  consider (plain) "?b \<le> ?e" | (tail) "?e < ?b" "?b + n < ?cap" | (wrapped) "?e < ?b" "?cap \<le> ?b + n" by linarith
  then show ?thesis
  proof cases
    case plain
    then have "abq_peek_contiguous_range q n = take (?e - (?b + n)) (drop (?b + n) (abq_storage q))"
      using n lt by (auto simp: abq_peek_contiguous_range_def abq_size_def Let_def)
    also have "\<dots> = take (?e - (?b + n)) (drop n (abq_elems q))"
      unfolding abq_elems_def using plain n lt by (intro ring_contiguous) (auto simp: abq_size_def Let_def)
    finally show ?thesis using plain n by (intro exI [of _ "?e - (?b + n)"]) (auto simp: abq_size_def)
  next
    case tail
    then have "abq_peek_contiguous_range q n = take (?cap - (?b + n)) (drop (?b + n) (abq_storage q))"
      using lt by (auto simp: abq_peek_contiguous_range_def Let_def)
    also have "\<dots> = take (?cap - (?b + n)) (drop n (abq_elems q))"
      unfolding abq_elems_def using tail n lt by (intro ring_contiguous) (auto simp: abq_size_def Let_def)
    finally show ?thesis using tail by (intro exI [of _ "?cap - (?b + n)"]) auto
  next
    case wrapped
    let ?m = "?e - (?b + n - ?cap)"
    have "n - (?cap - ?b) = ?b + n - ?cap" using lt by simp
    then have "abq_peek_contiguous_range q n = take ?m (drop (?b + n - ?cap) (abq_storage q))"
      using wrapped n lt by (auto simp: abq_peek_contiguous_range_def abq_size_def Let_def)
    also have "\<dots> = take ?m (drop n (abq_elems q))"
      unfolding abq_elems_def using wrapped n lt
      by (intro ring_contiguous_wrapped) (auto simp: abq_size_def Let_def)
    finally show ?thesis using wrapped n lt by (intro exI [of _ ?m]) (auto simp: abq_size_def)
  qed
qed

section \<open>A pushing interrupt\<close>

text \<open>\<open>Push\<close> runs from an interrupt: it may come between the two steps of \<open>Pop\<close>, and then runs to its
  end. Ghost state: \<open>sys_sent\<close> is what has been pushed, \<open>sys_received\<close> what has been popped.\<close>

datatype reader_pc = R_idle | R_wrap nat

record 'a abq_sys =
  sys_q :: "'a abq"
  sys_reader :: reader_pc
  sys_sent :: "'a list"
  sys_received :: "'a list"

inductive abq_irq_step :: "'a abq_sys \<Rightarrow> 'a abq_sys \<Rightarrow> bool" where
  push: "abq_push (sys_q s) xs = Inr q' \<Longrightarrow>
    abq_irq_step s (s\<lparr>sys_q := q', sys_sent := sys_sent s @ xs\<rparr>)"
| pop_advance: "sys_reader s = R_idle \<Longrightarrow> n \<le> abq_size (sys_q s) \<Longrightarrow> abq_advance_b (sys_q s) n = (q', t) \<Longrightarrow>
    abq_irq_step s (s\<lparr>sys_q := q', sys_reader := R_wrap (n - t),
      sys_received := sys_received s @ take t (abq_elems (sys_q s))\<rparr>)"
| pop_wrap: "sys_reader s = R_wrap r \<Longrightarrow>
    abq_irq_step s (s\<lparr>sys_q := abq_wrap_b (sys_q s) r, sys_reader := R_idle,
      sys_received := sys_received s @ take r (abq_elems (sys_q s))\<rparr>)"

inductive abq_irq_reachable :: "'a list \<Rightarrow> 'a abq_sys \<Rightarrow> bool" for storage where
  start: "abq_irq_reachable storage \<lparr>sys_q = abq_new storage, sys_reader = R_idle, sys_sent = [], sys_received = []\<rparr>"
| step: "abq_irq_reachable storage s \<Longrightarrow> abq_irq_step s t \<Longrightarrow> abq_irq_reachable storage t"

fun reader_ok :: "'a abq \<Rightarrow> reader_pc \<Rightarrow> bool" where
  "reader_ok q R_idle \<longleftrightarrow> abq_b q < length (abq_storage q)"
| "reader_ok q (R_wrap r) \<longleftrightarrow> r \<le> abq_size q \<and> (r = 0 \<or> abq_b q = length (abq_storage q))"

definition abq_sys_inv :: "'a abq_sys \<Rightarrow> bool" where
  "abq_sys_inv s \<longleftrightarrow> abq_wf (sys_q s) \<and> abq_e (sys_q s) < length (abq_storage (sys_q s)) \<and>
     reader_ok (sys_q s) (sys_reader s) \<and> sys_sent s = sys_received s @ abq_elems (sys_q s)"

lemma abq_irq_step_inv: "abq_irq_step s t \<Longrightarrow> abq_sys_inv s \<Longrightarrow> abq_sys_inv t"
proof (induction rule: abq_irq_step.induct)
  case (push s xs q')
  then have wf: "abq_wf (sys_q s)" and e: "abq_e (sys_q s) < length (abq_storage (sys_q s))"
    by (simp_all add: abq_sys_inv_def)
  have fits: "length xs \<le> abq_max_size (sys_q s) - abq_size (sys_q s)"
    using push abq_push_spec(2) [OF wf e, of xs] by (cases "length xs \<le> abq_max_size (sys_q s) - abq_size (sys_q s)") auto
  obtain p: "abq_wf q'" "abq_e q' < length (abq_storage q')" "length (abq_storage q') = length (abq_storage (sys_q s))"
      "abq_b q' = abq_b (sys_q s)" "abq_elems q' = abq_elems (sys_q s) @ xs"
    using abq_push_spec(1) [OF wf e fits] push.hyps by auto
  have "abq_size q' = abq_size (sys_q s) + length xs"
    using arg_cong [OF p(5), of length] by simp
  with push p show ?case
    by (cases "sys_reader s") (auto simp: abq_sys_inv_def)
next
  case (pop_advance s n q' t)
  then have wf: "abq_wf (sys_q s)" by (simp add: abq_sys_inv_def)
  note p = abq_advance_b_props [OF wf pop_advance.hyps(2,3)]
  show ?case using pop_advance p by (auto simp: abq_sys_inv_def)
next
  case (pop_wrap s r)
  then have a: "abq_wf (sys_q s)" "r \<le> abq_size (sys_q s)" "r = 0 \<or> abq_b (sys_q s) = length (abq_storage (sys_q s))"
      "abq_e (sys_q s) < length (abq_storage (sys_q s))"
    by (auto simp: abq_sys_inv_def)
  have f: "abq_e (abq_wrap_b (sys_q s) r) = abq_e (sys_q s)" "abq_storage (abq_wrap_b (sys_q s) r) = abq_storage (sys_q s)"
    by (simp_all add: abq_wrap_b_def)
  show ?case using pop_wrap abq_wrap_b_props [OF a] f by (auto simp: abq_sys_inv_def)
qed

lemma abq_irq_reachable_inv: "abq_irq_reachable storage s \<Longrightarrow> storage \<noteq> [] \<Longrightarrow> abq_sys_inv s"
proof (induction rule: abq_irq_reachable.induct)
  case start
  then show ?case
    by (simp add: abq_sys_inv_def abq_new_def abq_wf_def abq_size_def abq_elems_def)
qed (blast intro: abq_irq_step_inv)

text \<open>C33: when pushing interrupts popping at any of its steps, the bytes received and then the bytes
  still in the queue are exactly the bytes sent, in order: nothing is lost, doubled or invented.\<close>

theorem abq_irq_fifo:
  assumes "abq_irq_reachable storage s" and "storage \<noteq> []"
  shows "sys_sent s = sys_received s @ abq_elems (sys_q s) \<and> abq_size (sys_q s) \<le> abq_max_size (sys_q s)"
  using abq_irq_reachable_inv [OF assms]
  by (auto simp: abq_sys_inv_def abq_wf_def abq_max_size_def)

lemma abq_irq_example:
  "abq_irq_reachable [0, 0, 0 :: int] \<lparr>sys_q = \<lparr>abq_storage = [7, 8, 0], abq_b = 1, abq_e = 2\<rparr>,
     sys_reader = R_wrap 0, sys_sent = [7, 8], sys_received = [7]\<rparr>"
proof -
  let ?s = "\<lparr>sys_q = abq_new [0, 0, 0 :: int], sys_reader = R_idle, sys_sent = [], sys_received = []\<rparr>"
  let ?q = "\<lparr>abq_storage = [7, 8, 0 :: int], abq_b = 0, abq_e = 2\<rparr>"
  have "abq_push (abq_new [0, 0, 0]) [7, 8] = Inr ?q"
    by (simp add: abq_push_def abq_push_loop.simps abq_segment_def abq_copy_def abq_publish_def abq_wrap_e_def
      abq_new_def abq_max_size_def abq_size_def Let_def)
  from abq_irq_reachable.step [OF abq_irq_reachable.start abq_irq_step.push [of ?s, simplified, OF this]]
  have "abq_irq_reachable [0, 0, 0] (?s\<lparr>sys_q := ?q, sys_sent := [7, 8]\<rparr>)" by simp
  from abq_irq_reachable.step [OF this abq_irq_step.pop_advance [where n = 1, OF _ _ surjective_pairing]]
  show ?thesis
    by (simp add: abq_advance_b_def abq_size_def abq_elems_def ring_elems_def Let_def numeral_2_eq_2)
qed

theorem abq_irq_fifo_witness:
  "[7, 8 :: int] = [7] @ abq_elems \<lparr>abq_storage = [7, 8, 0], abq_b = 1, abq_e = 2\<rparr>"
  using abq_irq_fifo [OF abq_irq_example] by simp

section \<open>A preempted push\<close>

text \<open>When \<open>Pop\<close> may also run between the steps of \<open>Push\<close>, as on two threads, the moment between
  publishing a segment that ends at the end of the storage and resetting the write cursor is
  unsafe: the reader takes the last bytes, resets its own cursor first, and then finds the whole
  storage to be readable.\<close>

datatype 'a writer_pc = W_idle | W_loop "'a list" | W_wrap "'a list"

record 'a abq_par = "'a abq_sys" +
  par_writer :: "'a writer_pc"

inductive abq_par_step :: "'a abq_par \<Rightarrow> 'a abq_par \<Rightarrow> bool" where
  push_start: "par_writer s = W_idle \<Longrightarrow> length xs \<le> abq_max_size (sys_q s) - abq_size (sys_q s) \<Longrightarrow>
    abq_par_step s (s\<lparr>par_writer := W_loop xs\<rparr>)"
| push_publish: "par_writer s = W_loop xs \<Longrightarrow> xs \<noteq> [] \<Longrightarrow> seg = abq_segment (sys_q s) xs \<Longrightarrow>
    abq_par_step s (s\<lparr>sys_q := abq_publish (abq_copy (sys_q s) seg) (length seg),
      sys_sent := sys_sent s @ seg, par_writer := W_wrap (drop (length seg) xs)\<rparr>)"
| push_wrap: "par_writer s = W_wrap xs \<Longrightarrow>
    abq_par_step s (s\<lparr>sys_q := abq_wrap_e (sys_q s), par_writer := W_loop xs\<rparr>)"
| push_done: "par_writer s = W_loop [] \<Longrightarrow> abq_par_step s (s\<lparr>par_writer := W_idle\<rparr>)"
| par_pop_advance: "sys_reader s = R_idle \<Longrightarrow> n \<le> abq_size (sys_q s) \<Longrightarrow> abq_advance_b (sys_q s) n = (q', t) \<Longrightarrow>
    abq_par_step s (s\<lparr>sys_q := q', sys_reader := R_wrap (n - t),
      sys_received := sys_received s @ take t (abq_elems (sys_q s))\<rparr>)"
| par_pop_wrap: "sys_reader s = R_wrap r \<Longrightarrow>
    abq_par_step s (s\<lparr>sys_q := abq_wrap_b (sys_q s) r, sys_reader := R_idle,
      sys_received := sys_received s @ take r (abq_elems (sys_q s))\<rparr>)"

inductive abq_par_reachable :: "'a list \<Rightarrow> 'a abq_par \<Rightarrow> bool" for storage where
  par_start: "abq_par_reachable storage
    \<lparr>sys_q = abq_new storage, sys_reader = R_idle, sys_sent = [], sys_received = [], par_writer = W_idle\<rparr>"
| par_step: "abq_par_reachable storage s \<Longrightarrow> abq_par_step s t \<Longrightarrow> abq_par_reachable storage t"

lemmas abq_eval = abq_advance_b_def abq_size_def abq_elems_def ring_elems_def abq_segment_def abq_copy_def
  abq_publish_def abq_wrap_e_def abq_wrap_b_def abq_new_def abq_max_size_def Let_def

text \<open>C35: with a preempted \<open>Push\<close>, a state is reachable in which the reader has received everything
  that was sent, and yet the queue claims to hold as many bytes as its whole storage, one more
  than its own maximum: the reader would read the storage's stale bytes again.\<close>

theorem abq_preempted_push_corrupts:
  "\<exists>s. abq_par_reachable [0, 0 :: int] s \<and> sys_received s = sys_sent s \<and>
     abq_size (sys_q s) = abq_max_size (sys_q s) + 1 \<and> abq_peek_contiguous_range (sys_q s) 0 = [7, 8]"
proof -
  let ?init = "\<lparr>sys_q = abq_new [0, 0 :: int], sys_reader = R_idle, sys_sent = [], sys_received = [], par_writer = W_idle\<rparr>"
  note go = abq_par_reachable.par_step
  have "abq_par_reachable [0, 0] ?init" by (rule par_start)
  from go [OF this push_start [where xs = "[7]"]]
  have "abq_par_reachable [0, 0] (?init\<lparr>par_writer := W_loop [7]\<rparr>)" by (simp add: abq_eval)
  from go [OF this push_publish [OF _ _ refl, where xs = "[7]"]]
  have "abq_par_reachable [0, 0] (?init\<lparr>sys_q := \<lparr>abq_storage = [7, 0], abq_b = 0, abq_e = 1\<rparr>, sys_sent := [7], par_writer := W_wrap []\<rparr>)"
    by (simp add: abq_eval)
  from go [OF this push_wrap]
  have "abq_par_reachable [0, 0] (?init\<lparr>sys_q := \<lparr>abq_storage = [7, 0], abq_b = 0, abq_e = 1\<rparr>, sys_sent := [7], par_writer := W_loop []\<rparr>)"
    by (simp add: abq_eval)
  from go [OF this push_done]
  have "abq_par_reachable [0, 0] (?init\<lparr>sys_q := \<lparr>abq_storage = [7, 0], abq_b = 0, abq_e = 1\<rparr>, sys_sent := [7]\<rparr>)"
    by simp
  from go [OF this par_pop_advance [where n = 1, OF _ _ surjective_pairing]]
  have "abq_par_reachable [0, 0] (?init\<lparr>sys_q := \<lparr>abq_storage = [7, 0], abq_b = 1, abq_e = 1\<rparr>, sys_sent := [7], sys_received := [7], sys_reader := R_wrap 0\<rparr>)"
    by (simp add: abq_eval)
  from go [OF this par_pop_wrap]
  have "abq_par_reachable [0, 0] (?init\<lparr>sys_q := \<lparr>abq_storage = [7, 0], abq_b = 1, abq_e = 1\<rparr>, sys_sent := [7], sys_received := [7]\<rparr>)"
    by (simp add: abq_eval)
  from go [OF this push_start [where xs = "[8]"]]
  have "abq_par_reachable [0, 0] (?init\<lparr>sys_q := \<lparr>abq_storage = [7, 0], abq_b = 1, abq_e = 1\<rparr>, sys_sent := [7], sys_received := [7], par_writer := W_loop [8]\<rparr>)"
    by (simp add: abq_eval)
  from go [OF this push_publish [OF _ _ refl, where xs = "[8]"]]
  have "abq_par_reachable [0, 0] (?init\<lparr>sys_q := \<lparr>abq_storage = [7, 8], abq_b = 1, abq_e = 2\<rparr>, sys_sent := [7, 8], sys_received := [7], par_writer := W_wrap []\<rparr>)"
    by (simp add: abq_eval numeral_2_eq_2)
  from go [OF this par_pop_advance [where n = 1, OF _ _ surjective_pairing]]
  have "abq_par_reachable [0, 0] (?init\<lparr>sys_q := \<lparr>abq_storage = [7, 8], abq_b = 2, abq_e = 2\<rparr>, sys_sent := [7, 8], sys_received := [7, 8], sys_reader := R_wrap 0, par_writer := W_wrap []\<rparr>)"
    by (simp add: abq_eval numeral_2_eq_2)
  from go [OF this par_pop_wrap]
  have "abq_par_reachable [0, 0] (?init\<lparr>sys_q := \<lparr>abq_storage = [7, 8], abq_b = 0, abq_e = 2\<rparr>, sys_sent := [7, 8], sys_received := [7, 8], par_writer := W_wrap []\<rparr>)"
    by (simp add: abq_eval numeral_2_eq_2)
  then show ?thesis by (intro exI conjI, assumption) (simp_all add: abq_eval abq_peek_contiguous_range_def numeral_2_eq_2)
qed

end
