(* ===== verification/Streams.thy ===== *)
theory Streams
  imports Prelude
begin

text \<open>
  The stream interfaces of infra/stream: how a stream reports errors (StreamErrorPolicy.cpp),
  the virtual functions of \<open>StreamReader\<close> and \<open>StreamReaderWithRewinding\<close> as records of functions
  (one field per virtual function), the operations of \<open>InputStream\<close> over them, and the
  contracts a reader promises as locales. A reader is described by the bytes it still holds,
  \<open>rem\<close>; a rewinding reader also by the bytes it has handed out, \<open>seen\<close>.
\<close>

section \<open>Error policies\<close>

datatype failure_mode = Assertion | Soft | No

record policy =
  pol_failureMode :: failure_mode
  pol_failed :: bool
  pol_checkedFail :: bool

text \<open>A counting reader passes itself as the policy, wrapping the one it was given.\<close>

datatype error_policy = Plain policy | Counting_policy error_policy bool

definition assert_policy :: error_policy where
  "assert_policy = Plain \<lparr>pol_failureMode = Assertion, pol_failed = False, pol_checkedFail = True\<rparr>"

definition soft_fail :: error_policy where
  "soft_fail = Plain \<lparr>pol_failureMode = Soft, pol_failed = False, pol_checkedFail = True\<rparr>"

definition no_fail :: error_policy where
  "no_fail = Plain \<lparr>pol_failureMode = No, pol_failed = False, pol_checkedFail = True\<rparr>"

definition policy_report_result :: "policy \<Rightarrow> bool \<Rightarrow> policy result" where
  "policy_report_result p ok =
     (let p1 = (if ok then p else p\<lparr>pol_failed := True\<rparr>)
      in really_assert (ok \<or> pol_failureMode p1 \<noteq> Assertion)
           (Inr (p1\<lparr>pol_checkedFail := (pol_failureMode p1 \<noteq> Soft)\<rparr>)))"

fun report_result :: "error_policy \<Rightarrow> bool \<Rightarrow> error_policy result" where
  "report_result (Plain p) ok = rbind (policy_report_result p ok) (\<lambda>p'. Inr (Plain p'))"
| "report_result (Counting_policy other allOk) ok =
     rbind (report_result other ok) (\<lambda>o'. Inr (Counting_policy o' (allOk \<and> ok)))"

fun policy_failed :: "error_policy \<Rightarrow> bool \<times> error_policy" where
  "policy_failed (Plain p) = (pol_failed p, Plain (p\<lparr>pol_checkedFail := True\<rparr>))"
| "policy_failed (Counting_policy other allOk) =
     (case policy_failed other of (failed, o') \<Rightarrow> (failed, Counting_policy o' allOk))"

definition policy_destroy :: "policy \<Rightarrow> unit result" where
  "policy_destroy p = really_assert (pol_checkedFail p) (Inr ())"

fun failed :: "error_policy \<Rightarrow> bool" where
  "failed (Plain p) = pol_failed p"
| "failed (Counting_policy other _) = failed other"

fun mode :: "error_policy \<Rightarrow> failure_mode" where
  "mode (Plain p) = pol_failureMode p"
| "mode (Counting_policy other _) = mode other"

fun needs_check :: "error_policy \<Rightarrow> bool" where
  "needs_check (Plain p) = (\<not> pol_checkedFail p)"
| "needs_check (Counting_policy other _) = needs_check other"

lemma fst_policy_failed [simp]: "fst (policy_failed p) = failed p"
  by (induction p) (auto split: prod.splits)

lemma report_result_cases:
  "report_result p ok = Inl f \<longleftrightarrow> \<not> ok \<and> mode p = Assertion \<and> f = Assert_failed"
  "report_result p ok = Inr p' \<Longrightarrow> mode p' = mode p \<and> failed p' = (failed p \<or> \<not> ok) \<and>
     needs_check p' = (mode p = Soft) \<and> (ok \<or> mode p \<noteq> Assertion)"
proof (induction p arbitrary: p')
  case (Plain p)
  case 1 show ?case by (auto simp: policy_report_result_def Let_def really_assert_def)
  case 2 then show ?case by (auto simp: policy_report_result_def Let_def really_assert_def split: if_splits)
next
  case (Counting_policy other allOk)
  case 1 show ?case using Counting_policy(1) by (cases "report_result other ok") auto
  case 2 then show ?case using Counting_policy(2) by (cases "report_result other ok") auto
qed

text \<open>What an operation reports while it runs.\<close>

fun report_all :: "error_policy \<Rightarrow> bool list \<Rightarrow> error_policy result" where
  "report_all p [] = Inr p"
| "report_all p (b # bs) = rbind (report_result p b) (\<lambda>p'. report_all p' bs)"

lemma report_all_append: "report_all p (xs @ ys) = rbind (report_all p xs) (\<lambda>p'. report_all p' ys)"
  by (induction xs arbitrary: p) (simp_all add: rbind_assoc)

lemma report_all_one: "report_all p [b] = report_result p b"
  by (cases "report_result p b") auto

text \<open>An operation that reports once.\<close>

lemma reports_once:
  "(\<And>p. X p = rbind (report_result p True) f) \<Longrightarrow> \<exists>bs. False \<notin> set bs \<and> (\<forall>p. X p = rbind (report_all p bs) f)"
  "(\<And>p. Y p = rbind (report_result p False) f) \<Longrightarrow> \<exists>bs. False \<in> set bs \<and> (\<forall>p. Y p = rbind (report_all p bs) f)"
  by (auto intro: exI [of _ "[True]"] exI [of _ "[False]"] simp del: report_all.simps simp: report_all_one)

text \<open>A reader that keeps an offset into its bytes: clipping a request to what remains.\<close>

lemma drop_clipped: "drop (i + min n (length xs - i)) xs = drop n (drop i xs)"
  "drop (i + min (length xs - i) n) xs = drop n (drop i xs)"
  by (simp_all add: min_def add.commute)

lemma take_clipped: "take (min n (length xs - i)) (drop i xs) = take n (drop i xs)"
  by (simp add: min_def)

lemma take_offset: "take (i + min (length xs - i) n) xs = take i xs @ take n (drop i xs)"
  "take (i + min n (length xs - i)) xs = take i xs @ take n (drop i xs)"
  by (simp_all add: take_add min_def)

lemmas clipped = drop_clipped take_clipped take_offset

lemma report_all_fault: "report_all p bs = Inl f \<longleftrightarrow> False \<in> set bs \<and> mode p = Assertion \<and> f = Assert_failed"
proof (induction bs arbitrary: p)
  case (Cons b bs)
  show ?case
  proof (cases "report_result p b")
    case (Inl g)
    then show ?thesis using report_result_cases(1) [of p b g] by auto
  next
    case (Inr q)
    then show ?thesis using report_result_cases(2) [OF Inr] Cons.IH [of q] by auto
  qed
qed simp

lemma report_all_ok:
  "report_all p bs = Inr p' \<Longrightarrow> mode p' = mode p \<and> failed p' = (failed p \<or> False \<in> set bs) \<and>
     (False \<in> set bs \<longrightarrow> mode p \<noteq> Assertion \<and> needs_check p' = (mode p = Soft))"
proof (induction bs arbitrary: p)
  case (Cons b bs)
  then obtain q where q: "report_result p b = Inr q" and r: "report_all q bs = Inr p'"
    by (cases "report_result p b") auto
  have tl: "bs = [] \<or> needs_check p' = (mode q = Soft)"
    using r
  proof (induction bs arbitrary: q)
    case (Cons c cs)
    then obtain s where s: "report_result q c = Inr s" and r: "report_all s cs = Inr p'"
      by (cases "report_result q c") auto
    from Cons.IH [OF r] report_result_cases(2) [OF s] r show ?case by (cases cs) auto
  qed simp
  show ?case
    using Cons.IH [OF r] report_result_cases(2) [OF q] tl r by (cases bs) auto
qed simp

section \<open>Readers\<close>

record 'r stream_reader =
  sr_extract :: "'r \<Rightarrow> error_policy \<Rightarrow> nat \<Rightarrow> ('r \<times> error_policy \<times> byte list) result"
  sr_peek :: "'r \<Rightarrow> error_policy \<Rightarrow> (error_policy \<times> byte) result"
  sr_extract_contiguous :: "'r \<Rightarrow> nat \<Rightarrow> ('r \<times> byte list) result"
  sr_peek_contiguous :: "'r \<Rightarrow> nat \<Rightarrow> byte list result"
  sr_empty :: "'r \<Rightarrow> bool"
  sr_available :: "'r \<Rightarrow> nat"

record 'r rewinding_reader = "'r stream_reader" +
  sr_construct_save_marker :: "'r \<Rightarrow> nat"
  sr_rewind :: "'r \<Rightarrow> nat \<Rightarrow> 'r result"

text \<open>\<open>Extract\<close> fills the destination from the front: the model returns the bytes written, and
  the rest of the destination keeps what it held.\<close>

definition extract_into :: "byte list \<Rightarrow> byte list \<Rightarrow> byte list" where
  "extract_into dest bytes = bytes @ drop (length bytes) dest"

text \<open>\<open>InputStream::Consume\<close>.\<close>

function consume_loop :: "('r, 'x) stream_reader_scheme \<Rightarrow> 'r \<Rightarrow> error_policy \<Rightarrow> nat \<Rightarrow> ('r \<times> error_policy) result" where
  "consume_loop ops r p amount =
     (if 0 < amount
      then rbind (sr_extract_contiguous ops r amount) (\<lambda>(r', range).
             if length range = 0 then rbind (report_result p False) (\<lambda>p'. Inr (r', p'))
             else consume_loop ops r' p (amount - length range))
      else rbind (report_result p True) (\<lambda>p'. Inr (r, p')))"
  by pat_completeness auto
termination by (relation "measure (\<lambda>(ops, r, p, amount). amount)") auto

declare consume_loop.simps [simp del]

text \<open>The contract of every reader: \<open>Extract\<close> hands out the next bytes, all that were asked for
  unless the stream ends before, and reports a failure exactly in that case.\<close>

locale reader =
  fixes ops :: "('r, 'x) stream_reader_scheme"
    and ok :: "'r \<Rightarrow> bool"
    and rem :: "'r \<Rightarrow> byte list"
  assumes extracts: "ok r \<Longrightarrow> \<exists>bs r'. (False \<in> set bs) = (length (rem r) < n) \<and> ok r' \<and> rem r' = drop n (rem r) \<and>
      (\<forall>p. sr_extract ops r p n = rbind (report_all p bs) (\<lambda>p'. Inr (r', p', take n (rem r))))"
    and peek: "ok r \<Longrightarrow> rem r \<noteq> [] \<Longrightarrow>
      \<exists>bs. False \<notin> set bs \<and> (\<forall>p. sr_peek ops r p = rbind (report_all p bs) (\<lambda>p'. Inr (p', hd (rem r))))"
    and extract_contiguous: "ok r \<Longrightarrow> \<exists>r' k. sr_extract_contiguous ops r maxLen = Inr (r', take k (rem r)) \<and>
      k \<le> maxLen \<and> (rem r \<noteq> [] \<and> 0 < maxLen \<longrightarrow> 0 < k) \<and> ok r' \<and> rem r' = drop k (rem r)"
    and empty: "ok r \<Longrightarrow> sr_empty ops r = (rem r = [])"
    and available: "ok r \<Longrightarrow> sr_available ops r = length (rem r)"
begin

lemma extract_enough:
  assumes "ok r" and "n \<le> length (rem r)"
  shows "\<exists>r' p'. sr_extract ops r p n = Inr (r', p', take n (rem r)) \<and> ok r' \<and> rem r' = drop n (rem r) \<and>
    failed p' = failed p \<and> mode p' = mode p"
proof -
  obtain bs r' where b: "(False \<in> set bs) = (length (rem r) < n)" "ok r'" "rem r' = drop n (rem r)"
    and e: "sr_extract ops r p n = rbind (report_all p bs) (\<lambda>p'. Inr (r', p', take n (rem r)))"
    using extracts [OF assms(1), of n] by blast
  show ?thesis
  proof (cases "report_all p bs")
    case (Inl f)
    with report_all_fault [of p bs f] b assms show ?thesis by auto
  next
    case (Inr p')
    with report_all_ok [OF Inr] b e assms show ?thesis by auto
  qed
qed

lemma extract_short:
  assumes "ok r" and "length (rem r) < n"
  shows "mode p = Assertion \<Longrightarrow> sr_extract ops r p n = Inl Assert_failed"
    and "mode p \<noteq> Assertion \<Longrightarrow> \<exists>r' p'. sr_extract ops r p n = Inr (r', p', rem r) \<and> ok r' \<and> rem r' = [] \<and>
      failed p' \<and> mode p' = mode p \<and> needs_check p' = (mode p = Soft)"
proof -
  obtain bs r' where b: "(False \<in> set bs) = (length (rem r) < n)" "ok r'" "rem r' = drop n (rem r)"
    and e: "sr_extract ops r p n = rbind (report_all p bs) (\<lambda>p'. Inr (r', p', take n (rem r)))"
    using extracts [OF assms(1), of n] by blast
  show "sr_extract ops r p n = Inl Assert_failed" if "mode p = Assertion"
    using report_all_fault [of p bs Assert_failed] b e assms that by auto
  show "\<exists>r' p'. sr_extract ops r p n = Inr (r', p', rem r) \<and> ok r' \<and> rem r' = [] \<and>
      failed p' \<and> mode p' = mode p \<and> needs_check p' = (mode p = Soft)" if m: "mode p \<noteq> Assertion"
  proof (cases "report_all p bs")
    case (Inl f)
    with report_all_fault [of p bs f] m show ?thesis by auto
  next
    case (Inr p')
    with report_all_ok [OF Inr] b e assms show ?thesis by auto
  qed
qed

lemma consume:
  assumes "ok r"
  shows "\<exists>r'. ok r' \<and> rem r' = drop amount (rem r) \<and>
    consume_loop ops r p amount = rbind (report_result p (amount \<le> length (rem r))) (\<lambda>p'. Inr (r', p'))"
  using assms
proof (induction amount arbitrary: r rule: less_induct)
  case (less amount)
  show ?case
  proof (cases "0 < amount")
    case True
    obtain r' k where e: "sr_extract_contiguous ops r amount = Inr (r', take k (rem r))" and k: "k \<le> amount"
      and pos: "rem r \<noteq> [] \<and> 0 < amount \<longrightarrow> 0 < k" and r': "ok r'" "rem r' = drop k (rem r)"
      using extract_contiguous [OF less.prems, of amount] by blast
    show ?thesis
    proof (cases "rem r = []")
      case True
      with \<open>0 < amount\<close> e r' show ?thesis by (subst consume_loop.simps) auto
    next
      case False
      let ?m = "min k (length (rem r))"
      from False True pos k have m: "0 < ?m" "?m \<le> amount" by auto
      from m True have "amount - ?m < amount" by linarith
      from less.IH [OF this r'(1)] obtain r'' where
        "ok r''" and rem'': "rem r'' = drop (amount - ?m) (drop k (rem r))" and
        c: "consume_loop ops r' p (amount - ?m) =
             rbind (report_result p (amount - ?m \<le> length (rem r) - k)) (\<lambda>p'. Inr (r'', p'))"
        using r'(2) by auto
      have "drop (amount - ?m) (drop k (rem r)) = drop amount (rem r)"
        using k by (cases "k \<le> length (rem r)") auto
      moreover have "(amount - ?m \<le> length (rem r) - k) = (amount \<le> length (rem r))"
        using k m by (cases "k \<le> length (rem r)") auto
      moreover have "consume_loop ops r p amount = consume_loop ops r' p (amount - ?m)"
        using e m True by (subst consume_loop.simps) (simp add: min.commute)
      ultimately show ?thesis using c rem'' \<open>ok r''\<close> by auto
    qed
  next
    case False
    then show ?thesis using less.prems by (subst consume_loop.simps) auto
  qed
qed

end

text \<open>Readers that also let the user look ahead safely: a peek at the end of the stream reports
  a failure, and the contiguous look-ahead shows only bytes still to be read.\<close>

locale peeking_reader = reader +
  assumes peek_at_end: "ok r \<Longrightarrow> rem r = [] \<Longrightarrow>
      \<exists>bs. False \<in> set bs \<and> (\<forall>p. sr_peek ops r p = rbind (report_all p bs) (\<lambda>p'. Inr (p', 0)))"

locale contiguous_peeker = reader +
  assumes peek_contiguous: "ok r \<Longrightarrow> start \<le> length (rem r) \<Longrightarrow>
      \<exists>k. sr_peek_contiguous ops r start = Inr (take k (drop start (rem r))) \<and> (start < length (rem r) \<longrightarrow> 0 < k)"

text \<open>Readers that can go back to a marker. Two readers with the same bytes seen and remaining are
  at the same place.\<close>

locale rewinder = reader ops ok rem
  for ops :: "('r, 'x) rewinding_reader_scheme" and ok and rem +
  fixes seen :: "'r \<Rightarrow> byte list"
  assumes extract_seen: "ok r \<Longrightarrow> sr_extract ops r p n = Inr (r', p', bytes) \<Longrightarrow> seen r' = seen r @ bytes"
    and extract_contiguous_seen: "ok r \<Longrightarrow> sr_extract_contiguous ops r maxLen = Inr (r', bytes) \<Longrightarrow> seen r' = seen r @ bytes"
    and marker: "ok r \<Longrightarrow> sr_construct_save_marker ops r = length (seen r)"
    and rewind: "ok r \<Longrightarrow> m \<le> length (seen r) \<Longrightarrow>
      \<exists>r'. sr_rewind ops r m = Inr r' \<and> ok r' \<and> seen r' = take m (seen r) \<and> rem r' = drop m (seen r) @ rem r"
begin

lemma extract_seen_all:
  assumes "ok r" and "\<forall>p. sr_extract ops r p n = rbind (report_all p bs) (\<lambda>p'. Inr (r', p', xs))"
  shows "seen r' = seen r @ xs"
proof -
  have "mode no_fail = No" by (simp add: no_fail_def)
  then obtain q where "report_all no_fail bs = Inr q"
    using report_all_fault [of no_fail bs] by (cases "report_all no_fail bs") auto
  with assms(2) have "sr_extract ops r no_fail n = Inr (r', q, xs)" by simp
  with assms(1) show ?thesis by (rule extract_seen)
qed

lemma rewind_undoes_extract:
  assumes "ok r" and "sr_extract ops r p n = Inr (r1, p', bytes)"
  shows "\<exists>r2. sr_rewind ops r1 (sr_construct_save_marker ops r) = Inr r2 \<and> ok r2 \<and> seen r2 = seen r \<and> rem r2 = rem r"
proof -
  obtain bs ra where ra: "ok ra" "rem ra = drop n (rem r)"
    and e: "sr_extract ops r p n = rbind (report_all p bs) (\<lambda>p'. Inr (ra, p', take n (rem r)))"
    using extracts [OF assms(1), of n] by blast
  with assms(2) have "r1 = ra" "bytes = take n (rem r)" by (auto simp: rbind_Inr)
  moreover have "seen r1 = seen r @ bytes" by (rule extract_seen [OF assms])
  ultimately show ?thesis
    using rewind [of r1 "length (seen r)"] marker [OF assms(1)] ra by auto
qed

end

text \<open>Readers that keep an offset into bytes that do not change: what they promise of the offset
  gives the contract of a reader that can be rewound.\<close>

locale offset_reader =
  fixes ops :: "('r, 'x) rewinding_reader_scheme"
    and ok :: "'r \<Rightarrow> bool"
    and bytes :: "'r \<Rightarrow> byte list"
    and offset :: "'r \<Rightarrow> nat"
  assumes offset_le: "ok r \<Longrightarrow> offset r \<le> length (bytes r)"
    and offset_extract: "ok r \<Longrightarrow> \<exists>bs r'. (False \<in> set bs) = (length (bytes r) - offset r < n) \<and> ok r' \<and>
      bytes r' = bytes r \<and> offset r' = offset r + min n (length (bytes r) - offset r) \<and>
      (\<forall>p. sr_extract ops r p n = rbind (report_all p bs) (\<lambda>p'. Inr (r', p', take n (drop (offset r) (bytes r)))))"
    and offset_peek: "ok r \<Longrightarrow> offset r < length (bytes r) \<Longrightarrow>
      \<exists>bs. False \<notin> set bs \<and> (\<forall>p. sr_peek ops r p = rbind (report_all p bs) (\<lambda>p'. Inr (p', bytes r ! offset r)))"
    and offset_extract_contiguous: "ok r \<Longrightarrow> \<exists>r' k. sr_extract_contiguous ops r maxLen = Inr (r', take k (drop (offset r) (bytes r))) \<and>
      k \<le> maxLen \<and> (offset r < length (bytes r) \<and> 0 < maxLen \<longrightarrow> 0 < k) \<and> ok r' \<and> bytes r' = bytes r \<and>
      offset r' = offset r + min k (length (bytes r) - offset r)"
    and offset_empty: "ok r \<Longrightarrow> sr_empty ops r = (offset r = length (bytes r))"
    and offset_available: "ok r \<Longrightarrow> sr_available ops r = length (bytes r) - offset r"
    and offset_marker: "ok r \<Longrightarrow> sr_construct_save_marker ops r = offset r"
    and offset_rewind: "ok r \<Longrightarrow> m \<le> offset r \<Longrightarrow> \<exists>r'. sr_rewind ops r m = Inr r' \<and> ok r' \<and> bytes r' = bytes r \<and> offset r' = m"

sublocale offset_reader \<subseteq> rewinder ops ok "\<lambda>r. drop (offset r) (bytes r)" "\<lambda>r. take (offset r) (bytes r)"
proof unfold_locales
  fix r n assume ok: "ok r"
  show "\<exists>bs r'. (False \<in> set bs) = (length (drop (offset r) (bytes r)) < n) \<and> ok r' \<and>
      drop (offset r') (bytes r') = drop n (drop (offset r) (bytes r)) \<and>
      (\<forall>p. sr_extract ops r p n = rbind (report_all p bs) (\<lambda>p'. Inr (r', p', take n (drop (offset r) (bytes r)))))"
    using offset_extract [OF ok, of n] by (metis drop_clipped(1) length_drop)
next
  fix r assume ok: "ok r" and "drop (offset r) (bytes r) \<noteq> []"
  then have "offset r < length (bytes r)" by simp
  from offset_peek [OF ok this] this
  show "\<exists>bs. False \<notin> set bs \<and> (\<forall>p. sr_peek ops r p = rbind (report_all p bs) (\<lambda>p'. Inr (p', hd (drop (offset r) (bytes r)))))"
    by (simp add: hd_drop_conv_nth)
next
  fix r and n :: nat assume ok: "ok r"
  show "\<exists>r' k. sr_extract_contiguous ops r n = Inr (r', take k (drop (offset r) (bytes r))) \<and> k \<le> n \<and>
      (drop (offset r) (bytes r) \<noteq> [] \<and> 0 < n \<longrightarrow> 0 < k) \<and> ok r' \<and>
      drop (offset r') (bytes r') = drop k (drop (offset r) (bytes r))"
    using offset_extract_contiguous [OF ok, of n] offset_le [OF ok]
    by (metis drop_clipped(1) drop_eq_Nil2 linorder_not_le)
next
  fix r p n r' p' xs assume ok: "ok r" and e: "sr_extract ops r p n = Inr (r', p', xs)"
  from offset_extract [OF ok, of n] obtain bs r1 where
    r1: "bytes r1 = bytes r" "offset r1 = offset r + min n (length (bytes r) - offset r)"
    and e1: "sr_extract ops r p n = rbind (report_all p bs) (\<lambda>p'. Inr (r1, p', take n (drop (offset r) (bytes r))))"
    by blast
  from e e1 have "r' = r1" "xs = take n (drop (offset r) (bytes r))" by (auto simp: rbind_Inr)
  with r1 show "take (offset r') (bytes r') = take (offset r) (bytes r) @ xs" by (simp add: take_offset)
next
  fix r n r' xs assume ok: "ok r" and e: "sr_extract_contiguous ops r n = Inr (r', xs)"
  from offset_extract_contiguous [OF ok, of n] e
  show "take (offset r') (bytes r') = take (offset r) (bytes r) @ xs" by (auto simp: take_offset)
next
  fix r m assume ok: "ok r" and m: "m \<le> length (take (offset r) (bytes r))"
  then have "m \<le> offset r" using offset_le [OF ok] by simp
  moreover have "drop m (take (offset r) (bytes r)) @ drop (offset r) (bytes r) = drop m (bytes r)"
    using \<open>m \<le> offset r\<close> by (metis append_take_drop_id drop_append diff_is_0_eq' drop0 length_take m)
  ultimately show "\<exists>r'. sr_rewind ops r m = Inr r' \<and> ok r' \<and> take (offset r') (bytes r') = take m (take (offset r) (bytes r)) \<and>
      drop (offset r') (bytes r') = drop m (take (offset r) (bytes r)) @ drop (offset r) (bytes r)"
    using offset_rewind [OF ok \<open>m \<le> offset r\<close>] by (auto simp: min_def)
qed (use offset_le in \<open>auto simp: offset_empty offset_available offset_marker min_def le_antisym\<close>)

end
