(* ===== verification/Stream_Writers.thy ===== *)
theory Stream_Writers
  imports Streams Bounded_Deque Bounded_Vector Atomic_Byte_Queue Memory_Range
begin

text \<open>
  The writers of infra/stream: over a byte range of memory (ByteOutputStream.cpp), a bounded vector
  (BoundedVectorOutputStream.cpp), a bounded deque (BoundedDequeOutputStream.cpp) and the
  interrupt-safe ring (AtomicByteQueue.cpp); at most a number of bytes of another writer
  (LimitedOutputStream.cpp); into another writer with a deque for what does not fit
  (BufferingStreamWriter.cpp). The contract of a writer is the locale \<open>writer\<close>. The last section
  is \<open>SavedMarkerStreamWriter\<close>: inserting bytes before ones already written.
\<close>

record 'w stream_writer =
  sw_insert :: "'w \<Rightarrow> error_policy \<Rightarrow> byte list \<Rightarrow> ('w \<times> error_policy) result"
  sw_available :: "'w \<Rightarrow> nat"

text \<open>A writer takes the bytes it has room for, in order, and reports a failure exactly when it had
  no room for all.\<close>

locale writer =
  fixes ops :: "'w stream_writer"
    and ok :: "'w \<Rightarrow> bool"
    and written :: "'w \<Rightarrow> byte list"
    and room :: "'w \<Rightarrow> nat"
  assumes inserts: "ok w \<Longrightarrow> \<exists>bs w'. (False \<in> set bs) = (room w < length xs) \<and> ok w' \<and>
      written w' = written w @ take (room w) xs \<and> room w' = room w - length xs \<and>
      (\<forall>p. sw_insert ops w p xs = rbind (report_all p bs) (\<lambda>p'. Inr (w', p')))"
    and available: "ok w \<Longrightarrow> sw_available ops w = room w"
begin

lemma insert_fits:
  assumes "ok w" and "length xs \<le> room w"
  shows "\<exists>w' p'. sw_insert ops w p xs = Inr (w', p') \<and> ok w' \<and> written w' = written w @ xs \<and>
    room w' = room w - length xs \<and> failed p' = failed p \<and> mode p' = mode p"
proof -
  obtain bs w' where b: "(False \<in> set bs) = (room w < length xs)" "ok w'" "written w' = written w @ take (room w) xs"
      "room w' = room w - length xs" and e: "sw_insert ops w p xs = rbind (report_all p bs) (\<lambda>p'. Inr (w', p'))"
    using inserts [OF assms(1), of xs] by blast
  show ?thesis
  proof (cases "report_all p bs")
    case (Inl f)
    with report_all_fault [of p bs f] b assms show ?thesis by auto
  next
    case (Inr p')
    with report_all_ok [OF Inr] b e assms show ?thesis by auto
  qed
qed

lemma insert_overflow:
  assumes "ok w" and "room w < length xs" and "mode p \<noteq> Assertion"
  shows "\<exists>w' p'. sw_insert ops w p xs = Inr (w', p') \<and> ok w' \<and> written w' = written w @ take (room w) xs \<and>
    room w' = 0 \<and> failed p'"
proof -
  obtain bs w' where b: "(False \<in> set bs) = (room w < length xs)" "ok w'" "written w' = written w @ take (room w) xs"
      "room w' = room w - length xs" and e: "sw_insert ops w p xs = rbind (report_all p bs) (\<lambda>p'. Inr (w', p'))"
    using inserts [OF assms(1), of xs] by blast
  show ?thesis
  proof (cases "report_all p bs")
    case (Inl f)
    with report_all_fault [of p bs f] assms show ?thesis by auto
  next
    case (Inr p')
    with report_all_ok [OF Inr] b e assms show ?thesis by auto
  qed
qed

end

section \<open>A range of memory\<close>

text \<open>The memory is the list of its bytes; the writer knows the range it may fill.\<close>

record byte_writer_state =
  bw_streamRange :: range
  bw_offset :: nat

definition bw_new :: "range \<Rightarrow> byte_writer_state" where
  "bw_new r = \<lparr>bw_streamRange = r, bw_offset = 0\<rparr>"

definition bw_reset :: "byte_writer_state \<Rightarrow> byte_writer_state" where
  "bw_reset w = w\<lparr>bw_offset := 0\<rparr>"

definition bw_reset_range :: "byte_writer_state \<Rightarrow> range \<Rightarrow> byte_writer_state" where
  "bw_reset_range w r = w\<lparr>bw_offset := 0, bw_streamRange := r\<rparr>"

definition bw_processed :: "byte_writer_state \<Rightarrow> range" where
  "bw_processed w = mr_make (mr_begin (bw_streamRange w)) (mr_begin (bw_streamRange w) + bw_offset w)"

definition bw_remaining :: "byte_writer_state \<Rightarrow> range" where
  "bw_remaining w = mr_make (mr_begin (bw_streamRange w) + bw_offset w) (mr_end (bw_streamRange w))"

definition bw_available :: "byte_writer_state \<Rightarrow> nat" where
  "bw_available w = mr_size (bw_streamRange w) - bw_offset w"

definition bw_insert :: "byte list \<times> byte_writer_state \<Rightarrow> error_policy \<Rightarrow> byte list \<Rightarrow> ((byte list \<times> byte_writer_state) \<times> error_policy) result" where
  "bw_insert mw p data = (case mw of (mem, w) \<Rightarrow>
     rbind (report_result p (length data \<le> bw_available w)) (\<lambda>p'.
       let data = take (bw_available w) data; start = mr_begin (bw_streamRange w) + bw_offset w
       in in_bounds (start + length data \<le> length mem)
            (Inr ((store_first mem start data, w\<lparr>bw_offset := bw_offset w + length data\<rparr>), p'))))"

definition bw_construct_save_marker :: "byte_writer_state \<Rightarrow> nat" where
  "bw_construct_save_marker w = bw_offset w"

definition bw_get_processed_bytes_since :: "byte_writer_state \<Rightarrow> nat \<Rightarrow> nat" where
  "bw_get_processed_bytes_since w marker = bw_offset w - marker"

definition bw_overwrite :: "byte_writer_state \<Rightarrow> nat \<Rightarrow> range result" where
  "bw_overwrite w marker = mr_discard_head (bw_streamRange w) marker"

text \<open>\<open>SaveState\<close> moves what was written after the marker to the end of the range, last byte first;
  \<open>RestoreState\<close> moves it back to where the given range begins, first byte first.\<close>

definition bw_save_state :: "byte list \<Rightarrow> byte_writer_state \<Rightarrow> nat \<Rightarrow> byte list \<times> range" where
  "bw_save_state mem w marker =
     (let copyBegin = mr_begin (bw_streamRange w) + marker; copyEnd = mr_begin (bw_streamRange w) + bw_offset w;
          n = copyEnd - copyBegin; fin = mr_end (bw_streamRange w)
      in (shift_up list_update (!) n (fin - 1) (fin - copyEnd) mem, mr_make copyBegin (fin - n)))"

definition bw_restore_state :: "byte list \<Rightarrow> byte_writer_state \<Rightarrow> range \<Rightarrow> byte list \<times> byte_writer_state" where
  "bw_restore_state mem w r =
     (let n = mr_end (bw_streamRange w) - mr_end r
      in (shift_down list_update (!) n (mr_begin r) (mr_end r) mem,
          w\<lparr>bw_offset := nat (int (bw_offset w) + (int (mr_begin r) - int (mr_begin (bw_streamRange w) + bw_offset w)) + int n)\<rparr>))"

definition byte_writer :: "(byte list \<times> byte_writer_state) stream_writer" where
  "byte_writer = \<lparr>sw_insert = bw_insert, sw_available = (\<lambda>(mem, w). bw_available w)\<rparr>"

definition bw_ok :: "byte list \<times> byte_writer_state \<Rightarrow> bool" where
  "bw_ok mw \<longleftrightarrow> (case mw of (mem, w) \<Rightarrow> mr_begin (bw_streamRange w) \<le> mr_end (bw_streamRange w) \<and>
     mr_end (bw_streamRange w) \<le> length mem \<and> bw_offset w \<le> mr_size (bw_streamRange w))"

definition slice :: "'a list \<Rightarrow> nat \<Rightarrow> nat \<Rightarrow> 'a list" where
  "slice mem b n = take n (drop b mem)"

definition bw_written :: "byte list \<times> byte_writer_state \<Rightarrow> byte list" where
  "bw_written mw = (case mw of (mem, w) \<Rightarrow> slice mem (mr_begin (bw_streamRange w)) (bw_offset w))"

lemma length_slice [simp]: "b + n \<le> length mem \<Longrightarrow> length (slice mem b n) = n"
  by (simp add: slice_def)

lemma nth_slice [simp]: "i < n \<Longrightarrow> b + n \<le> length mem \<Longrightarrow> slice mem b n ! i = mem ! (b + i)"
  by (simp add: slice_def)

lemma slice_eqI:
  assumes "b + n \<le> length mem" and "b' + n \<le> length mem'" and "\<And>i. i < n \<Longrightarrow> mem ! (b + i) = mem' ! (b' + i)"
  shows "slice mem b n = slice mem' b' n"
  using assms by (intro nth_equalityI) simp_all

lemma slice_split: "slice mem b (m + n) = slice mem b m @ slice mem (b + m) n"
  by (simp add: slice_def take_add add.commute)

lemma slice_store:
  "b + n + length xs \<le> length mem \<Longrightarrow> slice (store_first mem (b + n) xs) b (n + length xs) = slice mem b n @ xs"
  by (intro nth_equalityI) (auto simp: nth_store_first nth_append)

interpretation bw: writer byte_writer bw_ok bw_written "\<lambda>(mem, w). bw_available w"
proof
  fix mw and xs :: "byte list" assume ok: "bw_ok mw"
  obtain mem w where mw: "mw = (mem, w)" by (cases mw)
  let ?data = "take (bw_available w) xs"
  let ?mw = "(store_first mem (mr_begin (bw_streamRange w) + bw_offset w) ?data, w\<lparr>bw_offset := bw_offset w + length ?data\<rparr>)"
  have fits: "mr_begin (bw_streamRange w) + bw_offset w + length ?data \<le> length mem"
    using ok by (auto simp: mw bw_ok_def bw_available_def mr_size_def)
  have "bw_written ?mw = bw_written mw @ ?data"
    using slice_store [OF fits] by (simp add: bw_written_def mw)
  moreover have "bw_ok ?mw" using ok by (auto simp: mw bw_ok_def bw_available_def mr_size_def)
  moreover have "bw_insert mw p xs = rbind (report_all p [length xs \<le> bw_available w]) (\<lambda>p'. Inr (?mw, p'))" for p
    using fits by (simp add: bw_insert_def mw Let_def report_all_one del: report_all.simps)
  moreover have "bw_available (snd ?mw) = bw_available w - length xs"
    using ok by (auto simp: mw bw_available_def bw_ok_def)
  ultimately show "\<exists>bs w'. (False \<in> set bs) = ((case mw of (mem, w) \<Rightarrow> bw_available w) < length xs) \<and> bw_ok w' \<and>
      bw_written w' = bw_written mw @ take (case mw of (mem, w) \<Rightarrow> bw_available w) xs \<and>
      (case w' of (mem, w) \<Rightarrow> bw_available w) = (case mw of (mem, w) \<Rightarrow> bw_available w) - length xs \<and>
      (\<forall>p. sw_insert byte_writer mw p xs = rbind (report_all p bs) (\<lambda>p'. Inr (w', p')))"
    by (intro exI [of _ "[length xs \<le> bw_available w]"] exI [of _ ?mw])
       (auto simp: mw byte_writer_def simp del: report_all.simps)
qed (auto simp: byte_writer_def)

section \<open>A bounded vector, a bounded deque\<close>

definition vw_available :: "byte vec \<Rightarrow> nat" where
  "vw_available v = vec_max_size v - vec_size v"

definition vw_insert :: "byte vec \<Rightarrow> error_policy \<Rightarrow> byte list \<Rightarrow> (byte vec \<times> error_policy) result" where
  "vw_insert v p xs = (let spaceLeft = vw_available v; spaceOk = length xs \<le> spaceLeft
     in rbind (report_result p spaceOk) (\<lambda>p'.
          rbind (vec_insert_range v (vec_size v) (take spaceLeft xs)) (\<lambda>v'. Inr (v', p'))))"

definition vw_construct_save_marker :: "byte vec \<Rightarrow> nat" where
  "vw_construct_save_marker v = vec_size v"

definition vw_get_processed_bytes_since :: "byte vec \<Rightarrow> nat \<Rightarrow> nat" where
  "vw_get_processed_bytes_since v marker = vec_size v - marker"

definition vector_writer :: "byte vec stream_writer" where
  "vector_writer = \<lparr>sw_insert = vw_insert, sw_available = vw_available\<rparr>"

interpretation vw: writer vector_writer vec_inv vec_range vw_available
proof
  fix v :: "byte vec" and xs :: "byte list" assume inv: "vec_inv v"
  let ?xs = "take (vw_available v) xs"
  have "vec_yields (vec_insert_range v (vec_size v) ?xs) (vec_max_size v) (vec_range v @ ?xs)"
    using inv vec_insert_range_yields [of v ?xs "vec_size v"] by (auto simp: vw_available_def vec_inv_def vec_size_def)
  then obtain v' where v': "vec_insert_range v (vec_size v) ?xs = Inr v'" "vec_inv v'" "vec_max_size v' = vec_max_size v"
      "vec_range v' = vec_range v @ ?xs"
    by (auto simp: vec_yields_def)
  then have "vec_size v' = vec_size v + length ?xs" by (metis length_append length_vec_range)
  moreover have "vw_insert v p xs = rbind (report_all p [length xs \<le> vw_available v]) (\<lambda>p'. Inr (v', p'))" for p
    by (simp add: vw_insert_def Let_def v' report_all_one del: report_all.simps)
  ultimately show "\<exists>bs w'. (False \<in> set bs) = (vw_available v < length xs) \<and> vec_inv w' \<and>
      vec_range w' = vec_range v @ ?xs \<and> vw_available w' = vw_available v - length xs \<and>
      (\<forall>p. sw_insert vector_writer v p xs = rbind (report_all p bs) (\<lambda>p'. Inr (w', p')))"
    using v' by (intro exI [of _ "[length xs \<le> vw_available v]"] exI [of _ v'])
       (auto simp: vector_writer_def vw_available_def simp del: report_all.simps)
qed (simp add: vector_writer_def)

definition dw_available :: "byte deque \<Rightarrow> nat" where
  "dw_available d = dq_max_size d - dq_size d"

definition dw_insert :: "byte deque \<Rightarrow> error_policy \<Rightarrow> byte list \<Rightarrow> (byte deque \<times> error_policy) result" where
  "dw_insert d p xs = (let spaceLeft = dw_available d; spaceOk = length xs \<le> spaceLeft
     in rbind (report_result p spaceOk) (\<lambda>p'.
          rbind (dq_insert_range d (dq_size d) (take spaceLeft xs)) (\<lambda>d'. Inr (d', p'))))"

definition dw_construct_save_marker :: "byte deque \<Rightarrow> nat" where
  "dw_construct_save_marker d = dq_size d"

definition dw_get_processed_bytes_since :: "byte deque \<Rightarrow> nat \<Rightarrow> nat" where
  "dw_get_processed_bytes_since d marker = dq_size d - marker"

definition deque_writer :: "byte deque stream_writer" where
  "deque_writer = \<lparr>sw_insert = dw_insert, sw_available = dw_available\<rparr>"

interpretation dw: writer deque_writer dq_inv dq_elems dw_available
proof
  fix d :: "byte deque" and xs :: "byte list" assume inv: "dq_inv d"
  let ?xs = "take (dw_available d) xs"
  have "dq_yields (dq_insert_range d (dq_size d) ?xs) (dq_max_size d) (dq_elems d @ ?xs)"
    using inv dq_insert_range_yields [of d "dq_size d" ?xs] by (auto simp: dw_available_def dq_inv_def dq_size_def)
  then obtain d' where d': "dq_insert_range d (dq_size d) ?xs = Inr d'" "dq_inv d'" "dq_max_size d' = dq_max_size d"
      "dq_elems d' = dq_elems d @ ?xs"
    by (auto simp: dq_yields_def)
  then have "dq_size d' = dq_size d + length ?xs" by (metis length_append length_dq_elems)
  moreover have "dw_insert d p xs = rbind (report_all p [length xs \<le> dw_available d]) (\<lambda>p'. Inr (d', p'))" for p
    by (simp add: dw_insert_def Let_def d' report_all_one del: report_all.simps)
  ultimately show "\<exists>bs w'. (False \<in> set bs) = (dw_available d < length xs) \<and> dq_inv w' \<and>
      dq_elems w' = dq_elems d @ ?xs \<and> dw_available w' = dw_available d - length xs \<and>
      (\<forall>p. sw_insert deque_writer d p xs = rbind (report_all p bs) (\<lambda>p'. Inr (w', p')))"
    using d' by (intro exI [of _ "[length xs \<le> dw_available d]"] exI [of _ d'])
       (auto simp: deque_writer_def dw_available_def simp del: report_all.simps)
qed (simp add: deque_writer_def)

section \<open>The atomic byte queue\<close>

definition qw_available :: "byte abq \<Rightarrow> nat" where
  "qw_available q = abq_max_size q - abq_size q"

definition qw_insert :: "byte abq \<Rightarrow> error_policy \<Rightarrow> byte list \<Rightarrow> (byte abq \<times> error_policy) result" where
  "qw_insert q p xs = (let available = qw_available q
     in rbind (report_result p (length xs \<le> available)) (\<lambda>p'. rbind (abq_push q (take available xs)) (\<lambda>q'. Inr (q', p'))))"

definition queue_writer :: "byte abq stream_writer" where
  "queue_writer = \<lparr>sw_insert = qw_insert, sw_available = qw_available\<rparr>"

interpretation qw: writer queue_writer abq_inv abq_elems qw_available
proof
  fix q :: "byte abq" and xs :: "byte list" assume inv: "abq_inv q"
  then have wf: "abq_wf q" and e: "abq_e q < length (abq_storage q)" by (simp_all add: abq_inv_wf abq_inv_def)
  let ?xs = "take (qw_available q) xs"
  obtain q' where q': "abq_push q ?xs = Inr q'" "abq_wf q'" "abq_e q' < length (abq_storage q')"
      "length (abq_storage q') = length (abq_storage q)" "abq_b q' = abq_b q" "abq_elems q' = abq_elems q @ ?xs"
    using abq_push_spec(1) [OF wf e, of ?xs] by (auto simp: qw_available_def)
  have "abq_inv q'" using inv q' by (simp add: abq_inv_def)
  moreover have "abq_size q' = abq_size q + length ?xs" by (metis q'(6) length_append length_abq_elems)
  moreover have "qw_insert q p xs = rbind (report_all p [length xs \<le> qw_available q]) (\<lambda>p'. Inr (q', p'))" for p
    by (simp add: qw_insert_def Let_def q' report_all_one del: report_all.simps)
  ultimately show "\<exists>bs w'. (False \<in> set bs) = (qw_available q < length xs) \<and> abq_inv w' \<and>
      abq_elems w' = abq_elems q @ ?xs \<and> qw_available w' = qw_available q - length xs \<and>
      (\<forall>p. sw_insert queue_writer q p xs = rbind (report_all p bs) (\<lambda>p'. Inr (w', p')))"
    using q' by (intro exI [of _ "[length xs \<le> qw_available q]"] exI [of _ q'])
       (auto simp: queue_writer_def qw_available_def abq_max_size_def simp del: report_all.simps)
qed (simp add: queue_writer_def)

section \<open>Limited\<close>

record 'w limited_writer_state =
  lw_output :: 'w
  lw_length :: u32

definition lw_new :: "'w \<Rightarrow> u32 \<Rightarrow> 'w limited_writer_state" where
  "lw_new output len = \<lparr>lw_output = output, lw_length = len\<rparr>"

definition lw_insert :: "'w stream_writer \<Rightarrow> 'w limited_writer_state \<Rightarrow> error_policy \<Rightarrow> byte list \<Rightarrow> ('w limited_writer_state \<times> error_policy) result" where
  "lw_insert ops w p xs = rbind (report_result p (length xs \<le> unat (lw_length w))) (\<lambda>p1.
     let xs = take (unat (lw_length w)) xs
     in rbind (sw_insert ops (lw_output w) p1 xs)
          (\<lambda>(out, p2). Inr (\<lparr>lw_output = out, lw_length = lw_length w - of_nat (length xs)\<rparr>, p2)))"

definition lw_available :: "'w stream_writer \<Rightarrow> 'w limited_writer_state \<Rightarrow> nat" where
  "lw_available ops w = min (unat (lw_length w)) (sw_available ops (lw_output w))"

definition limited_writer :: "'w stream_writer \<Rightarrow> 'w limited_writer_state stream_writer" where
  "limited_writer ops = \<lparr>sw_insert = lw_insert ops, sw_available = lw_available ops\<rparr>"

definition lw_room :: "('w \<Rightarrow> nat) \<Rightarrow> 'w limited_writer_state \<Rightarrow> nat" where
  "lw_room room w = min (unat (lw_length w)) (room (lw_output w))"

context writer
begin

lemma limited: "writer (limited_writer ops) (\<lambda>w. ok (lw_output w)) (\<lambda>w. written (lw_output w)) (lw_room room)"
proof
  fix w :: "'w limited_writer_state" and xs :: "byte list" assume ok: "ok (lw_output w)"
  let ?xs = "take (unat (lw_length w)) xs"
  obtain bs out where b: "(False \<in> set bs) = (room (lw_output w) < length ?xs)" "ok out"
      "written out = written (lw_output w) @ take (room (lw_output w)) ?xs" "room out = room (lw_output w) - length ?xs"
    and e: "\<forall>p. sw_insert ops (lw_output w) p ?xs = rbind (report_all p bs) (\<lambda>p'. Inr (out, p'))"
    using inserts [OF ok, of ?xs] by blast
  define w' where "w' = \<lparr>lw_output = out, lw_length = lw_length w - of_nat (length ?xs)\<rparr>"
  have left: "unat (lw_length w') = unat (lw_length w) - length ?xs"
    unfolding w'_def limited_writer_state.simps by (rule unat_sub_of_nat_u32) simp
  have "lw_insert ops w p xs = rbind (report_all p ((length xs \<le> unat (lw_length w)) # bs)) (\<lambda>p'. Inr (w', p'))" for p
    using e by (simp add: lw_insert_def Let_def w'_def rbind_assoc)
  moreover have "(False \<in> set ((length xs \<le> unat (lw_length w)) # bs)) = (lw_room room w < length xs)"
    using b(1) by (auto simp: lw_room_def)
  moreover have "lw_room room w' = lw_room room w - length xs"
    unfolding lw_room_def left by (simp add: w'_def b(4))
  moreover have "written (lw_output w') = written (lw_output w) @ take (lw_room room w) xs"
    by (simp add: w'_def b(3) lw_room_def min.commute)
  ultimately show "\<exists>bs w'. (False \<in> set bs) = (lw_room room w < length xs) \<and> ok (lw_output w') \<and>
      written (lw_output w') = written (lw_output w) @ take (lw_room room w) xs \<and> lw_room room w' = lw_room room w - length xs \<and>
      (\<forall>p. sw_insert (limited_writer ops) w p xs = rbind (report_all p bs) (\<lambda>p'. Inr (w', p')))"
    using b(2) unfolding limited_writer_def stream_writer.simps
    by (intro exI [of _ "(length xs \<le> unat (lw_length w)) # bs"] exI [of _ w']) (simp add: w'_def)
qed (simp add: limited_writer_def lw_available_def lw_room_def available)

end

interpretation lw_dw: writer "limited_writer deque_writer" "\<lambda>w. dq_inv (lw_output w)" "\<lambda>w. dq_elems (lw_output w)" "lw_room dw_available"
  by (rule dw.limited)

section \<open>Buffering\<close>

record 'w buffering_writer =
  bfw_buffer :: "byte deque"
  bfw_output :: 'w
  bfw_index :: nat

text \<open>One half of \<open>LoadRemainder\<close>: what the output takes of the buffer's first contiguous range.\<close>

definition bfw_load :: "'w stream_writer \<Rightarrow> byte deque \<Rightarrow> 'w \<Rightarrow> error_policy \<Rightarrow> (byte deque \<times> 'w \<times> error_policy) result" where
  "bfw_load ops buffer out p =
     (let from = take (sw_available ops out) (dq_contiguous_range buffer 0)
      in rbind (sw_insert ops out p from) (\<lambda>(out, p).
           rbind (dq_erase_range buffer 0 (length from)) (\<lambda>buffer. Inr (buffer, out, p))))"

definition bfw_load_remainder :: "'w stream_writer \<Rightarrow> 'w buffering_writer \<Rightarrow> 'w buffering_writer result" where
  "bfw_load_remainder ops w =
     rbind (bfw_load ops (bfw_buffer w) (bfw_output w) assert_policy) (\<lambda>(buffer, out, p).
       rbind (bfw_load ops buffer out p) (\<lambda>(buffer, out, p).
         Inr \<lparr>bfw_buffer = buffer, bfw_output = out, bfw_index = dq_size buffer\<rparr>))"

definition bfw_new :: "'w stream_writer \<Rightarrow> byte deque \<Rightarrow> 'w \<Rightarrow> 'w buffering_writer result" where
  "bfw_new ops buffer out = bfw_load_remainder ops \<lparr>bfw_buffer = buffer, bfw_output = out, bfw_index = 0\<rparr>"

definition bfw_insert :: "'w stream_writer \<Rightarrow> 'w buffering_writer \<Rightarrow> error_policy \<Rightarrow> byte list \<Rightarrow> ('w buffering_writer \<times> error_policy) result" where
  "bfw_insert ops w p xs =
     (let first = take (sw_available ops (bfw_output w)) xs
      in rbind (sw_insert ops (bfw_output w) p first) (\<lambda>(out, p').
           let rest = drop (length first) xs
           in rbind (dq_insert_range (bfw_buffer w) (dq_size (bfw_buffer w)) rest) (\<lambda>buffer.
                Inr (\<lparr>bfw_buffer = buffer, bfw_output = out, bfw_index = bfw_index w + length first + length rest\<rparr>, p'))))"

definition bfw_available :: "'w stream_writer \<Rightarrow> 'w buffering_writer \<Rightarrow> nat" where
  "bfw_available ops w = sw_available ops (bfw_output w) + dq_max_size (bfw_buffer w) - dq_size (bfw_buffer w)"

definition bfw_construct_save_marker :: "'w buffering_writer \<Rightarrow> nat" where
  "bfw_construct_save_marker w = bfw_index w"

definition bfw_get_processed_bytes_since :: "'w buffering_writer \<Rightarrow> nat \<Rightarrow> nat" where
  "bfw_get_processed_bytes_since w marker = bfw_index w - marker"

text \<open>The bytes sent so far: those the output took, then those in the buffer. Nothing is out of
  order as long as the buffer is used only when the output is full.\<close>

definition bfw_sent :: "('w \<Rightarrow> byte list) \<Rightarrow> 'w buffering_writer \<Rightarrow> byte list" where
  "bfw_sent written w = written (bfw_output w) @ dq_elems (bfw_buffer w)"

definition bfw_ok :: "('w \<Rightarrow> bool) \<Rightarrow> ('w \<Rightarrow> nat) \<Rightarrow> 'w buffering_writer \<Rightarrow> bool" where
  "bfw_ok ok room w \<longleftrightarrow> ok (bfw_output w) \<and> dq_inv (bfw_buffer w) \<and> (dq_elems (bfw_buffer w) = [] \<or> room (bfw_output w) = 0)"

context writer
begin

lemma bfw_load_spec:
  assumes ok: "ok out" and inv: "dq_inv d"
  defines "k \<equiv> min (room out) (length (dq_contiguous_range d 0))"
  shows "\<exists>d' out' p'. bfw_load ops d out p = Inr (d', out', p') \<and> ok out' \<and> dq_inv d' \<and> dq_max_size d' = dq_max_size d \<and>
    written out' @ dq_elems d' = written out @ dq_elems d \<and> room out' = room out - k \<and> d' = dq_drop_front k d \<and>
    dq_elems d' = drop k (dq_elems d)"
proof -
  obtain j where "dq_contiguous_range d 0 = take j (dq_elems d)"
    using dq_contiguous_range_take [OF inv, of 0] by auto
  then have seg: "take (sw_available ops out) (dq_contiguous_range d 0) = take k (dq_elems d)" and k: "k \<le> dq_size d"
    by (simp_all add: k_def available [OF ok] min_def)
  then have len: "length (take k (dq_elems d)) = k" by simp
  obtain out' p' where i: "sw_insert ops out p (take k (dq_elems d)) = Inr (out', p')" "ok out'"
      "written out' = written out @ take k (dq_elems d)" "room out' = room out - k"
  proof -
    have "length (take k (dq_elems d)) \<le> room out" unfolding len by (simp add: k_def)
    from insert_fits [OF ok this, of p] that show thesis unfolding len by blast
  qed
  have "dq_yields (dq_erase_range d 0 k) (dq_max_size d) (drop k (dq_elems d))"
    using dq_erase_range_yields [OF inv _ k, of 0] by simp
  moreover have "dq_erase_range d 0 k = Inr (dq_drop_front k d)" using k by (simp add: dq_erase_range_def)
  ultimately show ?thesis using i by (simp add: bfw_load_def Let_def seg min_absorb2 [OF k] dq_yields_Inr)
qed

lemma bfw_loads:
  assumes ok: "ok out" and inv: "dq_inv buffer"
  shows "\<exists>w. bfw_new ops buffer out = Inr w \<and> bfw_ok ok room w \<and> dq_max_size (bfw_buffer w) = dq_max_size buffer \<and>
    bfw_sent written w = written out @ dq_elems buffer \<and> bfw_index w = dq_size (bfw_buffer w) \<and>
    room (bfw_output w) = room out - dq_size buffer \<and> dq_size (bfw_buffer w) = dq_size buffer - room out"
proof -
  let ?k = "min (room out) (length (dq_contiguous_range buffer 0))"
  obtain d1 out1 p1 where l1: "bfw_load ops buffer out assert_policy = Inr (d1, out1, p1)" "ok out1" "dq_inv d1"
      "dq_max_size d1 = dq_max_size buffer" "written out1 @ dq_elems d1 = written out @ dq_elems buffer"
      "room out1 = room out - ?k" "d1 = dq_drop_front ?k buffer" "dq_elems d1 = drop ?k (dq_elems buffer)"
    using bfw_load_spec [OF ok inv, of assert_policy] by blast
  let ?k1 = "min (room out1) (length (dq_contiguous_range d1 0))"
  obtain d2 out2 p2 where l2: "bfw_load ops d1 out1 p1 = Inr (d2, out2, p2)" "ok out2" "dq_inv d2"
      "dq_max_size d2 = dq_max_size d1" "written out2 @ dq_elems d2 = written out1 @ dq_elems d1"
      "room out2 = room out1 - ?k1" "dq_elems d2 = drop ?k1 (dq_elems d1)"
    using bfw_load_spec [OF l1(2,3), of p1] by blast
  have drained: "room out1 = 0 \<or> dq_contiguous_range d1 0 = dq_elems d1"
  proof (cases "room out \<le> length (dq_contiguous_range buffer 0)")
    case True
    then show ?thesis using l1(6) by simp
  next
    case False
    then have k: "?k = length (dq_contiguous_range buffer 0)" by simp
    show ?thesis
    proof (cases "0 < dq_size buffer")
      case True
      then have n: "\<not> dq_empty buffer" and m: "0 < dq_max_size buffer" using inv by (auto simp: dq_defs)
      have c: "?k = min (dq_size buffer) (dq_max_size buffer - dq_index buffer 0)"
      proof -
        have "length (dq_contiguous_range buffer 0) = min (dq_size buffer) (dq_max_size buffer - dq_index buffer 0)"
          unfolding dq_contiguous_range_prefix [OF inv le0 n m] by simp
        then show ?thesis using k by simp
      qed
      have "dq_start d1 = dq_index buffer ?k"
        unfolding l1(7) using inv by (intro dq_drop_front_start) (auto simp: dq_inv_def c dq_size_def)
      then have start: "dq_start d1 = 0 \<or> dq_elems d1 = []"
        using inv c l1(8) by (auto simp: dq_index_def dq_defs Let_def min_def split: if_splits)
      show ?thesis
      proof (cases "dq_elems d1 = []")
        case True
        then show ?thesis using dq_contiguous_range_take [OF l1(3), of 0] by auto
      next
        case False
        then have n1: "\<not> dq_empty d1" "0 < dq_max_size d1" using l1(3)
          by (metis dq_empty_def dq_size_def length_0_conv length_dq_elems) (metis l1(4) m)
        have "dq_index d1 0 = 0" using start False n1 by (simp add: dq_index_def)
        then show ?thesis unfolding dq_contiguous_range_prefix [OF l1(3) le0 n1]
          using l1(3) by (simp add: dq_inv_def dq_size_def)
      qed
    next
      case False
      then have "dq_elems buffer = []" by (metis length_greater_0_conv length_dq_elems)
      then show ?thesis using dq_contiguous_range_take [OF l1(3), of 0] l1(8) by auto
    qed
  qed
  have size1: "dq_size d1 = dq_size buffer - ?k" by (metis l1(8) length_drop length_dq_elems)
  have small: "?k \<le> dq_size buffer" using dq_contiguous_range_take [OF inv, of 0] by auto
  define k where "k = ?k"
  define k1 where "k1 = ?k1"
  have size2: "dq_size d2 = dq_size d1 - ?k1" by (metis l2(7) length_drop length_dq_elems)
  note sizes = size1 [folded k_def] small [folded k_def] size2 [folded k1_def] l1(6) [folded k_def] l2(6) [folded k1_def]
  have le: "k \<le> room out" by (simp add: k_def)
  have "room out2 = room out - dq_size buffer \<and> dq_size d2 = dq_size buffer - room out"
  proof (cases "room out1 = 0")
    case True
    then have "k1 = 0" by (simp add: k1_def)
    then show ?thesis using True sizes le by linarith
  next
    case False
    then have k1: "k1 = min (room out1) (dq_size d1)" using drained by (simp add: k1_def)
    then have "k1 = dq_size d1 \<and> dq_size d1 \<le> room out1 \<or> k1 = room out1 \<and> room out1 < dq_size d1" by linarith
    then show ?thesis using sizes le by linarith
  qed
  moreover from this have "dq_elems d2 = [] \<or> room out2 = 0"
    by (metis diff_is_0_eq length_0_conv length_dq_elems linorder_linear)
  ultimately show ?thesis using l1(1,4,5) l2(1-5) by (simp add: bfw_new_def bfw_load_remainder_def bfw_ok_def bfw_sent_def)
qed

lemma bfw_inserts:
  assumes w: "bfw_ok ok room w" and fit: "length xs \<le> bfw_available ops w"
  shows "\<exists>w' p'. bfw_insert ops w p xs = Inr (w', p') \<and> bfw_ok ok room w' \<and> bfw_sent written w' = bfw_sent written w @ xs \<and>
    bfw_available ops w' = bfw_available ops w - length xs \<and> bfw_index w' = bfw_index w + length xs \<and> failed p' = failed p"
proof -
  let ?k = "room (bfw_output w)"
  have ok: "ok (bfw_output w)" and inv: "dq_inv (bfw_buffer w)" and order: "dq_elems (bfw_buffer w) = [] \<or> ?k = 0"
    using w by (simp_all add: bfw_ok_def)
  obtain out p' where i: "sw_insert ops (bfw_output w) p (take ?k xs) = Inr (out, p')" "ok out"
      "written out = written (bfw_output w) @ take ?k xs" "room out = ?k - length xs" "failed p' = failed p"
  proof -
    have "length (take ?k xs) \<le> ?k" and "?k - length (take ?k xs) = ?k - length xs" by auto
    with insert_fits [OF ok, of "take ?k xs" p] that show thesis by auto
  qed
  have bound: "dq_size (bfw_buffer w) \<le> dq_max_size (bfw_buffer w)" using inv by (simp add: dq_inv_def dq_size_def)
  have "dq_size (bfw_buffer w) + length (drop ?k xs) \<le> dq_max_size (bfw_buffer w)"
    using fit bound by (auto simp: bfw_available_def available [OF ok])
  from dq_insert_range_yields [OF inv order_refl this] obtain d where
    d: "dq_insert_range (bfw_buffer w) (dq_size (bfw_buffer w)) (drop ?k xs) = Inr d" "dq_inv d"
      "dq_max_size d = dq_max_size (bfw_buffer w)" "dq_elems d = dq_elems (bfw_buffer w) @ drop ?k xs"
    by (auto simp: dq_yields_def)
  have rest: "drop (length (take ?k xs)) xs = drop ?k xs" by (simp add: min_def)
  have size: "dq_size d = dq_size (bfw_buffer w) + (length xs - ?k)" by (metis d(4) length_append length_drop length_dq_elems)
  define w' where "w' = \<lparr>bfw_buffer = d, bfw_output = out, bfw_index = bfw_index w + length (take ?k xs) + length (drop ?k xs)\<rparr>"
  have "bfw_insert ops w p xs = Inr (w', p')"
    unfolding bfw_insert_def Let_def available [OF ok] rest by (simp add: i(1) d(1) w'_def)
  moreover have "bfw_sent written w' = bfw_sent written w @ xs"
    using order by (auto simp: bfw_sent_def w'_def i(3) d(4))
  moreover have "bfw_ok ok room w'" using order i(2,4) d(2,4) by (auto simp: bfw_ok_def w'_def)
  moreover have "bfw_available ops w' = bfw_available ops w - length xs"
    using bound fit by (auto simp: bfw_available_def w'_def available [OF ok] available [OF i(2)] i(4) d(3) size)
  ultimately show ?thesis using i(5) by (intro exI [of _ w'] exI [of _ p']) (auto simp: w'_def min_def)
qed

end

section \<open>Inserting before what was written\<close>

text \<open>\<open>SavedMarkerStreamWriter\<close>: a byte writer over the range \<open>SaveState\<close> freed; \<open>Commit\<close> and \<open>Undo\<close>
  reset it, its destructor calls \<open>RestoreState\<close> with what remains of it. \<open>marker_session\<close> is its
  life around one insertion.\<close>

definition sm_new :: "byte list \<Rightarrow> byte_writer_state \<Rightarrow> nat \<Rightarrow> byte list \<times> byte_writer_state" where
  "sm_new mem w marker = (case bw_save_state mem w marker of (mem', r) \<Rightarrow> (mem', bw_new r))"

definition sm_commit :: "byte_writer_state \<Rightarrow> byte_writer_state" where
  "sm_commit sm = bw_reset_range sm (bw_remaining sm)"

definition sm_undo :: "byte_writer_state \<Rightarrow> byte_writer_state" where
  "sm_undo sm = bw_reset sm"

definition sm_destroy :: "byte list \<Rightarrow> byte_writer_state \<Rightarrow> byte_writer_state \<Rightarrow> byte list \<times> byte_writer_state" where
  "sm_destroy mem w sm = bw_restore_state mem w (bw_remaining sm)"

definition marker_session :: "byte list \<Rightarrow> byte_writer_state \<Rightarrow> nat \<Rightarrow> error_policy \<Rightarrow> byte list \<Rightarrow> ((byte list \<times> byte_writer_state) \<times> error_policy) result" where
  "marker_session mem w marker p data =
     rbind (bw_insert (sm_new mem w marker) p data) (\<lambda>((mem', sm), p'). Inr (sm_destroy mem' w sm, p'))"

interpretation list_slots: slot_store list_update "(!)" length "\<lambda>xs :: 'a list. True"
  by unfold_locales auto

lemma bw_save_state_spec:
  assumes ok: "bw_ok (mem, w)" and m: "marker \<le> bw_offset w"
  defines "b \<equiv> mr_begin (bw_streamRange w)" and "e \<equiv> mr_end (bw_streamRange w)" and "n \<equiv> bw_offset w - marker"
  shows "\<exists>mem'. bw_save_state mem w marker = (mem', mr_make (b + marker) (e - n)) \<and> length mem' = length mem \<and>
    slice mem' b marker = slice mem b marker \<and> slice mem' (e - n) n = slice mem (b + marker) n"
proof -
  have bounds: "b \<le> e" "e \<le> length mem" "b + bw_offset w \<le> e"
    using ok by (auto simp: bw_ok_def b_def e_def mr_size_def)
  define M where "M = shift_up list_update (!) n (e - 1) (e - (b + bw_offset w)) mem"
  have len: "length M = length mem" unfolding M_def by (rule list_slots.cap_shift_up)
  have at: "M ! j = (if e - n \<le> j \<and> j < e then mem ! (j - (e - (b + bw_offset w))) else mem ! j)" if "j < length mem" for j
    using that bounds m list_slots.get_shift_up [of n "e - (b + bw_offset w)" "e - 1" mem j]
    by (cases "n = 0") (auto simp: n_def M_def)
  have "slice M b marker = slice mem b marker"
    using bounds m by (intro slice_eqI) (simp_all add: len at n_def)
  moreover have "slice M (e - n) n = slice mem (b + marker) n"
    using bounds m by (intro slice_eqI) (auto simp: len at n_def intro!: arg_cong [where f = "(!) mem"])
  moreover have "bw_save_state mem w marker = (M, mr_make (b + marker) (e - n))"
    using m by (simp add: bw_save_state_def Let_def b_def e_def n_def M_def)
  ultimately show ?thesis using len by blast
qed

lemma bw_restore_state_spec:
  assumes ok: "bw_ok (mem, w)" and r: "mr_begin (bw_streamRange w) + k = mr_begin r" "mr_begin r \<le> mr_end r"
    "mr_end r \<le> mr_end (bw_streamRange w)"
  defines "b \<equiv> mr_begin (bw_streamRange w)" and "n \<equiv> mr_end (bw_streamRange w) - mr_end r"
  shows "\<exists>mem' w'. bw_restore_state mem w r = (mem', w') \<and> bw_offset w' = k + n \<and> bw_streamRange w' = bw_streamRange w \<and>
    length mem' = length mem \<and> slice mem' b (k + n) = slice mem b k @ slice mem (mr_end r) n"
proof -
  define M where "M = shift_down list_update (!) n (mr_begin r) (mr_end r) mem"
  have bounds: "mr_end (bw_streamRange w) \<le> length mem" using ok by (auto simp: bw_ok_def)
  have len: "length M = length mem" unfolding M_def by (rule list_slots.cap_shift_down)
  have at: "M ! j = (if mr_begin r \<le> j \<and> j < mr_begin r + n then mem ! (j + mr_end r - mr_begin r) else mem ! j)"
    if "j < length mem" for j
    unfolding M_def using that bounds r by (intro list_slots.get_shift_down) (auto simp: n_def)
  have "slice M b k = slice mem b k"
    using bounds r by (intro slice_eqI) (simp_all add: len at b_def)
  moreover have "slice M (b + k) n = slice mem (mr_end r) n"
    using bounds r by (intro slice_eqI) (auto simp: len at n_def b_def intro!: arg_cong [where f = "(!) mem"])
  ultimately have "slice M b (k + n) = slice mem b k @ slice mem (mr_end r) n" by (simp add: slice_split)
  moreover have "bw_restore_state mem w r = (M, w\<lparr>bw_offset := k + n\<rparr>)"
    using r by (simp add: bw_restore_state_def Let_def b_def n_def M_def)
  ultimately show ?thesis using len by simp
qed

lemma slice_store_other:
  assumes "i + length xs \<le> length mem" and "b + n \<le> length mem" and "b + n \<le> i \<or> i + length xs \<le> b"
  shows "slice (store_first mem i xs) b n = slice mem b n"
  using assms by (intro nth_equalityI) (auto simp: nth_store_first)

lemma slice_store_at: "i + length xs \<le> length mem \<Longrightarrow> slice (store_first mem i xs) i (length xs) = xs"
  using slice_store [of i 0 xs mem] by (simp add: slice_def)

lemma bw_insert_fits:
  "length data \<le> bw_available w \<Longrightarrow> mr_begin (bw_streamRange w) + bw_offset w + length data \<le> length mem \<Longrightarrow>
   report_result p True = Inr p' \<Longrightarrow>
   bw_insert (mem, w) p data = Inr ((store_first mem (mr_begin (bw_streamRange w) + bw_offset w) data,
     w\<lparr>bw_offset := bw_offset w + length data\<rparr>), p')"
  by (simp add: bw_insert_def)

lemma marker_session_inserts:
  assumes "bw_ok (mem, w)" and "marker \<le> bw_offset w" and "length data \<le> bw_available w"
  shows "\<exists>mem' w' p'. marker_session mem w marker p data = Inr ((mem', w'), p') \<and> bw_ok (mem', w') \<and> failed p' = failed p \<and>
    bw_written (mem', w') = take marker (bw_written (mem, w)) @ data @ drop marker (bw_written (mem, w))"
proof -
  let ?b = "mr_begin (bw_streamRange w)" and ?e = "mr_end (bw_streamRange w)" and ?n = "bw_offset w - marker"
  have bounds: "?b \<le> ?e" "?e \<le> length mem" "?b + bw_offset w \<le> ?e" "length data \<le> ?e - ?b - bw_offset w"
    using assms by (auto simp: bw_ok_def mr_size_def bw_available_def)
  obtain mem1 where s: "bw_save_state mem w marker = (mem1, mr_make (?b + marker) (?e - ?n))" "length mem1 = length mem"
      "slice mem1 ?b marker = slice mem ?b marker" "slice mem1 (?e - ?n) ?n = slice mem (?b + marker) ?n"
    using bw_save_state_spec [OF assms(1,2)] by blast
  let ?sm = "bw_new (mr_make (?b + marker) (?e - ?n))"
  have room: "bw_available ?sm = ?e - ?b - bw_offset w"
    using bounds assms(2) by (simp add: bw_available_def bw_new_def mr_make_def mr_size_def)
  let ?mem2 = "store_first mem1 (?b + marker) data"
  let ?sm2 = "?sm\<lparr>bw_offset := length data\<rparr>"
  obtain p' where p': "report_result p True = Inr p'" "failed p' = failed p"
  proof (cases "report_result p True")
    case (Inl f)
    then show ?thesis using report_result_cases(1) [of p True f] by simp
  next
    case (Inr q)
    then show ?thesis using report_result_cases(2) [OF Inr] that by simp
  qed
  have fits: "?b + marker + length data \<le> ?e - ?n" using bounds assms(2) by linarith
  have ins: "bw_insert (mem1, ?sm) p data = Inr ((?mem2, ?sm2), p')"
    using bw_insert_fits [of data ?sm mem1 p p'] fits bounds(2,4) s(2) p'(1) unfolding room
    by (simp add: bw_new_def mr_make_def)
  have rem: "bw_remaining ?sm2 = mr_make (?b + marker + length data) (?e - ?n)"
    by (simp add: bw_remaining_def bw_new_def mr_make_def)
  have ok2: "bw_ok (?mem2, w)" using assms(1) s(2) by (simp add: bw_ok_def)
  have n: "?e - (?e - ?n) = ?n" using bounds by auto
  obtain mem3 w3 where r: "bw_restore_state ?mem2 w (bw_remaining ?sm2) = (mem3, w3)" "bw_offset w3 = marker + length data + ?n"
      "bw_streamRange w3 = bw_streamRange w" "length mem3 = length ?mem2"
      "slice mem3 ?b (marker + length data + ?n) = slice ?mem2 ?b (marker + length data) @ slice ?mem2 (?e - ?n) ?n"
  proof -
    have "mr_begin (bw_remaining ?sm2) = ?b + marker + length data" "mr_end (bw_remaining ?sm2) = ?e - ?n"
      unfolding rem by (simp_all add: mr_make_def)
    moreover have "?e - ?n \<le> ?e" by simp
    ultimately show thesis
      using bw_restore_state_spec [OF ok2, of "marker + length data" "bw_remaining ?sm2"] fits that
      unfolding n add.assoc by (metis n)
  qed
  have "slice ?mem2 ?b (marker + length data) = slice mem ?b marker @ data"
    unfolding slice_split using bounds fits s by (simp add: slice_store_other slice_store_at)
  moreover have "slice ?mem2 (?e - ?n) ?n = slice mem (?b + marker) ?n"
    using bounds fits s by (subst slice_store_other) auto
  ultimately have w3: "bw_written (mem3, w3) = slice mem ?b marker @ data @ slice mem (?b + marker) ?n"
    by (simp add: bw_written_def r)
  have "bw_written (mem, w) = slice mem ?b marker @ slice mem (?b + marker) ?n"
    using slice_split [of mem ?b marker ?n] assms(2) by (simp add: bw_written_def)
  moreover have "length (slice mem ?b marker) = marker" using bounds assms(2) by simp
  ultimately have "bw_written (mem3, w3) = take marker (bw_written (mem, w)) @ data @ drop marker (bw_written (mem, w))"
    using w3 by simp
  moreover have "bw_ok (mem3, w3)" using assms(1) r s(2) fits bounds by (auto simp: bw_ok_def mr_size_def)
  moreover have "marker_session mem w marker p data = Inr ((mem3, w3), p')"
    by (simp add: marker_session_def sm_new_def s(1) ins sm_destroy_def r(1))
  ultimately show ?thesis using p'(2) by blast
qed

text \<open>A \<open>SavedMarkerStreamWriter\<close> inserts its bytes at the marker: what was written before the
  marker stays before them and what was written after it follows them, with no byte lost,
  although all three share one range of memory and are moved within it.\<close>

lemma saved_marker_inserts:
  assumes "bw_ok (mem, w)" and "marker \<le> bw_offset w" and "length data \<le> bw_available w"
  shows "\<exists>mem' w' p'. marker_session mem w marker p data = Inr ((mem', w'), p') \<and> bw_ok (mem', w') \<and> failed p' = failed p \<and>
    bw_written (mem', w') = take marker (bw_written (mem, w)) @ data @ drop marker (bw_written (mem, w))"
  by (rule marker_session_inserts [OF assms])

lemma saved_marker_inserts_witness:
  "\<exists>mem' w' p'. marker_session [1, 2, 3, 0, 0, 0] \<lparr>bw_streamRange = mr_make 0 6, bw_offset = 3\<rparr> 1 assert_policy [8, 9] = Inr ((mem', w'), p') \<and>
     bw_written (mem', w') = [1, 8, 9, 2, 3]"
proof -
  let ?mem = "[1, 2, 3, 0, 0, 0 :: byte]" and ?w = "\<lparr>bw_streamRange = mr_make 0 6, bw_offset = 3\<rparr>"
  have "bw_ok (?mem, ?w)" "1 \<le> bw_offset ?w" "length [8, 9 :: byte] \<le> bw_available ?w"
    by (simp_all add: bw_ok_def mr_make_def mr_size_def bw_available_def)
  moreover have "bw_written (?mem, ?w) = [1, 2, 3]"
    by (simp add: bw_written_def slice_def mr_make_def)
  ultimately show ?thesis using saved_marker_inserts [of ?mem ?w 1 "[8, 9]" assert_policy] by auto
qed

text \<open>Creating a buffering writer and inserting into it keeps the order of the bytes: those the
  deque held, then the new ones, split between the output and the deque; and the deque holds
  bytes only when the output is full. Here the output is the interrupt-safe queue.\<close>

lemma buffering_writer_order:
  assumes "abq_inv q" and "dq_inv buffer"
    and "dq_size buffer + length xs \<le> abq_max_size q - abq_size q + dq_max_size buffer"
  shows "\<exists>w w' p'. bfw_new queue_writer buffer q = Inr w \<and> bfw_insert queue_writer w p xs = Inr (w', p') \<and> failed p' = failed p \<and>
    abq_elems (bfw_output w') @ dq_elems (bfw_buffer w') = abq_elems q @ dq_elems buffer @ xs \<and>
    (dq_elems (bfw_buffer w') = [] \<or> abq_size (bfw_output w') = abq_max_size (bfw_output w'))"
proof -
  obtain w where w: "bfw_new queue_writer buffer q = Inr w" "bfw_ok abq_inv qw_available w" "dq_max_size (bfw_buffer w) = dq_max_size buffer"
      "bfw_sent abq_elems w = abq_elems q @ dq_elems buffer" "qw_available (bfw_output w) = qw_available q - dq_size buffer"
    using qw.bfw_loads [OF assms(1,2)] by blast
  have sizes: "dq_size (bfw_buffer w) = dq_size buffer - qw_available q" "dq_size (bfw_buffer w) \<le> dq_max_size (bfw_buffer w)"
    using qw.bfw_loads [OF assms(1,2)] w(1,2) by (auto simp: bfw_ok_def dq_inv_def dq_size_def)
  have "length xs \<le> bfw_available queue_writer w"
  proof -
    have "bfw_available queue_writer w = qw_available q - dq_size buffer + dq_max_size buffer - (dq_size buffer - qw_available q)"
      using sizes(1) w(2,3,5) qw.available [of "bfw_output w"] by (simp add: bfw_available_def bfw_ok_def)
    moreover have "dq_size buffer + length xs \<le> qw_available q + dq_max_size buffer" using assms(3) by (simp add: qw_available_def)
    ultimately show ?thesis by linarith
  qed
  from qw.bfw_inserts [OF w(2) this, of p] obtain w' p' where
    w': "bfw_insert queue_writer w p xs = Inr (w', p')" "bfw_ok abq_inv qw_available w'"
      "bfw_sent abq_elems w' = bfw_sent abq_elems w @ xs" "failed p' = failed p"
    by blast
  have "abq_size (bfw_output w') = abq_max_size (bfw_output w')" if "qw_available (bfw_output w') = 0"
    using that w'(2) abq_inv_wf [of "bfw_output w'"] by (auto simp: qw_available_def bfw_ok_def abq_wf_def abq_max_size_def)
  with w' w(1,4) show ?thesis by (auto simp: bfw_ok_def bfw_sent_def)
qed

lemma buffering_writer_order_witness:
  "\<exists>w w' p'. bfw_new queue_writer (dq_new [0, 0]) \<lparr>abq_storage = [7, 0, 0], abq_b = 0, abq_e = 1\<rparr> = Inr w \<and>
     bfw_insert queue_writer w assert_policy [8, 9] = Inr (w', p') \<and> abq_elems (bfw_output w') @ dq_elems (bfw_buffer w') = [7, 8, 9]"
proof -
  let ?q = "\<lparr>abq_storage = [7, 0, 0 :: byte], abq_b = 0, abq_e = 1\<rparr>" and ?d = "dq_new [0, 0 :: byte]"
  have "abq_inv ?q" "dq_inv ?d" "dq_size ?d + length [8, 9 :: byte] \<le> abq_max_size ?q - abq_size ?q + dq_max_size ?d"
    by (simp_all add: abq_inv_def dq_new_def dq_defs abq_max_size_def abq_size_def)
  moreover have "abq_elems ?q = [7]" by (simp add: abq_elems_def ring_elems_def abq_size_def)
  ultimately show ?thesis using buffering_writer_order [of ?q ?d "[8, 9]" assert_policy] by (simp add: dq_elems_def dq_new_def view_def) blast
qed

end
