(* ===== verification/Stream_Readers.thy ===== *)
theory Stream_Readers
  imports Streams Bounded_Deque Bounded_Vector Atomic_Byte_Queue
begin

text \<open>
  The readers that own their bytes: over a byte range (ByteInputStream.cpp), a string
  (StringInputStream.cpp), a bounded vector (BoundedVectorInputStream.cpp), a bounded deque
  (BoundedDequeInputStream.cpp) and the interrupt-safe ring (AtomicByteQueue.cpp). Each is a
  state, one definition per virtual function and the record of them; each is interpreted as a
  reader, so that its users rest on the contract alone.
\<close>

section \<open>A byte range\<close>

record byte_reader_state =
  br_range :: "byte list"
  br_offset :: nat

definition br_new :: "byte list \<Rightarrow> byte_reader_state" where
  "br_new data = \<lparr>br_range = data, br_offset = 0\<rparr>"

definition br_reset_range :: "byte_reader_state \<Rightarrow> byte list \<Rightarrow> byte_reader_state" where
  "br_reset_range r newRange = r\<lparr>br_range := newRange, br_offset := 0\<rparr>"

definition br_processed :: "byte_reader_state \<Rightarrow> byte list" where
  "br_processed r = take (br_offset r) (br_range r)"

definition br_remaining :: "byte_reader_state \<Rightarrow> byte list" where
  "br_remaining r = drop (br_offset r) (br_range r)"

definition br_extract :: "byte_reader_state \<Rightarrow> error_policy \<Rightarrow> nat \<Rightarrow> (byte_reader_state \<times> error_policy \<times> byte list) result" where
  "br_extract r p n =
     (let remaining = length (br_range r) - br_offset r; len = min n remaining
      in rbind (report_result p (n \<le> remaining))
           (\<lambda>p'. Inr (r\<lparr>br_offset := br_offset r + len\<rparr>, p', take len (drop (br_offset r) (br_range r)))))"

definition br_peek :: "byte_reader_state \<Rightarrow> error_policy \<Rightarrow> (error_policy \<times> byte) result" where
  "br_peek r p = rbind (report_result p (1 \<le> length (br_range r) - br_offset r))
     (\<lambda>p'. in_bounds (br_offset r + 1 \<le> length (br_range r)) (Inr (p', br_range r ! br_offset r)))"

definition br_extract_contiguous :: "byte_reader_state \<Rightarrow> nat \<Rightarrow> (byte_reader_state \<times> byte list) result" where
  "br_extract_contiguous r maxLen = really_assert (br_offset r \<le> length (br_range r))
     (let bytes = take maxLen (drop (br_offset r) (br_range r))
      in Inr (r\<lparr>br_offset := br_offset r + length bytes\<rparr>, bytes))"

definition br_peek_contiguous :: "byte_reader_state \<Rightarrow> nat \<Rightarrow> byte list result" where
  "br_peek_contiguous r start = in_bounds (br_offset r + start \<le> length (br_range r))
     (Inr (drop (br_offset r + start) (br_range r)))"

definition br_empty :: "byte_reader_state \<Rightarrow> bool" where
  "br_empty r \<longleftrightarrow> br_offset r = length (br_range r)"

definition br_available :: "byte_reader_state \<Rightarrow> nat" where
  "br_available r = length (br_range r) - br_offset r"

definition br_construct_save_marker :: "byte_reader_state \<Rightarrow> nat" where
  "br_construct_save_marker r = br_offset r"

definition br_rewind :: "byte_reader_state \<Rightarrow> nat \<Rightarrow> byte_reader_state result" where
  "br_rewind r marker = Inr (r\<lparr>br_offset := marker\<rparr>)"

definition byte_reader :: "byte_reader_state rewinding_reader" where
  "byte_reader = \<lparr>sr_extract = br_extract, sr_peek = br_peek, sr_extract_contiguous = br_extract_contiguous,
     sr_peek_contiguous = br_peek_contiguous, sr_empty = br_empty, sr_available = br_available,
     sr_construct_save_marker = br_construct_save_marker, sr_rewind = br_rewind\<rparr>"

definition br_ok :: "byte_reader_state \<Rightarrow> bool" where
  "br_ok r \<longleftrightarrow> br_offset r \<le> length (br_range r)"

named_theorems reader_defs
lemmas [reader_defs] = br_ok_def byte_reader_def br_extract_def br_peek_def br_extract_contiguous_def br_peek_contiguous_def
  br_empty_def br_available_def br_construct_save_marker_def br_rewind_def br_processed_def br_remaining_def Let_def

interpretation br: offset_reader byte_reader br_ok br_range br_offset
proof unfold_locales
  fix r :: byte_reader_state and n assume "br_ok r"
  then show "\<exists>bs r'. (False \<in> set bs) = (length (br_range r) - br_offset r < n) \<and> br_ok r' \<and> br_range r' = br_range r \<and>
      br_offset r' = br_offset r + min n (length (br_range r) - br_offset r) \<and>
      (\<forall>p. sr_extract byte_reader r p n = rbind (report_all p bs) (\<lambda>p'. Inr (r', p', take n (drop (br_offset r) (br_range r)))))"
    by (intro exI [of _ "[n \<le> length (br_range r) - br_offset r]"]
          exI [of _ "r\<lparr>br_offset := br_offset r + min n (length (br_range r) - br_offset r)\<rparr>"])
       (simp add: reader_defs report_all_one take_clipped not_le del: report_all.simps)
next
  fix r :: byte_reader_state and n :: nat assume "br_ok r"
  then show "\<exists>r' k. sr_extract_contiguous byte_reader r n = Inr (r', take k (drop (br_offset r) (br_range r))) \<and> k \<le> n \<and>
      (br_offset r < length (br_range r) \<and> 0 < n \<longrightarrow> 0 < k) \<and> br_ok r' \<and> br_range r' = br_range r \<and>
      br_offset r' = br_offset r + min k (length (br_range r) - br_offset r)"
    by (intro exI [of _ "r\<lparr>br_offset := br_offset r + min n (length (br_range r) - br_offset r)\<rparr>"] exI [of _ n])
       (simp add: reader_defs min.commute)
qed (auto simp: reader_defs Suc_le_eq intro!: reports_once(1))

interpretation br_c: contiguous_peeker byte_reader br_ok "\<lambda>r. drop (br_offset r) (br_range r)"
proof unfold_locales
  fix r :: byte_reader_state and start :: nat assume "br_ok r" and "start \<le> length (drop (br_offset r) (br_range r))"
  then show "\<exists>k. sr_peek_contiguous byte_reader r start = Inr (take k (drop start (drop (br_offset r) (br_range r)))) \<and>
      (start < length (drop (br_offset r) (br_range r)) \<longrightarrow> 0 < k)"
    by (intro exI [of _ "length (br_range r)"]) (auto simp: reader_defs add.commute)
qed

text \<open>Peeking at the end: with a policy that does not stop, the code reads past the range.\<close>

lemma br_peek_at_end:
  assumes "br_ok r" and "br_remaining r = []" and "mode p \<noteq> Assertion"
  shows "br_peek r p = Inl Out_of_bounds"
proof -
  obtain p' where "report_result p False = Inr p'"
    using report_result_cases(1) [of p False] assms(3) by (cases "report_result p False") auto
  then show ?thesis using assms by (simp add: reader_defs)
qed

section \<open>A string\<close>

record string_reader_state =
  str_string :: "byte list"
  str_offset :: nat

definition str_new :: "byte list \<Rightarrow> string_reader_state" where
  "str_new text = \<lparr>str_string = text, str_offset = 0\<rparr>"

definition str_extract :: "string_reader_state \<Rightarrow> error_policy \<Rightarrow> nat \<Rightarrow> (string_reader_state \<times> error_policy \<times> byte list) result" where
  "str_extract r p n = rbind (report_result p (str_offset r + n \<le> length (str_string r)))
     (\<lambda>p'. let len = min n (length (str_string r) - str_offset r)
           in Inr (r\<lparr>str_offset := str_offset r + len\<rparr>, p', take len (drop (str_offset r) (str_string r))))"

definition str_peek :: "string_reader_state \<Rightarrow> error_policy \<Rightarrow> (error_policy \<times> byte) result" where
  "str_peek r p =
     (if str_offset r = length (str_string r) then rbind (report_result p False) (\<lambda>p'. Inr (p', 0))
      else rbind (report_result p True) (\<lambda>p'. in_bounds (str_offset r < length (str_string r)) (Inr (p', str_string r ! str_offset r))))"

definition str_extract_contiguous :: "string_reader_state \<Rightarrow> nat \<Rightarrow> (string_reader_state \<times> byte list) result" where
  "str_extract_contiguous r maxLen = in_bounds (str_offset r \<le> length (str_string r))
     (let bytes = take maxLen (drop (str_offset r) (str_string r))
      in Inr (r\<lparr>str_offset := str_offset r + length bytes\<rparr>, bytes))"

definition str_peek_contiguous :: "string_reader_state \<Rightarrow> nat \<Rightarrow> byte list result" where
  "str_peek_contiguous r start = in_bounds (str_offset r + start \<le> length (str_string r))
     (Inr (drop (str_offset r + start) (str_string r)))"

definition str_empty :: "string_reader_state \<Rightarrow> bool" where
  "str_empty r \<longleftrightarrow> str_offset r = length (str_string r)"

definition str_available :: "string_reader_state \<Rightarrow> nat" where
  "str_available r = length (str_string r) - str_offset r"

definition str_construct_save_marker :: "string_reader_state \<Rightarrow> nat" where
  "str_construct_save_marker r = str_offset r"

definition str_rewind :: "string_reader_state \<Rightarrow> nat \<Rightarrow> string_reader_state result" where
  "str_rewind r marker = Inr (r\<lparr>str_offset := marker\<rparr>)"

definition string_reader :: "string_reader_state rewinding_reader" where
  "string_reader = \<lparr>sr_extract = str_extract, sr_peek = str_peek, sr_extract_contiguous = str_extract_contiguous,
     sr_peek_contiguous = str_peek_contiguous, sr_empty = str_empty, sr_available = str_available,
     sr_construct_save_marker = str_construct_save_marker, sr_rewind = str_rewind\<rparr>"

definition str_ok :: "string_reader_state \<Rightarrow> bool" where
  "str_ok r \<longleftrightarrow> str_offset r \<le> length (str_string r)"

lemmas [reader_defs] = str_ok_def string_reader_def str_extract_def str_peek_def str_extract_contiguous_def
  str_peek_contiguous_def str_empty_def str_available_def str_construct_save_marker_def str_rewind_def

interpretation str: offset_reader string_reader str_ok str_string str_offset
proof unfold_locales
  fix r :: string_reader_state and n assume "str_ok r"
  then show "\<exists>bs r'. (False \<in> set bs) = (length (str_string r) - str_offset r < n) \<and> str_ok r' \<and> str_string r' = str_string r \<and>
      str_offset r' = str_offset r + min n (length (str_string r) - str_offset r) \<and>
      (\<forall>p. sr_extract string_reader r p n = rbind (report_all p bs) (\<lambda>p'. Inr (r', p', take n (drop (str_offset r) (str_string r)))))"
    by (intro exI [of _ "[str_offset r + n \<le> length (str_string r)]"]
          exI [of _ "r\<lparr>str_offset := str_offset r + min n (length (str_string r) - str_offset r)\<rparr>"])
       (auto simp: reader_defs report_all_one take_clipped simp del: report_all.simps)
next
  fix r :: string_reader_state and n :: nat assume "str_ok r"
  then show "\<exists>r' k. sr_extract_contiguous string_reader r n = Inr (r', take k (drop (str_offset r) (str_string r))) \<and> k \<le> n \<and>
      (str_offset r < length (str_string r) \<and> 0 < n \<longrightarrow> 0 < k) \<and> str_ok r' \<and> str_string r' = str_string r \<and>
      str_offset r' = str_offset r + min k (length (str_string r) - str_offset r)"
    by (intro exI [of _ "r\<lparr>str_offset := str_offset r + min n (length (str_string r) - str_offset r)\<rparr>"] exI [of _ n])
       (simp add: reader_defs min.commute)
qed (auto simp: reader_defs intro!: reports_once(1))

interpretation str_p: peeking_reader string_reader str_ok "\<lambda>r. drop (str_offset r) (str_string r)"
  by unfold_locales (auto simp: reader_defs intro!: reports_once(2))

interpretation str_c: contiguous_peeker string_reader str_ok "\<lambda>r. drop (str_offset r) (str_string r)"
proof unfold_locales
  fix r :: string_reader_state and start :: nat assume "str_ok r" and "start \<le> length (drop (str_offset r) (str_string r))"
  then show "\<exists>k. sr_peek_contiguous string_reader r start = Inr (take k (drop start (drop (str_offset r) (str_string r)))) \<and>
      (start < length (drop (str_offset r) (str_string r)) \<longrightarrow> 0 < k)"
    by (intro exI [of _ "length (str_string r)"]) (auto simp: reader_defs add.commute)
qed

section \<open>A bounded vector\<close>

record vector_reader_state =
  vr_container :: "byte vec"
  vr_offset :: nat

definition vr_new :: "byte vec \<Rightarrow> vector_reader_state" where
  "vr_new c = \<lparr>vr_container = c, vr_offset = 0\<rparr>"

definition vr_processed :: "vector_reader_state \<Rightarrow> nat" where
  "vr_processed r = vr_offset r"

definition vr_empty :: "vector_reader_state \<Rightarrow> bool" where
  "vr_empty r \<longleftrightarrow> vr_offset r = vec_size (vr_container r)"

definition vr_peek_contiguous :: "vector_reader_state \<Rightarrow> nat \<Rightarrow> byte list result" where
  "vr_peek_contiguous r start = in_bounds (vr_offset r + start \<le> vec_size (vr_container r))
     (Inr (drop (vr_offset r + start) (vec_range (vr_container r))))"

definition vr_extract :: "vector_reader_state \<Rightarrow> error_policy \<Rightarrow> nat \<Rightarrow> (vector_reader_state \<times> error_policy \<times> byte list) result" where
  "vr_extract r p n = rbind (report_result p (n \<le> vec_size (vr_container r) - vr_offset r))
     (\<lambda>p'. let len = min n (vec_size (vr_container r))
           in rbind (vr_peek_contiguous r 0) (\<lambda>range. let bytes = take len range
             in Inr (r\<lparr>vr_offset := vr_offset r + length bytes\<rparr>, p', bytes)))"

definition vr_peek :: "vector_reader_state \<Rightarrow> error_policy \<Rightarrow> (error_policy \<times> byte) result" where
  "vr_peek r p = rbind (report_result p (\<not> vr_empty r))
     (\<lambda>p'. if \<not> vr_empty r then rbind (vec_at (vr_container r) (vr_offset r)) (\<lambda>b. Inr (p', b)) else Inr (p', 0))"

definition vr_extract_contiguous :: "vector_reader_state \<Rightarrow> nat \<Rightarrow> (vector_reader_state \<times> byte list) result" where
  "vr_extract_contiguous r maxLen = rbind (vr_peek_contiguous r 0) (\<lambda>range. let bytes = take maxLen range
     in Inr (r\<lparr>vr_offset := vr_offset r + length bytes\<rparr>, bytes))"

definition vr_available :: "vector_reader_state \<Rightarrow> nat" where
  "vr_available r = vec_size (vr_container r) - vr_offset r"

definition vr_construct_save_marker :: "vector_reader_state \<Rightarrow> nat" where
  "vr_construct_save_marker r = vr_offset r"

definition vr_rewind :: "vector_reader_state \<Rightarrow> nat \<Rightarrow> vector_reader_state result" where
  "vr_rewind r marker = Inr (r\<lparr>vr_offset := marker\<rparr>)"

definition vector_reader :: "vector_reader_state rewinding_reader" where
  "vector_reader = \<lparr>sr_extract = vr_extract, sr_peek = vr_peek, sr_extract_contiguous = vr_extract_contiguous,
     sr_peek_contiguous = vr_peek_contiguous, sr_empty = vr_empty, sr_available = vr_available,
     sr_construct_save_marker = vr_construct_save_marker, sr_rewind = vr_rewind\<rparr>"

definition vr_ok :: "vector_reader_state \<Rightarrow> bool" where
  "vr_ok r \<longleftrightarrow> vr_offset r \<le> vec_size (vr_container r)"

definition vr_bytes :: "vector_reader_state \<Rightarrow> byte list" where
  "vr_bytes r = vec_range (vr_container r)"

lemma length_vr_bytes [simp]: "length (vr_bytes r) = vec_size (vr_container r)"
  by (simp add: vr_bytes_def)

lemmas [reader_defs] = vr_ok_def vector_reader_def vr_extract_def vr_peek_def vr_extract_contiguous_def
  vr_peek_contiguous_def vr_empty_def vr_available_def vr_construct_save_marker_def vr_rewind_def

lemma vr_bytes_offset [simp]: "vr_bytes (r\<lparr>vr_offset := i\<rparr>) = vr_bytes r"
  by (simp add: vr_bytes_def)

lemma vr_range [simp]: "vec_range (vr_container r) = vr_bytes r"
  by (simp add: vr_bytes_def)

interpretation vr: offset_reader vector_reader vr_ok vr_bytes vr_offset
proof unfold_locales
  fix r :: vector_reader_state and n assume "vr_ok r"
  then show "\<exists>bs r'. (False \<in> set bs) = (length (vr_bytes r) - vr_offset r < n) \<and> vr_ok r' \<and> vr_bytes r' = vr_bytes r \<and>
      vr_offset r' = vr_offset r + min n (length (vr_bytes r) - vr_offset r) \<and>
      (\<forall>p. sr_extract vector_reader r p n = rbind (report_all p bs) (\<lambda>p'. Inr (r', p', take n (drop (vr_offset r) (vr_bytes r)))))"
    by (intro exI [of _ "[n \<le> vec_size (vr_container r) - vr_offset r]"]
          exI [of _ "r\<lparr>vr_offset := vr_offset r + min n (vec_size (vr_container r) - vr_offset r)\<rparr>"])
       (auto simp: reader_defs report_all_one min_def intro!: arg_cong [where f = "rbind _"] simp del: report_all.simps)
next
  fix r :: vector_reader_state and n :: nat assume "vr_ok r"
  then show "\<exists>r' k. sr_extract_contiguous vector_reader r n = Inr (r', take k (drop (vr_offset r) (vr_bytes r))) \<and> k \<le> n \<and>
      (vr_offset r < length (vr_bytes r) \<and> 0 < n \<longrightarrow> 0 < k) \<and> vr_ok r' \<and> vr_bytes r' = vr_bytes r \<and>
      vr_offset r' = vr_offset r + min k (length (vr_bytes r) - vr_offset r)"
    by (intro exI [of _ "r\<lparr>vr_offset := vr_offset r + min n (vec_size (vr_container r) - vr_offset r)\<rparr>"] exI [of _ n])
       (simp add: reader_defs min.commute)
next
  fix r :: vector_reader_state assume "vr_ok r" and "vr_offset r < length (vr_bytes r)"
  then show "\<exists>bs. False \<notin> set bs \<and> (\<forall>p. sr_peek vector_reader r p = rbind (report_all p bs) (\<lambda>p'. Inr (p', vr_bytes r ! vr_offset r)))"
    by (intro reports_once(1)) (simp add: reader_defs vec_at_def vr_bytes_def vec_range_def)
qed (auto simp: reader_defs)

interpretation vr_p: peeking_reader vector_reader vr_ok "\<lambda>r. drop (vr_offset r) (vr_bytes r)"
  by unfold_locales (auto simp: reader_defs intro!: reports_once(2))

interpretation vr_c: contiguous_peeker vector_reader vr_ok "\<lambda>r. drop (vr_offset r) (vr_bytes r)"
proof unfold_locales
  fix r :: vector_reader_state and start :: nat assume "vr_ok r" and "start \<le> length (drop (vr_offset r) (vr_bytes r))"
  then show "\<exists>k. sr_peek_contiguous vector_reader r start = Inr (take k (drop start (drop (vr_offset r) (vr_bytes r)))) \<and>
      (start < length (drop (vr_offset r) (vr_bytes r)) \<longrightarrow> 0 < k)"
    by (intro exI [of _ "length (vr_bytes r)"]) (auto simp: reader_defs add.commute)
qed

section \<open>A bounded deque\<close>

record deque_reader_state =
  dr_container :: "byte deque"
  dr_offset :: nat

definition dr_new :: "byte deque \<Rightarrow> deque_reader_state" where
  "dr_new c = \<lparr>dr_container = c, dr_offset = 0\<rparr>"

definition dr_processed :: "deque_reader_state \<Rightarrow> nat" where
  "dr_processed r = dr_offset r"

text \<open>The loop of \<open>Extract\<close>: the bytes already written, and the number still wanted.\<close>

function dr_extract_loop :: "deque_reader_state \<Rightarrow> nat \<Rightarrow> byte list \<Rightarrow> (deque_reader_state \<times> byte list) result" where
  "dr_extract_loop r n done =
     (if n \<noteq> 0 \<and> dq_size (dr_container r) \<noteq> dr_offset r
      then let from = take n (dq_contiguous_range (dr_container r) (dr_offset r))
           in if from = [] then Inl Diverges
              else dr_extract_loop (r\<lparr>dr_offset := dr_offset r + length from\<rparr>) (n - length from) (done @ from)
      else Inr (r, done))"
  by pat_completeness auto
termination by (relation "measure (\<lambda>(r, n, done). n)") (auto simp: min_def)

declare dr_extract_loop.simps [simp del]

definition dr_extract :: "deque_reader_state \<Rightarrow> error_policy \<Rightarrow> nat \<Rightarrow> (deque_reader_state \<times> error_policy \<times> byte list) result" where
  "dr_extract r p n = rbind (report_result p (n \<le> dq_size (dr_container r) - dr_offset r))
     (\<lambda>p'. rbind (dr_extract_loop r n []) (\<lambda>(r', bytes). Inr (r', p', bytes)))"

definition dr_peek :: "deque_reader_state \<Rightarrow> error_policy \<Rightarrow> (error_policy \<times> byte) result" where
  "dr_peek r p = rbind (dr_extract r p 1) (\<lambda>(r', p', bytes). Inr (p', hd (extract_into [0] bytes)))"

definition dr_extract_contiguous :: "deque_reader_state \<Rightarrow> nat \<Rightarrow> (deque_reader_state \<times> byte list) result" where
  "dr_extract_contiguous r maxLen =
     (let bytes = take maxLen (dq_contiguous_range (dr_container r) (dr_offset r))
      in Inr (r\<lparr>dr_offset := dr_offset r + length bytes\<rparr>, bytes))"

definition dr_peek_contiguous :: "deque_reader_state \<Rightarrow> nat \<Rightarrow> byte list result" where
  "dr_peek_contiguous r start = Inr (dq_contiguous_range (dr_container r) (dr_offset r + start))"

definition dr_empty :: "deque_reader_state \<Rightarrow> bool" where
  "dr_empty r \<longleftrightarrow> dr_offset r = dq_size (dr_container r)"

definition dr_available :: "deque_reader_state \<Rightarrow> nat" where
  "dr_available r = dq_size (dr_container r) - dr_offset r"

definition dr_construct_save_marker :: "deque_reader_state \<Rightarrow> nat" where
  "dr_construct_save_marker r = dr_offset r"

definition dr_rewind :: "deque_reader_state \<Rightarrow> nat \<Rightarrow> deque_reader_state result" where
  "dr_rewind r marker = Inr (r\<lparr>dr_offset := marker\<rparr>)"

definition deque_reader :: "deque_reader_state rewinding_reader" where
  "deque_reader = \<lparr>sr_extract = dr_extract, sr_peek = dr_peek, sr_extract_contiguous = dr_extract_contiguous,
     sr_peek_contiguous = dr_peek_contiguous, sr_empty = dr_empty, sr_available = dr_available,
     sr_construct_save_marker = dr_construct_save_marker, sr_rewind = dr_rewind\<rparr>"

definition dr_ok :: "deque_reader_state \<Rightarrow> bool" where
  "dr_ok r \<longleftrightarrow> dq_inv (dr_container r) \<and> dr_offset r \<le> dq_size (dr_container r)"

definition dr_bytes :: "deque_reader_state \<Rightarrow> byte list" where
  "dr_bytes r = dq_elems (dr_container r)"

lemma length_dr_bytes [simp]: "length (dr_bytes r) = dq_size (dr_container r)"
  by (simp add: dr_bytes_def)

lemma dr_bytes_offset [simp]: "dr_bytes (r\<lparr>dr_offset := i\<rparr>) = dr_bytes r"
  by (simp add: dr_bytes_def)

lemma dr_contiguous:
  assumes "dr_ok r" and "dr_offset r + start \<le> dq_size (dr_container r)"
  shows "\<exists>k. dq_contiguous_range (dr_container r) (dr_offset r + start) = take k (drop (dr_offset r + start) (dr_bytes r)) \<and>
    (dr_offset r + start < dq_size (dr_container r) \<longrightarrow> 0 < k)"
  using dq_contiguous_range_take [of "dr_container r" "dr_offset r + start"] assms by (simp add: dr_ok_def dr_bytes_def)

lemma dr_extract_loop_eq:
  assumes "dr_ok r"
  shows "dr_extract_loop r n acc = Inr (r\<lparr>dr_offset := dr_offset r + min n (dq_size (dr_container r) - dr_offset r)\<rparr>,
    acc @ take n (drop (dr_offset r) (dr_bytes r)))"
  using assms
proof (induction r n acc rule: dr_extract_loop.induct)
  case (1 r n acc)
  show ?case
  proof (cases "n \<noteq> 0 \<and> dq_size (dr_container r) \<noteq> dr_offset r")
    case True
    then have lt: "dr_offset r < dq_size (dr_container r)" using 1(2) by (simp add: dr_ok_def)
    then obtain k where k: "dq_contiguous_range (dr_container r) (dr_offset r) = take k (drop (dr_offset r) (dr_bytes r))" "0 < k"
      using dr_contiguous [OF 1(2), of 0] by auto
    define seg where "seg = take n (dq_contiguous_range (dr_container r) (dr_offset r))"
    define r' where "r' = r\<lparr>dr_offset := dr_offset r + length seg\<rparr>"
    have seg: "seg = take (min n k) (drop (dr_offset r) (dr_bytes r))"
      by (simp add: seg_def k(1) min.commute)
    have lf: "length seg = min (min n k) (dq_size (dr_container r) - dr_offset r)" by (simp add: seg)
    have ne: "seg \<noteq> []" using lt k(2) True by (simp add: seg)
    have ok: "dr_ok r'" using 1(2) lt by (simp add: r'_def lf dr_ok_def)
    have "dr_extract_loop r n acc = dr_extract_loop r' (n - length seg) (acc @ seg)"
      using True ne by (subst dr_extract_loop.simps) (simp add: seg_def r'_def Let_def)
    also have "\<dots> = Inr (r'\<lparr>dr_offset := dr_offset r' + min (n - length seg) (dq_size (dr_container r') - dr_offset r')\<rparr>,
      (acc @ seg) @ take (n - length seg) (drop (dr_offset r') (dr_bytes r')))"
      using 1(1) [OF True seg_def] ne ok unfolding r'_def by blast
    also have "(acc @ seg) @ take (n - length seg) (drop (dr_offset r') (dr_bytes r')) =
      acc @ take n (drop (dr_offset r) (dr_bytes r))"
    proof -
      have "take n (drop (dr_offset r) (dr_bytes r)) = seg @ take (n - length seg) (drop (length seg) (drop (dr_offset r) (dr_bytes r)))"
        unfolding seg by (rule take_in_two [symmetric]) simp
      then show ?thesis by (simp add: r'_def add.commute)
    qed
    also have "r'\<lparr>dr_offset := dr_offset r' + min (n - length seg) (dq_size (dr_container r') - dr_offset r')\<rparr> =
      r\<lparr>dr_offset := dr_offset r + min n (dq_size (dr_container r) - dr_offset r)\<rparr>"
      using lt by (simp add: r'_def lf min_def)
    finally show ?thesis .
  next
    case False
    then show ?thesis using 1(2) by (subst dr_extract_loop.simps) (auto simp: dr_ok_def)
  qed
qed

lemmas [reader_defs] = dr_ok_def deque_reader_def dr_extract_def dr_extract_contiguous_def dr_peek_contiguous_def
  dr_empty_def dr_available_def dr_construct_save_marker_def dr_rewind_def

interpretation dr: offset_reader deque_reader dr_ok dr_bytes dr_offset
proof unfold_locales
  fix r :: deque_reader_state and n assume "dr_ok r"
  then show "\<exists>bs r'. (False \<in> set bs) = (length (dr_bytes r) - dr_offset r < n) \<and> dr_ok r' \<and> dr_bytes r' = dr_bytes r \<and>
      dr_offset r' = dr_offset r + min n (length (dr_bytes r) - dr_offset r) \<and>
      (\<forall>p. sr_extract deque_reader r p n = rbind (report_all p bs) (\<lambda>p'. Inr (r', p', take n (drop (dr_offset r) (dr_bytes r)))))"
    by (intro exI [of _ "[n \<le> dq_size (dr_container r) - dr_offset r]"]
          exI [of _ "r\<lparr>dr_offset := dr_offset r + min n (dq_size (dr_container r) - dr_offset r)\<rparr>"])
       (auto simp: dr_extract_loop_eq reader_defs report_all_one simp del: report_all.simps)
next
  fix r :: deque_reader_state and n :: nat assume ok: "dr_ok r"
  then obtain k where k: "dq_contiguous_range (dr_container r) (dr_offset r) = take k (drop (dr_offset r) (dr_bytes r))"
      "dr_offset r < dq_size (dr_container r) \<longrightarrow> 0 < k"
    using dr_contiguous [OF ok, of 0] by (auto simp: dr_ok_def)
  then show "\<exists>r' k. sr_extract_contiguous deque_reader r n = Inr (r', take k (drop (dr_offset r) (dr_bytes r))) \<and> k \<le> n \<and>
      (dr_offset r < length (dr_bytes r) \<and> 0 < n \<longrightarrow> 0 < k) \<and> dr_ok r' \<and> dr_bytes r' = dr_bytes r \<and>
      dr_offset r' = dr_offset r + min k (length (dr_bytes r) - dr_offset r)"
    using ok
    by (intro exI [of _ "r\<lparr>dr_offset := dr_offset r + min (min n k) (dq_size (dr_container r) - dr_offset r)\<rparr>"]
          exI [of _ "min n k"])
       (auto simp: reader_defs min.commute)
next
  fix r :: deque_reader_state assume "dr_ok r" and "dr_offset r < length (dr_bytes r)"
  then show "\<exists>bs. False \<notin> set bs \<and> (\<forall>p. sr_peek deque_reader r p = rbind (report_all p bs) (\<lambda>p'. Inr (p', dr_bytes r ! dr_offset r)))"
    by (intro reports_once(1)) (auto simp: dr_peek_def dr_extract_loop_eq dr_extract_def deque_reader_def rbind_assoc
        Suc_le_eq extract_into_def take_Suc_conv_app_nth hd_drop_conv_nth take_Suc hd_conv_nth)
qed (auto simp: reader_defs)

interpretation dr_p: peeking_reader deque_reader dr_ok "\<lambda>r. drop (dr_offset r) (dr_bytes r)"
proof unfold_locales
  fix r :: deque_reader_state assume "dr_ok r" and "drop (dr_offset r) (dr_bytes r) = []"
  then show "\<exists>bs. False \<in> set bs \<and> (\<forall>p. sr_peek deque_reader r p = rbind (report_all p bs) (\<lambda>p'. Inr (p', 0)))"
    by (intro reports_once(2)) (auto simp: dr_peek_def dr_extract_loop_eq dr_extract_def deque_reader_def rbind_assoc
        extract_into_def)
qed

interpretation dr_c: contiguous_peeker deque_reader dr_ok "\<lambda>r. drop (dr_offset r) (dr_bytes r)"
proof unfold_locales
  fix r :: deque_reader_state and start assume ok: "dr_ok r" and s: "start \<le> length (drop (dr_offset r) (dr_bytes r))"
  then have "dr_offset r + start \<le> dq_size (dr_container r)" by (auto simp: dr_ok_def)
  from dr_contiguous [OF ok this] show "\<exists>k. sr_peek_contiguous deque_reader r start = Inr (take k (drop start (drop (dr_offset r) (dr_bytes r)))) \<and>
      (start < length (drop (dr_offset r) (dr_bytes r)) \<longrightarrow> 0 < k)"
    by (auto simp: reader_defs add.commute less_diff_conv)
qed

section \<open>The atomic byte queue\<close>

record queue_reader_state =
  qr_deque :: "byte abq"
  qr_offset :: nat

definition qr_new :: "byte abq \<Rightarrow> queue_reader_state" where
  "qr_new q = \<lparr>qr_deque = q, qr_offset = 0\<rparr>"

definition qr_commit :: "queue_reader_state \<Rightarrow> queue_reader_state result" where
  "qr_commit r = rbind (abq_pop (qr_deque r) (qr_offset r)) (\<lambda>q. Inr (r\<lparr>qr_deque := q, qr_offset := 0\<rparr>))"

definition qr_peek_contiguous :: "queue_reader_state \<Rightarrow> nat \<Rightarrow> byte list result" where
  "qr_peek_contiguous r start = Inr (abq_peek_contiguous_range (qr_deque r) (start + qr_offset r))"

function qr_extract_loop :: "queue_reader_state \<Rightarrow> error_policy \<Rightarrow> nat \<Rightarrow> byte list \<Rightarrow> (queue_reader_state \<times> error_policy \<times> byte list) result" where
  "qr_extract_loop r p n done =
     (if n \<noteq> 0
      then rbind (qr_peek_contiguous r 0) (\<lambda>range. let seg = take n range in
             rbind (report_result p (seg \<noteq> [])) (\<lambda>p'.
               if seg = [] then Inr (r, p', done)
               else qr_extract_loop (r\<lparr>qr_offset := qr_offset r + length seg\<rparr>) p' (n - length seg) (done @ seg)))
      else Inr (r, p, done))"
  by pat_completeness auto
termination by (relation "measure (\<lambda>(r, p, n, done). n)") (auto simp: min_def)

declare qr_extract_loop.simps [simp del]

definition qr_extract :: "queue_reader_state \<Rightarrow> error_policy \<Rightarrow> nat \<Rightarrow> (queue_reader_state \<times> error_policy \<times> byte list) result" where
  "qr_extract r p n = qr_extract_loop r p n []"

definition qr_peek :: "queue_reader_state \<Rightarrow> error_policy \<Rightarrow> (error_policy \<times> byte) result" where
  "qr_peek r p = rbind (qr_peek_contiguous r 0) (\<lambda>range.
     rbind (report_result p (range \<noteq> [])) (\<lambda>p'. if range \<noteq> [] then Inr (p', hd range) else Inr (p', 0)))"

definition qr_extract_contiguous :: "queue_reader_state \<Rightarrow> nat \<Rightarrow> (queue_reader_state \<times> byte list) result" where
  "qr_extract_contiguous r maxLen = rbind (qr_peek_contiguous r 0) (\<lambda>range.
     let bytes = take maxLen range in Inr (r\<lparr>qr_offset := qr_offset r + length bytes\<rparr>, bytes))"

definition qr_empty :: "queue_reader_state \<Rightarrow> bool" where
  "qr_empty r \<longleftrightarrow> abq_size (qr_deque r) = qr_offset r"

definition qr_available :: "queue_reader_state \<Rightarrow> nat" where
  "qr_available r = abq_size (qr_deque r) - qr_offset r"

definition qr_construct_save_marker :: "queue_reader_state \<Rightarrow> nat" where
  "qr_construct_save_marker r = qr_offset r"

definition qr_rewind :: "queue_reader_state \<Rightarrow> nat \<Rightarrow> queue_reader_state result" where
  "qr_rewind r marker = Inr (r\<lparr>qr_offset := marker\<rparr>)"

definition queue_reader :: "queue_reader_state rewinding_reader" where
  "queue_reader = \<lparr>sr_extract = qr_extract, sr_peek = qr_peek, sr_extract_contiguous = qr_extract_contiguous,
     sr_peek_contiguous = qr_peek_contiguous, sr_empty = qr_empty, sr_available = qr_available,
     sr_construct_save_marker = qr_construct_save_marker, sr_rewind = qr_rewind\<rparr>"

definition qr_ok :: "queue_reader_state \<Rightarrow> bool" where
  "qr_ok r \<longleftrightarrow> abq_inv (qr_deque r) \<and> qr_offset r \<le> abq_size (qr_deque r)"

definition qr_bytes :: "queue_reader_state \<Rightarrow> byte list" where
  "qr_bytes r = abq_elems (qr_deque r)"

lemma length_qr_bytes [simp]: "length (qr_bytes r) = abq_size (qr_deque r)"
  by (simp add: qr_bytes_def)

lemma qr_bytes_offset [simp]: "qr_bytes (r\<lparr>qr_offset := i\<rparr>) = qr_bytes r"
  by (simp add: qr_bytes_def)

lemma qr_contiguous:
  assumes "qr_ok r" and "start + qr_offset r \<le> abq_size (qr_deque r)"
  shows "\<exists>k. qr_peek_contiguous r start = Inr (take k (drop (start + qr_offset r) (qr_bytes r))) \<and>
    (start + qr_offset r < abq_size (qr_deque r) \<longrightarrow> 0 < k)"
  using abq_peek_prefix [of "qr_deque r" "start + qr_offset r"] assms
  by (simp add: qr_ok_def qr_bytes_def qr_peek_contiguous_def)

lemma qr_contiguous_0:
  assumes "qr_ok r"
  obtains k where "qr_peek_contiguous r 0 = Inr (take k (drop (qr_offset r) (qr_bytes r)))"
    and "qr_offset r < abq_size (qr_deque r) \<Longrightarrow> 0 < k"
  using qr_contiguous [OF assms, of 0] assms by (auto simp: qr_ok_def)

lemma qr_extract_loop_spec:
  assumes "qr_ok r"
  shows "\<exists>bs. (False \<in> set bs) = (abq_size (qr_deque r) - qr_offset r < n) \<and>
    (\<forall>p. qr_extract_loop r p n acc = rbind (report_all p bs) (\<lambda>p'.
      Inr (r\<lparr>qr_offset := qr_offset r + min n (abq_size (qr_deque r) - qr_offset r)\<rparr>, p',
        acc @ take n (drop (qr_offset r) (qr_bytes r)))))"
  using assms
proof (induction n arbitrary: r acc rule: less_induct)
  case (less n)
  let ?left = "abq_size (qr_deque r) - qr_offset r"
  obtain k where k: "qr_peek_contiguous r 0 = Inr (take k (drop (qr_offset r) (qr_bytes r)))"
    and pos: "qr_offset r < abq_size (qr_deque r) \<Longrightarrow> 0 < k"
    using qr_contiguous_0 [OF less.prems] by blast
  define seg where "seg = take n (take k (drop (qr_offset r) (qr_bytes r)))"
  have seg: "seg = take (min n k) (drop (qr_offset r) (qr_bytes r))" by (simp add: seg_def)
  have lseg: "length seg = min (min n k) ?left" by (simp add: seg)
  consider (none) "n = 0" | (dry) "n \<noteq> 0" "?left = 0" | (more) "n \<noteq> 0" "0 < ?left" by (metis neq0_conv)
  then show ?case
  proof cases
    case none
    then show ?thesis using less.prems by (subst qr_extract_loop.simps) (auto intro!: exI [of _ "[]"] simp: qr_extract_loop.simps [of r _ 0])
  next
    case dry
    then have "seg = []" using lseg by simp
    moreover have "r\<lparr>qr_offset := qr_offset r + min n ?left\<rparr> = r" and "drop (qr_offset r) (qr_bytes r) = []"
      using dry by simp_all
    ultimately have "qr_extract_loop r p n acc = rbind (report_all p [False]) (\<lambda>p'.
        Inr (r\<lparr>qr_offset := qr_offset r + min n ?left\<rparr>, p', acc @ take n (drop (qr_offset r) (qr_bytes r))))" for p
      using dry k by (subst qr_extract_loop.simps) (simp add: report_all_one del: report_all.simps)
    with dry show ?thesis by (intro exI [of _ "[False]"]) simp
  next
    case more
    define r' where "r' = r\<lparr>qr_offset := qr_offset r + length seg\<rparr>"
    have ne: "seg \<noteq> []" using more pos lseg by (metis length_0_conv min_less_iff_conj neq0_conv zero_less_diff)
    have ok: "qr_ok r'" using less.prems lseg by (auto simp: r'_def qr_ok_def)
    have smaller: "n - length seg < n" using ne more by simp
    have loop: "qr_extract_loop r p n acc =
        rbind (report_result p True) (\<lambda>p'. qr_extract_loop r' p' (n - length seg) (acc @ seg))" for p
      using more ne pos by (subst qr_extract_loop.simps) (simp add: k Let_def r'_def seg_def)
    have rest: "acc @ seg @ take (n - length seg) (drop (qr_offset r') (qr_bytes r')) = acc @ take n (drop (qr_offset r) (qr_bytes r))"
      using take_in_two [of "min n k" n "drop (qr_offset r) (qr_bytes r)"] by (simp add: r'_def seg add.commute)
    have place: "r'\<lparr>qr_offset := qr_offset r' + min (n - length seg) (abq_size (qr_deque r') - qr_offset r')\<rparr> =
        r\<lparr>qr_offset := qr_offset r + min n ?left\<rparr>"
      using lseg by (simp add: r'_def min_def)
    have short: "(abq_size (qr_deque r') - qr_offset r' < n - length seg) = (?left < n)"
    proof -
      have "length seg \<le> n" "length seg \<le> ?left" by (simp_all add: lseg)
      then show ?thesis by (simp add: r'_def) linarith
    qed
    from less.IH [OF smaller ok, of "acc @ seg"] obtain bs where
      bs: "(False \<in> set bs) = (?left < n)" and
      l: "\<And>q. qr_extract_loop r' q (n - length seg) (acc @ seg) = rbind (report_all q bs) (\<lambda>p'.
        Inr (r\<lparr>qr_offset := qr_offset r + min n ?left\<rparr>, p', acc @ take n (drop (qr_offset r) (qr_bytes r))))"
      by (auto simp only: place short rest append_assoc)
    show ?thesis by (intro exI [of _ "True # bs"]) (simp add: bs loop l rbind_assoc)
  qed
qed

lemmas [reader_defs] = qr_ok_def queue_reader_def qr_empty_def qr_available_def qr_construct_save_marker_def qr_rewind_def

interpretation qr: offset_reader queue_reader qr_ok qr_bytes qr_offset
proof unfold_locales
  fix r :: queue_reader_state and n assume ok: "qr_ok r"
  from qr_extract_loop_spec [OF ok, of n "[]"]
  obtain bs where "(False \<in> set bs) = (abq_size (qr_deque r) - qr_offset r < n)"
    and "\<And>p. qr_extract_loop r p n [] = rbind (report_all p bs) (\<lambda>p'.
      Inr (r\<lparr>qr_offset := qr_offset r + min n (abq_size (qr_deque r) - qr_offset r)\<rparr>, p', take n (drop (qr_offset r) (qr_bytes r))))"
    by auto
  with ok show "\<exists>bs r'. (False \<in> set bs) = (length (qr_bytes r) - qr_offset r < n) \<and> qr_ok r' \<and> qr_bytes r' = qr_bytes r \<and>
      qr_offset r' = qr_offset r + min n (length (qr_bytes r) - qr_offset r) \<and>
      (\<forall>p. sr_extract queue_reader r p n = rbind (report_all p bs) (\<lambda>p'. Inr (r', p', take n (drop (qr_offset r) (qr_bytes r)))))"
    by (intro exI [of _ bs] exI [of _ "r\<lparr>qr_offset := qr_offset r + min n (abq_size (qr_deque r) - qr_offset r)\<rparr>"])
       (auto simp: reader_defs qr_extract_def)
next
  fix r :: queue_reader_state and n :: nat assume ok: "qr_ok r"
  obtain k where "qr_peek_contiguous r 0 = Inr (take k (drop (qr_offset r) (qr_bytes r)))"
    and "qr_offset r < abq_size (qr_deque r) \<Longrightarrow> 0 < k"
    using qr_contiguous_0 [OF ok] by blast
  then show "\<exists>r' k. sr_extract_contiguous queue_reader r n = Inr (r', take k (drop (qr_offset r) (qr_bytes r))) \<and> k \<le> n \<and>
      (qr_offset r < length (qr_bytes r) \<and> 0 < n \<longrightarrow> 0 < k) \<and> qr_ok r' \<and> qr_bytes r' = qr_bytes r \<and>
      qr_offset r' = qr_offset r + min k (length (qr_bytes r) - qr_offset r)"
    using ok
    by (intro exI [of _ "r\<lparr>qr_offset := qr_offset r + min (min n k) (abq_size (qr_deque r) - qr_offset r)\<rparr>"]
          exI [of _ "min n k"])
       (auto simp: reader_defs qr_extract_contiguous_def min.commute)
next
  fix r :: queue_reader_state assume ok: "qr_ok r" and lt: "qr_offset r < length (qr_bytes r)"
  obtain k where "qr_peek_contiguous r 0 = Inr (take k (drop (qr_offset r) (qr_bytes r)))"
    and "qr_offset r < abq_size (qr_deque r) \<Longrightarrow> 0 < k"
    using qr_contiguous_0 [OF ok] by blast
  then show "\<exists>bs. False \<notin> set bs \<and> (\<forall>p. sr_peek queue_reader r p = rbind (report_all p bs) (\<lambda>p'. Inr (p', qr_bytes r ! qr_offset r)))"
    using lt by (intro reports_once(1)) (auto simp: queue_reader_def qr_peek_def hd_drop_conv_nth)
qed (auto simp: reader_defs)

interpretation qr_p: peeking_reader queue_reader qr_ok "\<lambda>r. drop (qr_offset r) (qr_bytes r)"
proof unfold_locales
  fix r :: queue_reader_state assume ok: "qr_ok r" and dry: "drop (qr_offset r) (qr_bytes r) = []"
  obtain k where "qr_peek_contiguous r 0 = Inr (take k (drop (qr_offset r) (qr_bytes r)))"
    using qr_contiguous_0 [OF ok] by blast
  then show "\<exists>bs. False \<in> set bs \<and> (\<forall>p. sr_peek queue_reader r p = rbind (report_all p bs) (\<lambda>p'. Inr (p', 0)))"
    using dry by (intro reports_once(2)) (auto simp: queue_reader_def qr_peek_def)
qed

interpretation qr_c: contiguous_peeker queue_reader qr_ok "\<lambda>r. drop (qr_offset r) (qr_bytes r)"
proof unfold_locales
  fix r :: queue_reader_state and start assume ok: "qr_ok r" and s: "start \<le> length (drop (qr_offset r) (qr_bytes r))"
  then have "start + qr_offset r \<le> abq_size (qr_deque r)" by (auto simp: qr_ok_def)
  from qr_contiguous [OF ok this] show "\<exists>k. sr_peek_contiguous queue_reader r start = Inr (take k (drop start (drop (qr_offset r) (qr_bytes r)))) \<and>
      (start < length (drop (qr_offset r) (qr_bytes r)) \<longrightarrow> 0 < k)"
    by (auto simp: queue_reader_def less_diff_conv)
qed

text \<open>Committing hands the space of what was read back to the writer.\<close>

lemma qr_commit_spec:
  assumes "qr_ok r"
  shows "\<exists>r'. qr_commit r = Inr r' \<and> qr_ok r' \<and> qr_offset r' = 0 \<and> qr_bytes r' = drop (qr_offset r) (qr_bytes r)"
  using abq_pop_spec [of "qr_deque r" "qr_offset r"] assms by (auto simp: qr_commit_def qr_ok_def qr_bytes_def)

section \<open>Properties\<close>

text \<open>Extracting from a bounded deque, however its elements wrap around the storage, hands out the
  next elements in order: all that were asked for, without a failure, when there are as many;
  otherwise the code stops under the asserting policy, and under another policy hands out what
  remains and reports a failure that a soft policy wants to see checked.\<close>

lemma deque_reader_extract:
  assumes "dq_inv (dr_container r)" and "dr_offset r \<le> dq_size (dr_container r)"
  shows "let remaining = drop (dr_offset r) (dq_elems (dr_container r)) in
    (n \<le> length remaining \<longrightarrow> (\<exists>r' p'. dr_extract r p n = Inr (r', p', take n remaining) \<and> failed p' = failed p \<and>
       drop (dr_offset r') (dq_elems (dr_container r')) = drop n remaining)) \<and>
    (length remaining < n \<and> mode p = Assertion \<longrightarrow> dr_extract r p n = Inl Assert_failed) \<and>
    (length remaining < n \<and> mode p \<noteq> Assertion \<longrightarrow> (\<exists>r' p'. dr_extract r p n = Inr (r', p', remaining) \<and> failed p' \<and>
       needs_check p' = (mode p = Soft) \<and> drop (dr_offset r') (dq_elems (dr_container r')) = []))"
proof -
  have ok: "dr_ok r" using assms by (simp add: dr_ok_def)
  have x: "sr_extract deque_reader = dr_extract" by (simp add: deque_reader_def)
  show ?thesis unfolding Let_def
  proof (intro conjI impI)
    assume "n \<le> length (drop (dr_offset r) (dq_elems (dr_container r)))"
    with dr.extract_enough [OF ok, of n p] show "\<exists>r' p'. dr_extract r p n = Inr (r', p', take n (drop (dr_offset r) (dq_elems (dr_container r)))) \<and>
        failed p' = failed p \<and> drop (dr_offset r') (dq_elems (dr_container r')) = drop n (drop (dr_offset r) (dq_elems (dr_container r)))"
      unfolding x dr_bytes_def by blast
  next
    assume "length (drop (dr_offset r) (dq_elems (dr_container r))) < n \<and> mode p = Assertion"
    with dr.extract_short(1) [OF ok, of n p] show "dr_extract r p n = Inl Assert_failed" unfolding x dr_bytes_def by blast
  next
    assume "length (drop (dr_offset r) (dq_elems (dr_container r))) < n \<and> mode p \<noteq> Assertion"
    with dr.extract_short(2) [OF ok, of n p] show "\<exists>r' p'. dr_extract r p n = Inr (r', p', drop (dr_offset r) (dq_elems (dr_container r))) \<and>
        failed p' \<and> needs_check p' = (mode p = Soft) \<and> drop (dr_offset r') (dq_elems (dr_container r')) = []"
      unfolding x dr_bytes_def by blast
  qed
qed

lemma deque_reader_extract_witness:
  "\<exists>r' p'. dr_extract (dr_new \<lparr>dq_storage = [3, 1, 2], dq_numAllocated = 3, dq_start = 1\<rparr>) assert_policy 3 = Inr (r', p', [1, 2, 3])"
proof -
  let ?r = "dr_new \<lparr>dq_storage = [3 :: byte, 1, 2], dq_numAllocated = 3, dq_start = 1\<rparr>"
  have "dq_inv (dr_container ?r)" and "dr_offset ?r \<le> dq_size (dr_container ?r)"
    by (simp_all add: dr_new_def dq_defs)
  moreover have "drop (dr_offset ?r) (dq_elems (dr_container ?r)) = [1, 2, 3]"
    by (simp add: dr_new_def dq_elems_def view_def dq_get_def dq_index_def dq_defs Let_def upt_rec_numeral eval_nat_numeral)
  ultimately show ?thesis using deque_reader_extract [of ?r 3 assert_policy] by (auto simp: Let_def)
qed

text \<open>A policy that does not stop lets \<open>ByteInputStreamReader::Peek\<close> read the byte after the end of
  its range.\<close>

lemma byte_peek_past_end:
  assumes "br_offset r = length (br_range r)" and "mode p \<noteq> Assertion"
  shows "br_peek r p = Inl Out_of_bounds"
  using assms by (intro br_peek_at_end) (simp_all add: br_ok_def br_remaining_def)

lemma byte_peek_past_end_witness: "br_peek (br_new []) soft_fail = Inl Out_of_bounds"
  by (rule byte_peek_past_end) (simp_all add: br_new_def soft_fail_def)

end
