(* ===== verification/Stream_Adapters.thy ===== *)
theory Stream_Adapters
  imports Stream_Readers
begin

text \<open>
  Readers over another reader: at most a number of bytes of it (LimitedInputStream.cpp),
  counting what is read (CountingInputStream.cpp), and continuing after bytes stored earlier
  (BufferingStreamReader.cpp). Each takes the record of the inner reader's functions, and its
  contract is derived from the inner reader's. The interpretations instantiate them on the
  readers of the library.
\<close>

section \<open>Limited\<close>

record 'r limited =
  lim_input :: 'r
  lim_length :: u32

definition lim_new :: "'r \<Rightarrow> u32 \<Rightarrow> 'r limited" where
  "lim_new input len = \<lparr>lim_input = input, lim_length = len\<rparr>"

definition lim_reset_length :: "'r limited \<Rightarrow> u32 \<Rightarrow> 'r limited" where
  "lim_reset_length r newLength = r\<lparr>lim_length := newLength\<rparr>"

definition lim_limit_reached :: "'r limited \<Rightarrow> bool" where
  "lim_limit_reached r \<longleftrightarrow> lim_length r = 0"

definition lim_switch_input :: "'r limited \<Rightarrow> 'r \<Rightarrow> 'r limited" where
  "lim_switch_input r newInput = r\<lparr>lim_input := newInput\<rparr>"

definition lim_extract :: "('r, 'x) stream_reader_scheme \<Rightarrow> 'r limited \<Rightarrow> error_policy \<Rightarrow> nat \<Rightarrow> ('r limited \<times> error_policy \<times> byte list) result" where
  "lim_extract ops r p n = rbind (report_result p (n \<le> unat (lim_length r)))
     (\<lambda>p1. let len = min n (unat (lim_length r))
           in rbind (sr_extract ops (lim_input r) p1 len)
                (\<lambda>(input, p2, bytes). Inr (\<lparr>lim_input = input, lim_length = lim_length r - of_nat len\<rparr>, p2, bytes)))"

definition lim_peek :: "('r, 'x) stream_reader_scheme \<Rightarrow> 'r limited \<Rightarrow> error_policy \<Rightarrow> (error_policy \<times> byte) result" where
  "lim_peek ops r p = rbind (report_result p (lim_length r \<noteq> 0))
     (\<lambda>p1. if lim_length r \<noteq> 0 then sr_peek ops (lim_input r) p1 else Inr (p1, 0))"

definition lim_extract_contiguous :: "('r, 'x) stream_reader_scheme \<Rightarrow> 'r limited \<Rightarrow> nat \<Rightarrow> ('r limited \<times> byte list) result" where
  "lim_extract_contiguous ops r maxLen = rbind (sr_extract_contiguous ops (lim_input r) (min (unat (lim_length r)) maxLen))
     (\<lambda>(input, bytes). Inr (\<lparr>lim_input = input, lim_length = lim_length r - of_nat (length bytes)\<rparr>, bytes))"

definition lim_peek_contiguous :: "('r, 'x) stream_reader_scheme \<Rightarrow> 'r limited \<Rightarrow> nat \<Rightarrow> byte list result" where
  "lim_peek_contiguous ops r start = sr_peek_contiguous ops (lim_input r) start"

definition lim_empty :: "('r, 'x) stream_reader_scheme \<Rightarrow> 'r limited \<Rightarrow> bool" where
  "lim_empty ops r \<longleftrightarrow> lim_length r = 0 \<or> sr_empty ops (lim_input r)"

text \<open>\<open>std::min<uint32_t>\<close> narrows the other operand first; the rewinding variant does not.\<close>

definition lim_available :: "('r, 'x) stream_reader_scheme \<Rightarrow> 'r limited \<Rightarrow> nat" where
  "lim_available ops r = unat (min (lim_length r) (of_nat (sr_available ops (lim_input r))))"

definition limr_available :: "('r, 'x) stream_reader_scheme \<Rightarrow> 'r limited \<Rightarrow> nat" where
  "limr_available ops r = min (unat (lim_length r)) (sr_available ops (lim_input r))"

definition limr_construct_save_marker :: "('r, 'x) rewinding_reader_scheme \<Rightarrow> 'r limited \<Rightarrow> nat" where
  "limr_construct_save_marker ops r = sr_construct_save_marker ops (lim_input r)"

definition limr_rewind :: "('r, 'x) rewinding_reader_scheme \<Rightarrow> 'r limited \<Rightarrow> nat \<Rightarrow> 'r limited result" where
  "limr_rewind ops r marker =
     (let now = sr_construct_save_marker ops (lim_input r)
      in rbind (sr_rewind ops (lim_input r) marker)
           (\<lambda>input. Inr (\<lparr>lim_input = input, lim_length = lim_length r + (of_nat now - of_nat marker)\<rparr>)))"

definition limited_reader :: "('r, 'x) stream_reader_scheme \<Rightarrow> 'r limited stream_reader" where
  "limited_reader ops = \<lparr>sr_extract = lim_extract ops, sr_peek = lim_peek ops,
     sr_extract_contiguous = lim_extract_contiguous ops, sr_peek_contiguous = lim_peek_contiguous ops,
     sr_empty = lim_empty ops, sr_available = lim_available ops\<rparr>"

definition limited_rewinding_reader :: "('r, 'x) rewinding_reader_scheme \<Rightarrow> 'r limited rewinding_reader" where
  "limited_rewinding_reader ops = \<lparr>sr_extract = lim_extract ops, sr_peek = lim_peek ops,
     sr_extract_contiguous = lim_extract_contiguous ops, sr_peek_contiguous = lim_peek_contiguous ops,
     sr_empty = lim_empty ops, sr_available = limr_available ops,
     sr_construct_save_marker = limr_construct_save_marker ops, sr_rewind = limr_rewind ops\<rparr>"

text \<open>What is left: no more than the limit of what the input holds. The input's size fits the
  counter's 32 bits, for \<open>Available\<close> of the plain variant.\<close>

definition lim_rem :: "('r \<Rightarrow> byte list) \<Rightarrow> 'r limited \<Rightarrow> byte list" where
  "lim_rem rem r = take (unat (lim_length r)) (rem (lim_input r))"

definition lim_ok :: "('r \<Rightarrow> bool) \<Rightarrow> ('r \<Rightarrow> byte list) \<Rightarrow> 'r limited \<Rightarrow> bool" where
  "lim_ok ok rem r \<longleftrightarrow> ok (lim_input r) \<and> length (rem (lim_input r)) < 2 ^ 32"

lemma lim_ok_input: "lim_ok ok rem r \<Longrightarrow> ok (lim_input r)" "lim_ok ok rem r \<Longrightarrow> length (rem (lim_input r)) < 2 ^ 32"
  by (simp_all add: lim_ok_def)

context reader
begin

lemma lim_extract_step:
  fixes n :: nat
  assumes ok: "ok (lim_input r)"
  defines "len \<equiv> min n (unat (lim_length r))"
  obtains bs input where "(False \<in> set bs) = (length (rem (lim_input r)) < len)" and "ok input"
    and "rem input = drop len (rem (lim_input r))"
    and "\<forall>p. sr_extract ops (lim_input r) p len = rbind (report_all p bs) (\<lambda>p'. Inr (input, p', take len (rem (lim_input r))))"
    and "\<forall>p. lim_extract ops r p n = rbind (report_all p ((n \<le> unat (lim_length r)) # bs)) (\<lambda>p'.
        Inr (\<lparr>lim_input = input, lim_length = lim_length r - of_nat len\<rparr>, p', take len (rem (lim_input r))))"
proof -
  obtain bs input where b: "(False \<in> set bs) = (length (rem (lim_input r)) < len)" "ok input" "rem input = drop len (rem (lim_input r))"
    and e: "\<forall>p. sr_extract ops (lim_input r) p len = rbind (report_all p bs) (\<lambda>p'. Inr (input, p', take len (rem (lim_input r))))"
    using extracts [OF ok, of len] by blast
  moreover have "lim_extract ops r p n = rbind (report_all p ((n \<le> unat (lim_length r)) # bs)) (\<lambda>p'.
      Inr (\<lparr>lim_input = input, lim_length = lim_length r - of_nat len\<rparr>, p', take len (rem (lim_input r))))" for p
    using e by (simp add: lim_extract_def Let_def rbind_assoc flip: len_def)
  ultimately show ?thesis using that by blast
qed

lemma lim_extract_effect:
  fixes n :: nat and r :: "'r limited" and input :: 'r
  defines "len \<equiv> min n (unat (lim_length r))"
  defines "r' \<equiv> \<lparr>lim_input = input, lim_length = lim_length r - of_nat len\<rparr>"
  assumes "rem input = drop len (rem (lim_input r))"
  shows "unat (lim_length r') = unat (lim_length r) - len" and "lim_rem rem r' = drop n (lim_rem rem r)"
    and "take len (rem (lim_input r)) = take n (lim_rem rem r)"
    and "(length (lim_rem rem r) < n) = (\<not> n \<le> unat (lim_length r) \<or> length (rem (lim_input r)) < len)"
proof -
  show left: "unat (lim_length r') = unat (lim_length r) - len"
    unfolding r'_def limited.simps by (rule unat_sub_of_nat_u32) (simp add: len_def)
  have "lim_input r' = input" by (simp add: r'_def)
  then show "lim_rem rem r' = drop n (lim_rem rem r)"
    unfolding lim_rem_def by (simp add: left assms(3)) (auto simp: len_def drop_take min_def)
qed (auto simp: lim_rem_def len_def)

lemma lim_extracts:
  assumes "lim_ok ok rem r"
  shows "\<exists>bs r'. (False \<in> set bs) = (length (lim_rem rem r) < n) \<and> lim_ok ok rem r' \<and>
    lim_rem rem r' = drop n (lim_rem rem r) \<and>
    (\<forall>p. lim_extract ops r p n = rbind (report_all p bs) (\<lambda>p'. Inr (r', p', take n (lim_rem rem r))))"
proof -
  let ?len = "min n (unat (lim_length r))"
  have ok: "ok (lim_input r)" "length (rem (lim_input r)) < 2 ^ 32" using assms by (simp_all add: lim_ok_def)
  from lim_extract_step [OF ok(1), of n] obtain bs input where
    b: "(False \<in> set bs) = (length (rem (lim_input r)) < ?len)" and i: "ok input" "rem input = drop ?len (rem (lim_input r))"
    and e: "\<forall>p. lim_extract ops r p n = rbind (report_all p ((n \<le> unat (lim_length r)) # bs)) (\<lambda>p'.
        Inr (\<lparr>lim_input = input, lim_length = lim_length r - of_nat ?len\<rparr>, p', take ?len (rem (lim_input r))))"
    by metis
  note eff = lim_extract_effect [OF i(2)]
  have "lim_ok ok rem \<lparr>lim_input = input, lim_length = lim_length r - of_nat ?len\<rparr>"
    using i ok by (simp add: lim_ok_def)
  moreover have "(False \<in> set ((n \<le> unat (lim_length r)) # bs)) = (length (lim_rem rem r) < n)"
    unfolding eff(4) using b by simp
  ultimately show ?thesis using e eff(2) unfolding eff(3) by blast
qed

lemma lim_contiguous_step:
  fixes maxLen :: nat
  assumes ok: "ok (lim_input r)"
  obtains r' k where "lim_extract_contiguous ops r maxLen = Inr (r', take k (lim_rem rem r))" and "k \<le> maxLen"
    and "lim_rem rem r \<noteq> [] \<and> 0 < maxLen \<longrightarrow> 0 < k" and "ok (lim_input r')"
    and "rem (lim_input r') = drop k (rem (lim_input r))" and "lim_rem rem r' = drop k (lim_rem rem r)"
    and "take k (lim_rem rem r) = take k (rem (lim_input r))"
    and "unat (lim_length r') = unat (lim_length r) - length (take k (rem (lim_input r)))"
    and "length (take k (rem (lim_input r))) \<le> unat (lim_length r)"
    and "sr_extract_contiguous ops (lim_input r) (min (unat (lim_length r)) maxLen) = Inr (lim_input r', take k (rem (lim_input r)))"
proof -
  let ?m = "min (unat (lim_length r)) maxLen"
  obtain input k where e: "sr_extract_contiguous ops (lim_input r) ?m = Inr (input, take k (rem (lim_input r)))"
    and k: "k \<le> ?m" "rem (lim_input r) \<noteq> [] \<and> 0 < ?m \<longrightarrow> 0 < k" and i: "ok input" "rem input = drop k (rem (lim_input r))"
    using extract_contiguous [OF ok(1), of ?m] by blast
  define r' where "r' = \<lparr>lim_input = input, lim_length = lim_length r - of_nat (length (take k (rem (lim_input r))))\<rparr>"
  have r': "lim_input r' = input" by (simp add: r'_def)
  have le: "length (take k (rem (lim_input r))) \<le> unat (lim_length r)" using k(1) by auto
  have left: "unat (lim_length r') = unat (lim_length r) - length (take k (rem (lim_input r)))"
    unfolding r'_def limited.simps by (rule unat_sub_of_nat_u32 [OF le])
  have "lim_rem rem r' = drop k (lim_rem rem r)"
    using k i left r' by (cases "k \<le> length (rem (lim_input r))") (simp_all add: lim_rem_def drop_take min_def)
  moreover have "take k (lim_rem rem r) = take k (rem (lim_input r))"
    using k(1) by (simp add: lim_rem_def min_absorb1)
  moreover have "lim_extract_contiguous ops r maxLen = Inr (r', take k (rem (lim_input r)))"
    using e by (simp add: lim_extract_contiguous_def r'_def)
  moreover have "lim_rem rem r \<noteq> [] \<and> 0 < maxLen \<longrightarrow> 0 < k"
    using k(2) by (auto simp: lim_rem_def)
  ultimately show ?thesis using that [of r' k] k(1) i left le e unfolding r' by simp
qed

lemma lim_extracts_contiguous:
  assumes "lim_ok ok rem r"
  shows "\<exists>r' k. lim_extract_contiguous ops r maxLen = Inr (r', take k (lim_rem rem r)) \<and> k \<le> maxLen \<and>
      (lim_rem rem r \<noteq> [] \<and> 0 < maxLen \<longrightarrow> 0 < k) \<and> lim_ok ok rem r' \<and> lim_rem rem r' = drop k (lim_rem rem r)"
proof -
  have ok: "ok (lim_input r)" "length (rem (lim_input r)) < 2 ^ 32" using assms by (simp_all add: lim_ok_def)
  from lim_contiguous_step [OF ok(1), of maxLen] obtain r' k where
    s: "lim_extract_contiguous ops r maxLen = Inr (r', take k (lim_rem rem r))" "k \<le> maxLen"
      "lim_rem rem r \<noteq> [] \<and> 0 < maxLen \<longrightarrow> 0 < k" "ok (lim_input r')"
      "rem (lim_input r') = drop k (rem (lim_input r))" "lim_rem rem r' = drop k (lim_rem rem r)"
    by metis
  then have "lim_ok ok rem r'" using ok by (simp add: lim_ok_def)
  with s show ?thesis by blast
qed

lemma lim_peeks:
  assumes "ok (lim_input r)" and "lim_rem rem r \<noteq> []"
  shows "\<exists>bs. False \<notin> set bs \<and> (\<forall>p. lim_peek ops r p = rbind (report_all p bs) (\<lambda>p'. Inr (p', hd (lim_rem rem r))))"
proof -
  from assms(2) have ne: "lim_length r \<noteq> 0" "rem (lim_input r) \<noteq> []" and hd: "hd (lim_rem rem r) = hd (rem (lim_input r))"
    by (auto simp: lim_rem_def hd_take unat_gt_0)
  obtain bs where "False \<notin> set bs" and "\<forall>p. sr_peek ops (lim_input r) p = rbind (report_all p bs) (\<lambda>p'. Inr (p', hd (rem (lim_input r))))"
    using peek [OF assms(1) ne(2)] by blast
  then show ?thesis using ne by (intro exI [of _ "True # bs"]) (simp add: lim_peek_def hd rbind_assoc)
qed

lemma lim_empties: "ok (lim_input r) \<Longrightarrow> lim_empty ops r = (lim_rem rem r = [])"
  by (auto simp: lim_empty_def lim_rem_def empty unat_eq_zero)

lemma lim_availables:
  assumes "lim_ok ok rem r"
  shows "lim_available ops r = length (lim_rem rem r)"
  using assms by (auto simp: lim_ok_def lim_available_def lim_rem_def available min_def word_le_nat_alt)

lemma limited: "reader (limited_reader ops) (lim_ok ok rem) (lim_rem rem)"
proof (unfold_locales, goal_cases)
  case (1 r n)
  show ?case using lim_extracts [OF 1, of n] by (simp add: limited_reader_def)
qed (simp_all add: limited_reader_def lim_extracts_contiguous lim_peeks lim_empties lim_availables lim_ok_input)

end

context peeking_reader
begin

lemma limited_peeking: "peeking_reader (limited_reader ops) (lim_ok ok rem) (lim_rem rem)"
proof (intro peeking_reader.intro limited peeking_reader_axioms.intro)
  fix r assume ok: "lim_ok ok rem r" and e: "lim_rem rem r = []"
  show "\<exists>bs. False \<in> set bs \<and> (\<forall>p. sr_peek (limited_reader ops) r p = rbind (report_all p bs) (\<lambda>p'. Inr (p', 0)))"
  proof (cases "lim_length r = 0")
    case True
    then show ?thesis by (intro reports_once(2)) (simp add: limited_reader_def lim_peek_def)
  next
    case False
    then have dry: "rem (lim_input r) = []" using e by (auto simp: lim_rem_def unat_eq_zero)
    obtain bs where "False \<in> set bs" and "\<forall>p. sr_peek ops (lim_input r) p = rbind (report_all p bs) (\<lambda>p'. Inr (p', 0))"
      using peek_at_end [of "lim_input r"] ok dry by (auto simp: lim_ok_def)
    then show ?thesis using False
      by (intro exI [of _ "True # bs"]) (simp add: limited_reader_def lim_peek_def rbind_assoc)
  qed
qed

end

definition limr_ok :: "('r \<Rightarrow> bool) \<Rightarrow> ('r \<Rightarrow> byte list) \<Rightarrow> ('r \<Rightarrow> byte list) \<Rightarrow> 'r limited \<Rightarrow> bool" where
  "limr_ok ok rem seen r \<longleftrightarrow> lim_ok ok rem r \<and> length (seen (lim_input r)) + length (rem (lim_input r)) < 2 ^ 32 \<and>
     length (seen (lim_input r)) + unat (lim_length r) < 2 ^ 32"

context rewinder
begin

lemma limr_ok_step:
  assumes "limr_ok ok rem seen r" and "ok (lim_input r')" and "rem (lim_input r') = drop k (rem (lim_input r))"
    and "seen (lim_input r') = seen (lim_input r) @ take k (rem (lim_input r))"
    and "unat (lim_length r') + length (take k (rem (lim_input r))) \<le> unat (lim_length r)"
  shows "limr_ok ok rem seen r'"
  using assms by (auto simp: limr_ok_def lim_ok_def)

lemma limr_extracts:
  fixes n :: nat
  assumes "limr_ok ok rem seen r"
  obtains bs r' where "(False \<in> set bs) = (length (lim_rem rem r) < n)" and "limr_ok ok rem seen r'"
    and "lim_rem rem r' = drop n (lim_rem rem r)" and "seen (lim_input r') = seen (lim_input r) @ take n (lim_rem rem r)"
    and "\<forall>p. lim_extract ops r p n = rbind (report_all p bs) (\<lambda>p'. Inr (r', p', take n (lim_rem rem r)))"
proof -
  let ?len = "min n (unat (lim_length r))"
  from assms have ok: "ok (lim_input r)" by (simp add: limr_ok_def lim_ok_def)
  from lim_extract_step [OF ok, of n] obtain bs input where
    b: "(False \<in> set bs) = (length (rem (lim_input r)) < ?len)" and i: "ok input" "rem input = drop ?len (rem (lim_input r))"
    and in_e: "\<forall>p. sr_extract ops (lim_input r) p ?len = rbind (report_all p bs) (\<lambda>p'. Inr (input, p', take ?len (rem (lim_input r))))"
    and e: "\<forall>p. lim_extract ops r p n = rbind (report_all p ((n \<le> unat (lim_length r)) # bs)) (\<lambda>p'.
        Inr (\<lparr>lim_input = input, lim_length = lim_length r - of_nat ?len\<rparr>, p', take ?len (rem (lim_input r))))"
    by metis
  define r' where "r' = \<lparr>lim_input = input, lim_length = lim_length r - of_nat ?len\<rparr>"
  have input: "lim_input r' = input" by (simp add: r'_def)
  note eff = lim_extract_effect [OF i(2), folded r'_def]
  have s: "seen input = seen (lim_input r) @ take ?len (rem (lim_input r))" by (rule extract_seen_all [OF ok in_e])
  have okr: "limr_ok ok rem seen r'"
    using i s eff(1) by (intro limr_ok_step [OF assms, of r' ?len]) (simp_all add: input)
  have bs: "(False \<in> set ((n \<le> unat (lim_length r)) # bs)) = (length (lim_rem rem r) < n)"
    unfolding eff(4) using b by simp
  show ?thesis
    by (rule that [OF bs okr eff(2)]) (use s e in \<open>auto simp only: eff(3) input r'_def [symmetric]\<close>)
qed

lemma limr_rewinds:
  assumes lim: "limr_ok ok rem seen r" and m: "m \<le> length (seen (lim_input r))"
  shows "\<exists>r'. limr_rewind ops r m = Inr r' \<and> limr_ok ok rem seen r' \<and> seen (lim_input r') = take m (seen (lim_input r)) \<and>
    lim_rem rem r' = drop m (seen (lim_input r)) @ lim_rem rem r"
proof -
  let ?s = "seen (lim_input r)"
  have ok: "ok (lim_input r)" using lim by (simp add: limr_ok_def lim_ok_def)
  obtain input where e: "sr_rewind ops (lim_input r) m = Inr input" and i: "ok input" "seen input = take m ?s"
      "rem input = drop m ?s @ rem (lim_input r)"
    using rewind [OF ok m] by blast
  define r' where "r' = \<lparr>lim_input = input, lim_length = lim_length r + (of_nat (length ?s) - of_nat m)\<rparr>"
  have small: "length ?s < 2 ^ 32" "length ?s + unat (lim_length r) < 2 ^ 32" using lim by (auto simp: limr_ok_def)
  have d: "of_nat (length ?s) - of_nat m = (of_nat (length ?s - m) :: u32)" using m by (simp add: of_nat_diff)
  have "unat (of_nat (length ?s - m) :: u32) = length ?s - m" using small by (intro unat_of_nat_u32) simp
  then have len: "unat (lim_length r') = unat (lim_length r) + (length ?s - m)"
    using small unfolding r'_def limited.simps d by (subst unat_add_u32) simp_all
  have "lim_rem rem r' = drop m ?s @ lim_rem rem r"
    unfolding lim_rem_def len by (simp add: r'_def i)
  moreover have "limr_ok ok rem seen r'"
    using lim i len m by (auto simp: limr_ok_def lim_ok_def r'_def)
  moreover have "limr_rewind ops r m = Inr r'"
    by (simp add: limr_rewind_def marker [OF ok] e r'_def)
  ultimately show ?thesis by (intro exI [of _ r']) (simp add: r'_def i)
qed

lemma limr_ok_input: "limr_ok ok rem seen r \<Longrightarrow> ok (lim_input r)"
  by (simp add: limr_ok_def lim_ok_def)

lemma limited_rewinding:
  "rewinder (limited_rewinding_reader ops) (limr_ok ok rem seen) (lim_rem rem) (\<lambda>r. seen (lim_input r))"
proof (unfold_locales, goal_cases)
  case (1 r n)
  from limr_extracts [OF 1, of n] show ?case by (simp add: limited_rewinding_reader_def) metis
next
  case (2 r)
  then show ?case using lim_peeks by (simp add: limited_rewinding_reader_def limr_ok_input)
next
  case (3 r maxLen)
  from lim_contiguous_step [OF limr_ok_input [OF 3], of maxLen] obtain r' k where
    s: "lim_extract_contiguous ops r maxLen = Inr (r', take k (lim_rem rem r))" "k \<le> maxLen"
      "lim_rem rem r \<noteq> [] \<and> 0 < maxLen \<longrightarrow> 0 < k" "ok (lim_input r')"
      "rem (lim_input r') = drop k (rem (lim_input r))" "lim_rem rem r' = drop k (lim_rem rem r)"
      "unat (lim_length r') = unat (lim_length r) - length (take k (rem (lim_input r)))"
      "length (take k (rem (lim_input r))) \<le> unat (lim_length r)"
      "sr_extract_contiguous ops (lim_input r) (min (unat (lim_length r)) maxLen) = Inr (lim_input r', take k (rem (lim_input r)))"
    by metis
  have "limr_ok ok rem seen r'"
    using extract_contiguous_seen [OF limr_ok_input [OF 3] s(9)] s by (intro limr_ok_step [OF 3, of r' k]) simp_all
  with s show ?case by (auto simp: limited_rewinding_reader_def)
next
  case (4 r)
  then show ?case by (simp add: limited_rewinding_reader_def lim_empties limr_ok_input)
next
  case (5 r)
  then show ?case using available [OF limr_ok_input [OF 5]] by (auto simp: limited_rewinding_reader_def limr_available_def lim_rem_def)
next
  case (6 r p n r' p' xs)
  from limr_extracts [OF 6(1), of n] obtain bs r1 where
    "seen (lim_input r1) = seen (lim_input r) @ take n (lim_rem rem r)" and
    "\<forall>p. lim_extract ops r p n = rbind (report_all p bs) (\<lambda>p'. Inr (r1, p', take n (lim_rem rem r)))" by metis
  then show ?case using 6(2) by (auto simp: limited_rewinding_reader_def rbind_Inr)
next
  case (7 r maxLen r' xs)
  from lim_contiguous_step [OF limr_ok_input [OF 7(1)], of maxLen] obtain r1 k where
    s: "lim_extract_contiguous ops r maxLen = Inr (r1, take k (lim_rem rem r))"
      "take k (lim_rem rem r) = take k (rem (lim_input r))"
      "sr_extract_contiguous ops (lim_input r) (min (unat (lim_length r)) maxLen) = Inr (lim_input r1, take k (rem (lim_input r)))"
    by metis
  then show ?case using 7(2) extract_contiguous_seen [OF limr_ok_input [OF 7(1)] s(3)]
    by (simp add: limited_rewinding_reader_def)
next
  case (8 r)
  then show ?case by (simp add: limited_rewinding_reader_def limr_construct_save_marker_def marker limr_ok_input)
next
  case (9 r m)
  then show ?case using limr_rewinds by (simp add: limited_rewinding_reader_def)
qed

end

interpretation lim_br: reader "limited_reader byte_reader" "lim_ok br_ok (\<lambda>r. drop (br_offset r) (br_range r))"
    "lim_rem (\<lambda>r. drop (br_offset r) (br_range r))"
  by (rule br.limited)

interpretation lim_qr: peeking_reader "limited_reader queue_reader" "lim_ok qr_ok (\<lambda>r. drop (qr_offset r) (qr_bytes r))"
    "lim_rem (\<lambda>r. drop (qr_offset r) (qr_bytes r))"
  by (rule qr_p.limited_peeking)

interpretation limr_br: rewinder "limited_rewinding_reader byte_reader"
    "limr_ok br_ok (\<lambda>r. drop (br_offset r) (br_range r)) (\<lambda>r. take (br_offset r) (br_range r))"
    "lim_rem (\<lambda>r. drop (br_offset r) (br_range r))" "\<lambda>r. take (br_offset (lim_input r)) (br_range (lim_input r))"
  by (rule br.limited_rewinding)

section \<open>Properties\<close>

text \<open>Consuming from a limited reader over the interrupt-safe queue skips exactly the bytes asked
  for, and reports a failure exactly when the limit or the queue does not hold as many.\<close>

lemma limited_queue_consume:
  assumes "abq_inv (qr_deque (lim_input r))" and "qr_offset (lim_input r) \<le> abq_size (qr_deque (lim_input r))"
    and "abq_size (qr_deque (lim_input r)) < 2 ^ 32"
  shows "let remaining = (\<lambda>r. take (unat (lim_length r)) (drop (qr_offset (lim_input r)) (abq_elems (qr_deque (lim_input r))))) in
    \<exists>r'. remaining r' = drop amount (remaining r) \<and>
      consume_loop (limited_reader queue_reader) r p amount =
        rbind (report_result p (amount \<le> length (remaining r))) (\<lambda>p'. Inr (r', p'))"
proof -
  have "lim_ok qr_ok (\<lambda>r. drop (qr_offset r) (qr_bytes r)) r"
    using assms by (simp add: lim_ok_def qr_ok_def)
  from lim_qr.consume [OF this, of amount p] show ?thesis
    unfolding lim_rem_def qr_bytes_def Let_def by blast
qed

lemma limited_queue_consume_witness:
  "\<exists>r'. consume_loop (limited_reader queue_reader)
     (lim_new (qr_new \<lparr>abq_storage = [3, 0, 1, 2], abq_b = 2, abq_e = 1\<rparr>) 2) no_fail 3 =
       Inr (r', Plain \<lparr>pol_failureMode = No, pol_failed = True, pol_checkedFail = True\<rparr>)"
proof -
  let ?r = "lim_new (qr_new \<lparr>abq_storage = [3 :: byte, 0, 1, 2], abq_b = 2, abq_e = 1\<rparr>) 2"
  have "abq_inv (qr_deque (lim_input ?r))" "qr_offset (lim_input ?r) \<le> abq_size (qr_deque (lim_input ?r))"
    "abq_size (qr_deque (lim_input ?r)) < 2 ^ 32"
    by (simp_all add: lim_new_def qr_new_def abq_inv_def abq_size_def)
  from limited_queue_consume [OF this, of 3 no_fail] show ?thesis
    by (auto simp: Let_def lim_new_def no_fail_def policy_report_result_def abq_size_def min_def split: if_splits)
qed

text \<open>A marker taken from a limited reader over a byte range gives back, after any extraction that
  does not stop, the bytes and the limit there were.\<close>

lemma limited_rewind_restores:
  assumes "br_offset (lim_input r) \<le> length (br_range (lim_input r))" and "length (br_range (lim_input r)) < 2 ^ 32"
    and "br_offset (lim_input r) + unat (lim_length r) < 2 ^ 32"
    and "lim_extract byte_reader r p n = Inr (r1, p', bytes)"
  shows "\<exists>r2. limr_rewind byte_reader r1 (limr_construct_save_marker byte_reader r) = Inr r2 \<and>
    take (unat (lim_length r2)) (drop (br_offset (lim_input r2)) (br_range (lim_input r2))) =
      take (unat (lim_length r)) (drop (br_offset (lim_input r)) (br_range (lim_input r)))"
proof -
  have "limr_ok br_ok (\<lambda>r. drop (br_offset r) (br_range r)) (\<lambda>r. take (br_offset r) (br_range r)) r"
    using assms(1-3) by (simp add: limr_ok_def lim_ok_def br_ok_def)
  from limr_br.rewind_undoes_extract [OF this, of p n r1 p' bytes] assms(4) show ?thesis
    by (auto simp: limited_rewinding_reader_def lim_rem_def)
qed

lemma limited_rewind_restores_witness:
  "\<exists>r1 p' r2. lim_extract byte_reader (lim_new (br_new [1, 2, 3]) 2) no_fail 2 = Inr (r1, p', [1, 2]) \<and>
     limr_rewind byte_reader r1 0 = Inr r2 \<and>
     take (unat (lim_length r2)) (drop (br_offset (lim_input r2)) (br_range (lim_input r2))) = [1, 2]"
proof -
  let ?r = "lim_new (br_new [1, 2, 3 :: byte]) 2"
  have e: "lim_extract byte_reader ?r no_fail 2 = Inr (\<lparr>lim_input = \<lparr>br_range = [1, 2, 3], br_offset = 2\<rparr>, lim_length = 0\<rparr>, no_fail, [1, 2])"
    by (simp add: lim_extract_def lim_new_def br_new_def byte_reader_def br_extract_def no_fail_def policy_report_result_def Let_def)
  have "br_offset (lim_input ?r) \<le> length (br_range (lim_input ?r))" "length (br_range (lim_input ?r)) < 2 ^ 32"
    "br_offset (lim_input ?r) + unat (lim_length ?r) < 2 ^ 32" "limr_construct_save_marker byte_reader ?r = 0"
    by (simp_all add: lim_new_def br_new_def limr_construct_save_marker_def byte_reader_def br_construct_save_marker_def)
  with limited_rewind_restores [OF this(1-3) e] e show ?thesis by (auto simp: lim_new_def br_new_def)
qed

text \<open>The contiguous look-ahead of a limited reader is not limited: with a limit of one byte it shows
  all three of its input.\<close>

lemma limited_peek_exceeds_limit:
  "let r = lim_new (br_new [1, 2, 3]) 1 in
     lim_available byte_reader r = 1 \<and> lim_peek_contiguous byte_reader r 0 = Inr [1, 2, 3]"
  by (simp add: lim_new_def br_new_def lim_available_def lim_peek_contiguous_def byte_reader_def br_available_def br_peek_contiguous_def)

end
