(* ===== verification/Stream_Counting.thy ===== *)
theory Stream_Counting
  imports Stream_Adapters
begin

text \<open>
  \<open>CountingStreamReader\<close> and its rewinding variant (CountingInputStream.cpp): a reader that passes
  everything to another one and counts, modulo \<open>2 ^ 32\<close>, the bytes read. To learn whether an
  extraction succeeded it puts itself between the inner reader and the caller's error policy.
\<close>

record 'r counting =
  cnt_reader :: 'r
  cnt_totalRead :: u32

definition cnt_new :: "'r \<Rightarrow> 'r counting" where
  "cnt_new r = \<lparr>cnt_reader = r, cnt_totalRead = 0\<rparr>"

definition cnt_total_read :: "'r counting \<Rightarrow> u32" where
  "cnt_total_read c = cnt_totalRead c"

fun other_policy :: "error_policy \<Rightarrow> error_policy" where
  "other_policy (Counting_policy other _) = other"
| "other_policy (Plain p) = Plain p"

fun reported_ok :: "error_policy \<Rightarrow> bool" where
  "reported_ok (Counting_policy _ ok) = ok"
| "reported_ok (Plain p) = True"

definition cnt_extract :: "('r, 'x) stream_reader_scheme \<Rightarrow> 'r counting \<Rightarrow> error_policy \<Rightarrow> nat \<Rightarrow> ('r counting \<times> error_policy \<times> byte list) result" where
  "cnt_extract ops c p n = rbind (sr_extract ops (cnt_reader c) (Counting_policy p True) n) (\<lambda>(r', p', bytes).
     Inr (\<lparr>cnt_reader = r', cnt_totalRead = (if reported_ok p' then cnt_totalRead c + of_nat n else cnt_totalRead c)\<rparr>,
          other_policy p', bytes))"

definition cnt_peek :: "('r, 'x) stream_reader_scheme \<Rightarrow> 'r counting \<Rightarrow> error_policy \<Rightarrow> (error_policy \<times> byte) result" where
  "cnt_peek ops c p = sr_peek ops (cnt_reader c) p"

definition cnt_extract_contiguous :: "('r, 'x) stream_reader_scheme \<Rightarrow> 'r counting \<Rightarrow> nat \<Rightarrow> ('r counting \<times> byte list) result" where
  "cnt_extract_contiguous ops c maxLen = rbind (sr_extract_contiguous ops (cnt_reader c) maxLen) (\<lambda>(r', bytes).
     Inr (\<lparr>cnt_reader = r', cnt_totalRead = cnt_totalRead c + of_nat (length bytes)\<rparr>, bytes))"

definition cnt_peek_contiguous :: "('r, 'x) stream_reader_scheme \<Rightarrow> 'r counting \<Rightarrow> nat \<Rightarrow> byte list result" where
  "cnt_peek_contiguous ops c start = sr_peek_contiguous ops (cnt_reader c) start"

definition cnt_empty :: "('r, 'x) stream_reader_scheme \<Rightarrow> 'r counting \<Rightarrow> bool" where
  "cnt_empty ops c \<longleftrightarrow> sr_empty ops (cnt_reader c)"

definition cnt_available :: "('r, 'x) stream_reader_scheme \<Rightarrow> 'r counting \<Rightarrow> nat" where
  "cnt_available ops c = sr_available ops (cnt_reader c)"

definition cnt_construct_save_marker :: "('r, 'x) rewinding_reader_scheme \<Rightarrow> 'r counting \<Rightarrow> nat" where
  "cnt_construct_save_marker ops c = sr_construct_save_marker ops (cnt_reader c)"

definition cnt_rewind :: "('r, 'x) rewinding_reader_scheme \<Rightarrow> 'r counting \<Rightarrow> nat \<Rightarrow> 'r counting result" where
  "cnt_rewind ops c marker =
     (let total = cnt_totalRead c - (of_nat (sr_construct_save_marker ops (cnt_reader c)) - of_nat marker)
      in rbind (sr_rewind ops (cnt_reader c) marker) (\<lambda>r'. Inr \<lparr>cnt_reader = r', cnt_totalRead = total\<rparr>))"

definition counting_reader :: "('r, 'x) stream_reader_scheme \<Rightarrow> 'r counting stream_reader" where
  "counting_reader ops = \<lparr>sr_extract = cnt_extract ops, sr_peek = cnt_peek ops,
     sr_extract_contiguous = cnt_extract_contiguous ops, sr_peek_contiguous = cnt_peek_contiguous ops,
     sr_empty = cnt_empty ops, sr_available = cnt_available ops\<rparr>"

definition counting_rewinding_reader :: "('r, 'x) rewinding_reader_scheme \<Rightarrow> 'r counting rewinding_reader" where
  "counting_rewinding_reader ops = \<lparr>sr_extract = cnt_extract ops, sr_peek = cnt_peek ops,
     sr_extract_contiguous = cnt_extract_contiguous ops, sr_peek_contiguous = cnt_peek_contiguous ops,
     sr_empty = cnt_empty ops, sr_available = cnt_available ops,
     sr_construct_save_marker = cnt_construct_save_marker ops, sr_rewind = cnt_rewind ops\<rparr>"

text \<open>What the inner reader reports reaches the caller's policy, and is remembered.\<close>

lemma report_all_counting:
  "report_all (Counting_policy p ok) bs =
     rbind (report_all p bs) (\<lambda>p'. Inr (Counting_policy p' (ok \<and> False \<notin> set bs)))"
proof (induction bs arbitrary: p ok)
  case (Cons b bs)
  then show ?case by (cases "report_result p b") auto
qed simp

context reader
begin

lemma cnt_extracts:
  assumes "ok (cnt_reader c)"
  obtains bs r' where "(False \<in> set bs) = (length (rem (cnt_reader c)) < n)" and "ok r'" and "rem r' = drop n (rem (cnt_reader c))"
    and "\<forall>p. sr_extract ops (cnt_reader c) p n = rbind (report_all p bs) (\<lambda>p'. Inr (r', p', take n (rem (cnt_reader c))))"
    and "\<forall>p. cnt_extract ops c p n = rbind (report_all p bs) (\<lambda>p'.
      Inr (\<lparr>cnt_reader = r', cnt_totalRead = cnt_totalRead c + (if n \<le> length (rem (cnt_reader c)) then of_nat n else 0)\<rparr>,
        p', take n (rem (cnt_reader c))))"
proof -
  obtain bs r' where b: "(False \<in> set bs) = (length (rem (cnt_reader c)) < n)" "ok r'" "rem r' = drop n (rem (cnt_reader c))"
    and e: "\<forall>p. sr_extract ops (cnt_reader c) p n = rbind (report_all p bs) (\<lambda>p'. Inr (r', p', take n (rem (cnt_reader c))))"
    using extracts [OF assms, of n] by blast
  moreover have "cnt_extract ops c p n = rbind (report_all p bs) (\<lambda>p'.
      Inr (\<lparr>cnt_reader = r', cnt_totalRead = cnt_totalRead c + (if n \<le> length (rem (cnt_reader c)) then of_nat n else 0)\<rparr>,
        p', take n (rem (cnt_reader c))))" for p
    using e b(1) by (auto simp: cnt_extract_def report_all_counting rbind_assoc not_le intro!: arg_cong [where f = "rbind _"])
  ultimately show ?thesis using that by blast
qed

lemma counting: "reader (counting_reader ops) (\<lambda>c. ok (cnt_reader c)) (\<lambda>c. rem (cnt_reader c))"
proof (unfold_locales, goal_cases)
  case (1 c n)
  obtain bs r' where "(False \<in> set bs) = (length (rem (cnt_reader c)) < n)" "ok r'" "rem r' = drop n (rem (cnt_reader c))"
    "\<forall>p. cnt_extract ops c p n = rbind (report_all p bs) (\<lambda>p'.
      Inr (\<lparr>cnt_reader = r', cnt_totalRead = cnt_totalRead c + (if n \<le> length (rem (cnt_reader c)) then of_nat n else 0)\<rparr>,
        p', take n (rem (cnt_reader c))))"
    by (rule cnt_extracts [where c = c and n = n]) (use 1 in auto)
  then show ?case
    by (intro exI [of _ bs] exI [of _ "\<lparr>cnt_reader = r', cnt_totalRead = cnt_totalRead c + (if n \<le> length (rem (cnt_reader c)) then of_nat n else 0)\<rparr>"])
       (simp add: counting_reader_def)
next
  case (3 c maxLen)
  obtain r' k where "sr_extract_contiguous ops (cnt_reader c) maxLen = Inr (r', take k (rem (cnt_reader c)))" "k \<le> maxLen"
    "rem (cnt_reader c) \<noteq> [] \<and> 0 < maxLen \<longrightarrow> 0 < k" "ok r'" "rem r' = drop k (rem (cnt_reader c))"
    using extract_contiguous [OF 3, of maxLen] by blast
  then show ?case
    by (intro exI [of _ "\<lparr>cnt_reader = r', cnt_totalRead = cnt_totalRead c + of_nat (length (take k (rem (cnt_reader c))))\<rparr>"] exI [of _ k])
       (simp add: counting_reader_def cnt_extract_contiguous_def)
qed (simp_all add: counting_reader_def cnt_peek_def peek cnt_empty_def empty cnt_available_def available)

text \<open>Every extraction that succeeds adds to the count the bytes it handed out; one that fails adds
  nothing, though it hands out the bytes that remained.\<close>

lemma cnt_extract_total:
  assumes "ok (cnt_reader c)" and "cnt_extract ops c p n = Inr (c', p', bytes)"
  shows "bytes = take n (rem (cnt_reader c))"
    and "cnt_totalRead c' = cnt_totalRead c + (if n \<le> length (rem (cnt_reader c)) then of_nat (length bytes) else 0)"
proof -
  obtain bs r' where "\<forall>p. cnt_extract ops c p n = rbind (report_all p bs) (\<lambda>p'.
      Inr (\<lparr>cnt_reader = r', cnt_totalRead = cnt_totalRead c + (if n \<le> length (rem (cnt_reader c)) then of_nat n else 0)\<rparr>,
        p', take n (rem (cnt_reader c))))"
    by (rule cnt_extracts [where c = c and n = n]) (use assms(1) in auto)
  with assms(2) show "bytes = take n (rem (cnt_reader c))"
    "cnt_totalRead c' = cnt_totalRead c + (if n \<le> length (rem (cnt_reader c)) then of_nat (length bytes) else 0)"
    by (auto simp: rbind_Inr)
qed

lemma cnt_extract_contiguous_total:
  "cnt_extract_contiguous ops c maxLen = Inr (c', bytes) \<Longrightarrow> cnt_totalRead c' = cnt_totalRead c + of_nat (length bytes)"
  by (auto simp: cnt_extract_contiguous_def rbind_Inr)

end

interpretation cnt_br: reader "counting_reader byte_reader" "\<lambda>c. br_ok (cnt_reader c)"
    "\<lambda>c. drop (br_offset (cnt_reader c)) (br_range (cnt_reader c))"
  by (rule br.counting)

interpretation cnt_dr: reader "counting_reader deque_reader" "\<lambda>c. dr_ok (cnt_reader c)"
    "\<lambda>c. drop (dr_offset (cnt_reader c)) (dr_bytes (cnt_reader c))"
  by (rule dr.counting)

interpretation lim_cnt_br: reader "limited_reader (counting_reader byte_reader)"
    "lim_ok (\<lambda>c. br_ok (cnt_reader c)) (\<lambda>c. drop (br_offset (cnt_reader c)) (br_range (cnt_reader c)))"
    "lim_rem (\<lambda>c. drop (br_offset (cnt_reader c)) (br_range (cnt_reader c)))"
  by (rule cnt_br.limited)

text \<open>Rewinding after a failed extraction takes back bytes that were never counted: a
  counting reader over three bytes that fails to extract five, then rewinds to where it was,
  claims to have read \<open>2 ^ 32 - 3\<close> bytes.\<close>

lemma counting_rewind_underflow:
  "\<exists>c1 p1 c2. let c = cnt_new (br_new [1, 2, 3]) in
     cnt_extract byte_reader c no_fail 5 = Inr (c1, p1, [1, 2, 3]) \<and> cnt_total_read c1 = 0 \<and>
     cnt_rewind byte_reader c1 (cnt_construct_save_marker byte_reader c) = Inr c2 \<and> cnt_reader c2 = cnt_reader c \<and>
     cnt_total_read c2 = - 3"
proof -
  let ?c = "cnt_new (br_new [1, 2, 3])"
  let ?c1 = "\<lparr>cnt_reader = \<lparr>br_range = [1, 2, 3], br_offset = 3\<rparr>, cnt_totalRead = 0\<rparr>"
  let ?p1 = "Plain \<lparr>pol_failureMode = No, pol_failed = True, pol_checkedFail = True\<rparr>"
  have "cnt_extract byte_reader ?c no_fail 5 = Inr (?c1, ?p1, [1, 2, 3])"
    by (simp add: cnt_extract_def cnt_new_def br_new_def byte_reader_def br_extract_def no_fail_def policy_report_result_def)
  then show ?thesis
    by (intro exI [of _ ?c1] exI [of _ ?p1] exI [of _ "\<lparr>cnt_reader = br_new [1, 2, 3], cnt_totalRead = - 3\<rparr>"])
       (simp add: cnt_total_read_def cnt_rewind_def cnt_construct_save_marker_def byte_reader_def br_construct_save_marker_def
         br_rewind_def cnt_new_def br_new_def)
qed

end
