(* ===== verification/Stream_Buffering.thy ===== *)
theory Stream_Buffering
  imports Stream_Adapters
begin

text \<open>
  \<open>BufferingStreamReader\<close> (BufferingStreamReader.cpp): a reader that first hands out the bytes a
  deque keeps from earlier and then those of an input; when it is destroyed, what was not read
  is stored in the deque again. The lemmas show that its contiguous extraction, its rewinding
  and its destruction lose nothing. \<open>Extract\<close> keeps the readers' contract only when the input
  hands out what remains in one piece, and looking ahead fails once bytes of the input have
  been read; the theorems at the end show both.
\<close>

record 'r buffering =
  buf_buffer :: "byte deque"
  buf_input :: 'r
  buf_index :: nat
  buf_bufferIndex :: nat

definition buf_new :: "byte deque \<Rightarrow> 'r \<Rightarrow> 'r buffering" where
  "buf_new buffer input = \<lparr>buf_buffer = buffer, buf_input = input, buf_index = 0, buf_bufferIndex = 0\<rparr>"

text \<open>\<open>Read(from, to)\<close>: \<open>n\<close> is the size of \<open>to\<close>; the result has the size of what is left of it.\<close>

definition buf_read :: "'r buffering \<Rightarrow> byte list \<Rightarrow> nat \<Rightarrow> ('r buffering \<times> nat \<times> nat) result" where
  "buf_read s from n = really_assert (length from \<le> n)
     (Inr (s\<lparr>buf_index := buf_index s + length from\<rparr>, n - length from, length from))"

definition buf_from_buffer :: "'r buffering \<Rightarrow> nat \<Rightarrow> byte list" where
  "buf_from_buffer s n = take n (dq_contiguous_range (buf_buffer s) (buf_index s))"

text \<open>The two halves of \<open>Extract\<close>: at most two contiguous ranges of the deque, then one of the input.\<close>

definition buf_extract_from_buffer :: "'r buffering \<Rightarrow> nat \<Rightarrow> ('r buffering \<times> nat \<times> byte list) result" where
  "buf_extract_from_buffer s n =
     (if buf_index s < dq_size (buf_buffer s)
      then let from1 = buf_from_buffer s n
           in rbind (buf_read s from1 n) (\<lambda>(s1, n1, k1).
              let s1 = s1\<lparr>buf_bufferIndex := buf_bufferIndex s1 + k1\<rparr>; from2 = buf_from_buffer s1 n1
              in rbind (buf_read s1 from2 n1) (\<lambda>(s2, n2, k2).
                 Inr (s2\<lparr>buf_bufferIndex := buf_bufferIndex s2 + k2\<rparr>, n2, from1 @ from2)))
      else Inr (s, n, []))"

definition buf_extract_from_input :: "('r, 'x) rewinding_reader_scheme \<Rightarrow> 'r buffering \<Rightarrow> nat \<Rightarrow> ('r buffering \<times> nat \<times> byte list) result" where
  "buf_extract_from_input ops s n =
     (if n \<noteq> 0
      then rbind (sr_extract_contiguous ops (buf_input s) n) (\<lambda>(input, from).
           rbind (buf_read (s\<lparr>buf_input := input\<rparr>) from n) (\<lambda>(s, n, _). Inr (s, n, from)))
      else Inr (s, n, []))"

definition buf_extract :: "('r, 'x) rewinding_reader_scheme \<Rightarrow> 'r buffering \<Rightarrow> error_policy \<Rightarrow> nat \<Rightarrow> ('r buffering \<times> error_policy \<times> byte list) result" where
  "buf_extract ops s p n =
     rbind (buf_extract_from_buffer s n) (\<lambda>(s, n, bytes1).
       rbind (buf_extract_from_input ops s n) (\<lambda>(s, n, bytes2).
         rbind (report_result p (n = 0)) (\<lambda>p'. Inr (s, p', bytes1 @ bytes2))))"

definition buf_peek_contiguous :: "('r, 'x) rewinding_reader_scheme \<Rightarrow> 'r buffering \<Rightarrow> nat \<Rightarrow> byte list result" where
  "buf_peek_contiguous ops s start =
     (if buf_index s + start < dq_size (buf_buffer s)
      then Inr (dq_contiguous_range (buf_buffer s) (buf_index s + start))
      else sr_peek_contiguous ops (buf_input s) (buf_index s + start - dq_size (buf_buffer s)))"

definition buf_peek :: "('r, 'x) rewinding_reader_scheme \<Rightarrow> 'r buffering \<Rightarrow> error_policy \<Rightarrow> (error_policy \<times> byte) result" where
  "buf_peek ops s p = rbind (buf_peek_contiguous ops s 0) (\<lambda>range.
     rbind (report_result p (range \<noteq> [])) (\<lambda>p'. Inr (p', if range = [] then 0 else hd range)))"

definition buf_extract_contiguous :: "('r, 'x) rewinding_reader_scheme \<Rightarrow> 'r buffering \<Rightarrow> nat \<Rightarrow> ('r buffering \<times> byte list) result" where
  "buf_extract_contiguous ops s maxLen =
     (if buf_index s < dq_size (buf_buffer s)
      then let from = buf_from_buffer s maxLen
           in Inr (s\<lparr>buf_index := buf_index s + length from, buf_bufferIndex := buf_bufferIndex s + length from\<rparr>, from)
      else rbind (sr_extract_contiguous ops (buf_input s) maxLen) (\<lambda>(input, bytes).
             Inr (s\<lparr>buf_input := input, buf_index := buf_index s + length bytes\<rparr>, bytes)))"

definition buf_available :: "('r, 'x) rewinding_reader_scheme \<Rightarrow> 'r buffering \<Rightarrow> nat" where
  "buf_available ops s = dq_size (buf_buffer s) - buf_bufferIndex s + sr_available ops (buf_input s)"

definition buf_empty :: "('r, 'x) rewinding_reader_scheme \<Rightarrow> 'r buffering \<Rightarrow> bool" where
  "buf_empty ops s \<longleftrightarrow> buf_available ops s = 0"

definition buf_construct_save_marker :: "'r buffering \<Rightarrow> nat" where
  "buf_construct_save_marker s = buf_index s"

definition buf_rewind :: "('r, 'x) rewinding_reader_scheme \<Rightarrow> 'r buffering \<Rightarrow> nat \<Rightarrow> 'r buffering result" where
  "buf_rewind ops s marker =
     rbind (if dq_size (buf_buffer s) < buf_index s
            then let rewindAmount = min (buf_index s - marker) (buf_index s - dq_size (buf_buffer s))
                 in rbind (sr_rewind ops (buf_input s) (sr_construct_save_marker ops (buf_input s) - rewindAmount))
                      (\<lambda>input. Inr (s\<lparr>buf_input := input, buf_index := buf_index s - rewindAmount\<rparr>))
            else Inr s)
       (\<lambda>s. Inr (if marker < dq_size (buf_buffer s) then s\<lparr>buf_index := marker, buf_bufferIndex := marker\<rparr> else s))"

lemma dq_insert_range_grows:
  assumes "dq_insert_range d p xs = Inr d'"
  shows "dq_size d' = dq_size d + length xs" and "dq_max_size d' = dq_max_size d" and "dq_size d' \<le> dq_max_size d'"
  using assms
  by (auto simp: dq_insert_range_def Let_def really_assert_def in_bounds_def dq_size_def dq_move_up_def split: if_splits)

text \<open>The destructor. Every round but one that adds nothing makes the buffer fuller, up to its size.\<close>

function buf_store_input :: "('r, 'x) rewinding_reader_scheme \<Rightarrow> 'r \<Rightarrow> byte deque \<Rightarrow> ('r \<times> byte deque) result" where
  "buf_store_input ops input buffer =
     (if sr_empty ops input then Inr (input, buffer)
      else case sr_extract_contiguous ops input (2 ^ 32 - 1) of
             Inl f \<Rightarrow> Inl f
           | Inr (input', bytes) \<Rightarrow>
               if bytes = [] then Inl Diverges
               else case dq_insert_range buffer (dq_size buffer) bytes of
                      Inl f \<Rightarrow> Inl f
                    | Inr buffer' \<Rightarrow> buf_store_input ops input' buffer')"
  by pat_completeness auto

termination
proof (relation "measure (\<lambda>(ops, input, buffer). dq_max_size buffer - dq_size buffer)", goal_cases)
  case (2 ops input buffer x a b y)
  then show ?case using dq_insert_range_grows [of buffer "dq_size buffer" b y]
    by (simp add: diff_less_mono2 less_le_trans) (metis diff_less_mono2 le_iff_add length_greater_0_conv less_add_same_cancel1 order_less_le_trans)
qed simp

declare buf_store_input.simps [simp del]

definition buf_destroy :: "('r, 'x) rewinding_reader_scheme \<Rightarrow> 'r buffering \<Rightarrow> ('r \<times> byte deque) result" where
  "buf_destroy ops s =
     (let bufferDecrease = min (dq_size (buf_buffer s)) (buf_index s)
      in rbind (dq_erase_range (buf_buffer s) 0 bufferDecrease) (buf_store_input ops (buf_input s)))"

section \<open>What it holds and has handed out\<close>

definition buf_rem :: "('r \<Rightarrow> byte list) \<Rightarrow> 'r buffering \<Rightarrow> byte list" where
  "buf_rem rem s = drop (buf_index s) (dq_elems (buf_buffer s)) @ rem (buf_input s)"

definition buf_seen :: "('r \<Rightarrow> byte list) \<Rightarrow> 'r buffering \<Rightarrow> byte list" where
  "buf_seen seen s = take (buf_index s) (dq_elems (buf_buffer s)) @
     drop (length (seen (buf_input s)) - (buf_index s - dq_size (buf_buffer s))) (seen (buf_input s))"

definition buf_ok :: "('r \<Rightarrow> bool) \<Rightarrow> ('r \<Rightarrow> byte list) \<Rightarrow> 'r buffering \<Rightarrow> bool" where
  "buf_ok ok seen s \<longleftrightarrow> dq_inv (buf_buffer s) \<and> ok (buf_input s) \<and>
     buf_bufferIndex s = min (buf_index s) (dq_size (buf_buffer s)) \<and>
     buf_index s - dq_size (buf_buffer s) \<le> length (seen (buf_input s))"

lemma buf_new_ok: "dq_inv buffer \<Longrightarrow> ok input \<Longrightarrow> buf_ok ok seen (buf_new buffer input)"
  by (simp add: buf_ok_def buf_new_def)

context rewinder
begin

lemma buf_extracts_contiguous:
  assumes "buf_ok ok seen s"
  shows "\<exists>s' k. buf_extract_contiguous ops s maxLen = Inr (s', take k (buf_rem rem s)) \<and> k \<le> maxLen \<and>
    (buf_rem rem s \<noteq> [] \<and> 0 < maxLen \<longrightarrow> 0 < k) \<and> buf_ok ok seen s' \<and> buf_rem rem s' = drop k (buf_rem rem s) \<and>
    buf_seen seen s' = buf_seen seen s @ take k (buf_rem rem s)"
proof (cases "buf_index s < dq_size (buf_buffer s)")
  case True
  let ?es = "dq_elems (buf_buffer s)" and ?i = "buf_index s"
  obtain k where k: "dq_contiguous_range (buf_buffer s) ?i = take k (drop ?i ?es)" "0 < k"
    using dq_contiguous_range_take [of "buf_buffer s" ?i] assms True by (auto simp: buf_ok_def)
  define l where "l = min (min maxLen k) (length ?es - ?i)"
  have l: "l \<le> maxLen" "l \<le> length ?es - ?i" "0 < maxLen \<longrightarrow> 0 < l" using True k by (simp_all add: l_def)
  have seg: "buf_from_buffer s maxLen = take l (drop ?i ?es)"
    by (simp add: buf_from_buffer_def k l_def min_def)
  let ?s = "s\<lparr>buf_index := ?i + l, buf_bufferIndex := buf_bufferIndex s + l\<rparr>"
  from l have "l - length (drop ?i ?es) = 0" by simp
  then have take: "take l (drop ?i ?es) = take l (buf_rem rem s)" unfolding buf_rem_def take_append by simp
  have "buf_extract_contiguous ops s maxLen = Inr (?s, take l (buf_rem rem s))"
    using True l(2) by (simp add: buf_extract_contiguous_def Let_def seg min_absorb2 flip: take)
  moreover have "buf_ok ok seen ?s" using assms True l by (auto simp: buf_ok_def)
  moreover have "buf_rem rem ?s = drop l (buf_rem rem s)" using True l by (simp add: buf_rem_def add.commute)
  moreover have "buf_seen seen ?s = buf_seen seen s @ take l (buf_rem rem s)"
    unfolding take [symmetric] using True assms l by (simp add: buf_seen_def take_add)
  ultimately show ?thesis using l by (intro exI [of _ ?s] exI [of _ l]) auto
next
  case False
  have ok: "ok (buf_input s)" using assms by (simp add: buf_ok_def)
  obtain input k where e: "sr_extract_contiguous ops (buf_input s) maxLen = Inr (input, take k (rem (buf_input s)))"
    and k: "k \<le> maxLen" "rem (buf_input s) \<noteq> [] \<and> 0 < maxLen \<longrightarrow> 0 < k" and i: "ok input" "rem input = drop k (rem (buf_input s))"
    using extract_contiguous [OF ok, of maxLen] by blast
  note seen = extract_contiguous_seen [OF ok e]
  let ?n = "length (take k (rem (buf_input s)))"
  let ?s = "s\<lparr>buf_input := input, buf_index := buf_index s + ?n\<rparr>"
  have r: "buf_rem rem s = rem (buf_input s)" using False by (simp add: buf_rem_def)
  have "buf_extract_contiguous ops s maxLen = Inr (?s, take k (buf_rem rem s))"
    using False e r by (simp add: buf_extract_contiguous_def)
  moreover have "buf_ok ok seen ?s" using assms False i seen by (auto simp: buf_ok_def)
  moreover have "buf_rem rem ?s = drop k (buf_rem rem s)" using False r i by (simp add: buf_rem_def)
  moreover have "buf_seen seen ?s = buf_seen seen s @ take k (buf_rem rem s)"
    using False assms r seen by (simp add: buf_seen_def buf_ok_def)
  ultimately show ?thesis using k r by (intro exI [of _ ?s] exI [of _ k]) simp
qed

lemma buf_rewinds:
  assumes ok: "buf_ok ok seen s" and m: "m \<le> length (buf_seen seen s)"
  shows "\<exists>s'. buf_rewind ops s m = Inr s' \<and> buf_ok ok seen s' \<and> buf_seen seen s' = take m (buf_seen seen s) \<and>
    buf_rem rem s' = drop m (buf_seen seen s) @ buf_rem rem s"
proof -
  let ?es = "dq_elems (buf_buffer s)" and ?i = "buf_index s" and ?z = "dq_size (buf_buffer s)"
  let ?in = "seen (buf_input s)"
  have mi: "m \<le> ?i" using m ok by (auto simp: buf_seen_def buf_ok_def split: if_splits)
  show ?thesis
  proof (cases "?z < ?i")
    case True
    note big = True
    let ?a = "min (?i - m) (?i - ?z)" and ?c = "?i - ?z"
    have c: "?c \<le> length ?in" "ok (buf_input s)" using ok by (auto simp: buf_ok_def)
    obtain input where e: "sr_rewind ops (buf_input s) (length ?in - ?a) = Inr input" and i: "ok input"
        "seen input = take (length ?in - ?a) ?in" "rem input = drop (length ?in - ?a) ?in @ rem (buf_input s)"
      using rewind [OF c(2), of "length ?in - ?a"] by auto
    define s1 where "s1 = s\<lparr>buf_input := input, buf_index := ?i - ?a\<rparr>"
    define s' where "s' = (if m < ?z then s1\<lparr>buf_index := m, buf_bufferIndex := m\<rparr> else s1)"
    have "buf_rewind ops s m = Inr s'"
      using True by (simp add: buf_rewind_def Let_def marker [OF c(2)] e s1_def s'_def)
    moreover have idx: "buf_index s' = m" using True mi by (auto simp: s'_def s1_def min_def)
    have s'_simps: "buf_buffer s' = buf_buffer s" "buf_input s' = input" by (simp_all add: s'_def s1_def)
    have "buf_ok ok seen s'"
      using ok i True mi c by (auto simp: buf_ok_def s'_def s1_def min_def)
    moreover have sn: "buf_seen seen s = ?es @ drop (length ?in - ?c) ?in" using True by (simp add: buf_seen_def)
    have "buf_seen seen s' = take m (buf_seen seen s)"
    proof (cases "m < ?z")
      case True
      then show ?thesis using c big by (simp add: sn buf_seen_def s'_simps idx i)
    next
      case False
      then have a: "?a = ?i - m" by simp
      have "take m (buf_seen seen s) = ?es @ take (m - ?z) (drop (length ?in - ?c) ?in)" using False by (simp add: sn)
      moreover have "drop (length ?in - ?a - (m - ?z)) (take (length ?in - ?a) ?in) = take (m - ?z) (drop (length ?in - ?c) ?in)"
      proof -
        have "length ?in - ?a - (m - ?z) = length ?in - ?c" and "length ?in - ?a - (length ?in - ?c) = m - ?z"
          using False True mi c(1) unfolding a by linarith+
        then show ?thesis by (simp only: drop_take)
      qed
      moreover have "length (take (length ?in - ?a) ?in) = length ?in - ?a" by simp
      then have "buf_seen seen s' = take m ?es @ drop (length ?in - ?a - (m - ?z)) (take (length ?in - ?a) ?in)"
        unfolding buf_seen_def s'_simps idx i by simp
      ultimately show ?thesis using False by simp
    qed
    moreover have "buf_rem rem s' = drop m (buf_seen seen s) @ buf_rem rem s"
    proof (cases "m < ?z")
      case t: True
      then have "?a = ?c" by simp
      then show ?thesis using True t by (simp add: sn buf_rem_def s'_simps idx i)
    next
      case False
      then have a: "?a = ?i - m" by simp
      have "m - ?z + (length ?in - ?c) = length ?in - ?a" using False True mi c by (simp add: a)
      then show ?thesis using True False by (simp add: sn buf_rem_def s'_simps idx i)
    qed
    ultimately show ?thesis by blast
  next
    case False
    then have c0: "?i - ?z = 0" by simp
    let ?s = "if m < ?z then s\<lparr>buf_index := m, buf_bufferIndex := m\<rparr> else s"
    have "m = ?i" if "\<not> m < ?z" using that mi False by simp
    moreover have "buf_rewind ops s m = Inr ?s" using False by (simp add: buf_rewind_def)
    moreover have "buf_ok ok seen ?s" using ok by (auto simp: buf_ok_def)
    moreover have "drop m (take ?i ?es) @ drop ?i ?es = drop m ?es"
      using mi by (metis append_take_drop_id drop_take add_diff_inverse_nat drop_drop not_le le_add_diff_inverse2)
    ultimately show ?thesis using mi False c0
      by (intro exI [of _ ?s]) (auto simp: buf_seen_def buf_rem_def min_def)
  qed
qed

lemma buf_availables:
  assumes "buf_ok ok seen s"
  shows "buf_available ops s = length (buf_rem rem s)" and "buf_construct_save_marker s = length (buf_seen seen s)"
  using assms by (auto simp: buf_available_def buf_construct_save_marker_def buf_rem_def buf_seen_def buf_ok_def available min_def)

lemma buf_empties: "buf_ok ok seen s \<Longrightarrow> buf_empty ops s = (buf_rem rem s = [])"
  by (simp add: buf_empty_def buf_availables)

text \<open>Destroying the reader keeps in the buffer exactly what had not been handed out.\<close>

lemma buf_store_input_spec:
  assumes "ok input" and "dq_inv buffer" and "dq_size buffer + length (rem input) \<le> dq_max_size buffer"
  shows "\<exists>input' buffer'. buf_store_input ops input buffer = Inr (input', buffer') \<and> ok input' \<and> rem input' = [] \<and>
    dq_inv buffer' \<and> dq_max_size buffer' = dq_max_size buffer \<and> dq_elems buffer' = dq_elems buffer @ rem input"
  using assms
proof (induction "length (rem input)" arbitrary: input buffer rule: less_induct)
  case less
  show ?case
  proof (cases "rem input = []")
    case True
    with less.prems show ?thesis by (subst buf_store_input.simps) (simp add: empty)
  next
    case False
    obtain input1 k where e: "sr_extract_contiguous ops input (2 ^ 32 - 1) = Inr (input1, take k (rem input))"
      and k: "0 < k" and i: "ok input1" "rem input1 = drop k (rem input)"
      using extract_contiguous [OF less.prems(1), of "2 ^ 32 - 1"] False by auto
    let ?xs = "take k (rem input)"
    have "dq_yields (dq_insert_range buffer (dq_size buffer) ?xs) (dq_max_size buffer) (dq_elems buffer @ ?xs)"
      using dq_insert_range_yields [OF less.prems(2) order_refl, of ?xs] less.prems(3) by (simp add: min_def)
    then obtain b where b: "dq_insert_range buffer (dq_size buffer) ?xs = Inr b" "dq_inv b" "dq_max_size b = dq_max_size buffer"
        "dq_elems b = dq_elems buffer @ ?xs"
      by (auto simp: dq_yields_def)
    have size: "dq_size b = dq_size buffer + length ?xs" by (metis b(4) length_append length_dq_elems)
    have "dq_size b + length (rem input1) \<le> dq_max_size b" using less.prems(3) size b(3) i(2) by (simp add: min_def)
    moreover have "length (rem input1) < length (rem input)" using False k i(2) by simp
    ultimately obtain input' buffer' where "buf_store_input ops input1 b = Inr (input', buffer')" "ok input'" "rem input' = []"
        "dq_inv buffer'" "dq_max_size buffer' = dq_max_size b" "dq_elems buffer' = dq_elems b @ rem input1"
      using less.hyps [of input1 b] i(1) b(2) by blast
    moreover have "buf_store_input ops input buffer = buf_store_input ops input1 b"
      using False k less.prems(1) by (subst buf_store_input.simps) (simp add: empty e [simplified] b(1))
    ultimately show ?thesis using b i by auto
  qed
qed

lemma buf_destroys:
  assumes ok: "buf_ok ok seen s" and room: "length (buf_rem rem s) \<le> dq_max_size (buf_buffer s)"
  shows "\<exists>input' buffer'. buf_destroy ops s = Inr (input', buffer') \<and> rem input' = [] \<and> dq_inv buffer' \<and>
    dq_elems buffer' = buf_rem rem s"
proof -
  let ?d = "min (dq_size (buf_buffer s)) (buf_index s)"
  have inv: "dq_inv (buf_buffer s)" and in_ok: "ok (buf_input s)" using ok by (simp_all add: buf_ok_def)
  have "dq_yields (dq_erase_range (buf_buffer s) 0 ?d) (dq_max_size (buf_buffer s)) (drop ?d (dq_elems (buf_buffer s)))"
    using dq_erase_range_yields [OF inv, of 0 ?d] by simp
  moreover have "drop ?d (dq_elems (buf_buffer s)) = drop (buf_index s) (dq_elems (buf_buffer s))" by (simp add: min_def)
  ultimately obtain b where b: "dq_erase_range (buf_buffer s) 0 ?d = Inr b" "dq_inv b" "dq_max_size b = dq_max_size (buf_buffer s)"
      "dq_elems b = drop (buf_index s) (dq_elems (buf_buffer s))"
    by (auto simp: dq_yields_def)
  have "dq_size b = dq_size (buf_buffer s) - buf_index s" by (metis b(4) length_drop length_dq_elems)
  then have "dq_size b + length (rem (buf_input s)) \<le> dq_max_size b" using room b(3) by (simp add: buf_rem_def)
  from buf_store_input_spec [OF in_ok b(2) this] b show ?thesis by (auto simp: buf_destroy_def Let_def buf_rem_def)
qed

end

text \<open>An input that hands out all it has in one piece, as those over a range, a string or a
  vector do: then \<open>Extract\<close> keeps the readers' contract.\<close>

locale one_piece_reader = rewinder +
  assumes one_piece: "ok r \<Longrightarrow> sr_extract_contiguous ops r maxLen = Inr (r', xs) \<Longrightarrow> xs = take maxLen (rem r)"

lemma buf_extract_from_buffer_eq:
  fixes n :: nat
  assumes inv: "dq_inv (buf_buffer s)"
  defines "l \<equiv> min n (dq_size (buf_buffer s) - buf_index s)"
  defines "s' \<equiv> s\<lparr>buf_index := buf_index s + l, buf_bufferIndex := buf_bufferIndex s + l\<rparr>"
  shows "buf_extract_from_buffer s n = Inr (s', n - l, take n (drop (buf_index s) (dq_elems (buf_buffer s))))"
proof (cases "buf_index s < dq_size (buf_buffer s)")
  case True
  let ?i = "buf_index s" and ?d = "buf_buffer s"
  define c1 where "c1 = dq_contiguous_range ?d ?i"
  define c2 where "c2 = dq_contiguous_range ?d (?i + length c1)"
  have both: "c1 @ c2 = drop ?i (dq_elems ?d)" unfolding c1_def c2_def by (rule dq_two_ranges [OF inv True])
  then have len: "length c1 + length c2 = dq_size ?d - ?i" by (metis length_append length_drop length_dq_elems)
  have first: "buf_from_buffer s n = take n c1" by (simp add: buf_from_buffer_def c1_def)
  show ?thesis
  proof (cases "n \<le> length c1")
    case n: True
    have "take n (drop ?i (dq_elems ?d)) = take n c1" using n by (simp flip: both)
    moreover have "l = n" using n len by (simp add: l_def)
    ultimately show ?thesis using True n
      by (simp add: buf_extract_from_buffer_def first buf_read_def Let_def s'_def) (simp add: buf_from_buffer_def)
  next
    case n: False
    have "take n (drop ?i (dq_elems ?d)) = c1 @ take (n - length c1) c2" using n by (simp flip: both)
    moreover have "l = length c1 + min (n - length c1) (length c2)" using n len by (simp add: l_def)
    ultimately show ?thesis using True n
      by (simp add: buf_extract_from_buffer_def first buf_read_def Let_def s'_def) (simp add: buf_from_buffer_def min.commute flip: c2_def)
  qed
qed (simp add: buf_extract_from_buffer_def l_def s'_def)

context one_piece_reader
begin

lemma buf_extracts:
  assumes ok: "buf_ok ok seen s"
  shows "\<exists>bs s'. (False \<in> set bs) = (length (buf_rem rem s) < n) \<and> buf_ok ok seen s' \<and> buf_rem rem s' = drop n (buf_rem rem s) \<and>
    buf_seen seen s' = buf_seen seen s @ take n (buf_rem rem s) \<and>
    (\<forall>p. buf_extract ops s p n = rbind (report_all p bs) (\<lambda>p'. Inr (s', p', take n (buf_rem rem s))))"
proof -
  let ?es = "dq_elems (buf_buffer s)" and ?i = "buf_index s"
  have inv: "dq_inv (buf_buffer s)" and in_ok: "ok (buf_input s)" using ok by (simp_all add: buf_ok_def)
  define l where "l = min n (dq_size (buf_buffer s) - ?i)"
  define s1 where "s1 = s\<lparr>buf_index := ?i + l, buf_bufferIndex := buf_bufferIndex s + l\<rparr>"
  have e1: "buf_extract_from_buffer s n = Inr (s1, n - l, take n (drop ?i ?es))"
    unfolding s1_def l_def by (rule buf_extract_from_buffer_eq [OF inv])
  have ok1: "buf_ok ok seen s1" using ok by (auto simp: buf_ok_def s1_def l_def)
  show ?thesis
  proof (cases "n - l = 0")
    case True
    then have n: "n \<le> dq_size (buf_buffer s) - ?i" "l = n" by (simp_all add: l_def)
    have "buf_rem rem s1 = drop n (buf_rem rem s)"
      using n by (simp add: buf_rem_def s1_def add.commute)
    moreover have "n = 0 \<or> ?i + n \<le> dq_size (buf_buffer s)" using n(1) by linarith
    then have "buf_seen seen s1 = buf_seen seen s @ take n (buf_rem rem s)"
      using n by (elim disjE) (simp_all add: buf_seen_def buf_rem_def s1_def take_add)
    moreover have "buf_extract ops s p n = rbind (report_all p [True]) (\<lambda>p'. Inr (s1, p', take n (buf_rem rem s)))" for p
      using n by (simp add: buf_extract_def e1 buf_extract_from_input_def report_all_one buf_rem_def del: report_all.simps)
    ultimately show ?thesis using ok1 n by (intro exI [of _ "[True]"] exI [of _ s1]) (simp add: buf_rem_def)
  next
    case False
    then have l: "l = dq_size (buf_buffer s) - ?i" and n: "dq_size (buf_buffer s) - ?i < n" by (auto simp: l_def min_def split: if_splits)
    obtain input k where e: "sr_extract_contiguous ops (buf_input s) (n - l) = Inr (input, take k (rem (buf_input s)))"
      and i: "ok input" "rem input = drop k (rem (buf_input s))"
      using extract_contiguous [OF in_ok, of "n - l"] by blast
    let ?xs = "take (n - l) (rem (buf_input s))"
    have xs: "take k (rem (buf_input s)) = ?xs" by (rule one_piece [OF in_ok e])
    then have rest: "rem input = drop (n - l) (rem (buf_input s))"
      using i(2) by (metis append_take_drop_id same_append_eq)
    note sn = extract_contiguous_seen [OF in_ok e, unfolded xs]
    let ?s = "s1\<lparr>buf_input := input, buf_index := buf_index s1 + length ?xs\<rparr>"
    have r: "take n (buf_rem rem s) = drop ?i ?es @ ?xs" "drop n (buf_rem rem s) = rem input"
      using n by (simp_all add: buf_rem_def l rest)
    have "buf_extract_from_input ops s1 (n - l) = Inr (?s, n - l - length ?xs, ?xs)"
      using False e by (simp add: buf_extract_from_input_def buf_read_def s1_def xs)
    then have ex: "buf_extract ops s p n = rbind (report_all p [n - l - length ?xs = 0]) (\<lambda>p'. Inr (?s, p', take n (buf_rem rem s)))" for p
      using n by (simp add: buf_extract_def e1 report_all_one r del: report_all.simps)
    have "buf_index s - dq_size (buf_buffer s) \<le> length (seen (buf_input s))" using ok by (simp add: buf_ok_def)
    then have "?i + l + length ?xs - dq_size (buf_buffer s) \<le> length (seen (buf_input s)) + length ?xs" unfolding l by linarith
    then have "buf_ok ok seen ?s" using ok i(1) by (simp add: buf_ok_def s1_def sn) (simp add: l min_def)
    moreover have "buf_rem rem ?s = drop n (buf_rem rem s)" unfolding r by (simp add: buf_rem_def s1_def l)
    moreover have "buf_seen seen ?s = buf_seen seen s @ take n (buf_rem rem s)"
    proof (cases "?i \<le> dq_size (buf_buffer s)")
      case True
      then have "?i + l = dq_size (buf_buffer s)" by (simp add: l)
      then show ?thesis using True unfolding r by (simp add: buf_seen_def s1_def sn)
    next
      case False
      then have "l = 0" by (simp add: l)
      moreover have "length (seen (buf_input s)) + length ?xs - (?i + length ?xs - dq_size (buf_buffer s)) =
          length (seen (buf_input s)) - (?i - dq_size (buf_buffer s))" using False by linarith
      ultimately show ?thesis using False unfolding r by (simp add: buf_seen_def s1_def sn)
    qed
    moreover have "(False \<in> set [n - l - length ?xs = 0]) = (length (buf_rem rem s) < n)"
      using n by (auto simp: buf_rem_def l)
    ultimately show ?thesis using ex by blast
  qed
qed

end

interpretation buf_br: one_piece_reader byte_reader br_ok "\<lambda>r. drop (br_offset r) (br_range r)" "\<lambda>r. take (br_offset r) (br_range r)"
  by unfold_locales (auto simp: reader_defs really_assert_Inr)

interpretation buf_str: one_piece_reader string_reader str_ok "\<lambda>r. drop (str_offset r) (str_string r)" "\<lambda>r. take (str_offset r) (str_string r)"
  by unfold_locales (auto simp: reader_defs in_bounds_Inr)

lemma buf_extract_buffer:
  "buf_extract ops s p n = Inr (s', p', xs) \<Longrightarrow> buf_buffer s' = buf_buffer s"
  by (auto simp: buf_extract_def buf_extract_from_buffer_def buf_extract_from_input_def buf_read_def result_Inr Let_def
      split: if_splits)

text \<open>A buffering reader over a byte range loses nothing: whatever is extracted and whatever the
  policy, the bytes extracted followed by what its destruction leaves in the deque are the
  bytes of the deque and the input it started with, provided the deque has room for the rest.\<close>

lemma buffering_loses_nothing:
  assumes "dq_inv buffer" and "length (dq_elems buffer @ data) \<le> dq_max_size buffer + n"
    and "buf_extract byte_reader (buf_new buffer (br_new data)) p n = Inr (s, p', bytes)"
  shows "\<exists>input buffer'. buf_destroy byte_reader s = Inr (input, buffer') \<and> dq_inv buffer' \<and>
    bytes @ dq_elems buffer' = dq_elems buffer @ data \<and> (failed p' \<longleftrightarrow> failed p \<or> length (dq_elems buffer @ data) < n)"
proof -
  let ?rem = "buf_rem (\<lambda>r. drop (br_offset r) (br_range r))" and ?s0 = "buf_new buffer (br_new data)"
  have ok: "buf_ok br_ok (\<lambda>r. take (br_offset r) (br_range r)) ?s0"
    using assms(1) by (intro buf_new_ok) (simp_all add: br_ok_def br_new_def)
  have r0: "?rem ?s0 = dq_elems buffer @ data" by (simp add: buf_rem_def buf_new_def br_new_def)
  from buf_br.buf_extracts [OF ok, of n, unfolded r0] assms(3) obtain bs where
    ok': "buf_ok br_ok (\<lambda>r. take (br_offset r) (br_range r)) s" and r: "?rem s = drop n (dq_elems buffer @ data)"
    and b: "bytes = take n (dq_elems buffer @ data)" "(False \<in> set bs) = (length (dq_elems buffer @ data) < n)"
      "report_all p bs = Inr p'"
    by (auto simp: rbind_Inr)
  have "dq_max_size (buf_buffer s) = dq_max_size buffer"
    using buf_extract_buffer [OF assms(3)] by (simp add: buf_new_def)
  then have "length (?rem s) \<le> dq_max_size (buf_buffer s)" using assms(2) by (simp add: r)
  from br.buf_destroys [OF ok' this] obtain input buffer' where
    d: "buf_destroy byte_reader s = Inr (input, buffer')" "dq_inv buffer'" "dq_elems buffer' = drop n (dq_elems buffer @ data)"
    unfolding r by blast
  have "failed p' \<longleftrightarrow> failed p \<or> length (dq_elems buffer @ data) < n" using report_all_ok [OF b(3)] b(2) by blast
  moreover have "bytes @ dq_elems buffer' = dq_elems buffer @ data" unfolding b(1) d(3) by (rule append_take_drop_id)
  ultimately show ?thesis using d(1,2) by blast
qed

lemma buffering_loses_nothing_witness:
  "\<exists>s p' input buffer'. buf_extract byte_reader (buf_new \<lparr>dq_storage = [1, 2], dq_numAllocated = 1, dq_start = 1\<rparr> (br_new [3, 4])) no_fail 2 =
      Inr (s, p', [2, 3]) \<and> buf_destroy byte_reader s = Inr (input, buffer') \<and> dq_elems buffer' = [4]"
proof -
  let ?d = "\<lparr>dq_storage = [1, 2 :: byte], dq_numAllocated = 1, dq_start = 1\<rparr>"
  have inv: "dq_inv ?d" and elems: "dq_elems ?d = [2]" and room: "length (dq_elems ?d @ [3, 4]) \<le> dq_max_size ?d + 2"
    by (simp_all add: dq_defs dq_elems_def view_def dq_get_def dq_index_def)
  let ?s = "\<lparr>buf_buffer = ?d, buf_input = \<lparr>br_range = [3, 4 :: byte], br_offset = 1\<rparr>, buf_index = 2, buf_bufferIndex = 1\<rparr>"
  have "buf_extract_from_buffer (buf_new ?d (br_new [3, 4])) 2 =
      Inr (\<lparr>buf_buffer = ?d, buf_input = br_new [3, 4], buf_index = 1, buf_bufferIndex = 1\<rparr>, 1, [2])"
    using buf_extract_from_buffer_eq [of "buf_new ?d (br_new [3, 4])" 2] inv elems
    by (simp add: buf_new_def dq_size_def)
  then have e: "buf_extract byte_reader (buf_new ?d (br_new [3, 4])) no_fail 2 = Inr (?s, no_fail, [2, 3])"
    by (simp add: buf_extract_def buf_extract_from_input_def byte_reader_def br_extract_contiguous_def br_new_def
        buf_read_def no_fail_def policy_report_result_def)
  from buffering_loses_nothing [OF inv room e] elems e show ?thesis by fastforce
qed

text \<open>Once bytes of the input have been read, a buffering reader looks ahead at the wrong place:
  over an empty buffer and an input of three bytes, after one byte \<open>Peek\<close> answers the third, and
  the next byte read is the second.\<close>

lemma buffering_peek_skips:
  "\<exists>s s2. buf_extract_contiguous byte_reader (buf_new (dq_new [0, 0 :: byte]) (br_new [1, 2, 3])) 1 = Inr (s, [1]) \<and>
     map_sum id snd (buf_peek byte_reader s no_fail) = Inr 3 \<and> buf_extract_contiguous byte_reader s 1 = Inr (s2, [2])"
  by (simp add: buf_extract_contiguous_def buf_new_def dq_new_def br_new_def dq_defs byte_reader_def br_extract_contiguous_def
      buf_peek_def buf_peek_contiguous_def br_peek_contiguous_def no_fail_def policy_report_result_def Let_def)

text \<open>Over a deque whose two bytes wrap around its storage, a buffering reader says that two
  bytes are available and fails to extract them.\<close>

lemma buffering_extract_fails:
  "let s = buf_new (dq_new [0 :: byte]) (dr_new \<lparr>dq_storage = [2, 1], dq_numAllocated = 2, dq_start = 1\<rparr>) in
     buf_available deque_reader s = 2 \<and>
     (\<exists>s' p'. buf_extract deque_reader s no_fail 2 = Inr (s', p', [1]) \<and> failed p')"
  by (simp add: buf_available_def buf_new_def dq_new_def dr_new_def dq_defs deque_reader_def dr_available_def buf_extract_def
      buf_extract_from_buffer_def buf_extract_from_input_def dr_extract_contiguous_def dq_contiguous_range_def dq_index_def
      buf_read_def no_fail_def policy_report_result_def Let_def)

end
