(* ===== verification/Bounded_String.thy ===== *)
theory Bounded_String
  imports Prelude
begin

text \<open>
  \<open>infra::BoundedString\<close> (infra/util/BoundedString.hpp): text in a fixed range of characters, of
  which the first \<open>length\<close> are the string. The range is the list of its cells; iterators are
  offsets from \<open>begin()\<close>. \<open>std::memmove\<close> and the loops over pointers are unchecked in the code:
  here they give \<open>Out_of_bounds\<close> when they leave the range they work on. The arguments given as a
  pointer are the characters from that pointer on; a C string ends at its first zero character,
  and a call with \<open>std::strlen\<close> takes the characters before it. \<open>npos\<close> as a result is \<open>None\<close>.

  Whether plain \<open>char\<close> is signed is left to the implementation by C++: comparisons take it as
  the parameter \<open>sc\<close>, and the theorems hold for both.
\<close>

section \<open>Characters\<close>

definition char_value :: "bool \<Rightarrow> char \<Rightarrow> int" where
  "char_value sc c = (let v = int (of_char c) in if sc \<and> v \<ge> 128 then v - 256 else v)"

definition c_str :: "string \<Rightarrow> string" where
  "c_str s = takeWhile (\<lambda>c. c \<noteq> CHR 0x00) s"

definition strlen :: "string \<Rightarrow> nat" where
  "strlen s = length (c_str s)"

lemma signed_injective:
  "a < 256 \<Longrightarrow> b < 256 \<Longrightarrow>
   (if sc \<and> 128 \<le> int a then int a - 256 else int a) = (if sc \<and> 128 \<le> int b then int b - 256 else int b) \<Longrightarrow> a = b"
  by (auto split: if_splits)

lemma char_value_eq [simp]: "char_value sc c = char_value sc d \<longleftrightarrow> c = d"
proof
  assume "char_value sc c = char_value sc d"
  then have "(of_char c :: nat) = of_char d"
    unfolding char_value_def Let_def by (rule signed_injective [rotated 2]) simp_all
  then show "c = d" by simp
qed simp

lemma strlen_le: "strlen s \<le> length s"
  by (simp add: strlen_def c_str_def length_takeWhile_le)

section \<open>The string and its construction\<close>

record bstr =
  bs_range :: string
  bs_length :: nat

definition bs_of_range :: "string \<Rightarrow> bstr" where
  "bs_of_range r = \<lparr>bs_range = r, bs_length = 0\<rparr>"

definition bs_of_range_count :: "string \<Rightarrow> nat \<Rightarrow> bstr" where
  "bs_of_range_count r count = \<lparr>bs_range = r, bs_length = count\<rparr>"

definition bs_of_chars :: "string \<Rightarrow> nat \<Rightarrow> bstr" where
  "bs_of_chars s count = \<lparr>bs_range = take count s, bs_length = count\<rparr>"

definition bs_of_cstr :: "string \<Rightarrow> bstr" where
  "bs_of_cstr s = \<lparr>bs_range = take (strlen s) s, bs_length = strlen s\<rparr>"

definition bs_of_std :: "string \<Rightarrow> bstr" where
  "bs_of_std s = \<lparr>bs_range = s, bs_length = length s\<rparr>"

definition bs_max_size :: "bstr \<Rightarrow> nat" where
  "bs_max_size b = length (bs_range b)"

definition bs_size :: "bstr \<Rightarrow> nat" where
  "bs_size b = bs_length b"

definition bs_empty :: "bstr \<Rightarrow> bool" where
  "bs_empty b \<longleftrightarrow> bs_length b = 0"

definition bs_full :: "bstr \<Rightarrow> bool" where
  "bs_full b \<longleftrightarrow> bs_length b = bs_max_size b"

definition bs_clear :: "bstr \<Rightarrow> bstr" where
  "bs_clear b = b\<lparr>bs_length := 0\<rparr>"

definition bs_at :: "bstr \<Rightarrow> nat \<Rightarrow> char result" where
  "bs_at b pos = really_assert (pos < bs_max_size b) (Inr (bs_range b ! pos))"

definition bs_front :: "bstr \<Rightarrow> char result" where
  "bs_front b = in_bounds (0 < bs_max_size b) (Inr (bs_range b ! 0))"

definition bs_back :: "bstr \<Rightarrow> char result" where
  "bs_back b = really_assert (0 < bs_length b \<and> bs_length b - 1 < bs_max_size b)
     (Inr (bs_range b ! (bs_length b - 1)))"

definition bs_contents :: "bstr \<Rightarrow> string" where
  "bs_contents b = take (bs_length b) (bs_range b)"

section \<open>Moving and storing cells\<close>

definition memmove :: "nat \<Rightarrow> nat \<Rightarrow> nat \<Rightarrow> string \<Rightarrow> string result" where
  "memmove dest src n cells = in_bounds (dest + n \<le> length cells \<and> src + n \<le> length cells)
     (Inr (take dest cells @ take n (drop src cells) @ drop (dest + n) cells))"

fun store :: "string \<Rightarrow> nat \<Rightarrow> string \<Rightarrow> string result" where
  "store cells index [] = Inr cells"
| "store cells index (c # cs) = in_bounds (index < length cells) (store (cells[index := c]) (Suc index) cs)"

text \<open>\<open>size_type\<close> has 64 bits here: a difference below zero wraps around. \<open>MoveUp\<close> behind the end of the text would
  move more characters than any range has.\<close>

definition size_diff :: "nat \<Rightarrow> nat \<Rightarrow> nat" where
  "size_diff a b = nat ((int a - int b) mod 2 ^ 64)"

definition bs_move_up :: "bstr \<Rightarrow> nat \<Rightarrow> nat \<Rightarrow> bstr result" where
  "bs_move_up b start count = in_bounds (start \<le> bs_length b)
     (rbind (memmove (start + count) start (bs_length b - start) (bs_range b))
       (\<lambda>r. Inr (b\<lparr>bs_range := r, bs_length := bs_length b + count\<rparr>)))"

text \<open>In \<open>MoveDown\<close> the address of the source wraps around too, and moving no characters touches nothing.\<close>

definition bs_move_down :: "bstr \<Rightarrow> nat \<Rightarrow> nat \<Rightarrow> bstr result" where
  "bs_move_down b start count =
     (let n = size_diff (size_diff (bs_length b) start) count
      in rbind (if n = 0 then Inr (bs_range b) else memmove start ((start + count) mod 2 ^ 64) n (bs_range b))
        (\<lambda>r. Inr (b\<lparr>bs_range := r, bs_length := size_diff (bs_length b) count\<rparr>)))"

section \<open>Assignment\<close>

definition bs_assign_fill :: "bstr \<Rightarrow> nat \<Rightarrow> char \<Rightarrow> bstr result" where
  "bs_assign_fill b count ch = really_assert (count \<le> length (bs_range b))
     (Inr (b\<lparr>bs_range := replicate count ch @ drop count (bs_range b), bs_length := count\<rparr>))"

definition bs_assign_string :: "bstr \<Rightarrow> bstr \<Rightarrow> bstr result" where
  "bs_assign_string b other = really_assert (bs_size other \<le> length (bs_range b))
     (rbind (store (bs_range b) 0 (take (bs_length other) (bs_range other)))
       (\<lambda>r. Inr (b\<lparr>bs_range := r, bs_length := bs_length other\<rparr>)))"

definition bs_assign_substring :: "bstr \<Rightarrow> bstr \<Rightarrow> nat \<Rightarrow> nat \<Rightarrow> bstr result" where
  "bs_assign_substring b other pos count =
     (let count = min count (bs_size other)
      in really_assert (count \<le> length (bs_range b))
        (in_bounds (pos + count \<le> length (bs_range other))
          (rbind (store (bs_range b) 0 (take count (drop pos (bs_range other))))
            (\<lambda>r. Inr (b\<lparr>bs_range := r, bs_length := count\<rparr>)))))"

definition bs_assign_chars :: "bstr \<Rightarrow> string \<Rightarrow> nat \<Rightarrow> bstr result" where
  "bs_assign_chars b s count = really_assert (count \<le> length (bs_range b))
     (in_bounds (count \<le> length s)
       (rbind (store (bs_range b) 0 (take count s))
         (\<lambda>r. Inr (b\<lparr>bs_range := r, bs_length := count\<rparr>))))"

definition bs_assign_cstr :: "bstr \<Rightarrow> string \<Rightarrow> bstr result" where
  "bs_assign_cstr b s = bs_assign_chars b s (strlen s)"

definition bs_assign_std :: "bstr \<Rightarrow> string \<Rightarrow> bstr result" where
  "bs_assign_std b s = bs_assign_chars b s (length s)"

fun bs_assign_range_loop :: "string \<Rightarrow> nat \<Rightarrow> string \<Rightarrow> string \<times> nat" where
  "bs_assign_range_loop cells len [] = (cells, len)"
| "bs_assign_range_loop cells len (c # cs) =
     (if len \<noteq> length cells then bs_assign_range_loop (cells[len := c]) (Suc len) cs else (cells, len))"

definition bs_assign_range :: "bstr \<Rightarrow> string \<Rightarrow> bstr" where
  "bs_assign_range b cs = (case bs_assign_range_loop (bs_range b) 0 cs of
     (r, len) \<Rightarrow> b\<lparr>bs_range := r, bs_length := len\<rparr>)"

definition bs_assign_char :: "bstr \<Rightarrow> char \<Rightarrow> bstr result" where
  "bs_assign_char b ch = bs_assign_fill b 1 ch"

section \<open>Insertion and removal\<close>

definition bs_insert_fill :: "bstr \<Rightarrow> nat \<Rightarrow> nat \<Rightarrow> char \<Rightarrow> bstr result" where
  "bs_insert_fill b index count ch = really_assert (bs_length b + count \<le> bs_max_size b)
     (rbind (bs_move_up b index count)
       (\<lambda>b'. rbind (store (bs_range b') index (replicate count ch)) (\<lambda>r. Inr (b'\<lparr>bs_range := r\<rparr>))))"

definition bs_insert_chars :: "bstr \<Rightarrow> nat \<Rightarrow> string \<Rightarrow> nat \<Rightarrow> bstr result" where
  "bs_insert_chars b index s count = really_assert (bs_length b + count \<le> bs_max_size b)
     (rbind (bs_move_up b index count)
       (\<lambda>b'. in_bounds (count \<le> length s)
         (rbind (store (bs_range b') index (take count s)) (\<lambda>r. Inr (b'\<lparr>bs_range := r\<rparr>)))))"

definition bs_insert_cstr :: "bstr \<Rightarrow> nat \<Rightarrow> string \<Rightarrow> bstr result" where
  "bs_insert_cstr b index s = bs_insert_chars b index s (strlen s)"

definition bs_insert_string :: "bstr \<Rightarrow> nat \<Rightarrow> bstr \<Rightarrow> bstr result" where
  "bs_insert_string b index other = really_assert (bs_length b + bs_size other \<le> bs_max_size b)
     (rbind (bs_move_up b index (bs_size other))
       (\<lambda>b'. rbind (store (bs_range b') index (bs_contents other)) (\<lambda>r. Inr (b'\<lparr>bs_range := r\<rparr>))))"

definition bs_insert_substring :: "bstr \<Rightarrow> nat \<Rightarrow> bstr \<Rightarrow> nat \<Rightarrow> nat \<Rightarrow> bstr result" where
  "bs_insert_substring b index other index_str count = really_assert (bs_length b + count \<le> bs_max_size b)
     (rbind (bs_move_up b index count)
       (\<lambda>b'. in_bounds (index_str + count \<le> length (bs_range other))
         (rbind (store (bs_range b') index (take count (drop index_str (bs_range other))))
           (\<lambda>r. Inr (b'\<lparr>bs_range := r\<rparr>)))))"

definition bs_insert_std :: "bstr \<Rightarrow> nat \<Rightarrow> string \<Rightarrow> bstr result" where
  "bs_insert_std b index s = bs_insert_chars b index s (length s)"

definition bs_insert_std_part :: "bstr \<Rightarrow> nat \<Rightarrow> string \<Rightarrow> nat \<Rightarrow> nat \<Rightarrow> bstr result" where
  "bs_insert_std_part b index s index_str count = in_bounds (index_str \<le> length s)
     (bs_insert_chars b index (drop index_str s) count)"

text \<open>The overloads that take an iterator return the iterator after what they inserted.\<close>

definition bs_insert_char_at :: "bstr \<Rightarrow> nat \<Rightarrow> char \<Rightarrow> (bstr \<times> nat) result" where
  "bs_insert_char_at b pos ch = really_assert (bs_length b \<noteq> bs_max_size b)
     (rbind (bs_move_up b pos 1)
       (\<lambda>b'. rbind (store (bs_range b') pos [ch]) (\<lambda>r. Inr (b'\<lparr>bs_range := r\<rparr>, pos + 1))))"

definition bs_insert_fill_at :: "bstr \<Rightarrow> nat \<Rightarrow> nat \<Rightarrow> char \<Rightarrow> (bstr \<times> nat) result" where
  "bs_insert_fill_at b pos count ch = really_assert (bs_length b + count \<le> bs_max_size b)
     (rbind (bs_move_up b pos count)
       (\<lambda>b'. rbind (store (bs_range b') pos (replicate count ch))
         (\<lambda>r. Inr (b'\<lparr>bs_range := r\<rparr>, pos + count))))"

definition bs_insert_range_at :: "bstr \<Rightarrow> nat \<Rightarrow> string \<Rightarrow> (bstr \<times> nat) result" where
  "bs_insert_range_at b i cs =
     (let additional = min (bs_max_size b - bs_length b) (length cs)
      in rbind (bs_move_up b i additional)
        (\<lambda>b'. rbind (store (bs_range b') i (take additional cs))
          (\<lambda>r. Inr (b'\<lparr>bs_range := r\<rparr>, i + additional))))"

definition bs_erase :: "bstr \<Rightarrow> nat \<Rightarrow> nat \<Rightarrow> bstr result" where
  "bs_erase b index count =
     (let count = min count (size_diff (bs_length b) index) in bs_move_down b index count)"

definition bs_erase_at :: "bstr \<Rightarrow> nat \<Rightarrow> (bstr \<times> nat) result" where
  "bs_erase_at b position = rbind (bs_move_down b position 1) (\<lambda>b'. Inr (b', position))"

definition bs_erase_range :: "bstr \<Rightarrow> nat \<Rightarrow> nat \<Rightarrow> (bstr \<times> nat) result" where
  "bs_erase_range b i j = rbind (bs_move_down b i (size_diff j i)) (\<lambda>b'. Inr (b', i))"

definition bs_push_back :: "bstr \<Rightarrow> char \<Rightarrow> bstr result" where
  "bs_push_back b ch = really_assert (bs_length b \<noteq> bs_max_size b)
     (Inr (b\<lparr>bs_range := (bs_range b)[bs_length b := ch], bs_length := bs_length b + 1\<rparr>))"

definition bs_pop_back :: "bstr \<Rightarrow> bstr result" where
  "bs_pop_back b = really_assert (bs_length b > 0) (Inr (b\<lparr>bs_length := bs_length b - 1\<rparr>))"

section \<open>Appending\<close>

fun append_loop :: "bstr \<Rightarrow> string \<Rightarrow> bstr result" where
  "append_loop b [] = Inr b"
| "append_loop b (c # cs) = really_assert (bs_length b < bs_max_size b)
     (append_loop (b\<lparr>bs_range := (bs_range b)[bs_length b := c], bs_length := Suc (bs_length b)\<rparr>) cs)"

definition bs_append_fill :: "bstr \<Rightarrow> nat \<Rightarrow> char \<Rightarrow> bstr result" where
  "bs_append_fill b count ch = really_assert (bs_length b + count \<le> bs_max_size b)
     (append_loop b (replicate count ch))"

definition bs_append_string :: "bstr \<Rightarrow> bstr \<Rightarrow> bstr result" where
  "bs_append_string b other = really_assert (bs_length b + bs_size other \<le> bs_max_size b)
     (append_loop b (bs_contents other))"

definition bs_append_substring :: "bstr \<Rightarrow> bstr \<Rightarrow> nat \<Rightarrow> nat \<Rightarrow> bstr result" where
  "bs_append_substring b other pos count = really_assert (bs_length b + count \<le> bs_max_size b)
     (in_bounds (pos + count \<le> length (bs_range other))
       (append_loop b (take count (drop pos (bs_range other)))))"

definition bs_append_chars :: "bstr \<Rightarrow> string \<Rightarrow> nat \<Rightarrow> bstr result" where
  "bs_append_chars b s count = really_assert (bs_length b + count \<le> bs_max_size b)
     (in_bounds (count \<le> length s) (append_loop b (take count s)))"

definition bs_append_cstr :: "bstr \<Rightarrow> string \<Rightarrow> bstr result" where
  "bs_append_cstr b s = bs_append_chars b s (strlen s)"

definition bs_append_std :: "bstr \<Rightarrow> string \<Rightarrow> bstr result" where
  "bs_append_std b s = bs_append_chars b s (length s)"

fun bs_append_range :: "bstr \<Rightarrow> string \<Rightarrow> bstr" where
  "bs_append_range b [] = b"
| "bs_append_range b (c # cs) = (if bs_length b \<noteq> bs_max_size b
     then bs_append_range (b\<lparr>bs_range := (bs_range b)[bs_length b := c], bs_length := Suc (bs_length b)\<rparr>) cs
     else b)"

definition bs_append_char :: "bstr \<Rightarrow> char \<Rightarrow> bstr result" where
  "bs_append_char b ch = bs_append_fill b 1 ch"

section \<open>Replacing\<close>

text \<open>
  \<open>begin() - begin1\<close> in the length of the first move is minus the position: the move covers
  \<open>length - count1 + pos\<close> characters, not the \<open>length - count1 - pos\<close> that follow the replaced part.
\<close>

definition bs_replace_impl :: "bstr \<Rightarrow> nat \<Rightarrow> nat \<Rightarrow> string \<Rightarrow> nat \<Rightarrow> bstr result" where
  "bs_replace_impl b pos count1 s count2 =
     really_assert ((int (bs_length b) - int count1 + int count2) mod 2 ^ 64 \<le> int (bs_max_size b))
     (in_bounds (count1 \<le> bs_length b \<and> count2 \<le> length s)
     (rbind (memmove (pos + count2) (pos + count1) (bs_length b - count1 + pos) (bs_range b))
       (\<lambda>r. rbind (store r pos (take count2 s))
       (\<lambda>r. Inr (b\<lparr>bs_range := r, bs_length := bs_length b - count1 + count2\<rparr>)))))"

definition bs_replace_string :: "bstr \<Rightarrow> nat \<Rightarrow> nat \<Rightarrow> bstr \<Rightarrow> bstr result" where
  "bs_replace_string b pos count other = bs_replace_impl b pos count (bs_range other) (bs_size other)"

definition bs_replace_substring :: "bstr \<Rightarrow> nat \<Rightarrow> nat \<Rightarrow> bstr \<Rightarrow> nat \<Rightarrow> nat \<Rightarrow> bstr result" where
  "bs_replace_substring b pos count other pos2 count2 = bs_replace_impl b pos count (bs_range other) count2"

definition bs_replace_chars :: "bstr \<Rightarrow> nat \<Rightarrow> nat \<Rightarrow> string \<Rightarrow> nat \<Rightarrow> bstr result" where
  "bs_replace_chars b pos count s count2 = bs_replace_impl b pos count s count2"

definition bs_replace_cstr :: "bstr \<Rightarrow> nat \<Rightarrow> nat \<Rightarrow> string \<Rightarrow> bstr result" where
  "bs_replace_cstr b pos count s = bs_replace_impl b pos count s (strlen s)"

definition bs_replace_std :: "bstr \<Rightarrow> nat \<Rightarrow> nat \<Rightarrow> string \<Rightarrow> bstr result" where
  "bs_replace_std b pos count s = bs_replace_impl b pos count s (length s)"

definition bs_replace_fill :: "bstr \<Rightarrow> nat \<Rightarrow> nat \<Rightarrow> nat \<Rightarrow> char \<Rightarrow> bstr result" where
  "bs_replace_fill b pos count count2 ch = bs_replace_impl b pos count (replicate count2 ch) count2"

definition bs_replace_range :: "bstr \<Rightarrow> nat \<Rightarrow> nat \<Rightarrow> string \<Rightarrow> bstr result" where
  "bs_replace_range b i j cs =
     (let count = i;
          count2 = int (length cs);
          replacementSize = count2 - max (int (bs_length b) - int count + count2 - int (bs_max_size b)) 0
      in in_bounds (i \<le> j) (bs_replace_impl b count (j - i) cs (nat replacementSize)))"

section \<open>Parts, copying, resizing, swapping\<close>

definition bs_substr :: "bstr \<Rightarrow> nat \<Rightarrow> nat \<Rightarrow> bstr result" where
  "bs_substr b pos count = really_assert (pos \<le> bs_length b)
     (let count = min count (bs_length b - pos) in Inr (bs_of_chars (drop pos (bs_range b)) count))"

definition bs_copy :: "bstr \<Rightarrow> string \<Rightarrow> nat \<Rightarrow> nat \<Rightarrow> (string \<times> nat) result" where
  "bs_copy b dest count pos = really_assert (pos \<le> bs_length b)
     (let count = min count (bs_length b - pos)
      in rbind (store dest 0 (take count (drop pos (bs_range b)))) (\<lambda>d. Inr (d, count)))"

definition bs_resize :: "bstr \<Rightarrow> nat \<Rightarrow> char \<Rightarrow> bstr result" where
  "bs_resize b count ch = really_assert (count \<le> bs_max_size b)
     (rbind (if count > bs_length b then store (bs_range b) (bs_length b) (replicate (count - bs_length b) ch)
             else Inr (bs_range b))
       (\<lambda>r. Inr (b\<lparr>bs_range := r, bs_length := count\<rparr>)))"

definition bs_resize_zero :: "bstr \<Rightarrow> nat \<Rightarrow> bstr result" where
  "bs_resize_zero b count = bs_resize b count CHR 0x00"

definition bs_shrink :: "bstr \<Rightarrow> nat \<Rightarrow> bstr" where
  "bs_shrink b count = (if count < bs_length b then b\<lparr>bs_length := count\<rparr> else b)"

text \<open>\<open>copy_cells f g i n\<close>: the loop \<open>for (; n; --n, ++i) f[i] = g[i]\<close>.\<close>

fun copy_cells :: "string \<Rightarrow> string \<Rightarrow> nat \<Rightarrow> nat \<Rightarrow> string result" where
  "copy_cells f g i 0 = Inr f"
| "copy_cells f g i (Suc n) = really_assert (i < length f \<and> i < length g) (copy_cells (f[i := g ! i]) g (Suc i) n)"

definition bs_swap :: "bstr \<Rightarrow> bstr \<Rightarrow> (bstr \<times> bstr) result" where
  "bs_swap b other =
     (let n = min (bs_size b) (bs_size other);
          r1 = take n (bs_range other) @ drop n (bs_range b);
          r2 = take n (bs_range b) @ drop n (bs_range other)
      in rbind (copy_cells r1 r2 (bs_size b) (bs_size other - bs_size b))
        (\<lambda>r1'. rbind (copy_cells r2 r1' (bs_size other) (bs_size b - bs_size other))
        (\<lambda>r2'. Inr (b\<lparr>bs_range := r1', bs_length := bs_length other\<rparr>,
                   other\<lparr>bs_range := r2', bs_length := bs_length b\<rparr>))))"

section \<open>Searching\<close>

text \<open>
  Searching works on the contents. A needle is given by the characters from a pointer on and their
  number. \<open>rfind\<close> and \<open>find_last\<close> walk a pointer down that may pass \<open>begin()\<close>; the loops below take
  the number of positions still to be looked at.
\<close>

fun compare_impl :: "bool \<Rightarrow> string \<Rightarrow> string \<Rightarrow> int" where
  "compare_impl sc (x # xs) (y # ys) =
     (if x \<noteq> y then (if char_value sc x < char_value sc y then - 1 else 1) else compare_impl sc xs ys)"
| "compare_impl sc (x # xs) [] = 1"
| "compare_impl sc [] (y # ys) = - 1"
| "compare_impl sc [] [] = 0"

function bs_find_loop :: "string \<Rightarrow> string \<Rightarrow> nat \<Rightarrow> nat option" where
  "bs_find_loop xs s i = (if i + length s \<le> length xs
     then (if compare_impl False (take (length s) (drop i xs)) s = 0 then Some i else bs_find_loop xs s (Suc i))
     else None)"
  by pat_completeness auto
termination by (relation "measure (\<lambda>(xs, s, i). Suc (length xs) - i)") auto

declare bs_find_loop.simps [simp del]

definition bs_find :: "bstr \<Rightarrow> string \<Rightarrow> nat \<Rightarrow> nat \<Rightarrow> nat option result" where
  "bs_find b s pos count = really_assert (pos \<le> bs_length b)
     (in_bounds (count \<le> length s) (Inr (bs_find_loop (bs_contents b) (take count s) pos)))"

definition bs_find_string :: "bstr \<Rightarrow> bstr \<Rightarrow> nat \<Rightarrow> nat option result" where
  "bs_find_string b other pos = bs_find b (bs_range other) pos (bs_size other)"

definition bs_find_cstr :: "bstr \<Rightarrow> string \<Rightarrow> nat \<Rightarrow> nat option result" where
  "bs_find_cstr b s pos = bs_find b s pos (strlen s)"

definition bs_find_char :: "bstr \<Rightarrow> char \<Rightarrow> nat \<Rightarrow> nat option result" where
  "bs_find_char b ch pos = bs_find b [ch] pos 1"

fun bs_rfind_loop :: "string \<Rightarrow> string \<Rightarrow> nat \<Rightarrow> nat option" where
  "bs_rfind_loop xs s 0 = None"
| "bs_rfind_loop xs s (Suc i) =
     (if compare_impl False (take (length s) (drop i xs)) s = 0 then Some i else bs_rfind_loop xs s i)"

definition bs_rfind :: "bstr \<Rightarrow> string \<Rightarrow> nat \<Rightarrow> nat \<Rightarrow> nat option result" where
  "bs_rfind b s pos count = in_bounds (count \<le> length s)
     (let pos = min pos (bs_length b);
          i = min (int pos) (int (bs_length b) - int count)
      in Inr (bs_rfind_loop (bs_contents b) (take count s) (nat (i + 1))))"

definition bs_rfind_string :: "bstr \<Rightarrow> bstr \<Rightarrow> nat \<Rightarrow> nat option result" where
  "bs_rfind_string b other pos = (let pos = min pos (bs_length b) in bs_rfind b (bs_range other) pos (bs_size other))"

definition bs_rfind_cstr :: "bstr \<Rightarrow> string \<Rightarrow> nat \<Rightarrow> nat option result" where
  "bs_rfind_cstr b s pos = bs_rfind b s pos (strlen s)"

definition bs_rfind_char :: "bstr \<Rightarrow> char \<Rightarrow> nat \<Rightarrow> nat option result" where
  "bs_rfind_char b ch pos = bs_rfind b [ch] pos 1"

text \<open>
  \<open>find_first_of\<close> and \<open>find_first_not_of\<close> differ in the test only, as do the two that search
  from the end.
\<close>

fun find_forward :: "(char \<Rightarrow> bool) \<Rightarrow> string \<Rightarrow> nat \<Rightarrow> nat option" where
  "find_forward P [] i = None"
| "find_forward P (x # xs) i = (if P x then Some i else find_forward P xs (Suc i))"

fun find_backward :: "(char \<Rightarrow> bool) \<Rightarrow> string \<Rightarrow> nat \<Rightarrow> nat option" where
  "find_backward P xs 0 = None"
| "find_backward P xs (Suc i) = (if P (xs ! i) then Some i else find_backward P xs i)"

definition bs_find_first_of :: "bstr \<Rightarrow> string \<Rightarrow> nat \<Rightarrow> nat \<Rightarrow> nat option result" where
  "bs_find_first_of b s pos count = in_bounds (count \<le> length s)
     (let pos = min pos (bs_length b)
      in Inr (find_forward (\<lambda>c. c \<in> set (take count s)) (drop pos (bs_contents b)) pos))"

definition bs_find_first_of_cstr :: "bstr \<Rightarrow> string \<Rightarrow> nat \<Rightarrow> nat option result" where
  "bs_find_first_of_cstr b s pos = bs_find_first_of b s pos (strlen s)"

definition bs_find_first_of_char :: "bstr \<Rightarrow> char \<Rightarrow> nat \<Rightarrow> nat option result" where
  "bs_find_first_of_char b ch pos = bs_find_first_of b [ch] pos 1"

definition bs_find_first_of_string :: "bstr \<Rightarrow> bstr \<Rightarrow> nat \<Rightarrow> nat option result" where
  "bs_find_first_of_string b other pos = bs_find_first_of b (bs_range other) pos (bs_size other)"

definition bs_find_first_not_of :: "bstr \<Rightarrow> string \<Rightarrow> nat \<Rightarrow> nat \<Rightarrow> nat option result" where
  "bs_find_first_not_of b s pos count = in_bounds (count \<le> length s)
     (let pos = min pos (bs_length b)
      in Inr (find_forward (\<lambda>c. c \<notin> set (take count s)) (drop pos (bs_contents b)) pos))"

definition bs_find_first_not_of_cstr :: "bstr \<Rightarrow> string \<Rightarrow> nat \<Rightarrow> nat option result" where
  "bs_find_first_not_of_cstr b s pos = bs_find_first_not_of b s pos (strlen s)"

definition bs_find_first_not_of_char :: "bstr \<Rightarrow> char \<Rightarrow> nat \<Rightarrow> nat option result" where
  "bs_find_first_not_of_char b ch pos = bs_find_first_not_of b [ch] pos 1"

definition bs_find_first_not_of_string :: "bstr \<Rightarrow> bstr \<Rightarrow> nat \<Rightarrow> nat option result" where
  "bs_find_first_not_of_string b other pos = bs_find_first_not_of b (bs_range other) pos (bs_size other)"

definition bs_find_last_of :: "bstr \<Rightarrow> string \<Rightarrow> nat \<Rightarrow> nat \<Rightarrow> nat option result" where
  "bs_find_last_of b s pos count = in_bounds (count \<le> length s)
     (let pos = min pos (bs_length b)
      in Inr (find_backward (\<lambda>c. c \<in> set (take count s)) (bs_contents b) pos))"

definition bs_find_last_of_cstr :: "bstr \<Rightarrow> string \<Rightarrow> nat \<Rightarrow> nat option result" where
  "bs_find_last_of_cstr b s pos = bs_find_last_of b s pos (strlen s)"

definition bs_find_last_of_char :: "bstr \<Rightarrow> char \<Rightarrow> nat \<Rightarrow> nat option result" where
  "bs_find_last_of_char b ch pos = bs_find_last_of b [ch] pos 1"

definition bs_find_last_of_string :: "bstr \<Rightarrow> bstr \<Rightarrow> nat \<Rightarrow> nat option result" where
  "bs_find_last_of_string b other pos = bs_find_last_of b (bs_range other) pos (bs_size other)"

definition bs_find_last_not_of :: "bstr \<Rightarrow> string \<Rightarrow> nat \<Rightarrow> nat \<Rightarrow> nat option result" where
  "bs_find_last_not_of b s pos count = in_bounds (count \<le> length s)
     (let pos = min pos (bs_length b)
      in Inr (find_backward (\<lambda>c. c \<notin> set (take count s)) (bs_contents b) pos))"

definition bs_find_last_not_of_cstr :: "bstr \<Rightarrow> string \<Rightarrow> nat \<Rightarrow> nat option result" where
  "bs_find_last_not_of_cstr b s pos = bs_find_last_not_of b s pos (strlen s)"

definition bs_find_last_not_of_char :: "bstr \<Rightarrow> char \<Rightarrow> nat \<Rightarrow> nat option result" where
  "bs_find_last_not_of_char b ch pos = bs_find_last_not_of b [ch] pos 1"

definition bs_find_last_not_of_string :: "bstr \<Rightarrow> bstr \<Rightarrow> nat \<Rightarrow> nat option result" where
  "bs_find_last_not_of_string b other pos = bs_find_last_not_of b (bs_range other) pos (bs_size other)"

section \<open>Comparing\<close>

definition bs_compare :: "bool \<Rightarrow> bstr \<Rightarrow> bstr \<Rightarrow> int" where
  "bs_compare sc b other = compare_impl sc (bs_contents b) (bs_contents other)"

definition bs_compare_part :: "bool \<Rightarrow> bstr \<Rightarrow> nat \<Rightarrow> nat \<Rightarrow> bstr \<Rightarrow> int result" where
  "bs_compare_part sc b pos1 count1 other = in_bounds (pos1 + count1 \<le> length (bs_range b))
     (Inr (compare_impl sc (take count1 (drop pos1 (bs_range b))) (bs_contents other)))"

definition bs_compare_parts :: "bool \<Rightarrow> bstr \<Rightarrow> nat \<Rightarrow> nat \<Rightarrow> bstr \<Rightarrow> nat \<Rightarrow> nat \<Rightarrow> int result" where
  "bs_compare_parts sc b pos1 count1 other pos2 count2 =
     in_bounds (pos1 + count1 \<le> length (bs_range b) \<and> pos2 + count2 \<le> length (bs_range other))
       (Inr (compare_impl sc (take count1 (drop pos1 (bs_range b))) (take count2 (drop pos2 (bs_range other)))))"

definition bs_compare_cstr :: "bool \<Rightarrow> bstr \<Rightarrow> string \<Rightarrow> int" where
  "bs_compare_cstr sc b s = compare_impl sc (bs_contents b) (c_str s)"

definition bs_equal :: "bstr \<Rightarrow> bstr \<Rightarrow> bool" where
  "bs_equal lhs rhs \<longleftrightarrow> bs_size lhs = bs_size rhs \<and> bs_contents lhs = bs_contents rhs"

definition bs_equal_cstr :: "bstr \<Rightarrow> string \<Rightarrow> bool" where
  "bs_equal_cstr lhs rhs \<longleftrightarrow> bs_size lhs = strlen rhs \<and> bs_contents lhs = take (strlen rhs) rhs"

definition bs_less :: "bool \<Rightarrow> bstr \<Rightarrow> bstr \<Rightarrow> bool" where
  "bs_less sc lhs rhs = lexicographical_compare (map (char_value sc) (bs_contents lhs)) (map (char_value sc) (bs_contents rhs))"

definition bs_less_equal :: "bool \<Rightarrow> bstr \<Rightarrow> bstr \<Rightarrow> bool" where
  "bs_less_equal sc lhs rhs = (\<not> bs_less sc rhs lhs)"

definition bs_greater :: "bool \<Rightarrow> bstr \<Rightarrow> bstr \<Rightarrow> bool" where
  "bs_greater sc lhs rhs = bs_less sc rhs lhs"

definition bs_greater_equal :: "bool \<Rightarrow> bstr \<Rightarrow> bstr \<Rightarrow> bool" where
  "bs_greater_equal sc lhs rhs = (\<not> bs_less sc lhs rhs)"

definition bs_starts_with :: "bstr \<Rightarrow> string \<Rightarrow> nat \<Rightarrow> bool result" where
  "bs_starts_with b s count = rbind (bs_substr b 0 count)
     (\<lambda>part. in_bounds (count \<le> length s) (Inr (bs_equal part (bs_of_chars s count))))"

definition bs_starts_with_cstr :: "bstr \<Rightarrow> string \<Rightarrow> bool result" where
  "bs_starts_with_cstr b s = bs_starts_with b s (strlen s)"

definition bs_starts_with_char :: "bstr \<Rightarrow> char \<Rightarrow> bool result" where
  "bs_starts_with_char b ch = bs_starts_with b [ch] 1"

definition bs_starts_with_string :: "bstr \<Rightarrow> bstr \<Rightarrow> bool result" where
  "bs_starts_with_string b other = bs_starts_with b (bs_range other) (bs_size other)"

definition bs_ends_with :: "bstr \<Rightarrow> string \<Rightarrow> nat \<Rightarrow> bool result" where
  "bs_ends_with b s count = (if count > bs_length b then Inr False
     else rbind (bs_substr b (bs_length b - count) count)
       (\<lambda>part. in_bounds (count \<le> length s) (Inr (bs_equal part (bs_of_chars s count)))))"

definition bs_ends_with_cstr :: "bstr \<Rightarrow> string \<Rightarrow> bool result" where
  "bs_ends_with_cstr b s = bs_ends_with b s (strlen s)"

definition bs_ends_with_char :: "bstr \<Rightarrow> char \<Rightarrow> bool result" where
  "bs_ends_with_char b ch = bs_ends_with b [ch] 1"

definition bs_ends_with_string :: "bstr \<Rightarrow> bstr \<Rightarrow> bool result" where
  "bs_ends_with_string b other = bs_ends_with b (bs_range other) (bs_size other)"

fun bs_trim_left_loop :: "bstr \<Rightarrow> nat \<Rightarrow> nat \<Rightarrow> bstr result" where
  "bs_trim_left_loop b i 0 = Inr (bs_of_range [])"
| "bs_trim_left_loop b i (Suc n) = rbind (bs_at b i)
     (\<lambda>c. if c \<noteq> CHR '' '' then bs_substr b i (bs_length b - i) else bs_trim_left_loop b (Suc i) n)"

definition bs_trim_left :: "bstr \<Rightarrow> bstr result" where
  "bs_trim_left b = bs_trim_left_loop b 0 (bs_size b)"

definition tolower :: "char \<Rightarrow> char" where
  "tolower c = (let v = (of_char c :: nat) in if 65 \<le> v \<and> v \<le> 90 then char_of (v + 32) else c)"

definition bs_case_insensitive_compare :: "bstr \<Rightarrow> bstr \<Rightarrow> bool" where
  "bs_case_insensitive_compare lhs rhs \<longleftrightarrow>
     bs_size lhs = bs_size rhs \<and> map tolower (bs_contents lhs) = map tolower (bs_contents rhs)"

definition bs_concat_std :: "string \<Rightarrow> bstr \<Rightarrow> string" where
  "bs_concat_std lhs rhs = lhs @ bs_contents rhs"

end
