(* ===== verification/Bounded_String_Laws.thy ===== *)
theory Bounded_String_Laws
  imports Bounded_String Refinement "HOL-Library.Sublist"
begin

text \<open>
  What the operations of \<open>infra::BoundedString\<close> do to the text it holds: each modifying operation on a
  string whose length fits its range (\<open>holds\<close>), searching and comparing, and the refinement of a text
  of limited length by sequences of edits.
\<close>

section \<open>What the operations do to the contents\<close>

definition bs_ok :: "bstr \<Rightarrow> bool" where
  "bs_ok b \<longleftrightarrow> bs_length b \<le> bs_max_size b"

lemma length_bs_contents [simp]: "bs_ok b \<Longrightarrow> length (bs_contents b) = bs_length b"
  by (simp add: bs_contents_def bs_ok_def bs_max_size_def)

lemma bs_full_iff: "bs_ok b \<Longrightarrow> bs_full b \<longleftrightarrow> length (bs_contents b) = bs_max_size b"
  by (simp add: bs_full_def)

lemma memmove_Inr:
  "dest + n \<le> length cells \<Longrightarrow> src + n \<le> length cells \<Longrightarrow>
   memmove dest src n cells = Inr (take dest cells @ take n (drop src cells) @ drop (dest + n) cells)"
  by (simp add: memmove_def)

lemma store_Inr:
  "index + length cs \<le> length cells \<Longrightarrow>
   store cells index cs = Inr (take index cells @ cs @ drop (index + length cs) cells)"
proof (induction cs arbitrary: cells index)
  case (Cons c cs)
  then show ?case
    by (simp add: take_Suc_conv_app_nth drop_update_cancel take_update_cancel)
qed simp

lemma append_loop_Inr:
  "bs_ok b \<Longrightarrow> bs_length b + length cs \<le> bs_max_size b \<Longrightarrow>
   append_loop b cs = Inr \<lparr>bs_range = take (bs_length b) (bs_range b) @ cs @ drop (bs_length b + length cs) (bs_range b),
                           bs_length = bs_length b + length cs\<rparr>"
proof (induction cs arbitrary: b)
  case (Cons c cs)
  then show ?case
    by (simp add: bs_ok_def bs_max_size_def take_Suc_conv_app_nth drop_update_cancel take_update_cancel)
qed simp

text \<open>Each modifying operation, on a string whose length fits its range.\<close>

definition holds :: "bstr result \<Rightarrow> bstr \<Rightarrow> string \<Rightarrow> bool" where
  "holds r b cs \<longleftrightarrow> (\<exists>b'. r = Inr b' \<and> bs_ok b' \<and> bs_max_size b' = bs_max_size b \<and> bs_contents b' = cs)"

lemma assign_holds:
  assumes "length cs \<le> bs_max_size b"
  shows "holds (rbind (store (bs_range b) 0 cs) (\<lambda>r. Inr (b\<lparr>bs_range := r, bs_length := length cs\<rparr>))) b cs"
  using assms by (simp add: holds_def store_Inr bs_ok_def bs_max_size_def bs_contents_def)

lemma bs_assign_fill_holds:
  "bs_assign_fill b n c = Inl Assert_failed \<longleftrightarrow> bs_max_size b < n"
  "n \<le> bs_max_size b \<Longrightarrow> holds (bs_assign_fill b n c) b (replicate n c)"
  by (auto simp: bs_assign_fill_def holds_def bs_ok_def bs_max_size_def bs_contents_def really_assert_def)

lemma bs_assign_string_holds:
  assumes "bs_ok other"
  shows "bs_assign_string b other = Inl Assert_failed \<longleftrightarrow> bs_max_size b < length (bs_contents other)"
    and "length (bs_contents other) \<le> bs_max_size b \<Longrightarrow> holds (bs_assign_string b other) b (bs_contents other)"
proof -
  have len: "length (bs_contents other) = bs_length other" using assms by simp
  have eq: "bs_assign_string b other = really_assert (length (bs_contents other) \<le> bs_max_size b)
      (rbind (store (bs_range b) 0 (bs_contents other))
        (\<lambda>r. Inr (b\<lparr>bs_range := r, bs_length := length (bs_contents other)\<rparr>)))"
    unfolding bs_assign_string_def len by (simp add: bs_size_def bs_max_size_def bs_contents_def)
  show "length (bs_contents other) \<le> bs_max_size b \<Longrightarrow> holds (bs_assign_string b other) b (bs_contents other)"
    unfolding eq by (simp add: assign_holds del: length_bs_contents)
  then show "bs_assign_string b other = Inl Assert_failed \<longleftrightarrow> bs_max_size b < length (bs_contents other)"
    unfolding eq by (auto simp: holds_def really_assert_def)
qed

lemma bs_assign_chars_holds:
  "count \<le> bs_max_size b \<Longrightarrow> count \<le> length s \<Longrightarrow> holds (bs_assign_chars b s count) b (take count s)"
  using assign_holds [of "take count s" b] by (simp add: bs_assign_chars_def bs_max_size_def)

text \<open>
  \<open>assign(other, pos, count)\<close> takes \<open>count\<close> at most the size of the other string, not what is left of
  it from \<open>pos\<close> on: with the default \<open>npos\<close> it copies \<open>size()\<close> characters from \<open>pos\<close>.
\<close>

lemma bs_assign_substring_holds:
  assumes "bs_ok other" "min count (bs_length other) \<le> bs_max_size b"
  shows "pos + min count (bs_length other) \<le> bs_max_size other \<Longrightarrow>
      holds (bs_assign_substring b other pos count) b (take (min count (bs_length other)) (drop pos (bs_range other)))"
    and "bs_max_size other < pos + min count (bs_length other) \<Longrightarrow>
      bs_assign_substring b other pos count = Inl Out_of_bounds"
  using assms assign_holds [of "take (min count (bs_length other)) (drop pos (bs_range other))" b]
  by (auto simp: bs_assign_substring_def bs_max_size_def Let_def bs_size_def)

lemma bs_assign_range_loop_eq:
  "len \<le> length cells \<Longrightarrow> bs_assign_range_loop cells len cs =
     (let n = min (length cs) (length cells - len) in (take len cells @ take n cs @ drop (len + n) cells, len + n))"
proof (induction cs arbitrary: cells len)
  case (Cons c cs)
  show ?case
  proof (cases "len = length cells")
    case False
    then obtain m where m: "length cells = Suc (len + m)"
      using Cons.prems less_iff_Suc_add [of len "length cells"] by auto
    then show ?thesis using Cons.IH [of "Suc len" "cells[len := c]"]
      by (simp add: Let_def take_Suc_conv_app_nth drop_update_cancel take_update_cancel)
  qed simp
qed simp

lemma bs_assign_range_contents:
  "bs_contents (bs_assign_range b cs) = take (bs_max_size b) cs" "bs_ok (bs_assign_range b cs)"
  by (simp_all add: bs_assign_range_def bs_assign_range_loop_eq Let_def bs_contents_def bs_ok_def bs_max_size_def min_def)

lemma bs_move_up_Inr:
  assumes "bs_ok b" "i \<le> bs_length b" "bs_length b + n \<le> bs_max_size b"
  shows "bs_move_up b i n = Inr \<lparr>bs_range = take (i + n) (bs_range b) @ drop i (bs_contents b) @
           drop (bs_length b + n) (bs_range b), bs_length = bs_length b + n\<rparr>"
  using assms
  by (simp add: bs_move_up_def memmove_Inr bs_max_size_def bs_ok_def bs_contents_def drop_take add.commute)

lemma size_diff_le: "b \<le> a \<Longrightarrow> a < 2 ^ 64 \<Longrightarrow> size_diff a b = a - b"
  by (simp add: size_diff_def nat_diff_distrib flip: of_nat_diff)

lemma bs_move_down_Inr:
  assumes "bs_ok b" "bs_max_size b < 2 ^ 64" "i + n \<le> bs_length b"
  shows "bs_move_down b i n = Inr \<lparr>bs_range = take i (bs_range b) @ drop (i + n) (bs_contents b) @
           drop (bs_length b - n) (bs_range b), bs_length = bs_length b - n\<rparr>"
proof -
  have l: "bs_length b \<le> length (bs_range b)" "length (bs_range b) < 2 ^ 64" "bs_length b < 2 ^ 64" "i + n < 2 ^ 64"
    using assms by (simp_all add: bs_ok_def bs_max_size_def)
  have d: "size_diff (bs_length b) i = bs_length b - i" "size_diff (bs_length b) n = bs_length b - n"
    "size_diff (bs_length b - i) n = bs_length b - i - n"
    using assms(3) l by (simp_all add: size_diff_le)
  show ?thesis
  proof (cases "bs_length b - i - n = 0")
    case True
    then have e: "bs_length b = i + n" using assms(3) by simp
    then show ?thesis using True l d by (simp add: bs_move_down_def bs_contents_def Let_def)
  next
    case False
    then show ?thesis using assms(3) l d
      by (simp add: bs_move_down_def memmove_Inr bs_contents_def drop_take Let_def)
  qed
qed

lemma inserted_holds:
  assumes "bs_ok b" "i \<le> bs_length b" "bs_length b + length cs \<le> bs_max_size b"
  shows "\<exists>b' r. bs_move_up b i (length cs) = Inr b' \<and> store (bs_range b') i cs = Inr r \<and>
    bs_ok (b'\<lparr>bs_range := r\<rparr>) \<and> length r = bs_max_size b \<and>
    bs_contents (b'\<lparr>bs_range := r\<rparr>) = take i (bs_contents b) @ cs @ drop i (bs_contents b)"
proof -
  let ?r = "take (i + length cs) (bs_range b) @ drop i (bs_contents b) @ drop (bs_length b + length cs) (bs_range b)"
  have len: "length ?r = bs_max_size b" "i + length cs \<le> length ?r"
    using assms by (simp_all add: bs_max_size_def)
  have move: "bs_move_up b i (length cs) = Inr \<lparr>bs_range = ?r, bs_length = bs_length b + length cs\<rparr>"
    using assms by (rule bs_move_up_Inr)
  have "take i ?r @ cs @ drop (i + length cs) ?r =
    (take i (bs_contents b) @ cs @ drop i (bs_contents b)) @ drop (bs_length b + length cs) (bs_range b)"
    using assms by (simp add: bs_contents_def min_absorb1 bs_max_size_def)
  then show ?thesis
    using move len assms by (simp add: store_Inr bs_ok_def bs_max_size_def bs_contents_def min_absorb1)
qed

lemma bs_insert_fill_holds:
  assumes "bs_ok b" "i \<le> bs_length b"
  shows "bs_insert_fill b i n c = Inl Assert_failed \<longleftrightarrow> bs_max_size b < bs_length b + n"
    and "bs_length b + n \<le> bs_max_size b \<Longrightarrow>
      holds (bs_insert_fill b i n c) b (take i (bs_contents b) @ replicate n c @ drop i (bs_contents b))"
  using inserted_holds [OF assms, of "replicate n c"]
  by (auto simp: bs_insert_fill_def holds_def bs_max_size_def really_assert_def)

lemma bs_insert_chars_holds:
  assumes "bs_ok b" "i \<le> bs_length b" "n \<le> length s"
  shows "bs_insert_chars b i s n = Inl Assert_failed \<longleftrightarrow> bs_max_size b < bs_length b + n"
    and "bs_length b + n \<le> bs_max_size b \<Longrightarrow>
      holds (bs_insert_chars b i s n) b (take i (bs_contents b) @ take n s @ drop i (bs_contents b))"
  using inserted_holds [OF assms(1,2), of "take n s"] assms(3)
  by (auto simp: bs_insert_chars_def holds_def bs_max_size_def really_assert_def min_absorb2)

lemma bs_insert_string_holds:
  assumes "bs_ok b" "i \<le> bs_length b" "bs_ok other"
  shows "bs_insert_string b i other = Inl Assert_failed \<longleftrightarrow> bs_max_size b < bs_length b + bs_length other"
    and "bs_length b + bs_length other \<le> bs_max_size b \<Longrightarrow>
      holds (bs_insert_string b i other) b (take i (bs_contents b) @ bs_contents other @ drop i (bs_contents b))"
  using inserted_holds [OF assms(1,2), of "bs_contents other"] assms(3)
  by (auto simp: bs_insert_string_def holds_def bs_max_size_def really_assert_def bs_size_def)

lemma bs_insert_char_at_result:
  assumes "bs_ok b" "i \<le> bs_length b" "bs_length b < bs_max_size b"
  shows "\<exists>b'. bs_insert_char_at b i c = Inr (b', i + 1) \<and>
    holds (Inr b') b (take i (bs_contents b) @ [c] @ drop i (bs_contents b))"
  using inserted_holds [OF assms(1,2), of "[c]"] assms(3)
  by (auto simp: bs_insert_char_at_def holds_def bs_max_size_def)

text \<open>The range overload inserts what fits and drops the rest of the inserted characters.\<close>

lemma bs_insert_range_at_result:
  assumes "bs_ok b" "i \<le> bs_length b"
  shows "\<exists>b'. let n = min (bs_max_size b - bs_length b) (length cs) in
    bs_insert_range_at b i cs = Inr (b', i + n) \<and>
    holds (Inr b') b (take i (bs_contents b) @ take n cs @ drop i (bs_contents b))"
proof -
  let ?n = "min (bs_max_size b - bs_length b) (length cs)"
  have n: "length (take ?n cs) = ?n" "bs_length b + length (take ?n cs) \<le> bs_max_size b"
    using assms by (simp_all add: bs_ok_def)
  show ?thesis
    using inserted_holds [OF assms n(2)] n(1)
    by (auto simp: bs_insert_range_at_def holds_def bs_max_size_def Let_def)
qed

lemma removed_holds:
  assumes "bs_ok b" "bs_max_size b < 2 ^ 64" "i + n \<le> bs_length b"
  shows "holds (bs_move_down b i n) b (take i (bs_contents b) @ drop (i + n) (bs_contents b))"
proof -
  let ?keep = "take i (bs_contents b) @ drop (i + n) (bs_contents b)"
  have "take i (bs_range b) = take i (bs_contents b)"
    using assms by (simp add: bs_contents_def min_absorb1)
  then have "bs_move_down b i n = Inr \<lparr>bs_range = ?keep @ drop (bs_length b - n) (bs_range b), bs_length = bs_length b - n\<rparr>"
    using bs_move_down_Inr [OF assms] by simp
  moreover have "length ?keep = bs_length b - n" using assms by simp
  ultimately show ?thesis
    using assms by (simp add: holds_def bs_contents_def bs_ok_def bs_max_size_def)
qed

lemma bs_erase_holds:
  assumes "bs_ok b" "bs_max_size b < 2 ^ 64" "i \<le> bs_length b"
  shows "holds (bs_erase b i n) b (take i (bs_contents b) @ drop (i + n) (bs_contents b))"
proof -
  have "size_diff (bs_length b) i = bs_length b - i"
    using assms by (intro size_diff_le) (auto simp: bs_ok_def)
  then show ?thesis using removed_holds [of b i "min n (bs_length b - i)"] assms
    by (cases "n \<le> bs_length b - i") (simp_all add: bs_erase_def min_def Let_def)
qed

text \<open>Erasing the rest of the string behind the end, as \<open>erase(index)\<close> with its default count does, moves nothing
  and sets the length to the index: the string becomes longer, even than its range.\<close>

lemma bs_erase_behind_end:
  assumes "bs_ok b" "bs_length b < i" "i < 2 ^ 64" "2 ^ 64 + bs_length b - i \<le> count"
  shows "bs_erase b i count = Inr (b\<lparr>bs_length := i\<rparr>)"
proof -
  have "(int (bs_length b) - int i) mod 2 ^ 64 = 2 ^ 64 + int (bs_length b) - int i"
    using assms(2,3) by (intro int_mod_pos_eq [where q = "- 1"]) simp_all
  then have d: "size_diff (bs_length b) i = 2 ^ 64 + bs_length b - i"
    using assms(2,3) by (simp add: size_diff_def nat_diff_distrib nat_add_distrib)
  have "size_diff (bs_length b) (2 ^ 64 + bs_length b - i) = nat ((int i - 2 ^ 64) mod 2 ^ 64)"
    using assms(2,3) by (simp add: size_diff_def of_nat_diff)
  also have "(int i - 2 ^ 64) mod 2 ^ 64 = int i" using assms(3) by (intro int_mod_pos_eq [where q = "- 1"]) simp_all
  finally have e: "size_diff (bs_length b) (2 ^ 64 + bs_length b - i) = i" by simp
  have "size_diff x x = 0" for x by (simp add: size_diff_def)
  then show ?thesis using assms(4) d e by (simp add: bs_erase_def bs_move_down_def min_absorb2)
qed

lemma bs_push_back_holds:
  assumes "bs_ok b"
  shows "bs_push_back b c = Inl Assert_failed \<longleftrightarrow> bs_full b"
    and "\<not> bs_full b \<Longrightarrow> holds (bs_push_back b c) b (bs_contents b @ [c])"
  using assms
  by (auto simp: bs_push_back_def holds_def bs_full_def bs_ok_def bs_max_size_def bs_contents_def
      take_Suc_conv_app_nth really_assert_def)

lemma bs_pop_back_holds:
  assumes "bs_ok b"
  shows "bs_pop_back b = Inl Assert_failed \<longleftrightarrow> bs_contents b = []"
    and "bs_contents b \<noteq> [] \<Longrightarrow> holds (bs_pop_back b) b (butlast (bs_contents b))"
  using assms
  by (auto simp: bs_pop_back_def holds_def bs_ok_def bs_max_size_def bs_contents_def butlast_take really_assert_def)

lemma append_loop_holds:
  "bs_ok b \<Longrightarrow> bs_length b + length cs \<le> bs_max_size b \<Longrightarrow> holds (append_loop b cs) b (bs_contents b @ cs)"
  by (simp add: append_loop_Inr holds_def bs_ok_def bs_max_size_def bs_contents_def min_absorb1)

lemma bs_append_chars_holds:
  assumes "bs_ok b" "n \<le> length s"
  shows "bs_append_chars b s n = Inl Assert_failed \<longleftrightarrow> bs_max_size b < bs_length b + n"
    and "bs_length b + n \<le> bs_max_size b \<Longrightarrow> holds (bs_append_chars b s n) b (bs_contents b @ take n s)"
  using append_loop_holds [of b "take n s"] assms
  by (auto simp: bs_append_chars_def holds_def really_assert_def min_absorb2)

lemma bs_append_fill_holds:
  "bs_ok b \<Longrightarrow> bs_length b + n \<le> bs_max_size b \<Longrightarrow> holds (bs_append_fill b n c) b (bs_contents b @ replicate n c)"
  using append_loop_holds [of b "replicate n c"] by (simp add: bs_append_fill_def)

lemma bs_append_range_contents:
  "bs_ok b \<Longrightarrow> bs_ok (bs_append_range b cs) \<and> bs_max_size (bs_append_range b cs) = bs_max_size b \<and>
   bs_contents (bs_append_range b cs) = take (bs_max_size b) (bs_contents b @ cs)"
proof (induction cs arbitrary: b)
  case Nil
  then show ?case by (simp add: bs_ok_def)
next
  case (Cons c cs)
  show ?case
  proof (cases "bs_length b = bs_max_size b")
    case True
    then show ?thesis using Cons.prems by simp
  next
    case False
    let ?b = "b\<lparr>bs_range := (bs_range b)[bs_length b := c], bs_length := Suc (bs_length b)\<rparr>"
    have "bs_ok ?b" "bs_max_size ?b = bs_max_size b" "bs_contents ?b = bs_contents b @ [c]"
      using False Cons.prems by (auto simp: bs_ok_def bs_max_size_def bs_contents_def take_Suc_conv_app_nth)
    then show ?thesis using False Cons.IH [of ?b] by simp
  qed
qed

lemma length_memmove:
  "memmove d s n cells = Inr r \<Longrightarrow> length r = length cells"
  by (simp add: memmove_def in_bounds_Inr) auto

lemma bs_replace_impl_holds:
  assumes "bs_ok b" "pos + count1 \<le> bs_length b" "count2 \<le> length s"
    and "bs_length b - count1 + count2 \<le> bs_max_size b" "bs_length b - count1 + count2 < 2 ^ 64"
  shows "bs_length b + 2 * pos \<le> bs_max_size b \<Longrightarrow> bs_length b - count1 + count2 + 2 * pos \<le> bs_max_size b \<Longrightarrow>
      holds (bs_replace_impl b pos count1 s count2) b
        (take pos (bs_contents b) @ take count2 s @ drop (pos + count1) (bs_contents b))"
    and "bs_max_size b < bs_length b + 2 * pos \<or> bs_max_size b < bs_length b - count1 + count2 + 2 * pos \<Longrightarrow>
      bs_replace_impl b pos count1 s count2 = Inl Out_of_bounds"
proof -
  let ?n = "bs_length b - count1 + pos" and ?xs = "bs_range b"
  have eq: "(int (bs_length b) - int count1 + int count2) = int (bs_length b - count1 + count2)"
    using assms(2) by simp
  have "int (bs_length b - count1 + count2) mod 2 ^ 64 = int ((bs_length b - count1 + count2) mod 2 ^ 64)"
    by (simp only: zmod_int of_nat_power of_nat_numeral)
  also have "\<dots> = int (bs_length b - count1 + count2)"
    by (simp only: mod_less [OF assms(5)])
  finally have id: "int (bs_length b - count1 + count2) mod 2 ^ 64 = int (bs_length b - count1 + count2)" .
  have fits: "(int (bs_length b) - int count1 + int count2) mod 2 ^ 64 \<le> int (bs_max_size b)"
    unfolding eq id using assms(4) by (simp only: of_nat_le_iff)
  have rep: "bs_replace_impl b pos count1 s count2 =
    rbind (memmove (pos + count2) (pos + count1) ?n ?xs)
      (\<lambda>r. rbind (store r pos (take count2 s))
        (\<lambda>r. Inr (b\<lparr>bs_range := r, bs_length := bs_length b - count1 + count2\<rparr>)))"
    using fits assms(2,3) by (simp add: bs_replace_impl_def)
  show "bs_replace_impl b pos count1 s count2 = Inl Out_of_bounds"
    if "bs_max_size b < bs_length b + 2 * pos \<or> bs_max_size b < bs_length b - count1 + count2 + 2 * pos"
  proof -
    have "memmove (pos + count2) (pos + count1) ?n ?xs = Inl Out_of_bounds"
      using that assms(2) by (auto simp: memmove_def bs_max_size_def in_bounds_def)
    then show ?thesis by (simp add: rep)
  qed
  assume room: "bs_length b + 2 * pos \<le> bs_max_size b" "bs_length b - count1 + count2 + 2 * pos \<le> bs_max_size b"
  let ?m = "take (pos + count2) ?xs @ take ?n (drop (pos + count1) ?xs) @ drop (pos + count2 + ?n) ?xs"
  have move: "memmove (pos + count2) (pos + count1) ?n ?xs = Inr ?m"
    using room assms(2) by (intro memmove_Inr) (simp_all add: bs_max_size_def)
  have len: "length ?m = bs_max_size b"
    using length_memmove [OF move] by (simp add: bs_max_size_def)
  have "store ?m pos (take count2 s) = Inr (take pos ?m @ take count2 s @ drop (pos + count2) ?m)"
    using store_Inr [of pos "take count2 s" ?m] room assms(3) len by (simp add: min_absorb2)
  moreover have "drop (pos + count2) ?m = take ?n (drop (pos + count1) ?xs) @ drop (pos + count2 + ?n) ?xs"
    using room by (simp add: bs_max_size_def)
  moreover have "take pos ?m = take pos ?xs"
    using room by (simp add: bs_max_size_def min_absorb1)
  ultimately have result: "bs_replace_impl b pos count1 s count2 =
    Inr \<lparr>bs_range = take pos ?xs @ take count2 s @ take ?n (drop (pos + count1) ?xs) @ drop (pos + count2 + ?n) ?xs,
         bs_length = bs_length b - count1 + count2\<rparr>"
    using rep move by simp
  have "take (bs_length b - (count1 + pos)) (take ?n (drop (pos + count1) ?xs)) = drop (pos + count1) (bs_contents b)"
    by (simp add: bs_contents_def drop_take min_absorb1 add.commute)
  then show "holds (bs_replace_impl b pos count1 s count2) b
      (take pos (bs_contents b) @ take count2 s @ drop (pos + count1) (bs_contents b))"
    unfolding holds_def result using room assms
    by (simp add: bs_ok_def bs_max_size_def bs_contents_def min_absorb1 min_absorb2 diff_diff_left)
qed

lemma bs_substr_result:
  assumes "bs_ok b"
  shows "bs_substr b pos count = Inl Assert_failed \<longleftrightarrow> bs_length b < pos"
    and "pos \<le> bs_length b \<Longrightarrow> \<exists>b'. bs_substr b pos count = Inr b' \<and> bs_ok b' \<and>
      bs_contents b' = take count (drop pos (bs_contents b))"
  using assms
  by (auto simp: bs_substr_def really_assert_def Let_def bs_of_chars_def bs_ok_def bs_max_size_def bs_contents_def
      drop_take min_def)

lemma bs_resize_holds:
  assumes "bs_ok b"
  shows "bs_resize b n c = Inl Assert_failed \<longleftrightarrow> bs_max_size b < n"
    and "n \<le> bs_max_size b \<Longrightarrow>
      holds (bs_resize b n c) b (take n (bs_contents b) @ replicate (n - bs_length b) c)"
  using assms
  by (auto simp: bs_resize_def holds_def really_assert_def bs_ok_def bs_max_size_def bs_contents_def store_Inr
      min_absorb1 split: if_splits)

lemma bs_shrink_contents:
  "bs_ok b \<Longrightarrow> bs_contents (bs_shrink b n) = take n (bs_contents b) \<and> bs_ok (bs_shrink b n)"
  by (auto simp: bs_shrink_def bs_contents_def bs_ok_def bs_max_size_def min_def)

lemma copy_cells_Inr:
  "i + n \<le> length f \<Longrightarrow> i + n \<le> length g \<Longrightarrow>
   copy_cells f g i n = Inr (take i f @ take n (drop i g) @ drop (i + n) f)"
proof (induction n arbitrary: f i)
  case (Suc n)
  have "take (Suc n) (drop i g) = g ! i # take n (drop (Suc i) g)"
    using Suc.prems by (simp add: take_Suc_conv_app_nth Cons_nth_drop_Suc [symmetric])
  then show ?case
    using Suc by (simp add: take_Suc_conv_app_nth drop_update_cancel take_update_cancel)
qed simp

lemma swap_common:
  assumes "n \<le> m" "m \<le> length xs" "m \<le> length ys"
  shows "copy_cells (take n ys @ drop n xs) (take n xs @ drop n ys) n (m - n) = Inr (take m ys @ drop m xs)"
proof -
  have "take n (take n ys @ drop n xs) @ take (m - n) (drop n (take n xs @ drop n ys)) @ drop m (take n ys @ drop n xs)
      = (take n ys @ take (m - n) (drop n ys)) @ drop m xs"
    using assms by simp
  also have "take n ys @ take (m - n) (drop n ys) = take m ys"
    using assms take_add [of n "m - n" ys] by simp
  finally show ?thesis
    using copy_cells_Inr [of n "m - n" "take n ys @ drop n xs" "take n xs @ drop n ys"] assms by simp
qed

lemma bs_swap_holds:
  assumes "bs_ok b" "bs_ok other" "bs_length other \<le> bs_max_size b" "bs_length b \<le> bs_max_size other"
  shows "\<exists>b' other'. bs_swap b other = Inr (b', other') \<and> holds (Inr b') b (bs_contents other) \<and>
    holds (Inr other') other (bs_contents b)"
proof (cases "bs_length b \<le> bs_length other")
  case True
  have "copy_cells (take (bs_length b) (bs_range other) @ drop (bs_length b) (bs_range b))
      (take (bs_length b) (bs_range b) @ drop (bs_length b) (bs_range other)) (bs_length b) (bs_length other - bs_length b)
    = Inr (take (bs_length other) (bs_range other) @ drop (bs_length other) (bs_range b))"
    using True assms by (intro swap_common) (simp_all add: bs_ok_def bs_max_size_def)
  then show ?thesis using True assms
    by (simp add: bs_swap_def Let_def bs_size_def min_absorb1 holds_def bs_ok_def bs_max_size_def bs_contents_def)
next
  case False
  have "copy_cells (take (bs_length other) (bs_range b) @ drop (bs_length other) (bs_range other))
      (take (bs_length other) (bs_range other) @ drop (bs_length other) (bs_range b))
      (bs_length other) (bs_length b - bs_length other)
    = Inr (take (bs_length b) (bs_range b) @ drop (bs_length b) (bs_range other))"
    using False assms by (intro swap_common) (simp_all add: bs_ok_def bs_max_size_def)
  then show ?thesis using False assms
    by (simp add: bs_swap_def Let_def bs_size_def min_absorb2 holds_def bs_ok_def bs_max_size_def bs_contents_def)
qed

section \<open>What searching and comparing find\<close>

lemma compare_impl_zero [simp]: "compare_impl sc xs ys = 0 \<longleftrightarrow> xs = ys"
  by (induction sc xs ys rule: compare_impl.induct) auto

lemma compare_impl_less:
  "compare_impl sc xs ys < 0 \<longleftrightarrow> lexicographical_compare (map (char_value sc) xs) (map (char_value sc) ys)"
proof (induction sc xs ys rule: compare_impl.induct)
  case (1 sc x xs y ys)
  then show ?case by (auto simp: not_less order_less_le)
qed auto

definition occurs_at :: "string \<Rightarrow> string \<Rightarrow> nat \<Rightarrow> bool" where
  "occurs_at xs s i \<longleftrightarrow> i + length s \<le> length xs \<and> take (length s) (drop i xs) = s"

lemma occurs_at_prefix: "i \<le> length xs \<Longrightarrow> occurs_at xs s i \<longleftrightarrow> prefix s (drop i xs)"
proof
  assume "i \<le> length xs" "prefix s (drop i xs)"
  then obtain zs where zs: "drop i xs = s @ zs" by (auto simp: prefix_def)
  then have "length xs - i = length s + length zs" by (metis length_append length_drop)
  then show "occurs_at xs s i" using zs \<open>i \<le> length xs\<close> by (simp add: occurs_at_def)
qed (metis occurs_at_def take_is_prefix)

lemma bs_find_loop_Some:
  "bs_find_loop xs s i = Some j \<longleftrightarrow> i \<le> j \<and> occurs_at xs s j \<and> (\<forall>k. i \<le> k \<and> k < j \<longrightarrow> \<not> occurs_at xs s k)"
proof (induction xs s i rule: bs_find_loop.induct)
  case (1 xs s i)
  have le: "k = i \<or> Suc i \<le> k" if "i \<le> k" for k using that by auto
  show ?case
  proof (cases "occurs_at xs s i")
    case True
    then have "bs_find_loop xs s i = Some i"
      by (simp add: bs_find_loop.simps [of xs s i] occurs_at_def)
    then show ?thesis using True by (auto dest: le_neq_implies_less)
  next
    case False
    show ?thesis
    proof (cases "i + length s \<le> length xs")
      case fits: True
      have "bs_find_loop xs s i = bs_find_loop xs s (Suc i)"
        using False fits by (simp add: bs_find_loop.simps [of xs s i] occurs_at_def)
      moreover have "bs_find_loop xs s (Suc i) = Some j \<longleftrightarrow>
          Suc i \<le> j \<and> occurs_at xs s j \<and> (\<forall>k. Suc i \<le> k \<and> k < j \<longrightarrow> \<not> occurs_at xs s k)"
        using False fits by (intro 1) (auto simp: occurs_at_def)
      ultimately show ?thesis using False le by (metis Suc_le_lessD less_imp_le_nat)
    next
      case False
      then show ?thesis by (auto simp: bs_find_loop.simps [of xs s i] occurs_at_def)
    qed
  qed
qed

lemma bs_rfind_loop_Some:
  "bs_rfind_loop xs s n = Some j \<longleftrightarrow> j < n \<and> take (length s) (drop j xs) = s \<and>
    (\<forall>k. j < k \<and> k < n \<longrightarrow> take (length s) (drop k xs) \<noteq> s)"
  by (induction n) (auto simp: less_Suc_eq)

lemma find_forward_Some:
  "find_forward P xs i = Some j \<longleftrightarrow> i \<le> j \<and> j < i + length xs \<and> P (xs ! (j - i)) \<and> (\<forall>k < j - i. \<not> P (xs ! k))"
proof (induction xs arbitrary: i)
  case (Cons x xs)
  show ?case
  proof (cases "P x")
    case False
    show ?thesis
    proof (cases "j \<le> i")
      case False
      then obtain m where "j = Suc (i + m)" using less_iff_Suc_add [of i j] by auto
      then show ?thesis using \<open>\<not> P x\<close> Cons.IH [of "Suc i"]
        by (auto simp: nth_Cons split: nat.splits)
    qed (use False Cons.IH [of "Suc i"] in auto)
  next
    case True
    have "i = j" if "i \<le> j" "\<forall>k<j - i. \<not> P ((x # xs) ! k)" for j
      using that True by (cases "j - i") auto
    then show ?thesis using True by auto
  qed
qed simp

lemma find_backward_Some:
  "find_backward P xs n = Some j \<longleftrightarrow> j < n \<and> P (xs ! j) \<and> (\<forall>k. j < k \<and> k < n \<longrightarrow> \<not> P (xs ! k))"
  by (induction n) (auto simp: less_Suc_eq)

lemma bs_equal_iff:
  "bs_ok x \<Longrightarrow> bs_ok y \<Longrightarrow> bs_equal x y \<longleftrightarrow> bs_contents x = bs_contents y"
  by (metis bs_equal_def bs_size_def length_bs_contents)

lemma prefix_take_iff:
  "n \<le> length s \<Longrightarrow> prefix (take n s) xs \<longleftrightarrow> n \<le> length xs \<and> take n xs = take n s"
proof
  assume "n \<le> length s" "prefix (take n s) xs"
  then show "n \<le> length xs \<and> take n xs = take n s"
    by (auto simp: prefix_def min_absorb2)
qed (metis take_is_prefix)

lemma bs_starts_with_iff:
  assumes "bs_ok b" "count \<le> length s"
  shows "bs_starts_with b s count = Inr (prefix (take count s) (bs_contents b))"
proof -
  have "bs_starts_with b s count = Inr (bs_equal (bs_of_chars (bs_range b) (min count (bs_length b))) (bs_of_chars s count))"
    using assms by (simp add: bs_starts_with_def bs_substr_def Let_def)
  moreover have "bs_equal (bs_of_chars (bs_range b) (min count (bs_length b))) (bs_of_chars s count) \<longleftrightarrow>
      count \<le> bs_length b \<and> take count (bs_contents b) = take count s"
    by (auto simp: bs_equal_def bs_of_chars_def bs_size_def bs_contents_def min_def)
  ultimately show ?thesis using assms by (simp add: prefix_take_iff)
qed

lemma bs_ends_with_iff:
  assumes "bs_ok b" "count \<le> length s"
  shows "bs_ends_with b s count = Inr (suffix (take count s) (bs_contents b))"
proof (cases "count \<le> bs_length b")
  case False
  then have "\<not> suffix (take count s) (bs_contents b)"
    using assms suffix_length_le [of "take count s" "bs_contents b"] by (auto simp: min_absorb2)
  then show ?thesis using False by (simp add: bs_ends_with_def)
next
  case True
  let ?d = "bs_length b - count"
  have part: "take count (drop ?d (bs_range b)) = drop ?d (bs_contents b)"
    using True by (simp add: bs_contents_def drop_take)
  have "bs_ends_with b s count = Inr (drop ?d (bs_contents b) = take count s)"
    using True assms part
    by (simp add: bs_ends_with_def bs_substr_def Let_def bs_equal_def bs_of_chars_def bs_size_def bs_contents_def)
  moreover have "drop ?d (bs_contents b) = take count s \<longleftrightarrow> suffix (take count s) (bs_contents b)"
    using True assms by (metis (no_types, lifting) append_take_drop_id diff_diff_cancel length_bs_contents
        length_drop length_take min.absorb2 suffix_def suffix_drop same_suffix_suffix append_eq_append_conv)
  ultimately show ?thesis by simp
qed

section \<open>Refinement of a bounded text\<close>

datatype text_op =
    Text_assign string | Text_assign_range string | Text_insert nat string | Text_insert_fill nat nat char
  | Text_insert_range nat string | Text_erase nat nat | Text_push char | Text_pop | Text_append string
  | Text_append_range string | Text_resize nat char | Text_shrink nat | Text_clear

fun text_step :: "text_op \<Rightarrow> nat \<times> string \<Rightarrow> (nat \<times> string) result" where
  "text_step (Text_assign cs) (m, xs) = really_assert (length cs \<le> m) (Inr (m, cs))"
| "text_step (Text_assign_range cs) (m, xs) = Inr (m, take m cs)"
| "text_step (Text_insert i cs) (m, xs) = really_assert (length xs + length cs \<le> m)
     (in_bounds (i \<le> length xs) (Inr (m, take i xs @ cs @ drop i xs)))"
| "text_step (Text_insert_fill i n c) (m, xs) = really_assert (length xs + n \<le> m)
     (in_bounds (i \<le> length xs) (Inr (m, take i xs @ replicate n c @ drop i xs)))"
| "text_step (Text_insert_range i cs) (m, xs) =
     in_bounds (i \<le> length xs) (Inr (m, take i xs @ take (m - length xs) cs @ drop i xs))"
| "text_step (Text_erase i n) (m, xs) = Inr (m, take i xs @ drop (i + n) xs)"
| "text_step (Text_push c) (m, xs) = really_assert (length xs < m) (Inr (m, xs @ [c]))"
| "text_step Text_pop (m, xs) = really_assert (xs \<noteq> []) (Inr (m, butlast xs))"
| "text_step (Text_append cs) (m, xs) = really_assert (length xs + length cs \<le> m) (Inr (m, xs @ cs))"
| "text_step (Text_append_range cs) (m, xs) = Inr (m, take m (xs @ cs))"
| "text_step (Text_resize n c) (m, xs) = really_assert (n \<le> m) (Inr (m, take n xs @ replicate (n - length xs) c))"
| "text_step (Text_shrink n) (m, xs) = Inr (m, take n xs)"
| "text_step Text_clear (m, xs) = Inr (m, [])"

fun bs_step :: "text_op \<Rightarrow> bstr \<Rightarrow> bstr result" where
  "bs_step (Text_assign cs) b = bs_assign_std b cs"
| "bs_step (Text_assign_range cs) b = Inr (bs_assign_range b cs)"
| "bs_step (Text_insert i cs) b = bs_insert_std b i cs"
| "bs_step (Text_insert_fill i n c) b = bs_insert_fill b i n c"
| "bs_step (Text_insert_range i cs) b = rbind (bs_insert_range_at b i cs) (\<lambda>(b', _). Inr b')"
| "bs_step (Text_erase i n) b = bs_erase b i n"
| "bs_step (Text_push c) b = bs_push_back b c"
| "bs_step Text_pop b = bs_pop_back b"
| "bs_step (Text_append cs) b = bs_append_std b cs"
| "bs_step (Text_append_range cs) b = Inr (bs_append_range b cs)"
| "bs_step (Text_resize n c) b = bs_resize b n c"
| "bs_step (Text_shrink n) b = Inr (bs_shrink b n)"
| "bs_step Text_clear b = Inr (bs_clear b)"

definition bs_abs :: "bstr \<Rightarrow> nat \<times> string" where
  "bs_abs b = (bs_max_size b, bs_contents b)"

lemma holds_step:
  "holds r b cs \<Longrightarrow> map_sum id bs_abs r = Inr (bs_max_size b, cs) \<and> (\<forall>b'. r = Inr b' \<longrightarrow> bs_ok b')"
  by (auto simp: holds_def bs_abs_def)

lemma bs_move_up_outside: "\<not> i \<le> bs_length b \<Longrightarrow> bs_move_up b i n = Inl Out_of_bounds"
  by (simp add: bs_move_up_def)

text \<open>What the caller owes and the code does not check: an erasure starts within the text, and adding the count of a fill
  to the length does not wrap around.\<close>

fun text_pre :: "text_op \<Rightarrow> nat \<times> string \<Rightarrow> bool" where
  "text_pre (Text_erase i n) (m, xs) = (i \<le> length xs)"
| "text_pre (Text_insert_fill i n c) (m, xs) = (length xs + n < 2 ^ 64)"
| "text_pre x (m, xs) = True"

lemma bs_step_refines:
  assumes "bs_ok b" "bs_max_size b < 2 ^ 64" "text_pre x (bs_abs b)"
  shows "map_sum id bs_abs (bs_step x b) = text_step x (bs_abs b) \<and> (\<forall>b'. bs_step x b = Inr b' \<longrightarrow> bs_ok b')"
proof -
  note len = length_bs_contents [OF assms(1)]
  show ?thesis
  proof (cases x)
    case (Text_assign cs)
    show ?thesis
    proof (cases "length cs \<le> bs_max_size b")
      case True
      then have "holds (bs_assign_chars b cs (length cs)) b cs"
        using bs_assign_chars_holds [of "length cs" b cs] by simp
      from holds_step [OF this] show ?thesis using True Text_assign
        by (simp add: bs_assign_std_def bs_abs_def)
    next
      case False
      then show ?thesis using Text_assign
        by (simp add: bs_assign_std_def bs_assign_chars_def bs_abs_def bs_max_size_def)
    qed
  next
    case (Text_assign_range cs)
    have "bs_max_size (bs_assign_range b cs) = bs_max_size b"
      by (simp add: bs_assign_range_def bs_assign_range_loop_eq Let_def bs_max_size_def)
    then show ?thesis using Text_assign_range bs_assign_range_contents [of b cs] by (simp add: bs_abs_def)
  next
    case (Text_insert i cs)
    show ?thesis
    proof (cases "bs_length b + length cs \<le> bs_max_size b \<and> i \<le> bs_length b")
      case True
      then have "holds (bs_insert_chars b i cs (length cs)) b (take i (bs_contents b) @ cs @ drop i (bs_contents b))"
        using bs_insert_chars_holds(2) [OF assms(1), of i "length cs" cs] by simp
      from holds_step [OF this] show ?thesis using True Text_insert len
        by (simp add: bs_insert_std_def bs_abs_def)
    next
      case False
      then show ?thesis using Text_insert len bs_move_up_outside [of i b]
        by (auto simp: bs_insert_std_def bs_insert_chars_def bs_abs_def really_assert_def in_bounds_def)
    qed
  next
    case (Text_insert_fill i n c)
    show ?thesis
    proof (cases "bs_length b + n \<le> bs_max_size b \<and> i \<le> bs_length b")
      case True
      then have "holds (bs_insert_fill b i n c) b (take i (bs_contents b) @ replicate n c @ drop i (bs_contents b))"
        using bs_insert_fill_holds(2) [OF assms(1)] by simp
      from holds_step [OF this] show ?thesis using True Text_insert_fill len by (simp add: bs_abs_def)
    next
      case False
      then show ?thesis using Text_insert_fill len bs_move_up_outside [of i b]
        by (auto simp: bs_insert_fill_def bs_abs_def really_assert_def in_bounds_def)
    qed
  next
    case (Text_insert_range i cs)
    show ?thesis
    proof (cases "i \<le> bs_length b")
      case True
      obtain b' where b': "bs_insert_range_at b i cs = Inr (b', i + min (bs_max_size b - bs_length b) (length cs))"
        "holds (Inr b') b (take i (bs_contents b) @ take (min (bs_max_size b - bs_length b) (length cs)) cs @ drop i (bs_contents b))"
        using bs_insert_range_at_result [OF assms(1) True, of cs] by (auto simp: Let_def)
      from holds_step [OF b'(2)] show ?thesis using True Text_insert_range len b'(1)
        by (simp add: bs_abs_def) (metis min.commute take_all_iff take_take nle_le)
    next
      case False
      then show ?thesis using Text_insert_range len bs_move_up_outside [of i b]
        by (simp add: bs_insert_range_at_def bs_abs_def)
    qed
  next
    case (Text_erase i n)
    show ?thesis
    proof -
      have "i \<le> bs_length b" using assms(3) Text_erase len by (simp add: bs_abs_def)
      from holds_step [OF bs_erase_holds [OF assms(1,2) this, of n]] show ?thesis using Text_erase
        by (simp add: bs_abs_def)
    qed
  next
    case (Text_push c)
    show ?thesis
    proof (cases "bs_full b")
      case True
      then show ?thesis using Text_push bs_push_back_holds(1) [OF assms(1), of c] len
        by (auto simp: bs_abs_def bs_full_def)
    next
      case False
      from holds_step [OF bs_push_back_holds(2) [OF assms(1) this, of c]] show ?thesis using Text_push False len assms
        by (simp add: bs_abs_def bs_full_def bs_ok_def)
    qed
  next
    case Text_pop
    show ?thesis
    proof (cases "bs_contents b = []")
      case True
      then show ?thesis using Text_pop bs_pop_back_holds(1) [OF assms(1)] by (auto simp: bs_abs_def)
    next
      case False
      from holds_step [OF bs_pop_back_holds(2) [OF assms(1) False]] show ?thesis using Text_pop False by (simp add: bs_abs_def)
    qed
  next
    case (Text_append cs)
    show ?thesis
    proof (cases "bs_length b + length cs \<le> bs_max_size b")
      case True
      then have "holds (bs_append_chars b cs (length cs)) b (bs_contents b @ cs)"
        using bs_append_chars_holds(2) [OF assms(1), of "length cs" cs] by simp
      from holds_step [OF this] show ?thesis using True Text_append len by (simp add: bs_append_std_def bs_abs_def)
    next
      case False
      then show ?thesis using Text_append len by (simp add: bs_append_std_def bs_append_chars_def bs_abs_def)
    qed
  next
    case (Text_append_range cs)
    then show ?thesis using bs_append_range_contents [OF assms(1), of cs] by (simp add: bs_abs_def)
  next
    case (Text_resize n c)
    show ?thesis
    proof (cases "n \<le> bs_max_size b")
      case True
      from holds_step [OF bs_resize_holds(2) [OF assms(1) True, of c]] show ?thesis using Text_resize True len
        by (simp add: bs_abs_def)
    next
      case False
      then show ?thesis using Text_resize bs_resize_holds(1) [OF assms(1), of n c] by (auto simp: bs_abs_def)
    qed
  next
    case (Text_shrink n)
    have "bs_max_size (bs_shrink b n) = bs_max_size b" by (simp add: bs_shrink_def bs_max_size_def)
    then show ?thesis using Text_shrink bs_shrink_contents [OF assms(1), of n] by (simp add: bs_abs_def)
  next
    case Text_clear
    then show ?thesis by (simp add: bs_clear_def bs_abs_def bs_max_size_def bs_contents_def bs_ok_def)
  qed
qed

lemma bs_step_max_size:
  assumes "bs_ok b" "bs_max_size b < 2 ^ 64" "text_pre x (bs_abs b)" "bs_step x b = Inr b'"
  shows "bs_max_size b' = bs_max_size b"
proof -
  have "text_step x (bs_abs b) = Inr (bs_abs b')" using bs_step_refines [OF assms(1-3)] assms(4) by simp
  then show ?thesis
    by (cases x) (auto simp: bs_abs_def really_assert_Inr in_bounds_Inr)
qed

interpretation bs_ref: obliged_refinement "\<lambda>b. bs_ok b \<and> bs_max_size b < 2 ^ 64" bs_abs text_pre bs_step text_step
proof
  fix b b' x
  assume b: "bs_ok b \<and> bs_max_size b < 2 ^ 64" "text_pre x (bs_abs b)"
  show "map_sum id bs_abs (bs_step x b) = text_step x (bs_abs b)" using bs_step_refines b by blast
  show "bs_ok b' \<and> bs_max_size b' < 2 ^ 64" if "bs_step x b = Inr b'"
    using bs_step_refines bs_step_max_size b that by metis
qed

text \<open>C31: every sequence of edits of a \<open>BoundedString\<close> (assigning, inserting and appending characters,
  a repeated character or a range of iterators, erasing, \<open>push_back\<close>, \<open>pop_back\<close>, \<open>resize\<close>, \<open>shrink\<close>,
  \<open>clear\<close>) gives what the same edits give on a text of limited length: characters given by pointer that
  do not fit stop the program, characters given by iterators are cut off at the limit, and an
  insertion behind the end of the text leaves the storage. This is for sequences in which every erasure starts
  within the text, which the code does not check, and in which the count of a repeated character does not make
  the new length wrap around, and for storage of less than \<open>2 ^ 64\<close> characters.\<close>

theorem bounded_string_refines_text:
  assumes "bs_ok b" "bs_max_size b < 2 ^ 64" "run_obliged text_pre text_step es (bs_abs b)"
  shows "map_sum id bs_abs (run_ops bs_step es b) = run_ops text_step es (bs_abs b)"
  using assms by (intro bs_ref.run_simulates) simp_all

theorem bounded_string_refines_text_witness:
  "map_sum id bs_abs (run_ops bs_step [Text_append ''ac'', Text_insert 1 ''b'', Text_insert_range 0 ''xyz'', Text_erase 1 2]
      (bs_of_range ''-----'')) = Inr (5, ''xbc'')"
  using bounded_string_refines_text [of "bs_of_range ''-----''"
      "[Text_append ''ac'', Text_insert 1 ''b'', Text_insert_range 0 ''xyz'', Text_erase 1 2]"]
  by (simp add: bs_ok_def bs_of_range_def bs_abs_def bs_max_size_def bs_contents_def)

text \<open>C32: \<open>replace\<close> puts the new characters in the place of the old ones only when the range has
  \<open>2 * pos\<close> characters more than the string holds before and after; otherwise its first move leaves
  the range, although the result would fit: replacing one character by one in the middle of a full
  string reads and writes behind its storage.\<close>

theorem bounded_string_replace_overreaches:
  assumes "bs_ok b" "pos + count \<le> bs_length b" "count2 \<le> length s"
    and "bs_length b - count + count2 \<le> bs_max_size b" "bs_max_size b < 2 ^ 64"
  shows "if bs_length b + 2 * pos \<le> bs_max_size b \<and> bs_length b - count + count2 + 2 * pos \<le> bs_max_size b
    then holds (bs_replace_chars b pos count s count2) b
           (take pos (bs_contents b) @ take count2 s @ drop (pos + count) (bs_contents b))
    else bs_replace_chars b pos count s count2 = Inl Out_of_bounds"
proof -
  have "bs_length b - count + count2 < 2 ^ 64" using assms(4,5) by (rule order_le_less_trans)
  note bs_replace_impl_holds [OF assms(1-4) this]
  then show ?thesis by (auto simp: bs_replace_chars_def)
qed

theorem bounded_string_replace_overreaches_witness:
  "bs_replace_chars (bs_of_std ''abc'') 1 1 ''x'' 1 = Inl Out_of_bounds"
  using bounded_string_replace_overreaches [of "bs_of_std ''abc''" 1 1 1 "''x''"]
  by (simp add: bs_of_std_def bs_ok_def bs_max_size_def)

text \<open>\<open>find\<close> returns the first position from \<open>pos\<close> on at which the needle occurs, \<open>rfind\<close> the last one
  up to \<open>pos\<close>, and \<open>npos\<close> when there is none.\<close>

lemma bounded_string_find_positions:
  assumes "bs_ok b" "pos \<le> bs_length b" "count \<le> length s"
  shows "bs_find b s pos count = Inr (if \<exists>j \<ge> pos. occurs_at (bs_contents b) (take count s) j
      then Some (LEAST j. pos \<le> j \<and> occurs_at (bs_contents b) (take count s) j) else None) \<and>
    bs_rfind b s pos count = Inr (if \<exists>j \<le> pos. occurs_at (bs_contents b) (take count s) j
      then Some (GREATEST j. j \<le> pos \<and> occurs_at (bs_contents b) (take count s) j) else None)"
proof -
  let ?occ = "occurs_at (bs_contents b) (take count s)" and ?xs = "bs_contents b"
  have first: "bs_find_loop ?xs (take count s) pos = (if \<exists>j \<ge> pos. ?occ j then Some (LEAST j. pos \<le> j \<and> ?occ j) else None)"
  proof (cases "bs_find_loop ?xs (take count s) pos")
    case (Some j)
    then have "pos \<le> j" "?occ j" "\<And>k. pos \<le> k \<Longrightarrow> k < j \<Longrightarrow> \<not> ?occ k" by (auto simp: bs_find_loop_Some)
    then have "(LEAST j. pos \<le> j \<and> ?occ j) = j" by (intro Least_equality) (auto simp: not_less [symmetric])
    then show ?thesis using Some \<open>pos \<le> j\<close> \<open>?occ j\<close> by auto
  next
    case None
    have False if "pos \<le> j" "?occ j" for j
    proof -
      have "pos \<le> (LEAST j. pos \<le> j \<and> ?occ j) \<and> ?occ (LEAST j. pos \<le> j \<and> ?occ j)"
        using that by (intro LeastI [of "\<lambda>j. pos \<le> j \<and> ?occ j" j]) simp
      then have "bs_find_loop ?xs (take count s) pos = Some (LEAST j. pos \<le> j \<and> ?occ j)"
        unfolding bs_find_loop_Some by (auto dest: not_less_Least)
      with None show False by simp
    qed
    then show ?thesis using None by auto
  qed
  let ?n = "nat (min (int pos) (int (bs_length b) - int count) + 1)"
  have range: "j < ?n \<and> take (length (take count s)) (drop j ?xs) = take count s \<longleftrightarrow> j \<le> pos \<and> ?occ j" for j
    using assms by (auto simp: occurs_at_def min_absorb2)
  have last: "bs_rfind_loop ?xs (take count s) ?n = (if \<exists>j \<le> pos. ?occ j then Some (GREATEST j. j \<le> pos \<and> ?occ j) else None)"
  proof (cases "bs_rfind_loop ?xs (take count s) ?n")
    case (Some j)
    then have j: "j \<le> pos \<and> ?occ j" and later: "\<And>k. k \<le> pos \<and> ?occ k \<Longrightarrow> k \<le> j"
      unfolding bs_rfind_loop_Some using range by (auto simp: not_less [symmetric])
    then have "(GREATEST j. j \<le> pos \<and> ?occ j) = j" by (intro Greatest_equality) auto
    then show ?thesis using Some j by auto
  next
    case None
    have False if "j \<le> pos" "?occ j" for j
    proof -
      let ?g = "GREATEST j. j \<le> pos \<and> ?occ j"
      have g: "?g \<le> pos \<and> ?occ ?g" 
        using GreatestI_nat [of "\<lambda>j. j \<le> pos \<and> ?occ j" j pos] that by blast
      have "k \<le> ?g" if "k \<le> pos \<and> ?occ k" for k
        using Greatest_le_nat [of "\<lambda>j. j \<le> pos \<and> ?occ j" k pos] that by blast
      then have "\<forall>k. ?g < k \<and> k < ?n \<longrightarrow> take (length (take count s)) (drop k ?xs) \<noteq> take count s"
        using range by (meson not_less)
      with g have "bs_rfind_loop ?xs (take count s) ?n = Some ?g"
        unfolding bs_rfind_loop_Some using range by blast
      with None show False by simp
    qed
    then show ?thesis using None by auto
  qed
  show ?thesis using assms first last by (simp add: bs_find_def bs_rfind_def Let_def min_absorb1)
qed

lemma bounded_string_find_positions_witness:
  "bs_find (bs_of_std ''abab'') ''ab'' 1 2 = Inr (Some 2)"
proof -
  have "occurs_at ''abab'' ''ab'' 2" "\<not> occurs_at ''abab'' ''ab'' 1"
    by (simp_all add: occurs_at_def numeral_2_eq_2)
  then have "(LEAST j. 1 \<le> j \<and> occurs_at ''abab'' ''ab'' j) = 2"
    by (intro Least_equality) (auto simp: numeral_2_eq_2 not_less_eq_eq [symmetric] le_Suc_eq)
  with bounded_string_find_positions [of "bs_of_std ''abab''" 1 2 "''ab''"] \<open>occurs_at ''abab'' ''ab'' 2\<close>
  show ?thesis by (auto simp: bs_of_std_def bs_ok_def bs_max_size_def bs_contents_def intro!: exI [of _ 2])
qed

end
