(* ===== verification/Text_Output.thy ===== *)
theory Text_Output
  imports Stream_Writers Bounded_String_Laws
begin

text \<open>
  \<open>TextOutputStream\<close> (infra/stream/OutputStream.cpp): numbers as text in three radixes with a width and a
  padding character, \<open>Format\<close>, byte ranges as ASCII, hexadecimal and base64, and the writer of
  infra/stream/StringOutputStream.cpp that puts text in a bounded string. What an operation sends to
  the writer is the list of the pieces it inserts, one for each call of \<open>StreamWriter::Insert\<close>;
  \<open>send\<close> inserts them into a writer. Characters are bytes for the writer (\<open>bytes_of\<close>).
\<close>

section \<open>Formatting numbers\<close>

datatype radix = Dec | Bin | Hex

record text_format =
  tf_radix :: radix
  tf_width :: nat
  tf_padding :: char

definition tf_default :: text_format where
  "tf_default = \<lparr>tf_radix = Dec, tf_width = 0, tf_padding = CHR '' ''\<rparr>"

definition tf_hex :: "text_format \<Rightarrow> text_format" where
  "tf_hex f = f\<lparr>tf_radix := Hex\<rparr>"

definition tf_bin :: "text_format \<Rightarrow> text_format" where
  "tf_bin f = f\<lparr>tf_radix := Bin\<rparr>"

definition tf_with_width :: "text_format \<Rightarrow> nat \<Rightarrow> char \<Rightarrow> text_format" where
  "tf_with_width f width padding = f\<lparr>tf_width := width, tf_padding := padding\<rparr>"

definition char_pieces :: "string \<Rightarrow> string list" where
  "char_pieces s = map (\<lambda>c. [c]) s"

definition optional_padding :: "text_format \<Rightarrow> nat \<Rightarrow> string list" where
  "optional_padding f n = replicate (tf_width f - n) [tf_padding f]"

lemma mask_grows:
  assumes "2 \<le> (base :: nat)" "base \<le> v div msk"
  shows "0 < msk" "msk * base \<le> v" "msk < msk * base"
proof -
  show pos: "0 < msk" using assms by (cases "msk = 0") auto
  have "msk * base \<le> msk * (v div msk)" using assms(2) by simp
  also have "\<dots> \<le> v" by simp
  finally show "msk * base \<le> v" .
  show "msk < msk * base" using pos assms(1) by simp
qed

text \<open>\<open>mask\<close> never exceeds \<open>v\<close> once it has grown, so that no multiplication wraps around.\<close>

function digit_mask :: "nat \<Rightarrow> nat \<Rightarrow> nat \<Rightarrow> nat \<Rightarrow> nat \<times> nat" where
  "digit_mask base v msk nofDigits =
     (if 2 \<le> base \<and> v div msk \<ge> base then digit_mask base v (msk * base) (nofDigits + 1) else (msk, nofDigits))"
  by pat_completeness auto

termination
  by (relation "measure (\<lambda>(base, v, msk, n). Suc v - msk)") 
    (auto dest: mask_grows(2,3) intro!: diff_less_mono2 intro: order_less_le_trans)

declare digit_mask.simps [simp del]

function print_mask :: "nat \<Rightarrow> nat \<Rightarrow> nat \<Rightarrow> nat list" where
  "print_mask base v msk = (if msk \<noteq> 0 \<and> 2 \<le> base then v div msk mod base # print_mask base v (msk div base) else [])"
  by pat_completeness auto
termination by (relation "measure (\<lambda>(base, v, msk). msk)") auto

declare print_mask.simps [simp del]

definition output_number :: "nat \<Rightarrow> (nat \<Rightarrow> char) \<Rightarrow> text_format \<Rightarrow> u64 \<Rightarrow> bool \<Rightarrow> string list" where
  "output_number base digit f v negative =
     (case digit_mask base (unat v) 1 (if negative then 2 else 1) of (msk, nofDigits) \<Rightarrow>
       optional_padding f nofDigits @ (if negative then [''-''] else []) @
       map (\<lambda>d. [digit d]) (print_mask base (unat v) msk))"

definition hex_digit :: "nat \<Rightarrow> char" where
  "hex_digit d = ''0123456789abcdef'' ! d"

definition output_as_decimal :: "text_format \<Rightarrow> u64 \<Rightarrow> bool \<Rightarrow> string list" where
  "output_as_decimal f v negative = output_number 10 (\<lambda>d. char_of (d + 48)) f v negative"

definition output_as_binary :: "text_format \<Rightarrow> u64 \<Rightarrow> bool \<Rightarrow> string list" where
  "output_as_binary f v negative = output_number 2 (\<lambda>d. char_of (48 + d)) f v negative"

definition output_as_hexadecimal :: "text_format \<Rightarrow> u64 \<Rightarrow> bool \<Rightarrow> string list" where
  "output_as_hexadecimal f v negative = output_number 16 hex_digit f v negative"

definition out_u64 :: "text_format \<Rightarrow> u64 \<Rightarrow> string list" where
  "out_u64 f v = (case tf_radix f of Dec \<Rightarrow> output_as_decimal f v False
     | Bin \<Rightarrow> output_as_binary f v False | Hex \<Rightarrow> output_as_hexadecimal f v False)"

text \<open>\<open>-v\<close> is the negation of the 64-bit word, also for the smallest value, which has no opposite.\<close>

definition out_i64 :: "text_format \<Rightarrow> u64 \<Rightarrow> string list" where
  "out_i64 f v = (let negative = sint v < 0; v = (if negative then - v else v) in
     case tf_radix f of Dec \<Rightarrow> output_as_decimal f v negative
     | Bin \<Rightarrow> output_as_binary f v negative | Hex \<Rightarrow> output_as_hexadecimal f v negative)"

definition out_u32 :: "text_format \<Rightarrow> u32 \<Rightarrow> string list" where
  "out_u32 f v = out_u64 f (ucast v)"

definition out_u16 :: "text_format \<Rightarrow> u16 \<Rightarrow> string list" where
  "out_u16 f v = out_u64 f (ucast v)"

definition out_u8 :: "text_format \<Rightarrow> u8 \<Rightarrow> string list" where
  "out_u8 f v = out_u64 f (ucast v)"

definition out_i32 :: "text_format \<Rightarrow> u32 \<Rightarrow> string list" where
  "out_i32 f v = out_i64 f (scast v)"

definition out_i16 :: "text_format \<Rightarrow> u16 \<Rightarrow> string list" where
  "out_i16 f v = out_i64 f (scast v)"

definition out_i8 :: "text_format \<Rightarrow> u8 \<Rightarrow> string list" where
  "out_i8 f v = out_i64 f (scast v)"

section \<open>Text\<close>

definition out_cstr :: "text_format \<Rightarrow> string \<Rightarrow> string list" where
  "out_cstr f s = optional_padding f (strlen s) @ [c_str s]"

definition out_string :: "bstr \<Rightarrow> string list" where
  "out_string b = [bs_contents b]"

definition out_char :: "char \<Rightarrow> string list" where
  "out_char c = [[c]]"

definition out_endl :: "text_format \<Rightarrow> string list" where
  "out_endl f = out_cstr f [CHR 0x0D, CHR 0x0A]"

definition out_ascii :: "byte list \<Rightarrow> string list" where
  "out_ascii data = concat (map (\<lambda>b. if b < 32 \<or> b \<ge> 128 then out_char CHR ''.'' else out_char (char_of (unat b))) data)"

definition out_hex :: "text_format \<Rightarrow> byte list \<Rightarrow> string list" where
  "out_hex f data = (let hexStream = tf_with_width (tf_hex f) 2 CHR ''0'' in concat (map (out_u8 hexStream) data))"

text \<open>\<open>FormatArgs\<close>: \<open>%1%\<close> to \<open>%9%\<close> stand for the formatters, given by what they send. A lone \<open>%\<close> is
  dropped, and so is the digit of \<open>%1\<close> without a second \<open>%\<close>.\<close>

definition placeholder :: "string list list \<Rightarrow> char \<Rightarrow> string list" where
  "placeholder formatters d = (let index = of_char d - of_char CHR ''1'' in
     if index < length formatters then formatters ! index else [])"

definition one_to_nine :: "char \<Rightarrow> bool" where
  "one_to_nine d \<longleftrightarrow> of_char CHR ''1'' \<le> (of_char d :: nat) \<and> of_char d \<le> (of_char CHR ''9'' :: nat)"

fun format_percent :: "string \<Rightarrow> string list list \<Rightarrow> string list \<times> string" where
  "format_percent [] formatters = ([], [])"
| "format_percent [p] formatters = ([], [])"
| "format_percent [p, d] formatters = (if one_to_nine d then ([], []) else ([], [d]))"
| "format_percent (p # d # e # r) formatters =
     (if one_to_nine d then (if e = CHR ''%'' then (placeholder formatters d, r) else ([], e # r))
      else ([], d # e # r))"

lemma format_percent_shorter: "length (snd (format_percent s formatters)) \<le> length s - 1"
  by (induction s formatters rule: format_percent.induct) auto

function format_args :: "string \<Rightarrow> string list list \<Rightarrow> string list" where
  "format_args fmt formatters =
     (if fmt = [] then []
      else let start = takeWhile (\<lambda>c. c \<noteq> CHR ''%'') fmt; rest = dropWhile (\<lambda>c. c \<noteq> CHR ''%'') fmt
        in start # fst (format_percent rest formatters) @ format_args (snd (format_percent rest formatters)) formatters)"
  by pat_completeness auto
termination
proof (relation "measure (\<lambda>(fmt, _). length fmt)", goal_cases)
  case (2 fmt formatters start rest)
  then have "length rest \<le> length fmt" by (simp add: length_dropWhile_le)
  moreover have "length (snd (format_percent rest formatters)) \<le> length rest - 1"
    by (rule format_percent_shorter)
  ultimately show ?case using 2(1) by (cases fmt) auto
qed simp

declare format_args.simps [simp del]

section \<open>Base64\<close>

definition base64_table :: string where
  "base64_table = ''ABCDEFGHIJKLMNOPQRSTUVWXYZabcdefghijklmnopqrstuvwxyz0123456789+/''"

record base64_encoder =
  be_bitIndex :: u8
  be_encodedByte :: u8
  be_size :: u32

definition be_new :: base64_encoder where
  "be_new = \<lparr>be_bitIndex = 2, be_encodedByte = 0, be_size = 0\<rparr>"

definition be_digit :: "u8 \<Rightarrow> char" where
  "be_digit v = base64_table ! unat v"

text \<open>A shift promotes its byte to \<open>int\<close>; the sum is cut off to a byte before the shift to the right.\<close>

definition be_encode_byte :: "base64_encoder \<Rightarrow> byte \<Rightarrow> string list \<times> base64_encoder" where
  "be_encode_byte e b =
     (let encoded = be_encodedByte e OR drop_bit (unat (be_bitIndex e)) b;
          e1 = e\<lparr>be_size := be_size e + 1,
                 be_encodedByte := drop_bit 2 (push_bit (8 - unat (be_bitIndex e)) b),
                 be_bitIndex := be_bitIndex e + 2\<rparr>
      in if be_bitIndex e1 = 8
         then ([[be_digit encoded], [be_digit (be_encodedByte e1)]],
               e1\<lparr>be_size := be_size e1 + 1, be_encodedByte := 0, be_bitIndex := 2\<rparr>)
         else ([[be_digit encoded]], e1))"

fun be_encode :: "base64_encoder \<Rightarrow> byte list \<Rightarrow> string list \<times> base64_encoder" where
  "be_encode e [] = ([], e)"
| "be_encode e (b # bs) = (case be_encode_byte e b of (out, e1) \<Rightarrow>
     (case be_encode e1 bs of (out2, e2) \<Rightarrow> (out @ out2, e2)))"

definition be_destroy :: "base64_encoder \<Rightarrow> string list" where
  "be_destroy e =
     (let (o1, s1) = (if be_size e AND 3 \<noteq> 0 then ([[be_digit (be_encodedByte e)]], be_size e + 1) else ([], be_size e));
          (o2, s2) = (if s1 AND 3 \<noteq> 0 then ([''=''], s1 + 1) else ([], s1));
          (o3, s3) = (if s2 AND 3 \<noteq> 0 then ([''=''], s2 + 1) else ([], s2))
      in o1 @ o2 @ o3)"

definition out_base64 :: "byte list \<Rightarrow> string list" where
  "out_base64 data = (case be_encode be_new data of (out, e) \<Rightarrow> out @ be_destroy e)"

fun be_encode_all :: "base64_encoder \<Rightarrow> byte list list \<Rightarrow> string list \<times> base64_encoder" where
  "be_encode_all e [] = ([], e)"
| "be_encode_all e (r # rs) = (case be_encode e r of (out, e1) \<Rightarrow>
     (case be_encode_all e1 rs of (out2, e2) \<Rightarrow> (out @ out2, e2)))"

definition out_combined_base64 :: "byte list list \<Rightarrow> string list" where
  "out_combined_base64 ranges = (case be_encode_all be_new ranges of (out, e) \<Rightarrow> out @ be_destroy e)"

section \<open>Sending to a writer\<close>

definition bytes_of :: "string \<Rightarrow> byte list" where
  "bytes_of s = map (\<lambda>c. of_nat (of_char c)) s"

definition chars_of :: "byte list \<Rightarrow> string" where
  "chars_of bs = map (\<lambda>b. char_of (unat b)) bs"

fun send :: "'w stream_writer \<Rightarrow> 'w \<Rightarrow> error_policy \<Rightarrow> string list \<Rightarrow> ('w \<times> error_policy) result" where
  "send ops w p [] = Inr (w, p)"
| "send ops w p (s # ss) = rbind (sw_insert ops w p (bytes_of s)) (\<lambda>(w', p'). send ops w' p' ss)"

definition sow_available :: "bstr \<Rightarrow> nat" where
  "sow_available b = bs_max_size b - bs_size b"

definition sow_insert :: "bstr \<Rightarrow> error_policy \<Rightarrow> byte list \<Rightarrow> (bstr \<times> error_policy) result" where
  "sow_insert b p data =
     (let spaceLeft = sow_available b; spaceOk = length data \<le> spaceLeft
      in rbind (report_result p spaceOk) (\<lambda>p'.
           let data = (if spaceOk then data else take spaceLeft data)
           in rbind (bs_append_chars b (chars_of data) (length data)) (\<lambda>b'. Inr (b', p'))))"

definition sow_reset :: "bstr \<Rightarrow> bstr" where
  "sow_reset b = bs_clear b"

definition sow_construct_save_marker :: "bstr \<Rightarrow> nat" where
  "sow_construct_save_marker b = bs_size b"

definition sow_get_processed_bytes_since :: "bstr \<Rightarrow> nat \<Rightarrow> nat" where
  "sow_get_processed_bytes_since b marker = bs_size b - marker"

text \<open>\<open>SaveState\<close> fills the string to its limit and copies what came after the marker to the end, last
  character first; the gap it returns begins at the marker. \<open>RestoreState\<close> closes what is left of the gap.\<close>

definition sow_save_state :: "bstr \<Rightarrow> nat \<Rightarrow> (bstr \<times> nat \<times> nat) result" where
  "sow_save_state b marker = in_bounds (marker \<le> bs_length b)
     (let n = bs_length b - marker
      in rbind (bs_resize_zero b (bs_max_size b)) (\<lambda>b1.
         rbind (memmove (bs_length b1 - n) marker n (bs_range b1)) (\<lambda>r.
           Inr (b1\<lparr>bs_range := r\<rparr>, marker, bs_length b1 - n))))"

definition sow_restore_state :: "bstr \<Rightarrow> nat \<Rightarrow> nat \<Rightarrow> bstr result" where
  "sow_restore_state b gapBegin gapEnd = in_bounds (gapBegin \<le> gapEnd \<and> gapEnd \<le> bs_length b)
     (rbind (memmove gapBegin gapEnd (bs_length b - gapEnd) (bs_range b)) (\<lambda>r.
        bs_resize_zero (b\<lparr>bs_range := r\<rparr>) (bs_length b - (gapEnd - gapBegin))))"

definition string_writer :: "bstr stream_writer" where
  "string_writer = \<lparr>sw_insert = sow_insert, sw_available = sow_available\<rparr>"

section \<open>What is sent\<close>

lemma bytes_of_append [simp]: "bytes_of (s @ t) = bytes_of s @ bytes_of t"
  by (simp add: bytes_of_def)

lemma length_bytes_of [simp]: "length (bytes_of s) = length s"
  by (simp add: bytes_of_def)

lemma chars_of_bytes_of [simp]: "chars_of (bytes_of s) = s"
  by (simp add: chars_of_def bytes_of_def o_def)

lemma bytes_of_chars_of [simp]: "bytes_of (chars_of bs) = bs"
  by (induction bs) (simp_all add: chars_of_def bytes_of_def)

lemma length_chars_of [simp]: "length (chars_of bs) = length bs"
  by (simp add: chars_of_def)

interpretation sow: writer string_writer bs_ok "\<lambda>b. bytes_of (bs_contents b)" sow_available
proof
  fix b :: bstr and xs :: "byte list"
  assume ok: "bs_ok b"
  let ?room = "sow_available b" and ?data = "take (sow_available b) xs"
  have room: "?room = bs_max_size b - bs_length b" by (simp add: sow_available_def bs_size_def)
  have fits: "bs_length b + length ?data \<le> bs_max_size b" using ok by (simp add: room bs_ok_def)
  obtain b' where b': "bs_append_chars b (chars_of ?data) (length ?data) = Inr b'" "bs_ok b'"
      "bs_max_size b' = bs_max_size b" "bs_contents b' = bs_contents b @ chars_of ?data"
    using bs_append_chars_holds(2) [OF ok, of "length ?data" "chars_of ?data"] fits by (auto simp: holds_def)
  have "bs_length b' = bs_length b + length ?data"
    using length_bs_contents [OF b'(2)] b'(4) ok by simp
  then have "sow_available b' = ?room - length xs"
    using b'(3) by (simp add: sow_available_def bs_size_def)
  moreover have "sw_insert string_writer b p xs = rbind (report_all p [length xs \<le> ?room]) (\<lambda>p'. Inr (b', p'))" for p
    using b'(1) by (cases "report_result p (length xs \<le> ?room)"; cases "length xs \<le> ?room")
      (simp_all add: string_writer_def sow_insert_def Let_def)
  ultimately show "\<exists>bs b'. (False \<in> set bs) = (?room < length xs) \<and> bs_ok b' \<and>
      bytes_of (bs_contents b') = bytes_of (bs_contents b) @ take ?room xs \<and> sow_available b' = ?room - length xs \<and>
      (\<forall>p. sw_insert string_writer b p xs = rbind (report_all p bs) (\<lambda>p'. Inr (b', p')))"
    using b' by (intro exI [of _ "[length xs \<le> ?room]"] exI [of _ b']) auto
qed (simp add: string_writer_def)

context writer
begin

lemma send_fits:
  "ok w \<Longrightarrow> length (concat ss) \<le> room w \<Longrightarrow>
   \<exists>w' p'. send ops w p ss = Inr (w', p') \<and> ok w' \<and> written w' = written w @ bytes_of (concat ss) \<and>
     room w' = room w - length (concat ss) \<and> failed p' = failed p \<and> mode p' = mode p"
proof (induction ss arbitrary: w p)
  case (Cons s ss)
  obtain w1 p1 where 1: "sw_insert ops w p (bytes_of s) = Inr (w1, p1)" "ok w1" "written w1 = written w @ bytes_of s"
      "room w1 = room w - length s" "failed p1 = failed p" "mode p1 = mode p"
    using insert_fits [OF Cons.prems(1), of "bytes_of s" p] Cons.prems(2) by auto
  then show ?case using Cons.IH [of w1 p1] Cons.prems(2) by auto
qed (simp add: bytes_of_def)

lemma send_nothing:
  assumes "ok w" "concat ss = []"
  shows "\<exists>w' p'. send ops w p ss = Inr (w', p') \<and> ok w' \<and> written w' = written w \<and> room w' = room w \<and>
    failed p' = failed p"
  using send_fits [OF assms(1), of ss p] assms(2) by (auto simp: bytes_of_def)

lemma send_overflow:
  "ok w \<Longrightarrow> room w < length (concat ss) \<Longrightarrow> mode p \<noteq> Assertion \<Longrightarrow>
   \<exists>w' p'. send ops w p ss = Inr (w', p') \<and> ok w' \<and> written w' = written w @ take (room w) (bytes_of (concat ss)) \<and>
     room w' = 0 \<and> failed p'"
proof (induction ss arbitrary: w p)
  case (Cons s ss)
  show ?case
  proof (cases "length s \<le> room w")
    case True
    obtain w1 p1 where 1: "sw_insert ops w p (bytes_of s) = Inr (w1, p1)" "ok w1" "written w1 = written w @ bytes_of s"
        "room w1 = room w - length s" "failed p1 = failed p" "mode p1 = mode p"
      using insert_fits [OF Cons.prems(1), of "bytes_of s" p] True by auto
    then show ?thesis using Cons.IH [of w1 p1] Cons.prems(2,3) True by auto
  next
    case False
    obtain w1 p1 where 1: "sw_insert ops w p (bytes_of s) = Inr (w1, p1)" "ok w1"
        "written w1 = written w @ take (room w) (bytes_of s)" "room w1 = 0" "failed p1"
      using insert_overflow [OF Cons.prems(1), of "bytes_of s" p] Cons.prems(3) False by auto
    have "sw_insert ops w p (bytes_of s) = Inr (w1, p1) \<Longrightarrow> mode p1 = mode p" for w1 p1
      using inserts [OF Cons.prems(1), of "bytes_of s"] by (auto simp: rbind_Inr dest: report_all_ok)
    then have "mode p1 = mode p" using 1(1) by blast
    have "\<exists>w' p'. send ops w1 p1 ss = Inr (w', p') \<and> ok w' \<and> written w' = written w1 \<and> room w' = 0 \<and> failed p'"
    proof (cases "concat ss = []")
      case True
      then show ?thesis using send_nothing [OF 1(2) True, of p1] 1 by auto
    next
      case False
      then show ?thesis using Cons.IH [OF 1(2), of p1] 1 Cons.prems(3) \<open>mode p1 = mode p\<close> by (auto simp: bytes_of_def)
    qed
    then show ?thesis using 1 False by auto
  qed
qed simp

end

end
