(* ===== verification/Text_Input.thy ===== *)
theory Text_Input
  imports Text_Output Stream_Readers
begin

text \<open>
  \<open>TextInputStream\<close> (infra/stream/InputStream.cpp) over any reader: skipping spaces, numbers in decimal
  and hexadecimal with an optional width, literals, byte ranges from hexadecimal and base64; and
  \<open>DecodeBase64Byte\<close> (infra/util/Base64.cpp). Next to each operation stands the scanner it amounts to
  on the list of the bytes that remain: the value, the bytes left, and whether no failure was reported.
  The lemmas of the locale \<open>peeking_reader\<close> show the agreement for every reader, so that what text reads
  back what follows from the scanners alone.

  The loops end when the reader does: they take fuel, and \<open>ti_fuel\<close>, one more step than there are bytes, is enough.
\<close>

section \<open>Numbers\<close>

record text_in_format =
  ti_isDecimal :: bool
  ti_width :: "nat option"

definition ti_default :: text_in_format where
  "ti_default = \<lparr>ti_isDecimal = True, ti_width = None\<rparr>"

definition ti_hex :: "text_in_format \<Rightarrow> text_in_format" where
  "ti_hex f = f\<lparr>ti_isDecimal := False\<rparr>"

definition ti_with_width :: "text_in_format \<Rightarrow> nat \<Rightarrow> text_in_format" where
  "ti_with_width f width = f\<lparr>ti_width := Some width\<rparr>"

definition ti_fuel :: "('r, 'x) stream_reader_scheme \<Rightarrow> 'r \<Rightarrow> nat" where
  "ti_fuel ops r = Suc (Suc (sr_available ops r))"

fun ti_skip_spaces_loop :: "('r, 'x) stream_reader_scheme \<Rightarrow> nat \<Rightarrow> 'r \<Rightarrow> error_policy \<Rightarrow> ('r \<times> error_policy \<times> byte) result" where
  "ti_skip_spaces_loop ops 0 r p = Inl Diverges"
| "ti_skip_spaces_loop ops (Suc fuel) r p = rbind (sr_peek ops r p) (\<lambda>(p1, c).
     if c = 32 then rbind (sr_extract ops r p1 1) (\<lambda>(r2, p2, _). ti_skip_spaces_loop ops fuel r2 p2)
     else Inr (r, p1, c))"

definition ti_skip_spaces :: "('r, 'x) stream_reader_scheme \<Rightarrow> 'r \<Rightarrow> error_policy \<Rightarrow> ('r \<times> error_policy) result" where
  "ti_skip_spaces ops r p = rbind (ti_skip_spaces_loop ops (ti_fuel ops r) r p) (\<lambda>(r1, p1, _). Inr (r1, p1))"

definition decimal_digit :: "byte \<Rightarrow> nat option" where
  "decimal_digit c = (if 48 \<le> c \<and> c \<le> 57 then Some (unat c - 48) else None)"

definition hexadecimal_digit :: "byte \<Rightarrow> nat option" where
  "hexadecimal_digit c = (if 48 \<le> c \<and> c \<le> 57 then Some (unat c - 48)
     else if 97 \<le> c \<and> c \<le> 102 then Some (unat c - 97 + 10)
     else if 65 \<le> c \<and> c \<le> 70 then Some (unat c - 65 + 10) else None)"

text \<open>The loop of \<open>ReadAsDecimal\<close> and \<open>ReadAsHex\<close>: its first round is always taken.\<close>

fun ti_number_loop :: "('r, 'x) stream_reader_scheme \<Rightarrow> (byte \<Rightarrow> nat option) \<Rightarrow> ('v \<Rightarrow> nat \<Rightarrow> 'v) \<Rightarrow> nat option \<Rightarrow>
    nat \<Rightarrow> nat \<Rightarrow> 'v \<Rightarrow> 'r \<Rightarrow> error_policy \<Rightarrow> ('r \<times> error_policy \<times> 'v) result" where
  "ti_number_loop ops digit add width 0 i v r p = Inl Diverges"
| "ti_number_loop ops digit add width (Suc fuel) i v r p =
     (if (width \<noteq> Some i \<and> \<not> sr_empty ops r) \<or> i = 0
      then rbind (sr_peek ops r p) (\<lambda>(p1, c). case digit c of
          Some d \<Rightarrow> rbind (sr_extract ops r p1 1) (\<lambda>(r2, p2, _). ti_number_loop ops digit add width fuel (Suc i) (add v d) r2 p2)
        | None \<Rightarrow> rbind (report_result p1 (i > 0)) (\<lambda>p2. Inr (r, p2, v)))
      else Inr (r, p, v))"

definition add_decimal :: "'w::len word \<Rightarrow> nat \<Rightarrow> 'w word" where
  "add_decimal v d = v * 10 + of_nat d"

definition add_hexadecimal :: "'w::len word \<Rightarrow> nat \<Rightarrow> 'w word" where
  "add_hexadecimal v d = push_bit 4 v + of_nat d"

definition ti_read_as_decimal :: "('r, 'x) stream_reader_scheme \<Rightarrow> text_in_format \<Rightarrow> 'r \<Rightarrow> error_policy \<Rightarrow>
    ('r \<times> error_policy \<times> 'w::len word) result" where
  "ti_read_as_decimal ops f r p = rbind (ti_skip_spaces ops r p) (\<lambda>(r1, p1).
     ti_number_loop ops decimal_digit add_decimal (ti_width f) (ti_fuel ops r1) 0 0 r1 p1)"

definition ti_read_as_hex :: "('r, 'x) stream_reader_scheme \<Rightarrow> text_in_format \<Rightarrow> 'r \<Rightarrow> error_policy \<Rightarrow>
    ('r \<times> error_policy \<times> 'w::len word) result" where
  "ti_read_as_hex ops f r p = rbind (ti_skip_spaces ops r p) (\<lambda>(r1, p1).
     ti_number_loop ops hexadecimal_digit add_hexadecimal (ti_width f) (ti_fuel ops r1) 0 0 r1 p1)"

definition ti_read_unsigned :: "('r, 'x) stream_reader_scheme \<Rightarrow> text_in_format \<Rightarrow> 'r \<Rightarrow> error_policy \<Rightarrow>
    ('r \<times> error_policy \<times> 'w::len word) result" where
  "ti_read_unsigned ops f r p = (if ti_isDecimal f then ti_read_as_decimal ops f r p else ti_read_as_hex ops f r p)"

text \<open>The signed versions multiply by \<open>-1\<close> or \<open>1\<close>; the product is taken modulo the width.\<close>

definition ti_read_signed_as_decimal :: "('r, 'x) stream_reader_scheme \<Rightarrow> text_in_format \<Rightarrow> 'r \<Rightarrow> error_policy \<Rightarrow>
    ('r \<times> error_policy \<times> 'w::len word) result" where
  "ti_read_signed_as_decimal ops f r p = rbind (ti_skip_spaces ops r p) (\<lambda>(r1, p1).
     rbind (sr_peek ops r1 p1) (\<lambda>(p2, c).
       if c = 45 then rbind (sr_extract ops r1 p2 1) (\<lambda>(r3, p3, _).
            rbind (ti_read_as_decimal ops f r3 p3) (\<lambda>(r4, p4, vp). Inr (r4, p4, - 1 * vp)))
       else rbind (ti_read_as_decimal ops f r1 p2) (\<lambda>(r3, p3, vp). Inr (r3, p3, 1 * vp))))"

definition ti_read_signed_as_hex :: "('r, 'x) stream_reader_scheme \<Rightarrow> text_in_format \<Rightarrow> 'r \<Rightarrow> error_policy \<Rightarrow>
    ('r \<times> error_policy \<times> 'w::len word) result" where
  "ti_read_signed_as_hex ops f r p = rbind (ti_skip_spaces ops r p) (\<lambda>(r1, p1).
     rbind (sr_peek ops r1 p1) (\<lambda>(p2, c).
       if c = 45 then rbind (sr_extract ops r1 p2 1) (\<lambda>(r3, p3, _).
            rbind (ti_read_as_hex ops f r3 p3) (\<lambda>(r4, p4, vp). Inr (r4, p4, - 1 * vp)))
       else rbind (ti_read_as_hex ops f r1 p2) (\<lambda>(r3, p3, vp). Inr (r3, p3, 1 * vp))))"

definition ti_read_signed :: "('r, 'x) stream_reader_scheme \<Rightarrow> text_in_format \<Rightarrow> 'r \<Rightarrow> error_policy \<Rightarrow>
    ('r \<times> error_policy \<times> 'w::len word) result" where
  "ti_read_signed ops f r p = (if ti_isDecimal f then ti_read_signed_as_decimal ops f r p else ti_read_signed_as_hex ops f r p)"

definition ti_u64 :: "('r, 'x) stream_reader_scheme \<Rightarrow> text_in_format \<Rightarrow> 'r \<Rightarrow> error_policy \<Rightarrow> ('r \<times> error_policy \<times> u64) result" where
  "ti_u64 ops f r p = ti_read_unsigned ops f r p"

definition ti_u32 :: "('r, 'x) stream_reader_scheme \<Rightarrow> text_in_format \<Rightarrow> 'r \<Rightarrow> error_policy \<Rightarrow> ('r \<times> error_policy \<times> u32) result" where
  "ti_u32 ops f r p = ti_read_unsigned ops f r p"

definition ti_u16 :: "('r, 'x) stream_reader_scheme \<Rightarrow> text_in_format \<Rightarrow> 'r \<Rightarrow> error_policy \<Rightarrow> ('r \<times> error_policy \<times> u16) result" where
  "ti_u16 ops f r p = rbind (ti_u32 ops f r p) (\<lambda>(r', p', v32). Inr (r', p', ucast v32))"

definition ti_u8 :: "('r, 'x) stream_reader_scheme \<Rightarrow> text_in_format \<Rightarrow> 'r \<Rightarrow> error_policy \<Rightarrow> ('r \<times> error_policy \<times> u8) result" where
  "ti_u8 ops f r p = rbind (ti_u32 ops f r p) (\<lambda>(r', p', v32). Inr (r', p', ucast v32))"

definition ti_i64 :: "('r, 'x) stream_reader_scheme \<Rightarrow> text_in_format \<Rightarrow> 'r \<Rightarrow> error_policy \<Rightarrow> ('r \<times> error_policy \<times> u64) result" where
  "ti_i64 ops f r p = ti_read_signed ops f r p"

definition ti_i32 :: "('r, 'x) stream_reader_scheme \<Rightarrow> text_in_format \<Rightarrow> 'r \<Rightarrow> error_policy \<Rightarrow> ('r \<times> error_policy \<times> u32) result" where
  "ti_i32 ops f r p = ti_read_signed ops f r p"

definition ti_i16 :: "('r, 'x) stream_reader_scheme \<Rightarrow> text_in_format \<Rightarrow> 'r \<Rightarrow> error_policy \<Rightarrow> ('r \<times> error_policy \<times> u16) result" where
  "ti_i16 ops f r p = rbind (ti_i32 ops f r p) (\<lambda>(r', p', v32). Inr (r', p', ucast v32))"

definition ti_i8 :: "('r, 'x) stream_reader_scheme \<Rightarrow> text_in_format \<Rightarrow> 'r \<Rightarrow> error_policy \<Rightarrow> ('r \<times> error_policy \<times> u8) result" where
  "ti_i8 ops f r p = rbind (ti_i32 ops f r p) (\<lambda>(r', p', v32). Inr (r', p', ucast v32))"

section \<open>Characters, literals, hexadecimal, base64\<close>

definition ti_char :: "('r, 'x) stream_reader_scheme \<Rightarrow> 'r \<Rightarrow> error_policy \<Rightarrow> byte \<Rightarrow> ('r \<times> error_policy \<times> byte) result" where
  "ti_char ops r p c = rbind (sr_extract ops r p 1) (\<lambda>(r', p', bytes). Inr (r', p', hd (extract_into [c] bytes)))"

text \<open>\<open>char c;\<close> holds nothing in particular when \<open>Extract\<close> gives nothing: the value is a parameter.\<close>

fun ti_literal :: "('r, 'x) stream_reader_scheme \<Rightarrow> byte \<Rightarrow> byte list \<Rightarrow> 'r \<Rightarrow> error_policy \<Rightarrow> ('r \<times> error_policy) result" where
  "ti_literal ops undef [] r p = Inr (r, p)"
| "ti_literal ops undef (l # ls) r p = rbind (ti_char ops r p undef) (\<lambda>(r1, p1, c).
     rbind (report_result p1 (c = l)) (\<lambda>p2. ti_literal ops undef ls r1 p2))"

definition decode_hex_byte :: "byte \<Rightarrow> nat" where
  "decode_hex_byte c = (case hexadecimal_digit c of Some d \<Rightarrow> d | None \<Rightarrow> 16)"

fun ti_from_hex_loop :: "('r, 'x) stream_reader_scheme \<Rightarrow> nat \<Rightarrow> nat \<Rightarrow> u8 \<Rightarrow> u8 \<Rightarrow> byte list \<Rightarrow> 'r \<Rightarrow> error_policy \<Rightarrow>
    ('r \<times> error_policy \<times> byte list) result" where
  "ti_from_hex_loop ops 0 room bitIndex decoded done r p = Inl Diverges"
| "ti_from_hex_loop ops (Suc fuel) room bitIndex decoded done r p =
     (if room \<noteq> 0 \<and> \<not> sr_empty ops r
      then rbind (ti_char ops r p 0) (\<lambda>(r1, p1, c).
        if decode_hex_byte c \<ge> 16 then rbind (report_result p1 False) (\<lambda>p2. Inr (r1, p2, done))
        else let decoded = push_bit 4 decoded OR of_nat (decode_hex_byte c); bitIndex = bitIndex + 4
          in if bitIndex = 8 then ti_from_hex_loop ops fuel (room - 1) 0 decoded (done @ [decoded]) r1 p1
             else ti_from_hex_loop ops fuel room bitIndex decoded done r1 p1)
      else rbind (report_result p (room = 0)) (\<lambda>p1. Inr (r, p1, done)))"

definition ti_from_hex :: "('r, 'x) stream_reader_scheme \<Rightarrow> nat \<Rightarrow> 'r \<Rightarrow> error_policy \<Rightarrow> ('r \<times> error_policy \<times> byte list) result" where
  "ti_from_hex ops n r p = ti_from_hex_loop ops (ti_fuel ops r) n 0 0 [] r p"

definition decode_base64_byte :: "byte \<Rightarrow> u8" where
  "decode_base64_byte c = of_nat (length (takeWhile (\<lambda>t. t \<noteq> char_of (unat c)) base64_table))"

fun ti_base64_padding :: "('r, 'x) stream_reader_scheme \<Rightarrow> nat \<Rightarrow> u8 \<Rightarrow> 'r \<Rightarrow> error_policy \<Rightarrow> ('r \<times> error_policy) result" where
  "ti_base64_padding ops 0 bitIndex r p = Inl Diverges"
| "ti_base64_padding ops (Suc fuel) bitIndex r p =
     (if bitIndex \<noteq> 0 \<and> \<not> sr_empty ops r
      then rbind (ti_char ops r p 0) (\<lambda>(r1, p1, c). rbind (report_result p1 (c = 61)) (\<lambda>p2.
        ti_base64_padding ops fuel (bitIndex - 2) r1 p2))
      else Inr (r, p))"

fun ti_from_base64_loop :: "('r, 'x) stream_reader_scheme \<Rightarrow> nat \<Rightarrow> nat \<Rightarrow> u8 \<Rightarrow> u16 \<Rightarrow> byte list \<Rightarrow> 'r \<Rightarrow> error_policy \<Rightarrow>
    ('r \<times> error_policy \<times> byte list) result" where
  "ti_from_base64_loop ops 0 room bitIndex word done r p = Inl Diverges"
| "ti_from_base64_loop ops (Suc fuel) room bitIndex word done r p =
     (if room \<noteq> 0 \<and> \<not> sr_empty ops r
      then rbind (ti_char ops r p 0) (\<lambda>(r1, p1, c).
        if decode_base64_byte c \<ge> 64 then rbind (report_result p1 False) (\<lambda>p2. Inr (r1, p2, done))
        else let word = push_bit 6 word OR ucast (decode_base64_byte c); bitIndex = bitIndex + 6
          in if bitIndex \<ge> 8
             then ti_from_base64_loop ops fuel (room - 1) (bitIndex - 8) word
                    (done @ [ucast (drop_bit (unat (bitIndex - 8)) word)]) r1 p1
             else ti_from_base64_loop ops fuel room bitIndex word done r1 p1)
      else rbind (ti_base64_padding ops (ti_fuel ops r) bitIndex r p) (\<lambda>(r1, p1).
        rbind (report_result p1 (room = 0)) (\<lambda>p2. Inr (r1, p2, done))))"

definition ti_from_base64 :: "('r, 'x) stream_reader_scheme \<Rightarrow> nat \<Rightarrow> 'r \<Rightarrow> error_policy \<Rightarrow> ('r \<times> error_policy \<times> byte list) result" where
  "ti_from_base64 ops n r p = ti_from_base64_loop ops (ti_fuel ops r) n 0 0 [] r p"

text \<open>\<open>Base64DecodedSize\<close> looks at the character before it compares the iterator with \<open>crend()\<close>.\<close>

fun count_padding :: "string \<Rightarrow> nat \<Rightarrow> nat result" where
  "count_padding [] n = Inl Out_of_bounds"
| "count_padding (c # cs) n = (if c = CHR ''='' then count_padding cs (n - 1) else Inr n)"

definition base64_decoded_size :: "string \<Rightarrow> nat result" where
  "base64_decoded_size encoded = (if length encoded < 4 then Inr 0
     else count_padding (rev encoded) (length encoded div 4 * 3))"

section \<open>An operation as a scanner\<close>

text \<open>
  \<open>scans ok rem F (rest, good, v)\<close>: under every policy, \<open>F\<close> gives \<open>v\<close>, leaves a reader that still
  holds \<open>rest\<close>, and reports a failure exactly when \<open>good\<close> is false.
\<close>

definition scans :: "('r \<Rightarrow> bool) \<Rightarrow> ('r \<Rightarrow> byte list) \<Rightarrow> (error_policy \<Rightarrow> ('r \<times> error_policy \<times> 'v) result) \<Rightarrow>
    byte list \<times> bool \<times> 'v \<Rightarrow> bool" where
  "scans ok rem F out = (case out of (rest, good, v) \<Rightarrow> \<exists>bs r'. ok r' \<and> rem r' = rest \<and> (False \<in> set bs) = (\<not> good) \<and>
     (\<forall>p. F p = rbind (report_all p bs) (\<lambda>p'. Inr (r', p', v))))"

lemma scans_bind:
  assumes "scans ok rem F (rest, g, v)"
    and "\<And>r'. ok r' \<Longrightarrow> rem r' = rest \<Longrightarrow> scans ok rem (\<lambda>p. G r' p v) (rest', g', v')"
  shows "scans ok rem (\<lambda>p. rbind (F p) (\<lambda>(r', p', v). G r' p' v)) (rest', g \<and> g', v')"
proof -
  from assms(1) obtain bs r' where 1: "ok r'" "rem r' = rest" "(False \<in> set bs) = (\<not> g)"
    "\<And>p. F p = rbind (report_all p bs) (\<lambda>p'. Inr (r', p', v))" by (auto simp: scans_def)
  from assms(2) [OF 1(1,2)] obtain bs' s' where 2: "ok s'" "rem s' = rest'" "(False \<in> set bs') = (\<not> g')"
    "\<And>p. G r' p v = rbind (report_all p bs') (\<lambda>p'. Inr (s', p', v'))" by (auto simp: scans_def)
  show ?thesis
    unfolding scans_def prod.case
    by (rule exI [of _ "bs @ bs'"], rule exI [of _ s']) (use 1 2 in \<open>auto simp: report_all_append rbind_assoc\<close>)
qed

lemma scans_return: "ok r \<Longrightarrow> scans ok rem (\<lambda>p. Inr (r, p, v)) (rem r, True, v)"
  unfolding scans_def prod.case by (rule exI [of _ "[]"]) auto

lemma scans_report:
  assumes "scans ok rem F (rest, g, v)"
  shows "scans ok rem (\<lambda>p. rbind (report_result p b) F) (rest, b \<and> g, v)"
proof -
  from assms obtain bs r' where *: "ok r'" "rem r' = rest" "(False \<in> set bs) = (\<not> g)"
    "\<And>p. F p = rbind (report_all p bs) (\<lambda>p'. Inr (r', p', v))" by (auto simp: scans_def)
  show ?thesis
    unfolding scans_def prod.case by (rule exI [of _ "b # bs"], rule exI [of _ r'])
      (use * in \<open>auto simp: rbind_assoc intro!: arg_cong [where f="rbind (report_result _ b)"]\<close>)
qed

text \<open>The scanners on the bytes that remain.\<close>

definition scan_spaces :: "byte list \<Rightarrow> byte list \<times> bool" where
  "scan_spaces bs = (dropWhile (\<lambda>c. c = 32) bs, dropWhile (\<lambda>c. c = 32) bs \<noteq> [])"

fun scan_number :: "(byte \<Rightarrow> nat option) \<Rightarrow> ('v \<Rightarrow> nat \<Rightarrow> 'v) \<Rightarrow> nat option \<Rightarrow> nat \<Rightarrow> 'v \<Rightarrow> byte list \<Rightarrow> byte list \<times> bool \<times> 'v" where
  "scan_number digit add width i v [] = ([], i \<noteq> 0, v)"
| "scan_number digit add width i v (b # bs) = (if width = Some i \<and> i \<noteq> 0 then (b # bs, True, v)
     else case digit b of Some d \<Rightarrow> scan_number digit add width (Suc i) (add v d) bs | None \<Rightarrow> (b # bs, i \<noteq> 0, v))"

definition scan_unsigned :: "(byte \<Rightarrow> nat option) \<Rightarrow> ('w::len word \<Rightarrow> nat \<Rightarrow> 'w word) \<Rightarrow> nat option \<Rightarrow> byte list \<Rightarrow>
    byte list \<times> bool \<times> 'w word" where
  "scan_unsigned digit add width bs = (case scan_spaces bs of (bs1, g1) \<Rightarrow>
     (case scan_number digit add width 0 0 bs1 of (bs2, g2, v) \<Rightarrow> (bs2, g1 \<and> g2, v)))"

definition scan_signed :: "(byte \<Rightarrow> nat option) \<Rightarrow> ('w::len word \<Rightarrow> nat \<Rightarrow> 'w word) \<Rightarrow> nat option \<Rightarrow> byte list \<Rightarrow>
    byte list \<times> bool \<times> 'w word" where
  "scan_signed digit add width bs = (case scan_spaces bs of (bs1, g1) \<Rightarrow>
     (if bs1 \<noteq> [] \<and> hd bs1 = 45
      then case scan_unsigned digit add width (tl bs1) of (bs2, g2, v) \<Rightarrow> (bs2, g1 \<and> g2, - v)
      else case scan_unsigned digit add width bs1 of (bs2, g2, v) \<Rightarrow> (bs2, g1 \<and> g2, v)))"

context peeking_reader
begin

lemma scans_extract:
  assumes "ok r" "rem r \<noteq> []" and "\<And>r'. ok r' \<Longrightarrow> rem r' = tl (rem r) \<Longrightarrow> scans ok rem (\<lambda>p. G r' p [hd (rem r)]) out"
  shows "scans ok rem (\<lambda>p. rbind (sr_extract ops r p 1) (\<lambda>(r', p', bytes). G r' p' bytes)) out"
proof -
  obtain rest g v where out: "out = (rest, g, v)" by (cases out)
  obtain bs r' where *: "(False \<in> set bs) = (length (rem r) < 1)" "ok r'" "rem r' = drop 1 (rem r)"
    "\<And>p. sr_extract ops r p 1 = rbind (report_all p bs) (\<lambda>p'. Inr (r', p', take 1 (rem r)))"
    using extracts [OF assms(1), of 1] by blast
  have hd: "take 1 (rem r) = [hd (rem r)]" "drop 1 (rem r) = tl (rem r)"
    using assms(2) by (cases "rem r"; simp)+
  have "scans ok rem (\<lambda>p. sr_extract ops r p 1) (tl (rem r), True, [hd (rem r)])"
    unfolding scans_def prod.case by (rule exI [of _ bs], rule exI [of _ r']) (use * hd assms(2) in auto)
  from scans_bind [OF this, of G, where g'=g and rest'=rest and v'=v] assms(3) show ?thesis by (simp add: out)
qed

lemmas scans_extract_Suc = scans_extract [unfolded One_nat_def]

lemma scans_peek:
  assumes "ok r" "rem r \<noteq> []" "scans ok rem (\<lambda>p. G p (hd (rem r))) out"
  shows "scans ok rem (\<lambda>p. rbind (sr_peek ops r p) (\<lambda>(p', c). G p' c)) out"
proof -
  obtain rest g v where out: "out = (rest, g, v)" by (cases out)
  obtain bs where 1: "False \<notin> set bs" "\<And>p. sr_peek ops r p = rbind (report_all p bs) (\<lambda>p'. Inr (p', hd (rem r)))"
    using peek [OF assms(1,2)] by blast
  from assms(3) obtain bs' r' where 2: "ok r'" "rem r' = rest" "(False \<in> set bs') = (\<not> g)"
    "\<And>p. G p (hd (rem r)) = rbind (report_all p bs') (\<lambda>p'. Inr (r', p', v))" by (auto simp: scans_def out)
  show ?thesis unfolding out scans_def prod.case
    by (rule exI [of _ "bs @ bs'"], rule exI [of _ r']) (use 1 2 in \<open>auto simp: report_all_append rbind_assoc\<close>)
qed

lemma scans_peek_end:
  assumes "ok r" "rem r = []" "scans ok rem (\<lambda>p. G p 0) (rest, g, v)"
  shows "scans ok rem (\<lambda>p. rbind (sr_peek ops r p) (\<lambda>(p', c). G p' c)) (rest, False, v)"
proof -
  obtain bs where 1: "False \<in> set bs" "\<And>p. sr_peek ops r p = rbind (report_all p bs) (\<lambda>p'. Inr (p', 0))"
    using peek_at_end [OF assms(1,2)] by blast
  from assms(3) obtain bs' r' where 2: "ok r'" "rem r' = rest" "(False \<in> set bs') = (\<not> g)"
    "\<And>p. G p 0 = rbind (report_all p bs') (\<lambda>p'. Inr (r', p', v))" by (auto simp: scans_def)
  show ?thesis unfolding scans_def prod.case
    by (rule exI [of _ "bs @ bs'"], rule exI [of _ r']) (use 1 2 in \<open>auto simp: report_all_append rbind_assoc\<close>)
qed

lemma skip_spaces_scans:
  assumes "ok r" "length (rem r) < fuel"
  shows "scans ok rem (ti_skip_spaces_loop ops fuel r)
    (fst (scan_spaces (rem r)), snd (scan_spaces (rem r)), if fst (scan_spaces (rem r)) = [] then 0 else hd (fst (scan_spaces (rem r))))"
  using assms
proof (induction fuel arbitrary: r)
  case (Suc fuel)
  show ?case
  proof (cases "rem r")
    case Nil
    then show ?thesis using Suc.prems scans_return [where ok=ok and rem=rem and r=r and v=0, OF Suc.prems(1)]
      by (auto simp: scan_spaces_def intro!: scans_peek_end)
  next
    case (Cons c cs)
    show ?thesis
    proof (cases "c = 32")
      case True
      define out where "out = (fst (scan_spaces cs), snd (scan_spaces cs),
        if fst (scan_spaces cs) = [] then 0 else hd (fst (scan_spaces cs)))"
      have eq: "scan_spaces (rem r) = scan_spaces cs" using Cons True by (simp add: scan_spaces_def)
      have "length cs < fuel" using Suc.prems(2) Cons by simp
      then have IH: "scans ok rem (ti_skip_spaces_loop ops fuel r') out" if "ok r'" "rem r' = cs" for r'
        using Suc.IH [OF that(1)] unfolding that(2) out_def by blast
      show ?thesis
        unfolding eq out_def [symmetric] using Suc.prems(1) Cons True by (auto intro!: scans_peek scans_extract_Suc IH)
    next
      case False
      then show ?thesis using Suc.prems scans_return [where ok=ok and rem=rem and r=r and v=c, OF Suc.prems(1)] Cons
        by (auto simp: scan_spaces_def intro!: scans_peek)
    qed
  qed
qed simp

lemma fuel_enough: "ok r \<Longrightarrow> length (rem r) < ti_fuel ops r"
  by (simp add: ti_fuel_def available)

lemma skip_spaces_bind:
  assumes "ok r" and "\<And>r'. ok r' \<Longrightarrow> rem r' = fst (scan_spaces (rem r)) \<Longrightarrow> scans ok rem (G r') (rest, g, v)"
  shows "scans ok rem (\<lambda>p. rbind (ti_skip_spaces ops r p) (\<lambda>(r', p'). G r' p')) (rest, snd (scan_spaces (rem r)) \<and> g, v)"
proof -
  have "rbind (ti_skip_spaces ops r p) (\<lambda>(r', p'). G r' p') =
      rbind (ti_skip_spaces_loop ops (ti_fuel ops r) r p) (\<lambda>(r', p', c). G r' p')" for p
    by (cases "ti_skip_spaces_loop ops (ti_fuel ops r) r p") (auto simp: ti_skip_spaces_def split: prod.splits)
  then show ?thesis
    using scans_bind [OF skip_spaces_scans [OF assms(1) fuel_enough [OF assms(1)]], of "\<lambda>r' p' c. G r' p'"] assms(2) by simp
qed

lemma number_scans:
  assumes "ok r" "length (rem r) < fuel" "digit 0 = None"
  shows "scans ok rem (ti_number_loop ops digit add width fuel i v r) (scan_number digit add width i v (rem r))"
  using assms(1,2)
proof (induction fuel arbitrary: r i v)
  case 0
  then show ?case by simp
next
  case (Suc fuel)
  note empty = empty [OF Suc.prems(1)]
  show ?case
  proof (cases "rem r")
    case Nil
    show ?thesis
    proof (cases "i = 0")
      case True
      have "scans ok rem (\<lambda>p. rbind (report_result p False) (\<lambda>p2. Inr (r, p2, v))) ([], False \<and> True, v)"
        using scans_return [where ok=ok and rem=rem and r=r and v=v, OF Suc.prems(1)] Nil by (intro scans_report) simp
      then show ?thesis using Suc.prems(1) Nil True assms(3) by (auto intro!: scans_peek_end)
    next
      case False
      then show ?thesis using empty Nil scans_return [where ok=ok and rem=rem and r=r and v=v, OF Suc.prems(1)] by simp
    qed
  next
    case (Cons c cs)
    show ?thesis
    proof (cases "width = Some i \<and> i \<noteq> 0")
      case True
      then show ?thesis using Cons scans_return [where ok=ok and rem=rem and r=r and v=v, OF Suc.prems(1)] by simp
    next
      case False
      then have cond: "(width \<noteq> Some i \<and> \<not> sr_empty ops r) \<or> i = 0" using empty Cons by auto
      show ?thesis
      proof (cases "digit c")
        case None
        have "scans ok rem (\<lambda>p. rbind (report_result p (i > 0)) (\<lambda>p2. Inr (r, p2, v))) (rem r, i > 0 \<and> True, v)"
          by (intro scans_report scans_return Suc.prems)
        then show ?thesis using Suc.prems(1) Cons None cond False by (auto intro!: scans_peek)
      next
        case (Some d)
        have "scans ok rem (ti_number_loop ops digit add width fuel (Suc i) (add v d) r')
            (scan_number digit add width (Suc i) (add v d) cs)" if "ok r'" "rem r' = tl (rem r)" for r'
          using Suc.IH [OF that(1), of "Suc i" "add v d"] that(2) Cons Suc.prems(2) by (simp split: if_splits)
        then show ?thesis using Suc.prems(1) Cons Some cond False by (auto intro!: scans_peek scans_extract_Suc)
      qed
    qed
  qed
qed

end

text \<open>The scanners of the remaining operations.\<close>

fun scan_from_hex :: "nat \<Rightarrow> u8 \<Rightarrow> u8 \<Rightarrow> byte list \<Rightarrow> byte list \<Rightarrow> byte list \<times> bool \<times> byte list" where
  "scan_from_hex room bitIndex decoded done [] = ([], room = 0, done)"
| "scan_from_hex room bitIndex decoded done (b # bs) =
     (if room = 0 then (b # bs, True, done)
      else if decode_hex_byte b \<ge> 16 then (bs, False, done)
      else let decoded = push_bit 4 decoded OR of_nat (decode_hex_byte b); bitIndex = bitIndex + 4
        in if bitIndex = 8 then scan_from_hex (room - 1) 0 decoded (done @ [decoded]) bs
           else scan_from_hex room bitIndex decoded done bs)"

fun scan_padding :: "u8 \<Rightarrow> byte list \<Rightarrow> byte list \<times> bool" where
  "scan_padding bitIndex [] = ([], True)"
| "scan_padding bitIndex (b # bs) = (if bitIndex = 0 then (b # bs, True)
     else (fst (scan_padding (bitIndex - 2) bs), b = 61 \<and> snd (scan_padding (bitIndex - 2) bs)))"

fun scan_from_base64 :: "nat \<Rightarrow> u8 \<Rightarrow> u16 \<Rightarrow> byte list \<Rightarrow> byte list \<Rightarrow> byte list \<times> bool \<times> byte list" where
  "scan_from_base64 room bitIndex word done [] = ([], room = 0, done)"
| "scan_from_base64 room bitIndex word done (b # bs) =
     (if room = 0 then (fst (scan_padding bitIndex (b # bs)), snd (scan_padding bitIndex (b # bs)), done)
      else if decode_base64_byte b \<ge> 64 then (bs, False, done)
      else let word = push_bit 6 word OR ucast (decode_base64_byte b); bitIndex = bitIndex + 6
        in if bitIndex \<ge> 8
           then scan_from_base64 (room - 1) (bitIndex - 8) word (done @ [ucast (drop_bit (unat (bitIndex - 8)) word)]) bs
           else scan_from_base64 room bitIndex word done bs)"

context peeking_reader
begin

lemma unsigned_scans:
  assumes "ok r" "digit 0 = None"
  shows "scans ok rem (\<lambda>p. rbind (ti_skip_spaces ops r p) (\<lambda>(r1, p1).
      ti_number_loop ops digit add width (ti_fuel ops r1) 0 0 r1 p1)) (scan_unsigned digit add width (rem r))"
proof -
  obtain rest g v where sc: "scan_number digit add width 0 0 (fst (scan_spaces (rem r))) = (rest, g, v)"
    by (metis prod_cases3)
  have "scans ok rem (ti_number_loop ops digit add width (ti_fuel ops r') 0 0 r') (rest, g, v)"
    if "ok r'" "rem r' = fst (scan_spaces (rem r))" for r'
    using number_scans [where r=r' and digit=digit and fuel="ti_fuel ops r'" and add=add and width=width and i=0 and v=0,
        OF that(1) fuel_enough [OF that(1)] assms(2)] that(2) sc by simp
  from skip_spaces_bind [OF assms(1) this] sc show ?thesis
    by (simp add: scan_unsigned_def split_beta)
qed

lemma signed_scans:
  assumes "ok r" and un: "\<And>r. ok r \<Longrightarrow> scans ok rem (F r) (scan_unsigned digit add width (rem r))"
  shows "scans ok rem (\<lambda>p. rbind (ti_skip_spaces ops r p) (\<lambda>(r1, p1).
     rbind (sr_peek ops r1 p1) (\<lambda>(p2, c).
       if c = 45 then rbind (sr_extract ops r1 p2 1) (\<lambda>(r3, p3, _).
            rbind (F r3 p3) (\<lambda>(r4, p4, vp). Inr (r4, p4, - 1 * vp)))
       else rbind (F r1 p2) (\<lambda>(r3, p3, vp). Inr (r3, p3, 1 * vp))))) (scan_signed digit add width (rem r))"
proof -
  let ?bs = "fst (scan_spaces (rem r))" and ?g = "snd (scan_spaces (rem r))"
  have neg: "scans ok rem (\<lambda>p. rbind (F r' p) (\<lambda>(r4, p4, vp). Inr (r4, p4, k * vp)))
      (case scan_unsigned digit add width (rem r') of (rest, g, v) \<Rightarrow> (rest, g, k * v))" if "ok r'" for r' k
  proof -
    obtain rest g v where sc: "scan_unsigned digit add width (rem r') = (rest, g, v)" by (metis prod_cases3)
    have "scans ok rem (\<lambda>p. Inr (r4, p, k * v)) (rest, True, k * v)" if "ok r4" "rem r4 = rest" for r4
      using scans_return [where ok=ok and rem=rem, OF that(1)] that(2) by simp
    from scans_bind [OF un [OF that, unfolded sc], of "\<lambda>r4 p4 vp. Inr (r4, p4, k * vp)", OF this] sc show ?thesis by simp
  qed
  define inner where "inner = (if ?bs \<noteq> [] \<and> hd ?bs = 45
      then case scan_unsigned digit add width (tl ?bs) of (rest, g, v) \<Rightarrow> (rest, g, - 1 * v)
      else case scan_unsigned digit add width ?bs of (rest, g, v) \<Rightarrow> (rest, g, 1 * v))"
  obtain rest g v where sc: "inner = (rest, g, v)" by (cases inner)
  have "scans ok rem (\<lambda>p. rbind (sr_peek ops r' p) (\<lambda>(p2, c).
       if c = 45 then rbind (sr_extract ops r' p2 1) (\<lambda>(r3, p3, _).
            rbind (F r3 p3) (\<lambda>(r4, p4, vp). Inr (r4, p4, - 1 * vp)))
       else rbind (F r' p2) (\<lambda>(r3, p3, vp). Inr (r3, p3, 1 * vp)))) (rest, ?bs \<noteq> [] \<and> g, v)"
    if r': "ok r'" "rem r' = ?bs" for r'
  proof (cases "?bs")
    case Nil
    have "scans ok rem (\<lambda>p. rbind (F r' p) (\<lambda>(r3, p3, vp). Inr (r3, p3, 1 * vp))) (rest, g, v)"
      using neg [OF r'(1), of 1] sc Nil r'(2) by (simp add: inner_def)
    then show ?thesis using r' Nil by (auto intro!: scans_peek_end)
  next
    case (Cons c cs)
    show ?thesis
    proof (cases "c = 45")
      case True
      have "scans ok rem (\<lambda>p. rbind (F s p) (\<lambda>(r4, p4, vp). Inr (r4, p4, - 1 * vp))) (rest, g, v)"
        if "ok s" "rem s = cs" for s
        using neg [OF that(1), of "- 1"] that(2) sc Cons True by (simp add: inner_def)
      then show ?thesis using r' Cons True by (auto intro!: scans_peek scans_extract_Suc)
    next
      case False
      have "scans ok rem (\<lambda>p. rbind (F r' p) (\<lambda>(r4, p4, vp). Inr (r4, p4, 1 * vp))) (rest, g, v)"
        using neg [OF r'(1), of 1] r'(2) sc Cons False by (simp add: inner_def)
      then show ?thesis using r' Cons False by (auto intro!: scans_peek)
    qed
  qed
  note total = skip_spaces_bind [OF assms(1) this]
  have nil: "?g \<longleftrightarrow> ?bs \<noteq> []" by (simp add: scan_spaces_def)
  have "scan_signed digit add width (rem r) = (case inner of (rest, g, v) \<Rightarrow> (rest, ?g \<and> g, v))"
    by (auto simp: scan_signed_def inner_def split: prod.splits)
  then have "scan_signed digit add width (rem r) = (rest, ?g \<and> ?bs \<noteq> [] \<and> g, v)"
    using sc nil by auto
  with total show ?thesis by simp
qed

lemma char_scans:
  assumes "ok r" "rem r \<noteq> []" and "\<And>r'. ok r' \<Longrightarrow> rem r' = tl (rem r) \<Longrightarrow> scans ok rem (\<lambda>p. G r' p (hd (rem r))) out"
  shows "scans ok rem (\<lambda>p. rbind (ti_char ops r p c) (\<lambda>(r', p', b). G r' p' b)) out"
proof -
  have "rbind (ti_char ops r p c) (\<lambda>(r', p', b). G r' p' b) =
      rbind (sr_extract ops r p 1) (\<lambda>(r', p', bytes). G r' p' (hd (extract_into [c] bytes)))" for p
    by (cases "sr_extract ops r p 1") (auto simp: ti_char_def split: prod.splits)
  then show ?thesis
    using scans_extract [OF assms(1,2), of "\<lambda>r' p' bytes. G r' p' (hd (extract_into [c] bytes))"] assms(3)
    by (simp add: extract_into_def)
qed

lemma from_hex_scans:
  assumes "ok r" "length (rem r) < fuel"
  shows "scans ok rem (ti_from_hex_loop ops fuel room bitIndex decoded done r)
    (scan_from_hex room bitIndex decoded done (rem r))"
  using assms
proof (induction fuel arbitrary: r room bitIndex decoded "done")
  case (Suc fuel)
  note empty = empty [OF Suc.prems(1)] and ret = scans_return [where ok=ok and rem=rem, OF Suc.prems(1)]
  have report: "scans ok rem (\<lambda>p. rbind (report_result p b) (\<lambda>p1. Inr (r', p1, v))) (rem r', b, v)" if "ok r'" for r' b and v :: "byte list"
    using scans_report [OF scans_return [where ok=ok and rem=rem and v=v, OF that], of b] by simp
  show ?case
  proof (cases "rem r")
    case Nil
    then show ?thesis using empty report [OF Suc.prems(1), of "room = 0" "done"] by simp
  next
    case (Cons c cs)
    show ?thesis
    proof (cases "room = 0")
      case True
      then show ?thesis using Cons report [OF Suc.prems(1), of True "done"] by simp
    next
      case False
      show ?thesis using Suc.prems False Cons empty
        by (auto simp: Let_def intro!: char_scans report Suc.IH)
    qed
  qed
qed simp

lemma padding_bind:
  assumes "ok r" "length (rem r) < fuel"
    and "\<And>r'. ok r' \<Longrightarrow> rem r' = fst (scan_padding bitIndex (rem r)) \<Longrightarrow> scans ok rem (G r') (rest, g, v)"
  shows "scans ok rem (\<lambda>p. rbind (ti_base64_padding ops fuel bitIndex r p) (\<lambda>(r', p'). G r' p'))
    (rest, snd (scan_padding bitIndex (rem r)) \<and> g, v)"
  using assms
proof (induction fuel arbitrary: r bitIndex)
  case (Suc fuel)
  note empty = empty [OF Suc.prems(1)]
  show ?case
  proof (cases "bitIndex = 0 \<or> rem r = []")
    case True
    then have "scan_padding bitIndex (rem r) = (rem r, True)" by (cases "rem r") auto
    then show ?thesis using True empty Suc.prems(1,3) by auto
  next
    case False
    then obtain c cs where c: "rem r = c # cs" by (cases "rem r") auto
    have IH: "scans ok rem (\<lambda>p. rbind (report_result p (c = 61)) (\<lambda>p2.
          rbind (ti_base64_padding ops fuel (bitIndex - 2) r' p2) (\<lambda>(r', p'). G r' p')))
        (rest, c = 61 \<and> snd (scan_padding (bitIndex - 2) cs) \<and> g, v)" if "ok r'" "rem r' = cs" for r'
      using Suc.IH [OF that(1), of "bitIndex - 2"] that(2) Suc.prems False c by (intro scans_report) auto
    have "scans ok rem (\<lambda>p. rbind (ti_char ops r p 0) (\<lambda>(r1, p1, c). rbind (report_result p1 (c = 61)) (\<lambda>p2.
          rbind (ti_base64_padding ops fuel (bitIndex - 2) r1 p2) (\<lambda>(r', p'). G r' p'))))
        (rest, c = 61 \<and> snd (scan_padding (bitIndex - 2) cs) \<and> g, v)"
      by (rule char_scans) (use Suc.prems(1) c IH in simp_all)
    moreover have "rbind (ti_base64_padding ops (Suc fuel) bitIndex r p) (\<lambda>(r', p'). G r' p') =
        rbind (ti_char ops r p 0) (\<lambda>(r1, p1, c). rbind (report_result p1 (c = 61)) (\<lambda>p2.
          rbind (ti_base64_padding ops fuel (bitIndex - 2) r1 p2) (\<lambda>(r', p'). G r' p')))" for p
      using False empty by (cases "ti_char ops r p 0") (auto simp: rbind_assoc split: prod.splits)
    ultimately show ?thesis using False c by simp
  qed
qed simp

lemma from_base64_scans:
  assumes "ok r" "length (rem r) < fuel"
  shows "scans ok rem (ti_from_base64_loop ops fuel room bitIndex word done r)
    (scan_from_base64 room bitIndex word done (rem r))"
  using assms
proof (induction fuel arbitrary: r room bitIndex word "done")
  case (Suc fuel)
  note empty = empty [OF Suc.prems(1)]
  have report: "scans ok rem (\<lambda>p. rbind (report_result p b) (\<lambda>p1. Inr (r', p1, v))) (rem r', b, v)" if "ok r'" for r' b and v :: "byte list"
    using scans_report [OF scans_return [where ok=ok and rem=rem and v=v, OF that], of b] by simp
  show ?case
  proof (cases "room = 0 \<or> rem r = []")
    case True
    let ?p = "scan_padding bitIndex (rem r)"
    have "scans ok rem (\<lambda>p. rbind (ti_base64_padding ops (ti_fuel ops r) bitIndex r p) (\<lambda>(r1, p1).
        rbind (report_result p1 (room = 0)) (\<lambda>p2. Inr (r1, p2, done)))) (fst ?p, snd ?p \<and> room = 0, done)"
      using report by (intro padding_bind Suc.prems(1) fuel_enough) metis
    then show ?thesis using True empty by (cases "rem r") auto
  next
    case False
    then obtain c cs where c: "rem r = c # cs" by (cases "rem r") auto
    show ?thesis using Suc.prems False c empty
      by (auto simp: Let_def intro!: char_scans report Suc.IH)
  qed
qed simp

end

end
