(* ===== verification/Text_Roundtrip.thy ===== *)
theory Text_Roundtrip
  imports Text_Input
begin

text \<open>
  Text written by \<open>TextOutputStream\<close> and read by \<open>TextInputStream\<close>: numbers in decimal and hexadecimal,
  byte ranges in hexadecimal and base64.
\<close>

section \<open>The digits of a number\<close>

definition digits :: "nat \<Rightarrow> nat \<Rightarrow> nat \<Rightarrow> nat list" where
  "digits base v k = map (\<lambda>i. v div base ^ i mod base) (rev [0..<k])"

definition horner :: "nat \<Rightarrow> nat \<Rightarrow> nat list \<Rightarrow> nat" where
  "horner base a ds = foldl (\<lambda>a d. a * base + d) a ds"

lemma digits_Suc: "digits base v (Suc k) = v div base ^ k mod base # digits base v k"
  by (simp add: digits_def)

lemma horner_digits: "horner base a (digits base v k) = a * base ^ k + v mod base ^ k"
proof (induction k arbitrary: a)
  case 0
  then show ?case by (simp add: horner_def digits_def)
next
  case (Suc k)
  have "v mod base ^ Suc k = base ^ k * (v div base ^ k mod base) + v mod base ^ k"
    unfolding power_Suc2 by (rule mod_mult2_eq)
  moreover have "horner base a (digits base v (Suc k)) = horner base (a * base + v div base ^ k mod base) (digits base v k)"
    by (simp add: digits_Suc horner_def)
  ultimately show ?case using Suc.IH by (simp add: algebra_simps)
qed

lemma digits_less: "0 < base \<Longrightarrow> d \<in> set (digits base v k) \<Longrightarrow> d < base"
  by (auto simp: digits_def)

lemma print_mask_digits:
  assumes "2 \<le> base"
  shows "print_mask base v (base ^ k) = digits base v (Suc k)"
proof (induction k)
  case 0
  have "print_mask base v 0 = []" by (subst print_mask.simps) simp
  moreover have "print_mask base v 1 = v div 1 mod base # print_mask base v (1 div base)"
    using assms by (subst print_mask.simps) simp
  moreover have "1 div base = 0" using assms by simp
  ultimately show ?case by (simp add: digits_def)
next
  case (Suc k)
  have "base ^ Suc k div base = base ^ k" using assms by simp
  moreover have "print_mask base v (base ^ Suc k) = v div base ^ Suc k mod base # print_mask base v (base ^ Suc k div base)"
    using assms by (subst print_mask.simps) simp
  ultimately show ?case using Suc by (simp only: digits_Suc)
qed

lemma digit_mask_power:
  assumes "2 \<le> base" "base ^ k \<le> v \<or> k = 0"
  shows "\<exists>j. digit_mask base v (base ^ k) n = (base ^ j, n + (j - k)) \<and> k \<le> j \<and> v < base ^ Suc j \<and> (base ^ j \<le> v \<or> j = 0)"
  using assms(2)
proof (induction "v - base ^ k" arbitrary: k n rule: less_induct)
  case less
  show ?case
  proof (cases "base \<le> v div base ^ k")
    case True
    have le: "base ^ Suc k \<le> v" "base ^ k < base ^ Suc k"
      using mask_grows(2,3) [OF assms(1) True] by (simp_all add: mult.commute)
    then have "v - base ^ Suc k < v - base ^ k" by linarith
    with less.hyps [of "Suc k" "n + 1"] le(1) obtain j where j:
      "digit_mask base v (base ^ Suc k) (n + 1) = (base ^ j, n + 1 + (j - Suc k))" "Suc k \<le> j"
      "v < base ^ Suc j" "base ^ j \<le> v \<or> j = 0"
      by blast
    have "digit_mask base v (base ^ k) n = digit_mask base v (base ^ Suc k) (n + 1)"
      using True assms(1) by (subst digit_mask.simps) (simp add: mult.commute)
    then show ?thesis using j by (intro exI [of _ j]) auto
  next
    case False
    have "v < base ^ Suc k"
      using False assms(1) by (simp add: not_le div_less_iff_less_mult)
    moreover have "digit_mask base v (base ^ k) n = (base ^ k, n)"
      using False by (subst digit_mask.simps) simp
    ultimately show ?thesis using less.prems by (intro exI [of _ k]) auto
  qed
qed

text \<open>Without padding, a number is its sign and its digits, as many as are needed.\<close>

lemma output_number_digits:
  assumes "2 \<le> base" "tf_width f = 0"
  shows "\<exists>k. concat (output_number base digit f v negative) = (if negative then ''-'' else []) @ map digit (digits base (unat v) (Suc k)) \<and>
    unat v < base ^ Suc k \<and> (base ^ k \<le> unat v \<or> k = 0)"
proof -
  obtain j where j: "digit_mask base (unat v) (base ^ 0) (if negative then 2 else 1) = (base ^ j, (if negative then 2 else 1) + (j - 0))"
    "unat v < base ^ Suc j" "base ^ j \<le> unat v \<or> j = 0"
    using digit_mask_power [OF assms(1), of 0 "unat v" "if negative then 2 else 1"] by auto
  have cat: "concat (map (\<lambda>d. [digit d]) ds) = map digit ds" for ds :: "nat list"
    by (induction ds) auto
  show ?thesis
    using j assms print_mask_digits [OF assms(1), of "unat v" j]
    by (intro exI [of _ j]) (auto simp: output_number_def optional_padding_def cat)
qed

section \<open>Reading digits back\<close>

lemma scan_number_digits:
  assumes "\<And>d. d \<in> set ds \<Longrightarrow> digit (enc d) = Some d"
  shows "scan_number digit add None i v (map enc ds @ rest) = scan_number digit add None (i + length ds) (foldl add v ds) rest"
  using assms by (induction ds arbitrary: i v) auto

lemma scan_number_stop:
  "rest = [] \<or> digit (hd rest) = None \<Longrightarrow> scan_number digit add None (Suc i) v rest = (rest, True, v)"
  by (cases rest) auto

lemma foldl_add_decimal: "foldl add_decimal (of_nat a :: 'w::len word) ds = of_nat (horner 10 a ds)"
proof (induction ds arbitrary: a)
  case (Cons d ds)
  have "add_decimal (of_nat a :: 'w word) d = of_nat (a * 10 + d)" by (simp add: add_decimal_def)
  then have "foldl add_decimal (of_nat a :: 'w word) (d # ds) = of_nat (horner 10 (a * 10 + d) ds)"
    by (simp only: foldl_Cons Cons.IH)
  then show ?case by (simp only: horner_def foldl_Cons)
qed (simp add: horner_def)

lemma foldl_add_hexadecimal: "foldl add_hexadecimal (of_nat a :: 'w::len word) ds = of_nat (horner 16 a ds)"
proof (induction ds arbitrary: a)
  case (Cons d ds)
  have "add_hexadecimal (of_nat a :: 'w word) d = of_nat (a * 16 + d)" by (simp add: add_hexadecimal_def push_bit_eq_mult)
  then have "foldl add_hexadecimal (of_nat a :: 'w word) (d # ds) = of_nat (horner 16 (a * 16 + d) ds)"
    by (simp only: foldl_Cons Cons.IH)
  then show ?case by (simp only: horner_def foldl_Cons)
qed (simp add: horner_def)

definition decimal_byte :: "nat \<Rightarrow> byte" where
  "decimal_byte d = of_nat (d + 48)"

definition hexadecimal_byte :: "nat \<Rightarrow> byte" where
  "hexadecimal_byte d = of_nat (of_char (hex_digit d))"

lemma less_cases_10: "(d :: nat) < 10 \<Longrightarrow> d = 0 \<or> d = 1 \<or> d = 2 \<or> d = 3 \<or> d = 4 \<or> d = 5 \<or> d = 6 \<or> d = 7 \<or> d = 8 \<or> d = 9"
  by auto

lemma less_cases_16:
  "(d :: nat) < 16 \<Longrightarrow> d < 10 \<or> d = 10 \<or> d = 11 \<or> d = 12 \<or> d = 13 \<or> d = 14 \<or> d = 15"
  by auto

lemma decimal_byte_digit [simp]: "d < 10 \<Longrightarrow> decimal_digit (decimal_byte d) = Some d"
  by (drule less_cases_10) (auto simp: decimal_digit_def decimal_byte_def)

lemma hexadecimal_byte_digit [simp]: "d < 16 \<Longrightarrow> hexadecimal_digit (hexadecimal_byte d) = Some d"
  by (drule less_cases_16, elim disjE, drule less_cases_10)
    (auto simp: hexadecimal_digit_def hexadecimal_byte_def hex_digit_def)

lemma decimal_byte_plain [simp]: "d < 10 \<Longrightarrow> decimal_byte d \<noteq> 32" "d < 10 \<Longrightarrow> decimal_byte d \<noteq> 45"
  by (drule less_cases_10, auto simp: decimal_byte_def)+

lemma hexadecimal_byte_plain [simp]: "d < 16 \<Longrightarrow> hexadecimal_byte d \<noteq> 32" "d < 16 \<Longrightarrow> hexadecimal_byte d \<noteq> 45"
  by (drule less_cases_16, elim disjE, drule less_cases_10, auto simp: hexadecimal_byte_def hex_digit_def)+

section \<open>Numbers\<close>

lemma bytes_of_digits:
  "bytes_of (map (\<lambda>d. char_of (d + 48)) ds) = map decimal_byte ds" if "\<And>d. d \<in> set ds \<Longrightarrow> d < 10"
proof -
  have "of_nat (of_char (char_of (d + 48) :: char)) = decimal_byte d" if "d \<in> set ds" for d
  proof -
    have "(d + 48) mod 256 = d + 48" using \<open>\<And>d. d \<in> set ds \<Longrightarrow> d < 10\<close> [OF that] by (intro mod_less) simp
    then show ?thesis by (simp only: of_char_of decimal_byte_def)
  qed
  then show ?thesis by (simp add: bytes_of_def)
qed

lemma bytes_of_hex_digits: "bytes_of (map hex_digit ds) = map hexadecimal_byte ds"
  by (simp add: bytes_of_def hexadecimal_byte_def o_def)

lemma out_decimal_bytes:
  assumes "tf_width f = 0"
  shows "\<exists>ds. ds \<noteq> [] \<and> (\<forall>d \<in> set ds. d < 10) \<and> horner 10 0 ds = unat v \<and>
    bytes_of (concat (output_as_decimal f v negative)) = (if negative then [45] else []) @ map decimal_byte ds"
proof -
  obtain k where k: "concat (output_number 10 (\<lambda>d. char_of (d + 48)) f v negative) =
      (if negative then ''-'' else []) @ map (\<lambda>d. char_of (d + 48)) (digits 10 (unat v) (Suc k))" "unat v < 10 ^ Suc k"
    using output_number_digits [of 10 f "\<lambda>d. char_of (d + 48)" v negative] assms by auto
  have small: "d < 10" if "d \<in> set (digits 10 (unat v) (Suc k))" for d
    using digits_less [OF _ that] by simp
  have "bytes_of ''-'' = [45]" by (simp add: bytes_of_def)
  moreover have "digits 10 (unat v) (Suc k) \<noteq> []" by (simp add: digits_def)
  moreover have "horner 10 0 (digits 10 (unat v) (Suc k)) = unat v" using k(2) by (simp add: horner_digits)
  ultimately show ?thesis
    unfolding output_as_decimal_def k(1) using bytes_of_digits [OF small] small
    by (intro exI [of _ "digits 10 (unat v) (Suc k)"]) (simp add: bytes_of_def)
qed

lemma out_hexadecimal_bytes:
  assumes "tf_width f = 0"
  shows "\<exists>ds. ds \<noteq> [] \<and> (\<forall>d \<in> set ds. d < 16) \<and> horner 16 0 ds = unat v \<and>
    bytes_of (concat (output_as_hexadecimal f v negative)) = (if negative then [45] else []) @ map hexadecimal_byte ds"
proof -
  obtain k where k: "concat (output_number 16 hex_digit f v negative) =
      (if negative then ''-'' else []) @ map hex_digit (digits 16 (unat v) (Suc k))" "unat v < 16 ^ Suc k"
    using output_number_digits [of 16 f hex_digit v negative] assms by auto
  have small: "d < 16" if "d \<in> set (digits 16 (unat v) (Suc k))" for d
    using digits_less [OF _ that] by simp
  have "bytes_of ''-'' = [45]" by (simp add: bytes_of_def)
  moreover have "digits 16 (unat v) (Suc k) \<noteq> []" by (simp add: digits_def)
  moreover have "horner 16 0 (digits 16 (unat v) (Suc k)) = unat v" using k(2) by (simp add: horner_digits)
  ultimately show ?thesis
    unfolding output_as_hexadecimal_def k(1) using bytes_of_hex_digits [of "digits 16 (unat v) (Suc k)"] small
    by (intro exI [of _ "digits 16 (unat v) (Suc k)"]) (simp add: bytes_of_def)
qed

definition not_a_digit :: "byte list \<Rightarrow> bool" where
  "not_a_digit rest \<longleftrightarrow> rest = [] \<or> hexadecimal_digit (hd rest) = None"

lemma not_a_digit_decimal: "not_a_digit rest \<Longrightarrow> rest = [] \<or> decimal_digit (hd rest) = None"
  by (auto simp: not_a_digit_def decimal_digit_def hexadecimal_digit_def split: if_splits)

lemma scan_unsigned_digits:
  assumes "ds \<noteq> []" "\<And>d. d \<in> set ds \<Longrightarrow> digit (enc d) = Some d" "\<And>d. d \<in> set ds \<Longrightarrow> enc d \<noteq> 32"
    and "rest = [] \<or> digit (hd rest) = None"
  shows "scan_unsigned digit add None (map enc ds @ rest) = (rest, True, foldl add 0 ds)"
proof -
  obtain e es where e: "ds = e # es" using assms(1) by (cases ds) auto
  have "scan_spaces (map enc ds @ rest) = (map enc ds @ rest, True)"
    using assms(3) [of e] e by (simp add: scan_spaces_def)
  then show ?thesis
    using scan_number_digits [of ds digit enc add 0 0 rest] assms(2) scan_number_stop [where rest=rest and digit=digit and add=add and i="length es", OF assms(4)] e
    by (simp add: scan_unsigned_def)
qed

lemma scan_signed_digits:
  assumes "ds \<noteq> []" "\<And>d. d \<in> set ds \<Longrightarrow> digit (enc d) = Some d"
    and "\<And>d. d \<in> set ds \<Longrightarrow> enc d \<noteq> 32" "\<And>d. d \<in> set ds \<Longrightarrow> enc d \<noteq> 45"
    and "rest = [] \<or> digit (hd rest) = None"
  shows "scan_signed digit add None ((if negative then [45] else []) @ map enc ds @ rest) =
    (rest, True, if negative then - foldl add 0 ds else foldl add 0 ds)"
proof -
  obtain e es where e: "ds = e # es" using assms(1) by (cases ds) auto
  show ?thesis
  proof (cases negative)
    case True
    then show ?thesis using scan_unsigned_digits [where digit=digit and add=add and enc=enc and ds=ds and rest=rest, OF assms(1-3,5)]
      by (simp add: scan_signed_def scan_spaces_def)
  next
    case False
    have "scan_spaces (map enc ds @ rest) = (map enc ds @ rest, True)"
      using assms(3) [of e] e by (simp add: scan_spaces_def)
    then show ?thesis using scan_unsigned_digits [where digit=digit and add=add and enc=enc and ds=ds and rest=rest, OF assms(1-3,5)] assms(4) [of e] e False
      by (simp add: scan_signed_def)
  qed
qed

lemma u64_text:
  assumes "tf_width f = 0" "not_a_digit rest"
  shows "tf_radix f = Dec \<Longrightarrow> scan_unsigned decimal_digit add_decimal None (bytes_of (concat (out_u64 f v)) @ rest) = (rest, True, v)"
    and "tf_radix f = Hex \<Longrightarrow> scan_unsigned hexadecimal_digit add_hexadecimal None (bytes_of (concat (out_u64 f v)) @ rest) = (rest, True, v)"
proof -
  assume "tf_radix f = Dec"
  obtain ds where ds: "ds \<noteq> []" "\<forall>d \<in> set ds. d < 10" "horner 10 0 ds = unat v"
    "bytes_of (concat (output_as_decimal f v False)) = map decimal_byte ds"
    using out_decimal_bytes [OF assms(1), of v False] by auto
  then show "scan_unsigned decimal_digit add_decimal None (bytes_of (concat (out_u64 f v)) @ rest) = (rest, True, v)"
    using scan_unsigned_digits [of ds decimal_digit decimal_byte rest add_decimal]
      not_a_digit_decimal [OF assms(2)] foldl_add_decimal [of 0 ds, where 'w=64] \<open>tf_radix f = Dec\<close>
    by (auto simp: out_u64_def)
next
  assume "tf_radix f = Hex"
  obtain ds where ds: "ds \<noteq> []" "\<forall>d \<in> set ds. d < 16" "horner 16 0 ds = unat v"
    "bytes_of (concat (output_as_hexadecimal f v False)) = map hexadecimal_byte ds"
    using out_hexadecimal_bytes [OF assms(1), of v False] by auto
  then show "scan_unsigned hexadecimal_digit add_hexadecimal None (bytes_of (concat (out_u64 f v)) @ rest) = (rest, True, v)"
    using scan_unsigned_digits [of ds hexadecimal_digit hexadecimal_byte rest add_hexadecimal]
      assms(2) foldl_add_hexadecimal [of 0 ds, where 'w=64] \<open>tf_radix f = Hex\<close>
    by (auto simp: out_u64_def not_a_digit_def)
qed

lemma i64_text:
  assumes "tf_width f = 0" "not_a_digit rest"
  shows "tf_radix f = Dec \<Longrightarrow> scan_signed decimal_digit add_decimal None (bytes_of (concat (out_i64 f v)) @ rest) = (rest, True, v)"
    and "tf_radix f = Hex \<Longrightarrow> scan_signed hexadecimal_digit add_hexadecimal None (bytes_of (concat (out_i64 f v)) @ rest) = (rest, True, v)"
proof -
  let ?neg = "sint v < 0" and ?v = "if sint v < 0 then - v else v"
  assume "tf_radix f = Dec"
  obtain ds where ds: "ds \<noteq> []" "\<forall>d \<in> set ds. d < 10" "horner 10 0 ds = unat ?v"
    "bytes_of (concat (output_as_decimal f ?v ?neg)) = (if ?neg then [45] else []) @ map decimal_byte ds"
    using out_decimal_bytes [OF assms(1), of ?v ?neg] by auto
  have "foldl add_decimal 0 ds = ?v" using foldl_add_decimal [of 0 ds, where 'w=64] ds(3) by simp
  then show "scan_signed decimal_digit add_decimal None (bytes_of (concat (out_i64 f v)) @ rest) = (rest, True, v)"
    using scan_signed_digits [of ds decimal_digit decimal_byte rest add_decimal ?neg] ds
      not_a_digit_decimal [OF assms(2)] \<open>tf_radix f = Dec\<close>
    by (auto simp: out_i64_def Let_def)
next
  let ?neg = "sint v < 0" and ?v = "if sint v < 0 then - v else v"
  assume "tf_radix f = Hex"
  obtain ds where ds: "ds \<noteq> []" "\<forall>d \<in> set ds. d < 16" "horner 16 0 ds = unat ?v"
    "bytes_of (concat (output_as_hexadecimal f ?v ?neg)) = (if ?neg then [45] else []) @ map hexadecimal_byte ds"
    using out_hexadecimal_bytes [OF assms(1), of ?v ?neg] by auto
  have "foldl add_hexadecimal 0 ds = ?v" using foldl_add_hexadecimal [of 0 ds, where 'w=64] ds(3) by simp
  then show "scan_signed hexadecimal_digit add_hexadecimal None (bytes_of (concat (out_i64 f v)) @ rest) = (rest, True, v)"
    using scan_signed_digits [of ds hexadecimal_digit hexadecimal_byte rest add_hexadecimal ?neg] ds
      assms(2) \<open>tf_radix f = Hex\<close>
    by (auto simp: out_i64_def Let_def not_a_digit_def)
qed

section \<open>Base64\<close>

lemma decode_base64_digit:
  assumes "v < (64 :: u8)"
  shows "decode_base64_byte (of_nat (of_char (be_digit v))) = v"
proof -
  have len: "length base64_table = 64" by (simp add: base64_table_def)
  have dist: "distinct base64_table" by (simp add: base64_table_def)
  have v: "unat v < 64" using assms by (simp add: word_less_nat_alt)
  have "takeWhile (\<lambda>t. t \<noteq> base64_table ! unat v) base64_table = take (unat v) base64_table"
    using v len dist by (intro takeWhile_eq_take_P_nth) (auto simp: nth_eq_iff_index_eq)
  then show ?thesis using v len by (simp add: decode_base64_byte_def be_digit_def)
qed

definition sextets :: "u8 \<Rightarrow> u8 \<Rightarrow> u8 \<Rightarrow> u8 list" where
  "sextets a b c = [drop_bit 2 a, drop_bit 2 (push_bit 6 a) OR drop_bit 4 b,
     drop_bit 2 (push_bit 4 b) OR drop_bit 6 c, drop_bit 2 (push_bit 2 c)]"

lemma drop_bit_2_small: "drop_bit 2 (a :: u8) < 64"
  using unat_u8_less [of a] unfolding word_less_nat_alt unat_drop_bit_eq by (simp add: drop_bit_eq_div del: unat_u8_less)

lemma or_small: "a < 64 \<Longrightarrow> b < 64 \<Longrightarrow> a OR b < (64 :: u8)"
proof -
  have mask: "x < 64 \<longleftrightarrow> x = take_bit 6 x" for x :: u8
    by (simp add: take_bit_eq_mod word_less_nat_alt word_arith_nat_mod word_unat_eq_iff unat_mod)
      (metis mod_less mod_less_divisor zero_less_numeral)
  assume "a < 64" "b < 64"
  then show ?thesis by (metis mask take_bit_or)
qed

lemma sextets_small: "v \<in> set (sextets a b c) \<Longrightarrow> v < 64"
proof -
  have "drop_bit 4 b < 64" "drop_bit 6 c < 64"
    using unat_u8_less [of b] unat_u8_less [of c] unfolding word_less_nat_alt unat_drop_bit_eq
    by (simp_all add: drop_bit_eq_div del: unat_u8_less)
  then show "v \<in> set (sextets a b c) \<Longrightarrow> v < 64"
    by (auto simp: sextets_def intro!: or_small drop_bit_2_small)
qed

lemma sextets_word:
  fixes w :: u16 and a b c :: u8
  assumes "sextets a b c = [v1, v2, v3, v4]"
    and "w1 = push_bit 6 w OR ucast v1" "w2 = push_bit 6 w1 OR ucast v2"
    and "w3 = push_bit 6 w2 OR ucast v3" "w4 = push_bit 6 w3 OR ucast v4"
  shows "ucast (drop_bit 4 w2) = a" "ucast (drop_bit 2 w3) = b" "ucast w4 = c"
proof -
  have n: "n < 8 \<Longrightarrow> n = 0 \<or> n = 1 \<or> n = 2 \<or> n = 3 \<or> n = 4 \<or> n = 5 \<or> n = 6 \<or> n = 7" for n :: nat by auto
  have v: "v1 = drop_bit 2 a" "v2 = drop_bit 2 (push_bit 6 a) OR drop_bit 4 b"
    "v3 = drop_bit 2 (push_bit 4 b) OR drop_bit 6 c" "v4 = drop_bit 2 (push_bit 2 c)"
    using assms(1) by (auto simp: sextets_def)
  show "ucast (drop_bit 4 w2) = a"
  proof (rule bit_word_eqI)
    fix i assume "i < LENGTH(8)"
    then show "bit (ucast (drop_bit 4 w2) :: u8) i = bit a i"
      using n [of i] by (auto simp: assms(2,3) v bit_simps numeral_2_eq_2 numeral_3_eq_3 dest: bit_imp_le_length)
        (simp_all add: eval_nat_numeral)?
  qed
  show "ucast (drop_bit 2 w3) = b"
  proof (rule bit_word_eqI)
    fix i assume "i < LENGTH(8)"
    then show "bit (ucast (drop_bit 2 w3) :: u8) i = bit b i"
      using n [of i] by (auto simp: assms(2-4) v bit_simps numeral_2_eq_2 numeral_3_eq_3 dest: bit_imp_le_length)
        (simp_all add: eval_nat_numeral)?
  qed
  show "ucast w4 = c"
  proof (rule bit_word_eqI)
    fix i assume "i < LENGTH(8)"
    then show "bit (ucast w4 :: u8) i = bit c i"
      using n [of i] by (auto simp: assms(2-5) v bit_simps dest: bit_imp_le_length)
        (simp_all add: eval_nat_numeral)?
  qed
qed

definition sextet_bytes :: "u8 list \<Rightarrow> byte list" where
  "sextet_bytes vs = map (\<lambda>v. of_nat (of_char (be_digit v))) vs"

definition enc_state :: "u8 \<Rightarrow> u8 \<Rightarrow> u32 \<Rightarrow> base64_encoder" where
  "enc_state bitIndex encodedByte n = \<lparr>be_bitIndex = bitIndex, be_encodedByte = encodedByte, be_size = n\<rparr>"

lemma encode_byte_states:
  "be_encode_byte (enc_state 2 e n) b = ([[be_digit (e OR drop_bit 2 b)]], enc_state 4 (drop_bit 2 (push_bit 6 b)) (n + 1))"
  "be_encode_byte (enc_state 4 e n) b = ([[be_digit (e OR drop_bit 4 b)]], enc_state 6 (drop_bit 2 (push_bit 4 b)) (n + 1))"
  "be_encode_byte (enc_state 6 e n) b =
     ([[be_digit (e OR drop_bit 6 b)], [be_digit (drop_bit 2 (push_bit 2 b))]], enc_state 2 0 (n + 1 + 1))"
  by (simp_all add: enc_state_def be_encode_byte_def Let_def)

lemma encode_three:
  "be_encode (enc_state 2 0 n) (a # b # c # bs) =
     (map (\<lambda>v. [be_digit v]) (sextets a b c) @ fst (be_encode (enc_state 2 0 (n + 4)) bs),
      snd (be_encode (enc_state 2 0 (n + 4)) bs))"
proof -
  have "n + 1 + 1 + 1 + 1 = n + 4" by simp
  then show ?thesis
    unfolding be_encode.simps encode_byte_states prod.case by (simp add: sextets_def split_beta add.commute)
qed

lemma encode_two:
  "be_encode (enc_state 2 0 n) [a, b] =
     ([[be_digit (drop_bit 2 a)], [be_digit (drop_bit 2 (push_bit 6 a) OR drop_bit 4 b)]],
      enc_state 6 (drop_bit 2 (push_bit 4 b)) (n + 2))"
proof -
  have "n + 1 + 1 = n + 2" by simp
  then show ?thesis unfolding be_encode.simps encode_byte_states prod.case by (simp add: add.commute)
qed

lemma encode_one:
  "be_encode (enc_state 2 0 n) [a] =
     ([[be_digit (drop_bit 2 a)]], enc_state 4 (drop_bit 2 (push_bit 6 a)) (n + 1))"
  unfolding be_encode.simps encode_byte_states prod.case by simp

lemma unat_and_3: "unat (x AND 3 :: u32) = unat x mod 4"
proof -
  have "x AND 3 = take_bit 2 x" by (simp add: take_bit_eq_mask mask_eq_exp_minus_1)
  then have "unat (x AND 3) = take_bit 2 (unat x)" by (simp only: unsigned_take_bit_eq)
  then show ?thesis by (simp only: take_bit_eq_mod) simp
qed

lemma size_and_3:
  assumes "n AND 3 = (0 :: u32)"
  shows "(n + 4) AND 3 = 0" "(n + 1) AND 3 = 1" "(n + 2) AND 3 = 2" "(n + 3) AND 3 = 3"
proof -
  have "unat n mod 4 = 0" using assms unat_and_3 [of n] by simp
  then have *: "unat ((n + k) AND 3) = unat k mod 4" for k
    by (simp add: unat_and_3 unat_word_ariths mod_mod_cancel) (metis add.left_neutral mod_add_left_eq)
  show "(n + 4) AND 3 = 0" "(n + 1) AND 3 = 1" "(n + 2) AND 3 = 2" "(n + 3) AND 3 = 3"
    using * [of 4] * [of 1] * [of 2] * [of 3] by (simp_all add: word_unat_eq_iff)
qed

lemma destroy_states:
  assumes "n AND 3 = (0 :: u32)"
  shows "be_destroy (enc_state 2 0 n) = []"
    and "be_destroy (enc_state 6 e (n + 2)) = [[be_digit e], ''='']"
    and "be_destroy (enc_state 4 e (n + 1)) = [[be_digit e], ''='', ''='']"
  using size_and_3 [OF assms] assms
  by (simp_all add: be_destroy_def enc_state_def add.assoc)

definition base64_text :: "u32 \<Rightarrow> byte list \<Rightarrow> byte list" where
  "base64_text n bs = (case be_encode (enc_state 2 0 n) bs of (out, e) \<Rightarrow> bytes_of (concat (out @ be_destroy e)))"

lemma concat_singletons: "bytes_of (concat (map (\<lambda>v. [be_digit v]) vs)) = sextet_bytes vs"
  by (induction vs) (simp_all add: bytes_of_def sextet_bytes_def)

lemma base64_text_cases:
  assumes "n AND 3 = 0"
  shows "base64_text n [] = []"
    and "base64_text n [a] = sextet_bytes (take 2 (sextets a 0 0)) @ [61, 61]"
    and "base64_text n [a, b] = sextet_bytes (take 3 (sextets a b 0)) @ [61]"
    and "base64_text n (a # b # c # bs) = sextet_bytes (sextets a b c) @ base64_text (n + 4) bs"
proof -
  show "base64_text n [] = []" using destroy_states(1) [OF assms] by (simp add: base64_text_def bytes_of_def)
  show "base64_text n [a] = sextet_bytes (take 2 (sextets a 0 0)) @ [61, 61]"
    unfolding base64_text_def encode_one prod.case destroy_states(3) [OF assms]
    by (simp add: sextets_def sextet_bytes_def bytes_of_def)
  show "base64_text n [a, b] = sextet_bytes (take 3 (sextets a b 0)) @ [61]"
    unfolding base64_text_def encode_two prod.case destroy_states(2) [OF assms]
    by (simp add: sextets_def sextet_bytes_def bytes_of_def)
  show "base64_text n (a # b # c # bs) = sextet_bytes (sextets a b c) @ base64_text (n + 4) bs"
    unfolding base64_text_def encode_three split_beta fst_conv snd_conv
    by (simp only: concat_append bytes_of_append concat_singletons append_assoc)
qed

lemma scan_sextet:
  assumes "v < 64" "w' = push_bit 6 w OR ucast v"
  shows "scan_from_base64 (Suc room) 0 w done (of_nat (of_char (be_digit v)) # bs) = scan_from_base64 (Suc room) 6 w' done bs"
    and "scan_from_base64 (Suc room) 6 w done (of_nat (of_char (be_digit v)) # bs) =
      scan_from_base64 room 4 w' (done @ [ucast (drop_bit 4 w')]) bs"
    and "scan_from_base64 (Suc room) 4 w done (of_nat (of_char (be_digit v)) # bs) =
      scan_from_base64 room 2 w' (done @ [ucast (drop_bit 2 w')]) bs"
    and "scan_from_base64 (Suc room) 2 w done (of_nat (of_char (be_digit v)) # bs) =
      scan_from_base64 room 0 w' (done @ [ucast w']) bs"
  using assms by (simp_all add: decode_base64_digit Let_def not_le [symmetric])

fun in_threes :: "'a list \<Rightarrow> nat" where
  "in_threes (a # b # c # xs) = Suc (in_threes xs)"
| "in_threes [] = 0"
| "in_threes [a] = 0"
| "in_threes [a, b] = 0"

lemma scan_base64_text:
  "n AND 3 = 0 \<Longrightarrow> scan_from_base64 (length bs) 0 w done (base64_text n bs @ rest) = (rest, True, done @ bs)"
proof (induction bs arbitrary: n w "done" rule: in_threes.induct)
  case (1 a b c xs)
  obtain v1 v2 v3 v4 where v: "sextets a b c = [v1, v2, v3, v4]" by (simp add: sextets_def)
  have small: "v1 < 64" "v2 < 64" "v3 < 64" "v4 < 64" using sextets_small [of _ a b c] v by auto
  define w1 w2 w3 w4 where w: "w1 = push_bit 6 w OR ucast v1" "w2 = push_bit 6 w1 OR ucast v2"
    "w3 = push_bit 6 w2 OR ucast v3" "w4 = push_bit 6 w3 OR ucast v4"
  note dec = sextets_word [OF v w]
  have "(n + 4) AND 3 = 0" using size_and_3(1) [OF 1(2)] .
  note IH = 1(1) [OF this, of w4 "done @ [a, b, c]"]
  have "scan_from_base64 (Suc (Suc (Suc (length xs)))) 0 w done (sextet_bytes (sextets a b c) @ base64_text (n + 4) xs @ rest) =
      scan_from_base64 (length xs) 0 w4 (done @ [a, b, c]) (base64_text (n + 4) xs @ rest)"
    by (simp add: v sextet_bytes_def scan_sextet [OF small(1) w(1)] scan_sextet [OF small(2) w(2)]
        scan_sextet [OF small(3) w(3)] scan_sextet [OF small(4) w(4)] dec del: scan_from_base64.simps)
  then show ?case using IH by (simp add: base64_text_cases(4) [OF 1(2)] del: scan_from_base64.simps)
next
  case 2
  then show ?case by (cases rest) (simp_all add: base64_text_cases)
next
  case (3 a)
  obtain v1 v2 v3 v4 where v: "sextets a 0 0 = [v1, v2, v3, v4]" by (simp add: sextets_def)
  have small: "v1 < 64" "v2 < 64" using sextets_small [of _ a 0 0] v by auto
  define w1 w2 where w: "w1 = push_bit 6 w OR ucast v1" "w2 = push_bit 6 w1 OR ucast v2"
  note dec = sextets_word(1) [OF v w refl refl]
  have pad: "scan_padding 0 rest = (rest, True)" by (cases rest) auto
  have "scan_from_base64 (Suc 0) 0 w done (sextet_bytes (take 2 (sextets a 0 0)) @ [61, 61] @ rest) =
      scan_from_base64 0 4 w2 (done @ [a]) ([61, 61] @ rest)"
    by (simp add: v sextet_bytes_def scan_sextet [OF small(1) w(1)] scan_sextet [OF small(2) w(2)] dec
        del: scan_from_base64.simps)
  also have "\<dots> = (rest, True, done @ [a])" using pad by simp
  finally show ?case by (simp add: base64_text_cases(2) [OF 3] del: scan_from_base64.simps)
next
  case (4 a b)
  obtain v1 v2 v3 v4 where v: "sextets a b 0 = [v1, v2, v3, v4]" by (simp add: sextets_def)
  have small: "v1 < 64" "v2 < 64" "v3 < 64" using sextets_small [of _ a b 0] v by auto
  define w1 w2 w3 where w: "w1 = push_bit 6 w OR ucast v1" "w2 = push_bit 6 w1 OR ucast v2" "w3 = push_bit 6 w2 OR ucast v3"
  note dec = sextets_word(1,2) [OF v w refl]
  have pad: "scan_padding 0 rest = (rest, True)" by (cases rest) auto
  have "scan_from_base64 (Suc (Suc 0)) 0 w done (sextet_bytes (take 3 (sextets a b 0)) @ [61] @ rest) =
      scan_from_base64 0 2 w3 (done @ [a, b]) ([61] @ rest)"
    by (simp add: v sextet_bytes_def scan_sextet [OF small(1) w(1)] scan_sextet [OF small(2) w(2)]
        scan_sextet [OF small(3) w(3)] dec del: scan_from_base64.simps)
  also have "\<dots> = (rest, True, done @ [a, b])" using pad by simp
  finally show ?case by (simp add: base64_text_cases(3) [OF 4] del: scan_from_base64.simps)
qed

lemma out_base64_text: "bytes_of (concat (out_base64 data)) = base64_text 0 data"
  by (simp add: out_base64_def base64_text_def be_new_def enc_state_def split_beta)

lemma length_sextet_bytes [simp]: "length (sextet_bytes vs) = length vs"
  by (simp add: sextet_bytes_def)

lemma length_base64_text: "n AND 3 = 0 \<Longrightarrow> length (base64_text n bs) = 4 * ((length bs + 2) div 3)"
proof (induction bs arbitrary: n rule: in_threes.induct)
  case (1 a b c xs)
  have "(length (a # b # c # xs) + 2) div 3 = Suc ((length xs + 2) div 3)" by simp
  then show ?case using 1 size_and_3(1) [OF 1(2)] by (simp add: base64_text_cases(4) sextets_def)
qed (simp_all add: base64_text_cases sextets_def)

lemma length_out_base64: "length (concat (out_base64 data)) = 4 * ((length data + 2) div 3)"
  using length_base64_text [of 0 data] arg_cong [OF out_base64_text [of data], of length] by simp

section \<open>Through a string\<close>

lemma scans_result:
  assumes "scans ok rem F (rest, True, v)"
  shows "\<exists>r' q'. F q = Inr (r', q', v) \<and> ok r' \<and> rem r' = rest \<and> failed q' = failed q \<and> mode q' = mode q"
proof -
  from assms obtain bs r' where *: "ok r'" "rem r' = rest" "False \<notin> set bs"
    "F q = rbind (report_all q bs) (\<lambda>p'. Inr (r', p', v))" by (auto simp: scans_def)
  then obtain q' where "report_all q bs = Inr q'"
    using report_all_fault [of q bs] by (cases "report_all q bs") auto
  with * report_all_ok [of q bs q'] show ?thesis by auto
qed

lemma str_new_ok: "str_ok (str_new bs)" "drop (str_offset (str_new bs)) (str_string (str_new bs)) = bs"
  by (simp_all add: str_ok_def str_new_def)

lemma digit_count:
  assumes "base ^ k \<le> n \<or> k = 0" "n < base ^ m" "0 < m" "2 \<le> (base :: nat)"
  shows "k < m"
proof (rule ccontr)
  assume "\<not> k < m"
  then have "base ^ m \<le> base ^ k" using assms(4) by (intro power_increasing) simp_all
  with assms \<open>\<not> k < m\<close> show False by auto
qed

lemma opposite_small: "sint (v :: u64) < 0 \<Longrightarrow> unat (- v) \<le> 2 ^ 63"
proof -
  assume neg: "sint v < 0"
  have low: "- (2 ^ 63) \<le> sint v" using sint_ge [of v] by simp
  have "- v = of_int (- sint v)" by simp
  then have "uint (- v) = (- sint v) mod 2 ^ 64" by (simp only: unsigned_of_int take_bit_eq_mod) simp
  also have "\<dots> = - sint v" using neg low by (intro mod_pos_pos_trivial) simp_all
  finally have "uint (- v) \<le> 2 ^ 63" using low by linarith
  then have "nat (uint (- v)) \<le> nat (2 ^ 63)" by (rule nat_mono)
  then show ?thesis unfolding unat_eq_nat_uint by simp
qed

lemma str_at_end: "str_ok r \<Longrightarrow> drop (str_offset r) (str_string r) = [] \<Longrightarrow> sr_empty string_reader r"
  by (simp add: string_reader_def str_empty_def str_ok_def)

lemma length_decimal:
  assumes "tf_width f = 0"
  shows "length (concat (out_i64 (f\<lparr>tf_radix := Dec\<rparr>) v)) \<le> 20"
proof -
  let ?neg = "sint v < 0" and ?v = "if sint v < 0 then - v else v"
  obtain k where k: "concat (output_as_decimal (f\<lparr>tf_radix := Dec\<rparr>) ?v ?neg) =
      (if ?neg then ''-'' else []) @ map (\<lambda>d. char_of (d + 48)) (digits 10 (unat ?v) (Suc k))"
      "10 ^ k \<le> unat ?v \<or> k = 0"
    using output_number_digits [of 10 "f\<lparr>tf_radix := Dec\<rparr>" "\<lambda>d. char_of (d + 48)" ?v ?neg] assms
    by (auto simp: output_as_decimal_def)
  have "unat ?v < 10 ^ (if ?neg then 19 else 20)"
    using opposite_small [of v] unsigned_less [of v, where ?'a = nat] by (cases "sint v < 0") (simp_all add: order_le_less_trans)
  then have "k < (if ?neg then 19 else 20)"
    using k(2) by (intro digit_count [of 10 k "unat ?v"]) simp_all
  moreover have "length (concat (out_i64 (f\<lparr>tf_radix := Dec\<rparr>) v)) = (if ?neg then 1 else 0) + Suc k"
    using k(1) by (simp add: out_i64_def Let_def digits_def)
  ultimately show ?thesis by (simp split: if_splits)
qed

lemma ti_i64_eq:
  "ti_i64 ops ti_default r = (\<lambda>p. rbind (ti_skip_spaces ops r p) (\<lambda>(r1, p1).
     rbind (sr_peek ops r1 p1) (\<lambda>(p2, c).
       if c = 45 then rbind (sr_extract ops r1 p2 1) (\<lambda>(r3, p3, _).
            rbind (ti_read_as_decimal ops ti_default r3 p3) (\<lambda>(r4, p4, vp). Inr (r4, p4, - 1 * vp)))
       else rbind (ti_read_as_decimal ops ti_default r1 p2) (\<lambda>(r3, p3, vp). Inr (r3, p3, 1 * vp)))))"
proof -
  have "ti_isDecimal ti_default" by (simp add: ti_default_def)
  then show ?thesis
    unfolding ti_i64_def ti_read_signed_def ti_read_signed_as_decimal_def by simp
qed

lemma ti_from_base64_eq:
  "ti_from_base64 ops n r = ti_from_base64_loop ops (ti_fuel ops r) n 0 0 [] r"
  by (rule ext) (simp add: ti_from_base64_def)

text \<open>C29: a 64-bit signed number written in decimal to a stream over an empty bounded string of at least 20 characters
  is there completely, without a failure, and reading the text of that string gives the number back,
  the smallest one included, without a failure and to the end of the text.\<close>

theorem text_number_roundtrip:
  assumes "bs_ok b" "bs_contents b = []" "20 \<le> bs_max_size b"
  shows "\<exists>b' p' r' q'. send string_writer b p (out_i64 tf_default v) = Inr (b', p') \<and> failed p' = failed p \<and>
    ti_i64 string_reader ti_default (str_new (bytes_of (bs_contents b'))) q = Inr (r', q', v) \<and>
    failed q' = failed q \<and> sr_empty string_reader r'"
proof -
  let ?text = "bytes_of (concat (out_i64 tf_default v))"
  have room: "sow_available b = bs_max_size b"
    using assms(1,2) length_bs_contents [OF assms(1)] by (simp add: sow_available_def bs_size_def)
  have dec: "tf_default\<lparr>tf_radix := Dec\<rparr> = tf_default" by (simp add: tf_default_def)
  have "length (concat (out_i64 tf_default v)) \<le> sow_available b"
    using length_decimal [of tf_default v] assms(3) room dec by (simp add: tf_default_def)
  then obtain b' p' where w: "send string_writer b p (out_i64 tf_default v) = Inr (b', p')" "failed p' = failed p"
      "bytes_of (bs_contents b') = ?text"
    using sow.send_fits [OF assms(1), of "out_i64 tf_default v" p] assms(2) by (auto simp: bytes_of_def)
  have "scan_signed decimal_digit add_decimal None (?text @ []) = ([], True, v)"
    by (rule i64_text(1)) (simp_all add: tf_default_def not_a_digit_def)
  then have scan: "scan_signed decimal_digit add_decimal None ?text = ([], True, v)" by simp
  have "decimal_digit 0 = None" by (simp add: decimal_digit_def)
  then have un: "scans str_ok (\<lambda>r. drop (str_offset r) (str_string r)) (ti_read_as_decimal string_reader ti_default r)
      (scan_unsigned decimal_digit add_decimal None (drop (str_offset r) (str_string r)) :: _ \<times> _ \<times> u64)" if "str_ok r" for r
    using str_p.unsigned_scans [OF that, of decimal_digit add_decimal None]
    unfolding ti_read_as_decimal_def by (simp add: ti_default_def)
  have "scans str_ok (\<lambda>r. drop (str_offset r) (str_string r)) (ti_i64 string_reader ti_default (str_new ?text)) ([], True, v)"
    using str_p.signed_scans [OF str_new_ok(1), of "ti_read_as_decimal string_reader ti_default" decimal_digit add_decimal None ?text, OF un]
      scan str_new_ok(2) [of ?text]
    unfolding ti_i64_eq by simp
  from scans_result [OF this, of q] w str_at_end show ?thesis by auto
qed

theorem text_number_roundtrip_witness:
  "\<exists>b' p' r' q'. send string_writer (bs_of_range (replicate 20 CHR ''x'')) soft_fail (out_i64 tf_default (- 9223372036854775808)) = Inr (b', p') \<and>
    failed p' = failed soft_fail \<and>
    ti_i64 string_reader ti_default (str_new (bytes_of (bs_contents b'))) soft_fail = Inr (r', q', - 9223372036854775808) \<and>
    failed q' = failed soft_fail \<and> sr_empty string_reader r'"
  by (rule text_number_roundtrip) (simp_all add: bs_of_range_def bs_ok_def bs_max_size_def bs_contents_def)

text \<open>C30: bytes written as base64 to a stream over an empty bounded string with room for four characters for every
  three bytes are read back as the same bytes, with no failure on either side and to the end of the text.\<close>

theorem base64_roundtrip:
  assumes "bs_ok b" "bs_contents b = []" "4 * ((length data + 2) div 3) \<le> bs_max_size b"
  shows "\<exists>b' p' r' q'. send string_writer b p (out_base64 data) = Inr (b', p') \<and> failed p' = failed p \<and>
    ti_from_base64 string_reader (length data) (str_new (bytes_of (bs_contents b'))) q = Inr (r', q', data) \<and>
    failed q' = failed q \<and> sr_empty string_reader r'"
proof -
  let ?text = "bytes_of (concat (out_base64 data))"
  have room: "sow_available b = bs_max_size b"
    using assms(1,2) length_bs_contents [OF assms(1)] by (simp add: sow_available_def bs_size_def)
  have "length (concat (out_base64 data)) \<le> sow_available b"
    unfolding length_out_base64 room by (rule assms(3))
  then obtain b' p' where w: "send string_writer b p (out_base64 data) = Inr (b', p')" "failed p' = failed p"
      "bytes_of (bs_contents b') = ?text"
    using sow.send_fits [OF assms(1), of "out_base64 data" p] assms(2) by (auto simp: bytes_of_def)
  have "scan_from_base64 (length data) 0 0 [] (base64_text 0 data @ []) = ([], True, [] @ data)"
    by (rule scan_base64_text) simp
  then have scan: "scan_from_base64 (length data) 0 0 [] ?text = ([], True, data)"
    by (simp add: out_base64_text)
  have "scans str_ok (\<lambda>r. drop (str_offset r) (str_string r))
      (ti_from_base64 string_reader (length data) (str_new ?text)) ([], True, data)"
    using str_p.from_base64_scans [OF str_new_ok(1) str_p.fuel_enough [OF str_new_ok(1)], of ?text "length data" 0 0 "[]"]
      scan str_new_ok(2) [of ?text]
    unfolding ti_from_base64_eq by simp
  from scans_result [OF this, of q] w str_at_end show ?thesis by auto
qed

theorem base64_roundtrip_witness:
  "\<exists>b' p' r' q'. send string_writer (bs_of_range (replicate 8 CHR ''x'')) soft_fail (out_base64 [1, 2, 3, 255]) = Inr (b', p') \<and>
    failed p' = failed soft_fail \<and>
    ti_from_base64 string_reader (length [1, 2, 3, 255 :: byte]) (str_new (bytes_of (bs_contents b'))) soft_fail = Inr (r', q', [1, 2, 3, 255]) \<and>
    failed q' = failed soft_fail \<and> sr_empty string_reader r'"
  by (rule base64_roundtrip) (simp_all add: bs_of_range_def bs_ok_def bs_max_size_def bs_contents_def)

text \<open>A text of padding only: the size function looks in front of it.\<close>

lemma base64_decoded_size_overrun: "base64_decoded_size ''===='' = Inl Out_of_bounds"
  by (simp add: base64_decoded_size_def)

end
