(* ===== verification/Cobs_Codec.thy ===== *)
theory Cobs_Codec
  imports Prelude
begin

text \<open>
  What the COBS coding of services/message_communication and services/sesame promises, one byte at
  a time and without the buffers and callbacks of the code: a message is sent as frames, each an
  overhead byte and at most 254 bytes other than zero; an overhead below 255 says that a zero
  follows the frame, and the receiver adds it when the next frame begins. Zero bytes delimit
  messages. The code is shown to implement these functions in the theories of its components.
\<close>

section \<open>Encoding\<close>

definition frame_length :: "byte list \<Rightarrow> nat" where
  "frame_length xs = length (takeWhile (\<lambda>x. x \<noteq> 0) (take 254 xs))"

lemma frame_length_le: "frame_length xs \<le> 254" "frame_length xs \<le> length xs"
  unfolding frame_length_def by (metis takeWhile_take_le) (metis length_takeWhile_le le_trans length_take min.cobounded1)

lemma frame_nonzero: "0 \<notin> set (take (frame_length xs) xs)"
proof -
  have "take (frame_length xs) xs = takeWhile (\<lambda>x. x \<noteq> 0) (take 254 xs)"
    using take_length_takeWhile [of "\<lambda>x. x \<noteq> 0" "take 254 xs"] frame_length_le(1) [of xs]
    by (simp add: frame_length_def min_absorb1)
  then show ?thesis using set_takeWhileD by fastforce
qed

lemma frame_delimited:
  assumes "frame_length xs < 254" and "drop (frame_length xs) xs \<noteq> []"
  shows "hd (drop (frame_length xs) xs) = 0"
proof -
  let ?ys = "take 254 xs" and ?n = "frame_length xs"
  have "?n < length ?ys" using assms by simp
  then have "?ys ! ?n = 0" using nth_length_takeWhile [of "\<lambda>x. x \<noteq> 0" ?ys] by (simp add: frame_length_def)
  then show ?thesis using assms by (simp add: hd_drop_conv_nth)
qed

function cobs_frames :: "byte list \<Rightarrow> byte list" where
  "cobs_frames xs =
     (let n = frame_length xs; rest = drop n xs in
      of_nat (n + 1) # take n xs @
        (if rest = [] then [] else if n = 254 then cobs_frames rest else cobs_frames (tl rest)))"
  by pat_completeness auto
termination by (relation "measure length") auto

declare cobs_frames.simps [simp del]

definition cobs_packet :: "byte list \<Rightarrow> byte list" where
  "cobs_packet xs = 0 # (if xs = [] then [] else cobs_frames xs) @ [0]"

lemma unat_overhead: "unat (of_nat (frame_length xs + 1) :: byte) = frame_length xs + 1"
  using frame_length_le(1) [of xs] by (intro unat_of_nat_u8) simp

lemma overhead_nonzero: "(of_nat (frame_length xs + 1) :: byte) \<noteq> 0"
  by (metis unat_overhead add_eq_0_iff_both_eq_0 one_neq_zero unat_0)

lemma overhead_full: "((of_nat (frame_length xs + 1) :: byte) = 255) = (frame_length xs = 254)"
proof -
  have "((of_nat (frame_length xs + 1) :: byte) = 255) = (unat (of_nat (frame_length xs + 1) :: byte) = unat (255 :: byte))"
    by (simp only: word_unat_eq_iff)
  then show ?thesis unfolding unat_overhead by simp
qed

text \<open>No frame contains a zero, so the delimiters are the packet's only zeros.\<close>

lemma cobs_frames_nonzero: "0 \<notin> set (cobs_frames xs)"
proof (induction xs rule: cobs_frames.induct)
  case (1 xs)
  then show ?case
    using frame_nonzero [of xs] overhead_nonzero [of xs]
    by (subst cobs_frames.simps) (auto simp: Let_def)
qed

lemma cobs_frames_length: "length (cobs_frames xs) \<le> length xs + length xs div 254 + 1"
proof (induction xs rule: cobs_frames.induct)
  case (1 xs)
  let ?n = "frame_length xs" and ?rest = "drop (frame_length xs) xs"
  have n: "?n \<le> length xs" "?n \<le> 254" by (rule frame_length_le)+
  consider (last) "?rest = []" | (full) "?rest \<noteq> []" "?n = 254" | (zero) "?rest \<noteq> []" "?n \<noteq> 254" by blast
  then show ?case
  proof cases
    case last
    then show ?thesis using n by (subst cobs_frames.simps) (simp add: Let_def)
  next
    case full
    have "length (cobs_frames xs) = 255 + length (cobs_frames ?rest)"
      using full by (subst cobs_frames.simps) (simp add: Let_def)
    moreover have "length (cobs_frames ?rest) \<le> length ?rest + length ?rest div 254 + 1"
      using 1(1) [OF refl refl full] .
    moreover have "length xs div 254 = 1 + (length xs - 254) div 254" using full n by (simp add: le_div_geq)
    ultimately show ?thesis using full n by simp
  next
    case zero
    have "length (cobs_frames xs) = ?n + 1 + length (cobs_frames (tl ?rest))"
      using zero n by (subst cobs_frames.simps) (simp add: Let_def)
    moreover have "length (cobs_frames (tl ?rest)) \<le> length (tl ?rest) + length (tl ?rest) div 254 + 1"
      using 1(2) [OF refl refl zero] .
    moreover have "(length xs - ?n - 1) div 254 \<le> length xs div 254" by (rule div_le_mono) simp
    ultimately show ?thesis using zero n by simp
  qed
qed

lemma cobs_packet_length: "length (cobs_packet xs) \<le> length xs + length xs div 254 + 3"
  using cobs_frames_length [of xs] by (simp add: cobs_packet_def)

section \<open>Decoding\<close>

text \<open>The overhead still to come, whether the next zero is not part of the message, and the message
  so far, of at most \<open>cap\<close> bytes.\<close>

record cobs_state =
  cs_next :: byte
  cs_pseudo :: bool
  cs_message :: "byte list"

definition cobs_start :: cobs_state where
  "cobs_start = \<lparr>cs_next = 1, cs_pseudo = True, cs_message = []\<rparr>"

definition cobs_boundary :: "cobs_state \<Rightarrow> cobs_state \<times> byte list list" where
  "cobs_boundary s = (cobs_start, if cs_message s = [] then [] else [cs_message s])"

definition cobs_append :: "nat \<Rightarrow> cobs_state \<Rightarrow> byte list \<Rightarrow> cobs_state result" where
  "cobs_append cap s bytes = really_assert (length (cs_message s) + length bytes \<le> cap)
     (Inr (s\<lparr>cs_message := cs_message s @ bytes\<rparr>))"

definition cobs_byte :: "nat \<Rightarrow> cobs_state \<Rightarrow> byte \<Rightarrow> (cobs_state \<times> byte list list) result" where
  "cobs_byte cap s b =
     (if b = 0 then Inr (cobs_boundary s)
      else if cs_next s = 1
      then rbind (if cs_pseudo s then Inr s else cobs_append cap s [0])
             (\<lambda>s. Inr (s\<lparr>cs_next := b, cs_pseudo := (b = 255)\<rparr>, []))
      else rbind (cobs_append cap s [b]) (\<lambda>s. Inr (s\<lparr>cs_next := cs_next s - 1\<rparr>, [])))"

fun cobs_bytes :: "nat \<Rightarrow> cobs_state \<Rightarrow> byte list \<Rightarrow> (cobs_state \<times> byte list list) result" where
  "cobs_bytes cap s [] = Inr (s, [])"
| "cobs_bytes cap s (b # bs) = rbind (cobs_byte cap s b) (\<lambda>(s1, ms1).
     rbind (cobs_bytes cap s1 bs) (\<lambda>(s2, ms2). Inr (s2, ms1 @ ms2)))"

lemma cobs_bytes_append:
  "cobs_bytes cap s (xs @ ys) = rbind (cobs_bytes cap s xs) (\<lambda>(s1, ms1).
     rbind (cobs_bytes cap s1 ys) (\<lambda>(s2, ms2). Inr (s2, ms1 @ ms2)))"
proof (induction xs arbitrary: s)
  case Nil
  then show ?case by (cases "cobs_bytes cap s ys") auto
next
  case (Cons b xs)
  show ?case
  proof (cases "cobs_byte cap s b")
    case (Inr a)
    obtain s1 ms1 where a: "a = (s1, ms1)" by (cases a)
    show ?thesis
    proof (cases "cobs_bytes cap s1 xs")
      case (Inr c)
      obtain s2 ms2 where "c = (s2, ms2)" by (cases c)
      then show ?thesis using Inr \<open>cobs_byte cap s b = Inr a\<close> a Cons.IH [of s1]
        by (cases "cobs_bytes cap s2 ys") auto
    qed (use Inr a Cons.IH [of s1] in simp)
  qed simp
qed

text \<open>The bytes of a frame are appended while they fit.\<close>

lemma cobs_bytes_data:
  assumes "0 \<notin> set xs" and "length xs < unat (cs_next s)"
  shows "cobs_bytes cap s xs = really_assert (xs = [] \<or> length (cs_message s) + length xs \<le> cap)
    (Inr (s\<lparr>cs_next := cs_next s - of_nat (length xs), cs_message := cs_message s @ xs\<rparr>, []))"
  using assms
proof (induction xs arbitrary: s)
  case (Cons x xs)
  let ?s = "s\<lparr>cs_next := cs_next s - 1, cs_message := cs_message s @ [x]\<rparr>"
  have x: "x \<noteq> 0" "cs_next s \<noteq> 1" using Cons.prems by auto
  have "1 \<le> unat (cs_next s)" using Cons.prems by simp
  then have "(1 :: byte) \<le> cs_next s" by (simp add: word_le_nat_alt)
  then have "unat (cs_next ?s) = unat (cs_next s) - 1" by (simp add: unat_sub)
  then have IH: "cobs_bytes cap ?s xs = really_assert (xs = [] \<or> length (cs_message ?s) + length xs \<le> cap)
    (Inr (?s\<lparr>cs_next := cs_next ?s - of_nat (length xs), cs_message := cs_message ?s @ xs\<rparr>, []))"
    using Cons.prems by (intro Cons.IH) auto
  show ?case
  proof (cases "length (cs_message s) + 1 \<le> cap")
    case True
    have "cobs_byte cap s x = Inr (?s, [])" using x True by (simp add: cobs_byte_def cobs_append_def)
    then show ?thesis using IH True by (cases "xs = []") (auto simp: really_assert_def algebra_simps)
  next
    case False
    then show ?thesis using x by (simp add: cobs_byte_def cobs_append_def)
  qed
qed simp

lemma cobs_byte_overhead:
  "cs_next s = 1 \<Longrightarrow> b \<noteq> 0 \<Longrightarrow> length (cs_message s) + (if cs_pseudo s then 0 else 1) \<le> cap \<Longrightarrow>
   cobs_byte cap s b = Inr (\<lparr>cs_next = b, cs_pseudo = (b = 255), cs_message = cs_message s @ (if cs_pseudo s then [] else [0])\<rparr>, [])"
  by (cases s) (auto simp: cobs_byte_def cobs_append_def)

lemma cobs_decode_frames:
  assumes "cs_next s = 1" and "length (cs_message s) + (if cs_pseudo s then 0 else 1) + length xs \<le> cap"
  shows "\<exists>pseudo. cobs_bytes cap s (cobs_frames xs) =
    Inr (\<lparr>cs_next = 1, cs_pseudo = pseudo, cs_message = cs_message s @ (if cs_pseudo s then [] else [0]) @ xs\<rparr>, [])"
  using assms
proof (induction xs arbitrary: s rule: cobs_frames.induct)
  case (1 xs)
  let ?n = "frame_length xs" and ?rest = "drop (frame_length xs) xs"
  let ?b = "of_nat (?n + 1) :: byte" and ?m = "cs_message s @ (if cs_pseudo s then [] else [0])"
  let ?s1 = "\<lparr>cs_next = ?b, cs_pseudo = (?n = 254), cs_message = ?m\<rparr>"
  let ?s2 = "\<lparr>cs_next = 1, cs_pseudo = (?n = 254), cs_message = ?m @ take ?n xs\<rparr>"
  have n: "?n \<le> length xs" by (rule frame_length_le)
  have over: "cobs_byte cap s ?b = Inr (?s1, [])"
    using cobs_byte_overhead [OF 1(3) overhead_nonzero, of cap xs] 1(4) overhead_full [of xs] by simp
  have "?b - of_nat ?n = 1" by simp
  moreover have "length (take ?n xs) < unat (cs_next ?s1)" using n unat_overhead [of xs] by simp
  moreover have "length ?m + ?n \<le> cap" using 1(4) n by (auto split: if_splits)
  ultimately have data: "cobs_bytes cap ?s1 (take ?n xs) = Inr (?s2, [])"
    using cobs_bytes_data [OF frame_nonzero, of xs ?s1 cap] n by (simp add: min_absorb2)
  define tail where "tail = (if ?rest = [] then [] else if ?n = 254 then cobs_frames ?rest else cobs_frames (tl ?rest))"
  have enc: "cobs_frames xs = ?b # take ?n xs @ tail"
    by (subst cobs_frames.simps) (simp add: Let_def tail_def)
  have run: "cobs_bytes cap s (cobs_frames xs) = rbind (cobs_bytes cap ?s2 tail) (\<lambda>(s3, ms). Inr (s3, ms))"
    by (simp only: enc cobs_bytes.simps over rbind.simps prod.case cobs_bytes_append data append_Nil)
       (cases "cobs_bytes cap ?s2 tail"; auto)
  consider (last) "?rest = []" | (full) "?rest \<noteq> []" "?n = 254" | (zero) "?rest \<noteq> []" "?n \<noteq> 254" by blast
  then show ?case
  proof cases
    case last
    then have "take ?n xs = xs" by simp
    then show ?thesis unfolding run using last by (simp add: tail_def)
  next
    case full
    have "\<exists>pseudo. cobs_bytes cap ?s2 (cobs_frames ?rest) = Inr (\<lparr>cs_next = 1, cs_pseudo = pseudo,
        cs_message = cs_message ?s2 @ (if cs_pseudo ?s2 then [] else [0]) @ ?rest\<rparr>, [])"
      using 1(4) full n by (intro 1(1) [OF refl refl full]) (auto split: if_splits)
    then show ?thesis unfolding run using full append_take_drop_id [of ?n xs] by (auto simp: tail_def)
  next
    case zero
    have lt: "?n < 254" using zero frame_length_le(1) [of xs] by simp
    have cons: "?rest = 0 # tl ?rest" using frame_delimited [OF lt zero(1)] zero(1) by (metis list.collapse)
    have "\<exists>pseudo. cobs_bytes cap ?s2 (cobs_frames (tl ?rest)) = Inr (\<lparr>cs_next = 1, cs_pseudo = pseudo,
        cs_message = cs_message ?s2 @ (if cs_pseudo ?s2 then [] else [0]) @ tl ?rest\<rparr>, [])"
      using 1(4) zero n by (intro 1(2) [OF refl refl zero]) (auto split: if_splits)
    moreover have "take ?n xs @ [0] @ tl ?rest = xs" using cons append_take_drop_id [of ?n xs] by simp
    ultimately show ?thesis unfolding run using zero lt by (auto simp: tail_def)
  qed
qed

text \<open>Whatever state the receiver is in, a packet ends the message it was receiving and is then
  delivered as it was sent.\<close>

lemma cobs_decode_packet:
  assumes "length xs \<le> cap"
  shows "cobs_bytes cap s (cobs_packet xs) =
    Inr (cobs_start, (if cs_message s = [] then [] else [cs_message s]) @ (if xs = [] then [] else [xs]))"
proof (cases "xs = []")
  case True
  then show ?thesis by (simp add: cobs_packet_def cobs_byte_def cobs_boundary_def cobs_start_def)
next
  case False
  obtain pseudo where "cobs_bytes cap cobs_start (cobs_frames xs) = Inr (\<lparr>cs_next = 1, cs_pseudo = pseudo, cs_message = xs\<rparr>, [])"
    using cobs_decode_frames [of cobs_start xs cap] assms by (auto simp: cobs_start_def)
  then show ?thesis using False
    by (simp add: cobs_packet_def cobs_byte_def cobs_boundary_def cobs_bytes_append)
qed

text \<open>A receiver with more room only accepts more, and no message it delivers is longer than its
  room; so a packet with a longer message fails.\<close>

lemma cobs_byte_room:
  assumes "cobs_byte cap s b = Inr (s1, ms)" and "length (cs_message s) \<le> cap" and "cap \<le> cap'"
  shows "cobs_byte cap' s b = Inr (s1, ms)" and "length (cs_message s1) \<le> cap" and "\<forall>m\<in>set ms. length m \<le> cap"
  using assms
  by (auto simp: cobs_byte_def cobs_boundary_def cobs_start_def cobs_append_def really_assert_def rbind_Inr split: if_splits)

lemma cobs_bytes_room:
  assumes "cobs_bytes cap s bs = Inr (s1, ms)" and "length (cs_message s) \<le> cap" and "cap \<le> cap'"
  shows "cobs_bytes cap' s bs = Inr (s1, ms) \<and> length (cs_message s1) \<le> cap \<and> (\<forall>m\<in>set ms. length m \<le> cap)"
  using assms
proof (induction bs arbitrary: s ms)
  case (Cons b bs)
  obtain s2 ms2 ms3 where b: "cobs_byte cap s b = Inr (s2, ms2)" and r: "cobs_bytes cap s2 bs = Inr (s1, ms3)" and ms: "ms = ms2 @ ms3"
    using Cons.prems(1) by (auto simp: rbind_Inr)
  note one = cobs_byte_room [OF b Cons.prems(2,3)]
  show ?case using one Cons.IH [OF r one(2) Cons.prems(3)] ms by auto
qed simp

lemma cobs_bytes_fault: "cobs_bytes cap s bs = Inl f \<Longrightarrow> f = Assert_failed"
proof (induction bs arbitrary: s)
  case (Cons b bs)
  then show ?case
    by (auto simp: rbind_Inl cobs_byte_def cobs_append_def really_assert_def split: if_splits)
qed simp

lemma cobs_decode_oversized:
  assumes "length (cs_message s) \<le> cap" and "cap < length xs"
  shows "cobs_bytes cap s (cobs_packet xs) = Inl Assert_failed"
proof (cases "cobs_bytes cap s (cobs_packet xs)")
  case (Inl f)
  then show ?thesis using cobs_bytes_fault by blast
next
  case (Inr a)
  obtain s1 ms where a: "a = (s1, ms)" by (cases a)
  have "cobs_bytes (length xs) s (cobs_packet xs) = Inr (s1, ms)" "\<forall>m\<in>set ms. length m \<le> cap"
    using cobs_bytes_room [OF Inr [unfolded a] assms(1), of "length xs"] assms(2) by auto
  then show ?thesis using cobs_decode_packet [of xs "length xs" s] assms(2) by (auto split: if_splits)
qed

section \<open>Decoding with sizes\<close>

text \<open>Each message with the number of bytes since the one before it, delimiter included.\<close>

definition sized_byte :: "nat \<Rightarrow> cobs_state \<times> nat \<Rightarrow> byte \<Rightarrow> ((cobs_state \<times> nat) \<times> (byte list \<times> nat) list) result" where
  "sized_byte cap s b = rbind (cobs_byte cap (fst s) b) (\<lambda>(c, ms).
     Inr ((c, if ms = [] then snd s + 1 else 0), map (\<lambda>m. (m, snd s + 1)) ms))"

fun sized_bytes :: "nat \<Rightarrow> cobs_state \<times> nat \<Rightarrow> byte list \<Rightarrow> ((cobs_state \<times> nat) \<times> (byte list \<times> nat) list) result" where
  "sized_bytes cap s [] = Inr (s, [])"
| "sized_bytes cap s (b # bs) = rbind (sized_byte cap s b) (\<lambda>(s1, ms1).
     rbind (sized_bytes cap s1 bs) (\<lambda>(s2, ms2). Inr (s2, ms1 @ ms2)))"

lemma sized_bytes_append:
  "sized_bytes cap s (xs @ ys) = rbind (sized_bytes cap s xs) (\<lambda>(s1, ms1).
     rbind (sized_bytes cap s1 ys) (\<lambda>(s2, ms2). Inr (s2, ms1 @ ms2)))"
proof (induction xs arbitrary: s)
  case Nil
  then show ?case by (cases "sized_bytes cap s ys") auto
next
  case (Cons b xs)
  then show ?case by (auto simp: rbind_assoc case_prod_unfold intro!: arg_cong [where f = "rbind (sized_byte cap s b)"])
qed

lemma sized_bytes_zero:
  "sized_bytes cap (c, n) [0] = Inr (if cs_message c = [] then ((cobs_start, n + 1), []) else ((cobs_start, 0), [(cs_message c, n + 1)]))"
  by (simp add: sized_byte_def cobs_byte_def cobs_boundary_def)

text \<open>No message ends where there is no zero.\<close>

lemma sized_bytes_nonzero:
  "0 \<notin> set bs \<Longrightarrow> sized_bytes cap (c, n) bs = rbind (cobs_bytes cap c bs) (\<lambda>(c1, ms). Inr ((c1, n + length bs), []))"
proof (induction bs arbitrary: c n)
  case (Cons b bs)
  show ?case
  proof (cases "cobs_byte cap c b")
    case (Inr a)
    obtain c1 ms where a: "a = (c1, ms)" by (cases a)
    have "ms = []" using Inr a Cons.prems by (auto simp: cobs_byte_def rbind_Inr split: if_splits)
    then show ?thesis using Inr a Cons by (cases "cobs_bytes cap c1 bs") (auto simp: sized_byte_def)
  qed (simp add: sized_byte_def)
qed simp

end
