(* ===== verification/Message_Communication_Cobs.thy ===== *)
theory Message_Communication_Cobs
  imports Cobs_Codec Stream_Adapters Stream_Writers
begin

text \<open>
  \<open>MessageCommunicationCobs\<close> (services/message_communication/MessageCommunicationCobs.cpp): messages over
  a serial line. The sender is a chain of \<open>SendData\<close> calls, each with what to do when the line has
  taken the bytes: \<open>pending\<close> names the continuation, and a step returns the bytes given to the
  line. The receiver gets the line's bytes in pieces of any size. The serial line
  (hal::SerialCommunication) and the observer are outside: the model returns what is sent, and
  the readers handed to the observer. Both sides are shown to implement Cobs_Codec.
\<close>

section \<open>Sending\<close>

datatype pending = Send_or_done | After_overhead | Send_frame_done | On_sent

record cobs_sender =
  tx_sendStorage :: "byte vec"
  tx_dataToSend :: "byte list"
  tx_frameSize :: byte
  tx_pending :: pending

definition tx_new :: "byte vec \<Rightarrow> cobs_sender" where
  "tx_new storage = \<lparr>tx_sendStorage = storage, tx_dataToSend = [], tx_frameSize = 0, tx_pending = On_sent\<rparr>"

definition tx_send_message_stream :: "cobs_sender \<Rightarrow> u16 \<Rightarrow> (cobs_sender \<times> byte vec limited_writer_state) result" where
  "tx_send_message_stream s len = rbind (vec_clear (tx_sendStorage s)) (\<lambda>v.
     Inr (s\<lparr>tx_sendStorage := v\<rparr>, lw_new v (ucast len)))"

definition tx_max_send_message_size :: "cobs_sender \<Rightarrow> nat" where
  "tx_max_send_message_size s = vec_max_size (tx_sendStorage s)"

definition tx_send :: "byte list \<Rightarrow> pending \<Rightarrow> cobs_sender \<Rightarrow> cobs_sender \<times> byte list" where
  "tx_send bytes k s = (s\<lparr>tx_pending := k\<rparr>, bytes)"

definition tx_find_delimiter :: "cobs_sender \<Rightarrow> byte" where
  "tx_find_delimiter s = (let data = take 254 (tx_dataToSend s)
     in of_nat (length (takeWhile (\<lambda>x. x \<noteq> 0) data)))"

definition tx_send_frame :: "cobs_sender \<Rightarrow> cobs_sender \<times> byte list" where
  "tx_send_frame s = (let frameSize = tx_find_delimiter s + 1
     in tx_send [frameSize] After_overhead (s\<lparr>tx_frameSize := frameSize\<rparr>))"

definition tx_send_or_done :: "cobs_sender \<Rightarrow> cobs_sender \<times> byte list" where
  "tx_send_or_done s = (if tx_dataToSend s = [] then tx_send [0] On_sent s else tx_send_frame s)"

definition tx_send_frame_done :: "cobs_sender \<Rightarrow> cobs_sender \<times> byte list" where
  "tx_send_frame_done s =
     (let s1 = (if tx_frameSize s = 254 then s\<lparr>tx_dataToSend := drop 254 (tx_dataToSend s)\<rparr>
                else s\<lparr>tx_dataToSend := drop (unat (tx_frameSize s)) (tx_dataToSend s)\<rparr>)
      in if tx_dataToSend s1 = [] \<or> tx_frameSize s1 = 254 then tx_send_or_done s1
         else tx_send_frame (s1\<lparr>tx_dataToSend := tl (tx_dataToSend s1)\<rparr>))"

definition tx_overhead_sent :: "cobs_sender \<Rightarrow> cobs_sender \<times> byte list" where
  "tx_overhead_sent s =
     (let s1 = s\<lparr>tx_frameSize := tx_frameSize s - 1\<rparr>
      in if tx_frameSize s1 \<noteq> 0 then tx_send (take (unat (tx_frameSize s1)) (tx_dataToSend s1)) Send_frame_done s1
         else tx_send_frame_done s1)"

definition tx_send_stream_filled :: "cobs_sender \<Rightarrow> byte vec \<Rightarrow> cobs_sender \<times> byte list" where
  "tx_send_stream_filled s written = tx_send [0] Send_or_done
     (s\<lparr>tx_sendStorage := written, tx_dataToSend := vec_range written\<rparr>)"

text \<open>What the line sees until \<open>onSent\<close> is called, and the size it is called with; \<open>None\<close> when the
  line has taken \<open>fuel\<close> pieces before that.\<close>

fun tx_run :: "nat \<Rightarrow> cobs_sender \<times> byte list \<Rightarrow> (byte list \<times> u16) option" where
  "tx_run 0 (s, out) = None"
| "tx_run (Suc fuel) (s, out) =
     (case tx_pending s of
        Send_or_done \<Rightarrow> map_option (apfst ((@) out)) (tx_run fuel (tx_send_or_done s))
      | After_overhead \<Rightarrow> map_option (apfst ((@) out)) (tx_run fuel (tx_overhead_sent s))
      | Send_frame_done \<Rightarrow> map_option (apfst ((@) out)) (tx_run fuel (tx_send_frame_done s))
      | On_sent \<Rightarrow> Some (out, of_nat (vec_size (tx_sendStorage s))))"

lemma tx_find_delimiter_frame: "tx_find_delimiter s = of_nat (frame_length (tx_dataToSend s))"
  by (simp add: tx_find_delimiter_def frame_length_def)

lemma tx_run_frames:
  assumes "tx_dataToSend s = xs"
  shows "\<exists>fuel \<le> 2 * length xs + 3. tx_run fuel (tx_send_frame s) = Some (cobs_frames xs @ [0], of_nat (vec_size (tx_sendStorage s)))"
  using assms
proof (induction xs arbitrary: s rule: cobs_frames.induct)
  case (1 xs)
  let ?n = "frame_length xs" and ?rest = "drop (frame_length xs) xs"
  let ?b = "of_nat (?n + 1) :: byte" and ?size = "of_nat (vec_size (tx_sendStorage s)) :: u16"
  have n: "?n \<le> length xs" "?n \<le> 254" by (rule frame_length_le)+
  define s1 where "s1 = s\<lparr>tx_frameSize := of_nat ?n, tx_pending := Send_frame_done\<rparr>"
  have size: "unat (of_nat ?n :: byte) = ?n" using n by simp
  have "((of_nat ?n :: byte) = 254) = (unat (of_nat ?n :: byte) = unat (254 :: byte))" by (simp only: word_unat_eq_iff)
  then have full: "((of_nat ?n :: byte) = 254) = (?n = 254)" unfolding size by simp
  have zero: "((of_nat ?n :: byte) = 0) = (?n = 0)" using n by (intro of_nat_u8_eq_0_iff) simp
  have start: "tx_send_frame s = (s\<lparr>tx_frameSize := ?b, tx_pending := After_overhead\<rparr>, [?b])"
    using 1(3) by (simp add: tx_send_frame_def tx_send_def tx_find_delimiter_frame Let_def add.commute)
  have after: "tx_overhead_sent (s\<lparr>tx_frameSize := ?b, tx_pending := After_overhead\<rparr>) =
      (if ?n \<noteq> 0 then (s1, take ?n xs) else tx_send_frame_done (s1\<lparr>tx_pending := After_overhead\<rparr>))"
    using 1(3) zero size by (cases s) (simp add: tx_overhead_sent_def tx_send_def s1_def)
  have done_pending: "tx_send_frame_done (s1\<lparr>tx_pending := k\<rparr>) = tx_send_frame_done s1" for k
    by (simp add: tx_send_frame_done_def tx_send_or_done_def tx_send_frame_def tx_send_def tx_find_delimiter_def Let_def s1_def)
  have "\<exists>fuel \<le> 2 * length xs + 1. tx_run fuel (tx_send_frame_done s1) =
      Some ((if ?rest = [] then [] else if ?n = 254 then cobs_frames ?rest else cobs_frames (tl ?rest)) @ [0], ?size)"
  proof -
    have d: "tx_dataToSend s1 = xs" "tx_frameSize s1 = of_nat ?n" "tx_sendStorage s1 = tx_sendStorage s"
      using 1(3) by (simp_all add: s1_def)
    consider (last) "?rest = []" | (full) "?rest \<noteq> []" "?n = 254" | (zero) "?rest \<noteq> []" "?n \<noteq> 254" by blast
    then show ?thesis
    proof cases
      case last
      then have "tx_send_frame_done s1 = (s1\<lparr>tx_dataToSend := [], tx_pending := On_sent\<rparr>, [0])"
        using d size full by (auto simp: tx_send_frame_done_def tx_send_or_done_def tx_send_def Let_def)
      then show ?thesis using last d by (intro exI [of _ 1]) simp
    next
      case full
      then have "tx_send_frame_done s1 = tx_send_frame (s1\<lparr>tx_dataToSend := ?rest\<rparr>)"
        using d \<open>((of_nat ?n :: byte) = 254) = (?n = 254)\<close> by (simp add: tx_send_frame_done_def tx_send_or_done_def Let_def)
      moreover obtain fuel where "fuel \<le> 2 * length ?rest + 3"
          "tx_run fuel (tx_send_frame (s1\<lparr>tx_dataToSend := ?rest\<rparr>)) = Some (cobs_frames ?rest @ [0], ?size)"
        using 1(1) [OF refl refl full, of "s1\<lparr>tx_dataToSend := ?rest\<rparr>"] d by auto
      ultimately show ?thesis using full n by (intro exI [of _ fuel]) auto
    next
      case zero
      then have "tx_send_frame_done s1 = tx_send_frame (s1\<lparr>tx_dataToSend := tl ?rest\<rparr>)"
        using d size full by (simp add: tx_send_frame_done_def Let_def)
      moreover obtain fuel where "fuel \<le> 2 * length (tl ?rest) + 3"
          "tx_run fuel (tx_send_frame (s1\<lparr>tx_dataToSend := tl ?rest\<rparr>)) = Some (cobs_frames (tl ?rest) @ [0], ?size)"
        using 1(2) [OF refl refl zero, of "s1\<lparr>tx_dataToSend := tl ?rest\<rparr>"] d by auto
      ultimately show ?thesis using zero n by (intro exI [of _ fuel]) auto
    qed
  qed
  then obtain fuel where f: "fuel \<le> 2 * length xs + 1" and run: "tx_run fuel (tx_send_frame_done s1) =
      Some ((if ?rest = [] then [] else if ?n = 254 then cobs_frames ?rest else cobs_frames (tl ?rest)) @ [0], ?size)"
    by blast
  have frames: "cobs_frames xs @ [0] = [?b] @ take ?n xs @
      (if ?rest = [] then [] else if ?n = 254 then cobs_frames ?rest else cobs_frames (tl ?rest)) @ [0]"
    by (subst cobs_frames.simps) (simp add: Let_def)
  show ?case
  proof (cases "?n = 0")
    case True
    have "tx_run (Suc fuel) (tx_send_frame s) = Some (cobs_frames xs @ [0], ?size)"
      unfolding start tx_run.simps cobs_sender.simps pending.case after frames
      using True run done_pending by simp
    then show ?thesis using f by (intro exI [of _ "Suc fuel"]) simp
  next
    case False
    have "tx_run (Suc (Suc fuel)) (tx_send_frame s) = Some (cobs_frames xs @ [0], ?size)"
      unfolding start tx_run.simps cobs_sender.simps pending.case after frames
      using False run by (simp add: s1_def [THEN arg_cong [where f = tx_pending]])
    then show ?thesis using f by (intro exI [of _ "Suc (Suc fuel)"]) simp
  qed
qed

lemma tx_run_packet:
  "\<exists>fuel \<le> 2 * vec_size v + 4. tx_run fuel (tx_send_stream_filled s v) = Some (cobs_packet (vec_range v), of_nat (vec_size v))"
proof -
  let ?s = "s\<lparr>tx_sendStorage := v, tx_dataToSend := vec_range v, tx_pending := Send_or_done\<rparr>"
  have start: "tx_send_stream_filled s v = (?s, [0])" by (simp add: tx_send_stream_filled_def tx_send_def)
  show ?thesis
  proof (cases "vec_range v = []")
    case True
    then have "tx_run 2 (tx_send_stream_filled s v) = Some (cobs_packet (vec_range v), of_nat (vec_size v))"
      by (simp add: start numeral_2_eq_2 tx_send_or_done_def tx_send_def cobs_packet_def)
    then show ?thesis by (intro exI [of _ 2]) simp
  next
    case False
    obtain fuel where "fuel \<le> 2 * length (vec_range v) + 3"
        "tx_run fuel (tx_send_frame ?s) = Some (cobs_frames (vec_range v) @ [0], of_nat (vec_size (tx_sendStorage ?s)))"
      using tx_run_frames [of ?s "vec_range v"] by auto
    then show ?thesis using False
      by (intro exI [of _ "Suc fuel"]) (simp add: start tx_send_or_done_def cobs_packet_def)
  qed
qed

section \<open>Receiving\<close>

text \<open>The observer is handed a limited reader over the received bytes.\<close>

type_synonym message_reader = "vector_reader_state limited"

record cobs_receiver =
  rx_nextOverhead :: byte
  rx_overheadPositionIsPseudo :: bool
  rx_receivedMessage :: "byte vec"
  rx_currentMessageSize :: nat
  rx_hasObserver :: bool

definition rx_new :: "byte vec \<Rightarrow> bool \<Rightarrow> cobs_receiver" where
  "rx_new storage hasObserver = \<lparr>rx_nextOverhead = 1, rx_overheadPositionIsPseudo = True,
     rx_receivedMessage = storage, rx_currentMessageSize = 0, rx_hasObserver = hasObserver\<rparr>"

definition rx_received_payload :: "cobs_receiver \<Rightarrow> byte list \<Rightarrow> cobs_receiver result" where
  "rx_received_payload s data =
     rbind (vec_insert_range (rx_receivedMessage s) (vec_size (rx_receivedMessage s)) data) (\<lambda>v.
       Inr (s\<lparr>rx_receivedMessage := v, rx_currentMessageSize := rx_currentMessageSize s + length data\<rparr>))"

definition rx_message_boundary :: "cobs_receiver \<Rightarrow> (cobs_receiver \<times> message_reader list) result" where
  "rx_message_boundary s =
     (let messageSize = rx_currentMessageSize s; s1 = s\<lparr>rx_currentMessageSize := 0\<rparr>
      in if messageSize \<noteq> 0
         then let reader = lim_new (vr_new (rx_receivedMessage s1)) (of_nat messageSize)
              in rbind (vec_erase_range (rx_receivedMessage s1) 0 messageSize) (\<lambda>v.
                   Inr (s1\<lparr>rx_receivedMessage := v\<rparr>, if rx_hasObserver s1 then [reader] else []))
         else Inr (s1, []))"

definition rx_start_new_message :: "cobs_receiver \<Rightarrow> byte list \<Rightarrow> (cobs_receiver \<times> byte list \<times> message_reader list) result" where
  "rx_start_new_message s data = rbind (rx_message_boundary s) (\<lambda>(s1, readers).
     Inr (s1\<lparr>rx_nextOverhead := 1, rx_overheadPositionIsPseudo := True\<rparr>, tl data, readers))"

definition rx_extract_overhead :: "cobs_receiver \<Rightarrow> byte list \<Rightarrow> (cobs_receiver \<times> byte list \<times> message_reader list) result" where
  "rx_extract_overhead s data =
     (let s1 = s\<lparr>rx_nextOverhead := hd data\<rparr>
      in if rx_nextOverhead s1 = 0 then rx_start_new_message s1 data
         else rbind (if \<not> rx_overheadPositionIsPseudo s1 then rx_received_payload s1 [0] else Inr s1) (\<lambda>s2.
                Inr (s2\<lparr>rx_overheadPositionIsPseudo := (rx_nextOverhead s2 = 255)\<rparr>, tl data, [])))"

definition rx_forward_data :: "cobs_receiver \<Rightarrow> byte list \<Rightarrow> byte list \<Rightarrow> (cobs_receiver \<times> byte list) result" where
  "rx_forward_data s contents data = rbind (rx_received_payload s contents) (\<lambda>s1.
     Inr (s1\<lparr>rx_nextOverhead := rx_nextOverhead s1 - of_nat (length contents)\<rparr>, drop (length contents) data))"

text \<open>\<open>nextOverhead - 1\<close> is computed in \<open>int\<close> and converted to an unsigned size.\<close>

definition rx_head :: "cobs_receiver \<Rightarrow> byte list \<Rightarrow> byte list" where
  "rx_head s data = (if rx_nextOverhead s = 0 then data else take (unat (rx_nextOverhead s) - 1) data)"

definition rx_extract_data :: "cobs_receiver \<Rightarrow> byte list \<Rightarrow> (cobs_receiver \<times> byte list \<times> message_reader list) result" where
  "rx_extract_data s data =
     (let head = rx_head s data;
          preDelimiter = takeWhile (\<lambda>x. x \<noteq> 0) head; postDelimiter = dropWhile (\<lambda>x. x \<noteq> 0) head
      in rbind (if preDelimiter \<noteq> [] then rx_forward_data s preDelimiter data else Inr (s, data)) (\<lambda>(s1, data1).
           if postDelimiter \<noteq> [] then rx_start_new_message s1 data1 else Inr (s1, data1, [])))"

lemma rx_head_nonempty:
  assumes "data \<noteq> []" and "rx_nextOverhead s \<noteq> 1"
  shows "rx_head s data \<noteq> []"
proof -
  have "unat (rx_nextOverhead s) \<noteq> 1" using assms(2) by (metis unat_1 word_unat_eq_iff)
  moreover have "rx_nextOverhead s = 0 \<or> unat (rx_nextOverhead s) \<noteq> 0" by (simp add: unat_eq_zero)
  ultimately show ?thesis using assms(1) by (auto simp: rx_head_def)
qed

lemma rx_forward_shrinks:
  "pre \<noteq> [] \<Longrightarrow> data \<noteq> [] \<Longrightarrow> rx_forward_data s pre data = Inr (s1, data1) \<Longrightarrow> length data1 < length data"
  by (auto simp: rx_forward_data_def rbind_Inr)

lemma rx_start_shrinks:
  "rx_start_new_message s data = Inr (s1, data1, readers) \<Longrightarrow> data1 = tl data"
  by (auto simp: rx_start_new_message_def rbind_Inr)

lemma rx_extract_shrinks:
  assumes "data \<noteq> []" and "rx_nextOverhead s \<noteq> 1"
    and "rx_extract_data s data = Inr (s1, data1, readers)"
  shows "length data1 < length data"
proof -
  define pre where "pre = takeWhile (\<lambda>x. x \<noteq> 0) (rx_head s data)"
  define post where "post = dropWhile (\<lambda>x. x \<noteq> 0) (rx_head s data)"
  have "pre @ post = rx_head s data" by (simp add: pre_def post_def)
  then have ne: "pre \<noteq> [] \<or> post \<noteq> []" using rx_head_nonempty [OF assms(1,2)] by auto
  obtain sa da where a: "(if pre \<noteq> [] then rx_forward_data s pre data else Inr (s, data)) = Inr (sa, da)"
      and b: "(if post \<noteq> [] then rx_start_new_message sa da else Inr (sa, da, [])) = Inr (s1, data1, readers)"
    using assms(3) unfolding rx_extract_data_def Let_def pre_def [symmetric] post_def [symmetric] by (auto simp: rbind_Inr)
  have "pre \<noteq> [] \<Longrightarrow> length da < length data" using a assms(1) by (auto intro: rx_forward_shrinks)
  moreover have "pre = [] \<Longrightarrow> da = data" using a by simp
  moreover have "data1 = tl da \<or> data1 = da \<and> post = []" using b by (auto split: if_splits dest: rx_start_shrinks)
  ultimately show ?thesis using ne assms(1) by (cases "pre = []") (auto intro: le_less_trans [OF _ \<open>pre \<noteq> [] \<Longrightarrow> length da < length data\<close>])
qed

lemma rx_overhead_shrinks:
  "data \<noteq> [] \<Longrightarrow> rx_extract_overhead s data = Inr (s1, data1, readers) \<Longrightarrow> length data1 < length data"
  by (auto simp: rx_extract_overhead_def rx_start_new_message_def Let_def rbind_Inr split: if_splits)

function rx_received_data :: "cobs_receiver \<Rightarrow> byte list \<Rightarrow> (cobs_receiver \<times> message_reader list) result" where
  "rx_received_data s data =
     (if data = [] then Inr (s, [])
      else case (if rx_nextOverhead s = 1 then rx_extract_overhead s data else rx_extract_data s data) of
             Inl f \<Rightarrow> Inl f
           | Inr (s1, data1, readers) \<Rightarrow> rbind (rx_received_data s1 data1) (\<lambda>(s2, readers2). Inr (s2, readers @ readers2)))"
  by pat_completeness auto
termination
  by (relation "measure (\<lambda>(s, data). length data)") (auto intro: rx_extract_shrinks rx_overhead_shrinks split: if_splits)

declare rx_received_data.simps [simp del]

text \<open>The state as the codec sees it, and the message a reader shows.\<close>

definition rx_abs :: "cobs_receiver \<Rightarrow> cobs_state" where
  "rx_abs s = \<lparr>cs_next = rx_nextOverhead s, cs_pseudo = rx_overheadPositionIsPseudo s, cs_message = vec_range (rx_receivedMessage s)\<rparr>"

definition rx_inv :: "cobs_receiver \<Rightarrow> bool" where
  "rx_inv s \<longleftrightarrow> vec_inv (rx_receivedMessage s) \<and> rx_currentMessageSize s = vec_size (rx_receivedMessage s) \<and>
     rx_nextOverhead s \<noteq> 0 \<and> rx_hasObserver s \<and> vec_max_size (rx_receivedMessage s) < 2 ^ 32"

definition rx_cap :: "cobs_receiver \<Rightarrow> nat" where
  "rx_cap s = vec_max_size (rx_receivedMessage s)"

definition message_bytes :: "message_reader \<Rightarrow> byte list" where
  "message_bytes r = lim_rem (\<lambda>v. drop (vr_offset v) (vr_bytes v)) r"

text \<open>A step of the code against the bytes it takes from the data.\<close>

definition rx_step_ok :: "cobs_receiver \<Rightarrow> (cobs_receiver \<times> message_reader list) result \<Rightarrow> byte list \<Rightarrow> bool" where
  "rx_step_ok s r bs \<longleftrightarrow>
     (case r of Inl f \<Rightarrow> cobs_bytes (rx_cap s) (rx_abs s) bs = Inl f
      | Inr (s1, readers) \<Rightarrow> cobs_bytes (rx_cap s) (rx_abs s) bs = Inr (rx_abs s1, map message_bytes readers) \<and>
          rx_inv s1 \<and> rx_cap s1 = rx_cap s)"

lemma rx_payload:
  assumes "vec_inv (rx_receivedMessage s)"
  shows "vec_size (rx_receivedMessage s) + length bs \<le> rx_cap s \<Longrightarrow> \<exists>v. vec_inv v \<and> vec_max_size v = rx_cap s \<and>
      vec_range v = vec_range (rx_receivedMessage s) @ bs \<and> vec_size v = vec_size (rx_receivedMessage s) + length bs \<and>
      rx_received_payload s bs = Inr (s\<lparr>rx_receivedMessage := v, rx_currentMessageSize := rx_currentMessageSize s + length bs\<rparr>)"
    and "\<not> vec_size (rx_receivedMessage s) + length bs \<le> rx_cap s \<Longrightarrow> rx_received_payload s bs = Inl Assert_failed"
proof -
  let ?v = "rx_receivedMessage s"
  assume room: "vec_size ?v + length bs \<le> rx_cap s"
  have "vec_yields (vec_insert_range ?v (vec_size ?v) bs) (vec_max_size ?v) (vec_range ?v @ bs)"
    using vec_insert_range_yields [of ?v bs "vec_size ?v"] room by (simp add: rx_cap_def)
  then obtain v where v: "vec_insert_range ?v (vec_size ?v) bs = Inr v" "vec_inv v" "vec_max_size v = vec_max_size ?v"
      "vec_range v = vec_range ?v @ bs"
    by (auto simp: vec_yields_def)
  then have "vec_size v = vec_size ?v + length bs" by (metis length_append length_vec_range)
  with v show "\<exists>v. vec_inv v \<and> vec_max_size v = rx_cap s \<and> vec_range v = vec_range ?v @ bs \<and> vec_size v = vec_size ?v + length bs \<and>
      rx_received_payload s bs = Inr (s\<lparr>rx_receivedMessage := v, rx_currentMessageSize := rx_currentMessageSize s + length bs\<rparr>)"
    by (auto simp: rx_received_payload_def rx_cap_def)
next
  assume "\<not> vec_size (rx_receivedMessage s) + length bs \<le> rx_cap s"
  then show "rx_received_payload s bs = Inl Assert_failed"
    by (simp add: rx_received_payload_def vec_insert_range_def Let_def rx_cap_def)
qed

lemma rx_boundary:
  assumes inv: "vec_inv (rx_receivedMessage s)" "rx_currentMessageSize s = vec_size (rx_receivedMessage s)"
    "rx_hasObserver s" "rx_cap s < 2 ^ 32"
  shows "\<exists>s1 readers. rx_start_new_message s data = Inr (s1, tl data, readers) \<and> rx_inv s1 \<and> rx_cap s1 = rx_cap s \<and>
    (rx_abs s1, map message_bytes readers) = cobs_boundary (rx_abs s)"
proof (cases "vec_size (rx_receivedMessage s) = 0")
  case True
  then have "vec_range (rx_receivedMessage s) = []" by (metis length_0_conv length_vec_range)
  then show ?thesis using assms True
    by (simp add: rx_start_new_message_def rx_message_boundary_def rx_inv_def rx_abs_def cobs_boundary_def cobs_start_def rx_cap_def)
next
  case False
  let ?v = "rx_receivedMessage s"
  have "vec_yields (vec_erase_range ?v 0 (vec_size ?v)) (vec_max_size ?v) []"
    using vec_erase_prefix [OF inv(1), of "vec_size ?v"] by simp
  then obtain v where v: "vec_erase_range ?v 0 (vec_size ?v) = Inr v" "vec_inv v" "vec_max_size v = vec_max_size ?v" "vec_range v = []"
    by (auto simp: vec_yields_def)
  have size: "vec_size v = 0" by (metis v(4) length_vec_range list.size(3))
  have "vec_size ?v < 2 ^ 32" using inv by (simp add: rx_cap_def vec_inv_def vec_size_def)
  then have "unat (of_nat (vec_size ?v) :: u32) = vec_size ?v" by simp
  then have m: "message_bytes (lim_new (vr_new ?v) (of_nat (vec_size ?v))) = vec_range ?v"
    by (simp add: message_bytes_def lim_new_def lim_rem_def vr_new_def vr_bytes_def del: vr_range)
  have ne: "vec_range ?v \<noteq> []" using False by (metis length_vec_range list.size(3))
  show ?thesis using assms False v size m ne
    by (simp add: rx_start_new_message_def rx_message_boundary_def Let_def rx_inv_def rx_abs_def cobs_boundary_def cobs_start_def rx_cap_def)
qed

lemma rx_overhead_refines:
  assumes inv: "rx_inv s" and next1: "rx_nextOverhead s = 1" and ne: "data \<noteq> []"
  shows "rx_step_ok s (rbind (rx_extract_overhead s data) (\<lambda>(s1, data1, readers). Inr (s1, readers))) [hd data]"
    and "rx_extract_overhead s data = Inr (s1, data1, readers) \<Longrightarrow> data1 = tl data"
proof -
  show "data1 = tl data" if "rx_extract_overhead s data = Inr (s1, data1, readers)"
    using that by (auto simp: rx_extract_overhead_def rx_start_new_message_def Let_def rbind_Inr split: if_splits)
  let ?s1 = "s\<lparr>rx_nextOverhead := hd data\<rparr>"
  have v: "vec_inv (rx_receivedMessage s)" using inv by (simp add: rx_inv_def)
  consider (zero) "hd data = 0" | (pseudo) "hd data \<noteq> 0" "rx_overheadPositionIsPseudo s"
    | (append) "hd data \<noteq> 0" "\<not> rx_overheadPositionIsPseudo s" by blast
  then show "rx_step_ok s (rbind (rx_extract_overhead s data) (\<lambda>(s1, data1, readers). Inr (s1, readers))) [hd data]"
  proof cases
    case zero
    obtain s1 readers where "rx_start_new_message ?s1 data = Inr (s1, tl data, readers)" "rx_inv s1" "rx_cap s1 = rx_cap s"
        "(rx_abs s1, map message_bytes readers) = cobs_boundary (rx_abs ?s1)"
      using rx_boundary [of ?s1 data] inv by (auto simp: rx_inv_def rx_cap_def)
    moreover have "cobs_boundary (rx_abs ?s1) = cobs_boundary (rx_abs s)" by (simp add: cobs_boundary_def rx_abs_def)
    ultimately show ?thesis using zero by (simp add: rx_extract_overhead_def rx_step_ok_def cobs_byte_def)
  next
    case pseudo
    then show ?thesis using inv next1
      by (simp add: rx_extract_overhead_def rx_step_ok_def cobs_byte_def rx_abs_def rx_inv_def rx_cap_def)
  next
    case append
    show ?thesis
    proof (cases "vec_size (rx_receivedMessage s) + 1 \<le> rx_cap s")
      case True
      obtain v where "vec_inv v" "vec_max_size v = rx_cap s" "vec_range v = vec_range (rx_receivedMessage s) @ [0]"
          "vec_size v = vec_size (rx_receivedMessage s) + 1"
          "rx_received_payload ?s1 [0] = Inr (?s1\<lparr>rx_receivedMessage := v, rx_currentMessageSize := rx_currentMessageSize s + 1\<rparr>)"
        using rx_payload(1) [of ?s1 "[0]"] v True by (auto simp: rx_cap_def)
      then show ?thesis using append inv next1 True
        by (simp add: rx_extract_overhead_def rx_step_ok_def cobs_byte_def cobs_append_def rx_abs_def rx_inv_def rx_cap_def Let_def)
    next
      case False
      then have "rx_received_payload ?s1 [0] = Inl Assert_failed"
        using rx_payload(2) [of ?s1 "[0]"] v by (simp add: rx_cap_def)
      then show ?thesis using append next1 False
        by (simp add: rx_extract_overhead_def rx_step_ok_def cobs_byte_def cobs_append_def rx_abs_def rx_cap_def Let_def)
    qed
  qed
qed

lemma rx_step_ok_Inl: "rx_step_ok s (Inl f) bs \<longleftrightarrow> cobs_bytes (rx_cap s) (rx_abs s) bs = Inl f"
  by (simp add: rx_step_ok_def)

lemma rx_step_ok_Inr: "rx_step_ok s (Inr (s1, readers)) bs \<longleftrightarrow>
    cobs_bytes (rx_cap s) (rx_abs s) bs = Inr (rx_abs s1, map message_bytes readers) \<and> rx_inv s1 \<and> rx_cap s1 = rx_cap s"
  by (simp add: rx_step_ok_def)

lemma rx_step_ok_append:
  assumes "rx_step_ok s (Inr (s1, readers1)) xs" and "rx_step_ok s1 r ys"
  shows "rx_step_ok s (rbind r (\<lambda>(s2, readers2). Inr (s2, readers1 @ readers2))) (xs @ ys)"
proof (cases r)
  case (Inl f)
  then show ?thesis using assms by (simp add: rx_step_ok_def cobs_bytes_append)
next
  case (Inr a)
  obtain s2 readers2 where "a = (s2, readers2)" by (cases a)
  then show ?thesis using assms Inr by (simp add: rx_step_ok_def cobs_bytes_append)
qed

lemma rx_step_ok_fault: "rx_step_ok s (Inl f) xs \<Longrightarrow> rx_step_ok s (Inl f) (xs @ ys)"
  by (simp add: rx_step_ok_def cobs_bytes_append)

lemma rx_forward_refines:
  assumes inv: "rx_inv s" and pre: "0 \<notin> set pre" "pre \<noteq> []" "length pre < unat (rx_nextOverhead s)"
  shows "(\<exists>s1. rx_forward_data s pre data = Inr (s1, drop (length pre) data) \<and> rx_step_ok s (Inr (s1, [])) pre) \<or>
    rx_forward_data s pre data = Inl Assert_failed \<and> rx_step_ok s (Inl Assert_failed) pre"
proof -
  have v: "vec_inv (rx_receivedMessage s)" using inv by (simp add: rx_inv_def)
  note run = cobs_bytes_data [of pre "rx_abs s" "rx_cap s"]
  show ?thesis
  proof (cases "vec_size (rx_receivedMessage s) + length pre \<le> rx_cap s")
    case True
    obtain v' where v': "vec_inv v'" "vec_max_size v' = rx_cap s" "vec_range v' = vec_range (rx_receivedMessage s) @ pre"
        "vec_size v' = vec_size (rx_receivedMessage s) + length pre"
        "rx_received_payload s pre = Inr (s\<lparr>rx_receivedMessage := v', rx_currentMessageSize := rx_currentMessageSize s + length pre\<rparr>)"
      using rx_payload(1) [OF v True] by blast
    have "of_nat (length pre) \<le> rx_nextOverhead s \<and> of_nat (length pre) \<noteq> rx_nextOverhead s"
    proof -
      have "length pre < 256" using pre(3) unat_u8_less [of "rx_nextOverhead s"] by linarith
      then have "unat (of_nat (length pre) :: byte) = length pre" by simp
      then show ?thesis using pre(3) by (auto simp: word_le_nat_alt)
    qed
    then have "rx_nextOverhead s - of_nat (length pre) \<noteq> 0" by auto
    then have "rx_step_ok s (Inr (s\<lparr>rx_receivedMessage := v', rx_currentMessageSize := rx_currentMessageSize s + length pre,
        rx_nextOverhead := rx_nextOverhead s - of_nat (length pre)\<rparr>, [])) pre"
      using run pre inv v' True by (simp add: rx_step_ok_Inr rx_abs_def rx_inv_def rx_cap_def)
    then show ?thesis using v' by (auto simp: rx_forward_data_def)
  next
    case False
    then show ?thesis using rx_payload(2) [OF v False] run pre
      by (simp add: rx_forward_data_def rx_step_ok_Inl rx_abs_def)
  qed
qed

lemma rx_data_refines:
  assumes inv: "rx_inv s" and next1: "rx_nextOverhead s \<noteq> 1" and ne: "data \<noteq> []"
  shows "\<exists>bs rest. data = bs @ rest \<and> rx_step_ok s (rbind (rx_extract_data s data) (\<lambda>(s1, data1, readers). Inr (s1, readers))) bs \<and>
    (\<forall>s1 data1 readers. rx_extract_data s data = Inr (s1, data1, readers) \<longrightarrow> data1 = rest)"
proof -
  define pre where "pre = takeWhile (\<lambda>x. x \<noteq> 0) (rx_head s data)"
  define post where "post = dropWhile (\<lambda>x. x \<noteq> 0) (rx_head s data)"
  have head: "rx_head s data = take (unat (rx_nextOverhead s) - 1) data" using inv by (simp add: rx_head_def rx_inv_def)
  have split: "pre @ post = rx_head s data" by (simp add: pre_def post_def)
  have pos: "0 < unat (rx_nextOverhead s)" using inv by (simp add: rx_inv_def unat_gt_0)
  have "length pre \<le> length (rx_head s data)" by (simp add: pre_def length_takeWhile_le)
  moreover have "length (rx_head s data) \<le> unat (rx_nextOverhead s) - 1" by (simp add: head)
  ultimately have len: "length pre < unat (rx_nextOverhead s)" using pos by linarith
  have nz: "0 \<notin> set pre" using set_takeWhileD by (fastforce simp: pre_def)
  have data: "data = pre @ drop (length pre) data"
  proof -
    have "take (length pre) (rx_head s data) = pre" by (simp flip: split)
    then have "take (length pre) data = pre" using len by (simp add: head min_absorb1)
    then show ?thesis by (metis append_take_drop_id)
  qed
  have def: "rx_extract_data s data = rbind (if pre \<noteq> [] then rx_forward_data s pre data else Inr (s, data)) (\<lambda>(s1, data1).
      if post \<noteq> [] then rx_start_new_message s1 data1 else Inr (s1, data1, []))"
    unfolding rx_extract_data_def Let_def pre_def [symmetric] post_def [symmetric] ..
  consider (fault) "rx_extract_data s data = Inl Assert_failed" "rx_step_ok s (Inl Assert_failed) pre"
    | (ok) s1 where "rx_extract_data s data = (if post \<noteq> [] then rx_start_new_message s1 (drop (length pre) data) else Inr (s1, drop (length pre) data, []))"
        "rx_step_ok s (Inr (s1, [])) pre"
  proof (cases "pre = []")
    case True
    have "rx_step_ok s (Inr (s, [])) []" using inv by (simp add: rx_step_ok_Inr)
    then show ?thesis using that(2) [of s] True def by simp
  next
    case False
    from rx_forward_refines [OF inv nz False len, of data] show ?thesis
      using that False def by auto
  qed
  then show ?thesis
  proof cases
    case fault
    then show ?thesis using data by (intro exI [of _ pre] exI [of _ "drop (length pre) data"]) simp
  next
    case ok
    show ?thesis
    proof (cases "post = []")
      case True
      then show ?thesis using ok data by (intro exI [of _ pre] exI [of _ "drop (length pre) data"]) simp
    next
      case False
      then have zero_first: "hd post = 0" using hd_dropWhile [of "\<lambda>x. x \<noteq> 0" "rx_head s data"] by (simp add: post_def)
      have "take (unat (rx_nextOverhead s) - 1) (pre @ drop (length pre) data) =
          pre @ take (unat (rx_nextOverhead s) - 1 - length pre) (drop (length pre) data)"
        using len by simp
      then have "rx_head s data = pre @ take (unat (rx_nextOverhead s) - 1 - length pre) (drop (length pre) data)"
        unfolding head data [symmetric] .
      then have "post = take (unat (rx_nextOverhead s) - 1 - length pre) (drop (length pre) data)" by (simp flip: split)
      then have zero: "drop (length pre) data = 0 # tl (drop (length pre) data)"
        using False zero_first by (metis hd_take take_eq_Nil list.collapse gr0I)
      have inv1: "rx_inv s1" and abs1: "rx_cap s1 = rx_cap s" using ok(2) by (simp_all add: rx_step_ok_Inr)
      obtain s2 readers where s2: "rx_start_new_message s1 (drop (length pre) data) = Inr (s2, tl (drop (length pre) data), readers)"
          "rx_inv s2" "rx_cap s2 = rx_cap s1" "(rx_abs s2, map message_bytes readers) = cobs_boundary (rx_abs s1)"
        using rx_boundary [of s1 "drop (length pre) data"] inv1 by (auto simp: rx_inv_def rx_cap_def)
      have "rx_step_ok s1 (Inr (s2, readers)) [0]" using s2 by (simp add: rx_step_ok_Inr cobs_byte_def flip: s2(4))
      from rx_step_ok_append [OF ok(2) this] have "rx_step_ok s (Inr (s2, readers)) (pre @ [0])" by simp
      moreover have "data = (pre @ [0]) @ tl (drop (length pre) data)" using data zero by simp
      ultimately show ?thesis using ok(1) s2(1) False
        by (intro exI [of _ "pre @ [0]"] exI [of _ "tl (drop (length pre) data)"]) simp
    qed
  qed
qed

text \<open>The code's receiver implements the codec, faults included.\<close>

lemma rx_received_refines:
  assumes "rx_inv s"
  shows "rx_step_ok s (rx_received_data s data) data"
  using assms
proof (induction s data rule: rx_received_data.induct)
  case (1 s data)
  show ?case
  proof (cases "data = []")
    case True
    then show ?thesis using 1(2) by (subst rx_received_data.simps) (simp add: rx_step_ok_Inr)
  next
    case False
    let ?step = "if rx_nextOverhead s = 1 then rx_extract_overhead s data else rx_extract_data s data"
    obtain bs rest where d: "data = bs @ rest"
      and ok: "rx_step_ok s (rbind ?step (\<lambda>(s1, data1, readers). Inr (s1, readers))) bs"
      and rest: "\<And>s1 data1 readers. ?step = Inr (s1, data1, readers) \<Longrightarrow> data1 = rest"
    proof (cases "rx_nextOverhead s = 1")
      case True
      from rx_overhead_refines [OF 1(2) True False] True False that [of "[hd data]" "tl data"] show thesis by auto
    next
      case f: False
      from rx_data_refines [OF 1(2) f False] f that show thesis by auto
    qed
    show ?thesis
    proof (cases ?step)
      case (Inl f)
      then have "rx_received_data s data = Inl f" using False by (subst rx_received_data.simps) simp
      moreover have "rx_step_ok s (Inl f) (bs @ rest)" using ok Inl by (intro rx_step_ok_fault) simp
      ultimately show ?thesis using d by simp
    next
      case (Inr a)
      obtain s1 data1 readers where a: "a = (s1, data1, readers)" by (cases a)
      then have data1: "data1 = rest" using rest Inr by simp
      have ok1: "rx_step_ok s (Inr (s1, readers)) bs" using ok Inr a by simp
      then have "rx_inv s1" by (simp add: rx_step_ok_Inr)
      then have "rx_step_ok s1 (rx_received_data s1 rest) rest"
        using 1(1) [OF False Inr, of s1 "(data1, readers)" data1 readers] a unfolding data1 by simp
      from rx_step_ok_append [OF ok1 this]
      have "rx_step_ok s (rbind (rx_received_data s1 data1) (\<lambda>(s2, readers2). Inr (s2, readers @ readers2))) data"
        unfolding d data1 .
      moreover have "rx_received_data s data = rbind (rx_received_data s1 data1) (\<lambda>(s2, readers2). Inr (s2, readers @ readers2))"
        using False Inr a by (subst rx_received_data.simps) simp
      ultimately show ?thesis by simp
    qed
  qed
qed

text \<open>The line delivers its bytes in pieces.\<close>

fun rx_received_all :: "cobs_receiver \<Rightarrow> byte list list \<Rightarrow> (cobs_receiver \<times> message_reader list) result" where
  "rx_received_all s [] = Inr (s, [])"
| "rx_received_all s (data # rest) = rbind (rx_received_data s data) (\<lambda>(s1, readers1).
     rbind (rx_received_all s1 rest) (\<lambda>(s2, readers2). Inr (s2, readers1 @ readers2)))"

lemma rx_received_all_refines:
  "rx_inv s \<Longrightarrow> rx_step_ok s (rx_received_all s pieces) (concat pieces)"
proof (induction pieces arbitrary: s)
  case Nil
  then show ?case by (simp add: rx_step_ok_Inr)
next
  case (Cons data rest)
  have ok: "rx_step_ok s (rx_received_data s data) data" using rx_received_refines [OF Cons.prems] .
  show ?case
  proof (cases "rx_received_data s data")
    case (Inl f)
    then show ?thesis using rx_step_ok_fault [of s f data] ok by simp
  next
    case (Inr a)
    obtain s1 readers1 where a: "a = (s1, readers1)" by (cases a)
    then have "rx_inv s1" using ok Inr by (simp add: rx_step_ok_Inr)
    from rx_step_ok_append [OF _ Cons.IH [OF this], of s readers1 data] show ?thesis
      using ok Inr a by simp
  qed
qed

text \<open>What can be told of a run without looking at where in the storage the bytes are.\<close>

fun rx_view :: "(cobs_receiver \<times> message_reader list) result \<Rightarrow> (cobs_state \<times> byte list list) result" where
  "rx_view (Inl f) = Inl f"
| "rx_view (Inr (s, readers)) = Inr (rx_abs s, map message_bytes readers)"

lemma rx_view_step: "rx_step_ok s r bs \<Longrightarrow> rx_view r = cobs_bytes (rx_cap s) (rx_abs s) bs"
  by (cases r rule: rx_view.cases) (auto simp: rx_step_ok_def)

section \<open>Properties\<close>

text \<open>C17: The receiver does not depend on how the serial line cuts the bytes into pieces: two
  deliveries of the same bytes, in whatever pieces, hand the observer the same messages, leave the
  same decoder state, and fail in the same cases. In the code the frame state survives between
  interrupts in nextOverhead, overheadPositionIsPseudo and currentMessageSize.\<close>

theorem cobs_pieces:
  assumes "rx_inv s" and "concat pieces1 = concat pieces2"
  shows "rx_view (rx_received_all s pieces1) = rx_view (rx_received_all s pieces2)"
  using assms rx_view_step [OF rx_received_all_refines] by metis

theorem cobs_pieces_witness:
  "rx_inv (rx_new (vec_new [0, 0, 0, 0]) True) \<and>
   rx_view (rx_received_all (rx_new (vec_new [0, 0, 0, 0]) True) [[3, 1], [], [2, 0]]) =
   rx_view (rx_received_all (rx_new (vec_new [0, 0, 0, 0]) True) [[3, 1, 2, 0]])"
proof -
  have inv: "rx_inv (rx_new (vec_new [0, 0, 0, 0]) True)"
    by (simp add: rx_inv_def rx_new_def) (simp add: vec_new_def vec_size_def)
  then show ?thesis using cobs_pieces [OF inv, of "[[3, 1], [], [2, 0]]" "[[3, 1, 2, 0]]"] by simp
qed

text \<open>C2: Whatever the sender puts on the line for a message is received as that message. The
  sender's chain of SendData calls ends after at most 2 n + 4 pieces with onSent called with the
  message's size, and a receiver with room for the message, in whatever state it is and however the
  line cuts the bytes, hands the observer first the message it was in the middle of, if any, and
  then exactly the bytes written (nothing for the empty message), and is empty again.\<close>

theorem cobs_roundtrip:
  assumes "rx_inv s" and "vec_size v \<le> rx_cap s"
  shows "\<exists>fuel bytes. fuel \<le> 2 * vec_size v + 4 \<and> tx_run fuel (tx_send_stream_filled t v) = Some (bytes, of_nat (vec_size v)) \<and>
    (\<forall>pieces. concat pieces = bytes \<longrightarrow> (\<exists>s1 readers. rx_received_all s pieces = Inr (s1, readers) \<and>
       map message_bytes readers = filter (\<lambda>m. m \<noteq> []) [vec_range (rx_receivedMessage s), vec_range v] \<and>
       rx_inv s1 \<and> rx_cap s1 = rx_cap s \<and> rx_currentMessageSize s1 = 0))"
proof -
  obtain fuel where fuel: "fuel \<le> 2 * vec_size v + 4"
      "tx_run fuel (tx_send_stream_filled t v) = Some (cobs_packet (vec_range v), of_nat (vec_size v))"
    using tx_run_packet by blast
  have spec: "cobs_bytes (rx_cap s) (rx_abs s) (cobs_packet (vec_range v)) =
      Inr (cobs_start, filter (\<lambda>m. m \<noteq> []) [vec_range (rx_receivedMessage s), vec_range v])"
    using cobs_decode_packet [of "vec_range v" "rx_cap s" "rx_abs s"] assms(2) by (simp add: rx_abs_def)
  have "\<exists>s1 readers. rx_received_all s pieces = Inr (s1, readers) \<and>
       map message_bytes readers = filter (\<lambda>m. m \<noteq> []) [vec_range (rx_receivedMessage s), vec_range v] \<and>
       rx_inv s1 \<and> rx_cap s1 = rx_cap s \<and> rx_currentMessageSize s1 = 0"
    if "concat pieces = cobs_packet (vec_range v)" for pieces
  proof -
    have ok: "rx_step_ok s (rx_received_all s pieces) (cobs_packet (vec_range v))"
      using rx_received_all_refines [OF assms(1), of pieces] that by simp
    then obtain s1 readers where r: "rx_received_all s pieces = Inr (s1, readers)"
      using spec by (cases "rx_received_all s pieces") (auto simp: rx_step_ok_Inl)
    then have "rx_abs s1 = cobs_start" using ok spec by (simp add: rx_step_ok_Inr)
    then have "vec_range (rx_receivedMessage s1) = []" by (simp add: rx_abs_def cobs_start_def)
    then have "vec_size (rx_receivedMessage s1) = 0" by (metis length_vec_range list.size(3))
    then show ?thesis using r ok spec by (simp add: rx_step_ok_Inr rx_inv_def)
  qed
  then show ?thesis using fuel by blast
qed

lemma cobs_example_inv: "rx_inv (rx_new (vec_new [0, 0, 0, 0, 0]) True)"
  by (simp add: rx_inv_def rx_new_def) (simp add: vec_new_def vec_size_def)

theorem cobs_roundtrip_witness:
  "\<exists>fuel bytes s1 readers. fuel \<le> 10 \<and>
    tx_run fuel (tx_send_stream_filled (tx_new (vec_new [])) \<lparr>vec_storage = [1, 0, 7], vec_numAllocated = 3\<rparr>) = Some (bytes, 3) \<and>
    rx_received_all (rx_new (vec_new [0, 0, 0, 0, 0]) True) [bytes] = Inr (s1, readers) \<and> map message_bytes readers = [[1, 0, 7]]"
proof -
  let ?s = "rx_new (vec_new [0, 0, 0, 0, 0]) True" and ?v = "\<lparr>vec_storage = [1, 0, 7 :: byte], vec_numAllocated = 3\<rparr>"
  have v: "vec_size ?v = 3" "vec_range ?v = [1, 0, 7]" "vec_size ?v \<le> rx_cap ?s"
    by (simp_all add: vec_size_def vec_range_def view_def vec_get_def upt_rec rx_cap_def rx_new_def)
  have s: "vec_range (rx_receivedMessage ?s) = []" by (simp add: rx_new_def)
  obtain fuel bytes where run: "fuel \<le> 2 * vec_size ?v + 4"
      "tx_run fuel (tx_send_stream_filled (tx_new (vec_new [])) ?v) = Some (bytes, of_nat (vec_size ?v))"
    and pieces: "\<And>pieces. concat pieces = bytes \<Longrightarrow> \<exists>s1 readers. rx_received_all ?s pieces = Inr (s1, readers) \<and>
       map message_bytes readers = filter (\<lambda>m. m \<noteq> []) [vec_range (rx_receivedMessage ?s), vec_range ?v]"
    using cobs_roundtrip [OF cobs_example_inv v(3), of "tx_new (vec_new [])"] by metis
  obtain s1 readers where "rx_received_all ?s [bytes] = Inr (s1, readers)" "map message_bytes readers = [[1, 0, 7]]"
    using pieces [of "[bytes]"] by (auto simp: s v)
  then show ?thesis using run unfolding v(1) by (intro exI [of _ fuel] exI [of _ bytes] exI) auto
qed

text \<open>C38: A packet on the line is the message's frames between two zeros, with no zero in between, so
  that a receiver can resynchronise at any zero; it takes at most one byte in 254 more than the
  message, and three.\<close>

theorem cobs_packet_on_line:
  "\<exists>fuel \<le> 2 * vec_size v + 4. \<exists>frames.
     tx_run fuel (tx_send_stream_filled t v) = Some ([0] @ frames @ [0], of_nat (vec_size v)) \<and>
     0 \<notin> set frames \<and> length ([0] @ frames @ [0]) \<le> vec_size v + vec_size v div 254 + 3"
proof -
  obtain fuel where "fuel \<le> 2 * vec_size v + 4"
      "tx_run fuel (tx_send_stream_filled t v) = Some (cobs_packet (vec_range v), of_nat (vec_size v))"
    using tx_run_packet by blast
  moreover have "length (cobs_packet (vec_range v)) \<le> vec_size v + vec_size v div 254 + 3"
    using cobs_packet_length [of "vec_range v"] by simp
  ultimately show ?thesis using cobs_frames_nonzero [of "vec_range v"]
    by (intro exI [of _ fuel] conjI exI [of _ "if vec_range v = [] then [] else cobs_frames (vec_range v)"])
       (auto simp: cobs_packet_def)
qed

text \<open>A message from the line that is larger than the receive buffer is not dropped: receiving it
  fails the assertion in BoundedVector::insert (ReceivedPayloadOnInterrupt inserts without a
  check), so whoever is on the other side of the line can stop the program.\<close>

lemma cobs_oversized_message_asserts:
  assumes "rx_inv s" and "rx_cap s < length message"
  shows "rx_received_all s [cobs_packet message] = Inl Assert_failed"
proof -
  have "cobs_bytes (rx_cap s) (rx_abs s) (cobs_packet message) = Inl Assert_failed"
    using assms by (intro cobs_decode_oversized) (auto simp: rx_abs_def rx_inv_def rx_cap_def vec_inv_def vec_max_size_def vec_size_def)
  moreover have "rx_step_ok s (rx_received_all s [cobs_packet message]) (cobs_packet message)"
    using rx_received_all_refines [OF assms(1), of "[cobs_packet message]"] by simp
  ultimately show ?thesis by (cases "rx_received_all s [cobs_packet message]") (auto simp: rx_step_ok_def)
qed

lemma cobs_oversized_message_asserts_witness:
  "rx_received_all (rx_new (vec_new [0, 0, 0, 0, 0]) True) [cobs_packet [1, 2, 3, 4, 5, 6]] = Inl Assert_failed"
  by (rule cobs_oversized_message_asserts [OF cobs_example_inv]) (simp add: rx_cap_def rx_new_def)

end
