(* ===== verification/Proto_Wire.thy ===== *)
theory Proto_Wire
  imports Prelude
begin

text \<open>
  The protobuf wire format as infra/syntax and services/echo_core use it, without streams: a
  variable-length integer has seven bits in each byte, least significant first, and the top bit
  set in all but the last; a fixed integer is little endian; a field is its number and wire type
  as a variable-length integer, then its value. ProtoFormatter and ProtoParser are shown to write
  and to read this format.
\<close>

unbundle bit_operations_syntax

section \<open>Variable-length integers\<close>

fun varint :: "nat \<Rightarrow> byte list" where
  "varint n = (if n < 128 then [of_nat n] else of_nat (n mod 128 + 128) # varint (n div 128))"

declare varint.simps [simp del]

lemma varint_small [simp]: "n < 128 \<Longrightarrow> varint n = [of_nat n]"
  by (subst varint.simps) simp

lemma varint_large: "128 \<le> n \<Longrightarrow> varint n = of_nat (n mod 128 + 128) # varint (n div 128)"
  by (subst varint.simps) simp

lemma varint_nonempty [simp]: "varint n \<noteq> []"
  by (subst varint.simps) simp

lemma length_varint_pos [simp]: "0 < length (varint n)"
  by simp

lemma length_varint_le: "n < 128 ^ k \<Longrightarrow> 0 < k \<Longrightarrow> length (varint n) \<le> k"
proof (induction n arbitrary: k rule: varint.induct)
  case (1 n)
  show ?case
  proof (cases "n < 128")
    case True
    then show ?thesis using 1(3) by simp
  next
    case False
    then obtain k' where k: "k = Suc k'" "0 < k'"
      using 1(2,3) by (metis gr0_implies_Suc power_one_right One_nat_def not_gr_zero)
    then have "n div 128 < 128 ^ k'" using 1(2) by (simp add: less_mult_imp_div_less mult.commute)
    then show ?thesis using 1(1) [OF False _ k(2)] False k by (simp add: varint_large)
  qed
qed

lemma length_varint_u64: "length (varint (unat (v :: u64))) \<le> 10"
proof -
  have "unat v < 18446744073709551616" using unsigned_less [of v] by simp
  also have "(18446744073709551616 :: nat) \<le> 128 ^ 10" by simp
  finally show ?thesis by (intro length_varint_le) simp_all
qed

lemma length_varint_u32: "length (varint (unat (v :: u32))) \<le> 5"
proof (rule length_varint_le)
  have "unat v < 4294967296" by simp
  also have "(4294967296 :: nat) \<le> 128 ^ 5" by simp
  finally show "unat v < 128 ^ 5" .
qed simp

section \<open>Fixed integers\<close>

primrec le_bytes :: "nat \<Rightarrow> nat \<Rightarrow> byte list" where
  "le_bytes 0 n = []"
| "le_bytes (Suc k) n = of_nat n # le_bytes k (n div 256)"

primrec le_value :: "byte list \<Rightarrow> nat" where
  "le_value [] = 0"
| "le_value (b # bs) = unat b + 256 * le_value bs"

lemma length_le_bytes [simp]: "length (le_bytes k n) = k"
  by (induction k arbitrary: n) simp_all

lemma le_value_bytes: "le_value (le_bytes k n) = n mod 256 ^ k"
proof (induction k arbitrary: n)
  case (Suc k)
  have "unat (of_nat n :: byte) = n mod 256" by (simp add: unat_of_nat take_bit_eq_mod)
  then show ?case by (simp add: Suc mod_mult2_eq)
qed simp

section \<open>Bytes of the code's loops\<close>

lemma unat_u64_less: "unat (v :: u64) < 18446744073709551616"
  using unsigned_less [of v] by simp

lemma ucast_of_nat: "(ucast (v :: u64) :: byte) = of_nat (unat v)"
  by simp

lemma u64_above_127: "(127 < (v :: u64)) = (128 \<le> unat v)"
  by (simp add: word_less_nat_alt Suc_le_eq [symmetric])

lemma unat_drop_seven: "unat (drop_bit 7 (v :: u64)) = unat v div 128"
  unfolding unat_drop_bit_eq by (simp add: drop_bit_eq_div)

lemma u64_shrinks:
  "drop_bit 7 (v :: u64) \<noteq> 0 \<Longrightarrow> unat (drop_bit 7 v) < unat v" "127 < v \<Longrightarrow> unat (drop_bit 7 v) < unat v"
  "v div 128 \<noteq> 0 \<Longrightarrow> unat (v div 128) < unat v" "127 < v \<Longrightarrow> unat (v div 128) < unat v"
proof -
  have "unat v div 128 < unat v" if "v \<noteq> 0" using that by (simp add: unat_gt_0)
  moreover have "v \<noteq> 0" if "drop_bit 7 v \<noteq> 0 \<or> 127 < v" using that by auto
  ultimately show "drop_bit 7 v \<noteq> 0 \<Longrightarrow> unat (drop_bit 7 v) < unat v" "127 < v \<Longrightarrow> unat (drop_bit 7 v) < unat v"
    unfolding unat_drop_seven by auto
  then show "v div 128 \<noteq> 0 \<Longrightarrow> unat (v div 128) < unat v" "127 < v \<Longrightarrow> unat (v div 128) < unat v"
    by (simp_all add: drop_bit_eq_div)
qed

lemma seven_bits: "v AND 0x7f = take_bit 7 (v :: u64)" "b AND 0x7f = take_bit 7 (b :: byte)"
  by (simp_all add: take_bit_eq_mask mask_numeral)

lemma unat_seven_bits: "unat (take_bit 7 (v :: u64)) = unat v mod 128" "unat (take_bit 7 (b :: byte)) = unat b mod 128"
  by (simp_all only: unsigned_take_bit_eq) (simp_all add: take_bit_eq_mod)

lemma continuation_byte: "(ucast ((v AND 0x7f) OR 0x80 :: u64) :: byte) = of_nat (unat v mod 128 + 128)"
proof -
  have "take_bit 7 v OR 2 ^ 7 = take_bit 7 v + 2 ^ 7"
    by (rule disjunctive_add [symmetric]) (auto simp only: bit_take_bit_iff bit_exp_iff)
  then have "unat ((v AND 0x7f) OR 0x80) = unat (take_bit 7 v + 128)" by (simp add: seven_bits)
  also have "\<dots> = unat v mod 128 + 128"
    by (simp add: unat_word_ariths unat_seven_bits)
  finally show ?thesis by (simp add: ucast_of_nat del: of_nat_add)
qed

text \<open>A byte that counts up to ten.\<close>

lemma u8_counts_up: "(index :: u8) + 1 \<noteq> 10 \<Longrightarrow> unat (9 - (index + 1)) < unat (9 - index)" "(index :: u8) \<noteq> 9 \<Longrightarrow> unat (8 - index) < unat (9 - index)"
proof -
  show *: "unat (8 - index) < unat (9 - index)" if "index \<noteq> 9" for index :: u8
  proof -
    have "9 - index \<noteq> 0" using that by simp
    then have "unat (9 - index - 1) < unat (9 - index)" unfolding unat_minus_one [OF \<open>9 - index \<noteq> 0\<close>] by (metis diff_less unat_gt_0 zero_less_one)
    moreover have "9 - index - 1 = 8 - index" by (simp add: algebra_simps)
    ultimately show ?thesis by metis
  qed
  show "unat (9 - (index + 1)) < unat (9 - index)" if "index + 1 \<noteq> 10"
  proof -
    have "index \<noteq> 9" using that by auto
    moreover have "9 - (index + 1) = 8 - index" by (simp add: algebra_simps)
    ultimately show ?thesis using * by metis
  qed
qed

lemma byte_payload: "unat ((b :: byte) AND 0x7f) = unat b mod 128"
  by (simp add: seven_bits unat_seven_bits)

lemma byte_continues: "((b :: byte) AND 0x80 \<noteq> 0) = (128 \<le> unat b)"
proof -
  have "(b AND 2 ^ 7 \<noteq> 0) = bit b 7" by (simp only: and_exp_eq_0_iff_not_bit not_not)
  also have "\<dots> = bit (unat b) 7" by (simp add: bit_unsigned_iff)
  also have "\<dots> = odd (unat b div 2 ^ 7)" by (rule bit_iff_odd)
  also have "\<dots> = (128 \<le> unat b)"
  proof -
    have "unat b div 128 < 2" by (simp add: less_mult_imp_div_less)
    then have "unat b div 128 = 0 \<or> unat b div 128 = 1" by linarith
    then show ?thesis by (auto simp: div_eq_0_iff)
  qed
  finally show ?thesis by simp
qed

section \<open>Fields\<close>

datatype proto_value = Varint u64 | Fixed64 u64 | Delimited "byte list" | Fixed32 u32

type_synonym proto_field = "proto_value \<times> u32"

primrec wire_type :: "proto_value \<Rightarrow> nat" where
  "wire_type (Varint v) = 0"
| "wire_type (Fixed64 v) = 1"
| "wire_type (Delimited bs) = 2"
| "wire_type (Fixed32 v) = 5"

primrec value_bytes :: "proto_value \<Rightarrow> byte list" where
  "value_bytes (Varint v) = varint (unat v)"
| "value_bytes (Fixed64 v) = le_bytes 8 (unat v)"
| "value_bytes (Delimited bs) = varint (length bs) @ bs"
| "value_bytes (Fixed32 v) = le_bytes 4 (unat v)"

definition tag_bytes :: "u32 \<Rightarrow> nat \<Rightarrow> byte list" where
  "tag_bytes n t = varint (8 * unat n + t)"

definition field_bytes :: "proto_field \<Rightarrow> byte list" where
  "field_bytes f = tag_bytes (snd f) (wire_type (fst f)) @ value_bytes (fst f)"

text \<open>Field numbers have 29 bits, and a length is kept in 32 bits.\<close>

definition field_ok :: "proto_field \<Rightarrow> bool" where
  "field_ok f \<longleftrightarrow> unat (snd f) < 2 ^ 29 \<and> (case fst f of Delimited bs \<Rightarrow> length bs < 2 ^ 32 | _ \<Rightarrow> True)"

lemma unat_tag:
  assumes "unat n < 2 ^ 29" and "t < 8"
  shows "unat (push_bit 3 n OR of_nat t :: u32) = 8 * unat n + t"
proof -
  have t: "unat (of_nat t :: u32) = t" using assms(2) by simp
  have "unat (take_bit 3 (of_nat t :: u32)) = take_bit 3 t" unfolding unsigned_take_bit_eq t ..
  then have "(of_nat t :: u32) = take_bit 3 (of_nat t)"
    using assms(2) t unfolding word_unat_eq_iff by (simp add: take_bit_eq_mod)
  then have "\<not> bit (push_bit 3 n) k \<or> \<not> bit (of_nat t :: u32) k" for k
    by (metis bit_push_bit_iff bit_take_bit_iff linorder_not_le)
  then have "push_bit 3 n OR of_nat t = push_bit 3 n + of_nat t" by (rule disjunctive_add [symmetric])
  moreover have "unat (push_bit 3 n) = 8 * unat n"
    using assms(1) by (simp add: push_bit_eq_mult unat_word_ariths)
  ultimately show ?thesis using assms t by (simp add: unat_word_ariths)
qed

end
