(* ===== verification/Proto_Formatter.thy ===== *)
theory Proto_Formatter
  imports Proto_Wire Stream_Writers
begin

text \<open>
  \<open>infra::ProtoFormatter\<close> (infra/syntax/ProtoFormatter.cpp): protobuf values and fields into a data
  output stream, one \<open>Insert\<close> of the stream's writer per \<open>operator<<\<close>. The state of a formatter is
  that of its stream: the writer and the error policy. Integers of a fixed size are written as the
  bytes of the object, which is little endian on the targets of the library. The last part is
  \<open>ProtoLengthDelimitedFormatter\<close>, which inserts a length in front of what was written.
\<close>

section \<open>Values\<close>

type_synonym 'w formatter = "'w \<times> error_policy"

definition pf_out :: "'w stream_writer \<Rightarrow> byte list \<Rightarrow> 'w formatter \<Rightarrow> 'w formatter result" where
  "pf_out ops bytes f = sw_insert ops (fst f) (snd f) bytes"

function pf_put_var_int :: "'w stream_writer \<Rightarrow> u64 \<Rightarrow> 'w formatter \<Rightarrow> 'w formatter result" where
  "pf_put_var_int ops value f =
     rbind (if 127 < value then pf_out ops [ucast ((value AND 0x7f) OR 0x80)] f else pf_out ops [ucast value] f)
       (\<lambda>f1. let value1 = drop_bit 7 value
             in if value1 \<noteq> 0 then pf_put_var_int ops value1 f1 else Inr f1)"
  by pat_completeness auto
termination
  by (relation "measure (\<lambda>(ops, value, f). unat value)") (auto intro: u64_shrinks)

declare pf_put_var_int.simps [simp del]

definition pf_put_signed_var_int :: "'w stream_writer \<Rightarrow> u64 \<Rightarrow> 'w formatter \<Rightarrow> 'w formatter result" where
  "pf_put_signed_var_int ops value = pf_put_var_int ops (push_bit 1 value XOR signed_drop_bit 63 value)"

definition pf_put_fixed32 :: "'w stream_writer \<Rightarrow> u32 \<Rightarrow> 'w formatter \<Rightarrow> 'w formatter result" where
  "pf_put_fixed32 ops value = pf_out ops (le_bytes 4 (unat value))"

definition pf_put_fixed64 :: "'w stream_writer \<Rightarrow> u64 \<Rightarrow> 'w formatter \<Rightarrow> 'w formatter result" where
  "pf_put_fixed64 ops value = pf_out ops (le_bytes 8 (unat value))"

definition pf_put_string :: "'w stream_writer \<Rightarrow> byte list \<Rightarrow> 'w formatter \<Rightarrow> 'w formatter result" where
  "pf_put_string ops str f = rbind (pf_put_var_int ops (of_nat (length str)) f) (pf_out ops str)"

definition pf_put_bytes :: "'w stream_writer \<Rightarrow> byte list \<Rightarrow> 'w formatter \<Rightarrow> 'w formatter result" where
  "pf_put_bytes ops bytes f = rbind (pf_put_var_int ops (of_nat (length bytes)) f) (pf_out ops bytes)"

section \<open>Fields\<close>

text \<open>The field number is shifted as a 32-bit integer, before it is widened.\<close>

definition pf_tag :: "u32 \<Rightarrow> u32 \<Rightarrow> u64" where
  "pf_tag fieldNumber wireType = ucast (push_bit 3 fieldNumber OR wireType)"

definition pf_put_var_int_field :: "'w stream_writer \<Rightarrow> u64 \<Rightarrow> u32 \<Rightarrow> 'w formatter \<Rightarrow> 'w formatter result" where
  "pf_put_var_int_field ops value fieldNumber f =
     rbind (pf_put_var_int ops (pf_tag fieldNumber 0) f) (pf_put_var_int ops value)"

definition pf_put_signed_var_int_field :: "'w stream_writer \<Rightarrow> u64 \<Rightarrow> u32 \<Rightarrow> 'w formatter \<Rightarrow> 'w formatter result" where
  "pf_put_signed_var_int_field ops value fieldNumber f =
     rbind (pf_put_var_int ops (pf_tag fieldNumber 0) f) (pf_put_signed_var_int ops value)"

definition pf_put_fixed32_field :: "'w stream_writer \<Rightarrow> u32 \<Rightarrow> u32 \<Rightarrow> 'w formatter \<Rightarrow> 'w formatter result" where
  "pf_put_fixed32_field ops value fieldNumber f =
     rbind (pf_put_var_int ops (pf_tag fieldNumber 5) f) (pf_put_fixed32 ops value)"

definition pf_put_fixed64_field :: "'w stream_writer \<Rightarrow> u64 \<Rightarrow> u32 \<Rightarrow> 'w formatter \<Rightarrow> 'w formatter result" where
  "pf_put_fixed64_field ops value fieldNumber f =
     rbind (pf_put_var_int ops (pf_tag fieldNumber 1) f) (pf_put_fixed64 ops value)"

definition pf_put_length_delimited_field :: "'w stream_writer \<Rightarrow> byte list \<Rightarrow> u32 \<Rightarrow> 'w formatter \<Rightarrow> 'w formatter result" where
  "pf_put_length_delimited_field ops bytes fieldNumber f =
     rbind (pf_put_var_int ops (pf_tag fieldNumber 2) f) (\<lambda>f1.
     rbind (pf_put_var_int ops (of_nat (length bytes)) f1) (pf_out ops bytes))"

definition pf_put_string_field :: "'w stream_writer \<Rightarrow> byte list \<Rightarrow> u32 \<Rightarrow> 'w formatter \<Rightarrow> 'w formatter result" where
  "pf_put_string_field ops str fieldNumber f =
     rbind (pf_put_var_int ops (pf_tag fieldNumber 2) f) (pf_put_string ops str)"

definition pf_put_bytes_field :: "'w stream_writer \<Rightarrow> byte list \<Rightarrow> u32 \<Rightarrow> 'w formatter \<Rightarrow> 'w formatter result" where
  "pf_put_bytes_field ops bytes fieldNumber f =
     rbind (pf_put_var_int ops (pf_tag fieldNumber 2) f) (pf_put_bytes ops bytes)"

definition pf_put_length_delimited_size :: "'w stream_writer \<Rightarrow> nat \<Rightarrow> u32 \<Rightarrow> 'w formatter \<Rightarrow> 'w formatter result" where
  "pf_put_length_delimited_size ops len fieldNumber f =
     rbind (pf_put_var_int ops (pf_tag fieldNumber 2) f) (pf_put_var_int ops (of_nat len))"

text \<open>\<open>MaxVarIntSize\<close>.\<close>

function max_var_int_size_loop :: "u64 \<Rightarrow> u32 \<Rightarrow> u32" where
  "max_var_int_size_loop value len =
     (if 127 < value then max_var_int_size_loop (drop_bit 7 value) (len + 1) else len)"
  by pat_completeness auto
termination
  by (relation "measure (\<lambda>(value, len). unat value)") (auto intro: u64_shrinks)

declare max_var_int_size_loop.simps [simp del]

definition max_var_int_size :: "u64 \<Rightarrow> u32" where
  "max_var_int_size value = max_var_int_size_loop value 1"

section \<open>Length in front\<close>

text \<open>The formatter of a nested message keeps the place where its length goes; moving it leaves the
  largest size behind, so that only the new owner inserts the length. The stream over the saved
  marker has a policy of its own, which asserts.\<close>

definition size_max :: nat where
  "size_max = 2 ^ 32 - 1"

type_synonym memory_formatter = "(byte list \<times> byte_writer_state) formatter"

definition ldf_new :: "u32 \<Rightarrow> memory_formatter \<Rightarrow> (memory_formatter \<times> nat) result" where
  "ldf_new fieldNumber f = rbind (pf_put_var_int byte_writer (pf_tag fieldNumber 2) f)
     (\<lambda>f1. Inr (f1, bw_construct_save_marker (snd (fst f1))))"

definition ldf_move :: "nat \<Rightarrow> nat \<times> nat" where
  "ldf_move other = (other, size_max)"

definition ldf_destroy :: "nat \<Rightarrow> memory_formatter \<Rightarrow> memory_formatter result" where
  "ldf_destroy marker f = (case f of ((mem, w), p) \<Rightarrow>
     if marker \<noteq> size_max
     then let len = bw_get_processed_bytes_since w marker
          in rbind (pf_put_var_int byte_writer (of_nat len) (sm_new mem w marker, assert_policy))
               (\<lambda>((mem1, sm), p1). Inr (sm_destroy mem1 w sm, p))
     else Inr ((mem, w), p))"

section \<open>What is written\<close>

text \<open>An operation that writes \<open>bytes\<close>: all of them when there is room, and otherwise the ones there
  is room for, reporting a failure to the policy.\<close>

definition writes :: "('w \<Rightarrow> bool) \<Rightarrow> ('w \<Rightarrow> byte list) \<Rightarrow> ('w \<Rightarrow> nat) \<Rightarrow> ('w formatter \<Rightarrow> 'w formatter result) \<Rightarrow> byte list \<Rightarrow> bool" where
  "writes ok written room put bytes \<longleftrightarrow> (\<forall>w p. ok w \<longrightarrow>
     (if room w < length bytes \<and> mode p = Assertion then put (w, p) = Inl Assert_failed
      else \<exists>w' p'. put (w, p) = Inr (w', p') \<and> ok w' \<and> written w' = written w @ take (room w) bytes \<and>
        room w' = room w - length bytes \<and> mode p' = mode p \<and> failed p' = (failed p \<or> room w < length bytes)))"

lemma writesE:
  assumes "writes ok written room put bytes" and "ok w"
  obtains (asserts) "room w < length bytes" "mode p = Assertion" "put (w, p) = Inl Assert_failed"
    | (returns) w' p' where "put (w, p) = Inr (w', p')" "ok w'" "written w' = written w @ take (room w) bytes"
        "room w' = room w - length bytes" "mode p' = mode p" "failed p' = (failed p \<or> room w < length bytes)"
        "room w < length bytes \<Longrightarrow> mode p \<noteq> Assertion"
  using assms(1) [unfolded writes_def, rule_format, OF assms(2), of p] by (auto split: if_splits)

lemma writesI:
  assumes "\<And>w p. ok w \<Longrightarrow> room w < length bytes \<and> mode p = Assertion \<and> put (w, p) = Inl Assert_failed \<or>
    (\<exists>w' p'. put (w, p) = Inr (w', p') \<and> ok w' \<and> written w' = written w @ take (room w) bytes \<and>
       room w' = room w - length bytes \<and> mode p' = mode p \<and> failed p' = (failed p \<or> room w < length bytes) \<and>
       (room w < length bytes \<longrightarrow> mode p \<noteq> Assertion))"
  shows "writes ok written room put bytes"
  unfolding writes_def
proof (intro allI impI)
  fix w p assume "ok w"
  from assms [OF this, of p] show "if room w < length bytes \<and> mode p = Assertion then put (w, p) = Inl Assert_failed
      else \<exists>w' p'. put (w, p) = Inr (w', p') \<and> ok w' \<and> written w' = written w @ take (room w) bytes \<and>
        room w' = room w - length bytes \<and> mode p' = mode p \<and> failed p' = (failed p \<or> room w < length bytes)"
    by auto
qed

lemma writes_seq:
  assumes "writes ok written room put1 xs" and "writes ok written room put2 ys"
  shows "writes ok written room (\<lambda>f. rbind (put1 f) put2) (xs @ ys)"
proof (rule writesI)
  fix w p assume "ok w"
  from assms(1) this show "room w < length (xs @ ys) \<and> mode p = Assertion \<and> rbind (put1 (w, p)) put2 = Inl Assert_failed \<or>
    (\<exists>w' p'. rbind (put1 (w, p)) put2 = Inr (w', p') \<and> ok w' \<and> written w' = written w @ take (room w) (xs @ ys) \<and>
       room w' = room w - length (xs @ ys) \<and> mode p' = mode p \<and> failed p' = (failed p \<or> room w < length (xs @ ys)) \<and>
       (room w < length (xs @ ys) \<longrightarrow> mode p \<noteq> Assertion))"
  proof (cases rule: writesE [where p = p, consumes 2])
    case asserts
    then show ?thesis by simp
  next
    case 1: (returns w1 p1)
    from assms(2) 1(2) show ?thesis
    proof (cases rule: writesE [where p = p1, consumes 2])
      case asserts
      then show ?thesis using 1 by auto
    next
      case 2: (returns w2 p2)
      have split: "room w < length (xs @ ys) \<longleftrightarrow> room w < length xs \<or> room w1 < length ys" using 1(4) by auto
      have "failed p2 = (failed p \<or> room w < length (xs @ ys))" "room w < length (xs @ ys) \<longrightarrow> mode p \<noteq> Assertion"
        unfolding split using 1(5-7) 2(6,7) by auto
      then show ?thesis using 1(1,3,4,5) 2(1-5) by simp
    qed
  qed
qed

context writer
begin

lemma out_writes: "writes ok written room (pf_out ops bytes) bytes"
  unfolding writes_def
proof (intro allI impI)
  fix w p assume "ok w"
  then obtain bs w' where b: "(False \<in> set bs) = (room w < length bytes)" "ok w'" "written w' = written w @ take (room w) bytes"
      "room w' = room w - length bytes" and e: "sw_insert ops w p bytes = rbind (report_all p bs) (\<lambda>p'. Inr (w', p'))"
    using inserts [of w bytes] by blast
  show "if room w < length bytes \<and> mode p = Assertion then pf_out ops bytes (w, p) = Inl Assert_failed
      else \<exists>w' p'. pf_out ops bytes (w, p) = Inr (w', p') \<and> ok w' \<and> written w' = written w @ take (room w) bytes \<and>
        room w' = room w - length bytes \<and> mode p' = mode p \<and> failed p' = (failed p \<or> room w < length bytes)"
  proof (cases "report_all p bs")
    case (Inl f)
    then show ?thesis using report_all_fault [of p bs f] b e by (simp add: pf_out_def)
  next
    case (Inr p')
    then show ?thesis using report_all_fault [of p bs Assert_failed] report_all_ok [OF Inr] b e by (simp add: pf_out_def)
  qed
qed

lemma put_var_int_writes: "writes ok written room (pf_put_var_int ops v) (varint (unat v))"
proof (induction "unat v" arbitrary: v rule: less_induct)
  case less
  show ?case
  proof (cases "127 < v")
    case True
    then have ge: "128 \<le> unat v" by (simp add: u64_above_127)
    then have "unat v div 128 \<noteq> 0" by simp
    then have nz: "drop_bit 7 v \<noteq> 0" using unat_drop_seven [of v] by (metis unat_0)
    have step: "pf_put_var_int ops v = (\<lambda>f. rbind (pf_out ops [of_nat (unat v mod 128 + 128)] f) (pf_put_var_int ops (drop_bit 7 v)))"
      by (rule ext, subst pf_put_var_int.simps) (simp only: True nz if_True not_False_eq_True Let_def continuation_byte)
    have "writes ok written room (pf_put_var_int ops (drop_bit 7 v)) (varint (unat v div 128))"
      using less [of "drop_bit 7 v"] u64_shrinks(2) [OF True] unfolding unat_drop_seven by simp
    from writes_seq [OF out_writes this, of "[of_nat (unat v mod 128 + 128)]"]
    show ?thesis unfolding step varint_large [OF ge] by simp
  next
    case False
    then have lt: "unat v < 128" by (simp add: u64_above_127)
    then have z: "drop_bit 7 v = 0" using unat_drop_seven [of v] by (metis div_less unat_eq_zero)
    have "pf_put_var_int ops v f = pf_out ops [ucast v] f" for f
      by (subst pf_put_var_int.simps, cases "pf_out ops [ucast v] f")
         (simp_all only: False z if_False Let_def not_True_eq_False simp_thms rbind.simps)
    then have "pf_put_var_int ops v = pf_out ops [of_nat (unat v)]" unfolding ucast_of_nat by (rule ext)
    then show ?thesis unfolding varint_small [OF lt] using out_writes [of "[of_nat (unat v)]"] by simp
  qed
qed

lemma put_tag_writes:
  assumes "unat n < 2 ^ 29" and "t < 8"
  shows "writes ok written room (pf_put_var_int ops (pf_tag n (of_nat t))) (tag_bytes n t)"
proof -
  have "unat (pf_tag n (of_nat t)) = 8 * unat n + t"
    using unat_tag [OF assms] assms by (simp add: pf_tag_def unsigned_ucast_eq take_bit_eq_mod)
  then show ?thesis using put_var_int_writes [of "pf_tag n (of_nat t)"] by (simp add: tag_bytes_def)
qed

lemma put_bytes_writes:
  assumes "length bytes < 2 ^ 32"
  shows "writes ok written room (pf_put_bytes ops bytes) (varint (length bytes) @ bytes)"
proof -
  have "unat (of_nat (length bytes) :: u64) = length bytes"
    using assms by (simp add: unat_of_nat take_bit_eq_mod)
  then show ?thesis unfolding pf_put_bytes_def
    using writes_seq [OF put_var_int_writes out_writes, of "of_nat (length bytes)" bytes] by simp
qed

end

text \<open>Any field by its kind.\<close>

primrec put_value_field :: "'w stream_writer \<Rightarrow> proto_value \<Rightarrow> u32 \<Rightarrow> 'w formatter \<Rightarrow> 'w formatter result" where
  "put_value_field ops (Varint v) n = pf_put_var_int_field ops v n"
| "put_value_field ops (Fixed64 v) n = pf_put_fixed64_field ops v n"
| "put_value_field ops (Delimited bs) n = pf_put_bytes_field ops bs n"
| "put_value_field ops (Fixed32 v) n = pf_put_fixed32_field ops v n"

fun put_fields :: "'w stream_writer \<Rightarrow> proto_field list \<Rightarrow> 'w formatter \<Rightarrow> 'w formatter result" where
  "put_fields ops [] f = Inr f"
| "put_fields ops (x # xs) f = rbind (put_value_field ops (fst x) (snd x) f) (put_fields ops xs)"

lemma put_string_fields: "pf_put_string_field ops = pf_put_bytes_field ops" "pf_put_length_delimited_field ops = pf_put_bytes_field ops"
  by (simp_all add: pf_put_string_field_def [abs_def] pf_put_bytes_field_def [abs_def] pf_put_string_def [abs_def]
      pf_put_bytes_def [abs_def] pf_put_length_delimited_field_def [abs_def])

context writer
begin

lemma put_value_field_writes:
  assumes "field_ok (v, n)"
  shows "writes ok written room (put_value_field ops v n) (field_bytes (v, n))"
proof -
  have n: "unat n < 2 ^ 29" using assms by (simp add: field_ok_def)
  note tag = put_tag_writes [OF n]
  show ?thesis
  proof (cases v)
    case (Varint x)
    then show ?thesis using writes_seq [OF tag [of 0] put_var_int_writes, of x]
      by (simp add: pf_put_var_int_field_def [abs_def] field_bytes_def)
  next
    case (Fixed64 x)
    then show ?thesis using writes_seq [OF tag [of 1] out_writes, of "le_bytes 8 (unat x)"]
      by (simp add: pf_put_fixed64_field_def [abs_def] pf_put_fixed64_def field_bytes_def)
  next
    case (Delimited bs)
    then have "length bs < 2 ^ 32" using assms by (simp add: field_ok_def)
    from writes_seq [OF tag [of 2] put_bytes_writes [OF this]] show ?thesis
      using Delimited by (simp add: pf_put_bytes_field_def [abs_def] field_bytes_def)
  next
    case (Fixed32 x)
    then show ?thesis using writes_seq [OF tag [of 5] out_writes, of "le_bytes 4 (unat x)"]
      by (simp add: pf_put_fixed32_field_def [abs_def] pf_put_fixed32_def field_bytes_def)
  qed
qed

lemma put_fields_writes:
  "list_all field_ok fs \<Longrightarrow> writes ok written room (put_fields ops fs) (concat (map field_bytes fs))"
proof (induction fs)
  case Nil
  show ?case by (auto simp: writes_def)
next
  case (Cons x xs)
  have "put_fields ops (x # xs) = (\<lambda>f. rbind (put_value_field ops (fst x) (snd x) f) (put_fields ops xs))"
    by (rule ext) simp
  then show ?case
    using writes_seq [OF put_value_field_writes [of "fst x" "snd x"] Cons.IH] Cons.prems by simp
qed

end

lemma max_var_int_size_loop: "unat (max_var_int_size_loop v len) = unat len + length (varint (unat v)) - 1"
  if "unat len + length (varint (unat v)) < 4294967296"
  using that
proof (induction v len rule: max_var_int_size_loop.induct)
  case (1 v len)
  show ?case
  proof (cases "127 < v")
    case True
    then have ge: "128 \<le> unat v" by (simp add: u64_above_127)
    have "unat (len + 1) = unat len + 1" using 1(2) ge by (simp add: varint_large unat_add_u32)
    then show ?thesis
      using 1(1) [OF True] 1(2) True varint_large [OF ge] unfolding unat_drop_seven
      by (subst max_var_int_size_loop.simps) simp
  next
    case False
    then have "unat v < 128" by (simp add: u64_above_127)
    then show ?thesis using False by (subst max_var_int_size_loop.simps) simp
  qed
qed

lemma max_var_int_size_length: "unat (max_var_int_size v) = length (varint (unat v))"
  using max_var_int_size_loop [of 1 v] length_varint_u64 [of v] by (simp add: max_var_int_size_def)

section \<open>The length of a nested message\<close>

lemma report_true_twice: "report_result p True = Inr q \<Longrightarrow> report_result q True = Inr q"
proof (induction p arbitrary: q)
  case (Plain p)
  then show ?case by (auto simp: policy_report_result_def Let_def)
next
  case (Counting_policy other allOk)
  then show ?case by (auto simp: rbind_Inr)
qed

lemma store_first_append:
  assumes "i + length xs + length ys \<le> length mem"
  shows "store_first (store_first mem i xs) (i + length xs) ys = store_first mem i (xs @ ys)"
  using assms by (intro nth_equalityI) (auto simp: nth_store_first nth_append)

lemma bw_insert_append:
  assumes "bw_ok (mem, w)" and "length xs + length ys \<le> bw_available w"
  shows "rbind (bw_insert (mem, w) p xs) (\<lambda>(mw, p'). bw_insert mw p' ys) = bw_insert (mem, w) p (xs @ ys)"
proof (cases "report_result p True")
  case (Inl f)
  then show ?thesis using report_result_cases(1) [of p True f] by simp
next
  case (Inr q)
  let ?i = "mr_begin (bw_streamRange w) + bw_offset w" and ?w = "w\<lparr>bw_offset := bw_offset w + length xs\<rparr>"
  have fits: "?i + length xs + length ys \<le> length mem"
    using assms by (auto simp: bw_ok_def mr_size_def bw_available_def)
  have "bw_insert (mem, w) p xs = Inr ((store_first mem ?i xs, ?w), q)"
    using assms fits Inr by (intro bw_insert_fits) auto
  moreover have "bw_insert (store_first mem ?i xs, ?w) q ys =
      Inr ((store_first (store_first mem ?i xs) (?i + length xs) ys, ?w\<lparr>bw_offset := bw_offset ?w + length ys\<rparr>), q)"
    using assms fits report_true_twice [OF Inr] bw_insert_fits [of ys ?w "store_first mem ?i xs" q q]
    by (simp add: bw_available_def add.assoc)
  moreover have "bw_insert (mem, w) p (xs @ ys) =
      Inr ((store_first mem ?i (xs @ ys), w\<lparr>bw_offset := bw_offset w + length (xs @ ys)\<rparr>), q)"
    using assms fits Inr by (intro bw_insert_fits) auto
  ultimately show ?thesis using store_first_append [OF fits] by (simp add: add.assoc)
qed

lemma rbind_cong_Inr: "(\<And>a. r = Inr a \<Longrightarrow> f a = g a) \<Longrightarrow> rbind r f = rbind r g"
  by (cases r) auto

text \<open>Over a range of memory with room, the bytes written one at a time are as if written at once.\<close>

lemma put_var_int_at_once:
  assumes "bw_ok (mem, w)" and "length (varint (unat v)) \<le> bw_available w"
  shows "pf_put_var_int byte_writer v ((mem, w), p) = bw_insert (mem, w) p (varint (unat v))"
  using assms
proof (induction "unat v" arbitrary: v mem w p rule: less_induct)
  case less
  show ?case
  proof (cases "127 < v")
    case True
    let ?b = "of_nat (unat v mod 128 + 128) :: byte"
    have ge: "128 \<le> unat v" using True by (simp add: u64_above_127)
    then have "unat v div 128 \<noteq> 0" by simp
    then have nz: "drop_bit 7 v \<noteq> 0" using unat_drop_seven [of v] by (metis unat_0)
    have len: "1 + length (varint (unat v div 128)) \<le> bw_available w" using less.prems(2) ge by (simp add: varint_large)
    have step: "pf_put_var_int byte_writer v ((mem, w), p) =
        rbind (bw_insert (mem, w) p [?b]) (pf_put_var_int byte_writer (drop_bit 7 v))"
      by (subst pf_put_var_int.simps)
         (simp only: True nz if_True not_False_eq_True Let_def continuation_byte pf_out_def byte_writer_def stream_writer.simps fst_conv snd_conv)
    have "pf_put_var_int byte_writer (drop_bit 7 v) f1 = (case f1 of (mw, p') \<Rightarrow> bw_insert mw p' (varint (unat v div 128)))"
      if "bw_insert (mem, w) p [?b] = Inr f1" for f1
    proof -
      obtain mem1 w1 q where f1: "f1 = ((mem1, w1), q)" by (metis prod.exhaust)
      from bw.out_writes less.prems(1) have "bw_ok (mem1, w1) \<and> bw_available w1 = bw_available w - 1"
        by (cases rule: writesE [where p = p, consumes 2, of _ _ _ _ "[?b]" "(mem, w)"])
           (use that f1 in \<open>auto simp: pf_out_def byte_writer_def\<close>)
      then have "pf_put_var_int byte_writer (drop_bit 7 v) ((mem1, w1), q) = bw_insert (mem1, w1) q (varint (unat (drop_bit 7 v)))"
        using len u64_shrinks(2) [OF True] by (intro less.hyps) (simp_all add: unat_drop_seven del: unat_div)
      then show ?thesis unfolding f1 unat_drop_seven by simp
    qed
    then have "pf_put_var_int byte_writer v ((mem, w), p) =
        rbind (bw_insert (mem, w) p [?b]) (\<lambda>(mw, p'). bw_insert mw p' (varint (unat v div 128)))"
      unfolding step by (rule rbind_cong_Inr)
    also have "\<dots> = bw_insert (mem, w) p ([?b] @ varint (unat v div 128))"
      using len less.prems(1) by (intro bw_insert_append) auto
    finally show ?thesis by (simp add: varint_large [OF ge])
  next
    case False
    then have lt: "unat v < 128" by (simp add: u64_above_127)
    then have z: "drop_bit 7 v = 0" using unat_drop_seven [of v] by (metis div_less unat_eq_zero)
    show ?thesis unfolding varint_small [OF lt]
      by (subst pf_put_var_int.simps, cases "pf_out byte_writer [of_nat (unat v)] ((mem, w), p)")
         (simp_all only: False z if_False Let_def not_True_eq_False simp_thms rbind.simps ucast_of_nat,
          simp_all add: pf_out_def byte_writer_def)
  qed
qed

lemma bw_written_length: "bw_ok (mem, w) \<Longrightarrow> length (bw_written (mem, w)) = bw_offset w"
  by (auto simp: bw_written_def bw_ok_def mr_size_def intro!: length_slice)

lemma bw_available_bound: "bw_ok (mem, w) \<Longrightarrow> bw_offset w + bw_available w \<le> length mem"
  by (auto simp: bw_ok_def mr_size_def bw_available_def)

lemma sm_new_room:
  assumes ok: "bw_ok (mem, w)" and m: "marker \<le> bw_offset w"
  shows "bw_ok (sm_new mem w marker) \<and> bw_available (snd (sm_new mem w marker)) = bw_available w"
proof -
  let ?b = "mr_begin (bw_streamRange w)" and ?e = "mr_end (bw_streamRange w)" and ?n = "bw_offset w - marker"
  have "?b \<le> ?e" "?e \<le> length mem" "?b + bw_offset w \<le> ?e" using ok by (auto simp: bw_ok_def mr_size_def)
  moreover obtain mem2 where "bw_save_state mem w marker = (mem2, mr_make (?b + marker) (?e - ?n))" "length mem2 = length mem"
    using bw_save_state_spec [OF ok m] by blast
  ultimately show ?thesis using m by (auto simp: sm_new_def bw_ok_def bw_new_def mr_make_def mr_size_def bw_available_def)
qed

lemma ldf_destroy_inserts:
  assumes ok: "bw_ok (mem, w)" and m: "marker \<le> bw_offset w" "marker \<noteq> size_max" "bw_offset w - marker < 2 ^ 32"
    and room: "length (varint (bw_offset w - marker)) \<le> bw_available w"
  shows "\<exists>mem' w'. ldf_destroy marker ((mem, w), p) = Inr ((mem', w'), p) \<and> bw_ok (mem', w') \<and>
    bw_written (mem', w') = take marker (bw_written (mem, w)) @ varint (bw_offset w - marker) @ drop marker (bw_written (mem, w))"
proof -
  let ?n = "bw_offset w - marker"
  obtain mem1 sm where new: "sm_new mem w marker = (mem1, sm)" by (cases "sm_new mem w marker")
  have n: "unat (of_nat ?n :: u64) = ?n" using m(3) by (simp add: unat_of_nat take_bit_eq_mod)
  have sm: "bw_ok (mem1, sm) \<and> bw_available sm = bw_available w"
    using sm_new_room [OF ok m(1)] new by simp
  obtain mem' w' p' where s: "marker_session mem w marker assert_policy (varint ?n) = Inr ((mem', w'), p')" "bw_ok (mem', w')"
      "bw_written (mem', w') = take marker (bw_written (mem, w)) @ varint ?n @ drop marker (bw_written (mem, w))"
    using marker_session_inserts [OF ok m(1) room, of assert_policy] by blast
  have "pf_put_var_int byte_writer (of_nat ?n) (sm_new mem w marker, assert_policy) = bw_insert (sm_new mem w marker) assert_policy (varint ?n)"
    unfolding new using put_var_int_at_once [of mem1 sm "of_nat ?n" assert_policy] sm room n by simp
  then have "ldf_destroy marker ((mem, w), p) = rbind (marker_session mem w marker assert_policy (varint ?n)) (\<lambda>(mw, p1). Inr (mw, p))"
    using m(2) by (auto simp: ldf_destroy_def marker_session_def bw_get_processed_bytes_since_def rbind_assoc Let_def
        intro!: rbind_cong_Inr split: prod.splits)
  then show ?thesis using s by auto
qed

text \<open>C37: A nested message that is written after a ProtoLengthDelimitedFormatter was opened and before
  it is destroyed ends up as a length-delimited field, as PutBytesField would have written it: the
  destructor moves the message up and inserts its length in front of it, whatever writes the
  message, as long as there is room and the offsets stay below the largest size.\<close>

theorem nested_message_is_field:
  assumes ok: "bw_ok (mem, w)" and n: "field_ok (Delimited body, n)" and small: "length mem < size_max"
    and room: "length (field_bytes (Delimited body, n)) \<le> bw_available w"
    and put: "writes bw_ok bw_written (\<lambda>(mem, w). bw_available w) put body"
  shows "\<exists>f1 marker f2 mem' w' p'. ldf_new n ((mem, w), p) = Inr (f1, marker) \<and> put f1 = Inr f2 \<and>
    ldf_destroy marker f2 = Inr ((mem', w'), p') \<and> bw_ok (mem', w') \<and> failed p' = failed p \<and>
    bw_written (mem', w') = bw_written (mem, w) @ field_bytes (Delimited body, n)"
proof -
  have len: "length (tag_bytes n 2) + length (varint (length body)) + length body \<le> bw_available w"
    using room by (simp add: field_bytes_def)
  have tag: "writes bw_ok bw_written (\<lambda>(mem, w). bw_available w) (pf_put_var_int byte_writer (pf_tag n 2)) (tag_bytes n 2)"
    using bw.put_tag_writes [of n 2] n by (simp add: field_ok_def)
  from tag ok obtain mem1 w1 p1 where 1: "pf_put_var_int byte_writer (pf_tag n 2) ((mem, w), p) = Inr ((mem1, w1), p1)"
      "bw_ok (mem1, w1)" "bw_written (mem1, w1) = bw_written (mem, w) @ tag_bytes n 2"
      "bw_available w1 = bw_available w - length (tag_bytes n 2)" "failed p1 = failed p"
  proof (cases rule: writesE [where p = p, consumes 2])
    case (returns w' p')
    then show ?thesis using that len by (cases w') auto
  qed (use len in auto)
  let ?m = "bw_offset w1"
  have m: "?m = length (bw_written (mem1, w1))" using bw_written_length [OF 1(2)] by simp
  also have "\<dots> \<le> length mem"
    using 1(3) bw_written_length [OF ok] bw_available_bound [OF ok] len by simp
  finally have m_small: "?m < size_max" using small by simp
  from put 1(2) obtain mem2 w2 p2 where 2: "put ((mem1, w1), p1) = Inr ((mem2, w2), p2)"
      "bw_ok (mem2, w2)" "bw_written (mem2, w2) = bw_written (mem1, w1) @ body"
      "bw_available w2 = bw_available w1 - length body" "failed p2 = failed p1"
  proof (cases rule: writesE [where p = p1, consumes 2])
    case (returns w' p')
    then show ?thesis using that len 1(4) by (cases w') auto
  qed (use len 1(4) in auto)
  have diff: "bw_offset w2 - ?m = length body" "?m \<le> bw_offset w2"
    using bw_written_length [OF 2(2)] 2(3) m by simp_all
  have "length (varint (length body)) \<le> bw_available w2" using len 1(4) 2(4) by simp
  then obtain mem' w' where 3: "ldf_destroy ?m ((mem2, w2), p2) = Inr ((mem', w'), p2)" "bw_ok (mem', w')"
      "bw_written (mem', w') = take ?m (bw_written (mem2, w2)) @ varint (length body) @ drop ?m (bw_written (mem2, w2))"
    using ldf_destroy_inserts [OF 2(2) diff(2), of p2] m_small n diff(1) by (auto simp: field_ok_def)
  have "bw_written (mem', w') = bw_written (mem, w) @ field_bytes (Delimited body, n)"
    using 3(3) 2(3) 1(3) m by (simp add: field_bytes_def)
  moreover have "ldf_new n ((mem, w), p) = Inr (((mem1, w1), p1), ?m)"
    using 1(1) by (simp add: ldf_new_def bw_construct_save_marker_def)
  ultimately show ?thesis using 2(1,5) 3(1,2) 1(5) by blast
qed

theorem nested_message_is_field_witness:
  "\<exists>f1 marker f2 mem' w' p'. ldf_new 1 ((replicate 8 0, bw_new (mr_make 0 8)), soft_fail) = Inr (f1, marker) \<and>
    pf_out byte_writer [7, 8] f1 = Inr f2 \<and> ldf_destroy marker f2 = Inr ((mem', w'), p') \<and> bw_written (mem', w') = [10, 2, 7, 8]"
proof -
  let ?mw = "(replicate 8 0, bw_new (mr_make 0 8))"
  have f: "field_bytes (Delimited [7, 8], 1) = [10, 2, 7, 8]" by (simp add: field_bytes_def tag_bytes_def)
  have "bw_ok ?mw" "field_ok (Delimited [7, 8], 1)" "length (replicate 8 (0 :: byte)) < size_max" "bw_available (snd ?mw) = 8"
    "bw_written ?mw = []"
    by (simp_all add: bw_ok_def bw_new_def mr_make_def mr_size_def field_ok_def size_max_def bw_available_def bw_written_def slice_def)
  then show ?thesis
    using nested_message_is_field [OF _ _ _ _ bw.out_writes [of "[7, 8]"], of "replicate 8 0" "bw_new (mr_make 0 8)" 1 soft_fail] f
    by auto
qed

text \<open>When there is no room for the length of a nested message, the destructor of
  ProtoLengthDelimitedFormatter asserts, also when the formatter's own stream was told to fail
  softly: the stream over the saved marker is created with the default policy.\<close>

lemma nested_length_asserts:
  assumes ok: "bw_ok (mem, w)" and m: "marker \<le> bw_offset w" "marker \<noteq> size_max" "bw_offset w - marker < 2 ^ 32"
    and full: "bw_available w < length (varint (bw_offset w - marker))"
  shows "ldf_destroy marker ((mem, w), p) = Inl Assert_failed"
proof -
  let ?n = "bw_offset w - marker"
  obtain mem1 sm where new: "sm_new mem w marker = (mem1, sm)" by (cases "sm_new mem w marker")
  have n: "unat (of_nat ?n :: u64) = ?n" using m(3) by (simp add: unat_of_nat take_bit_eq_mod)
  have sm: "bw_ok (mem1, sm) \<and> bw_available sm = bw_available w"
    using sm_new_room [OF ok m(1)] new by simp
  have "pf_put_var_int byte_writer (of_nat ?n) ((mem1, sm), assert_policy) = Inl Assert_failed"
    using bw.put_var_int_writes [of "of_nat ?n"] sm full n by (simp add: writes_def assert_policy_def)
  then show ?thesis using m(2) by (simp add: ldf_destroy_def bw_get_processed_bytes_since_def new)
qed

lemma nested_length_asserts_witness:
  "ldf_destroy 1 (([10, 7], \<lparr>bw_streamRange = mr_make 0 2, bw_offset = 2\<rparr>), soft_fail) = Inl Assert_failed"
  by (rule nested_length_asserts) (simp_all add: bw_ok_def mr_make_def mr_size_def size_max_def bw_available_def)

section \<open>Signed integers and sizes\<close>

definition zigzag :: "int \<Rightarrow> nat" where
  "zigzag x = nat (if 0 \<le> x then 2 * x else - 2 * x - 1)"

lemma zigzag_inj: "zigzag x = zigzag y \<longleftrightarrow> x = y"
proof (cases "0 \<le> x"; cases "0 \<le> y")
  assume "0 \<le> x" "\<not> 0 \<le> y"
  then show ?thesis by (simp add: zigzag_def eq_nat_nat_iff) presburger
next
  assume "\<not> 0 \<le> x" "0 \<le> y"
  then show ?thesis by (simp add: zigzag_def eq_nat_nat_iff) presburger
qed (auto simp: zigzag_def eq_nat_nat_iff)

lemma signed_drop_sign: "signed_drop_bit 63 (v :: u64) = (if 0 \<le> sint v then 0 else - 1)"
proof -
  have r: "- (2 ^ 63) \<le> sint v" "sint v < 2 ^ 63" using sint_range_size [of v] by (simp_all add: word_size)
  have "sint (signed_drop_bit 63 v) = sint v div 2 ^ 63" by (simp add: sint_signed_drop_bit_eq drop_bit_eq_div)
  also have "\<dots> = (if 0 \<le> sint v then 0 else - 1)"
  proof (cases "0 \<le> sint v")
    case True
    then show ?thesis using r by (simp add: div_pos_pos_trivial)
  next
    case False
    then have "(sint v + 2 ^ 63) div 2 ^ 63 = 0" using r by (intro div_pos_pos_trivial) simp_all
    then show ?thesis using False by simp
  qed
  finally show ?thesis by (metis sint_0 sint_n1 signed_word_eqI)
qed

lemma zigzag_word: "unat (push_bit 1 v XOR signed_drop_bit 63 (v :: u64)) = zigzag (sint v)"
proof -
  have r: "- (2 ^ 63) \<le> sint v" "sint v < 2 ^ 63" using sint_range_size [of v] by (simp_all add: word_size)
  have double: "push_bit 1 v = word_of_int (2 * sint v)" by (simp add: push_bit_eq_mult)
  have "uint (push_bit 1 v XOR signed_drop_bit 63 v) = (if 0 \<le> sint v then 2 * sint v else - 2 * sint v - 1)"
  proof (cases "0 \<le> sint v")
    case True
    have "uint (word_of_int (2 * sint v) :: u64) = 2 * sint v" using True r by (intro word_of_int_inverse) simp_all
    then show ?thesis using True unfolding signed_drop_sign double by simp
  next
    case False
    have "push_bit 1 v XOR - 1 = word_of_int (- 2 * sint v - 1)"
      unfolding double by (simp add: not_eq_complement)
    moreover have "uint (word_of_int (- 2 * sint v - 1) :: u64) = - 2 * sint v - 1"
      using False r by (intro word_of_int_inverse) simp_all
    ultimately show ?thesis using False unfolding signed_drop_sign by simp
  qed
  then show ?thesis by (simp add: zigzag_def unat_eq_nat_uint)
qed

text \<open>PutSignedVarInt writes the zigzag code of the value read as a signed integer: 0, -1, 1, -2
  and so on are written as 0, 1, 2, 3, so that integers of small magnitude take few bytes, and
  different integers are written differently.\<close>

lemma signed_var_int_zigzag:
  "writes vec_inv vec_range vw_available (pf_put_signed_var_int vector_writer v) (varint (zigzag (sint v))) \<and>
   (zigzag (sint v) = zigzag (sint v') \<longleftrightarrow> v = v')"
proof
  show "writes vec_inv vec_range vw_available (pf_put_signed_var_int vector_writer v) (varint (zigzag (sint v)))"
    unfolding pf_put_signed_var_int_def zigzag_word [symmetric] by (rule vw.put_var_int_writes)
  show "zigzag (sint v) = zigzag (sint v') \<longleftrightarrow> v = v'"
    using zigzag_inj [of "sint v" "sint v'"] by (auto intro: signed_word_eqI)
qed

text \<open>MaxVarIntSize is the number of bytes PutVarInt writes for the value, from 1 to 10.\<close>

lemma max_var_int_size_exact:
  "\<exists>bytes. writes vec_inv vec_range vw_available (pf_put_var_int vector_writer v) bytes \<and>
     length bytes = unat (max_var_int_size v) \<and> 1 \<le> length bytes \<and> length bytes \<le> 10"
  using vw.put_var_int_writes [of v] max_var_int_size_length [of v] length_varint_u64 [of v]
  by (intro exI [of _ "varint (unat v)"]) (simp add: Suc_le_eq)

end
