(* ===== verification/Proto_Parser.thy ===== *)
theory Proto_Parser
  imports Proto_Wire Stream_Adapters
begin

text \<open>
  \<open>infra::ProtoParser\<close> and \<open>infra::ProtoLengthDelimited\<close> (infra/syntax/ProtoParser.cpp): protobuf
  values and fields from a data input stream. A parser reads at most what its stream held when it
  was made, through a limited reader; a length-delimited value is another limited reader over the
  parser's. Both keep references, so reading the value moves the parser: in the model the value
  holds the parser's reader until \<open>pp_close\<close> gives it back.
\<close>

section \<open>The error policies\<close>

text \<open>The stream's, and the one for the format, which is the stream's own unless another was given.\<close>

record policies =
  ps_input :: error_policy
  ps_format :: "error_policy option"

definition report_input :: "policies \<Rightarrow> bool \<Rightarrow> policies result" where
  "report_input ps ok = rbind (report_result (ps_input ps) ok) (\<lambda>p. Inr (ps\<lparr>ps_input := p\<rparr>))"

definition report_format :: "policies \<Rightarrow> bool \<Rightarrow> policies result" where
  "report_format ps ok = (case ps_format ps of None \<Rightarrow> report_input ps ok
     | Some q \<Rightarrow> rbind (report_result q ok) (\<lambda>q'. Inr (ps\<lparr>ps_format := Some q'\<rparr>)))"

definition input_failed :: "policies \<Rightarrow> bool \<times> policies" where
  "input_failed ps = (case policy_failed (ps_input ps) of (b, p) \<Rightarrow> (b, ps\<lparr>ps_input := p\<rparr>))"

definition format_failed :: "policies \<Rightarrow> bool \<times> policies" where
  "format_failed ps = (case ps_format ps of None \<Rightarrow> input_failed ps
     | Some q \<Rightarrow> (case policy_failed q of (b, q') \<Rightarrow> (b, ps\<lparr>ps_format := Some q'\<rparr>)))"

section \<open>The parser\<close>

record 'r parser =
  pp_limitedReader :: "'r limited"
  pp_policies :: policies

definition pp_new_with_policy :: "('r, 'x) stream_reader_scheme \<Rightarrow> 'r \<Rightarrow> policies \<Rightarrow> 'r parser" where
  "pp_new_with_policy ops input ps = \<lparr>pp_limitedReader = lim_new input (of_nat (sr_available ops input)), pp_policies = ps\<rparr>"

definition pp_new :: "('r, 'x) stream_reader_scheme \<Rightarrow> 'r \<Rightarrow> error_policy \<Rightarrow> 'r parser" where
  "pp_new ops input p = pp_new_with_policy ops input \<lparr>ps_input = p, ps_format = None\<rparr>"

definition pp_empty :: "('r, 'x) stream_reader_scheme \<Rightarrow> 'r parser \<Rightarrow> bool" where
  "pp_empty ops s = lim_empty ops (pp_limitedReader s)"

text \<open>\<open>input >> data\<close>, over the bytes the data had.\<close>

definition pp_read :: "('r, 'x) stream_reader_scheme \<Rightarrow> 'r parser \<Rightarrow> byte list \<Rightarrow> ('r parser \<times> byte list) result" where
  "pp_read ops s dest = rbind (lim_extract ops (pp_limitedReader s) (ps_input (pp_policies s)) (length dest))
     (\<lambda>(l, p, bytes). Inr (s\<lparr>pp_limitedReader := l, pp_policies := (pp_policies s)\<lparr>ps_input := p\<rparr>\<rparr>, extract_into dest bytes))"

definition pp_input_failed :: "'r parser \<Rightarrow> bool \<times> 'r parser" where
  "pp_input_failed s = (case input_failed (pp_policies s) of (b, ps) \<Rightarrow> (b, s\<lparr>pp_policies := ps\<rparr>))"

function pp_var_int_loop :: "('r, 'x) stream_reader_scheme \<Rightarrow> 'r parser \<Rightarrow> u64 \<Rightarrow> byte \<Rightarrow> u8 \<Rightarrow> u8 \<Rightarrow> ('r parser \<times> u64 \<times> byte \<times> u8) result" where
  "pp_var_int_loop ops s result byte shift index =
     rbind (pp_read ops s [byte]) (\<lambda>(s1, dest).
       let byte1 = hd dest;
           result1 = result + push_bit (unat shift) (ucast (byte1 AND 0x7f));
           shift1 = shift + 7; index1 = index + 1
       in case pp_input_failed s1 of (hasFailed, s2) \<Rightarrow>
            if \<not> hasFailed \<and> byte1 AND 0x80 \<noteq> 0 \<and> index1 \<noteq> 10
            then pp_var_int_loop ops s2 result1 byte1 shift1 index1
            else Inr (s2, result1, byte1, index1))"
  by pat_completeness auto
termination
  by (relation "measure (\<lambda>(ops, s, result, byte, shift, index). unat (9 - index))") (auto intro: u8_counts_up)

declare pp_var_int_loop.simps [simp del]

definition pp_get_var_int :: "('r, 'x) stream_reader_scheme \<Rightarrow> 'r parser \<Rightarrow> ('r parser \<times> u64) result" where
  "pp_get_var_int ops s = rbind (pp_var_int_loop ops s 0 0 0 0) (\<lambda>(s1, result, byte, index).
     case pp_input_failed s1 of (hasFailed, s2) \<Rightarrow>
       if \<not> hasFailed \<and> byte AND 0x80 \<noteq> 0 \<and> index = 10
       then Inr (s2\<lparr>pp_policies := snd (format_failed (pp_policies s2))\<rparr>, result)
       else Inr (s2, result))"

definition pp_get_fixed32 :: "('r, 'x) stream_reader_scheme \<Rightarrow> 'r parser \<Rightarrow> ('r parser \<times> u32) result" where
  "pp_get_fixed32 ops s = rbind (pp_read ops s (le_bytes 4 0)) (\<lambda>(s1, dest). Inr (s1, of_nat (le_value dest)))"

definition pp_get_fixed64 :: "('r, 'x) stream_reader_scheme \<Rightarrow> 'r parser \<Rightarrow> ('r parser \<times> u64) result" where
  "pp_get_fixed64 ops s = rbind (pp_read ops s (le_bytes 8 0)) (\<lambda>(s1, dest). Inr (s1, of_nat (le_value dest)))"

text \<open>\<open>PartialFieldVariant\<close> has a length for a length-delimited value, \<open>FieldVariant\<close> its reader.\<close>

datatype 'd field_value = Field_uint32 u32 | Field_uint64 u64 | Field_delimited 'd

definition pp_report_format_result :: "'r parser \<Rightarrow> bool \<Rightarrow> 'r parser result" where
  "pp_report_format_result s ok = rbind (report_format (pp_policies s) ok) (\<lambda>ps. Inr (s\<lparr>pp_policies := ps\<rparr>))"

definition pp_format_failed :: "'r parser \<Rightarrow> bool \<times> 'r parser" where
  "pp_format_failed s = (case format_failed (pp_policies s) of (b, ps) \<Rightarrow> (b, s\<lparr>pp_policies := ps\<rparr>))"

definition pp_get_partial_field :: "('r, 'x) stream_reader_scheme \<Rightarrow> 'r parser \<Rightarrow> ('r parser \<times> u32 field_value \<times> u32) result" where
  "pp_get_partial_field ops s = rbind (pp_get_var_int ops s) (\<lambda>(s1, v).
     let x = ucast v :: u32; type = ucast (x AND 7) :: u8; fieldNumber = drop_bit 3 x
     in if type = 0 then rbind (pp_get_var_int ops s1) (\<lambda>(s2, value). Inr (s2, Field_uint64 value, fieldNumber))
        else if type = 1 then rbind (pp_get_fixed64 ops s1) (\<lambda>(s2, value). Inr (s2, Field_uint64 value, fieldNumber))
        else if type = 2 then rbind (pp_get_var_int ops s1) (\<lambda>(s2, value). Inr (s2, Field_delimited (ucast value), fieldNumber))
        else if type = 5 then rbind (pp_get_fixed32 ops s1) (\<lambda>(s2, value). Inr (s2, Field_uint32 value, fieldNumber))
        else rbind (pp_report_format_result s1 False) (\<lambda>s2. Inr (s2, Field_uint32 0, 0)))"

section \<open>Length-delimited values\<close>

record 'r delimited =
  pld_limitedReader :: "'r limited"
  pld_policies :: policies

definition pld_new :: "('r, 'x) stream_reader_scheme \<Rightarrow> 'r \<Rightarrow> policies \<Rightarrow> u32 \<Rightarrow> 'r delimited result" where
  "pld_new ops input ps len = rbind (report_input ps (unat len \<le> sr_available ops input))
     (\<lambda>ps1. Inr \<lparr>pld_limitedReader = lim_new input len, pld_policies = ps1\<rparr>)"

text \<open>The parser once the value has been read.\<close>

definition pp_close :: "'r limited delimited \<Rightarrow> 'r parser" where
  "pp_close d = \<lparr>pp_limitedReader = lim_input (pld_limitedReader d), pp_policies = pld_policies d\<rparr>"

definition pp_get_field :: "('r, 'x) stream_reader_scheme \<Rightarrow> 'r parser \<Rightarrow> ('r parser \<times> 'r limited delimited field_value \<times> u32) result" where
  "pp_get_field ops s = rbind (pp_get_partial_field ops s) (\<lambda>(s1, value, fieldNumber).
     case value of
       Field_delimited len \<Rightarrow> rbind (pld_new (limited_reader ops) (pp_limitedReader s1) (pp_policies s1) len)
         (\<lambda>d. Inr (pp_close d, Field_delimited d, fieldNumber))
     | Field_uint32 v \<Rightarrow> Inr (s1, Field_uint32 v, fieldNumber)
     | Field_uint64 v \<Rightarrow> Inr (s1, Field_uint64 v, fieldNumber))"

definition pld_available :: "('r, 'x) stream_reader_scheme \<Rightarrow> 'r delimited \<Rightarrow> nat" where
  "pld_available ops d = lim_available ops (pld_limitedReader d)"

definition pld_contiguous_range :: "('r, 'x) stream_reader_scheme \<Rightarrow> 'r delimited \<Rightarrow> ('r delimited \<times> byte list) result" where
  "pld_contiguous_range ops d = rbind (lim_extract_contiguous ops (pld_limitedReader d) (2 ^ 32 - 1))
     (\<lambda>(l, bytes). Inr (d\<lparr>pld_limitedReader := l\<rparr>, bytes))"

definition pld_read :: "('r, 'x) stream_reader_scheme \<Rightarrow> 'r delimited \<Rightarrow> byte list \<Rightarrow> ('r delimited \<times> byte list) result" where
  "pld_read ops d dest = rbind (lim_extract ops (pld_limitedReader d) (ps_input (pld_policies d)) (length dest))
     (\<lambda>(l, p, bytes). Inr (d\<lparr>pld_limitedReader := l, pld_policies := (pld_policies d)\<lparr>ps_input := p\<rparr>\<rparr>, extract_into dest bytes))"

text \<open>The loop ends when nothing is left; \<open>Diverges\<close> after \<open>fuel\<close> rounds before that.\<close>

fun pld_skip_everything :: "nat \<Rightarrow> ('r, 'x) stream_reader_scheme \<Rightarrow> 'r delimited \<Rightarrow> 'r delimited result" where
  "pld_skip_everything 0 ops d = (if lim_empty ops (pld_limitedReader d) then Inr d else Inl Diverges)"
| "pld_skip_everything (Suc fuel) ops d =
     (if lim_empty ops (pld_limitedReader d) then Inr d
      else rbind (pld_contiguous_range ops d) (\<lambda>(d1, bytes). pld_skip_everything fuel ops d1))"

definition pld_parser :: "('r, 'x) stream_reader_scheme \<Rightarrow> 'r delimited \<Rightarrow> 'r limited parser" where
  "pld_parser ops d = pp_new_with_policy (limited_reader ops) (pld_limitedReader d) (pld_policies d)"

text \<open>\<open>resize\<close> of a string of at most \<open>max\<close> characters keeps what is there and adds zeros.\<close>

definition resized :: "byte list \<Rightarrow> nat \<Rightarrow> byte list" where
  "resized str n = take n str @ replicate (n - length str) 0"

definition pld_get_string :: "('r, 'x) stream_reader_scheme \<Rightarrow> 'r delimited \<Rightarrow> byte list \<Rightarrow> nat \<Rightarrow> ('r delimited \<times> byte list) result" where
  "pld_get_string ops d str maxSize =
     (let dest = resized str (min (pld_available ops d) maxSize)
      in rbind (report_format (pld_policies d) (length dest = pld_available ops d)) (\<lambda>ps.
           pld_read ops (d\<lparr>pld_policies := ps\<rparr>) dest))"

definition pld_get_string_reference :: "('r, 'x) stream_reader_scheme \<Rightarrow> 'r delimited \<Rightarrow> ('r delimited \<times> byte list) result" where
  "pld_get_string_reference ops d = pld_contiguous_range ops d"

definition pld_get_std_string :: "('r, 'x) stream_reader_scheme \<Rightarrow> 'r delimited \<Rightarrow> ('r delimited \<times> byte list) result" where
  "pld_get_std_string ops d = pld_read ops d (replicate (pld_available ops d) 0x20)"

definition vec_overwrite :: "'a vec \<Rightarrow> 'a list \<Rightarrow> 'a vec" where
  "vec_overwrite v xs = v\<lparr>vec_storage := xs @ drop (length xs) (vec_storage v)\<rparr>"

definition pld_get_bytes :: "('r, 'x) stream_reader_scheme \<Rightarrow> 'r delimited \<Rightarrow> byte vec \<Rightarrow> ('r delimited \<times> byte vec) result" where
  "pld_get_bytes ops d bytes =
     rbind (vec_resize bytes (min (pld_available ops d) (vec_max_size bytes)) 0) (\<lambda>v.
     rbind (report_format (pld_policies d) (vec_size v = pld_available ops d)) (\<lambda>ps.
     rbind (pld_read ops (d\<lparr>pld_policies := ps\<rparr>) (vec_range v)) (\<lambda>(d1, dest). Inr (d1, vec_overwrite v dest))))"

definition pld_get_bytes_reference :: "('r, 'x) stream_reader_scheme \<Rightarrow> 'r delimited \<Rightarrow> ('r delimited \<times> byte list) result" where
  "pld_get_bytes_reference ops d = pld_contiguous_range ops d"

definition pld_get_unbounded_bytes :: "('r, 'x) stream_reader_scheme \<Rightarrow> 'r delimited \<Rightarrow> ('r delimited \<times> byte list) result" where
  "pld_get_unbounded_bytes ops d = pld_read ops d (replicate (pld_available ops d) 0)"

section \<open>What is read\<close>

text \<open>Nothing was reported but success.\<close>

definition quiet :: "policies \<Rightarrow> policies \<Rightarrow> bool" where
  "quiet ps ps' \<longleftrightarrow> failed (ps_input ps') = failed (ps_input ps) \<and> mode (ps_input ps') = mode (ps_input ps) \<and>
     rel_option (\<lambda>q q'. failed q' = failed q \<and> mode q' = mode q) (ps_format ps) (ps_format ps')"

lemma quiet_refl [simp]: "quiet ps ps"
  by (simp add: quiet_def option.rel_refl)

lemma quiet_trans [trans]: "quiet p q \<Longrightarrow> quiet q r \<Longrightarrow> quiet p r"
  by (cases "ps_format p"; cases "ps_format q"; cases "ps_format r") (auto simp: quiet_def)

lemma quiet_input [simp]: "failed p' = failed (ps_input ps) \<Longrightarrow> mode p' = mode (ps_input ps) \<Longrightarrow> quiet ps (ps\<lparr>ps_input := p'\<rparr>)"
  by (simp add: quiet_def option.rel_refl)

lemma policy_failed_keeps: "failed (snd (policy_failed p)) = failed p \<and> mode (snd (policy_failed p)) = mode p"
  by (induction p) (auto split: prod.splits)

lemma quiet_checked: "fst (input_failed ps) = failed (ps_input ps)" "quiet ps (snd (input_failed ps))"
proof -
  obtain b p where e: "policy_failed (ps_input ps) = (b, p)" by (cases "policy_failed (ps_input ps)")
  then have "b = failed (ps_input ps)" by (metis fst_conv fst_policy_failed)
  then show "fst (input_failed ps) = failed (ps_input ps)" "quiet ps (snd (input_failed ps))"
    using policy_failed_keeps [of "ps_input ps"] e by (simp_all add: input_failed_def)
qed

lemma quiet_format_failed: "quiet ps (snd (format_failed ps))"
proof (cases "ps_format ps")
  case None
  then show ?thesis using quiet_checked [of ps] by (simp add: format_failed_def)
next
  case (Some q)
  then show ?thesis using policy_failed_keeps [of q] by (auto simp: format_failed_def quiet_def split: prod.splits)
qed

lemma report_input_ok:
  obtains ps' where "report_input ps True = Inr ps'" "quiet ps ps'"
proof (cases "report_result (ps_input ps) True")
  case (Inl f)
  then show ?thesis using report_result_cases(1) [of "ps_input ps" True f] by simp
next
  case (Inr p)
  then show ?thesis using report_result_cases(2) [OF Inr] that by (simp add: report_input_def)
qed

definition pp_ok :: "('r \<Rightarrow> bool) \<Rightarrow> ('r \<Rightarrow> byte list) \<Rightarrow> 'r parser \<Rightarrow> bool" where
  "pp_ok ok rem s \<longleftrightarrow> lim_ok ok rem (pp_limitedReader s) \<and> \<not> failed (ps_input (pp_policies s))"

definition pp_rem :: "('r \<Rightarrow> byte list) \<Rightarrow> 'r parser \<Rightarrow> byte list" where
  "pp_rem rem s = lim_rem rem (pp_limitedReader s)"

text \<open>An operation of the parser that takes \<open>bytes\<close> off the front and returns \<open>x\<close>.\<close>

definition reads :: "('r \<Rightarrow> bool) \<Rightarrow> ('r \<Rightarrow> byte list) \<Rightarrow> ('r parser \<Rightarrow> ('r parser \<times> 'v) result) \<Rightarrow> byte list \<Rightarrow> 'v \<Rightarrow> bool" where
  "reads ok rem get bytes x \<longleftrightarrow> (\<forall>s rest. pp_ok ok rem s \<and> pp_rem rem s = bytes @ rest \<longrightarrow>
     (\<exists>s'. get s = Inr (s', x) \<and> pp_ok ok rem s' \<and> pp_rem rem s' = rest \<and> quiet (pp_policies s) (pp_policies s')))"

lemma readsE:
  assumes "reads ok rem get bytes x" and "pp_ok ok rem s" and "pp_rem rem s = bytes @ rest"
  obtains s' where "get s = Inr (s', x)" "pp_ok ok rem s'" "pp_rem rem s' = rest" "quiet (pp_policies s) (pp_policies s')"
  using assms unfolding reads_def by blast

lemma reads_seq:
  assumes "reads ok rem get1 xs a" and "reads ok rem (get2 a) ys b"
  shows "reads ok rem (\<lambda>s. rbind (get1 s) (\<lambda>(s1, v). get2 v s1)) (xs @ ys) b"
  unfolding reads_def
proof (intro allI impI, elim conjE)
  fix s rest assume "pp_ok ok rem s" and "pp_rem rem s = (xs @ ys) @ rest"
  with assms(1) obtain s1 where 1: "get1 s = Inr (s1, a)" "pp_ok ok rem s1" "pp_rem rem s1 = ys @ rest"
      "quiet (pp_policies s) (pp_policies s1)"
    by (auto elim: readsE)
  with assms(2) obtain s2 where "get2 a s1 = Inr (s2, b)" "pp_ok ok rem s2" "pp_rem rem s2 = rest"
      "quiet (pp_policies s1) (pp_policies s2)"
    by (auto elim: readsE)
  then show "\<exists>s'. rbind (get1 s) (\<lambda>(s1, v). get2 v s1) = Inr (s', b) \<and> pp_ok ok rem s' \<and> pp_rem rem s' = rest \<and>
      quiet (pp_policies s) (pp_policies s')"
    using 1 by (auto intro: quiet_trans)
qed

lemma reads_map:
  "reads ok rem get bytes a \<Longrightarrow> reads ok rem (\<lambda>s. rbind (get s) (\<lambda>(s1, v). Inr (s1, g v))) bytes (g a)"
  unfolding reads_def by fastforce

lemma pp_input_failed_ok:
  assumes "pp_ok ok rem s"
  obtains s' where "pp_input_failed s = (False, s')" "pp_ok ok rem s'" "pp_rem rem s' = pp_rem rem s" "quiet (pp_policies s) (pp_policies s')"
proof -
  obtain b ps where e: "input_failed (pp_policies s) = (b, ps)" by (cases "input_failed (pp_policies s)")
  have b: "b = failed (ps_input (pp_policies s))" and q: "quiet (pp_policies s) ps" using quiet_checked [of "pp_policies s"] e by simp_all
  then have "\<not> failed (ps_input ps)" "\<not> b" using assms by (simp_all add: pp_ok_def quiet_def)
  then show ?thesis using assms q
    by (intro that [of "s\<lparr>pp_policies := ps\<rparr>"]) (simp_all add: pp_input_failed_def e pp_ok_def pp_rem_def)
qed

context reader
begin

lemma pp_read_reads:
  assumes "length dest = length bytes"
  shows "reads ok rem (\<lambda>s. pp_read ops s dest) bytes bytes"
  unfolding reads_def
proof (intro allI impI, elim conjE)
  fix s rest assume s: "pp_ok ok rem s" and r: "pp_rem rem s = bytes @ rest"
  let ?l = "pp_limitedReader s" and ?p = "ps_input (pp_policies s)"
  have "lim_ok ok rem ?l" "length bytes \<le> length (lim_rem rem ?l)" using s r by (simp_all add: pp_ok_def pp_rem_def)
  then obtain l p where "lim_extract ops ?l ?p (length bytes) = Inr (l, p, take (length bytes) (lim_rem rem ?l))"
      "lim_ok ok rem l" "lim_rem rem l = drop (length bytes) (lim_rem rem ?l)" "failed p = failed ?p" "mode p = mode ?p"
    using reader.extract_enough [OF limited, of ?l "length bytes" ?p] by (auto simp: limited_reader_def)
  then show "\<exists>s'. pp_read ops s dest = Inr (s', bytes) \<and> pp_ok ok rem s' \<and> pp_rem rem s' = rest \<and>
      quiet (pp_policies s) (pp_policies s')"
    using s r assms by (auto simp: pp_read_def pp_ok_def pp_rem_def extract_into_def)
qed

lemma var_int_loop_reads:
  assumes "pp_ok ok rem s" and "pp_rem rem s = varint n @ rest" and "length (varint n) + k \<le> 10"
  shows "\<exists>s' b i. pp_var_int_loop ops s result byte (of_nat (7 * k)) (of_nat k) = Inr (s', result + push_bit (7 * k) (of_nat n), b, i) \<and>
    pp_ok ok rem s' \<and> pp_rem rem s' = rest \<and> quiet (pp_policies s) (pp_policies s') \<and> b AND 0x80 = 0"
  using assms
proof (induction n arbitrary: s k result byte rule: varint.induct)
  case (1 n)
  define b where "b = (if n < 128 then of_nat n else of_nat (n mod 128 + 128) :: byte)"
  have v: "varint n = b # (if n < 128 then [] else varint (n div 128))" by (subst varint.simps) (simp add: b_def)
  have ub: "unat b = (if n < 128 then n else n mod 128 + 128)" unfolding b_def by (simp del: of_nat_add)
  have low: "unat (b AND 0x7f) = n mod 128" and high: "(b AND 0x80 \<noteq> 0) = (128 \<le> n)"
    by (simp_all add: byte_payload byte_continues ub)
  obtain s1 where a: "pp_read ops s [byte] = Inr (s1, [b])" "pp_ok ok rem s1"
      "pp_rem rem s1 = (if n < 128 then [] else varint (n div 128)) @ rest" "quiet (pp_policies s) (pp_policies s1)"
    using readsE [OF pp_read_reads [of "[byte]" "[b]"] 1(2), of "(if n < 128 then [] else varint (n div 128)) @ rest"] 1(3) v
    by auto
  obtain s2 where c: "pp_input_failed s1 = (False, s2)" "pp_ok ok rem s2" "pp_rem rem s2 = pp_rem rem s1" "quiet (pp_policies s1) (pp_policies s2)"
    using pp_input_failed_ok [OF a(2)] .
  let ?r = "result + push_bit (7 * k) (of_nat (n mod 128))"
  have k: "k < 10" using 1(4) by (simp add: v)
  have u: "unat (of_nat (7 * k) :: u8) = 7 * k" using k by (intro unat_of_nat_u8) simp
  have d: "(ucast (b AND 0x7f) :: u64) = of_nat (n mod 128)" by (metis low of_nat_unat)
  have q: "quiet (pp_policies s) (pp_policies s2)" using quiet_trans [OF a(4) c(4)] .
  show ?case
  proof (cases "n < 128")
    case True
    then have z: "b AND 0x80 = 0" using high by auto
    have "pp_var_int_loop ops s result byte (of_nat (7 * k)) (of_nat k) = Inr (s2, ?r, b, of_nat k + 1)"
      by (subst pp_var_int_loop.simps)
         (simp only: a(1) rbind.simps prod.case list.sel Let_def c(1) u d z simp_thms if_False)
    then show ?thesis using a c q z True by (intro exI [of _ s2] exI) auto
  next
    case False
    have len: "1 + length (varint (n div 128)) + k \<le> 10" using "1.prems"(3) v False by simp
    then have "Suc k \<noteq> 10" "k < 255" using length_varint_pos [of "n div 128"] by linarith+
    then have "unat (of_nat (Suc k) :: u8) \<noteq> unat (10 :: u8)" by (subst unat_of_nat_u8) simp_all
    then have i: "(of_nat k + 1 :: u8) \<noteq> 10" by (metis of_nat_Suc add.commute)
    have z: "b AND 0x80 \<noteq> 0" using high False by auto
    have "pp_var_int_loop ops s result byte (of_nat (7 * k)) (of_nat k) =
        pp_var_int_loop ops s2 ?r b (of_nat (7 * k) + 7) (of_nat k + 1)"
      by (subst pp_var_int_loop.simps)
         (simp only: a(1) rbind.simps prod.case list.sel Let_def c(1) u d z i simp_thms if_True)
    moreover have "of_nat (7 * k) + 7 = (of_nat (7 * Suc k) :: u8)" "of_nat k + 1 = (of_nat (Suc k) :: u8)" by simp_all
    moreover obtain s' b' i where r: "pp_var_int_loop ops s2 ?r b (of_nat (7 * Suc k)) (of_nat (Suc k)) =
        Inr (s', ?r + push_bit (7 * Suc k) (of_nat (n div 128)), b', i)"
        "pp_ok ok rem s'" "pp_rem rem s' = rest" "quiet (pp_policies s2) (pp_policies s')" "b' AND 0x80 = 0"
      using "1.IH" [OF False c(2), of "Suc k" ?r b] a(3) c(3) len False by auto
    moreover have "?r + push_bit (7 * Suc k) (of_nat (n div 128)) = result + push_bit (7 * k) (of_nat n)"
    proof -
      have "(of_nat n :: u64) = of_nat (n mod 128 + 128 * (n div 128))" by simp
      also have "\<dots> = of_nat (n mod 128) + 128 * of_nat (n div 128)" by (simp only: of_nat_add of_nat_mult of_nat_numeral)
      finally show ?thesis by (simp add: push_bit_eq_mult power_add algebra_simps)
    qed
    ultimately have "pp_var_int_loop ops s result byte (of_nat (7 * k)) (of_nat k) = Inr (s', result + push_bit (7 * k) (of_nat n), b', i)"
      by (simp only:)
    then show ?thesis using r(2,3,5) quiet_trans [OF q r(4)] by blast
  qed
qed

lemma get_var_int_reads: "reads ok rem (pp_get_var_int ops) (varint (unat v)) v"
  unfolding reads_def
proof (intro allI impI, elim conjE)
  fix s rest assume s: "pp_ok ok rem s" "pp_rem rem s = varint (unat v) @ rest"
  then obtain s1 b i where 1: "pp_var_int_loop ops s 0 0 (of_nat (7 * 0)) (of_nat 0) = Inr (s1, 0 + push_bit (7 * 0) (of_nat (unat v)), b, i)"
      "pp_ok ok rem s1" "pp_rem rem s1 = rest" "quiet (pp_policies s) (pp_policies s1)" "b AND 0x80 = 0"
    using var_int_loop_reads [OF s, of 0 0 0] length_varint_u64 [of v] by auto
  obtain s2 where 2: "pp_input_failed s1 = (False, s2)" "pp_ok ok rem s2" "pp_rem rem s2 = pp_rem rem s1" "quiet (pp_policies s1) (pp_policies s2)"
    using pp_input_failed_ok [OF 1(2)] .
  have "pp_get_var_int ops s = Inr (s2, v)" using 1(1,5) 2(1) by (simp add: pp_get_var_int_def)
  then show "\<exists>s'. pp_get_var_int ops s = Inr (s', v) \<and> pp_ok ok rem s' \<and> pp_rem rem s' = rest \<and> quiet (pp_policies s) (pp_policies s')"
    using 1 2 by (auto intro: quiet_trans)
qed

lemma get_fixed_reads:
  "reads ok rem (pp_get_fixed32 ops) (le_bytes 4 (unat (v :: u32))) v"
  "reads ok rem (pp_get_fixed64 ops) (le_bytes 8 (unat (w :: u64))) w"
proof -
  have "unat v mod 256 ^ 4 = unat v" using unat_u32_less [of v] by simp
  then show "reads ok rem (pp_get_fixed32 ops) (le_bytes 4 (unat v)) v"
    using reads_map [OF pp_read_reads [of "le_bytes 4 0" "le_bytes 4 (unat v)"], of "\<lambda>dest. of_nat (le_value dest) :: u32"]
    by (simp add: pp_get_fixed32_def [abs_def] le_value_bytes)
  have "unat w mod 256 ^ 8 = unat w" using unat_u64_less [of w] by simp
  then show "reads ok rem (pp_get_fixed64 ops) (le_bytes 8 (unat w)) w"
    using reads_map [OF pp_read_reads [of "le_bytes 8 0" "le_bytes 8 (unat w)"], of "\<lambda>dest. of_nat (le_value dest) :: u64"]
    by (simp add: pp_get_fixed64_def [abs_def] le_value_bytes)
qed

end

text \<open>What \<open>GetPartialField\<close> makes of a tag.\<close>

definition after_tag :: "('r, 'x) stream_reader_scheme \<Rightarrow> u64 \<Rightarrow> 'r parser \<Rightarrow> ('r parser \<times> u32 field_value \<times> u32) result" where
  "after_tag ops v s1 =
     (let x = ucast v :: u32; type = ucast (x AND 7) :: u8; fieldNumber = drop_bit 3 x
      in if type = 0 then rbind (pp_get_var_int ops s1) (\<lambda>(s2, value). Inr (s2, Field_uint64 value, fieldNumber))
        else if type = 1 then rbind (pp_get_fixed64 ops s1) (\<lambda>(s2, value). Inr (s2, Field_uint64 value, fieldNumber))
        else if type = 2 then rbind (pp_get_var_int ops s1) (\<lambda>(s2, value). Inr (s2, Field_delimited (ucast value), fieldNumber))
        else if type = 5 then rbind (pp_get_fixed32 ops s1) (\<lambda>(s2, value). Inr (s2, Field_uint32 value, fieldNumber))
        else rbind (pp_report_format_result s1 False) (\<lambda>s2. Inr (s2, Field_uint32 0, 0)))"

lemma partial_field_after_tag: "pp_get_partial_field ops s = rbind (pp_get_var_int ops s) (\<lambda>(s1, v). after_tag ops v s1)"
  by (simp add: pp_get_partial_field_def after_tag_def)

lemma tag_parts:
  assumes "unat n < 2 ^ 29" and "t < 8"
  defines "v \<equiv> of_nat (8 * unat n + t) :: u64"
  shows "unat v = 8 * unat n + t" and "(ucast ((ucast v :: u32) AND 7) :: u8) = of_nat t" and "drop_bit 3 (ucast v :: u32) = n"
proof -
  show u: "unat v = 8 * unat n + t" unfolding v_def using assms by (simp add: unat_of_nat take_bit_eq_mod del: of_nat_add of_nat_mult)
  have x: "unat (ucast v :: u32) = 8 * unat n + t" using assms(1,2) by (simp add: unsigned_ucast_eq u take_bit_eq_mod)
  have "(ucast v :: u32) AND 7 = take_bit 3 (ucast v)" by (simp add: take_bit_eq_mask mask_numeral)
  then have "unat ((ucast v :: u32) AND 7) = t" using x assms(2) by (simp only: unsigned_take_bit_eq) (simp add: take_bit_eq_mod)
  moreover have "(ucast w :: u8) = of_nat (unat w)" for w :: u32 by simp
  ultimately show "(ucast ((ucast v :: u32) AND 7) :: u8) = of_nat t" by metis
  have "unat (drop_bit 3 (ucast v :: u32)) = unat n"
    unfolding unat_drop_bit_eq x using assms(2) by (simp add: drop_bit_eq_div)
  then show "drop_bit 3 (ucast v :: u32) = n" by (simp only: word_unat_eq_iff)
qed

text \<open>A field without the bytes of a length-delimited value.\<close>

fun header_bytes :: "proto_field \<Rightarrow> byte list" where
  "header_bytes (Delimited bs, n) = tag_bytes n 2 @ varint (length bs)"
| "header_bytes (v, n) = field_bytes (v, n)"

primrec value_of :: "proto_value \<Rightarrow> u32 field_value" where
  "value_of (Varint v) = Field_uint64 v"
| "value_of (Fixed64 v) = Field_uint64 v"
| "value_of (Delimited bs) = Field_delimited (of_nat (length bs))"
| "value_of (Fixed32 v) = Field_uint32 v"

context reader
begin

lemma tag_reads:
  assumes "unat n < 2 ^ 29" and "t < 8" and "reads ok rem (after_tag ops (of_nat (8 * unat n + t))) bytes x"
  shows "reads ok rem (pp_get_partial_field ops) (tag_bytes n t @ bytes) x"
proof -
  have "reads ok rem (pp_get_var_int ops) (tag_bytes n t) (of_nat (8 * unat n + t))"
    using get_var_int_reads [of "of_nat (8 * unat n + t)"] tag_parts(1) [OF assms(1,2)] by (simp add: tag_bytes_def)
  from reads_seq [OF this, of "after_tag ops"] assms(3) show ?thesis
    by (simp add: partial_field_after_tag [abs_def])
qed

lemma partial_field_reads:
  assumes "field_ok (v, n)"
  shows "reads ok rem (pp_get_partial_field ops) (header_bytes (v, n)) (value_of v, n)"
proof -
  have n: "unat n < 2 ^ 29" using assms by (simp add: field_ok_def)
  note parts = tag_parts(2,3) [OF n]
  show ?thesis
  proof (cases v)
    case (Varint x)
    have "reads ok rem (after_tag ops (of_nat (8 * unat n + 0))) (varint (unat x)) (Field_uint64 x, n)"
      unfolding after_tag_def Let_def
      using reads_map [OF get_var_int_reads, where g = "\<lambda>y. (Field_uint64 y, n)"] parts [of 0] by simp
    from tag_reads [OF n _ this] show ?thesis using Varint by (simp add: field_bytes_def)
  next
    case (Fixed64 x)
    have "reads ok rem (after_tag ops (of_nat (8 * unat n + 1))) (le_bytes 8 (unat x)) (Field_uint64 x, n)"
      unfolding after_tag_def Let_def
      using reads_map [OF get_fixed_reads(2), where g = "\<lambda>y. (Field_uint64 y, n)"] parts [of 1] by simp
    from tag_reads [OF n _ this] show ?thesis using Fixed64 by (simp add: field_bytes_def)
  next
    case (Delimited bs)
    have "unat (of_nat (length bs) :: u64) = length bs" using assms Delimited by (simp add: field_ok_def unat_of_nat take_bit_eq_mod)
    moreover have "(ucast w :: u32) = of_nat (unat w)" for w :: u64 by simp
    ultimately have "(ucast (of_nat (length bs) :: u64) :: u32) = of_nat (length bs)" by metis
    with \<open>unat (of_nat (length bs) :: u64) = length bs\<close> have "reads ok rem (after_tag ops (of_nat (8 * unat n + 2))) (varint (length bs)) (Field_delimited (of_nat (length bs)), n)"
      unfolding after_tag_def Let_def
      using reads_map [OF get_var_int_reads [of "of_nat (length bs)"], where g = "\<lambda>y. (Field_delimited (ucast y :: u32), n)"] parts [of 2] by simp
    from tag_reads [OF n _ this] show ?thesis using Delimited by simp
  next
    case (Fixed32 x)
    have "reads ok rem (after_tag ops (of_nat (8 * unat n + 5))) (le_bytes 4 (unat x)) (Field_uint32 x, n)"
      unfolding after_tag_def Let_def
      using reads_map [OF get_fixed_reads(1), where g = "\<lambda>y. (Field_uint32 y, n)"] parts [of 5] by simp
    from tag_reads [OF n _ this] show ?thesis using Fixed32 by (simp add: field_bytes_def)
  qed
qed

end

section \<open>Reading length-delimited values\<close>

definition pld_ok :: "('r \<Rightarrow> bool) \<Rightarrow> ('r \<Rightarrow> byte list) \<Rightarrow> 'r delimited \<Rightarrow> bool" where
  "pld_ok ok rem d \<longleftrightarrow> lim_ok ok rem (pld_limitedReader d) \<and> \<not> failed (ps_input (pld_policies d))"

context reader
begin

lemma pld_news:
  assumes "ok r" and "rem r = bs @ rest" and "length (rem r) < 2 ^ 32" and "\<not> failed (ps_input ps)"
  obtains d where "pld_new ops r ps (of_nat (length bs)) = Inr d" "pld_ok ok rem d" "lim_input (pld_limitedReader d) = r"
    "lim_rem rem (pld_limitedReader d) = bs" "quiet ps (pld_policies d)"
proof -
  have len: "unat (of_nat (length bs) :: u32) = length bs" using assms(2,3) by simp
  obtain ps' where ps': "report_input ps True = Inr ps'" "quiet ps ps'" by (rule report_input_ok)
  let ?d = "\<lparr>pld_limitedReader = lim_new r (of_nat (length bs)), pld_policies = ps'\<rparr>"
  have "pld_new ops r ps (of_nat (length bs)) = Inr ?d" using assms(1,2) ps'(1) by (simp add: pld_new_def len available)
  then show ?thesis using that [of ?d] assms ps'(2) len
    by (simp add: pld_ok_def lim_ok_def lim_new_def lim_rem_def quiet_def)
qed

lemma pld_reads:
  assumes "pld_ok ok rem d" and "lim_rem rem (pld_limitedReader d) = bs @ tail" and "rem (lim_input (pld_limitedReader d)) = bs @ rest"
    and "length dest = length bs"
  obtains d' where "pld_read ops d dest = Inr (d', bs)" "pld_ok ok rem d'" "lim_rem rem (pld_limitedReader d') = tail"
    "rem (lim_input (pld_limitedReader d')) = rest" "quiet (pld_policies d) (pld_policies d')"
proof -
  let ?l = "pld_limitedReader d" and ?p = "ps_input (pld_policies d)" and ?n = "length bs"
  have l: "lim_ok ok rem ?l" using assms(1) by (simp add: pld_ok_def)
  obtain l' p' where e: "lim_extract ops ?l ?p ?n = Inr (l', p', bs)" "lim_ok ok rem l'" "lim_rem rem l' = tail"
      "failed p' = failed ?p" "mode p' = mode ?p"
    using reader.extract_enough [OF limited l, of ?n ?p] assms(2) by (auto simp: limited_reader_def)
  have "?n \<le> unat (lim_length ?l)"
  proof -
    have "?n \<le> length (lim_rem rem ?l)" using assms(2) by simp
    then show ?thesis by (simp add: lim_rem_def)
  qed
  then have min: "min ?n (unat (lim_length ?l)) = ?n" by simp
  obtain bs' input where "rem input = drop ?n (rem (lim_input ?l))"
      "\<forall>p. lim_extract ops ?l p ?n = rbind (report_all p ((?n \<le> unat (lim_length ?l)) # bs')) (\<lambda>p'.
        Inr (\<lparr>lim_input = input, lim_length = lim_length ?l - of_nat ?n\<rparr>, p', take ?n (rem (lim_input ?l))))"
    using lim_extract_step [OF lim_ok_input(1) [OF l], of ?n] unfolding min by metis
  then have "rem (lim_input l') = rest" using e(1) assms(3) by (auto simp: rbind_Inr)
  then show ?thesis using that e assms(1,4)
    by (simp add: pld_read_def pld_ok_def extract_into_def)
qed

lemma pld_availables: "pld_ok ok rem d \<Longrightarrow> pld_available ops d = length (lim_rem rem (pld_limitedReader d))"
  by (simp add: pld_ok_def pld_available_def lim_availables)

lemma unbounded_bytes:
  assumes "pld_ok ok rem d" and "lim_rem rem (pld_limitedReader d) = bs" and "rem (lim_input (pld_limitedReader d)) = bs @ rest"
  obtains d' where "pld_get_unbounded_bytes ops d = Inr (d', bs)" "pld_ok ok rem d'"
    "rem (lim_input (pld_limitedReader d')) = rest" "quiet (pld_policies d) (pld_policies d')"
  using pld_reads [OF assms(1) _ assms(3), of "[]" "replicate (length bs) 0"] assms(2) that pld_availables [OF assms(1)]
  by (auto simp: pld_get_unbounded_bytes_def)

lemma skip_everything:
  assumes "pld_ok ok rem d" and "lim_rem rem (pld_limitedReader d) = bs" and "rem (lim_input (pld_limitedReader d)) = bs @ rest"
    and "length bs \<le> fuel"
  obtains d' where "pld_skip_everything fuel ops d = Inr d'" "pld_ok ok rem d'"
    "rem (lim_input (pld_limitedReader d')) = rest" "pld_policies d' = pld_policies d"
  using assms
proof (induction fuel arbitrary: d bs thesis)
  case 0
  then have "ok (lim_input (pld_limitedReader d))" by (simp add: pld_ok_def lim_ok_def)
  then have "lim_empty ops (pld_limitedReader d)" using 0(3,5) by (simp add: lim_empties)
  then show ?case using 0 by simp
next
  case (Suc fuel)
  let ?l = "pld_limitedReader d"
  have l: "ok (lim_input ?l)" "lim_ok ok rem ?l" using Suc.prems(2) by (simp_all add: pld_ok_def lim_ok_def)
  show ?case
  proof (cases "bs = []")
    case True
    then have "lim_empty ops ?l" using l Suc.prems(3) by (simp add: lim_empties)
    then show ?thesis using Suc.prems True by simp
  next
    case False
    then have ne: "\<not> lim_empty ops ?l" using l Suc.prems(3) by (simp add: lim_empties)
    obtain l' k where e: "lim_extract_contiguous ops ?l (2 ^ 32 - 1) = Inr (l', take k (lim_rem rem ?l))"
        "lim_rem rem ?l \<noteq> [] \<and> 0 < (2 ^ 32 - 1 :: nat) \<longrightarrow> 0 < k" "ok (lim_input l')"
        "rem (lim_input l') = drop k (rem (lim_input ?l))" "lim_rem rem l' = drop k (lim_rem rem ?l)"
        "take k (lim_rem rem ?l) = take k (rem (lim_input ?l))"
      using lim_contiguous_step [OF l(1), of "2 ^ 32 - 1"] by metis
    define d1 where "d1 = d\<lparr>pld_limitedReader := l'\<rparr>"
    have k: "0 < k" using e(2) False Suc.prems(3) by simp
    have "take (k - length bs) rest = []" using e(6) Suc.prems(3,4) by simp
    then have "drop (k - length bs) rest = rest" by (metis append_take_drop_id append_Nil)
    then have rest: "drop k (bs @ rest) = drop k bs @ rest" by simp
    have "pld_ok ok rem d1" using Suc.prems(2) e(3,4) by (auto simp: d1_def pld_ok_def lim_ok_def)
    moreover have "lim_rem rem (pld_limitedReader d1) = drop k bs" "rem (lim_input (pld_limitedReader d1)) = drop k bs @ rest"
      unfolding d1_def using e(4,5) rest unfolding Suc.prems(3,4) by simp_all
    moreover have "length (drop k bs) \<le> fuel" using Suc.prems(5) k by simp
    ultimately obtain d' where "pld_skip_everything fuel ops d1 = Inr d'" "pld_ok ok rem d'"
        "rem (lim_input (pld_limitedReader d')) = rest" "pld_policies d' = pld_policies d1"
      using Suc.IH by blast
    then show ?thesis using Suc.prems(1) ne e(1) by (simp add: pld_contiguous_range_def d1_def)
  qed
qed

end

section \<open>Reading messages\<close>

text \<open>A client that reads a field with its value, and one that reads all fields, as the generated
  message classes do in a loop until the parser is empty.\<close>

definition fetch_field :: "('r, 'x) stream_reader_scheme \<Rightarrow> 'r parser \<Rightarrow> ('r parser \<times> byte list field_value \<times> u32) result" where
  "fetch_field ops s = rbind (pp_get_field ops s) (\<lambda>(s1, field, n).
     case field of
       Field_delimited d \<Rightarrow> rbind (pld_get_unbounded_bytes (limited_reader ops) d)
         (\<lambda>(d1, bytes). Inr (pp_close d1, Field_delimited bytes, n))
     | Field_uint32 v \<Rightarrow> Inr (s1, Field_uint32 v, n)
     | Field_uint64 v \<Rightarrow> Inr (s1, Field_uint64 v, n))"

fun fetch_fields :: "nat \<Rightarrow> ('r, 'x) stream_reader_scheme \<Rightarrow> 'r parser \<Rightarrow> ('r parser \<times> (byte list field_value \<times> u32) list) result" where
  "fetch_fields 0 ops s = (if pp_empty ops s then Inr (s, []) else Inl Diverges)"
| "fetch_fields (Suc fuel) ops s =
     (if pp_empty ops s then Inr (s, [])
      else rbind (fetch_field ops s) (\<lambda>(s1, f).
             rbind (fetch_fields fuel ops s1) (\<lambda>(s2, fs). Inr (s2, f # fs))))"

text \<open>What a field written as \<open>v\<close> reads as: the wire type does not tell a variable-length integer
  from a fixed 64-bit one once read.\<close>

primrec seen_as :: "proto_value \<Rightarrow> byte list field_value" where
  "seen_as (Varint v) = Field_uint64 v"
| "seen_as (Fixed64 v) = Field_uint64 v"
| "seen_as (Delimited bs) = Field_delimited bs"
| "seen_as (Fixed32 v) = Field_uint32 v"

lemma field_bytes_nonempty: "field_bytes f \<noteq> []"
  by (simp add: field_bytes_def tag_bytes_def)

context reader
begin

lemma get_field_delimited:
  assumes "field_ok (Delimited bs, n)" and "pp_ok ok rem s" and "pp_rem rem s = field_bytes (Delimited bs, n) @ rest"
  obtains d where "pp_get_field ops s = Inr (pp_close d, Field_delimited d, n)" "pld_ok (lim_ok ok rem) (lim_rem rem) d"
    "lim_rem (lim_rem rem) (pld_limitedReader d) = bs" "lim_rem rem (lim_input (pld_limitedReader d)) = bs @ rest"
    "quiet (pp_policies s) (pld_policies d)"
proof -
  have "pp_rem rem s = header_bytes (Delimited bs, n) @ bs @ rest" using assms(3) by (simp add: field_bytes_def)
  from readsE [OF partial_field_reads [OF assms(1)] assms(2) this]
  obtain s1 where 1: "pp_get_partial_field ops s = Inr (s1, Field_delimited (of_nat (length bs)), n)" "pp_ok ok rem s1"
      "pp_rem rem s1 = bs @ rest" "quiet (pp_policies s) (pp_policies s1)"
    unfolding value_of.simps .
  let ?l = "pp_limitedReader s1"
  have l: "lim_ok ok rem ?l" "\<not> failed (ps_input (pp_policies s1))" using 1(2) by (simp_all add: pp_ok_def)
  have "length (lim_rem rem ?l) < 2 ^ 32" using lim_ok_input(2) [OF l(1)] by (simp add: lim_rem_def)
  then obtain d where d: "pld_new (limited_reader ops) ?l (pp_policies s1) (of_nat (length bs)) = Inr d"
      "pld_ok (lim_ok ok rem) (lim_rem rem) d" "lim_input (pld_limitedReader d) = ?l"
      "lim_rem (lim_rem rem) (pld_limitedReader d) = bs" "quiet (pp_policies s1) (pld_policies d)"
    using reader.pld_news [OF limited l(1), of bs rest "pp_policies s1"] 1(3) l(2) by (auto simp: pp_rem_def)
  have "pp_get_field ops s = Inr (pp_close d, Field_delimited d, n)" using 1(1) d(1) by (simp add: pp_get_field_def)
  moreover have "lim_rem rem (lim_input (pld_limitedReader d)) = bs @ rest" using 1(3) d(3) by (simp add: pp_rem_def)
  ultimately show ?thesis using that [of d] d(2,4) quiet_trans [OF 1(4) d(5)] by blast
qed

lemma fetch_field_reads:
  assumes "field_ok (v, n)"
  shows "reads ok rem (fetch_field ops) (field_bytes (v, n)) (seen_as v, n)"
  unfolding reads_def
proof (intro allI impI, elim conjE)
  fix s rest assume s: "pp_ok ok rem s" "pp_rem rem s = field_bytes (v, n) @ rest"
  show "\<exists>s'. fetch_field ops s = Inr (s', seen_as v, n) \<and> pp_ok ok rem s' \<and> pp_rem rem s' = rest \<and> quiet (pp_policies s) (pp_policies s')"
  proof (cases "\<exists>bs. v = Delimited bs")
    case True
    then obtain bs where v: "v = Delimited bs" by blast
    obtain d where d: "pp_get_field ops s = Inr (pp_close d, Field_delimited d, n)" "pld_ok (lim_ok ok rem) (lim_rem rem) d"
        "lim_rem (lim_rem rem) (pld_limitedReader d) = bs" "lim_rem rem (lim_input (pld_limitedReader d)) = bs @ rest"
        "quiet (pp_policies s) (pld_policies d)"
      using get_field_delimited [of bs n s rest] assms s v by auto
    obtain d' where d': "pld_get_unbounded_bytes (limited_reader ops) d = Inr (d', bs)" "pld_ok (lim_ok ok rem) (lim_rem rem) d'"
        "lim_rem rem (lim_input (pld_limitedReader d')) = rest" "quiet (pld_policies d) (pld_policies d')"
      using reader.unbounded_bytes [OF limited d(2,3,4)] .
    have "pp_ok ok rem (pp_close d')" using d'(2) by (simp add: pp_ok_def pld_ok_def pp_close_def lim_ok_def)
    then show ?thesis using d d' v quiet_trans [OF d(5) d'(4)] by (simp add: fetch_field_def pp_rem_def) (simp add: pp_close_def)
  next
    case False
    then have "header_bytes (v, n) = field_bytes (v, n)" by (cases v) auto
    then obtain s1 where "pp_get_partial_field ops s = Inr (s1, value_of v, n)" "pp_ok ok rem s1" "pp_rem rem s1 = rest"
        "quiet (pp_policies s) (pp_policies s1)"
      using readsE [OF partial_field_reads [OF assms] s(1)] s(2) by metis
    then show ?thesis using False by (cases v) (auto simp: fetch_field_def pp_get_field_def)
  qed
qed

lemma pp_empties: "pp_ok ok rem s \<Longrightarrow> pp_empty ops s = (pp_rem rem s = [])"
  by (simp add: pp_ok_def pp_empty_def pp_rem_def lim_ok_def lim_empties)

lemma fetch_fields_reads:
  assumes "list_all field_ok fs" and "pp_ok ok rem s" and "pp_rem rem s = concat (map field_bytes fs)" and "length fs \<le> fuel"
  shows "\<exists>s'. fetch_fields fuel ops s = Inr (s', map (apfst seen_as) fs) \<and> pp_ok ok rem s' \<and> pp_rem rem s' = [] \<and>
    quiet (pp_policies s) (pp_policies s')"
  using assms
proof (induction fs arbitrary: s fuel)
  case Nil
  then show ?case by (cases fuel) (auto simp: pp_empties)
next
  case (Cons f fs)
  obtain v n where f: "f = (v, n)" by (cases f)
  obtain fuel' where fuel: "fuel = Suc fuel'" using Cons.prems(4) by (cases fuel) auto
  obtain s1 where 1: "fetch_field ops s = Inr (s1, seen_as v, n)" "pp_ok ok rem s1" "pp_rem rem s1 = concat (map field_bytes fs)"
      "quiet (pp_policies s) (pp_policies s1)"
    using readsE [OF fetch_field_reads [of v n] Cons.prems(2)] Cons.prems(1,3) f by auto
  obtain s2 where 2: "fetch_fields fuel' ops s1 = Inr (s2, map (apfst seen_as) fs)" "pp_ok ok rem s2" "pp_rem rem s2 = []"
      "quiet (pp_policies s1) (pp_policies s2)"
    using Cons.IH [OF _ 1(2,3), of fuel'] Cons.prems(1,4) fuel by auto
  have "\<not> pp_empty ops s" using Cons.prems(2,3) f field_bytes_nonempty [of f] by (simp add: pp_empties)
  then show ?case using 1 2 f fuel by (auto intro: quiet_trans)
qed

end

section \<open>Malformed integers and tags\<close>

context reader
begin

lemma read_byte:
  assumes "pp_ok ok rem s" and "pp_rem rem s = b # rest"
  obtains s1 where "\<And>byte. pp_read ops s [byte] = Inr (s1, [b])" "pp_ok ok rem s1" "pp_rem rem s1 = rest"
    "quiet (pp_policies s) (pp_policies s1)"
proof -
  let ?l = "pp_limitedReader s" and ?p = "ps_input (pp_policies s)"
  have l: "lim_ok ok rem ?l" "1 \<le> length (lim_rem rem ?l)" using assms by (simp_all add: pp_ok_def pp_rem_def)
  obtain l' p' where e: "lim_extract ops ?l ?p 1 = Inr (l', p', take 1 (lim_rem rem ?l))" "lim_ok ok rem l'"
      "lim_rem rem l' = drop 1 (lim_rem rem ?l)" "failed p' = failed ?p" "mode p' = mode ?p"
    using reader.extract_enough [OF limited l, of ?p] by (auto simp: limited_reader_def)
  let ?s1 = "s\<lparr>pp_limitedReader := l', pp_policies := (pp_policies s)\<lparr>ps_input := p'\<rparr>\<rparr>"
  have b: "lim_rem rem ?l = b # rest" using assms(2) by (simp add: pp_rem_def)
  have "pp_read ops s [byte] = Inr (?s1, [b])" for byte using e(1) b by (simp add: pp_read_def extract_into_def)
  then show ?thesis using assms(1) e b by (intro that [of ?s1]) (simp_all add: pp_ok_def pp_rem_def)
qed

lemma read_at_end:
  assumes "pp_ok ok rem s" and "pp_rem rem s = []"
  shows "mode (ps_input (pp_policies s)) = Assertion \<Longrightarrow> pp_read ops s [byte] = Inl Assert_failed"
    and "mode (ps_input (pp_policies s)) \<noteq> Assertion \<Longrightarrow> \<exists>s1. pp_read ops s [byte] = Inr (s1, [byte]) \<and>
      lim_ok ok rem (pp_limitedReader s1) \<and> pp_rem rem s1 = [] \<and> failed (ps_input (pp_policies s1)) \<and>
      mode (ps_input (pp_policies s1)) = mode (ps_input (pp_policies s))"
proof -
  let ?l = "pp_limitedReader s" and ?p = "ps_input (pp_policies s)"
  have l: "lim_ok ok rem ?l" "lim_rem rem ?l = []" using assms by (simp_all add: pp_ok_def pp_rem_def)
  then have short: "length (lim_rem rem ?l) < 1" by simp
  note short = reader.extract_short [OF limited l(1) short, of ?p]
  show "pp_read ops s [byte] = Inl Assert_failed" if "mode ?p = Assertion"
    using short(1) [OF that] by (simp add: pp_read_def limited_reader_def)
  show "\<exists>s1. pp_read ops s [byte] = Inr (s1, [byte]) \<and> lim_ok ok rem (pp_limitedReader s1) \<and> pp_rem rem s1 = [] \<and>
      failed (ps_input (pp_policies s1)) \<and> mode (ps_input (pp_policies s1)) = mode ?p" if "mode ?p \<noteq> Assertion"
    using short(2) [OF that] l(2) by (auto simp: pp_read_def limited_reader_def pp_rem_def extract_into_def)
qed

lemma loop_step:
  assumes "pp_ok ok rem s" and "pp_rem rem s = b # rest" and "b AND 0x80 \<noteq> 0"
  obtains s2 where "pp_ok ok rem s2" "pp_rem rem s2 = rest" "quiet (pp_policies s) (pp_policies s2)"
    "\<And>result byte shift index. pp_var_int_loop ops s result byte shift index =
       (let result1 = result + push_bit (unat shift) (ucast (b AND 0x7f))
        in if index + 1 \<noteq> 10 then pp_var_int_loop ops s2 result1 b (shift + 7) (index + 1) else Inr (s2, result1, b, index + 1))"
proof -
  obtain s1 where 1: "\<And>byte. pp_read ops s [byte] = Inr (s1, [b])" "pp_ok ok rem s1" "pp_rem rem s1 = rest" "quiet (pp_policies s) (pp_policies s1)"
    using read_byte [OF assms(1,2)] by metis
  obtain s2 where 2: "pp_input_failed s1 = (False, s2)" "pp_ok ok rem s2" "pp_rem rem s2 = pp_rem rem s1" "quiet (pp_policies s1) (pp_policies s2)"
    using pp_input_failed_ok [OF 1(2)] .
  have "pp_var_int_loop ops s result byte shift index =
       (let result1 = result + push_bit (unat shift) (ucast (b AND 0x7f))
        in if index + 1 \<noteq> 10 then pp_var_int_loop ops s2 result1 b (shift + 7) (index + 1) else Inr (s2, result1, b, index + 1))"
    for result byte shift index
    by (subst pp_var_int_loop.simps) (simp only: 1(1) 2(1) rbind.simps prod.case list.sel Let_def assms(3) simp_thms)
  then show ?thesis using that [of s2] 1 2 quiet_trans by metis
qed

lemma index_in_range: "k < 10 \<Longrightarrow> ((of_nat k + 1 :: u8) = 10) = (k = 9)"
proof -
  assume "k < 10"
  then have "unat (of_nat (Suc k) :: u8) = Suc k" by (intro unat_of_nat_u8) simp
  moreover have "unat (10 :: u8) = 10" by simp
  ultimately have "(of_nat (Suc k) :: u8) = 10 \<longleftrightarrow> Suc k = 10" by (metis word_unat_eq_iff)
  then show "((of_nat k + 1 :: u8) = 10) = (k = 9)" by (simp add: add.commute)
qed

lemma overlong_loop:
  assumes "length bs + k = 10" and "bs \<noteq> []" and "\<forall>b\<in>set bs. b AND 0x80 \<noteq> 0" and "pp_ok ok rem s" and "pp_rem rem s = bs @ rest"
  shows "\<exists>s' r b. pp_var_int_loop ops s result byte shift (of_nat k) = Inr (s', r, b, 10) \<and> b AND 0x80 \<noteq> 0 \<and>
    pp_ok ok rem s' \<and> pp_rem rem s' = rest \<and> quiet (pp_policies s) (pp_policies s')"
  using assms
proof (induction bs arbitrary: k s result byte shift)
  case (Cons b bs)
  obtain s2 where 2: "pp_ok ok rem s2" "pp_rem rem s2 = bs @ rest" "quiet (pp_policies s) (pp_policies s2)"
    "\<And>result byte shift index. pp_var_int_loop ops s result byte shift index =
       (let result1 = result + push_bit (unat shift) (ucast (b AND 0x7f))
        in if index + 1 \<noteq> 10 then pp_var_int_loop ops s2 result1 b (shift + 7) (index + 1) else Inr (s2, result1, b, index + 1))"
    using loop_step [OF Cons.prems(4), of b "bs @ rest"] Cons.prems(3,5) by auto
  have k: "k < 10" using Cons.prems(1) by simp
  show ?case
  proof (cases "bs = []")
    case True
    then have "(of_nat k + 1 :: u8) = 10" using index_in_range [OF k] Cons.prems(1) by simp
    then show ?thesis unfolding 2(4) using 2(1-3) Cons.prems(3) True by (simp add: Let_def)
  next
    case False
    then have "(of_nat k + 1 :: u8) \<noteq> 10" using index_in_range [OF k] Cons.prems(1) by (cases bs) auto
    moreover have "\<exists>s' r b'. pp_var_int_loop ops s2 (result + push_bit (unat shift) (ucast (b AND 0x7f))) b (shift + 7) (of_nat (Suc k)) =
        Inr (s', r, b', 10) \<and> b' AND 0x80 \<noteq> 0 \<and> pp_ok ok rem s' \<and> pp_rem rem s' = rest \<and> quiet (pp_policies s2) (pp_policies s')"
      using Cons.prems(1,3) False 2(1,2) by (intro Cons.IH) auto
    ultimately show ?thesis unfolding 2(4) Let_def using quiet_trans [OF 2(3)] by (simp add: add.commute) blast
  qed
qed simp

lemma truncated_loop:
  assumes "length bs + k < 10" and "\<forall>b\<in>set bs. b AND 0x80 \<noteq> 0" and "pp_ok ok rem s" and "pp_rem rem s = bs"
  shows "if mode (ps_input (pp_policies s)) = Assertion then pp_var_int_loop ops s result byte shift (of_nat k) = Inl Assert_failed
    else \<exists>s' r. pp_var_int_loop ops s result byte shift (of_nat k) = Inr (s', r) \<and> pp_rem rem s' = [] \<and> failed (ps_input (pp_policies s'))"
  using assms
proof (induction bs arbitrary: k s result byte shift)
  case Nil
  show ?case
  proof (cases "mode (ps_input (pp_policies s)) = Assertion")
    case True
    then show ?thesis using read_at_end(1) [OF Nil.prems(3,4) True] by (subst pp_var_int_loop.simps) simp
  next
    case False
    obtain s1 where 1: "pp_read ops s [byte] = Inr (s1, [byte])" "pp_rem rem s1 = []" "failed (ps_input (pp_policies s1))"
      using read_at_end(2) [OF Nil.prems(3,4) False] by blast
    obtain f ps where e: "input_failed (pp_policies s1) = (f, ps)" by (cases "input_failed (pp_policies s1)")
    then have "f" "failed (ps_input ps)" using quiet_checked [of "pp_policies s1"] 1(3) by (simp_all add: quiet_def)
    then show ?thesis using False 1(1,2) e by (subst pp_var_int_loop.simps) (simp add: pp_input_failed_def Let_def pp_rem_def)
  qed
next
  case (Cons b bs)
  obtain s2 where 2: "pp_ok ok rem s2" "pp_rem rem s2 = bs" "quiet (pp_policies s) (pp_policies s2)"
    "\<And>result byte shift index. pp_var_int_loop ops s result byte shift index =
       (let result1 = result + push_bit (unat shift) (ucast (b AND 0x7f))
        in if index + 1 \<noteq> 10 then pp_var_int_loop ops s2 result1 b (shift + 7) (index + 1) else Inr (s2, result1, b, index + 1))"
    using loop_step [OF Cons.prems(3,4)] Cons.prems(2) by auto
  have i: "(of_nat k + 1 :: u8) \<noteq> 10" using index_in_range [of k] Cons.prems(1) by auto
  have step: "pp_var_int_loop ops s result byte shift (of_nat k) =
      pp_var_int_loop ops s2 (result + push_bit (unat shift) (ucast (b AND 0x7f))) b (shift + 7) (of_nat (Suc k))"
    unfolding 2(4) [of result byte shift "of_nat k"] Let_def using i by (simp add: add.commute)
  have "if mode (ps_input (pp_policies s2)) = Assertion
      then pp_var_int_loop ops s2 (result + push_bit (unat shift) (ucast (b AND 0x7f))) b (shift + 7) (of_nat (Suc k)) = Inl Assert_failed
      else \<exists>s' r. pp_var_int_loop ops s2 (result + push_bit (unat shift) (ucast (b AND 0x7f))) b (shift + 7) (of_nat (Suc k)) = Inr (s', r) \<and>
        pp_rem rem s' = [] \<and> failed (ps_input (pp_policies s'))"
    using Cons.prems(1,2) 2(1,2) by (intro Cons.IH) auto
  moreover have "mode (ps_input (pp_policies s2)) = mode (ps_input (pp_policies s))" using 2(3) by (simp add: quiet_def)
  ultimately show ?case unfolding step by simp
qed

lemma overlong_var_int:
  assumes "length bs = 10" and "\<forall>b\<in>set bs. b AND 0x80 \<noteq> 0" and "pp_ok ok rem s" and "pp_rem rem s = bs @ rest"
  shows "\<exists>s' v. pp_get_var_int ops s = Inr (s', v) \<and> pp_ok ok rem s' \<and> pp_rem rem s' = rest \<and> quiet (pp_policies s) (pp_policies s')"
proof -
  obtain s1 r b where 1: "pp_var_int_loop ops s 0 0 0 0 = Inr (s1, r, b, 10)" "b AND 0x80 \<noteq> 0" "pp_ok ok rem s1" "pp_rem rem s1 = rest"
      "quiet (pp_policies s) (pp_policies s1)"
    using overlong_loop [OF _ _ assms(2-4), of 0 0 0 0] assms(1) by fastforce
  obtain s2 where 2: "pp_input_failed s1 = (False, s2)" "pp_ok ok rem s2" "pp_rem rem s2 = pp_rem rem s1" "quiet (pp_policies s1) (pp_policies s2)"
    using pp_input_failed_ok [OF 1(3)] .
  let ?s = "s2\<lparr>pp_policies := snd (format_failed (pp_policies s2))\<rparr>"
  have q: "quiet (pp_policies s2) (pp_policies ?s)" using quiet_format_failed by simp
  have "pp_get_var_int ops s = Inr (?s, r)" using 1(1,2) 2(1) by (simp add: pp_get_var_int_def)
  moreover have "pp_ok ok rem ?s" using 2(2) q by (simp add: pp_ok_def quiet_def)
  moreover have "pp_rem rem ?s = rest" using 1(4) 2(3) by (simp add: pp_rem_def)
  ultimately show ?thesis using quiet_trans [OF 1(5) quiet_trans [OF 2(4) q]] by blast
qed

lemma truncated_var_int:
  assumes "length bs < 10" and "\<forall>b\<in>set bs. b AND 0x80 \<noteq> 0" and "pp_ok ok rem s" and "pp_rem rem s = bs"
  shows "if mode (ps_input (pp_policies s)) = Assertion then pp_get_var_int ops s = Inl Assert_failed
    else \<exists>s' v. pp_get_var_int ops s = Inr (s', v) \<and> pp_rem rem s' = [] \<and> failed (ps_input (pp_policies s'))"
proof (cases "mode (ps_input (pp_policies s)) = Assertion")
  case True
  then show ?thesis using truncated_loop [OF _ assms(2-4), of 0 0 0 0] assms(1) by (simp add: pp_get_var_int_def)
next
  case False
  then obtain s1 r b i where 1: "pp_var_int_loop ops s 0 0 0 0 = Inr (s1, r, b, i)" "pp_rem rem s1 = []" "failed (ps_input (pp_policies s1))"
    using truncated_loop [OF _ assms(2-4), of 0 0 0 0] assms(1) by (auto split: if_splits)
  obtain f ps where e: "input_failed (pp_policies s1) = (f, ps)" by (cases "input_failed (pp_policies s1)")
  then have "f" "failed (ps_input ps)" using quiet_checked [of "pp_policies s1"] 1(3) by (simp_all add: quiet_def)
  then show ?thesis using False 1 e by (simp add: pp_get_var_int_def pp_input_failed_def pp_rem_def)
qed

end

end
