(* ===== verification/Proto_Message.thy ===== *)
theory Proto_Message
  imports Proto_Formatter Proto_Parser
begin

text \<open>
  The properties of ProtoFormatter and ProtoParser together: what one writes the other reads, over
  the vector streams of the library, and what the parser makes of malformed input.
\<close>

lemma policy_no_fail: "\<not> failed assert_policy" "\<not> failed soft_fail" "mode soft_fail = Soft"
  by (simp_all add: assert_policy_def soft_fail_def)

context reader
begin

lemma pp_news:
  assumes "ok r" and "length (rem r) < 2 ^ 32" and "\<not> failed p"
  shows "pp_ok ok rem (pp_new ops r p)" and "pp_rem rem (pp_new ops r p) = rem r"
    and "mode (ps_input (pp_policies (pp_new ops r p))) = mode p" and "ps_format (pp_policies (pp_new ops r p)) = None"
  using assms by (simp_all add: pp_new_def pp_new_with_policy_def pp_ok_def lim_ok_def pp_rem_def lim_rem_def lim_new_def available)

lemma skip_field:
  assumes "field_ok (Delimited bs, n)" and "pp_ok ok rem s" and "pp_rem rem s = field_bytes (Delimited bs, n) @ rest"
  shows "\<exists>s1 d d1. pp_get_field ops s = Inr (s1, Field_delimited d, n) \<and>
    pld_skip_everything (length bs) (limited_reader ops) d = Inr d1 \<and>
    pp_ok ok rem (pp_close d1) \<and> pp_rem rem (pp_close d1) = rest"
proof -
  obtain d where d: "pp_get_field ops s = Inr (pp_close d, Field_delimited d, n)" "pld_ok (lim_ok ok rem) (lim_rem rem) d"
      "lim_rem (lim_rem rem) (pld_limitedReader d) = bs" "lim_rem rem (lim_input (pld_limitedReader d)) = bs @ rest"
    using get_field_delimited [OF assms] by metis
  obtain d1 where "pld_skip_everything (length bs) (limited_reader ops) d = Inr d1" "pld_ok (lim_ok ok rem) (lim_rem rem) d1"
      "lim_rem rem (lim_input (pld_limitedReader d1)) = rest"
    using reader.skip_everything [OF limited d(2,3,4), of "length bs"] by auto
  then show ?thesis using d(1) by (auto simp: pp_close_def pp_ok_def pp_rem_def pld_ok_def lim_ok_def)
qed

end

lemma vec_room: "vec_inv v \<Longrightarrow> vw_available v + vec_size v = vec_max_size v"
  by (simp add: vw_available_def vec_inv_def vec_size_def)

text \<open>C3: Fields written with ProtoFormatter are the fields ProtoParser reads: any sequence of
  fields of the four wire types, with numbers below 2^29 and values of any size the vector has
  room for, is read back in order with its numbers and values by a parser over the vector, which is
  then empty and has reported no failure.\<close>

theorem proto_message_roundtrip:
  assumes "list_all field_ok fs" and "vec_inv v" and "vec_size v = 0" and "vec_max_size v < 2 ^ 32"
    and "length (concat (map field_bytes fs)) \<le> vec_max_size v" and "\<not> failed q"
  shows "\<exists>v' p' s'. put_fields vector_writer fs (v, p) = Inr (v', p') \<and> failed p' = failed p \<and>
    fetch_fields (length fs) vector_reader (pp_new vector_reader (vr_new v') q) = Inr (s', map (apfst seen_as) fs) \<and>
    pp_empty vector_reader s' \<and> \<not> failed (ps_input (pp_policies s'))"
proof -
  let ?bytes = "concat (map field_bytes fs)"
  have room: "length ?bytes \<le> vw_available v" using assms(2,3,5) vec_room by fastforce
  from vw.put_fields_writes [OF assms(1)] assms(2) obtain v' p' where
    w: "put_fields vector_writer fs (v, p) = Inr (v', p')" "vec_inv v'" "vec_range v' = vec_range v @ ?bytes" "failed p' = failed p"
    by (cases rule: writesE [where p = p, consumes 2]) (use room in auto)
  have "vec_range v = []" using assms(3) by (metis length_0_conv length_vec_range)
  then have range: "vec_range v' = ?bytes" using w(3) by simp
  let ?r = "vr_new v'" and ?rem = "\<lambda>r. drop (vr_offset r) (vr_bytes r)"
  have "vr_ok ?r" "?rem ?r = ?bytes" by (simp_all add: vr_new_def vr_ok_def vr_bytes_def range del: vr_range)
  moreover have "length ?bytes < 2 ^ 32" using assms(4,5) by simp
  ultimately have "pp_ok vr_ok ?rem (pp_new vector_reader ?r q)" "pp_rem ?rem (pp_new vector_reader ?r q) = ?bytes"
    using vr.pp_news [of ?r q] assms(6) by simp_all
  from vr.fetch_fields_reads [OF assms(1) this order_refl] obtain s' where
    "fetch_fields (length fs) vector_reader (pp_new vector_reader ?r q) = Inr (s', map (apfst seen_as) fs)"
    "pp_ok vr_ok ?rem s'" "pp_rem ?rem s' = []"
    by blast
  then show ?thesis using w(1,4) vr.pp_empties [of s'] by (auto simp: pp_ok_def)
qed

theorem proto_message_roundtrip_witness:
  "\<exists>v' p' s'. put_fields vector_writer [(Varint 300, 1), (Delimited [7, 8], 2), (Fixed32 5, 3)] (vec_new (replicate 16 0), assert_policy) = Inr (v', p') \<and>
    fetch_fields 3 vector_reader (pp_new vector_reader (vr_new v') soft_fail) =
      Inr (s', [(Field_uint64 300, 1), (Field_delimited [7, 8], 2), (Field_uint32 5, 3)])"
proof -
  let ?fs = "[(Varint 300, 1), (Delimited [7, 8], 2), (Fixed32 5, 3)] :: proto_field list" and ?v = "vec_new (replicate 16 (0 :: byte))"
  have "list_all field_ok ?fs" by (simp add: field_ok_def)
  moreover have "length (concat (map field_bytes ?fs)) \<le> vec_max_size ?v"
    by (simp add: field_bytes_def tag_bytes_def varint_large)
  moreover have "vec_size ?v = 0" by (simp add: vec_size_def vec_new_def)
  moreover have "vec_max_size ?v < 2 ^ 32" "length ?fs = 3"
    "map (apfst seen_as) ?fs = [(Field_uint64 300, 1), (Field_delimited [7, 8], 2), (Field_uint32 5, 3)]" by simp_all
  ultimately show ?thesis
    using proto_message_roundtrip [of ?fs ?v soft_fail assert_policy] vec_inv_new(1) policy_no_fail(2) by metis
qed

text \<open>Fields are written in full when there is room for them; otherwise the bytes there is room for
  are written and the failure is reported to the stream's policy, which asserts when it was not told
  to fail softly. Here the bytes go to a deque.\<close>

lemma proto_fields_written:
  assumes "list_all field_ok fs" and "dq_inv d"
  shows "if dw_available d < length (concat (map field_bytes fs)) \<and> mode p = Assertion
    then put_fields deque_writer fs (d, p) = Inl Assert_failed
    else \<exists>d' p'. put_fields deque_writer fs (d, p) = Inr (d', p') \<and> dq_inv d' \<and>
      dq_elems d' = dq_elems d @ take (dw_available d) (concat (map field_bytes fs)) \<and>
      failed p' = (failed p \<or> dw_available d < length (concat (map field_bytes fs)))"
  using dw.put_fields_writes [OF assms(1)] assms(2) unfolding writes_def by (metis (no_types, lifting))

lemma proto_fields_written_witness:
  "put_fields deque_writer [(Varint 300, 1)] (dq_new [0, 0], assert_policy) = Inl Assert_failed"
proof -
  have "list_all field_ok [(Varint 300, 1)]" "dq_inv (dq_new [0, 0 :: byte])" "mode assert_policy = Assertion"
    "dw_available (dq_new [0, 0 :: byte]) = 2" "length (concat (map field_bytes [(Varint 300, 1)])) = 3"
    by (simp_all add: field_ok_def dq_defs dq_new_def dw_available_def assert_policy_def field_bytes_def tag_bytes_def varint_large)
  then show ?thesis using proto_fields_written [of "[(Varint 300, 1)]" "dq_new [0, 0]" assert_policy] by simp
qed

text \<open>A field that is not wanted is passed over by SkipEverything: after it the parser stands at
  the field that follows, whatever that is, and the loop ends after no more rounds than the value
  has bytes. Here the parser reads a deque, which gives its bytes in two pieces.\<close>

lemma proto_skip_field:
  assumes "field_ok (Delimited bs, n)" and "dr_ok r" and "drop (dr_offset r) (dr_bytes r) = field_bytes (Delimited bs, n) @ rest"
    and "length (dr_bytes r) < 2 ^ 32" and "\<not> failed p"
  shows "\<exists>s1 d d1. pp_get_field deque_reader (pp_new deque_reader r p) = Inr (s1, Field_delimited d, n) \<and>
    pld_skip_everything (length bs) (limited_reader deque_reader) d = Inr d1 \<and>
    pp_rem (\<lambda>r. drop (dr_offset r) (dr_bytes r)) (pp_close d1) = rest \<and> pp_empty deque_reader (pp_close d1) = (rest = [])"
proof -
  have "length (drop (dr_offset r) (dr_bytes r)) < 2 ^ 32" using assms(4) by auto
  note new = dr.pp_news [OF assms(2) this assms(5)]
  show ?thesis using dr.skip_field [OF assms(1) new(1)] new(2) assms(3) dr.pp_empties by fastforce
qed

lemma proto_skip_field_witness:
  "\<exists>s1 d d1. pp_get_field deque_reader
      (pp_new deque_reader (dr_new \<lparr>dq_storage = [9, 10, 1], dq_numAllocated = 3, dq_start = 1\<rparr>) soft_fail) = Inr (s1, Field_delimited d, 1) \<and>
    pld_skip_everything 1 (limited_reader deque_reader) d = Inr d1 \<and> pp_empty deque_reader (pp_close d1)"
proof -
  let ?q = "\<lparr>dq_storage = [9, 10, 1 :: byte], dq_numAllocated = 3, dq_start = 1\<rparr>"
  have "dq_elems ?q = [10, 1, 9]" by (simp add: dq_elems_def view_def dq_defs dq_get_def dq_index_def upt_rec)
  then have "dr_ok (dr_new ?q)" "drop (dr_offset (dr_new ?q)) (dr_bytes (dr_new ?q)) = field_bytes (Delimited [9], 1) @ []"
    "length (dr_bytes (dr_new ?q)) < 2 ^ 32" "field_ok (Delimited [9], 1)"
    by (simp_all add: dr_ok_def dr_new_def dr_bytes_def dq_defs field_bytes_def tag_bytes_def field_ok_def)
  from proto_skip_field [OF this(4,1,2,3) policy_no_fail(2)] show ?thesis by (auto simp del: pld_skip_everything.simps)
qed

text \<open>A variable-length integer of more than ten bytes is malformed, and nothing reports it:
  GetVarInt calls Failed(), which asks, where it should report; the parser goes on after ten bytes
  with the value they happen to give, and no policy has failed.\<close>

lemma overlong_var_int_accepted:
  assumes "br_ok r" and "length (br_range r) < 2 ^ 32" and "\<not> failed p"
    and "drop (br_offset r) (br_range r) = bs @ rest" and "length bs = 10" and "\<forall>b\<in>set bs. 128 \<le> unat b"
  shows "\<exists>s v. pp_get_var_int byte_reader (pp_new byte_reader r p) = Inr (s, v) \<and>
    \<not> failed (ps_input (pp_policies s)) \<and> ps_format (pp_policies s) = None \<and>
    pp_rem (\<lambda>r. drop (br_offset r) (br_range r)) s = rest"
proof -
  have "length (drop (br_offset r) (br_range r)) < 2 ^ 32" using assms(2) by auto
  note new = br.pp_news [OF assms(1) this assms(3)]
  have bs: "\<forall>b\<in>set bs. b AND 0x80 \<noteq> 0" using assms(6) byte_continues by blast
  have r: "pp_rem (\<lambda>r. drop (br_offset r) (br_range r)) (pp_new byte_reader r p) = bs @ rest" using new(2) assms(4) by simp
  from br.overlong_var_int [OF assms(5) bs new(1) r] obtain s v where
    "pp_get_var_int byte_reader (pp_new byte_reader r p) = Inr (s, v)" "pp_ok br_ok (\<lambda>r. drop (br_offset r) (br_range r)) s"
    "pp_rem (\<lambda>r. drop (br_offset r) (br_range r)) s = rest" "quiet (pp_policies (pp_new byte_reader r p)) (pp_policies s)"
    by blast
  then show ?thesis using new(4) by (auto simp: pp_ok_def quiet_def)
qed

lemma overlong_var_int_accepted_witness:
  "\<exists>s v. pp_get_var_int byte_reader (pp_new byte_reader (br_new (replicate 11 0xFF)) soft_fail) = Inr (s, v) \<and>
    \<not> failed (ps_input (pp_policies s)) \<and> ps_format (pp_policies s) = None"
proof -
  have "drop (br_offset (br_new (replicate 11 (0xFF :: byte)))) (br_range (br_new (replicate 11 0xFF))) = replicate 10 0xFF @ [0xFF]"
    by (simp add: br_new_def numeral_eq_Suc)
  then show ?thesis
    using overlong_var_int_accepted [of "br_new (replicate 11 0xFF)" soft_fail "replicate 10 0xFF" "[0xFF]"] policy_no_fail(2)
    by (auto simp: br_new_def br_ok_def)
qed

text \<open>A message that ends inside a variable-length integer is reported: with a soft policy the
  parser's stream has failed, with the default policy the program asserts, and the loop ends.\<close>

lemma truncated_var_int_reported:
  assumes "br_ok r" and "\<not> failed p" and "length (br_range r) < 2 ^ 32"
    and "drop (br_offset r) (br_range r) = bs" and "length bs < 10" and "\<forall>b\<in>set bs. 128 \<le> unat b"
  shows "if mode p = Assertion then pp_get_var_int byte_reader (pp_new byte_reader r p) = Inl Assert_failed
    else \<exists>s v. pp_get_var_int byte_reader (pp_new byte_reader r p) = Inr (s, v) \<and> failed (ps_input (pp_policies s))"
proof -
  have "length (drop (br_offset r) (br_range r)) < 2 ^ 32" using assms(3) by auto
  note new = br.pp_news [OF assms(1) this assms(2)]
  have bs: "\<forall>b\<in>set bs. b AND 0x80 \<noteq> 0" using assms(6) byte_continues by blast
  show ?thesis using br.truncated_var_int [OF assms(5) bs new(1)] new(2,3) assms(4) by (auto split: if_splits)
qed

lemma truncated_var_int_reported_witness:
  "pp_get_var_int byte_reader (pp_new byte_reader (br_new [0xFF, 0x80]) assert_policy) = Inl Assert_failed"
  using truncated_var_int_reported [of "br_new [0xFF, 0x80]" assert_policy "[0xFF, 0x80]"] policy_no_fail
  by (simp add: br_new_def br_ok_def assert_policy_def)

end
