(* ===== verification/Sesame_Windowed.thy ===== *)
theory Sesame_Windowed
  imports Proto_Wire
begin

text \<open>
  \<open>services::SesameWindowed\<close> (services/sesame/SesameWindowed.cpp): flow control over a channel that
  sends one message at a time. Each side tells the other how large its buffer is (init and
  initResponse), counts down what it sends, and gets back what the other has released
  (releaseWindow). The handlers are functions on the state that return the calls the component
  makes. What the lower layer says a message of a size takes when encoded, \<open>MessageSize\<close>, is the
  argument \<open>ms\<close>. A handler that calls the observer ends its first part there, because the observer
  may call back before the handler goes on to \<open>SetNextState\<close>.
\<close>

datatype win_state = Sending_init | Sending_init_response | Operational | Sending_message nat | Sending_release_window

record windowed =
  win_ownBufferSize :: u16
  win_releaseWindowSize :: u16
  win_initialized :: bool
  win_receivedMessageReader :: "byte list option"
  win_readerAction :: "u16 option"
  win_otherAvailableWindow :: u16
  win_maxUsableBufferSize :: u16
  win_releasedWindow :: u16
  win_sendInitResponse :: bool
  win_sending :: bool
  win_requestedSendMessageSize :: "nat option"
  win_state :: win_state

text \<open>Calls to the lower layer and to the observer.\<close>

datatype win_call = Request_send nat | Call_initialized | Call_received "byte list" | Call_stream_available

section \<open>Packets\<close>

definition le16 :: "u16 \<Rightarrow> byte list" where
  "le16 w = le_bytes 2 (unat w)"

definition packet_init :: "u16 \<Rightarrow> byte list" where
  "packet_init window = 1 # le16 window"

definition packet_init_response :: "u16 \<Rightarrow> byte list" where
  "packet_init_response window = 2 # le16 window"

definition packet_release_window :: "u16 \<Rightarrow> byte list" where
  "packet_release_window window = 3 # le16 window"

text \<open>Extracting from a stream that does not report failures: what is missing is zero.\<close>

definition extract_operation :: "byte list \<Rightarrow> byte" where
  "extract_operation bytes = (if bytes = [] then 0 else hd bytes)"

definition extract_u16 :: "byte list \<Rightarrow> u16" where
  "extract_u16 bytes = of_nat (le_value (take 2 bytes))"

section \<open>Sending\<close>

text \<open>Entering a sending state requests the stream for its message.\<close>

definition win_send :: "win_state \<Rightarrow> nat \<Rightarrow> windowed \<Rightarrow> windowed \<times> win_call list" where
  "win_send st n s = (s\<lparr>win_state := st, win_sending := True\<rparr>, [Request_send n])"

definition enter_sending_init :: "windowed \<Rightarrow> windowed \<times> win_call list" where
  [simp]: "enter_sending_init s = win_send Sending_init 3 s"

definition enter_sending_init_response :: "windowed \<Rightarrow> windowed \<times> win_call list" where
  [simp]: "enter_sending_init_response s = win_send Sending_init_response 3 s"

definition enter_sending_message :: "nat \<Rightarrow> windowed \<Rightarrow> windowed \<times> win_call list" where
  [simp]: "enter_sending_message requested s = win_send (Sending_message (requested + 1)) (requested + 1) s"

definition enter_sending_release_window :: "windowed \<Rightarrow> windowed \<times> win_call list" where
  [simp]: "enter_sending_release_window s = win_send Sending_release_window 3 s"

definition enter_operational :: "windowed \<Rightarrow> windowed \<times> win_call list" where
  [simp]: "enter_operational s = (s\<lparr>win_state := Operational\<rparr>, [])"

definition win_set_next_state :: "(nat \<Rightarrow> nat) \<Rightarrow> windowed \<Rightarrow> windowed \<times> win_call list" where
  "win_set_next_state ms s =
     (if \<not> win_sending s \<and> win_initialized s
      then if win_sendInitResponse s
           then if win_receivedMessageReader s = None then enter_sending_init_response s else (s, [])
           else case win_requestedSendMessageSize s of
                  Some n \<Rightarrow>
                    if ms (n + 1) + unat (win_releaseWindowSize s) \<le> unat (win_otherAvailableWindow s)
                    then enter_sending_message n s
                    else if win_releasedWindow s > win_releaseWindowSize s \<and> win_releaseWindowSize s \<le> win_otherAvailableWindow s
                    then enter_sending_release_window s
                    else enter_operational s
                | None \<Rightarrow>
                    if win_releasedWindow s > win_releaseWindowSize s \<and> win_releaseWindowSize s \<le> win_otherAvailableWindow s
                    then enter_sending_release_window s
                    else enter_operational s
      else (s, []))"

definition win_new :: "(nat \<Rightarrow> nat) \<Rightarrow> nat \<Rightarrow> windowed \<times> win_call list" where
  "win_new ms maxSendMessageSize = enter_sending_init
     \<lparr>win_ownBufferSize = of_nat maxSendMessageSize, win_releaseWindowSize = of_nat (ms 3), win_initialized = False,
      win_receivedMessageReader = None, win_readerAction = None, win_otherAvailableWindow = 0, win_maxUsableBufferSize = 0,
      win_releasedWindow = 0, win_sendInitResponse = False, win_sending = False, win_requestedSendMessageSize = None,
      win_state = Sending_init\<rparr>"

definition win_stop :: "windowed \<Rightarrow> windowed" where
  "win_stop s = s\<lparr>win_readerAction := None\<rparr>"

definition win_max_send_message_size :: "(nat \<Rightarrow> nat) \<Rightarrow> windowed \<Rightarrow> nat result" where
  "win_max_send_message_size ms s = really_assert (win_initialized s)
     (Inr (unat ((ucast (min (win_ownBufferSize s) (win_maxUsableBufferSize s)) - 1 - ucast (win_releaseWindowSize s) - of_nat (ms 1) :: u32) div 2)))"

definition win_reset :: "windowed \<Rightarrow> (windowed \<times> win_call list) result" where
  "win_reset s = really_assert (win_receivedMessageReader s = None)
     (Inr (enter_sending_init (s\<lparr>win_initialized := False, win_otherAvailableWindow := 0, win_maxUsableBufferSize := 0,
        win_releasedWindow := 0, win_sendInitResponse := False, win_requestedSendMessageSize := None\<rparr>)))"

definition request_when_busy :: "windowed \<Rightarrow> nat \<Rightarrow> windowed" where
  [simp]: "request_when_busy s n = s\<lparr>win_requestedSendMessageSize := Some n\<rparr>"

definition request_when_operational :: "(nat \<Rightarrow> nat) \<Rightarrow> windowed \<Rightarrow> nat \<Rightarrow> windowed \<times> win_call list" where
  [simp]: "request_when_operational ms s n = win_set_next_state ms (s\<lparr>win_requestedSendMessageSize := Some n\<rparr>)"

definition win_request_send_message :: "(nat \<Rightarrow> nat) \<Rightarrow> windowed \<Rightarrow> nat \<Rightarrow> windowed \<times> win_call list" where
  "win_request_send_message ms s n =
     (if win_state s = Operational then request_when_operational ms s n else (request_when_busy s n, []))"

text \<open>The stream for the message is available: the bytes the component writes itself. For a user's
  message the observer writes the rest.\<close>

definition stream_for_init :: "windowed \<Rightarrow> windowed \<times> byte list \<times> win_call list" where
  [simp]: "stream_for_init s = (s, packet_init (win_ownBufferSize s), [])"

definition stream_for_init_response :: "windowed \<Rightarrow> windowed \<times> byte list \<times> win_call list" where
  [simp]: "stream_for_init_response s =
     (s\<lparr>win_releasedWindow := 0, win_sendInitResponse := False\<rparr>, packet_init_response (win_ownBufferSize s), [])"

definition stream_for_message :: "windowed \<Rightarrow> windowed \<times> byte list \<times> win_call list" where
  [simp]: "stream_for_message s = (s\<lparr>win_requestedSendMessageSize := None\<rparr>, [4], [Call_stream_available])"

definition stream_for_release_window :: "windowed \<Rightarrow> windowed \<times> byte list \<times> win_call list" where
  [simp]: "stream_for_release_window s = (s\<lparr>win_releasedWindow := 0\<rparr>, packet_release_window (win_releasedWindow s), [])"

definition win_send_message_stream_available :: "windowed \<Rightarrow> (windowed \<times> byte list \<times> win_call list) result" where
  "win_send_message_stream_available s = (case win_state s of
     Sending_init \<Rightarrow> Inr (stream_for_init s)
   | Sending_init_response \<Rightarrow> Inr (stream_for_init_response s)
   | Operational \<Rightarrow> Inl Assert_failed
   | Sending_message _ \<Rightarrow> Inr (stream_for_message s)
   | Sending_release_window \<Rightarrow> Inr (stream_for_release_window s))"

definition sent_init :: "(nat \<Rightarrow> nat) \<Rightarrow> windowed \<Rightarrow> windowed \<times> win_call list" where
  [simp]: "sent_init ms s = win_set_next_state ms (s\<lparr>win_sending := False\<rparr>)"

definition sent_message :: "(nat \<Rightarrow> nat) \<Rightarrow> windowed \<Rightarrow> nat \<Rightarrow> windowed \<times> win_call list" where
  [simp]: "sent_message ms s encodedSize = win_set_next_state ms
     (s\<lparr>win_otherAvailableWindow := win_otherAvailableWindow s - of_nat encodedSize, win_sending := False\<rparr>)"

definition sent_other :: "(nat \<Rightarrow> nat) \<Rightarrow> windowed \<Rightarrow> nat \<Rightarrow> windowed \<times> win_call list" where
  [simp]: "sent_other ms s encodedSize = win_set_next_state ms
     (s\<lparr>win_otherAvailableWindow := win_otherAvailableWindow s - of_nat encodedSize, win_sending := False\<rparr>)"

definition win_message_sent :: "(nat \<Rightarrow> nat) \<Rightarrow> windowed \<Rightarrow> nat \<Rightarrow> windowed \<times> win_call list" where
  "win_message_sent ms s encodedSize = (case win_state s of
     Sending_init \<Rightarrow> sent_init ms s
   | Sending_message _ \<Rightarrow> sent_message ms s encodedSize
   | _ \<Rightarrow> sent_other ms s encodedSize)"

text \<open>The buffer that a message of a size needs: twice its encoded size and room for a release.\<close>

definition buffer_size_for_message :: "(nat \<Rightarrow> nat) \<Rightarrow> nat \<Rightarrow> nat" where
  "buffer_size_for_message ms maxMessageSize = ms (1 + maxMessageSize) * 2 + ms 3"

section \<open>Receiving\<close>

definition win_received_initialize :: "windowed \<Rightarrow> windowed \<times> win_call list" where
  "win_received_initialize s =
     (s\<lparr>win_maxUsableBufferSize := win_otherAvailableWindow s, win_initialized := True\<rparr>, [Call_initialized])"

definition win_forward_received_message :: "windowed \<Rightarrow> u16 \<Rightarrow> byte list \<Rightarrow> windowed \<times> win_call list" where
  "win_forward_received_message s encodedSize contents =
     (s\<lparr>win_receivedMessageReader := Some contents, win_readerAction := Some encodedSize\<rparr>, [Call_received contents])"

definition win_received :: "windowed \<Rightarrow> byte list \<Rightarrow> nat \<Rightarrow> windowed \<times> win_call list" where
  "win_received s bytes encodedSize =
     (let operation = extract_operation bytes; contents = tl bytes
      in if operation = 1
         then win_received_initialize (s\<lparr>win_otherAvailableWindow := extract_u16 contents, win_sendInitResponse := True\<rparr>)
         else if operation = 2
         then win_received_initialize (s\<lparr>win_otherAvailableWindow := extract_u16 contents, win_releasedWindow := of_nat encodedSize\<rparr>)
         else if operation = 3 \<and> win_initialized s
         then (s\<lparr>win_releasedWindow := win_releasedWindow s + of_nat encodedSize,
                 win_otherAvailableWindow := win_otherAvailableWindow s + extract_u16 contents\<rparr>, [])
         else if operation = 4 \<and> win_initialized s
         then win_forward_received_message s (of_nat encodedSize) contents
         else (s, []))"

text \<open>The observer lets go of the message.\<close>

definition win_reader_released :: "(nat \<Rightarrow> nat) \<Rightarrow> windowed \<Rightarrow> windowed \<times> win_call list" where
  "win_reader_released ms s = (case win_readerAction s of
     None \<Rightarrow> (s, [])
   | Some encodedSize \<Rightarrow> win_set_next_state ms
       (s\<lparr>win_releasedWindow := win_releasedWindow s + encodedSize, win_receivedMessageReader := None\<rparr>))"

lemma extract_packet:
  "extract_operation (packet_init w) = 1" "tl (packet_init w) = le16 w"
  "extract_operation (packet_init_response w) = 2" "tl (packet_init_response w) = le16 w"
  "extract_operation (packet_release_window w) = 3" "tl (packet_release_window w) = le16 w"
  by (simp_all add: packet_init_def packet_init_response_def packet_release_window_def extract_operation_def)

lemma extract_le16 [simp]: "extract_u16 (le16 w) = w"
proof -
  have "unat w mod 256 ^ 2 = unat w" using unat_u16_less [of w] by simp
  then show ?thesis by (simp add: extract_u16_def le16_def le_value_bytes)
qed

end
