(* ===== verification/Sesame_Network.thy ===== *)
theory Sesame_Network
  imports Sesame_Windowed
begin

text \<open>
  Two SesameWindowed components connected by channels that neither lose nor reorder messages, as
  SesameCobs over a serial line gives. A step is one call into a component: by its lower layer (the
  stream is available, the message was sent, a message was received), by its client (a request, the
  message is let go) or the end of a handler after the observer was called. The lower layer delivers
  no message while the previous one is held, and the size that it says a message took when encoded
  is the same at both ends.
\<close>

section \<open>The steps\<close>

text \<open>\<open>pr_requested\<close>: the lower layer was asked for a stream; \<open>pr_written\<close>: the encoded size of a
  message that was written and not yet reported sent; \<open>pr_inside\<close>: a handler called the observer and
  has still to go on to \<open>SetNextState\<close>.\<close>

record peer =
  pr_node :: windowed
  pr_requested :: bool
  pr_written :: "nat option"
  pr_inside :: bool

record network =
  nt_peer :: "bool \<Rightarrow> peer"
  nt_channel :: "bool \<Rightarrow> (byte list \<times> nat) list"

definition asks :: "win_call list \<Rightarrow> bool" where
  "asks calls \<longleftrightarrow> (\<exists>n. Request_send n \<in> set calls)"

definition pr_do :: "windowed \<times> win_call list \<Rightarrow> peer \<Rightarrow> peer" where
  "pr_do r p = p\<lparr>pr_node := fst r, pr_requested := pr_requested p \<or> asks (snd r)\<rparr>"

definition nt_put :: "network \<Rightarrow> bool \<Rightarrow> peer \<Rightarrow> network" where
  "nt_put n i p = n\<lparr>nt_peer := (nt_peer n)(i := p)\<rparr>"

definition payload_fits :: "win_state \<Rightarrow> byte list \<Rightarrow> bool" where
  "payload_fits st payload \<longleftrightarrow> (case st of Sending_message k \<Rightarrow> length payload < k | _ \<Rightarrow> payload = [])"

text \<open>The very first message of a line has one more delimiter.\<close>

definition encoded_ok :: "(nat \<Rightarrow> nat) \<Rightarrow> win_state \<Rightarrow> byte list \<Rightarrow> nat \<Rightarrow> bool" where
  "encoded_ok ms st bytes e \<longleftrightarrow> e \<le> ms (length bytes) + (if st = Sending_init then 1 else 0)"

inductive win_step :: "(nat \<Rightarrow> nat) \<Rightarrow> network \<Rightarrow> network \<Rightarrow> bool" for ms where
  stream: "\<lbrakk>p = nt_peer n i; pr_requested p; win_send_message_stream_available (pr_node p) = Inr (s, header, calls);
      payload_fits (win_state (pr_node p)) payload; encoded_ok ms (win_state (pr_node p)) (header @ payload) e\<rbrakk> \<Longrightarrow>
    win_step ms n ((nt_put n i (p\<lparr>pr_node := s, pr_requested := False, pr_written := Some e\<rparr>))
      \<lparr>nt_channel := (nt_channel n)(i := nt_channel n i @ [(header @ payload, e)])\<rparr>)"
| sent: "\<lbrakk>p = nt_peer n i; \<not> pr_inside p; pr_written p = Some e\<rbrakk> \<Longrightarrow>
    win_step ms n (nt_put n i (pr_do (win_message_sent ms (pr_node p) e) (p\<lparr>pr_written := None\<rparr>)))"
| receive: "\<lbrakk>p = nt_peer n i; \<not> pr_inside p; win_receivedMessageReader (pr_node p) = None; nt_channel n (\<not> i) = (bytes, e) # rest\<rbrakk> \<Longrightarrow>
    win_step ms n ((nt_put n i (pr_do (win_received (pr_node p) bytes e) (p\<lparr>pr_inside := True\<rparr>)))
      \<lparr>nt_channel := (nt_channel n)(\<not> i := rest)\<rparr>)"
| finish: "\<lbrakk>p = nt_peer n i; pr_inside p\<rbrakk> \<Longrightarrow>
    win_step ms n (nt_put n i (pr_do (win_set_next_state ms (pr_node p)) (p\<lparr>pr_inside := False\<rparr>)))"
| request: "\<lbrakk>p = nt_peer n i; win_requestedSendMessageSize (pr_node p) = None;
      win_max_send_message_size ms (pr_node p) = Inr m; k \<le> m\<rbrakk> \<Longrightarrow>
    win_step ms n (nt_put n i (pr_do (win_request_send_message ms (pr_node p) k) p))"
| release: "\<lbrakk>p = nt_peer n i; win_receivedMessageReader (pr_node p) \<noteq> None\<rbrakk> \<Longrightarrow>
    win_step ms n (nt_put n i (pr_do (win_reader_released ms (pr_node p)) p))"

section \<open>Counting bytes\<close>

text \<open>The window of a sender once what it has written is reported sent, and of the bytes it has sent:
  those under way, those the receiver holds, those it has counted, and those it is giving back.\<close>

definition pr_window :: "peer \<Rightarrow> u16" where
  "pr_window p = win_otherAvailableWindow (pr_node p) - (case pr_written p of None \<Rightarrow> 0 | Some e \<Rightarrow> of_nat e)"

definition under_way :: "(byte list \<times> nat) list \<Rightarrow> nat" where
  "under_way ch = sum_list (map snd ch)"

definition win_held :: "windowed \<Rightarrow> nat" where
  "win_held s = (if win_receivedMessageReader s = None then 0 else case win_readerAction s of None \<Rightarrow> 0 | Some e \<Rightarrow> unat e)"

definition given_back :: "(byte list \<times> nat) list \<Rightarrow> nat" where
  "given_back ch = sum_list (map (\<lambda>(bytes, e). if extract_operation bytes = 3 then unat (extract_u16 (tl bytes)) else 0) ch)"

definition balanced :: "network \<Rightarrow> bool \<Rightarrow> bool" where
  "balanced n i \<longleftrightarrow> unat (pr_window (nt_peer n i)) + under_way (nt_channel n i) + win_held (pr_node (nt_peer n (\<not> i))) +
     unat (win_releasedWindow (pr_node (nt_peer n (\<not> i)))) + given_back (nt_channel n (\<not> i)) =
     unat (win_ownBufferSize (pr_node (nt_peer n (\<not> i))))"

text \<open>What a decision to send was based on: the client's request, \<open>rel\<close> bytes to give back, \<open>avail\<close> bytes of window.\<close>

fun send_allowed :: "(nat \<Rightarrow> nat) \<Rightarrow> win_state \<Rightarrow> nat option \<Rightarrow> nat \<Rightarrow> nat \<Rightarrow> bool" where
  "send_allowed ms (Sending_message k) request rel avail \<longleftrightarrow> request \<noteq> None \<and> 0 < k \<and> ms k + ms 3 \<le> avail"
| "send_allowed ms _ request rel avail \<longleftrightarrow> ms 3 < rel \<and> ms 3 \<le> avail"

lemma send_allowed_mono:
  "send_allowed ms st request rel avail \<Longrightarrow> request' \<noteq> None \<or> request' = request \<Longrightarrow> rel \<le> rel' \<Longrightarrow> avail \<le> avail' \<Longrightarrow>
    send_allowed ms st request' rel' avail'"
  by (cases st) auto

text \<open>What holds of each side by itself: it decides to send only what the window allows, and when it
  is not sending it has nothing it could send.\<close>

definition peer_ok :: "(nat \<Rightarrow> nat) \<Rightarrow> peer \<Rightarrow> bool" where
  "peer_ok ms p \<longleftrightarrow> (let s = pr_node p in
     win_initialized s \<and> \<not> win_sendInitResponse s \<and> win_releaseWindowSize s = of_nat (ms 3) \<and>
     (win_receivedMessageReader s \<noteq> None \<longrightarrow> win_readerAction s \<noteq> None) \<and>
     (win_sending s \<longleftrightarrow> win_state s \<noteq> Operational) \<and> (win_sending s \<longleftrightarrow> pr_requested p \<or> pr_written p \<noteq> None) \<and>
     \<not> (pr_requested p \<and> pr_written p \<noteq> None) \<and> win_state s \<noteq> Sending_init \<and> win_state s \<noteq> Sending_init_response \<and>
     (pr_requested p \<longrightarrow> send_allowed ms (win_state s) (win_requestedSendMessageSize s) (unat (win_releasedWindow s)) (unat (win_otherAvailableWindow s))) \<and>
     (\<forall>k. win_requestedSendMessageSize s = Some k \<longrightarrow> (\<exists>m. win_max_send_message_size ms s = Inr m \<and> k \<le> m)) \<and>
     (\<not> win_sending s \<and> \<not> pr_inside p \<longrightarrow> win_set_next_state ms s = (s, [])))"

definition packet_ok :: "byte list \<times> nat \<Rightarrow> bool" where
  "packet_ok pkt \<longleftrightarrow> extract_operation (fst pkt) = 3 \<or> extract_operation (fst pkt) = 4"

text \<open>Not both sides are short of the window for a release.\<close>

definition window_left :: "(nat \<Rightarrow> nat) \<Rightarrow> network \<Rightarrow> bool \<Rightarrow> bool" where
  "window_left ms n i \<longleftrightarrow> ms 3 \<le> unat (pr_window (nt_peer n i)) + given_back (nt_channel n (\<not> i))"

definition network_ok :: "(nat \<Rightarrow> nat) \<Rightarrow> network \<Rightarrow> bool" where
  "network_ok ms n \<longleftrightarrow> (\<forall>i. peer_ok ms (nt_peer n i) \<and> list_all packet_ok (nt_channel n i) \<and> balanced n i \<and>
     win_maxUsableBufferSize (pr_node (nt_peer n i)) = win_ownBufferSize (pr_node (nt_peer n (\<not> i)))) \<and>
     (\<exists>i. window_left ms n i)"

lemmas next_state_defs = win_set_next_state_def win_send_def

text \<open>\<open>SetNextState\<close> of an initialised side that owes no response.\<close>

lemma next_state_cases:
  assumes "win_initialized s" and "\<not> win_sendInitResponse s" and "win_releaseWindowSize s = of_nat (ms 3)" and "ms 3 < 65536"
  obtains (busy) "win_sending s" "win_set_next_state ms s = (s, [])"
  | (message) k where "\<not> win_sending s" "win_requestedSendMessageSize s = Some k" "ms (k + 1) + ms 3 \<le> unat (win_otherAvailableWindow s)"
      "win_set_next_state ms s = (s\<lparr>win_state := Sending_message (k + 1), win_sending := True\<rparr>, [Request_send (k + 1)])"
  | (release) "\<not> win_sending s" "ms 3 < unat (win_releasedWindow s)" "ms 3 \<le> unat (win_otherAvailableWindow s)"
      "win_set_next_state ms s = (s\<lparr>win_state := Sending_release_window, win_sending := True\<rparr>, [Request_send 3])"
  | (idle) "\<not> win_sending s" "win_set_next_state ms s = (s\<lparr>win_state := Operational\<rparr>, [])"
      "win_set_next_state ms (s\<lparr>win_state := Operational\<rparr>) = (s\<lparr>win_state := Operational\<rparr>, [])"
proof -
  have rw: "unat (win_releaseWindowSize s) = ms 3" using assms(3,4) by simp
  have rel: "(win_releasedWindow s > win_releaseWindowSize s \<and> win_releaseWindowSize s \<le> win_otherAvailableWindow s) \<longleftrightarrow>
      ms 3 < unat (win_releasedWindow s) \<and> ms 3 \<le> unat (win_otherAvailableWindow s)"
    by (simp add: word_less_nat_alt word_le_nat_alt rw)
  show ?thesis
  proof (cases "win_sending s")
    case True
    then show ?thesis using busy by (simp add: win_set_next_state_def)
  next
    case False
    note idle_sending = False
    show ?thesis
    proof (cases "\<exists>k. win_requestedSendMessageSize s = Some k \<and> ms (k + 1) + ms 3 \<le> unat (win_otherAvailableWindow s)")
      case True
      then show ?thesis using message assms(1,2) idle_sending by (auto simp: next_state_defs rw)
    next
      case no_message: False
      show ?thesis
      proof (cases "ms 3 < unat (win_releasedWindow s) \<and> ms 3 \<le> unat (win_otherAvailableWindow s)")
        case True
        then have "win_set_next_state ms s = (s\<lparr>win_state := Sending_release_window, win_sending := True\<rparr>, [Request_send 3])"
          using no_message assms(1,2) idle_sending unfolding win_set_next_state_def rel
          by (auto simp: win_send_def rw split: option.split)
        then show ?thesis using release True idle_sending by blast
      next
        case no_release: False
        have "win_set_next_state ms (s\<lparr>win_state := st\<rparr>) = (s\<lparr>win_state := Operational\<rparr>, [])" for st
          using no_message no_release assms(1,2) idle_sending rel by (auto simp: win_set_next_state_def rw split: option.split)
        from this [of "win_state s"] this [of Operational] show ?thesis using idle idle_sending by simp
      qed
    qed
  qed
qed

lemma next_frame [simp]:
  "win_ownBufferSize (fst (win_set_next_state ms s)) = win_ownBufferSize s"
  "win_otherAvailableWindow (fst (win_set_next_state ms s)) = win_otherAvailableWindow s"
  "win_releasedWindow (fst (win_set_next_state ms s)) = win_releasedWindow s"
  "win_receivedMessageReader (fst (win_set_next_state ms s)) = win_receivedMessageReader s"
  "win_readerAction (fst (win_set_next_state ms s)) = win_readerAction s"
  "win_maxUsableBufferSize (fst (win_set_next_state ms s)) = win_maxUsableBufferSize s"
  by (simp_all add: next_state_defs split: option.split)

lemma asks_simps [simp]: "\<not> asks []" "asks [Request_send n]"
  by (simp_all add: asks_def)

lemma pr_do_simps [simp]:
  "pr_node (pr_do r p) = fst r" "pr_written (pr_do r p) = pr_written p" "pr_inside (pr_do r p) = pr_inside p"
  "pr_requested (pr_do r p) = (pr_requested p \<or> asks (snd r))"
  by (simp_all add: pr_do_def)

text \<open>What a handler leaves before it goes on to \<open>SetNextState\<close>.\<close>

definition peer_base :: "(nat \<Rightarrow> nat) \<Rightarrow> peer \<Rightarrow> windowed \<Rightarrow> bool" where
  "peer_base ms p s \<longleftrightarrow>
     win_initialized s \<and> \<not> win_sendInitResponse s \<and> win_releaseWindowSize s = of_nat (ms 3) \<and>
     (win_receivedMessageReader s \<noteq> None \<longrightarrow> win_readerAction s \<noteq> None) \<and>
     (win_sending s \<longrightarrow> win_state s \<noteq> Operational \<and> win_state s \<noteq> Sending_init \<and> win_state s \<noteq> Sending_init_response) \<and>
     (win_sending s \<longleftrightarrow> pr_requested p \<or> pr_written p \<noteq> None) \<and> \<not> (pr_requested p \<and> pr_written p \<noteq> None) \<and>
     (pr_requested p \<longrightarrow> send_allowed ms (win_state s) (win_requestedSendMessageSize s) (unat (win_releasedWindow s)) (unat (win_otherAvailableWindow s))) \<and>
     (\<forall>k. win_requestedSendMessageSize s = Some k \<longrightarrow> (\<exists>m. win_max_send_message_size ms s = Inr m \<and> k \<le> m))"

lemma peer_okE: "peer_ok ms p \<Longrightarrow> peer_base ms p (pr_node p)"
  unfolding peer_ok_def peer_base_def Let_def by blast

lemma max_send_frame [simp]:
  "win_max_send_message_size ms (s\<lparr>win_state := st\<rparr>) = win_max_send_message_size ms s"
  "win_max_send_message_size ms (s\<lparr>win_state := st, win_sending := b\<rparr>) = win_max_send_message_size ms s"
  "win_max_send_message_size ms (s\<lparr>win_sending := b\<rparr>) = win_max_send_message_size ms s"
  "win_max_send_message_size ms (s\<lparr>win_otherAvailableWindow := w\<rparr>) = win_max_send_message_size ms s"
  "win_max_send_message_size ms (s\<lparr>win_otherAvailableWindow := w, win_sending := b\<rparr>) = win_max_send_message_size ms s"
  "win_max_send_message_size ms (s\<lparr>win_releasedWindow := r\<rparr>) = win_max_send_message_size ms s"
  "win_max_send_message_size ms (s\<lparr>win_otherAvailableWindow := w, win_releasedWindow := r\<rparr>) = win_max_send_message_size ms s"
  "win_max_send_message_size ms (s\<lparr>win_receivedMessageReader := x, win_releasedWindow := r\<rparr>) = win_max_send_message_size ms s"
  "win_max_send_message_size ms (s\<lparr>win_receivedMessageReader := x, win_readerAction := a\<rparr>) = win_max_send_message_size ms s"
  "win_max_send_message_size ms (s\<lparr>win_requestedSendMessageSize := k\<rparr>) = win_max_send_message_size ms s"
  by (simp_all add: win_max_send_message_size_def)

lemma next_peer_ok:
  assumes base: "peer_base ms p s" and ms: "ms 3 < 65536"
  shows "peer_ok ms (pr_do (win_set_next_state ms s) p)"
proof -
  have b: "win_initialized s" "\<not> win_sendInitResponse s" "win_releaseWindowSize s = of_nat (ms 3)"
    using base by (simp_all add: peer_base_def)
  from b ms show ?thesis
  proof (cases rule: next_state_cases [of s ms, consumes 4])
    case busy
    then show ?thesis using base by (simp add: peer_base_def peer_ok_def Let_def)
  next
    case (message k)
    then show ?thesis using base by (simp add: peer_base_def peer_ok_def Let_def)
  next
    case release
    then show ?thesis using base by (simp add: peer_base_def peer_ok_def Let_def)
  next
    case idle
    then show ?thesis using base by (simp add: peer_base_def peer_ok_def Let_def)
  qed
qed

section \<open>Every step keeps the count\<close>

lemma all_sides: "(\<forall>j. P j) \<longleftrightarrow> P i \<and> P (\<not> i)"
  by (cases i) (auto simp: all_bool_eq)

lemma some_side: "(\<exists>j. P j) \<longleftrightarrow> P i \<or> P (\<not> i)"
  by (cases i) (auto simp: ex_bool_eq)

lemma nt_put_simps [simp]:
  "nt_channel (nt_put n i p) = nt_channel n" "nt_peer (nt_put n i p) = (nt_peer n)(i := p)"
  by (simp_all add: nt_put_def)

lemma network_okI:
  assumes "network_ok ms n" and "nt_peer n' = (nt_peer n)(i := p')" and "peer_ok ms p'"
    and "win_ownBufferSize (pr_node p') = win_ownBufferSize (pr_node (nt_peer n i))"
    and "win_maxUsableBufferSize (pr_node p') = win_maxUsableBufferSize (pr_node (nt_peer n i))"
    and "\<And>j. list_all packet_ok (nt_channel n' j)"
    and "unat (pr_window p') + under_way (nt_channel n' i) + given_back (nt_channel n' (\<not> i)) =
      unat (pr_window (nt_peer n i)) + under_way (nt_channel n i) + given_back (nt_channel n (\<not> i))"
    and "under_way (nt_channel n' (\<not> i)) + win_held (pr_node p') + unat (win_releasedWindow (pr_node p')) + given_back (nt_channel n' i) =
      under_way (nt_channel n (\<not> i)) + win_held (pr_node (nt_peer n i)) + unat (win_releasedWindow (pr_node (nt_peer n i))) + given_back (nt_channel n i)"
    and "\<exists>j. window_left ms n' j"
  shows "network_ok ms n'"
proof -
  have ok: "peer_ok ms (nt_peer n (\<not> i))" "balanced n i" "balanced n (\<not> i)"
    "win_maxUsableBufferSize (pr_node (nt_peer n i)) = win_ownBufferSize (pr_node (nt_peer n (\<not> i)))"
    "win_maxUsableBufferSize (pr_node (nt_peer n (\<not> i))) = win_ownBufferSize (pr_node (nt_peer n i))"
    using assms(1) unfolding network_ok_def all_sides [of _ i] by simp_all
  have "balanced n' i" using ok(2) assms(2,7) by (simp add: balanced_def)
  moreover have "balanced n' (\<not> i)" using ok(3) assms(2,4,8) by (simp add: balanced_def)
  ultimately show ?thesis using assms(2-6,9) ok unfolding network_ok_def all_sides [of _ i] by simp
qed

lemma network_okE:
  assumes "network_ok ms n"
  shows "peer_ok ms (nt_peer n i)" and "list_all packet_ok (nt_channel n i)"
    and "unat (pr_window (nt_peer n i)) + under_way (nt_channel n i) + win_held (pr_node (nt_peer n (\<not> i))) +
      unat (win_releasedWindow (pr_node (nt_peer n (\<not> i)))) + given_back (nt_channel n (\<not> i)) < 65536"
    and "unat (pr_window (nt_peer n (\<not> i))) + under_way (nt_channel n (\<not> i)) + win_held (pr_node (nt_peer n i)) +
      unat (win_releasedWindow (pr_node (nt_peer n i))) + given_back (nt_channel n i) < 65536"
    and "window_left ms n i \<or> window_left ms n (\<not> i)"
  using assms unat_u16_less [of "win_ownBufferSize (pr_node (nt_peer n i))"] unat_u16_less [of "win_ownBufferSize (pr_node (nt_peer n (\<not> i)))"]
  unfolding network_ok_def balanced_def all_sides [of _ i] some_side [of _ i] by auto

lemma unat_sub_u16: "n \<le> unat (w :: u16) \<Longrightarrow> unat (w - of_nat n) = unat w - n"
proof -
  assume n: "n \<le> unat w"
  then have "unat (of_nat n :: u16) = n" using order_le_less_trans [OF n unat_u16_less] by (intro unat_of_nat_u16) simp
  with n show ?thesis by (simp add: unat_sub word_le_nat_alt)
qed

lemma unat_add_u16: "unat (w :: u16) + unat x < 65536 \<Longrightarrow> unat (w + x) = unat w + unat x"
  by (simp add: unat_plus_if_size word_size)

lemma step_sent:
  assumes ok: "network_ok ms n" and ms: "ms 3 < 65536" and w: "pr_written (nt_peer n i) = Some e"
  shows "network_ok ms (nt_put n i (pr_do (win_message_sent ms (pr_node (nt_peer n i)) e) ((nt_peer n i)\<lparr>pr_written := None\<rparr>)))"
proof -
  let ?p = "nt_peer n i" and ?s = "pr_node (nt_peer n i)"
  let ?s1 = "?s\<lparr>win_otherAvailableWindow := win_otherAvailableWindow ?s - of_nat e, win_sending := False\<rparr>"
  have p: "peer_ok ms ?p" using network_okE(1) [OF ok] .
  have sent: "win_message_sent ms ?s e = win_set_next_state ms ?s1"
    using p w by (cases "win_state ?s") (auto simp: win_message_sent_def peer_ok_def Let_def)
  have "peer_base ms (?p\<lparr>pr_written := None\<rparr>) ?s1"
    using peer_okE [OF p] w by (auto simp: peer_base_def)
  then have new: "peer_ok ms (pr_do (win_set_next_state ms ?s1) (?p\<lparr>pr_written := None\<rparr>))" using ms by (rule next_peer_ok)
  have win: "pr_window (pr_do (win_set_next_state ms ?s1) (?p\<lparr>pr_written := None\<rparr>)) = pr_window ?p"
    using w by (simp add: pr_window_def)
  show ?thesis unfolding sent
  proof (rule network_okI [OF ok _ new])
    show "\<exists>j. window_left ms (nt_put n i (pr_do (win_set_next_state ms ?s1) (?p\<lparr>pr_written := None\<rparr>))) j"
      using network_okE(5) [OF ok, of i] win unfolding window_left_def some_side [of _ i] by simp
  qed (use network_okE(2) [OF ok] win in \<open>auto simp: win_held_def\<close>)
qed

lemma step_finish:
  assumes ok: "network_ok ms n" and ms: "ms 3 < 65536"
  shows "network_ok ms (nt_put n i (pr_do (win_set_next_state ms (pr_node (nt_peer n i))) ((nt_peer n i)\<lparr>pr_inside := False\<rparr>)))"
proof -
  let ?p = "nt_peer n i" and ?p' = "pr_do (win_set_next_state ms (pr_node (nt_peer n i))) ((nt_peer n i)\<lparr>pr_inside := False\<rparr>)"
  have "peer_base ms (?p\<lparr>pr_inside := False\<rparr>) (pr_node ?p)"
    using peer_okE [OF network_okE(1) [OF ok]] by (simp add: peer_base_def)
  then have new: "peer_ok ms ?p'" using ms by (rule next_peer_ok)
  have win: "pr_window ?p' = pr_window ?p" by (simp add: pr_window_def)
  show ?thesis
  proof (rule network_okI [OF ok _ new])
    show "\<exists>j. window_left ms (nt_put n i ?p') j"
      using network_okE(5) [OF ok, of i] win unfolding window_left_def some_side [of _ i] by simp
  qed (use network_okE(2) [OF ok] win in \<open>auto simp: win_held_def\<close>)
qed

lemma step_request:
  assumes ok: "network_ok ms n" and ms: "ms 3 < 65536"
    and k: "win_max_send_message_size ms (pr_node (nt_peer n i)) = Inr m" "k \<le> m"
  shows "network_ok ms (nt_put n i (pr_do (win_request_send_message ms (pr_node (nt_peer n i)) k) (nt_peer n i)))"
proof -
  let ?p = "nt_peer n i" and ?s = "pr_node (nt_peer n i)"
  let ?p' = "pr_do (win_request_send_message ms ?s k) ?p" and ?s1 = "?s\<lparr>win_requestedSendMessageSize := Some k\<rparr>"
  have p: "peer_ok ms ?p" using network_okE(1) [OF ok] .
  have base: "peer_base ms ?p ?s1" using peer_okE [OF p] k by (auto simp: peer_base_def elim: send_allowed_mono)
  have new: "peer_ok ms ?p'"
  proof (cases "win_state ?s = Operational")
    case True
    then show ?thesis using next_peer_ok [OF base ms] by (simp add: win_request_send_message_def)
  next
    case False
    then show ?thesis using p k by (auto simp: win_request_send_message_def peer_ok_def Let_def elim: send_allowed_mono)
  qed
  have frame: "pr_window ?p' = pr_window ?p" "win_held (pr_node ?p') = win_held ?s"
    "win_releasedWindow (pr_node ?p') = win_releasedWindow ?s" "win_ownBufferSize (pr_node ?p') = win_ownBufferSize ?s"
    "win_maxUsableBufferSize (pr_node ?p') = win_maxUsableBufferSize ?s"
    by (auto simp: pr_window_def win_request_send_message_def win_held_def Let_def)
  show ?thesis
  proof (rule network_okI [OF ok _ new])
    show "\<exists>j. window_left ms (nt_put n i ?p') j"
      using network_okE(5) [OF ok, of i] frame(1) unfolding window_left_def some_side [of _ i] by simp
  qed (use network_okE(2) [OF ok] frame in auto)
qed

lemma step_release:
  assumes ok: "network_ok ms n" and ms: "ms 3 < 65536" and r: "win_receivedMessageReader (pr_node (nt_peer n i)) \<noteq> None"
  shows "network_ok ms (nt_put n i (pr_do (win_reader_released ms (pr_node (nt_peer n i))) (nt_peer n i)))"
proof -
  let ?p = "nt_peer n i" and ?s = "pr_node (nt_peer n i)"
  have p: "peer_base ms ?p ?s" using peer_okE [OF network_okE(1) [OF ok]] .
  then obtain a where a: "win_readerAction ?s = Some a" using r by (auto simp: peer_base_def)
  let ?s1 = "?s\<lparr>win_releasedWindow := win_releasedWindow ?s + a, win_receivedMessageReader := None\<rparr>"
  have held: "win_held ?s = unat a" using a r by (auto simp: win_held_def)
  have sum: "unat (win_releasedWindow ?s + a) = unat (win_releasedWindow ?s) + unat a"
    using network_okE(4) [OF ok, of i] held by (intro unat_add_u16) simp
  have max: "win_max_send_message_size ms ?s1 = win_max_send_message_size ms ?s" by (simp add: win_max_send_message_size_def)
  have "peer_base ms ?p ?s1" using p sum max unfolding peer_base_def by (auto elim: send_allowed_mono)
  then have new: "peer_ok ms (pr_do (win_set_next_state ms ?s1) ?p)" using ms by (rule next_peer_ok)
  have win: "pr_window (pr_do (win_set_next_state ms ?s1) ?p) = pr_window ?p" by (simp add: pr_window_def)
  have held': "win_held (fst (win_set_next_state ms ?s1)) = 0" by (simp add: win_held_def)
  have act: "win_reader_released ms ?s = win_set_next_state ms ?s1" using a by (simp add: win_reader_released_def)
  show ?thesis unfolding act
  proof (rule network_okI [OF ok _ new])
    show "\<exists>j. window_left ms (nt_put n i (pr_do (win_set_next_state ms ?s1) ?p)) j"
      using network_okE(5) [OF ok, of i] win unfolding window_left_def some_side [of _ i] by simp
  qed (use network_okE(2) [OF ok] win held held' sum in auto)
qed

lemma step_receive:
  assumes ok: "network_ok ms n" and none: "win_receivedMessageReader (pr_node (nt_peer n i)) = None"
    and ch: "nt_channel n (\<not> i) = (bytes, e) # rest"
  shows "network_ok ms ((nt_put n i (pr_do (win_received (pr_node (nt_peer n i)) bytes e) ((nt_peer n i)\<lparr>pr_inside := True\<rparr>)))
      \<lparr>nt_channel := (nt_channel n)(\<not> i := rest)\<rparr>)"
proof -
  let ?p = "nt_peer n i" and ?s = "pr_node (nt_peer n i)"
  let ?p' = "pr_do (win_received ?s bytes e) (?p\<lparr>pr_inside := True\<rparr>)"
  have p: "peer_base ms ?p ?s" using peer_okE [OF network_okE(1) [OF ok]] .
  have sending: "win_sending ?s \<longleftrightarrow> win_state ?s \<noteq> Operational"
    using network_okE(1) [OF ok, of i] by (simp add: peer_ok_def Let_def)
  have pkt: "extract_operation bytes = 3 \<or> extract_operation bytes = 4" and rest: "list_all packet_ok rest"
    using network_okE(2) [OF ok, of "\<not> i"] ch by (auto simp: packet_ok_def)
  have e: "e < 65536" "unat (win_releasedWindow ?s) + e < 65536"
    using network_okE(4) [OF ok, of i] ch by (simp_all add: under_way_def)
  then have ue: "unat (of_nat e :: u16) = e" by simp
  have init: "win_initialized ?s" using p by (simp add: peer_base_def)
  show ?thesis
  proof (cases "extract_operation bytes = 3")
    case True
    let ?d = "extract_u16 (tl bytes)"
    have received: "win_received ?s bytes e = (?s\<lparr>win_releasedWindow := win_releasedWindow ?s + of_nat e,
        win_otherAvailableWindow := win_otherAvailableWindow ?s + ?d\<rparr>, [])"
      using True init by (simp add: win_received_def Let_def)
    have given: "given_back (nt_channel n (\<not> i)) = unat ?d + given_back rest" using ch True by (simp add: given_back_def)
    have rel: "unat (win_releasedWindow ?s + of_nat e) = unat (win_releasedWindow ?s) + e" using e(2) ue by (simp add: unat_add_u16)
    have "pr_window ?p' = pr_window ?p + ?d" by (simp add: pr_window_def received)
    then have win: "unat (pr_window ?p') = unat (pr_window ?p) + unat ?d"
      using network_okE(3) [OF ok, of i] given by (simp add: unat_add_u16)
    have avail: "unat (win_otherAvailableWindow ?s + ?d) = unat (win_otherAvailableWindow ?s) + unat ?d" if "pr_requested ?p"
    proof -
      have "pr_written ?p = None" using p that by (simp add: peer_base_def)
      then show ?thesis using win by (simp add: pr_window_def received)
    qed
    have max: "win_max_send_message_size ms (fst (win_received ?s bytes e)) = win_max_send_message_size ms ?s"
      by (simp add: win_max_send_message_size_def received)
    have new: "peer_ok ms ?p'"
      using p sending rel avail max unfolding peer_ok_def peer_base_def Let_def received by (auto elim: send_allowed_mono)
    have held: "win_held (pr_node ?p') = win_held ?s" by (simp add: received win_held_def)
    have uw: "under_way (nt_channel n (\<not> i)) = e + under_way rest" using ch by (simp add: under_way_def)
    show ?thesis
    proof (rule network_okI [OF ok, of _ i ?p'])
      show "\<exists>j. window_left ms ((nt_put n i ?p')\<lparr>nt_channel := (nt_channel n)(\<not> i := rest)\<rparr>) j"
        using network_okE(5) [OF ok, of i] win given unfolding window_left_def some_side [of _ i] by auto
    qed (use network_okE(2) [OF ok] win given new held rel rest uw in \<open>auto simp: received\<close>)
  next
    case False
    then have op: "extract_operation bytes = 4" using pkt by simp
    have received: "win_received ?s bytes e = (?s\<lparr>win_receivedMessageReader := Some (tl bytes), win_readerAction := Some (of_nat e)\<rparr>,
        [Call_received (tl bytes)])"
      using op init by (simp add: win_received_def win_forward_received_message_def Let_def)
    have given: "given_back (nt_channel n (\<not> i)) = given_back rest" using ch False by (simp add: given_back_def)
    have uw: "under_way (nt_channel n (\<not> i)) = e + under_way rest" using ch by (simp add: under_way_def)
    have asks: "\<not> asks [Call_received (tl bytes)]" by (simp add: asks_def)
    have held: "win_held (pr_node ?p') = e" "win_held ?s = 0" using none ue by (simp_all add: received win_held_def)
    have win: "pr_window ?p' = pr_window ?p" by (simp add: pr_window_def received)
    have new: "peer_ok ms ?p'"
      using p sending asks unfolding peer_ok_def peer_base_def Let_def received by (auto elim: send_allowed_mono)
    show ?thesis
    proof (rule network_okI [OF ok, of _ i ?p'])
      show "\<exists>j. window_left ms ((nt_put n i ?p')\<lparr>nt_channel := (nt_channel n)(\<not> i := rest)\<rparr>) j"
        using network_okE(5) [OF ok, of i] win given unfolding window_left_def some_side [of _ i] by auto
    qed (use network_okE(2) [OF ok] win given new held rest uw in \<open>auto simp: received\<close>)
  qed
qed

lemma step_stream:
  assumes ok: "network_ok ms n" and ms: "ms 3 < 65536" "mono ms" and req: "pr_requested (nt_peer n i)"
    and avail: "win_send_message_stream_available (pr_node (nt_peer n i)) = Inr (s, header, calls)"
    and fits: "payload_fits (win_state (pr_node (nt_peer n i))) payload"
    and enc: "encoded_ok ms (win_state (pr_node (nt_peer n i))) (header @ payload) e"
  shows "network_ok ms ((nt_put n i ((nt_peer n i)\<lparr>pr_node := s, pr_requested := False, pr_written := Some e\<rparr>))
      \<lparr>nt_channel := (nt_channel n)(i := nt_channel n i @ [(header @ payload, e)])\<rparr>)"
proof -
  let ?p = "nt_peer n i" and ?s = "pr_node (nt_peer n i)"
  let ?p' = "?p\<lparr>pr_node := s, pr_requested := False, pr_written := Some e\<rparr>"
  let ?n' = "(nt_put n i ?p')\<lparr>nt_channel := (nt_channel n)(i := nt_channel n i @ [(header @ payload, e)])\<rparr>"
  have p: "peer_base ms ?p ?s" using peer_okE [OF network_okE(1) [OF ok]] .
  have written: "pr_written ?p = None" and sending: "win_sending ?s" and not_init: "win_state ?s \<noteq> Sending_init"
    and allowed: "send_allowed ms (win_state ?s) (win_requestedSendMessageSize ?s) (unat (win_releasedWindow ?s)) (unat (win_otherAvailableWindow ?s))"
    using p req by (simp_all add: peer_base_def)
  have window: "pr_window ?p = win_otherAvailableWindow ?s" using written by (simp add: pr_window_def)
  consider (message) k where "win_state ?s = Sending_message k" | (release) "win_state ?s = Sending_release_window"
    using p req by (cases "win_state ?s") (auto simp: peer_base_def)
  then show ?thesis
  proof cases
    case (message k)
    have s: "s = ?s\<lparr>win_requestedSendMessageSize := None\<rparr>" and h: "header = [4]"
      using avail message by (auto simp: win_send_message_stream_available_def)
    have "ms (length (header @ payload)) \<le> ms k"
      using fits message h by (intro monoD [OF ms(2)]) (simp add: payload_fits_def)
    then have e: "e + ms 3 \<le> unat (win_otherAvailableWindow ?s)" using enc allowed message by (simp add: encoded_ok_def)
    have win: "unat (pr_window ?p') = unat (win_otherAvailableWindow ?s) - e"
      using e s by (simp add: pr_window_def unat_sub_u16)
    have new: "peer_ok ms ?p'" using p sending message unfolding s peer_ok_def peer_base_def Let_def by simp
    have given: "given_back (nt_channel ?n' i) = given_back (nt_channel n i)"
      using h by (simp add: given_back_def extract_operation_def)
    show ?thesis
    proof (rule network_okI [OF ok, of _ i ?p'])
      show "\<exists>j. window_left ms ?n' j" using win e by (intro exI [of _ i]) (simp add: window_left_def)
    qed (use network_okE(2) [OF ok] win window new given e h in
        \<open>auto simp: s win_held_def under_way_def packet_ok_def extract_operation_def\<close>)
  next
    case release
    let ?r = "win_releasedWindow ?s"
    have s: "s = ?s\<lparr>win_releasedWindow := 0\<rparr>" and h: "header = packet_release_window ?r"
      using avail release by (auto simp: win_send_message_stream_available_def)
    have pl: "payload = []" using fits release by (simp add: payload_fits_def)
    have len: "length header = 3" by (simp add: h packet_release_window_def le16_def)
    have e: "e \<le> unat (win_otherAvailableWindow ?s)" "ms 3 < unat ?r"
      using enc allowed release pl len by (simp_all add: encoded_ok_def)
    have win: "unat (pr_window ?p') = unat (win_otherAvailableWindow ?s) - e"
      using e s by (simp add: pr_window_def unat_sub_u16)
    have new: "peer_ok ms ?p'"
      using p sending release unfolding s peer_ok_def peer_base_def Let_def by simp
    have given: "given_back (nt_channel ?n' i) = given_back (nt_channel n i) + unat ?r"
      using pl by (simp add: given_back_def h extract_packet)
    have op: "packet_ok (header @ payload, e)" using pl by (simp add: h packet_ok_def extract_packet)
    show ?thesis
    proof (rule network_okI [OF ok, of _ i ?p'])
      show "\<exists>j. window_left ms ?n' j" using given e(2) by (intro exI [of _ "\<not> i"]) (simp add: window_left_def)
    qed (use network_okE(2) [OF ok] win window new given e op in
        \<open>auto simp: s win_held_def under_way_def\<close>)
  qed
qed

lemma win_step_network_ok:
  assumes "win_step ms n n'" and "network_ok ms n" and "ms 3 < 65536" and "mono ms"
  shows "network_ok ms n'"
  using assms by (induction rule: win_step.induct)
    (auto intro: step_stream step_sent step_receive step_finish step_request step_release)

lemma win_run_network_ok:
  "\<lbrakk>(win_step ms)\<^sup>*\<^sup>* n n'; network_ok ms n; ms 3 < 65536; mono ms\<rbrakk> \<Longrightarrow> network_ok ms n'"
  by (induction rule: rtranclp_induct) (auto intro: win_step_network_ok)

end
