(* ===== verification/Sesame_Cobs_Sender.thy ===== *)
theory Sesame_Cobs_Sender
  imports Cobs_Codec Bounded_Vector
begin

text \<open>
  The sending half of \<open>services::SesameCobs\<close> (services/sesame/SesameCobs.cpp). A message is written by
  the observer into a stream over \<open>sendStorage\<close>; when the stream is given back, the message is sent
  as a chain of \<open>SendData\<close> calls, each with a callback for when the line has taken the bytes:
  \<open>sc_pending\<close> names the callback that the line owes. A packet is closed by a delimiter, and only the
  first one after construction or \<open>Reset\<close> also starts with one. \<open>Reset\<close> stops a message at the next
  callback.
\<close>

text \<open>What a stream that is given back does: \<open>SendStreamFilled\<close>, clear the storage after a reset, or
  nothing after \<open>Stop\<close>.\<close>

datatype sc_action = Fill | Clear_first | Nothing

datatype sc_callback = Sent_first_delimiter | Sent_overhead | Sent_data | Sent_last_delimiter

record sc_sender =
  sc_sendReqestedSize :: "nat option"
  sc_sendingFirstPacket :: bool
  sc_sendingUserData :: bool
  sc_resetting :: bool
  sc_sendSizeEncoded :: nat
  sc_sendStorage :: "byte vec"
  sc_streamTaken :: bool
  sc_onAllocatable :: sc_action
  sc_dataToSend :: "byte list"
  sc_frameSize :: byte
  sc_pending :: "sc_callback option"

datatype sc_out = Line "byte list" | Stream_available nat | Message_sent nat

type_synonym sc_result = "(sc_sender \<times> sc_out list) result"

section \<open>Operations\<close>

definition sc_new :: "byte vec \<Rightarrow> sc_sender" where
  "sc_new storage = \<lparr>sc_sendReqestedSize = None, sc_sendingFirstPacket = True, sc_sendingUserData = False, sc_resetting = False,
     sc_sendSizeEncoded = 0, sc_sendStorage = storage, sc_streamTaken = False, sc_onAllocatable = Fill,
     sc_dataToSend = [], sc_frameSize = 0, sc_pending = None\<rparr>"

definition sc_stop :: "sc_sender \<Rightarrow> sc_sender" where
  "sc_stop s = s\<lparr>sc_onAllocatable := Nothing\<rparr>"

definition sc_max_send_message_size :: "sc_sender \<Rightarrow> nat" where
  "sc_max_send_message_size s = vec_max_size (sc_sendStorage s) - 2 - (vec_max_size (sc_sendStorage s) - 2) div 255"

definition sc_message_size :: "nat \<Rightarrow> nat" where
  "sc_message_size n = n + n div 254 + 2"

lemma mono_sc_message_size: "mono sc_message_size"
  by (rule monoI) (simp add: sc_message_size_def add_mono div_le_mono)

lemma sc_message_size_3: "sc_message_size 3 = 5"
  by (simp add: sc_message_size_def)

text \<open>The stream is limited to the requested size.\<close>

definition sc_check_ready :: "sc_sender \<Rightarrow> sc_result" where
  "sc_check_ready s = (case sc_sendReqestedSize s of
     Some n \<Rightarrow> if \<not> sc_sendingUserData s
       then really_assert (\<not> sc_streamTaken s)
         (Inr (s\<lparr>sc_sendReqestedSize := None, sc_streamTaken := True\<rparr>, [Stream_available n]))
       else Inr (s, [])
   | None \<Rightarrow> Inr (s, []))"

definition sc_request_send_message :: "sc_sender \<Rightarrow> nat \<Rightarrow> sc_result" where
  "sc_request_send_message s n = really_assert (sc_sendReqestedSize s = None)
     (sc_check_ready (s\<lparr>sc_sendReqestedSize := Some n\<rparr>))"

definition sc_finish_reset :: "sc_sender \<Rightarrow> sc_result" where
  "sc_finish_reset s = sc_check_ready (s\<lparr>sc_resetting := False, sc_sendingUserData := False, sc_sendSizeEncoded := 0\<rparr>)"

definition sc_find_delimiter :: "sc_sender \<Rightarrow> byte" where
  "sc_find_delimiter s = (let data = take 254 (sc_dataToSend s) in of_nat (length (takeWhile (\<lambda>x. x \<noteq> 0) data)))"

definition sc_send :: "byte list \<Rightarrow> sc_callback \<Rightarrow> sc_sender \<Rightarrow> sc_result" where
  "sc_send bytes k s = Inr (s\<lparr>sc_pending := Some k\<rparr>, [Line bytes])"

definition sc_send_first_delimiter :: "sc_sender \<Rightarrow> sc_result" where
  "sc_send_first_delimiter s = sc_send [0] Sent_first_delimiter
     (s\<lparr>sc_sendingFirstPacket := False, sc_sendSizeEncoded := sc_sendSizeEncoded s + 1\<rparr>)"

definition sc_send_last_delimiter :: "sc_sender \<Rightarrow> sc_result" where
  "sc_send_last_delimiter s = sc_send [0] Sent_last_delimiter (s\<lparr>sc_sendSizeEncoded := sc_sendSizeEncoded s + 1\<rparr>)"

definition sc_send_frame :: "sc_sender \<Rightarrow> sc_result" where
  "sc_send_frame s = (let frameSize = sc_find_delimiter s + 1
     in sc_send [frameSize] Sent_overhead (s\<lparr>sc_frameSize := frameSize, sc_sendSizeEncoded := sc_sendSizeEncoded s + 1\<rparr>))"

definition sc_send_data :: "byte list \<Rightarrow> sc_sender \<Rightarrow> sc_result" where
  "sc_send_data data s = sc_send data Sent_data (s\<lparr>sc_sendSizeEncoded := sc_sendSizeEncoded s + length data\<rparr>)"

definition sc_send_or_done :: "sc_sender \<Rightarrow> sc_result" where
  "sc_send_or_done s =
     (if sc_resetting s then sc_finish_reset s
      else if sc_dataToSend s = [] then sc_send_last_delimiter s
      else sc_send_frame s)"

definition sc_send_frame_done :: "sc_sender \<Rightarrow> sc_result" where
  "sc_send_frame_done s =
     (let s1 = (if sc_frameSize s = 254 then s\<lparr>sc_dataToSend := drop 254 (sc_dataToSend s)\<rparr>
                else s\<lparr>sc_dataToSend := drop (unat (sc_frameSize s)) (sc_dataToSend s)\<rparr>)
      in if sc_dataToSend s1 = [] \<or> sc_frameSize s1 = 254 then sc_send_or_done s1
         else sc_send_frame (s1\<lparr>sc_dataToSend := tl (sc_dataToSend s1)\<rparr>))"

definition sc_send_stream_filled :: "sc_sender \<Rightarrow> sc_result" where
  "sc_send_stream_filled s =
     (let s1 = s\<lparr>sc_sendingUserData := True, sc_dataToSend := vec_range (sc_sendStorage s)\<rparr>
      in if sc_sendingFirstPacket s1 then sc_send_first_delimiter s1 else sc_send_or_done s1)"

text \<open>The observer gives the stream back, with the storage as it has written it.\<close>

definition sc_stream_released :: "sc_sender \<Rightarrow> byte vec \<Rightarrow> sc_result" where
  "sc_stream_released s written =
     (let s1 = s\<lparr>sc_sendStorage := written, sc_streamTaken := False\<rparr>
      in case sc_onAllocatable s1 of
           Fill \<Rightarrow> sc_send_stream_filled s1
         | Clear_first \<Rightarrow> rbind (vec_clear (sc_sendStorage s1)) (\<lambda>v. Inr (s1\<lparr>sc_sendStorage := v, sc_onAllocatable := Fill\<rparr>, []))
         | Nothing \<Rightarrow> Inr (s1, []))"

section \<open>Callbacks of the line\<close>

definition sc_overhead_sent :: "sc_sender \<Rightarrow> sc_result" where
  "sc_overhead_sent s =
     (let s1 = s\<lparr>sc_frameSize := sc_frameSize s - 1\<rparr>
      in if sc_resetting s1 then sc_finish_reset s1
         else if sc_frameSize s1 \<noteq> 0 then sc_send_data (take (unat (sc_frameSize s1)) (sc_dataToSend s1)) s1
         else sc_send_frame_done s1)"

definition sc_last_delimiter_sent :: "sc_sender \<Rightarrow> sc_result" where
  "sc_last_delimiter_sent s =
     (if sc_resetting s then sc_finish_reset s
      else rbind (vec_clear (sc_sendStorage s)) (\<lambda>v.
        rbind (sc_check_ready (s\<lparr>sc_sendStorage := v, sc_dataToSend := [], sc_sendSizeEncoded := 0, sc_sendingUserData := False\<rparr>))
          (\<lambda>(s1, out). Inr (s1, Message_sent (sc_sendSizeEncoded s) # out))))"

definition sc_line_done :: "sc_sender \<Rightarrow> sc_result" where
  "sc_line_done s =
     (let s1 = s\<lparr>sc_pending := None\<rparr>
      in case sc_pending s of
           Some Sent_first_delimiter \<Rightarrow> sc_send_or_done s1
         | Some Sent_overhead \<Rightarrow> sc_overhead_sent s1
         | Some Sent_data \<Rightarrow> sc_send_frame_done s1
         | Some Sent_last_delimiter \<Rightarrow> sc_last_delimiter_sent s1
         | None \<Rightarrow> Inr (s1, []))"

definition sc_reset :: "sc_sender \<Rightarrow> sc_result" where
  "sc_reset s =
     rbind (if sc_streamTaken s then Inr (s\<lparr>sc_onAllocatable := Clear_first\<rparr>)
            else rbind (vec_clear (sc_sendStorage s)) (\<lambda>v. Inr (s\<lparr>sc_sendStorage := v\<rparr>)))
       (\<lambda>s1. let s2 = s1\<lparr>sc_sendingFirstPacket := True, sc_sendReqestedSize := None\<rparr>
             in if sc_sendingUserData s2 then Inr (s2\<lparr>sc_resetting := True\<rparr>, []) else sc_finish_reset s2)"

section \<open>Until nothing is left to send\<close>

text \<open>The line calls back until it owes no callback; \<open>None\<close> when that takes more than \<open>fuel\<close> callbacks.\<close>

definition prefixed :: "sc_out list \<Rightarrow> sc_result \<Rightarrow> sc_result" where
  "prefixed out r = rbind r (\<lambda>(s, out1). Inr (s, out @ out1))"

fun sc_run :: "nat \<Rightarrow> sc_result \<Rightarrow> sc_result option" where
  "sc_run fuel (Inl f) = Some (Inl f)"
| "sc_run fuel (Inr (s, out)) =
     (if sc_pending s = None then Some (Inr (s, out))
      else case fuel of
        0 \<Rightarrow> None
      | Suc n \<Rightarrow> sc_run n (prefixed out (sc_line_done s)))"

lemma prefixed_simps [simp]:
  "prefixed out (Inl f) = Inl f" "prefixed out (Inr (s, out1)) = Inr (s, out @ out1)" "prefixed [] r = r"
  "prefixed out (prefixed out1 r) = prefixed (out @ out1) r"
  by (cases r; auto simp: prefixed_def)+

lemma sc_run_prefixed: "sc_run n (prefixed out r) = map_option (prefixed out) (sc_run n r)"
proof (induction n arbitrary: out r)
  case 0
  then show ?case by (cases r) (auto split: prod.splits)
next
  case (Suc n)
  show ?case
  proof (cases r)
    case (Inr a)
    obtain s out1 where a: "a = (s, out1)" by (cases a)
    have "sc_run n (prefixed (out @ out1) (sc_line_done s)) = map_option (prefixed out) (sc_run n (prefixed out1 (sc_line_done s)))"
      using Suc [of "out @ out1" "sc_line_done s"] Suc [of out1 "sc_line_done s"] by (cases "sc_run n (sc_line_done s)") simp_all
    then show ?thesis using Inr a by simp
  qed simp
qed

lemma sc_run_mono: "sc_run n r = Some x \<Longrightarrow> n \<le> m \<Longrightarrow> sc_run m r = Some x"
proof (induction n arbitrary: m r)
  case 0
  then show ?case by (cases r) (auto split: if_splits)
next
  case (Suc n)
  then obtain m' where "m = Suc m'" "n \<le> m'" by (cases m) auto
  then show ?case using Suc by (cases r) (auto split: if_splits)
qed

text \<open>A callback that the line owes.\<close>

lemma sc_run_callback:
  "sc_pending s = Some k \<Longrightarrow> sc_run (Suc n) (Inr (s, out)) = map_option (prefixed out) (sc_run n (sc_line_done s))"
  using sc_run_prefixed [of n out "sc_line_done s"] by simp

lemma sc_run_idle: "sc_pending s = None \<Longrightarrow> sc_run n (Inr (s, out)) = Some (Inr (s, out))"
  by (cases n) simp_all

text \<open>When the last delimiter is sent; \<open>f\<close> is what is left in \<open>frameSize\<close>.\<close>

definition sc_idle :: "sc_sender \<Rightarrow> byte \<Rightarrow> sc_sender" where
  "sc_idle s f = s\<lparr>sc_sendStorage := (sc_sendStorage s)\<lparr>vec_numAllocated := 0\<rparr>, sc_dataToSend := [], sc_sendSizeEncoded := 0,
     sc_sendingUserData := False, sc_frameSize := f, sc_pending := None\<rparr>"

definition sc_sends :: "nat \<Rightarrow> sc_result \<Rightarrow> sc_sender \<Rightarrow> byte list \<Rightarrow> bool" where
  "sc_sends fuel r s bytes \<longleftrightarrow> (\<exists>f lines. concat lines = bytes \<and>
     sc_run fuel r = Some (prefixed (map Line lines @ [Message_sent (sc_sendSizeEncoded s + length bytes)]) (sc_check_ready (sc_idle s f))))"

lemma check_ready_pending: "sc_check_ready s = Inr (s1, out) \<Longrightarrow> sc_pending s = None \<Longrightarrow> sc_pending s1 = None"
  by (auto simp: sc_check_ready_def really_assert_def split: option.splits if_splits)

lemma sc_run_prefixed_idle: "sc_pending s = None \<Longrightarrow> sc_run n (prefixed out (sc_check_ready s)) = Some (prefixed out (sc_check_ready s))"
  by (cases "sc_check_ready s") (auto dest: check_ready_pending intro: sc_run_idle)

lemma sc_sends_last:
  assumes "sc_dataToSend s = []" and "\<not> sc_resetting s"
  shows "sc_sends 1 (sc_send_or_done s) s [0]"
proof -
  have "sc_run 1 (sc_send_or_done s) = Some (prefixed (map Line [[0]] @ [Message_sent (sc_sendSizeEncoded s + 1)]) (sc_check_ready (sc_idle s (sc_frameSize s))))"
    using assms sc_run_prefixed_idle [of "sc_idle s (sc_frameSize s)" 0 "[Line [0], Message_sent (sc_sendSizeEncoded s + 1)]"]
    by (cases s) (simp add: sc_send_or_done_def sc_send_last_delimiter_def sc_send_def sc_line_done_def Let_def sc_last_delimiter_sent_def
        sc_idle_def prefixed_def rbind_assoc case_prod_unfold)
  then show ?thesis unfolding sc_sends_def by (intro exI [of _ "sc_frameSize s"] exI [of _ "[[0]]"]) simp
qed

text \<open>A call that sends \<open>bytes\<close> and then does \<open>r\<close> when the line has taken them.\<close>

lemma sc_sends_line:
  assumes "sc_sends n (sc_line_done s1) s bs" and "sc_pending s1 = Some k" and "sc_sendSizeEncoded s = sc_sendSizeEncoded s0 + length bytes"
    and "\<And>f. sc_idle s f = sc_idle s0 f"
  shows "sc_sends (Suc n) (Inr (s1, [Line bytes])) s0 (bytes @ bs)"
proof -
  obtain f lines where "concat lines = bs" and
    "sc_run n (sc_line_done s1) = Some (prefixed (map Line lines @ [Message_sent (sc_sendSizeEncoded s + length bs)]) (sc_check_ready (sc_idle s f)))"
    using assms(1) by (auto simp: sc_sends_def)
  then show ?thesis unfolding sc_sends_def sc_run_callback [OF assms(2)]
    using assms(3,4) by (intro exI [of _ f] exI [of _ "bytes # lines"]) (simp add: add.assoc)
qed

lemma sc_sends_same:
  "sc_sends n r s bs \<Longrightarrow> sc_sendSizeEncoded s' = sc_sendSizeEncoded s \<Longrightarrow> (\<And>f. sc_idle s' f = sc_idle s f) \<Longrightarrow> sc_sends n r s' bs"
  by (simp add: sc_sends_def)

lemma sc_idle_simps [simp]:
  "sc_idle (s\<lparr>sc_dataToSend := d\<rparr>) f = sc_idle s f" "sc_idle (s\<lparr>sc_frameSize := b\<rparr>) f = sc_idle s f"
  "sc_idle (s\<lparr>sc_sendSizeEncoded := n\<rparr>) f = sc_idle s f" "sc_idle (s\<lparr>sc_pending := k\<rparr>) f = sc_idle s f"
  "sc_idle (s\<lparr>sc_sendingUserData := u\<rparr>) f = sc_idle s f"
  by (cases s; simp add: sc_idle_def)+

lemma sc_find_delimiter_frame: "sc_find_delimiter s = of_nat (frame_length (sc_dataToSend s))"
  by (simp add: sc_find_delimiter_def frame_length_def)

lemma sc_sends_frames:
  assumes "sc_dataToSend s = xs" and "\<not> sc_resetting s"
  shows "\<exists>fuel \<le> 2 * length xs + 3. sc_sends fuel (sc_send_frame s) s (cobs_frames xs @ [0])"
  using assms
proof (induction xs arbitrary: s rule: cobs_frames.induct)
  case (1 xs)
  let ?n = "frame_length xs" and ?rest = "drop (frame_length xs) xs"
  let ?b = "of_nat (?n + 1) :: byte"
  let ?tail = "(if ?rest = [] then [] else if ?n = 254 then cobs_frames ?rest else cobs_frames (tl ?rest)) @ [0]"
  have n: "?n \<le> length xs" "?n \<le> 254" by (rule frame_length_le)+
  have size: "unat (of_nat ?n :: byte) = ?n" using n by simp
  have "((of_nat ?n :: byte) = 254) = (unat (of_nat ?n :: byte) = unat (254 :: byte))" by (simp only: word_unat_eq_iff)
  then have full: "((of_nat ?n :: byte) = 254) = (?n = 254)" unfolding size by simp
  have zero: "((of_nat ?n :: byte) = 0) = (?n = 0)" using n by (intro of_nat_u8_eq_0_iff) simp
  define sA where "sA = s\<lparr>sc_frameSize := ?b, sc_sendSizeEncoded := sc_sendSizeEncoded s + 1, sc_pending := Some Sent_overhead\<rparr>"
  define sC where "sC = s\<lparr>sc_frameSize := of_nat ?n, sc_sendSizeEncoded := sc_sendSizeEncoded s + 1, sc_pending := None\<rparr>"
  have tail: "\<exists>fuel \<le> 2 * length xs + 1. sc_sends fuel (sc_send_frame_done s1) s1 ?tail"
    if s1: "sc_dataToSend s1 = xs" "sc_frameSize s1 = of_nat ?n" "\<not> sc_resetting s1" for s1
  proof -
    consider (last) "?rest = []" | (full) "?rest \<noteq> []" "?n = 254" | (zero) "?rest \<noteq> []" "?n \<noteq> 254" by blast
    then show ?thesis
    proof cases
      case last
      then have "sc_send_frame_done s1 = sc_send_or_done (s1\<lparr>sc_dataToSend := []\<rparr>)"
        using s1 size full by (auto simp: sc_send_frame_done_def Let_def)
      moreover have "sc_sends 1 (sc_send_or_done (s1\<lparr>sc_dataToSend := []\<rparr>)) s1 [0]"
        using s1 by (intro sc_sends_same [OF sc_sends_last]) simp_all
      ultimately show ?thesis using last by (intro exI [of _ 1]) simp
    next
      case full
      let ?s2 = "s1\<lparr>sc_dataToSend := ?rest\<rparr>"
      have "sc_send_frame_done s1 = sc_send_frame ?s2"
        using full s1 \<open>((of_nat ?n :: byte) = 254) = (?n = 254)\<close> by (simp add: sc_send_frame_done_def sc_send_or_done_def Let_def)
      moreover obtain fuel where "fuel \<le> 2 * length ?rest + 3" "sc_sends fuel (sc_send_frame ?s2) ?s2 (cobs_frames ?rest @ [0])"
        using 1(1) [OF refl refl full, of ?s2] s1 by auto
      ultimately show ?thesis using full n by (intro exI [of _ fuel]) (auto intro: sc_sends_same)
    next
      case zero
      let ?s2 = "s1\<lparr>sc_dataToSend := tl ?rest\<rparr>"
      have "sc_send_frame_done s1 = sc_send_frame ?s2"
        using zero s1 size full by (simp add: sc_send_frame_done_def Let_def)
      moreover obtain fuel where "fuel \<le> 2 * length (tl ?rest) + 3" "sc_sends fuel (sc_send_frame ?s2) ?s2 (cobs_frames (tl ?rest) @ [0])"
        using 1(2) [OF refl refl zero, of ?s2] s1 by auto
      ultimately show ?thesis using zero n by (intro exI [of _ fuel]) (auto intro: sc_sends_same)
    qed
  qed
  have start: "sc_send_frame s = Inr (sA, [Line [?b]])"
    using 1(3) by (simp add: sc_send_frame_def sc_send_def sc_find_delimiter_frame Let_def add.commute sA_def)
  have frames: "cobs_frames xs @ [0] = [?b] @ take ?n xs @ ?tail"
    by (subst cobs_frames.simps) (simp add: Let_def)
  have C: "sc_dataToSend sC = xs" "sc_frameSize sC = of_nat ?n" "\<not> sc_resetting sC" using 1(3,4) by (simp_all add: sC_def)
  have after: "\<exists>fuel \<le> 2 * length xs + 2. sc_sends fuel (sc_line_done sA) sC (take ?n xs @ ?tail)"
  proof (cases "?n = 0")
    case True
    then have "sc_line_done sA = sc_send_frame_done sC"
      using 1(3,4) by (cases s) (simp add: sc_line_done_def sc_overhead_sent_def Let_def sA_def sC_def)
    moreover obtain fuel where "fuel \<le> 2 * length xs + 1" "sc_sends fuel (sc_send_frame_done sC) sC ?tail"
      using tail [OF C] by blast
    ultimately show ?thesis using True by (intro exI [of _ fuel]) auto
  next
    case False
    define sB where "sB = sC\<lparr>sc_sendSizeEncoded := sc_sendSizeEncoded sC + ?n, sc_pending := Some Sent_data\<rparr>"
    have sent: "sc_line_done sA = Inr (sB, [Line (take ?n xs)])"
      using 1(3,4) False zero size n
      by (cases s) (simp add: sc_line_done_def sc_overhead_sent_def sc_send_data_def sc_send_def Let_def sA_def sB_def sC_def min_absorb2)
    have B: "sc_dataToSend (sB\<lparr>sc_pending := None\<rparr>) = xs" "sc_frameSize (sB\<lparr>sc_pending := None\<rparr>) = of_nat ?n"
        "\<not> sc_resetting (sB\<lparr>sc_pending := None\<rparr>)"
      using C by (simp_all add: sB_def)
    have done_B: "sc_line_done sB = sc_send_frame_done (sB\<lparr>sc_pending := None\<rparr>)" by (simp add: sc_line_done_def sB_def)
    obtain fuel where fuel: "fuel \<le> 2 * length xs + 1" "sc_sends fuel (sc_line_done sB) (sB\<lparr>sc_pending := None\<rparr>) ?tail"
      using tail [OF B] unfolding done_B by blast
    have "sc_sends (Suc fuel) (Inr (sB, [Line (take ?n xs)])) sC (take ?n xs @ ?tail)"
      using n by (intro sc_sends_line [OF fuel(2)]) (simp_all add: sB_def min_absorb2)
    then show ?thesis unfolding sent using fuel(1) by auto
  qed
  then obtain fuel where fuel: "fuel \<le> 2 * length xs + 2" "sc_sends fuel (sc_line_done sA) sC (take ?n xs @ ?tail)" by blast
  have "sc_sends (Suc fuel) (Inr (sA, [Line [?b]])) s ([?b] @ take ?n xs @ ?tail)"
    by (intro sc_sends_line [OF fuel(2)]) (simp_all add: sA_def sC_def)
  then show ?case unfolding start frames using fuel(1) by (intro exI [of _ "Suc fuel"]) simp
qed

text \<open>The bytes of a packet: the first one on a line starts with a delimiter.\<close>

definition sesame_packet :: "bool \<Rightarrow> byte list \<Rightarrow> byte list" where
  "sesame_packet first xs = (if first then [0] else []) @ (if xs = [] then [] else cobs_frames xs) @ [0]"

lemma sc_sends_or_done:
  assumes "\<not> sc_resetting s"
  shows "\<exists>fuel \<le> 2 * length (sc_dataToSend s) + 3. sc_sends fuel (sc_send_or_done s) s (sesame_packet False (sc_dataToSend s))"
proof (cases "sc_dataToSend s = []")
  case True
  then show ?thesis using sc_sends_last [OF True assms] by (intro exI [of _ 1]) (simp add: sesame_packet_def)
next
  case False
  then show ?thesis using sc_sends_frames [OF refl assms] assms by (simp add: sesame_packet_def sc_send_or_done_def)
qed

lemma sc_sends_packet:
  assumes "\<not> sc_resetting s"
  shows "\<exists>fuel \<le> 2 * vec_size (sc_sendStorage s) + 4. sc_sends fuel (sc_send_stream_filled s) (s\<lparr>sc_sendingFirstPacket := False\<rparr>)
    (sesame_packet (sc_sendingFirstPacket s) (vec_range (sc_sendStorage s)))"
proof -
  define s1 where "s1 = s\<lparr>sc_sendingUserData := True, sc_dataToSend := vec_range (sc_sendStorage s)\<rparr>"
  show ?thesis
  proof (cases "sc_sendingFirstPacket s")
    case False
    then have same: "s\<lparr>sc_sendingFirstPacket := False\<rparr> = s" by (cases s) simp
    have "sc_send_stream_filled s = sc_send_or_done s1" using False by (simp add: sc_send_stream_filled_def Let_def s1_def)
    moreover obtain fuel where "fuel \<le> 2 * length (sc_dataToSend s1) + 3"
        "sc_sends fuel (sc_send_or_done s1) s1 (sesame_packet False (sc_dataToSend s1))"
      using sc_sends_or_done [of s1] assms by (auto simp: s1_def)
    moreover have "sc_sends fuel (sc_send_or_done s1) s (sesame_packet False (sc_dataToSend s1))"
      using calculation(3) by (rule sc_sends_same) (simp_all add: s1_def)
    ultimately show ?thesis unfolding same using False by (intro exI [of _ fuel]) (simp add: s1_def)
  next
    case True
    define s2 where "s2 = s1\<lparr>sc_sendingFirstPacket := False, sc_sendSizeEncoded := sc_sendSizeEncoded s1 + 1, sc_pending := None\<rparr>"
    have filled: "sc_send_stream_filled s = Inr (s2\<lparr>sc_pending := Some Sent_first_delimiter\<rparr>, [Line [0]])"
      using True by (simp add: sc_send_stream_filled_def sc_send_first_delimiter_def sc_send_def Let_def s1_def s2_def)
    obtain fuel where fuel: "fuel \<le> 2 * length (sc_dataToSend s2) + 3"
        "sc_sends fuel (sc_send_or_done s2) s2 (sesame_packet False (sc_dataToSend s2))"
      using sc_sends_or_done [of s2] assms by (auto simp: s1_def s2_def)
    have next_line: "sc_line_done (s2\<lparr>sc_pending := Some Sent_first_delimiter\<rparr>) = sc_send_or_done s2"
      by (simp add: sc_line_done_def s2_def)
    have "sc_sends (Suc fuel) (Inr (s2\<lparr>sc_pending := Some Sent_first_delimiter\<rparr>, [Line [0]])) (s\<lparr>sc_sendingFirstPacket := False\<rparr>)
        ([0] @ sesame_packet False (sc_dataToSend s2))"
      by (intro sc_sends_line [where s = s2]) (use fuel(2) in \<open>simp_all add: next_line\<close>, simp_all add: s1_def s2_def sc_idle_def)
    then show ?thesis unfolding filled using fuel(1) True
      by (intro exI [of _ "Suc fuel"]) (simp add: sesame_packet_def s1_def s2_def)
  qed
qed

text \<open>C36: \<open>Reset\<close> in the middle of a message stops it: with the next one or two callbacks of the line at
  most one more byte is sent (the overhead of the next frame, when the line was sending data), the old
  message is never reported as sent, a request that is made in the meantime then gets its stream, and
  the next packet starts with a delimiter again, which ends what the receiver has of the old message.\<close>

theorem sesame_reset_stops:
  assumes "sc_pending s = Some k" and "sc_sendingUserData s" and "\<not> sc_streamTaken s"
  shows "\<exists>s1 bytes. length bytes \<le> 1 \<and>
    sc_run 2 (rbind (sc_reset s) (\<lambda>(s1, _). sc_request_send_message s1 n)) =
      Some (Inr (s1, map (\<lambda>b. Line [b]) bytes @ [Stream_available n])) \<and>
    sc_sendingFirstPacket s1 \<and> \<not> sc_sendingUserData s1 \<and> \<not> sc_resetting s1 \<and> sc_sendSizeEncoded s1 = 0 \<and> sc_sendReqestedSize s1 = None"
proof -
  define s0 where "s0 = s\<lparr>sc_sendStorage := (sc_sendStorage s)\<lparr>vec_numAllocated := 0\<rparr>, sc_sendingFirstPacket := True,
    sc_sendReqestedSize := Some n, sc_resetting := True\<rparr>"
  have start: "rbind (sc_reset s) (\<lambda>(s1, _). sc_request_send_message s1 n) = Inr (s0, [])"
    using assms(2,3) by (cases s) (simp add: sc_reset_def sc_request_send_message_def sc_check_ready_def Let_def s0_def)
  have s0: "sc_pending s0 = Some k" "sc_sendingFirstPacket s0" "\<not> sc_streamTaken s0" "sc_resetting s0" "sc_sendReqestedSize s0 = Some n"
    "sc_sendingUserData s0"
    using assms by (simp_all add: s0_def)
  define s1 where "s1 = (\<lambda>t :: sc_sender. t\<lparr>sc_resetting := False, sc_sendingUserData := False, sc_sendSizeEncoded := 0,
    sc_sendReqestedSize := None, sc_streamTaken := True\<rparr>)"
  have finish: "sc_finish_reset t = Inr (s1 t, [Stream_available n])"
    if "\<not> sc_streamTaken t" "sc_sendReqestedSize t = Some n" for t
    using that by (cases t) (simp add: sc_finish_reset_def sc_check_ready_def s1_def)
  have ends: "\<exists>t bytes. length bytes \<le> 1 \<and> sc_run 2 (Inr (s0, [])) = Some (Inr (s1 t, map (\<lambda>b. Line [b]) bytes @ [Stream_available n])) \<and>
    sc_sendingFirstPacket t"
  proof -
    consider (stop) t where "sc_line_done s0 = sc_finish_reset t" "\<not> sc_streamTaken t" "sc_sendReqestedSize t = Some n"
        "sc_pending t = None" "sc_sendingFirstPacket t"
      | (frame) t where "sc_line_done s0 = sc_send_frame t" "\<not> sc_streamTaken t" "sc_sendReqestedSize t = Some n"
        "sc_resetting t" "sc_sendingFirstPacket t"
    proof (cases k)
      case Sent_data
      define w where "w = s0\<lparr>sc_pending := None,
        sc_dataToSend := drop (if sc_frameSize s0 = 254 then 254 else unat (sc_frameSize s0)) (sc_dataToSend s0)\<rparr>"
      have w: "\<not> sc_streamTaken w" "sc_sendReqestedSize w = Some n" "sc_pending w = None" "sc_sendingFirstPacket w" "sc_resetting w"
        using s0 by (simp_all add: w_def)
      have "sc_line_done s0 = (if sc_dataToSend w = [] \<or> sc_frameSize w = 254 then sc_finish_reset w
          else sc_send_frame (w\<lparr>sc_dataToSend := tl (sc_dataToSend w)\<rparr>))"
        using Sent_data s0 by (simp add: sc_line_done_def sc_send_frame_done_def sc_send_or_done_def Let_def w_def)
      then show ?thesis using that(1) [of w] that(2) [of "w\<lparr>sc_dataToSend := tl (sc_dataToSend w)\<rparr>"] w
        by (cases "sc_dataToSend w = [] \<or> sc_frameSize w = 254") simp_all
    qed (use that s0 in \<open>auto simp: sc_line_done_def Let_def sc_send_or_done_def sc_overhead_sent_def sc_last_delimiter_sent_def split: if_splits\<close>)
    then show ?thesis
    proof cases
      case stop
      have "sc_run 2 (Inr (s0, [])) = Some (Inr (s1 t, [Stream_available n]))"
        using stop s0(1) finish [of t] sc_run_idle [of "s1 t" 1] by (simp add: numeral_2_eq_2 s1_def)
      then show ?thesis using stop by (intro exI [of _ t] exI [of _ "[]"]) simp
    next
      case frame
      define u where "u = t\<lparr>sc_frameSize := sc_find_delimiter t + 1, sc_sendSizeEncoded := sc_sendSizeEncoded t + 1, sc_pending := Some Sent_overhead\<rparr>"
      define v where "v = u\<lparr>sc_pending := None, sc_frameSize := sc_frameSize u - 1\<rparr>"
      have "sc_line_done s0 = Inr (u, [Line [sc_frameSize u]])"
        using frame by (simp add: sc_send_frame_def sc_send_def Let_def u_def)
      moreover have "sc_line_done u = Inr (s1 v, [Stream_available n])"
        using frame finish [of v] by (simp add: sc_line_done_def sc_overhead_sent_def Let_def u_def v_def)
      moreover have "sc_pending (s1 v) = None" "sc_pending u = Some Sent_overhead" by (simp_all add: s1_def u_def v_def)
      ultimately have "sc_run 2 (Inr (s0, [])) = Some (Inr (s1 v, [Line [sc_frameSize u], Stream_available n]))"
        using s0(1) by (simp add: numeral_2_eq_2)
      then show ?thesis using frame by (intro exI [of _ v] exI [of _ "[sc_frameSize u]"]) (simp add: u_def v_def)
    qed
  qed
  show ?thesis unfolding start using ends by (fastforce simp: s1_def)
qed

theorem sesame_reset_stops_witness:
  "\<exists>s1 bytes. length bytes \<le> 1 \<and>
    sc_run 2 (rbind (sc_reset ((sc_new (vec_new [0, 0, 0]))\<lparr>sc_pending := Some Sent_data, sc_sendingUserData := True,
        sc_sendingFirstPacket := False, sc_dataToSend := [5, 0, 7], sc_frameSize := 1, sc_sendSizeEncoded := 2\<rparr>))
      (\<lambda>(s1, _). sc_request_send_message s1 4)) =
      Some (Inr (s1, map (\<lambda>b. Line [b]) bytes @ [Stream_available 4])) \<and> sc_sendingFirstPacket s1"
  using sesame_reset_stops [of "(sc_new (vec_new [0, 0, 0]))\<lparr>sc_pending := Some Sent_data, sc_sendingUserData := True,
        sc_sendingFirstPacket := False, sc_dataToSend := [5, 0, 7], sc_frameSize := 1, sc_sendSizeEncoded := 2\<rparr>" Sent_data 4]
  by (auto simp: sc_new_def)

end
