(* ===== verification/Sesame_Progress.thy ===== *)
theory Sesame_Progress
  imports Sesame_Network Sesame_Cobs_Sender
begin

text \<open>
  Every request to send is granted: when the clients ask for nothing more, two connected
  SesameWindowed components can only take a bounded number of steps, and when no step is left no
  request is waiting. The size of an encoded message is that of \<open>SesameCobs\<close>
  (services/sesame/SesameCobs.cpp).
\<close>

section \<open>Steps that grant requests\<close>

definition waiting :: "network \<Rightarrow> bool \<Rightarrow> nat option" where
  "waiting n i = win_requestedSendMessageSize (pr_node (nt_peer n i))"

definition serve_step :: "(nat \<Rightarrow> nat) \<Rightarrow> network \<Rightarrow> network \<Rightarrow> bool" where
  "serve_step ms n n' \<longleftrightarrow> win_step ms n n' \<and> (\<forall>i. waiting n' i = None \<or> waiting n' i = waiting n i)"

text \<open>What is left to do: a request counts for more than all of the window, a byte to be given back
  for more than the steps that one message takes.\<close>

definition peer_work :: "peer \<Rightarrow> nat" where
  "peer_work p = (if win_requestedSendMessageSize (pr_node p) = None then 0 else 1000000) +
     6 * (win_held (pr_node p) + unat (win_releasedWindow (pr_node p))) +
     (if pr_requested p then 0 else 1) + (if pr_written p = None then 0 else 1) + (if pr_inside p then 1 else 0) +
     (if win_receivedMessageReader (pr_node p) = None then 0 else 1)"

definition channel_work :: "(byte list \<times> nat) list \<Rightarrow> nat" where
  "channel_work ch = 6 * under_way ch + 3 * length ch"

definition work :: "network \<Rightarrow> nat" where
  "work n = (\<Sum>i\<in>{False, True}. peer_work (nt_peer n i) + channel_work (nt_channel n i))"

lemma work_sides:
  "work n = peer_work (nt_peer n i) + channel_work (nt_channel n i) + peer_work (nt_peer n (\<not> i)) + channel_work (nt_channel n (\<not> i))"
  by (cases i) (simp_all add: work_def)

lemma next_waiting [simp]: "win_requestedSendMessageSize (fst (win_set_next_state ms s)) = win_requestedSendMessageSize s"
  by (simp add: next_state_defs split: option.split)

lemma next_held [simp]: "win_held (fst (win_set_next_state ms s)) = win_held s"
  by (simp add: win_held_def)

lemma unat_add_u16_le: "unat (w + x :: u16) \<le> unat w + unat x"
  by (simp add: unat_word_ariths)

lemma unat_of_nat_u16_le: "unat (of_nat e :: u16) \<le> e"
  by (simp add: unat_of_nat)

text \<open>The window and the message that is written change no work but that of being written.\<close>

lemma work_sent:
  assumes "pr_written p = Some e" and "\<not> pr_requested p"
  shows "peer_work (pr_do (win_message_sent ms (pr_node p) e) (p\<lparr>pr_written := None\<rparr>)) < peer_work p"
  using assms by (cases "win_state (pr_node p)") (auto simp: peer_work_def win_message_sent_def win_held_def)

lemma work_finish:
  assumes "pr_inside p"
  shows "peer_work (pr_do (win_set_next_state ms (pr_node p)) (p\<lparr>pr_inside := False\<rparr>)) < peer_work p"
  using assms by (auto simp: peer_work_def)

lemma work_release:
  assumes "win_receivedMessageReader (pr_node p) \<noteq> None" and "win_readerAction (pr_node p) \<noteq> None"
  shows "peer_work (pr_do (win_reader_released ms (pr_node p)) p) < peer_work p"
proof -
  obtain a where a: "win_readerAction (pr_node p) = Some a" using assms(2) by blast
  show ?thesis using assms a unat_add_u16_le [of "win_releasedWindow (pr_node p)" a]
    by (auto simp: peer_work_def win_reader_released_def win_held_def)
qed

lemma work_receive:
  assumes "\<not> pr_inside p" and "win_receivedMessageReader (pr_node p) = None" and "win_initialized (pr_node p)" and "packet_ok (bytes, e)"
  shows "peer_work (pr_do (win_received (pr_node p) bytes e) (p\<lparr>pr_inside := True\<rparr>)) + channel_work rest <
    peer_work p + channel_work ((bytes, e) # rest)"
proof -
  have "unat (win_releasedWindow (pr_node p) + of_nat e) \<le> unat (win_releasedWindow (pr_node p)) + e"
    using unat_add_u16_le [of "win_releasedWindow (pr_node p)" "of_nat e"] unat_of_nat_u16_le [of e] by linarith
  with assms unat_of_nat_u16_le [of e] show ?thesis
    by (auto simp: peer_work_def channel_work_def under_way_def win_received_def win_forward_received_message_def packet_ok_def
        win_held_def Let_def simp del: unsigned_of_nat)
qed

lemma work_stream:
  assumes p: "peer_base ms p (pr_node p)" and "mono ms" and req: "pr_requested p"
    and avail: "win_send_message_stream_available (pr_node p) = Inr (s, header, calls)"
    and fits: "payload_fits (win_state (pr_node p)) payload"
    and enc: "encoded_ok ms (win_state (pr_node p)) (header @ payload) e"
  shows "peer_work (p\<lparr>pr_node := s, pr_requested := False, pr_written := Some e\<rparr>) + channel_work (ch @ [(header @ payload, e)]) <
    peer_work p + channel_work ch"
proof -
  let ?s = "pr_node p"
  have base: "pr_written p = None" "win_state ?s \<noteq> Sending_init"
    "send_allowed ms (win_state ?s) (win_requestedSendMessageSize ?s) (unat (win_releasedWindow ?s)) (unat (win_otherAvailableWindow ?s))"
    using p req by (simp_all add: peer_base_def)
  consider (message) k where "win_state ?s = Sending_message k" | (release) "win_state ?s = Sending_release_window"
    using p req by (cases "win_state ?s") (auto simp: peer_base_def)
  then show ?thesis
  proof cases
    case (message k)
    have s: "s = ?s\<lparr>win_requestedSendMessageSize := None\<rparr>" and h: "header = [4]"
      using avail message by (auto simp: win_send_message_stream_available_def)
    have "ms (length (header @ payload)) \<le> ms k"
      using fits message h by (intro monoD [OF assms(2)]) (simp add: payload_fits_def)
    then have "e \<le> unat (win_otherAvailableWindow ?s)" using enc base(3) message by (simp add: encoded_ok_def)
    then have "e < 65536" using unat_u16_less le_less_trans by blast
    then show ?thesis using base req message s by (simp add: peer_work_def channel_work_def under_way_def win_held_def)
  next
    case release
    have s: "s = ?s\<lparr>win_releasedWindow := 0\<rparr>" and h: "header = packet_release_window (win_releasedWindow ?s)"
      using avail release by (auto simp: win_send_message_stream_available_def)
    have "payload = []" "length header = 3" using fits release by (simp_all add: payload_fits_def h packet_release_window_def le16_def)
    then have "e < unat (win_releasedWindow ?s)" using enc base(3) release by (simp add: encoded_ok_def)
    then show ?thesis using base req release s by (simp add: peer_work_def channel_work_def under_way_def win_held_def)
  qed
qed

section \<open>Steps grant requests\<close>

lemma serve_step_work:
  assumes "serve_step ms n n'" and ok: "network_ok ms n" and "mono ms"
  shows "work n' < work n"
proof -
  have steps: "win_step ms n n'" and serve: "\<And>i. waiting n' i = None \<or> waiting n' i = waiting n i"
    using assms(1) by (simp_all add: serve_step_def)
  have base: "peer_base ms (nt_peer n i) (pr_node (nt_peer n i))" for i using peer_okE [OF network_okE(1) [OF ok]] .
  from steps show ?thesis
  proof cases
    case (stream p i s header calls payload e)
    then show ?thesis using work_stream [OF base assms(3), of i s header calls payload e "nt_channel n i"] work_sides [of _ i] by simp
  next
    case (sent p i e)
    then have "\<not> pr_requested p" using base [of i] by (simp add: peer_base_def)
    then show ?thesis using sent work_sent work_sides [of _ i] by simp
  next
    case (receive p i bytes e rest)
    have "win_initialized (pr_node p)" "packet_ok (bytes, e)"
      using receive base [of i] network_okE(2) [OF ok, of "\<not> i"] by (simp_all add: peer_base_def)
    then show ?thesis using receive work_receive [of p bytes e rest] work_sides [of _ i] by simp
  next
    case (finish p i)
    then show ?thesis using work_finish work_sides [of _ i] by simp
  next
    case (request p i m k)
    then have "waiting n' i = Some k" "waiting n i = None" by (simp_all add: waiting_def win_request_send_message_def Let_def)
    then show ?thesis using serve [of i] by simp
  next
    case (release p i)
    then have "win_readerAction (pr_node p) \<noteq> None" using base [of i] by (simp add: peer_base_def)
    then show ?thesis using release work_release work_sides [of _ i] by simp
  qed
qed

lemma serve_run:
  assumes "(serve_step ms ^^ k) n n'" and "network_ok ms n" and "ms 3 < 65536" and "mono ms"
  shows "k + work n' \<le> work n \<and> network_ok ms n'"
  using assms(1)
proof (induction k arbitrary: n')
  case 0
  then show ?case using assms(2) by simp
next
  case (Suc k)
  then obtain n1 where "(serve_step ms ^^ k) n n1" and n1: "serve_step ms n1 n'" by auto
  with Suc.IH have "k + work n1 \<le> work n" "network_ok ms n1" by blast+
  moreover from n1 have "win_step ms n1 n'" by (simp add: serve_step_def)
  ultimately show ?case using serve_step_work [OF n1] win_step_network_ok assms(3,4) by fastforce
qed

lemma own_size_step:
  assumes "win_step ms n n'"
  shows "win_ownBufferSize (pr_node (nt_peer n' j)) = win_ownBufferSize (pr_node (nt_peer n j))"
  using assms
  by cases (auto simp: win_message_sent_def win_received_def win_received_initialize_def win_forward_received_message_def Let_def
      win_request_send_message_def win_reader_released_def win_send_message_stream_available_def
      split: win_state.splits option.splits)

lemma own_size_steps:
  "(win_step ms)\<^sup>*\<^sup>* n n' \<Longrightarrow> win_ownBufferSize (pr_node (nt_peer n' j)) = win_ownBufferSize (pr_node (nt_peer n j))"
  by (induction rule: rtranclp_induct) (auto simp: own_size_step)

lemma own_size_run:
  "(serve_step ms ^^ k) n n' \<Longrightarrow> win_ownBufferSize (pr_node (nt_peer n' j)) = win_ownBufferSize (pr_node (nt_peer n j))"
  by (induction k arbitrary: n') (auto simp: serve_step_def own_size_step)

section \<open>No request waits when nothing is left to do\<close>

definition quiet :: "network \<Rightarrow> bool" where
  "quiet n \<longleftrightarrow> (\<forall>i. \<not> pr_inside (nt_peer n i) \<and> \<not> pr_requested (nt_peer n i) \<and> pr_written (nt_peer n i) = None \<and>
     win_receivedMessageReader (pr_node (nt_peer n i)) = None \<and> nt_channel n i = [])"

lemma serve_stepI:
  "win_step ms n n' \<Longrightarrow> nt_peer n' = (nt_peer n)(i := p') \<Longrightarrow>
   win_requestedSendMessageSize (pr_node p') = None \<or> win_requestedSendMessageSize (pr_node p') = waiting n i \<Longrightarrow> serve_step ms n n'"
  by (auto simp: serve_step_def waiting_def)

lemma serve_finish: "pr_inside (nt_peer n i) \<Longrightarrow> \<exists>n'. serve_step ms n n'"
  by (rule exI, rule serve_stepI [OF win_step.finish [of _ n i]]) (auto simp: waiting_def)

lemma serve_sent:
  assumes "\<not> pr_inside (nt_peer n i)" and "pr_written (nt_peer n i) = Some e"
  shows "\<exists>n'. serve_step ms n n'"
  by (rule exI, rule serve_stepI [OF win_step.sent [of _ n i]])
    (use assms in \<open>auto simp: waiting_def win_message_sent_def split: win_state.split\<close>)

lemma serve_release: "win_receivedMessageReader (pr_node (nt_peer n i)) \<noteq> None \<Longrightarrow> \<exists>n'. serve_step ms n n'"
  by (rule exI, rule serve_stepI [OF win_step.release [of _ n i]])
    (auto simp: waiting_def win_reader_released_def split: option.split)

lemma received_waiting: "win_requestedSendMessageSize (fst (win_received s bytes e)) = win_requestedSendMessageSize s"
  by (simp add: win_received_def win_received_initialize_def win_forward_received_message_def Let_def)

lemma serve_receive:
  assumes "\<not> pr_inside (nt_peer n i)" and "win_receivedMessageReader (pr_node (nt_peer n i)) = None" and "nt_channel n (\<not> i) \<noteq> []"
  shows "\<exists>n'. serve_step ms n n'"
proof -
  obtain bytes e rest where "nt_channel n (\<not> i) = (bytes, e) # rest" using assms(3) by (cases "nt_channel n (\<not> i)") auto
  from win_step.receive [OF refl assms(1,2) this, of ms]
  have "serve_step ms n ((nt_put n i (pr_do (win_received (pr_node (nt_peer n i)) bytes e) ((nt_peer n i)\<lparr>pr_inside := True\<rparr>)))
      \<lparr>nt_channel := (nt_channel n)(\<not> i := rest)\<rparr>)"
    by (rule serve_stepI) (simp, simp add: waiting_def received_waiting)
  then show ?thesis by blast
qed

lemma serve_stream:
  assumes ok: "network_ok ms n" and req: "pr_requested (nt_peer n i)"
  shows "\<exists>n'. serve_step ms n n'"
proof -
  let ?s = "pr_node (nt_peer n i)"
  have p: "peer_base ms (nt_peer n i) ?s" using peer_okE [OF network_okE(1) [OF ok]] .
  obtain s header calls where avail: "win_send_message_stream_available ?s = Inr (s, header, calls)"
    and fits: "payload_fits (win_state ?s) []" and s: "win_requestedSendMessageSize s = None \<or> win_requestedSendMessageSize s = waiting n i"
    using p req by (cases "win_state ?s") (auto simp: peer_base_def win_send_message_stream_available_def payload_fits_def waiting_def)
  have "encoded_ok ms (win_state ?s) (header @ []) 0" by (simp add: encoded_ok_def)
  from serve_stepI [OF win_step.stream [OF refl req avail fits this], where i = i] s
  have "serve_step ms n ((nt_put n i ((nt_peer n i)\<lparr>pr_node := s, pr_requested := False, pr_written := Some 0\<rparr>))
      \<lparr>nt_channel := (nt_channel n)(i := nt_channel n i @ [(header @ [], 0)])\<rparr>)" by simp
  then show ?thesis by blast
qed

lemma stuck_quiet:
  assumes "network_ok ms n" and stuck: "\<nexists>n'. serve_step ms n n'"
  shows "quiet n"
proof -
  have "\<not> pr_inside (nt_peer n i) \<and> \<not> pr_requested (nt_peer n i) \<and> win_receivedMessageReader (pr_node (nt_peer n i)) = None" for i
    using serve_finish serve_stream [OF assms(1)] serve_release stuck by blast
  note here = this
  have "pr_written (nt_peer n i) = None" for i
    using serve_sent [of n i] here [of i] stuck by (cases "pr_written (nt_peer n i)") blast+
  moreover have "nt_channel n i = []" for i using serve_receive [of n "\<not> i"] here [of "\<not> i"] stuck by auto
  ultimately show ?thesis using here unfolding quiet_def by blast
qed

lemma max_send_message_size:
  assumes "win_initialized s" and "win_releaseWindowSize s = 5"
    and M: "M = min (unat (win_ownBufferSize s)) (unat (win_maxUsableBufferSize s))" "9 \<le> M"
  shows "win_max_send_message_size sc_message_size s = Inr ((M - 9) div 2)"
proof -
  let ?m = "min (win_ownBufferSize s) (win_maxUsableBufferSize s)"
  have m: "unat ?m = M" using M(1) by (simp add: min_def word_le_nat_alt)
  have u: "unat (ucast ?m :: u32) = M" using m unat_u16_less [of ?m] by (simp add: unsigned_ucast_eq take_bit_eq_mod)
  have "ucast ?m - 1 - 5 - 3 = (ucast ?m - of_nat 9 :: u32)" by simp
  moreover have "unat (ucast ?m - of_nat 9 :: u32) = M - 9"
    using u M(2) by (subst unat_sub) (simp_all add: word_le_nat_alt)
  ultimately show ?thesis using assms(1,2)
    by (simp add: win_max_send_message_size_def sc_message_size_def unat_div)
qed

lemma idle_no_release:
  assumes "win_initialized s" "\<not> win_sendInitResponse s" "win_releaseWindowSize s = of_nat (ms 3)" "\<not> win_sending s"
    and "snd (win_set_next_state ms s) = []" and "ms 3 < 65536"
  shows "\<not> (ms 3 < unat (win_releasedWindow s) \<and> ms 3 \<le> unat (win_otherAvailableWindow s))"
  using assms
  by (auto simp: win_set_next_state_def win_send_def word_less_nat_alt word_le_nat_alt split: option.splits if_splits)

lemma idle_no_message:
  assumes "win_initialized s" "\<not> win_sendInitResponse s" "win_releaseWindowSize s = of_nat (ms 3)" "\<not> win_sending s"
    and "snd (win_set_next_state ms s) = []" and "win_requestedSendMessageSize s = Some k" and "ms 3 < 65536"
  shows "unat (win_otherAvailableWindow s) < ms (k + 1) + ms 3"
  using assms by (auto simp: win_set_next_state_def win_send_def split: if_splits)

text \<open>When both buffers have at least the size that \<open>bufferSizeForMessage\<close> computes for a message
  size, \<open>MaxSendMessageSize\<close> allows messages of that size.\<close>

lemma sesame_buffer_size_sufficient:
  assumes "win_initialized s" and "win_releaseWindowSize s = 5"
    and "buffer_size_for_message sc_message_size m \<le> unat (win_ownBufferSize s)"
    and "buffer_size_for_message sc_message_size m \<le> unat (win_maxUsableBufferSize s)"
  shows "\<exists>k. win_max_send_message_size sc_message_size s = Inr k \<and> m \<le> k"
proof -
  define M where "M = min (unat (win_ownBufferSize s)) (unat (win_maxUsableBufferSize s))"
  have "buffer_size_for_message sc_message_size m \<le> M" using assms(3,4) by (simp add: M_def)
  then have "2 * m + 11 \<le> M" by (simp add: buffer_size_for_message_def sc_message_size_def)
  then have "9 \<le> M" "m \<le> (M - 9) div 2" by linarith+
  with max_send_message_size [OF assms(1,2) M_def] show ?thesis by simp
qed

lemma sesame_buffer_size_sufficient_witness:
  "let s = fst (win_received_initialize ((fst (win_new sc_message_size 69))\<lparr>win_otherAvailableWindow := 69\<rparr>))
   in \<exists>k. win_max_send_message_size sc_message_size s = Inr k \<and> 29 \<le> k"
proof -
  let ?s = "fst (win_received_initialize ((fst (win_new sc_message_size 69))\<lparr>win_otherAvailableWindow := 69\<rparr>))"
  have "\<exists>k. win_max_send_message_size sc_message_size ?s = Inr k \<and> 29 \<le> k"
    by (rule sesame_buffer_size_sufficient)
      (simp_all add: win_received_initialize_def win_new_def win_send_def sc_message_size_def buffer_size_for_message_def)
  then show ?thesis by simp
qed

text \<open>With nothing in flight, the bytes that are not in the window of one side wait at the other to be
  given back; they are not more than a release is worth, unless the other side has no window to release them.\<close>

lemma quiet_granted:
  assumes ok: "network_ok sc_message_size n" and "quiet n" and own: "\<And>i. 16 \<le> unat (win_ownBufferSize (pr_node (nt_peer n i)))"
  shows "waiting n i = None"
proof (rule ccontr)
  assume "waiting n i \<noteq> None"
  then obtain k where k: "win_requestedSendMessageSize (pr_node (nt_peer n i)) = Some k" by (auto simp: waiting_def)
  define avail where "avail = (\<lambda>j. unat (win_otherAvailableWindow (pr_node (nt_peer n j))))"
  define rel where "rel = (\<lambda>j. unat (win_releasedWindow (pr_node (nt_peer n j))))"
  define size where "size = (\<lambda>j. unat (win_ownBufferSize (pr_node (nt_peer n j))))"
  have q: "\<not> pr_inside (nt_peer n j)" "\<not> pr_requested (nt_peer n j)" "pr_written (nt_peer n j) = None"
    "win_receivedMessageReader (pr_node (nt_peer n j)) = None" "nt_channel n j = []" for j
    using assms(2) by (auto simp: quiet_def)
  have sum: "avail j + rel (\<not> j) = size (\<not> j)" for j
    using ok q unfolding network_ok_def balanced_def avail_def rel_def size_def
    by (simp add: pr_window_def under_way_def win_held_def given_back_def)
  have left: "5 \<le> avail i \<or> 5 \<le> avail (\<not> i)"
    using network_okE(5) [OF ok, of i] q by (simp add: window_left_def pr_window_def given_back_def avail_def sc_message_size_3)
  have peer: "peer_ok sc_message_size (nt_peer n j)" for j using network_okE(1) [OF ok] .
  have base: "win_initialized (pr_node (nt_peer n j))" "\<not> win_sendInitResponse (pr_node (nt_peer n j))"
      "win_releaseWindowSize (pr_node (nt_peer n j)) = of_nat (sc_message_size 3)" "\<not> win_sending (pr_node (nt_peer n j))" for j
    using peer_okE [OF peer [of j]] q by (simp_all add: peer_base_def)
  have idle: "win_set_next_state sc_message_size (pr_node (nt_peer n j)) = (pr_node (nt_peer n j), [])" for j
    using peer [of j] q base(4) unfolding peer_ok_def Let_def by blast
  have no_release: "\<not> (5 < rel j \<and> 5 \<le> avail j)" for j
    using idle_no_release [of _ sc_message_size, OF base(1-4) [of j]] idle [of j] by (simp add: rel_def avail_def sc_message_size_3)
  have no_message: "avail i < sc_message_size (k + 1) + 5"
    using idle_no_message [of _ sc_message_size, OF base(1-4) [of i] _ k] idle [of i] by (simp add: avail_def sc_message_size_3)
  obtain m where m: "win_max_send_message_size sc_message_size (pr_node (nt_peer n i)) = Inr m" "k \<le> m"
    using peer [of i] k by (auto simp: peer_ok_def Let_def)
  define M where "M = min (size i) (size (\<not> i))"
  have big: "16 \<le> M" "M \<le> size i" "M \<le> size (\<not> i)" using own by (simp_all add: M_def size_def)
  have "win_maxUsableBufferSize (pr_node (nt_peer n i)) = win_ownBufferSize (pr_node (nt_peer n (\<not> i)))"
    using ok unfolding network_ok_def by blast
  then have "m = (M - 9) div 2"
    using m(1) max_send_message_size [of "pr_node (nt_peer n i)" M] base(1,3) [of i] big(1)
    by (simp add: M_def size_def sc_message_size_3)
  then have "sc_message_size (k + 1) + 10 \<le> M" using m(2) big(1) unfolding sc_message_size_def by linarith
  moreover have "avail i < sc_message_size (k + 1) + 5" using no_message by simp
  ultimately show False
    using no_release [of i] no_release [of "\<not> i"] left sum [of i] sum [of "\<not> i"] big by auto
qed

end
