(* ===== verification/Sesame_Handshake.thy ===== *)
theory Sesame_Handshake
  imports Sesame_Progress
begin

text \<open>
  The handshake of two SesameWindowed components, and what holds after it: the bytes under way never
  exceed the buffer they go to, and every request to send is granted. When both sides start at once
  their handshakes cross, and the window of a side is set to the whole buffer of the other while
  its messages are still on the way there.
\<close>

section \<open>Running a sequence of steps\<close>

datatype win_act = Do_stream bool "byte list" nat | Do_sent bool | Do_receive bool | Do_finish bool | Do_request bool nat | Do_release bool

fun win_exec :: "(nat \<Rightarrow> nat) \<Rightarrow> win_act \<Rightarrow> network \<Rightarrow> network option" where
  "win_exec ms (Do_stream i payload e) n = (let p = nt_peer n i in
     case win_send_message_stream_available (pr_node p) of
       Inl _ \<Rightarrow> None
     | Inr (s, header, calls) \<Rightarrow>
         if pr_requested p \<and> payload_fits (win_state (pr_node p)) payload \<and> encoded_ok ms (win_state (pr_node p)) (header @ payload) e
         then Some ((nt_put n i (p\<lparr>pr_node := s, pr_requested := False, pr_written := Some e\<rparr>))
           \<lparr>nt_channel := (nt_channel n)(i := nt_channel n i @ [(header @ payload, e)])\<rparr>)
         else None)"
| "win_exec ms (Do_sent i) n = (let p = nt_peer n i in
     case pr_written p of
       None \<Rightarrow> None
     | Some e \<Rightarrow> if pr_inside p then None
         else Some (nt_put n i (pr_do (win_message_sent ms (pr_node p) e) (p\<lparr>pr_written := None\<rparr>))))"
| "win_exec ms (Do_receive i) n = (let p = nt_peer n i in
     case nt_channel n (\<not> i) of
       [] \<Rightarrow> None
     | (bytes, e) # rest \<Rightarrow> if pr_inside p \<or> win_receivedMessageReader (pr_node p) \<noteq> None then None
         else Some ((nt_put n i (pr_do (win_received (pr_node p) bytes e) (p\<lparr>pr_inside := True\<rparr>)))
           \<lparr>nt_channel := (nt_channel n)(\<not> i := rest)\<rparr>))"
| "win_exec ms (Do_finish i) n = (let p = nt_peer n i in
     if pr_inside p then Some (nt_put n i (pr_do (win_set_next_state ms (pr_node p)) (p\<lparr>pr_inside := False\<rparr>))) else None)"
| "win_exec ms (Do_request i k) n = (let p = nt_peer n i in
     case win_max_send_message_size ms (pr_node p) of
       Inl _ \<Rightarrow> None
     | Inr m \<Rightarrow> if win_requestedSendMessageSize (pr_node p) = None \<and> k \<le> m
         then Some (nt_put n i (pr_do (win_request_send_message ms (pr_node p) k) p)) else None)"
| "win_exec ms (Do_release i) n = (let p = nt_peer n i in
     if win_receivedMessageReader (pr_node p) = None then None
     else Some (nt_put n i (pr_do (win_reader_released ms (pr_node p)) p)))"

fun win_run :: "(nat \<Rightarrow> nat) \<Rightarrow> win_act list \<Rightarrow> network \<Rightarrow> network option" where
  "win_run ms [] n = Some n"
| "win_run ms (a # as) n = (case win_exec ms a n of None \<Rightarrow> None | Some n1 \<Rightarrow> win_run ms as n1)"

lemma win_exec_step: "win_exec ms a n = Some n' \<Longrightarrow> win_step ms n n'"
  by (cases a) (auto simp: Let_def split: sum.splits option.splits list.splits if_splits
      intro: win_step.stream [OF refl] win_step.sent [OF refl] win_step.receive [OF refl] win_step.finish [OF refl]
        win_step.request [OF refl] win_step.release [OF refl])

lemma win_run_steps: "win_run ms as n = Some n' \<Longrightarrow> (win_step ms)\<^sup>*\<^sup>* n n'"
  by (induction as arbitrary: n) (auto split: option.splits intro: converse_rtranclp_into_rtranclp win_exec_step)

section \<open>One side is there first\<close>

text \<open>A component that was just constructed, and one whose \<open>init\<close> was sent before the other side was there.\<close>

definition fresh_peer :: "(nat \<Rightarrow> nat) \<Rightarrow> nat \<Rightarrow> peer" where
  "fresh_peer ms maxSize = \<lparr>pr_node = fst (win_new ms maxSize), pr_requested = True, pr_written = None, pr_inside = False\<rparr>"

definition unanswered_peer :: "(nat \<Rightarrow> nat) \<Rightarrow> nat \<Rightarrow> peer" where
  "unanswered_peer ms maxSize =
     \<lparr>pr_node = fst (win_message_sent ms (fst (win_new ms maxSize)) 0), pr_requested = False, pr_written = None, pr_inside = False\<rparr>"

definition other_side_starts :: "(nat \<Rightarrow> nat) \<Rightarrow> nat \<Rightarrow> nat \<Rightarrow> network" where
  "other_side_starts ms sizeA sizeB =
     \<lparr>nt_peer = (\<lambda>i. if i then fresh_peer ms sizeB else unanswered_peer ms sizeA), nt_channel = (\<lambda>_. [])\<rparr>"

text \<open>After the handshake; \<open>e\<close> is the encoded size of the response, which the side that sent it has
  taken from its window and the other is to give back.\<close>

definition connected_node :: "(nat \<Rightarrow> nat) \<Rightarrow> nat \<Rightarrow> nat \<Rightarrow> nat \<Rightarrow> nat \<Rightarrow> windowed" where
  "connected_node ms own other taken released =
     \<lparr>win_ownBufferSize = of_nat own, win_releaseWindowSize = of_nat (ms 3), win_initialized = True,
      win_receivedMessageReader = None, win_readerAction = None, win_otherAvailableWindow = of_nat other - of_nat taken,
      win_maxUsableBufferSize = of_nat other, win_releasedWindow = of_nat released, win_sendInitResponse = False, win_sending = False,
      win_requestedSendMessageSize = None, win_state = Operational\<rparr>"

definition connected :: "(nat \<Rightarrow> nat) \<Rightarrow> nat \<Rightarrow> nat \<Rightarrow> nat \<Rightarrow> network" where
  "connected ms sizeA sizeB e =
     \<lparr>nt_peer = (\<lambda>i. \<lparr>pr_node = (if i then connected_node ms sizeB sizeA 0 e else connected_node ms sizeA sizeB e 0),
        pr_requested = False, pr_written = None, pr_inside = False\<rparr>), nt_channel = (\<lambda>_. [])\<rparr>"

definition handshake :: "nat \<Rightarrow> nat \<Rightarrow> win_act list" where
  "handshake initial e = [Do_stream True [] initial, Do_sent True, Do_receive False, Do_finish False,
     Do_stream False [] e, Do_sent False, Do_receive True, Do_finish True]"

lemma length_packets [simp]:
  "length (packet_init w) = 3" "length (packet_init_response w) = 3" "length (packet_release_window w) = 3"
  by (simp_all add: packet_init_def packet_init_response_def packet_release_window_def le16_def)

lemma u16_le_of_nat: "e \<le> n \<Longrightarrow> n < 65536 \<Longrightarrow> \<not> (of_nat n :: u16) < of_nat e"
  by (simp add: word_less_nat_alt)

lemma handshake_run:
  assumes "initial \<le> ms 3 + 1" and "e \<le> ms 3" and "ms 3 < 65536"
  shows "win_run ms (handshake initial e) (other_side_starts ms sizeA sizeB) = Some (connected ms sizeA sizeB e)"
proof -
  have "\<not> (of_nat (ms 3) :: u16) < of_nat e" using assms(2,3) by (rule u16_le_of_nat)
  then show ?thesis using assms(1,2)
    by (simp add: handshake_def other_side_starts_def connected_def connected_node_def fresh_peer_def unanswered_peer_def
        win_new_def win_send_def win_message_sent_def win_set_next_state_def win_send_message_stream_available_def
        payload_fits_def encoded_ok_def pr_do_def nt_put_def asks_def win_received_def win_received_initialize_def
        extract_packet Let_def fun_eq_iff)
qed

lemma connected_network_ok:
  assumes "ms 3 \<le> sizeA" and "ms 3 \<le> sizeB" and "sizeA < 65536" and "sizeB < 65536" and "e \<le> ms 3"
  shows "network_ok ms (connected ms sizeA sizeB e)"
proof -
  have "\<not> (of_nat (ms 3) :: u16) < of_nat e" using assms by (intro u16_le_of_nat) auto
  moreover have "unat (of_nat sizeB - of_nat e :: u16) = sizeB - e"
    using assms unat_sub_u16 [of e "of_nat sizeB"] by simp
  ultimately show ?thesis using assms
    by (auto simp: network_ok_def connected_def connected_node_def peer_ok_def win_set_next_state_def balanced_def pr_window_def
        under_way_def win_held_def given_back_def window_left_def all_bool_eq intro!: exI [of _ True])
qed

text \<open>A SesameWindowed component whose \<open>init\<close> was lost and one that starts later connect in eight
  calls: the later one sends \<open>init\<close>, the other answers \<open>initResponse\<close>. Each then knows the buffer size of
  the other as the largest it may use; the side that answered has taken the encoded size of its answer
  from its window, and the other has counted it as received.\<close>

lemma sesame_handshake:
  assumes "initial \<le> ms 3 + 1" and "e \<le> ms 3" and "ms 3 < 65536"
  shows "(win_step ms)\<^sup>*\<^sup>* (other_side_starts ms sizeA sizeB) (connected ms sizeA sizeB e)"
  using assms by (intro win_run_steps [OF handshake_run [where ms = ms and initial = initial]])

lemma sesame_handshake_witness:
  "(win_step sc_message_size)\<^sup>*\<^sup>* (other_side_starts sc_message_size 40 60) (connected sc_message_size 40 60 5)"
  using sesame_handshake [where ms = sc_message_size and initial = 6 and e = 5] by (simp add: sc_message_size_3)

section \<open>Flow control after the handshake\<close>

text \<open>C4: flow control of two SesameWindowed components on a line that keeps messages in order and complete. Start after the
  handshake of a component that was there first and one that started later, and take any sequence of these calls on the two
  sides, in any order: the stream for a requested message is available, a message is reported sent (with an encoded size of at
  most what \<open>MessageSize\<close> says), a message is received while none is held, the observer returns from it, it is released, and the
  client requests a message of at most \<open>MaxSendMessageSize\<close> while no request waits. Neither side calls \<open>Reset\<close> or \<open>Stop\<close>, which
  clear one side's window only. \<open>MessageSize\<close> is monotone, a message of three bytes fits in both buffers when encoded, and the
  buffers have less than 65536 bytes. Then every byte of the receiver's buffer is accounted for at every moment: it is in the
  sender's window, under way, held by the receiver, counted by it to be given back, or being given back. So the messages
  under way and the one that is held always fit in the buffer.\<close>

theorem sesame_flow_control:
  assumes "(win_step ms)\<^sup>*\<^sup>* (connected ms sizeA sizeB e) n" and "mono ms" and "e \<le> ms 3" and "ms 3 \<le> sizeA" and "ms 3 \<le> sizeB"
    and "sizeA < 65536" and "sizeB < 65536"
  shows "balanced n i \<and> under_way (nt_channel n i) + win_held (pr_node (nt_peer n (\<not> i))) \<le>
    unat (win_ownBufferSize (pr_node (nt_peer n (\<not> i))))"
proof -
  have "network_ok ms n"
    using win_run_network_ok [OF assms(1) connected_network_ok] assms(2-) by linarith
  then have "balanced n i" unfolding network_ok_def by blast
  then show ?thesis unfolding balanced_def by linarith
qed

definition one_message :: "win_act list" where
  "one_message = [Do_request False 4, Do_stream False [1, 2, 3, 4] 7, Do_sent False, Do_receive True]"

lemma one_message_runs:
  "\<exists>n. win_run sc_message_size one_message (connected sc_message_size 40 40 5) = Some n \<and> win_held (pr_node (nt_peer n True)) = 7"
  by (simp add: one_message_def connected_def connected_node_def win_max_send_message_size_def sc_message_size_def
      win_request_send_message_def win_set_next_state_def win_send_def win_send_message_stream_available_def payload_fits_def encoded_ok_def
      win_message_sent_def win_received_def win_forward_received_message_def extract_operation_def win_held_def asks_def Let_def)

theorem sesame_flow_control_witness:
  "\<exists>n. win_run sc_message_size one_message (connected sc_message_size 40 40 5) = Some n \<and>
     win_held (pr_node (nt_peer n True)) = 7 \<and> balanced n False"
proof -
  obtain n where n: "win_run sc_message_size one_message (connected sc_message_size 40 40 5) = Some n"
      "win_held (pr_node (nt_peer n True)) = 7"
    using one_message_runs by blast
  then show ?thesis
    using sesame_flow_control [OF win_run_steps [OF n(1)] mono_sc_message_size, of False] by (simp add: sc_message_size_3)
qed

text \<open>C5: with the encoded sizes of SesameCobs and buffers of at least 16 bytes, every request to send that
  the components take after the handshake is granted, when the clients request at most \<open>MaxSendMessageSize\<close> bytes while no
  request waits and neither side is reset or stopped: from any state that they reach, as long as the
  clients ask for nothing more, only a bounded number of steps can be made, and when none is left no
  request is waiting. So no deadlock arises in which both sides lack the window to give bytes back.\<close>

theorem sesame_requests_granted:
  assumes "(win_step sc_message_size)\<^sup>*\<^sup>* (connected sc_message_size sizeA sizeB e) n" and "e \<le> 5"
    and "16 \<le> sizeA" and "16 \<le> sizeB" and "sizeA < 65536" and "sizeB < 65536"
  shows "\<exists>bound. \<forall>k n'. (serve_step sc_message_size ^^ k) n n' \<longrightarrow>
    k \<le> bound \<and> ((\<nexists>n''. serve_step sc_message_size n' n'') \<longrightarrow> waiting n' i = None)"
proof -
  have ok: "network_ok sc_message_size n"
    using win_run_network_ok [OF assms(1) connected_network_ok] mono_sc_message_size assms(2-) by (simp add: sc_message_size_3)
  have own: "16 \<le> unat (win_ownBufferSize (pr_node (nt_peer n j)))" for j
    using own_size_steps [OF assms(1)] assms(3-) by (auto simp: connected_def connected_node_def)
  show ?thesis
  proof (intro exI allI impI)
    fix k n' assume run: "(serve_step sc_message_size ^^ k) n n'"
    then have "k + work n' \<le> work n" "network_ok sc_message_size n'"
      using serve_run [OF run ok] mono_sc_message_size by (simp_all add: sc_message_size_3)
    moreover have "16 \<le> unat (win_ownBufferSize (pr_node (nt_peer n' j)))" for j
      using own_size_run [OF run] own by simp
    ultimately show "k \<le> work n \<and> ((\<nexists>n''. serve_step sc_message_size n' n'') \<longrightarrow> waiting n' i = None)"
      using quiet_granted stuck_quiet by auto
  qed
qed

theorem sesame_requests_granted_witness:
  "\<exists>n bound. win_run sc_message_size one_message (connected sc_message_size 40 40 5) = Some n \<and>
     (\<forall>k n'. (serve_step sc_message_size ^^ k) n n' \<longrightarrow>
       k \<le> bound \<and> ((\<nexists>n''. serve_step sc_message_size n' n'') \<longrightarrow> waiting n' True = None))"
proof -
  obtain n where n: "win_run sc_message_size one_message (connected sc_message_size 40 40 5) = Some n"
    using one_message_runs by blast
  then show ?thesis
    using sesame_requests_granted [OF win_run_steps [OF n(1)], of True] by auto
qed

section \<open>When both sides start at once\<close>

definition both_start :: "(nat \<Rightarrow> nat) \<Rightarrow> nat \<Rightarrow> nat \<Rightarrow> network" where
  "both_start ms sizeA sizeB =
     \<lparr>nt_peer = (\<lambda>i. if i then fresh_peer ms sizeB else fresh_peer ms sizeA), nt_channel = (\<lambda>_. [])\<rparr>"

text \<open>The schedule, with messages of \<open>k\<close> bytes that take \<open>e\<close> when encoded: both send \<open>init\<close>; one gets the other's, answers it
  and sends a message; the other gets the first \<open>init\<close> only now, and its answer arrives. Then the one sends a message again.\<close>

definition crossing_message :: "nat \<Rightarrow> nat \<Rightarrow> win_act list" where
  "crossing_message k e = [Do_request False k, Do_stream False (replicate k 7) e]"

definition crossing :: "nat \<Rightarrow> nat \<Rightarrow> win_act list" where
  "crossing k e = [Do_stream False [] 6, Do_sent False, Do_stream True [] 6, Do_sent True,
     Do_receive False, Do_finish False, Do_stream False [] 5, Do_sent False] @ crossing_message k e @ [Do_sent False,
     Do_receive True, Do_finish True, Do_stream True [] 5, Do_receive False, Do_finish False]"

lemma win_run_append: "win_run ms (as @ bs) n = (case win_run ms as n of None \<Rightarrow> None | Some n1 \<Rightarrow> win_run ms bs n1)"
  by (induction as arbitrary: n) (auto split: option.splits)

text \<open>\<open>MaxSendMessageSize\<close> of two equal buffers.\<close>

lemma max_send_equal:
  assumes "win_initialized s" and "win_ownBufferSize s = of_nat sz" and "win_maxUsableBufferSize s = of_nat sz"
    and "win_releaseWindowSize s = 5" and "9 \<le> sz" and "sz < 65536"
  shows "win_max_send_message_size sc_message_size s = Inr ((sz - 9) div 2)"
proof -
  have u: "unat (of_nat sz :: u16) = sz" using assms(6) by (simp add: unat_of_nat)
  then have c: "(ucast (of_nat sz :: u16) :: u32) = of_nat sz" by (metis ucast_eq of_nat_unat)
  have "(of_nat sz :: u32) - 9 = of_nat (sz - 9)" using assms(5) by (simp add: of_nat_diff)
  then have "(ucast (of_nat sz :: u16) - 1 - ucast (5 :: u16) - of_nat (sc_message_size 1) :: u32) = of_nat (sz - 9)"
    unfolding c by (simp add: sc_message_size_def)
  moreover have "unat (of_nat (sz - 9) div 2 :: u32) = (sz - 9) div 2"
    using assms(6) by (simp add: unat_div unat_of_nat)
  ultimately show ?thesis using assms(1-4) by (simp add: win_max_send_message_size_def)
qed

lemma crossing_size:
  assumes "20 \<le> sz" and "k = (sz - 9) div 2" and "e = sc_message_size (k + 1)"
  shows "e + 10 \<le> sz \<and> sz < 5 + 2 * e"
proof -
  define d where "d = (k + 1) div 254"
  have d: "e = k + d + 3" using assms(3) by (simp add: sc_message_size_def d_def)
  have "254 * d \<le> k + 1" unfolding d_def by simp
  moreover have "2 * k + 9 \<le> sz" "sz \<le> 2 * k + 10" using assms(1,2) by linarith+
  ultimately have "k + d + 13 \<le> sz" "sz < 11 + 2 * k + 2 * d" using assms(1) by linarith+
  then show ?thesis unfolding d by simp
qed

lemma crossing_run:
  assumes "20 \<le> sz" and "sz < 65536" and "k = (sz - 9) div 2" and "e = sc_message_size (k + 1)"
  shows "\<exists>n1 n2. win_run sc_message_size (crossing k e) (both_start sc_message_size sz sz) = Some n1 \<and>
     win_run sc_message_size (crossing_message k e) n1 = Some n2 \<and>
     win_otherAvailableWindow (pr_node (nt_peer n1 False)) = of_nat sz \<and>
     nt_channel n1 False = [(packet_init_response (of_nat sz), 5), (4 # replicate k 7, e)] \<and>
     nt_channel n2 False = nt_channel n1 False @ [(4 # replicate k 7, e)] \<and>
     nt_peer n2 True = nt_peer n1 True \<and> win_ownBufferSize (pr_node (nt_peer n1 True)) = of_nat sz \<and> win_held (pr_node (nt_peer n1 True)) = 0"
proof -
  have u [simp]: "unat (of_nat sz :: u16) = sz" using assms(2) by (simp add: unat_of_nat)
  have e: "e + 10 \<le> sz" using crossing_size [OF assms(1,3,4)] by simp
  have [simp]: "unat (of_nat sz - 5 :: u16) = sz - 5" using unat_sub_u16 [of 5 "of_nat sz"] assms(1) by simp
  have [simp]: "sc_message_size 3 = 5" "sc_message_size (Suc k) = e" using assms(4) by (simp_all add: sc_message_size_3)
  show ?thesis using e assms(1,2)
    by (simp add: crossing_def crossing_message_def both_start_def fresh_peer_def win_new_def max_send_equal assms(3) [symmetric]
        win_request_send_message_def win_set_next_state_def win_send_def win_send_message_stream_available_def payload_fits_def encoded_ok_def
        win_message_sent_def win_received_def win_received_initialize_def extract_packet asks_def win_held_def Let_def)
qed

text \<open>C40: when both sides of a line with equal buffers, of any size from 20 bytes, send their \<open>init\<close> before they have got the other's, the
  handshakes cross: a side can get the other's \<open>initResponse\<close> after it has sent a message already, and takes its window to be the
  whole buffer of the other again, although its own answer and that message are still on the way there
  (SesameWindowed.cpp, \<open>ReceivedMessage\<close>, case \<open>initResponse\<close>). With messages of \<open>MaxSendMessageSize\<close> and the encoded sizes of SesameCobs it
  then sends another one, and more bytes are on the way to the other side than its buffer has: flow control fails.\<close>

theorem sesame_crossing_overruns:
  assumes "20 \<le> sz" and "sz < 65536" and "k = (sz - 9) div 2" and "e = sc_message_size (k + 1)"
  shows "\<exists>n1 n2. win_run sc_message_size (crossing k e) (both_start sc_message_size sz sz) = Some n1 \<and>
     unat (win_otherAvailableWindow (pr_node (nt_peer n1 False))) = sz \<and> under_way (nt_channel n1 False) = 5 + e \<and>
     (win_step sc_message_size)\<^sup>*\<^sup>* n1 n2 \<and> sz < under_way (nt_channel n2 False) \<and>
     unat (win_ownBufferSize (pr_node (nt_peer n2 True))) = sz \<and> win_held (pr_node (nt_peer n2 True)) = 0"
proof -
  have "unat (of_nat sz :: u16) = sz" using assms(2) by (simp add: unat_of_nat)
  moreover have "sz < 5 + 2 * e" using crossing_size [OF assms(1,3,4)] by simp
  ultimately show ?thesis using crossing_run [OF assms] win_run_steps by (fastforce simp: under_way_def)
qed

theorem sesame_crossing_overruns_witness:
  "\<exists>n1 n2. win_run sc_message_size (crossing 15 18) (both_start sc_message_size 40 40) = Some n1 \<and>
     (win_step sc_message_size)\<^sup>*\<^sup>* n1 n2 \<and> 40 < under_way (nt_channel n2 False)"
proof -
  have "20 \<le> (40 :: nat)" "(40 :: nat) < 65536" "(15 :: nat) = (40 - 9) div 2" "18 = sc_message_size (15 + 1)"
    by (simp_all add: sc_message_size_def)
  from sesame_crossing_overruns [OF this] show ?thesis by blast
qed

end
