(* ===== verification/Sesame_Cobs_Receiver.thy ===== *)
theory Sesame_Cobs_Receiver
  imports Cobs_Codec Stream_Adapters
begin

text \<open>
  The receiving half of \<open>services::SesameCobs\<close> (services/sesame/SesameCobs.cpp). The bytes that the
  serial line has received and not been acknowledged are \<open>pending\<close>; its reader shows them in
  contiguous pieces, \<open>piece\<close> of them at a time. A message is handed to the observer as a reader over
  the deque that holds it. As long as the observer keeps that reader, no more bytes are decoded; the
  rest of them goes back to the line. What the observer does is the argument \<open>keep\<close>: whether it
  keeps the last of the messages it was given, when the call returns. What it was given is recorded
  in \<open>sr_delivered\<close>, each message with its encoded size.
\<close>

record sc_receiver =
  sr_nextOverhead :: byte
  sr_overheadPositionIsPseudo :: bool
  sr_receiving :: bool
  sr_receivedMessage :: "byte deque"
  sr_receiveSizeEncoded :: nat
  sr_currentMessageSize :: nat
  sr_readerTaken :: bool
  sr_onAllocatable :: "nat option"
  sr_delivered :: "(byte list \<times> nat) list"

type_synonym observer = "(byte list \<times> nat) list \<Rightarrow> bool"

section \<open>Operations\<close>

definition sr_new :: "byte list \<Rightarrow> sc_receiver" where
  "sr_new storage = \<lparr>sr_nextOverhead = 1, sr_overheadPositionIsPseudo = True, sr_receiving = False,
     sr_receivedMessage = dq_new storage, sr_receiveSizeEncoded = 0, sr_currentMessageSize = 0, sr_readerTaken = False,
     sr_onAllocatable = None, sr_delivered = []\<rparr>"

definition sr_stop :: "sc_receiver \<Rightarrow> sc_receiver" where
  "sr_stop s = s\<lparr>sr_onAllocatable := None\<rparr>"

definition sr_reset :: "sc_receiver \<Rightarrow> sc_receiver" where
  "sr_reset s = s\<lparr>sr_nextOverhead := 1, sr_overheadPositionIsPseudo := True, sr_receivedMessage := dq_clear (sr_receivedMessage s),
     sr_receiveSizeEncoded := 0, sr_currentMessageSize := 0, sr_onAllocatable := None\<rparr>"

definition sr_received_payload :: "sc_receiver \<Rightarrow> byte list \<Rightarrow> sc_receiver result" where
  "sr_received_payload s data =
     rbind (dq_insert_range (sr_receivedMessage s) (dq_size (sr_receivedMessage s)) data) (\<lambda>d.
       Inr (s\<lparr>sr_receivedMessage := d, sr_currentMessageSize := sr_currentMessageSize s + length data\<rparr>))"

text \<open>The reader is let go: what \<open>OnAllocatable\<close> was given is done, up to the question whether
  \<open>DataReceived\<close> is to be called.\<close>

definition sr_let_go :: "sc_receiver \<Rightarrow> sc_receiver result" where
  "sr_let_go s = (case sr_onAllocatable s of
     None \<Rightarrow> Inr (s\<lparr>sr_readerTaken := False\<rparr>)
   | Some messageSize \<Rightarrow> rbind (dq_erase_range (sr_receivedMessage s) 0 messageSize) (\<lambda>d.
       Inr (s\<lparr>sr_readerTaken := False, sr_receivedMessage := d\<rparr>)))"

definition sr_message_reader :: "sc_receiver \<Rightarrow> nat \<Rightarrow> deque_reader_state limited" where
  "sr_message_reader s messageSize = lim_new (dr_new (sr_receivedMessage s)) (of_nat messageSize)"

definition sr_message_bytes :: "deque_reader_state limited \<Rightarrow> byte list" where
  "sr_message_bytes r = lim_rem (\<lambda>d. drop (dr_offset d) (dr_bytes d)) r"

text \<open>The observer is called from \<open>DataReceived\<close>, so when it lets the reader go at once,
  \<open>DataReceived\<close> is not called again.\<close>

definition sr_finish_message :: "observer \<Rightarrow> sc_receiver \<Rightarrow> sc_receiver result" where
  "sr_finish_message keep s =
     (let messageSize = sr_currentMessageSize s; s1 = s\<lparr>sr_currentMessageSize := 0\<rparr>
      in if messageSize \<noteq> 0
         then let s2 = s1\<lparr>sr_onAllocatable := Some messageSize\<rparr>
              in really_assert (\<not> sr_readerTaken s2)
                   (let s3 = s2\<lparr>sr_readerTaken := True, sr_receiveSizeEncoded := 0,
                      sr_delivered := sr_delivered s2 @ [(sr_message_bytes (sr_message_reader s2 messageSize), sr_receiveSizeEncoded s2)]\<rparr>
                    in if keep (sr_delivered s3) then Inr s3 else sr_let_go s3)
         else Inr s1)"

definition sr_message_boundary :: "observer \<Rightarrow> sc_receiver \<Rightarrow> byte list \<Rightarrow> (sc_receiver \<times> byte list) result" where
  "sr_message_boundary keep s data =
     rbind (sr_finish_message keep (s\<lparr>sr_receiveSizeEncoded := sr_receiveSizeEncoded s + 1\<rparr>)) (\<lambda>s1.
       Inr (s1\<lparr>sr_nextOverhead := 1, sr_overheadPositionIsPseudo := True\<rparr>, tl data))"

definition sr_extract_overhead :: "observer \<Rightarrow> sc_receiver \<Rightarrow> byte list \<Rightarrow> (sc_receiver \<times> byte list) result" where
  "sr_extract_overhead keep s data =
     (let s1 = s\<lparr>sr_nextOverhead := hd data\<rparr>
      in if sr_nextOverhead s1 = 0 then sr_message_boundary keep s1 data
         else let s2 = s1\<lparr>sr_receiveSizeEncoded := sr_receiveSizeEncoded s1 + 1\<rparr>
              in rbind (if \<not> sr_overheadPositionIsPseudo s2 then sr_received_payload s2 [0] else Inr s2) (\<lambda>s3.
                   Inr (s3\<lparr>sr_overheadPositionIsPseudo := (sr_nextOverhead s3 = 255)\<rparr>, tl data)))"

definition sr_forward_data :: "sc_receiver \<Rightarrow> byte list \<Rightarrow> byte list \<Rightarrow> (sc_receiver \<times> byte list) result" where
  "sr_forward_data s contents data = rbind (sr_received_payload s contents) (\<lambda>s1.
     Inr (s1\<lparr>sr_receiveSizeEncoded := sr_receiveSizeEncoded s1 + length contents,
       sr_nextOverhead := sr_nextOverhead s1 - of_nat (length contents)\<rparr>, drop (length contents) data))"

text \<open>\<open>nextOverhead - 1\<close> is computed in \<open>int\<close> and converted to an unsigned size.\<close>

definition sr_head :: "sc_receiver \<Rightarrow> byte list \<Rightarrow> byte list" where
  "sr_head s data = (if sr_nextOverhead s = 0 then data else take (unat (sr_nextOverhead s) - 1) data)"

definition sr_extract_data :: "observer \<Rightarrow> sc_receiver \<Rightarrow> byte list \<Rightarrow> (sc_receiver \<times> byte list) result" where
  "sr_extract_data keep s data =
     (let head = sr_head s data;
          preDelimiter = takeWhile (\<lambda>x. x \<noteq> 0) head; postDelimiter = dropWhile (\<lambda>x. x \<noteq> 0) head
      in rbind (if preDelimiter \<noteq> [] then sr_forward_data s preDelimiter data else Inr (s, data)) (\<lambda>(s1, data1).
           if postDelimiter \<noteq> [] then sr_message_boundary keep s1 data1 else Inr (s1, data1)))"

lemma sr_head_nonempty:
  assumes "data \<noteq> []" and "sr_nextOverhead s \<noteq> 1"
  shows "sr_head s data \<noteq> []"
proof -
  have "unat (sr_nextOverhead s) \<noteq> 1" using assms(2) by (metis unat_1 word_unat_eq_iff)
  moreover have "sr_nextOverhead s = 0 \<or> unat (sr_nextOverhead s) \<noteq> 0" by (simp add: unat_eq_zero)
  ultimately show ?thesis using assms(1) by (auto simp: sr_head_def)
qed

lemma sr_boundary_rest: "sr_message_boundary keep s data = Inr (s1, data1) \<Longrightarrow> data1 = tl data"
  by (auto simp: sr_message_boundary_def rbind_Inr)

lemma sr_overhead_rest: "sr_extract_overhead keep s data = Inr (s1, data1) \<Longrightarrow> data1 = tl data"
  by (auto simp: sr_extract_overhead_def Let_def rbind_Inr dest: sr_boundary_rest split: if_splits)

lemma sr_data_rest:
  assumes "sr_extract_data keep s data = Inr (s1, data1)"
  shows "data1 = drop (length (takeWhile (\<lambda>x. x \<noteq> 0) (sr_head s data)) + (if 0 \<in> set (sr_head s data) then 1 else 0)) data"
proof -
  have "dropWhile (\<lambda>x. x \<noteq> 0) (sr_head s data) \<noteq> [] \<longleftrightarrow> 0 \<in> set (sr_head s data)" by (auto simp: dropWhile_eq_Nil_conv)
  then show ?thesis using assms
    by (auto simp: sr_extract_data_def Let_def rbind_Inr sr_forward_data_def drop_Suc tl_drop dest!: sr_boundary_rest split: if_splits)
qed

lemma sr_data_shrinks:
  assumes "sr_extract_data keep s data = Inr (s1, data1)" and "data \<noteq> []" and "sr_nextOverhead s \<noteq> 1"
  shows "length data1 < length data"
proof -
  have "takeWhile (\<lambda>x. x \<noteq> 0) (sr_head s data) \<noteq> [] \<or> 0 \<in> set (sr_head s data)"
    using sr_head_nonempty [OF assms(2,3)] by (cases "sr_head s data") auto
  then show ?thesis using sr_data_rest [OF assms(1)] assms(2) by auto
qed

function sr_received_data :: "observer \<Rightarrow> sc_receiver \<Rightarrow> byte list \<Rightarrow> (sc_receiver \<times> byte list) result" where
  "sr_received_data keep s data =
     (if data = [] then Inr (s, [])
      else if sr_nextOverhead s = 1
      then case sr_extract_overhead keep s data of
             Inl f \<Rightarrow> Inl f
           | Inr (s1, data1) \<Rightarrow> if sr_readerTaken s1 then Inr (s1, data1) else sr_received_data keep s1 data1
      else case sr_extract_data keep s data of
             Inl f \<Rightarrow> Inl f
           | Inr (s1, data1) \<Rightarrow> sr_received_data keep s1 data1)"
  by pat_completeness auto
termination
  by (relation "measure (\<lambda>(keep, s, data). length data)") (auto dest: sr_overhead_rest intro: sr_data_shrinks)

declare sr_received_data.simps [simp del]

lemma sr_received_data_rest:
  "sr_received_data keep s data = Inr (s1, rest) \<Longrightarrow> data \<noteq> [] \<Longrightarrow> length rest < length data"
proof (induction keep s data rule: sr_received_data.induct)
  case (1 keep s data)
  show ?case
  proof (cases "sr_nextOverhead s = 1")
    case True
    obtain s2 data2 where e: "sr_extract_overhead keep s data = Inr (s2, data2)"
      using 1(3,4) True by (subst (asm) sr_received_data.simps) (auto split: sum.splits)
    then have "length data2 < length data" using sr_overhead_rest 1(4) by fastforce
    moreover have "length rest \<le> length data2"
      using 1(3,4) True e 1(1) [OF 1(4) True e refl]
      by (subst (asm) sr_received_data.simps) (cases "data2 = []"; auto simp: sr_received_data.simps split: if_splits)
    ultimately show ?thesis by linarith
  next
    case False
    obtain s2 data2 where e: "sr_extract_data keep s data = Inr (s2, data2)"
      using 1(3,4) False by (subst (asm) sr_received_data.simps) (auto split: sum.splits)
    then have "length data2 < length data" using sr_data_shrinks 1(4) False by blast
    moreover have "length rest \<le> length data2"
      using 1(3,4) False e 1(2) [OF 1(4) False e refl]
      by (subst (asm) sr_received_data.simps) (cases "data2 = []"; auto simp: sr_received_data.simps split: if_splits)
    ultimately show ?thesis by linarith
  qed
qed

text \<open>\<open>DataReceived\<close> without the flag \<open>receiving\<close>: the state, and what is pending on the line.\<close>

function sr_receive_loop :: "observer \<Rightarrow> (byte list \<Rightarrow> nat) \<Rightarrow> sc_receiver \<Rightarrow> byte list \<Rightarrow> (sc_receiver \<times> byte list) result" where
  "sr_receive_loop keep piece s pending =
     (let data = take (piece pending) pending
      in if sr_readerTaken s \<or> data = [] then Inr (s, pending)
         else case sr_received_data keep s data of
                Inl f \<Rightarrow> Inl f
              | Inr (s1, rest) \<Rightarrow> sr_receive_loop keep piece s1 (rest @ drop (piece pending) pending))"
  by pat_completeness auto
termination
  by (relation "measure (\<lambda>(keep, piece, s, pending). length pending)") (auto dest!: sr_received_data_rest)

declare sr_receive_loop.simps [simp del]

definition sr_data_received :: "observer \<Rightarrow> (byte list \<Rightarrow> nat) \<Rightarrow> sc_receiver \<Rightarrow> byte list \<Rightarrow> (sc_receiver \<times> byte list) result" where
  "sr_data_received keep piece s pending =
     rbind (sr_receive_loop keep piece (s\<lparr>sr_receiving := True\<rparr>) pending) (\<lambda>(s1, pending1). Inr (s1\<lparr>sr_receiving := False\<rparr>, pending1))"

text \<open>The observer lets go of a message that it kept.\<close>

definition sr_reader_released :: "observer \<Rightarrow> (byte list \<Rightarrow> nat) \<Rightarrow> sc_receiver \<Rightarrow> byte list \<Rightarrow> (sc_receiver \<times> byte list) result" where
  "sr_reader_released keep piece s pending = rbind (sr_let_go s) (\<lambda>s1.
     if sr_onAllocatable s \<noteq> None \<and> \<not> sr_receiving s1 then sr_data_received keep piece s1 pending else Inr (s1, pending))"

section \<open>The receiver implements the codec\<close>

text \<open>The message that the observer keeps is in the deque still, but no longer part of what is decoded.\<close>

definition sr_abs :: "sc_receiver \<Rightarrow> cobs_state \<times> nat" where
  "sr_abs s = (\<lparr>cs_next = sr_nextOverhead s, cs_pseudo = sr_overheadPositionIsPseudo s,
     cs_message = (if sr_readerTaken s then [] else dq_elems (sr_receivedMessage s))\<rparr>, sr_receiveSizeEncoded s)"

definition sr_cap :: "sc_receiver \<Rightarrow> nat" where
  "sr_cap s = dq_max_size (sr_receivedMessage s)"

definition sr_sizes :: "sc_receiver \<Rightarrow> bool" where
  "sr_sizes s \<longleftrightarrow> dq_inv (sr_receivedMessage s) \<and> sr_cap s < 2 ^ 32 \<and>
     (if sr_readerTaken s then sr_currentMessageSize s = 0 \<and> sr_onAllocatable s = Some (dq_size (sr_receivedMessage s))
      else sr_currentMessageSize s = dq_size (sr_receivedMessage s))"

definition sr_inv :: "sc_receiver \<Rightarrow> bool" where
  "sr_inv s \<longleftrightarrow> sr_sizes s \<and> sr_nextOverhead s \<noteq> 0"

text \<open>A step of the code against the bytes it takes from the data.\<close>

definition sr_step_ok :: "sc_receiver \<Rightarrow> sc_receiver result \<Rightarrow> byte list \<Rightarrow> bool" where
  "sr_step_ok s r bs \<longleftrightarrow>
     (case r of Inl f \<Rightarrow> sized_bytes (sr_cap s) (sr_abs s) bs = Inl f
      | Inr s1 \<Rightarrow> (\<exists>new. sized_bytes (sr_cap s) (sr_abs s) bs = Inr (sr_abs s1, new) \<and> sr_delivered s1 = sr_delivered s @ new) \<and>
          sr_inv s1 \<and> sr_cap s1 = sr_cap s)"

lemma sr_step_ok_simps:
  "sr_step_ok s (Inl f) bs \<longleftrightarrow> sized_bytes (sr_cap s) (sr_abs s) bs = Inl f"
  "sr_step_ok s (Inr s1) bs \<longleftrightarrow>
    (\<exists>new. sized_bytes (sr_cap s) (sr_abs s) bs = Inr (sr_abs s1, new) \<and> sr_delivered s1 = sr_delivered s @ new) \<and>
    sr_inv s1 \<and> sr_cap s1 = sr_cap s"
  by (simp_all add: sr_step_ok_def)

lemma sr_step_ok_append:
  "sr_step_ok s (Inr s1) xs \<Longrightarrow> sr_step_ok s1 r ys \<Longrightarrow> sr_step_ok s r (xs @ ys)"
  by (cases r) (auto simp: sr_step_ok_simps sized_bytes_append)

lemma sr_step_ok_fault: "sr_step_ok s (Inl f) xs \<Longrightarrow> sr_step_ok s (Inl f) (xs @ ys)"
  by (simp add: sr_step_ok_simps sized_bytes_append)

lemma sr_payload:
  assumes "dq_inv (sr_receivedMessage s)"
  shows "dq_size (sr_receivedMessage s) + length bs \<le> sr_cap s \<Longrightarrow> \<exists>d. dq_inv d \<and> dq_max_size d = sr_cap s \<and>
      dq_elems d = dq_elems (sr_receivedMessage s) @ bs \<and> dq_size d = dq_size (sr_receivedMessage s) + length bs \<and>
      sr_received_payload s bs = Inr (s\<lparr>sr_receivedMessage := d, sr_currentMessageSize := sr_currentMessageSize s + length bs\<rparr>)"
    and "\<not> dq_size (sr_receivedMessage s) + length bs \<le> sr_cap s \<Longrightarrow> sr_received_payload s bs = Inl Assert_failed"
proof -
  let ?d = "sr_receivedMessage s"
  assume room: "dq_size ?d + length bs \<le> sr_cap s"
  have "dq_yields (dq_insert_range ?d (dq_size ?d) bs) (dq_max_size ?d) (dq_elems ?d @ bs)"
    using dq_insert_range_yields [OF assms order_refl, of bs] room by (simp add: sr_cap_def)
  then obtain d where d: "dq_insert_range ?d (dq_size ?d) bs = Inr d" "dq_inv d" "dq_max_size d = dq_max_size ?d"
      "dq_elems d = dq_elems ?d @ bs"
    by (auto simp: dq_yields_def)
  then have "dq_size d = dq_size ?d + length bs" by (metis length_append length_dq_elems)
  with d show "\<exists>d. dq_inv d \<and> dq_max_size d = sr_cap s \<and> dq_elems d = dq_elems ?d @ bs \<and> dq_size d = dq_size ?d + length bs \<and>
      sr_received_payload s bs = Inr (s\<lparr>sr_receivedMessage := d, sr_currentMessageSize := sr_currentMessageSize s + length bs\<rparr>)"
    by (auto simp: sr_received_payload_def sr_cap_def)
next
  assume "\<not> dq_size (sr_receivedMessage s) + length bs \<le> sr_cap s"
  then show "sr_received_payload s bs = Inl Assert_failed"
    by (simp add: sr_received_payload_def sr_cap_def dq_insert_range_overflow)
qed

text \<open>Letting go of the message erases it, and only it.\<close>

lemma sr_let_go_ok:
  assumes "sr_inv s" and "sr_readerTaken s"
  shows "\<exists>s1. sr_let_go s = Inr s1 \<and> sr_inv s1 \<and> \<not> sr_readerTaken s1 \<and> sr_abs s1 = sr_abs s \<and> sr_cap s1 = sr_cap s \<and>
    sr_delivered s1 = sr_delivered s \<and> sr_receiving s1 = sr_receiving s"
proof -
  let ?d = "sr_receivedMessage s"
  have inv: "dq_inv ?d" "sr_onAllocatable s = Some (dq_size ?d)" "sr_currentMessageSize s = 0"
    using assms by (simp_all add: sr_inv_def sr_sizes_def)
  obtain d where d: "dq_erase_range ?d 0 (dq_size ?d) = Inr d" "dq_inv d" "dq_max_size d = dq_max_size ?d" "dq_elems d = []"
    using dq_erase_range_yields [OF inv(1), of 0 "dq_size ?d"] by (auto simp: dq_yields_def)
  then have "dq_size d = 0" by (metis length_dq_elems list.size(3))
  then show ?thesis using assms inv d by (simp add: sr_let_go_def sr_inv_def sr_sizes_def sr_abs_def sr_cap_def)
qed

lemma sr_message_reader_bytes:
  "dq_size (sr_receivedMessage s) < 2 ^ 32 \<Longrightarrow>
   sr_message_bytes (sr_message_reader s (dq_size (sr_receivedMessage s))) = dq_elems (sr_receivedMessage s)"
  by (simp add: sr_message_bytes_def sr_message_reader_def lim_rem_def lim_new_def dr_new_def dr_bytes_def)

lemma sr_boundary:
  assumes "sr_sizes s"
  shows "\<exists>s1. sr_message_boundary keep s data = Inr (s1, tl data) \<and> sr_step_ok s (Inr s1) [0] \<and>
    sr_nextOverhead s1 = 1 \<and> sr_overheadPositionIsPseudo s1"
proof (cases "sr_currentMessageSize s = 0")
  case True
  let ?s1 = "s\<lparr>sr_receiveSizeEncoded := sr_receiveSizeEncoded s + 1, sr_currentMessageSize := 0, sr_nextOverhead := 1, sr_overheadPositionIsPseudo := True\<rparr>"
  have empty: "sr_readerTaken s \<or> dq_elems (sr_receivedMessage s) = []"
    using assms True by (simp add: sr_sizes_def flip: length_0_conv split: if_splits)
  have "sr_message_boundary keep s data = Inr (?s1, tl data)"
    using True by (simp add: sr_message_boundary_def sr_finish_message_def Let_def)
  moreover have "sr_inv ?s1" "sr_cap ?s1 = sr_cap s" using assms True by (auto simp: sr_inv_def sr_sizes_def sr_cap_def)
  moreover have "sized_bytes (sr_cap s) (sr_abs s) [0] = Inr (sr_abs ?s1, [])"
    using empty unfolding sr_abs_def sized_bytes_zero by (auto simp: cobs_start_def)
  ultimately show ?thesis by (auto simp: sr_step_ok_simps)
next
  case False
  let ?d = "sr_receivedMessage s"
  let ?n = "dq_size ?d"
  have free: "\<not> sr_readerTaken s" and size: "sr_currentMessageSize s = ?n" using assms False by (auto simp: sr_sizes_def split: if_splits)
  have ne: "dq_elems ?d \<noteq> []" using False size by (metis length_dq_elems list.size(3))
  have "?n \<le> dq_max_size ?d" using assms by (simp add: sr_sizes_def dq_inv_def dq_size_def)
  then have small: "?n < 2 ^ 32" using assms by (simp add: sr_sizes_def sr_cap_def)
  define s3 where "s3 = s\<lparr>sr_receiveSizeEncoded := sr_receiveSizeEncoded s + 1, sr_currentMessageSize := 0,
    sr_onAllocatable := Some ?n, sr_readerTaken := True, sr_receiveSizeEncoded := 0, sr_delivered := sr_delivered s @ [(dq_elems ?d, sr_receiveSizeEncoded s + 1)]\<rparr>"
  define aligned where "aligned = (\<lambda>t :: sc_receiver. t\<lparr>sr_nextOverhead := 1, sr_overheadPositionIsPseudo := True\<rparr>)"
  have s3: "sr_inv (aligned s3)" "sr_readerTaken (aligned s3)" "sr_cap (aligned s3) = sr_cap s"
    using assms by (simp_all add: s3_def aligned_def sr_inv_def sr_sizes_def sr_cap_def)
  have abs: "sized_bytes (sr_cap s) (sr_abs s) [0] = Inr (sr_abs (aligned s3), [(dq_elems ?d, sr_receiveSizeEncoded s + 1)])"
    unfolding sr_abs_def sized_bytes_zero using ne free by (simp add: s3_def aligned_def cobs_start_def)
  have bytes: "sr_message_bytes (sr_message_reader t ?n) = dq_elems ?d" if "sr_receivedMessage t = ?d" for t
    using sr_message_reader_bytes [of t] small that by simp
  have run: "sr_message_boundary keep s data =
      rbind (if keep (sr_delivered s3) then Inr s3 else sr_let_go s3) (\<lambda>s1. Inr (aligned s1, tl data))"
    using False size free by (simp add: sr_message_boundary_def sr_finish_message_def Let_def bytes s3_def aligned_def)
  show ?thesis
  proof (cases "keep (sr_delivered s3)")
    case True
    then show ?thesis using run s3 abs by (auto simp: sr_step_ok_simps s3_def aligned_def)
  next
    case f: False
    have commute: "sr_let_go (aligned s3) = rbind (sr_let_go s3) (\<lambda>s1. Inr (aligned s1))"
      by (cases "dq_erase_range (sr_receivedMessage s3) 0 ?n") (auto simp: sr_let_go_def s3_def aligned_def)
    obtain s4 where s4: "sr_let_go (aligned s3) = Inr s4" "sr_inv s4" "sr_abs s4 = sr_abs (aligned s3)" "sr_cap s4 = sr_cap s"
        "sr_delivered s4 = sr_delivered (aligned s3)"
      using sr_let_go_ok [OF s3(1,2)] s3(3) by auto
    have "sr_nextOverhead s4 = 1" "sr_overheadPositionIsPseudo s4" using s4(3) by (simp_all add: sr_abs_def aligned_def)
    moreover have "sr_message_boundary keep s data = Inr (s4, tl data)"
      using run f s4(1) unfolding commute by (auto simp: rbind_Inr)
    ultimately show ?thesis using s4 abs by (auto simp: sr_step_ok_simps s3_def aligned_def)
  qed
qed

lemma sr_overhead_refines:
  assumes inv: "sr_inv s" and next1: "sr_nextOverhead s = 1" and aligned: "sr_readerTaken s \<longrightarrow> sr_overheadPositionIsPseudo s"
    and ne: "data \<noteq> []"
  shows "sr_step_ok s (rbind (sr_extract_overhead keep s data) (\<lambda>(s1, data1). Inr s1)) [hd data]"
proof -
  let ?s1 = "s\<lparr>sr_nextOverhead := hd data\<rparr>"
  let ?s2 = "?s1\<lparr>sr_receiveSizeEncoded := sr_receiveSizeEncoded s + 1\<rparr>"
  consider (zero) "hd data = 0" | (pseudo) "hd data \<noteq> 0" "sr_overheadPositionIsPseudo s"
    | (append) "hd data \<noteq> 0" "\<not> sr_overheadPositionIsPseudo s" by blast
  then show ?thesis
  proof cases
    case zero
    have sizes1: "sr_sizes ?s1" using inv by (simp add: sr_inv_def sr_sizes_def sr_cap_def)
    obtain s1 where "sr_message_boundary keep ?s1 data = Inr (s1, tl data)" "sr_step_ok ?s1 (Inr s1) [0]"
      using sr_boundary [of ?s1 keep data] sizes1 by blast
    moreover have "sized_bytes (sr_cap ?s1) (sr_abs ?s1) [0] = sized_bytes (sr_cap s) (sr_abs s) [0]"
      unfolding sr_abs_def sized_bytes_zero by simp
    ultimately show ?thesis using zero by (simp add: sr_extract_overhead_def sr_step_ok_simps sr_cap_def)
  next
    case pseudo
    then show ?thesis using inv next1
      by (simp add: sr_extract_overhead_def Let_def sr_step_ok_simps sized_byte_def cobs_byte_def sr_abs_def sr_inv_def sr_sizes_def sr_cap_def)
  next
    case append
    have free: "\<not> sr_readerTaken s" using append aligned by blast
    have d: "dq_inv (sr_receivedMessage ?s2)" using inv by (simp add: sr_inv_def sr_sizes_def)
    show ?thesis
    proof (cases "dq_size (sr_receivedMessage s) + 1 \<le> sr_cap s")
      case True
      obtain d' where "dq_inv d'" "dq_max_size d' = sr_cap s" "dq_elems d' = dq_elems (sr_receivedMessage s) @ [0]"
          "dq_size d' = dq_size (sr_receivedMessage s) + 1"
          "sr_received_payload ?s2 [0] = Inr (?s2\<lparr>sr_receivedMessage := d', sr_currentMessageSize := sr_currentMessageSize s + 1\<rparr>)"
        using sr_payload(1) [OF d, of "[0]"] True by (auto simp: sr_cap_def)
      then show ?thesis using append inv next1 True free
        by (simp add: sr_extract_overhead_def Let_def sr_step_ok_simps sized_byte_def cobs_byte_def cobs_append_def sr_abs_def
            sr_inv_def sr_sizes_def sr_cap_def)
    next
      case False
      then have "sr_received_payload ?s2 [0] = Inl Assert_failed" using sr_payload(2) [OF d, of "[0]"] by (simp add: sr_cap_def)
      then show ?thesis using append next1 False free
        by (simp add: sr_extract_overhead_def Let_def sr_step_ok_simps sized_byte_def cobs_byte_def cobs_append_def sr_abs_def sr_cap_def)
    qed
  qed
qed

lemma sr_forward_refines:
  assumes inv: "sr_inv s" and free: "\<not> sr_readerTaken s" and pre: "0 \<notin> set pre" "pre \<noteq> []" "length pre < unat (sr_nextOverhead s)"
  shows "(\<exists>s1. sr_forward_data s pre data = Inr (s1, drop (length pre) data) \<and> sr_step_ok s (Inr s1) pre \<and> \<not> sr_readerTaken s1) \<or>
    sr_forward_data s pre data = Inl Assert_failed \<and> sr_step_ok s (Inl Assert_failed) pre"
proof -
  have d: "dq_inv (sr_receivedMessage s)" using inv by (simp add: sr_inv_def sr_sizes_def)
  have run: "sized_bytes (sr_cap s) (sr_abs s) pre =
      rbind (really_assert (dq_size (sr_receivedMessage s) + length pre \<le> sr_cap s)
        (Inr ((fst (sr_abs s))\<lparr>cs_next := sr_nextOverhead s - of_nat (length pre), cs_message := dq_elems (sr_receivedMessage s) @ pre\<rparr>)))
        (\<lambda>c. Inr ((c, sr_receiveSizeEncoded s + length pre), []))"
    using sized_bytes_nonzero [OF pre(1), of "sr_cap s" "fst (sr_abs s)" "snd (sr_abs s)"]
      cobs_bytes_data [of pre "fst (sr_abs s)" "sr_cap s"] pre free
    by (auto simp: sr_abs_def really_assert_def)
  show ?thesis
  proof (cases "dq_size (sr_receivedMessage s) + length pre \<le> sr_cap s")
    case True
    obtain d' where d': "dq_inv d'" "dq_max_size d' = sr_cap s" "dq_elems d' = dq_elems (sr_receivedMessage s) @ pre"
        "dq_size d' = dq_size (sr_receivedMessage s) + length pre"
        "sr_received_payload s pre = Inr (s\<lparr>sr_receivedMessage := d', sr_currentMessageSize := sr_currentMessageSize s + length pre\<rparr>)"
      using sr_payload(1) [OF d True] by blast
    have "sr_nextOverhead s \<noteq> of_nat (length pre)"
      using pre(3) unat_u8_less [of "sr_nextOverhead s"] by (metis order_less_irrefl order_less_trans unat_of_nat_u8)
    then have "sr_nextOverhead s - of_nat (length pre) \<noteq> 0" by simp
    then have "sr_step_ok s (Inr (s\<lparr>sr_receivedMessage := d', sr_currentMessageSize := sr_currentMessageSize s + length pre,
        sr_receiveSizeEncoded := sr_receiveSizeEncoded s + length pre, sr_nextOverhead := sr_nextOverhead s - of_nat (length pre)\<rparr>)) pre"
      using run pre inv d' True free by (simp add: sr_step_ok_simps sr_abs_def sr_inv_def sr_sizes_def sr_cap_def)
    then show ?thesis using d' free by (auto simp: sr_forward_data_def)
  next
    case False
    then show ?thesis using sr_payload(2) [OF d False] run by (simp add: sr_forward_data_def sr_step_ok_simps)
  qed
qed

lemma sr_data_refines:
  assumes inv: "sr_inv s" and free: "\<not> sr_readerTaken s"
  shows "\<exists>bs rest. data = bs @ rest \<and> sr_step_ok s (rbind (sr_extract_data keep s data) (\<lambda>(s1, data1). Inr s1)) bs \<and>
    (\<forall>s1 data1. sr_extract_data keep s data = Inr (s1, data1) \<longrightarrow> data1 = rest \<and>
      (sr_readerTaken s1 \<longrightarrow> sr_nextOverhead s1 = 1 \<and> sr_overheadPositionIsPseudo s1))"
proof -
  define pre where "pre = takeWhile (\<lambda>x. x \<noteq> 0) (sr_head s data)"
  define post where "post = dropWhile (\<lambda>x. x \<noteq> 0) (sr_head s data)"
  have head: "sr_head s data = take (unat (sr_nextOverhead s) - 1) data" using inv by (simp add: sr_head_def sr_inv_def)
  have split: "sr_head s data = pre @ post" by (simp add: pre_def post_def)
  define left where "left = drop (unat (sr_nextOverhead s) - 1) data"
  have "(pre @ post) @ left = data" unfolding split [symmetric] head left_def by (rule append_take_drop_id)
  then have left: "data = pre @ post @ left" by simp
  have pos: "0 < unat (sr_nextOverhead s)" using inv by (simp add: sr_inv_def unat_gt_0)
  have "length (pre @ post) \<le> unat (sr_nextOverhead s) - 1" unfolding split [symmetric] head by simp
  then have len: "length pre < unat (sr_nextOverhead s)" using pos by simp
  have nz: "0 \<notin> set pre" using set_takeWhileD by (fastforce simp: pre_def)
  have def: "sr_extract_data keep s data = rbind (if pre \<noteq> [] then sr_forward_data s pre data else Inr (s, data)) (\<lambda>(s1, data1).
      if post \<noteq> [] then sr_message_boundary keep s1 data1 else Inr (s1, data1))"
    unfolding sr_extract_data_def Let_def pre_def [symmetric] post_def [symmetric] ..
  consider (fault) "sr_extract_data keep s data = Inl Assert_failed" "sr_step_ok s (Inl Assert_failed) pre"
    | (ok) s1 where "sr_extract_data keep s data = (if post \<noteq> [] then sr_message_boundary keep s1 (post @ left) else Inr (s1, post @ left))"
        "sr_step_ok s (Inr s1) pre" "\<not> sr_readerTaken s1"
  proof (cases "pre = []")
    case True
    have "sr_step_ok s (Inr s) []" using inv by (simp add: sr_step_ok_simps)
    then show ?thesis using that(2) [of s] True def free left by simp
  next
    case False
    from sr_forward_refines [OF inv free nz False len, of data] show ?thesis using that False def left by auto
  qed
  then show ?thesis
  proof cases
    case fault
    then show ?thesis using left by (intro exI [of _ pre] exI [of _ "post @ left"]) simp
  next
    case ok
    show ?thesis
    proof (cases "post = []")
      case True
      then show ?thesis using ok left by (intro exI [of _ pre] exI [of _ left]) simp
    next
      case False
      then have zero: "post = 0 # tl post" using hd_dropWhile [of "\<lambda>x. x \<noteq> 0" "sr_head s data"] by (cases post) (auto simp: post_def)
      have "sr_sizes s1" using ok(2) by (simp add: sr_step_ok_simps sr_inv_def)
      then obtain s2 where s2: "sr_message_boundary keep s1 (post @ left) = Inr (s2, tl (post @ left))" "sr_step_ok s1 (Inr s2) [0]"
          "sr_nextOverhead s2 = 1" "sr_overheadPositionIsPseudo s2"
        using sr_boundary by blast
      have "data = (pre @ [0]) @ (tl post @ left)" using zero left by (metis append.assoc append_Cons append_Nil)
      then show ?thesis using ok(1) s2 False sr_step_ok_append [OF ok(2) s2(2)]
        by (intro exI [of _ "pre @ [0]"] exI [of _ "tl post @ left"]) simp
    qed
  qed
qed

text \<open>What a call of \<open>ReceivedData\<close> takes is decoded; it stops early only for a message that is kept.\<close>

lemma sr_received_refines:
  assumes "sr_inv s" and "sr_readerTaken s \<longrightarrow> sr_nextOverhead s = 1 \<and> sr_overheadPositionIsPseudo s"
  shows "\<exists>bs rest. data = bs @ rest \<and> sr_step_ok s (rbind (sr_received_data keep s data) (\<lambda>(s1, data1). Inr s1)) bs \<and>
    (\<forall>s1 data1. sr_received_data keep s data = Inr (s1, data1) \<longrightarrow> data1 = rest \<and> (rest \<noteq> [] \<longrightarrow> sr_readerTaken s1))"
  using assms
proof (induction keep s data rule: sr_received_data.induct)
  case (1 keep s data)
  show ?case
  proof (cases "data = []")
    case True
    then show ?thesis using 1(3) by (simp add: sr_received_data.simps sr_step_ok_simps)
  next
    case ne: False
    define step where "step = (if sr_nextOverhead s = 1 then sr_extract_overhead keep s data else sr_extract_data keep s data)"
    obtain bs rest where d: "data = bs @ rest" and ok: "sr_step_ok s (rbind step (\<lambda>(s1, data1). Inr s1)) bs"
      and rest: "\<And>s1 data1. step = Inr (s1, data1) \<Longrightarrow> data1 = rest \<and>
        (sr_readerTaken s1 \<longrightarrow> sr_nextOverhead s = 1 \<or> sr_nextOverhead s1 = 1 \<and> sr_overheadPositionIsPseudo s1)"
    proof (cases "sr_nextOverhead s = 1")
      case True
      have "sr_step_ok s (rbind step (\<lambda>(s1, data1). Inr s1)) [hd data]"
        unfolding step_def using sr_overhead_refines [OF 1(3) True _ ne] 1(4) True by simp
      then show thesis using that [of "[hd data]" "tl data"] ne True by (auto simp: step_def dest: sr_overhead_rest)
    next
      case False
      then have "\<not> sr_readerTaken s" using 1(4) by blast
      from sr_data_refines [OF 1(3) this, of data keep] show thesis using that False by (auto simp: step_def)
    qed
    show ?thesis
    proof (cases step)
      case (Inl f)
      then have "sr_received_data keep s data = Inl f" using ne by (subst sr_received_data.simps) (auto simp: step_def)
      then show ?thesis using d ok Inl by (intro exI [of _ bs] exI [of _ rest]) simp
    next
      case (Inr a)
      obtain s1 data1 where a: "a = (s1, data1)" by (cases a)
      have data1: "data1 = rest" using rest [of s1 data1] Inr a by simp
      have ok1: "sr_step_ok s (Inr s1) bs" and inv1: "sr_inv s1" using ok Inr a by (simp_all add: sr_step_ok_simps)
      show ?thesis
      proof (cases "sr_nextOverhead s = 1 \<and> sr_readerTaken s1")
        case True
        then have "sr_received_data keep s data = Inr (s1, rest)"
          using ne Inr a data1 by (subst sr_received_data.simps) (simp add: step_def)
        then show ?thesis using d ok1 True by (intro exI [of _ bs] exI [of _ rest]) simp
      next
        case False
        then have rec: "sr_received_data keep s data = sr_received_data keep s1 rest"
          using ne Inr a data1 by (subst sr_received_data.simps) (auto simp: step_def)
        have aligned: "sr_readerTaken s1 \<longrightarrow> sr_nextOverhead s1 = 1 \<and> sr_overheadPositionIsPseudo s1"
          using rest [of s1 data1] Inr a False by auto
        have "\<exists>bs1 rest1. rest = bs1 @ rest1 \<and> sr_step_ok s1 (rbind (sr_received_data keep s1 rest) (\<lambda>(s1, data1). Inr s1)) bs1 \<and>
            (\<forall>s2 data2. sr_received_data keep s1 rest = Inr (s2, data2) \<longrightarrow> data2 = rest1 \<and> (rest1 \<noteq> [] \<longrightarrow> sr_readerTaken s2))"
        proof (cases "sr_nextOverhead s = 1")
          case True
          then have "sr_extract_overhead keep s data = Inr (s1, rest)" "\<not> sr_readerTaken s1" using Inr a data1 False by (auto simp: step_def)
          from 1(1) [OF ne True this(1) refl this(2) inv1 aligned] show ?thesis .
        next
          case f: False
          then have "sr_extract_data keep s data = Inr (s1, rest)" using Inr a data1 by (simp add: step_def)
          from 1(2) [OF ne f this refl inv1 aligned] show ?thesis .
        qed
        then obtain bs1 rest1 where "rest = bs1 @ rest1" "sr_step_ok s1 (rbind (sr_received_data keep s1 rest) (\<lambda>(s1, data1). Inr s1)) bs1"
            "\<And>s2 data2. sr_received_data keep s1 rest = Inr (s2, data2) \<Longrightarrow> data2 = rest1 \<and> (rest1 \<noteq> [] \<longrightarrow> sr_readerTaken s2)"
          by blast
        then show ?thesis unfolding rec using d sr_step_ok_append [OF ok1]
          by (intro exI [of _ "bs @ bs1"] exI [of _ rest1]) auto
      qed
    qed
  qed
qed

definition some_piece :: "(byte list \<Rightarrow> nat) \<Rightarrow> bool" where
  "some_piece piece \<longleftrightarrow> (\<forall>pending. pending \<noteq> [] \<longrightarrow> 0 < piece pending)"

lemma sr_loop_refines:
  assumes "sr_inv s" and "some_piece piece"
  shows "\<exists>bs rest. pending = bs @ rest \<and> sr_step_ok s (rbind (sr_receive_loop keep piece s pending) (\<lambda>(s1, data1). Inr s1)) bs \<and>
    (\<forall>s1 data1. sr_receive_loop keep piece s pending = Inr (s1, data1) \<longrightarrow> data1 = rest \<and> (rest \<noteq> [] \<longrightarrow> sr_readerTaken s1))"
  using assms
proof (induction keep piece s pending rule: sr_receive_loop.induct)
  case (1 keep piece s pending)
  show ?case
  proof (cases "sr_readerTaken s \<or> pending = []")
    case True
    then have "sr_receive_loop keep piece s pending = Inr (s, pending)" by (subst sr_receive_loop.simps) auto
    then show ?thesis using True 1(2) by (intro exI [of _ "[]"] exI [of _ pending]) (auto simp: sr_step_ok_simps)
  next
    case False
    define data where "data = take (piece pending) pending"
    have ne: "data \<noteq> []" using False 1(3) by (auto simp: data_def some_piece_def)
    have step: "sr_receive_loop keep piece s pending = (case sr_received_data keep s data of Inl f \<Rightarrow> Inl f
        | Inr (s1, rest) \<Rightarrow> sr_receive_loop keep piece s1 (rest @ drop (piece pending) pending))"
      using False ne by (subst sr_receive_loop.simps) (simp add: data_def Let_def)
    obtain bs rest where d: "data = bs @ rest" and ok: "sr_step_ok s (rbind (sr_received_data keep s data) (\<lambda>(s1, data1). Inr s1)) bs"
        and rest: "\<And>s1 data1. sr_received_data keep s data = Inr (s1, data1) \<Longrightarrow> data1 = rest"
      using sr_received_refines [of s data keep] 1(2) False by blast
    have pending: "pending = bs @ rest @ drop (piece pending) pending" using d append_take_drop_id [of "piece pending" pending] by (simp add: data_def)
    show ?thesis
    proof (cases "sr_received_data keep s data")
      case (Inl f)
      then show ?thesis using pending ok step by (intro exI [of _ bs] exI [of _ "rest @ drop (piece pending) pending"]) simp
    next
      case (Inr a)
      obtain s1 where a: "a = (s1, rest)" using rest Inr by (cases a) auto
      have ok1: "sr_step_ok s (Inr s1) bs" using ok Inr a by simp
      then have "sr_inv s1" by (simp add: sr_step_ok_simps)
      moreover have "\<not> (sr_readerTaken s \<or> data = [])" using False ne by simp
      ultimately obtain bs1 rest1 where
          "rest @ drop (piece pending) pending = bs1 @ rest1"
          "sr_step_ok s1 (rbind (sr_receive_loop keep piece s1 (rest @ drop (piece pending) pending)) (\<lambda>(s1, data1). Inr s1)) bs1"
          "\<And>s2 data2. sr_receive_loop keep piece s1 (rest @ drop (piece pending) pending) = Inr (s2, data2) \<Longrightarrow>
            data2 = rest1 \<and> (rest1 \<noteq> [] \<longrightarrow> sr_readerTaken s2)"
        using 1(1) [OF data_def _ Inr a [symmetric] _ 1(3)] by blast
      then show ?thesis using step Inr a pending sr_step_ok_append [OF ok1]
        by (intro exI [of _ "bs @ bs1"] exI [of _ rest1]) auto
    qed
  qed
qed

lemma sr_receiving_frame [simp]:
  "sr_step_ok (s\<lparr>sr_receiving := b\<rparr>) r bs = sr_step_ok s r bs"
  "sr_step_ok s (Inr (s1\<lparr>sr_receiving := b\<rparr>)) bs = sr_step_ok s (Inr s1) bs"
  "sr_inv (s\<lparr>sr_receiving := b\<rparr>) = sr_inv s"
  by (auto simp: sr_step_ok_def sr_abs_def sr_cap_def sr_inv_def sr_sizes_def split: sum.split)

section \<open>Any sequence of arrivals and releases\<close>

datatype sr_event = Arrive "byte list" | Let_go

definition sr_event :: "observer \<Rightarrow> (byte list \<Rightarrow> nat) \<Rightarrow> sr_event \<Rightarrow> sc_receiver \<times> byte list \<Rightarrow> (sc_receiver \<times> byte list) result" where
  "sr_event keep piece ev st = (case (ev, st) of
     (Arrive new, (s, pending)) \<Rightarrow> sr_data_received keep piece s (pending @ new)
   | (Let_go, (s, pending)) \<Rightarrow> if sr_readerTaken s then sr_reader_released keep piece s pending else Inr (s, pending))"

fun sr_events :: "observer \<Rightarrow> (byte list \<Rightarrow> nat) \<Rightarrow> sr_event list \<Rightarrow> sc_receiver \<times> byte list \<Rightarrow> (sc_receiver \<times> byte list) result" where
  "sr_events keep piece [] st = Inr st"
| "sr_events keep piece (ev # evs) st = rbind (sr_event keep piece ev st) (sr_events keep piece evs)"

fun arrived :: "sr_event list \<Rightarrow> byte list" where
  "arrived [] = []"
| "arrived (Arrive new # evs) = new @ arrived evs"
| "arrived (Let_go # evs) = arrived evs"

text \<open>The state after some bytes were taken from the line, with those that were not.\<close>

definition sr_idle :: "sc_receiver \<times> byte list \<Rightarrow> bool" where
  "sr_idle st \<longleftrightarrow> sr_inv (fst st) \<and> \<not> sr_receiving (fst st) \<and> (snd st \<noteq> [] \<longrightarrow> sr_readerTaken (fst st))"

definition sr_outcome_ok :: "sc_receiver \<Rightarrow> (sc_receiver \<times> byte list) result \<Rightarrow> byte list \<Rightarrow> bool" where
  "sr_outcome_ok s r bytes \<longleftrightarrow> (case r of
     Inl f \<Rightarrow> sized_bytes (sr_cap s) (sr_abs s) bytes = Inl f
   | Inr (s1, pending) \<Rightarrow> sr_idle (s1, pending) \<and> (\<exists>taken. taken @ pending = bytes \<and> sr_step_ok s (Inr s1) taken))"

lemma sr_data_received_ok:
  assumes "sr_inv s" and "some_piece piece"
  shows "sr_outcome_ok s (sr_data_received keep piece s pending) pending"
proof -
  let ?s = "s\<lparr>sr_receiving := True\<rparr>"
  obtain bs rest where p: "pending = bs @ rest"
      "sr_step_ok ?s (rbind (sr_receive_loop keep piece ?s pending) (\<lambda>(s1, data1). Inr s1)) bs"
      "\<And>s1 data1. sr_receive_loop keep piece ?s pending = Inr (s1, data1) \<Longrightarrow> data1 = rest \<and> (rest \<noteq> [] \<longrightarrow> sr_readerTaken s1)"
  proof -
    have "sr_inv ?s" using assms(1) by simp
    from sr_loop_refines [OF this assms(2), of pending keep] show thesis using that by blast
  qed
  show ?thesis
  proof (cases "sr_receive_loop keep piece ?s pending")
    case (Inl f)
    then have "sr_step_ok s (Inl f) (bs @ rest)" using p(2) by (intro sr_step_ok_fault) simp
    then show ?thesis using p(1) Inl by (simp add: sr_outcome_ok_def sr_data_received_def sr_step_ok_simps)
  next
    case (Inr a)
    obtain s1 where a: "a = (s1, rest)" using p(3) [of "fst a" "snd a"] Inr by (cases a) simp
    have "sr_step_ok s (Inr s1) bs" using p(2) Inr a by simp
    moreover from this have "sr_inv s1" by (simp add: sr_step_ok_simps)
    moreover have "rest \<noteq> [] \<longrightarrow> sr_readerTaken s1" using p(3) Inr a by simp
    moreover have "sr_data_received keep piece s pending = Inr (s1\<lparr>sr_receiving := False\<rparr>, rest)"
      using Inr a by (simp add: sr_data_received_def)
    ultimately show ?thesis using p(1) by (simp add: sr_outcome_ok_def sr_idle_def)
  qed
qed

lemma sr_event_ok:
  assumes "sr_idle (s, pending)" and "some_piece piece"
  shows "sr_outcome_ok s (sr_event keep piece ev (s, pending)) (pending @ arrived [ev])"
proof (cases ev)
  case (Arrive new)
  then show ?thesis using sr_data_received_ok [OF _ assms(2)] assms(1) by (simp add: sr_event_def sr_idle_def)
next
  case Let_go
  show ?thesis
  proof (cases "sr_readerTaken s")
    case True
    have inv: "sr_inv s" using assms(1) by (simp add: sr_idle_def)
    obtain s1 where s1: "sr_let_go s = Inr s1" "sr_inv s1" "sr_abs s1 = sr_abs s" "sr_cap s1 = sr_cap s" "sr_delivered s1 = sr_delivered s"
        "sr_receiving s1 = sr_receiving s"
      using sr_let_go_ok [OF inv True] by blast
    have "sr_onAllocatable s \<noteq> None" using inv True by (auto simp: sr_inv_def sr_sizes_def)
    then have "sr_event keep piece ev (s, pending) = sr_data_received keep piece s1 pending"
      using Let_go True s1 assms(1) by (simp add: sr_event_def sr_reader_released_def sr_idle_def)
    moreover have "sr_outcome_ok s1 r pending = sr_outcome_ok s r pending" for r
      using s1 by (simp add: sr_outcome_ok_def sr_step_ok_def split: sum.split)
    ultimately show ?thesis using sr_data_received_ok [OF s1(2) assms(2), of keep pending] Let_go by simp
  next
    case False
    then show ?thesis using assms(1) Let_go
      by (auto simp: sr_event_def sr_outcome_ok_def sr_step_ok_simps sr_idle_def)
  qed
qed

lemma sr_events_ok:
  "sr_idle (s, pending) \<Longrightarrow> some_piece piece \<Longrightarrow>
    sr_outcome_ok s (sr_events keep piece evs (s, pending)) (pending @ arrived evs)"
proof (induction evs arbitrary: s pending)
  case Nil
  then show ?case by (auto simp: sr_outcome_ok_def sr_step_ok_simps sr_idle_def)
next
  case (Cons ev evs)
  have arrived: "arrived (ev # evs) = arrived [ev] @ arrived evs" by (cases ev) simp_all
  have first: "sr_outcome_ok s (sr_event keep piece ev (s, pending)) (pending @ arrived [ev])"
    using sr_event_ok Cons.prems by blast
  show ?case
  proof (cases "sr_event keep piece ev (s, pending)")
    case (Inl f)
    then show ?thesis using first arrived by (simp add: sr_outcome_ok_def sized_bytes_append flip: append_assoc)
  next
    case (Inr a)
    obtain s1 p1 where a: "a = (s1, p1)" by (cases a)
    obtain taken where t: "taken @ p1 = pending @ arrived [ev]" "sr_step_ok s (Inr s1) taken" and idle: "sr_idle (s1, p1)"
      using first Inr a by (auto simp: sr_outcome_ok_def)
    have all: "pending @ arrived (ev # evs) = taken @ (p1 @ arrived evs)" using t(1) arrived by (metis append.assoc)
    have IH: "sr_outcome_ok s1 (sr_events keep piece evs (s1, p1)) (p1 @ arrived evs)" using Cons.IH idle Cons.prems by blast
    show ?thesis unfolding all
    proof (cases "sr_events keep piece evs (s1, p1)")
      case (Inl f)
      then have "sr_step_ok s (Inl f) (taken @ (p1 @ arrived evs))"
        using IH by (intro sr_step_ok_append [OF t(2)]) (simp add: sr_outcome_ok_def sr_step_ok_simps)
      then show "sr_outcome_ok s (sr_events keep piece (ev # evs) (s, pending)) (taken @ (p1 @ arrived evs))"
        using Inl Inr \<open>sr_event keep piece ev (s, pending) = Inr a\<close> a by (simp add: sr_outcome_ok_def sr_step_ok_simps)
    next
      case (Inr b)
      obtain s2 p2 where b: "b = (s2, p2)" by (cases b)
      then obtain taken2 where "taken2 @ p2 = p1 @ arrived evs" "sr_step_ok s1 (Inr s2) taken2" "sr_idle (s2, p2)"
        using IH Inr by (auto simp: sr_outcome_ok_def)
      then show "sr_outcome_ok s (sr_events keep piece (ev # evs) (s, pending)) (taken @ (p1 @ arrived evs))"
        using Inr \<open>sr_event keep piece ev (s, pending) = Inr a\<close> a b sr_step_ok_append [OF t(2)]
        by (auto simp: sr_outcome_ok_def intro!: exI [of _ "taken @ taken2"])
    qed
  qed
qed

lemma sr_new_idle: "length storage < 2 ^ 32 \<Longrightarrow> sr_idle (sr_new storage, [])"
  by (simp add: sr_idle_def sr_inv_def sr_sizes_def sr_new_def sr_cap_def dq_inv_new) (simp add: dq_new_def dq_size_def dq_max_size_def)

lemma sr_new_abs: "sr_abs (sr_new storage) = (cobs_start, 0)" "sr_cap (sr_new storage) = length storage" "sr_delivered (sr_new storage) = []"
  by (simp_all add: sr_abs_def sr_new_def cobs_start_def sr_cap_def) (simp add: dq_new_def dq_max_size_def)

text \<open>C16: the receiver of SesameCobs implements the COBS codec, whatever pieces the serial line's reader
  shows and whichever messages the observer keeps and for however long. The bytes it has taken
  from the line decode to the messages it has handed over, in this order, with the encoded size of
  each; bytes stay on the line only as long as the observer keeps a message; and it fails only
  where the codec does, on a message that is larger than the buffer.\<close>

theorem sesame_receiver_refines_codec:
  assumes "length storage < 2 ^ 32" and "some_piece piece"
  shows "case sr_events keep piece evs (sr_new storage, []) of
      Inl f \<Rightarrow> sized_bytes (length storage) (cobs_start, 0) (arrived evs) = Inl f
    | Inr (s, pending) \<Rightarrow> (pending \<noteq> [] \<longrightarrow> sr_readerTaken s) \<and>
        (\<exists>taken. taken @ pending = arrived evs \<and>
          sized_bytes (length storage) (cobs_start, 0) taken = Inr (sr_abs s, sr_delivered s))"
  using sr_events_ok [OF sr_new_idle [OF assms(1)] assms(2), of keep evs]
  by (auto simp: sr_outcome_ok_def sr_step_ok_simps sr_new_abs sr_idle_def split: sum.splits)

theorem sesame_receiver_refines_codec_witness:
  "case sr_events (\<lambda>msgs. length msgs = 1) (\<lambda>_. 2) [Arrive [3, 7, 9], Arrive [0, 2, 5, 0], Let_go] (sr_new [0, 0, 0, 0], []) of
      Inl f \<Rightarrow> False
    | Inr (s, pending) \<Rightarrow> (pending \<noteq> [] \<longrightarrow> sr_readerTaken s) \<and>
        (\<exists>taken. taken @ pending = [3, 7, 9, 0, 2, 5, 0] \<and>
          sized_bytes 4 (cobs_start, 0) taken = Inr (sr_abs s, sr_delivered s))"
proof -
  have "sized_bytes 4 (cobs_start, 0) [3, 7, 9, 0, 2, 5, 0] \<noteq> Inl f" for f
    by (simp add: sized_byte_def cobs_byte_def cobs_append_def cobs_boundary_def cobs_start_def)
  moreover have "length [0, 0, 0, 0 :: byte] = 4" "arrived [Arrive [3, 7, 9], Arrive [0, 2, 5, 0], Let_go] = [3, 7, 9, 0, 2, 5, 0]"
    by simp_all
  ultimately show ?thesis
    using sesame_receiver_refines_codec [where storage = "[0, 0, 0, 0]" and piece = "\<lambda>_. 2" and keep = "\<lambda>msgs. length msgs = 1"
        and evs = "[Arrive [3, 7, 9], Arrive [0, 2, 5, 0], Let_go]"]
    by (cases "sr_events (\<lambda>msgs. length msgs = 1) (\<lambda>_. 2) [Arrive [3, 7, 9], Arrive [0, 2, 5, 0], Let_go] (sr_new [0, 0, 0, 0], [])")
      (simp_all only: some_piece_def sum.case, auto)
qed

end
