(* ===== verification/Sesame_Cobs.thy ===== *)
theory Sesame_Cobs
  imports Sesame_Cobs_Sender Sesame_Cobs_Receiver
begin

text \<open>
  The two halves of \<open>services::SesameCobs\<close> against each other: what one side sends, the other hands to
  its observer, and the encoded size that the one reports as sent is the size that the other reports
  as received. This is what the windows of SesameWindowed rest on.
\<close>

section \<open>Sending one message after the other\<close>

text \<open>Each message is requested, written into the stream and sent before the next one is requested.\<close>

fun sc_send_messages :: "nat \<Rightarrow> sc_sender \<Rightarrow> byte vec list \<Rightarrow> sc_result option" where
  "sc_send_messages fuel s [] = Some (Inr (s, []))"
| "sc_send_messages fuel s (v # vs) =
     (case sc_run fuel (rbind (sc_request_send_message s (vec_size v)) (\<lambda>(s1, _). sc_stream_released s1 v)) of
        None \<Rightarrow> None
      | Some (Inl f) \<Rightarrow> Some (Inl f)
      | Some (Inr (s2, out)) \<Rightarrow> map_option (prefixed out) (sc_send_messages fuel s2 vs))"

definition line_bytes :: "sc_out list \<Rightarrow> byte list" where
  "line_bytes out = concat (map (\<lambda>x. case x of Line bs \<Rightarrow> bs | _ \<Rightarrow> []) out)"

definition reported :: "sc_out list \<Rightarrow> nat list" where
  "reported out = concat (map (\<lambda>x. case x of Message_sent n \<Rightarrow> [n] | _ \<Rightarrow> []) out)"

lemma out_simps [simp]:
  "line_bytes [] = []" "reported [] = []"
  "line_bytes (out1 @ out2) = line_bytes out1 @ line_bytes out2" "reported (out1 @ out2) = reported out1 @ reported out2"
  "line_bytes (map Line lines) = concat lines" "reported (map Line lines) = []"
  "line_bytes [Message_sent n] = []" "reported [Message_sent n] = [n]"
  by (simp_all add: line_bytes_def reported_def comp_def)

definition sc_ready :: "sc_sender \<Rightarrow> bool" where
  "sc_ready s \<longleftrightarrow> sc_sendReqestedSize s = None \<and> \<not> sc_sendingUserData s \<and> \<not> sc_resetting s \<and> sc_sendSizeEncoded s = 0 \<and>
     \<not> sc_streamTaken s \<and> sc_onAllocatable s = Fill \<and> sc_pending s = None"

lemma sc_send_message:
  assumes "sc_ready s" and "2 * vec_size v + 4 \<le> fuel"
  shows "\<exists>s1 out. sc_run fuel (rbind (sc_request_send_message s (vec_size v)) (\<lambda>(s1, _). sc_stream_released s1 v)) = Some (Inr (s1, out)) \<and>
    line_bytes out = sesame_packet (sc_sendingFirstPacket s) (vec_range v) \<and>
    reported out = [length (sesame_packet (sc_sendingFirstPacket s) (vec_range v))] \<and> sc_ready s1 \<and> \<not> sc_sendingFirstPacket s1"
proof -
  define s1 where "s1 = s\<lparr>sc_sendStorage := v, sc_sendReqestedSize := None, sc_streamTaken := False\<rparr>"
  have filled: "rbind (sc_request_send_message s (vec_size v)) (\<lambda>(s1, _). sc_stream_released s1 v) = sc_send_stream_filled s1"
    using assms(1) by (cases s) (simp add: sc_ready_def sc_request_send_message_def sc_check_ready_def sc_stream_released_def Let_def s1_def)
  have "\<not> sc_resetting s1" using assms(1) by (simp add: sc_ready_def s1_def)
  from sc_sends_packet [OF this] obtain n where n: "n \<le> 2 * vec_size v + 4"
      "sc_sends n (sc_send_stream_filled s1) (s1\<lparr>sc_sendingFirstPacket := False\<rparr>) (sesame_packet (sc_sendingFirstPacket s) (vec_range v))"
    by (auto simp: s1_def)
  let ?packet = "sesame_packet (sc_sendingFirstPacket s) (vec_range v)"
  obtain f lines where lines: "concat lines = ?packet" and run: "sc_run n (sc_send_stream_filled s1) =
      Some (prefixed (map Line lines @ [Message_sent (sc_sendSizeEncoded (s1\<lparr>sc_sendingFirstPacket := False\<rparr>) + length ?packet)])
        (sc_check_ready (sc_idle (s1\<lparr>sc_sendingFirstPacket := False\<rparr>) f)))"
    using n(2) unfolding sc_sends_def by blast
  have "sc_check_ready (sc_idle (s1\<lparr>sc_sendingFirstPacket := False\<rparr>) f) = Inr (sc_idle (s1\<lparr>sc_sendingFirstPacket := False\<rparr>) f, [])"
    by (simp add: sc_check_ready_def sc_idle_def s1_def)
  moreover have "sc_sendSizeEncoded (s1\<lparr>sc_sendingFirstPacket := False\<rparr>) = 0" using assms(1) by (simp add: s1_def sc_ready_def)
  ultimately have "sc_run fuel (sc_send_stream_filled s1) =
      Some (Inr (sc_idle (s1\<lparr>sc_sendingFirstPacket := False\<rparr>) f, map Line lines @ [Message_sent (length ?packet)]))"
    using sc_run_mono [OF run] n(1) assms(2) by simp
  then show ?thesis unfolding filled using assms(1) lines by (simp add: sc_ready_def sc_idle_def s1_def)
qed

section \<open>Decoding packets\<close>

lemma length_sesame_packet:
  "length (sesame_packet first xs) \<le> sc_message_size (length xs) + (if first then 1 else 0)"
  using cobs_frames_length [of xs] by (simp add: sesame_packet_def sc_message_size_def)

lemma sized_packet:
  assumes "length xs \<le> cap" and "xs \<noteq> []"
  shows "sized_bytes cap (cobs_start, 0) (sesame_packet first xs) =
    Inr ((cobs_start, 0), [(xs, length (sesame_packet first xs))])"
proof -
  obtain pseudo where "cobs_bytes cap cobs_start (cobs_frames xs) = Inr (\<lparr>cs_next = 1, cs_pseudo = pseudo, cs_message = xs\<rparr>, [])"
    using cobs_decode_frames [of cobs_start xs cap] assms by (auto simp: cobs_start_def)
  then have frames: "sized_bytes cap (cobs_start, n) (cobs_frames xs @ [0]) = Inr ((cobs_start, 0), [(xs, n + length (cobs_frames xs) + 1)])" for n
    using sized_bytes_nonzero [OF cobs_frames_nonzero] assms(2) by (simp add: sized_bytes_append sized_bytes_zero del: sized_bytes.simps)
  show ?thesis
  proof (cases first)
    case True
    then have packet: "sesame_packet first xs = [0] @ (cobs_frames xs @ [0])" using assms(2) by (simp add: sesame_packet_def)
    have zero: "sized_bytes cap (cobs_start, 0) [0] = Inr ((cobs_start, 1), [])"
      unfolding sized_bytes_zero by (simp add: cobs_start_def)
    have "sized_bytes cap (cobs_start, 0) ([0] @ (cobs_frames xs @ [0])) = Inr ((cobs_start, 0), [(xs, 1 + length (cobs_frames xs) + 1)])"
      by (simp only: sized_bytes_append [of _ _ "[0]"] zero rbind.simps prod.case frames append_Nil)
    then show ?thesis unfolding packet by simp
  next
    case False
    then show ?thesis using frames [of 0] assms(2) by (simp add: sesame_packet_def)
  qed
qed

lemma sized_packets:
  assumes "\<forall>xs\<in>set msgs. length xs \<le> cap \<and> xs \<noteq> []"
  shows "sized_bytes cap (cobs_start, 0) (concat (map (sesame_packet False) msgs)) =
    Inr ((cobs_start, 0), map (\<lambda>xs. (xs, length (sesame_packet False xs))) msgs)"
  using assms
proof (induction msgs)
  case (Cons xs msgs)
  then show ?case using sized_packet [of xs cap False] by (simp add: sized_bytes_append)
qed simp

text \<open>The packets of a line: the first one after construction or \<open>Reset\<close> has a delimiter more.\<close>

definition sesame_packets :: "bool \<Rightarrow> byte list list \<Rightarrow> byte list list" where
  "sesame_packets first msgs = (case msgs of [] \<Rightarrow> [] | xs # rest \<Rightarrow> sesame_packet first xs # map (sesame_packet False) rest)"

lemma sized_line:
  assumes "\<forall>xs\<in>set msgs. length xs \<le> cap \<and> xs \<noteq> []"
  shows "sized_bytes cap (cobs_start, 0) (concat (sesame_packets first msgs)) =
    Inr ((cobs_start, 0), zip msgs (map length (sesame_packets first msgs)))"
proof (cases msgs)
  case (Cons xs rest)
  have "zip rest (map length (map (sesame_packet False) rest)) = map (\<lambda>xs. (xs, length (sesame_packet False xs))) rest"
    by (simp add: zip_map2 zip_same_conv_map)
  then show ?thesis using assms Cons sized_packet [of xs cap first] sized_packets [of rest cap]
    by (simp add: sesame_packets_def sized_bytes_append)
qed (simp add: sesame_packets_def)

lemma sc_send_messages_packets:
  assumes "sc_ready s" and "\<forall>v\<in>set vs. 2 * vec_size v + 4 \<le> fuel"
  shows "\<exists>s1 out. sc_send_messages fuel s vs = Some (Inr (s1, out)) \<and> sc_ready s1 \<and>
    line_bytes out = concat (sesame_packets (sc_sendingFirstPacket s) (map vec_range vs)) \<and>
    reported out = map length (sesame_packets (sc_sendingFirstPacket s) (map vec_range vs))"
  using assms
proof (induction vs arbitrary: s)
  case (Cons v vs)
  obtain s1 out where one: "sc_run fuel (rbind (sc_request_send_message s (vec_size v)) (\<lambda>(s1, _). sc_stream_released s1 v)) = Some (Inr (s1, out))"
      "line_bytes out = sesame_packet (sc_sendingFirstPacket s) (vec_range v)"
      "reported out = [length (sesame_packet (sc_sendingFirstPacket s) (vec_range v))]" "sc_ready s1" "\<not> sc_sendingFirstPacket s1"
    using sc_send_message [OF Cons.prems(1), of v fuel] Cons.prems(2) by auto
  obtain s2 out2 where rest: "sc_send_messages fuel s1 vs = Some (Inr (s2, out2))" "sc_ready s2"
      "line_bytes out2 = concat (sesame_packets (sc_sendingFirstPacket s1) (map vec_range vs))"
      "reported out2 = map length (sesame_packets (sc_sendingFirstPacket s1) (map vec_range vs))"
    using Cons.IH [OF one(4)] Cons.prems(2) by auto
  have "sesame_packets False (map vec_range vs) = map (sesame_packet False) (map vec_range vs)"
    by (cases vs) (simp_all add: sesame_packets_def)
  then have "line_bytes out2 = concat (map (sesame_packet False) (map vec_range vs))"
      "reported out2 = map length (map (sesame_packet False) (map vec_range vs))"
    using rest(3,4) one(5) by simp_all
  then show ?case using one(1-3) rest(1,2) by (simp add: sesame_packets_def comp_def)
qed (simp add: sesame_packets_def)

text \<open>C6: the messages that a SesameCobs sends one after the other arrive at another one as they were
  written, however the line cuts the bytes, and whichever messages the observer keeps and for
  however long, once it keeps none: each with the encoded size that its sender was told, which is at
  most what \<open>MessageSize\<close> says, and one more for the first message. The messages are not empty and have at most as many bytes
  as the receiver's storage, which has less than 2 to the power 32 (of an empty message only delimiters are sent, and nothing is delivered for it); the
  receiver's reader gives at least one byte at a time while there are any, and the sender is not reset on the way. The sender needs at most two
  callbacks of the line for each byte of the receiver's storage, and four.\<close>

theorem sesame_cobs_roundtrip:
  assumes "\<forall>v\<in>set vs. 0 < vec_size v \<and> vec_size v \<le> length storage" and "length storage < 2 ^ 32" and "some_piece piece"
  shows "\<exists>s out. sc_send_messages (2 * length storage + 4) (sc_new sendStorage) vs = Some (Inr (s, out)) \<and>
    (\<forall>evs. arrived evs = line_bytes out \<longrightarrow> (\<exists>r pending. sr_events keep piece evs (sr_new storage, []) = Inr (r, pending) \<and>
       (\<not> sr_readerTaken r \<longrightarrow> pending = [] \<and> sr_delivered r = zip (map vec_range vs) (reported out)))) \<and>
    length (reported out) = length vs \<and>
    (\<forall>i<length vs. reported out ! i \<le> sc_message_size (vec_size (vs ! i)) + (if i = 0 then 1 else 0))"
proof -
  let ?packets = "sesame_packets True (map vec_range vs)"
  have first: "sc_sendingFirstPacket (sc_new sendStorage)" by (simp add: sc_new_def)
  have "sc_ready (sc_new sendStorage)" by (simp add: sc_ready_def sc_new_def)
  moreover have "\<forall>v\<in>set vs. 2 * vec_size v + 4 \<le> 2 * length storage + 4" using assms(1) by simp
  ultimately obtain s out where send: "sc_send_messages (2 * length storage + 4) (sc_new sendStorage) vs = Some (Inr (s, out))"
      "line_bytes out = concat ?packets" "reported out = map length ?packets"
    using sc_send_messages_packets [of "sc_new sendStorage" vs "2 * length storage + 4"] first by auto
  have nonempty: "vec_range v \<noteq> []" if "v \<in> set vs" for v
    using assms(1) that by (metis length_vec_range list.size(3) less_irrefl)
  have decode: "sized_bytes (length storage) (cobs_start, 0) (concat ?packets) = Inr ((cobs_start, 0), zip (map vec_range vs) (reported out))"
    unfolding send(3) using assms(1) nonempty by (intro sized_line) auto
  have "\<exists>r pending. sr_events keep piece evs (sr_new storage, []) = Inr (r, pending) \<and>
       (\<not> sr_readerTaken r \<longrightarrow> pending = [] \<and> sr_delivered r = zip (map vec_range vs) (reported out))"
    if evs: "arrived evs = line_bytes out" for evs
  proof (cases "sr_events keep piece evs (sr_new storage, [])")
    case (Inl f)
    then show ?thesis using sr_events_ok [OF sr_new_idle [OF assms(2)] assms(3), of keep evs] decode evs send(2)
      by (simp add: sr_outcome_ok_def sr_new_abs)
  next
    case (Inr a)
    then show ?thesis using sr_events_ok [OF sr_new_idle [OF assms(2)] assms(3), of keep evs] decode evs send(2)
      by (cases a) (auto simp: sr_outcome_ok_def sr_step_ok_simps sr_new_abs sr_idle_def)
  qed
  moreover have "length ?packets = length vs" by (cases vs) (simp_all add: sesame_packets_def)
  moreover have "?packets ! i = sesame_packet (i = 0) (vec_range (vs ! i))" if "i < length vs" for i
    using that by (cases vs; cases i) (auto simp: sesame_packets_def)
  moreover have "length (sesame_packet (i = 0) (vec_range (vs ! i))) \<le> sc_message_size (vec_size (vs ! i)) + (if i = 0 then 1 else 0)" for i
    using length_sesame_packet [of "i = 0" "vec_range (vs ! i)"] by simp
  ultimately show ?thesis using send by (intro exI [of _ s] exI [of _ out]) simp
qed

theorem sesame_cobs_roundtrip_witness:
  "\<exists>s out r pending. sc_send_messages 12 (sc_new (vec_new [0, 0])) [\<lparr>vec_storage = [4, 0], vec_numAllocated = 2\<rparr>] = Some (Inr (s, out)) \<and>
     sr_events (\<lambda>_. False) length [Arrive (line_bytes out)] (sr_new [0, 0, 0, 0], []) = Inr (r, pending) \<and>
     (\<not> sr_readerTaken r \<longrightarrow> pending = [] \<and> sr_delivered r = zip [[4, 0]] (reported out))"
proof -
  let ?v = "\<lparr>vec_storage = [4, 0 :: byte], vec_numAllocated = 2\<rparr>"
  have v: "vec_size ?v = 2" "vec_range ?v = [4, 0]" by (simp_all add: vec_size_def vec_range_def view_def vec_get_def upt_rec)
  have "\<forall>v\<in>set [?v]. 0 < vec_size v \<and> vec_size v \<le> length [0, 0, 0, 0 :: byte]" "length [0, 0, 0, 0 :: byte] < 2 ^ 32"
      "some_piece length"
    by (simp_all add: v some_piece_def)
  from sesame_cobs_roundtrip [OF this, of "vec_new [0, 0]" "\<lambda>_. False"] obtain s out where
      "sc_send_messages (2 * length [0, 0, 0, 0 :: byte] + 4) (sc_new (vec_new [0, 0])) [?v] = Some (Inr (s, out))"
      "\<exists>r pending. sr_events (\<lambda>_. False) length [Arrive (line_bytes out)] (sr_new [0, 0, 0, 0], []) = Inr (r, pending) \<and>
       (\<not> sr_readerTaken r \<longrightarrow> pending = [] \<and> sr_delivered r = zip (map vec_range [?v]) (reported out))"
    by (metis append_Nil2 arrived.simps(1,2))
  then show ?thesis by (auto simp: v simp del: sc_send_messages.simps sr_events.simps)
qed

end
