(* ===== verification/Irq_Queue.thy ===== *)
theory Irq_Queue
  imports Ring Streams
begin

text \<open>
  \<open>QueueForOneReaderOneIrqWriter\<close> (infra/event/QueueForOneReaderOneIrqWriter.hpp): a ring in which an
  interrupt adds elements and the main loop takes them. The pointers into the buffer are indices. A
  ring is full with one slot unused. The first element added since the main loop last looked
  schedules an event that calls \<open>onDataAvailable\<close>. An interrupt runs between any two stores of the
  reader; \<open>Consume\<close> has two of them.
\<close>

record 'a irq_queue =
  iq_buffer :: "'a list"
  iq_begin :: nat
  iq_end :: nat
  iq_scheduled :: bool

section \<open>Operations\<close>

definition iq_new :: "'a list \<Rightarrow> 'a irq_queue" where
  "iq_new buffer = \<lparr>iq_buffer = buffer, iq_begin = 0, iq_end = 0, iq_scheduled = False\<rparr>"

definition iq_empty :: "'a irq_queue \<Rightarrow> bool" where
  "iq_empty q \<longleftrightarrow> iq_begin q = iq_end q"

definition iq_full_at :: "'a irq_queue \<Rightarrow> nat \<Rightarrow> nat \<Rightarrow> bool" where
  "iq_full_at q bgn fin \<longleftrightarrow> (Suc fin = length (iq_buffer q) \<or> bgn = Suc fin) \<and> (Suc fin \<noteq> length (iq_buffer q) \<or> bgn = 0)"

definition iq_full :: "'a irq_queue \<Rightarrow> bool" where
  "iq_full q \<longleftrightarrow> iq_full_at q (iq_begin q) (iq_end q)"

definition iq_empty_size :: "'a irq_queue \<Rightarrow> nat" where
  "iq_empty_size q = length (iq_buffer q) - 1"

definition iq_size :: "'a irq_queue \<Rightarrow> nat" where
  "iq_size q =
     (if iq_full_at q (iq_begin q) (iq_end q) then iq_empty_size q
      else if iq_end q \<ge> iq_begin q then iq_end q - iq_begin q
      else (length (iq_buffer q) - iq_begin q) + iq_end q)"

text \<open>Whether an event is scheduled is the second component.\<close>

definition iq_notify :: "'a irq_queue \<Rightarrow> 'a irq_queue \<times> bool" where
  "iq_notify q = (if \<not> iq_empty q then (q\<lparr>iq_scheduled := True\<rparr>, \<not> iq_scheduled q) else (q, False))"

definition iq_data_available :: "'a irq_queue \<Rightarrow> 'a irq_queue" where
  "iq_data_available q = q\<lparr>iq_scheduled := False\<rparr>"

definition iq_add_unchecked :: "'a irq_queue \<Rightarrow> 'a \<Rightarrow> ('a irq_queue \<times> bool) result" where
  "iq_add_unchecked q element = in_bounds (iq_end q < length (iq_buffer q))
     (let q1 = q\<lparr>iq_buffer := (iq_buffer q)[iq_end q := element]\<rparr>
      in Inr (iq_notify (if Suc (iq_end q1) = length (iq_buffer q1) then q1\<lparr>iq_end := 0\<rparr> else q1\<lparr>iq_end := iq_end q1 + 1\<rparr>)))"

definition iq_add :: "'a irq_queue \<Rightarrow> 'a \<Rightarrow> ('a irq_queue \<times> bool) result" where
  "iq_add q element = really_assert (\<not> iq_full q) (iq_add_unchecked q element)"

text \<open>The first piece, up to the end of the buffer.\<close>

definition iq_add_piece :: "'a irq_queue \<Rightarrow> 'a list \<Rightarrow> 'a irq_queue" where
  "iq_add_piece q piece =
     (let q1 = q\<lparr>iq_buffer := store_first (iq_buffer q) (iq_end q) piece\<rparr>
      in if iq_end q1 = length (iq_buffer q1) - length piece then q1\<lparr>iq_end := 0\<rparr> else q1\<lparr>iq_end := iq_end q1 + length piece\<rparr>)"

definition iq_add_range_unchecked :: "'a irq_queue \<Rightarrow> 'a list \<Rightarrow> ('a irq_queue \<times> bool) result" where
  "iq_add_range_unchecked q data =
     (let copySize = min (length data) (length (iq_buffer q) - iq_end q); bgn = iq_begin q
      in if \<not> (bgn \<le> iq_end q \<or> bgn > iq_end q + copySize) then Inr (q, False)
         else let q2 = iq_add_piece q (take copySize data);
                  data2 = drop copySize data
              in really_assert (bgn \<le> iq_end q2 \<or> bgn > iq_end q2 + length data2)
                   (in_bounds (iq_end q2 + length data2 \<le> length (iq_buffer q2))
                     (Inr (iq_notify (q2\<lparr>iq_buffer := store_first (iq_buffer q2) (iq_end q2) data2, iq_end := iq_end q2 + length data2\<rparr>)))))"

definition iq_add_range :: "'a irq_queue \<Rightarrow> 'a list \<Rightarrow> ('a irq_queue \<times> bool) result" where
  "iq_add_range q data = really_assert (\<not> iq_full q) (iq_add_range_unchecked q data)"

definition iq_get :: "'a irq_queue \<Rightarrow> ('a \<times> 'a irq_queue) result" where
  "iq_get q = really_assert (\<not> iq_empty q) (in_bounds (iq_begin q < length (iq_buffer q))
     (Inr (iq_buffer q ! iq_begin q,
       if Suc (iq_begin q) = length (iq_buffer q) then q\<lparr>iq_begin := 0\<rparr> else q\<lparr>iq_begin := iq_begin q + 1\<rparr>)))"

definition iq_at :: "'a irq_queue \<Rightarrow> nat \<Rightarrow> 'a result" where
  "iq_at q position = really_assert (iq_size q > 0) (really_assert (position < iq_size q)
     (let slot = (if iq_begin q + position \<ge> length (iq_buffer q) then position - (length (iq_buffer q) - iq_begin q)
        else iq_begin q + position)
      in in_bounds (slot < length (iq_buffer q)) (Inr (iq_buffer q ! slot))))"

definition iq_contiguous_range :: "'a irq_queue \<Rightarrow> nat \<Rightarrow> 'a list" where
  "iq_contiguous_range q offset =
     (let bgn = (if iq_begin q + offset \<ge> length (iq_buffer q) then offset - (length (iq_buffer q) - iq_begin q)
        else iq_begin q + offset)
      in if iq_end q < bgn then drop bgn (iq_buffer q) else take (iq_end q - bgn) (drop bgn (iq_buffer q)))"

text \<open>The two stores of \<open>Consume\<close>: back to the beginning of the buffer, with what is left to be consumed, and
  forward.\<close>

definition iq_consume_wrap :: "'a irq_queue \<Rightarrow> nat \<Rightarrow> 'a irq_queue \<times> nat" where
  "iq_consume_wrap q amount =
     (if iq_begin q + amount \<ge> length (iq_buffer q)
      then (q\<lparr>iq_begin := 0\<rparr>, amount - (length (iq_buffer q) - iq_begin q)) else (q, amount))"

definition iq_consume_advance :: "'a irq_queue \<Rightarrow> nat \<Rightarrow> 'a irq_queue" where
  "iq_consume_advance q amount = q\<lparr>iq_begin := iq_begin q + amount\<rparr>"

definition iq_consume :: "'a irq_queue \<Rightarrow> nat \<Rightarrow> 'a irq_queue" where
  "iq_consume q amount = (let (q1, rest) = iq_consume_wrap q amount in iq_consume_advance q1 rest)"

section \<open>The stream reader\<close>

text \<open>\<open>Available\<close> subtracts sizes of 32 bits; the marker is the offset since the last \<open>Commit\<close>.\<close>

record irq_reader =
  ir_queue :: "byte irq_queue"
  ir_available :: nat
  ir_offset :: nat

definition ir_new :: "byte irq_queue \<Rightarrow> irq_reader" where
  "ir_new q = \<lparr>ir_queue = q, ir_available = iq_size q, ir_offset = 0\<rparr>"

definition ir_commit :: "irq_reader \<Rightarrow> irq_reader" where
  "ir_commit r = r\<lparr>ir_queue := iq_consume (ir_queue r) (ir_offset r), ir_offset := 0\<rparr>"

definition ir_get_available :: "irq_reader \<Rightarrow> nat" where
  "ir_get_available r = (if ir_offset r \<le> ir_available r then ir_available r - ir_offset r else 2 ^ 32 + ir_available r - ir_offset r)"

function ir_extract_loop :: "irq_reader \<Rightarrow> error_policy \<Rightarrow> nat \<Rightarrow> byte list \<Rightarrow> (irq_reader \<times> error_policy \<times> byte list) result" where
  "ir_extract_loop r p n acc =
     (if n = 0 then Inr (r, p, acc)
      else let from_bytes = take (min n (ir_get_available r)) (iq_contiguous_range (ir_queue r) (ir_offset r))
           in rbind (report_result p (from_bytes \<noteq> [])) (\<lambda>p1.
                if from_bytes = [] then Inr (r, p1, acc)
                else ir_extract_loop (r\<lparr>ir_offset := ir_offset r + length from_bytes\<rparr>) p1 (n - length from_bytes) (acc @ from_bytes)))"
  by pat_completeness auto
termination
  by (relation "measure (\<lambda>(r, p, n, acc). n)") (auto simp: Let_def)

declare ir_extract_loop.simps [simp del]

definition ir_extract :: "irq_reader \<Rightarrow> error_policy \<Rightarrow> nat \<Rightarrow> (irq_reader \<times> error_policy \<times> byte list) result" where
  "ir_extract r p n = ir_extract_loop r p n []"

definition ir_peek :: "irq_reader \<Rightarrow> error_policy \<Rightarrow> (error_policy \<times> byte) result" where
  "ir_peek r p = (let from_bytes = take (ir_get_available r) (iq_contiguous_range (ir_queue r) (ir_offset r))
     in rbind (report_result p (from_bytes \<noteq> [])) (\<lambda>p1. Inr (p1, if from_bytes = [] then 0 else hd from_bytes)))"

definition ir_extract_contiguous :: "irq_reader \<Rightarrow> nat \<Rightarrow> irq_reader \<times> byte list" where
  "ir_extract_contiguous r n = (let result = take (min n (ir_get_available r)) (iq_contiguous_range (ir_queue r) (ir_offset r))
     in (r\<lparr>ir_offset := ir_offset r + length result\<rparr>, result))"

definition ir_peek_contiguous :: "irq_reader \<Rightarrow> nat \<Rightarrow> byte list" where
  "ir_peek_contiguous r start = take (ir_get_available r) (iq_contiguous_range (ir_queue r) (ir_offset r + start))"

definition ir_empty :: "irq_reader \<Rightarrow> bool" where
  "ir_empty r \<longleftrightarrow> ir_get_available r = 0"

definition ir_construct_save_marker :: "irq_reader \<Rightarrow> nat" where
  "ir_construct_save_marker r = ir_offset r"

definition ir_rewind :: "irq_reader \<Rightarrow> nat \<Rightarrow> irq_reader" where
  "ir_rewind r marker = r\<lparr>ir_offset := marker\<rparr>"

section \<open>What the queue holds\<close>

definition iq_elems :: "'a irq_queue \<Rightarrow> 'a list" where
  "iq_elems q = ring_elems (iq_buffer q) (iq_begin q) (iq_size q)"

definition iq_inv :: "'a irq_queue \<Rightarrow> bool" where
  "iq_inv q \<longleftrightarrow> iq_begin q < length (iq_buffer q) \<and> iq_end q < length (iq_buffer q)"

lemma length_iq_elems [simp]: "length (iq_elems q) = iq_size q"
  by (simp add: iq_elems_def)

lemma iq_size_eq: "iq_inv q \<Longrightarrow> iq_size q =
    (if iq_begin q \<le> iq_end q then iq_end q - iq_begin q else length (iq_buffer q) - iq_begin q + iq_end q)"
  by (auto simp: iq_inv_def iq_size_def iq_full_at_def iq_empty_size_def)

lemma iq_size_less: "iq_inv q \<Longrightarrow> iq_size q < length (iq_buffer q)"
  by (auto simp: iq_size_eq) (auto simp: iq_inv_def)

lemma iq_end_slot: "iq_inv q \<Longrightarrow> iq_end q = (iq_begin q + iq_size q) mod length (iq_buffer q)"
  by (auto simp: iq_size_eq) (auto simp: iq_inv_def)

lemma iq_empty_size_0: "iq_inv q \<Longrightarrow> iq_empty q \<longleftrightarrow> iq_size q = 0"
  by (auto simp: iq_size_eq iq_empty_def) (auto simp: iq_inv_def)

lemma iq_full_size: "iq_inv q \<Longrightarrow> iq_full q \<longleftrightarrow> iq_size q = iq_empty_size q"
  by (auto simp: iq_size_eq iq_full_def iq_full_at_def iq_empty_size_def iq_inv_def)

text \<open>Writing a piece that does not go over the end of the buffer.\<close>

definition iq_write :: "'a irq_queue \<Rightarrow> 'a list \<Rightarrow> 'a irq_queue" where
  "iq_write q xs = q\<lparr>iq_buffer := store_first (iq_buffer q) (iq_end q) xs,
     iq_end := (if iq_end q + length xs = length (iq_buffer q) then 0 else iq_end q + length xs)\<rparr>"

lemma iq_write_props:
  assumes inv: "iq_inv q" and fit: "iq_end q + length xs \<le> length (iq_buffer q)" and room: "iq_size q + length xs < length (iq_buffer q)"
  shows "iq_inv (iq_write q xs)" and "iq_size (iq_write q xs) = iq_size q + length xs"
    and "iq_elems (iq_write q xs) = iq_elems q @ xs" and "length (iq_buffer (iq_write q xs)) = length (iq_buffer q)"
proof -
  show len: "length (iq_buffer (iq_write q xs)) = length (iq_buffer q)" by (simp add: iq_write_def)
  show i: "iq_inv (iq_write q xs)" using inv fit by (auto simp: iq_inv_def iq_write_def)
  show size: "iq_size (iq_write q xs) = iq_size q + length xs"
    unfolding iq_size_eq [OF i] using inv fit room iq_size_eq [OF inv]
    by (auto simp: iq_write_def iq_inv_def split: if_splits)
  have "iq_begin (iq_write q xs) = iq_begin q" "iq_buffer (iq_write q xs) = store_first (iq_buffer q) (iq_end q) xs"
    by (simp_all add: iq_write_def)
  then show "iq_elems (iq_write q xs) = iq_elems q @ xs"
    using ring_append [OF iq_end_slot [OF inv] fit, unfolded] room size by (simp add: iq_elems_def)
qed

lemma iq_scheduled_frame [simp]:
  "iq_elems (q\<lparr>iq_scheduled := b\<rparr>) = iq_elems q" "iq_inv (q\<lparr>iq_scheduled := b\<rparr>) = iq_inv q" "iq_size (q\<lparr>iq_scheduled := b\<rparr>) = iq_size q"
  "iq_empty (q\<lparr>iq_scheduled := b\<rparr>) = iq_empty q"
  by (simp_all add: iq_elems_def iq_inv_def iq_size_def iq_full_at_def iq_empty_size_def iq_empty_def)

text \<open>Adding appends, and schedules an event when none is.\<close>

definition iq_adds :: "'a irq_queue \<Rightarrow> ('a irq_queue \<times> bool) result \<Rightarrow> 'a list \<Rightarrow> bool" where
  "iq_adds q r xs \<longleftrightarrow> (\<exists>q'. r = Inr (q', \<not> iq_scheduled q) \<and> iq_scheduled q' \<and> iq_inv q' \<and> iq_elems q' = iq_elems q @ xs \<and>
     iq_begin q' = iq_begin q \<and> length (iq_buffer q') = length (iq_buffer q))"

lemma iq_addsI:
  assumes "iq_inv q1" and "iq_elems q1 = iq_elems q @ xs" and "xs \<noteq> []" and "iq_scheduled q1 = iq_scheduled q"
    and "iq_begin q1 = iq_begin q" and "length (iq_buffer q1) = length (iq_buffer q)"
  shows "iq_adds q (Inr (iq_notify q1)) xs"
proof -
  have "iq_size q1 \<noteq> 0" using arg_cong [OF assms(2), of length] assms(3) by simp
  then have n: "iq_notify q1 = (q1\<lparr>iq_scheduled := True\<rparr>, \<not> iq_scheduled q)"
    using iq_empty_size_0 [OF assms(1)] assms(4) by (simp add: iq_notify_def)
  show ?thesis unfolding iq_adds_def
    using assms by (intro exI [of _ "fst (iq_notify q1)"]) (simp add: n)
qed

lemma iq_add_adds:
  assumes inv: "iq_inv q" and room: "iq_size q < iq_empty_size q"
  shows "iq_adds q (iq_add q x) [x]"
proof -
  have e: "iq_end q < length (iq_buffer q)" using inv by (simp add: iq_inv_def)
  have "iq_size q + length [x] < length (iq_buffer q)" using room by (simp add: iq_empty_size_def)
  note w = iq_write_props [OF inv _ this]
  have "iq_add q x = Inr (iq_notify (iq_write q [x]))"
    using iq_full_size [OF inv] room e by (simp add: iq_add_def iq_add_unchecked_def iq_write_def Let_def)
  then show ?thesis using w e by (auto intro!: iq_addsI simp: iq_write_def [of q])
qed

lemma iq_add_full: "iq_inv q \<Longrightarrow> iq_size q = iq_empty_size q \<Longrightarrow> iq_add q x = Inl Assert_failed"
  by (simp add: iq_add_def iq_full_size)

lemma iq_add_range_adds:
  assumes inv: "iq_inv q" and room: "iq_size q + length xs \<le> iq_empty_size q" and ne: "xs \<noteq> []"
  shows "iq_adds q (iq_add_range q xs) xs"
proof -
  let ?c = "length (iq_buffer q)" and ?b = "iq_begin q" and ?e = "iq_end q"
  define cp where "cp = min (length xs) (?c - ?e)"
  have lt: "?b < ?c" "?e < ?c" using inv by (simp_all add: iq_inv_def)
  have n: "iq_size q + length xs < ?c" using room lt by (simp add: iq_empty_size_def)
  have free: "?b \<le> ?e \<or> ?e + length xs < ?b" using n lt iq_size_eq [OF inv] by (auto split: if_splits)
  have cp: "?e + length (take cp xs) \<le> ?c" "iq_size q + length (take cp xs) < ?c" "length (take cp xs) = cp"
    using n lt by (simp_all add: cp_def)
  define q2 where "q2 = iq_write q (take cp xs)"
  note w = iq_write_props [OF inv cp(1,2), folded q2_def]
  have rest: "drop cp xs \<noteq> [] \<Longrightarrow> iq_end q2 = 0 \<and> length (drop cp xs) < ?b"
    using lt n free iq_size_eq [OF inv] by (auto simp: q2_def iq_write_def cp_def min_def split: if_splits)
  have "iq_size q2 + length (drop cp xs) = iq_size q + length xs" unfolding w(2) by (simp add: cp_def)
  then have w3: "iq_end q2 + length (drop cp xs) \<le> length (iq_buffer q2)" "iq_size q2 + length (drop cp xs) < length (iq_buffer q2)"
    using rest lt w n by (cases "drop cp xs = []"; auto simp: iq_inv_def)+
  note w2 = iq_write_props [OF w(1) w3]
  have "iq_end q2 + length (drop cp xs) \<noteq> length (iq_buffer q2)"
    using rest lt w by (cases "drop cp xs = []") (auto simp: iq_inv_def)
  then have last: "iq_write q2 (drop cp xs) = q2\<lparr>iq_buffer := store_first (iq_buffer q2) (iq_end q2) (drop cp xs), iq_end := iq_end q2 + length (drop cp xs)\<rparr>"
    by (simp add: iq_write_def)
  have first: "iq_add_piece q (take cp xs) = q2"
    using lt cp by (auto simp: iq_add_piece_def q2_def iq_write_def Let_def)
  have "?b \<le> iq_end q2 \<or> iq_end q2 + length (drop cp xs) < ?b" using rest by (cases "drop cp xs = []") auto
  moreover have "?b \<le> ?e \<or> ?e + cp < ?b" using free by (auto simp: cp_def)
  moreover have "\<not> iq_full q" using iq_full_size [OF inv] room ne by (cases xs) auto
  ultimately have "iq_add_range q xs = Inr (iq_notify (iq_write q2 (drop cp xs)))"
    using w3(1) unfolding last
    by (auto simp: iq_add_range_def iq_add_range_unchecked_def Let_def cp_def [symmetric] first)
  moreover have "iq_elems (iq_write q2 (drop cp xs)) = iq_elems q @ xs" using w2(3) w(3) by simp
  moreover have "iq_scheduled (iq_write q2 (drop cp xs)) = iq_scheduled q" "iq_begin (iq_write q2 (drop cp xs)) = ?b"
    by (simp_all add: iq_write_def q2_def)
  ultimately show ?thesis using w2 w ne by (auto intro!: iq_addsI)
qed

section \<open>Taking\<close>

lemma iq_drop:
  assumes inv: "iq_inv q" and n: "n \<le> iq_size q" and b: "b = (iq_begin q + n) mod length (iq_buffer q)"
  shows "iq_inv (q\<lparr>iq_begin := b\<rparr>)" and "iq_elems (q\<lparr>iq_begin := b\<rparr>) = drop n (iq_elems q)" and "iq_size (q\<lparr>iq_begin := b\<rparr>) = iq_size q - n"
proof -
  let ?q = "q\<lparr>iq_begin := b\<rparr>"
  have lt: "iq_begin q < length (iq_buffer q)" "iq_end q < length (iq_buffer q)" using inv by (simp_all add: iq_inv_def)
  have "b < length (iq_buffer q)" unfolding b using lt by (intro mod_less_divisor) linarith
  then show i: "iq_inv ?q" using inv by (simp add: iq_inv_def)
  show size: "iq_size ?q = iq_size q - n"
  proof (cases "iq_begin q + n < length (iq_buffer q)")
    case True
    then show ?thesis unfolding iq_size_eq [OF i] using n b iq_size_eq [OF inv] lt by (auto split: if_splits)
  next
    case False
    then have "b = iq_begin q + n - length (iq_buffer q)"
      using n b iq_size_less [OF inv] lt by (simp add: mod_if)
    then show ?thesis unfolding iq_size_eq [OF i] using n False iq_size_eq [OF inv] lt by (auto split: if_splits)
  qed
  show "iq_elems ?q = drop n (iq_elems q)"
    unfolding iq_elems_def size using ring_drop [OF n, of "iq_buffer q" "iq_begin q"] by (simp add: b)
qed

lemma iq_get_takes:
  assumes inv: "iq_inv q" and ne: "iq_elems q = x # xs"
  shows "\<exists>q'. iq_get q = Inr (x, q') \<and> iq_inv q' \<and> iq_elems q' = xs \<and> iq_scheduled q' = iq_scheduled q"
proof -
  let ?b = "(iq_begin q + 1) mod length (iq_buffer q)"
  have lt: "iq_begin q < length (iq_buffer q)" using inv by (simp add: iq_inv_def)
  have n: "1 \<le> iq_size q" using arg_cong [OF ne, of length] by simp
  note d = iq_drop [OF inv n refl]
  have "iq_elems q ! 0 = iq_buffer q ! iq_begin q" using n lt by (simp add: iq_elems_def)
  then have x: "iq_buffer q ! iq_begin q = x" using ne by simp
  have "iq_get q = Inr (x, q\<lparr>iq_begin := ?b\<rparr>)"
    using iq_empty_size_0 [OF inv] n lt x by (auto simp: iq_get_def mod_Suc)
  then show ?thesis using d ne by auto
qed

lemma iq_get_empty: "iq_empty q \<Longrightarrow> iq_get q = Inl Assert_failed"
  by (simp add: iq_get_def)

text \<open>The two stores of \<open>Consume\<close>: after the first one the queue holds what it held behind the end of
  the buffer.\<close>

lemma iq_consume_wrap_props:
  assumes inv: "iq_inv q" and n: "n \<le> iq_size q" and w: "iq_consume_wrap q n = (q1, r)"
  shows "iq_inv q1" and "r \<le> n" and "iq_elems q1 = drop (n - r) (iq_elems q)" and "r \<le> iq_size q1"
    and "iq_begin q1 + r < length (iq_buffer q1)" and "iq_scheduled q1 = iq_scheduled q"
proof -
  have lt: "iq_begin q < length (iq_buffer q)" using inv by (simp add: iq_inv_def)
  have "n < length (iq_buffer q)" using n iq_size_less [OF inv] by simp
  then have "iq_inv q1 \<and> r \<le> n \<and> iq_elems q1 = drop (n - r) (iq_elems q) \<and> r \<le> iq_size q1 \<and>
      iq_begin q1 + r < length (iq_buffer q1) \<and> iq_scheduled q1 = iq_scheduled q"
  proof (cases "length (iq_buffer q) \<le> iq_begin q + n")
    case True
    let ?k = "length (iq_buffer q) - iq_begin q"
    have k: "?k \<le> iq_size q" "0 = (iq_begin q + ?k) mod length (iq_buffer q)" using True n lt by simp_all
    have "q1 = q\<lparr>iq_begin := 0\<rparr>" "r = n - ?k" using w True by (simp_all add: iq_consume_wrap_def)
    then show ?thesis using iq_drop [OF inv k] True n lt \<open>n < length (iq_buffer q)\<close> by auto
  next
    case False
    then show ?thesis using w inv n by (simp add: iq_consume_wrap_def)
  qed
  then show "iq_inv q1" and "r \<le> n" and "iq_elems q1 = drop (n - r) (iq_elems q)" and "r \<le> iq_size q1"
    and "iq_begin q1 + r < length (iq_buffer q1)" and "iq_scheduled q1 = iq_scheduled q" by blast+
qed

lemma iq_consume_advance_props:
  assumes inv: "iq_inv q" and r: "r \<le> iq_size q" "iq_begin q + r < length (iq_buffer q)"
  shows "iq_inv (iq_consume_advance q r)" and "iq_elems (iq_consume_advance q r) = drop r (iq_elems q)"
proof -
  have "iq_begin q + r = (iq_begin q + r) mod length (iq_buffer q)" using r(2) by simp
  from iq_drop [OF inv r(1) this] show "iq_inv (iq_consume_advance q r)" "iq_elems (iq_consume_advance q r) = drop r (iq_elems q)"
    by (simp_all add: iq_consume_advance_def)
qed

lemma iq_consume_takes:
  assumes "iq_inv q" and "n \<le> iq_size q"
  shows "iq_inv (iq_consume q n) \<and> iq_elems (iq_consume q n) = drop n (iq_elems q)"
proof -
  obtain q1 r where w: "iq_consume_wrap q n = (q1, r)" by (cases "iq_consume_wrap q n")
  note p = iq_consume_wrap_props [OF assms w]
  show ?thesis using iq_consume_advance_props [OF p(1,4,5)] p(2,3) w by (simp add: iq_consume_def)
qed

lemma iq_at_nth:
  assumes inv: "iq_inv q" and n: "n < iq_size q"
  shows "iq_at q n = Inr (iq_elems q ! n)"
proof -
  have lt: "iq_begin q < length (iq_buffer q)" "iq_size q < length (iq_buffer q)"
    using inv iq_size_less [OF inv] by (simp_all add: iq_inv_def)
  let ?slot = "if length (iq_buffer q) \<le> iq_begin q + n then n - (length (iq_buffer q) - iq_begin q) else iq_begin q + n"
  have "(iq_begin q + n) mod length (iq_buffer q) = ?slot" using lt n by (auto simp: mod_if)
  moreover have "?slot < length (iq_buffer q)" using lt n by auto
  ultimately show ?thesis using n by (auto simp: iq_at_def iq_elems_def Let_def split del: if_split)
qed

text \<open>What is shown at an offset is a part of the elements from there on, and not nothing of something.\<close>

lemma iq_contiguous_prefix:
  assumes inv: "iq_inv q" and n: "n \<le> iq_size q"
  shows "\<exists>k. iq_contiguous_range q n = take k (drop n (iq_elems q)) \<and> (n < iq_size q \<longrightarrow> 0 < k)"
proof -
  let ?cap = "length (iq_buffer q)" and ?b = "iq_begin q" and ?e = "iq_end q"
  have lt: "?b < ?cap" "?e < ?cap" using inv by (simp_all add: iq_inv_def)
  note size = iq_size_eq [OF inv]
  consider (plain) "?b \<le> ?e" | (tail) "?e < ?b" "?b + n < ?cap" | (wrapped) "?e < ?b" "?cap \<le> ?b + n" by linarith
  then show ?thesis
  proof cases
    case plain
    then have "iq_contiguous_range q n = take (?e - (?b + n)) (drop (?b + n) (iq_buffer q))"
      using n lt size by (auto simp: iq_contiguous_range_def Let_def)
    also have "\<dots> = take (?e - (?b + n)) (drop n (iq_elems q))"
      unfolding iq_elems_def using plain n lt size by (intro ring_contiguous) auto
    finally show ?thesis using plain n size by (intro exI [of _ "?e - (?b + n)"]) auto
  next
    case tail
    then have "iq_contiguous_range q n = take (?cap - (?b + n)) (drop (?b + n) (iq_buffer q))"
      using lt by (auto simp: iq_contiguous_range_def Let_def)
    also have "\<dots> = take (?cap - (?b + n)) (drop n (iq_elems q))"
      unfolding iq_elems_def using tail n lt size by (intro ring_contiguous) auto
    finally show ?thesis using tail by (intro exI [of _ "?cap - (?b + n)"]) auto
  next
    case wrapped
    let ?m = "?e - (?b + n - ?cap)"
    have "n - (?cap - ?b) = ?b + n - ?cap" using lt by simp
    then have "iq_contiguous_range q n = take ?m (drop (?b + n - ?cap) (iq_buffer q))"
      using wrapped n lt size by (auto simp: iq_contiguous_range_def Let_def)
    also have "\<dots> = take ?m (drop n (iq_elems q))"
      unfolding iq_elems_def using wrapped n lt size by (intro ring_contiguous_wrapped) auto
    finally show ?thesis using wrapped n lt size by (intro exI [of _ ?m]) auto
  qed
qed

section \<open>The reader and the interrupt\<close>

text \<open>The main loop calls \<open>DataAvailable\<close> for a scheduled event; the handler takes elements and returns when it likes.
  The interrupt comes between any two steps of it; it adds a range only when there is room for all of it. Ghost state: what
  was added, what was taken, and whether the handler left elements when it returned the last time.\<close>

datatype iq_reader = Main_loop | Handler | Consuming nat

record 'a iq_system =
  is_queue :: "'a irq_queue"
  is_events :: nat
  is_reader :: iq_reader
  is_sent :: "'a list"
  is_received :: "'a list"
  is_left :: bool

inductive iq_step :: "'a iq_system \<Rightarrow> 'a iq_system \<Rightarrow> bool" where
  add: "iq_add (is_queue s) x = Inr (q, event) \<Longrightarrow>
    iq_step s (s\<lparr>is_queue := q, is_events := is_events s + of_bool event, is_sent := is_sent s @ [x]\<rparr>)"
| add_range: "xs \<noteq> [] \<Longrightarrow> iq_size (is_queue s) + length xs \<le> iq_empty_size (is_queue s) \<Longrightarrow>
    iq_add_range (is_queue s) xs = Inr (q, event) \<Longrightarrow>
    iq_step s (s\<lparr>is_queue := q, is_events := is_events s + of_bool event, is_sent := is_sent s @ xs\<rparr>)"
| dispatch: "is_reader s = Main_loop \<Longrightarrow> is_events s = Suc n \<Longrightarrow>
    iq_step s (s\<lparr>is_queue := iq_data_available (is_queue s), is_events := n, is_reader := Handler\<rparr>)"
| get: "is_reader s = Handler \<Longrightarrow> iq_get (is_queue s) = Inr (x, q) \<Longrightarrow>
    iq_step s (s\<lparr>is_queue := q, is_received := is_received s @ [x]\<rparr>)"
| consume_wrap: "is_reader s = Handler \<Longrightarrow> n \<le> iq_size (is_queue s) \<Longrightarrow> iq_consume_wrap (is_queue s) n = (q, r) \<Longrightarrow>
    iq_step s (s\<lparr>is_queue := q, is_reader := Consuming r, is_received := is_received s @ take (n - r) (iq_elems (is_queue s))\<rparr>)"
| consume_advance: "is_reader s = Consuming r \<Longrightarrow>
    iq_step s (s\<lparr>is_queue := iq_consume_advance (is_queue s) r, is_reader := Handler,
      is_received := is_received s @ take r (iq_elems (is_queue s))\<rparr>)"
| return: "is_reader s = Handler \<Longrightarrow>
    iq_step s (s\<lparr>is_reader := Main_loop, is_left := \<not> iq_empty (is_queue s)\<rparr>)"

inductive iq_reachable :: "'a list \<Rightarrow> 'a iq_system \<Rightarrow> bool" for buffer where
  start: "iq_reachable buffer \<lparr>is_queue = iq_new buffer, is_events = 0, is_reader = Main_loop, is_sent = [], is_received = [],
    is_left = False\<rparr>"
| step: "iq_reachable buffer s \<Longrightarrow> iq_step s t \<Longrightarrow> iq_reachable buffer t"

fun iq_reader_ok :: "'a irq_queue \<Rightarrow> iq_reader \<Rightarrow> bool" where
  "iq_reader_ok q (Consuming r) \<longleftrightarrow> r \<le> iq_size q \<and> iq_begin q + r < length (iq_buffer q)"
| "iq_reader_ok q _ \<longleftrightarrow> True"

definition iq_system_inv :: "'a iq_system \<Rightarrow> bool" where
  "iq_system_inv s \<longleftrightarrow> iq_inv (is_queue s) \<and> iq_reader_ok (is_queue s) (is_reader s) \<and>
     is_sent s = is_received s @ iq_elems (is_queue s) \<and> is_events s = of_bool (iq_scheduled (is_queue s)) \<and>
     (is_reader s = Main_loop \<and> \<not> is_left s \<longrightarrow> iq_empty (is_queue s) \<or> iq_scheduled (is_queue s))"

lemma iq_adds_system:
  assumes "iq_system_inv s" and "iq_adds (is_queue s) (Inr (q, event)) xs"
  shows "iq_system_inv (s\<lparr>is_queue := q, is_events := is_events s + of_bool event, is_sent := is_sent s @ xs\<rparr>)"
proof -
  have q: "event = (\<not> iq_scheduled (is_queue s))" "iq_scheduled q" "iq_inv q" "iq_elems q = iq_elems (is_queue s) @ xs"
      "iq_begin q = iq_begin (is_queue s)" "length (iq_buffer q) = length (iq_buffer (is_queue s))"
    using assms(2) by (auto simp: iq_adds_def)
  have "iq_size q = iq_size (is_queue s) + length xs" using arg_cong [OF q(4), of length] by simp
  then have "iq_reader_ok q (is_reader s)" using assms(1) q(5,6) by (cases "is_reader s") (auto simp: iq_system_inv_def)
  then show ?thesis using assms(1) q by (auto simp: iq_system_inv_def)
qed

lemma iq_step_inv: "iq_step s t \<Longrightarrow> iq_system_inv s \<Longrightarrow> iq_system_inv t"
proof (induction rule: iq_step.induct)
  case (add s x q event)
  then have inv: "iq_inv (is_queue s)" by (simp add: iq_system_inv_def)
  have "iq_size (is_queue s) < iq_empty_size (is_queue s)"
    using add(1) iq_add_full [OF inv] iq_size_less [OF inv] by (cases "iq_size (is_queue s) = iq_empty_size (is_queue s)") (auto simp: iq_empty_size_def)
  then have "iq_adds (is_queue s) (Inr (q, event)) [x]" using iq_add_adds [OF inv, of x] add(1) by simp
  then show ?case using iq_adds_system add(2) by blast
next
  case (add_range xs s q event)
  then have "iq_adds (is_queue s) (Inr (q, event)) xs"
    using iq_add_range_adds [of "is_queue s" xs] by (simp add: iq_system_inv_def)
  then show ?case using iq_adds_system add_range(4) by blast
next
  case (dispatch s n)
  then show ?case by (auto simp: iq_system_inv_def iq_data_available_def of_bool_def split: if_splits)
next
  case (get s x q)
  then have inv: "iq_inv (is_queue s)" by (simp add: iq_system_inv_def)
  have "iq_elems (is_queue s) \<noteq> []"
    using get(2) iq_get_empty [of "is_queue s"] iq_empty_size_0 [OF inv] by (auto simp flip: length_0_conv)
  then obtain y xs where e: "iq_elems (is_queue s) = y # xs" by (cases "iq_elems (is_queue s)") auto
  then show ?case using iq_get_takes [OF inv e] get by (auto simp: iq_system_inv_def)
next
  case (consume_wrap s n q r)
  then have inv: "iq_inv (is_queue s)" by (simp add: iq_system_inv_def)
  note w = iq_consume_wrap_props [OF inv consume_wrap(2,3)]
  show ?case using consume_wrap w by (simp add: iq_system_inv_def)
next
  case (consume_advance s r)
  then have c: "iq_inv (is_queue s)" "r \<le> iq_size (is_queue s)" "iq_begin (is_queue s) + r < length (iq_buffer (is_queue s))"
    by (auto simp: iq_system_inv_def)
  have "iq_scheduled (iq_consume_advance (is_queue s) r) = iq_scheduled (is_queue s)" by (simp add: iq_consume_advance_def)
  then show ?case using iq_consume_advance_props [OF c] consume_advance by (auto simp: iq_system_inv_def)
next
  case (return s)
  then show ?case by (simp add: iq_system_inv_def)
qed

lemma iq_reachable_inv: "iq_reachable buffer s \<Longrightarrow> buffer \<noteq> [] \<Longrightarrow> iq_system_inv s"
proof (induction rule: iq_reachable.induct)
  case start
  then have "iq_inv (iq_new buffer)" "iq_size (iq_new buffer) = 0"
    by (auto simp: iq_inv_def iq_new_def iq_size_def iq_full_at_def iq_empty_size_def)
  then show ?case by (simp add: iq_system_inv_def iq_elems_def iq_empty_def) (simp add: iq_new_def)
qed (blast intro: iq_step_inv)

text \<open>C34: with an interrupt that adds elements at any moment, also between the two stores of \<open>Consume\<close>, what
  the reader has taken and then what the queue holds is what was added, in order, as long as the interrupt adds a
  range only when there is room for all of it (the code asserts that there is room for one element) and the handler consumes
  no more than the queue holds. There is never more than one event that will call the handler, and no element is
  left lying: as long as the queue is not empty, that event is scheduled or the handler is running, unless the handler has
  left elements in the queue when it returned the last time.\<close>

theorem irq_queue_fifo:
  assumes "iq_reachable buffer s" and "buffer \<noteq> []"
  shows "is_sent s = is_received s @ iq_elems (is_queue s) \<and> is_events s \<le> 1 \<and>
    (iq_elems (is_queue s) \<noteq> [] \<longrightarrow> 0 < is_events s \<or> is_reader s \<noteq> Main_loop \<or> is_left s)"
  using iq_reachable_inv [OF assms] iq_empty_size_0 [of "is_queue s"]
  by (auto simp: iq_system_inv_def simp flip: length_0_conv)

lemma iq_example:
  "iq_reachable [0, 0, 0 :: int] \<lparr>is_queue = \<lparr>iq_buffer = [7, 8, 0], iq_begin = 0, iq_end = 2, iq_scheduled = True\<rparr>,
     is_events = 1, is_reader = Main_loop, is_sent = [7, 8], is_received = [], is_left = False\<rparr>"
proof -
  let ?s = "\<lparr>is_queue = iq_new [0, 0, 0 :: int], is_events = 0, is_reader = Main_loop, is_sent = [], is_received = [],
    is_left = False\<rparr>"
  have "iq_add_range (is_queue ?s) [7, 8] = Inr (\<lparr>iq_buffer = [7, 8, 0], iq_begin = 0, iq_end = 2, iq_scheduled = True\<rparr>, True)"
    by (simp add: iq_add_range_def iq_add_range_unchecked_def iq_add_piece_def iq_full_def iq_full_at_def iq_new_def iq_notify_def iq_empty_def Let_def)
  from iq_reachable.step [OF iq_reachable.start iq_step.add_range [OF _ _ this]]
  show ?thesis by (simp add: iq_new_def iq_size_def iq_full_at_def iq_empty_size_def)
qed

theorem irq_queue_fifo_witness:
  "[7, 8 :: int] = [] @ iq_elems \<lparr>iq_buffer = [7, 8, 0], iq_begin = 0, iq_end = 2, iq_scheduled = True\<rparr>"
  using irq_queue_fifo [OF iq_example] by simp

text \<open>\<open>AddFromInterrupt\<close> of a range only asserts that there is room for one element: when it stands at
  the beginning of its buffer and the range ends at the end of the buffer, the queue is empty after
  the call, and all of its elements and all of the new ones are lost without an assertion.\<close>

lemma irq_queue_add_range_loses:
  assumes "iq_begin q = 0" and "0 < iq_end q" and "Suc (iq_end q) < length (iq_buffer q)" and "length xs = length (iq_buffer q) - iq_end q"
  shows "\<exists>q'. iq_add_range q xs = Inr (q', False) \<and> iq_elems q = take (iq_end q) (iq_buffer q) \<and> iq_elems q' = []"
proof -
  let ?q1 = "q\<lparr>iq_buffer := store_first (iq_buffer q) (iq_end q) xs, iq_end := 0\<rparr>"
  have ne: "iq_buffer q \<noteq> []" using assms(3) by auto
  then have inv: "iq_inv q" using assms by (simp add: iq_inv_def)
  have size: "iq_size q = iq_end q" using iq_size_eq [OF inv] assms(1) by simp
  have piece: "iq_add_piece q xs = ?q1" using assms by (simp add: iq_add_piece_def Let_def)
  have "\<not> iq_full q" using assms by (simp add: iq_full_def iq_full_at_def)
  then have "iq_add_range q xs = Inr (?q1, False)"
    using assms piece by (simp add: iq_add_range_def iq_add_range_unchecked_def Let_def iq_notify_def iq_empty_def)
  moreover have "iq_inv ?q1" using ne assms(1) by (simp add: iq_inv_def)
  then have "iq_elems ?q1 = []" using iq_size_eq [of ?q1] assms(1) by (simp flip: length_0_conv)
  moreover have "iq_elems q = take (iq_end q) (iq_buffer q)"
    unfolding iq_elems_def size by (rule nth_equalityI) (use assms(1,3) in simp_all)
  ultimately show ?thesis by blast
qed

lemma irq_queue_add_range_loses_witness:
  "\<exists>q'. iq_add_range \<lparr>iq_buffer = [1, 2, 0, 0, 0 :: int], iq_begin = 0, iq_end = 2, iq_scheduled = False\<rparr> [3, 4, 5] = Inr (q', False) \<and>
     iq_elems \<lparr>iq_buffer = [1, 2, 0, 0, 0 :: int], iq_begin = 0, iq_end = 2, iq_scheduled = False\<rparr> = [1, 2] \<and> iq_elems q' = []"
  using irq_queue_add_range_loses [of "\<lparr>iq_buffer = [1, 2, 0, 0, 0 :: int], iq_begin = 0, iq_end = 2, iq_scheduled = False\<rparr>" "[3, 4, 5]"]
  by simp

section \<open>Reading the queue as a stream\<close>

text \<open>A reader reads the elements that the queue held when the reader was made, also when more are added.\<close>

definition ir_reader :: "irq_reader rewinding_reader" where
  "ir_reader = \<lparr>sr_extract = ir_extract, sr_peek = ir_peek, sr_extract_contiguous = (\<lambda>r n. Inr (ir_extract_contiguous r n)),
     sr_peek_contiguous = (\<lambda>r start. Inr (ir_peek_contiguous r start)), sr_empty = ir_empty, sr_available = ir_get_available,
     sr_construct_save_marker = ir_construct_save_marker, sr_rewind = (\<lambda>r marker. Inr (ir_rewind r marker))\<rparr>"

definition ir_ok :: "irq_reader \<Rightarrow> bool" where
  "ir_ok r \<longleftrightarrow> iq_inv (ir_queue r) \<and> ir_available r \<le> iq_size (ir_queue r) \<and> ir_offset r \<le> ir_available r"

definition ir_bytes :: "irq_reader \<Rightarrow> byte list" where
  "ir_bytes r = take (ir_available r) (iq_elems (ir_queue r))"

lemma ir_bytes_simps [simp]:
  "ir_ok r \<Longrightarrow> length (ir_bytes r) = ir_available r" "ir_bytes (r\<lparr>ir_offset := i\<rparr>) = ir_bytes r"
  "ir_ok r \<Longrightarrow> ir_get_available r = ir_available r - ir_offset r"
  by (auto simp: ir_bytes_def ir_ok_def ir_get_available_def)

lemma ir_contiguous:
  assumes "ir_ok r" and "ir_offset r + start \<le> ir_available r" and "m \<le> ir_available r - (ir_offset r + start)"
  obtains k where "take m (iq_contiguous_range (ir_queue r) (ir_offset r + start)) = take k (drop (ir_offset r + start) (ir_bytes r))"
    and "k \<le> m" and "0 < m \<Longrightarrow> 0 < k"
proof -
  have "ir_offset r + start \<le> iq_size (ir_queue r)" using assms by (simp add: ir_ok_def)
  with iq_contiguous_prefix [of "ir_queue r" "ir_offset r + start"] assms(1) obtain k where
      k: "iq_contiguous_range (ir_queue r) (ir_offset r + start) = take k (drop (ir_offset r + start) (iq_elems (ir_queue r)))"
      "ir_offset r + start < iq_size (ir_queue r) \<longrightarrow> 0 < k"
    by (auto simp: ir_ok_def)
  have "take m (iq_contiguous_range (ir_queue r) (ir_offset r + start)) = take (min m k) (drop (ir_offset r + start) (ir_bytes r))"
    using assms(3) unfolding k(1) ir_bytes_def by (simp add: drop_take min_def)
  moreover have "0 < min m k" if "0 < m"
  proof -
    have "ir_offset r + start < iq_size (ir_queue r)" using that assms unfolding ir_ok_def by linarith
    then show ?thesis using k(2) that by simp
  qed
  ultimately show thesis using that [of "min m k"] by simp
qed

lemma ir_extract_loop_spec:
  assumes "ir_ok r"
  shows "\<exists>bs. (False \<in> set bs) = (ir_available r - ir_offset r < n) \<and>
    (\<forall>p. ir_extract_loop r p n acc = rbind (report_all p bs) (\<lambda>p'.
      Inr (r\<lparr>ir_offset := ir_offset r + min n (ir_available r - ir_offset r)\<rparr>, p', acc @ take n (drop (ir_offset r) (ir_bytes r)))))"
  using assms
proof (induction n arbitrary: r acc rule: less_induct)
  case (less n)
  let ?left = "ir_available r - ir_offset r"
  have len: "length (ir_bytes r) = ir_available r" using less.prems by simp
  define seg where "seg = take (min n ?left) (iq_contiguous_range (ir_queue r) (ir_offset r))"
  obtain k where k: "seg = take k (drop (ir_offset r) (ir_bytes r))" "k \<le> min n ?left" and pos: "0 < min n ?left \<Longrightarrow> 0 < k"
    using ir_contiguous [OF less.prems, of 0 "min n ?left"] less.prems by (auto simp: seg_def ir_ok_def)
  have lseg: "length seg = k" using k len by simp
  have loop: "ir_extract_loop r p n acc = (if n = 0 then Inr (r, p, acc) else
      rbind (report_result p (seg \<noteq> [])) (\<lambda>p1. if seg = [] then Inr (r, p1, acc)
        else ir_extract_loop (r\<lparr>ir_offset := ir_offset r + length seg\<rparr>) p1 (n - length seg) (acc @ seg)))" for p
    using less.prems unfolding seg_def by (subst ir_extract_loop.simps) (simp only: Let_def ir_bytes_simps(3))
  consider (none) "n = 0" | (dry) "n \<noteq> 0" "?left = 0" | (more) "n \<noteq> 0" "0 < ?left" by (metis neq0_conv)
  then show ?case
  proof cases
    case none
    then show ?thesis using loop by (intro exI [of _ "[]"]) simp
  next
    case dry
    then have "seg = []" using k by simp
    moreover have "drop (ir_offset r) (ir_bytes r) = []" using dry len by simp
    ultimately show ?thesis using dry loop by (intro exI [of _ "[False]"]) (simp add: report_all_one del: report_all.simps)
  next
    case more
    define r' where "r' = r\<lparr>ir_offset := ir_offset r + length seg\<rparr>"
    have ne: "seg \<noteq> []" using more pos lseg by auto
    have smaller: "n - length seg < n" using ne more by simp
    have kn: "k \<le> n" using k(2) by simp
    have "ir_offset r + k \<le> ir_available r" using k(2) more by linarith
    then have ok: "ir_ok r'" using less.prems lseg by (simp add: r'_def ir_ok_def)
    have rest: "acc @ seg @ take (n - length seg) (drop (ir_offset r') (ir_bytes r')) = acc @ take n (drop (ir_offset r) (ir_bytes r))"
      using take_in_two [of k n "drop (ir_offset r) (ir_bytes r)"] k kn lseg by (simp add: r'_def add.commute)
    have place: "r'\<lparr>ir_offset := ir_offset r' + min (n - length seg) (ir_available r' - ir_offset r')\<rparr> =
        r\<lparr>ir_offset := ir_offset r + min n ?left\<rparr>"
    proof -
      have "ir_offset r + k + min (n - k) (?left - k) = ir_offset r + min n ?left" using k(2) by linarith
      with lseg show ?thesis by (simp add: r'_def)
    qed
    have short: "(ir_available r' - ir_offset r' < n - length seg) = (?left < n)"
      using lseg k(2) by (simp add: r'_def) linarith
    from less.IH [OF smaller ok, of "acc @ seg"] obtain bs where
      bs: "(False \<in> set bs) = (?left < n)" and
      l: "\<And>q. ir_extract_loop r' q (n - length seg) (acc @ seg) = rbind (report_all q bs) (\<lambda>p'.
        Inr (r\<lparr>ir_offset := ir_offset r + min n ?left\<rparr>, p', acc @ take n (drop (ir_offset r) (ir_bytes r))))"
      by (auto simp only: place short rest append_assoc)
    show ?thesis using more ne by (intro exI [of _ "True # bs"]) (simp add: bs loop l r'_def [symmetric] rbind_assoc)
  qed
qed

interpretation ir: offset_reader ir_reader ir_ok ir_bytes ir_offset
proof unfold_locales
  fix r :: irq_reader and n assume ok: "ir_ok r"
  from ir_extract_loop_spec [OF ok, of n "[]"] obtain bs where
      "(False \<in> set bs) = (ir_available r - ir_offset r < n)"
      "\<And>p. ir_extract_loop r p n [] = rbind (report_all p bs) (\<lambda>p'.
        Inr (r\<lparr>ir_offset := ir_offset r + min n (ir_available r - ir_offset r)\<rparr>, p', take n (drop (ir_offset r) (ir_bytes r))))"
    by auto
  with ok show "\<exists>bs r'. (False \<in> set bs) = (length (ir_bytes r) - ir_offset r < n) \<and> ir_ok r' \<and> ir_bytes r' = ir_bytes r \<and>
      ir_offset r' = ir_offset r + min n (length (ir_bytes r) - ir_offset r) \<and>
      (\<forall>p. sr_extract ir_reader r p n = rbind (report_all p bs) (\<lambda>p'. Inr (r', p', take n (drop (ir_offset r) (ir_bytes r)))))"
    by (intro exI [of _ bs] exI [of _ "r\<lparr>ir_offset := ir_offset r + min n (ir_available r - ir_offset r)\<rparr>"])
       (auto simp: ir_reader_def ir_extract_def ir_ok_def)
next
  fix r :: irq_reader and n :: nat assume ok: "ir_ok r"
  obtain k where seg: "take (min n (ir_available r - ir_offset r)) (iq_contiguous_range (ir_queue r) (ir_offset r)) = take k (drop (ir_offset r) (ir_bytes r))"
      and k: "k \<le> min n (ir_available r - ir_offset r)" "0 < min n (ir_available r - ir_offset r) \<Longrightarrow> 0 < k"
    using ir_contiguous [OF ok, of 0 "min n (ir_available r - ir_offset r)"] ok by (auto simp: ir_ok_def)
  have "length (take k (drop (ir_offset r) (ir_bytes r))) = k" using k(1) ok by simp
  with seg k ok show "\<exists>r' k. sr_extract_contiguous ir_reader r n = Inr (r', take k (drop (ir_offset r) (ir_bytes r))) \<and> k \<le> n \<and>
      (ir_offset r < length (ir_bytes r) \<and> 0 < n \<longrightarrow> 0 < k) \<and> ir_ok r' \<and> ir_bytes r' = ir_bytes r \<and>
      ir_offset r' = ir_offset r + min k (length (ir_bytes r) - ir_offset r)"
    by (intro exI [of _ "r\<lparr>ir_offset := ir_offset r + k\<rparr>"] exI [of _ k])
       (auto simp: ir_reader_def ir_extract_contiguous_def ir_ok_def Let_def simp del: length_take)
next
  fix r :: irq_reader assume ok: "ir_ok r" and lt: "ir_offset r < length (ir_bytes r)"
  obtain k where "take (ir_available r - ir_offset r) (iq_contiguous_range (ir_queue r) (ir_offset r)) = take k (drop (ir_offset r) (ir_bytes r))"
      "0 < ir_available r - ir_offset r \<Longrightarrow> 0 < k"
    using ir_contiguous [OF ok, of 0 "ir_available r - ir_offset r"] ok by (auto simp: ir_ok_def)
  then show "\<exists>bs. False \<notin> set bs \<and> (\<forall>p. sr_peek ir_reader r p = rbind (report_all p bs) (\<lambda>p'. Inr (p', ir_bytes r ! ir_offset r)))"
    using ok lt by (intro reports_once(1)) (auto simp: ir_reader_def ir_peek_def Let_def hd_drop_conv_nth)
qed (auto simp: ir_reader_def ir_ok_def ir_empty_def ir_construct_save_marker_def ir_rewind_def)

text \<open>\<open>PeekContiguousRange\<close> limits what it shows to the number of bytes left from the reader's position,
  not from \<open>start\<close>: it shows bytes of this reader only when nothing was added after the reader was made.\<close>

lemma ir_peek_contiguous_shows:
  assumes ok: "ir_ok r" and all: "ir_available r = iq_size (ir_queue r)" and le: "ir_offset r + start \<le> ir_available r"
  shows "\<exists>k. ir_peek_contiguous r start = take k (drop (ir_offset r + start) (ir_bytes r)) \<and> (ir_offset r + start < ir_available r \<longrightarrow> 0 < k)"
proof -
  from iq_contiguous_prefix [of "ir_queue r" "ir_offset r + start"] assms obtain k where
      k: "iq_contiguous_range (ir_queue r) (ir_offset r + start) = take k (drop (ir_offset r + start) (iq_elems (ir_queue r)))"
      "ir_offset r + start < iq_size (ir_queue r) \<longrightarrow> 0 < k"
    by (auto simp: ir_ok_def)
  have "ir_bytes r = iq_elems (ir_queue r)" using all by (simp add: ir_bytes_def)
  with k show ?thesis using all ok
    by (intro exI [of _ "min (ir_available r - ir_offset r) k"]) (auto simp: ir_peek_contiguous_def)
qed

text \<open>After \<open>Commit\<close> the reader still subtracts from the size that the queue had when the reader was made:
  having read and committed everything, it is not \<open>Empty\<close>.\<close>

lemma irq_reader_not_empty_after_commit:
  assumes "iq_inv q" and "iq_size q \<noteq> 0"
  shows "let r = ir_commit ((ir_new q)\<lparr>ir_offset := iq_size q\<rparr>) in iq_elems (ir_queue r) = [] \<and> \<not> ir_empty r"
  using iq_consume_takes [OF assms(1) order_refl] assms(2)
  by (simp add: ir_commit_def ir_new_def ir_empty_def ir_get_available_def Let_def)

end
