(* ===== verification/Flash.thy ===== *)
theory Flash
  imports Slots
begin

text \<open>
  Flash memory as hal/interfaces describes it: sectors of bytes, each erased as a whole to \<open>0xff\<close>. The
  operations of \<open>FlashBase\<close> (Flash.cpp) compute with the sectors; the device is the one of
  test_doubles/FlashStub.cpp, where writing can only clear bits. Its constructor makes all sectors
  of one size, so that an empty sector means that there is nothing to read.
\<close>

type_synonym flash = "byte list list"

section \<open>The device\<close>

definition fl_new :: "nat \<Rightarrow> nat \<Rightarrow> flash" where
  "fl_new numberOfSectors sizeOfEachSector = replicate numberOfSectors (replicate sizeOfEachSector 0xff)"

definition fl_number_of_sectors :: "flash \<Rightarrow> nat" where
  "fl_number_of_sectors fl = length fl"

definition fl_size_of_sector :: "flash \<Rightarrow> nat \<Rightarrow> nat result" where
  "fl_size_of_sector fl i = in_bounds (i < length fl) (Inr (length (fl ! i)))"

fun fl_sector_of_address :: "flash \<Rightarrow> nat \<Rightarrow> nat result" where
  "fl_sector_of_address [] address = really_assert (address = 0) (Inr 0)"
| "fl_sector_of_address (sector # fl) address =
     (if address < length sector then Inr 0 else rbind (fl_sector_of_address fl (address - length sector)) (\<lambda>i. Inr (Suc i)))"

fun fl_sizes_before :: "flash \<Rightarrow> nat \<Rightarrow> nat" where
  "fl_sizes_before fl 0 = 0"
| "fl_sizes_before [] (Suc i) = 0"
| "fl_sizes_before (sector # fl) (Suc i) = length sector + fl_sizes_before fl i"

definition fl_address_of_sector :: "flash \<Rightarrow> nat \<Rightarrow> nat result" where
  "fl_address_of_sector fl i = really_assert (i \<le> length fl) (Inr (fl_sizes_before fl i))"

fun fl_locate :: "flash \<Rightarrow> nat \<Rightarrow> nat \<times> nat" where
  "fl_locate [] address = (0, address)"
| "fl_locate (sector # fl) address =
     (if address \<ge> length sector then let (i, offset) = fl_locate fl (address - length sector) in (Suc i, offset) else (0, address))"

definition fl_clear_bits :: "byte list \<Rightarrow> nat \<Rightarrow> byte list \<Rightarrow> byte list" where
  "fl_clear_bits sector offset bs = store_first sector offset (map2 (AND) (drop offset sector) bs)"

function fl_write_loop :: "flash \<Rightarrow> nat \<Rightarrow> nat \<Rightarrow> byte list \<Rightarrow> flash result" where
  "fl_write_loop fl i offset buffer =
     (if buffer = [] then Inr fl
      else if i < length fl
        then let n = min (length buffer) (length (fl ! i) - offset)
             in fl_write_loop (fl[i := fl_clear_bits (fl ! i) offset (take n buffer)]) (i + 1) 0 (drop n buffer)
      else Inl Out_of_bounds)"
  by pat_completeness auto
termination by (relation "measure (\<lambda>(fl, i, _, _). length fl - i)") auto

definition fl_write_buffer :: "flash \<Rightarrow> byte list \<Rightarrow> nat \<Rightarrow> flash result" where
  "fl_write_buffer fl buffer address = (let (i, offset) = fl_locate fl address in fl_write_loop fl i offset buffer)"

text \<open>Reading \<open>n\<close> bytes goes on in the first sector after the last one. A sector in which nothing is read does not
  change what is left.\<close>

function fl_read_loop :: "flash \<Rightarrow> nat \<Rightarrow> nat \<Rightarrow> nat \<Rightarrow> byte list result" where
  "fl_read_loop fl i offset n =
     (if n = 0 then Inr []
      else if \<not> i < length fl then Inl Out_of_bounds
      else let k = min n (length (fl ! i) - offset)
           in if k = 0 then Inl Diverges
              else rbind (fl_read_loop fl ((i + 1) mod length fl) 0 (n - k)) (\<lambda>bs. Inr (take k (drop offset (fl ! i)) @ bs)))"
  by pat_completeness auto
termination by (relation "measure (\<lambda>(_, _, _, n). n)") auto

definition fl_read_buffer :: "flash \<Rightarrow> nat \<Rightarrow> nat \<Rightarrow> byte list result" where
  "fl_read_buffer fl n address = (let (i, offset) = fl_locate fl address in fl_read_loop fl i offset n)"

fun fl_erase_loop :: "flash \<Rightarrow> nat \<Rightarrow> nat \<Rightarrow> flash result" where
  "fl_erase_loop fl i 0 = Inr fl"
| "fl_erase_loop fl i (Suc k) =
     in_bounds (i < length fl) (fl_erase_loop (fl[i := replicate (length (fl ! i)) 0xff]) (i + 1) k)"

text \<open>The loop compares with \<open>!=\<close>: an end before the beginning makes it leave the sectors.\<close>

definition fl_erase_sectors :: "flash \<Rightarrow> nat \<Rightarrow> nat \<Rightarrow> flash result" where
  "fl_erase_sectors fl beginIndex endIndex =
     in_bounds (beginIndex \<le> endIndex) (fl_erase_loop fl beginIndex (endIndex - beginIndex))"

section \<open>What is computed with it\<close>

definition fl_total_size :: "flash \<Rightarrow> nat result" where
  "fl_total_size fl = in_bounds (0 < fl_number_of_sectors fl)
     (rbind (fl_address_of_sector fl (fl_number_of_sectors fl - 1)) (\<lambda>a.
      rbind (fl_size_of_sector fl (fl_number_of_sectors fl - 1)) (\<lambda>n. Inr (a + n))))"

definition fl_start_of_sector :: "flash \<Rightarrow> nat \<Rightarrow> nat result" where
  "fl_start_of_sector fl address = rbind (fl_sector_of_address fl address) (fl_address_of_sector fl)"

definition fl_address_offset_in_sector :: "flash \<Rightarrow> nat \<Rightarrow> nat result" where
  "fl_address_offset_in_sector fl address = rbind (fl_start_of_sector fl address) (\<lambda>a. Inr (address - a))"

definition fl_start_of_next_sector :: "flash \<Rightarrow> nat \<Rightarrow> nat result" where
  "fl_start_of_next_sector fl address = rbind (fl_sector_of_address fl address) (\<lambda>i. fl_address_of_sector fl (i + 1))"

definition fl_start_of_previous_sector :: "flash \<Rightarrow> nat \<Rightarrow> nat result" where
  "fl_start_of_previous_sector fl address =
     rbind (fl_sector_of_address fl address) (\<lambda>i. in_bounds (0 < i) (fl_address_of_sector fl (i - 1)))"

definition fl_start_of_next_sector_cyclical :: "flash \<Rightarrow> nat \<Rightarrow> nat result" where
  "fl_start_of_next_sector_cyclical fl address =
     rbind (fl_sector_of_address fl address) (\<lambda>i.
       fl_address_of_sector fl (if i + 1 = fl_number_of_sectors fl then 0 else i + 1))"

definition fl_start_of_previous_sector_cyclical :: "flash \<Rightarrow> nat \<Rightarrow> nat result" where
  "fl_start_of_previous_sector_cyclical fl address =
     rbind (fl_sector_of_address fl address) (\<lambda>i.
       let j = (if i = 0 then fl_number_of_sectors fl else i) in in_bounds (0 < j) (fl_address_of_sector fl (j - 1)))"

definition fl_at_start_of_sector :: "flash \<Rightarrow> nat \<Rightarrow> bool result" where
  "fl_at_start_of_sector fl address = rbind (fl_start_of_sector fl address) (\<lambda>a. Inr (a = address))"

definition fl_erase_sector :: "flash \<Rightarrow> nat \<Rightarrow> flash result" where
  "fl_erase_sector fl i = fl_erase_sectors fl i (i + 1)"

definition fl_erase_all :: "flash \<Rightarrow> flash result" where
  "fl_erase_all fl = fl_erase_sectors fl 0 (fl_number_of_sectors fl)"

section \<open>The flash as one sequence of bytes\<close>

text \<open>What the operations do to \<open>concat fl\<close>. A device with sectors is \<open>fl_ok\<close> when it has one and none is empty.\<close>

definition fl_ok :: "flash \<Rightarrow> bool" where
  "fl_ok fl \<longleftrightarrow> fl \<noteq> [] \<and> (\<forall>sector \<in> set fl. sector \<noteq> [])"

declare fl_write_loop.simps [simp del] fl_read_loop.simps [simp del]

lemma fl_ok_nth: "fl_ok fl \<Longrightarrow> i < length fl \<Longrightarrow> fl ! i \<noteq> []"
  by (simp add: fl_ok_def)

lemma fl_ok_lengths: "map length fl' = map length fl \<Longrightarrow> fl_ok fl' = fl_ok fl"
proof -
  assume eq: "map length fl' = map length fl"
  have ne: "(\<forall>sector \<in> set x. sector \<noteq> []) = (0 \<notin> set (map length x))" for x :: flash by auto
  have "(fl' \<noteq> []) = (fl \<noteq> [])" using arg_cong [OF eq, of length] by auto
  then show ?thesis unfolding fl_ok_def ne eq by simp
qed

lemma length_concat_lengths: "map length fl' = map length fl \<Longrightarrow> length (concat fl') = length (concat fl)"
  by (simp add: length_concat)

lemma concat_drop_step: "i < length fl \<Longrightarrow> concat (drop i fl) = fl ! i @ concat (drop (Suc i) fl)"
  by (simp flip: Cons_nth_drop_Suc)

lemma fl_locate_inside:
  "address < length (concat fl) \<Longrightarrow> fl_locate fl address = (i, offset) \<Longrightarrow>
    i < length fl \<and> offset < length (fl ! i) \<and> length (concat (take i fl)) + offset = address"
proof (induction fl address arbitrary: i offset rule: fl_locate.induct)
  case (2 sector fl address)
  show ?case
  proof (cases "length sector \<le> address")
    case True
    then obtain j where j: "fl_locate fl (address - length sector) = (j, offset)" "i = Suc j"
      using 2(3) by (auto split: prod.splits)
    have "address - length sector < length (concat fl)" using 2(2) True by simp
    from 2(1) [OF True this j(1)] have "j < length fl" "offset < length (fl ! j)"
        "length (concat (take j fl)) + offset = address - length sector" by auto
    with True j(2) show ?thesis by simp
  qed (use 2(3) in simp)
qed simp

lemma fl_sizes_before_concat: "i \<le> length fl \<Longrightarrow> fl_sizes_before fl i = length (concat (take i fl))"
  by (induction fl i rule: fl_sizes_before.induct) auto

lemma fl_total_size_concat: "fl \<noteq> [] \<Longrightarrow> fl_total_size fl = Inr (length (concat fl))"
proof -
  assume ne: "fl \<noteq> []"
  have "length (concat fl) = length (concat (butlast fl)) + length (last fl)"
    by (subst append_butlast_last_id [OF ne, symmetric]) (simp only: concat_append length_append concat.simps append_Nil2)
  with ne show ?thesis
    by (simp add: fl_total_size_def fl_number_of_sectors_def fl_address_of_sector_def fl_size_of_sector_def
        fl_sizes_before_concat butlast_conv_take last_conv_nth)
qed

lemma fl_read_loop_concat:
  assumes "fl_ok fl"
  shows "i < length fl \<Longrightarrow> offset < length (fl ! i) \<Longrightarrow> n \<le> length (concat (drop i fl)) - offset \<Longrightarrow>
    fl_read_loop fl i offset n = Inr (take n (drop offset (concat (drop i fl))))"
proof (induction n arbitrary: i offset rule: less_induct)
  case (less n)
  have split: "concat (drop i fl) = fl ! i @ concat (drop (Suc i) fl)" by (rule concat_drop_step [OF less.prems(1)])
  define k where "k = min n (length (fl ! i) - offset)"
  show ?case
  proof (cases "n - k = 0")
    case True
    then have "n \<le> length (fl ! i) - offset" by (simp add: k_def)
    then show ?thesis using less.prems by (subst fl_read_loop.simps) (simp add: split Let_def fl_read_loop.simps [of _ _ _ 0])
  next
    case False
    then have k: "k = length (fl ! i) - offset" "k < n" by (auto simp: k_def)
    have rest: "n - k \<le> length (concat (drop (Suc i) fl))" using less.prems k by (simp add: split)
    then have next_i: "Suc i < length fl" using False by (cases "Suc i < length fl") auto
    have "0 < length (fl ! Suc i)" using fl_ok_nth [OF assms next_i] by simp
    from less.IH [OF _ next_i this, of "n - k"] rest k less.prems(2)
    have "fl_read_loop fl (Suc i) 0 (n - k) = Inr (take (n - k) (concat (drop (Suc i) fl)))" by simp
    moreover have "take n (drop offset (concat (drop i fl))) = take k (drop offset (fl ! i)) @ take (n - k) (concat (drop (Suc i) fl))"
      using less.prems(2) k by (simp add: split)
    ultimately show ?thesis using less.prems next_i k
      by (subst fl_read_loop.simps) (simp add: k_def [symmetric] Let_def)
  qed
qed

lemma fl_read_buffer_concat:
  assumes "fl_ok fl" and "address + n \<le> length (concat fl)"
  shows "fl_read_buffer fl n address = Inr (take n (drop address (concat fl)))"
proof (cases "address < length (concat fl)")
  case True
  obtain i offset where l: "fl_locate fl address = (i, offset)" by fastforce
  from fl_locate_inside [OF True l] have at: "i < length fl" "offset < length (fl ! i)" "length (concat (take i fl)) + offset = address"
    by auto
  have "concat fl = concat (take i fl) @ concat (drop i fl)" by (simp flip: concat_append)
  then have "drop address (concat fl) = drop offset (concat (drop i fl))" "length (concat fl) = length (concat (take i fl)) + length (concat (drop i fl))"
    unfolding at(3) [symmetric] by simp_all
  with assms(2) at fl_read_loop_concat [OF assms(1) at(1,2), of n] show ?thesis
    by (simp add: fl_read_buffer_def l)
next
  case False
  then have "n = 0" using assms(2) by simp
  then show ?thesis by (cases "fl_locate fl address") (simp add: fl_read_buffer_def fl_read_loop.simps)
qed

lemma store_first_split:
  "i + length xs \<le> length st \<Longrightarrow> store_first st i xs = take i st @ xs @ drop (i + length xs) st"
  by (intro nth_equalityI) (auto simp: nth_store_first nth_append)

lemma length_fl_clear_bits [simp]: "length (fl_clear_bits st offset bs) = length st"
  by (simp add: fl_clear_bits_def)

lemma nth_fl_clear_bits:
  "offset + length bs \<le> length st \<Longrightarrow> j < length st \<Longrightarrow>
    fl_clear_bits st offset bs ! j = (if offset \<le> j \<and> j < offset + length bs then st ! j AND bs ! (j - offset) else st ! j)"
  by (auto simp: fl_clear_bits_def nth_store_first)

lemma fl_clear_bits_none [simp]: "fl_clear_bits st offset [] = st"
  by (simp add: fl_clear_bits_def)

lemma fl_clear_bits_after:
  "offset + length bs \<le> length b \<Longrightarrow> fl_clear_bits (a @ b) (length a + offset) bs = a @ fl_clear_bits b offset bs"
  by (rule nth_equalityI) (auto simp: nth_fl_clear_bits nth_append)

lemma fl_clear_bits_across:
  assumes "offset \<le> length a" and "offset + length bs \<le> length a + length b" and "n = min (length bs) (length a - offset)"
  shows "fl_clear_bits (a @ b) offset bs = fl_clear_bits a offset (take n bs) @ fl_clear_bits b 0 (drop n bs)"
proof (rule nth_equalityI)
  fix j assume "j < length (fl_clear_bits (a @ b) offset bs)"
  then have j: "j < length a + length b" by simp
  have "offset + length (take n bs) \<le> length a" "0 + length (drop n bs) \<le> length b" using assms by auto
  from nth_fl_clear_bits [OF this(1), of j] nth_fl_clear_bits [OF this(2), of "j - length a"] j assms
  show "fl_clear_bits (a @ b) offset bs ! j = (fl_clear_bits a offset (take n bs) @ fl_clear_bits b 0 (drop n bs)) ! j"
    by (cases "j < length a") (auto simp: nth_fl_clear_bits nth_append min_def)
qed simp

lemma fl_clear_bits_erased:
  assumes "length bs \<le> length st" and "take (length bs) st = replicate (length bs) 0xff"
  shows "fl_clear_bits st 0 bs = bs @ drop (length bs) st"
proof (rule nth_equalityI)
  fix j assume "j < length (fl_clear_bits st 0 bs)"
  then have j: "j < length st" by simp
  have ff: "(0xff :: byte) = - 1" by simp
  have "st ! j = - 1" if "j < length bs" using arg_cong [OF assms(2), of "\<lambda>x. x ! j"] that j ff by simp
  then show "fl_clear_bits st 0 bs ! j = (bs @ drop (length bs) st) ! j"
    using assms(1) j by (auto simp: nth_fl_clear_bits nth_append)
qed (use assms(1) in simp)

lemma fl_write_loop_spec:
  "offset + length bs \<le> length (concat (drop i fl)) \<Longrightarrow> (bs = [] \<or> i < length fl \<and> offset \<le> length (fl ! i)) \<Longrightarrow>
    \<exists>fl'. fl_write_loop fl i offset bs = Inr fl' \<and> map length fl' = map length fl \<and> take i fl' = take i fl \<and>
      concat (drop i fl') = fl_clear_bits (concat (drop i fl)) offset bs"
proof (induction "length fl - i" arbitrary: fl i offset bs rule: less_induct)
  case less
  show ?case
  proof (cases "bs = []")
    case True
    then show ?thesis by (simp add: fl_write_loop.simps fl_clear_bits_def)
  next
    case False
    then have i: "i < length fl" and off: "offset \<le> length (fl ! i)" using less.prems(2) by auto
    have split: "concat (drop i fl) = fl ! i @ concat (drop (Suc i) fl)" by (rule concat_drop_step [OF i])
    define n where "n = min (length bs) (length (fl ! i) - offset)"
    define sector where "sector = fl_clear_bits (fl ! i) offset (take n bs)"
    define fl1 where "fl1 = fl[i := sector]"
    have n: "n \<le> length bs" "offset + n \<le> length (fl ! i)" using off by (auto simp: n_def)
    have lens: "map length fl1 = map length fl"
      using i by (intro nth_equalityI) (auto simp: fl1_def sector_def nth_list_update)
    have last: "drop n bs = [] \<or> offset + n = length (fl ! i)" using off by (auto simp: n_def)
    have room: "0 + length (drop n bs) \<le> length (concat (drop (Suc i) fl1))"
      using less.prems(1) last off by (auto simp: split fl1_def)
    moreover have "drop n bs = [] \<or> Suc i < length fl1 \<and> 0 \<le> length (fl1 ! Suc i)"
    proof (rule disjCI)
      assume "\<not> (Suc i < length fl1 \<and> 0 \<le> length (fl1 ! Suc i))"
      then have "drop (Suc i) fl1 = []" by simp
      with room show "drop n bs = []" by simp
    qed
    moreover have "length fl1 - Suc i < length fl - i" using i by (simp add: fl1_def)
    ultimately obtain fl' where fl': "fl_write_loop fl1 (Suc i) 0 (drop n bs) = Inr fl'" "map length fl' = map length fl1"
        "take (Suc i) fl' = take (Suc i) fl1" "concat (drop (Suc i) fl') = fl_clear_bits (concat (drop (Suc i) fl1)) 0 (drop n bs)"
      using less.hyps by blast
    have len: "length fl' = length fl" using arg_cong [OF fl'(2), of length] by (simp add: fl1_def)
    have "fl' ! i = sector" using arg_cong [OF fl'(3), of "\<lambda>x. x ! i"] i by (simp add: fl1_def)
    then have "concat (drop i fl') = sector @ fl_clear_bits (concat (drop (Suc i) fl)) 0 (drop n bs)"
      using concat_drop_step [of i fl'] i len fl'(4) by (simp add: fl1_def)
    also have "\<dots> = fl_clear_bits (concat (drop i fl)) offset bs"
      unfolding split sector_def using less.prems(1) off by (subst fl_clear_bits_across [where n = n]) (simp_all add: split n_def)
    finally have c: "concat (drop i fl') = fl_clear_bits (concat (drop i fl)) offset bs" .
    have "take i fl' = take i fl" using arg_cong [OF fl'(3), of "take i"] by (simp add: fl1_def)
    moreover have "fl_write_loop fl i offset bs = Inr fl'"
      using False i fl'(1) by (subst fl_write_loop.simps) (simp add: n_def [symmetric] Let_def sector_def [symmetric] fl1_def [symmetric])
    ultimately show ?thesis using c fl'(2) lens by auto
  qed
qed

lemma fl_write_buffer_concat:
  assumes "address + length bs \<le> length (concat fl)"
  obtains fl' where "fl_write_buffer fl bs address = Inr fl'" and "map length fl' = map length fl"
    and "concat fl' = fl_clear_bits (concat fl) address bs"
proof (cases "bs = []")
  case True
  then show thesis using that [of fl] by (cases "fl_locate fl address") (simp add: fl_write_buffer_def fl_write_loop.simps fl_clear_bits_def)
next
  case False
  obtain i offset where l: "fl_locate fl address = (i, offset)" by fastforce
  have "address < length (concat fl)" using assms False by (cases bs) auto
  from fl_locate_inside [OF this l] have at: "i < length fl" "offset < length (fl ! i)" "length (concat (take i fl)) + offset = address"
    by auto
  have c: "concat x = concat (take i x) @ concat (drop i x)" for x :: flash by (simp flip: concat_append)
  have len: "length (concat fl) = length (concat (take i fl)) + length (concat (drop i fl))" by (subst c) simp
  have "offset + length bs \<le> length (concat (drop i fl))" using assms at(3) len by linarith
  with fl_write_loop_spec [of offset bs i fl] at obtain fl' where
      fl': "fl_write_loop fl i offset bs = Inr fl'" "map length fl' = map length fl" "take i fl' = take i fl"
        "concat (drop i fl') = fl_clear_bits (concat (drop i fl)) offset bs"
    by auto
  have "concat fl' = concat (take i fl) @ fl_clear_bits (concat (drop i fl)) offset bs" using c [of fl'] fl' by simp
  also have "\<dots> = fl_clear_bits (concat fl) address bs"
    using fl_clear_bits_after [of offset bs "concat (drop i fl)" "concat (take i fl)"] assms at(3) len
    by (simp flip: c)
  finally show thesis using that [of fl'] fl' by (simp add: fl_write_buffer_def l)
qed

lemma fl_erase_loop_spec:
  "i + k \<le> length fl \<Longrightarrow> fl_erase_loop fl i k =
    Inr (take i fl @ map (\<lambda>sector. replicate (length sector) 0xff) (take k (drop i fl)) @ drop (i + k) fl)"
proof (induction k arbitrary: fl i)
  case (Suc k)
  then have i: "i < length fl" by simp
  define sector where "sector = replicate (length (fl ! i)) (0xff :: byte)"
  have "fl_erase_loop fl i (Suc k) = fl_erase_loop (fl[i := sector]) (Suc i) k" using i by (simp add: sector_def)
  also have "\<dots> = Inr (take (Suc i) (fl[i := sector]) @ map (\<lambda>sector. replicate (length sector) 0xff) (take k (drop (Suc i) (fl[i := sector]))) @
      drop (Suc i + k) (fl[i := sector]))"
    using Suc.prems by (intro Suc.IH) simp
  also have "take (Suc i) (fl[i := sector]) = take i fl @ [sector]" using i by (simp add: take_Suc_conv_app_nth)
  also have "drop (Suc i) (fl[i := sector]) = drop (Suc i) fl" by simp
  also have "drop (Suc i + k) (fl[i := sector]) = drop (Suc i + k) fl" by simp
  finally show ?case using i by (simp add: sector_def flip: Cons_nth_drop_Suc [OF i])
qed simp

definition fl_erased :: "flash \<Rightarrow> flash" where
  "fl_erased fl = map (\<lambda>sector. replicate (length sector) 0xff) fl"

lemma fl_erase_all_spec: "fl_erase_all fl = Inr (fl_erased fl)"
  using fl_erase_loop_spec [of 0 "length fl" fl]
  by (simp add: fl_erase_all_def fl_erase_sectors_def fl_number_of_sectors_def fl_erased_def)

lemma fl_erased_simps [simp]:
  "map length (fl_erased fl) = map length fl" "concat (fl_erased fl) = replicate (length (concat fl)) 0xff"
  by (simp add: fl_erased_def comp_def, induction fl) (auto simp: fl_erased_def replicate_add)

end
