(* ===== verification/Configuration_Blob.thy ===== *)
theory Configuration_Blob
  imports Flash Proto_Wire
begin

text \<open>
  \<open>ConfigurationBlobFlash\<close> (services/util/ConfigurationStore.cpp): a blob in a flash of its own, behind a header with
  a hash of eight bytes and a size. The blob is read into, and written from, a range of memory that several
  blobs share; it is checked after writing, in pieces as large as the verification buffer. Each operation hands the
  flash a callback and returns: what it waits for is a task, and \<open>cb_complete\<close> is what happens when the
  flash is done. The size in the header has 32 bits, and so has \<open>size_t\<close>. The hash is the parameter \<open>sha\<close> (\<open>Sha256\<close> is
  implemented outside the repository).
\<close>

type_synonym hash = "byte list \<Rightarrow> byte list"

record blob =
  cb_flash :: flash
  cb_currentSize :: u32
  cb_currentVerificationIndex :: nat

datatype cb_task = Recovering | Writing | Verifying | Erasing | Checking

datatype cb_outcome = Waiting cb_task | Recovered bool | Done | Is_erased bool

section \<open>Operations\<close>

definition cb_new :: "byte list \<Rightarrow> flash \<Rightarrow> blob result" where
  "cb_new ram fl = rbind (fl_total_size fl) (\<lambda>n. really_assert (length ram \<le> n)
     (Inr \<lparr>cb_flash = fl, cb_currentSize = 0, cb_currentVerificationIndex = 0\<rparr>))"

definition cb_current_blob :: "blob \<Rightarrow> byte list \<Rightarrow> byte list" where
  "cb_current_blob b ram = take (unat (cb_currentSize b)) (drop 12 ram)"

text \<open>The header in the memory: \<open>sizeof(Header)\<close> is 12.\<close>

definition cb_header_size :: "byte list \<Rightarrow> u32" where
  "cb_header_size ram = of_nat (le_value (take 4 (drop 8 ram)))"

definition cb_recover_current_size :: "blob \<Rightarrow> byte list \<Rightarrow> blob result" where
  "cb_recover_current_size b ram = really_assert (12 \<le> length ram) (Inr (b\<lparr>cb_currentSize := cb_header_size ram\<rparr>))"

definition cb_blob_is_valid :: "hash \<Rightarrow> byte list \<Rightarrow> bool result" where
  "cb_blob_is_valid sha ram = really_assert (12 \<le> length ram)
     (if cb_header_size ram + 12 > of_nat (length ram) then Inr False
      else Inr (take 8 (sha (take (unat (cb_header_size ram + 4)) (drop 8 ram))) = take 8 ram))"

text \<open>The first copy of the header carries whatever \<open>header.hash\<close> holds, here zeros; the second one replaces it.\<close>

definition cb_prepare_blob_for_writing :: "hash \<Rightarrow> blob \<Rightarrow> byte list \<Rightarrow> byte list result" where
  "cb_prepare_blob_for_writing sha b ram = really_assert (12 \<le> length ram)
     (let header_size = le_bytes 4 (unat (cb_currentSize b));
          ram1 = store_first ram 0 (replicate 8 0 @ header_size);
          messageHash = sha (take (unat (cb_currentSize b + 4)) (drop 8 ram1))
      in really_assert (8 \<le> length messageHash) (Inr (store_first ram1 0 (take 8 messageHash @ header_size))))"

definition cb_recover :: "blob \<Rightarrow> blob \<times> cb_outcome" where
  "cb_recover b = (b, Waiting Recovering)"

definition cb_recover_done :: "hash \<Rightarrow> blob \<Rightarrow> byte list \<Rightarrow> (blob \<times> cb_outcome) result" where
  "cb_recover_done sha b ram = rbind (cb_blob_is_valid sha ram) (\<lambda>valid.
     if valid then rbind (cb_recover_current_size b ram) (\<lambda>b1. Inr (b1, Recovered True)) else Inr (b, Recovered False))"

definition cb_write :: "hash \<Rightarrow> blob \<Rightarrow> byte list \<Rightarrow> u32 \<Rightarrow> (blob \<times> byte list \<times> cb_outcome) result" where
  "cb_write sha b ram n = (let b1 = b\<lparr>cb_currentSize := n\<rparr> in
     rbind (cb_prepare_blob_for_writing sha b1 ram) (\<lambda>ram1. Inr (b1, ram1, Waiting Writing)))"

definition cb_erase :: "blob \<Rightarrow> blob \<times> cb_outcome" where
  "cb_erase b = (b, Waiting Erasing)"

definition cb_verify_block :: "blob \<Rightarrow> byte list \<Rightarrow> blob \<times> cb_outcome" where
  "cb_verify_block b ram = (b, if cb_currentVerificationIndex b \<noteq> length ram then Waiting Verifying else Done)"

definition cb_verify :: "blob \<Rightarrow> byte list \<Rightarrow> blob \<times> cb_outcome" where
  "cb_verify b ram = cb_verify_block (b\<lparr>cb_currentVerificationIndex := 0\<rparr>) ram"

definition cb_verify_block_read :: "blob \<Rightarrow> byte list \<Rightarrow> nat \<Rightarrow> byte list \<Rightarrow> (blob \<times> cb_outcome) result" where
  "cb_verify_block_read b ram vsize verificationBlock =
     really_assert (verificationBlock = take vsize (drop (cb_currentVerificationIndex b) ram))
       (Inr (cb_verify_block (b\<lparr>cb_currentVerificationIndex := cb_currentVerificationIndex b + length verificationBlock\<rparr>) ram))"

definition cb_verify_if_is_erased :: "blob \<Rightarrow> byte list \<Rightarrow> blob \<times> cb_outcome" where
  "cb_verify_if_is_erased b ram = (b, if cb_currentVerificationIndex b \<noteq> length ram then Waiting Checking else Is_erased True)"

definition cb_is_erased :: "blob \<Rightarrow> byte list \<Rightarrow> blob \<times> cb_outcome" where
  "cb_is_erased b ram = cb_verify_if_is_erased (b\<lparr>cb_currentVerificationIndex := 0\<rparr>) ram"

definition cb_verify_if_is_erased_read :: "blob \<Rightarrow> byte list \<Rightarrow> byte list \<Rightarrow> blob \<times> cb_outcome" where
  "cb_verify_if_is_erased_read b ram verificationBlock =
     (if list_all (\<lambda>byte. byte = 0xff) verificationBlock
      then cb_verify_if_is_erased (b\<lparr>cb_currentVerificationIndex := cb_currentVerificationIndex b + length verificationBlock\<rparr>) ram
      else (b, Is_erased False))"

text \<open>The flash is done: it has read the blob into \<open>ram\<close>, written it from there, read a piece into the verification
  buffer of \<open>vsize\<close> bytes, or been erased, and calls back.\<close>

definition cb_piece_size :: "blob \<Rightarrow> byte list \<Rightarrow> nat \<Rightarrow> nat" where
  "cb_piece_size b ram vsize = min vsize (length ram - cb_currentVerificationIndex b)"

fun cb_complete :: "hash \<Rightarrow> nat \<Rightarrow> cb_task \<Rightarrow> blob \<Rightarrow> byte list \<Rightarrow> (blob \<times> byte list \<times> cb_outcome) result" where
  "cb_complete sha vsize Recovering b ram = rbind (fl_read_buffer (cb_flash b) (length ram) 0) (\<lambda>ram1.
     rbind (cb_recover_done sha b ram1) (\<lambda>(b1, r). Inr (b1, ram1, r)))"
| "cb_complete sha vsize Writing b ram = rbind (fl_write_buffer (cb_flash b) ram 0) (\<lambda>fl.
     let (b1, r) = cb_verify (b\<lparr>cb_flash := fl\<rparr>) ram in Inr (b1, ram, r))"
| "cb_complete sha vsize Verifying b ram =
     rbind (fl_read_buffer (cb_flash b) (cb_piece_size b ram vsize) (cb_currentVerificationIndex b)) (\<lambda>block.
     rbind (cb_verify_block_read b ram vsize block) (\<lambda>(b1, r). Inr (b1, ram, r)))"
| "cb_complete sha vsize Erasing b ram = rbind (fl_erase_all (cb_flash b)) (\<lambda>fl. Inr (b\<lparr>cb_flash := fl\<rparr>, ram, Done))"
| "cb_complete sha vsize Checking b ram =
     rbind (fl_read_buffer (cb_flash b) (cb_piece_size b ram vsize) (cb_currentVerificationIndex b)) (\<lambda>block.
     let (b1, r) = cb_verify_if_is_erased_read b ram block in Inr (b1, ram, r))"

text \<open>The blob in read-only memory, whose header is the size alone.\<close>

definition cbr_current_blob :: "byte list \<Rightarrow> byte list result" where
  "cbr_current_blob data = really_assert (4 \<le> length data)
     (Inr (take (unat (of_nat (le_value (take 4 data)) :: u32)) (drop 4 data)))"

definition cbr_recover :: "byte list \<Rightarrow> cb_outcome" where
  "cbr_recover data = Recovered True"

section \<open>What a flash holds\<close>

text \<open>The blob that the memory holds, if its header is valid; \<open>cb_fits\<close> says that a flash is large enough
  for the memory.\<close>

definition cb_blob_in :: "hash \<Rightarrow> byte list \<Rightarrow> byte list option" where
  "cb_blob_in sha ram = (if cb_blob_is_valid sha ram = Inr True then Some (take (unat (cb_header_size ram)) (drop 12 ram)) else None)"

definition cb_content :: "hash \<Rightarrow> nat \<Rightarrow> flash \<Rightarrow> byte list option" where
  "cb_content sha n fl = cb_blob_in sha (take n (concat fl))"

definition cb_clean :: "nat \<Rightarrow> flash \<Rightarrow> bool" where
  "cb_clean n fl \<longleftrightarrow> take n (concat fl) = replicate n 0xff"

definition cb_fits :: "nat \<Rightarrow> flash \<Rightarrow> bool" where
  "cb_fits n fl \<longleftrightarrow> fl_ok fl \<and> n \<le> length (concat fl) \<and> 12 \<le> n \<and> n < 4294967296"

lemma cb_fits_lengths: "map length fl' = map length fl \<Longrightarrow> cb_fits n fl' = cb_fits n fl"
  using fl_ok_lengths [of fl' fl] length_concat_lengths [of fl' fl] by (simp only: cb_fits_def)

lemma cb_fits_erased [simp]: "cb_fits n (fl_erased fl) = cb_fits n fl"
  by (rule cb_fits_lengths) simp

lemma cb_clean_erased [simp]: "cb_fits n fl \<Longrightarrow> cb_clean n (fl_erased fl)"
  by (simp add: cb_clean_def cb_fits_def)

lemma cb_fits_length: "cb_fits n fl \<Longrightarrow> length (take n (concat fl)) = n"
  by (simp add: cb_fits_def)

lemma cb_blob_is_valid_total: "12 \<le> length ram \<Longrightarrow> \<exists>v. cb_blob_is_valid sha ram = Inr v"
  by (cases "cb_header_size ram + 12 > of_nat (length ram)") (auto simp: cb_blob_is_valid_def)

text \<open>The check of the size wraps around: an erased flash passes it, and only the hash tells that it holds nothing.\<close>

lemma cb_size_check_wraps:
  "12 \<le> n \<Longrightarrow> cb_header_size (replicate n 0xff) + 12 = 11"
proof -
  assume "12 \<le> n"
  then have "take 4 (drop 8 (replicate n (0xff :: byte))) = [0xff, 0xff, 0xff, 0xff]" by (simp add: min_def numeral_eq_Suc)
  then show ?thesis by (simp add: cb_header_size_def)
qed

text \<open>A blob that was prepared for writing is valid, and holds the bytes behind the header.\<close>

lemma cb_prepare_blob_for_writing_spec:
  assumes sha: "\<And>bs. 8 \<le> length (sha bs)" and n: "12 + unat (cb_currentSize b) \<le> length ram" and ram: "length ram < 4294967296"
  shows "\<exists>ram'. cb_prepare_blob_for_writing sha b ram = Inr ram' \<and> length ram' = length ram \<and> drop 12 ram' = drop 12 ram \<and>
    cb_header_size ram' = cb_currentSize b \<and> cb_blob_in sha ram' = Some (cb_current_blob b ram)"
proof -
  let ?size = "cb_currentSize b"
  let ?le = "le_bytes 4 (unat ?size)"
  define ram1 where "ram1 = replicate 8 0 @ ?le @ drop 12 ram"
  define digest where "digest = take 8 (sha (take (unat (?size + 4)) (drop 8 ram1)))"
  define ram' where "ram' = digest @ ?le @ drop 12 ram"
  have digest: "length digest = 8" using sha by (simp add: digest_def min_absorb2)
  have "store_first ram 0 (replicate 8 0 @ ?le) = ram1" using n by (simp add: store_first_split ram1_def)
  moreover have "store_first ram1 0 (digest @ ?le) = ram'" using n digest by (simp add: store_first_split ram1_def ram'_def)
  ultimately have prepare: "cb_prepare_blob_for_writing sha b ram = Inr ram'"
    using n sha by (simp add: cb_prepare_blob_for_writing_def Let_def digest_def)
  have "unat ?size < 256 ^ 4" by simp
  then have header: "cb_header_size ram' = ?size"
    using digest by (simp add: cb_header_size_def ram'_def le_value_bytes)
  have fits: "unat (?size + 12) = unat ?size + 12"
  proof -
    have "unat ?size + unat (12 :: u32) < 4294967296" using n ram by simp
    from unat_add_u32 [OF this] show ?thesis by simp
  qed
  then have "\<not> ?size + 12 > (of_nat (length ram') :: u32)"
    using n ram digest by (simp add: ram'_def word_less_nat_alt)
  moreover have "drop 8 ram' = drop 8 ram1" "take 8 ram' = digest" using digest by (simp_all add: ram'_def ram1_def)
  moreover have "12 \<le> length ram'" using digest by (simp add: ram'_def)
  ultimately have "cb_blob_is_valid sha ram' = Inr True" using header by (simp add: cb_blob_is_valid_def digest_def)
  moreover have "length ram' = length ram" "drop 12 ram' = drop 12 ram" using digest n by (simp_all add: ram'_def)
  ultimately show ?thesis using prepare header by (simp add: cb_blob_in_def cb_current_blob_def)
qed

section \<open>What each task does\<close>

lemma cb_complete_recovering:
  assumes "cb_fits n (cb_flash b)" and "length ram = n"
  shows "cb_complete sha vsize Recovering b ram =
    (let ram' = take n (concat (cb_flash b)) in
     if cb_content sha n (cb_flash b) = None then Inr (b, ram', Recovered False)
     else Inr (b\<lparr>cb_currentSize := cb_header_size ram'\<rparr>, ram', Recovered True))"
proof -
  have "12 \<le> length (take n (concat (cb_flash b)))" using assms(1) by (simp add: cb_fits_def)
  with cb_blob_is_valid_total [OF this, of sha] show ?thesis
    using fl_read_buffer_concat [of "cb_flash b" 0 n] assms
    by (auto simp: cb_fits_def cb_recover_done_def cb_recover_current_size_def cb_content_def cb_blob_in_def Let_def)
qed

lemma cb_complete_writing:
  assumes "cb_fits n (cb_flash b)" and "length ram = n" and "cb_clean n (cb_flash b)"
  obtains fl where "cb_complete sha vsize Writing b ram = Inr (b\<lparr>cb_flash := fl, cb_currentVerificationIndex := 0\<rparr>, ram, Waiting Verifying)"
    and "map length fl = map length (cb_flash b)" and "take n (concat fl) = ram"
proof -
  have "0 + length ram \<le> length (concat (cb_flash b))" using assms by (simp add: cb_fits_def)
  then obtain fl where fl: "fl_write_buffer (cb_flash b) ram 0 = Inr fl" "map length fl = map length (cb_flash b)"
      "concat fl = fl_clear_bits (concat (cb_flash b)) 0 ram"
    by (rule fl_write_buffer_concat)
  have "concat fl = ram @ drop n (concat (cb_flash b))"
    using assms by (simp add: fl(3) fl_clear_bits_erased cb_fits_def cb_clean_def)
  moreover have "0 \<noteq> length ram" using assms by (auto simp: cb_fits_def)
  ultimately show thesis using that [of fl] fl assms(2)
    by (simp add: cb_verify_def cb_verify_block_def)
qed

lemma cb_complete_verifying:
  assumes "cb_fits n (cb_flash b)" and "take n (concat (cb_flash b)) = ram" and "cb_currentVerificationIndex b \<le> n"
  shows "cb_complete sha vsize Verifying b ram =
    (let i = cb_currentVerificationIndex b + cb_piece_size b ram vsize in
     Inr (b\<lparr>cb_currentVerificationIndex := i\<rparr>, ram, if i \<noteq> n then Waiting Verifying else Done))"
proof -
  let ?i = "cb_currentVerificationIndex b" and ?k = "cb_piece_size b ram vsize"
  have n: "length ram = n" using cb_fits_length [OF assms(1)] assms(2) by simp
  have k: "?i + ?k \<le> n" "n \<le> length (concat (cb_flash b))" using assms n by (auto simp: cb_piece_size_def cb_fits_def)
  then have "fl_read_buffer (cb_flash b) ?k ?i = Inr (take ?k (drop ?i (concat (cb_flash b))))"
    using assms(1) by (intro fl_read_buffer_concat) (auto simp: cb_fits_def)
  moreover have "take ?k (drop ?i (concat (cb_flash b))) = take vsize (drop ?i ram)"
    using k n by (simp add: assms(2) [symmetric] drop_take cb_piece_size_def min.commute)
  moreover have "length (take vsize (drop ?i ram)) = ?k" using n assms(3) by (simp add: cb_piece_size_def min.commute)
  ultimately show ?thesis using n by (simp add: cb_verify_block_read_def cb_verify_block_def Let_def)
qed

lemma cb_complete_erasing:
  "cb_complete sha vsize Erasing b ram = Inr (b\<lparr>cb_flash := fl_erased (cb_flash b)\<rparr>, ram, Done)"
  by (simp add: fl_erase_all_spec)

text \<open>Checking goes on as long as it finds erased bytes only; when it has come to the end, the flash is clean.\<close>

lemma cb_complete_checking:
  assumes "cb_fits n (cb_flash b)" and "length ram = n" and "cb_currentVerificationIndex b \<le> n"
    and "cb_clean (cb_currentVerificationIndex b) (cb_flash b)"
  obtains (more) "cb_complete sha vsize Checking b ram =
      Inr (b\<lparr>cb_currentVerificationIndex := cb_currentVerificationIndex b + cb_piece_size b ram vsize\<rparr>, ram, Waiting Checking)"
      and "cb_currentVerificationIndex b + cb_piece_size b ram vsize < n"
      and "cb_clean (cb_currentVerificationIndex b + cb_piece_size b ram vsize) (cb_flash b)"
    | (erased) "cb_complete sha vsize Checking b ram =
      Inr (b\<lparr>cb_currentVerificationIndex := n\<rparr>, ram, Is_erased True)" and "cb_clean n (cb_flash b)"
    | (written) "cb_complete sha vsize Checking b ram = Inr (b, ram, Is_erased False)"
proof -
  let ?i = "cb_currentVerificationIndex b" and ?k = "cb_piece_size b ram vsize" and ?c = "concat (cb_flash b)"
  let ?block = "take ?k (drop ?i ?c)"
  have k: "?i + ?k \<le> n" "n \<le> length ?c" using assms by (auto simp: cb_piece_size_def cb_fits_def)
  then have read: "fl_read_buffer (cb_flash b) ?k ?i = Inr ?block"
    using assms(1) by (intro fl_read_buffer_concat) (auto simp: cb_fits_def)
  have len: "length ?block = ?k" using k by simp
  show thesis
  proof (cases "list_all (\<lambda>byte. byte = 0xff) ?block")
    case True
    then have "?block = replicate (length ?block) 0xff" by (intro replicate_eqI [symmetric, THEN sym]) (auto simp: list_all_iff)
    then have "take (?i + ?k) ?c = replicate ?i 0xff @ replicate ?k 0xff"
      using assms(4) unfolding len by (simp add: take_add cb_clean_def)
    then have clean: "cb_clean (?i + ?k) (cb_flash b)" by (simp add: cb_clean_def replicate_add)
    show thesis
    proof (cases "?i + ?k = n")
      case True
      then show thesis using erased clean \<open>list_all _ _\<close> read len assms(2)
        by (simp add: cb_verify_if_is_erased_read_def cb_verify_if_is_erased_def)
    next
      case False
      then show thesis using more clean True read len assms(2) k
        by (simp add: cb_verify_if_is_erased_read_def cb_verify_if_is_erased_def)
    qed
  next
    case False
    then show thesis using written read by (simp add: cb_verify_if_is_erased_read_def)
  qed
qed

end
