(* ===== verification/Configuration_Store.thy ===== *)
theory Configuration_Store
  imports Configuration_Blob Stream_Writers
begin

text \<open>
  \<open>ConfigurationStoreImpl\<close> over two \<open>ConfigurationBlobFlash\<close> (services/util/ConfigurationStore.hpp and .cpp). One
  flash holds the configuration, the other is erased: a new configuration is written there, and then the
  old one is erased. After \<open>Recover\<close>, \<open>activeBlob\<close> is the one that will be written next. Both blobs share one range of
  memory. What the generated code of a configuration writes with a formatter is the parameter \<open>ser\<close>, what it
  makes of the bytes it reads \<open>deser\<close>. The lambdas that are handed to a blob are the constructors of
  \<open>cs_callback\<close>, with what they capture; the blob at work, its task and the callback are \<open>cs_pending\<close>.
\<close>

datatype which_blob = First | Second

datatype cs_callback =
    Active_recovered | Other_recovered | Inactive_checked bool | Inactive_erased bool
  | Serialized u32 | Old_erased u32 | Inactive_gone u32 | Both_gone u32

datatype cs_output = On_recovered bool | Operation_done u32

record 'c config_store =
  cs_activeBlob :: which_blob
  cs_inactiveBlob :: which_blob
  cs_blob1 :: blob
  cs_blob2 :: blob
  cs_ram :: "byte list"
  cs_vsize :: nat
  cs_operationId :: u32
  cs_writingBlob :: bool
  cs_writeRequested :: bool
  cs_lockCount :: u32
  cs_configuration :: 'c
  cs_pending :: "(which_blob \<times> cb_task \<times> cs_callback) option"

fun cs_blob :: "'c config_store \<Rightarrow> which_blob \<Rightarrow> blob" where
  "cs_blob s First = cs_blob1 s"
| "cs_blob s Second = cs_blob2 s"

fun cs_set_blob :: "which_blob \<Rightarrow> blob \<Rightarrow> 'c config_store \<Rightarrow> 'c config_store" where
  "cs_set_blob First b s = s\<lparr>cs_blob1 := b\<rparr>"
| "cs_set_blob Second b s = s\<lparr>cs_blob2 := b\<rparr>"

text \<open>A blob was called: it waits for its flash, or has the result at once.\<close>

fun cs_await :: "which_blob \<Rightarrow> cs_callback \<Rightarrow> blob \<times> cb_outcome \<Rightarrow> 'c config_store \<Rightarrow> 'c config_store" where
  "cs_await w callback (b, Waiting t) s = cs_set_blob w b (s\<lparr>cs_pending := Some (w, t, callback)\<rparr>)"
| "cs_await w callback (b, _) s = cs_set_blob w b s"

definition cs_swap :: "'c config_store \<Rightarrow> 'c config_store" where
  "cs_swap s = s\<lparr>cs_activeBlob := cs_inactiveBlob s, cs_inactiveBlob := cs_activeBlob s\<rparr>"

section \<open>Writing\<close>

definition cs_serialize_blob :: "hash \<Rightarrow> ('c \<Rightarrow> byte list) \<Rightarrow> blob \<Rightarrow> 'c config_store \<Rightarrow> (blob \<times> byte list \<times> cb_outcome) result" where
  "cs_serialize_blob sha ser b s =
     rbind (bw_insert (cs_ram s, bw_new (mr_make 12 (length (cs_ram s)))) assert_policy (ser (cs_configuration s))) (\<lambda>((ram, stream), p).
       let ram1 = store_first ram (mr_begin (bw_remaining stream)) (replicate (mr_size (bw_remaining stream)) 0xff)
       in cb_write sha b ram1 (of_nat (mr_size (bw_processed stream))))"

definition cs_serialize :: "hash \<Rightarrow> ('c \<Rightarrow> byte list) \<Rightarrow> which_blob \<Rightarrow> cs_callback \<Rightarrow> 'c config_store \<Rightarrow> 'c config_store result" where
  "cs_serialize sha ser w onDone s =
     rbind (cs_serialize_blob sha ser (cs_blob s w) s) (\<lambda>(b, ram, r). Inr (cs_await w onDone (b, r) (s\<lparr>cs_ram := ram\<rparr>)))"

definition cs_is_locked :: "'c config_store \<Rightarrow> bool" where
  "cs_is_locked s \<longleftrightarrow> cs_lockCount s \<noteq> 0"

definition cs_write :: "hash \<Rightarrow> ('c \<Rightarrow> byte list) \<Rightarrow> 'c config_store \<Rightarrow> ('c config_store \<times> u32) result" where
  "cs_write sha ser s =
     (let thisId = cs_operationId s; s1 = s\<lparr>cs_writeRequested := True\<rparr>
      in if \<not> cs_writingBlob s1 \<and> \<not> cs_is_locked s1
         then rbind (cs_serialize sha ser (cs_activeBlob s1) (Serialized thisId)
                (s1\<lparr>cs_operationId := cs_operationId s1 + 1, cs_writeRequested := False, cs_writingBlob := True\<rparr>)) (\<lambda>s2. Inr (s2, thisId))
         else Inr (s1, thisId))"

definition cs_unlocked :: "hash \<Rightarrow> ('c \<Rightarrow> byte list) \<Rightarrow> 'c config_store \<Rightarrow> 'c config_store result" where
  "cs_unlocked sha ser s = (if cs_writeRequested s then rbind (cs_write sha ser s) (\<lambda>(s1, _). Inr s1) else Inr s)"

definition cs_blob_write_done :: "hash \<Rightarrow> ('c \<Rightarrow> byte list) \<Rightarrow> 'c config_store \<Rightarrow> 'c config_store result" where
  "cs_blob_write_done sha ser s = (let s1 = (cs_swap s)\<lparr>cs_writingBlob := False\<rparr>
     in if cs_writeRequested s1 then rbind (cs_write sha ser s1) (\<lambda>(s2, _). Inr s2) else Inr s1)"

text \<open>\<open>Lock\<close> makes a guard, which counts while it lives.\<close>

definition cs_lock :: "'c config_store \<Rightarrow> 'c config_store" where
  "cs_lock s = s\<lparr>cs_lockCount := cs_lockCount s + 1\<rparr>"

definition cs_unlock :: "hash \<Rightarrow> ('c \<Rightarrow> byte list) \<Rightarrow> 'c config_store \<Rightarrow> 'c config_store result" where
  "cs_unlock sha ser s = (let s1 = s\<lparr>cs_lockCount := cs_lockCount s - 1\<rparr>
     in if cs_lockCount s1 = 0 then cs_unlocked sha ser s1 else Inr s1)"

definition cs_erase :: "'c config_store \<Rightarrow> 'c config_store \<times> u32" where
  "cs_erase s = (let thisId = cs_operationId s; s1 = s\<lparr>cs_operationId := cs_operationId s + 1\<rparr>
     in (cs_await (cs_inactiveBlob s1) (Inactive_gone thisId) (cb_erase (cs_blob s1 (cs_inactiveBlob s1))) s1, thisId))"

section \<open>Recovering\<close>

definition cs_deserialize :: "(byte list \<Rightarrow> 'c) \<Rightarrow> which_blob \<Rightarrow> 'c config_store \<Rightarrow> 'c config_store" where
  "cs_deserialize deser w s = s\<lparr>cs_configuration := deser (cb_current_blob (cs_blob s w) (cs_ram s))\<rparr>"

definition cs_on_blob_loaded :: "(byte list \<Rightarrow> 'c) \<Rightarrow> bool \<Rightarrow> 'c config_store \<Rightarrow> 'c config_store \<times> cs_output list" where
  "cs_on_blob_loaded deser success s = (let s1 = cs_swap s
     in (if success then cs_deserialize deser (cs_inactiveBlob s1) s1 else s1, [On_recovered success]))"

definition cs_inactive_checked :: "(byte list \<Rightarrow> 'c) \<Rightarrow> bool \<Rightarrow> bool \<Rightarrow> 'c config_store \<Rightarrow> 'c config_store \<times> cs_output list" where
  "cs_inactive_checked deser success erased s =
     (if erased then cs_on_blob_loaded deser success s
      else (cs_await (cs_inactiveBlob s) (Inactive_erased success) (cb_erase (cs_blob s (cs_inactiveBlob s))) s, []))"

definition cs_check_inactive :: "(byte list \<Rightarrow> 'c) \<Rightarrow> bool \<Rightarrow> 'c config_store \<Rightarrow> 'c config_store \<times> cs_output list" where
  "cs_check_inactive deser success s =
     (let w = cs_inactiveBlob s; br = cb_is_erased (cs_blob s w) (cs_ram s); s1 = cs_await w (Inactive_checked success) br s
      in case snd br of Is_erased erased \<Rightarrow> cs_inactive_checked deser success erased s1 | _ \<Rightarrow> (s1, []))"

definition cs_recover :: "'c config_store \<Rightarrow> 'c config_store" where
  "cs_recover s = cs_await (cs_activeBlob s) Active_recovered (cb_recover (cs_blob s (cs_activeBlob s))) s"

definition cs_active_recovered :: "(byte list \<Rightarrow> 'c) \<Rightarrow> bool \<Rightarrow> 'c config_store \<Rightarrow> 'c config_store \<times> cs_output list" where
  "cs_active_recovered deser success s =
     (if success then cs_check_inactive deser True s
      else let s1 = cs_swap s
           in (cs_await (cs_activeBlob s1) Other_recovered (cb_recover (cs_blob s1 (cs_activeBlob s1))) s1, []))"

text \<open>The memory and the configuration are what their constructors leave there. \<open>WithBlobs\<close> recovers at once.\<close>

definition cs_construct :: "flash \<Rightarrow> flash \<Rightarrow> byte list \<Rightarrow> nat \<Rightarrow> 'c \<Rightarrow> 'c config_store result" where
  "cs_construct flashFirst flashSecond ram vsize configuration =
     rbind (cb_new ram flashFirst) (\<lambda>b1. rbind (cb_new ram flashSecond) (\<lambda>b2.
       Inr \<lparr>cs_activeBlob = First, cs_inactiveBlob = Second, cs_blob1 = b1, cs_blob2 = b2, cs_ram = ram, cs_vsize = vsize,
         cs_operationId = 0, cs_writingBlob = False, cs_writeRequested = False, cs_lockCount = 0, cs_configuration = configuration,
         cs_pending = None\<rparr>))"

definition cs_new :: "flash \<Rightarrow> flash \<Rightarrow> byte list \<Rightarrow> nat \<Rightarrow> 'c \<Rightarrow> 'c config_store result" where
  "cs_new flashFirst flashSecond ram vsize configuration =
     rbind (cs_construct flashFirst flashSecond ram vsize configuration) (\<lambda>s. Inr (cs_recover s))"

section \<open>Callbacks\<close>

fun cs_call :: "hash \<Rightarrow> ('c \<Rightarrow> byte list) \<Rightarrow> (byte list \<Rightarrow> 'c) \<Rightarrow> cs_callback \<Rightarrow> cb_outcome \<Rightarrow> 'c config_store \<Rightarrow>
    ('c config_store \<times> cs_output list) result" where
  "cs_call sha ser deser Active_recovered (Recovered success) s = Inr (cs_active_recovered deser success s)"
| "cs_call sha ser deser Other_recovered (Recovered success) s = Inr (cs_check_inactive deser success s)"
| "cs_call sha ser deser (Inactive_checked success) (Is_erased erased) s = Inr (cs_inactive_checked deser success erased s)"
| "cs_call sha ser deser (Inactive_erased success) Done s = Inr (cs_on_blob_loaded deser success s)"
| "cs_call sha ser deser (Serialized thisId) Done s =
     Inr (cs_await (cs_inactiveBlob s) (Old_erased thisId) (cb_erase (cs_blob s (cs_inactiveBlob s))) s, [])"
| "cs_call sha ser deser (Old_erased thisId) Done s =
     rbind (cs_blob_write_done sha ser s) (\<lambda>s1. Inr (s1, [Operation_done thisId]))"
| "cs_call sha ser deser (Inactive_gone thisId) Done s =
     Inr (cs_await (cs_activeBlob s) (Both_gone thisId) (cb_erase (cs_blob s (cs_activeBlob s))) s, [])"
| "cs_call sha ser deser (Both_gone thisId) Done s = Inr (s, [Operation_done thisId])"
| "cs_call sha ser deser _ _ s = Inr (s, [])"

text \<open>The flash that is at work is done; the blob goes on, or calls back.\<close>

definition cs_complete :: "hash \<Rightarrow> ('c \<Rightarrow> byte list) \<Rightarrow> (byte list \<Rightarrow> 'c) \<Rightarrow> 'c config_store \<Rightarrow> ('c config_store \<times> cs_output list) result" where
  "cs_complete sha ser deser s = (case cs_pending s of None \<Rightarrow> Inr (s, [])
     | Some (w, t, callback) \<Rightarrow> rbind (cb_complete sha (cs_vsize s) t (cs_blob s w) (cs_ram s)) (\<lambda>(b, ram, r).
         let s1 = cs_await w callback (b, r) (s\<lparr>cs_ram := ram, cs_pending := None\<rparr>)
         in case r of Waiting _ \<Rightarrow> Inr (s1, []) | _ \<Rightarrow> cs_call sha ser deser callback r s1))"

end
