(* ===== verification/Configuration_Phases.thy ===== *)
theory Configuration_Phases
  imports Configuration_Store
begin

text \<open>
  What the store goes through: a predicate on its state for each callback that can be pending, and for each what the
  completion of the flash's operation makes of it. The bytes that are durable are a parameter.
\<close>

section \<open>States\<close>

lemma cs_set_blob_simps [simp]:
  "cs_activeBlob (cs_set_blob w b s) = cs_activeBlob s" "cs_inactiveBlob (cs_set_blob w b s) = cs_inactiveBlob s"
  "cs_ram (cs_set_blob w b s) = cs_ram s" "cs_vsize (cs_set_blob w b s) = cs_vsize s"
  "cs_operationId (cs_set_blob w b s) = cs_operationId s" "cs_writingBlob (cs_set_blob w b s) = cs_writingBlob s"
  "cs_writeRequested (cs_set_blob w b s) = cs_writeRequested s" "cs_lockCount (cs_set_blob w b s) = cs_lockCount s"
  "cs_configuration (cs_set_blob w b s) = cs_configuration s" "cs_pending (cs_set_blob w b s) = cs_pending s"
  by (cases w; simp)+

lemma cs_blob_set [simp]: "cs_blob (cs_set_blob w b s) w' = (if w' = w then b else cs_blob s w')"
  by (cases w; cases w') simp_all

lemma cs_blob_update [simp]:
  "cs_blob (s\<lparr>cs_activeBlob := a\<rparr>) w = cs_blob s w" "cs_blob (s\<lparr>cs_inactiveBlob := i\<rparr>) w = cs_blob s w"
  "cs_blob (s\<lparr>cs_ram := ram\<rparr>) w = cs_blob s w" "cs_blob (s\<lparr>cs_operationId := n\<rparr>) w = cs_blob s w"
  "cs_blob (s\<lparr>cs_writingBlob := x\<rparr>) w = cs_blob s w" "cs_blob (s\<lparr>cs_writeRequested := x\<rparr>) w = cs_blob s w"
  "cs_blob (s\<lparr>cs_lockCount := n\<rparr>) w = cs_blob s w" "cs_blob (s\<lparr>cs_configuration := c\<rparr>) w = cs_blob s w"
  "cs_blob (s\<lparr>cs_pending := p\<rparr>) w = cs_blob s w"
  by (cases w; simp)+

lemma cs_blob_swap [simp]: "cs_blob (cs_swap s) w = cs_blob s w"
  by (simp add: cs_swap_def)

declare cs_blob.simps [simp del] cs_set_blob.simps [simp del]

definition cs_held :: "hash \<Rightarrow> nat \<Rightarrow> 'c config_store \<Rightarrow> which_blob \<Rightarrow> byte list option" where
  "cs_held sha n s w = cb_content sha n (cb_flash (cs_blob s w))"

definition cs_clean :: "nat \<Rightarrow> 'c config_store \<Rightarrow> which_blob \<Rightarrow> bool" where
  "cs_clean n s w = cb_clean n (cb_flash (cs_blob s w))"

text \<open>What \<open>Recover\<close> would find, and what is being written.\<close>

definition cs_recoverable :: "hash \<Rightarrow> nat \<Rightarrow> 'c config_store \<Rightarrow> byte list option" where
  "cs_recoverable sha n s = (if cs_held sha n s First \<noteq> None then cs_held sha n s First else cs_held sha n s Second)"

definition cs_written :: "'c config_store \<Rightarrow> byte list" where
  "cs_written s = cb_current_blob (cs_blob s (cs_activeBlob s)) (cs_ram s)"

definition cs_params :: "hash \<Rightarrow> ('c \<Rightarrow> byte list) \<Rightarrow> nat \<Rightarrow> bool" where
  "cs_params sha ser n \<longleftrightarrow> (\<forall>bs. 8 \<le> length (sha bs)) \<and> (\<forall>c. 12 + length (ser c) \<le> n) \<and> cb_blob_in sha (replicate n 0xff) = None"

definition cs_fits :: "nat \<Rightarrow> 'c config_store \<Rightarrow> bool" where
  "cs_fits n s \<longleftrightarrow> (\<forall>w. cb_fits n (cb_flash (cs_blob s w))) \<and> length (cs_ram s) = n \<and> 0 < cs_vsize s \<and> cs_activeBlob s \<noteq> cs_inactiveBlob s"

section \<open>Phases\<close>

definition cs_loaded :: "hash \<Rightarrow> nat \<Rightarrow> byte list option \<Rightarrow> bool \<Rightarrow> 'c config_store \<Rightarrow> bool" where
  "cs_loaded sha n durable success s \<longleftrightarrow> \<not> cs_writingBlob s \<and> cs_held sha n s (cs_activeBlob s) = durable \<and>
     success = (durable \<noteq> None) \<and> (success \<longrightarrow> durable = Some (cs_written s)) \<and>
     (cs_activeBlob s = First \<and> success \<or> cs_activeBlob s = Second \<and> cs_held sha n s (cs_inactiveBlob s) = None)"

fun cs_phase :: "hash \<Rightarrow> nat \<Rightarrow> byte list option \<Rightarrow> (which_blob \<times> cb_task \<times> cs_callback) option \<Rightarrow> 'c config_store \<Rightarrow> bool" where
  "cs_phase sha n durable None s \<longleftrightarrow>
     \<not> cs_writingBlob s \<and> cs_clean n s (cs_activeBlob s) \<and> cs_held sha n s (cs_inactiveBlob s) = durable"
| "cs_phase sha n durable (Some (w, t, Active_recovered)) s \<longleftrightarrow>
     \<not> cs_writingBlob s \<and> w = cs_activeBlob s \<and> cs_activeBlob s = First \<and> t = Recovering \<and> cs_recoverable sha n s = durable"
| "cs_phase sha n durable (Some (w, t, Other_recovered)) s \<longleftrightarrow>
     \<not> cs_writingBlob s \<and> w = cs_activeBlob s \<and> cs_activeBlob s = Second \<and> t = Recovering \<and>
     cs_held sha n s (cs_inactiveBlob s) = None \<and> cs_held sha n s (cs_activeBlob s) = durable"
| "cs_phase sha n durable (Some (w, t, Inactive_checked success)) s \<longleftrightarrow>
     w = cs_inactiveBlob s \<and> t = Checking \<and> cs_loaded sha n durable success s \<and>
     cb_currentVerificationIndex (cs_blob s w) < n \<and> cb_clean (cb_currentVerificationIndex (cs_blob s w)) (cb_flash (cs_blob s w))"
| "cs_phase sha n durable (Some (w, t, Inactive_erased success)) s \<longleftrightarrow>
     w = cs_inactiveBlob s \<and> t = Erasing \<and> cs_loaded sha n durable success s"
| "cs_phase sha n durable (Some (w, t, Serialized thisId)) s \<longleftrightarrow>
     cs_writingBlob s \<and> w = cs_activeBlob s \<and> cs_held sha n s (cs_inactiveBlob s) = durable \<and>
     cb_blob_in sha (cs_ram s) = Some (cs_written s) \<and>
     (t = Writing \<and> cs_clean n s w \<or>
      t = Verifying \<and> take n (concat (cb_flash (cs_blob s w))) = cs_ram s \<and> cb_currentVerificationIndex (cs_blob s w) < n)"
| "cs_phase sha n durable (Some (w, t, Old_erased thisId)) s \<longleftrightarrow>
     cs_writingBlob s \<and> w = cs_inactiveBlob s \<and> t = Erasing \<and> cs_held sha n s (cs_activeBlob s) = Some (cs_written s) \<and>
     cs_held sha n s (cs_inactiveBlob s) = durable"
| "cs_phase sha n durable (Some (w, t, Inactive_gone thisId)) s \<longleftrightarrow>
     \<not> cs_writingBlob s \<and> w = cs_inactiveBlob s \<and> t = Erasing \<and> cs_held sha n s (cs_inactiveBlob s) = durable \<and> cs_clean n s (cs_activeBlob s)"
| "cs_phase sha n durable (Some (w, t, Both_gone thisId)) s \<longleftrightarrow>
     \<not> cs_writingBlob s \<and> w = cs_activeBlob s \<and> t = Erasing \<and> cs_clean n s (cs_inactiveBlob s) \<and> cs_clean n s (cs_activeBlob s)"

fun cs_recovering :: "cs_callback \<Rightarrow> bool" where
  "cs_recovering (Active_recovered) = True"
| "cs_recovering (Other_recovered) = True"
| "cs_recovering (Inactive_checked _) = True"
| "cs_recovering (Inactive_erased _) = True"
| "cs_recovering _ = False"

fun cs_erasing :: "cs_callback \<Rightarrow> bool" where
  "cs_erasing (Inactive_gone _) = True"
| "cs_erasing (Both_gone _) = True"
| "cs_erasing _ = False"

text \<open>What will be durable when the pending operation is reported as done, and a bound on the callbacks until then.\<close>

fun cs_settled :: "cs_callback \<Rightarrow> byte list \<Rightarrow> byte list option" where
  "cs_settled (Old_erased _) written = Some written"
| "cs_settled _ written = None"

fun cs_left :: "nat \<Rightarrow> 'c config_store \<Rightarrow> (which_blob \<times> cb_task \<times> cs_callback) option \<Rightarrow> nat" where
  "cs_left n s None = 0"
| "cs_left n s (Some (w, t, Active_recovered)) = n + 4"
| "cs_left n s (Some (w, t, Other_recovered)) = n + 3"
| "cs_left n s (Some (w, t, Inactive_checked _)) = n - cb_currentVerificationIndex (cs_blob s w) + 2"
| "cs_left n s (Some (w, t, Serialized _)) = (if t = Writing then n + 3 else n - cb_currentVerificationIndex (cs_blob s w) + 2)"
| "cs_left n s (Some (w, t, Inactive_gone _)) = 2"
| "cs_left n s (Some _) = 1"

section \<open>Calls\<close>

lemma cs_await_simps [simp]:
  "cs_await w cb (b, Waiting t) s = cs_set_blob w b (s\<lparr>cs_pending := Some (w, t, cb)\<rparr>)"
  by simp

lemma cs_clean_not_held: "cs_params sha ser n \<Longrightarrow> cs_clean n s w \<Longrightarrow> cs_held sha n s w = None"
  by (simp add: cs_params_def cs_clean_def cb_clean_def cs_held_def cb_content_def)

lemma which_blob_other: "(a :: which_blob) \<noteq> i \<Longrightarrow> w = a \<or> w = i"
  by (cases a; cases i; cases w) simp_all

text \<open>Serializing leaves the bytes of the configuration in the memory, behind the header.\<close>

lemma cs_serialize_blob_spec:
  assumes p: "cs_params sha ser n" and f: "cs_fits n s"
  obtains ram where "cs_serialize_blob sha ser b s = Inr (b\<lparr>cb_currentSize := of_nat (length (ser (cs_configuration s)))\<rparr>, ram, Waiting Writing)"
    and "length ram = n" and "cb_current_blob (b\<lparr>cb_currentSize := of_nat (length (ser (cs_configuration s)))\<rparr>) ram = ser (cs_configuration s)"
    and "cb_blob_in sha ram = Some (ser (cs_configuration s))"
proof -
  let ?bs = "ser (cs_configuration s)" and ?r = "mr_make 12 (length (cs_ram s))"
  have n: "length (cs_ram s) = n" "12 \<le> n" "n < 4294967296" using f by (auto simp: cs_fits_def cb_fits_def)
  have fit: "12 + length ?bs \<le> n" using p by (simp add: cs_params_def)
  define ram1 where "ram1 = store_first (cs_ram s) 12 ?bs"
  define stream where "stream = (bw_new ?r)\<lparr>bw_offset := length ?bs\<rparr>"
  have insert_: "bw_insert (cs_ram s, bw_new ?r) assert_policy ?bs = Inr ((ram1, stream), assert_policy)"
    using n fit by (simp add: bw_insert_def bw_new_def bw_available_def mr_size_def mr_make_def assert_policy_def
        policy_report_result_def Let_def ram1_def stream_def)
  define ram2 where "ram2 = store_first ram1 (12 + length ?bs) (replicate (n - (12 + length ?bs)) 0xff)"
  have stream: "mr_begin (bw_remaining stream) = 12 + length ?bs" "mr_size (bw_remaining stream) = n - (12 + length ?bs)"
      "mr_size (bw_processed stream) = length ?bs"
    using n by (simp_all add: stream_def bw_new_def bw_remaining_def bw_processed_def mr_size_def mr_make_def)
  have ram2: "length ram2 = n" "take (length ?bs) (drop 12 ram2) = ?bs"
  proof -
    show "length ram2 = n" using n by (simp add: ram2_def ram1_def)
    show "take (length ?bs) (drop 12 ram2) = ?bs"
      using n fit by (intro nth_equalityI) (auto simp: ram2_def ram1_def nth_store_first)
  qed
  let ?b = "b\<lparr>cb_currentSize := of_nat (length ?bs)\<rparr>"
  have size: "unat (cb_currentSize ?b) = length ?bs" using n fit by simp
  have "12 + unat (cb_currentSize ?b) \<le> length ram2" "length ram2 < 4294967296" using size fit n ram2 by simp_all
  from cb_prepare_blob_for_writing_spec [of sha, OF _ this] p obtain ram where
      ram: "cb_prepare_blob_for_writing sha ?b ram2 = Inr ram" "length ram = length ram2" "drop 12 ram = drop 12 ram2"
        "cb_blob_in sha ram = Some (cb_current_blob ?b ram2)"
    by (auto simp: cs_params_def)
  have "cb_current_blob ?b ram2 = ?bs" "cb_current_blob ?b ram = ?bs"
    using ram2 ram(3) size by (simp_all add: cb_current_blob_def)
  moreover have "cs_serialize_blob sha ser b s = Inr (?b, ram, Waiting Writing)"
    using insert_ ram(1) n by (simp add: cs_serialize_blob_def stream ram2_def [symmetric] cb_write_def Let_def)
  ultimately show thesis using that ram ram2 by simp
qed

lemma cs_serialize_spec:
  assumes "cs_params sha ser n" and "cs_fits n s"
  obtains b ram where "cs_serialize sha ser w cb s = Inr (cs_set_blob w b (s\<lparr>cs_ram := ram, cs_pending := Some (w, Writing, cb)\<rparr>))"
    and "cb_flash b = cb_flash (cs_blob s w)" and "length ram = n"
    and "cb_current_blob b ram = ser (cs_configuration s)" and "cb_blob_in sha ram = Some (ser (cs_configuration s))"
  by (rule cs_serialize_blob_spec [OF assms, of "cs_blob s w"]) (auto simp: cs_serialize_def intro: that)

text \<open>What an operation leaves alone while it is on its way.\<close>

definition cs_same :: "'c config_store \<Rightarrow> 'c config_store \<Rightarrow> bool" where
  "cs_same s s' \<longleftrightarrow> cs_configuration s' = cs_configuration s \<and> cs_lockCount s' = cs_lockCount s \<and>
     cs_writeRequested s' = cs_writeRequested s \<and> cs_operationId s' = cs_operationId s \<and> cs_writingBlob s' = cs_writingBlob s \<and>
     (cs_writingBlob s \<longrightarrow> cs_written s' = cs_written s)"

lemma cs_write_starts:
  assumes p: "cs_params sha ser n" and f: "cs_fits n s" and idle: "\<not> cs_writingBlob s" "cs_lockCount s = 0"
    and held: "cs_clean n s (cs_activeBlob s)" "cs_held sha n s (cs_inactiveBlob s) = durable"
  obtains s' where "cs_write sha ser s = Inr (s', cs_operationId s)" and "cs_fits n s'"
    and "cs_pending s' = Some (cs_activeBlob s, Writing, Serialized (cs_operationId s))"
    and "cs_phase sha n durable (cs_pending s') s'" and "cs_written s' = ser (cs_configuration s)"
    and "cs_configuration s' = cs_configuration s" and "cs_lockCount s' = 0" and "\<not> cs_writeRequested s'"
    and "cs_operationId s' = cs_operationId s + 1"
proof -
  let ?a = "cs_activeBlob s"
  let ?s = "s\<lparr>cs_operationId := cs_operationId s + 1, cs_writeRequested := False, cs_writingBlob := True\<rparr>"
  have "cs_fits n ?s" using f by (simp add: cs_fits_def)
  from cs_serialize_spec [OF p this, of ?a "Serialized (cs_operationId s)"] obtain b ram where
      b: "cs_serialize sha ser ?a (Serialized (cs_operationId s)) ?s =
        Inr (cs_set_blob ?a b (?s\<lparr>cs_ram := ram, cs_pending := Some (?a, Writing, Serialized (cs_operationId s))\<rparr>))"
        "cb_flash b = cb_flash (cs_blob s ?a)" "length ram = n"
        "cb_current_blob b ram = ser (cs_configuration s)" "cb_blob_in sha ram = Some (ser (cs_configuration s))"
    by auto
  let ?t = "cs_set_blob ?a b (?s\<lparr>cs_ram := ram, cs_pending := Some (?a, Writing, Serialized (cs_operationId s))\<rparr>)"
  have ne: "cs_inactiveBlob s \<noteq> ?a" using f by (simp add: cs_fits_def eq_commute)
  have "cs_write sha ser s = Inr (?t, cs_operationId s)"
    using idle b(1) by (simp add: cs_write_def cs_is_locked_def Let_def)
  moreover have "cs_fits n ?t" using f b by (simp add: cs_fits_def)
  moreover have "cs_written ?t = ser (cs_configuration s)" using b by (simp add: cs_written_def)
  moreover have "cs_phase sha n durable (cs_pending ?t) ?t"
    using held b ne by (simp add: cs_held_def cs_clean_def cs_written_def)
  ultimately show thesis using that [of ?t] idle by simp
qed

lemma cs_on_blob_loaded_spec:
  assumes p: "cs_params sha ser n" and f: "cs_fits n s" and l: "cs_loaded sha n durable success s"
    and clean: "cs_clean n s (cs_inactiveBlob s)" and pending: "cs_pending s = None"
  obtains s' where "cs_on_blob_loaded deser success s = (s', [On_recovered success])" and "cs_fits n s'"
    and "cs_pending s' = None" and "cs_phase sha n durable None s'"
    and "success \<Longrightarrow> cs_configuration s' = deser (the durable)" and "\<not> success \<Longrightarrow> cs_configuration s' = cs_configuration s"
    and "cs_lockCount s' = cs_lockCount s" and "cs_writeRequested s' = cs_writeRequested s"
proof -
  let ?s = "fst (cs_on_blob_loaded deser success s)"
  have s': "cs_on_blob_loaded deser success s = (?s, [On_recovered success])"
    by (simp add: cs_on_blob_loaded_def Let_def)
  have "cs_fits n ?s" using f by (auto simp: cs_on_blob_loaded_def Let_def cs_swap_def cs_deserialize_def cs_fits_def)
  moreover have "cs_phase sha n durable None ?s" "cs_pending ?s = None"
    using l clean pending
    by (auto simp: cs_on_blob_loaded_def Let_def cs_swap_def cs_deserialize_def cs_loaded_def cs_clean_def cs_held_def)
  moreover have "cs_configuration ?s = deser (the durable)" if success
    using l that by (auto simp: cs_on_blob_loaded_def Let_def cs_swap_def cs_deserialize_def cs_loaded_def cs_written_def)
  ultimately show thesis using that [of ?s] s'
    by (auto simp: cs_on_blob_loaded_def Let_def cs_swap_def cs_deserialize_def)
qed

lemma cs_check_inactive_spec:
  assumes f: "cs_fits n s" and l: "cs_loaded sha n durable success s"
  obtains s' where "cs_check_inactive deser success s = (s', [])" and "cs_fits n s'"
    and "cs_pending s' = Some (cs_inactiveBlob s, Checking, Inactive_checked success)"
    and "cs_phase sha n durable (cs_pending s') s'" and "cs_left n s' (cs_pending s') = n + 2" and "cs_same s s'"
proof -
  let ?i = "cs_inactiveBlob s"
  let ?b = "(cs_blob s ?i)\<lparr>cb_currentVerificationIndex := 0\<rparr>"
  let ?s = "cs_set_blob ?i ?b (s\<lparr>cs_pending := Some (?i, Checking, Inactive_checked success)\<rparr>)"
  have n: "length (cs_ram s) = n" "12 \<le> n" using f by (auto simp: cs_fits_def cb_fits_def)
  then have "cs_ram s \<noteq> []" by auto
  then have c: "cs_check_inactive deser success s = (?s, [])"
    by (simp add: cs_check_inactive_def cb_is_erased_def cb_verify_if_is_erased_def Let_def)
  have ne: "cs_activeBlob s \<noteq> ?i" using f by (simp add: cs_fits_def)
  show thesis
  proof (rule that [OF c])
    show "cs_fits n ?s" using f by (simp add: cs_fits_def)
    show "cs_phase sha n durable (cs_pending ?s) ?s"
      using l n ne by (auto simp: cs_loaded_def cs_held_def cs_written_def cb_clean_def)
    show "cs_same s ?s" using l ne by (simp add: cs_same_def cs_loaded_def cs_written_def)
  qed simp_all
qed

section \<open>Completing an operation of the flash\<close>

lemma cs_complete_some:
  assumes "cs_pending s = Some (w, t, cb)" and "cb_complete sha (cs_vsize s) t (cs_blob s w) (cs_ram s) = Inr (b, ram, r)"
  shows "cs_complete sha ser deser s = (let s1 = cs_await w cb (b, r) (s\<lparr>cs_ram := ram, cs_pending := None\<rparr>)
     in case r of Waiting _ \<Rightarrow> Inr (s1, []) | _ \<Rightarrow> cs_call sha ser deser cb r s1)"
  using assms by (simp add: cs_complete_def)

fun cs_id :: "cs_callback \<Rightarrow> u32 option" where
  "cs_id (Serialized i) = Some i"
| "cs_id (Old_erased i) = Some i"
| "cs_id (Inactive_gone i) = Some i"
| "cs_id (Both_gone i) = Some i"
| "cs_id _ = None"

text \<open>An operation goes on for the same purpose: the callback that is pending next belongs to the same call.\<close>

definition cs_goes_on :: "hash \<Rightarrow> nat \<Rightarrow> byte list option \<Rightarrow> cs_callback \<Rightarrow> 'c config_store \<Rightarrow> 'c config_store \<Rightarrow> bool" where
  "cs_goes_on sha n durable cb s s' \<longleftrightarrow> cs_fits n s' \<and> cs_phase sha n durable (cs_pending s') s' \<and> cs_same s s' \<and>
     cs_left n s' (cs_pending s') < cs_left n s (cs_pending s) \<and>
     (\<exists>w t cb'. cs_pending s' = Some (w, t, cb') \<and> cs_id cb' = cs_id cb \<and> cs_erasing cb' = cs_erasing cb \<and> cs_recovering cb' = cs_recovering cb)"

definition cs_recovers :: "hash \<Rightarrow> (byte list \<Rightarrow> 'c) \<Rightarrow> nat \<Rightarrow> byte list option \<Rightarrow> 'c config_store \<Rightarrow> 'c config_store \<Rightarrow> bool" where
  "cs_recovers sha deser n durable s s' \<longleftrightarrow> cs_fits n s' \<and> cs_pending s' = None \<and> cs_phase sha n durable None s' \<and>
     cs_configuration s' = (case durable of Some bs \<Rightarrow> deser bs | None \<Rightarrow> cs_configuration s) \<and>
     cs_lockCount s' = cs_lockCount s \<and> cs_writeRequested s' = cs_writeRequested s"

lemma cs_recover_read:
  assumes f: "cs_fits n s" and pend: "cs_pending s = Some (w, Recovering, cb)"
  obtains (found) b bs where "cs_complete sha ser deser s = cs_call sha ser deser cb (Recovered True)
      (cs_set_blob w b (s\<lparr>cs_ram := take n (concat (cb_flash (cs_blob s w))), cs_pending := None\<rparr>))"
      and "cb_flash b = cb_flash (cs_blob s w)" and "cs_held sha n s w = Some bs"
      and "cb_current_blob b (take n (concat (cb_flash (cs_blob s w)))) = bs"
    | (none) "cs_complete sha ser deser s = cs_call sha ser deser cb (Recovered False)
      (cs_set_blob w (cs_blob s w) (s\<lparr>cs_ram := take n (concat (cb_flash (cs_blob s w))), cs_pending := None\<rparr>))"
      and "cs_held sha n s w = None"
proof -
  let ?ram = "take n (concat (cb_flash (cs_blob s w)))"
  have fits: "cb_fits n (cb_flash (cs_blob s w))" "length (cs_ram s) = n" using f by (auto simp: cs_fits_def)
  note c = cb_complete_recovering [OF fits, of sha "cs_vsize s"]
  show thesis
  proof (cases "cs_held sha n s w")
    case None
    then have "cb_complete sha (cs_vsize s) Recovering (cs_blob s w) (cs_ram s) = Inr (cs_blob s w, ?ram, Recovered False)"
      using c by (simp add: cs_held_def Let_def)
    from cs_complete_some [OF pend this] show thesis using none None by simp
  next
    case (Some bs)
    let ?b = "(cs_blob s w)\<lparr>cb_currentSize := cb_header_size ?ram\<rparr>"
    have "cb_complete sha (cs_vsize s) Recovering (cs_blob s w) (cs_ram s) = Inr (?b, ?ram, Recovered True)"
      using c Some by (simp add: cs_held_def Let_def)
    from cs_complete_some [OF pend this] have "cs_complete sha ser deser s = cs_call sha ser deser cb (Recovered True)
        (cs_set_blob w ?b (s\<lparr>cs_ram := ?ram, cs_pending := None\<rparr>))" by simp
    moreover have "cb_current_blob ?b ?ram = bs"
      using Some by (auto simp: cs_held_def cb_content_def cb_blob_in_def cb_current_blob_def split: if_splits)
    ultimately show thesis using found [of ?b bs] Some by simp
  qed
qed

lemma cs_fits_set:
  "cs_fits n s \<Longrightarrow> length ram = n \<Longrightarrow> cb_fits n (cb_flash b) \<Longrightarrow> cs_fits n (cs_set_blob w b (s\<lparr>cs_ram := ram, cs_pending := pending\<rparr>))"
  by (simp add: cs_fits_def)

lemma cs_fits_blob: "cs_fits n s \<Longrightarrow> cb_fits n (cb_flash (cs_blob s w))" "cs_fits n s \<Longrightarrow> cs_activeBlob s \<noteq> cs_inactiveBlob s"
  "cs_fits n s \<Longrightarrow> length (cs_ram s) = n" "cs_fits n s \<Longrightarrow> length (take n (concat (cb_flash (cs_blob s w)))) = n"
  by (auto simp: cs_fits_def cb_fits_def)

lemma cs_goes_on_check:
  assumes f: "cs_fits n s1" and l: "cs_loaded sha n durable success s1" and same: "cs_same s s1" "\<not> cs_writingBlob s"
    and left: "n + 2 < cs_left n s (cs_pending s)" and cb: "cs_id cb = None" "\<not> cs_erasing cb" "cs_recovering cb"
  shows "\<exists>s'. cs_check_inactive deser success s1 = (s', []) \<and> cs_goes_on sha n durable cb s s'"
proof -
  obtain s' where s': "cs_check_inactive deser success s1 = (s', [])" "cs_fits n s'"
      "cs_pending s' = Some (cs_inactiveBlob s1, Checking, Inactive_checked success)"
      "cs_phase sha n durable (cs_pending s') s'" "cs_left n s' (cs_pending s') = n + 2" "cs_same s1 s'"
    by (rule cs_check_inactive_spec [OF f l])
  have "cs_same s s'" using s'(6) same by (simp add: cs_same_def)
  moreover have "\<exists>w t cb'. cs_pending s' = Some (w, t, cb') \<and> cs_id cb' = cs_id cb \<and> cs_erasing cb' = cs_erasing cb \<and> cs_recovering cb' = cs_recovering cb"
    using s'(3) cb by simp
  ultimately have "cs_goes_on sha n durable cb s s'" unfolding cs_goes_on_def using left s'(2,4,5) by simp
  with s'(1) show ?thesis by blast
qed

lemma cs_complete_active_recovered:
  assumes f: "cs_fits n s" and pend: "cs_pending s = Some (w, t, Active_recovered)" and ph: "cs_phase sha n durable (cs_pending s) s"
  shows "\<exists>s'. cs_complete sha ser deser s = Inr (s', []) \<and> cs_goes_on sha n durable Active_recovered s s'"
proof -
  let ?ram = "take n (concat (cb_flash (cs_blob s First)))"
  have w: "w = First" "cs_activeBlob s = First" "t = Recovering" "\<not> cs_writingBlob s" "cs_recoverable sha n s = durable"
    using ph by (simp_all add: pend)
  have i: "cs_inactiveBlob s = Second" using cs_fits_blob(2) [OF f] w by (cases "cs_inactiveBlob s") simp_all
  show ?thesis
  proof (cases rule: cs_recover_read [OF f pend [unfolded w(1,3)], where sha = sha and ser = ser and deser = deser])
    case (1 b bs)
    let ?s = "cs_set_blob First b (s\<lparr>cs_ram := ?ram, cs_pending := None\<rparr>)"
    have "cs_fits n ?s" using cs_fits_blob [OF f] 1(2) by (intro cs_fits_set [OF f]) simp_all
    moreover have "cs_loaded sha n durable True ?s"
      using w 1 by (auto simp: cs_loaded_def cs_held_def cs_recoverable_def cs_written_def)
    moreover have "cs_same s ?s" using w by (simp add: cs_same_def)
    ultimately obtain s' where "cs_check_inactive deser True ?s = (s', [])" "cs_goes_on sha n durable Active_recovered s s'"
      using cs_goes_on_check [of n ?s sha durable True s Active_recovered deser] w(4) pend by auto
    then show ?thesis using 1(1) by (simp add: cs_active_recovered_def)
  next
    case 2
    let ?s = "cs_set_blob First (cs_blob s First) (s\<lparr>cs_ram := ?ram, cs_pending := None\<rparr>)"
    let ?t = "fst (cs_active_recovered deser False ?s)"
    have "cs_complete sha ser deser s = Inr (?t, [])" using 2(1) by (simp add: cs_active_recovered_def Let_def cb_recover_def)
    moreover have "cs_goes_on sha n durable Active_recovered s ?t"
      using w i 2(2) f pend cs_fits_blob(4) [OF f, of First]
      by (auto simp: cs_goes_on_def cs_active_recovered_def Let_def cb_recover_def cs_swap_def cs_same_def cs_fits_def cs_held_def cs_recoverable_def)
    ultimately show ?thesis by blast
  qed
qed

lemma cs_complete_other_recovered:
  assumes f: "cs_fits n s" and pend: "cs_pending s = Some (w, t, Other_recovered)" and ph: "cs_phase sha n durable (cs_pending s) s"
  shows "\<exists>s'. cs_complete sha ser deser s = Inr (s', []) \<and> cs_goes_on sha n durable Other_recovered s s'"
proof -
  let ?ram = "take n (concat (cb_flash (cs_blob s Second)))"
  have w: "w = Second" "cs_activeBlob s = Second" "t = Recovering" "\<not> cs_writingBlob s" "cs_held sha n s (cs_inactiveBlob s) = None"
      "cs_held sha n s Second = durable"
    using ph by (auto simp: pend)
  have i: "cs_inactiveBlob s = First" using cs_fits_blob(2) [OF f] w by (cases "cs_inactiveBlob s") simp_all
  have check: ?thesis if "cs_fits n s1" "cs_loaded sha n durable ok s1" "cs_same s s1"
      "cs_complete sha ser deser s = cs_call sha ser deser Other_recovered (Recovered ok) s1" for s1 ok
    using cs_goes_on_check [OF that(1-3) w(4), of Other_recovered deser] that(4) pend by auto
  show ?thesis
  proof (cases rule: cs_recover_read [OF f pend [unfolded w(1,3)], where sha = sha and ser = ser and deser = deser])
    case (1 b bs)
    let ?s = "cs_set_blob Second b (s\<lparr>cs_ram := ?ram, cs_pending := None\<rparr>)"
    have "cs_fits n ?s" using cs_fits_blob [OF f] 1(2) by (intro cs_fits_set [OF f]) simp_all
    moreover have "cs_loaded sha n durable True ?s"
      using w i 1 by (auto simp: cs_loaded_def cs_held_def cs_written_def)
    moreover have "cs_same s ?s" using w by (simp add: cs_same_def)
    ultimately show ?thesis using 1(1) by (rule check)
  next
    case 2
    let ?s = "cs_set_blob Second (cs_blob s Second) (s\<lparr>cs_ram := ?ram, cs_pending := None\<rparr>)"
    have "cs_fits n ?s" using cs_fits_blob [OF f] by (intro cs_fits_set [OF f]) simp_all
    moreover have "cs_loaded sha n durable False ?s"
      using w i 2 by (auto simp: cs_loaded_def cs_held_def cs_written_def)
    moreover have "cs_same s ?s" using w by (simp add: cs_same_def)
    ultimately show ?thesis using 2(1) by (rule check)
  qed
qed

lemma cs_recovers_loaded:
  assumes p: "cs_params sha ser n" and f: "cs_fits n s1" and l: "cs_loaded sha n durable success s1"
    and clean: "cs_clean n s1 (cs_inactiveBlob s1)" "cs_pending s1 = None"
    and same: "cs_same s s1"
  shows "\<exists>s'. cs_on_blob_loaded deser success s1 = (s', [On_recovered (durable \<noteq> None)]) \<and> cs_recovers sha deser n durable s s'"
proof -
  obtain s' where s': "cs_on_blob_loaded deser success s1 = (s', [On_recovered success])" "cs_fits n s'"
      "cs_pending s' = None" "cs_phase sha n durable None s'" "success \<Longrightarrow> cs_configuration s' = deser (the durable)"
      "\<not> success \<Longrightarrow> cs_configuration s' = cs_configuration s1" "cs_lockCount s' = cs_lockCount s1" "cs_writeRequested s' = cs_writeRequested s1"
    by (rule cs_on_blob_loaded_spec [OF p f l clean, where deser = deser]) blast
  have "success = (durable \<noteq> None)" using l by (simp add: cs_loaded_def)
  moreover from this have "cs_recovers sha deser n durable s s'"
    using s'(2-) same by (cases durable) (auto simp: cs_recovers_def cs_same_def)
  ultimately show ?thesis using s'(1) by blast
qed

lemma cs_loaded_same:
  assumes "cs_loaded sha n durable success s" and "\<And>w. cb_flash (cs_blob s' w) = cb_flash (cs_blob s w)"
    and "cs_same s s'" and "cs_written s' = cs_written s" and "cs_activeBlob s' = cs_activeBlob s" and "cs_inactiveBlob s' = cs_inactiveBlob s"
  shows "cs_loaded sha n durable success s'"
  using assms(1) unfolding cs_loaded_def cs_held_def assms(2,4-6) using assms(3) by (auto simp: cs_same_def)

lemma cs_complete_inactive_checked:
  assumes p: "cs_params sha ser n" and f: "cs_fits n s" and pend: "cs_pending s = Some (w, t, Inactive_checked success)"
    and ph: "cs_phase sha n durable (cs_pending s) s"
  shows "\<exists>s' outs. cs_complete sha ser deser s = Inr (s', outs) \<and>
    (outs = [] \<and> cs_goes_on sha n durable (Inactive_checked success) s s' \<or>
     outs = [On_recovered (durable \<noteq> None)] \<and> cs_recovers sha deser n durable s s')"
proof -
  let ?i = "cb_currentVerificationIndex (cs_blob s w)" and ?k = "cb_piece_size (cs_blob s w) (cs_ram s) (cs_vsize s)"
  have w: "w = cs_inactiveBlob s" "t = Checking" and l: "cs_loaded sha n durable success s" and index: "?i < n"
    and clean: "cb_clean ?i (cb_flash (cs_blob s w))"
    using ph by (auto simp: pend)
  have ne: "cs_activeBlob s \<noteq> w" using cs_fits_blob(2) [OF f] w by simp
  have ram: "length (cs_ram s) = n" "0 < cs_vsize s" using f by (simp_all add: cs_fits_def)
  then have k: "0 < ?k" using index by (simp add: cb_piece_size_def)
  note step = cs_complete_some [OF pend [unfolded w(2)]]
  have written: "cs_written (cs_set_blob w b (s\<lparr>cs_pending := q\<rparr>)) = cs_written s" for b q
    using ne by (simp add: cs_written_def)
  have same: "cs_same s (cs_set_blob w b (s\<lparr>cs_pending := q\<rparr>))" for b q
    using written by (simp add: cs_same_def)
  have loaded: "cs_loaded sha n durable success (cs_set_blob w b (s\<lparr>cs_pending := q\<rparr>))" if "cb_flash b = cb_flash (cs_blob s w)" for b q
    using that by (intro cs_loaded_same [OF l _ same written]) simp_all
  have fits: "cs_fits n (cs_set_blob w b (s\<lparr>cs_pending := q\<rparr>))" if "cb_flash b = cb_flash (cs_blob s w)" for b q
    using f that by (simp add: cs_fits_def)
  show ?thesis
  proof (cases rule: cb_complete_checking [OF cs_fits_blob(1) [OF f] ram(1) _ clean, of sha "cs_vsize s", consumes 0, case_names le more erased written])
    case le
    then show ?case using index by simp
  next
    case more
    let ?b = "(cs_blob s w)\<lparr>cb_currentVerificationIndex := ?i + ?k\<rparr>"
    let ?s = "cs_set_blob w ?b (s\<lparr>cs_pending := Some (w, Checking, Inactive_checked success)\<rparr>)"
    have "cs_complete sha ser deser s = Inr (?s, [])" using step [OF more(1)] by simp
    moreover have "cs_goes_on sha n durable (Inactive_checked success) s ?s"
      using fits [of ?b] same [of ?b] loaded [of ?b] more(2,3) k w pend by (simp add: cs_goes_on_def)
    ultimately show ?thesis by blast
  next
    case erased
    let ?b = "(cs_blob s w)\<lparr>cb_currentVerificationIndex := n\<rparr>"
    let ?s = "cs_set_blob w ?b (s\<lparr>cs_pending := None\<rparr>)"
    have "cs_complete sha ser deser s = Inr (cs_on_blob_loaded deser success ?s)"
      using step [OF erased(1)] by (simp add: cs_inactive_checked_def)
    moreover obtain s' where "cs_on_blob_loaded deser success ?s = (s', [On_recovered (durable \<noteq> None)])" "cs_recovers sha deser n durable s s'"
      using cs_recovers_loaded [OF p fits [of ?b None] loaded [of ?b None] _ _ same [of ?b None], of deser] erased(2) w by (auto simp: cs_clean_def)
    ultimately show ?thesis by simp
  next
    case written
    let ?s = "cs_set_blob w (cs_blob s w) (cs_set_blob w (cs_blob s w) (s\<lparr>cs_pending := Some (w, Erasing, Inactive_erased success)\<rparr>))"
    let ?t = "cs_set_blob w (cs_blob s w) (s\<lparr>cs_pending := Some (w, Erasing, Inactive_erased success)\<rparr>)"
    have "cs_complete sha ser deser s = Inr (?t, [])"
      using step [OF written(1)] w by (cases w) (simp_all add: cs_inactive_checked_def cb_erase_def cs_set_blob.simps)
    moreover have "cs_goes_on sha n durable (Inactive_checked success) s ?t"
      using fits [of "cs_blob s w"] same [of "cs_blob s w"] loaded [of "cs_blob s w"] w pend by (simp add: cs_goes_on_def)
    ultimately show ?thesis by blast
  qed
qed

lemma cs_complete_inactive_erased:
  assumes p: "cs_params sha ser n" and f: "cs_fits n s" and pend: "cs_pending s = Some (w, t, Inactive_erased success)"
    and ph: "cs_phase sha n durable (cs_pending s) s"
  shows "\<exists>s'. cs_complete sha ser deser s = Inr (s', [On_recovered (durable \<noteq> None)]) \<and> cs_recovers sha deser n durable s s'"
proof -
  let ?b = "(cs_blob s w)\<lparr>cb_flash := fl_erased (cb_flash (cs_blob s w))\<rparr>"
  let ?s = "cs_set_blob w ?b (s\<lparr>cs_pending := None\<rparr>)"
  have w: "w = cs_inactiveBlob s" "t = Erasing" and l: "cs_loaded sha n durable success s"
    using ph by (auto simp: pend)
  have ne: "cs_activeBlob s \<noteq> w" using cs_fits_blob(2) [OF f] w by simp
  have clean: "cs_clean n ?s w" using cs_fits_blob(1) [OF f] by (simp add: cs_clean_def)
  have fits: "cs_fits n ?s" using f by (simp add: cs_fits_def)
  have loaded: "cs_loaded sha n durable success ?s"
    using l ne w cs_clean_not_held [OF p clean] by (auto simp: cs_loaded_def cs_held_def cs_written_def)
  have same: "cs_same s ?s" using ne by (simp add: cs_same_def cs_written_def)
  have "cs_complete sha ser deser s = Inr (cs_on_blob_loaded deser success ?s)"
    using cs_complete_some [OF pend [unfolded w(2)] cb_complete_erasing] by simp
  with cs_recovers_loaded [OF p fits loaded _ _ same, of deser] clean w show ?thesis by auto
qed

lemma cs_complete_serialized:
  assumes p: "cs_params sha ser n" and f: "cs_fits n s" and pend: "cs_pending s = Some (w, t, Serialized thisId)"
    and ph: "cs_phase sha n durable (cs_pending s) s"
  shows "\<exists>s'. cs_complete sha ser deser s = Inr (s', []) \<and> cs_goes_on sha n durable (Serialized thisId) s s'"
proof -
  have w: "w = cs_activeBlob s" and writing: "cs_writingBlob s" and held: "cs_held sha n s (cs_inactiveBlob s) = durable"
    and ram: "cb_blob_in sha (cs_ram s) = Some (cs_written s)"
    and cases: "t = Writing \<and> cs_clean n s w \<or>
      t = Verifying \<and> take n (concat (cb_flash (cs_blob s w))) = cs_ram s \<and> cb_currentVerificationIndex (cs_blob s w) < n"
    using ph by (auto simp: pend)
  have ne: "cs_inactiveBlob s \<noteq> w" using cs_fits_blob(2) [OF f] w by simp
  have len: "length (cs_ram s) = n" "0 < cs_vsize s" using f by (simp_all add: cs_fits_def)
  have written: "cs_written (cs_set_blob w b (s\<lparr>cs_pending := q\<rparr>)) = cs_written s" if "cb_currentSize b = cb_currentSize (cs_blob s w)" for b q
    using that w by (simp add: cs_written_def cb_current_blob_def)
  show ?thesis using cases
  proof (elim disjE conjE)
    assume t: "t = Writing" and clean: "cs_clean n s w"
    obtain fl where fl: "cb_complete sha (cs_vsize s) Writing (cs_blob s w) (cs_ram s) =
        Inr ((cs_blob s w)\<lparr>cb_flash := fl, cb_currentVerificationIndex := 0\<rparr>, cs_ram s, Waiting Verifying)"
        "map length fl = map length (cb_flash (cs_blob s w))" "take n (concat fl) = cs_ram s"
      by (rule cb_complete_writing [OF cs_fits_blob(1) [OF f] len(1)]) (use clean in \<open>auto simp: cs_clean_def\<close>)
    let ?b = "(cs_blob s w)\<lparr>cb_flash := fl, cb_currentVerificationIndex := 0\<rparr>"
    let ?s = "cs_set_blob w ?b (s\<lparr>cs_pending := Some (w, Verifying, Serialized thisId)\<rparr>)"
    have wr: "cs_written ?s = cs_written s" by (rule written) simp
    have "cs_complete sha ser deser s = Inr (?s, [])" using cs_complete_some [OF pend [unfolded t] fl(1)] by simp
    moreover have "cs_fits n ?s" using f cb_fits_lengths [OF fl(2)] by (simp add: cs_fits_def)
    moreover have "0 < n" using cs_fits_blob(1) [OF f, of First] by (simp add: cb_fits_def)
    ultimately show ?thesis using wr pend t w writing held ram fl(3) ne
      by (simp add: cs_goes_on_def cs_same_def cs_held_def)
  next
    let ?i = "cb_currentVerificationIndex (cs_blob s w)" and ?k = "cb_piece_size (cs_blob s w) (cs_ram s) (cs_vsize s)"
    let ?b = "(cs_blob s w)\<lparr>cb_currentVerificationIndex := ?i + ?k\<rparr>"
    assume t: "t = Verifying" and flash: "take n (concat (cb_flash (cs_blob s w))) = cs_ram s" and i: "?i < n"
    have k: "0 < ?k" "?i + ?k \<le> n" using i len by (auto simp: cb_piece_size_def)
    from cb_complete_verifying [OF cs_fits_blob(1) [OF f] flash, of sha "cs_vsize s"] i
    have c: "cb_complete sha (cs_vsize s) Verifying (cs_blob s w) (cs_ram s) =
        Inr (?b, cs_ram s, if ?i + ?k \<noteq> n then Waiting Verifying else Done)" by (simp add: Let_def)
    show ?thesis
    proof (cases "?i + ?k = n")
      case False
      let ?s = "cs_set_blob w ?b (s\<lparr>cs_pending := Some (w, Verifying, Serialized thisId)\<rparr>)"
      have wr: "cs_written ?s = cs_written s" by (rule written) simp
      have "cs_complete sha ser deser s = Inr (?s, [])" using cs_complete_some [OF pend [unfolded t] c] False by simp
      moreover have "cs_fits n ?s" using f by (simp add: cs_fits_def)
      ultimately show ?thesis using wr pend t w writing held ram flash ne k False
        by (simp add: cs_goes_on_def cs_same_def cs_held_def)
    next
      case True
      let ?v = "cs_inactiveBlob s"
      let ?s = "cs_set_blob ?v (cs_blob s ?v) (cs_set_blob w ?b (s\<lparr>cs_pending := Some (?v, Erasing, Old_erased thisId)\<rparr>))"
      have "cs_written (cs_set_blob w ?b (s\<lparr>cs_pending := Some (?v, Erasing, Old_erased thisId)\<rparr>)) = cs_written s" by (rule written) simp
      then have wr: "cs_written ?s = cs_written s" using ne w by (simp add: cs_written_def)
      have "(cs_set_blob w ?b (s\<lparr>cs_pending := None\<rparr>))\<lparr>cs_pending := q\<rparr> = cs_set_blob w ?b (s\<lparr>cs_pending := q\<rparr>)" for q
        by (cases w) (simp_all add: cs_set_blob.simps)
      then have "cs_complete sha ser deser s = Inr (?s, [])"
        using cs_complete_some [OF pend [unfolded t] c, of ser deser] True ne by (simp add: cb_erase_def)
      moreover have "cs_fits n ?s" using f by (simp add: cs_fits_def)
      moreover have "cs_held sha n s w = Some (cs_written s)" using flash ram by (simp add: cs_held_def cb_content_def)
      ultimately show ?thesis using wr pend t w writing held ne i
        by (simp add: cs_goes_on_def cs_same_def cs_held_def)
    qed
  qed
qed

lemma cs_complete_old_erased:
  assumes p: "cs_params sha ser n" and f: "cs_fits n s" and pend: "cs_pending s = Some (w, t, Old_erased thisId)"
    and ph: "cs_phase sha n durable (cs_pending s) s"
  shows "\<exists>s'. cs_complete sha ser deser s = Inr (s', [Operation_done thisId]) \<and> cs_fits n s' \<and>
    cs_phase sha n (Some (cs_written s)) (cs_pending s') s' \<and> cs_configuration s' = cs_configuration s \<and> cs_lockCount s' = cs_lockCount s \<and>
    (if cs_writeRequested s \<and> cs_lockCount s = 0
     then cs_written s' = ser (cs_configuration s) \<and> (\<exists>v. cs_pending s' = Some (v, Writing, Serialized (cs_operationId s))) \<and> \<not> cs_writeRequested s'
     else cs_pending s' = None \<and> cs_writeRequested s' = cs_writeRequested s)"
proof -
  let ?b = "(cs_blob s w)\<lparr>cb_flash := fl_erased (cb_flash (cs_blob s w))\<rparr>"
  let ?s = "cs_set_blob w ?b (s\<lparr>cs_pending := None\<rparr>)"
  let ?t = "(cs_swap ?s)\<lparr>cs_writingBlob := False\<rparr>"
  have w: "w = cs_inactiveBlob s" "t = Erasing" and held: "cs_held sha n s (cs_activeBlob s) = Some (cs_written s)"
    using ph by (auto simp: pend)
  have ne: "cs_activeBlob s \<noteq> w" using cs_fits_blob(2) [OF f] w by simp
  have fits: "cs_fits n ?t" using f by (auto simp: cs_fits_def cs_swap_def)
  have clean: "cs_clean n ?t (cs_activeBlob ?t)" "cs_held sha n ?t (cs_inactiveBlob ?t) = Some (cs_written s)"
    using cs_fits_blob(1) [OF f, of w] held ne w by (simp_all add: cs_clean_def cs_held_def cs_swap_def)
  have t: "\<not> cs_writingBlob ?t" "cs_lockCount ?t = cs_lockCount s" "cs_writeRequested ?t = cs_writeRequested s" "cs_pending ?t = None"
      "cs_configuration ?t = cs_configuration s" "cs_operationId ?t = cs_operationId s"
    by (simp_all add: cs_swap_def)
  have c: "cs_complete sha ser deser s = rbind (cs_blob_write_done sha ser ?s) (\<lambda>s1. Inr (s1, [Operation_done thisId]))"
    using cs_complete_some [OF pend [unfolded w(2)] cb_complete_erasing] by simp
  show ?thesis
  proof (cases "cs_writeRequested s \<and> cs_lockCount s = 0")
    case True
    with t have "cs_lockCount ?t = 0" by simp
    then obtain s' where s': "cs_write sha ser ?t = Inr (s', cs_operationId ?t)" "cs_fits n s'"
        "cs_pending s' = Some (cs_activeBlob ?t, Writing, Serialized (cs_operationId ?t))"
        "cs_phase sha n (Some (cs_written s)) (cs_pending s') s'" "cs_written s' = ser (cs_configuration ?t)"
        "cs_configuration s' = cs_configuration ?t" "cs_lockCount s' = 0" "\<not> cs_writeRequested s'"
      using cs_write_starts [OF p fits t(1) _ clean] by metis
    have "cs_complete sha ser deser s = Inr (s', [Operation_done thisId])"
      using c s'(1) True t by (simp add: cs_blob_write_done_def Let_def)
    then show ?thesis using s'(2-) True t by metis
  next
    case False
    let ?u = "if cs_writeRequested s then ?t\<lparr>cs_writeRequested := True\<rparr> else ?t"
    have "cs_complete sha ser deser s = Inr (?u, [Operation_done thisId])"
      using c False t by (auto simp: cs_blob_write_done_def cs_write_def cs_is_locked_def Let_def)
    moreover have "cs_phase sha n (Some (cs_written s)) None ?u" using clean t by (auto simp: cs_clean_def cs_held_def)
    moreover have "cs_fits n ?u" using fits by (auto simp: cs_fits_def)
    ultimately show ?thesis using False t by auto
  qed
qed

lemma cs_complete_gone:
  assumes p: "cs_params sha ser n" and f: "cs_fits n s" and pend: "cs_pending s = Some (w, t, cb)" and cb: "cs_erasing cb"
    and ph: "cs_phase sha n durable (cs_pending s) s"
  shows "\<exists>s' outs. cs_complete sha ser deser s = Inr (s', outs) \<and>
    (outs = [] \<and> cs_goes_on sha n durable cb s s' \<or>
     (\<exists>thisId. outs = [Operation_done thisId] \<and> cs_id cb = Some thisId) \<and> cs_fits n s' \<and> cs_pending s' = None \<and> cs_phase sha n None None s' \<and>
     cs_settled cb (cs_written s) = None \<and> cs_same s s')"
proof -
  let ?b = "(cs_blob s w)\<lparr>cb_flash := fl_erased (cb_flash (cs_blob s w))\<rparr>"
  let ?s = "cs_set_blob w ?b (s\<lparr>cs_pending := None\<rparr>)"
  have fits: "cs_fits n ?s" using f by (simp add: cs_fits_def)
  have clean: "cb_clean n (fl_erased (cb_flash (cs_blob s w)))" using cs_fits_blob(1) [OF f] by simp
  have t: "t = Erasing" using ph cb by (cases cb) (auto simp: pend)
  have c: "cs_complete sha ser deser s = cs_call sha ser deser cb Done ?s"
    using cs_complete_some [OF pend [unfolded t] cb_complete_erasing] by simp
  show ?thesis
  proof (cases cb)
    case (Inactive_gone thisId)
    let ?v = "cs_activeBlob s"
    let ?t = "cs_set_blob ?v (cs_blob s ?v) (cs_set_blob w ?b (s\<lparr>cs_pending := Some (?v, Erasing, Both_gone thisId)\<rparr>))"
    have w: "w = cs_inactiveBlob s" "\<not> cs_writingBlob s" "cs_clean n s ?v" using ph by (auto simp: pend Inactive_gone)
    have ne: "?v \<noteq> w" using cs_fits_blob(2) [OF f] w by simp
    have "?s\<lparr>cs_pending := q\<rparr> = cs_set_blob w ?b (s\<lparr>cs_pending := q\<rparr>)" for q by (cases w) (simp_all add: cs_set_blob.simps)
    then have "cs_complete sha ser deser s = Inr (?t, [])" using c ne by (simp add: Inactive_gone cb_erase_def)
    moreover have "cs_goes_on sha n durable cb s ?t"
      using f w ne clean pend by (auto simp: cs_goes_on_def cs_fits_def Inactive_gone cs_same_def cs_clean_def)
    ultimately show ?thesis by blast
  next
    case (Both_gone thisId)
    have w: "w = cs_activeBlob s" "\<not> cs_writingBlob s" "cs_clean n s (cs_inactiveBlob s)" using ph by (auto simp: pend Both_gone)
    have ne: "cs_inactiveBlob s \<noteq> w" using cs_fits_blob(2) [OF f] w by simp
    have "cs_clean n ?s (cs_inactiveBlob s)" using w ne by (simp add: cs_clean_def)
    from cs_clean_not_held [OF p this] have "cs_phase sha n None None ?s" using w clean by (simp add: cs_clean_def)
    then show ?thesis using c fits w by (simp add: Both_gone cs_same_def)
  qed (use cb in simp_all)
qed

end
