(* ===== verification/Configuration_Durability.thy ===== *)
theory Configuration_Durability
  imports Configuration_Phases
begin

text \<open>
  What survives when the power fails. The state of the system is the store and the bytes of the configuration
  that is durable: the last one whose \<open>Write\<close> was reported as done, or that was recovered. The power can fail at any moment: the
  memory and the store are lost, and a flash that was being written or erased is left with any content, as long as the hash
  detects it: it holds no valid blob, or the one that was being written, or the one that was being erased.
\<close>

section \<open>The system\<close>

text \<open>The client may configure, lock and write once the store has recovered, but not while it erases (the code
  has no check for that); it erases only when nothing is under way.\<close>

definition cs_ready :: "'c config_store \<Rightarrow> bool" where
  "cs_ready s \<longleftrightarrow> (case cs_pending s of None \<Rightarrow> True | Some (w, t, cb) \<Rightarrow> \<not> cs_recovering cb \<and> \<not> cs_erasing cb)"

fun cb_torn :: "hash \<Rightarrow> nat \<Rightarrow> byte list \<Rightarrow> cb_task \<Rightarrow> flash \<Rightarrow> flash \<Rightarrow> bool" where
  "cb_torn sha n ram Writing fl fl' \<longleftrightarrow> map length fl' = map length fl \<and> (cb_content sha n fl' = None \<or> cb_content sha n fl' = cb_blob_in sha ram)"
| "cb_torn sha n ram Erasing fl fl' \<longleftrightarrow> map length fl' = map length fl \<and> (cb_content sha n fl' = None \<or> cb_content sha n fl' = cb_content sha n fl)"
| "cb_torn sha n ram _ fl fl' \<longleftrightarrow> fl' = fl"

definition cs_torn :: "hash \<Rightarrow> nat \<Rightarrow> 'c config_store \<Rightarrow> which_blob \<Rightarrow> flash \<Rightarrow> bool" where
  "cs_torn sha n s w fl \<longleftrightarrow> (case cs_pending s of
     Some (v, t, _) \<Rightarrow> if v = w then cb_torn sha n (cs_ram s) t (cb_flash (cs_blob s w)) fl else fl = cb_flash (cs_blob s w)
   | None \<Rightarrow> fl = cb_flash (cs_blob s w))"

inductive cs_step :: "hash \<Rightarrow> ('c \<Rightarrow> byte list) \<Rightarrow> (byte list \<Rightarrow> 'c) \<Rightarrow> nat \<Rightarrow>
    'c config_store \<times> byte list option \<Rightarrow> 'c config_store \<times> byte list option \<Rightarrow> bool" for sha ser deser n where
  complete: "cs_pending s = Some (w, t, cb) \<Longrightarrow> cs_complete sha ser deser s = Inr (s', outs) \<Longrightarrow>
    cs_step sha ser deser n (s, durable) (s', if \<exists>i. Operation_done i \<in> set outs then cs_settled cb (cs_written s) else durable)"
| configure: "cs_ready s \<Longrightarrow> cs_step sha ser deser n (s, durable) (s\<lparr>cs_configuration := c\<rparr>, durable)"
| write_: "cs_ready s \<Longrightarrow> cs_write sha ser s = Inr (s', thisId) \<Longrightarrow> cs_step sha ser deser n (s, durable) (s', durable)"
| lock: "cs_step sha ser deser n (s, durable) (cs_lock s, durable)"
| unlock: "cs_ready s \<Longrightarrow> cs_lockCount s \<noteq> 0 \<Longrightarrow> cs_unlock sha ser s = Inr s' \<Longrightarrow> cs_step sha ser deser n (s, durable) (s', durable)"
| erase: "cs_pending s = None \<Longrightarrow> cs_erase s = (s', thisId) \<Longrightarrow> cs_step sha ser deser n (s, durable) (s', durable)"
| power_fails: "cs_torn sha n s First fl1 \<Longrightarrow> cs_torn sha n s Second fl2 \<Longrightarrow> length ram = n \<Longrightarrow>
    cs_new fl1 fl2 ram (cs_vsize s) c = Inr s' \<Longrightarrow> cs_step sha ser deser n (s, durable) (s', cs_recoverable sha n s')"

inductive cs_reachable :: "hash \<Rightarrow> ('c \<Rightarrow> byte list) \<Rightarrow> (byte list \<Rightarrow> 'c) \<Rightarrow> nat \<Rightarrow> 'c config_store \<times> byte list option \<Rightarrow> bool"
  for sha ser deser n where
  start: "cb_fits n fl1 \<Longrightarrow> cb_fits n fl2 \<Longrightarrow> length ram = n \<Longrightarrow> 0 < vsize \<Longrightarrow> cs_new fl1 fl2 ram vsize c = Inr s \<Longrightarrow>
    cs_reachable sha ser deser n (s, cs_recoverable sha n s)"
| step: "cs_reachable sha ser deser n y \<Longrightarrow> cs_step sha ser deser n y z \<Longrightarrow> cs_reachable sha ser deser n z"

lemma cs_phase_updates:
  "cs_phase sha n durable p (s\<lparr>cs_configuration := c\<rparr>) = cs_phase sha n durable p s"
  "cs_phase sha n durable p (s\<lparr>cs_writeRequested := x\<rparr>) = cs_phase sha n durable p s"
  "cs_phase sha n durable p (s\<lparr>cs_lockCount := k\<rparr>) = cs_phase sha n durable p s"
  by (cases rule: cs_phase.cases [of "(sha, n, durable, p, s)"];
      simp add: cs_held_def cs_clean_def cs_loaded_def cs_written_def cs_recoverable_def)+

lemma cs_fits_updates:
  "cs_fits n (s\<lparr>cs_configuration := c\<rparr>) = cs_fits n s" "cs_fits n (s\<lparr>cs_writeRequested := x\<rparr>) = cs_fits n s"
  "cs_fits n (s\<lparr>cs_lockCount := k\<rparr>) = cs_fits n s" "cs_fits n (s\<lparr>cs_operationId := i\<rparr>) = cs_fits n s"
  by (simp_all add: cs_fits_def)

lemma cs_new_spec:
  assumes "cb_fits n fl1" and "cb_fits n fl2" and "length ram = n" and "0 < vsize"
  obtains s where "cs_new fl1 fl2 ram vsize c = Inr s" and "cs_fits n s" and "cs_pending s = Some (First, Recovering, Active_recovered)"
    and "cs_phase sha n (cs_recoverable sha n s) (cs_pending s) s" and "\<And>w. cb_flash (cs_blob s w) = (case w of First \<Rightarrow> fl1 | Second \<Rightarrow> fl2)"
    and "cs_configuration s = c"
proof -
  have "cb_new ram fl = Inr \<lparr>cb_flash = fl, cb_currentSize = 0, cb_currentVerificationIndex = 0\<rparr>" if "cb_fits n fl" for fl
    using that assms(3) fl_total_size_concat [of fl] by (simp add: cb_new_def cb_fits_def fl_ok_def)
  then have new: "cs_new fl1 fl2 ram vsize c = Inr (cs_recover \<lparr>cs_activeBlob = First, cs_inactiveBlob = Second,
      cs_blob1 = \<lparr>cb_flash = fl1, cb_currentSize = 0, cb_currentVerificationIndex = 0\<rparr>,
      cs_blob2 = \<lparr>cb_flash = fl2, cb_currentSize = 0, cb_currentVerificationIndex = 0\<rparr>, cs_ram = ram, cs_vsize = vsize,
      cs_operationId = 0, cs_writingBlob = False, cs_writeRequested = False, cs_lockCount = 0, cs_configuration = c, cs_pending = None\<rparr>)"
    (is "_ = Inr ?s") using assms(1,2) by (simp add: cs_new_def cs_construct_def)
  have "cb_flash (cs_blob ?s w) = (case w of First \<Rightarrow> fl1 | Second \<Rightarrow> fl2)" for w
    by (cases w) (simp_all add: cs_recover_def cb_recover_def cs_blob.simps cs_set_blob.simps)
  moreover from this have "cs_fits n ?s" using assms by (auto simp: cs_fits_def cs_recover_def cb_recover_def split: which_blob.splits)
  ultimately show thesis using that [OF new] by (simp add: cs_recover_def cb_recover_def)
qed

lemma cs_idle:
  assumes "cs_ready s" and "cs_phase sha n durable (cs_pending s) s" and "\<not> cs_writingBlob s"
  shows "cs_pending s = None"
proof (rule ccontr)
  assume "cs_pending s \<noteq> None"
  then obtain w t cb where p: "cs_pending s = Some (w, t, cb)" by auto
  then show False using assms by (cases cb) (auto simp: cs_ready_def)
qed

definition cs_inv :: "hash \<Rightarrow> nat \<Rightarrow> 'c config_store \<times> byte list option \<Rightarrow> bool" where
  "cs_inv sha n y \<longleftrightarrow> (case y of (s, durable) \<Rightarrow> cs_fits n s \<and> cs_phase sha n durable (cs_pending s) s)"

lemma cs_write_inv:
  assumes p: "cs_params sha ser n" and inv: "cs_inv sha n (s, durable)" and ready: "cs_ready s"
    and wr: "cs_write sha ser s = Inr (s', thisId)"
  shows "cs_inv sha n (s', durable)"
proof (cases "cs_writingBlob s \<or> cs_lockCount s \<noteq> 0")
  case True
  then have "s' = s\<lparr>cs_writeRequested := True\<rparr>" using wr by (auto simp: cs_write_def cs_is_locked_def Let_def)
  then show ?thesis using inv by (simp add: cs_inv_def cs_phase_updates cs_fits_updates)
next
  case False
  have ph: "cs_fits n s" "cs_phase sha n durable (cs_pending s) s" using inv by (simp_all add: cs_inv_def)
  from cs_idle [OF ready ph(2)] False have "cs_pending s = None" by simp
  then have "cs_clean n s (cs_activeBlob s)" "cs_held sha n s (cs_inactiveBlob s) = durable" using ph(2) by simp_all
  then obtain t where "cs_write sha ser s = Inr (t, cs_operationId s)" "cs_fits n t" "cs_phase sha n durable (cs_pending t) t"
    using cs_write_starts [OF p ph(1)] False by metis
  with wr show ?thesis by (simp add: cs_inv_def)
qed

lemma cs_unlock_inv:
  assumes p: "cs_params sha ser n" and inv: "cs_inv sha n (s, durable)" and ready: "cs_ready s" and unlock: "cs_unlock sha ser s = Inr s'"
  shows "cs_inv sha n (s', durable)"
proof -
  let ?s = "s\<lparr>cs_lockCount := cs_lockCount s - 1\<rparr>"
  have "cs_inv sha n (?s, durable)" "cs_ready ?s" using inv ready
    by (simp_all add: cs_inv_def cs_phase_updates cs_fits_updates cs_ready_def)
  moreover have "s' = ?s \<or> (\<exists>i. cs_write sha ser ?s = Inr (s', i))"
    using unlock by (auto simp: cs_unlock_def cs_unlocked_def Let_def rbind_Inr split: if_splits)
  ultimately show ?thesis using cs_write_inv [OF p] by auto
qed

lemma cs_erase_inv:
  assumes p: "cs_params sha ser n" and inv: "cs_inv sha n (s, durable)" and idle: "cs_pending s = None"
  shows "cs_inv sha n (fst (cs_erase s), durable)"
  using inv idle by (auto simp: cs_inv_def cs_erase_def cb_erase_def Let_def cs_fits_def cs_clean_def cs_held_def)

lemma cs_complete_inv:
  assumes p: "cs_params sha ser n" and inv: "cs_inv sha n (s, durable)" and pend: "cs_pending s = Some (w, t, cb)"
  shows "\<exists>s' outs. cs_complete sha ser deser s = Inr (s', outs) \<and>
    cs_inv sha n (s', if \<exists>i. Operation_done i \<in> set outs then cs_settled cb (cs_written s) else durable)"
proof -
  have f: "cs_fits n s" and ph: "cs_phase sha n durable (cs_pending s) s" using inv by (simp_all add: cs_inv_def)
  have on: "cs_inv sha n (s', durable)" if "cs_goes_on sha n durable cb s s'" for s' using that by (simp add: cs_goes_on_def cs_inv_def)
  have rec: "cs_inv sha n (s', durable)" if "cs_recovers sha deser n durable s s'" for s'
    using that unfolding cs_recovers_def cs_inv_def by simp
  show ?thesis
  proof (cases cb)
    case Active_recovered
    then show ?thesis using cs_complete_active_recovered [OF f _ ph, of w t ser deser] pend on by force
  next
    case Other_recovered
    then show ?thesis using cs_complete_other_recovered [OF f _ ph, of w t ser deser] pend on by force
  next
    case (Inactive_checked success)
    then show ?thesis using cs_complete_inactive_checked [OF p f _ ph, of w t success deser] pend on rec by force
  next
    case (Inactive_erased success)
    then show ?thesis using cs_complete_inactive_erased [OF p f _ ph, of w t success deser] pend rec by force
  next
    case (Serialized i)
    then show ?thesis using cs_complete_serialized [OF p f _ ph, of w t i deser] pend on by force
  next
    case (Old_erased i)
    then obtain s' where "cs_complete sha ser deser s = Inr (s', [Operation_done i])" "cs_fits n s'"
        "cs_phase sha n (Some (cs_written s)) (cs_pending s') s'"
      using cs_complete_old_erased [OF p f _ ph, of w t i deser] pend by blast
    then show ?thesis by (auto simp: Old_erased cs_inv_def)
  next
    case (Inactive_gone i)
    then have "cs_erasing cb" by simp
    from cs_complete_gone [OF p f pend this ph, of deser] show ?thesis using on by (force simp: cs_inv_def)
  next
    case (Both_gone i)
    then have "cs_erasing cb" by simp
    from cs_complete_gone [OF p f pend this ph, of deser] show ?thesis using on by (force simp: cs_inv_def)
  qed
qed

lemma cs_torn_fits:
  "cs_fits n s \<Longrightarrow> cs_torn sha n s w fl \<Longrightarrow> cb_fits n fl"
proof -
  assume f: "cs_fits n s" and t: "cs_torn sha n s w fl"
  have "map length fl = map length (cb_flash (cs_blob s w))"
    using t by (auto simp: cs_torn_def split: option.splits if_splits prod.splits elim: cb_torn.elims)
  from cb_fits_lengths [OF this] cs_fits_blob(1) [OF f] show ?thesis by simp
qed

text \<open>A flash that is not at work keeps what it holds; one that is holds nothing, or what it held, or what is being
  written.\<close>

lemma cs_torn_content:
  assumes "cs_torn sha n s w fl" and "cs_pending s = Some (v, t, cb)"
  shows "v \<noteq> w \<or> t \<notin> {Writing, Erasing} \<Longrightarrow> cb_content sha n fl = cs_held sha n s w"
    and "v = w \<Longrightarrow> t = Erasing \<Longrightarrow> cb_content sha n fl = None \<or> cb_content sha n fl = cs_held sha n s w"
    and "v = w \<Longrightarrow> t = Writing \<Longrightarrow> cb_content sha n fl = None \<or> cb_content sha n fl = cb_blob_in sha (cs_ram s)"
  using assms by (auto simp: cs_torn_def cs_held_def split: if_splits elim: cb_torn.elims)

fun cs_pick :: "which_blob \<Rightarrow> byte list option \<Rightarrow> byte list option \<Rightarrow> byte list option" where
  "cs_pick First active inactive = (if active \<noteq> None then active else inactive)"
| "cs_pick Second active inactive = (if inactive \<noteq> None then inactive else active)"

lemma cs_recoverable_pick:
  "cs_activeBlob s \<noteq> cs_inactiveBlob s \<Longrightarrow>
    (if h First \<noteq> None then h First else h Second) = cs_pick (cs_activeBlob s) (h (cs_activeBlob s)) (h (cs_inactiveBlob s))"
  by (cases "cs_activeBlob s"; cases "cs_inactiveBlob s") simp_all

lemma cs_pick_simps [simp]: "cs_pick w None x = x" "cs_pick w x None = x"
  by (cases w; simp)+

lemma cs_pick_cases: "cs_pick w x y = x \<or> cs_pick w x y = y"
  by (cases w) auto

lemma cs_torn_recoverable:
  assumes p: "cs_params sha ser n" and inv: "cs_inv sha n (s, durable)" and torn: "\<And>w. cs_torn sha n s w (fl w)"
  shows "let r = (if cb_content sha n (fl First) \<noteq> None then cb_content sha n (fl First) else cb_content sha n (fl Second))
    in r = durable \<or> cs_writingBlob s \<and> r = Some (cs_written s) \<or> r = None \<and> (\<exists>w t cb. cs_pending s = Some (w, t, cb) \<and> cs_erasing cb)"
proof -
  let ?a = "cs_activeBlob s" and ?i = "cs_inactiveBlob s"
  have f: "cs_fits n s" and ph: "cs_phase sha n durable (cs_pending s) s" using inv by (simp_all add: cs_inv_def)
  note ne = cs_fits_blob(2) [OF f]
  define h where "h w = cb_content sha n (fl w)" for w
  have r: "(if h First \<noteq> None then h First else h Second) = cs_pick ?a (h ?a) (h ?i)"
    by (rule cs_recoverable_pick [OF ne])
  have held: "cs_recoverable sha n s = cs_pick ?a (cs_held sha n s ?a) (cs_held sha n s ?i)"
    unfolding cs_recoverable_def by (rule cs_recoverable_pick [OF ne])
  have same: "h w = cs_held sha n s w" if "cs_pending s = None \<or> (\<exists>v t cb. cs_pending s = Some (v, t, cb) \<and> (v \<noteq> w \<or> t \<notin> {Writing, Erasing}))" for w
    using that torn [of w] cs_torn_content(1) [OF torn [of w]] by (auto simp: h_def cs_torn_def cs_held_def)
  have "cs_pick ?a (h ?a) (h ?i) = durable \<or> cs_writingBlob s \<and> cs_pick ?a (h ?a) (h ?i) = Some (cs_written s) \<or>
      cs_pick ?a (h ?a) (h ?i) = None \<and> (\<exists>w t cb. cs_pending s = Some (w, t, cb) \<and> cs_erasing cb)"
  proof (cases "cs_pending s")
    case None
    then show ?thesis using ph same cs_clean_not_held [OF p, of s ?a] by simp
  next
    case (Some q)
    then obtain w t cb where pend: "cs_pending s = Some (w, t, cb)" by (cases q) auto
    note torn_w = cs_torn_content(2,3) [OF torn [of w] pend, folded h_def]
    show ?thesis
    proof (cases cb)
      case Active_recovered
      then show ?thesis using ph pend same held by auto
    next
      case Other_recovered
      then show ?thesis using ph pend same by auto
    next
      case (Inactive_checked success)
      then have "h ?a = cs_held sha n s ?a" "h ?i = cs_held sha n s ?i" "cs_loaded sha n durable success s" using ph pend same by auto
      then show ?thesis by (auto simp: cs_loaded_def)
    next
      case (Inactive_erased success)
      then have "h ?a = cs_held sha n s ?a" "h ?i = None \<or> h ?i = cs_held sha n s ?i" "cs_loaded sha n durable success s"
        using ph pend same ne torn_w by auto
      then show ?thesis by (auto simp: cs_loaded_def)
    next
      case (Serialized i)
      have "cb_blob_in sha (cs_ram s) = Some (cs_written s)" using ph pend Serialized by auto
      moreover have "h ?i = durable" using ph pend Serialized same ne by auto
      moreover have "h ?a = None \<or> h ?a = Some (cs_written s)"
        using ph pend Serialized torn_w same by (auto simp: cs_held_def cb_content_def)
      ultimately show ?thesis using ph pend Serialized cs_pick_cases [of ?a "h ?a" "h ?i"] by auto
    next
      case (Old_erased i)
      have "h ?a = Some (cs_written s)" "h ?i = None \<or> h ?i = durable" "cs_writingBlob s"
        using ph pend Old_erased same ne torn_w by auto
      then show ?thesis using cs_pick_cases [of ?a "h ?a" "h ?i"] by auto
    next
      case (Inactive_gone i)
      have "h ?a = None" "h ?i = None \<or> h ?i = durable"
        using ph pend Inactive_gone same ne torn_w cs_clean_not_held [OF p, of s ?a] by auto
      then show ?thesis using pend Inactive_gone by auto
    next
      case (Both_gone i)
      have "h ?i = None" "h ?a = None"
        using ph pend Both_gone same ne torn_w cs_clean_not_held [OF p, of s ?a] cs_clean_not_held [OF p, of s ?i] by auto
      then show ?thesis using pend Both_gone by auto
    qed
  qed
  then show ?thesis unfolding Let_def h_def [symmetric] r .
qed

lemma cs_power_fails_spec:
  assumes f: "cs_fits n s" and torn: "cs_torn sha n s First fl1" "cs_torn sha n s Second fl2" and ram: "length ram = n"
    and new: "cs_new fl1 fl2 ram (cs_vsize s) c = Inr s'"
  shows "cs_inv sha n (s', cs_recoverable sha n s')" and "cs_pending s' = Some (First, Recovering, Active_recovered)"
    and "cs_recoverable sha n s' = (if cb_content sha n fl1 \<noteq> None then cb_content sha n fl1 else cb_content sha n fl2)"
    and "cs_configuration s' = c"
proof -
  have "0 < cs_vsize s" using f by (simp add: cs_fits_def)
  from cs_new_spec [OF cs_torn_fits [OF f torn(1)] cs_torn_fits [OF f torn(2)] ram this] obtain t where
      t: "cs_new fl1 fl2 ram (cs_vsize s) c = Inr t" "cs_fits n t" "cs_pending t = Some (First, Recovering, Active_recovered)"
        "cs_phase sha n (cs_recoverable sha n t) (cs_pending t) t"
        "\<And>w. cb_flash (cs_blob t w) = (case w of First \<Rightarrow> fl1 | Second \<Rightarrow> fl2)" "cs_configuration t = c"
    by metis
  have [simp]: "t = s'" using t(1) new by simp
  show "cs_inv sha n (s', cs_recoverable sha n s')" "cs_pending s' = Some (First, Recovering, Active_recovered)" "cs_configuration s' = c"
    using t(2-4,6) by (simp_all add: cs_inv_def)
  show "cs_recoverable sha n s' = (if cb_content sha n fl1 \<noteq> None then cb_content sha n fl1 else cb_content sha n fl2)"
    using t(5) [of First] t(5) [of Second] by (simp add: cs_recoverable_def cs_held_def)
qed

lemma cs_step_inv:
  assumes p: "cs_params sha ser n" and step: "cs_step sha ser deser n y z" and inv: "cs_inv sha n y"
  shows "cs_inv sha n z"
  using step inv
proof cases
  case (complete s w t cb s' outs durable)
  then show ?thesis using cs_complete_inv [OF p _ complete(3), of durable deser] inv by auto
next
  case (configure s durable c)
  then show ?thesis using inv by (simp add: cs_inv_def cs_phase_updates cs_fits_updates)
next
  case (write_ s s' thisId durable)
  then show ?thesis using cs_write_inv [OF p] inv by blast
next
  case (lock s durable)
  then show ?thesis using inv by (simp add: cs_inv_def cs_lock_def cs_phase_updates cs_fits_updates)
next
  case (unlock s s' durable)
  then show ?thesis using cs_unlock_inv [OF p] inv by blast
next
  case (erase s s' thisId durable)
  then show ?thesis using cs_erase_inv [OF p, of s durable] inv by simp
next
  case (power_fails s fl1 fl2 ram c s' durable)
  have "cs_fits n s" using inv power_fails(1) by (simp add: cs_inv_def)
  from cs_power_fails_spec(1) [OF this power_fails(3-6)] show ?thesis using power_fails(2) by simp
qed

lemma cs_reachable_inv: "cs_reachable sha ser deser n y \<Longrightarrow> cs_params sha ser n \<Longrightarrow> cs_inv sha n y"
proof (induction rule: cs_reachable.induct)
  case (start fl1 fl2 ram vsize c s)
  from cs_new_spec [OF start(1-4)] show ?case using start(5) by (metis (mono_tags) cs_inv_def case_prod_conv sum.inject(2))
next
  case (step y z)
  then show ?case using cs_step_inv by blast
qed

section \<open>Until an operation is reported\<close>

fun cs_run :: "hash \<Rightarrow> ('c \<Rightarrow> byte list) \<Rightarrow> (byte list \<Rightarrow> 'c) \<Rightarrow> nat \<Rightarrow> 'c config_store \<Rightarrow> ('c config_store \<times> cs_output list) result" where
  "cs_run sha ser deser 0 s = Inr (s, [])"
| "cs_run sha ser deser (Suc k) s = rbind (cs_complete sha ser deser s) (\<lambda>(s', outs).
     if outs = [] then cs_run sha ser deser k s' else Inr (s', outs))"

lemma cs_left_le: "cs_phase sha n durable p s \<Longrightarrow> cs_left n s p \<le> n + 4"
  by (cases rule: cs_phase.cases [of "(sha, n, durable, p, s)"]) auto

lemma cs_left_pos: "cs_pending s = Some q \<Longrightarrow> 0 < cs_left n s (cs_pending s)"
  by (cases q; cases "snd (snd q)") auto

lemma cs_run_recovers:
  assumes p: "cs_params sha ser n"
  shows "cs_inv sha n (s, durable) \<Longrightarrow> cs_pending s = Some (w, t, cb) \<Longrightarrow> cs_recovering cb \<Longrightarrow> cs_left n s (cs_pending s) \<le> k \<Longrightarrow>
    \<exists>s'. cs_run sha ser deser k s = Inr (s', [On_recovered (durable \<noteq> None)]) \<and> cs_recovers sha deser n durable s s'"
proof (induction k arbitrary: s w t cb)
  case 0
  then show ?case using cs_left_pos by (metis le_zero_eq not_gr_zero)
next
  case (Suc k)
  have f: "cs_fits n s" and ph: "cs_phase sha n durable (cs_pending s) s" using Suc.prems(1) by (simp_all add: cs_inv_def)
  have on: "\<exists>s''. cs_run sha ser deser (Suc k) s = Inr (s'', [On_recovered (durable \<noteq> None)]) \<and> cs_recovers sha deser n durable s s''"
    if c: "cs_complete sha ser deser s = Inr (s', [])" and g: "cs_goes_on sha n durable cb s s'" for s'
  proof -
    from g obtain v u cb' where next_cb: "cs_pending s' = Some (v, u, cb')" "cs_recovering cb' = cs_recovering cb"
      unfolding cs_goes_on_def by auto
    have "cs_inv sha n (s', durable)" "cs_left n s' (cs_pending s') \<le> k" "cs_same s s'"
      using g Suc.prems(4) by (auto simp: cs_goes_on_def cs_inv_def)
    then obtain s'' where s'': "cs_run sha ser deser k s' = Inr (s'', [On_recovered (durable \<noteq> None)])" "cs_recovers sha deser n durable s' s''"
      using Suc.IH [of s' v u cb'] next_cb Suc.prems(3) by blast
    moreover have "cs_recovers sha deser n durable s s''"
      using s''(2) \<open>cs_same s s'\<close> by (cases durable) (simp_all add: cs_recovers_def cs_same_def)
    ultimately show ?thesis using c by simp
  qed
  show ?case
  proof (cases cb)
    case Active_recovered
    then show ?thesis using cs_complete_active_recovered [OF f _ ph, of w t ser deser] Suc.prems(2) on by blast
  next
    case Other_recovered
    then show ?thesis using cs_complete_other_recovered [OF f _ ph, of w t ser deser] Suc.prems(2) on by blast
  next
    case (Inactive_checked success)
    then obtain s' outs where c: "cs_complete sha ser deser s = Inr (s', outs)"
        "outs = [] \<and> cs_goes_on sha n durable (Inactive_checked success) s s' \<or>
         outs = [On_recovered (durable \<noteq> None)] \<and> cs_recovers sha deser n durable s s'"
      using cs_complete_inactive_checked [OF p f _ ph, of w t success deser] Suc.prems(2) by blast
    then show ?thesis using on [of s'] Inactive_checked by auto
  next
    case (Inactive_erased success)
    then obtain s' where "cs_complete sha ser deser s = Inr (s', [On_recovered (durable \<noteq> None)])" "cs_recovers sha deser n durable s s'"
      using cs_complete_inactive_erased [OF p f _ ph, of w t success deser] Suc.prems(2) by blast
    then show ?thesis by simp
  qed (use Suc.prems(3) in simp_all)
qed

text \<open>After a write has been reported, the store is idle, or writes again what was requested in the meantime.\<close>

definition cs_wrote :: "hash \<Rightarrow> ('c \<Rightarrow> byte list) \<Rightarrow> nat \<Rightarrow> 'c config_store \<Rightarrow> 'c config_store \<Rightarrow> bool" where
  "cs_wrote sha ser n s s' \<longleftrightarrow> cs_inv sha n (s', Some (cs_written s)) \<and> cs_lockCount s' = cs_lockCount s \<and>
     (if cs_writeRequested s \<and> cs_lockCount s = 0
      then cs_written s' = ser (cs_configuration s) \<and> (\<exists>v. cs_pending s' = Some (v, Writing, Serialized (cs_operationId s))) \<and> \<not> cs_writeRequested s'
      else cs_pending s' = None)"

lemma cs_run_writes:
  assumes p: "cs_params sha ser n"
  shows "cs_inv sha n (s, durable) \<Longrightarrow> cs_pending s = Some (w, t, cb) \<Longrightarrow> cs_writingBlob s \<Longrightarrow> cs_id cb = Some thisId \<Longrightarrow>
    cs_left n s (cs_pending s) \<le> k \<Longrightarrow>
    \<exists>s'. cs_run sha ser deser k s = Inr (s', [Operation_done thisId]) \<and> cs_wrote sha ser n s s'"
proof (induction k arbitrary: s w t cb)
  case 0
  then show ?case using cs_left_pos by (metis le_zero_eq not_gr_zero)
next
  case (Suc k)
  have f: "cs_fits n s" and ph: "cs_phase sha n durable (cs_pending s) s" using Suc.prems(1) by (simp_all add: cs_inv_def)
  have cases: "cb = Serialized thisId \<or> cb = Old_erased thisId" using Suc.prems(2-4) ph by (cases cb) auto
  then show ?case
  proof
    assume cb: "cb = Serialized thisId"
    then obtain s' where c: "cs_complete sha ser deser s = Inr (s', [])" and g: "cs_goes_on sha n durable (Serialized thisId) s s'"
      using cs_complete_serialized [OF p f _ ph, of w t thisId deser] Suc.prems(2) by blast
    from g obtain v u cb' where next_cb: "cs_pending s' = Some (v, u, cb')" "cs_id cb' = Some thisId"
      unfolding cs_goes_on_def by auto
    have "cs_inv sha n (s', durable)" "cs_left n s' (cs_pending s') \<le> k" and same: "cs_same s s'"
      using g Suc.prems(2,5) cb by (auto simp: cs_goes_on_def cs_inv_def)
    then obtain s'' where s'': "cs_run sha ser deser k s' = Inr (s'', [Operation_done thisId])" "cs_wrote sha ser n s' s''"
      using Suc.IH [of s' v u cb'] next_cb Suc.prems(3) by (auto simp: cs_same_def)
    moreover have "cs_wrote sha ser n s s''" using s''(2) same Suc.prems(3) by (auto simp: cs_wrote_def cs_same_def)
    ultimately show ?thesis using c by simp
  next
    assume "cb = Old_erased thisId"
    then obtain s' where s': "cs_complete sha ser deser s = Inr (s', [Operation_done thisId])" "cs_fits n s'"
        "cs_phase sha n (Some (cs_written s)) (cs_pending s') s'" "cs_lockCount s' = cs_lockCount s"
        "if cs_writeRequested s \<and> cs_lockCount s = 0
         then cs_written s' = ser (cs_configuration s) \<and> (\<exists>v. cs_pending s' = Some (v, Writing, Serialized (cs_operationId s))) \<and> \<not> cs_writeRequested s'
         else cs_pending s' = None \<and> cs_writeRequested s' = cs_writeRequested s"
      using cs_complete_old_erased [OF p f _ ph, of w t thisId deser] Suc.prems(2) by blast
    have "cs_wrote sha ser n s s'" unfolding cs_wrote_def cs_inv_def prod.case using s'(2-5) by meson
    with s'(1) show ?thesis by simp
  qed
qed

lemma cs_clean_recoverable:
  assumes "cs_params sha ser n" and "cs_fits n s" and "cs_clean n s (cs_activeBlob s)" and "cs_held sha n s (cs_inactiveBlob s) = durable"
  shows "cs_recoverable sha n s = durable"
proof -
  have "cs_recoverable sha n s = cs_pick (cs_activeBlob s) (cs_held sha n s (cs_activeBlob s)) (cs_held sha n s (cs_inactiveBlob s))"
    unfolding cs_recoverable_def by (rule cs_recoverable_pick [OF cs_fits_blob(2) [OF assms(2)]])
  then show ?thesis using cs_clean_not_held [OF assms(1,3)] assms(4) by simp
qed

lemma cs_wrote_recoverable:
  assumes "cs_params sha ser n" and "cs_wrote sha ser n s s'"
  shows "cs_recoverable sha n s' = Some (cs_written s)"
proof (rule cs_clean_recoverable [OF assms(1)])
  show "cs_fits n s'" "cs_clean n s' (cs_activeBlob s')" "cs_held sha n s' (cs_inactiveBlob s') = Some (cs_written s)"
    using assms(2) by (auto simp: cs_wrote_def cs_inv_def split: if_splits)
qed

section \<open>Properties\<close>

text \<open>C7: when the power fails, also in the middle of writing, erasing or recovering, the store recovers with the configuration
  that was durable, or with the one that was being written: as a whole, and never with a mixture or with an older one. It has none
  afterwards only when none was durable, or when the client was erasing it. Recovering ends after at most as many operations
  of the flash as the blob has bytes, and four, and no assertion fails on the way. This holds of every state that is reached from flashes with any
  contents by finished operations of the flash, earlier power failures and the calls of a client that changes the configuration, writes and unlocks only
  while the store is neither recovering nor erasing, unlocks only what it has locked, and erases only while no operation is pending (the code checks
  none of this for recovering and erasing); locking is free. What is assumed: of an image that is partly written, the hash accepts only the blob being written or nothing, and of one that is
  partly erased only what was there before or nothing; the hash has at least 8 bytes; every serialized configuration
  and its header of 12 bytes fit in the blob; and an erased blob is not valid.\<close>

theorem config_store_survives_power_failure:
  assumes "cs_params sha ser n" and "cs_reachable sha ser deser n (s, durable)"
    and "cs_torn sha n s First fl1" and "cs_torn sha n s Second fl2" and "length ram = n"
  shows "\<exists>s' s'' recovered. cs_new fl1 fl2 ram (cs_vsize s) c = Inr s' \<and>
    cs_run sha ser deser (n + 4) s' = Inr (s'', [On_recovered recovered]) \<and>
    (if recovered
     then \<exists>bs. cs_configuration s'' = deser bs \<and> (durable = Some bs \<or> cs_writingBlob s \<and> cs_written s = bs)
     else cs_configuration s'' = c \<and> (durable = None \<or> (\<exists>w t cb. cs_pending s = Some (w, t, cb) \<and> cs_erasing cb)))"
proof -
  have inv: "cs_inv sha n (s, durable)" by (rule cs_reachable_inv [OF assms(2,1)])
  then have f: "cs_fits n s" "0 < cs_vsize s" by (simp_all add: cs_inv_def cs_fits_def)
  obtain s' where new: "cs_new fl1 fl2 ram (cs_vsize s) c = Inr s'"
    using cs_new_spec [OF cs_torn_fits [OF f(1) assms(3)] cs_torn_fits [OF f(1) assms(4)] assms(5) f(2)] by metis
  note s' = cs_power_fails_spec [OF f(1) assms(3-5) new]
  define fl where "fl w = (case w of First \<Rightarrow> fl1 | Second \<Rightarrow> fl2)" for w
  have "cs_torn sha n s w (fl w)" for w using assms(3,4) by (cases w) (simp_all add: fl_def)
  from cs_torn_recoverable [OF assms(1) inv this]
  have r: "cs_recoverable sha n s' = durable \<or> cs_writingBlob s \<and> cs_recoverable sha n s' = Some (cs_written s) \<or>
      cs_recoverable sha n s' = None \<and> (\<exists>w t cb. cs_pending s = Some (w, t, cb) \<and> cs_erasing cb)"
    unfolding s'(3) by (simp only: Let_def fl_def which_blob.case)
  have "cs_left n s' (cs_pending s') \<le> n + 4" by (simp add: s'(2))
  from cs_run_recovers [OF assms(1) s'(1,2) _ this] obtain s'' where
      s'': "cs_run sha ser deser (n + 4) s' = Inr (s'', [On_recovered (cs_recoverable sha n s' \<noteq> None)])"
        "cs_recovers sha deser n (cs_recoverable sha n s') s' s''"
    by auto
  show ?thesis
  proof (intro exI conjI)
    show "if cs_recoverable sha n s' \<noteq> None
      then \<exists>bs. cs_configuration s'' = deser bs \<and> (durable = Some bs \<or> cs_writingBlob s \<and> cs_written s = bs)
      else cs_configuration s'' = c \<and> (durable = None \<or> (\<exists>w t cb. cs_pending s = Some (w, t, cb) \<and> cs_erasing cb))"
      using r s''(2) s'(4) by (cases "cs_recoverable sha n s'") (auto simp: cs_recovers_def)
  qed (rule new, rule s''(1))
qed

text \<open>A store over two flashes of 16 bytes, of which the first holds the byte 7, with a hash of zeros.\<close>

definition cs_example_flash :: flash where
  "cs_example_flash = [[0, 0, 0, 0, 0, 0, 0, 0, 1, 0, 0, 0, 7, 0xff, 0xff, 0xff]]"

lemma cs_example_params: "cs_params (\<lambda>_. replicate 8 0) (\<lambda>c :: byte. [c]) 16"
  by (simp add: cs_params_def cb_blob_in_def cb_blob_is_valid_def)

lemma cs_example_start:
  obtains s where "cs_new cs_example_flash (fl_new 1 16) (replicate 16 0) 8 (0 :: byte) = Inr s"
    and "cs_reachable (\<lambda>_. replicate 8 0) (\<lambda>c. [c]) hd 16 (s, Some [7])"
    and "cs_pending s = Some (First, Recovering, Active_recovered)" and "\<not> cs_writingBlob s" and "cs_lockCount s = 0"
    and "cs_vsize s = 8" and "cb_flash (cs_blob s First) = cs_example_flash" and "cb_flash (cs_blob s Second) = fl_new 1 16"
proof -
  have fits: "cb_fits 16 cs_example_flash" "cb_fits 16 (fl_new 1 16)"
    by (simp_all add: cb_fits_def fl_ok_def cs_example_flash_def fl_new_def)
  have a: "length (replicate 16 (0 :: byte)) = 16" "(0 :: nat) < 8" by simp_all
  obtain s where
      s: "cs_new cs_example_flash (fl_new 1 16) (replicate 16 0) 8 (0 :: byte) = Inr s"
        "cs_pending s = Some (First, Recovering, Active_recovered)"
        "cs_phase (\<lambda>_. replicate 8 0) 16 (cs_recoverable (\<lambda>_. replicate 8 0) 16 s) (cs_pending s) s"
        "\<And>w. cb_flash (cs_blob s w) = (case w of First \<Rightarrow> cs_example_flash | Second \<Rightarrow> fl_new 1 16)"
    using cs_new_spec [OF fits a, where c = "0 :: byte" and sha = "\<lambda>_. replicate 8 0"] by metis
  have flash: "cb_flash (cs_blob s First) = cs_example_flash" "cb_flash (cs_blob s Second) = fl_new 1 16"
    by (simp_all add: s(4))
  have eight: "replicate 8 (0 :: byte) = [0, 0, 0, 0, 0, 0, 0, 0]" by (simp add: numeral_eq_Suc)
  have "cb_content (\<lambda>_. replicate 8 0) 16 cs_example_flash = Some [7]"
    by (simp add: cb_content_def cb_blob_in_def cb_blob_is_valid_def cs_example_flash_def cb_header_size_def eight)
  then have "cs_recoverable (\<lambda>_. replicate 8 0) 16 s = Some [7]" by (simp add: cs_recoverable_def cs_held_def flash)
  then have "cs_reachable (\<lambda>_. replicate 8 0) (\<lambda>c. [c]) hd 16 (s, Some [7])"
    using cs_reachable.start [OF fits _ _ s(1), of "\<lambda>_. replicate 8 0" "\<lambda>c. [c]" hd] by simp
  moreover have "\<not> cs_writingBlob s" using s(2,3) by simp
  moreover have "cs_vsize s = 8" "cs_lockCount s = 0" using s(1)
    by (auto simp: cs_new_def cs_construct_def rbind_Inr cs_recover_def cb_recover_def cs_set_blob.simps)
  ultimately show thesis using that s flash by blast
qed

lemma cs_reachable_run:
  "cs_reachable sha ser deser n (s, durable) \<Longrightarrow> cs_run sha ser deser k s = Inr (s', [On_recovered ok]) \<Longrightarrow>
    cs_reachable sha ser deser n (s', durable)"
proof (induction k arbitrary: s)
  case (Suc k)
  from Suc.prems(2) obtain t outs where c: "cs_complete sha ser deser s = Inr (t, outs)"
      "if outs = [] then cs_run sha ser deser k t = Inr (s', [On_recovered ok]) else t = s' \<and> outs = [On_recovered ok]"
    by (auto simp: rbind_Inr split: if_splits)
  then have quiet: "\<not> (\<exists>i. Operation_done i \<in> set outs)" by (auto split: if_splits)
  have t: "cs_reachable sha ser deser n (t, durable)"
  proof (cases "cs_pending s")
    case None
    then show ?thesis using c(1) Suc.prems(1) by (simp add: cs_complete_def)
  next
    case (Some q)
    then obtain w u cb where "cs_pending s = Some (w, u, cb)" by (cases q) auto
    from cs_reachable.step [OF Suc.prems(1) cs_step.complete [OF this c(1)]] quiet show ?thesis by auto
  qed
  show ?case using c(2) Suc.IH [OF t] t by (auto split: if_splits)
qed simp

theorem config_store_survives_power_failure_witness:
  "\<exists>s s'. cs_new cs_example_flash (fl_new 1 16) (replicate 16 3) 8 (0 :: byte) = Inr s \<and>
    cs_run (\<lambda>_. replicate 8 0) (\<lambda>c. [c]) hd 20 s = Inr (s', [On_recovered True]) \<and> cs_configuration s' = 7"
proof -
  obtain s where s: "cs_reachable (\<lambda>_. replicate 8 0) (\<lambda>c :: byte. [c]) hd 16 (s, Some [7])"
      "cs_pending s = Some (First, Recovering, Active_recovered)" "\<not> cs_writingBlob s"
      "cs_vsize s = 8" "cb_flash (cs_blob s First) = cs_example_flash" "cb_flash (cs_blob s Second) = fl_new 1 16"
    by (rule cs_example_start)
  have "cs_torn (\<lambda>_. replicate 8 0) 16 s First cs_example_flash" "cs_torn (\<lambda>_. replicate 8 0) 16 s Second (fl_new 1 16)"
    by (simp_all add: cs_torn_def s)
  from config_store_survives_power_failure [OF cs_example_params s(1) this, of "replicate 16 3" 0] show ?thesis
    by (auto simp: s split: if_splits)
qed

text \<open>C8: a call of \<open>Write\<close> on an unlocked store that has recovered and is not erasing ends with the notification of the identifier
  that it returned, and then the configuration of the moment of the call is durable. When a write is under way, it is finished first, and the
  configuration is written that the store has when that one is done, without another call. The store is in a state that a client reaches
  that changes the configuration, writes and unlocks only while the store is neither recovering nor erasing, and erases only while no
  operation is pending (the code accepts a \<open>Write\<close> at other moments too, and does not serve it like this), also after power failures that leave images which the
  hash tells from valid blobs; the hash has at least 8 bytes, every
  serialized configuration and its header of 12 bytes fit in the blob, and an erased blob is not valid.\<close>

theorem config_store_write_served:
  assumes "cs_params sha ser n" and "cs_reachable sha ser deser n (s, durable)" and "cs_ready s" and "cs_lockCount s = 0"
  shows "\<exists>s1 s2. cs_write sha ser s = Inr (s1, cs_operationId s) \<and>
    (if cs_writingBlob s
     then \<exists>s3 other. cs_run sha ser deser (n + 4) s1 = Inr (s2, [Operation_done other]) \<and> cs_recoverable sha n s2 = Some (cs_written s) \<and>
       cs_run sha ser deser (n + 4) s2 = Inr (s3, [Operation_done (cs_operationId s)]) \<and>
       cs_recoverable sha n s3 = Some (ser (cs_configuration s))
     else cs_run sha ser deser (n + 4) s1 = Inr (s2, [Operation_done (cs_operationId s)]) \<and>
       cs_recoverable sha n s2 = Some (ser (cs_configuration s)))"
proof -
  have inv: "cs_inv sha n (s, durable)" by (rule cs_reachable_inv [OF assms(2,1)])
  then have f: "cs_fits n s" and ph: "cs_phase sha n durable (cs_pending s) s" by (simp_all add: cs_inv_def)
  have runs: "\<exists>s'. cs_run sha ser deser (n + 4) t = Inr (s', [Operation_done i]) \<and> cs_wrote sha ser n t s'"
    if "cs_inv sha n (t, d)" "cs_pending t = Some (w, u, cb)" "cs_writingBlob t" "cs_id cb = Some i" for t d w u cb i
    using cs_run_writes [OF assms(1) that] that(1) cs_left_le [of sha n d "cs_pending t" t] by (simp add: cs_inv_def)
  show ?thesis
  proof (cases "cs_writingBlob s")
    case False
    then have idle: "cs_pending s = None" using cs_idle [OF assms(3) ph] by simp
    then obtain s1 where s1: "cs_write sha ser s = Inr (s1, cs_operationId s)" "cs_fits n s1"
        "cs_pending s1 = Some (cs_activeBlob s, Writing, Serialized (cs_operationId s))"
        "cs_phase sha n durable (cs_pending s1) s1" "cs_written s1 = ser (cs_configuration s)"
      using cs_write_starts [OF assms(1) f False assms(4)] ph by (metis cs_phase.simps(1))
    have "cs_inv sha n (s1, durable)" using s1(2,4) by (simp only: cs_inv_def prod.case simp_thms)
    moreover have "cs_writingBlob s1" using s1(3,4) by simp
    ultimately have "cs_inv sha n (s1, durable)" "cs_writingBlob s1" .
    with runs [OF _ s1(3)] obtain s2 where "cs_run sha ser deser (n + 4) s1 = Inr (s2, [Operation_done (cs_operationId s)])"
        "cs_wrote sha ser n s1 s2" by auto
    with s1 False cs_wrote_recoverable [OF assms(1)] show ?thesis by auto
  next
    case True
    let ?s1 = "s\<lparr>cs_writeRequested := True\<rparr>"
    have wr: "cs_write sha ser s = Inr (?s1, cs_operationId s)" using True by (simp add: cs_write_def Let_def)
    obtain w t cb where pend: "cs_pending s = Some (w, t, cb)" using ph True by (cases "cs_pending s") auto
    then obtain i where i: "cs_id cb = Some i" using ph True by (cases cb) (auto simp: cs_loaded_def)
    have inv1: "cs_inv sha n (?s1, durable)" using inv by (simp add: cs_inv_def cs_phase_updates cs_fits_updates)
    have "cs_writingBlob ?s1" "cs_pending ?s1 = Some (w, t, cb)" using True pend by simp_all
    from runs [OF inv1 this(2,1) i] obtain s2 where s2: "cs_run sha ser deser (n + 4) ?s1 = Inr (s2, [Operation_done i])"
        "cs_wrote sha ser n ?s1 s2" by blast
    obtain v where v: "cs_pending s2 = Some (v, Writing, Serialized (cs_operationId s))" "cs_written s2 = ser (cs_configuration s)"
        "cs_inv sha n (s2, Some (cs_written s))"
      using s2(2) assms(4) by (auto simp: cs_wrote_def cs_written_def)
    then have "cs_writingBlob s2" by (simp add: cs_inv_def)
    from runs [OF v(3,1) this, of "cs_operationId s"] obtain s3 where
        s3: "cs_run sha ser deser (n + 4) s2 = Inr (s3, [Operation_done (cs_operationId s)])" "cs_wrote sha ser n s2 s3" by auto
    have "cs_recoverable sha n s2 = Some (cs_written s)" "cs_recoverable sha n s3 = Some (ser (cs_configuration s))"
      using cs_wrote_recoverable [OF assms(1) s2(2)] cs_wrote_recoverable [OF assms(1) s3(2)] v(2) by (simp_all add: cs_written_def)
    with wr s2(1) s3(1) True show ?thesis by auto
  qed
qed

theorem config_store_write_served_witness:
  "\<exists>s s1 s2. cs_configuration s = (7 :: byte) \<and> cs_write (\<lambda>_. replicate 8 0) (\<lambda>c. [c]) s = Inr (s1, cs_operationId s) \<and>
    cs_run (\<lambda>_. replicate 8 0) (\<lambda>c. [c]) hd 20 s1 = Inr (s2, [Operation_done (cs_operationId s)]) \<and>
    cs_recoverable (\<lambda>_. replicate 8 0) 16 s2 = Some [7]"
proof -
  obtain s where s: "cs_reachable (\<lambda>_. replicate 8 0) (\<lambda>c :: byte. [c]) hd 16 (s, Some [7])"
      "cs_pending s = Some (First, Recovering, Active_recovered)" "cs_lockCount s = 0"
    by (rule cs_example_start)
  have inv: "cs_inv (\<lambda>_. replicate 8 0) 16 (s, Some [7])" by (rule cs_reachable_inv [OF s(1) cs_example_params])
  have "cs_left 16 s (cs_pending s) \<le> 20" by (simp add: s)
  from cs_run_recovers [OF cs_example_params inv s(2) _ this, of hd] obtain s' where
      s': "cs_run (\<lambda>_. replicate 8 0) (\<lambda>c. [c]) hd 20 s = Inr (s', [On_recovered True])"
        "cs_recovers (\<lambda>_. replicate 8 0) hd 16 (Some [7]) s s'"
    by auto
  have ready: "cs_ready s'" "cs_configuration s' = 7" "cs_lockCount s' = 0" "\<not> cs_writingBlob s'"
    using s'(2) s(3) by (auto simp: cs_recovers_def cs_ready_def)
  from config_store_write_served [OF cs_example_params cs_reachable_run [OF s(1) s'(1)] ready(1,3)] show ?thesis
    using ready(2,4) by auto
qed

end
