(* ===== verification/Configuration_Factory.thy ===== *)
theory Configuration_Factory
  imports Configuration_Durability
begin

text \<open>
  \<open>FactoryDefaultConfigurationStore\<close> (services/util/ConfigurationStore.hpp and .cpp): a configuration store with a third blob
  for the factory default, in a flash of its own or in read-only memory. All blobs share one range of memory. It observes the
  store. \<open>onLoadFactoryDefault\<close> is the client's, and makes the configuration \<open>factory\<close>.
\<close>

section \<open>State and callbacks\<close>

datatype default_blob = In_flash blob | In_memory "byte list"

datatype fd_callback = Default_recovered | Default_erased | Default_serialized

datatype fd_output = On_factory_recovered bool | Notify_observers u32

record 'c factory_store =
  fd_configurationStore :: "'c config_store"
  fd_factoryDefaultBlob :: default_blob
  fd_onRecovered :: bool
  fd_eraseOperationId :: u32
  fd_defaultWritten :: bool
  fd_pending :: "(cb_task \<times> fd_callback) option"

text \<open>\<open>fd_onRecovered\<close> says whether the callback is still to be called; \<open>fd_defaultWritten\<close> which lambda the store's \<open>Recover\<close> was given,
  the one of the branch in which the factory default was written first.\<close>

definition fd_construct :: "'c config_store \<Rightarrow> default_blob \<Rightarrow> 'c factory_store" where
  "fd_construct store d = \<lparr>fd_configurationStore = store, fd_factoryDefaultBlob = d, fd_onRecovered = False, fd_eraseOperationId = 0,
     fd_defaultWritten = False, fd_pending = None\<rparr>"

definition fd_ram :: "'c factory_store \<Rightarrow> byte list" where
  "fd_ram s = cs_ram (fd_configurationStore s)"

definition fd_call_on_recovered :: "bool \<Rightarrow> 'c factory_store \<Rightarrow> 'c factory_store \<times> fd_output list" where
  "fd_call_on_recovered isFactoryDefault s = (s\<lparr>fd_onRecovered := False\<rparr>, [On_factory_recovered isFactoryDefault])"

definition fd_store_recover :: "bool \<Rightarrow> 'c factory_store \<Rightarrow> 'c factory_store" where
  "fd_store_recover defaultWritten s = s\<lparr>fd_configurationStore := cs_recover (fd_configurationStore s), fd_defaultWritten := defaultWritten\<rparr>"

definition fd_store_recovered :: "bool \<Rightarrow> 'c factory_store \<Rightarrow> 'c factory_store \<times> fd_output list" where
  "fd_store_recovered success s =
     (if fd_defaultWritten s
      then if success then fd_call_on_recovered False s
           else let (store, i) = cs_erase (fd_configurationStore s)
                in (s\<lparr>fd_configurationStore := store, fd_eraseOperationId := i\<rparr>, [])
      else fd_call_on_recovered (\<not> success) s)"

definition fd_operation_done :: "u32 \<Rightarrow> 'c factory_store \<Rightarrow> 'c factory_store \<times> fd_output list" where
  "fd_operation_done i s =
     (let (s1, outs) = (if fd_onRecovered s \<and> fd_eraseOperationId s \<le> i then fd_call_on_recovered True s else (s, []))
      in (s1, outs @ [Notify_observers i]))"

fun fd_store_output :: "cs_output list \<Rightarrow> 'c factory_store \<Rightarrow> 'c factory_store \<times> fd_output list" where
  "fd_store_output [] s = (s, [])"
| "fd_store_output (On_recovered success # rest) s =
     (let (s1, o1) = fd_store_recovered success s; (s2, o2) = fd_store_output rest s1 in (s2, o1 @ o2))"
| "fd_store_output (Operation_done i # rest) s =
     (let (s1, o1) = fd_operation_done i s; (s2, o2) = fd_store_output rest s1 in (s2, o1 @ o2))"

section \<open>The factory default\<close>

definition fd_await :: "fd_callback \<Rightarrow> blob \<times> byte list \<times> cb_outcome \<Rightarrow> 'c factory_store \<Rightarrow> 'c factory_store" where
  "fd_await callback brr s = (case brr of (b, ram, r) \<Rightarrow>
     s\<lparr>fd_factoryDefaultBlob := In_flash b, fd_configurationStore := (fd_configurationStore s)\<lparr>cs_ram := ram\<rparr>,
       fd_pending := (case r of Waiting t \<Rightarrow> Some (t, callback) | _ \<Rightarrow> None)\<rparr>)"

text \<open>The blob in read-only memory stops the program when it is to be erased or written.\<close>

definition fd_erase_default :: "'c factory_store \<Rightarrow> 'c factory_store result" where
  "fd_erase_default s = (case fd_factoryDefaultBlob s of
     In_flash b \<Rightarrow> (case cb_erase b of (b1, r) \<Rightarrow> Inr (fd_await Default_erased (b1, fd_ram s, r) s))
   | In_memory data \<Rightarrow> Inl Assert_failed)"

definition fd_serialize_default :: "hash \<Rightarrow> ('c \<Rightarrow> byte list) \<Rightarrow> 'c factory_store \<Rightarrow> 'c factory_store result" where
  "fd_serialize_default sha ser s = (case fd_factoryDefaultBlob s of
     In_flash b \<Rightarrow> rbind (cs_serialize_blob sha ser b (fd_configurationStore s)) (\<lambda>brr. Inr (fd_await Default_serialized brr s))
   | In_memory data \<Rightarrow> Inl Assert_failed)"

definition fd_deserialize_default :: "(byte list \<Rightarrow> 'c) \<Rightarrow> 'c factory_store \<Rightarrow> 'c factory_store result" where
  "fd_deserialize_default deser s =
     rbind (case fd_factoryDefaultBlob s of In_flash b \<Rightarrow> Inr (cb_current_blob b (fd_ram s)) | In_memory data \<Rightarrow> cbr_current_blob data) (\<lambda>bs.
       Inr (s\<lparr>fd_configurationStore := (fd_configurationStore s)\<lparr>cs_configuration := deser bs\<rparr>\<rparr>))"

definition fd_default_recovered :: "(byte list \<Rightarrow> 'c) \<Rightarrow> 'c \<Rightarrow> bool \<Rightarrow> 'c factory_store \<Rightarrow> 'c factory_store result" where
  "fd_default_recovered deser factory success s =
     (if \<not> success
      then fd_erase_default (s\<lparr>fd_configurationStore := (fd_configurationStore s)\<lparr>cs_configuration := factory\<rparr>\<rparr>)
      else rbind (fd_deserialize_default deser s) (\<lambda>s1. Inr (fd_store_recover False s1)))"

definition fd_recover :: "(byte list \<Rightarrow> 'c) \<Rightarrow> 'c \<Rightarrow> 'c factory_store \<Rightarrow> 'c factory_store result" where
  "fd_recover deser factory s = (let s1 = s\<lparr>fd_onRecovered := True\<rparr> in
     case fd_factoryDefaultBlob s1 of
       In_flash b \<Rightarrow> (case cb_recover b of (b1, r) \<Rightarrow> Inr (fd_await Default_recovered (b1, fd_ram s1, r) s1))
     | In_memory data \<Rightarrow> (case cbr_recover data of Recovered success \<Rightarrow> fd_default_recovered deser factory success s1 | _ \<Rightarrow> Inr s1))"

fun fd_call :: "hash \<Rightarrow> ('c \<Rightarrow> byte list) \<Rightarrow> (byte list \<Rightarrow> 'c) \<Rightarrow> 'c \<Rightarrow> fd_callback \<Rightarrow> cb_outcome \<Rightarrow> 'c factory_store \<Rightarrow> 'c factory_store result" where
  "fd_call sha ser deser factory Default_recovered (Recovered success) s = fd_default_recovered deser factory success s"
| "fd_call sha ser deser factory Default_erased Done s = fd_serialize_default sha ser s"
| "fd_call sha ser deser factory Default_serialized Done s = Inr (fd_store_recover True s)"
| "fd_call sha ser deser factory _ _ s = Inr s"

definition fd_complete :: "hash \<Rightarrow> ('c \<Rightarrow> byte list) \<Rightarrow> (byte list \<Rightarrow> 'c) \<Rightarrow> 'c \<Rightarrow> 'c factory_store \<Rightarrow> ('c factory_store \<times> fd_output list) result" where
  "fd_complete sha ser deser factory s = (case (fd_pending s, fd_factoryDefaultBlob s) of
     (Some (t, callback), In_flash b) \<Rightarrow>
       rbind (cb_complete sha (cs_vsize (fd_configurationStore s)) t b (fd_ram s)) (\<lambda>(b1, ram, r).
         let s1 = fd_await callback (b1, ram, r) s
         in case r of Waiting _ \<Rightarrow> Inr (s1, []) | _ \<Rightarrow> rbind (fd_call sha ser deser factory callback r s1) (\<lambda>s2. Inr (s2, [])))
   | _ \<Rightarrow> rbind (cs_complete sha ser deser (fd_configurationStore s)) (\<lambda>(store, outs).
            Inr (fd_store_output outs (s\<lparr>fd_configurationStore := store\<rparr>))))"

section \<open>The calls of the client\<close>

definition fd_write :: "hash \<Rightarrow> ('c \<Rightarrow> byte list) \<Rightarrow> 'c factory_store \<Rightarrow> ('c factory_store \<times> u32) result" where
  "fd_write sha ser s = rbind (cs_write sha ser (fd_configurationStore s)) (\<lambda>(store, i). Inr (s\<lparr>fd_configurationStore := store\<rparr>, i))"

text \<open>\<open>WithBlobs\<close> and \<open>WithReadOnlyDefaultAndBlobs\<close>.\<close>

definition fd_new :: "(byte list \<Rightarrow> 'c) \<Rightarrow> 'c \<Rightarrow> flash \<Rightarrow> flash \<Rightarrow> flash \<Rightarrow> byte list \<Rightarrow> nat \<Rightarrow> 'c \<Rightarrow> 'c factory_store result" where
  "fd_new deser factory flashFactoryDefault flashFirst flashSecond ram vsize configuration =
     rbind (cb_new ram flashFactoryDefault) (\<lambda>d. rbind (cs_construct flashFirst flashSecond ram vsize configuration) (\<lambda>store.
       fd_recover deser factory (fd_construct store (In_flash d))))"

definition fd_new_read_only :: "(byte list \<Rightarrow> 'c) \<Rightarrow> 'c \<Rightarrow> byte list \<Rightarrow> flash \<Rightarrow> flash \<Rightarrow> byte list \<Rightarrow> nat \<Rightarrow> 'c \<Rightarrow> 'c factory_store result" where
  "fd_new_read_only deser factory data flashFirst flashSecond ram vsize configuration =
     rbind (cs_construct flashFirst flashSecond ram vsize configuration) (\<lambda>store.
       fd_recover deser factory (fd_construct store (In_memory data)))"

section \<open>Running\<close>

definition fd_recovered :: "fd_output list \<Rightarrow> bool" where
  "fd_recovered outs \<longleftrightarrow> (\<exists>isFactoryDefault. On_factory_recovered isFactoryDefault \<in> set outs)"

lemma fd_recovered_simps [simp]:
  "\<not> fd_recovered []" "fd_recovered (On_factory_recovered b # outs)" "fd_recovered (Notify_observers i # outs) = fd_recovered outs"
  by (auto simp: fd_recovered_def)

text \<open>At most \<open>k\<close> operations of the flashes, until \<open>onRecovered\<close> is called.\<close>

fun fd_run :: "hash \<Rightarrow> ('c \<Rightarrow> byte list) \<Rightarrow> (byte list \<Rightarrow> 'c) \<Rightarrow> 'c \<Rightarrow> nat \<Rightarrow> 'c factory_store \<Rightarrow> ('c factory_store \<times> fd_output list) result" where
  "fd_run sha ser deser factory 0 s = Inr (s, [])"
| "fd_run sha ser deser factory (Suc k) s = rbind (fd_complete sha ser deser factory s) (\<lambda>(s', outs).
     if fd_recovered outs then Inr (s', outs) else fd_run sha ser deser factory k s')"

definition fd_goes :: "hash \<Rightarrow> ('c \<Rightarrow> byte list) \<Rightarrow> (byte list \<Rightarrow> 'c) \<Rightarrow> 'c \<Rightarrow> nat \<Rightarrow> 'c factory_store \<Rightarrow> 'c factory_store \<Rightarrow> bool" where
  "fd_goes sha ser deser factory m s s' \<longleftrightarrow> (\<forall>j. fd_run sha ser deser factory (m + j) s = fd_run sha ser deser factory j s')"

lemma fd_goes_step: "fd_complete sha ser deser factory s = Inr (s', []) \<Longrightarrow> fd_goes sha ser deser factory 1 s s'"
  by (simp add: fd_goes_def)

lemma fd_goes_trans:
  "fd_goes sha ser deser factory m s t \<Longrightarrow> fd_goes sha ser deser factory k t u \<Longrightarrow> fd_goes sha ser deser factory (m + k) s u"
  by (simp add: fd_goes_def add.assoc)

text \<open>The store runs until it has something to report.\<close>

lemma fd_run_store:
  assumes "fd_pending s = None"
  shows "cs_run sha ser deser k (fd_configurationStore s) = Inr (t, outs) \<Longrightarrow> outs \<noteq> [] \<Longrightarrow>
    \<exists>m. Suc m \<le> k \<and> (\<forall>j. fd_run sha ser deser factory (Suc m + j) s =
      (case fd_store_output outs (s\<lparr>fd_configurationStore := t\<rparr>) of (s', outs') \<Rightarrow>
        if fd_recovered outs' then Inr (s', outs') else fd_run sha ser deser factory j s'))"
  using assms
proof (induction k arbitrary: s)
  case (Suc k)
  from Suc.prems(1) obtain u outs1 where c: "cs_complete sha ser deser (fd_configurationStore s) = Inr (u, outs1)"
      "if outs1 = [] then cs_run sha ser deser k u = Inr (t, outs) else u = t \<and> outs1 = outs"
    by (auto simp: rbind_Inr split: if_splits)
  have complete: "fd_complete sha ser deser factory s = Inr (fd_store_output outs1 (s\<lparr>fd_configurationStore := u\<rparr>))"
    using Suc.prems(3) c(1) by (simp add: fd_complete_def)
  show ?case
  proof (cases "outs1 = []")
    case True
    then have "cs_run sha ser deser k (fd_configurationStore (s\<lparr>fd_configurationStore := u\<rparr>)) = Inr (t, outs)" using c(2) by simp
    from Suc.IH [OF this Suc.prems(2)] Suc.prems(3) obtain m where m: "Suc m \<le> k"
        "\<And>j. fd_run sha ser deser factory (Suc m + j) (s\<lparr>fd_configurationStore := u\<rparr>) =
          (case fd_store_output outs (s\<lparr>fd_configurationStore := t\<rparr>) of (s', outs') \<Rightarrow>
            if fd_recovered outs' then Inr (s', outs') else fd_run sha ser deser factory j s')"
      by auto
    have "fd_run sha ser deser factory (Suc (Suc m) + j) s = fd_run sha ser deser factory (Suc m + j) (s\<lparr>fd_configurationStore := u\<rparr>)" for j
      using complete True by simp
    with m show ?thesis by (intro exI [of _ "Suc m"]) auto
  next
    case False
    then show ?thesis using complete c(2) by (intro exI [of _ 0]) (auto split: prod.splits)
  qed
qed simp

lemma cs_run_gone:
  assumes p: "cs_params sha ser n"
  shows "cs_inv sha n (s, durable) \<Longrightarrow> cs_pending s = Some (w, t, cb) \<Longrightarrow> cs_erasing cb \<Longrightarrow> cs_id cb = Some i \<Longrightarrow>
    cs_left n s (cs_pending s) \<le> k \<Longrightarrow>
    \<exists>s'. cs_run sha ser deser k s = Inr (s', [Operation_done i]) \<and> cs_inv sha n (s', None) \<and> cs_pending s' = None \<and> cs_same s s'"
proof (induction k arbitrary: s w t cb)
  case 0
  then show ?case using cs_left_pos by (metis le_zero_eq not_gr_zero)
next
  case (Suc k)
  have f: "cs_fits n s" and ph: "cs_phase sha n durable (cs_pending s) s" using Suc.prems(1) by (simp_all add: cs_inv_def)
  from cs_complete_gone [OF p f Suc.prems(2,3) ph, of deser] obtain s' outs where
      c: "cs_complete sha ser deser s = Inr (s', outs)"
      "outs = [] \<and> cs_goes_on sha n durable cb s s' \<or>
       outs = [Operation_done i] \<and> cs_fits n s' \<and> cs_pending s' = None \<and> cs_phase sha n None None s' \<and> cs_same s s'"
    using Suc.prems(4) by auto
  from c(2) show ?case
  proof
    assume g: "outs = [] \<and> cs_goes_on sha n durable cb s s'"
    then obtain v u cb' where next_cb: "cs_pending s' = Some (v, u, cb')" "cs_id cb' = Some i" "cs_erasing cb'"
      using Suc.prems(3,4) unfolding cs_goes_on_def by auto
    have "cs_inv sha n (s', durable)" "cs_left n s' (cs_pending s') \<le> k" and same: "cs_same s s'"
      using g Suc.prems(5) by (auto simp: cs_goes_on_def cs_inv_def)
    then obtain s'' where "cs_run sha ser deser k s' = Inr (s'', [Operation_done i])" "cs_inv sha n (s'', None)" "cs_pending s'' = None" "cs_same s' s''"
      using Suc.IH [of s' v u cb'] next_cb by blast
    moreover have "cs_same s s''" using \<open>cs_same s' s''\<close> same by (simp add: cs_same_def)
    ultimately show ?thesis using c(1) g by auto
  next
    assume "outs = [Operation_done i] \<and> cs_fits n s' \<and> cs_pending s' = None \<and> cs_phase sha n None None s' \<and> cs_same s s'"
    then show ?thesis using c(1) by (auto simp: cs_inv_def)
  qed
qed

section \<open>The store recovers\<close>

lemma cs_recover_spec:
  assumes "cs_fits n s" and "cs_activeBlob s = First" and "\<not> cs_writingBlob s"
  shows "cs_inv sha n (cs_recover s, cs_recoverable sha n s)" and "cs_pending (cs_recover s) = Some (First, Recovering, Active_recovered)"
    and "cs_configuration (cs_recover s) = cs_configuration s"
proof -
  have "cs_recover s = cs_set_blob First (cs_blob s First) (s\<lparr>cs_pending := Some (First, Recovering, Active_recovered)\<rparr>)"
    using assms(2) by (simp add: cs_recover_def cb_recover_def)
  then show "cs_inv sha n (cs_recover s, cs_recoverable sha n s)" "cs_pending (cs_recover s) = Some (First, Recovering, Active_recovered)"
      "cs_configuration (cs_recover s) = cs_configuration s"
    using assms by (simp_all add: cs_inv_def cs_fits_def cs_recoverable_def cs_held_def)
qed

text \<open>With \<open>stored\<close> what the two blobs of the store hold.\<close>

lemma fd_store_recovers:
  assumes p: "cs_params sha ser n" and pend: "fd_pending s = None" and on: "fd_onRecovered s"
    and st: "cs_fits n (fd_configurationStore s)" "cs_activeBlob (fd_configurationStore s) = First" "\<not> cs_writingBlob (fd_configurationStore s)"
    and stored: "stored = cs_recoverable sha n (fd_configurationStore s)" and k: "n + 6 \<le> k"
  shows "\<exists>s' outs. fd_run sha ser deser factory k (fd_store_recover defaultWritten s) = Inr (s', outs) \<and>
    On_factory_recovered (stored = None) \<in> set outs \<and> fd_factoryDefaultBlob s' = fd_factoryDefaultBlob s \<and>
    cs_configuration (fd_configurationStore s') = (case stored of Some bs \<Rightarrow> deser bs | None \<Rightarrow> cs_configuration (fd_configurationStore s)) \<and>
    cs_recoverable sha n (fd_configurationStore s') = stored"
proof -
  let ?s = "fd_store_recover defaultWritten s"
  note rec = cs_recover_spec(1) [OF st, of sha] cs_recover_spec(2,3) [OF st]
  have s: "fd_configurationStore ?s = cs_recover (fd_configurationStore s)" "fd_pending ?s = None" "fd_defaultWritten ?s = defaultWritten"
    "fd_onRecovered ?s" using pend on by (simp_all add: fd_store_recover_def)
  have "cs_left n (cs_recover (fd_configurationStore s)) (cs_pending (cs_recover (fd_configurationStore s))) \<le> n + 4" by (simp add: rec)
  from cs_run_recovers [OF p rec(1,2) _ this, of deser] obtain t where
      t: "cs_run sha ser deser (n + 4) (fd_configurationStore ?s) = Inr (t, [On_recovered (stored \<noteq> None)])"
        "cs_recovers sha deser n stored (cs_recover (fd_configurationStore s)) t"
    by (auto simp: s stored)
  have t_inv: "cs_inv sha n (t, stored)" "cs_pending t = None" using t(2) by (simp_all add: cs_recovers_def cs_inv_def)
  have t_rec: "cs_recoverable sha n t = stored"
    using t_inv by (intro cs_clean_recoverable [OF p]) (simp_all add: cs_inv_def)
  have t_conf: "cs_configuration t = (case stored of Some bs \<Rightarrow> deser bs | None \<Rightarrow> cs_configuration (fd_configurationStore s))"
    using t(2) rec(3) by (simp add: cs_recovers_def split: option.splits)
  let ?t = "?s\<lparr>fd_configurationStore := t\<rparr>"
  from fd_run_store [OF s(2) t(1)] obtain m where m: "Suc m \<le> n + 4"
      "\<And>j. fd_run sha ser deser factory (Suc m + j) ?s = (case fd_store_output [On_recovered (stored \<noteq> None)] ?t of (s', outs') \<Rightarrow>
        if fd_recovered outs' then Inr (s', outs') else fd_run sha ser deser factory j s')"
    by auto
  have k_split: "k = Suc m + (k - Suc m)" "2 \<le> k - Suc m" using m(1) k by simp_all
  show ?thesis
  proof (cases "defaultWritten \<and> stored = None")
    case False
    then have "fd_store_output [On_recovered (stored \<noteq> None)] ?t = (?t\<lparr>fd_onRecovered := False\<rparr>, [On_factory_recovered (stored = None)])"
      by (auto simp: fd_store_recovered_def fd_call_on_recovered_def fd_store_recover_def)
    then have "fd_run sha ser deser factory k ?s = Inr (?t\<lparr>fd_onRecovered := False\<rparr>, [On_factory_recovered (stored = None)])"
      using m(2) [of "k - Suc m"] k_split(1) by simp
    then show ?thesis using t_rec t_conf by (auto simp: fd_store_recover_def)
  next
    case True
    obtain e i where e: "cs_erase t = (e, i)" by fastforce
    have e_inv: "cs_inv sha n (e, stored)" using cs_erase_inv [OF p t_inv] e by simp
    have e_pend: "cs_pending e = Some (cs_inactiveBlob t, Erasing, Inactive_gone i)" "cs_configuration e = cs_configuration t"
      using e by (auto simp: cs_erase_def cb_erase_def Let_def)
    let ?e = "?t\<lparr>fd_configurationStore := e, fd_eraseOperationId := i\<rparr>"
    have "fd_store_output [On_recovered (stored \<noteq> None)] ?t = (?e, [])"
      using True e by (simp add: fd_store_recovered_def fd_store_recover_def)
    then have to_e: "fd_run sha ser deser factory k ?s = fd_run sha ser deser factory (k - Suc m) ?e"
      using m(2) [of "k - Suc m"] k_split(1) by simp
    have "cs_left n e (cs_pending e) \<le> 2" by (simp add: e_pend)
    from cs_run_gone [OF p e_inv e_pend(1) _ _ this, of i deser] obtain u where
        u: "cs_run sha ser deser 2 (fd_configurationStore ?e) = Inr (u, [Operation_done i])" "cs_inv sha n (u, None)" "cs_pending u = None" "cs_same e u"
      by auto
    let ?u = "?e\<lparr>fd_configurationStore := u\<rparr>"
    have e_none: "fd_pending ?e = None" using s(2) by simp
    from fd_run_store [OF e_none u(1)] obtain m' where m': "Suc m' \<le> 2"
        "\<And>j. fd_run sha ser deser factory (Suc m' + j) ?e = (case fd_store_output [Operation_done i] ?u of (s', outs') \<Rightarrow>
          if fd_recovered outs' then Inr (s', outs') else fd_run sha ser deser factory j s')"
      by auto
    have "fd_store_output [Operation_done i] ?u = (?u\<lparr>fd_onRecovered := False\<rparr>, [On_factory_recovered True, Notify_observers i])"
      using s(4) by (simp add: fd_operation_done_def fd_call_on_recovered_def)
    moreover have "k - Suc m = Suc m' + (k - Suc m - Suc m')" using m'(1) k_split(2) by simp
    ultimately have "fd_run sha ser deser factory (k - Suc m) ?e = Inr (?u\<lparr>fd_onRecovered := False\<rparr>, [On_factory_recovered True, Notify_observers i])"
      using m'(2) [of "k - Suc m - Suc m'"] by simp
    moreover have "cs_recoverable sha n u = stored"
      using u(2,3) True by (intro cs_clean_recoverable [OF p]) (simp_all add: cs_inv_def)
    moreover have "cs_configuration u = (case stored of Some bs \<Rightarrow> deser bs | None \<Rightarrow> cs_configuration (fd_configurationStore s))"
      using u(4) e_pend(2) t_conf by (simp add: cs_same_def)
    ultimately show ?thesis using to_e True by (auto simp: fd_store_recover_def)
  qed
qed

section \<open>The factory default recovers, or is written\<close>

lemma fd_await_ram:
  "fd_ram s = ram \<Longrightarrow> fd_await cb (b, ram, r) s =
    s\<lparr>fd_factoryDefaultBlob := In_flash b, fd_pending := (case r of Waiting t \<Rightarrow> Some (t, cb) | _ \<Rightarrow> None)\<rparr>"
  by (cases s; cases "fd_configurationStore s") (simp add: fd_await_def fd_ram_def)

lemma fd_complete_default:
  assumes "fd_pending s = Some (t, cb)" and "fd_factoryDefaultBlob s = In_flash b"
    and "cb_complete sha (cs_vsize (fd_configurationStore s)) t b (fd_ram s) = Inr (b1, ram, r)"
  shows "fd_complete sha ser deser factory s = (case r of Waiting _ \<Rightarrow> Inr (fd_await cb (b1, ram, r) s, [])
    | _ \<Rightarrow> rbind (fd_call sha ser deser factory cb r (fd_await cb (b1, ram, r) s)) (\<lambda>s2. Inr (s2, [])))"
  using assms by (cases r) (simp_all add: fd_complete_def)

lemma fd_verifies:
  assumes "fd_pending s = Some (Verifying, Default_serialized)" and "fd_factoryDefaultBlob s = In_flash b"
    and "cb_fits n (cb_flash b)" and "take n (concat (cb_flash b)) = fd_ram s" and "cb_currentVerificationIndex b < n"
    and "0 < cs_vsize (fd_configurationStore s)"
  shows "\<exists>m \<le> n. fd_goes sha ser deser factory m s
    (fd_store_recover True (s\<lparr>fd_factoryDefaultBlob := In_flash (b\<lparr>cb_currentVerificationIndex := n\<rparr>), fd_pending := None\<rparr>))"
proof -
  have "\<exists>m \<le> n - cb_currentVerificationIndex b. fd_goes sha ser deser factory m s
      (fd_store_recover True (s\<lparr>fd_factoryDefaultBlob := In_flash (b\<lparr>cb_currentVerificationIndex := n\<rparr>), fd_pending := None\<rparr>))"
    using assms
  proof (induction "n - cb_currentVerificationIndex b" arbitrary: s b rule: less_induct)
    case less
    let ?i = "cb_currentVerificationIndex b + cb_piece_size b (fd_ram s) (cs_vsize (fd_configurationStore s))"
    let ?b = "b\<lparr>cb_currentVerificationIndex := ?i\<rparr>"
    let ?s = "s\<lparr>fd_factoryDefaultBlob := In_flash ?b, fd_pending := (if ?i \<noteq> n then Some (Verifying, Default_serialized) else None)\<rparr>"
    have "length (fd_ram s) = n" using cb_fits_length [OF less.prems(3)] less.prems(4) by simp
    then have i: "cb_currentVerificationIndex b < ?i" "?i \<le> n" using less.prems(5,6) by (auto simp: cb_piece_size_def)
    have c: "cb_complete sha (cs_vsize (fd_configurationStore s)) Verifying b (fd_ram s) =
        Inr (?b, fd_ram s, if ?i \<noteq> n then Waiting Verifying else Done)"
      using cb_complete_verifying [OF less.prems(3,4)] less.prems(5) by (simp add: Let_def)
    note step = fd_complete_default [OF less.prems(1,2) c, of ser deser factory]
    show ?case
    proof (cases "?i = n")
      case True
      then have "fd_complete sha ser deser factory s = Inr (fd_store_recover True ?s, [])" using step by (simp add: fd_await_ram)
      from fd_goes_step [OF this] show ?thesis using True less.prems(5) by (intro exI [of _ 1]) simp
    next
      case False
      then have "fd_complete sha ser deser factory s = Inr (?s, [])" using step by (simp add: fd_await_ram)
      note first = fd_goes_step [OF this]
      have "n - cb_currentVerificationIndex ?b < n - cb_currentVerificationIndex b" "cb_currentVerificationIndex ?b < n" using i False by simp_all
      from less.hyps [OF this(1) _ _ _ _ this(2), of ?s] obtain m where m: "m \<le> n - ?i" "fd_goes sha ser deser factory m ?s
          (fd_store_recover True (?s\<lparr>fd_factoryDefaultBlob := In_flash (?b\<lparr>cb_currentVerificationIndex := n\<rparr>), fd_pending := None\<rparr>))"
        using less.prems False by (auto simp: fd_ram_def)
      from fd_goes_trans [OF first m(2)] show ?thesis using m(1) i by (intro exI [of _ "1 + m"]) simp
    qed
  qed
  then show ?thesis by (meson diff_le_self order_trans)
qed

lemma fd_writes_default:
  assumes p: "cs_params sha ser n" and st: "cs_fits n (fd_configurationStore s)"
    and pend: "fd_pending s = Some (Erasing, Default_erased)" and b: "fd_factoryDefaultBlob s = In_flash b" and fits: "cb_fits n (cb_flash b)"
  shows "\<exists>m \<le> n + 2. \<exists>b' ram. fd_goes sha ser deser factory m s (fd_store_recover True (s\<lparr>fd_factoryDefaultBlob := In_flash b',
      fd_configurationStore := (fd_configurationStore s)\<lparr>cs_ram := ram\<rparr>, fd_pending := None\<rparr>)) \<and> length ram = n \<and>
    cb_content sha n (cb_flash b') = Some (ser (cs_configuration (fd_configurationStore s)))"
proof -
  let ?c = "ser (cs_configuration (fd_configurationStore s))"
  let ?b1 = "b\<lparr>cb_flash := fl_erased (cb_flash b)\<rparr>"
  let ?b2 = "?b1\<lparr>cb_currentSize := of_nat (length ?c)\<rparr>"
  have vsize: "0 < cs_vsize (fd_configurationStore s)" and ram_s: "length (fd_ram s) = n" using st by (simp_all add: cs_fits_def fd_ram_def)
  let ?s1 = "s\<lparr>fd_factoryDefaultBlob := In_flash ?b1, fd_pending := None\<rparr>"
  obtain ram where ram: "cs_serialize_blob sha ser ?b1 (fd_configurationStore s) = Inr (?b2, ram, Waiting Writing)" "length ram = n"
      "cb_blob_in sha ram = Some ?c"
    by (rule cs_serialize_blob_spec [OF p st])
  let ?s2 = "s\<lparr>fd_factoryDefaultBlob := In_flash ?b2, fd_configurationStore := (fd_configurationStore s)\<lparr>cs_ram := ram\<rparr>,
    fd_pending := Some (Writing, Default_serialized)\<rparr>"
  have "fd_complete sha ser deser factory s = Inr (?s2, [])"
    using fd_complete_default [OF pend b cb_complete_erasing, of sha ser deser factory] ram(1)
    by (simp add: fd_await_ram fd_serialize_default_def) (simp add: fd_await_def)
  note first = fd_goes_step [OF this]
  have clean: "cb_fits n (cb_flash ?b2)" "cb_clean n (cb_flash ?b2)" "length (fd_ram ?s2) = n" using fits ram(2) by (simp_all add: fd_ram_def)
  obtain fl where fl: "cb_complete sha (cs_vsize (fd_configurationStore s)) Writing ?b2 (fd_ram ?s2) =
      Inr (?b2\<lparr>cb_flash := fl, cb_currentVerificationIndex := 0\<rparr>, fd_ram ?s2, Waiting Verifying)"
      "map length fl = map length (cb_flash ?b2)" "take n (concat fl) = fd_ram ?s2"
    by (rule cb_complete_writing [OF clean(1,3,2)])
  let ?b3 = "?b2\<lparr>cb_flash := fl, cb_currentVerificationIndex := 0\<rparr>"
  let ?s3 = "?s2\<lparr>fd_factoryDefaultBlob := In_flash ?b3, fd_pending := Some (Verifying, Default_serialized)\<rparr>"
  have "fd_complete sha ser deser factory ?s2 = Inr (?s3, [])"
    using fd_complete_default [of ?s2 Writing Default_serialized ?b2 sha ?b3 "fd_ram ?s2" "Waiting Verifying" ser deser factory] fl(1)
    by (simp add: fd_await_ram)
  note second = fd_goes_trans [OF first fd_goes_step [OF this]]
  have "0 < n" using fits by (simp add: cb_fits_def)
  moreover have "cb_fits n (cb_flash ?b3)" using cb_fits_lengths [OF fl(2)] clean(1) by simp
  ultimately have "0 < n" "cb_fits n (cb_flash ?b3)" .
  with fd_verifies [of ?s3 ?b3 n sha ser deser factory] fl(3) vsize obtain m where m: "m \<le> n" "fd_goes sha ser deser factory m ?s3
      (fd_store_recover True (?s3\<lparr>fd_factoryDefaultBlob := In_flash (?b3\<lparr>cb_currentVerificationIndex := n\<rparr>), fd_pending := None\<rparr>))"
    by (auto simp: fd_ram_def)
  have "cb_content sha n fl = Some ?c" using fl(3) ram(3) by (simp add: cb_content_def fd_ram_def)
  moreover have "?s3\<lparr>fd_factoryDefaultBlob := In_flash (?b3\<lparr>cb_currentVerificationIndex := n\<rparr>), fd_pending := None\<rparr> =
      s\<lparr>fd_factoryDefaultBlob := In_flash (?b3\<lparr>cb_currentVerificationIndex := n\<rparr>),
        fd_configurationStore := (fd_configurationStore s)\<lparr>cs_ram := ram\<rparr>, fd_pending := None\<rparr>" by simp
  moreover note fd_goes_trans [OF second m(2)]
  ultimately have goes: "fd_goes sha ser deser factory (1 + 1 + m) s (fd_store_recover True (s\<lparr>fd_factoryDefaultBlob := In_flash (?b3\<lparr>cb_currentVerificationIndex := n\<rparr>),
        fd_configurationStore := (fd_configurationStore s)\<lparr>cs_ram := ram\<rparr>, fd_pending := None\<rparr>))" by (simp only:)
  show ?thesis
  proof (intro exI conjI)
    show "1 + 1 + m \<le> n + 2" using m(1) by simp
    show "cb_content sha n (cb_flash (?b3\<lparr>cb_currentVerificationIndex := n\<rparr>)) = Some ?c" using fl(3) ram(3) by (simp add: cb_content_def fd_ram_def)
  qed (rule goes, rule ram(2))
qed

lemma cs_construct_spec:
  assumes "cb_fits n fl1" and "cb_fits n fl2" and "length ram = n" and "0 < vsize"
  obtains s where "cs_construct fl1 fl2 ram vsize c = Inr s" and "cs_fits n s" and "cs_activeBlob s = First" and "\<not> cs_writingBlob s"
    and "\<And>sha. cs_recoverable sha n s = (if cb_content sha n fl1 \<noteq> None then cb_content sha n fl1 else cb_content sha n fl2)"
    and "cs_configuration s = c" and "cs_ram s = ram" and "cs_vsize s = vsize"
proof -
  have "cb_new ram fl = Inr \<lparr>cb_flash = fl, cb_currentSize = 0, cb_currentVerificationIndex = 0\<rparr>" if "cb_fits n fl" for fl
    using that assms(3) fl_total_size_concat [of fl] by (simp add: cb_new_def cb_fits_def fl_ok_def)
  then have new: "cs_construct fl1 fl2 ram vsize c = Inr \<lparr>cs_activeBlob = First, cs_inactiveBlob = Second,
      cs_blob1 = \<lparr>cb_flash = fl1, cb_currentSize = 0, cb_currentVerificationIndex = 0\<rparr>,
      cs_blob2 = \<lparr>cb_flash = fl2, cb_currentSize = 0, cb_currentVerificationIndex = 0\<rparr>, cs_ram = ram, cs_vsize = vsize,
      cs_operationId = 0, cs_writingBlob = False, cs_writeRequested = False, cs_lockCount = 0, cs_configuration = c, cs_pending = None\<rparr>"
    (is "_ = Inr ?s") using assms(1,2) by (simp add: cs_construct_def)
  have flash: "cb_flash (cs_blob ?s w) = (case w of First \<Rightarrow> fl1 | Second \<Rightarrow> fl2)" for w
    by (cases w) (simp_all add: cs_blob.simps)
  then have "cs_fits n ?s" using assms by (auto simp: cs_fits_def split: which_blob.splits)
  moreover have "cs_recoverable sha n ?s = (if cb_content sha n fl1 \<noteq> None then cb_content sha n fl1 else cb_content sha n fl2)" for sha
    by (simp add: cs_recoverable_def cs_held_def flash)
  ultimately show thesis using that [OF new] by simp
qed

text \<open>C9: a store with a factory default recovers, whatever the three flashes hold: the configuration is the one that was
  stored, and otherwise the factory default, and the client is told which. When the default's own flash holds none, it
  is loaded and written there first, and then remains. What was stored is stored afterwards. For this it takes at most \<open>2 n + 10\<close> operations
  of the flashes, for blobs of \<open>n\<close> bytes.\<close>

theorem factory_default_recovers:
  assumes "cs_params sha ser n" and "cb_fits n fl0" and "cb_fits n fl1" and "cb_fits n fl2" and "length ram = n" and "0 < vsize"
    and "stored = (if cb_content sha n fl1 \<noteq> None then cb_content sha n fl1 else cb_content sha n fl2)"
    and "dflt = (case cb_content sha n fl0 of Some bs \<Rightarrow> (bs, deser bs) | None \<Rightarrow> (ser factory, factory))"
  shows "\<exists>s s' outs b. fd_new deser factory fl0 fl1 fl2 ram vsize c = Inr s \<and>
    fd_run sha ser deser factory (2 * n + 10) s = Inr (s', outs) \<and> On_factory_recovered (stored = None) \<in> set outs \<and>
    cs_configuration (fd_configurationStore s') = (case stored of Some bs \<Rightarrow> deser bs | None \<Rightarrow> snd dflt) \<and>
    cs_recoverable sha n (fd_configurationStore s') = stored \<and>
    fd_factoryDefaultBlob s' = In_flash b \<and> cb_content sha n (cb_flash b) = Some (fst dflt)"
proof -
  obtain st where st: "cs_construct fl1 fl2 ram vsize c = Inr st" "cs_fits n st" "cs_activeBlob st = First" "\<not> cs_writingBlob st"
      "\<And>sha. cs_recoverable sha n st = (if cb_content sha n fl1 \<noteq> None then cb_content sha n fl1 else cb_content sha n fl2)"
      "cs_configuration st = c" "cs_ram st = ram" "cs_vsize st = vsize"
    by (rule cs_construct_spec [OF assms(3-6), of c]) blast
  let ?d = "\<lparr>cb_flash = fl0, cb_currentSize = 0, cb_currentVerificationIndex = 0\<rparr>"
  have "cb_new ram fl0 = Inr ?d"
    using assms(2,5) fl_total_size_concat [of fl0] by (simp add: cb_new_def cb_fits_def fl_ok_def)
  moreover define s where "s = (fd_construct st (In_flash ?d))\<lparr>fd_onRecovered := True, fd_pending := Some (Recovering, Default_recovered)\<rparr>"
  ultimately have new: "fd_new deser factory fl0 fl1 fl2 ram vsize c = Inr s"
    using st(1) by (simp add: fd_new_def fd_recover_def cb_recover_def Let_def fd_await_ram fd_construct_def)
  have s: "fd_pending s = Some (Recovering, Default_recovered)" "fd_factoryDefaultBlob s = In_flash ?d" "fd_configurationStore s = st" "fd_ram s = ram"
      "fd_onRecovered s"
    using st(7) by (simp_all add: s_def fd_construct_def fd_ram_def)
  let ?ram = "take n (concat fl0)"
  have len: "length ?ram = n" by (rule cb_fits_length [OF assms(2)])
  have rec: "cb_complete sha (cs_vsize (fd_configurationStore s)) Recovering ?d (fd_ram s) =
      (if cb_content sha n fl0 = None then Inr (?d, ?ram, Recovered False)
       else Inr (?d\<lparr>cb_currentSize := cb_header_size ?ram\<rparr>, ?ram, Recovered True))"
    using cb_complete_recovering [of n ?d "fd_ram s" sha "cs_vsize (fd_configurationStore s)"] assms(2,5) by (simp add: s Let_def)
  have fits: "cs_fits n (st\<lparr>cs_ram := r, cs_configuration := x\<rparr>)" if "length r = n" for r x
    using st(2) that by (simp add: cs_fits_def)
  have stored: "cs_recoverable sha n (st\<lparr>cs_ram := r, cs_configuration := x\<rparr>) = stored" for r x
  proof -
    have "cs_recoverable sha n (st\<lparr>cs_ram := r, cs_configuration := x\<rparr>) = cs_recoverable sha n st"
      by (simp add: cs_recoverable_def cs_held_def)
    then show ?thesis using st(5) [of sha] assms(7) by simp
  qed
  show ?thesis
  proof (cases "cb_content sha n fl0")
    case (Some bs)
    let ?b = "?d\<lparr>cb_currentSize := cb_header_size ?ram\<rparr>"
    let ?t = "s\<lparr>fd_factoryDefaultBlob := In_flash ?b, fd_pending := None, fd_configurationStore := st\<lparr>cs_ram := ?ram, cs_configuration := deser bs\<rparr>\<rparr>"
    have "cb_current_blob ?b ?ram = bs"
      using Some by (auto simp: cb_content_def cb_blob_in_def cb_current_blob_def split: if_splits)
    then have "fd_complete sha ser deser factory s = Inr (fd_store_recover False ?t, [])"
      using fd_complete_default [OF s(1,2), of sha ?b ?ram "Recovered True" ser deser factory] rec Some
      by (simp add: fd_default_recovered_def fd_deserialize_default_def fd_await_def fd_ram_def s(3))
    then have "fd_goes sha ser deser factory 1 s (fd_store_recover False ?t)" by (rule fd_goes_step)
    then have all: "fd_run sha ser deser factory (1 + (2 * n + 9)) s = fd_run sha ser deser factory (2 * n + 9) (fd_store_recover False ?t)"
      unfolding fd_goes_def by blast
    have steps: "1 + (2 * n + 9) = 2 * n + 10" by simp
    obtain s' outs where r: "fd_run sha ser deser factory (2 * n + 9) (fd_store_recover False ?t) = Inr (s', outs)"
        "On_factory_recovered (stored = None) \<in> set outs" "fd_factoryDefaultBlob s' = fd_factoryDefaultBlob ?t"
        "cs_configuration (fd_configurationStore s') = (case stored of Some bs \<Rightarrow> deser bs | None \<Rightarrow> cs_configuration (fd_configurationStore ?t))"
        "cs_recoverable sha n (fd_configurationStore s') = stored"
      using fd_store_recovers [OF assms(1), of ?t stored "2 * n + 9" deser factory False] fits [OF len] st(3,4) s(5) stored by auto
    have run: "fd_run sha ser deser factory (2 * n + 10) s = Inr (s', outs)" using all r(1) unfolding steps by (rule trans)
    have conf: "cs_configuration (fd_configurationStore s') = (case stored of Some bs \<Rightarrow> deser bs | None \<Rightarrow> snd dflt)"
      using r(4) assms(8) Some by (cases stored) simp_all
    show ?thesis
    proof (intro exI conjI)
      show "fd_factoryDefaultBlob s' = In_flash ?b" using r(3) by simp
      show "cb_content sha n (cb_flash ?b) = Some (fst dflt)" using Some assms(8) by simp
    qed (rule new, rule run, rule r(2), rule conf, rule r(5))
  next
    case None
    let ?t = "s\<lparr>fd_factoryDefaultBlob := In_flash ?d, fd_configurationStore := st\<lparr>cs_ram := ?ram, cs_configuration := factory\<rparr>,
      fd_pending := Some (Erasing, Default_erased)\<rparr>"
    have "fd_complete sha ser deser factory s = Inr (?t, [])"
      using fd_complete_default [OF s(1,2), of sha ?d ?ram "Recovered False" ser deser factory] rec None
      by (simp add: fd_default_recovered_def fd_erase_default_def cb_erase_def fd_await_def fd_ram_def s(3))
    note first = fd_goes_step [OF this]
    have "cs_fits n (fd_configurationStore ?t)" "fd_pending ?t = Some (Erasing, Default_erased)" "fd_factoryDefaultBlob ?t = In_flash ?d" "cb_fits n (cb_flash ?d)"
      using fits [OF len] assms(2) by simp_all
    from fd_writes_default [OF assms(1) this, of deser factory] obtain m b' ram' where m: "m \<le> n + 2" "length ram' = n"
        "fd_goes sha ser deser factory m ?t (fd_store_recover True (?t\<lparr>fd_factoryDefaultBlob := In_flash b',
          fd_configurationStore := (fd_configurationStore ?t)\<lparr>cs_ram := ram'\<rparr>, fd_pending := None\<rparr>))"
        "cb_content sha n (cb_flash b') = Some (ser factory)"
      by auto
    let ?u = "?t\<lparr>fd_factoryDefaultBlob := In_flash b', fd_configurationStore := st\<lparr>cs_ram := ram', cs_configuration := factory\<rparr>, fd_pending := None\<rparr>"
    have u: "?t\<lparr>fd_factoryDefaultBlob := In_flash b', fd_configurationStore := (fd_configurationStore ?t)\<lparr>cs_ram := ram'\<rparr>, fd_pending := None\<rparr> = ?u"
      by simp
    have "fd_goes sha ser deser factory (1 + m) s (fd_store_recover True ?u)" using fd_goes_trans [OF first m(3)] unfolding u .
    then have run: "fd_run sha ser deser factory (1 + m + (2 * n + 9 - m)) s = fd_run sha ser deser factory (2 * n + 9 - m) (fd_store_recover True ?u)"
      unfolding fd_goes_def by blast
    have steps: "1 + m + (2 * n + 9 - m) = 2 * n + 10" "n + 6 \<le> 2 * n + 9 - m" using m(1) by simp_all
    from steps(2) obtain s' outs where r: "fd_run sha ser deser factory (2 * n + 9 - m) (fd_store_recover True ?u) = Inr (s', outs)"
        "On_factory_recovered (stored = None) \<in> set outs" "fd_factoryDefaultBlob s' = fd_factoryDefaultBlob ?u"
        "cs_configuration (fd_configurationStore s') = (case stored of Some bs \<Rightarrow> deser bs | None \<Rightarrow> cs_configuration (fd_configurationStore ?u))"
        "cs_recoverable sha n (fd_configurationStore s') = stored"
      using fd_store_recovers [OF assms(1), of ?u stored "2 * n + 9 - m" deser factory True] fits [OF m(2)] st(3,4) s(5) stored by auto
    have run': "fd_run sha ser deser factory (2 * n + 10) s = Inr (s', outs)" using run r(1) unfolding steps(1) by (rule trans)
    have conf: "cs_configuration (fd_configurationStore s') = (case stored of Some bs \<Rightarrow> deser bs | None \<Rightarrow> snd dflt)"
      using r(4) assms(8) None by (cases stored) simp_all
    show ?thesis
    proof (intro exI conjI)
      show "fd_factoryDefaultBlob s' = In_flash b'" using r(3) by simp
      show "cb_content sha n (cb_flash b') = Some (fst dflt)" using None assms(8) m(4) by simp
    qed (rule new, rule run', rule r(2), rule conf, rule r(5))
  qed
qed

theorem factory_default_recovers_witness:
  "\<exists>s s' outs b. fd_new hd (9 :: byte) (fl_new 1 16) (fl_new 1 16) (fl_new 1 16) (replicate 16 0) 8 0 = Inr s \<and>
    fd_run (\<lambda>_. replicate 8 0) (\<lambda>c. [c]) hd 9 42 s = Inr (s', outs) \<and> On_factory_recovered True \<in> set outs \<and>
    cs_configuration (fd_configurationStore s') = 9 \<and>
    fd_factoryDefaultBlob s' = In_flash b \<and> cb_content (\<lambda>_. replicate 8 0) 16 (cb_flash b) = Some [9]"
proof -
  have fits: "cb_fits 16 (fl_new 1 16)" by (simp add: cb_fits_def fl_ok_def fl_new_def)
  have none: "cb_content (\<lambda>_. replicate 8 0) 16 (fl_new 1 16) = None"
    using cs_example_params by (simp add: cb_content_def fl_new_def cs_params_def)
  have a: "length (replicate 16 (0 :: byte)) = 16" "(0 :: nat) < 8" by simp_all
  have d: "None = (if cb_content (\<lambda>_. replicate 8 0) 16 (fl_new 1 16) \<noteq> None then cb_content (\<lambda>_. replicate 8 0) 16 (fl_new 1 16)
      else cb_content (\<lambda>_. replicate 8 0) 16 (fl_new 1 16))"
    "([9], 9) = (case cb_content (\<lambda>_. replicate 8 0) 16 (fl_new 1 16) of Some bs \<Rightarrow> (bs, hd bs) | None \<Rightarrow> ([9 :: byte], 9))"
    using none by simp_all
  from factory_default_recovers [OF cs_example_params fits fits fits a d, of 0] show ?thesis by simp blast
qed

end
