(* ===== verification/Json_String.thy ===== *)
theory Json_String
  imports Text_Roundtrip
begin

text \<open>
  Strings of JSON (infra/syntax/Json.cpp and Json.hpp, EscapeCharacterHelper.cpp, the escaping of
  JsonFormatter.cpp). \<open>JsonString\<close> is the raw text between the quotes; \<open>JsonStringIterator\<close> decodes it: the
  iterator is modelled by the raw characters from its position to the end. Escaping writes a text
  so that it can stand between quotes. The lemmas: which raw texts decode, that decoding undoes
  escaping except for the backslash, which the formatter forgets, and the sizes.
\<close>

section \<open>Decoding\<close>

abbreviation quote :: char where "quote \<equiv> CHR 0x22"
abbreviation backslash :: char where "backslash \<equiv> CHR 0x5C"

definition json_hex_digit :: "char \<Rightarrow> nat option" where
  "json_hex_digit c = (let v = of_char c in
     if 48 \<le> v \<and> v \<le> 57 then Some (v - 48)
     else if 97 \<le> v \<and> v \<le> 102 then Some (v - 97 + 10)
     else if 65 \<le> v \<and> v \<le> 70 then Some (v - 65 + 10) else None)"

text \<open>\<open>result\<close> is a \<open>char\<close>: it is cut off to eight bits after each digit.\<close>

fun jsi_unicode :: "nat \<Rightarrow> nat \<Rightarrow> string \<Rightarrow> nat" where
  "jsi_unicode (Suc n) r (c # cs) = (case json_hex_digit c of Some d \<Rightarrow> jsi_unicode n ((r * 16 + d) mod 256) cs | None \<Rightarrow> r)"
| "jsi_unicode n r cs = r"

definition jsi_escaped :: "char \<Rightarrow> string \<Rightarrow> char" where
  "jsi_escaped d ds = (if d = quote then quote else if d = backslash then backslash
     else if d = CHR ''b'' then CHR 0x08 else if d = CHR ''f'' then CHR 0x0C else if d = CHR ''n'' then CHR 0x0A
     else if d = CHR ''r'' then CHR 0x0D else if d = CHR ''t'' then CHR 0x09
     else if d = CHR ''u'' then char_of (jsi_unicode 4 0 ds) else d)"

fun jsi_deref :: "string \<Rightarrow> char result" where
  "jsi_deref [] = Inl Out_of_bounds"
| "jsi_deref (c # cs) = (if c = backslash then (case cs of [] \<Rightarrow> Inl Assert_failed | d # ds \<Rightarrow> Inr (jsi_escaped d ds)) else Inr c)"

fun jsi_skip_hex :: "nat \<Rightarrow> string \<Rightarrow> string" where
  "jsi_skip_hex (Suc n) (c # cs) = (if json_hex_digit c = None then c # cs else jsi_skip_hex n cs)"
| "jsi_skip_hex n cs = cs"

fun jsi_next :: "string \<Rightarrow> string" where
  "jsi_next [] = []"
| "jsi_next (c # cs) = (if c = backslash
     then (case cs of [] \<Rightarrow> [] | d # ds \<Rightarrow> if d = CHR ''u'' then jsi_skip_hex 4 ds else ds) else cs)"

lemma length_jsi_skip_hex: "length (jsi_skip_hex n cs) \<le> length cs"
  by (induction n cs rule: jsi_skip_hex.induct) auto

lemma jsi_next_shorter [simp]: "s \<noteq> [] \<Longrightarrow> length (jsi_next s) < length s"
  by (cases s) (auto split: list.splits intro: le_less_trans [OF length_jsi_skip_hex])

text \<open>Running over a string from \<open>begin()\<close> to \<open>end()\<close>.\<close>

function json_chars :: "string \<Rightarrow> string result" where
  "json_chars s = (if s = [] then Inr []
     else rbind (jsi_deref s) (\<lambda>c. rbind (json_chars (jsi_next s)) (\<lambda>cs. Inr (c # cs))))"
  by pat_completeness auto
termination by (relation "measure length") auto

function json_size :: "string \<Rightarrow> nat" where
  "json_size s = (if s = [] then 0 else Suc (json_size (jsi_next s)))"
  by pat_completeness auto
termination by (relation "measure length") auto

definition json_empty :: "string \<Rightarrow> bool" where
  "json_empty s \<longleftrightarrow> json_size s = 0"

function json_equals :: "string \<Rightarrow> string \<Rightarrow> bool result" where
  "json_equals s other = (if s \<noteq> [] \<and> other \<noteq> []
     then rbind (jsi_deref s) (\<lambda>c. if c \<noteq> hd other then Inr False else json_equals (jsi_next s) (tl other))
     else Inr (s = [] \<and> other = []))"
  by pat_completeness auto
termination by (relation "measure (\<lambda>(s, _). length s)") auto

definition json_equals_cstr :: "string \<Rightarrow> string \<Rightarrow> bool result" where
  "json_equals_cstr s other = json_equals s (c_str other)"

function json_append_to :: "bstr \<Rightarrow> string \<Rightarrow> bstr result" where
  "json_append_to b s = (if s = [] then Inr b
     else rbind (jsi_deref s) (\<lambda>c. rbind (bs_push_back b c)
       (\<lambda>b'. if bs_full b' then Inr b' else json_append_to b' (jsi_next s))))"
  by pat_completeness auto
termination by (relation "measure (\<lambda>(_, s). length s)") auto

definition json_to_string :: "bstr \<Rightarrow> string \<Rightarrow> bstr result" where
  "json_to_string b s = json_append_to (bs_clear b) s"

definition json_to_std_string :: "string \<Rightarrow> string result" where
  "json_to_std_string s = json_chars s"

definition out_json_string :: "string \<Rightarrow> string list result" where
  "out_json_string s = rbind (json_chars s) (\<lambda>cs. Inr (map (\<lambda>c. [c]) cs))"

declare json_chars.simps [simp del] json_size.simps [simp del] json_equals.simps [simp del] json_append_to.simps [simp del]

section \<open>Escaping\<close>

definition characters_to_escape :: string where
  "characters_to_escape = [CHR ''<'', CHR ''>'', CHR ''&'', CHR 0x27, quote]"

definition escaped_character_size :: "char \<Rightarrow> nat" where
  "escaped_character_size c =
     (if c \<in> {quote, backslash, CHR 0x08, CHR 0x0C, CHR 0x0A, CHR 0x0D, CHR 0x09} then 2 else 6)"

definition replace_escape_character :: "char \<Rightarrow> string list" where
  "replace_escape_character c =
     (if c = quote then [[backslash, quote]] else if c = backslash then [[backslash, backslash]]
      else if c = CHR 0x08 then [[backslash, CHR ''b'']] else if c = CHR 0x0C then [[backslash, CHR ''f'']]
      else if c = CHR 0x0A then [[backslash, CHR ''n'']] else if c = CHR 0x0D then [[backslash, CHR ''r'']]
      else if c = CHR 0x09 then [[backslash, CHR ''t'']]
      else [backslash, CHR ''u''] # out_u8 (tf_with_width (tf_hex tf_default) 4 CHR ''0'') (of_nat (of_char c)))"

definition non_escaped_sub_string :: "bool \<Rightarrow> string \<Rightarrow> string \<Rightarrow> nat \<Rightarrow> nat \<times> string" where
  "non_escaped_sub_string sc chars s start =
     (let escape = (case find_forward (\<lambda>c. c \<in> set chars) (drop start s) start of Some i \<Rightarrow> i | None \<Rightarrow> length s)
      in case find_forward (\<lambda>c. char_value sc c < 32) (take (escape - start) (drop start s)) start of
           Some control \<Rightarrow> (control, take (control - start) (drop start s))
         | None \<Rightarrow> (escape, take (escape - start) (drop start s)))"

lemma non_escaped_bound: "start \<le> length s \<Longrightarrow> start \<le> fst (non_escaped_sub_string sc chars s start)"
  by (auto simp: non_escaped_sub_string_def Let_def find_forward_Some split: option.splits)

lemma non_escaped_progress:
  "(escape, sub) = non_escaped_sub_string sc chars s start \<Longrightarrow> start < length s \<Longrightarrow> length s - Suc escape < length s - start"
  using non_escaped_bound [of start s sc chars] by (metis diff_less_mono2 fst_conv le_imp_less_Suc less_imp_le)

function insert_escaped_content :: "bool \<Rightarrow> string \<Rightarrow> (char \<Rightarrow> string list) \<Rightarrow> string \<Rightarrow> nat \<Rightarrow> string list" where
  "insert_escaped_content sc chars replace s start =
     (if start < length s
      then case non_escaped_sub_string sc chars s start of (escape, sub) \<Rightarrow>
        (if sub \<noteq> [] then [sub] else []) @
        (if escape < length s then replace (s ! escape) @ insert_escaped_content sc chars replace s (escape + 1) else [])
      else [])"
  by pat_completeness auto
termination
  by (relation "measure (\<lambda>(_, _, _, s, start). length s - start)") (auto intro: non_escaped_progress)

declare insert_escaped_content.simps [simp del]

definition json_insert_escaped_content :: "bool \<Rightarrow> string \<Rightarrow> string list" where
  "json_insert_escaped_content sc content =
     insert_escaped_content sc characters_to_escape replace_escape_character content 0"

function json_escaped_size_loop :: "bool \<Rightarrow> string \<Rightarrow> nat \<Rightarrow> nat \<Rightarrow> nat" where
  "json_escaped_size_loop sc s start n =
     (if start < length s
      then case non_escaped_sub_string sc characters_to_escape s start of (escape, sub) \<Rightarrow>
        if escape < length s then json_escaped_size_loop sc s (escape + 1) (n + length sub + escaped_character_size (s ! escape))
        else n + length sub
      else n)"
  by pat_completeness auto
termination
  by (relation "measure (\<lambda>(_, s, start, _). length s - start)") (auto intro: non_escaped_progress)

declare json_escaped_size_loop.simps [simp del]

definition json_escaped_string_size :: "bool \<Rightarrow> string \<Rightarrow> nat" where
  "json_escaped_string_size sc s = json_escaped_size_loop sc s 0 0"

function json_max_escaped_loop :: "bool \<Rightarrow> string \<Rightarrow> nat \<Rightarrow> nat \<Rightarrow> nat \<Rightarrow> nat" where
  "json_max_escaped_loop sc s maxSize start n =
     (if start < length s \<and> n < maxSize
      then let sub = snd (non_escaped_sub_string sc characters_to_escape s start);
               increment = (if sub \<noteq> [] then min (length sub) (maxSize - n) else 0);
               n1 = n + increment; start1 = start + increment
           in if start1 < length s
              then if escaped_character_size (s ! start1) > maxSize - n1 then start1
                   else json_max_escaped_loop sc s maxSize (start1 + 1) (n1 + escaped_character_size (s ! start1))
              else start1
      else start)"
  by pat_completeness auto
termination
  by (relation "measure (\<lambda>(_, s, _, start, _). length s - start)") (auto intro!: diff_less_mono2)

declare json_max_escaped_loop.simps [simp del]

definition json_sub_string_of_max_escaped_size :: "bool \<Rightarrow> string \<Rightarrow> nat \<Rightarrow> string" where
  "json_sub_string_of_max_escaped_size sc s maxSize = take (json_max_escaped_loop sc s maxSize 0 0) s"

section \<open>What is decoded\<close>

lemma json_chars_Nil [simp]: "json_chars [] = Inr []"
  by (simp add: json_chars.simps)

lemma json_chars_step: "s \<noteq> [] \<Longrightarrow> json_chars s = rbind (jsi_deref s) (\<lambda>c. rbind (json_chars (jsi_next s)) (\<lambda>cs. Inr (c # cs)))"
  by (simp add: json_chars.simps [of s])

lemma json_chars_Inr:
  assumes "json_chars s = Inr cs" "s \<noteq> []"
  shows "\<exists>c cs'. cs = c # cs' \<and> jsi_deref s = Inr c \<and> json_chars (jsi_next s) = Inr cs'"
  using assms by (auto simp: json_chars_step rbind_Inr)

lemma json_size_chars: "json_chars s = Inr cs \<Longrightarrow> json_size s = length cs"
proof (induction s arbitrary: cs rule: json_size.induct)
  case (1 s)
  show ?case
  proof (cases "s = []")
    case False
    with json_chars_Inr [OF 1(2) False] 1(1) show ?thesis by (auto simp: json_size.simps [of s])
  qed (use 1 in \<open>simp add: json_size.simps\<close>)
qed

lemma json_equals_chars: "json_chars s = Inr cs \<Longrightarrow> json_equals s other = Inr (cs = other)"
proof (induction s arbitrary: cs other rule: json_size.induct)
  case (1 s)
  show ?case
  proof (cases "s = []")
    case False
    with json_chars_Inr [OF 1(2) False] 1(1) show ?thesis
      by (cases other) (auto simp: json_equals.simps [of s])
  qed (use 1 in \<open>auto simp: json_equals.simps\<close>)
qed

text \<open>Appending stops when the string is full; it looks for room only after it has appended.\<close>

lemma json_append_to_holds:
  "json_chars s = Inr cs \<Longrightarrow> bs_ok b \<Longrightarrow> \<not> bs_full b \<Longrightarrow>
   holds (json_append_to b s) b (take (bs_max_size b) (bs_contents b @ cs))"
proof (induction b s arbitrary: cs rule: json_append_to.induct)
  case (1 b s)
  note ok = \<open>bs_ok b\<close>
  show ?case
  proof (cases "s = []")
    case True
    then have "cs = []" using 1(2) by simp
    then show ?thesis using True ok by (simp add: json_append_to.simps holds_def bs_ok_def)
  next
    case False
    obtain c cs' where c: "cs = c # cs'" "jsi_deref s = Inr c" "json_chars (jsi_next s) = Inr cs'"
      using json_chars_Inr [OF 1(2) False] by auto
    obtain b' where b': "bs_push_back b c = Inr b'" "bs_ok b'" "bs_max_size b' = bs_max_size b" "bs_contents b' = bs_contents b @ [c]"
      using bs_push_back_holds(2) [OF ok 1(4), of c] by (auto simp: holds_def)
    have step: "json_append_to b s = (if bs_full b' then Inr b' else json_append_to b' (jsi_next s))"
      using False c b' by (simp add: json_append_to.simps [of b s])
    show ?thesis
    proof (cases "bs_full b'")
      case True
      then have "bs_max_size b = Suc (length (bs_contents b))" using b' bs_full_iff [of b'] by simp
      then show ?thesis using step True b' c by (simp add: holds_def)
    next
      case full: False
      show ?thesis using 1(1) [OF False full c(3) b'(2) full] step full b' c by (simp add: holds_def)
    qed
  qed
qed

lemma json_append_to_full: "bs_ok b \<Longrightarrow> bs_full b \<Longrightarrow> jsi_deref s = Inr c \<Longrightarrow> json_append_to b s = Inl Assert_failed"
  using bs_push_back_holds(1) [of b c] by (cases s) (auto simp: json_append_to.simps [of b])

text \<open>The raw texts a tokenizer hands out: no quote outside an escape, and no escape left open.\<close>

fun json_raw :: "bool \<Rightarrow> string \<Rightarrow> bool" where
  "json_raw escape [] = (\<not> escape)"
| "json_raw escape (c # cs) = ((escape \<or> c \<noteq> quote) \<and> json_raw (\<not> escape \<and> c = backslash) cs)"

lemma json_hex_digit_plain: "json_hex_digit c = Some d \<Longrightarrow> c \<noteq> backslash \<and> c \<noteq> quote"
  by (auto simp: json_hex_digit_def Let_def)

lemma json_raw_skip_hex: "json_raw False s \<Longrightarrow> json_raw False (jsi_skip_hex n s)"
proof (induction n s rule: jsi_skip_hex.induct)
  case (1 n c cs)
  then show ?case by (cases "json_hex_digit c") (use json_hex_digit_plain [of c] in auto)
qed auto

lemma json_raw_next: "json_raw False s \<Longrightarrow> json_raw False (jsi_next s)"
  by (cases s rule: jsi_next.cases) (auto split: list.splits intro: json_raw_skip_hex)

lemma json_raw_chars: "json_raw False s \<Longrightarrow> \<exists>cs. json_chars s = Inr cs"
proof (induction s rule: json_size.induct)
  case (1 s)
  show ?case
  proof (cases s)
    case (Cons c cs)
    then have "\<exists>d. jsi_deref s = Inr d" using 1(2) by (cases cs) auto
    then show ?thesis using 1(1) [OF _ json_raw_next [OF 1(2)]] Cons by (auto simp: json_chars_step)
  qed simp
qed

section \<open>What is escaped\<close>

definition needs_escape :: "bool \<Rightarrow> string \<Rightarrow> char \<Rightarrow> bool" where
  "needs_escape sc chars c \<longleftrightarrow> c \<in> set chars \<or> char_value sc c < 32"

lemma find_forward_eq:
  "find_forward P xs i = (if \<exists>x \<in> set xs. P x then Some (i + length (takeWhile (\<lambda>x. \<not> P x) xs)) else None)"
  by (induction xs arbitrary: i) auto

lemma takeWhile_takeWhile: "takeWhile P (takeWhile Q xs) = takeWhile (\<lambda>x. Q x \<and> P x) xs"
  by (induction xs) auto

lemma non_escaped_eq:
  assumes "start \<le> length s"
  shows "non_escaped_sub_string sc chars s start =
    (let sub = takeWhile (\<lambda>c. \<not> needs_escape sc chars c) (drop start s) in (start + length sub, sub))"
proof -
  let ?xs = "drop start s" and ?P = "\<lambda>c. c \<in> set chars" and ?Q = "\<lambda>c. char_value sc c < 32"
  let ?n = "length (takeWhile (\<lambda>c. \<not> ?P c) ?xs)"
  have first: "(case find_forward ?P ?xs start of Some i \<Rightarrow> i | None \<Rightarrow> length s) = start + ?n"
  proof (cases "\<exists>x \<in> set ?xs. ?P x")
    case True
    then show ?thesis by (simp add: find_forward_eq)
  next
    case False
    then have all: "takeWhile (\<lambda>c. \<not> ?P c) ?xs = ?xs" by (intro takeWhile_eq_all_conv [THEN iffD2]) auto
    have "start + ?n = length s" unfolding all using assms by simp
    then show ?thesis using False by (simp add: find_forward_eq)
  qed
  have part: "take ?n ?xs = takeWhile (\<lambda>c. \<not> ?P c) ?xs" by (simp add: take_length_takeWhile)
  have both: "takeWhile (\<lambda>c. \<not> ?Q c) (takeWhile (\<lambda>c. \<not> ?P c) ?xs) = takeWhile (\<lambda>c. \<not> needs_escape sc chars c) ?xs"
    by (simp add: takeWhile_takeWhile needs_escape_def)
  show ?thesis
  proof (cases "\<exists>x \<in> set (takeWhile (\<lambda>c. \<not> ?P c) ?xs). ?Q x")
    case True
    then have "find_forward ?Q (take ?n ?xs) start = Some (start + length (takeWhile (\<lambda>c. \<not> needs_escape sc chars c) ?xs))"
      by (simp add: find_forward_eq part both)
    then show ?thesis
      by (simp add: non_escaped_sub_string_def first Let_def take_length_takeWhile)
  next
    case False
    then have none: "find_forward ?Q (take ?n ?xs) start = None" by (simp add: find_forward_eq part)
    have "takeWhile (\<lambda>c. \<not> ?Q c) (takeWhile (\<lambda>c. \<not> ?P c) ?xs) = takeWhile (\<lambda>c. \<not> ?P c) ?xs"
      using False by (intro takeWhile_eq_all_conv [THEN iffD2]) auto
    then show ?thesis using none
      by (simp add: non_escaped_sub_string_def first Let_def part both)
  qed
qed

definition json_escape_char :: "bool \<Rightarrow> char \<Rightarrow> string" where
  "json_escape_char sc c = (if needs_escape sc characters_to_escape c then concat (replace_escape_character c) else [c])"

definition json_escape :: "bool \<Rightarrow> string \<Rightarrow> string" where
  "json_escape sc s = concat (map (json_escape_char sc) s)"

lemma json_escape_simps [simp]:
  "json_escape sc [] = []"
  "json_escape sc (c # s) = json_escape_char sc c @ json_escape sc s"
  "json_escape sc (s @ t) = json_escape sc s @ json_escape sc t"
  by (simp_all add: json_escape_def)

lemma json_escape_plain:
  "\<forall>c \<in> set s. \<not> needs_escape sc characters_to_escape c \<Longrightarrow> json_escape sc s = s"
  by (induction s) (simp_all add: json_escape_char_def)

lemma split_at_escape:
  "json_escape sc s = takeWhile (\<lambda>c. \<not> needs_escape sc characters_to_escape c) s @
     json_escape sc (dropWhile (\<lambda>c. \<not> needs_escape sc characters_to_escape c) s)"
  by (metis json_escape_plain json_escape_simps(3) set_takeWhileD takeWhile_dropWhile_id)


lemma escape_split:
  fixes sc :: bool
  assumes "start < length s"
  defines "sub \<equiv> takeWhile (\<lambda>c. \<not> needs_escape sc characters_to_escape c) (drop start s)"
  shows "start + length sub < length s \<Longrightarrow> json_escape sc (drop start s) =
      sub @ concat (replace_escape_character (s ! (start + length sub))) @ json_escape sc (drop (Suc (start + length sub)) s)"
    and "\<not> start + length sub < length s \<Longrightarrow> json_escape sc (drop start s) = sub"
proof -
  have rest: "dropWhile (\<lambda>c. \<not> needs_escape sc characters_to_escape c) (drop start s) = drop (start + length sub) s"
    by (simp add: sub_def dropWhile_eq_drop add.commute)
  have split: "json_escape sc (drop start s) = sub @ json_escape sc (drop (start + length sub) s)"
    by (subst split_at_escape) (simp only: rest sub_def)
  show "json_escape sc (drop start s) =
      sub @ concat (replace_escape_character (s ! (start + length sub))) @ json_escape sc (drop (Suc (start + length sub)) s)"
    if inner: "start + length sub < length s"
  proof -
    have "needs_escape sc characters_to_escape (s ! (start + length sub))"
      using nth_length_takeWhile [of "\<lambda>c. \<not> needs_escape sc characters_to_escape c" "drop start s"] inner
      by (simp add: sub_def add.commute)
    then show ?thesis using split inner Cons_nth_drop_Suc [OF inner, symmetric] by (simp add: json_escape_char_def)
  qed
  show "json_escape sc (drop start s) = sub" if "\<not> start + length sub < length s"
    using split that by simp
qed

lemma insert_escaped_content_eq:
  "start \<le> length s \<Longrightarrow> concat (insert_escaped_content sc characters_to_escape replace_escape_character s start)
     = json_escape sc (drop start s)"
proof (induction "length s - start" arbitrary: start rule: less_induct)
  case less
  let ?sub = "takeWhile (\<lambda>c. \<not> needs_escape sc characters_to_escape c) (drop start s)"
  show ?case
  proof (cases "start < length s")
    case True
    have part: "non_escaped_sub_string sc characters_to_escape s start = (start + length ?sub, ?sub)"
      using non_escaped_eq [OF less.prems] by (simp add: Let_def)
    note split = escape_split [OF True, of sc]
    show ?thesis
    proof (cases "start + length ?sub < length s")
      case inner: True
      have "concat (insert_escaped_content sc characters_to_escape replace_escape_character s (Suc (start + length ?sub)))
          = json_escape sc (drop (Suc (start + length ?sub)) s)"
        by (rule less.hyps) (use True inner in auto)
      then show ?thesis
        using True inner split(1) [OF inner] by (simp add: insert_escaped_content.simps [of _ _ _ s start] part)
    next
      case False
      then show ?thesis using True split(2) [OF False] by (simp add: insert_escaped_content.simps [of _ _ _ s start] part)
    qed
  qed (use less.prems in \<open>simp add: insert_escaped_content.simps\<close>)
qed

lemma json_insert_escaped_content_eq: "concat (json_insert_escaped_content sc s) = json_escape sc s"
  using insert_escaped_content_eq [of 0 s sc] by (simp add: json_insert_escaped_content_def)


section \<open>Escaping and decoding\<close>

lemma out_four_hex:
  "concat (out_u8 (tf_with_width (tf_hex tf_default) 4 CHR ''0'') v) = ''00'' @ [hex_digit (unat v div 16), hex_digit (unat v mod 16)]"
proof -
  have small: "unat v < 256" using unsigned_less [of v, where ?'a = nat] by simp
  have pad: "replicate 3 (x :: string) = [x, x, x]" "replicate 2 x = [x, x]" for x by (simp_all add: numeral_eq_Suc)
  have u: "unat (ucast v :: u64) = unat v" by (simp add: unsigned_ucast_eq take_bit_nat_eq_self_iff less_le_trans [OF small])
  show ?thesis
  proof (cases "unat v < 16")
    case True
    have m: "digit_mask 16 (unat v) (Suc 0) (Suc 0) = (Suc 0, Suc 0)" using True by (simp add: digit_mask.simps)
    have p: "print_mask 16 (unat v) (Suc 0) = [unat v]" using True by (simp add: print_mask.simps [of 16 "unat v" "Suc 0"] print_mask.simps [of 16 "unat v" 0])
    show ?thesis using True
      by (simp add: out_u8_def out_u64_def tf_hex_def tf_with_width_def tf_default_def output_as_hexadecimal_def output_number_def
          optional_padding_def u m p pad) (simp add: hex_digit_def)
  next
    case False
    have d: "\<not> 16 \<le> unat v div 16" using less_mult_imp_div_less [of "unat v" 16 16] small by linarith
    have m: "digit_mask 16 (unat v) (Suc 0) (Suc 0) = (16, 2)" using False d
      by (simp add: digit_mask.simps [of 16 "unat v" "Suc 0"] digit_mask.simps [of 16 "unat v" 16])
    have e: "unat v div 16 mod 16 = unat v div 16" using d by (intro mod_less) linarith
    have p: "print_mask 16 (unat v) 16 = [unat v div 16, unat v mod 16]" using small
      by (simp add: print_mask.simps [of 16 "unat v" 16] print_mask.simps [of 16 "unat v" "Suc 0"] print_mask.simps [of 16 "unat v" 0] e)
    show ?thesis using False
      by (simp add: out_u8_def out_u64_def tf_hex_def tf_with_width_def tf_default_def output_as_hexadecimal_def output_number_def
          optional_padding_def u m p pad)
  qed
qed

lemma json_hex_digit_hex: "d < 16 \<Longrightarrow> json_hex_digit (hex_digit d) = Some d"
  by (drule less_cases_16, elim disjE, drule less_cases_10) (auto simp: json_hex_digit_def hex_digit_def)

lemma unicode_byte:
  "jsi_unicode 4 0 (''00'' @ [hex_digit (of_char c div 16), hex_digit (of_char c mod 16)] @ rest) = of_char c"
  "jsi_skip_hex 4 (''00'' @ [hex_digit (of_char c div 16), hex_digit (of_char c mod 16)] @ rest) = rest"
proof -
  have small: "of_char c < (256 :: nat)" by simp
  have d: "of_char c div 16 < (16 :: nat)" by (rule less_mult_imp_div_less) (use small in simp)
  have hd: "json_hex_digit (hex_digit (of_char c div 16)) = Some (of_char c div 16)"
    "json_hex_digit (hex_digit (of_char c mod 16)) = Some (of_char c mod 16)"
    using json_hex_digit_hex [OF d] json_hex_digit_hex [of "of_char c mod 16"] by simp_all
  have z: "json_hex_digit CHR ''0'' = Some 0" by (simp add: json_hex_digit_def)
  have four: "4 = Suc (Suc (Suc (Suc 0)))" by simp
  show "jsi_unicode 4 0 (''00'' @ [hex_digit (of_char c div 16), hex_digit (of_char c mod 16)] @ rest) = of_char c"
    unfolding four using small d by (simp add: hd z)
  show "jsi_skip_hex 4 (''00'' @ [hex_digit (of_char c div 16), hex_digit (of_char c mod 16)] @ rest) = rest"
    unfolding four by (simp add: hd z)
qed


lemma four_hex_of_char:
  "concat (out_u8 (tf_with_width (tf_hex tf_default) 4 CHR ''0'') (of_nat (of_char c)))
     = ''00'' @ [hex_digit (of_char c div 16), hex_digit (of_char c mod 16)]"
  unfolding out_four_hex by (simp add: unsigned_of_nat take_bit_nat_eq_self)

text \<open>The three shapes of a written character.\<close>

lemma json_escape_char_cases:
  assumes "c \<noteq> backslash"
  shows "json_escape_char sc c = [c] \<and> c \<noteq> quote \<or>
    (\<exists>d. json_escape_char sc c = [backslash, d] \<and> d \<noteq> CHR ''u'' \<and> (\<forall>ds. jsi_escaped d ds = c)) \<or>
    json_escape_char sc c = [backslash, CHR ''u'', CHR ''0'', CHR ''0'', hex_digit (of_char c div 16), hex_digit (of_char c mod 16)]"
proof -
  have q: "c = quote \<Longrightarrow> json_escape_char sc c = [backslash, quote]"
    by (simp add: json_escape_char_def replace_escape_character_def needs_escape_def characters_to_escape_def)
  consider "c = quote" | "\<not> needs_escape sc characters_to_escape c" "c \<noteq> quote"
    | "needs_escape sc characters_to_escape c" "c \<noteq> quote" by blast
  then show ?thesis
  proof cases
    case 1
    then show ?thesis using q by (simp add: jsi_escaped_def)
  next
    case 2
    then show ?thesis by (simp add: json_escape_char_def)
  next
    case 3
    consider d where "replace_escape_character c = [[backslash, d]]" "d \<noteq> CHR ''u''" "\<forall>ds. jsi_escaped d ds = c"
      | "replace_escape_character c = [backslash, CHR ''u''] # out_u8 (tf_with_width (tf_hex tf_default) 4 CHR ''0'') (of_nat (of_char c))"
      using 3(2) assms by (cases "c \<in> {CHR 0x08, CHR 0x0C, CHR 0x0A, CHR 0x0D, CHR 0x09}")
        (auto simp: replace_escape_character_def jsi_escaped_def)
    then show ?thesis
    proof cases
      case (1 d)
      then show ?thesis using 3 by (simp add: json_escape_char_def)
    next
      case 2
      then have "json_escape_char sc c = [backslash, CHR ''u'', CHR ''0'', CHR ''0'', hex_digit (of_char c div 16), hex_digit (of_char c mod 16)]"
        using 3 by (simp add: json_escape_char_def four_hex_of_char)
      then show ?thesis by blast
    qed
  qed
qed

lemma replace_escape_deref:
  assumes "c \<noteq> backslash"
  shows "jsi_deref (json_escape_char sc c @ rest) = Inr c" "jsi_next (json_escape_char sc c @ rest) = rest"
proof -
  have hex: "jsi_escaped CHR ''u'' (CHR ''0'' # CHR ''0'' # hex_digit (of_char c div 16) # hex_digit (of_char c mod 16) # rest) = c"
    using unicode_byte(1) [of c rest] by (simp add: jsi_escaped_def)
  show "jsi_deref (json_escape_char sc c @ rest) = Inr c" "jsi_next (json_escape_char sc c @ rest) = rest"
    using json_escape_char_cases [OF assms, of sc] assms hex unicode_byte(2) [of c rest] by auto
qed

lemma json_escape_char_not_Nil: "json_escape_char sc c \<noteq> []"
  by (simp add: json_escape_char_def replace_escape_character_def)

lemma json_chars_escape: "backslash \<notin> set s \<Longrightarrow> json_chars (json_escape sc s) = Inr s"
  by (induction s) (auto simp: json_chars_step json_escape_char_not_Nil replace_escape_deref)

text \<open>The backslash itself is not escaped, so that a text with one is read back as another text or not at all.\<close>

lemma json_escape_forgets_backslash:
  "json_escape sc [backslash] = [backslash]"
  "json_chars (json_escape sc [backslash, CHR ''n'']) = Inr [CHR 0x0A]"
  "json_chars (json_escape sc [backslash]) = Inl Assert_failed"
  by (simp_all add: json_escape_char_def needs_escape_def characters_to_escape_def char_value_def json_chars_step jsi_escaped_def)

lemma hex_digit_plain: "d < 16 \<Longrightarrow> hex_digit d \<noteq> backslash \<and> hex_digit d \<noteq> quote"
  using json_hex_digit_plain [OF json_hex_digit_hex [of d]] by simp

lemma json_raw_escape_char:
  assumes "c \<noteq> backslash"
  shows "json_raw False (json_escape_char sc c @ rest) = json_raw False rest"
proof -
  have d: "of_char c div 16 < (16 :: nat)" by (rule less_mult_imp_div_less) simp
  show ?thesis
    using json_escape_char_cases [OF assms, of sc] assms hex_digit_plain [OF d] hex_digit_plain [of "of_char c mod 16"] by auto
qed

lemma json_raw_escape: "backslash \<notin> set s \<Longrightarrow> json_raw False (json_escape sc s)"
  by (induction s) (auto simp: json_raw_escape_char)

section \<open>Sizes\<close>

lemma escaped_character_size: "escaped_character_size c = length (concat (replace_escape_character c))"
  unfolding escaped_character_size_def replace_escape_character_def by (simp add: out_four_hex)

lemma json_escaped_size_loop_eq:
  "start \<le> length s \<Longrightarrow> json_escaped_size_loop sc s start n = n + length (json_escape sc (drop start s))"
proof (induction "length s - start" arbitrary: start n rule: less_induct)
  case less
  let ?sub = "takeWhile (\<lambda>c. \<not> needs_escape sc characters_to_escape c) (drop start s)"
  show ?case
  proof (cases "start < length s")
    case True
    have part: "non_escaped_sub_string sc characters_to_escape s start = (start + length ?sub, ?sub)"
      using non_escaped_eq [OF less.prems] by (simp add: Let_def)
    note split = escape_split [OF True, of sc]
    show ?thesis
    proof (cases "start + length ?sub < length s")
      case inner: True
      have "json_escaped_size_loop sc s (Suc (start + length ?sub)) m = m + length (json_escape sc (drop (Suc (start + length ?sub)) s))" for m
        by (rule less.hyps) (use True inner in auto)
      then show ?thesis
        using True inner split(1) [OF inner] by (simp add: json_escaped_size_loop.simps [of sc s start] part escaped_character_size)
    next
      case False
      then show ?thesis using True split(2) [OF False] by (simp add: json_escaped_size_loop.simps [of sc s start] part)
    qed
  qed (use less.prems in \<open>simp add: json_escaped_size_loop.simps\<close>)
qed

lemma json_escaped_string_size_eq: "json_escaped_string_size sc s = length (json_escape sc s)"
  using json_escaped_size_loop_eq [of 0 s sc 0] by (simp add: json_escaped_string_size_def)


text \<open>The prefix for a size is the longest whose escaped form fits it.\<close>

definition longest_escaped :: "bool \<Rightarrow> string \<Rightarrow> nat \<Rightarrow> nat \<Rightarrow> bool" where
  "longest_escaped sc s m r \<longleftrightarrow> r \<le> length s \<and> length (json_escape sc (take r s)) \<le> m \<and>
     (r < length s \<longrightarrow> m < length (json_escape sc (take (Suc r) s)))"

lemma escape_take_Suc:
  "i < length s \<Longrightarrow> length (json_escape sc (take (Suc i) s)) = length (json_escape sc (take i s)) + length (json_escape_char sc (s ! i))"
  by (simp add: take_Suc_conv_app_nth)

lemma escape_take_add:
  assumes "k \<le> length (takeWhile (\<lambda>c. \<not> needs_escape sc characters_to_escape c) (drop start s))"
  shows "length (json_escape sc (take (start + k) s)) = length (json_escape sc (take start s)) + k"
    and "start + k \<le> length s \<or> k = 0"
proof -
  let ?sub = "takeWhile (\<lambda>c. \<not> needs_escape sc characters_to_escape c) (drop start s)"
  have "length ?sub \<le> length s - start" using length_takeWhile_le [of _ "drop start s"] by simp
  then show bound: "start + k \<le> length s \<or> k = 0" using assms by auto
  have "take k (drop start s) = take k ?sub"
    using assms by (metis min.absorb1 take_take takeWhile_eq_take)
  moreover have "json_escape sc (take k ?sub) = take k ?sub"
    by (rule json_escape_plain) (auto dest!: in_set_takeD dest: set_takeWhileD)
  ultimately show "length (json_escape sc (take (start + k) s)) = length (json_escape sc (take start s)) + k"
    using assms by (simp add: take_add)
qed

lemma longest_escaped_unique:
  assumes "longest_escaped sc s m r" "i \<le> length s" "length (json_escape sc (take i s)) \<le> m"
  shows "i \<le> r"
proof (rule ccontr)
  assume "\<not> i \<le> r"
  then have "Suc r \<le> i" "r < length s" using assms(2) by auto
  then have "take i s = take (Suc r) s @ take (i - Suc r) (drop (Suc r) s)" by (metis le_add_diff_inverse take_add)
  then have "length (json_escape sc (take (Suc r) s)) \<le> length (json_escape sc (take i s))" by simp
  then show False using assms(1,3) \<open>r < length s\<close> by (simp add: longest_escaped_def)
qed

lemma json_max_escaped_loop_longest:
  "start \<le> length s \<Longrightarrow> n = length (json_escape sc (take start s)) \<Longrightarrow> n \<le> maxSize \<Longrightarrow>
   longest_escaped sc s maxSize (json_max_escaped_loop sc s maxSize start n)"
proof (induction sc s maxSize start n rule: json_max_escaped_loop.induct)
  case (1 sc s maxSize start n)
  let ?sub = "takeWhile (\<lambda>c. \<not> needs_escape sc characters_to_escape c) (drop start s)"
  define k where "k = min (length ?sub) (maxSize - n)"
  have inc: "(if ?sub \<noteq> [] then min (length ?sub) (maxSize - n) else 0) = k" by (simp add: k_def)
  have k: "k \<le> length ?sub" "n + k \<le> maxSize" "length ?sub \<le> maxSize - n \<Longrightarrow> k = length ?sub"
    "\<not> length ?sub \<le> maxSize - n \<Longrightarrow> n + k = maxSize"
    using 1(4) by (auto simp: k_def)
  show ?case
  proof (cases "start < length s \<and> n < maxSize")
    case True
    have sub: "snd (non_escaped_sub_string sc characters_to_escape s start) = ?sub"
      using non_escaped_eq [OF 1(2)] by (simp add: Let_def)
    have size: "length (json_escape sc (take (start + k) s)) = n + k" and bound: "start + k \<le> length s"
      using escape_take_add [OF k(1)] 1(2,3) by auto
    have step: "json_max_escaped_loop sc s maxSize start n = (if start + k < length s
        then if escaped_character_size (s ! (start + k)) > maxSize - (n + k) then start + k
             else json_max_escaped_loop sc s maxSize (start + k + 1) (n + k + escaped_character_size (s ! (start + k)))
        else start + k)"
      using True by (simp add: json_max_escaped_loop.simps [of sc s maxSize start n] sub Let_def inc)
    show ?thesis
    proof (cases "start + k < length s")
      case inner: True
      note more = escape_take_Suc [OF inner, of sc, unfolded size]
      have pos: "0 < length (json_escape_char sc (s ! (start + k)))" "0 < escaped_character_size (s ! (start + k))"
        by (simp_all add: json_escape_char_not_Nil escaped_character_size_def)
      show ?thesis
      proof (cases "length ?sub \<le> maxSize - n")
        case whole: True
        have "needs_escape sc characters_to_escape (s ! (start + k))"
          using nth_length_takeWhile [of "\<lambda>c. \<not> needs_escape sc characters_to_escape c" "drop start s"] inner k(3) [OF whole] by (simp add: add.commute)
        then have esc: "escaped_character_size (s ! (start + k)) = length (json_escape_char sc (s ! (start + k)))"
          by (simp add: json_escape_char_def escaped_character_size)
        show ?thesis
        proof (cases "escaped_character_size (s ! (start + k)) > maxSize - (n + k)")
          case True
          then show ?thesis using step inner size more esc k(2) by (simp add: longest_escaped_def)
        next
          case fits: False
          have "longest_escaped sc s maxSize (json_max_escaped_loop sc s maxSize (start + k + 1) (n + k + escaped_character_size (s ! (start + k))))"
            using 1(1) [OF True refl refl refl refl, unfolded sub inc] inner fits more esc k(2) by simp
          then show ?thesis using step inner fits by simp
        qed
      next
        case False
        show ?thesis using step inner size more pos k(4) [OF False] by (simp add: longest_escaped_def)
      qed
    next
      case False
      then show ?thesis using step size bound k(2) by (simp add: longest_escaped_def)
    qed
  next
    case False
    then have stop: "json_max_escaped_loop sc s maxSize start n = start" by (subst json_max_escaped_loop.simps) (simp only: if_False)
    show ?thesis
      unfolding stop using False 1(2-4) by (auto simp: longest_escaped_def escape_take_Suc json_escape_char_not_Nil)
  qed
qed


text \<open>\<open>JsonSubStringOfMaxEscapedSize\<close> gives the longest prefix whose escaped form fits the size.\<close>

lemma json_sub_string_longest:
  "length (json_escape sc (json_sub_string_of_max_escaped_size sc s m)) \<le> m"
  "i \<le> length s \<Longrightarrow> json_escaped_string_size sc (take i s) \<le> m \<Longrightarrow> i \<le> length (json_sub_string_of_max_escaped_size sc s m)"
proof -
  have *: "longest_escaped sc s m (json_max_escaped_loop sc s m 0 0)"
    by (rule json_max_escaped_loop_longest) simp_all
  then show "length (json_escape sc (json_sub_string_of_max_escaped_size sc s m)) \<le> m"
    by (simp add: longest_escaped_def json_sub_string_of_max_escaped_size_def)
  show "i \<le> length s \<Longrightarrow> json_escaped_string_size sc (take i s) \<le> m \<Longrightarrow> i \<le> length (json_sub_string_of_max_escaped_size sc s m)"
    using longest_escaped_unique [OF *, of i] *
    by (simp add: json_escaped_string_size_eq longest_escaped_def json_sub_string_of_max_escaped_size_def)
qed

text \<open>C15: What the formatter writes between quotes is well formed, has the size that was computed for it,
  and reads back as the text it was made of, whether or not \<open>char\<close> is signed, for every text without a
  backslash, the character that the list of characters to escape leaves out.\<close>

theorem json_escape_roundtrip:
  assumes "CHR 0x5C \<notin> set s"
  shows "json_raw False (concat (json_insert_escaped_content sc s)) \<and>
    json_escaped_string_size sc s = length (concat (json_insert_escaped_content sc s)) \<and>
    json_to_std_string (concat (json_insert_escaped_content sc s)) = Inr s \<and>
    json_size (concat (json_insert_escaped_content sc s)) = length s \<and>
    json_equals (concat (json_insert_escaped_content sc s)) t = Inr (s = t)"
  using assms json_raw_escape [of s sc] json_chars_escape [of s sc] json_size_chars [of "json_escape sc s" s]
    json_equals_chars [of "json_escape sc s" s t]
  by (simp add: json_insert_escaped_content_eq json_escaped_string_size_eq json_to_std_string_def)

theorem json_escape_roundtrip_witness:
  "json_raw False (concat (json_insert_escaped_content True ''a<b'')) \<and>
    json_escaped_string_size True ''a<b'' = length (concat (json_insert_escaped_content True ''a<b'')) \<and>
    json_to_std_string (concat (json_insert_escaped_content True ''a<b'')) = Inr ''a<b'' \<and>
    json_size (concat (json_insert_escaped_content True ''a<b'')) = length ''a<b'' \<and>
    json_equals (concat (json_insert_escaped_content True ''a<b'')) ''a<b'' = Inr (''a<b'' = ''a<b'')"
  by (rule json_escape_roundtrip) simp

end
