(* ===== verification/Json_Tokenizer.thy ===== *)
theory Json_Tokenizer
  imports Json_String
begin

text \<open>
  The tokens of JSON (\<open>JsonTokenizer\<close> of infra/syntax/Json.cpp). The tokenizer is a text and the index
  from which it reads; each call skips white space and hands out one token. Classification of
  characters is that of the C locale, on \<open>unsigned char\<close>. The lemmas: the index never leaves the text,
  each token other than the end and an error moves it, and what token a given text starts with.
\<close>

section \<open>Tokens\<close>

datatype json_bigger_int = Json_bigger_int (jb_value: u64) (jb_negative: bool)

datatype json_float = Json_float (jf_int: u64) (jf_nano: u32) (jf_negative: bool)

datatype json_token = Token_end | Token_error | Colon | Comma | Dot | Null
  | Left_brace nat | Right_brace nat | Left_bracket nat | Right_bracket nat
  | String_token string | Integer_token json_bigger_int | Float_token json_float | Boolean_token bool

definition json_float_equal :: "json_float \<Rightarrow> json_float \<Rightarrow> bool" where
  "json_float_equal x y \<longleftrightarrow> jf_int x = jf_int y \<and> jf_nano x = jf_nano y"

definition is_space :: "char \<Rightarrow> bool" where
  "is_space c = (let v = of_char c :: nat in v = 32 \<or> (9 \<le> v \<and> v \<le> 13))"

definition is_digit :: "char \<Rightarrow> bool" where
  "is_digit c = (let v = of_char c :: nat in 48 \<le> v \<and> v \<le> 57)"

definition is_alpha :: "char \<Rightarrow> bool" where
  "is_alpha c = (let v = of_char c :: nat in (65 \<le> v \<and> v \<le> 90) \<or> (97 \<le> v \<and> v \<le> 122))"

text \<open>\<open>value = value * 10 + c - '0'\<close> in the unsigned type: it wraps around.\<close>

definition json_to_int :: "string \<Rightarrow> bool \<Rightarrow> 'w::len word" where
  "json_to_int s sign = foldl (\<lambda>v c. v * 10 + of_nat (of_char c) - 48) 0 (drop (if sign then 1 else 0) s)"

definition nano_value_width :: nat where "nano_value_width = 9"

section \<open>The tokenizer\<close>

record json_tokenizer =
  jt_string :: string
  jt_index :: nat

definition json_tokenizer_new :: "string \<Rightarrow> json_tokenizer" where
  "json_tokenizer_new s = \<lparr>jt_string = s, jt_index = 0\<rparr>"

definition jt_at_end :: "json_tokenizer \<Rightarrow> bool" where
  "jt_at_end t \<longleftrightarrow> length (jt_string t) \<le> jt_index t"

definition jt_at :: "json_tokenizer \<Rightarrow> char" where
  "jt_at t = jt_string t ! jt_index t"

definition jt_advance :: "json_tokenizer \<Rightarrow> json_tokenizer" where
  "jt_advance t = t\<lparr>jt_index := jt_index t + 1\<rparr>"

definition jt_text :: "json_tokenizer \<Rightarrow> nat \<Rightarrow> string" where
  "jt_text t start = take (jt_index t - start) (drop start (jt_string t))"

text \<open>\<open>while (parseIndex != objectString.size() && p(objectString[parseIndex])) ++parseIndex\<close>\<close>

definition jt_skip :: "(char \<Rightarrow> bool) \<Rightarrow> json_tokenizer \<Rightarrow> json_tokenizer" where
  "jt_skip p t = t\<lparr>jt_index := jt_index t + length (takeWhile p (drop (jt_index t) (jt_string t)))\<rparr>"

definition jt_skip_whitespace :: "json_tokenizer \<Rightarrow> json_tokenizer" where
  "jt_skip_whitespace t = jt_skip is_space t"

fun jt_string_end :: "bool \<Rightarrow> string \<Rightarrow> nat \<Rightarrow> nat option" where
  "jt_string_end escape [] i = None"
| "jt_string_end escape (c # cs) i =
     (if escape \<or> c \<noteq> quote then jt_string_end (\<not> escape \<and> c = backslash) cs (i + 1) else Some i)"

definition jt_string_token :: "json_tokenizer \<Rightarrow> json_token \<times> json_tokenizer" where
  "jt_string_token t0 = (let t = jt_advance t0; start = jt_index t in
     if jt_at_end t then (Token_error, t)
     else case jt_string_end False (drop start (jt_string t)) start of
       None \<Rightarrow> (Token_error, t\<lparr>jt_index := length (jt_string t)\<rparr>)
     | Some i \<Rightarrow> (String_token (jt_text (t\<lparr>jt_index := i\<rparr>) start), t\<lparr>jt_index := i + 1\<rparr>))"

definition jt_float_token :: "u64 \<Rightarrow> bool \<Rightarrow> json_tokenizer \<Rightarrow> json_token \<times> json_tokenizer" where
  "jt_float_token i sign t0 =
     (if \<not> jt_at_end t0 \<and> jt_at t0 = CHR ''-'' then (Token_error, t0)
      else let t = jt_skip is_digit t0; fractional = take nano_value_width (jt_text t (jt_index t0));
               fractionalValue = json_to_int fractional False * 10 ^ (nano_value_width - length fractional)
           in (Float_token (Json_float i fractionalValue sign), t))"

definition jt_integer_or_float_token :: "json_tokenizer \<Rightarrow> json_token \<times> json_tokenizer" where
  "jt_integer_or_float_token t0 = (let start = jt_index t0; sign = (\<not> jt_at_end t0 \<and> jt_at t0 = CHR ''-'');
       t = jt_skip is_digit (if sign then jt_advance t0 else t0); v = json_to_int (jt_text t start) sign in
     if jt_at_end t \<or> jt_at t \<noteq> CHR ''.'' then (Integer_token (Json_bigger_int v sign), t)
     else jt_float_token v sign (jt_advance t))"

definition jt_identifier_token :: "json_tokenizer \<Rightarrow> json_token \<times> json_tokenizer" where
  "jt_identifier_token t0 = (let t = jt_skip is_alpha t0; identifier = jt_text t (jt_index t0) in
     (if identifier = ''true'' then Boolean_token True else if identifier = ''false'' then Boolean_token False
      else if identifier = ''null'' then Null else Token_error, t))"

definition jt_token :: "json_tokenizer \<Rightarrow> json_token \<times> json_tokenizer" where
  "jt_token t0 = (let t = jt_skip_whitespace t0 in
     if jt_at_end t then (Token_end, t)
     else let c = jt_at t in
       if c = quote then jt_string_token t
       else if c = CHR '':'' then (Colon, jt_advance t)
       else if c = CHR '','' then (Comma, jt_advance t)
       else if c = CHR ''.'' then (Dot, jt_advance t)
       else if c = CHR ''{'' then (Left_brace (jt_index t), jt_advance t)
       else if c = CHR ''}'' then (Right_brace (jt_index t), jt_advance t)
       else if c = CHR ''['' then (Left_bracket (jt_index t), jt_advance t)
       else if c = CHR '']'' then (Right_bracket (jt_index t), jt_advance t)
       else if is_digit c \<or> c = CHR ''-'' then jt_integer_or_float_token t
       else if is_alpha c then jt_identifier_token t
       else (Token_error, t))"

definition jt_equal :: "json_tokenizer \<Rightarrow> json_tokenizer \<Rightarrow> bool" where
  "jt_equal x y \<longleftrightarrow> jt_index x = jt_index y"

section \<open>Progress\<close>

definition jt_ok :: "json_tokenizer \<Rightarrow> bool" where
  "jt_ok t \<longleftrightarrow> jt_index t \<le> length (jt_string t)"

text \<open>\<open>jt_after t t'\<close>: the same text, read on.\<close>

definition jt_after :: "json_tokenizer \<Rightarrow> json_tokenizer \<Rightarrow> bool" where
  "jt_after t t' \<longleftrightarrow> jt_string t' = jt_string t \<and> jt_index t \<le> jt_index t' \<and> (jt_ok t \<longrightarrow> jt_ok t')"

lemma jt_after_refl [simp]: "jt_after t t"
  by (simp add: jt_after_def)

lemma jt_after_trans: "jt_after t u \<Longrightarrow> jt_after u v \<Longrightarrow> jt_after t v"
  by (auto simp: jt_after_def)

lemma jt_skip_after [simp]: "jt_after t (jt_skip p t)"
proof -
  have "length (takeWhile p (drop (jt_index t) (jt_string t))) \<le> length (jt_string t) - jt_index t"
    by (rule order_trans [OF length_takeWhile_le]) simp
  then show ?thesis by (auto simp: jt_after_def jt_skip_def jt_ok_def)
qed

lemma jt_skip_whitespace_after [simp]: "jt_after t (jt_skip_whitespace t)"
  by (simp add: jt_skip_whitespace_def)

lemma jt_advance_after [simp]: "\<not> jt_at_end t \<Longrightarrow> jt_after t (jt_advance t)"
  by (simp add: jt_after_def jt_advance_def jt_ok_def jt_at_end_def)

lemma jt_advance_index [simp]: "jt_index (jt_advance t) = Suc (jt_index t)"
  by (simp add: jt_advance_def)

lemma jt_string_end_range: "jt_string_end e cs i = Some j \<Longrightarrow> i \<le> j \<and> j < i + length cs"
  by (induction e cs i rule: jt_string_end.induct) (auto split: if_splits)


lemma jt_string_token_after:
  assumes "\<not> jt_at_end t"
  shows "jt_after t (snd (jt_string_token t)) \<and> jt_index t < jt_index (snd (jt_string_token t))"
proof (cases "jt_string_end False (drop (jt_index (jt_advance t)) (jt_string (jt_advance t))) (jt_index (jt_advance t))")
  case None
  then show ?thesis using assms
    by (auto simp: jt_string_token_def Let_def jt_after_def jt_advance_def jt_at_end_def jt_ok_def)
next
  case (Some j)
  then show ?thesis using assms jt_string_end_range [OF Some]
    by (auto simp: jt_string_token_def Let_def jt_after_def jt_advance_def jt_at_end_def jt_ok_def)
qed

lemma jt_float_token_after [simp]: "jt_after t (snd (jt_float_token i sign t))"
  by (simp add: jt_float_token_def Let_def)

lemma jt_skip_moves: "\<not> jt_at_end t \<Longrightarrow> p (jt_at t) \<Longrightarrow> jt_index t < jt_index (jt_skip p t)"
  by (simp add: jt_skip_def jt_at_end_def jt_at_def Cons_nth_drop_Suc [symmetric])

lemma jt_integer_or_float_after:
  assumes "\<not> jt_at_end t" "is_digit (jt_at t) \<or> jt_at t = CHR ''-''"
  shows "jt_after t (snd (jt_integer_or_float_token t)) \<and> jt_index t < jt_index (snd (jt_integer_or_float_token t))"
proof -
  let ?t = "jt_skip is_digit (if jt_at t = CHR ''-'' then jt_advance t else t)"
  have after: "jt_after t ?t"
    using assms(1) jt_after_trans [OF jt_advance_after [OF assms(1)] jt_skip_after] by simp
  have moves: "jt_index t < jt_index ?t"
  proof (cases "jt_at t = CHR ''-''")
    case True
    then show ?thesis by (simp add: jt_skip_def)
  next
    case False
    then show ?thesis using assms jt_skip_moves [OF assms(1), of is_digit] by simp
  qed
  show ?thesis
  proof (cases "jt_at_end ?t \<or> jt_at ?t \<noteq> CHR ''.''")
    case True
    then have "snd (jt_integer_or_float_token t) = ?t"
      using assms by (auto simp: jt_integer_or_float_token_def Let_def)
    then show ?thesis using after moves by simp
  next
    case False
    then have "\<exists>v. snd (jt_integer_or_float_token t) = snd (jt_float_token v (jt_at t = CHR ''-'') (jt_advance ?t))"
      using assms by (auto simp: jt_integer_or_float_token_def Let_def)
    moreover have "jt_after ?t (jt_advance ?t)" using False by simp
    ultimately have "jt_after ?t (snd (jt_integer_or_float_token t))"
      using jt_after_trans [OF _ jt_float_token_after] by (metis (no_types))
    then show ?thesis using after moves jt_after_trans [OF after] by (auto simp: jt_after_def)
  qed
qed

lemma jt_identifier_after:
  "\<not> jt_at_end t \<Longrightarrow> is_alpha (jt_at t) \<Longrightarrow>
   jt_after t (snd (jt_identifier_token t)) \<and> jt_index t < jt_index (snd (jt_identifier_token t))"
  using jt_skip_moves [of t is_alpha] by (simp add: jt_identifier_token_def Let_def)

lemma jt_token_after_progress:
  "jt_after t (snd (jt_token t)) \<and>
   (fst (jt_token t) \<notin> {Token_end, Token_error} \<longrightarrow> jt_index t < jt_index (snd (jt_token t)) \<and> jt_index t < length (jt_string t))"
proof -
  let ?t = "jt_skip_whitespace t"
  have after: "jt_after t ?t" by simp
  then have le: "jt_index t \<le> jt_index ?t" "jt_string ?t = jt_string t" by (simp_all add: jt_after_def)
  show ?thesis
  proof (cases "jt_at_end ?t")
    case True
    then show ?thesis by (simp add: jt_token_def)
  next
    case False
    have step: "jt_after ?t (snd (jt_token t)) \<and> (fst (jt_token t) \<noteq> Token_error \<longrightarrow> jt_index ?t < jt_index (snd (jt_token t)))"
      using False jt_string_token_after [OF False] jt_integer_or_float_after [OF False] jt_identifier_after [OF False]
      unfolding jt_token_def Let_def if_not_P [OF False] by (simp split: if_splits)
    then show ?thesis using le False jt_after_trans [OF after] by (auto simp: jt_at_end_def)
  qed
qed

lemma jt_token_after: "jt_after t (snd (jt_token t))"
  using jt_token_after_progress by blast

lemma jt_token_progress:
  assumes "jt_token t = (k, t')" "k \<noteq> Token_end" "k \<noteq> Token_error"
  shows "length (jt_string t') - jt_index t' < length (jt_string t) - jt_index t"
    and "jt_string t' = jt_string t" "jt_index t < jt_index t'"
  using jt_token_after_progress [of t] assms by (auto simp: jt_after_def)

lemma jt_token_ok: "jt_token t = (k, t') \<Longrightarrow> jt_ok t \<Longrightarrow> jt_ok t'"
  using jt_token_after [of t] by (simp add: jt_after_def)


section \<open>What a text starts with\<close>

definition jt_rest :: "json_tokenizer \<Rightarrow> string" where
  "jt_rest t = drop (jt_index t) (jt_string t)"

definition jt_move :: "nat \<Rightarrow> json_tokenizer \<Rightarrow> json_tokenizer" where
  "jt_move k t = t\<lparr>jt_index := jt_index t + k\<rparr>"

lemma jt_move_simps [simp]:
  "jt_string (jt_move k t) = jt_string t" "jt_index (jt_move k t) = jt_index t + k"
  "jt_rest (jt_move k t) = drop k (jt_rest t)" "jt_move k (jt_move j t) = jt_move (j + k) t" "jt_move 0 t = t"
  by (simp_all add: jt_move_def jt_rest_def add.commute add.left_commute)

lemma jt_advance_move: "jt_advance t = jt_move (Suc 0) t"
  by (simp add: jt_advance_def jt_move_def)

lemma jt_skip_move: "jt_skip p t = jt_move (length (takeWhile p (jt_rest t))) t"
  by (simp add: jt_skip_def jt_move_def jt_rest_def)

lemma jt_at_end_rest: "jt_at_end t \<longleftrightarrow> jt_rest t = []"
  by (simp add: jt_at_end_def jt_rest_def)

lemma jt_at_rest: "jt_rest t = c # cs \<Longrightarrow> jt_at t = c"
  by (metis jt_at_def jt_rest_def nth_via_drop)

lemma jt_text_move: "jt_text (jt_move k t) (jt_index t) = take k (jt_rest t)"
  by (simp add: jt_text_def jt_rest_def)

lemma jt_token_space: "jt_rest t = c # cs \<Longrightarrow> is_space c \<Longrightarrow> jt_token t = jt_token (jt_move 1 t)"
  unfolding jt_token_def jt_skip_whitespace_def jt_skip_move by simp

lemma jt_skip_none: "jt_rest t = c # cs \<Longrightarrow> \<not> is_space c \<Longrightarrow> jt_skip_whitespace t = t"
  by (simp add: jt_skip_whitespace_def jt_skip_move)

lemma is_space_simps [simp]:
  "is_space CHR '' ''" "\<not> is_space quote" "\<not> is_space CHR '':''" "\<not> is_space CHR '',''" "\<not> is_space CHR ''.''"
  "\<not> is_space CHR ''{''" "\<not> is_space CHR ''}''" "\<not> is_space CHR ''[''" "\<not> is_space CHR '']''" "\<not> is_space CHR ''-''"
  by (simp_all add: is_space_def)

lemma is_digit_plain: "is_digit c \<Longrightarrow> \<not> is_space c"
  "is_digit c \<Longrightarrow> c \<noteq> quote \<and> c \<noteq> CHR '':'' \<and> c \<noteq> CHR '','' \<and> c \<noteq> CHR ''.'' \<and> c \<noteq> CHR ''{'' \<and> c \<noteq> CHR ''}'' \<and>
     c \<noteq> CHR ''['' \<and> c \<noteq> CHR '']'' \<and> c \<noteq> CHR ''-''"
  by (auto simp: is_digit_def is_space_def Let_def)

lemma is_alpha_plain: "is_alpha c \<Longrightarrow> \<not> is_space c" "is_alpha c \<Longrightarrow> \<not> is_digit c"
  "is_alpha c \<Longrightarrow> c \<noteq> quote \<and> c \<noteq> CHR '':'' \<and> c \<noteq> CHR '','' \<and> c \<noteq> CHR ''.'' \<and> c \<noteq> CHR ''{'' \<and> c \<noteq> CHR ''}'' \<and>
     c \<noteq> CHR ''['' \<and> c \<noteq> CHR '']'' \<and> c \<noteq> CHR ''-''"
  by (auto simp: is_alpha_def is_digit_def is_space_def Let_def)

lemma jt_token_end: "jt_rest t = [] \<Longrightarrow> jt_token t = (Token_end, t)"
  by (simp add: jt_token_def jt_skip_whitespace_def jt_skip_move jt_at_end_rest)

lemma jt_token_punctuation:
  "jt_rest t = CHR '':'' # cs \<Longrightarrow> jt_token t = (Colon, jt_move 1 t)"
  "jt_rest t = CHR '','' # cs \<Longrightarrow> jt_token t = (Comma, jt_move 1 t)"
  "jt_rest t = CHR ''{'' # cs \<Longrightarrow> jt_token t = (Left_brace (jt_index t), jt_move 1 t)"
  "jt_rest t = CHR ''}'' # cs \<Longrightarrow> jt_token t = (Right_brace (jt_index t), jt_move 1 t)"
  "jt_rest t = CHR ''['' # cs \<Longrightarrow> jt_token t = (Left_bracket (jt_index t), jt_move 1 t)"
  "jt_rest t = CHR '']'' # cs \<Longrightarrow> jt_token t = (Right_bracket (jt_index t), jt_move 1 t)"
  by (simp_all add: jt_token_def jt_skip_none jt_at_end_rest jt_at_rest jt_advance_move)

lemma jt_string_end_raw:
  "json_raw e s \<Longrightarrow> jt_string_end e (s @ quote # cs) i = Some (i + length s)"
  by (induction e s arbitrary: i rule: json_raw.induct) auto

lemma jt_token_string:
  assumes "jt_rest t = quote # s @ quote # cs" "json_raw False s"
  shows "jt_token t = (String_token s, jt_move (length s + 2) t)"
proof -
  have rest: "jt_rest (jt_move (Suc 0) t) = s @ quote # cs" using assms(1) by simp
  have found: "jt_string_end False (drop (jt_index (jt_move (Suc 0) t)) (jt_string (jt_move (Suc 0) t))) (jt_index (jt_move (Suc 0) t))
      = Some (jt_index (jt_move (Suc 0) t) + length s)"
    unfolding jt_rest_def [symmetric] rest by (rule jt_string_end_raw [OF assms(2)])
  have "jt_string_token t = (String_token (take (length s) (jt_rest (jt_move (Suc 0) t))), jt_move (length s + 2) t)"
    using found rest by (simp add: jt_string_token_def Let_def jt_advance_move jt_at_end_rest jt_text_def)
      (simp add: jt_move_def jt_rest_def)
  then show ?thesis
    using assms rest by (simp add: jt_token_def jt_skip_none jt_at_end_rest jt_at_rest)
qed

text \<open>A number ends at the first character that is no digit.\<close>

definition ends_number :: "string \<Rightarrow> bool" where
  "ends_number cs \<longleftrightarrow> cs = [] \<or> \<not> is_digit (hd cs)"

lemma takeWhile_digits: "\<forall>c \<in> set ds. is_digit c \<Longrightarrow> ends_number cs \<Longrightarrow> takeWhile is_digit (ds @ cs) = ds"
  by (cases cs) (auto simp: ends_number_def takeWhile_append)

definition sign_text :: "bool \<Rightarrow> string" where
  "sign_text negative = (if negative then ''-'' else [])"

lemma jt_integer_part:
  assumes "jt_rest t = sign_text n @ ds @ cs" "\<forall>c \<in> set ds. is_digit c" "ds \<noteq> []" "ends_number cs"
  shows "jt_token t = (let u = jt_move (length (sign_text n @ ds)) t; v = json_to_int (sign_text n @ ds) n in
     if jt_at_end u \<or> jt_at u \<noteq> CHR ''.'' then (Integer_token (Json_bigger_int v n), u) else jt_float_token v n (jt_advance u))"
proof -
  obtain d es where d: "ds = d # es" "is_digit d" using assms(2,3) by (cases ds) auto
  note plain = is_digit_plain [OF d(2)]
  have skip: "jt_skip is_digit (jt_move (length (sign_text n)) t) = jt_move (length (sign_text n @ ds)) t"
    using assms(1) takeWhile_digits [OF assms(2,4)] by (simp add: jt_skip_move)
  have slice: "jt_text (jt_move (length (sign_text n @ ds)) t) (jt_index t) = sign_text n @ ds"
    unfolding jt_text_move assms(1) by simp
  show ?thesis
  proof (cases n)
    case True
    then have rest: "jt_rest t = CHR ''-'' # ds @ cs" using assms(1) by (simp add: sign_text_def)
    then have "jt_token t = jt_integer_or_float_token t"
      by (simp add: jt_token_def jt_skip_none jt_at_end_rest jt_at_rest)
    then show ?thesis
      using skip slice rest True by (simp add: jt_integer_or_float_token_def Let_def jt_at_end_rest jt_at_rest jt_advance_move sign_text_def)
  next
    case False
    then have rest: "jt_rest t = d # es @ cs" using assms(1) d by (simp add: sign_text_def)
    then have "jt_token t = jt_integer_or_float_token t"
      using plain d(2) by (simp add: jt_token_def jt_skip_none jt_at_end_rest jt_at_rest)
    then show ?thesis
      using skip slice rest False plain by (simp add: jt_integer_or_float_token_def Let_def jt_at_end_rest jt_at_rest sign_text_def)
  qed
qed


definition decimal_char :: "nat \<Rightarrow> char" where
  "decimal_char d = char_of (d + 48)"

abbreviation decimals :: "nat list \<Rightarrow> bool" where
  "decimals ds \<equiv> \<forall>d \<in> set ds. d < 10"

lemma decimal_char_code: "d < 10 \<Longrightarrow> of_char (decimal_char d) = d + 48"
  by (simp add: decimal_char_def)

lemma decimal_char_digit [simp]: "d < 10 \<Longrightarrow> is_digit (decimal_char d)"
  by (simp add: is_digit_def decimal_char_code)

lemma json_to_int_fold:
  "decimals ds \<Longrightarrow> foldl (\<lambda>v c. v * 10 + of_nat (of_char c) - 48) (of_nat a) (map decimal_char ds) = (of_nat (horner 10 a ds) :: 'w::len word)"
proof (induction ds arbitrary: a)
  case (Cons d ds)
  have "of_nat a * 10 + of_nat (of_char (decimal_char d)) - 48 = (of_nat (a * 10 + d) :: 'w word)"
    using Cons.prems by (simp add: decimal_char_code)
  then have "foldl (\<lambda>v c. v * 10 + of_nat (of_char c) - 48) (of_nat a) (map decimal_char (d # ds)) =
      foldl (\<lambda>v c. v * 10 + of_nat (of_char c) - 48) (of_nat (a * 10 + d) :: 'w word) (map decimal_char ds)"
    by (simp only: list.map foldl_Cons)
  also have "\<dots> = of_nat (horner 10 (a * 10 + d) ds)" by (rule Cons.IH) (use Cons.prems in simp)
  finally show ?case by (simp only: horner_def foldl_Cons)
qed (simp add: horner_def)

lemma json_to_int_decimals:
  "decimals ds \<Longrightarrow> json_to_int (sign_text n @ map decimal_char ds) n = (of_nat (horner 10 0 ds) :: 'w::len word)"
  using json_to_int_fold [of ds 0] by (simp add: json_to_int_def sign_text_def)

lemma jt_token_integer:
  assumes "jt_rest t = sign_text n @ map decimal_char ds @ cs" "decimals ds" "ds \<noteq> []" "ends_number cs" "cs = [] \<or> hd cs \<noteq> CHR ''.''"
  shows "jt_token t = (Integer_token (Json_bigger_int (of_nat (horner 10 0 ds)) n), jt_move (length (sign_text n) + length ds) t)"
proof -
  let ?u = "jt_move (length (sign_text n @ map decimal_char ds)) t"
  have "jt_rest ?u = cs" using assms(1) by simp
  then have stop: "jt_at_end ?u \<or> jt_at ?u \<noteq> CHR ''.''"
    using assms(5) by (cases cs) (auto simp: jt_at_end_rest jt_at_rest)
  show ?thesis
    using jt_integer_part [of t n "map decimal_char ds" cs] assms stop json_to_int_decimals [OF assms(2), of n]
    by (simp add: Let_def)
qed

lemma jt_token_float:
  assumes "jt_rest t = sign_text n @ map decimal_char ds @ CHR ''.'' # map decimal_char fs @ cs"
    and "decimals ds" "ds \<noteq> []" "decimals fs" "fs \<noteq> []" "ends_number cs"
  shows "jt_token t = (Float_token (Json_float (of_nat (horner 10 0 ds)) (of_nat (horner 10 0 (take 9 fs)) * 10 ^ (9 - length fs)) n),
    jt_move (length (sign_text n) + length ds + 1 + length fs) t)"
proof -
  let ?u = "jt_move (length (sign_text n @ map decimal_char ds)) t"
  let ?w = "jt_move (Suc 0) ?u"
  have u: "jt_rest ?u = CHR ''.'' # map decimal_char fs @ cs" using assms(1) by simp
  have w: "jt_rest ?w = map decimal_char fs @ cs" unfolding jt_move_simps(3) [of "Suc 0"] u by simp
  obtain f fs' where f: "fs = f # fs'" "f < 10" using assms(4,5) by (cases fs) auto
  have first: "jt_at ?w \<noteq> CHR ''-''" using jt_at_rest [of ?w] w f is_digit_plain(2) [of "decimal_char f"] by simp
  have skip: "jt_skip is_digit ?w = jt_move (length fs) ?w"
    using takeWhile_digits [of "map decimal_char fs" cs] assms(4,6) w by (simp add: jt_skip_move)
  have slice: "jt_text (jt_move (length fs) ?w) (jt_index ?w) = map decimal_char fs"
    unfolding jt_text_move w by simp
  have "(json_to_int (map decimal_char (take 9 fs)) False :: u32) = of_nat (horner 10 0 (take 9 fs))"
    using json_to_int_decimals [of "take 9 fs" False] assms(4) by (auto simp: sign_text_def dest: in_set_takeD)
  then have "jt_float_token v n ?w = (Float_token (Json_float v (of_nat (horner 10 0 (take 9 fs)) * 10 ^ (9 - length fs)) n), jt_move (length fs) ?w)" for v
    using first unfolding jt_float_token_def Let_def skip slice
    by (simp add: take_map nano_value_width_def min_def)
  moreover have "ends_number (CHR ''.'' # map decimal_char fs @ cs)" by (simp add: ends_number_def is_digit_def)
  ultimately show ?thesis
    using jt_integer_part [of t n "map decimal_char ds" "CHR ''.'' # map decimal_char fs @ cs"] assms(1-3) u
      json_to_int_decimals [OF assms(2), of n] jt_at_rest [OF u]
    by (simp add: Let_def jt_at_end_rest jt_advance_move add.commute add.left_commute)
qed

lemma jt_token_identifier:
  assumes "jt_rest t = w @ cs" "w \<noteq> []" "\<forall>c \<in> set w. is_alpha c" "cs = [] \<or> \<not> is_alpha (hd cs)"
  shows "jt_token t = (if w = ''true'' then Boolean_token True else if w = ''false'' then Boolean_token False
      else if w = ''null'' then Null else Token_error, jt_move (length w) t)"
proof -
  obtain c cs' where c: "w = c # cs'" "is_alpha c" using assms(2,3) by (cases w) auto
  note plain = is_alpha_plain [OF c(2)]
  have tw: "takeWhile is_alpha (w @ cs) = w"
    using assms(3,4) by (cases cs) (auto simp: takeWhile_append)
  then have "jt_identifier_token t = (if w = ''true'' then Boolean_token True else if w = ''false'' then Boolean_token False
      else if w = ''null'' then Null else Token_error, jt_move (length w) t)"
    unfolding jt_identifier_token_def Let_def jt_skip_move jt_text_move assms(1) by simp
  then show ?thesis
    using plain assms(1) c by (simp add: jt_token_def jt_skip_none jt_at_end_rest jt_at_rest)
qed

text \<open>A sign without digits is read as the integer 0, and a number that is too large wraps around.\<close>

lemma json_number_corners:
  "fst (jt_token (json_tokenizer_new ''-'')) = Integer_token (Json_bigger_int 0 True)"
  "fst (jt_token (json_tokenizer_new ''18446744073709551617'')) = Integer_token (Json_bigger_int 1 False)"
  by (simp_all add: jt_token_def json_tokenizer_new_def jt_skip_whitespace_def jt_skip_def jt_at_end_def jt_at_def is_space_def is_digit_def
      jt_integer_or_float_token_def jt_advance_def jt_text_def json_to_int_def Let_def)


text \<open>The text of a string token is raw.\<close>

lemma jt_string_end_is_raw: "jt_string_end e cs i = Some j \<Longrightarrow> json_raw e (take (j - i) cs)"
proof (induction e cs i rule: jt_string_end.induct)
  case (2 e c cs i)
  show ?case
  proof (cases "e \<or> c \<noteq> quote")
    case True
    then have j: "jt_string_end (\<not> e \<and> c = backslash) cs (i + 1) = Some j" using 2(2) by simp
    have "j - i = Suc (j - (i + 1))" using jt_string_end_range [OF j] by arith
    then show ?thesis using 2(1) [OF True j] True by simp
  next
    case False
    then show ?thesis using 2(2) by simp
  qed
qed simp

lemma jt_token_raw: "jt_token t = (String_token s, t') \<Longrightarrow> json_raw False s"
  by (auto simp: jt_token_def jt_string_token_def jt_integer_or_float_token_def jt_float_token_def jt_identifier_token_def Let_def jt_text_def
      dest: jt_string_end_is_raw split: if_splits option.splits)

end
