(* ===== verification/Json_Reader.thy ===== *)
theory Json_Reader
  imports Json_Tokenizer
begin

text \<open>
  Reading JSON objects and arrays without building a tree (\<open>JsonIterator\<close>, \<open>JsonObjectIterator\<close>,
  \<open>JsonArrayIterator\<close>, \<open>JsonObject\<close>, \<open>JsonArray\<close> and \<open>JsonValueArrayIterator\<close> of infra/syntax/Json.hpp and
  Json.cpp). A value that is an object or an array is the text of it, read only when it is iterated.
  An iterator points to the object it iterates and sets its error flag: the flag is a field of the
  iterator here, and the operations of the object copy it out and back in.
\<close>

section \<open>Values\<close>

record json_object =
  jo_string :: string
  jo_error :: bool

record json_array =
  ja_string :: string
  ja_error :: bool

datatype json_value = Json_bool bool | Json_int u32 | Json_bigger json_bigger_int | Json_string string
  | Json_real json_float | Json_object json_object | Json_array json_array

definition json_object_new :: "string \<Rightarrow> json_object" where
  "json_object_new s = \<lparr>jo_string = s, jo_error = False\<rparr>"

definition json_array_new :: "string \<Rightarrow> json_array" where
  "json_array_new s = \<lparr>ja_string = s, ja_error = False\<rparr>"

definition json_object_default :: json_object where
  "json_object_default = json_object_new []"

definition json_array_default :: json_array where
  "json_array_default = json_array_new ''[]''"

definition jo_set_error :: "json_object \<Rightarrow> json_object" where
  "jo_set_error ob = ob\<lparr>jo_error := True\<rparr>"

fun as_bool :: "json_value \<Rightarrow> bool option" where
  "as_bool (Json_bool b) = Some b" | "as_bool v = None"

fun as_int :: "json_value \<Rightarrow> u32 option" where
  "as_int (Json_int i) = Some i" | "as_int v = None"

fun as_string :: "json_value \<Rightarrow> string option" where
  "as_string (Json_string s) = Some s" | "as_string v = None"

fun as_float :: "json_value \<Rightarrow> json_float option" where
  "as_float (Json_real f) = Some f" | "as_float v = None"

fun as_object :: "json_value \<Rightarrow> json_object option" where
  "as_object (Json_object ob) = Some ob" | "as_object v = None"

fun as_array :: "json_value \<Rightarrow> json_array option" where
  "as_array (Json_array a) = Some a" | "as_array v = None"

section \<open>Converting a token\<close>

text \<open>\<open>--nested\<close> at an opening and \<open>++nested\<close> at a closing token; the code's counter is a \<open>size_t\<close> that
  wraps below zero and back, the model's is an integer: both are zero at the same tokens, because a
  text has fewer tokens than a \<open>size_t\<close> has values.\<close>

function json_search_end :: "(json_token \<Rightarrow> bool) \<Rightarrow> (json_token \<Rightarrow> nat option) \<Rightarrow> int \<Rightarrow> json_tokenizer \<Rightarrow> nat option \<times> json_tokenizer" where
  "json_search_end opens closes nested t0 = (case jt_token t0 of (token, t) \<Rightarrow>
     if token = Token_end \<or> token = Token_error \<or> (nested = 0 \<and> closes token \<noteq> None) then (closes token, t)
     else json_search_end opens closes (if opens token then nested - 1 else if closes token \<noteq> None then nested + 1 else nested) t)"
  by pat_completeness auto
termination
  by (relation "measure (\<lambda>(_, _, _, t). length (jt_string t) - jt_index t)") (auto intro: jt_token_progress(1) [OF sym])

declare json_search_end.simps [simp del]

fun opens_object :: "json_token \<Rightarrow> bool" where
  "opens_object (Left_brace i) = True" | "opens_object k = False"

fun closes_object :: "json_token \<Rightarrow> nat option" where
  "closes_object (Right_brace i) = Some i" | "closes_object k = None"

fun opens_array :: "json_token \<Rightarrow> bool" where
  "opens_array (Left_bracket i) = True" | "opens_array k = False"

fun closes_array :: "json_token \<Rightarrow> nat option" where
  "closes_array (Right_bracket i) = Some i" | "closes_array k = None"

definition json_search_object_end :: "json_tokenizer \<Rightarrow> nat option \<times> json_tokenizer" where
  "json_search_object_end t = json_search_end opens_object closes_object 0 t"

definition json_search_array_end :: "json_tokenizer \<Rightarrow> nat option \<times> json_tokenizer" where
  "json_search_array_end t = json_search_end opens_array closes_array 0 t"

definition json_read_integer :: "json_bigger_int \<Rightarrow> json_value" where
  "json_read_integer v =
     (if (\<not> jb_negative v \<and> jb_value v \<le> 2147483647) \<or> (jb_negative v \<and> jb_value v \<le> 2147483648)
      then Json_int (ucast (jb_value v * (if jb_negative v then - 1 else 1))) else Json_bigger v)"

text \<open>\<open>objectString.substr(start, end + 1 - start)\<close>\<close>

definition json_slice :: "json_tokenizer \<Rightarrow> nat \<Rightarrow> nat \<Rightarrow> string" where
  "json_slice t start stop = take (stop + 1 - start) (drop start (jt_string t))"

definition json_read_object_value :: "nat \<Rightarrow> json_tokenizer \<Rightarrow> json_value option \<times> json_tokenizer" where
  "json_read_object_value start t0 = (case json_search_object_end t0 of
     (Some stop, t) \<Rightarrow> (Some (Json_object (json_object_new (json_slice t start stop))), t) | (None, t) \<Rightarrow> (None, t))"

definition json_read_array_value :: "nat \<Rightarrow> json_tokenizer \<Rightarrow> json_value option \<times> json_tokenizer" where
  "json_read_array_value start t0 = (case json_search_array_end t0 of
     (Some stop, t) \<Rightarrow> (Some (Json_array (json_array_new (json_slice t start stop))), t) | (None, t) \<Rightarrow> (None, t))"

fun json_convert_value :: "json_token \<Rightarrow> json_tokenizer \<Rightarrow> json_value option \<times> json_tokenizer" where
  "json_convert_value (String_token s) t = (Some (Json_string s), t)"
| "json_convert_value (Integer_token v) t = (Some (json_read_integer v), t)"
| "json_convert_value (Float_token f) t = (Some (Json_real f), t)"
| "json_convert_value (Boolean_token b) t = (Some (Json_bool b), t)"
| "json_convert_value (Left_brace i) t = json_read_object_value i t"
| "json_convert_value (Left_bracket i) t = json_read_array_value i t"
| "json_convert_value Null t = (Some (Json_object json_object_default), t)"
| "json_convert_value k t = (None, t)"

section \<open>Object iterator\<close>

datatype joi_state = Read_object_start | Read_key_or_end | Read_key | Read_colon | Read_value
  | Read_comma_or_object_end | Object_end

record json_object_iterator =
  joi_tokenizer :: json_tokenizer
  joi_key :: string
  joi_value :: json_value
  joi_state :: joi_state
  joi_error :: bool

definition joi_set_error :: "json_object_iterator \<Rightarrow> json_object_iterator" where
  "joi_set_error it = it\<lparr>joi_error := True, joi_state := Object_end\<rparr>"

definition joi_read_object_start :: "json_token \<Rightarrow> json_object_iterator \<Rightarrow> json_object_iterator" where
  "joi_read_object_start token it = (let it = it\<lparr>joi_state := Read_key_or_end\<rparr> in
     case token of Left_brace i \<Rightarrow> it | _ \<Rightarrow> joi_set_error it)"

definition joi_read_key_or_end :: "json_token \<Rightarrow> json_object_iterator \<Rightarrow> json_object_iterator" where
  "joi_read_key_or_end token it = (let it = it\<lparr>joi_state := Read_colon\<rparr> in
     case token of Right_brace i \<Rightarrow> it\<lparr>joi_state := Object_end\<rparr> | String_token s \<Rightarrow> it\<lparr>joi_key := s\<rparr> | _ \<Rightarrow> joi_set_error it)"

definition joi_read_key :: "json_token \<Rightarrow> json_object_iterator \<Rightarrow> json_object_iterator" where
  "joi_read_key token it = (let it = it\<lparr>joi_state := Read_colon\<rparr> in
     case token of String_token s \<Rightarrow> it\<lparr>joi_key := s\<rparr> | _ \<Rightarrow> joi_set_error it)"

definition joi_read_colon :: "json_token \<Rightarrow> json_object_iterator \<Rightarrow> json_object_iterator" where
  "joi_read_colon token it = (let it = it\<lparr>joi_state := Read_value\<rparr> in if token = Colon then it else joi_set_error it)"

definition joi_read_value :: "json_token \<Rightarrow> json_object_iterator \<Rightarrow> json_object_iterator" where
  "joi_read_value token it0 = (let it = it0\<lparr>joi_state := Read_comma_or_object_end\<rparr> in
     case json_convert_value token (joi_tokenizer it) of
       (Some v, t) \<Rightarrow> it\<lparr>joi_tokenizer := t, joi_value := v\<rparr>
     | (None, t) \<Rightarrow> joi_set_error (it\<lparr>joi_tokenizer := t\<rparr>))"

definition joi_read_comma_or_object_end :: "json_token \<Rightarrow> json_object_iterator \<Rightarrow> json_object_iterator" where
  "joi_read_comma_or_object_end token it = (case token of Comma \<Rightarrow> it\<lparr>joi_state := Read_key\<rparr>
     | Right_brace i \<Rightarrow> it\<lparr>joi_state := Object_end\<rparr> | _ \<Rightarrow> joi_set_error it)"

definition joi_parse_next_token :: "json_object_iterator \<Rightarrow> json_object_iterator result" where
  "joi_parse_next_token it0 = (case jt_token (joi_tokenizer it0) of (token, t) \<Rightarrow>
     let it = it0\<lparr>joi_tokenizer := t\<rparr> in
     case joi_state it0 of
       Read_object_start \<Rightarrow> Inr (joi_read_object_start token it)
     | Read_key_or_end \<Rightarrow> Inr (joi_read_key_or_end token it)
     | Read_key \<Rightarrow> Inr (joi_read_key token it)
     | Read_colon \<Rightarrow> Inr (joi_read_colon token it)
     | Read_value \<Rightarrow> Inr (joi_read_value token it)
     | Read_comma_or_object_end \<Rightarrow> Inr (joi_read_comma_or_object_end token it)
     | Object_end \<Rightarrow> Inl Assert_failed)"

definition joi_pauses :: "json_object_iterator \<Rightarrow> bool" where
  "joi_pauses it \<longleftrightarrow> joi_state it = Read_comma_or_object_end \<or> joi_state it = Object_end"

text \<open>Each step of \<open>operator++\<close> goes to a later state.\<close>

fun joi_rank :: "joi_state \<Rightarrow> nat" where
  "joi_rank Read_comma_or_object_end = 5" | "joi_rank Read_object_start = 5" | "joi_rank Read_key_or_end = 4"
| "joi_rank Read_key = 4" | "joi_rank Read_colon = 3" | "joi_rank Read_value = 2" | "joi_rank Object_end = 0"

lemma joi_parse_rank:
  "joi_parse_next_token it = Inr it' \<Longrightarrow> \<not> joi_pauses it' \<Longrightarrow> joi_rank (joi_state it') < joi_rank (joi_state it)"
  by (cases "joi_state it"; cases "fst (jt_token (joi_tokenizer it))")
    (auto simp: joi_parse_next_token_def Let_def split_beta joi_read_object_start_def joi_read_key_or_end_def joi_read_key_def
      joi_read_colon_def joi_read_value_def joi_read_comma_or_object_end_def joi_set_error_def joi_pauses_def split: option.splits prod.splits if_splits)

function joi_next :: "json_object_iterator \<Rightarrow> json_object_iterator result" where
  "joi_next it = (case joi_parse_next_token it of Inl e \<Rightarrow> Inl e
     | Inr it' \<Rightarrow> if joi_pauses it' then Inr it' else joi_next it')"
  by pat_completeness auto
termination by (relation "measure (\<lambda>it. joi_rank (joi_state it))") (auto intro: joi_parse_rank)

declare joi_next.simps [simp del]

definition joi_begin :: "json_object \<Rightarrow> json_object_iterator result" where
  "joi_begin ob = joi_next \<lparr>joi_tokenizer = json_tokenizer_new (jo_string ob), joi_key = [], joi_value = Json_bool False,
     joi_state = Read_object_start, joi_error = jo_error ob\<rparr>"

definition joi_deref :: "json_object_iterator \<Rightarrow> (string \<times> json_value) result" where
  "joi_deref it = (if joi_state it \<noteq> Object_end then Inr (joi_key it, joi_value it) else Inl Assert_failed)"

definition joi_at_end :: "json_object_iterator \<Rightarrow> bool" where
  "joi_at_end it \<longleftrightarrow> joi_state it = Object_end"

definition joi_equal :: "json_object_iterator \<Rightarrow> json_object_iterator \<Rightarrow> bool" where
  "joi_equal x y \<longleftrightarrow> joi_state x = joi_state y \<and> (joi_state x = Object_end \<or> jt_equal (joi_tokenizer x) (joi_tokenizer y))"


section \<open>Progress of the object iterator\<close>

lemma json_search_end_after: "jt_after t (snd (json_search_end opens closes nested t))"
proof (induction opens closes nested t rule: json_search_end.induct)
  case (1 opens closes nested t)
  obtain k u where k: "jt_token t = (k, u)" by (cases "jt_token t")
  then have u: "jt_after t u" using jt_token_after [of t] by simp
  show ?case
  proof (cases "k = Token_end \<or> k = Token_error \<or> (nested = 0 \<and> closes k \<noteq> None)")
    case True
    then show ?thesis using k u by (simp add: json_search_end.simps [of _ _ _ t])
  next
    case False
    then show ?thesis using 1(1) [OF k [symmetric] False] k jt_after_trans [OF u]
      by (simp add: json_search_end.simps [of _ _ _ t])
  qed
qed

lemma json_convert_value_after: "jt_after t (snd (json_convert_value k t))"
  using json_search_end_after [of t opens_object closes_object 0] json_search_end_after [of t opens_array closes_array 0]
  by (cases k) (auto simp: json_read_object_value_def json_read_array_value_def json_search_object_end_def json_search_array_end_def
      split: prod.splits option.splits)

lemma json_convert_value_proper: "json_convert_value k t = (Some v, t') \<Longrightarrow> k \<noteq> Token_end \<and> k \<noteq> Token_error"
  by (cases k) auto

definition jt_left :: "json_tokenizer \<Rightarrow> nat" where
  "jt_left t = length (jt_string t) - jt_index t"

lemma joi_read_simps:
  "joi_state (joi_read_object_start k it) \<noteq> Object_end \<Longrightarrow> k \<noteq> Token_end \<and> k \<noteq> Token_error"
  "joi_state (joi_read_key_or_end k it) \<noteq> Object_end \<Longrightarrow> k \<noteq> Token_end \<and> k \<noteq> Token_error"
  "joi_state (joi_read_key k it) \<noteq> Object_end \<Longrightarrow> k \<noteq> Token_end \<and> k \<noteq> Token_error"
  "joi_state (joi_read_colon k it) \<noteq> Object_end \<Longrightarrow> k \<noteq> Token_end \<and> k \<noteq> Token_error"
  "joi_state (joi_read_comma_or_object_end k it) \<noteq> Object_end \<Longrightarrow> k \<noteq> Token_end \<and> k \<noteq> Token_error"
  by (auto simp: joi_read_object_start_def joi_read_key_or_end_def joi_read_key_def joi_read_colon_def
      joi_read_comma_or_object_end_def joi_set_error_def split: json_token.splits if_splits)

lemma joi_read_tokenizer [simp]:
  "joi_tokenizer (joi_read_object_start k it) = joi_tokenizer it"
  "joi_tokenizer (joi_read_key_or_end k it) = joi_tokenizer it"
  "joi_tokenizer (joi_read_key k it) = joi_tokenizer it"
  "joi_tokenizer (joi_read_colon k it) = joi_tokenizer it"
  "joi_tokenizer (joi_read_comma_or_object_end k it) = joi_tokenizer it"
  by (simp_all add: joi_read_object_start_def joi_read_key_or_end_def joi_read_key_def joi_read_colon_def
      joi_read_comma_or_object_end_def joi_set_error_def Let_def split: json_token.splits)

lemma joi_read_value_tokenizer: "jt_after (joi_tokenizer it) (joi_tokenizer (joi_read_value k it))"
  using json_convert_value_after [of "joi_tokenizer it" k]
  by (auto simp: joi_read_value_def joi_set_error_def Let_def split: prod.splits option.splits)

lemma joi_read_value_proper: "joi_state (joi_read_value k it) \<noteq> Object_end \<Longrightarrow> k \<noteq> Token_end \<and> k \<noteq> Token_error"
  using json_convert_value_proper by (fastforce simp: joi_read_value_def joi_set_error_def Let_def split: prod.splits option.splits)

lemma joi_parse_progress:
  assumes "joi_parse_next_token it = Inr it'"
  shows "jt_after (joi_tokenizer it) (joi_tokenizer it')"
    and "joi_state it' \<noteq> Object_end \<Longrightarrow> jt_left (joi_tokenizer it') < jt_left (joi_tokenizer it)"
proof -
  obtain k t where k: "jt_token (joi_tokenizer it) = (k, t)" by (cases "jt_token (joi_tokenizer it)")
  have t: "jt_after (joi_tokenizer it) t" using k jt_token_after [of "joi_tokenizer it"] by simp
  let ?it = "it\<lparr>joi_tokenizer := t\<rparr>"
  have after: "jt_after t (joi_tokenizer it')"
    using assms k joi_read_value_tokenizer [of ?it k] by (cases "joi_state it") (auto simp: joi_parse_next_token_def)
  show "jt_after (joi_tokenizer it) (joi_tokenizer it')" by (rule jt_after_trans [OF t after])
  assume "joi_state it' \<noteq> Object_end"
  then have proper: "k \<noteq> Token_end \<and> k \<noteq> Token_error"
    using assms k joi_read_simps [of k ?it] joi_read_value_proper [of k ?it]
    by (cases "joi_state it") (auto simp: joi_parse_next_token_def)
  then have "jt_left t < jt_left (joi_tokenizer it)" using jt_token_progress(1) [OF k] by (simp add: jt_left_def)
  moreover have "jt_left (joi_tokenizer it') \<le> jt_left t" using after by (auto simp: jt_after_def jt_left_def intro: diff_le_mono2)
  ultimately show "jt_left (joi_tokenizer it') < jt_left (joi_tokenizer it)" by simp
qed

lemma joi_next_progress:
  "joi_next it = Inr it' \<Longrightarrow> jt_after (joi_tokenizer it) (joi_tokenizer it') \<and> joi_pauses it' \<and>
     (joi_state it' \<noteq> Object_end \<longrightarrow> jt_left (joi_tokenizer it') < jt_left (joi_tokenizer it))"
proof (induction it rule: joi_next.induct)
  case (1 it)
  then obtain u where u: "joi_parse_next_token it = Inr u"
    by (cases "joi_parse_next_token it") (auto simp: joi_next.simps [of it])
  note p = joi_parse_progress [OF u]
  show ?case
  proof (cases "joi_pauses u")
    case True
    then show ?thesis using 1(2) u p by (simp add: joi_next.simps [of it])
  next
    case False
    then have "joi_next u = Inr it'" using 1(2) u by (simp add: joi_next.simps [of it])
    then show ?thesis using 1(1) [OF u False] p False jt_after_trans [OF p(1)] by (auto simp: joi_pauses_def)
  qed
qed

lemma joi_next_left: "joi_next it = Inr it' \<Longrightarrow> joi_state it' \<noteq> Object_end \<Longrightarrow> jt_left (joi_tokenizer it') < jt_left (joi_tokenizer it)"
  using joi_next_progress by blast

lemma joi_parse_defined: "joi_state it \<noteq> Object_end \<Longrightarrow> \<exists>it'. joi_parse_next_token it = Inr it'"
  by (cases "joi_state it") (simp_all add: joi_parse_next_token_def Let_def split_beta)

lemma joi_next_defined: "joi_state it \<noteq> Object_end \<Longrightarrow> \<exists>it'. joi_next it = Inr it'"
proof (induction it rule: joi_next.induct)
  case (1 it)
  obtain u where u: "joi_parse_next_token it = Inr u" using joi_parse_defined [OF 1(2)] by blast
  then show ?case using 1(1) [OF u] by (auto simp: joi_next.simps [of it] joi_pauses_def)
qed

section \<open>Objects\<close>

text \<open>A range-based loop over the pairs of an object that leaves at the first pair for which the body
  gives a value.\<close>

function joi_search :: "(string \<Rightarrow> json_value \<Rightarrow> 'a option result) \<Rightarrow> json_object_iterator \<Rightarrow> ('a option \<times> json_object_iterator) result" where
  "joi_search f it = (if joi_state it = Object_end then Inr (None, it)
     else case f (joi_key it) (joi_value it) of Inl e \<Rightarrow> Inl e
       | Inr (Some x) \<Rightarrow> Inr (Some x, it)
       | Inr None \<Rightarrow> (case joi_next it of Inl e \<Rightarrow> Inl e
           | Inr it' \<Rightarrow> if joi_state it' = Object_end then Inr (None, it') else joi_search f it'))"
  by pat_completeness auto
termination by (relation "measure (\<lambda>(_, it). jt_left (joi_tokenizer it))") (auto intro: joi_next_left)

declare joi_search.simps [simp del]

definition json_object_search :: "(string \<Rightarrow> json_value \<Rightarrow> 'a option result) \<Rightarrow> json_object \<Rightarrow> ('a option \<times> json_object) result" where
  "json_object_search f ob = rbind (joi_begin ob) (\<lambda>it. rbind (joi_search f it) (\<lambda>(x, it'). Inr (x, ob\<lparr>jo_error := joi_error it'\<rparr>)))"

definition on_key :: "string \<Rightarrow> (json_value \<Rightarrow> 'a option) \<Rightarrow> string \<Rightarrow> json_value \<Rightarrow> 'a option result" where
  "on_key key f k v = rbind (json_equals k key) (\<lambda>eq. Inr (if eq then f v else None))"

definition json_has_key :: "string \<Rightarrow> json_object \<Rightarrow> (bool \<times> json_object) result" where
  "json_has_key key ob = rbind (json_object_search (on_key key (\<lambda>v. Some ())) ob) (\<lambda>(x, ob'). Inr (x \<noteq> None, ob'))"

definition json_get :: "'a \<Rightarrow> (json_value \<Rightarrow> 'a option) \<Rightarrow> string \<Rightarrow> json_object \<Rightarrow> ('a \<times> json_object) result" where
  "json_get dflt as key ob = rbind (json_object_search (on_key key as) ob) (\<lambda>(x, ob').
     case x of Some v \<Rightarrow> Inr (v, ob') | None \<Rightarrow> Inr (dflt, jo_set_error ob'))"

definition json_get_optional :: "(json_value \<Rightarrow> 'a option) \<Rightarrow> string \<Rightarrow> json_object \<Rightarrow> ('a option \<times> json_object) result" where
  "json_get_optional as key ob = json_object_search (on_key key as) ob"

definition json_get_string where "json_get_string = json_get [] as_string"
definition json_get_float where "json_get_float = json_get (Json_float 0 0 False) as_float"
definition json_get_boolean where "json_get_boolean = json_get False as_bool"
definition json_get_integer where "json_get_integer = json_get 0 as_int"
definition json_get_object where "json_get_object = json_get json_object_default as_object"
definition json_get_array where "json_get_array = json_get json_array_default as_array"
definition json_get_value where "json_get_value = json_get (Json_bool False) Some"
definition json_get_optional_string where "json_get_optional_string = json_get_optional as_string"
definition json_get_optional_float where "json_get_optional_float = json_get_optional as_float"
definition json_get_optional_boolean where "json_get_optional_boolean = json_get_optional as_bool"
definition json_get_optional_integer where "json_get_optional_integer = json_get_optional as_int"
definition json_get_optional_object where "json_get_optional_object = json_get_optional as_object"
definition json_get_optional_array where "json_get_optional_array = json_get_optional as_array"

text \<open>\<open>GetIntegerAs<T>\<close>: the type \<open>T\<close> is given by its least and greatest value.\<close>

definition json_convert_value_to :: "int \<Rightarrow> int \<Rightarrow> u64 \<Rightarrow> bool \<Rightarrow> int option" where
  "json_convert_value_to lo hi v negative =
     (if negative
      then if v \<noteq> 0 \<and> v \<le> 9223372036854775808
        then let signedValue = sint (v - 1) * - 1 - 1
             in if signedValue < 0 \<and> lo \<le> signedValue \<and> signedValue \<le> hi then Some signedValue else None
        else None
      else if lo \<le> uint v \<and> uint v \<le> hi then Some (uint v) else None)"

definition json_get_integer_as :: "int \<Rightarrow> int \<Rightarrow> string \<Rightarrow> json_object \<Rightarrow> (int \<times> json_object) result" where
  "json_get_integer_as lo hi key ob = rbind (json_get_value key ob) (\<lambda>(v, ob').
     case (case v of Json_int i \<Rightarrow> json_convert_value_to lo hi (of_int \<bar>sint i\<bar>) (sint i < 0)
         | Json_bigger b \<Rightarrow> json_convert_value_to lo hi (jb_value b) (jb_negative b) | _ \<Rightarrow> None) of
       Some x \<Rightarrow> Inr (x, ob') | None \<Rightarrow> Inr (0, jo_set_error ob'))"

text \<open>A range-based loop over all pairs.\<close>

function joi_pairs :: "json_object_iterator \<Rightarrow> ((string \<times> json_value) list \<times> bool) result" where
  "joi_pairs it = (if joi_state it = Object_end then Inr ([], joi_error it)
     else (case joi_next it of Inl e \<Rightarrow> Inl e
       | Inr it' \<Rightarrow> if joi_state it' = Object_end then Inr ([(joi_key it, joi_value it)], joi_error it')
           else rbind (joi_pairs it') (\<lambda>(kvs, e). Inr ((joi_key it, joi_value it) # kvs, e))))"
  by pat_completeness auto
termination by (relation "measure (\<lambda>it. jt_left (joi_tokenizer it))") (auto intro: joi_next_left)

declare joi_pairs.simps [simp del]

definition json_pairs :: "json_object \<Rightarrow> ((string \<times> json_value) list \<times> json_object) result" where
  "json_pairs ob = rbind (joi_begin ob) (\<lambda>it. rbind (joi_pairs it) (\<lambda>(kvs, e). Inr (kvs, ob\<lparr>jo_error := e\<rparr>)))"

definition valid_json_object :: "string \<Rightarrow> bool result" where
  "valid_json_object contents = rbind (json_pairs (json_object_new contents)) (\<lambda>(_, ob). Inr (\<not> jo_error ob))"

section \<open>Array iterator\<close>

datatype jai_state = Read_array_start | Read_value_or_end | Read_array_value | Read_comma_or_array_end | Array_end

record json_array_iterator =
  jai_tokenizer :: json_tokenizer
  jai_value :: json_value
  jai_state :: jai_state
  jai_error :: bool

definition jai_set_error :: "json_array_iterator \<Rightarrow> json_array_iterator" where
  "jai_set_error it = it\<lparr>jai_error := True, jai_state := Array_end\<rparr>"

definition jai_read_value :: "json_token \<Rightarrow> json_array_iterator \<Rightarrow> json_array_iterator" where
  "jai_read_value token it = (case json_convert_value token (jai_tokenizer it) of
       (Some v, t) \<Rightarrow> it\<lparr>jai_tokenizer := t, jai_value := v\<rparr>
     | (None, t) \<Rightarrow> jai_set_error (it\<lparr>jai_tokenizer := t\<rparr>))"

definition jai_step :: "json_array_iterator \<Rightarrow> json_array_iterator result" where
  "jai_step it0 = (case jt_token (jai_tokenizer it0) of (token, t) \<Rightarrow>
     let it = it0\<lparr>jai_tokenizer := t\<rparr> in
     case jai_state it0 of
       Read_array_start \<Rightarrow> Inr (let it = it\<lparr>jai_state := Read_value_or_end\<rparr> in
         case token of Left_bracket i \<Rightarrow> it | _ \<Rightarrow> jai_set_error it)
     | Read_value_or_end \<Rightarrow> Inr (let it = it\<lparr>jai_state := Read_comma_or_array_end\<rparr> in
         case token of Right_bracket i \<Rightarrow> it\<lparr>jai_state := Array_end\<rparr> | _ \<Rightarrow> jai_read_value token it)
     | Read_array_value \<Rightarrow> Inr (jai_read_value token (it\<lparr>jai_state := Read_comma_or_array_end\<rparr>))
     | Read_comma_or_array_end \<Rightarrow> Inr (case token of Comma \<Rightarrow> it\<lparr>jai_state := Read_array_value\<rparr>
         | Right_bracket i \<Rightarrow> it\<lparr>jai_state := Array_end\<rparr> | _ \<Rightarrow> jai_set_error it)
     | Array_end \<Rightarrow> Inl Assert_failed)"

definition jai_pauses :: "json_array_iterator \<Rightarrow> bool" where
  "jai_pauses it \<longleftrightarrow> jai_state it = Read_comma_or_array_end \<or> jai_state it = Array_end"

fun jai_rank :: "jai_state \<Rightarrow> nat" where
  "jai_rank Read_comma_or_array_end = 3" | "jai_rank Read_array_start = 3" | "jai_rank Read_value_or_end = 2"
| "jai_rank Read_array_value = 2" | "jai_rank Array_end = 0"

lemma jai_read_value_state:
  "jai_state it = Read_comma_or_array_end \<Longrightarrow> jai_state (jai_read_value k it) \<in> {Read_comma_or_array_end, Array_end}"
  by (auto simp: jai_read_value_def jai_set_error_def split: prod.splits option.splits)

lemma jai_step_rank:
  assumes "jai_step it = Inr it'" "\<not> jai_pauses it'"
  shows "jai_rank (jai_state it') < jai_rank (jai_state it)"
proof -
  obtain k t where k: "jt_token (jai_tokenizer it) = (k, t)" by (cases "jt_token (jai_tokenizer it)")
  show ?thesis
    using assms k jai_read_value_state [of "it\<lparr>jai_tokenizer := t, jai_state := Read_comma_or_array_end\<rparr>" k]
    by (cases "jai_state it"; cases k) (auto simp: jai_step_def jai_pauses_def jai_set_error_def)
qed

function jai_next :: "json_array_iterator \<Rightarrow> json_array_iterator result" where
  "jai_next it = (case jai_step it of Inl e \<Rightarrow> Inl e
     | Inr it' \<Rightarrow> if jai_pauses it' then Inr it' else jai_next it')"
  by pat_completeness auto
termination by (relation "measure (\<lambda>it. jai_rank (jai_state it))") (auto intro: jai_step_rank)

declare jai_next.simps [simp del]

definition jai_begin :: "json_array \<Rightarrow> json_array_iterator result" where
  "jai_begin a = jai_next \<lparr>jai_tokenizer = json_tokenizer_new (ja_string a), jai_value = Json_bool False,
     jai_state = Read_array_start, jai_error = ja_error a\<rparr>"

definition jai_deref :: "json_array_iterator \<Rightarrow> json_value result" where
  "jai_deref it = (if jai_state it \<noteq> Array_end then Inr (jai_value it) else Inl Assert_failed)"

definition jai_equal :: "json_array_iterator \<Rightarrow> json_array_iterator \<Rightarrow> bool" where
  "jai_equal x y \<longleftrightarrow> jai_state x = jai_state y \<and> (jai_state x = Array_end \<or> jt_equal (jai_tokenizer x) (jai_tokenizer y))"

lemma jai_read_value_after: "jt_after (jai_tokenizer it) (jai_tokenizer (jai_read_value k it))"
  using json_convert_value_after [of "jai_tokenizer it" k]
  by (auto simp: jai_read_value_def jai_set_error_def split: prod.splits option.splits)

lemma jai_read_value_proper: "jai_state (jai_read_value k it) \<noteq> Array_end \<Longrightarrow> k \<noteq> Token_end \<and> k \<noteq> Token_error"
  using json_convert_value_proper by (fastforce simp: jai_read_value_def jai_set_error_def split: prod.splits option.splits)

lemma jai_step_progress:
  assumes "jai_step it = Inr it'"
  shows "jt_after (jai_tokenizer it) (jai_tokenizer it')"
    and "jai_state it' \<noteq> Array_end \<Longrightarrow> jt_left (jai_tokenizer it') < jt_left (jai_tokenizer it)"
proof -
  obtain k t where k: "jt_token (jai_tokenizer it) = (k, t)" by (cases "jt_token (jai_tokenizer it)")
  have t: "jt_after (jai_tokenizer it) t" using k jt_token_after [of "jai_tokenizer it"] by simp
  let ?it = "it\<lparr>jai_tokenizer := t, jai_state := Read_comma_or_array_end\<rparr>"
  have after: "jt_after t (jai_tokenizer it')"
    using assms k jai_read_value_after [of ?it k]
    by (cases "jai_state it"; cases k) (auto simp: jai_step_def Let_def jai_set_error_def)
  show "jt_after (jai_tokenizer it) (jai_tokenizer it')" by (rule jt_after_trans [OF t after])
  assume "jai_state it' \<noteq> Array_end"
  then have proper: "k \<noteq> Token_end \<and> k \<noteq> Token_error"
    using assms k jai_read_value_proper [of k ?it]
    by (cases "jai_state it"; cases k) (auto simp: jai_step_def Let_def jai_set_error_def)
  then have "jt_left t < jt_left (jai_tokenizer it)" using jt_token_progress(1) [OF k] by (simp add: jt_left_def)
  moreover have "jt_left (jai_tokenizer it') \<le> jt_left t" using after by (auto simp: jt_after_def jt_left_def intro: diff_le_mono2)
  ultimately show "jt_left (jai_tokenizer it') < jt_left (jai_tokenizer it)" by simp
qed

lemma jai_next_progress:
  "jai_next it = Inr it' \<Longrightarrow> jt_after (jai_tokenizer it) (jai_tokenizer it') \<and> jai_pauses it' \<and>
     (jai_state it' \<noteq> Array_end \<longrightarrow> jt_left (jai_tokenizer it') < jt_left (jai_tokenizer it))"
proof (induction it rule: jai_next.induct)
  case (1 it)
  then obtain u where u: "jai_step it = Inr u"
    by (cases "jai_step it") (auto simp: jai_next.simps [of it])
  note p = jai_step_progress [OF u]
  show ?case
  proof (cases "jai_pauses u")
    case True
    then show ?thesis using 1(2) u p by (simp add: jai_next.simps [of it])
  next
    case False
    then have "jai_next u = Inr it'" using 1(2) u by (simp add: jai_next.simps [of it])
    then show ?thesis using 1(1) [OF u False] p False jt_after_trans [OF p(1)] by (auto simp: jai_pauses_def)
  qed
qed

lemma jai_next_left: "jai_next it = Inr it' \<Longrightarrow> jai_state it' \<noteq> Array_end \<Longrightarrow> jt_left (jai_tokenizer it') < jt_left (jai_tokenizer it)"
  using jai_next_progress by blast

text \<open>\<open>JsonValueArrayIterator<T>\<close>: when the value it comes to is no \<open>T\<close>, it sets the error and stops.
  \<open>as\<close> reads a value as a \<open>T\<close>.\<close>

definition jvai_check :: "(json_value \<Rightarrow> 'a option) \<Rightarrow> json_array_iterator \<Rightarrow> json_array_iterator" where
  "jvai_check as it = (if jai_state it \<noteq> Array_end \<and> as (jai_value it) = None then jai_set_error it else it)"

definition jvai_begin :: "(json_value \<Rightarrow> 'a option) \<Rightarrow> json_array \<Rightarrow> json_array_iterator result" where
  "jvai_begin as a = rbind (jai_begin a) (\<lambda>it. Inr (jvai_check as it))"

definition jvai_deref :: "(json_value \<Rightarrow> 'a option) \<Rightarrow> json_array_iterator \<Rightarrow> 'a result" where
  "jvai_deref as it = rbind (jai_deref it) (\<lambda>v. case as v of Some x \<Rightarrow> Inr x | None \<Rightarrow> Inl Assert_failed)"

definition jvai_next :: "(json_value \<Rightarrow> 'a option) \<Rightarrow> json_array_iterator \<Rightarrow> json_array_iterator result" where
  "jvai_next as it = rbind (jai_next it) (\<lambda>it. Inr (jvai_check as it))"

lemma jvai_next_left:
  "jvai_next as it = Inr it' \<Longrightarrow> jai_state it' \<noteq> Array_end \<Longrightarrow> jt_left (jai_tokenizer it') < jt_left (jai_tokenizer it)"
  by (auto simp: jvai_next_def rbind_Inr jvai_check_def jai_set_error_def split: if_splits intro: jai_next_left)

text \<open>The values a range-based loop over \<open>JsonBooleanArray\<close>, \<open>JsonIntegerArray\<close>, \<dots> sees, and whether the array is
  then in error.\<close>

function jvai_values :: "(json_value \<Rightarrow> 'a option) \<Rightarrow> json_array_iterator \<Rightarrow> ('a list \<times> bool) result" where
  "jvai_values as it = (if jai_state it = Array_end then Inr ([], jai_error it)
     else rbind (jvai_deref as it) (\<lambda>x. case jvai_next as it of Inl e \<Rightarrow> Inl e
       | Inr it' \<Rightarrow> if jai_state it' = Array_end then Inr ([x], jai_error it')
           else rbind (jvai_values as it') (\<lambda>(xs, e). Inr (x # xs, e))))"
  by pat_completeness auto
termination by (relation "measure (\<lambda>(_, it). jt_left (jai_tokenizer it))") (auto intro: jvai_next_left)

declare jvai_values.simps [simp del]

definition json_typed_array :: "(json_value \<Rightarrow> 'a option) \<Rightarrow> json_array \<Rightarrow> ('a list \<times> bool) result" where
  "json_typed_array as a = rbind (jvai_begin as a) (jvai_values as)"

definition json_boolean_array where "json_boolean_array = json_typed_array as_bool"
definition json_integer_array where "json_integer_array = json_typed_array as_int"
definition json_string_array where "json_string_array = json_typed_array as_string"
definition json_object_array where "json_object_array = json_typed_array as_object"
definition json_array_array where "json_array_array = json_typed_array as_array"

text \<open>A plain range-based loop over an array.\<close>

definition json_array_values :: "json_array \<Rightarrow> (json_value list \<times> bool) result" where
  "json_array_values = json_typed_array Some"

lemma jai_step_defined: "jai_state it \<noteq> Array_end \<Longrightarrow> \<exists>it'. jai_step it = Inr it'"
  by (cases "jai_state it") (simp_all add: jai_step_def Let_def split_beta)

lemma jai_next_defined: "jai_state it \<noteq> Array_end \<Longrightarrow> \<exists>it'. jai_next it = Inr it'"
proof (induction it rule: jai_next.induct)
  case (1 it)
  obtain u where u: "jai_step it = Inr u" using jai_step_defined [OF 1(2)] by blast
  then show ?case using 1(1) [OF u] by (auto simp: jai_next.simps [of it] jai_pauses_def)
qed


section \<open>Any text\<close>

fun value_raw :: "json_value \<Rightarrow> bool" where
  "value_raw (Json_string s) = json_raw False s" | "value_raw v = True"

definition joi_ok :: "json_object_iterator \<Rightarrow> bool" where
  "joi_ok it \<longleftrightarrow> (joi_state it \<in> {Read_colon, Read_value, Read_comma_or_object_end} \<longrightarrow> json_raw False (joi_key it)) \<and>
     (joi_state it = Read_comma_or_object_end \<longrightarrow> value_raw (joi_value it))"

lemma json_convert_value_raw:
  "json_convert_value k t = (Some v, t') \<Longrightarrow> (\<And>s. k = String_token s \<Longrightarrow> json_raw False s) \<Longrightarrow> value_raw v"
  by (cases k) (auto simp: json_read_object_value_def json_read_array_value_def json_read_integer_def split: prod.splits option.splits)

lemma joi_read_value_ok:
  assumes "json_raw False (joi_key it)" "\<And>s. k = String_token s \<Longrightarrow> json_raw False s"
  shows "joi_ok (joi_read_value k it)"
proof -
  obtain r t where r: "json_convert_value k (joi_tokenizer it) = (r, t)" by (cases "json_convert_value k (joi_tokenizer it)")
  show ?thesis
  proof (cases r)
    case None
    then show ?thesis using r by (simp add: joi_read_value_def joi_set_error_def joi_ok_def)
  next
    case (Some v)
    then have "value_raw v" using json_convert_value_raw [of k "joi_tokenizer it" v t] assms(2) r by blast
    then show ?thesis using Some r assms(1) by (simp add: joi_read_value_def joi_ok_def)
  qed
qed

lemma joi_parse_ok:
  assumes "joi_parse_next_token it = Inr it'" "joi_ok it"
  shows "joi_ok it'"
proof -
  obtain k t where k: "jt_token (joi_tokenizer it) = (k, t)" by (cases "jt_token (joi_tokenizer it)")
  then have raw: "json_raw False s" if "k = String_token s" for s using jt_token_raw that by blast
  show ?thesis
  proof (cases "joi_state it = Read_value")
    case True
    then show ?thesis
      using assms k joi_read_value_ok [of "it\<lparr>joi_tokenizer := t\<rparr>" k] raw by (auto simp: joi_parse_next_token_def joi_ok_def)
  next
    case False
    then show ?thesis
      using assms k raw by (cases "joi_state it"; cases k) (auto simp: joi_parse_next_token_def Let_def joi_ok_def joi_read_object_start_def
        joi_read_key_or_end_def joi_read_key_def joi_read_colon_def joi_read_comma_or_object_end_def joi_set_error_def)
  qed
qed

lemma joi_next_ok: "joi_next it = Inr it' \<Longrightarrow> joi_ok it \<Longrightarrow> joi_ok it'"
proof (induction it rule: joi_next.induct)
  case (1 it)
  then obtain u where u: "joi_parse_next_token it = Inr u" by (cases "joi_parse_next_token it") (auto simp: joi_next.simps [of it])
  then show ?case using 1 joi_parse_ok [OF u] by (cases "joi_pauses u") (auto simp: joi_next.simps [of it])
qed

lemma joi_begin_ok: "\<exists>it. joi_begin ob = Inr it \<and> joi_ok it \<and> joi_pauses it"
proof -
  let ?it = "\<lparr>joi_tokenizer = json_tokenizer_new (jo_string ob), joi_key = [], joi_value = Json_bool False,
     joi_state = Read_object_start, joi_error = jo_error ob\<rparr>"
  have "joi_ok ?it" by (simp add: joi_ok_def)
  moreover obtain it where "joi_next ?it = Inr it" using joi_next_defined [of ?it] by auto
  ultimately show ?thesis using joi_next_ok [of ?it it] joi_next_progress [of ?it it] by (auto simp: joi_begin_def)
qed

lemma joi_pairs_defined: "joi_ok it \<Longrightarrow> joi_pauses it \<Longrightarrow>
  \<exists>kvs e. joi_pairs it = Inr (kvs, e) \<and> (\<forall>(k, v) \<in> set kvs. json_raw False k \<and> value_raw v)"
proof (induction it rule: joi_pairs.induct)
  case (1 it)
  show ?case
  proof (cases "joi_state it = Object_end")
    case True
    then show ?thesis by (simp add: joi_pairs.simps [of it])
  next
    case False
    then obtain it' where n: "joi_next it = Inr it'" using joi_next_defined by blast
    have ok: "joi_ok it'" "joi_pauses it'" using joi_next_ok [OF n 1(2)] joi_next_progress [OF n] by blast+
    have here: "json_raw False (joi_key it) \<and> value_raw (joi_value it)" using 1(2,3) False by (auto simp: joi_ok_def joi_pauses_def)
    show ?thesis
    proof (cases "joi_state it' = Object_end")
      case True
      then show ?thesis using False n here by (simp add: joi_pairs.simps [of it])
    next
      case more: False
      obtain kvs e where "joi_pairs it' = Inr (kvs, e)" "\<forall>(k, v) \<in> set kvs. json_raw False k \<and> value_raw v"
        using 1(1) [OF False n more ok] by blast
      then show ?thesis using False n more here by (simp add: joi_pairs.simps [of it])
    qed
  qed
qed

lemma joi_search_defined:
  "joi_ok it \<Longrightarrow> joi_pauses it \<Longrightarrow> (\<And>k v. json_raw False k \<Longrightarrow> \<exists>x. f k v = Inr x) \<Longrightarrow> \<exists>r. joi_search f it = Inr r"
proof (induction f it rule: joi_search.induct)
  case (1 f it)
  show ?case
  proof (cases "joi_state it = Object_end")
    case True
    then show ?thesis by (simp add: joi_search.simps [of f it])
  next
    case False
    then obtain it' where n: "joi_next it = Inr it'" using joi_next_defined by blast
    have ok: "joi_ok it'" "joi_pauses it'" using joi_next_ok [OF n 1(2)] joi_next_progress [OF n] by blast+
    have "json_raw False (joi_key it)" using 1(2,3) False by (auto simp: joi_ok_def joi_pauses_def)
    then obtain x where x: "f (joi_key it) (joi_value it) = Inr x" using 1(4) by blast
    show ?thesis
    proof (cases x)
      case None
      have "\<exists>r. joi_search f it' = Inr r" if "joi_state it' \<noteq> Object_end"
        by (rule 1(1)) (use False x None n that ok 1(4) in auto)
      then show ?thesis using False x None n by (auto simp: joi_search.simps [of f it])
    next
      case (Some y)
      then show ?thesis using False x by (simp add: joi_search.simps [of f it])
    qed
  qed
qed

lemma on_key_defined: "json_raw False k \<Longrightarrow> \<exists>x. on_key key as k v = Inr x"
  using json_raw_chars [of k] by (auto simp: on_key_def json_equals_chars)

text \<open>C14: Reading is safe for every text, well formed or not: a loop over the members of an object ends, with raw
  names and raw strings that decode without a fault, and looking up a member of any type always gives a
  value.\<close>

theorem json_reading_total:
  "(\<exists>kvs ob'. json_pairs ob = Inr (kvs, ob') \<and>
      (\<forall>(k, v) \<in> set kvs. (\<exists>cs. json_to_std_string k = Inr cs) \<and> (\<forall>s. v = Json_string s \<longrightarrow> (\<exists>cs. json_to_std_string s = Inr cs)))) \<and>
   (\<exists>x ob'. json_get dflt as key ob = Inr (x, ob')) \<and>
   (\<exists>b ob'. json_has_key key ob = Inr (b, ob'))"
proof -
  obtain it where it: "joi_begin ob = Inr it" "joi_ok it" "joi_pauses it" using joi_begin_ok by blast
  obtain kvs e where kvs: "joi_pairs it = Inr (kvs, e)" "\<forall>(k, v) \<in> set kvs. json_raw False k \<and> value_raw v"
    using joi_pairs_defined [OF it(2,3)] by blast
  have "\<exists>x ob'. json_object_search (on_key key as) ob = Inr (x, ob')"
    using joi_search_defined [OF it(2,3), of "on_key key as"] on_key_defined it(1) by (fastforce simp: json_object_search_def)
  then have get: "\<exists>x ob'. json_get dflt as key ob = Inr (x, ob')"
    by (auto simp: json_get_def split: option.split)
  have "\<exists>x ob'. json_object_search (on_key key (\<lambda>v. Some ())) ob = Inr (x, ob')"
    using joi_search_defined [OF it(2,3), of "on_key key (\<lambda>v. Some ())"] on_key_defined it(1) by (fastforce simp: json_object_search_def)
  then have has: "\<exists>b ob'. json_has_key key ob = Inr (b, ob')" by (auto simp: json_has_key_def)
  have pairs: "json_pairs ob = Inr (kvs, ob\<lparr>jo_error := e\<rparr>)" using it(1) kvs(1) by (simp add: json_pairs_def)
  have raw: "\<forall>(k, v) \<in> set kvs. (\<exists>cs. json_to_std_string k = Inr cs) \<and> (\<forall>s. v = Json_string s \<longrightarrow> (\<exists>cs. json_to_std_string s = Inr cs))"
    using kvs(2) json_raw_chars by (fastforce simp: json_to_std_string_def)
  show ?thesis using pairs raw get has by blast
qed

theorem json_reading_total_witness:
  "(\<exists>kvs ob'. json_pairs (json_object_new ''{x'') = Inr (kvs, ob') \<and>
      (\<forall>(k, v) \<in> set kvs. (\<exists>cs. json_to_std_string k = Inr cs) \<and> (\<forall>s. v = Json_string s \<longrightarrow> (\<exists>cs. json_to_std_string s = Inr cs)))) \<and>
   (\<exists>x ob'. json_get [] as_string ''a'' (json_object_new ''{x'') = Inr (x, ob')) \<and>
   (\<exists>b ob'. json_has_key ''a'' (json_object_new ''{x'') = Inr (b, ob'))"
  by (rule json_reading_total)

end
