(* ===== verification/Json_Formatter.thy ===== *)
theory Json_Formatter
  imports Json_Reader
begin

text \<open>
  Writing JSON (infra/syntax/JsonFormatter.cpp and JsonFormatter.hpp): \<open>JsonObjectFormatter\<close>,
  \<open>JsonArrayFormatter\<close>, \<open>JsonStringStream\<close> and \<open>Merge\<close>. Formatters of nested values share one stream, so that
  an operation gives the pieces of text it sends and the formatter it leaves; the stream has its
  default format. A formatter holds whether it still has the stream (it loses it when it is moved
  from) and whether nothing was added yet.
\<close>

section \<open>Object formatter\<close>

record json_formatter =
  jf_stream :: bool
  jf_empty :: bool

text \<open>The name of a member: a C string, or the raw text of a \<open>JsonString\<close> or a bounded string.\<close>

datatype json_tag = Tag_cstr string | Tag_raw string

fun tag_pieces :: "json_tag \<Rightarrow> string list" where
  "tag_pieces (Tag_cstr s) = out_cstr tf_default s"
| "tag_pieces (Tag_raw s) = [s]"

definition literal :: "string \<Rightarrow> string list" where
  "literal s = out_cstr tf_default s"

definition jof_new :: "string list \<times> json_formatter" where
  "jof_new = (literal ''{ '', \<lparr>jf_stream = True, jf_empty = True\<rparr>)"

text \<open>Neither of the two copies \<open>empty\<close>; the first has its own initial value.\<close>

definition jof_move :: "json_formatter \<Rightarrow> json_formatter \<times> json_formatter" where
  "jof_move other = (\<lparr>jf_stream = jf_stream other, jf_empty = True\<rparr>, other\<lparr>jf_stream := False\<rparr>)"

definition jof_move_assign :: "json_formatter \<Rightarrow> json_formatter \<Rightarrow> json_formatter \<times> json_formatter" where
  "jof_move_assign this other = (this\<lparr>jf_stream := jf_stream other\<rparr>, other\<lparr>jf_stream := False\<rparr>)"

definition jof_destroy :: "json_formatter \<Rightarrow> string list" where
  "jof_destroy f = (if jf_stream f then literal '' }'' else [])"

definition jf_insert_separation :: "json_formatter \<Rightarrow> string list \<times> json_formatter" where
  "jf_insert_separation f = (if \<not> jf_empty f then literal '', '' else [], f\<lparr>jf_empty := False\<rparr>)"

text \<open>Every member is the separation, the name in quotes and a colon, and then its value.\<close>

definition jof_member :: "string list \<Rightarrow> string list \<Rightarrow> json_formatter \<Rightarrow> string list \<times> json_formatter" where
  "jof_member tag content f = (case jf_insert_separation f of (sep, f') \<Rightarrow>
     (sep @ out_char quote @ tag @ literal [quote, CHR '':''] @ content, f'))"

definition bool_pieces :: "bool \<Rightarrow> string list" where
  "bool_pieces b = literal (if b then ''true'' else ''false'')"

definition bigger_pieces :: "json_bigger_int \<Rightarrow> string list" where
  "bigger_pieces v = (if jb_negative v then literal ''-'' else []) @ out_u64 tf_default (jb_value v)"

definition quoted_pieces :: "bool \<Rightarrow> string \<Rightarrow> string list" where
  "quoted_pieces sc s = json_insert_escaped_content sc s @ out_char quote"

definition jof_add_bool :: "json_tag \<Rightarrow> bool \<Rightarrow> json_formatter \<Rightarrow> string list \<times> json_formatter" where
  "jof_add_bool tag b f = jof_member (tag_pieces tag) (bool_pieces b) f"

definition jof_add_i64 :: "json_tag \<Rightarrow> u64 \<Rightarrow> json_formatter \<Rightarrow> string list \<times> json_formatter" where
  "jof_add_i64 tag v f = jof_member (tag_pieces tag) (out_i64 tf_default v) f"

definition jof_add_u64 :: "json_tag \<Rightarrow> u64 \<Rightarrow> json_formatter \<Rightarrow> string list \<times> json_formatter" where
  "jof_add_u64 tag v f = jof_member (tag_pieces tag) (out_u64 tf_default v) f"

definition jof_add_i8 :: "json_tag \<Rightarrow> u8 \<Rightarrow> json_formatter \<Rightarrow> string list \<times> json_formatter" where
  "jof_add_i8 tag v f = jof_add_i64 tag (scast v) f"

definition jof_add_u8 :: "json_tag \<Rightarrow> u8 \<Rightarrow> json_formatter \<Rightarrow> string list \<times> json_formatter" where
  "jof_add_u8 tag v f = jof_add_u64 tag (ucast v) f"

definition jof_add_i16 :: "json_tag \<Rightarrow> u16 \<Rightarrow> json_formatter \<Rightarrow> string list \<times> json_formatter" where
  "jof_add_i16 tag v f = jof_add_i64 tag (scast v) f"

definition jof_add_u16 :: "json_tag \<Rightarrow> u16 \<Rightarrow> json_formatter \<Rightarrow> string list \<times> json_formatter" where
  "jof_add_u16 tag v f = jof_add_u64 tag (ucast v) f"

definition jof_add_i32 :: "json_tag \<Rightarrow> u32 \<Rightarrow> json_formatter \<Rightarrow> string list \<times> json_formatter" where
  "jof_add_i32 tag v f = jof_add_i64 tag (scast v) f"

definition jof_add_u32 :: "json_tag \<Rightarrow> u32 \<Rightarrow> json_formatter \<Rightarrow> string list \<times> json_formatter" where
  "jof_add_u32 tag v f = jof_add_u64 tag (ucast v) f"

text \<open>With a \<open>JsonString\<close>, these two write the decoded name and not the raw one.\<close>

fun tag_decoded :: "json_tag \<Rightarrow> string list result" where
  "tag_decoded (Tag_cstr s) = Inr (out_cstr tf_default s)"
| "tag_decoded (Tag_raw s) = out_json_string s"

definition jof_add_bigger :: "json_tag \<Rightarrow> json_bigger_int \<Rightarrow> json_formatter \<Rightarrow> (string list \<times> json_formatter) result" where
  "jof_add_bigger tag v f = rbind (tag_decoded tag) (\<lambda>ps. Inr (jof_member ps (bigger_pieces v) f))"

text \<open>The value of a C string is what is in front of its zero.\<close>

definition jof_add_text :: "bool \<Rightarrow> json_tag \<Rightarrow> string \<Rightarrow> json_formatter \<Rightarrow> string list \<times> json_formatter" where
  "jof_add_text sc tag s f = jof_member (tag_pieces tag) (out_char quote @ quoted_pieces sc s) f"

definition jof_add_cstr :: "bool \<Rightarrow> json_tag \<Rightarrow> string \<Rightarrow> json_formatter \<Rightarrow> string list \<times> json_formatter" where
  "jof_add_cstr sc tag s f = jof_add_text sc tag (c_str s) f"

definition jof_add_json_string :: "json_tag \<Rightarrow> string \<Rightarrow> json_formatter \<Rightarrow> string list \<times> json_formatter" where
  "jof_add_json_string tag s f = jof_member (tag_pieces tag) (out_char quote @ [s] @ out_char quote) f"

definition jof_add_object :: "json_tag \<Rightarrow> json_object \<Rightarrow> json_formatter \<Rightarrow> string list \<times> json_formatter" where
  "jof_add_object tag ob f = jof_member (tag_pieces tag) [jo_string ob] f"

definition jof_add_array :: "json_tag \<Rightarrow> json_array \<Rightarrow> json_formatter \<Rightarrow> string list \<times> json_formatter" where
  "jof_add_array tag a f = jof_member (tag_pieces tag) [ja_string a] f"

definition milli_value_width :: nat where "milli_value_width = 3"

definition fractional_pieces :: "u64 \<Rightarrow> u32 \<Rightarrow> bool \<Rightarrow> nat \<Rightarrow> string list" where
  "fractional_pieces i fractional negative width = (if negative then out_char CHR ''-'' else []) @
     out_u64 tf_default i @ out_char CHR ''.'' @ out_u32 (tf_with_width tf_default width CHR ''0'') fractional"

definition jof_add_fractional :: "json_tag \<Rightarrow> u64 \<Rightarrow> u32 \<Rightarrow> bool \<Rightarrow> nat \<Rightarrow> json_formatter \<Rightarrow> string list \<times> json_formatter" where
  "jof_add_fractional tag i fractional negative width f = jof_member (tag_pieces tag) (fractional_pieces i fractional negative width) f"

definition jof_add_float :: "json_tag \<Rightarrow> json_float \<Rightarrow> json_formatter \<Rightarrow> string list \<times> json_formatter" where
  "jof_add_float tag v f =
     (if jf_nano v mod 1000000 = 0
      then jof_add_fractional tag (jf_int v) (jf_nano v div 1000000) (jf_negative v) milli_value_width f
      else jof_add_fractional tag (jf_int v) (jf_nano v) (jf_negative v) nano_value_width f)"

definition jof_add_milli_float :: "json_tag \<Rightarrow> u64 \<Rightarrow> u32 \<Rightarrow> bool \<Rightarrow> json_formatter \<Rightarrow> string list \<times> json_formatter" where
  "jof_add_milli_float tag i fractional negative f = jof_add_fractional tag i fractional negative milli_value_width f"

definition jof_add_key_value :: "string \<Rightarrow> json_value \<Rightarrow> json_formatter \<Rightarrow> (string list \<times> json_formatter) result" where
  "jof_add_key_value key v f = (case v of
       Json_bool b \<Rightarrow> Inr (jof_add_bool (Tag_raw key) b f)
     | Json_int i \<Rightarrow> Inr (jof_add_i32 (Tag_raw key) i f)
     | Json_bigger b \<Rightarrow> jof_add_bigger (Tag_raw key) b f
     | Json_string s \<Rightarrow> Inr (jof_add_json_string (Tag_raw key) s f)
     | Json_object ob \<Rightarrow> Inr (jof_add_object (Tag_raw key) ob f)
     | Json_array a \<Rightarrow> Inr (jof_add_array (Tag_raw key) a f)
     | Json_real r \<Rightarrow> Inl Assert_failed)"

definition jof_add_value :: "string \<Rightarrow> json_value \<Rightarrow> json_formatter \<Rightarrow> (string list \<times> json_formatter) result" where
  "jof_add_value key v f = (case v of
       Json_bool b \<Rightarrow> Inr (jof_add_bool (Tag_raw key) b f)
     | Json_int i \<Rightarrow> Inr (jof_add_i32 (Tag_raw key) i f)
     | Json_bigger b \<Rightarrow> jof_add_bigger (Tag_raw key) b f
     | Json_real r \<Rightarrow> Inr (jof_add_float (Tag_raw key) r f)
     | Json_string s \<Rightarrow> Inr (jof_add_json_string (Tag_raw key) s f)
     | Json_object ob \<Rightarrow> Inr (jof_add_object (Tag_raw key) ob f)
     | Json_array a \<Rightarrow> Inr (jof_add_array (Tag_raw key) a f))"

definition jof_add_sub_object :: "json_tag \<Rightarrow> string \<Rightarrow> json_formatter \<Rightarrow> string list \<times> json_formatter" where
  "jof_add_sub_object tag json f = jof_member (tag_pieces tag) [json] f"

text \<open>A nested formatter: what is sent, the formatter and the nested one.\<close>

definition jof_sub_object :: "json_tag \<Rightarrow> json_formatter \<Rightarrow> string list \<times> json_formatter \<times> json_formatter" where
  "jof_sub_object tag f = (case jof_member (tag_pieces tag) [] f of (ps, f') \<Rightarrow> (ps @ fst jof_new, f', snd jof_new))"

section \<open>Array formatter\<close>

definition jaf_new :: "string list \<times> json_formatter" where
  "jaf_new = (literal ''[ '', \<lparr>jf_stream = True, jf_empty = True\<rparr>)"

definition jaf_move :: "json_formatter \<Rightarrow> json_formatter \<times> json_formatter" where
  "jaf_move other = (\<lparr>jf_stream = jf_stream other, jf_empty = True\<rparr>, other\<lparr>jf_stream := False\<rparr>)"

definition jaf_move_assign :: "json_formatter \<Rightarrow> json_formatter \<Rightarrow> json_formatter \<times> json_formatter" where
  "jaf_move_assign this other = (this\<lparr>jf_stream := jf_stream other\<rparr>, other\<lparr>jf_stream := False\<rparr>)"

definition jaf_destroy :: "json_formatter \<Rightarrow> string list" where
  "jaf_destroy f = (if jf_stream f then literal '' ]'' else [])"

definition jaf_element :: "string list \<Rightarrow> json_formatter \<Rightarrow> string list \<times> json_formatter" where
  "jaf_element content f = (case jf_insert_separation f of (sep, f') \<Rightarrow> (sep @ content, f'))"

definition jaf_add_bool :: "bool \<Rightarrow> json_formatter \<Rightarrow> string list \<times> json_formatter" where
  "jaf_add_bool b f = jaf_element (bool_pieces b) f"

definition jaf_add_i32 :: "u32 \<Rightarrow> json_formatter \<Rightarrow> string list \<times> json_formatter" where
  "jaf_add_i32 v f = jaf_element (out_i32 tf_default v) f"

definition jaf_add_u32 :: "u32 \<Rightarrow> json_formatter \<Rightarrow> string list \<times> json_formatter" where
  "jaf_add_u32 v f = jaf_element (out_u32 tf_default v) f"

definition jaf_add_i64 :: "u64 \<Rightarrow> json_formatter \<Rightarrow> string list \<times> json_formatter" where
  "jaf_add_i64 v f = jaf_element (out_i64 tf_default v) f"

definition jaf_add_bigger :: "json_bigger_int \<Rightarrow> json_formatter \<Rightarrow> string list \<times> json_formatter" where
  "jaf_add_bigger v f = jaf_element (bigger_pieces v) f"

definition jaf_add_text :: "bool \<Rightarrow> string \<Rightarrow> json_formatter \<Rightarrow> string list \<times> json_formatter" where
  "jaf_add_text sc s f = jaf_element (out_char quote @ quoted_pieces sc s) f"

definition jaf_add_cstr :: "bool \<Rightarrow> string \<Rightarrow> json_formatter \<Rightarrow> string list \<times> json_formatter" where
  "jaf_add_cstr sc s f = jaf_add_text sc (c_str s) f"

definition jaf_sub_object :: "json_formatter \<Rightarrow> string list \<times> json_formatter \<times> json_formatter" where
  "jaf_sub_object f = (case jf_insert_separation f of (sep, f') \<Rightarrow> (sep @ fst jof_new, f', snd jof_new))"

definition jaf_sub_array :: "json_formatter \<Rightarrow> string list \<times> json_formatter \<times> json_formatter" where
  "jaf_sub_array f = (case jf_insert_separation f of (sep, f') \<Rightarrow> (sep @ fst jaf_new, f', snd jaf_new))"

definition jof_sub_array :: "string \<Rightarrow> json_formatter \<Rightarrow> string list \<times> json_formatter \<times> json_formatter" where
  "jof_sub_array tag f = (case jof_member [tag] [] f of (ps, f') \<Rightarrow> (ps @ fst jaf_new, f', snd jaf_new))"

section \<open>Streams for a member\<close>

text \<open>\<open>AddString\<close> opens a string, which the destructor of the stream it returns closes when the stream
  is owned. \<open>AddObject\<close> leaves the value to the caller.\<close>

definition jof_add_string :: "json_tag \<Rightarrow> json_formatter \<Rightarrow> string list \<times> json_formatter" where
  "jof_add_string tag f = jof_member (tag_pieces tag) (out_char quote) f"

definition jss_move :: "bool \<Rightarrow> bool \<times> bool" where
  "jss_move other = (True, False)"

definition jss_move_assign :: "bool \<Rightarrow> bool \<Rightarrow> bool \<times> bool" where
  "jss_move_assign this other = (other, False)"

definition jss_destroy :: "bool \<Rightarrow> string list" where
  "jss_destroy owned = (if owned then out_char quote else [])"

definition jof_open_object :: "json_tag \<Rightarrow> json_formatter \<Rightarrow> string list \<times> json_formatter" where
  "jof_open_object tag f = jof_member (tag_pieces tag) [] f"


section \<open>Merging a value into an object\<close>

definition path_head :: "string \<Rightarrow> string" where
  "path_head path = (case find_forward (\<lambda>c. c = CHR ''/'') path 0 of Some i \<Rightarrow> take i path | None \<Rightarrow> path)"

definition path_tail :: "string \<Rightarrow> string" where
  "path_tail path = drop (length (path_head path) + 1) path"

lemma path_head_length: "length (path_head path) \<le> length path"
  by (simp add: path_head_def find_forward_eq)

lemma path_tail_shorter: "length (path_head path) \<noteq> length path \<Longrightarrow> length (path_tail path) < length path"
  using path_head_length [of path] by (simp add: path_tail_def)

function json_nested_insert :: "string \<Rightarrow> string \<Rightarrow> json_value \<Rightarrow> json_formatter \<Rightarrow> (string list \<times> json_formatter) result" where
  "json_nested_insert key path v f = (case jof_sub_object (Tag_raw key) f of (ps, f', sub) \<Rightarrow>
     rbind (if length (path_head path) = length path then jof_add_value (path_head path) v sub
            else json_nested_insert (path_head path) (path_tail path) v sub)
       (\<lambda>(qs, sub'). Inr (ps @ qs @ jof_destroy sub', f')))"
  by pat_completeness auto
termination by (relation "measure (\<lambda>(_, path, _). length path)") (auto intro: path_tail_shorter)

declare json_nested_insert.simps [simp del]

text \<open>The token and the remaining path.\<close>

definition merge_split :: "string \<Rightarrow> string \<times> string" where
  "merge_split path = (if path = [] then ([], [])
     else (path_head path, if length path \<noteq> length (path_head path) then path_tail path else []))"

text \<open>The loop over the pairs of the object, with the recursive call as \<open>sub\<close>; \<open>token\<close> is cleared at the
  first member it names.\<close>

fun merge_pairs :: "(json_object \<Rightarrow> json_formatter \<Rightarrow> (string list \<times> json_formatter) result) \<Rightarrow> string \<Rightarrow> json_value \<Rightarrow>
    string \<Rightarrow> (string \<times> json_value) list \<Rightarrow> json_formatter \<Rightarrow> (string list \<times> string \<times> json_formatter) result" where
  "merge_pairs sub remaining v token [] f = Inr ([], token, f)"
| "merge_pairs sub remaining v token ((k, x) # kvs) f =
     rbind (json_equals k token) (\<lambda>eq.
     rbind (if remaining = [] \<and> eq then rbind (jof_add_value k v f) (\<lambda>(ps, f'). Inr (ps, [], f'))
            else if remaining \<noteq> [] \<and> eq
            then (case jof_sub_object (Tag_raw k) f of (ps, f', g) \<Rightarrow>
              rbind (sub (case x of Json_object ob \<Rightarrow> ob | _ \<Rightarrow> json_object_new ''{}'') g) (\<lambda>(qs, g').
              Inr (ps @ qs @ jof_destroy g', [], f')))
            else rbind (jof_add_value k x f) (\<lambda>(ps, f'). Inr (ps, token, f')))
       (\<lambda>(ps, token', f'). rbind (merge_pairs sub remaining v token' kvs f') (\<lambda>(qs, token'', f''). Inr (ps @ qs, token'', f''))))"

lemma merge_split_shorter: "(token, remaining) = merge_split path \<Longrightarrow> remaining \<noteq> [] \<Longrightarrow> length remaining < length path"
  using path_tail_shorter [of path] by (auto simp: merge_split_def split: if_splits)

function json_merge :: "string \<Rightarrow> json_value \<Rightarrow> json_object \<Rightarrow> json_formatter \<Rightarrow> (string list \<times> json_formatter) result" where
  "json_merge path v ob f = (case merge_split path of (token, remaining) \<Rightarrow>
     rbind (json_pairs ob) (\<lambda>(kvs, ob').
     rbind (merge_pairs (\<lambda>ob f. if remaining \<noteq> [] then json_merge remaining v ob f else Inl Assert_failed)
         remaining v token kvs f) (\<lambda>(ps, token', f').
     if token' = [] then Inr (ps, f')
     else rbind (json_has_key token' ob') (\<lambda>(has, ob'').
       if has then Inr (ps, f')
       else rbind (if remaining = [] then jof_add_value token' v f' else json_nested_insert token' remaining v f')
         (\<lambda>(qs, f''). Inr (ps @ qs, f''))))))"
  by pat_completeness auto
termination by (relation "measure (\<lambda>(path, _). length path)") (auto intro: merge_split_shorter)

declare json_merge.simps [simp del]

end
