(* ===== verification/Json_Roundtrip.thy ===== *)
theory Json_Roundtrip
  imports Json_Formatter
begin

text \<open>
  What \<open>JsonFormatter\<close> writes is read back by the iterators. Trees of values are written by calling the
  formatters, an object or array inside another by a nested formatter; the text of every tree is read
  as its members in order, each with its name and value, and without an error.
\<close>

section \<open>Numbers as text\<close>

lemma horner_zeros: "horner 10 0 (replicate n 0 @ ds) = horner 10 0 ds"
  by (induction n) (simp_all add: horner_def)

lemma concat_map_singleton: "concat (map (\<lambda>d. [g d]) ds) = map g ds"
  by (induction ds) auto

lemma decimal_text:
  assumes "unat v < 10 ^ w \<or> w = 0"
  shows "\<exists>ds. concat (output_as_decimal (tf_with_width tf_default w CHR ''0'') v False) = map decimal_char ds \<and>
    ds \<noteq> [] \<and> decimals ds \<and> horner 10 0 ds = unat v \<and> (w \<noteq> 0 \<longrightarrow> length ds = w)"
proof -
  obtain j where j: "digit_mask 10 (unat v) (10 ^ 0) 1 = (10 ^ j, 1 + (j - 0))" "unat v < 10 ^ Suc j" "10 ^ j \<le> unat v \<or> j = 0"
    using digit_mask_power [of 10 0 "unat v" 1] by auto
  let ?ds = "replicate (w - Suc j) 0 @ digits 10 (unat v) (Suc j)"
  have zero: "(char_of (48 :: nat) :: char) = CHR ''0''" by code_simp
  have "concat (output_as_decimal (tf_with_width tf_default w CHR ''0'') v False) = map decimal_char ?ds"
    using j print_mask_digits [of 10 "unat v" j]
    by (simp add: output_as_decimal_def output_number_def optional_padding_def tf_with_width_def tf_default_def
        concat_map_singleton zero decimal_char_def [abs_def])
  moreover have "decimals ?ds" using digits_less [of 10 _ "unat v" "Suc j"] by auto
  moreover have "horner 10 0 ?ds = unat v" using j(2) by (simp add: horner_zeros horner_digits)
  moreover have "?ds \<noteq> []" by (simp add: digits_Suc)
  moreover have "length ?ds = w" if "w \<noteq> 0"
  proof -
    have "j < w"
    proof (cases "j = 0")
      case False
      then have "(10::nat) ^ j < 10 ^ w" using j(3) assms that by (meson le_less_trans)
      then show ?thesis by simp
    qed (use that in simp)
    then show ?thesis by (simp add: digits_def)
  qed
  ultimately show ?thesis by blast
qed

lemma u64_decimal_text:
  "\<exists>ds. concat (out_u64 tf_default v) = map decimal_char ds \<and> ds \<noteq> [] \<and> decimals ds \<and> horner 10 0 ds = unat v"
proof -
  have "tf_with_width tf_default 0 CHR ''0'' = tf_default\<lparr>tf_padding := CHR ''0''\<rparr>" by (simp add: tf_with_width_def tf_default_def)
  then have "output_as_decimal (tf_with_width tf_default 0 CHR ''0'') v False = output_as_decimal tf_default v False"
    by (simp add: output_as_decimal_def output_number_def optional_padding_def tf_default_def)
  then show ?thesis using decimal_text [of v 0] by (auto simp: out_u64_def tf_default_def)
qed

lemma u32_width_text:
  assumes "unat (v :: u32) < 10 ^ w" "w \<noteq> 0"
  shows "\<exists>ds. concat (out_u32 (tf_with_width tf_default w CHR ''0'') v) = map decimal_char ds \<and> length ds = w \<and> decimals ds \<and> horner 10 0 ds = unat v"
proof -
  have u: "unat (ucast v :: u64) = unat v" by (simp add: unsigned_ucast_eq take_bit_nat_eq_self_iff less_le_trans [OF unsigned_less])
  then show ?thesis using decimal_text [of "ucast v" w] assms
    by (auto simp: out_u32_def out_u64_def tf_with_width_def tf_default_def)
qed

lemma digit_mask_count: "fst (digit_mask base v msk n) = fst (digit_mask base v msk m)"
proof (induction base v msk n arbitrary: m rule: digit_mask.induct)
  case (1 base v msk n)
  show ?case
  proof (cases "2 \<le> base \<and> base \<le> v div msk")
    case True
    then show ?thesis using 1 [of "Suc m"] by (simp add: digit_mask.simps [of base v msk])
  next
    case False
    then show ?thesis by (subst (1 2) digit_mask.simps) (simp only: if_False fst_conv)
  qed
qed

lemma out_i64_sign:
  "concat (out_i64 tf_default v) = sign_text (sint v < 0) @ concat (out_u64 tf_default (if sint v < 0 then - v else v))"
proof (cases "sint v < 0")
  case True
  have "fst (digit_mask 10 (unat (- v)) (Suc 0) 2) = fst (digit_mask 10 (unat (- v)) (Suc 0) (Suc 0))" by (rule digit_mask_count)
  then show ?thesis using True
    by (simp add: out_i64_def out_u64_def tf_default_def output_as_decimal_def output_number_def optional_padding_def sign_text_def Let_def split_beta)
next
  case False
  then show ?thesis by (simp add: out_i64_def out_u64_def tf_default_def sign_text_def)
qed


section \<open>Trees and their texts\<close>

text \<open>The values a client can give to the formatters.\<close>

datatype jtree = Tree_bool bool | Tree_int u32 | Tree_bigger json_bigger_int | Tree_text string | Tree_float json_float
  | Tree_object "(string \<times> jtree) list" | Tree_array "jtree list"

text \<open>The calls a client makes: one \<open>Add\<close> for each member or element, with a nested formatter for a nested
  tree, destroyed when it is complete. An array formatter has no \<open>Add\<close> for a float.\<close>

fun write_member :: "bool \<Rightarrow> string \<Rightarrow> jtree \<Rightarrow> json_formatter \<Rightarrow> string list \<times> json_formatter"
  and write_members :: "bool \<Rightarrow> (string \<times> jtree) list \<Rightarrow> json_formatter \<Rightarrow> string list \<times> json_formatter"
  and write_element :: "bool \<Rightarrow> jtree \<Rightarrow> json_formatter \<Rightarrow> string list \<times> json_formatter"
  and write_elements :: "bool \<Rightarrow> jtree list \<Rightarrow> json_formatter \<Rightarrow> string list \<times> json_formatter" where
  "write_member sc k (Tree_bool b) f = jof_add_bool (Tag_raw k) b f"
| "write_member sc k (Tree_int i) f = jof_add_i32 (Tag_raw k) i f"
| "write_member sc k (Tree_bigger v) f = (case jof_add_bigger (Tag_raw k) v f of Inr r \<Rightarrow> r | Inl e \<Rightarrow> ([], f))"
| "write_member sc k (Tree_text s) f = jof_add_text sc (Tag_raw k) s f"
| "write_member sc k (Tree_float r) f = jof_add_float (Tag_raw k) r f"
| "write_member sc k (Tree_object ms) f = (case jof_sub_object (Tag_raw k) f of (ps, f', g) \<Rightarrow>
     case write_members sc ms g of (qs, g') \<Rightarrow> (ps @ qs @ jof_destroy g', f'))"
| "write_member sc k (Tree_array vs) f = (case jof_sub_array k f of (ps, f', g) \<Rightarrow>
     case write_elements sc vs g of (qs, g') \<Rightarrow> (ps @ qs @ jaf_destroy g', f'))"
| "write_members sc [] f = ([], f)"
| "write_members sc ((k, v) # ms) f = (case write_member sc k v f of (ps, f') \<Rightarrow>
     case write_members sc ms f' of (qs, f'') \<Rightarrow> (ps @ qs, f''))"
| "write_element sc (Tree_bool b) f = jaf_add_bool b f"
| "write_element sc (Tree_int i) f = jaf_add_i32 i f"
| "write_element sc (Tree_bigger v) f = jaf_add_bigger v f"
| "write_element sc (Tree_text s) f = jaf_add_text sc s f"
| "write_element sc (Tree_float r) f = ([], f)"
| "write_element sc (Tree_object ms) f = (case jaf_sub_object f of (ps, f', g) \<Rightarrow>
     case write_members sc ms g of (qs, g') \<Rightarrow> (ps @ qs @ jof_destroy g', f'))"
| "write_element sc (Tree_array vs) f = (case jaf_sub_array f of (ps, f', g) \<Rightarrow>
     case write_elements sc vs g of (qs, g') \<Rightarrow> (ps @ qs @ jaf_destroy g', f'))"
| "write_elements sc [] f = ([], f)"
| "write_elements sc (v # vs) f = (case write_element sc v f of (ps, f') \<Rightarrow>
     case write_elements sc vs f' of (qs, f'') \<Rightarrow> (ps @ qs, f''))"

definition write_object :: "bool \<Rightarrow> (string \<times> jtree) list \<Rightarrow> string list" where
  "write_object sc ms = (case jof_new of (ps, f) \<Rightarrow> case write_members sc ms f of (qs, f') \<Rightarrow> ps @ qs @ jof_destroy f')"

definition write_array :: "bool \<Rightarrow> jtree list \<Rightarrow> string list" where
  "write_array sc vs = (case jaf_new of (ps, f) \<Rightarrow> case write_elements sc vs f of (qs, f') \<Rightarrow> ps @ qs @ jaf_destroy f')"

text \<open>The texts, without the formatters.\<close>

definition float_text :: "json_float \<Rightarrow> string" where
  "float_text v = concat (if jf_nano v mod 1000000 = 0 then fractional_pieces (jf_int v) (jf_nano v div 1000000) (jf_negative v) 3
     else fractional_pieces (jf_int v) (jf_nano v) (jf_negative v) 9)"

definition separator :: "bool \<Rightarrow> string" where
  "separator first = (if first then [] else '', '')"

fun value_text :: "bool \<Rightarrow> jtree \<Rightarrow> string"
  and members_text :: "bool \<Rightarrow> bool \<Rightarrow> (string \<times> jtree) list \<Rightarrow> string"
  and elements_text :: "bool \<Rightarrow> bool \<Rightarrow> jtree list \<Rightarrow> string" where
  "value_text sc (Tree_bool b) = (if b then ''true'' else ''false'')"
| "value_text sc (Tree_int i) = concat (out_i32 tf_default i)"
| "value_text sc (Tree_bigger v) = sign_text (jb_negative v) @ concat (out_u64 tf_default (jb_value v))"
| "value_text sc (Tree_text s) = quote # json_escape sc s @ [quote]"
| "value_text sc (Tree_float r) = float_text r"
| "value_text sc (Tree_object ms) = ''{ '' @ members_text sc True ms @ '' }''"
| "value_text sc (Tree_array vs) = ''[ '' @ elements_text sc True vs @ '' ]''"
| "members_text sc first [] = []"
| "members_text sc first ((k, v) # ms) = separator first @ quote # k @ [quote, CHR '':''] @ value_text sc v @ members_text sc False ms"
| "elements_text sc first [] = []"
| "elements_text sc first (v # vs) = separator first @ value_text sc v @ elements_text sc False vs"

text \<open>Names are raw texts, texts have no backslash, fractions are below one, and no array has a float as an
  element. A name in front of a bigger integer is written decoded, so that it has no escapes.\<close>

fun tree_ok :: "jtree \<Rightarrow> bool"
  and members_ok :: "(string \<times> jtree) list \<Rightarrow> bool"
  and elements_ok :: "jtree list \<Rightarrow> bool" where
  "tree_ok (Tree_text s) = (backslash \<notin> set s)"
| "tree_ok (Tree_float r) = (jf_nano r < 1000000000)"
| "tree_ok (Tree_object ms) = members_ok ms"
| "tree_ok (Tree_array vs) = elements_ok vs"
| "tree_ok (Tree_bool b) = True"
| "tree_ok (Tree_int i) = True"
| "tree_ok (Tree_bigger v) = True"
| "members_ok [] = True"
| "members_ok ((k, v) # ms) = (json_raw False k \<and> (\<forall>b. v = Tree_bigger b \<longrightarrow> backslash \<notin> set k) \<and> tree_ok v \<and> members_ok ms)"
| "elements_ok [] = True"
| "elements_ok (v # vs) = ((\<forall>r. v \<noteq> Tree_float r) \<and> tree_ok v \<and> elements_ok vs)"


section \<open>What the formatters write\<close>

lemma concat_literal: "concat (literal s) = c_str s"
  by (simp add: literal_def out_cstr_def optional_padding_def tf_default_def)

lemma jof_member_text:
  "concat (fst (jof_member [k] content f)) = separator (jf_empty f) @ quote # k @ [quote, CHR '':''] @ concat content"
  "snd (jof_member ks content f) = f\<lparr>jf_empty := False\<rparr>"
  by (simp_all add: jof_member_def jf_insert_separation_def separator_def out_char_def concat_literal c_str_def)

lemma jaf_element_text:
  "concat (fst (jaf_element content f)) = separator (jf_empty f) @ concat content"
  "snd (jaf_element content f) = f\<lparr>jf_empty := False\<rparr>"
  by (simp_all add: jaf_element_def jf_insert_separation_def separator_def concat_literal c_str_def)

lemma json_chars_plain: "backslash \<notin> set k \<Longrightarrow> json_chars k = Inr k"
  by (induction k) (auto simp: json_chars_step)

lemma scalar_pieces:
  "concat (bool_pieces b) = (if b then ''true'' else ''false'')"
  "concat (bigger_pieces v) = sign_text (jb_negative v) @ concat (out_u64 tf_default (jb_value v))"
  "concat (quoted_pieces sc s) = json_escape sc s @ [quote]"
  by (simp_all add: bool_pieces_def bigger_pieces_def quoted_pieces_def concat_literal c_str_def sign_text_def json_insert_escaped_content_eq out_char_def)

lemma jof_add_bigger_plain:
  "backslash \<notin> set k \<Longrightarrow> jof_add_bigger (Tag_raw k) v f = Inr (jof_member (map (\<lambda>c. [c]) k) (bigger_pieces v) f)"
  by (simp add: jof_add_bigger_def out_json_string_def json_chars_plain)

lemma jof_member_chars:
  "concat (fst (jof_member (map (\<lambda>c. [c]) k) content f)) = concat (fst (jof_member [k] content f))"
  by (simp add: jof_member_def jf_insert_separation_def concat_map_singleton [of "\<lambda>c. c", simplified])

lemma float_pieces:
  "concat (fst (jof_add_float (Tag_raw k) r f)) = separator (jf_empty f) @ quote # k @ [quote, CHR '':''] @ float_text r"
  "snd (jof_add_float (Tag_raw k) r f) = f\<lparr>jf_empty := False\<rparr>"
  by (simp_all add: jof_add_float_def jof_add_fractional_def jof_member_text float_text_def milli_value_width_def nano_value_width_def)

lemma sub_formatters:
  "jof_sub_object (Tag_raw k) f = (fst (jof_member [k] [] f) @ literal ''{ '', f\<lparr>jf_empty := False\<rparr>, \<lparr>jf_stream = True, jf_empty = True\<rparr>)"
  "jof_sub_array k f = (fst (jof_member [k] [] f) @ literal ''[ '', f\<lparr>jf_empty := False\<rparr>, \<lparr>jf_stream = True, jf_empty = True\<rparr>)"
  "jaf_sub_object f = (fst (jaf_element [] f) @ literal ''{ '', f\<lparr>jf_empty := False\<rparr>, \<lparr>jf_stream = True, jf_empty = True\<rparr>)"
  "jaf_sub_array f = (fst (jaf_element [] f) @ literal ''[ '', f\<lparr>jf_empty := False\<rparr>, \<lparr>jf_stream = True, jf_empty = True\<rparr>)"
  by (simp_all add: jof_sub_object_def jof_sub_array_def jaf_sub_object_def jaf_sub_array_def jof_member_def jaf_element_def
      jf_insert_separation_def jof_new_def jaf_new_def)

lemma destroy_text:
  "jf_stream g \<Longrightarrow> concat (jof_destroy g) = '' }''" "jf_stream g \<Longrightarrow> concat (jaf_destroy g) = '' ]''"
  by (simp_all add: jof_destroy_def jaf_destroy_def concat_literal c_str_def)

lemma open_text: "concat (literal ''{ '') = ''{ ''" "concat (literal ''[ '') = ''[ ''"
  by (simp_all add: concat_literal c_str_def)

lemma write_text:
  "(\<forall>b. v = Tree_bigger b \<longrightarrow> backslash \<notin> set k) \<Longrightarrow> tree_ok v \<Longrightarrow>
     concat (fst (write_member sc k v f)) = separator (jf_empty f) @ quote # k @ [quote, CHR '':''] @ value_text sc v \<and>
     snd (write_member sc k v f) = f\<lparr>jf_empty := False\<rparr>"
  "members_ok ms \<Longrightarrow>
     concat (fst (write_members sc ms f)) = members_text sc (jf_empty f) ms \<and> jf_stream (snd (write_members sc ms f)) = jf_stream f"
  "(\<forall>r. v \<noteq> Tree_float r) \<Longrightarrow> tree_ok v \<Longrightarrow>
     concat (fst (write_element sc v f)) = separator (jf_empty f) @ value_text sc v \<and>
     snd (write_element sc v f) = f\<lparr>jf_empty := False\<rparr>"
  "elements_ok vs \<Longrightarrow>
     concat (fst (write_elements sc vs f)) = elements_text sc (jf_empty f) vs \<and> jf_stream (snd (write_elements sc vs f)) = jf_stream f"
proof (induct sc k v f and sc ms f and sc v f and sc vs f rule: write_member_write_members_write_element_write_elements.induct)
  case (9 sc k v ms f)
  obtain ps f' where e: "write_member sc k v f = (ps, f')" by (cases "write_member sc k v f")
  then show ?case using 9(1) 9(2) [OF e [symmetric]] 9(3) by (auto simp: split_beta)
next
  case (18 sc v vs f)
  obtain ps f' where e: "write_element sc v f = (ps, f')" by (cases "write_element sc v f")
  then show ?case using 18(1) 18(2) [OF e [symmetric]] 18(3) by (auto simp: split_beta)
qed (auto simp: split_beta jof_add_bool_def jof_add_i32_def jof_add_i64_def jof_add_text_def jof_member_text jaf_element_text scalar_pieces
  jaf_add_bool_def jaf_add_i32_def jaf_add_bigger_def jaf_add_text_def out_i32_def out_char_def separator_def
  jof_add_bigger_plain jof_member_chars float_pieces sub_formatters destroy_text open_text)


lemma write_object_text: "members_ok ms \<Longrightarrow> concat (write_object sc ms) = value_text sc (Tree_object ms)"
  using write_text(2) [of ms sc "snd jof_new"]
  by (simp add: write_object_def split_beta destroy_text) (simp add: jof_new_def open_text destroy_text)

lemma write_array_text: "elements_ok vs \<Longrightarrow> concat (write_array sc vs) = value_text sc (Tree_array vs)"
  using write_text(4) [of vs sc "snd jaf_new"]
  by (simp add: write_array_def split_beta destroy_text) (simp add: jaf_new_def open_text destroy_text)

section \<open>Reading a run of tokens\<close>

inductive jt_reads :: "json_tokenizer \<Rightarrow> json_token list \<Rightarrow> json_tokenizer \<Rightarrow> bool" where
  jt_reads_Nil: "jt_reads t [] t"
| jt_reads_Cons: "jt_token t = (k, u) \<Longrightarrow> k \<noteq> Token_end \<Longrightarrow> k \<noteq> Token_error \<Longrightarrow> jt_reads u ks v \<Longrightarrow> jt_reads t (k # ks) v"

lemma jt_reads_one: "jt_token t = (k, u) \<Longrightarrow> k \<noteq> Token_end \<Longrightarrow> k \<noteq> Token_error \<Longrightarrow> jt_reads t [k] u"
  by (auto intro: jt_reads.intros)

lemma jt_reads_append: "jt_reads t ks u \<Longrightarrow> jt_reads u js v \<Longrightarrow> jt_reads t (ks @ js) v"
  by (induction rule: jt_reads.induct) (auto intro: jt_reads.intros)

text \<open>How a run of tokens changes the nesting, when it does not end the search.\<close>

fun passes :: "(json_token \<Rightarrow> bool) \<Rightarrow> (json_token \<Rightarrow> nat option) \<Rightarrow> int \<Rightarrow> json_token list \<Rightarrow> int option" where
  "passes opens closes n [] = Some n"
| "passes opens closes n (k # ks) = (if n = 0 \<and> closes k \<noteq> None then None
     else passes opens closes (if opens k then n - 1 else if closes k \<noteq> None then n + 1 else n) ks)"

lemma search_step:
  assumes "jt_token t = (k, u)" "k \<noteq> Token_end" "k \<noteq> Token_error" "\<not> (n = 0 \<and> closes k \<noteq> None)"
  shows "json_search_end opens closes n t = json_search_end opens closes (if opens k then n - 1 else if closes k \<noteq> None then n + 1 else n) u"
proof -
  have "\<not> (k = Token_end \<or> k = Token_error \<or> n = 0 \<and> closes k \<noteq> None)" using assms by blast
  then show ?thesis unfolding json_search_end.simps [of opens closes n t] assms(1) prod.case by (rule if_not_P)
qed

lemma search_passes:
  "jt_reads t ks u \<Longrightarrow> passes opens closes n ks = Some m \<Longrightarrow> json_search_end opens closes n t = json_search_end opens closes m u"
proof (induction arbitrary: n rule: jt_reads.induct)
  case (jt_reads_Cons t k u ks v)
  then have nz: "\<not> (n = 0 \<and> closes k \<noteq> None)" by (auto split: if_splits)
  have "passes opens closes (if opens k then n - 1 else if closes k \<noteq> None then n + 1 else n) ks = Some m"
    using jt_reads_Cons.prems unfolding passes.simps if_not_P [OF nz] .
  then show ?case unfolding search_step [where opens = opens and closes = closes and n = n, OF jt_reads_Cons.hyps(1-3) nz] by (rule jt_reads_Cons.IH)
qed simp

lemma search_closes:
  "jt_token t = (k, u) \<Longrightarrow> closes k = Some i \<Longrightarrow> json_search_end opens closes 0 t = (Some i, u)"
  by (simp add: json_search_end.simps [of opens closes 0 t])

lemma passes_append:
  "passes opens closes n ks = Some m \<Longrightarrow> passes opens closes n (ks @ js) = passes opens closes m js"
  by (induction ks arbitrary: n) (auto split: if_splits)

text \<open>A run that leaves the nesting as it is, for objects and for arrays.\<close>

definition balanced :: "json_token list \<Rightarrow> bool" where
  "balanced ks \<longleftrightarrow> (\<forall>n \<le> 0. passes opens_object closes_object n ks = Some n \<and> passes opens_array closes_array n ks = Some n)"

lemma balanced_Nil [simp]: "balanced []"
  by (simp add: balanced_def)

lemma balanced_append: "balanced ks \<Longrightarrow> balanced js \<Longrightarrow> balanced (ks @ js)"
  by (simp add: balanced_def passes_append)

lemma balanced_braces: "balanced ks \<Longrightarrow> balanced (Left_brace i # ks @ [Right_brace j])"
  by (simp add: balanced_def passes_append)

lemma balanced_brackets: "balanced ks \<Longrightarrow> balanced (Left_bracket i # ks @ [Right_bracket j])"
  by (simp add: balanced_def passes_append)

fun flat :: "json_token \<Rightarrow> bool" where
  "flat (Left_brace i) = False" | "flat (Right_brace i) = False" | "flat (Left_bracket i) = False" | "flat (Right_bracket i) = False"
| "flat k = True"

lemma flat_closes: "flat k \<Longrightarrow> closes_object k = None \<and> closes_array k = None \<and> \<not> opens_object k \<and> \<not> opens_array k"
  by (cases k) auto

lemma balanced_flat: "flat k \<Longrightarrow> balanced [k]"
  using flat_closes [of k] by (auto simp: balanced_def)


section \<open>Reading the text of a value\<close>

fun tree_value :: "bool \<Rightarrow> jtree \<Rightarrow> json_value" where
  "tree_value sc (Tree_bool b) = Json_bool b"
| "tree_value sc (Tree_int i) = Json_int i"
| "tree_value sc (Tree_bigger v) = json_read_integer v"
| "tree_value sc (Tree_text s) = Json_string (json_escape sc s)"
| "tree_value sc (Tree_float r) = Json_real r"
| "tree_value sc (Tree_object ms) = Json_object (json_object_new (value_text sc (Tree_object ms)))"
| "tree_value sc (Tree_array vs) = Json_array (json_array_new (value_text sc (Tree_array vs)))"

text \<open>What follows a value in the text of a formatter.\<close>

definition delimited :: "string \<Rightarrow> bool" where
  "delimited cs \<longleftrightarrow> cs \<noteq> [] \<and> (hd cs = CHR '','' \<or> hd cs = CHR '' '')"

lemma delimited_ends:
  assumes "delimited cs"
  shows "ends_number cs" "cs = [] \<or> hd cs \<noteq> CHR ''.''" "cs = [] \<or> \<not> is_alpha (hd cs)"
  using assms by (auto simp: delimited_def ends_number_def is_digit_def is_alpha_def)

text \<open>A value is read at \<open>t\<close> when its tokens are balanced, end behind its text, and convert to it.\<close>

definition reads_value :: "json_tokenizer \<Rightarrow> string \<Rightarrow> json_value \<Rightarrow> bool" where
  "reads_value t w v \<longleftrightarrow> (\<exists>k u ks. jt_token t = (k, u) \<and> jt_reads t (k # ks) (jt_move (length w) t) \<and> balanced (k # ks) \<and>
     json_convert_value k u = (Some v, jt_move (length w) t))"

lemma reads_value_flat:
  "jt_token t = (k, jt_move (length w) t) \<Longrightarrow> flat k \<Longrightarrow> json_convert_value k (jt_move (length w) t) = (Some v, jt_move (length w) t) \<Longrightarrow>
   reads_value t w v"
  using json_convert_value_proper [of k "jt_move (length w) t" v "jt_move (length w) t"] unfolding reads_value_def
  by (intro exI [of _ k] exI [of _ "jt_move (length w) t"] exI [of _ "[]"]) (auto intro: jt_reads_one balanced_flat)

lemma reads_bool:
  assumes "jt_rest t = (if b then ''true'' else ''false'') @ rest" "delimited rest"
  shows "reads_value t (if b then ''true'' else ''false'') (Json_bool b)"
  using jt_token_identifier [of t "if b then ''true'' else ''false''" rest] assms(1) delimited_ends(3) [OF assms(2)]
  by (intro reads_value_flat [where k = "Boolean_token b"]) (auto simp: is_alpha_def)

lemma reads_integer:
  assumes "jt_rest t = sign_text n @ concat (out_u64 tf_default x) @ rest" "delimited rest"
  shows "reads_value t (sign_text n @ concat (out_u64 tf_default x)) (json_read_integer (Json_bigger_int x n))"
proof -
  obtain ds where ds: "concat (out_u64 tf_default x) = map decimal_char ds" "ds \<noteq> []" "decimals ds" "horner 10 0 ds = unat x"
    using u64_decimal_text by blast
  have "jt_token t = (Integer_token (Json_bigger_int x n), jt_move (length (sign_text n) + length ds) t)"
    using jt_token_integer [of t n ds rest] assms(1) ds delimited_ends(1,2) [OF assms(2)] by simp
  then show ?thesis
    using ds by (intro reads_value_flat [where k = "Integer_token (Json_bigger_int x n)"]) simp_all
qed

lemma int_value:
  fixes i :: u32
  defines "v \<equiv> scast i :: u64"
  shows "json_read_integer (Json_bigger_int (if sint v < 0 then - v else v) (sint v < 0)) = Json_int i"
proof -
  have range: "- 2147483648 \<le> sint i" "sint i \<le> 2147483647"
    using sint_greater_eq [of i] sint_less [of i] by simp_all
  have v: "v = of_int (sint i)" unfolding v_def by simp
  have sv: "sint v = sint i"
    unfolding v_def by (rule sint_up_scast) (simp add: is_up)
  have small: "uint (of_int k :: u64) = k" if "0 \<le> k" "k < 18446744073709551616" for k
    using that by (simp add: unsigned_of_int take_bit_eq_mod)
  have cast: "ucast v = i" unfolding v_def by (rule bit_word_eqI) (auto simp: bit_simps)
  show ?thesis
  proof (cases "sint v < 0")
    case True
    have neg: "- v = of_int (- sint i)" by (simp add: v)
    have "uint (- v) = - sint i" unfolding neg by (rule small) (use range sv True in simp_all)
    then have "- v \<le> 2147483648" using range by (simp add: word_le_def)
    then show ?thesis using True cast by (simp add: json_read_integer_def)
  next
    case False
    have "uint v = sint i" unfolding v by (rule small) (use range sv False in simp_all)
    then have "v \<le> 2147483647" using range by (simp add: word_le_def)
    then show ?thesis using False cast by (simp add: json_read_integer_def)
  qed
qed


lemma reads_fractional:
  assumes "jt_rest t = concat (fractional_pieces i fr n w) @ rest" "delimited rest" "unat fr < 10 ^ w" "w \<noteq> 0" "w \<le> 9"
  shows "reads_value t (concat (fractional_pieces i fr n w)) (Json_real (Json_float i (fr * 10 ^ (9 - w)) n))"
proof -
  obtain ds where ds: "concat (out_u64 tf_default i) = map decimal_char ds" "ds \<noteq> []" "decimals ds" "horner 10 0 ds = unat i"
    using u64_decimal_text by blast
  obtain fs where fs: "concat (out_u32 (tf_with_width tf_default w CHR ''0'') fr) = map decimal_char fs" "length fs = w" "decimals fs" "horner 10 0 fs = unat fr"
    using u32_width_text [OF assms(3,4)] by blast
  have content: "concat (fractional_pieces i fr n w) = sign_text n @ map decimal_char ds @ CHR ''.'' # map decimal_char fs"
    by (simp add: fractional_pieces_def ds(1) fs(1) out_char_def sign_text_def)
  have "fs \<noteq> []" using fs(2) assms(4) by auto
  then have "jt_token t = (Float_token (Json_float i (fr * 10 ^ (9 - w)) n), jt_move (length (sign_text n) + length ds + 1 + length fs) t)"
    using jt_token_float [of t n ds fs rest] assms(1,5) content ds fs delimited_ends(1) [OF assms(2)] by simp
  then show ?thesis
    using content by (intro reads_value_flat [where k = "Float_token (Json_float i (fr * 10 ^ (9 - w)) n)"]) simp_all
qed

lemma reads_float:
  assumes "jt_rest t = float_text r @ rest" "delimited rest" "jf_nano r < 1000000000"
  shows "reads_value t (float_text r) (Json_real r)"
proof (cases "jf_nano r mod 1000000 = 0")
  case True
  have small: "unat (jf_nano r div 1000000) < 10 ^ 3"
    using assms(3) by (simp add: unat_div word_less_nat_alt less_mult_imp_div_less)
  have whole: "jf_nano r div 1000000 * 1000000 = jf_nano r" using div_mult_mod_eq [of "jf_nano r" 1000000] True by simp
  have content: "float_text r = concat (fractional_pieces (jf_int r) (jf_nano r div 1000000) (jf_negative r) 3)"
    using True by (simp add: float_text_def)
  have "reads_value t (float_text r) (Json_real (Json_float (jf_int r) (jf_nano r div 1000000 * 10 ^ (9 - 3)) (jf_negative r)))"
    unfolding content by (rule reads_fractional [OF assms(1) [unfolded content] assms(2) small]) simp_all
  then show ?thesis using whole by simp
next
  case False
  have small: "unat (jf_nano r) < 10 ^ 9" using assms(3) by (simp add: word_less_nat_alt)
  have content: "float_text r = concat (fractional_pieces (jf_int r) (jf_nano r) (jf_negative r) 9)"
    using False by (simp add: float_text_def)
  have "reads_value t (float_text r) (Json_real (Json_float (jf_int r) (jf_nano r * 10 ^ (9 - 9)) (jf_negative r)))"
    unfolding content by (rule reads_fractional [OF assms(1) [unfolded content] assms(2) small]) simp_all
  then show ?thesis by simp
qed

lemma reads_string:
  assumes "jt_rest t = quote # s @ quote # rest" "json_raw False s"
  shows "reads_value t (quote # s @ [quote]) (Json_string s)"
  using jt_token_string [OF assms] by (intro reads_value_flat [where k = "String_token s"]) simp_all

lemma reads_space: "jt_rest t = CHR '' '' # cs \<Longrightarrow> jt_token t = jt_token (jt_move 1 t)"
  using jt_token_space [of t "CHR '' ''" cs] by simp


section \<open>Reading the text of a tree\<close>

lemma jt_reads_space: "jt_rest t = CHR '' '' # cs \<Longrightarrow> jt_reads (jt_move 1 t) ks u \<Longrightarrow> ks \<noteq> [] \<Longrightarrow> jt_reads t ks u"
  by (erule jt_reads.cases) (auto simp: reads_space intro: jt_reads_Cons)

lemma delimited_members: "delimited rest \<Longrightarrow> delimited (members_text sc False ms @ rest)"
  by (cases ms) (auto simp: delimited_def separator_def)

lemma delimited_elements: "delimited rest \<Longrightarrow> delimited (elements_text sc False vs @ rest)"
  by (cases vs) (auto simp: delimited_def separator_def)

text \<open>A separator is a comma, with a space in front of what follows.\<close>

definition separator_tokens :: "bool \<Rightarrow> json_token list" where
  "separator_tokens first = (if first then [] else [Comma])"

lemma reads_separator:
  assumes "jt_rest t = separator first @ cs" "jt_reads (jt_move (length (separator first)) t) ks u" "ks \<noteq> []"
  shows "jt_reads t (separator_tokens first @ ks) u"
proof (cases first)
  case True
  then show ?thesis using assms by (simp add: separator_def separator_tokens_def)
next
  case False
  have comma: "jt_token t = (Comma, jt_move 1 t)" using jt_token_punctuation(2) assms(1) False by (simp add: separator_def)
  have "jt_reads (jt_move 1 t) ks u"
    by (rule jt_reads_space [of _ cs]) (use assms False in \<open>simp_all add: separator_def\<close>)
  then show ?thesis using False jt_reads_Cons [OF comma] by (simp add: separator_tokens_def)
qed

lemma balanced_Cons: "flat k \<Longrightarrow> balanced ks \<Longrightarrow> balanced (k # ks)"
  using balanced_append [OF balanced_flat] by fastforce

lemma balanced_separator: "balanced (separator_tokens first)"
  by (simp add: separator_tokens_def balanced_flat)

text \<open>The name of a member and its colon.\<close>

lemma reads_name:
  assumes "jt_rest t = quote # k @ quote # CHR '':'' # cs" "json_raw False k"
  shows "jt_token t = (String_token k, jt_move (length k + 2) t)"
    and "jt_token (jt_move (length k + 2) t) = (Colon, jt_move (length k + 3) t)"
    and "jt_reads (jt_move (length k + 3) t) ks u \<Longrightarrow> jt_reads t (String_token k # Colon # ks) u"
proof -
  show s: "jt_token t = (String_token k, jt_move (length k + 2) t)"
    by (rule jt_token_string [OF assms])
  have "jt_rest (jt_move (length k + 2) t) = CHR '':'' # cs" using assms(1) by simp
  from jt_token_punctuation(1) [OF this]
  show c: "jt_token (jt_move (length k + 2) t) = (Colon, jt_move (length k + 3) t)" by (simp add: eval_nat_numeral)
  show "jt_reads t (String_token k # Colon # ks) u" if "jt_reads (jt_move (length k + 3) t) ks u"
    using that jt_reads_Cons [OF s] jt_reads_Cons [OF c] by simp
qed

definition reads_run :: "json_tokenizer \<Rightarrow> string \<Rightarrow> bool" where
  "reads_run t w \<longleftrightarrow> (\<exists>ks. jt_reads t ks (jt_move (length w) t) \<and> balanced ks)"

text \<open>An object between its braces and an array between its brackets.\<close>

lemma json_slice_text: "jt_rest t = w @ cs \<Longrightarrow> w \<noteq> [] \<Longrightarrow> json_slice (jt_move k t) (jt_index t) (jt_index t + length w - 1) = w"
  by (cases "length w") (auto simp: json_slice_def jt_rest_def)


lemma search_space:
  "jt_rest t = CHR '' '' # cs \<Longrightarrow> json_search_end opens closes n t = json_search_end opens closes n (jt_move 1 t)"
  by (simp only: reads_space json_search_end.simps [of opens closes n t] json_search_end.simps [of opens closes n "jt_move 1 t"])

lemma reads_nested:
  assumes rest: "jt_rest t = a # CHR '' '' # w @ CHR '' '' # cs"
    and entry: "jt_token t = (i, jt_move 1 t)" "i \<noteq> Token_end" "i \<noteq> Token_error"
    and closing: "jt_token (jt_move (length w + 3) t) = (j, jt_move (length w + 4) t)" "j \<noteq> Token_end" "j \<noteq> Token_error"
    and run: "jt_reads (jt_move 2 t) ks (jt_move (2 + length w) t)" "passes opens closes 0 ks = Some 0" "closes j = Some n"
  shows "jt_reads t (i # ks @ [j]) (jt_move (length w + 4) t)"
    and "json_search_end opens closes 0 (jt_move 1 t) = (Some n, jt_move (length w + 4) t)"
proof -
  let ?e = "jt_move (2 + length w) t"
  have r1: "jt_rest (jt_move 1 t) = CHR '' '' # w @ CHR '' '' # cs" using rest by simp
  have re: "jt_rest ?e = CHR '' '' # cs" using rest by simp
  have mv: "jt_move 1 ?e = jt_move (length w + 3) t" by (simp add: eval_nat_numeral add.commute)
  have e: "jt_token ?e = (j, jt_move (length w + 4) t)" unfolding reads_space [OF re] mv by (rule closing)
  have two: "jt_move 1 (jt_move 1 t) = jt_move 2 t" by (simp add: eval_nat_numeral)
  have "jt_reads (jt_move 1 (jt_move 1 t)) (ks @ [j]) (jt_move (length w + 4) t)"
    unfolding two by (rule jt_reads_append [OF run(1) jt_reads_one [OF e closing(2,3)]])
  then have "jt_reads (jt_move 1 t) (ks @ [j]) (jt_move (length w + 4) t)"
    by (rule jt_reads_space [OF r1]) simp
  then show "jt_reads t (i # ks @ [j]) (jt_move (length w + 4) t)"
    by (rule jt_reads_Cons [OF entry])
  have "json_search_end opens closes 0 (jt_move 1 t) = json_search_end opens closes 0 (jt_move 2 t)"
    unfolding search_space [OF r1] two ..
  also have "\<dots> = json_search_end opens closes 0 ?e" by (rule search_passes [OF run(1,2)])
  also have "\<dots> = (Some n, jt_move (length w + 4) t)"
    by (rule search_closes [where opens = opens and closes = closes, OF e run(3)])
  finally show "json_search_end opens closes 0 (jt_move 1 t) = (Some n, jt_move (length w + 4) t)" .
qed

lemma reads_object:
  assumes "jt_rest t = (''{ '' @ w @ '' }'') @ cs" "reads_run (jt_move 2 t) w"
  shows "reads_value t (''{ '' @ w @ '' }'') (Json_object (json_object_new (''{ '' @ w @ '' }'')))"
proof -
  have rest: "jt_rest t = CHR ''{'' # CHR '' '' # w @ CHR '' '' # CHR ''}'' # cs" using assms(1) by simp
  obtain ks where ks: "jt_reads (jt_move 2 t) ks (jt_move (2 + length w) t)" "balanced ks"
    using assms(2) by (auto simp: reads_run_def)
  then have p: "passes opens_object closes_object 0 ks = Some 0" by (simp add: balanced_def)
  have inner: "jt_rest (jt_move (length w + 3) t) = CHR ''}'' # cs" using rest by (simp add: eval_nat_numeral)
  have closing: "jt_token (jt_move (length w + 3) t) = (Right_brace (jt_index t + (length w + 3)), jt_move (length w + 4) t)"
    using jt_token_punctuation(4) [OF inner] by (simp add: eval_nat_numeral)
  note entry = jt_token_punctuation(3) [OF rest]
  have n: "jt_reads t (Left_brace (jt_index t) # ks @ [Right_brace (jt_index t + (length w + 3))]) (jt_move (length w + 4) t)"
    "json_search_end opens_object closes_object 0 (jt_move 1 t) = (Some (jt_index t + (length w + 3)), jt_move (length w + 4) t)"
    by (rule reads_nested [OF rest entry _ _ closing _ _ ks(1) p]; simp)+
  have "json_slice (jt_move 1 t) (jt_index t) (jt_index t + length (''{ '' @ w @ '' }'') - 1) = ''{ '' @ w @ '' }''"
    by (rule json_slice_text [OF assms(1)]) simp
  then have "json_convert_value (Left_brace (jt_index t)) (jt_move 1 t) =
      (Some (Json_object (json_object_new (''{ '' @ w @ '' }''))), jt_move (length w + 4) t)"
    using n(2) by (simp add: json_read_object_value_def json_search_object_end_def json_slice_def)
  then show ?thesis
    using entry n(1) balanced_braces [OF ks(2)] unfolding reads_value_def by (auto simp: eval_nat_numeral)
qed

lemma reads_array:
  assumes "jt_rest t = (''[ '' @ w @ '' ]'') @ cs" "reads_run (jt_move 2 t) w"
  shows "reads_value t (''[ '' @ w @ '' ]'') (Json_array (json_array_new (''[ '' @ w @ '' ]'')))"
proof -
  have rest: "jt_rest t = CHR ''['' # CHR '' '' # w @ CHR '' '' # CHR '']'' # cs" using assms(1) by simp
  obtain ks where ks: "jt_reads (jt_move 2 t) ks (jt_move (2 + length w) t)" "balanced ks"
    using assms(2) by (auto simp: reads_run_def)
  then have p: "passes opens_array closes_array 0 ks = Some 0" by (simp add: balanced_def)
  have inner: "jt_rest (jt_move (length w + 3) t) = CHR '']'' # cs" using rest by (simp add: eval_nat_numeral)
  have closing: "jt_token (jt_move (length w + 3) t) = (Right_bracket (jt_index t + (length w + 3)), jt_move (length w + 4) t)"
    using jt_token_punctuation(6) [OF inner] by (simp add: eval_nat_numeral)
  note entry = jt_token_punctuation(5) [OF rest]
  have n: "jt_reads t (Left_bracket (jt_index t) # ks @ [Right_bracket (jt_index t + (length w + 3))]) (jt_move (length w + 4) t)"
    "json_search_end opens_array closes_array 0 (jt_move 1 t) = (Some (jt_index t + (length w + 3)), jt_move (length w + 4) t)"
    by (rule reads_nested [OF rest entry _ _ closing _ _ ks(1) p]; simp)+
  have "json_slice (jt_move 1 t) (jt_index t) (jt_index t + length (''[ '' @ w @ '' ]'') - 1) = ''[ '' @ w @ '' ]''"
    by (rule json_slice_text [OF assms(1)]) simp
  then have "json_convert_value (Left_bracket (jt_index t)) (jt_move 1 t) =
      (Some (Json_array (json_array_new (''[ '' @ w @ '' ]''))), jt_move (length w + 4) t)"
    using n(2) by (simp add: json_read_array_value_def json_search_array_end_def json_slice_def)
  then show ?thesis
    using entry n(1) balanced_brackets [OF ks(2)] unfolding reads_value_def by (auto simp: eval_nat_numeral)
qed


lemma reads_tree:
  "tree_ok v \<Longrightarrow> jt_rest t = value_text sc v @ cs \<Longrightarrow> delimited cs \<Longrightarrow> reads_value t (value_text sc v) (tree_value sc v)"
  "members_ok ms \<Longrightarrow> jt_rest t = members_text sc first ms @ cs \<Longrightarrow> delimited cs \<Longrightarrow> reads_run t (members_text sc first ms)"
  "elements_ok vs \<Longrightarrow> jt_rest t = elements_text sc first vs @ cs \<Longrightarrow> delimited cs \<Longrightarrow> reads_run t (elements_text sc first vs)"
proof (induction v and ms and vs arbitrary: t cs and first t cs and first t cs rule: tree_ok_members_ok_elements_ok.induct)
  case (1 s)
  have "json_raw False (json_escape sc s)" using 1(1) by (intro json_raw_escape) simp
  then show ?case using reads_string [of t "json_escape sc s" cs] 1(2) by simp
next
  case (2 r)
  then show ?case using reads_float [of t r cs] by simp
next
  case (3 ms)
  have "reads_run (jt_move 2 t) (members_text sc True ms)"
    by (rule 3(1) [where cs = "'' }'' @ cs"]) (use 3 in \<open>simp_all add: eval_nat_numeral delimited_def\<close>)
  then show ?case using reads_object [of t "members_text sc True ms" cs] 3(3) by simp
next
  case (4 vs)
  have "reads_run (jt_move 2 t) (elements_text sc True vs)"
    by (rule 4(1) [where cs = "'' ]'' @ cs"]) (use 4 in \<open>simp_all add: eval_nat_numeral delimited_def\<close>)
  then show ?case using reads_array [of t "elements_text sc True vs" cs] 4(3) by simp
next
  case (5 b)
  then show ?case using reads_bool [of t b cs] by simp
next
  case (6 i)
  let ?v = "scast i :: u64"
  have "concat (out_i32 tf_default i) = sign_text (sint ?v < 0) @ concat (out_u64 tf_default (if sint ?v < 0 then - ?v else ?v))"
    unfolding out_i32_def by (rule out_i64_sign)
  then show ?case
    using reads_integer [of t "sint ?v < 0" "if sint ?v < 0 then - ?v else ?v" cs] int_value [of i] 6 by simp
next
  case (7 v)
  then show ?case using reads_integer [of t "jb_negative v" "jb_value v" cs] by simp
next
  case 8
  show ?case using jt_reads_Nil [of t] unfolding reads_run_def by (intro exI [of _ "[]"]) simp
next
  case (9 k v ms)
  let ?s = "separator first" and ?w = "value_text sc v" and ?r = "members_text sc False ms"
  let ?t = "jt_move (length ?s) t"
  have rest: "jt_rest ?t = quote # k @ quote # CHR '':'' # ?w @ ?r @ cs" using 9(4) by simp
  have raw: "json_raw False k" using 9(3) by simp
  let ?u = "jt_move (length k + 3) ?t"
  have ru: "jt_rest ?u = ?w @ ?r @ cs" unfolding jt_move_simps(3) [of _ ?t] rest by (simp add: eval_nat_numeral)
  have "reads_value ?u ?w (tree_value sc v)"
    by (rule 9(1) [OF _ ru delimited_members [OF 9(5)]]) (use 9(3) in simp)
  then obtain ks where ks: "jt_reads ?u ks (jt_move (length ?w) ?u)" "balanced ks" by (auto simp: reads_value_def)
  have rr: "jt_rest (jt_move (length ?w) ?u) = ?r @ cs" unfolding jt_move_simps(3) [of _ ?u] ru by simp
  have "reads_run (jt_move (length ?w) ?u) ?r"
    by (rule 9(2) [OF _ rr 9(5)]) (use 9(3) in simp)
  then obtain js where js: "jt_reads (jt_move (length ?w) ?u) js (jt_move (length ?r) (jt_move (length ?w) ?u))" "balanced js"
    by (auto simp: reads_run_def)
  have run: "jt_reads ?t (String_token k # Colon # ks @ js) (jt_move (length ?r) (jt_move (length ?w) ?u))"
    by (rule reads_name(3) [OF rest raw jt_reads_append [OF ks(1) js(1)]])
  have "jt_reads t (separator_tokens first @ String_token k # Colon # ks @ js) (jt_move (length ?r) (jt_move (length ?w) ?u))"
    by (rule reads_separator [of t first "quote # k @ quote # CHR '':'' # ?w @ ?r @ cs", OF _ run]) (use 9(4) in simp_all)
  moreover have "balanced (separator_tokens first @ String_token k # Colon # ks @ js)"
    by (intro balanced_append balanced_separator balanced_Cons ks js) simp_all
  moreover have mv: "jt_move (length ?r) (jt_move (length ?w) ?u) = jt_move (length (members_text sc first ((k, v) # ms))) t"
    by (simp add: eval_nat_numeral algebra_simps)
  ultimately show ?case unfolding reads_run_def mv by blast
next
  case 10
  show ?case using jt_reads_Nil [of t] unfolding reads_run_def by (intro exI [of _ "[]"]) simp
next
  case (11 v vs)
  let ?s = "separator first" and ?w = "value_text sc v" and ?r = "elements_text sc False vs"
  let ?u = "jt_move (length ?s) t"
  have ru: "jt_rest ?u = ?w @ ?r @ cs" using 11(4) by simp
  have "reads_value ?u ?w (tree_value sc v)"
    by (rule 11(1) [OF _ ru delimited_elements [OF 11(5)]]) (use 11(3) in simp)
  then obtain k ks where ks: "jt_reads ?u (k # ks) (jt_move (length ?w) ?u)" "balanced (k # ks)" by (auto simp: reads_value_def)
  have rr: "jt_rest (jt_move (length ?w) ?u) = ?r @ cs" unfolding jt_move_simps(3) [of _ ?u] ru by simp
  have "reads_run (jt_move (length ?w) ?u) ?r"
    by (rule 11(2) [OF _ rr 11(5)]) (use 11(3) in simp)
  then obtain js where js: "jt_reads (jt_move (length ?w) ?u) js (jt_move (length ?r) (jt_move (length ?w) ?u))" "balanced js"
    by (auto simp: reads_run_def)
  have "jt_reads t (separator_tokens first @ (k # ks) @ js) (jt_move (length ?r) (jt_move (length ?w) ?u))"
    by (rule reads_separator [of t first "?w @ ?r @ cs", OF _ jt_reads_append [OF ks(1) js(1)]]) (use 11(4) in simp_all)
  moreover have "balanced (separator_tokens first @ (k # ks) @ js)"
    by (intro balanced_append balanced_separator ks js)
  moreover have mv: "jt_move (length ?r) (jt_move (length ?w) ?u) = jt_move (length (elements_text sc first (v # vs))) t"
    by (simp add: algebra_simps)
  ultimately show ?case unfolding reads_run_def mv by blast
qed


section \<open>Iterating over the text of a tree\<close>

lemma joi_next_step:
  "joi_parse_next_token it = Inr u \<Longrightarrow> joi_pauses u \<Longrightarrow> joi_next it = Inr u"
  "joi_parse_next_token it = Inr u \<Longrightarrow> \<not> joi_pauses u \<Longrightarrow> joi_next it = joi_next u"
  by (simp_all add: joi_next.simps [of it])

abbreviation joi :: "json_tokenizer \<Rightarrow> string \<Rightarrow> json_value \<Rightarrow> joi_state \<Rightarrow> bool \<Rightarrow> json_object_iterator" where
  "joi t k v st e \<equiv> \<lparr>joi_tokenizer = t, joi_key = k, joi_value = v, joi_state = st, joi_error = e\<rparr>"

lemma joi_next_name:
  assumes "st = Read_key \<or> st = Read_key_or_end" "jt_token t = (String_token k, t1)" "jt_token t1 = (Colon, t2)" "reads_value t2 w v"
  shows "joi_next (joi t k0 v0 st e) = Inr (joi (jt_move (length w) t2) k v Read_comma_or_object_end e)"
proof -
  have "joi_parse_next_token (joi t k0 v0 st e) = Inr (joi t1 k v0 Read_colon e)"
    using assms(1,2) by (auto simp: joi_parse_next_token_def joi_read_key_def joi_read_key_or_end_def)
  from joi_next_step(2) [OF this]
  have 1: "joi_next (joi t k0 v0 st e) = joi_next (joi t1 k v0 Read_colon e)" by (simp add: joi_pauses_def)
  have "joi_parse_next_token (joi t1 k v0 Read_colon e) = Inr (joi t2 k v0 Read_value e)"
    using assms(3) by (simp add: joi_parse_next_token_def joi_read_colon_def)
  from joi_next_step(2) [OF this]
  have 2: "joi_next (joi t1 k v0 Read_colon e) = joi_next (joi t2 k v0 Read_value e)" by (simp add: joi_pauses_def)
  have "joi_parse_next_token (joi t2 k v0 Read_value e) = Inr (joi (jt_move (length w) t2) k v Read_comma_or_object_end e)"
    using assms(4) by (auto simp: reads_value_def joi_parse_next_token_def joi_read_value_def)
  from joi_next_step(1) [OF this]
  show ?thesis unfolding 1 2 by (simp add: joi_pauses_def)
qed

lemma joi_next_comma:
  assumes "jt_token t = (Comma, t1)"
  shows "joi_next (joi t k v Read_comma_or_object_end e) = joi_next (joi t1 k v Read_key e)"
  by (rule joi_next_step(2)) (use assms in \<open>simp_all add: joi_parse_next_token_def joi_read_comma_or_object_end_def joi_pauses_def\<close>)

lemma joi_next_close:
  assumes "jt_token t = (Right_brace j, t1)" "st = Read_comma_or_object_end \<or> st = Read_key_or_end"
  shows "joi_next (joi t k v st e) = Inr (joi t1 k v Object_end e)"
  by (rule joi_next_step(1)) (use assms in \<open>auto simp: joi_parse_next_token_def joi_read_comma_or_object_end_def joi_read_key_or_end_def joi_pauses_def\<close>)

lemma joi_next_open:
  assumes "jt_token t = (Left_brace j, t1)"
  shows "joi_next (joi t k v Read_object_start e) = joi_next (joi t1 k v Read_key_or_end e)"
  by (rule joi_next_step(2)) (use assms in \<open>simp_all add: joi_parse_next_token_def joi_read_object_start_def joi_pauses_def\<close>)

text \<open>The name, colon and value of a member, behind a space.\<close>

lemma joi_next_member:
  assumes "jt_rest t = CHR '' '' # quote # k @ quote # CHR '':'' # value_text sc v @ cs" "json_raw False k" "tree_ok v" "delimited cs"
    and "st = Read_key \<or> st = Read_key_or_end"
  shows "\<exists>t'. joi_next (joi t k0 v0 st e) = Inr (joi t' k (tree_value sc v) Read_comma_or_object_end e) \<and> jt_rest t' = cs"
proof -
  let ?t = "jt_move 1 t"
  have rest: "jt_rest ?t = quote # k @ quote # CHR '':'' # value_text sc v @ cs" using assms(1) by simp
  note name = reads_name(1,2) [OF rest assms(2)]
  let ?u = "jt_move (length k + 3) ?t"
  have ru: "jt_rest ?u = value_text sc v @ cs" unfolding jt_move_simps(3) [of _ ?t] rest by (simp add: eval_nat_numeral)
  have "reads_value ?u (value_text sc v) (tree_value sc v)" by (rule reads_tree(1) [OF assms(3) ru assms(4)])
  moreover have "jt_token t = (String_token k, jt_move (length k + 2) ?t)" using reads_space [OF assms(1)] name(1) by simp
  ultimately have "joi_next (joi t k0 v0 st e) = Inr (joi (jt_move (length (value_text sc v)) ?u) k (tree_value sc v) Read_comma_or_object_end e)"
    using joi_next_name [OF assms(5) _ name(2)] by blast
  moreover have "jt_rest (jt_move (length (value_text sc v)) ?u) = cs" unfolding jt_move_simps(3) [of _ ?u] ru by simp
  ultimately show ?thesis by blast
qed

lemma joi_pairs_at_end [simp]: "joi_state it = Object_end \<Longrightarrow> joi_pairs it = Inr ([], joi_error it)"
  by (simp add: joi_pairs.simps)

lemma joi_pairs_next:
  "joi_state it \<noteq> Object_end \<Longrightarrow> joi_next it = Inr it' \<Longrightarrow> joi_pairs it = rbind (joi_pairs it') (\<lambda>(kvs, e). Inr ((joi_key it, joi_value it) # kvs, e))"
  by (simp add: joi_pairs.simps [of it])

abbreviation member_values :: "bool \<Rightarrow> (string \<times> jtree) list \<Rightarrow> (string \<times> json_value) list" where
  "member_values sc ms \<equiv> map (\<lambda>(k, v). (k, tree_value sc v)) ms"

lemma joi_pairs_members:
  "members_ok ms \<Longrightarrow> jt_rest t = members_text sc False ms @ '' }'' \<Longrightarrow>
   joi_pairs (joi t k v Read_comma_or_object_end e) = Inr ((k, v) # member_values sc ms, e)"
proof (induction ms arbitrary: t k v)
  case Nil
  have rest: "jt_rest t = CHR '' '' # ''}''" using Nil by simp
  then have "jt_rest (jt_move 1 t) = CHR ''}'' # []" by simp
  from jt_token_punctuation(4) [OF this]
  have "jt_token t = (Right_brace (jt_index (jt_move 1 t)), jt_move 1 (jt_move 1 t))" unfolding reads_space [OF rest] .
  from joi_next_close [OF this] show ?case by (simp add: joi_pairs_next)
next
  case (Cons m ms)
  obtain k' v' where m: "m = (k', v')" by fastforce
  have comma: "jt_rest t = CHR '','' # CHR '' '' # quote # k' @ quote # CHR '':'' # value_text sc v' @ members_text sc False ms @ '' }''"
    using Cons.prems m by (simp add: separator_def)
  then have rest: "jt_rest (jt_move 1 t) = CHR '' '' # quote # k' @ quote # CHR '':'' # value_text sc v' @ members_text sc False ms @ '' }''" by simp
  have del: "delimited (members_text sc False ms @ '' }'')" by (rule delimited_members) (simp add: delimited_def)
  obtain t' where t': "joi_next (joi (jt_move 1 t) k v Read_key e) = Inr (joi t' k' (tree_value sc v') Read_comma_or_object_end e)"
    "jt_rest t' = members_text sc False ms @ '' }''"
    using joi_next_member [OF rest _ _ del, of Read_key k v e] Cons.prems(1) m by auto
  then have "joi_next (joi t k v Read_comma_or_object_end e) = Inr (joi t' k' (tree_value sc v') Read_comma_or_object_end e)"
    unfolding joi_next_comma [OF jt_token_punctuation(2) [OF comma]] by simp
  then show ?case using Cons.IH [OF _ t'(2)] Cons.prems(1) m by (simp add: joi_pairs_next)
qed

lemma json_pairs_of_text:
  assumes "members_ok ms"
  shows "json_pairs (json_object_new (value_text sc (Tree_object ms))) =
    Inr (member_values sc ms, json_object_new (value_text sc (Tree_object ms)))"
proof -
  let ?ob = "json_object_new (value_text sc (Tree_object ms))"
  let ?t = "json_tokenizer_new (value_text sc (Tree_object ms))"
  have rest: "jt_rest ?t = CHR ''{'' # CHR '' '' # members_text sc True ms @ '' }''"
    by (simp add: json_tokenizer_new_def jt_rest_def)
  have start: "joi_begin ?ob = joi_next (joi (jt_move 1 ?t) [] (Json_bool False) Read_key_or_end False)"
    unfolding joi_begin_def json_object_new_def json_object.simps
    by (rule joi_next_open [OF jt_token_punctuation(3) [OF rest]])
  have r1: "jt_rest (jt_move 1 ?t) = CHR '' '' # members_text sc True ms @ '' }''" using rest by simp
  show ?thesis
  proof (cases ms)
    case Nil
    then have "jt_rest (jt_move 1 (jt_move 1 (jt_move 1 ?t))) = CHR ''}'' # []" using rest by simp
    from jt_token_punctuation(4) [OF this]
    have "\<exists>j u. jt_token (jt_move 1 ?t) = (Right_brace j, u)"
      using reads_space [OF r1] reads_space [of "jt_move 1 (jt_move 1 ?t)" "''}''"] rest Nil by simp
    then obtain j u where "jt_token (jt_move 1 ?t) = (Right_brace j, u)" by blast
    from joi_next_close [OF this] start show ?thesis
      using Nil by (simp add: json_pairs_def json_object_new_def)
  next
    case (Cons m ms')
    obtain k v where m: "m = (k, v)" by fastforce
    have rest': "jt_rest (jt_move 1 ?t) = CHR '' '' # quote # k @ quote # CHR '':'' # value_text sc v @ members_text sc False ms' @ '' }''"
      using r1 Cons m by (simp add: separator_def)
    have del: "delimited (members_text sc False ms' @ '' }'')" by (rule delimited_members) (simp add: delimited_def)
    obtain t' where t': "joi_next (joi (jt_move 1 ?t) [] (Json_bool False) Read_key_or_end False) =
        Inr (joi t' k (tree_value sc v) Read_comma_or_object_end False)"
      "jt_rest t' = members_text sc False ms' @ '' }''"
      using joi_next_member [OF rest' _ _ del, of Read_key_or_end "[]" "Json_bool False" False] assms Cons m by auto
    then have "joi_begin ?ob = Inr (joi t' k (tree_value sc v) Read_comma_or_object_end False)" using start by simp
    then show ?thesis
      using joi_pairs_members [OF _ t'(2)] assms Cons m by (simp add: json_pairs_def json_object_new_def)
  qed
qed


text \<open>The same for arrays, read through \<open>JsonValueArrayIterator\<close>.\<close>

lemma jai_next_step:
  "jai_step it = Inr u \<Longrightarrow> jai_pauses u \<Longrightarrow> jai_next it = Inr u"
  "jai_step it = Inr u \<Longrightarrow> \<not> jai_pauses u \<Longrightarrow> jai_next it = jai_next u"
  by (simp_all add: jai_next.simps [of it])

abbreviation jai :: "json_tokenizer \<Rightarrow> json_value \<Rightarrow> jai_state \<Rightarrow> bool \<Rightarrow> json_array_iterator" where
  "jai t v st e \<equiv> \<lparr>jai_tokenizer = t, jai_value = v, jai_state = st, jai_error = e\<rparr>"

lemma jai_next_comma:
  assumes "jt_token t = (Comma, t1)"
  shows "jai_next (jai t v Read_comma_or_array_end e) = jai_next (jai t1 v Read_array_value e)"
  by (rule jai_next_step(2)) (use assms in \<open>simp_all add: jai_step_def jai_pauses_def\<close>)

lemma jai_next_close:
  assumes "jt_token t = (Right_bracket j, t1)" "st = Read_comma_or_array_end \<or> st = Read_value_or_end"
  shows "jai_next (jai t v st e) = Inr (jai t1 v Array_end e)"
  by (rule jai_next_step(1)) (use assms in \<open>auto simp: jai_step_def jai_pauses_def\<close>)

lemma jai_next_open:
  assumes "jt_token t = (Left_bracket j, t1)"
  shows "jai_next (jai t v Read_array_start e) = jai_next (jai t1 v Read_value_or_end e)"
  by (rule jai_next_step(2)) (use assms in \<open>simp_all add: jai_step_def jai_pauses_def\<close>)

lemma jai_next_element:
  assumes "jt_rest t = CHR '' '' # value_text sc v @ cs" "tree_ok v" "delimited cs" "st = Read_array_value \<or> st = Read_value_or_end"
  shows "\<exists>t'. jai_next (jai t v0 st e) = Inr (jai t' (tree_value sc v) Read_comma_or_array_end e) \<and> jt_rest t' = cs"
proof -
  let ?t = "jt_move 1 t"
  have rest: "jt_rest ?t = value_text sc v @ cs" using assms(1) by simp
  obtain k u where k: "jt_token ?t = (k, u)" "json_convert_value k u = (Some (tree_value sc v), jt_move (length (value_text sc v)) ?t)"
    using reads_tree(1) [OF assms(2) rest assms(3)] by (auto simp: reads_value_def)
  then have "jt_token t = (k, u)" using reads_space [OF assms(1)] by simp
  then have "jai_step (jai t v0 st e) = Inr (jai (jt_move (length (value_text sc v)) ?t) (tree_value sc v) Read_comma_or_array_end e)"
    using assms(4) k(2) by (cases k) (auto simp: jai_step_def jai_read_value_def)
  from jai_next_step(1) [OF this]
  have "jai_next (jai t v0 st e) = Inr (jai (jt_move (length (value_text sc v)) ?t) (tree_value sc v) Read_comma_or_array_end e)"
    by (simp add: jai_pauses_def)
  moreover have "jt_rest (jt_move (length (value_text sc v)) ?t) = cs" unfolding jt_move_simps(3) [of _ ?t] rest by simp
  ultimately show ?thesis by blast
qed

text \<open>What a loop over the elements sees: the values of the type up to the first of another type.\<close>

definition typed_values :: "bool \<Rightarrow> (json_value \<Rightarrow> 'a option) \<Rightarrow> jtree list \<Rightarrow> 'a list \<times> bool" where
  "typed_values sc as vs = (map (\<lambda>v. the (as (tree_value sc v))) (takeWhile (\<lambda>v. as (tree_value sc v) \<noteq> None) vs),
     \<exists>v \<in> set vs. as (tree_value sc v) = None)"

lemma jvai_values_at_end [simp]: "jai_state it = Array_end \<Longrightarrow> jvai_values as it = Inr ([], jai_error it)"
  by (simp add: jvai_values.simps)

lemma jvai_values_next:
  "jai_state it \<noteq> Array_end \<Longrightarrow> as (jai_value it) = Some x \<Longrightarrow> jai_next it = Inr it' \<Longrightarrow>
   jvai_values as it = rbind (jvai_values as (jvai_check as it')) (\<lambda>(xs, e). Inr (x # xs, e))"
  by (simp add: jvai_values.simps [of as it] jvai_deref_def jai_deref_def jvai_next_def)

lemma jvai_check_some: "as (jai_value it) \<noteq> None \<Longrightarrow> jvai_check as it = it"
  by (auto simp: jvai_check_def)

lemma jvai_check_none: "jai_state it \<noteq> Array_end \<Longrightarrow> as (jai_value it) = None \<Longrightarrow> jvai_values as (jvai_check as it) = Inr ([], True)"
  by (simp add: jvai_check_def jai_set_error_def)

lemma jvai_values_elements:
  "elements_ok vs \<Longrightarrow> jt_rest t = elements_text sc False vs @ '' ]'' \<Longrightarrow> as v = Some x \<Longrightarrow>
   jvai_values as (jai t v Read_comma_or_array_end False) = (case typed_values sc as vs of (xs, e) \<Rightarrow> Inr (x # xs, e))"
proof (induction vs arbitrary: t v x)
  case Nil
  have rest: "jt_rest t = CHR '' '' # '']''" using Nil by simp
  then have "jt_rest (jt_move 1 t) = CHR '']'' # []" by simp
  from jt_token_punctuation(6) [OF this]
  have "jt_token t = (Right_bracket (jt_index (jt_move 1 t)), jt_move 1 (jt_move 1 t))" unfolding reads_space [OF rest] .
  from jai_next_close [OF this] Nil(3) show ?case by (simp add: jvai_values_next typed_values_def jvai_check_def)
next
  case (Cons w vs)
  have comma: "jt_rest t = CHR '','' # CHR '' '' # value_text sc w @ elements_text sc False vs @ '' ]''"
    using Cons.prems by (simp add: separator_def)
  then have rest: "jt_rest (jt_move 1 t) = CHR '' '' # value_text sc w @ elements_text sc False vs @ '' ]''" by simp
  have del: "delimited (elements_text sc False vs @ '' ]'')" by (rule delimited_elements) (simp add: delimited_def)
  obtain t' where t': "jai_next (jai (jt_move 1 t) v Read_array_value False) = Inr (jai t' (tree_value sc w) Read_comma_or_array_end False)"
    "jt_rest t' = elements_text sc False vs @ '' ]''"
    using jai_next_element [OF rest _ del, of Read_array_value v False] Cons.prems(1) by auto
  then have step: "jai_next (jai t v Read_comma_or_array_end False) = Inr (jai t' (tree_value sc w) Read_comma_or_array_end False)"
    unfolding jai_next_comma [OF jt_token_punctuation(2) [OF comma]] by simp
  show ?case
  proof (cases "as (tree_value sc w)")
    case None
    then show ?thesis
      using jvai_check_none [of "jai t' (tree_value sc w) Read_comma_or_array_end False" as] Cons.prems(3) step
      by (simp add: jvai_values_next typed_values_def)
  next
    case (Some y)
    then show ?thesis
      using Cons.IH [OF _ t'(2) Some] Cons.prems jvai_check_some [of as "jai t' (tree_value sc w) Read_comma_or_array_end False"] step
      by (simp add: jvai_values_next typed_values_def)
  qed
qed

lemma json_typed_array_of_text:
  assumes "elements_ok vs"
  shows "json_typed_array as (json_array_new (value_text sc (Tree_array vs))) = Inr (typed_values sc as vs)"
proof -
  let ?a = "json_array_new (value_text sc (Tree_array vs))"
  let ?t = "json_tokenizer_new (value_text sc (Tree_array vs))"
  have rest: "jt_rest ?t = CHR ''['' # CHR '' '' # elements_text sc True vs @ '' ]''"
    by (simp add: json_tokenizer_new_def jt_rest_def)
  have start: "jai_begin ?a = jai_next (jai (jt_move 1 ?t) (Json_bool False) Read_value_or_end False)"
    unfolding jai_begin_def json_array_new_def json_array.simps
    by (rule jai_next_open [OF jt_token_punctuation(5) [OF rest]])
  have r1: "jt_rest (jt_move 1 ?t) = CHR '' '' # elements_text sc True vs @ '' ]''" using rest by simp
  show ?thesis
  proof (cases vs)
    case Nil
    then have "jt_rest (jt_move 1 (jt_move 1 (jt_move 1 ?t))) = CHR '']'' # []" using rest by simp
    from jt_token_punctuation(6) [OF this]
    have "\<exists>j u. jt_token (jt_move 1 ?t) = (Right_bracket j, u)"
      using reads_space [OF r1] reads_space [of "jt_move 1 (jt_move 1 ?t)" "'']''"] rest Nil by simp
    then obtain j u where "jt_token (jt_move 1 ?t) = (Right_bracket j, u)" by blast
    from jai_next_close [OF this] start show ?thesis
      using Nil by (simp add: json_typed_array_def jvai_begin_def jvai_check_def typed_values_def)
  next
    case (Cons v vs')
    have rest': "jt_rest (jt_move 1 ?t) = CHR '' '' # value_text sc v @ elements_text sc False vs' @ '' ]''"
      using r1 Cons by (simp add: separator_def)
    have del: "delimited (elements_text sc False vs' @ '' ]'')" by (rule delimited_elements) (simp add: delimited_def)
    obtain t' where t': "jai_next (jai (jt_move 1 ?t) (Json_bool False) Read_value_or_end False) =
        Inr (jai t' (tree_value sc v) Read_comma_or_array_end False)"
      "jt_rest t' = elements_text sc False vs' @ '' ]''"
      using jai_next_element [OF rest' _ del, of Read_value_or_end "Json_bool False" False] assms Cons by auto
    then have start': "jvai_begin as ?a = Inr (jvai_check as (jai t' (tree_value sc v) Read_comma_or_array_end False))"
      using start by (simp add: jvai_begin_def)
    show ?thesis
    proof (cases "as (tree_value sc v)")
      case None
      then show ?thesis
        using jvai_check_none [of "jai t' (tree_value sc v) Read_comma_or_array_end False" as] start' Cons
        by (simp add: json_typed_array_def typed_values_def)
    next
      case (Some y)
      then show ?thesis
        using jvai_values_elements [where as = as, OF _ t'(2) Some] assms Cons start' jvai_check_some [of as "jai t' (tree_value sc v) Read_comma_or_array_end False"]
        by (simp add: json_typed_array_def typed_values_def)
    qed
  qed
qed


section \<open>Looking up a member\<close>

lemma joi_parse_error: "joi_parse_next_token it = Inr it' \<Longrightarrow> joi_error it \<Longrightarrow> joi_error it'"
  by (auto simp: joi_parse_next_token_def Let_def joi_read_object_start_def joi_read_key_or_end_def joi_read_key_def joi_read_colon_def
      joi_read_value_def joi_read_comma_or_object_end_def joi_set_error_def
      split: prod.splits joi_state.splits json_token.splits option.splits if_splits)

lemma joi_next_error: "joi_next it = Inr it' \<Longrightarrow> joi_error it \<Longrightarrow> joi_error it'"
proof (induction it rule: joi_next.induct)
  case (1 it)
  then obtain u where u: "joi_parse_next_token it = Inr u" by (cases "joi_parse_next_token it") (auto simp: joi_next.simps [of it])
  then show ?case using 1 joi_parse_error [OF u] by (cases "joi_pauses u") (auto simp: joi_next.simps [of it])
qed

lemma joi_pairs_unfold:
  assumes "joi_pairs it = Inr (kvs, e)" "joi_state it \<noteq> Object_end"
  shows "\<exists>it' kvs'. joi_next it = Inr it' \<and> joi_pairs it' = Inr (kvs', e) \<and> kvs = (joi_key it, joi_value it) # kvs'"
proof -
  obtain it' where it': "joi_next it = Inr it'" using joi_next_defined [OF assms(2)] by blast
  then show ?thesis using assms by (auto simp: joi_pairs_next rbind_Inr)
qed

lemma joi_pairs_error: "joi_pairs it = Inr (kvs, False) \<Longrightarrow> \<not> joi_error it"
proof (induction it arbitrary: kvs rule: joi_pairs.induct)
  case (1 it)
  show ?case
  proof (cases "joi_state it = Object_end")
    case False
    then obtain it' kvs' where n: "joi_next it = Inr it'" "joi_pairs it' = Inr (kvs', False)" using joi_pairs_unfold [OF 1(2)] by blast
    have "\<not> joi_error it'"
    proof (cases "joi_state it' = Object_end")
      case False
      then show ?thesis using 1(1) [OF \<open>joi_state it \<noteq> Object_end\<close> n(1) False n(2)] by simp
    qed (use n in simp)
    then show ?thesis using joi_next_error [OF n(1)] by blast
  qed (use 1(2) in simp)
qed

fun first_some :: "('k \<Rightarrow> 'v \<Rightarrow> 'a option) \<Rightarrow> ('k \<times> 'v) list \<Rightarrow> 'a option" where
  "first_some g [] = None"
| "first_some g ((k, v) # kvs) = (case g k v of Some x \<Rightarrow> Some x | None \<Rightarrow> first_some g kvs)"

lemma joi_search_pairs:
  "joi_pairs it = Inr (kvs, False) \<Longrightarrow> (\<And>k v. (k, v) \<in> set kvs \<Longrightarrow> f k v = Inr (g k v)) \<Longrightarrow>
   \<exists>it'. joi_search f it = Inr (first_some g kvs, it') \<and> \<not> joi_error it'"
proof (induction it arbitrary: kvs rule: joi_pairs.induct)
  case (1 it)
  show ?case
  proof (cases "joi_state it = Object_end")
    case True
    then show ?thesis using 1(2) by (auto simp: joi_search.simps [of f it])
  next
    case False
    then obtain it' kvs' where n: "joi_next it = Inr it'" "joi_pairs it' = Inr (kvs', False)" "kvs = (joi_key it, joi_value it) # kvs'"
      using joi_pairs_unfold [OF 1(2)] by blast
    have fg: "f (joi_key it) (joi_value it) = Inr (g (joi_key it) (joi_value it))" using 1(3) n(3) by simp
    show ?thesis
    proof (cases "g (joi_key it) (joi_value it)")
      case (Some x)
      then show ?thesis using False fg n(3) joi_pairs_error [OF 1(2)] by (simp add: joi_search.simps [of f it])
    next
      case None
      show ?thesis
      proof (cases "joi_state it' = Object_end")
        case True
        then show ?thesis using n False fg None by (simp add: joi_search.simps [of f it])
      next
        case more: False
        have "\<exists>it''. joi_search f it' = Inr (first_some g kvs', it'') \<and> \<not> joi_error it''"
          by (rule 1(1) [OF False n(1) more n(2)]) (use 1(3) n(3) in simp)
        then show ?thesis using n more False fg None by (auto simp: joi_search.simps [of f it])
      qed
    qed
  qed
qed

lemma json_search_pairs:
  assumes "json_pairs ob = Inr (kvs, ob)" "\<not> jo_error ob" "\<And>k v. (k, v) \<in> set kvs \<Longrightarrow> f k v = Inr (g k v)"
  shows "json_object_search f ob = Inr (first_some g kvs, ob)"
proof -
  obtain it e where it: "joi_begin ob = Inr it" "joi_pairs it = Inr (kvs, e)" "ob = ob\<lparr>jo_error := e\<rparr>"
    using assms(1) by (auto simp: json_pairs_def rbind_Inr)
  have "e = jo_error (ob\<lparr>jo_error := e\<rparr>)" by simp
  then have e: "e = False" using it(3) assms(2) by simp
  have same: "ob\<lparr>jo_error := False\<rparr> = ob" using assms(2) by (cases ob) simp
  show ?thesis
    using joi_search_pairs [of it kvs f g] it(1,2) e assms(3) same by (auto simp: json_object_search_def)
qed

text \<open>The decoded form of a raw name.\<close>

definition decoded :: "string \<Rightarrow> string" where
  "decoded k = (case json_chars k of Inr cs \<Rightarrow> cs | Inl e \<Rightarrow> [])"

lemma decoded_plain [simp]: "backslash \<notin> set k \<Longrightarrow> decoded k = k"
  by (simp add: decoded_def json_chars_plain)

lemma json_equals_decoded: "json_raw False k \<Longrightarrow> json_equals k key = Inr (decoded k = key)"
  using json_raw_chars [of k] by (auto simp: decoded_def json_equals_chars)

lemma members_ok_names: "members_ok ms \<Longrightarrow> (k, v) \<in> set ms \<Longrightarrow> json_raw False k"
  by (induction ms) auto

definition member_named :: "bool \<Rightarrow> (json_value \<Rightarrow> 'a option) \<Rightarrow> string \<Rightarrow> (string \<times> jtree) list \<Rightarrow> 'a option" where
  "member_named sc as key ms = first_some (\<lambda>k v. if decoded k = key then as (tree_value sc v) else None) ms"

lemma first_some_map: "first_some g (map (\<lambda>(k, v). (k, h v)) ms) = first_some (\<lambda>k v. g k (h v)) ms"
  by (induction ms) (auto split: option.splits)

lemma json_search_key:
  assumes "members_ok ms"
  shows "json_object_search (on_key key as) (json_object_new (value_text sc (Tree_object ms))) =
    Inr (member_named sc as key ms, json_object_new (value_text sc (Tree_object ms)))"
proof -
  have "json_object_search (on_key key as) (json_object_new (value_text sc (Tree_object ms))) =
      Inr (first_some (\<lambda>k v. if decoded k = key then as v else None) (member_values sc ms), json_object_new (value_text sc (Tree_object ms)))"
    by (rule json_search_pairs [OF json_pairs_of_text [OF assms]])
      (auto simp: json_object_new_def on_key_def json_equals_decoded members_ok_names [OF assms])
  then show ?thesis by (simp add: first_some_map member_named_def)
qed


section \<open>The properties\<close>

text \<open>C10: The text a \<open>JsonObjectFormatter\<close> has written for a tree of members, with nested formatters for nested
  objects and arrays, is a valid object whose members are read in order, each with its name and its value:
  a nested object or array is the text its own formatter wrote, a text is the escaped text, a number
  is the number. This holds for every tree, of any depth and width, in which texts contain no backslash (a text that ends in one swallows its closing quote), names are raw names as the formatter takes them, in which every quote is
  escaped and no escape is cut off (and no backslash at all in front of an integer beyond 32 bits), the nanos of a float are below a billion, and no array has a float as an element.\<close>

theorem json_object_roundtrip:
  assumes "members_ok ms"
  shows "json_pairs (json_object_new (concat (write_object sc ms))) =
      Inr (map (\<lambda>(k, v). (k, tree_value sc v)) ms, json_object_new (concat (write_object sc ms))) \<and>
    valid_json_object (concat (write_object sc ms)) = Inr True"
  using json_pairs_of_text [OF assms, of sc]
  unfolding write_object_text [OF assms] valid_json_object_def by (simp add: json_object_new_def)

definition sample_members :: "(string \<times> jtree) list" where
  "sample_members = [(''a'', Tree_int (- 5)), (''b'', Tree_object [(''c'', Tree_text ''x<y''), (''d'', Tree_array [Tree_bool True, Tree_array []])]),
     (''e'', Tree_float (Json_float 3 140000000 True)), (''f'', Tree_bigger (Json_bigger_int 18446744073709551615 False))]"

theorem json_object_roundtrip_witness:
  "json_pairs (json_object_new (concat (write_object True sample_members))) =
      Inr (map (\<lambda>(k, v). (k, tree_value True v)) sample_members, json_object_new (concat (write_object True sample_members))) \<and>
    valid_json_object (concat (write_object True sample_members)) = Inr True"
  by (rule json_object_roundtrip) (simp add: sample_members_def)

text \<open>C12: The text a \<open>JsonArrayFormatter\<close> has written is read by a typed loop (\<open>JsonIntegerArray\<close>, \<open>JsonObjectArray\<close>,
  \<dots>) as its elements in order, up to the first element that is of another type; when there is one, the array
  is in error. This holds for all elements, nested ones too, in which texts contain no backslash (a text that ends in one swallows its closing quote), names are raw names as the formatter takes them, in which every quote is
  escaped and no escape is cut off (and no backslash at all in front of an integer beyond 32 bits), the nanos of a float are below a billion, and no array has a float as an element.\<close>

theorem json_array_roundtrip:
  assumes "elements_ok vs"
  shows "json_typed_array as (json_array_new (concat (write_array sc vs))) =
    Inr (map (\<lambda>v. the (as (tree_value sc v))) (takeWhile (\<lambda>v. as (tree_value sc v) \<noteq> None) vs), \<exists>v \<in> set vs. as (tree_value sc v) = None)"
  using json_typed_array_of_text [OF assms, of as sc] unfolding write_array_text [OF assms] typed_values_def .

theorem json_array_roundtrip_witness:
  "json_typed_array as_int (json_array_new (concat (write_array True [Tree_int 1, Tree_bool True, Tree_int 2]))) =
    Inr (map (\<lambda>v. the (as_int (tree_value True v))) (takeWhile (\<lambda>v. as_int (tree_value True v) \<noteq> None) [Tree_int 1, Tree_bool True, Tree_int 2]),
      \<exists>v \<in> set [Tree_int 1, Tree_bool True, Tree_int 2]. as_int (tree_value True v) = None)"
  by (rule json_array_roundtrip) simp

text \<open>C13: Looking up a name in an object that a \<open>JsonObjectFormatter\<close> has written gives the first member with that name and the type asked for, and
  leaves the object without an error; when there is none, it gives the default and sets the error, and the
  optional form gives nothing. This holds for every written object in which texts contain no backslash (a text that ends in one swallows its closing quote), names are raw names as the formatter takes them, in which every quote is
  escaped and no escape is cut off (and no backslash at all in front of an integer beyond 32 bits), the nanos of a float are below a billion, and no array has a float as an element.\<close>

theorem json_lookup:
  assumes "members_ok ms" "ob = json_object_new (concat (write_object sc ms))"
  shows "json_get dflt as key ob = (case member_named sc as key ms of Some x \<Rightarrow> Inr (x, ob) | None \<Rightarrow> Inr (dflt, jo_set_error ob)) \<and>
    json_get_optional as key ob = Inr (member_named sc as key ms, ob) \<and>
    json_has_key key ob = Inr (\<exists>(k, v) \<in> set ms. decoded k = key, ob)"
proof -
  have "(member_named sc (\<lambda>v. Some ()) key ms \<noteq> None) = (\<exists>(k, v) \<in> set ms. decoded k = key)"
    unfolding member_named_def by (induction ms) auto
  then show ?thesis
    using json_search_key [OF assms(1), of key as sc] json_search_key [OF assms(1), of key "\<lambda>v. Some ()" sc]
    unfolding assms(2) write_object_text [OF assms(1)] json_get_def json_get_optional_def json_has_key_def
    by (simp split: option.split)
qed

theorem json_lookup_witness:
  "json_get 0 as_int ''a'' (json_object_new (concat (write_object True sample_members))) =
      (case member_named True as_int ''a'' sample_members of Some x \<Rightarrow> Inr (x, json_object_new (concat (write_object True sample_members)))
       | None \<Rightarrow> Inr (0, jo_set_error (json_object_new (concat (write_object True sample_members))))) \<and>
    json_get_optional as_int ''a'' (json_object_new (concat (write_object True sample_members))) =
      Inr (member_named True as_int ''a'' sample_members, json_object_new (concat (write_object True sample_members))) \<and>
    json_has_key ''a'' (json_object_new (concat (write_object True sample_members))) =
      Inr (\<exists>(k, v) \<in> set sample_members. decoded k = ''a'', json_object_new (concat (write_object True sample_members)))"
  by (rule json_lookup) (simp_all add: sample_members_def)

text \<open>The move constructor of a formatter forgets that something was added: the next member is written without a
  separation, and the object is then not read.\<close>

lemma json_move_loses_separation:
  "let (ps, f) = jof_new; (qs, f) = jof_add_bool (Tag_raw ''a'') True f; (g, f) = jof_move f; (rs, g) = jof_add_bool (Tag_raw ''b'') True g
   in concat (ps @ qs @ rs @ jof_destroy g) = ''{ '' @ [quote] @ ''a'' @ [quote] @ '':true'' @ [quote] @ ''b'' @ [quote] @ '':true }''"
  by (simp add: jof_new_def jof_add_bool_def jof_member_def jf_insert_separation_def jof_move_def jof_destroy_def literal_def out_cstr_def
      optional_padding_def tf_default_def c_str_def out_char_def bool_pieces_def)

text \<open>A member that is \<open>null\<close> is read as an empty text and written as nothing behind its colon.\<close>

lemma json_null_is_lost:
  "json_convert_value Null t = (Some (Json_object json_object_default), t)"
  "jof_add_value ''a'' (Json_object json_object_default) (snd jof_new) = Inr (jof_member [''a''] [[]] (snd jof_new))"
  by (simp_all add: jof_add_value_def jof_add_object_def json_object_default_def json_object_new_def)

text \<open>\<open>Add(const JsonKeyValue&)\<close> stops at a float, \<open>Add(JsonString, const JsonValue&)\<close> does not.\<close>

lemma json_key_value_float: "jof_add_key_value k (Json_real r) f = Inl Assert_failed"
  by (simp add: jof_add_key_value_def)

end
