(* ===== verification/Json_Merge.thy ===== *)
theory Json_Merge
  imports Json_Roundtrip
begin

text \<open>
  \<open>Merge\<close> of infra/syntax/JsonFormatter.cpp: writing an object again with the value at a path replaced or
  added. The specification is a function on trees; \<open>Merge\<close>, which never builds a tree but iterates over
  the old text while it writes the new one, is shown to implement it.
\<close>

section \<open>The specification\<close>

text \<open>Replace the value of the first member named \<open>k\<close>, or add a member at the end.\<close>

fun update_first :: "string \<Rightarrow> (jtree option \<Rightarrow> jtree) \<Rightarrow> (string \<times> jtree) list \<Rightarrow> (string \<times> jtree) list" where
  "update_first k h [] = [(k, h None)]"
| "update_first k h ((k', v) # ms) = (if k' = k then (k', h (Some v)) # ms else (k', v) # update_first k h ms)"

text \<open>At the end of the path is the new value; on the way, a member that is no object is replaced by an object.\<close>

fun merge_tree :: "string list \<Rightarrow> jtree \<Rightarrow> (string \<times> jtree) list \<Rightarrow> (string \<times> jtree) list" where
  "merge_tree [] w ms = ms"
| "merge_tree [k] w ms = update_first k (\<lambda>_. w) ms"
| "merge_tree (k # ks) w ms = update_first k (\<lambda>old. Tree_object (merge_tree ks w
     (case old of Some (Tree_object ns) \<Rightarrow> ns | _ \<Rightarrow> []))) ms"

text \<open>A path as a text.\<close>

fun path_text :: "string list \<Rightarrow> string" where
  "path_text [] = []"
| "path_text [k] = k"
| "path_text (k # ks) = k @ CHR ''/'' # path_text ks"

text \<open>A number that fits 32 bits is read as such, so that a bigger integer is one that does not.\<close>

fun canonical :: "jtree \<Rightarrow> bool" where
  "canonical (Tree_bigger v) = (json_read_integer v = Json_bigger v)"
| "canonical v = True"

text \<open>Names that are written as they are, and of which none is empty.\<close>

definition plain_name :: "string \<Rightarrow> bool" where
  "plain_name k \<longleftrightarrow> k \<noteq> [] \<and> backslash \<notin> set k \<and> quote \<notin> set k"

fun plain_tree :: "jtree \<Rightarrow> bool"
  and plain_members :: "(string \<times> jtree) list \<Rightarrow> bool" where
  "plain_tree (Tree_object ms) = plain_members ms"
| "plain_tree v = canonical v"
| "plain_members [] = True"
| "plain_members ((k, v) # ms) = (plain_name k \<and> plain_tree v \<and> plain_members ms)"

section \<open>Writing a value that was read\<close>

lemma jof_add_value_text:
  assumes "tree_ok w" "canonical w" "plain_name k"
  shows "\<exists>ps. jof_add_value k (tree_value sc w) f = Inr (ps, f\<lparr>jf_empty := False\<rparr>) \<and>
    concat ps = separator (jf_empty f) @ quote # k @ [quote, CHR '':''] @ value_text sc w"
proof -
  have add: "\<exists>ps. Inr r = Inr (ps, f\<lparr>jf_empty := False\<rparr>) \<and> concat ps = x"
    if "concat (fst r) = x" "snd r = f\<lparr>jf_empty := False\<rparr>" for r x
    using that by (cases r) auto
  show ?thesis
  proof (cases w)
    case (Tree_bigger v)
    then have "json_read_integer v = Json_bigger v" using assms(2) by simp
    then show ?thesis
      using Tree_bigger assms(3) add [of "jof_member (map (\<lambda>c. [c]) k) (bigger_pieces v) f"]
      by (simp add: jof_add_value_def jof_add_bigger_plain plain_name_def jof_member_chars jof_member_text scalar_pieces)
  qed (simp_all only: tree_value.simps jof_add_value_def json_value.case,
       (rule add; simp add: jof_add_bool_def jof_add_i32_def jof_add_i64_def jof_add_json_string_def jof_add_object_def jof_add_array_def
         jof_member_text scalar_pieces float_pieces out_i32_def out_char_def json_object_new_def json_array_new_def)+)
qed

lemma members_text_append:
  "members_text sc first (ms @ ns) = members_text sc first ms @ members_text sc (first \<and> ms = []) ns"
  by (induction ms arbitrary: first) auto


section \<open>Paths\<close>

definition path_name :: "string \<Rightarrow> bool" where
  "path_name k \<longleftrightarrow> plain_name k \<and> CHR ''/'' \<notin> set k"

abbreviation path_names :: "string list \<Rightarrow> bool" where
  "path_names ks \<equiv> \<forall>k \<in> set ks. path_name k"

lemma takeWhile_name: "CHR ''/'' \<notin> set k \<Longrightarrow> takeWhile (\<lambda>c. c \<noteq> CHR ''/'') (k @ CHR ''/'' # r) = k"
  by (induction k) auto

lemma path_head_text: "path_name k \<Longrightarrow> path_head (path_text (k # ks)) = k"
  by (cases ks) (auto simp: path_head_def find_forward_eq path_name_def takeWhile_name)

lemma path_text_Nil: "path_names ks \<Longrightarrow> path_text ks = [] \<longleftrightarrow> ks = []"
  by (cases ks rule: path_text.cases) (auto simp: path_name_def plain_name_def)

lemma path_tail_text: "path_name k \<Longrightarrow> ks \<noteq> [] \<Longrightarrow> path_tail (path_text (k # ks)) = path_text ks"
  using path_head_text [of k ks] by (cases ks) (auto simp: path_tail_def)

lemma path_whole: "path_name k \<Longrightarrow> length (path_head (path_text (k # ks))) = length (path_text (k # ks)) \<longleftrightarrow> ks = []"
  using path_head_text [of k ks] by (cases ks) auto

lemma merge_split_text: "path_names (k # ks) \<Longrightarrow> merge_split (path_text (k # ks)) = (k, path_text ks)"
  using path_text_Nil [of "k # ks"] path_whole [of k ks] path_head_text [of k ks] path_tail_text [of k ks]
  by (cases ks) (auto simp: merge_split_def)

section \<open>Inserting a nested member\<close>

abbreviation name_text :: "string \<Rightarrow> string" where
  "name_text k \<equiv> quote # k @ [quote, CHR '':'']"

lemma merge_tree_step: "ks \<noteq> [] \<Longrightarrow> merge_tree (k # ks) w ms = update_first k (\<lambda>old. Tree_object (merge_tree ks w
     (case old of Some (Tree_object ns) \<Rightarrow> ns | _ \<Rightarrow> []))) ms"
  by (cases ks) auto

text \<open>The nested formatter: what it has written and that its object is closed.\<close>

lemma nested_insert_text:
  "path_names ks \<Longrightarrow> ks \<noteq> [] \<Longrightarrow> tree_ok w \<Longrightarrow> canonical w \<Longrightarrow>
   \<exists>ps. json_nested_insert k (path_text ks) (tree_value sc w) f = Inr (ps, f\<lparr>jf_empty := False\<rparr>) \<and>
     concat ps = separator (jf_empty f) @ name_text k @ value_text sc (Tree_object (merge_tree ks w []))"
proof (induction ks arbitrary: k f)
  case (Cons k' ks)
  let ?g = "\<lparr>jf_stream = True, jf_empty = True\<rparr>"
  have inner: "\<exists>qs. (if length (path_head (path_text (k' # ks))) = length (path_text (k' # ks)) then jof_add_value (path_head (path_text (k' # ks))) (tree_value sc w) ?g
      else json_nested_insert (path_head (path_text (k' # ks))) (path_tail (path_text (k' # ks))) (tree_value sc w) ?g) = Inr (qs, ?g\<lparr>jf_empty := False\<rparr>) \<and>
      concat qs = members_text sc True (merge_tree (k' # ks) w [])"
  proof (cases "ks = []")
    case True
    then show ?thesis
      using jof_add_value_text [of w k' sc ?g] Cons.prems path_head_text [of k' "[]"] by (auto simp: path_name_def separator_def)
  next
    case False
    then show ?thesis
      using Cons.IH [of k' ?g] Cons.prems path_whole [of k' ks] path_head_text [of k' ks] path_tail_text [of k' ks]
      by (auto simp: separator_def merge_tree_step)
  qed
  then obtain qs where qs: "(if length (path_head (path_text (k' # ks))) = length (path_text (k' # ks)) then jof_add_value (path_head (path_text (k' # ks))) (tree_value sc w) ?g
      else json_nested_insert (path_head (path_text (k' # ks))) (path_tail (path_text (k' # ks))) (tree_value sc w) ?g) = Inr (qs, ?g\<lparr>jf_empty := False\<rparr>)"
      "concat qs = members_text sc True (merge_tree (k' # ks) w [])" by blast
  have d: "concat (jof_destroy (?g\<lparr>jf_empty := False\<rparr>)) = '' }''" by (rule destroy_text) simp
  show ?case
    unfolding json_nested_insert.simps [of k] sub_formatters prod.case qs(1)
    using qs(2) d by (simp add: jof_member_text open_text)
qed simp

section \<open>The loop over the members\<close>

definition merge_hit :: "(json_object \<Rightarrow> json_formatter \<Rightarrow> (string list \<times> json_formatter) result) \<Rightarrow> string \<Rightarrow> json_value \<Rightarrow>
    string \<Rightarrow> json_value \<Rightarrow> json_formatter \<Rightarrow> (string list \<times> string \<times> json_formatter) result" where
  "merge_hit sub remaining v k x f = (if remaining = [] then rbind (jof_add_value k v f) (\<lambda>(ps, f'). Inr (ps, [], f'))
     else (case jof_sub_object (Tag_raw k) f of (ps, f', g) \<Rightarrow>
        rbind (sub (case x of Json_object ob \<Rightarrow> ob | _ \<Rightarrow> json_object_new ''{}'') g) (\<lambda>(qs, g'). Inr (ps @ qs @ jof_destroy g', [], f'))))"

lemma merge_pairs_step:
  assumes "json_equals k token = Inr eq"
  shows "merge_pairs sub remaining v token ((k, x) # kvs) f =
    rbind (if eq then merge_hit sub remaining v k x f else rbind (jof_add_value k x f) (\<lambda>(ps, f'). Inr (ps, token, f')))
      (\<lambda>(ps, token', f'). rbind (merge_pairs sub remaining v token' kvs f') (\<lambda>(qs, token'', f''). Inr (ps @ qs, token'', f'')))"
  using assms by (simp add: merge_hit_def)

lemma plain_canonical: "plain_tree v \<Longrightarrow> canonical v"
  by (cases v) auto

lemma equals_plain: "plain_name k \<Longrightarrow> json_equals k token = Inr (k = token)"
  by (simp add: json_equals_chars [OF json_chars_plain] plain_name_def)

text \<open>Members that the token does not name are copied.\<close>

lemma merge_pairs_copy:
  "members_ok ms \<Longrightarrow> plain_members ms \<Longrightarrow> token \<notin> fst ` set ms \<Longrightarrow>
   \<exists>ps f'. merge_pairs sub remaining v token (member_values sc ms) f = Inr (ps, token, f') \<and>
     concat ps = members_text sc (jf_empty f) ms \<and> jf_stream f' = jf_stream f \<and> jf_empty f' = (jf_empty f \<and> ms = [])"
proof (induction ms arbitrary: f)
  case (Cons m ms)
  obtain k x where m: "m = (k, x)" by fastforce
  obtain ps where ps: "jof_add_value k (tree_value sc x) f = Inr (ps, f\<lparr>jf_empty := False\<rparr>)"
    "concat ps = separator (jf_empty f) @ name_text k @ value_text sc x"
    using jof_add_value_text [of x k sc f] Cons.prems m plain_canonical [of x] by auto
  obtain qs f' where qs: "merge_pairs sub remaining v token (member_values sc ms) (f\<lparr>jf_empty := False\<rparr>) = Inr (qs, token, f')"
    "concat qs = members_text sc False ms" "jf_stream f' = jf_stream f" "\<not> jf_empty f'"
    using Cons.IH [of "f\<lparr>jf_empty := False\<rparr>"] Cons.prems m by auto
  have "json_equals k token = Inr False" using equals_plain [of k token] Cons.prems m by auto
  from merge_pairs_step [OF this, of sub remaining v "tree_value sc x" "member_values sc ms" f]
  show ?case using ps qs m by simp
qed simp

text \<open>The first member that the token names gets the new value.\<close>

lemma merge_pairs_update:
  assumes hit: "\<And>x g. (k, x) \<in> set ms \<Longrightarrow> \<exists>ps. merge_hit sub remaining v k (tree_value sc x) g = Inr (ps, [], g\<lparr>jf_empty := False\<rparr>) \<and>
      concat ps = separator (jf_empty g) @ name_text k @ value_text sc (h (Some x))"
  shows "members_ok ms \<Longrightarrow> plain_members ms \<Longrightarrow> k \<in> fst ` set ms \<Longrightarrow>
   \<exists>ps f'. merge_pairs sub remaining v k (member_values sc ms) f = Inr (ps, [], f') \<and>
     concat ps = members_text sc (jf_empty f) (update_first k h ms) \<and> jf_stream f' = jf_stream f"
  using hit
proof (induction ms arbitrary: f)
  case (Cons m ms)
  obtain k' x where m: "m = (k', x)" by fastforce
  have names: "[] \<notin> fst ` set ms" using Cons.prems(2) m
  proof -
    have "plain_members ns \<Longrightarrow> [] \<notin> fst ` set ns" for ns
      by (induction ns) (auto simp: plain_name_def)
    then show ?thesis using Cons.prems(2) m by simp
  qed
  show ?case
  proof (cases "k' = k")
    case True
    obtain ps where ps: "merge_hit sub remaining v k (tree_value sc x) f = Inr (ps, [], f\<lparr>jf_empty := False\<rparr>)"
      "concat ps = separator (jf_empty f) @ name_text k @ value_text sc (h (Some x))"
      using Cons.prems(4) [of x f] m True by auto
    obtain qs f' where qs: "merge_pairs sub remaining v [] (member_values sc ms) (f\<lparr>jf_empty := False\<rparr>) = Inr (qs, [], f')"
      "concat qs = members_text sc False ms" "jf_stream f' = jf_stream f"
      using merge_pairs_copy [of ms "[]" sub remaining v sc "f\<lparr>jf_empty := False\<rparr>"] Cons.prems m names by auto
    have "json_equals k k = Inr True" using equals_plain [of k k] Cons.prems m True by auto
    from merge_pairs_step [OF this, of sub remaining v "tree_value sc x" "member_values sc ms" f]
    show ?thesis using ps qs m True by simp
  next
    case False
    obtain ps where ps: "jof_add_value k' (tree_value sc x) f = Inr (ps, f\<lparr>jf_empty := False\<rparr>)"
      "concat ps = separator (jf_empty f) @ name_text k' @ value_text sc x"
      using jof_add_value_text [of x k' sc f] Cons.prems m plain_canonical [of x] by auto
    have "\<exists>qs f'. merge_pairs sub remaining v k (member_values sc ms) (f\<lparr>jf_empty := False\<rparr>) = Inr (qs, [], f') \<and>
      concat qs = members_text sc (jf_empty (f\<lparr>jf_empty := False\<rparr>)) (update_first k h ms) \<and> jf_stream f' = jf_stream (f\<lparr>jf_empty := False\<rparr>)"
      by (rule Cons.IH) (use Cons.prems m False in auto)
    then obtain qs f' where qs: "merge_pairs sub remaining v k (member_values sc ms) (f\<lparr>jf_empty := False\<rparr>) = Inr (qs, [], f')"
      "concat qs = members_text sc False (update_first k h ms)" "jf_stream f' = jf_stream f" by auto
    have "json_equals k' k = Inr False" using equals_plain [of k' k] Cons.prems m False by auto
    from merge_pairs_step [OF this, of sub remaining v "tree_value sc x" "member_values sc ms" f]
    show ?thesis using ps qs m False by simp
  qed
qed simp


section \<open>Merging\<close>

definition holds_members :: "bool \<Rightarrow> json_object \<Rightarrow> (string \<times> jtree) list \<Rightarrow> bool" where
  "holds_members sc ob ms \<longleftrightarrow> json_pairs ob = Inr (member_values sc ms, ob) \<and> \<not> jo_error ob"

lemma holds_members_text: "members_ok ms \<Longrightarrow> holds_members sc (json_object_new (value_text sc (Tree_object ms))) ms"
  unfolding holds_members_def by (simp only: json_pairs_of_text) (simp add: json_object_new_def)

lemma holds_members_empty: "holds_members sc (json_object_new ''{}'') []"
proof -
  have "jt_token (json_tokenizer_new ''{}'') = (Left_brace 0, jt_move 1 (json_tokenizer_new ''{}''))"
    using jt_token_punctuation(3) [of "json_tokenizer_new ''{}''" "''}''"] by (simp add: json_tokenizer_new_def jt_rest_def)
  from joi_next_open [OF this, of "[]" "Json_bool False" False]
  have start: "joi_begin (json_object_new ''{}'') = joi_next (joi (jt_move 1 (json_tokenizer_new ''{}'')) [] (Json_bool False) Read_key_or_end False)"
    by (simp add: joi_begin_def json_object_new_def)
  have "jt_rest (jt_move 1 (json_tokenizer_new ''{}'')) = CHR ''}'' # []" by (simp add: json_tokenizer_new_def jt_rest_def)
  from joi_next_close [OF jt_token_punctuation(4) [OF this], of Read_key_or_end "[]" "Json_bool False" False] start
  show ?thesis by (simp add: holds_members_def json_pairs_def json_object_new_def)
qed

lemma has_key_members:
  assumes "holds_members sc ob ms" "plain_members ms"
  shows "json_has_key key ob = Inr (key \<in> fst ` set ms, ob)"
proof -
  have plain: "plain_name k" if "(k, v) \<in> set ms" for k v using assms(2) that by (induction ms) auto
  have "json_object_search (on_key key (\<lambda>v. Some ())) ob = Inr (first_some (\<lambda>k v. if k = key then Some () else None) (member_values sc ms), ob)"
    using assms(1) by (intro json_search_pairs) (auto simp: holds_members_def on_key_def equals_plain plain)
  moreover have "(first_some (\<lambda>k v. if k = key then Some () else None) (member_values sc ms) \<noteq> None) = (key \<in> fst ` set ms)"
    by (induction ms) auto
  ultimately show ?thesis by (simp add: json_has_key_def)
qed

lemma update_first_append: "k \<notin> fst ` set ms \<Longrightarrow> update_first k h ms = ms @ [(k, h None)]"
  by (induction ms) auto

abbreviation merge_sub :: "string \<Rightarrow> json_value \<Rightarrow> json_object \<Rightarrow> json_formatter \<Rightarrow> (string list \<times> json_formatter) result" where
  "merge_sub remaining v ob g \<equiv> (if remaining \<noteq> [] then json_merge remaining v ob g else Inl Assert_failed)"

lemma json_merge_unfold:
  assumes "merge_split path = (token, remaining)" "json_pairs ob = Inr (kvs, ob')"
  shows "json_merge path v ob f =
     rbind (merge_pairs (merge_sub remaining v) remaining v token kvs f) (\<lambda>(ps, token', f').
     if token' = [] then Inr (ps, f')
     else rbind (json_has_key token' ob') (\<lambda>(has, ob'').
       if has then Inr (ps, f')
       else rbind (if remaining = [] then jof_add_value token' v f' else json_nested_insert token' remaining v f')
         (\<lambda>(qs, f''). Inr (ps @ qs, f''))))"
  using assms by (simp add: json_merge.simps [of path])

text \<open>When no member has the name, the new one is written behind the others.\<close>

lemma json_merge_add:
  assumes "path_names (k # ks)" "holds_members sc ob ms" "members_ok ms" "plain_members ms" "tree_ok w" "canonical w"
    and "k \<notin> fst ` set ms"
  shows "\<exists>ps f'. json_merge (path_text (k # ks)) (tree_value sc w) ob f = Inr (ps, f') \<and>
    concat ps = members_text sc (jf_empty f) (merge_tree (k # ks) w ms) \<and> jf_stream f' = jf_stream f"
proof -
  have k: "plain_name k" "k \<noteq> []" using assms(1) by (auto simp: path_name_def plain_name_def)
  have rem: "path_text ks = [] \<longleftrightarrow> ks = []" using path_text_Nil [of ks] assms(1) by simp
  obtain ps f1 where ps: "merge_pairs (merge_sub (path_text ks) (tree_value sc w)) (path_text ks) (tree_value sc w) k (member_values sc ms) f = Inr (ps, k, f1)"
    "concat ps = members_text sc (jf_empty f) ms" "jf_stream f1 = jf_stream f" "jf_empty f1 = (jf_empty f \<and> ms = [])"
    using merge_pairs_copy [OF assms(3,4,7)] by blast
  define u where "u = (if ks = [] then w else Tree_object (merge_tree ks w []))"
  have "\<exists>qs. (if path_text ks = [] then jof_add_value k (tree_value sc w) f1 else json_nested_insert k (path_text ks) (tree_value sc w) f1) =
      Inr (qs, f1\<lparr>jf_empty := False\<rparr>) \<and> concat qs = separator (jf_empty f1) @ name_text k @ value_text sc u"
  proof (cases "ks = []")
    case True
    then show ?thesis using jof_add_value_text [OF assms(5,6) k(1)] by (simp add: u_def)
  next
    case False
    then show ?thesis using nested_insert_text [of ks w k sc f1] assms(1,5,6) rem by (simp add: u_def)
  qed
  then obtain qs where qs: "(if path_text ks = [] then jof_add_value k (tree_value sc w) f1 else json_nested_insert k (path_text ks) (tree_value sc w) f1) =
      Inr (qs, f1\<lparr>jf_empty := False\<rparr>)" "concat qs = separator (jf_empty f1) @ name_text k @ value_text sc u" by blast
  have "merge_tree (k # ks) w ms = ms @ [(k, u)]"
    using assms(7) by (cases ks) (simp_all add: update_first_append u_def)
  then have "concat (ps @ qs) = members_text sc (jf_empty f) (merge_tree (k # ks) w ms)"
    using ps(2,4) qs(2) by (simp add: members_text_append)
  moreover have "json_merge (path_text (k # ks)) (tree_value sc w) ob f = Inr (ps @ qs, f1\<lparr>jf_empty := False\<rparr>)"
    using json_merge_unfold [OF merge_split_text [OF assms(1)], of ob "member_values sc ms" ob "tree_value sc w" f]
      assms(2,7) ps(1) qs(1) has_key_members [OF assms(2,4), of k] k(2)
    by (simp add: holds_members_def)
  ultimately show ?thesis using ps(3) by auto
qed

text \<open>When a member has it, the new value is written in its place.\<close>

lemma json_merge_replace:
  assumes "path_names (k # ks)" "holds_members sc ob ms" "members_ok ms" "plain_members ms"
    and "k \<in> fst ` set ms" "merge_tree (k # ks) w ms = update_first k h ms"
    and hit: "\<And>x g. (k, x) \<in> set ms \<Longrightarrow> \<exists>ps. merge_hit (merge_sub (path_text ks) (tree_value sc w)) (path_text ks) (tree_value sc w) k (tree_value sc x) g =
        Inr (ps, [], g\<lparr>jf_empty := False\<rparr>) \<and> concat ps = separator (jf_empty g) @ name_text k @ value_text sc (h (Some x))"
  shows "\<exists>ps f'. json_merge (path_text (k # ks)) (tree_value sc w) ob f = Inr (ps, f') \<and>
    concat ps = members_text sc (jf_empty f) (merge_tree (k # ks) w ms) \<and> jf_stream f' = jf_stream f"
proof -
  obtain ps f' where "merge_pairs (merge_sub (path_text ks) (tree_value sc w)) (path_text ks) (tree_value sc w) k (member_values sc ms) f = Inr (ps, [], f')"
    "concat ps = members_text sc (jf_empty f) (update_first k h ms)" "jf_stream f' = jf_stream f"
    using merge_pairs_update [OF hit assms(3,4,5)] by blast
  then show ?thesis
    using json_merge_unfold [OF merge_split_text [OF assms(1)], of ob "member_values sc ms" ob "tree_value sc w" f] assms(2,6)
    by (simp add: holds_members_def)
qed

lemma plain_members_value: "plain_members ms \<Longrightarrow> members_ok ms \<Longrightarrow> (k, v) \<in> set ms \<Longrightarrow> plain_tree v \<and> tree_ok v"
  by (induction ms) auto

lemma json_merge_text:
  "path_names ks \<Longrightarrow> ks \<noteq> [] \<Longrightarrow> holds_members sc ob ms \<Longrightarrow> members_ok ms \<Longrightarrow> plain_members ms \<Longrightarrow> tree_ok w \<Longrightarrow> canonical w \<Longrightarrow>
   \<exists>ps f'. json_merge (path_text ks) (tree_value sc w) ob f = Inr (ps, f') \<and>
     concat ps = members_text sc (jf_empty f) (merge_tree ks w ms) \<and> jf_stream f' = jf_stream f"
proof (induction ks arbitrary: ob ms f)
  case (Cons k ks)
  show ?case
  proof (cases "k \<in> fst ` set ms")
    case False
    then show ?thesis using json_merge_add Cons.prems by blast
  next
    case member: True
    show ?thesis
    proof (cases "ks = []")
      case True
      have "\<exists>ps. merge_hit (merge_sub (path_text ks) (tree_value sc w)) (path_text ks) (tree_value sc w) k (tree_value sc x) g =
          Inr (ps, [], g\<lparr>jf_empty := False\<rparr>) \<and> concat ps = separator (jf_empty g) @ name_text k @ value_text sc w" for x g
      proof -
        have "plain_name k" using Cons.prems(1) by (simp add: path_name_def)
        from jof_add_value_text [OF Cons.prems(6,7) this, of sc g] show ?thesis using True by (auto simp: merge_hit_def)
      qed
      then show ?thesis
        by (intro json_merge_replace [OF Cons.prems(1,3,4,5) member, where h = "\<lambda>_. w"]) (simp_all add: True)
    next
      case False
      let ?members = "\<lambda>old. case old of Some (Tree_object ns) \<Rightarrow> ns | _ \<Rightarrow> []"
      have rem: "path_text ks \<noteq> []" using path_text_Nil [of ks] Cons.prems(1) False by simp
      have "\<exists>ps. merge_hit (merge_sub (path_text ks) (tree_value sc w)) (path_text ks) (tree_value sc w) k (tree_value sc x) g =
          Inr (ps, [], g\<lparr>jf_empty := False\<rparr>) \<and>
          concat ps = separator (jf_empty g) @ name_text k @ value_text sc (Tree_object (merge_tree ks w (?members (Some x))))"
        if x: "(k, x) \<in> set ms" for x g
      proof -
        let ?g = "\<lparr>jf_stream = True, jf_empty = True\<rparr>"
        let ?ob = "case tree_value sc x of Json_object ob \<Rightarrow> ob | _ \<Rightarrow> json_object_new ''{}''"
        have ok: "plain_tree x" "tree_ok x" using plain_members_value [OF Cons.prems(5,4) x] by simp_all
        have "holds_members sc ?ob (?members (Some x)) \<and> members_ok (?members (Some x)) \<and> plain_members (?members (Some x))"
          using ok holds_members_empty [of sc] holds_members_text [of _ sc]
          by (cases x) (auto simp: json_read_integer_def)
        then obtain qs g' where qs: "json_merge (path_text ks) (tree_value sc w) ?ob ?g = Inr (qs, g')"
          "concat qs = members_text sc True (merge_tree ks w (?members (Some x)))" "jf_stream g'"
          using Cons.IH [of ?ob "?members (Some x)" ?g] Cons.prems False by auto
        then show ?thesis
          using rem destroy_text(1) [OF qs(3)] by (auto simp: merge_hit_def sub_formatters jof_member_text open_text)
      qed
      then show ?thesis
        by (intro json_merge_replace [OF Cons.prems(1,3,4,5) member, where h = "\<lambda>old. Tree_object (merge_tree ks w (?members old))"])
          (simp_all add: merge_tree_step [OF False])
    qed
  qed
qed simp


section \<open>The property\<close>

lemma json_raw_plain: "plain_name k \<Longrightarrow> json_raw False k"
proof -
  have "backslash \<notin> set k \<Longrightarrow> quote \<notin> set k \<Longrightarrow> json_raw False k" by (induction k) auto
  then show "plain_name k \<Longrightarrow> json_raw False k" by (simp add: plain_name_def)
qed

lemma update_first_ok:
  "members_ok ms \<Longrightarrow> plain_name k \<Longrightarrow> tree_ok (h None) \<Longrightarrow> (\<And>x. (k, x) \<in> set ms \<Longrightarrow> tree_ok (h (Some x))) \<Longrightarrow>
   members_ok (update_first k h ms)"
proof (induction ms)
  case Nil
  then show ?case using json_raw_plain [of k] by (simp add: plain_name_def)
next
  case (Cons m ms)
  then show ?case by (cases m) (auto simp: plain_name_def)
qed

lemma members_ok_value: "members_ok ms \<Longrightarrow> (k, v) \<in> set ms \<Longrightarrow> tree_ok v"
  by (induction ms) auto

lemma merge_tree_ok: "path_names ks \<Longrightarrow> tree_ok w \<Longrightarrow> members_ok ms \<Longrightarrow> members_ok (merge_tree ks w ms)"
proof (induction ks w ms rule: merge_tree.induct)
  case (2 k w ms)
  then show ?case by (auto simp: path_name_def intro: update_first_ok)
next
  case (3 k k' ks w ms)
  let ?members = "\<lambda>old. case old of Some (Tree_object ns) \<Rightarrow> ns | _ \<Rightarrow> []"
  have sub: "members_ok (merge_tree (k' # ks) w (?members old))" if "\<And>x. old = Some x \<Longrightarrow> tree_ok x" for old
    by (rule 3(1)) (use 3 that in \<open>auto split: option.splits jtree.splits\<close>)
  have "members_ok (update_first k (\<lambda>old. Tree_object (merge_tree (k' # ks) w (?members old))) ms)"
  proof (rule update_first_ok)
    show "plain_name k" using 3(2) by (simp add: path_name_def)
    show "tree_ok (Tree_object (merge_tree (k' # ks) w (?members None)))" using sub [of None] by simp
    show "tree_ok (Tree_object (merge_tree (k' # ks) w (?members (Some x))))" if "(k, x) \<in> set ms" for x
      using sub [of "Some x"] members_ok_value [OF 3(4) that] by simp
  qed (rule 3(4))
  then show ?case by simp
qed simp

text \<open>C11: \<open>Merge\<close> implements the merge of trees: when it writes a written object again with a value merged at a path of
  one or more names, the new text is an object in which the member at the path has the new value, members
  on the way are made into objects where they are none, and every other member is read as before,
  in the same order. The names of the path are not empty and have no quote, backslash or slash; the names of the object's members, also of nested
  objects, are not empty and have no quote or backslash. In the object and in the value texts contain no backslash, the nanos of a float are below
  a billion, no array has a float as an element, and names in arrays and in the value are raw names, in which every quote is escaped and no escape
  is cut off (without any backslash in front of an integer beyond 32 bits). An integer that was written as one beyond 32 bits, as the value
  or as a member, is one that does not fit 32 bits. The written object has no \<open>null\<close> members: the formatters write none,
  and the code loses those of other texts.\<close>

theorem json_merge_refines:
  assumes "path_names ks" "ks \<noteq> []" "members_ok ms" "plain_members ms" "tree_ok w" "canonical w"
  shows "\<exists>ps f'. json_merge (path_text ks) (tree_value sc w) (json_object_new (concat (write_object sc ms))) (snd jof_new) = Inr (ps, f') \<and>
    json_pairs (json_object_new (concat (fst jof_new @ ps @ jof_destroy f'))) =
      Inr (map (\<lambda>(k, v). (k, tree_value sc v)) (merge_tree ks w ms), json_object_new (concat (fst jof_new @ ps @ jof_destroy f')))"
proof -
  obtain ps f' where m: "json_merge (path_text ks) (tree_value sc w) (json_object_new (value_text sc (Tree_object ms))) (snd jof_new) = Inr (ps, f')"
    "concat ps = members_text sc True (merge_tree ks w ms)" "jf_stream f'"
    using json_merge_text [OF assms(1,2) holds_members_text [OF assms(3)] assms(3-6), of sc "snd jof_new"] by (auto simp: jof_new_def)
  have "concat (fst jof_new @ ps @ jof_destroy f') = value_text sc (Tree_object (merge_tree ks w ms))"
    using m(2) destroy_text(1) [OF m(3)] by (simp add: jof_new_def open_text)
  then show ?thesis
    using m(1) json_pairs_of_text [OF merge_tree_ok [OF assms(1,5,3)], of sc]
    unfolding write_object_text [OF assms(3)] by auto
qed

theorem json_merge_refines_witness:
  "\<exists>ps f'. json_merge (path_text [''b'', ''x'', ''y'']) (tree_value True (Tree_int 7)) (json_object_new (concat (write_object True sample_members))) (snd jof_new) = Inr (ps, f') \<and>
    json_pairs (json_object_new (concat (fst jof_new @ ps @ jof_destroy f'))) =
      Inr (map (\<lambda>(k, v). (k, tree_value True v)) (merge_tree [''b'', ''x'', ''y''] (Tree_int 7) sample_members), json_object_new (concat (fst jof_new @ ps @ jof_destroy f')))"
  by (rule json_merge_refines) (simp_all add: sample_members_def path_name_def plain_name_def json_read_integer_def)

text \<open>A member with an empty name behind the one that was merged is taken for a match.\<close>

lemma json_merge_empty_name:
  "merge_pairs sub [] (Json_bool True) ''a'' [(''a'', Json_bool False), ([], Json_bool False)] f =
   merge_pairs sub [] (Json_bool True) ''a'' [(''a'', Json_bool True), ([], Json_bool True)] f"
  by (simp add: equals_plain plain_name_def json_equals_chars jof_add_value_def split_beta)

end
