(* ===== verification/Partitioned_Time.thy ===== *)
theory Partitioned_Time
  imports Prelude "HOL-Library.Signed_Division"
begin

text \<open>
  PartitionedTime (infra/timer/PartitionedTime.cpp): a time since the start of 1970 as year, month, day, hours,
  minutes and seconds, and back. Intermediate values are integers with the truncating division
  of the language (\<open>sdiv\<close>, \<open>smod\<close>); that they stay in the ranges the source's comments give, so that
  no arithmetic of the source wraps around, is part of the lemmas. The fields have the widths of the class.
  The calendar rule is stated as a successor on dates; the conversion is shown to follow it day by day.
\<close>

section \<open>The conversions\<close>

record ptime =
  pt_years :: u16
  pt_months :: u8
  pt_days :: u8
  pt_hours :: u8
  pt_minutes :: u8
  pt_seconds :: u8

definition day_seconds :: int where
  "day_seconds = 24 * 60 * 60"

text \<open>The day of a time, rounding towards the past also before 1970.\<close>

definition pt_day :: "int \<Rightarrow> int" where
  "pt_day unixTime = signed_take_bit 31 (if unixTime \<ge> 0 then unixTime sdiv day_seconds
     else (unixTime - (day_seconds - 1)) sdiv day_seconds)"

text \<open>Year, month and day of a day number.\<close>

definition civil_from_days :: "int \<Rightarrow> int \<times> int \<times> int" where
  "civil_from_days z =
    (let z = z + 719468;
         era = (if z \<ge> 0 then z else z - 146096) sdiv 146097;
         doe = z - era * 146097;
         yoe = (doe - doe sdiv 1460 + doe sdiv 36524 - doe sdiv 146096) sdiv 365;
         y = yoe + era * 400;
         doy = doe - (365 * yoe + yoe sdiv 4 - yoe sdiv 100);
         mp = (5 * doy + 2) sdiv 153;
         d = doy - (153 * mp + 2) sdiv 5 + 1;
         m = mp + (if mp < 10 then 3 else - 9)
     in (y + (if m \<le> 2 then 1 else 0), m, d))"

definition pt_of_time_t :: "int \<Rightarrow> ptime" where
  "pt_of_time_t unixTime =
    (let z = pt_day unixTime;
         t = unixTime - z * day_seconds;
         (y, m, d) = civil_from_days z
     in \<lparr>pt_years = word_of_int y, pt_months = word_of_int m, pt_days = word_of_int d,
         pt_hours = word_of_int (((t sdiv 60) sdiv 60) smod 24), pt_minutes = word_of_int ((t sdiv 60) smod 60),
         pt_seconds = word_of_int (t smod 60)\<rparr>)"

definition days_from_civil :: "int \<Rightarrow> int \<Rightarrow> int \<Rightarrow> int" where
  "days_from_civil y m d =
    (let y = signed_take_bit 15 (y - (if m \<le> 2 then 1 else 0));
         era = (if y \<ge> 0 then y else y - 399) sdiv 400;
         yoe = y - era * 400;
         doy = (153 * (m + (if m > 2 then - 3 else 9)) + 2) sdiv 5 + d - 1;
         doe = take_bit 32 (yoe * 365 + yoe sdiv 4 - yoe sdiv 100 + doy)
     in era * 146097 + doe - 719468)"

text \<open>The year is read as a signed number.\<close>

definition pt_to_time_t :: "ptime \<Rightarrow> int" where
  "pt_to_time_t p = days_from_civil (sint (pt_years p)) (uint (pt_months p)) (uint (pt_days p)) * day_seconds
     + uint (pt_seconds p) + (uint (pt_minutes p) + uint (pt_hours p) * 60) * 60"

definition pt_week_day :: "ptime \<Rightarrow> int" where
  "pt_week_day p = (let day = pt_day (pt_to_time_t p)
     in if day \<ge> - 4 then (day + 4) smod 7 else (day + 5) smod 7 + 6)"

text \<open>A time point counts ticks of the system clock from the start of 1970; how many there are in a second is up
  to the standard library of the platform (\<open>rate\<close>). The seconds are an \<open>int8_t\<close> that is kept in eight bits without a sign.\<close>

definition pt_of_time_point :: "int \<Rightarrow> int \<Rightarrow> ptime" where
  "pt_of_time_point rate time = pt_of_time_t (time sdiv rate)"

definition pt_of_fields :: "u16 \<Rightarrow> u8 \<Rightarrow> u8 \<Rightarrow> u8 \<Rightarrow> u8 \<Rightarrow> u8 \<Rightarrow> ptime" where
  "pt_of_fields years months days hours minutes seconds =
    \<lparr>pt_years = years, pt_months = months, pt_days = days, pt_hours = hours, pt_minutes = minutes, pt_seconds = seconds\<rparr>"

definition pt_to_time_point :: "int \<Rightarrow> ptime \<Rightarrow> int" where
  "pt_to_time_point rate p = pt_to_time_t p * rate"

section \<open>The calendar\<close>

definition leap_year :: "int \<Rightarrow> bool" where
  "leap_year y = (y mod 4 = 0 \<and> (y mod 100 \<noteq> 0 \<or> y mod 400 = 0))"

definition month_length :: "int \<Rightarrow> int \<Rightarrow> int" where
  "month_length y m = (if m = 2 then (if leap_year y then 29 else 28)
     else if m \<in> {4, 6, 9, 11} then 30 else 31)"

fun next_date :: "int \<times> int \<times> int \<Rightarrow> int \<times> int \<times> int" where
  "next_date (y, m, d) = (if d < month_length y m then (y, m, d + 1)
     else if m < 12 then (y, m + 1, 1) else (y + 1, 1, 1))"

section \<open>Division\<close>

lemma sdiv_nonneg: "0 \<le> (a :: int) \<Longrightarrow> 0 < b \<Longrightarrow> a sdiv b = a div b"
  by (simp add: signed_divide_int_def sgn_if)

lemma smod_nonneg: "0 \<le> (a :: int) \<Longrightarrow> 0 < b \<Longrightarrow> a smod b = a mod b"
  by (cases "a = 0") (simp_all add: signed_modulo_int_def)

lemma sdiv_floor:
  assumes "0 < (b :: int)"
  shows "(if a \<ge> 0 then a else a - (b - 1)) sdiv b = a div b"
proof (cases "a \<ge> 0")
  case False
  have "(- a + (b - 1)) div b = - (a div b)"
  proof -
    have "a = b * (a div b) + a mod b" "0 \<le> a mod b" "a mod b < b" using assms by simp_all
    then have "- a + (b - 1) = (b - 1 - a mod b) + b * (- (a div b))" by (simp add: algebra_simps)
    then have "(- a + (b - 1)) div b = - (a div b) + (b - 1 - a mod b) div b"
      using assms by (metis div_mult_self2 less_irrefl add.commute)
    then show ?thesis using \<open>0 \<le> a mod b\<close> \<open>a mod b < b\<close> by (simp add: div_pos_pos_trivial)
  qed
  then show ?thesis using False assms by (simp add: signed_divide_int_def sgn_if algebra_simps)
qed (use assms in \<open>simp add: sdiv_nonneg\<close>)

lemma div_step:
  assumes "0 < (k :: int)"
  shows "(n + 1) div k = n div k + (if (n + 1) mod k = 0 then 1 else 0)"
proof (cases "(n + 1) mod k = 0")
  case True
  then have "n = k * ((n + 1) div k - 1) + (k - 1)" using div_mult_mod_eq [of "n + 1" k] by (simp add: algebra_simps)
  from int_div_pos_eq [OF this] have "n div k = (n + 1) div k - 1" using assms by simp
  then show ?thesis using True by simp
next
  case False
  moreover have "0 \<le> (n + 1) mod k" "(n + 1) mod k < k" using assms by simp_all
  moreover have "n = k * ((n + 1) div k) + ((n + 1) mod k - 1)" using div_mult_mod_eq [of "n + 1" k] by (simp add: algebra_simps)
  ultimately have "n div k = (n + 1) div k" using int_div_pos_eq [of n k "(n + 1) div k" "(n + 1) mod k - 1"] by simp
  then show ?thesis using False by simp
qed

lemma pt_day_floor:
  assumes "- (2 ^ 31) \<le> t div 86400" "t div 86400 < 2 ^ 31"
  shows "pt_day t = t div 86400"
proof -
  have "pt_day t = signed_take_bit 31 (t div 86400)"
    using sdiv_floor [of 86400 t] by (cases "t \<ge> 0") (auto simp: pt_day_def day_seconds_def)
  then show ?thesis using assms by (simp add: signed_take_bit_int_eq_self)
qed

section \<open>The year within 400 years\<close>

text \<open>Years start in March, so that the leap day is the last day of a year. \<open>year_start y\<close> is the
  first day of the year \<open>y\<close> of an era of 400 years.\<close>

definition year_start :: "int \<Rightarrow> int" where
  "year_start y = 365 * y + y div 4 - y div 100"

definition year_length :: "int \<Rightarrow> int" where
  "year_length y = (if leap_year (y + 1) then 366 else 365)"

definition year_of_day :: "int \<Rightarrow> int" where
  "year_of_day doe = (doe - doe div 1460 + doe div 36524 - doe div 146096) div 365"

lemma year_of_day_mono:
  assumes "0 \<le> a" "a \<le> b"
  shows "year_of_day a \<le> year_of_day b"
proof -
  have step: "year_of_day n \<le> year_of_day (n + 1)" for n
  proof -
    have d: "n div 146096 = (n div 36524) div 4" "(n + 1) div 146096 = ((n + 1) div 36524) div 4"
      by (simp_all flip: zdiv_zmult2_eq)
    have "(n + 1) div 1460 \<le> n div 1460 + 1" by (simp add: div_step)
    moreover have "n div 36524 - n div 36524 div 4 \<le> (n + 1) div 36524 - (n + 1) div 36524 div 4"
      by (simp add: div_step [of 36524 n] div_step [of 4 "n div 36524"])
    ultimately have "n - n div 1460 + n div 36524 - n div 146096
        \<le> (n + 1) - (n + 1) div 1460 + (n + 1) div 36524 - (n + 1) div 146096" unfolding d by simp
    then show ?thesis unfolding year_of_day_def by (rule zdiv_mono1) simp
  qed
  from assms(2) show ?thesis
    by (induction b rule: int_ge_induct) (use step order_trans in blast)+
qed

lemma div_le_self: "0 \<le> (a :: int) \<Longrightarrow> 0 < b \<Longrightarrow> a div b \<le> a"
  using zdiv_mono2 [of a 1 b] by simp

lemma year_start_nonneg: "0 \<le> y \<Longrightarrow> 0 \<le> year_start y"
  using div_le_self [of y 100] pos_imp_zdiv_nonneg_iff [of 4 y] by (simp add: year_start_def)

text \<open>The first and the last day of each of the 400 years are in that year.\<close>

lemma year_ends:
  "list_all (\<lambda>y. year_of_day (year_start y) = y \<and> year_of_day (year_start y + year_length y - 1) = y \<and>
     year_start y + year_length y = (if y = 399 then 146097 else year_start (y + 1))) [0..399]"
  by code_simp


lemma year_of_day_bounds:
  assumes "0 \<le> doe" "doe < 146097"
  shows "0 \<le> year_of_day doe" "year_of_day doe \<le> 399" "year_start (year_of_day doe) \<le> doe"
    "doe < year_start (year_of_day doe) + year_length (year_of_day doe)"
proof -
  let ?y = "year_of_day doe"
  have all: "year_of_day (year_start y) = y \<and> year_of_day (year_start y + year_length y - 1) = y \<and>
    year_start y + year_length y = (if y = 399 then 146097 else year_start (y + 1))"
    if "0 \<le> y" "y \<le> 399" for y
    by (rule bspec [of "{0..399}" _ y, OF year_ends [unfolded list_all_iff set_upto]]) (simp add: that)
  note ends = all [THEN conjunct1] all [THEN conjunct2, THEN conjunct1] all [THEN conjunct2, THEN conjunct2]
  have "year_of_day 0 = 0" "year_of_day 146096 = 399" by code_simp+
  then show y0: "0 \<le> ?y" and y399: "?y \<le> 399"
    using year_of_day_mono [of 0 doe] year_of_day_mono [of doe 146096] assms by simp_all
  show "year_start ?y \<le> doe"
  proof (rule ccontr)
    assume less: "\<not> year_start ?y \<le> doe"
    then have "?y \<noteq> 0" using assms by (auto simp: year_start_def)
    then have "year_start (?y - 1) + year_length (?y - 1) = year_start ?y" using ends(3) [of "?y - 1"] y0 y399 by simp
    then have "year_of_day doe \<le> ?y - 1"
      using year_of_day_mono [of doe "year_start (?y - 1) + year_length (?y - 1) - 1"] ends(2) [of "?y - 1"]
        less assms y0 y399 \<open>?y \<noteq> 0\<close> by simp
    then show False by simp
  qed
  show "doe < year_start ?y + year_length ?y"
  proof (rule ccontr)
    assume less: "\<not> doe < year_start ?y + year_length ?y"
    then have "?y \<noteq> 399" using ends(3) [of ?y] assms y0 y399 by auto
    then have "year_start (?y + 1) \<le> doe" using ends(3) [of ?y] less y0 y399 by simp
    then have "?y + 1 \<le> ?y" using year_of_day_mono [of "year_start (?y + 1)" doe] ends(1) [of "?y + 1"] y0 y399
        \<open>?y \<noteq> 399\<close> year_start_nonneg [of "?y + 1"] by simp
    then show False by simp
  qed
qed

section \<open>Day numbers\<close>

text \<open>The day number, counted from the first of March of the year 0, of the first day of the year \<open>y\<close> that
  starts in March.\<close>

definition year_number :: "int \<Rightarrow> int" where
  "year_number y = 365 * y + y div 4 - y div 100 + y div 400"

lemma mod_zero_dvd: "k dvd m \<Longrightarrow> (n :: int) mod m = 0 \<Longrightarrow> n mod k = 0"
  by (simp only: mod_eq_0_iff_dvd) (rule dvd_trans)

lemma year_number_step: "year_number (y + 1) = year_number y + year_length y"
proof -
  have a: "(y + 1) mod 100 = 0 \<Longrightarrow> (y + 1) mod 4 = 0" by (rule mod_zero_dvd [of 4 100]) simp_all
  have b: "(y + 1) mod 400 = 0 \<Longrightarrow> (y + 1) mod 100 = 0" by (rule mod_zero_dvd [of 100 400]) simp_all
  have d: "(y + 1) div 4 = y div 4 + (if (y + 1) mod 4 = 0 then 1 else 0)"
    "(y + 1) div 100 = y div 100 + (if (y + 1) mod 100 = 0 then 1 else 0)"
    "(y + 1) div 400 = y div 400 + (if (y + 1) mod 400 = 0 then 1 else 0)" by (rule div_step; simp)+
  obtain q r s where q: "y div 4 = q" "y div 100 = r" "y div 400 = s" by simp
  show ?thesis unfolding year_number_def year_length_def leap_year_def d q
    by (cases "(y + 1) mod 4 = 0"; cases "(y + 1) mod 100 = 0"; cases "(y + 1) mod 400 = 0"; use a b in simp)
qed

lemma year_number_mono: "a \<le> b \<Longrightarrow> year_number a \<le> year_number b"
proof (induction b rule: int_ge_induct)
  case (step b)
  then show ?case using year_number_step [of b] by (simp add: year_length_def split: if_splits)
qed simp

definition day_of_year :: "int \<Rightarrow> int \<times> int \<Rightarrow> bool" where
  "day_of_year n = (\<lambda>(y, doy). n = year_number y + doy \<and> 0 \<le> doy \<and> doy < year_length y)"

lemma day_of_year_unique:
  assumes "day_of_year n (y, d)" "day_of_year n (y', d')"
  shows "y = y' \<and> d = d'"
proof -
  have no: "\<not> a < b" if "day_of_year n (a, c)" "day_of_year n (b, e)" for a b c e
    using that year_number_mono [of "a + 1" b] year_number_step [of a] by (auto simp: day_of_year_def)
  then have "y = y'" using assms by (meson linorder_neqE)
  then show ?thesis using assms by (simp add: day_of_year_def)
qed

lemma era_multiple:
  "k dvd 400 \<Longrightarrow> (n + era * 400) div k = n div k + era * (400 div k)"
  "k dvd 400 \<Longrightarrow> (n + era * 400) mod k = n mod (k :: int)"
proof -
  assume k: "k dvd 400"
  then obtain c where c: "400 = k * c" ..
  then have "k \<noteq> 0" "c \<noteq> 0" by auto
  have e: "n + era * 400 = n + (era * c) * k" by (simp only: c mult_ac)
  have q: "400 div k = c" unfolding c by (rule nonzero_mult_div_cancel_left) fact
  show "(n + era * 400) div k = n div k + era * (400 div k)"
    unfolding e q using div_mult_self1 [OF \<open>k \<noteq> 0\<close>, of n "era * c"] by (simp only: add.commute)
  show "(n + era * 400) mod k = n mod k" unfolding e by (rule mod_mult_self1)
qed

lemma year_number_era: "year_number (y + era * 400) = year_start y + era * 146097" if "0 \<le> y" "y < 400"
proof -
  have "y div 400 = 0" using that by (rule div_pos_pos_trivial)
  then show ?thesis by (simp add: year_number_def year_start_def era_multiple)
qed

lemma year_length_era: "year_length (y + era * 400) = year_length y"
proof -
  have "y + era * 400 + 1 = (y + 1) + era * 400" by simp
  then show ?thesis by (simp only: year_length_def leap_year_def era_multiple dvd_numeral_simp)
      (simp add: era_multiple del: add.assoc)
qed

lemma let_eq: "a = b \<Longrightarrow> f b = c \<Longrightarrow> Let a f = c"
  by simp

text \<open>Month and day within a year that starts in March.\<close>

definition month_of :: "int \<Rightarrow> int" where
  "month_of doy = (let mp = (5 * doy + 2) div 153 in mp + (if mp < 10 then 3 else - 9))"

definition day_of :: "int \<Rightarrow> int" where
  "day_of doy = doy - (153 * ((5 * doy + 2) div 153) + 2) div 5 + 1"

definition day_in_year :: "int \<Rightarrow> int \<Rightarrow> int" where
  "day_in_year m d = (153 * (m + (if m > 2 then - 3 else 9)) + 2) div 5 + d - 1"

lemma civil_from_days_split:
  obtains Y doy where "day_of_year (z + 719468) (Y, doy)"
    "civil_from_days z = (Y + (if month_of doy \<le> 2 then 1 else 0), month_of doy, day_of doy)"
proof -
  define n where "n = z + 719468"
  define era where "era = n div 146097"
  define doe where "doe = n - era * 146097"
  have doe: "0 \<le> doe" "doe < 146097" by (simp_all add: doe_def era_def minus_div_mult_eq_mod)
  define yoe where "yoe = year_of_day doe"
  note y = year_of_day_bounds [OF doe, folded yoe_def]
  define doy where "doy = doe - year_start yoe"
  have doy: "0 \<le> doy" "doy < year_length yoe" using y by (simp_all add: doy_def)
  have e: "(if n \<ge> 0 then n else n - 146096) sdiv 146097 = era"
    using sdiv_floor [of 146097 n] unfolding era_def by (simp cong: if_cong)
  have "day_of_year n (yoe + era * 400, doy)"
    using y doy by (simp add: day_of_year_def year_number_era year_length_era doy_def doe_def)
  moreover have "civil_from_days z
      = (yoe + era * 400 + (if month_of doy \<le> 2 then 1 else 0), month_of doy, day_of doy)"
  proof -
    have q: "doe sdiv 1460 = doe div 1460" "doe sdiv 36524 = doe div 36524" "doe sdiv 146096 = doe div 146096"
      "yoe sdiv 4 = yoe div 4" "yoe sdiv 100 = yoe div 100"
      by (rule sdiv_nonneg; use doe y in simp)+
    have "doe div 1460 \<le> doe" using doe by (simp add: div_le_self)
    moreover have "doe div 146096 \<le> doe div 36524"
      using doe zdiv_zmult2_eq [of 4 doe 36524] by (simp add: div_le_self)
    ultimately have "0 \<le> doe - doe div 1460 + doe div 36524 - doe div 146096" by simp
    then have yy: "(doe - doe sdiv 1460 + doe sdiv 36524 - doe sdiv 146096) sdiv 365 = yoe"
      by (simp add: q sdiv_nonneg yoe_def year_of_day_def)
    have ss: "doe - (365 * yoe + yoe sdiv 4 - yoe sdiv 100) = doy" by (simp add: q doy_def year_start_def)
    have m: "(5 * doy + 2) sdiv 153 = (5 * doy + 2) div 153" (is "_ = ?mp") by (rule sdiv_nonneg; use doy in simp)
    have d: "doy - (153 * ?mp + 2) sdiv 5 + 1 = day_of doy"
      unfolding day_of_def by (subst sdiv_nonneg) (use doy in simp_all)
    show ?thesis unfolding civil_from_days_def
      by (rule let_eq [OF n_def [symmetric]], rule let_eq [OF e], rule let_eq [OF doe_def [symmetric]],
          rule let_eq [OF yy], rule let_eq [OF refl], rule let_eq [OF ss], rule let_eq [OF m], rule let_eq [OF d],
          rule let_eq [OF month_of_def [unfolded Let_def, symmetric]]) (rule refl)
  qed
  ultimately show ?thesis using that by (simp add: n_def)
qed


section \<open>Months and days\<close>

lemma month_day_table:
  "list_all (\<lambda>doy. 1 \<le> month_of doy \<and> month_of doy \<le> 12 \<and> 1 \<le> day_of doy \<and> day_of doy \<le> 31 \<and>

     day_in_year (month_of doy) (day_of doy) = doy \<and>
     (month_of doy \<le> 2) = (306 \<le> doy) \<and>
     (doy < 365 \<longrightarrow> (month_of (doy + 1), day_of (doy + 1)) =
        (if day_of doy < (if month_of doy = 2 then 29 else month_length 0 (month_of doy))
         then (month_of doy, day_of doy + 1)
         else (month_of doy mod 12 + 1, 1)))) [0..365]"
  by code_simp

lemma day_month_table:
  "list_all (\<lambda>m. list_all (\<lambda>d. (d \<le> (if m = 2 then 29 else month_length 0 m) \<longrightarrow>
     0 \<le> day_in_year m d \<and> (m = 2 \<longrightarrow> day_in_year m d = d + 336) \<and> day_in_year m d < 366 \<and>
     (m \<noteq> 2 \<longrightarrow> day_in_year m d < 365) \<and>
     month_of (day_in_year m d) = m \<and> day_of (day_in_year m d) = d)) [1..31]) [1..12]"
  by code_simp


lemma day_month_row:
  assumes "1 \<le> m" "m \<le> 12" "1 \<le> d" "d \<le> 31" "d \<le> (if m = 2 then 29 else month_length 0 m)"
  shows "0 \<le> day_in_year m d \<and> (m = 2 \<longrightarrow> day_in_year m d = d + 336) \<and> day_in_year m d < 366 \<and>
    (m \<noteq> 2 \<longrightarrow> day_in_year m d < 365) \<and> month_of (day_in_year m d) = m \<and> day_of (day_in_year m d) = d"
proof -
  have "m \<in> set [1..12]" "d \<in> set [1..31]" using assms by simp_all
  with day_month_table show ?thesis using assms(5) unfolding list_all_iff by blast
qed

lemma month_of_bounds: "0 \<le> doy \<Longrightarrow> doy \<le> 365 \<Longrightarrow> 1 \<le> month_of doy \<and> month_of doy \<le> 12 \<and>
    1 \<le> day_of doy \<and> day_of doy \<le> 31 \<and> day_in_year (month_of doy) (day_of doy) = doy \<and>
    (month_of doy \<le> 2) = (306 \<le> doy)"
  using month_day_table by (simp add: list_all_iff)

lemma month_of_step: "0 \<le> doy \<Longrightarrow> doy < 365 \<Longrightarrow> (month_of (doy + 1), day_of (doy + 1)) =
    (if day_of doy < (if month_of doy = 2 then 29 else month_length 0 (month_of doy))
     then (month_of doy, day_of doy + 1) else (month_of doy mod 12 + 1, 1))"
  using month_day_table by (simp add: list_all_iff)

section \<open>Years that fit in sixteen bits\<close>

text \<open>The days from the first of March of the year -32768 to the end of the year 32767.\<close>

definition day_in_range :: "int \<Rightarrow> bool" where
  "day_in_range z = (- 12687734 \<le> z \<and> z < 11248738)"

lemma year_length_cases: "year_length y = 365 \<or> year_length y = 366"
  by (simp add: year_length_def)

lemma civil_in_range:
  assumes "day_in_range z"
  obtains Y doy where "day_of_year (z + 719468) (Y, doy)" "- 32768 \<le> Y" "Y \<le> 32767"
    "civil_from_days z = (Y + (if month_of doy \<le> 2 then 1 else 0), month_of doy, day_of doy)"
    "0 \<le> doy" "doy \<le> 365" "Y + (if month_of doy \<le> 2 then 1 else 0) \<le> 32767"
proof -
  obtain Y doy where Y: "day_of_year (z + 719468) (Y, doy)"
    "civil_from_days z = (Y + (if month_of doy \<le> 2 then 1 else 0), month_of doy, day_of doy)"
    by (rule civil_from_days_split)
  then have n: "z + 719468 = year_number Y + doy" "0 \<le> doy" "doy < year_length Y" by (simp_all add: day_of_year_def)
  have ends: "year_number (- 32768) = - 11968266" "year_number 32767 = 11967900" by code_simp+
  have lo: "- 32768 \<le> Y"
  proof (rule ccontr)
    assume "\<not> - 32768 \<le> Y"
    then have "year_number (Y + 1) \<le> year_number (- 32768)" by (intro year_number_mono) simp
    then show False using n assms ends by (simp add: year_number_step day_in_range_def)
  qed
  have hi: "Y \<le> 32767"
  proof (rule ccontr)
    assume "\<not> Y \<le> 32767"
    then have "year_number 32768 \<le> year_number Y" by (intro year_number_mono) simp
    moreover have "year_number 32768 = 11968266" by code_simp
    ultimately show False using n assms by (simp add: day_in_range_def)
  qed
  have d: "doy \<le> 365" using n year_length_cases [of Y] by auto
  moreover have "Y + (if month_of doy \<le> 2 then 1 else 0) \<le> 32767"
    using n assms ends hi month_of_bounds [of doy] d by (cases "Y = 32767") (auto simp: day_in_range_def)
  ultimately show ?thesis using that Y lo hi n(2) by blast
qed

lemma days_from_civil_number:
  assumes "Y = y - (if m \<le> 2 then 1 else 0)" "- 32768 \<le> Y" "Y \<le> 32767" "1 \<le> m" "0 \<le> day_in_year m d"
    "day_in_year m d \<le> 365"
  shows "days_from_civil y m d = year_number Y + day_in_year m d - 719468"
proof -
  define era where "era = Y div 400"
  define yoe where "yoe = Y - era * 400"
  have yoe: "0 \<le> yoe" "yoe < 400" "Y = yoe + era * 400" by (simp_all add: yoe_def era_def minus_div_mult_eq_mod)
  have a: "signed_take_bit 15 (y - (if m \<le> 2 then 1 else 0)) = Y"
    using assms(1-3) by (simp add: signed_take_bit_int_eq_self)
  have e: "(if Y \<ge> 0 then Y else Y - 399) sdiv 400 = era"
    using sdiv_floor [of 400 Y] unfolding era_def by (simp cong: if_cong)
  have doy: "(153 * (m + (if m > 2 then - 3 else 9)) + 2) sdiv 5 + d - 1 = day_in_year m d"
    unfolding day_in_year_def by (subst sdiv_nonneg) (use assms(4) in auto)
  have q: "yoe sdiv 4 = yoe div 4" "yoe sdiv 100 = yoe div 100" using yoe by (simp_all add: sdiv_nonneg)
  have "yoe div 4 \<le> 99" "0 \<le> yoe div 100" "0 \<le> yoe div 4" "yoe div 100 \<le> yoe" using yoe by (simp_all add: div_le_self)
  then have "0 \<le> yoe * 365 + yoe div 4 - yoe div 100 + day_in_year m d"
    "yoe * 365 + yoe div 4 - yoe div 100 + day_in_year m d < 2 ^ 32"
    using assms(5,6) yoe(1,2) by simp_all
  then have doe: "take_bit 32 (yoe * 365 + yoe sdiv 4 - yoe sdiv 100 + day_in_year m d)
      = year_start yoe + day_in_year m d"
    by (simp add: q take_bit_int_eq_self year_start_def)
  show ?thesis unfolding days_from_civil_def
    by (rule let_eq [OF a], rule let_eq [OF e], rule let_eq [OF yoe_def [symmetric]], rule let_eq [OF doy],
        rule let_eq [OF doe]) (use yoe in \<open>simp add: year_number_era\<close>)
qed

lemma days_of_civil:
  assumes "day_in_range z" "civil_from_days z = (y, m, d)"
  shows "days_from_civil y m d = z" "- 32768 \<le> y" "y \<le> 32767" "1 \<le> m" "m \<le> 12" "1 \<le> d" "d \<le> 31"
proof -
  obtain Y doy where Y: "day_of_year (z + 719468) (Y, doy)" "- 32768 \<le> Y" "Y \<le> 32767"
    "civil_from_days z = (Y + (if month_of doy \<le> 2 then 1 else 0), month_of doy, day_of doy)"
    "0 \<le> doy" "doy \<le> 365" "Y + (if month_of doy \<le> 2 then 1 else 0) \<le> 32767"
    using civil_in_range [OF assms(1)] .
  note b = month_of_bounds [OF Y(5,6)]
  have e: "y = Y + (if month_of doy \<le> 2 then 1 else 0)" "m = month_of doy" "d = day_of doy"
    using assms(2) Y(4) by auto
  show "days_from_civil y m d = z"
    using days_from_civil_number [of Y y m d] b Y(1-3,5,6) by (simp add: e day_of_year_def)
  show "- 32768 \<le> y" "y \<le> 32767" "1 \<le> m" "m \<le> 12" "1 \<le> d" "d \<le> 31" using b Y(2,7) by (auto simp: e)
qed

section \<open>Dates follow the calendar\<close>

lemma civil_next: "civil_from_days (z + 1) = next_date (civil_from_days z)"
proof -
  obtain Y doy where Y: "day_of_year (z + 719468) (Y, doy)"
    "civil_from_days z = (Y + (if month_of doy \<le> 2 then 1 else 0), month_of doy, day_of doy)"
    by (rule civil_from_days_split)
  obtain Y' doy' where Y': "day_of_year (z + 1 + 719468) (Y', doy')"
    "civil_from_days (z + 1) = (Y' + (if month_of doy' \<le> 2 then 1 else 0), month_of doy', day_of doy')"
    by (rule civil_from_days_split)
  have doy: "0 \<le> doy" "doy < year_length Y" using Y(1) by (simp_all add: day_of_year_def)
  have doy365: "doy \<le> 365" using doy year_length_cases [of Y] by auto
  note b = month_of_bounds [OF doy(1) doy365]
  have leap: "leap_year (Y + 1) = (year_length Y = 366)" by (simp add: year_length_def)
  show ?thesis
  proof (cases "doy + 1 < year_length Y")
    case True
    then have same: "Y' = Y" "doy' = doy + 1"
      using day_of_year_unique [OF Y'(1), of Y "doy + 1"] Y(1) by (auto simp: day_of_year_def)
    have "doy < 365" using True year_length_cases [of Y] by auto
    note step = month_of_step [OF doy(1) this]
    have b': "(month_of (doy + 1) \<le> 2) = (306 \<le> doy + 1)"
      using month_of_bounds [of "doy + 1"] doy \<open>doy < 365\<close> by simp
    have feb: "day_of doy < 29 \<and> (year_length Y = 366 \<or> day_of doy < 28)" if "month_of doy = 2"
    proof -
      have "day_in_year 2 (day_of doy) = doy" using b that by metis
      then have "day_of doy = doy - 336" by (simp add: day_in_year_def)
      then show ?thesis using True year_length_cases [of Y] by auto
    qed
    show ?thesis
    proof (cases "month_of doy = 2")
      case True
      then show ?thesis using Y(2) Y'(2) same step feb leap by (auto simp: month_length_def)
    next
      case False
      have dec: "month_of doy mod 12 + 1 = (if month_of doy < 12 then month_of doy + 1 else 1)"
        using b by (cases "month_of doy = 12") auto
      have len: "month_length Y (month_of doy) = month_length 0 (month_of doy)"
        "month_length (Y + 1) (month_of doy) = month_length 0 (month_of doy)"
        using False by (simp_all only: month_length_def if_False)
      show ?thesis
        using Y(2) Y'(2) same step b b' False by (auto simp: dec len split: if_splits)
    qed
  next
    case False
    have len: "0 < year_length (Y + 1)" using year_length_cases [of "Y + 1"] by auto
    have e: "doy = year_length Y - 1" using False doy by simp
    have same: "Y' = Y + 1" "doy' = 0"
      using day_of_year_unique [OF Y'(1), of "Y + 1" 0] Y(1) e len by (auto simp: day_of_year_def year_number_step)
    have "month_of 0 = 3" "day_of 0 = 1" "month_of 365 = 2" "day_of 365 = 29" "month_of 364 = 2" "day_of 364 = 28"
      by code_simp+
    then show ?thesis using Y(2) Y'(2) same e leap year_length_cases [of Y] by (auto simp: month_length_def)
  qed
qed


section \<open>Times\<close>

definition pt_date :: "ptime \<Rightarrow> int \<times> int \<times> int" where
  "pt_date p = (sint (pt_years p), uint (pt_months p), uint (pt_days p))"

definition pt_valid :: "ptime \<Rightarrow> bool" where
  "pt_valid p = (case pt_date p of (y, m, d) \<Rightarrow>
     - 32768 \<le> y - (if m \<le> 2 then 1 else 0) \<and> 1 \<le> m \<and> m \<le> 12 \<and> 1 \<le> d \<and> d \<le> month_length y m \<and>
     pt_hours p < 24 \<and> pt_minutes p < 60 \<and> pt_seconds p < 60)"

lemma day_in_range_floor: "day_in_range (t div 86400) \<Longrightarrow> pt_day t = t div 86400"
  by (rule pt_day_floor) (simp_all add: day_in_range_def)

lemma sint_of_int16: "- 32768 \<le> y \<Longrightarrow> y \<le> 32767 \<Longrightarrow> sint (word_of_int y :: u16) = y"
  by (simp add: sint_sbintrunc' signed_take_bit_int_eq_self)

lemma uint_of_int8: "0 \<le> n \<Longrightarrow> n < 256 \<Longrightarrow> uint (word_of_int n :: u8) = n"
  by (simp add: uint_word_of_int)

lemma pt_of_time_t_fields:
  assumes "day_in_range (t div 86400)"
  shows "pt_date (pt_of_time_t t) = civil_from_days (t div 86400)"
    "uint (pt_hours (pt_of_time_t t)) = t mod 86400 div 3600"
    "uint (pt_minutes (pt_of_time_t t)) = t mod 86400 div 60 mod 60"
    "uint (pt_seconds (pt_of_time_t t)) = t mod 86400 mod 60"
proof -
  obtain y m d where c: "civil_from_days (t div 86400) = (y, m, d)" by (cases "civil_from_days (t div 86400)")
  note b = days_of_civil [OF assms c]
  define r where "r = t mod 86400"
  have r: "0 \<le> r" "r < 86400" "t - t div 86400 * 86400 = r" by (simp_all add: r_def minus_div_mult_eq_mod)
  have q: "r div 60 div 60 = r div 3600" "r div 3600 < 24" "r div 3600 mod 24 = r div 3600"
    using r by (simp_all flip: zdiv_zmult2_eq)
  have p: "pt_of_time_t t = \<lparr>pt_years = word_of_int y, pt_months = word_of_int m, pt_days = word_of_int d,
      pt_hours = word_of_int (r div 3600), pt_minutes = word_of_int (r div 60 mod 60),
      pt_seconds = word_of_int (r mod 60)\<rparr>"
    using r q by (simp add: pt_of_time_t_def day_in_range_floor [OF assms] c day_seconds_def sdiv_nonneg smod_nonneg)
  have lt: "r div 60 mod 60 < 256" "r mod 60 < 256"
    using pos_mod_bound [of 60 "r div 60"] pos_mod_bound [of 60 r] by linarith+
  show "pt_date (pt_of_time_t t) = civil_from_days (t div 86400)"
    using b by (simp add: p c pt_date_def sint_of_int16 uint_of_int8)
  show "uint (pt_hours (pt_of_time_t t)) = t mod 86400 div 3600"
    unfolding p r_def [symmetric] by (simp only: ptime.simps) (rule uint_of_int8; use q r in simp)
  show "uint (pt_minutes (pt_of_time_t t)) = t mod 86400 div 60 mod 60"
    using lt by (simp add: p uint_of_int8 r_def)
  show "uint (pt_seconds (pt_of_time_t t)) = t mod 86400 mod 60"
    using lt by (simp add: p uint_of_int8 r_def)
qed

lemma seconds_of_day: "r div 3600 * 3600 + (r div 60 mod 60) * 60 + r mod 60 = (r :: int)"
proof -
  define a b where ab: "a = r div 60" "b = a div 60"
  have "a * 60 + r mod 60 = r" "b * 60 + a mod 60 = a" unfolding ab by (rule div_mult_mod_eq)+
  moreover have "r div 3600 = b" unfolding ab by (simp flip: zdiv_zmult2_eq)
  ultimately show ?thesis by (simp flip: ab)
qed

lemma time_of_time:
  assumes "day_in_range (t div 86400)"
  shows "pt_to_time_t (pt_of_time_t t) = t"
proof -
  obtain y m d where c: "civil_from_days (t div 86400) = (y, m, d)" by (cases "civil_from_days (t div 86400)")
  have "pt_date (pt_of_time_t t) = (y, m, d)" using pt_of_time_t_fields(1) [OF assms] c by simp
  then have f: "sint (pt_years (pt_of_time_t t)) = y" "uint (pt_months (pt_of_time_t t)) = m"
    "uint (pt_days (pt_of_time_t t)) = d" by (simp_all add: pt_date_def)
  define r where "r = t mod 86400"
  have "t div 86400 * 86400 + r = t" unfolding r_def by (rule div_mult_mod_eq)
  then show ?thesis
    unfolding pt_to_time_t_def f days_of_civil(1) [OF assms c] pt_of_time_t_fields(2-) [OF assms] day_seconds_def
      r_def [symmetric]
    using seconds_of_day [of r] by simp
qed

lemma start_of_day:
  assumes "day_in_range (t div 86400)"
  shows "pt_to_time_t ((pt_of_time_t t)\<lparr>pt_hours := 0, pt_minutes := 0, pt_seconds := 0\<rparr>) = t div 86400 * 86400"
proof -
  define r where "r = t mod 86400"
  have "pt_to_time_t p = pt_to_time_t (p\<lparr>pt_hours := 0, pt_minutes := 0, pt_seconds := 0\<rparr>)
      + uint (pt_seconds p) + (uint (pt_minutes p) + uint (pt_hours p) * 60) * 60" for p
    by (simp add: pt_to_time_t_def)
  from this [of "pt_of_time_t t", unfolded time_of_time [OF assms] pt_of_time_t_fields(2-) [OF assms], folded r_def]
  have "t = pt_to_time_t ((pt_of_time_t t)\<lparr>pt_hours := 0, pt_minutes := 0, pt_seconds := 0\<rparr>) + r"
    using seconds_of_day [of r] by simp
  moreover have "t div 86400 * 86400 + r = t" unfolding r_def by (rule div_mult_mod_eq)
  ultimately show ?thesis by simp
qed

lemma civil_iterate: "civil_from_days (z + int n) = (next_date ^^ n) (civil_from_days z)"
proof (induction n)
  case (Suc n)
  have "civil_from_days (z + int (Suc n)) = civil_from_days (z + int n + 1)" by (rule arg_cong) simp
  then show ?case using Suc by (simp add: civil_next)
qed simp

lemma civil_epoch: "civil_from_days 0 = (1970, 1, 1)"
  by code_simp

text \<open>C27: The date of a time agrees with the calendar: the date of any second of the \<open>n\<close>th day after
  the first of January 1970 is the one reached from that date in \<open>n\<close> steps to the next day, and \<open>n\<close> steps
  to the next day lead from the date of the \<open>n\<close>th day before it to the first of January 1970, where the next
  day follows the lengths of the months and the leap years of the calendar.\<close>

theorem dates_follow_calendar:
  assumes "0 \<le> s" "s < 86400"
  shows "(int n < 11248738 \<longrightarrow> pt_date (pt_of_time_t (int n * 86400 + s)) = (next_date ^^ n) (1970, 1, 1)) \<and>
    (int n \<le> 12687734 \<longrightarrow> (next_date ^^ n) (pt_date (pt_of_time_t (s - int n * 86400))) = (1970, 1, 1))"
proof (intro conjI impI)
  have q: "(int n * 86400 + s) div 86400 = int n" "(s - int n * 86400) div 86400 = - int n"
    using assms int_div_pos_eq [of "s - int n * 86400" 86400 "- int n" s]
      int_div_pos_eq [of "int n * 86400 + s" 86400 "int n" s] by simp_all
  show "pt_date (pt_of_time_t (int n * 86400 + s)) = (next_date ^^ n) (1970, 1, 1)" if "int n < 11248738"
    using pt_of_time_t_fields(1) [of "int n * 86400 + s"] civil_iterate [of 0 n] that
    by (simp add: q day_in_range_def civil_epoch)
  show "(next_date ^^ n) (pt_date (pt_of_time_t (s - int n * 86400))) = (1970, 1, 1)" if "int n \<le> 12687734"
    using pt_of_time_t_fields(1) [of "s - int n * 86400"] civil_iterate [of "- int n" n] that
    by (simp add: q day_in_range_def civil_epoch)
qed

theorem dates_follow_calendar_witness:
  "pt_date (pt_of_time_t (3 * 86400 + 7)) = (next_date ^^ 3) (1970, 1, 1) \<and>
   (next_date ^^ 3) (pt_date (pt_of_time_t (7 - 3 * 86400))) = (1970, 1, 1)"
  using dates_follow_calendar [of 7 3] by simp

lemma time_of_date:
  assumes "pt_valid p"
  shows "pt_of_time_t (pt_to_time_t p) = p"
proof -
  obtain yw mw dw h mi se where p: "p = \<lparr>pt_years = yw, pt_months = mw, pt_days = dw, pt_hours = h,
      pt_minutes = mi, pt_seconds = se\<rparr>" by (cases p)
  define y m d where ymd: "y = sint yw" "m = uint mw" "d = uint dw"
  define Y where "Y = y - (if m \<le> 2 then 1 else 0)"
  define doy where "doy = day_in_year m d"
  have v: "- 32768 \<le> Y" "1 \<le> m" "m \<le> 12" "1 \<le> d" "d \<le> month_length y m" "h < 24" "mi < 60" "se < 60"
    using assms by (auto simp: pt_valid_def p pt_date_def ymd Y_def)
  have "- (2 ^ 15) \<le> y" "y < 2 ^ 15" unfolding ymd using sint_range_size [of yw] by (simp_all add: word_size)
  then have y: "- 32768 \<le> y" "y \<le> 32767" "Y \<le> 32767" by (simp_all add: Y_def)
  have "d \<le> 31" using v(5) by (auto simp: month_length_def split: if_splits)
  have dm: "d \<le> (if m = 2 then 29 else month_length 0 m)" using v(5) by (auto simp: month_length_def split: if_splits)
  have t: "0 \<le> doy" "m = 2 \<Longrightarrow> doy = d + 336" "doy < 366" "m \<noteq> 2 \<Longrightarrow> doy < 365" "month_of doy = m" "day_of doy = d"
    using day_month_row [OF v(2-4) \<open>d \<le> 31\<close> dm] by (simp_all add: doy_def)
  have len: "doy < year_length Y"
    using t v(5) year_length_cases [of Y] by (cases "m = 2") (auto simp: Y_def year_length_def month_length_def)
  define N where "N = year_number Y + doy - 719468"
  have dn: "days_from_civil y m d = N"
    using days_from_civil_number [OF Y_def v(1) y(3) v(2), of d] t by (simp add: doy_def N_def)
  have day: "day_of_year (N + 719468) (Y, doy)" using t len by (simp add: day_of_year_def N_def)
  have civil: "civil_from_days N = (y, m, d)"
  proof -
    obtain Y' doy' where Y': "day_of_year (N + 719468) (Y', doy')"
      "civil_from_days N = (Y' + (if month_of doy' \<le> 2 then 1 else 0), month_of doy', day_of doy')"
      by (rule civil_from_days_split)
    then have "Y' = Y \<and> doy' = doy" using day day_of_year_unique by blast
    then show ?thesis using Y'(2) t by (simp add: Y_def)
  qed
  have range: "day_in_range N"
  proof -
    have ends: "year_number (- 32768) = - 11968266" "year_number 32767 = 11967900" by code_simp+
    have "Y = 32767 \<Longrightarrow> doy < 306"
      using month_of_bounds [of doy] t y by (cases "m \<le> 2") (auto simp: Y_def)
    moreover have "Y \<noteq> 32767 \<Longrightarrow> year_number (Y + 1) \<le> year_number 32767" using y by (intro year_number_mono) simp
    ultimately show ?thesis
      using year_number_mono [OF v(1)] ends t(1) len
      by (cases "Y = 32767") (simp_all add: day_in_range_def N_def year_number_step)
  qed
  have u: "uint h < 24" "uint mi < 60" "uint se < 60"
    using v(6-8) by (simp_all add: word_less_def)
  define r where "r = uint se + (uint mi + uint h * 60) * 60"
  have r: "0 \<le> r" "r < 86400" using u by (simp_all add: r_def)
  have tt: "pt_to_time_t p = N * 86400 + r"
    using dn by (simp add: pt_to_time_t_def p ymd day_seconds_def r_def)
  have q: "(N * 86400 + r) div 86400 = N" "(N * 86400 + r) mod 86400 = r" using r by simp_all
  note f = pt_of_time_t_fields [of "N * 86400 + r", unfolded q, OF range]
  have split: "r div 3600 = uint h" "r div 60 mod 60 = uint mi" "r mod 60 = uint se"
  proof -
    have r60: "r = 60 * (uint mi + uint h * 60) + uint se" by (simp add: r_def)
    show "r mod 60 = uint se" by (rule int_mod_pos_eq [OF r60]) (use u in simp_all)
    have "r div 60 = uint mi + uint h * 60" by (rule int_div_pos_eq [OF r60]) (use u in simp_all)
    then show "r div 60 mod 60 = uint mi" using u by simp
    have "r div 3600 = r div 60 div 60" by (simp flip: zdiv_zmult2_eq)
    then show "r div 3600 = uint h" using u \<open>r div 60 = _\<close> by simp
  qed
  have sw: "v = w" if "sint v = sint w" for v w :: u16 using that by (rule signed_word_eqI)
  show ?thesis
    unfolding tt by (rule ptime.equality)
      (use f(1) f(2-) [unfolded split] in \<open>auto simp: civil p ymd pt_date_def intro: sw unsigned_word_eqI\<close>)
qed

text \<open>The day of the week is a number from 0 for Sunday to 6 for Saturday: the first of January
  1970 is a Thursday and each day has the number after that of the day before it, also before 1970.\<close>

lemma week_day_of_time:
  assumes "day_in_range (t div 86400)"
  shows "pt_week_day (pt_of_time_t t) = (t div 86400 + 4) mod 7"
proof -
  define z where "z = t div 86400"
  have e: "(if z \<ge> - 4 then (z + 4) smod 7 else (z + 5) smod 7 + 6) = (z + 4) mod 7"
  proof (cases "z \<ge> - 4")
    case False
    have "(z + 5) smod 7 + 6 = (z + 4) mod 7"
    proof -
      have "(z + 5) smod 7 = - ((- z - 5) mod 7)"
        using False by (cases "z = - 5") (simp_all add: signed_modulo_int_def sgn_if)
      then show ?thesis by presburger
    qed
    then show ?thesis using False by simp
  qed (simp add: smod_nonneg)
  show ?thesis using assms e
    by (simp only: pt_week_day_def Let_def time_of_time day_in_range_floor z_def)
qed

text \<open>C28: Round trip of times and dates: converting a time to a date and time of the day and back gives the
  time, for every time from the first of March of the year -32768 to the end of the year 32767, the times
  whose year fits in the sixteen bits of the class; and a valid date and time of the day in that range, converted to
  a time and back, is the same date and time of the day.\<close>

theorem time_date_roundtrip:
  "(day_in_range (t div 86400) \<longrightarrow> pt_to_time_t (pt_of_time_t t) = t) \<and>
   (pt_valid p \<longrightarrow> pt_of_time_t (pt_to_time_t p) = p)"
  by (simp add: time_of_time time_of_date)

theorem time_date_roundtrip_witness:
  "pt_to_time_t (pt_of_time_t 951782399) = 951782399 \<and>
   pt_of_time_t (pt_to_time_t \<lparr>pt_years = 2024, pt_months = 2, pt_days = 29, pt_hours = 23, pt_minutes = 59,
     pt_seconds = 58\<rparr>) = \<lparr>pt_years = 2024, pt_months = 2, pt_days = 29, pt_hours = 23, pt_minutes = 59,
     pt_seconds = 58\<rparr>"
  using time_date_roundtrip [of 951782399 "\<lparr>pt_years = 2024, pt_months = 2, pt_days = 29, pt_hours = 23,
      pt_minutes = 59, pt_seconds = 58\<rparr>"]
  by (simp add: day_in_range_def pt_valid_def pt_date_def month_length_def leap_year_def)

end
