(* ===== verification/Timer_Service.thy ===== *)
theory Timer_Service
  imports Partitioned_Time Intrusive_Forward_List
begin

text \<open>
  Timers and the service that triggers them (infra/timer: Timer.cpp, TimerService.cpp, TimerLimitedRepeating.cpp,
  TimerLimitedRepeatingWithClosingAction.cpp, TimerAlternating.cpp, TimerAlarm.cpp). A service is a record of
  the fields of \<open>TimerService\<close> with its timers by their addresses; the derived class extends the record, and its
  overrides are a record of functions that the operations call. The list of scheduled timers is the sequence
  that \<open>IntrusiveForwardList\<close> was shown to implement. Times and durations are integers; the bounds of the
  64-bit type are stated where the code looks at them. What an action does to the service is a
  parameter of the operations that call actions.
\<close>

section \<open>Timers\<close>

definition time_max :: int where
  "time_max = 2 ^ 63 - 1"

text \<open>A function object that holds an action of the client, or \<open>infra::emptyFunction\<close>.\<close>

datatype 'f action = Act 'f | Empty_function

text \<open>The classes of timers with the fields of each class. The index of an alternating timer is true for 1.\<close>

datatype 'f timer_kind =
    Single_shot
  | Repeating int
  | Limited int u32
  | Limited_closing int int "'f action option"
  | Alternating int int "'f action option" "'f action option" bool int
  | Alarm int

record 'f timer =
  tm_kind :: "'f timer_kind"
  tm_action :: "'f action option"
  tm_next :: int

text \<open>\<open>Action()\<close>, as the classes override it.\<close>

definition tm_Action :: "'f timer \<Rightarrow> 'f action option" where
  "tm_Action tm = (case tm_kind tm of
     Limited_closing p n c \<Rightarrow> if n > 0 then tm_action tm else c
   | Alternating d1 d2 a1 a2 i start \<Rightarrow> if i then a2 else a1
   | _ \<Rightarrow> tm_action tm)"

definition tm_Armed :: "'f timer \<Rightarrow> bool" where
  "tm_Armed tm = (tm_action tm \<noteq> None)"

lemma tm_Armed_next [simp]: "tm_Armed (tm\<lparr>tm_next := x\<rparr>) = tm_Armed tm"
  by (simp add: tm_Armed_def)

definition tm_construct :: "'f timer_kind \<Rightarrow> 'f timer" where
  "tm_construct k = \<lparr>tm_kind = k, tm_action = None, tm_next = 0\<rparr>"

section \<open>The service\<close>

text \<open>\<open>sv_failed\<close> is not a field of the class: it tells that the assertion of \<open>SetNextTriggerTime\<close> has failed or an
  empty function was called, which stops the program. The registry of all services, by which a timer finds its own, is left
  out. Dividing by a period of zero is not told apart: where it matters, periods are assumed to be positive.\<close>

record 'f service =
  sv_timers :: "nat \<Rightarrow> 'f timer"
  sv_scheduled :: "nat list"
  sv_iterator :: "nat option"
  sv_next :: int
  sv_hold :: bool
  sv_update :: bool
  sv_failed :: bool

text \<open>The virtual functions of a derived class, and how many ticks its clock makes in a second.\<close>

record 's service_class =
  v_changed :: "'s \<Rightarrow> 's"
  v_now :: "'s \<Rightarrow> int"
  v_resolution :: "'s \<Rightarrow> int"
  v_rate :: int

definition sv_construct :: "('f, 'z) service_scheme \<Rightarrow> ('f, 'z) service_scheme" where
  "sv_construct s = s\<lparr>sv_scheduled := [], sv_iterator := None, sv_next := time_max, sv_hold := False, sv_update := False,
     sv_failed := False\<rparr>"

definition earliest :: "(nat \<Rightarrow> int) \<Rightarrow> nat list \<Rightarrow> int" where
  "earliest f ts = fold (\<lambda>t m. min m (f t)) ts time_max"

abbreviation sv_trigger :: "('f, 'z) service_scheme \<Rightarrow> nat \<Rightarrow> int" where
  "sv_trigger s t \<equiv> tm_next (sv_timers s t)"

definition sv_ComputeNextTrigger :: "('f, 'z) service_scheme service_class \<Rightarrow> ('f, 'z) service_scheme \<Rightarrow>
    ('f, 'z) service_scheme" where
  "sv_ComputeNextTrigger V s =
    (if \<not> sv_hold s then
       let s1 = s\<lparr>sv_update := False\<rparr>;
           oldTrigger = sv_next s1;
           s2 = s1\<lparr>sv_next := earliest (sv_trigger s1) (sv_scheduled s1)\<rparr>
       in if sv_next s2 \<noteq> oldTrigger then v_changed V s2 else s2
     else s\<lparr>sv_update := True\<rparr>)"

definition sv_RegisterTimer :: "('f, 'z) service_scheme service_class \<Rightarrow> nat \<Rightarrow> ('f, 'z) service_scheme \<Rightarrow>
    ('f, 'z) service_scheme" where
  "sv_RegisterTimer V t s =
    (let s1 = s\<lparr>sv_scheduled := fl_spec (Fl_push_front t) (sv_scheduled s)\<rparr>
     in if sv_trigger s1 t < sv_next s1 then v_changed V (s1\<lparr>sv_next := sv_trigger s1 t\<rparr>) else s1)"

text \<open>The node behind a node of a list.\<close>

fun next_node :: "nat \<Rightarrow> nat list \<Rightarrow> nat option" where
  "next_node t [] = None"
| "next_node t (x # xs) = (if x = t then (case xs of [] \<Rightarrow> None | y # ys \<Rightarrow> Some y) else next_node t xs)"

definition sv_UnregisterTimer :: "('f, 'z) service_scheme service_class \<Rightarrow> nat \<Rightarrow> int \<Rightarrow>
    ('f, 'z) service_scheme \<Rightarrow> ('f, 'z) service_scheme" where
  "sv_UnregisterTimer V t oldTriggerTime s =
    (let s1 = (if sv_iterator s = Some t then s\<lparr>sv_iterator := next_node t (sv_scheduled s)\<rparr> else s);
         s2 = s1\<lparr>sv_scheduled := fl_spec (Fl_erase_slow t) (sv_scheduled s1)\<rparr>
     in if oldTriggerTime = sv_next s2 then sv_ComputeNextTrigger V s2 else s2)"

definition sv_UpdateTriggerTime :: "('f, 'z) service_scheme service_class \<Rightarrow> nat \<Rightarrow> int \<Rightarrow>
    ('f, 'z) service_scheme \<Rightarrow> ('f, 'z) service_scheme" where
  "sv_UpdateTriggerTime V t oldTriggerTime s =
    (if sv_next s = oldTriggerTime \<or> sv_trigger s t < sv_next s then sv_ComputeNextTrigger V s else s)"

section \<open>Operations of all timers\<close>

definition sv_put :: "nat \<Rightarrow> ('f timer \<Rightarrow> 'f timer) \<Rightarrow> ('f, 'z) service_scheme \<Rightarrow> ('f, 'z) service_scheme" where
  "sv_put t g s = s\<lparr>sv_timers := (sv_timers s)(t := g (sv_timers s t))\<rparr>"

definition tm_Cancel :: "('f, 'z) service_scheme service_class \<Rightarrow> nat \<Rightarrow> ('f, 'z) service_scheme \<Rightarrow>
    ('f, 'z) service_scheme" where
  "tm_Cancel V t s =
    (let s1 = (if tm_Armed (sv_timers s t) then sv_UnregisterTimer V t (sv_trigger s t) s else s)
     in sv_put t (tm_next_update (\<lambda>_. 0) \<circ> tm_action_update (\<lambda>_. None)) s1)"

definition tm_SetNextTriggerTime :: "('f, 'z) service_scheme service_class \<Rightarrow> nat \<Rightarrow> int \<Rightarrow> 'f action option \<Rightarrow>
    ('f, 'z) service_scheme \<Rightarrow> ('f, 'z) service_scheme" where
  "tm_SetNextTriggerTime V t time action s =
    (let s0 = (if action = None then s\<lparr>sv_failed := True\<rparr> else s);
         oldTriggerTime = sv_trigger s0 t;
         s1 = sv_put t (tm_next_update (\<lambda>_. time)) s0;
         s2 = (if \<not> tm_Armed (sv_timers s1 t) then sv_RegisterTimer V t s1
               else sv_UpdateTriggerTime V t oldTriggerTime s1)
     in sv_put t (tm_action_update (\<lambda>_. action)) s2)"

section \<open>The classes of timers\<close>

definition ts_start_at :: "('f, 'z) service_scheme service_class \<Rightarrow> nat \<Rightarrow> int \<Rightarrow> 'f action \<Rightarrow>
    ('f, 'z) service_scheme \<Rightarrow> ('f, 'z) service_scheme" where
  "ts_start_at V t time action s =
    (if time < time_max - v_resolution V s then tm_SetNextTriggerTime V t (time + v_resolution V s) (Some action) s
     else tm_Cancel V t s)"

definition ts_start_for :: "('f, 'z) service_scheme service_class \<Rightarrow> nat \<Rightarrow> int \<Rightarrow> 'f action \<Rightarrow>
    ('f, 'z) service_scheme \<Rightarrow> ('f, 'z) service_scheme" where
  "ts_start_for V t duration action s =
    (if v_now V s + v_resolution V s < time_max - duration then
       tm_SetNextTriggerTime V t (v_now V s + duration + v_resolution V s) (Some action) s
     else s)"

definition tr_set_period :: "int \<Rightarrow> 'f timer_kind \<Rightarrow> 'f timer_kind" where
  "tr_set_period d k = (case k of Repeating p \<Rightarrow> Repeating d | Limited p n \<Rightarrow> Limited d n
     | Limited_closing p n c \<Rightarrow> Limited_closing d n c | _ \<Rightarrow> k)"

definition tr_period :: "'f timer_kind \<Rightarrow> int" where
  "tr_period k = (case k of Repeating p \<Rightarrow> p | Limited p n \<Rightarrow> p | Limited_closing p n c \<Rightarrow> p | _ \<Rightarrow> 0)"

definition tr_StartTimer :: "('f, 'z) service_scheme service_class \<Rightarrow> nat \<Rightarrow> int \<Rightarrow> 'f action \<Rightarrow>
    ('f, 'z) service_scheme \<Rightarrow> ('f, 'z) service_scheme" where
  "tr_StartTimer V t duration action s =
    (let s1 = sv_put t (tm_kind_update (tr_set_period duration)) s
     in tm_SetNextTriggerTime V t (v_now V s1 + tr_period (tm_kind (sv_timers s1 t)) + v_resolution V s1) (Some action) s1)"

definition tr_ComputeNextTriggerTime :: "('f, 'z) service_scheme service_class \<Rightarrow> nat \<Rightarrow>
    ('f, 'z) service_scheme \<Rightarrow> ('f, 'z) service_scheme" where
  "tr_ComputeNextTriggerTime V t s =
    (let now = max (v_now V s) (sv_trigger s t);
         period = tr_period (tm_kind (sv_timers s t));
         diff = (now - sv_trigger s t) smod period
     in tm_SetNextTriggerTime V t (now - diff + period) (tm_Action (sv_timers s t)) s)"

text \<open>\<open>TimerRepeating\<close> and \<open>TimerLimitedRepeating\<close> can trigger an action immediately, which the
  parameter \<open>run\<close> does.\<close>

definition tr_Start_immediately :: "('f, 'z) service_scheme service_class \<Rightarrow>
    ('f action \<Rightarrow> ('f, 'z) service_scheme \<Rightarrow> ('f, 'z) service_scheme) \<Rightarrow> nat \<Rightarrow> int \<Rightarrow> 'f action \<Rightarrow>
    ('f, 'z) service_scheme \<Rightarrow> ('f, 'z) service_scheme" where
  "tr_Start_immediately V run t duration action s = run action (tr_StartTimer V t duration action s)"

definition tl_Start :: "('f, 'z) service_scheme service_class \<Rightarrow> nat \<Rightarrow> u32 \<Rightarrow> int \<Rightarrow> 'f action \<Rightarrow>
    ('f, 'z) service_scheme \<Rightarrow> ('f, 'z) service_scheme" where
  "tl_Start V t aHowMany duration action s =
    (let s1 = sv_put t (tm_kind_update (\<lambda>k. Limited (tr_period k) aHowMany)) s
     in if aHowMany > 0 then tr_StartTimer V t duration action s1 else tm_Cancel V t s1)"

definition tl_Start_immediately :: "('f, 'z) service_scheme service_class \<Rightarrow>
    ('f action \<Rightarrow> ('f, 'z) service_scheme \<Rightarrow> ('f, 'z) service_scheme) \<Rightarrow> nat \<Rightarrow> u32 \<Rightarrow> int \<Rightarrow> 'f action \<Rightarrow>
    ('f, 'z) service_scheme \<Rightarrow> ('f, 'z) service_scheme" where
  "tl_Start_immediately V run t aHowMany duration action s =
    (let atLeastOnce = aHowMany > 0;
         howManyRemaining = (if atLeastOnce then aHowMany - 1 else 0);
         s1 = tl_Start V t howManyRemaining duration action s
     in if atLeastOnce then run action s1 else s1)"

definition tl_howMany :: "'f timer_kind \<Rightarrow> u32" where
  "tl_howMany k = (case k of Limited p n \<Rightarrow> n | _ \<Rightarrow> 0)"

definition tl_ComputeNextTriggerTime :: "('f, 'z) service_scheme service_class \<Rightarrow> nat \<Rightarrow>
    ('f, 'z) service_scheme \<Rightarrow> ('f, 'z) service_scheme" where
  "tl_ComputeNextTriggerTime V t s =
    (let s1 = sv_put t (tm_kind_update (\<lambda>k. Limited (tr_period k) (tl_howMany k - 1))) s
     in if tl_howMany (tm_kind (sv_timers s1 t)) > 0 then tr_ComputeNextTriggerTime V t s1 else tm_Cancel V t s1)"

definition tc_Start :: "('f, 'z) service_scheme service_class \<Rightarrow>
    ('f action \<Rightarrow> ('f, 'z) service_scheme \<Rightarrow> ('f, 'z) service_scheme) \<Rightarrow> nat \<Rightarrow> int \<Rightarrow> int \<Rightarrow> 'f action \<Rightarrow> 'f action \<Rightarrow>
    ('f, 'z) service_scheme \<Rightarrow> ('f, 'z) service_scheme" where
  "tc_Start V run t aHowMany duration action closingAction s =
    (let s1 = sv_put t (tm_kind_update (\<lambda>k. Limited_closing (tr_period k) aHowMany (Some closingAction))) s
     in if aHowMany > 0 then tr_StartTimer V t duration action s1
        else run closingAction (tm_Cancel V t s1))"

definition tc_count_down :: "'f timer_kind \<Rightarrow> 'f timer_kind" where
  "tc_count_down k = (case k of Limited_closing p n c \<Rightarrow> Limited_closing p (n - 1) c | _ \<Rightarrow> k)"

definition tc_howMany :: "'f timer_kind \<Rightarrow> int" where
  "tc_howMany k = (case k of Limited_closing p n c \<Rightarrow> n | _ \<Rightarrow> 0)"

definition tc_ComputeNextTriggerTime :: "('f, 'z) service_scheme service_class \<Rightarrow> nat \<Rightarrow>
    ('f, 'z) service_scheme \<Rightarrow> ('f, 'z) service_scheme" where
  "tc_ComputeNextTriggerTime V t s =
    (let s1 = sv_put t (tm_kind_update tc_count_down) s
     in if tc_howMany (tm_kind (sv_timers s1 t)) \<ge> 0 then tr_ComputeNextTriggerTime V t s1 else tm_Cancel V t s1)"

definition ta_advance :: "'f timer_kind \<Rightarrow> 'f timer_kind" where
  "ta_advance k = (case k of Alternating d1 d2 a1 a2 i start \<Rightarrow>
      Alternating d1 d2 a1 a2 (\<not> i) (start + (if \<not> i then d2 else d1)) | _ \<Rightarrow> k)"

definition ta_triggerStart :: "'f timer_kind \<Rightarrow> int" where
  "ta_triggerStart k = (case k of Alternating d1 d2 a1 a2 i start \<Rightarrow> start | _ \<Rightarrow> 0)"

definition ta_ComputeNextTriggerTime :: "('f, 'z) service_scheme service_class \<Rightarrow> nat \<Rightarrow>
    ('f, 'z) service_scheme \<Rightarrow> ('f, 'z) service_scheme" where
  "ta_ComputeNextTriggerTime V t s =
    (let s1 = sv_put t (tm_kind_update ta_advance) s
     in tm_SetNextTriggerTime V t (ta_triggerStart (tm_kind (sv_timers s1 t))) (Some Empty_function) s1)"

definition ta_Start :: "('f, 'z) service_scheme service_class \<Rightarrow> nat \<Rightarrow> int \<Rightarrow> 'f action \<Rightarrow> int \<Rightarrow> 'f action \<Rightarrow>
    ('f, 'z) service_scheme \<Rightarrow> ('f, 'z) service_scheme" where
  "ta_Start V t duration1 action1 duration2 action2 s =
    ta_ComputeNextTriggerTime V t (sv_put t (tm_kind_update (\<lambda>k.
      Alternating duration1 duration2 (Some action1) (Some action2) True (v_now V s + v_resolution V s))) s)"

definition al_StartOfDay :: "int \<Rightarrow> int \<Rightarrow> int" where
  "al_StartOfDay rate time = pt_to_time_point rate
     ((pt_of_time_point rate time)\<lparr>pt_hours := 0, pt_minutes := 0, pt_seconds := 0\<rparr>)"

definition al_midnight :: "'f timer_kind \<Rightarrow> int" where
  "al_midnight k = (case k of Alarm d \<Rightarrow> d | _ \<Rightarrow> 0)"

definition al_compute :: "('f, 'z) service_scheme service_class \<Rightarrow> nat \<Rightarrow> 'f action option \<Rightarrow>
    ('f, 'z) service_scheme \<Rightarrow> ('f, 'z) service_scheme" where
  "al_compute V t action s =
    (let now = v_now V s;
         triggerToday = al_StartOfDay (v_rate V) now + al_midnight (tm_kind (sv_timers s t))
     in if triggerToday > now then tm_SetNextTriggerTime V t triggerToday action s
        else tm_SetNextTriggerTime V t (triggerToday + day_seconds * v_rate V) action s)"

definition al_Start :: "('f, 'z) service_scheme service_class \<Rightarrow> nat \<Rightarrow> int \<Rightarrow> 'f action \<Rightarrow>
    ('f, 'z) service_scheme \<Rightarrow> ('f, 'z) service_scheme" where
  "al_Start V t durationFromMidnight action s =
    al_compute V t (Some action) (sv_put t (tm_kind_update (\<lambda>k. Alarm durationFromMidnight)) s)"

definition al_Jumped :: "('f, 'z) service_scheme service_class \<Rightarrow> nat \<Rightarrow> int \<Rightarrow>
    ('f, 'z) service_scheme \<Rightarrow> ('f, 'z) service_scheme" where
  "al_Jumped V t to s =
    (let triggerToday = al_StartOfDay (v_rate V) to + al_midnight (tm_kind (sv_timers s t))
     in if triggerToday \<ge> to then tm_SetNextTriggerTime V t triggerToday (tm_Action (sv_timers s t)) s
        else tm_SetNextTriggerTime V t (triggerToday + day_seconds * v_rate V) (tm_Action (sv_timers s t)) s)"

text \<open>The overrides of \<open>ComputeNextTriggerTime\<close> and of \<open>Jumped\<close>.\<close>

definition tm_ComputeNextTriggerTime :: "('f, 'z) service_scheme service_class \<Rightarrow> nat \<Rightarrow>
    ('f, 'z) service_scheme \<Rightarrow> ('f, 'z) service_scheme" where
  "tm_ComputeNextTriggerTime V t s = (case tm_kind (sv_timers s t) of
      Single_shot \<Rightarrow> tm_Cancel V t s
    | Repeating p \<Rightarrow> tr_ComputeNextTriggerTime V t s
    | Limited p n \<Rightarrow> tl_ComputeNextTriggerTime V t s
    | Limited_closing p n c \<Rightarrow> tc_ComputeNextTriggerTime V t s
    | Alternating d1 d2 a1 a2 i start \<Rightarrow> ta_ComputeNextTriggerTime V t s
    | Alarm d \<Rightarrow> al_compute V t (tm_Action (sv_timers s t)) s)"

definition tm_Jumped :: "('f, 'z) service_scheme service_class \<Rightarrow> nat \<Rightarrow> int \<Rightarrow> int \<Rightarrow>
    ('f, 'z) service_scheme \<Rightarrow> ('f, 'z) service_scheme" where
  "tm_Jumped V t from_time to s = (case tm_kind (sv_timers s t) of
      Alarm d \<Rightarrow> al_Jumped V t to s
    | _ \<Rightarrow> tm_SetNextTriggerTime V t (sv_trigger s t + (to - from_time)) (tm_Action (sv_timers s t)) s)"

section \<open>Progress of time\<close>

text \<open>The loop over the scheduled timers: the earliest that is due, and whether there is another one.\<close>

fun sv_scan :: "(nat \<Rightarrow> int) \<Rightarrow> int \<Rightarrow> nat list \<Rightarrow> nat option \<Rightarrow> bool \<Rightarrow> nat option \<times> bool" where
  "sv_scan f time [] first again = (first, again)"
| "sv_scan f time (t # ts) first again =
    (if f t \<le> time then
       (case first of
          None \<Rightarrow> sv_scan f time ts (Some t) again
        | Some e \<Rightarrow> sv_scan f time ts (if f e > f t then Some t else first) True)
     else sv_scan f time ts first again)"

text \<open>A round of the outer loop, with the timer whose action it called.\<close>

definition sv_round :: "('f, 'z) service_scheme service_class \<Rightarrow>
    ('f action \<Rightarrow> ('f, 'z) service_scheme \<Rightarrow> ('f, 'z) service_scheme) \<Rightarrow> int \<Rightarrow> ('f, 'z) service_scheme \<Rightarrow>
    (nat \<times> int) list \<times> bool \<times> ('f, 'z) service_scheme" where
  "sv_round V run time s =
    (case sv_scan (sv_trigger s) time (sv_scheduled s) None False of (first, again) \<Rightarrow>
       let s1 = s\<lparr>sv_iterator := None\<rparr>
       in case first of
            None \<Rightarrow> ([], again, s1)
          | Some t \<Rightarrow>
              let action = tm_Action (sv_timers s1 t);
                  s2 = tm_ComputeNextTriggerTime V t s1
              in ([(t, sv_trigger s t)], again, case action of Some a \<Rightarrow> run a s2 | None \<Rightarrow> s2\<lparr>sv_failed := True\<rparr>))"

fun sv_rounds :: "nat \<Rightarrow> ('f, 'z) service_scheme service_class \<Rightarrow>
    ('f action \<Rightarrow> ('f, 'z) service_scheme \<Rightarrow> ('f, 'z) service_scheme) \<Rightarrow> int \<Rightarrow> ('f, 'z) service_scheme \<Rightarrow>
    ((nat \<times> int) list \<times> ('f, 'z) service_scheme) option" where
  "sv_rounds 0 V run time s = None"
| "sv_rounds (Suc n) V run time s =
    (case sv_round V run time s of (l, again, s1) \<Rightarrow>
       if again then (case sv_rounds n V run time s1 of None \<Rightarrow> None | Some (l', s2) \<Rightarrow> Some (l @ l', s2))
       else Some (l, s1))"

definition sv_release :: "('f, 'z) service_scheme service_class \<Rightarrow> ('f, 'z) service_scheme \<Rightarrow>
    ('f, 'z) service_scheme" where
  "sv_release V s =
    (let s1 = s\<lparr>sv_hold := False\<rparr> in if sv_update s1 then sv_ComputeNextTrigger V s1 else s1)"

definition sv_Progressed :: "nat \<Rightarrow> ('f, 'z) service_scheme service_class \<Rightarrow>
    ('f action \<Rightarrow> ('f, 'z) service_scheme \<Rightarrow> ('f, 'z) service_scheme) \<Rightarrow> int \<Rightarrow> ('f, 'z) service_scheme \<Rightarrow>
    ((nat \<times> int) list \<times> ('f, 'z) service_scheme) option" where
  "sv_Progressed n V run time s =
    (case sv_rounds n V run time (s\<lparr>sv_hold := True\<rparr>) of
       None \<Rightarrow> None
     | Some (l, s1) \<Rightarrow> Some (l, sv_release V s1))"

text \<open>The loop of \<open>Jumped\<close> follows the iterator; a timer is moved after the iterator has passed it.\<close>

fun sv_jump_loop :: "nat \<Rightarrow> ('f, 'z) service_scheme service_class \<Rightarrow> int \<Rightarrow> int \<Rightarrow>
    ('f, 'z) service_scheme \<Rightarrow> ('f, 'z) service_scheme option" where
  "sv_jump_loop n V from_time to s =
    (case sv_iterator s of
       None \<Rightarrow> Some s
     | Some t \<Rightarrow> (case n of 0 \<Rightarrow> None | Suc m \<Rightarrow>
         sv_jump_loop m V from_time to (tm_Jumped V t from_time to (s\<lparr>sv_iterator := next_node t (sv_scheduled s)\<rparr>))))"

declare sv_jump_loop.simps [simp del]

definition sv_Jumped :: "nat \<Rightarrow> ('f, 'z) service_scheme service_class \<Rightarrow> int \<Rightarrow> int \<Rightarrow>
    ('f, 'z) service_scheme \<Rightarrow> ('f, 'z) service_scheme option" where
  "sv_Jumped n V from_time to s =
    (let s1 = s\<lparr>sv_hold := True\<rparr>;
         s2 = s1\<lparr>sv_iterator := (case sv_scheduled s1 of [] \<Rightarrow> None | t # ts \<Rightarrow> Some t)\<rparr>
     in map_option (sv_release V) (sv_jump_loop n V from_time to s2))"


section \<open>The next trigger\<close>

lemma earliest_le_iff: "m \<le> earliest f ts \<longleftrightarrow> m \<le> time_max \<and> (\<forall>t \<in> set ts. m \<le> f t)"
proof -
  have "m \<le> fold (\<lambda>t m. min m (f t)) ts b \<longleftrightarrow> m \<le> b \<and> (\<forall>t \<in> set ts. m \<le> f t)" for b
    by (induction ts arbitrary: b) auto
  then show ?thesis by (simp add: earliest_def)
qed

lemma earliest_eqI: "(\<And>m. m \<le> earliest f ts \<longleftrightarrow> m \<le> b) \<Longrightarrow> earliest f ts = b"
  by (meson order_antisym order_refl)

lemma earliest_Nil [simp]: "earliest f [] = time_max"
  by (simp add: earliest_def)

lemma earliest_Cons: "earliest f (t # ts) = min (f t) (earliest f ts)"
  by (rule earliest_eqI) (auto simp: earliest_le_iff)

lemma earliest_cong: "(\<And>t. t \<in> set ts \<Longrightarrow> f t = g t) \<Longrightarrow> earliest f ts = earliest g ts"
  by (rule earliest_eqI) (auto simp: earliest_le_iff)

lemma earliest_remove1: "t \<in> set ts \<Longrightarrow> distinct ts \<Longrightarrow> earliest f ts = min (f t) (earliest f (remove1 t ts))"
  by (rule earliest_eqI) (auto simp: earliest_le_iff)

lemma earliest_other: "(\<And>u. u \<noteq> t \<Longrightarrow> f u = g u) \<Longrightarrow> t \<notin> set ts \<Longrightarrow> earliest f ts = earliest g ts"
  by (rule earliest_cong) metis

section \<open>The contract with derived classes and the invariant\<close>

text \<open>A derived class keeps the fields of the service in its \<open>NextTriggerChanged\<close>, after which what it
  waits for (\<open>agrees\<close>) is the next trigger; its time and resolution are its own.\<close>

locale timer_class =
  fixes V :: "('f, 'z) service_scheme service_class" and agrees :: "('f, 'z) service_scheme \<Rightarrow> bool"
  assumes changed: "service.truncate (v_changed V s) = service.truncate s"
    and changed_agrees: "agrees (v_changed V s)"
    and agrees_ext: "agrees s \<Longrightarrow> sv_next s' = sv_next s \<Longrightarrow> service.more s' = service.more s \<Longrightarrow> agrees s'"
    and now_changed: "v_now V (v_changed V s) = v_now V s"
    and now_ext: "service.more s' = service.more s \<Longrightarrow> v_now V s' = v_now V s"
    and resolution_changed: "v_resolution V (v_changed V s) = v_resolution V s"
    and resolution_ext: "service.more s' = service.more s \<Longrightarrow> v_resolution V s' = v_resolution V s"

text \<open>What a class's fields are while a timer is armed.\<close>

definition kind_ok :: "'f timer_kind \<Rightarrow> bool" where
  "kind_ok k = (case k of Limited p n \<Rightarrow> n > 0 | Limited_closing p n c \<Rightarrow> n \<ge> 0 \<and> c \<noteq> None
     | Alternating d1 d2 a1 a2 i start \<Rightarrow> a1 \<noteq> None \<and> a2 \<noteq> None | _ \<Rightarrow> True)"

text \<open>The list holds the armed timers, each once, and no assertion has failed.\<close>

definition sv_wf :: "('f, 'z) service_scheme \<Rightarrow> bool" where
  "sv_wf s = (distinct (sv_scheduled s) \<and> (\<forall>t. t \<in> set (sv_scheduled s) \<longleftrightarrow> tm_Armed (sv_timers s t)) \<and> \<not> sv_failed s)"

text \<open>The next trigger is the earliest of the armed timers, unless an update is pending, which is so only while
  updates are held.\<close>

definition sv_next_ok :: "('f, 'z) service_scheme \<Rightarrow> bool" where
  "sv_next_ok s = ((\<not> sv_hold s \<longrightarrow> \<not> sv_update s) \<and>
     (\<not> sv_update s \<longrightarrow> sv_next s = earliest (sv_trigger s) (sv_scheduled s)))"

definition sv_kinds_but :: "nat set \<Rightarrow> ('f, 'z) service_scheme \<Rightarrow> bool" where
  "sv_kinds_but X s = (\<forall>t. t \<notin> X \<longrightarrow> tm_Armed (sv_timers s t) \<longrightarrow> kind_ok (tm_kind (sv_timers s t)))"

definition sv_inv :: "(('f, 'z) service_scheme \<Rightarrow> bool) \<Rightarrow> ('f, 'z) service_scheme \<Rightarrow> bool" where
  "sv_inv agrees s = (sv_wf s \<and> sv_next_ok s \<and> sv_kinds_but {} s \<and> agrees s)"

lemma kind_ok_Action: "tm_Armed tm \<Longrightarrow> kind_ok (tm_kind tm) \<Longrightarrow> tm_Action tm \<noteq> None"
  by (auto simp: tm_Armed_def tm_Action_def kind_ok_def split: timer_kind.splits)

lemma sv_put_simps [simp]:
  "sv_timers (sv_put t g s) = (sv_timers s)(t := g (sv_timers s t))"
  "sv_scheduled (sv_put t g s) = sv_scheduled s" "sv_iterator (sv_put t g s) = sv_iterator s"
  "sv_next (sv_put t g s) = sv_next s" "sv_hold (sv_put t g s) = sv_hold s" "sv_update (sv_put t g s) = sv_update s"
  "sv_failed (sv_put t g s) = sv_failed s" "service.more (sv_put t g s) = service.more s"
  by (simp_all add: sv_put_def)

lemma sv_put_kinds: "sv_put t (tm_kind_update h) (sv_put t (tm_kind_update g) s) = sv_put t (tm_kind_update (h \<circ> g)) s"
  by (simp add: sv_put_def fun_upd_def comp_def cong: if_cong)

context timer_class begin

lemma changed_simps [simp]:
  "sv_timers (v_changed V s) = sv_timers s" "sv_scheduled (v_changed V s) = sv_scheduled s"
  "sv_iterator (v_changed V s) = sv_iterator s" "sv_next (v_changed V s) = sv_next s"
  "sv_hold (v_changed V s) = sv_hold s" "sv_update (v_changed V s) = sv_update s" "sv_failed (v_changed V s) = sv_failed s"
  using changed [of s] by (simp_all add: service.truncate_def)

text \<open>What the operations keep: the derived class's time and resolution, and the fields that are not theirs.\<close>

lemma compute_simps [simp]:
  "sv_timers (sv_ComputeNextTrigger V s) = sv_timers s" "sv_scheduled (sv_ComputeNextTrigger V s) = sv_scheduled s"
  "sv_iterator (sv_ComputeNextTrigger V s) = sv_iterator s" "sv_hold (sv_ComputeNextTrigger V s) = sv_hold s"
  "sv_failed (sv_ComputeNextTrigger V s) = sv_failed s"
  "v_now V (sv_ComputeNextTrigger V s) = v_now V s" "v_resolution V (sv_ComputeNextTrigger V s) = v_resolution V s"
  by (auto simp: sv_ComputeNextTrigger_def Let_def now_changed resolution_changed intro: now_ext resolution_ext)

lemma put_now [simp]: "v_now V (sv_put t g s) = v_now V s" "v_resolution V (sv_put t g s) = v_resolution V s"
  by (auto intro: now_ext resolution_ext)

lemma agrees_put: "agrees s \<Longrightarrow> agrees (sv_put t g s)"
  by (erule agrees_ext) simp_all

lemma compute_next:
  "sv_next (sv_ComputeNextTrigger V s) = (if sv_hold s then sv_next s else earliest (sv_trigger s) (sv_scheduled s))"
  "sv_update (sv_ComputeNextTrigger V s) = sv_hold s"
  by (auto simp: sv_ComputeNextTrigger_def Let_def)

lemma compute_agrees: "agrees s \<Longrightarrow> agrees (sv_ComputeNextTrigger V s)"
  by (auto simp: sv_ComputeNextTrigger_def Let_def changed_agrees elim: agrees_ext)

lemma compute_next_ok: "sv_next_ok (sv_ComputeNextTrigger V s)"
  by (simp add: sv_next_ok_def compute_next)

lemma set_next_simps [simp]:
  "sv_timers (tm_SetNextTriggerTime V t time a s) = (sv_timers s)(t := (sv_timers s t)\<lparr>tm_next := time, tm_action := a\<rparr>)"
  "sv_scheduled (tm_SetNextTriggerTime V t time a s) = (if tm_Armed (sv_timers s t) then sv_scheduled s else t # sv_scheduled s)"
  "sv_hold (tm_SetNextTriggerTime V t time a s) = sv_hold s"
  "sv_failed (tm_SetNextTriggerTime V t time a s) = (sv_failed s \<or> a = None)"
  "v_now V (tm_SetNextTriggerTime V t time a s) = v_now V s"
  "v_resolution V (tm_SetNextTriggerTime V t time a s) = v_resolution V s"
  by (auto simp: tm_SetNextTriggerTime_def Let_def sv_RegisterTimer_def sv_UpdateTriggerTime_def tm_Armed_def
      now_changed resolution_changed fun_eq_iff intro: now_ext resolution_ext)

lemma cancel_simps [simp]:
  "sv_timers (tm_Cancel V t s) = (sv_timers s)(t := (sv_timers s t)\<lparr>tm_next := 0, tm_action := None\<rparr>)"
  "sv_scheduled (tm_Cancel V t s) = (if tm_Armed (sv_timers s t) then remove1 t (sv_scheduled s) else sv_scheduled s)"
  "sv_hold (tm_Cancel V t s) = sv_hold s" "sv_failed (tm_Cancel V t s) = sv_failed s"
  "v_now V (tm_Cancel V t s) = v_now V s" "v_resolution V (tm_Cancel V t s) = v_resolution V s"
  by (auto simp: tm_Cancel_def Let_def sv_UnregisterTimer_def intro: now_ext resolution_ext)

lemma set_next_inv:
  assumes "sv_wf s" "sv_next_ok s" "sv_kinds_but {t} s" "agrees s" "kind_ok (tm_kind (sv_timers s t))" "a \<noteq> None"
  shows "sv_inv agrees (tm_SetNextTriggerTime V t time a s)"
proof -
  let ?s = "tm_SetNextTriggerTime V t time a s" and ?R = "earliest (sv_trigger s) (remove1 t (sv_scheduled s))"
  have d: "distinct (sv_scheduled s)" "\<And>u. u \<in> set (sv_scheduled s) \<longleftrightarrow> tm_Armed (sv_timers s u)" "\<not> sv_failed s"
    using assms(1) by (auto simp: sv_wf_def)
  have wf: "sv_wf ?s" using d assms(6) by (auto simp: sv_wf_def tm_Armed_def)
  have kinds: "sv_kinds_but {} ?s" using assms(3,5) by (auto simp: sv_kinds_but_def tm_Armed_def)
  have e: "earliest (sv_trigger ?s) (sv_scheduled ?s) = min time ?R"
  proof (cases "tm_Armed (sv_timers s t)")
    case True
    then show ?thesis
      using d by (subst earliest_remove1 [of t]) (auto intro!: arg_cong [where f = "min time"] earliest_other [of t])
  next
    case False
    then show ?thesis using d by (auto simp: earliest_Cons remove1_idem intro!: arg_cong [where f = "min time"] earliest_other [of t])
  qed
  have r: "earliest (sv_trigger s) (sv_scheduled s) = (if tm_Armed (sv_timers s t) then min (sv_trigger s t) ?R else ?R)"
    using d earliest_remove1 [of t "sv_scheduled s" "sv_trigger s"] by (simp add: remove1_idem)
  define s1 where "s1 = sv_put t (tm_next_update (\<lambda>_. time)) s"
  have s1: "sv_trigger s1 t = time" "tm_Armed (sv_timers s1 t) = tm_Armed (sv_timers s t)" "sv_next s1 = sv_next s"
    "sv_hold s1 = sv_hold s" "sv_update s1 = sv_update s" "sv_scheduled s1 = sv_scheduled s"
    "sv_trigger s1 = (sv_trigger s)(t := time)" "agrees s1"
    using assms(4) by (auto simp: s1_def tm_Armed_def elim: agrees_ext)
  have n: "sv_next_ok ?s \<and> agrees ?s"
  proof (cases "tm_Armed (sv_timers s t)")
    case True
    have e1: "earliest (sv_trigger s1) (sv_scheduled s1) = min time ?R"
      unfolding s1 using d True by (subst earliest_remove1 [of t])
        (auto intro!: arg_cong [where f = "min time"] earliest_other [of t])
    define s2 where "s2 = sv_UpdateTriggerTime V t (sv_trigger s t) s1"
    have "?s = sv_put t (tm_action_update (\<lambda>_. a)) s2"
      by (simp add: tm_SetNextTriggerTime_def s2_def s1_def [symmetric] s1 True assms(6))
    moreover have "agrees s2" using s1 by (auto simp: s2_def sv_UpdateTriggerTime_def compute_agrees)
    moreover have "(sv_hold s2 \<or> \<not> sv_update s2) \<and> (sv_update s2 \<or> sv_next s2 = min time ?R)"
      using assms(2) r True by (auto simp: s2_def sv_UpdateTriggerTime_def compute_next e1 [unfolded s1] s1 sv_next_ok_def min_def
          split: if_splits)
    ultimately show ?thesis using e by (auto simp: sv_next_ok_def elim: agrees_ext)
  next
    case False
    define s2 where "s2 = sv_RegisterTimer V t s1"
    have "?s = sv_put t (tm_action_update (\<lambda>_. a)) s2"
      by (simp add: tm_SetNextTriggerTime_def s2_def s1_def [symmetric] s1 False assms(6))
    moreover have "agrees s2" using s1 by (auto simp: s2_def sv_RegisterTimer_def Let_def changed_agrees elim: agrees_ext)
    moreover have "(sv_hold s2 \<or> \<not> sv_update s2) \<and> (sv_update s2 \<or> sv_next s2 = min time ?R)"
      using assms(2) r False by (auto simp: s2_def sv_RegisterTimer_def s1 sv_next_ok_def min_def Let_def)
    ultimately show ?thesis using e by (auto simp: sv_next_ok_def elim: agrees_ext)
  qed
  show ?thesis using wf kinds n by (simp add: sv_inv_def)
qed

lemma cancel_inv:
  assumes "sv_wf s" "sv_next_ok s" "sv_kinds_but {t} s" "agrees s"
  shows "sv_inv agrees (tm_Cancel V t s)"
proof -
  let ?s = "tm_Cancel V t s" and ?R = "earliest (sv_trigger s) (remove1 t (sv_scheduled s))"
  have d: "distinct (sv_scheduled s)" "\<And>u. u \<in> set (sv_scheduled s) \<longleftrightarrow> tm_Armed (sv_timers s u)" "\<not> sv_failed s"
    using assms(1) by (auto simp: sv_wf_def)
  have wf: "sv_wf ?s" using d by (auto simp: sv_wf_def tm_Armed_def)
  have kinds: "sv_kinds_but {} ?s" using assms(3) by (auto simp: sv_kinds_but_def tm_Armed_def)
  have e: "earliest (sv_trigger ?s) (sv_scheduled ?s) = ?R"
    using d by (auto simp: remove1_idem intro!: earliest_other [of t])
  have "sv_next_ok ?s \<and> agrees ?s"
  proof (cases "tm_Armed (sv_timers s t)")
    case True
    define s2 where "s2 = (if sv_iterator s = Some t then s\<lparr>sv_iterator := next_node t (sv_scheduled s)\<rparr> else s)
      \<lparr>sv_scheduled := remove1 t (sv_scheduled s)\<rparr>"
    define s3 where "s3 = (if sv_trigger s t = sv_next s then sv_ComputeNextTrigger V s2 else s2)"
    have s2: "sv_next s2 = sv_next s" "sv_hold s2 = sv_hold s" "sv_update s2 = sv_update s" "sv_timers s2 = sv_timers s"
      "sv_scheduled s2 = remove1 t (sv_scheduled s)" "agrees s2"
      using assms(4) by (auto simp: s2_def elim: agrees_ext)
    have "?s = sv_put t (tm_next_update (\<lambda>_. 0) \<circ> tm_action_update (\<lambda>_. None)) s3"
      using True by (auto simp: tm_Cancel_def sv_UnregisterTimer_def Let_def s3_def s2_def)
    moreover have "agrees s3" using s2 by (simp add: s3_def compute_agrees)
    moreover have "(sv_hold s3 \<or> \<not> sv_update s3) \<and> (sv_update s3 \<or> sv_next s3 = ?R)"
      using assms(2) earliest_remove1 [of t "sv_scheduled s" "sv_trigger s"] True d
      by (auto simp: s3_def compute_next s2 sv_next_ok_def min_def split: if_splits)
    ultimately show ?thesis using e by (auto simp: sv_next_ok_def elim: agrees_ext)
  next
    case False
    then have "?s = sv_put t (tm_next_update (\<lambda>_. 0) \<circ> tm_action_update (\<lambda>_. None)) s" by (simp add: tm_Cancel_def)
    moreover have "?R = earliest (sv_trigger s) (sv_scheduled s)" using False d by (simp add: remove1_idem)
    ultimately show ?thesis using e assms(2,4) agrees_put by (auto simp: sv_next_ok_def)
  qed
  then show ?thesis using wf kinds by (simp add: sv_inv_def)
qed

text \<open>A change of a class's own fields.\<close>

lemma put_kind_parts:
  assumes "sv_inv agrees s"
  shows "sv_wf (sv_put t (tm_kind_update g) s)" "sv_next_ok (sv_put t (tm_kind_update g) s)"
    "sv_kinds_but {t} (sv_put t (tm_kind_update g) s)" "agrees (sv_put t (tm_kind_update g) s)"
proof -
  have "earliest (sv_trigger (sv_put t (tm_kind_update g) s)) (sv_scheduled s) = earliest (sv_trigger s) (sv_scheduled s)"
    by (rule earliest_cong) simp
  then show "sv_next_ok (sv_put t (tm_kind_update g) s)" using assms by (simp add: sv_inv_def sv_next_ok_def)
qed (use assms in \<open>auto simp: sv_inv_def sv_wf_def sv_kinds_but_def tm_Armed_def elim: agrees_ext\<close>)

lemma inv_parts:
  assumes "sv_inv agrees s"
  shows "sv_wf s" "sv_next_ok s" "sv_kinds_but X s" "agrees s"
  using assms by (auto simp: sv_inv_def sv_kinds_but_def)

lemma put_kind_set_next:
  assumes "sv_inv agrees s" "kind_ok (g (tm_kind (sv_timers s t)))" "a \<noteq> None"
  shows "sv_inv agrees (tm_SetNextTriggerTime V t time a (sv_put t (tm_kind_update g) s))"
  by (rule set_next_inv [OF put_kind_parts [OF assms(1)]]) (use assms in simp_all)

lemma put_kind_cancel: "sv_inv agrees s \<Longrightarrow> sv_inv agrees (tm_Cancel V t (sv_put t (tm_kind_update g) s))"
  by (rule cancel_inv [OF put_kind_parts])

lemma set_next_inv':
  "sv_inv agrees s \<Longrightarrow> kind_ok (tm_kind (sv_timers s t)) \<Longrightarrow> a \<noteq> None \<Longrightarrow> sv_inv agrees (tm_SetNextTriggerTime V t time a s)"
  by (rule set_next_inv) (auto intro: inv_parts)

lemma cancel_inv': "sv_inv agrees s \<Longrightarrow> sv_inv agrees (tm_Cancel V t s)"
  by (rule cancel_inv) (auto intro: inv_parts)

lemma put_kind_start:
  assumes "sv_inv agrees s" "kind_ok (tr_set_period d (g (tm_kind (sv_timers s t))))"
  shows "sv_inv agrees (tr_StartTimer V t d a (sv_put t (tm_kind_update g) s))"
  unfolding tr_StartTimer_def Let_def sv_put_kinds by (rule put_kind_set_next) (use assms in simp_all)

lemma start_at_inv: "sv_inv agrees s \<Longrightarrow> tm_kind (sv_timers s t) = Single_shot \<Longrightarrow> sv_inv agrees (ts_start_at V t time a s)"
  by (simp add: ts_start_at_def cancel_inv' set_next_inv' kind_ok_def)

lemma start_for_inv: "sv_inv agrees s \<Longrightarrow> tm_kind (sv_timers s t) = Single_shot \<Longrightarrow> sv_inv agrees (ts_start_for V t d a s)"
  by (simp add: ts_start_for_def set_next_inv' kind_ok_def)

lemma start_repeating_inv:
  "sv_inv agrees s \<Longrightarrow> tm_kind (sv_timers s t) = Repeating p \<Longrightarrow> sv_inv agrees (tr_StartTimer V t d a s)"
  unfolding tr_StartTimer_def Let_def by (rule put_kind_set_next) (simp_all add: tr_set_period_def kind_ok_def)

lemma start_limited_inv: "sv_inv agrees s \<Longrightarrow> sv_inv agrees (tl_Start V t n d a s)"
  by (simp add: tl_Start_def Let_def put_kind_cancel put_kind_start tr_set_period_def kind_ok_def)

lemma start_closing_inv:
  assumes "sv_inv agrees s" "\<And>s b. sv_inv agrees s \<Longrightarrow> sv_inv agrees (run b s)"
  shows "sv_inv agrees (tc_Start V run t n d a c s)"
  using assms by (simp add: tc_Start_def Let_def put_kind_cancel put_kind_start tr_set_period_def kind_ok_def)

lemma start_alternating_inv: "sv_inv agrees s \<Longrightarrow> sv_inv agrees (ta_Start V t d1 a1 d2 a2 s)"
  unfolding ta_Start_def ta_ComputeNextTriggerTime_def Let_def sv_put_kinds
  by (rule put_kind_set_next) (simp_all add: ta_advance_def kind_ok_def)

lemma start_alarm_inv: "sv_inv agrees s \<Longrightarrow> sv_inv agrees (al_Start V t d a s)"
  by (simp add: al_Start_def al_compute_def Let_def put_kind_set_next kind_ok_def)

lemma inv_armed:
  assumes "sv_inv agrees s" "tm_Armed (sv_timers s t)"
  shows "kind_ok (tm_kind (sv_timers s t))" "tm_Action (sv_timers s t) \<noteq> None"
  using assms by (auto simp: sv_inv_def sv_kinds_but_def dest: kind_ok_Action)

text \<open>The overrides keep the invariant when an armed timer is triggered or the time has jumped.\<close>

lemma compute_trigger_inv:
  assumes "sv_inv agrees s" "tm_Armed (sv_timers s t)"
  shows "sv_inv agrees (tm_ComputeNextTriggerTime V t s)"
proof -
  note k = inv_armed [OF assms]
  have r: "sv_inv agrees (tr_ComputeNextTriggerTime V t (sv_put t (tm_kind_update g) s))"
    if "kind_ok (g (tm_kind (sv_timers s t)))" for g
    unfolding tr_ComputeNextTriggerTime_def Let_def
    by (rule put_kind_set_next [OF assms(1), where g = g, OF that])
      (use assms(2) that kind_ok_Action [of "tm_kind_update g (sv_timers s t)"] in \<open>auto simp: tm_Armed_def\<close>)
  show ?thesis
  proof (cases "tm_kind (sv_timers s t)")
    case (Repeating p)
    then show ?thesis using assms(1) k
      by (auto simp: tm_ComputeNextTriggerTime_def tr_ComputeNextTriggerTime_def Let_def intro: set_next_inv')
  next
    case (Limited p n)
    then show ?thesis using put_kind_cancel [OF assms(1)] r [of "\<lambda>k. Limited (tr_period k) (tl_howMany k - 1)"]
      by (auto simp: tm_ComputeNextTriggerTime_def tl_ComputeNextTriggerTime_def Let_def kind_ok_def tl_howMany_def)
  next
    case (Limited_closing p n c)
    then show ?thesis using put_kind_cancel [OF assms(1)] r [of tc_count_down] k
      by (auto simp: tm_ComputeNextTriggerTime_def tc_ComputeNextTriggerTime_def Let_def kind_ok_def tc_howMany_def
          tc_count_down_def)
  next
    case (Alternating d1 d2 a1 a2 i start)
    then show ?thesis using put_kind_set_next [OF assms(1), of ta_advance t] k
      by (auto simp: tm_ComputeNextTriggerTime_def ta_ComputeNextTriggerTime_def Let_def kind_ok_def ta_advance_def)
  next
    case (Alarm d)
    then show ?thesis using assms(1) k
      by (auto simp: tm_ComputeNextTriggerTime_def al_compute_def Let_def intro: set_next_inv')
  qed (use assms in \<open>simp add: tm_ComputeNextTriggerTime_def cancel_inv'\<close>)
qed

lemma jumped_timer_inv:
  assumes "sv_inv agrees s" "tm_Armed (sv_timers s t)"
  shows "sv_inv agrees (tm_Jumped V t f to s)"
  using inv_armed [OF assms] set_next_inv' [OF assms(1)]
  by (auto simp: tm_Jumped_def al_Jumped_def Let_def split: timer_kind.splits)

text \<open>A trigger changes only its own timer.\<close>

lemma compute_trigger_others:
  "u \<noteq> t \<Longrightarrow> sv_timers (tm_ComputeNextTriggerTime V t s) u = sv_timers s u"
  "sv_hold (tm_ComputeNextTriggerTime V t s) = sv_hold s"
  "v_now V (tm_ComputeNextTriggerTime V t s) = v_now V s"
  "v_resolution V (tm_ComputeNextTriggerTime V t s) = v_resolution V s"
  by (simp_all add: tm_ComputeNextTriggerTime_def tr_ComputeNextTriggerTime_def tl_ComputeNextTriggerTime_def
      tc_ComputeNextTriggerTime_def ta_ComputeNextTriggerTime_def al_compute_def Let_def split: timer_kind.split)

end

section \<open>Moving on\<close>

text \<open>When a timer that is triggered moves on to a time after \<open>time\<close>: an alternating timer adds its
  duration to the time it should have been triggered at, the others look at the time.\<close>

definition alarm_range :: "int \<Rightarrow> int \<Rightarrow> bool" where
  "alarm_range rate now = (0 < rate \<and> day_in_range (now sdiv rate div 86400))"

definition prompt :: "int \<Rightarrow> int \<Rightarrow> int \<Rightarrow> 'f timer_kind \<Rightarrow> bool" where
  "prompt rate now time k = (case k of Single_shot \<Rightarrow> True | Repeating p \<Rightarrow> 0 < p | Limited p n \<Rightarrow> 0 < p
     | Limited_closing p n c \<Rightarrow> 0 < p | Alternating d1 d2 a1 a2 i start \<Rightarrow> time < start + (if i then d1 else d2)
     | Alarm d \<Rightarrow> 0 \<le> d \<and> alarm_range rate now)"

lemma smod_period: "0 \<le> (a :: int) \<Longrightarrow> 0 < p \<Longrightarrow> 0 \<le> a smod p \<and> a smod p < p"
  by (simp add: smod_nonneg)

lemma sdiv_next:
  assumes "0 < rate"
  shows "(now :: int) < (now sdiv rate + 1) * rate"
proof (cases "now \<ge> 0")
  case True
  have "now div rate * rate + now mod rate = now" by (rule div_mult_mod_eq)
  moreover have "now mod rate < rate" using assms by simp
  ultimately have "now < now div rate * rate + rate" by linarith
  then show ?thesis using True assms by (simp add: sdiv_nonneg algebra_simps)
next
  case False
  then have "now sdiv rate = - ((- now) div rate)" using assms by (simp add: signed_divide_int_def sgn_if)
  moreover have "(- now) div rate * rate \<le> - now"
    using assms div_mult_mod_eq [of "- now" rate] pos_mod_sign [of rate "- now"] by linarith
  ultimately show ?thesis using assms by (simp add: algebra_simps)
qed

lemma start_of_day_next:
  assumes "alarm_range rate now"
  shows "al_StartOfDay rate now = now sdiv rate div 86400 * 86400 * rate"
    "now < al_StartOfDay rate now + day_seconds * rate"
proof -
  have r: "0 < rate" "day_in_range (now sdiv rate div 86400)" using assms by (simp_all add: alarm_range_def)
  show e: "al_StartOfDay rate now = now sdiv rate div 86400 * 86400 * rate"
    by (simp add: al_StartOfDay_def pt_of_time_point_def pt_to_time_point_def start_of_day [OF r(2)])
  define q where "q = now sdiv rate"
  have "q + 1 \<le> q div 86400 * 86400 + 86400"
    using div_mult_mod_eq [of q 86400] pos_mod_bound [of 86400 q] by linarith
  then have "(q + 1) * rate \<le> (q div 86400 * 86400 + 86400) * rate" using r(1) by (intro mult_right_mono) simp_all
  then have "now < (q div 86400 * 86400 + 86400) * rate" using sdiv_next [OF r(1), of now] by (simp add: q_def)
  then show "now < al_StartOfDay rate now + day_seconds * rate"
    unfolding e by (simp add: q_def day_seconds_def algebra_simps)
qed

context timer_class begin

lemma compute_trigger_moves_on:
  assumes "prompt (v_rate V) (v_now V s) time (tm_kind (sv_timers s t))" "time \<le> v_now V s"
    "tm_Armed (sv_timers (tm_ComputeNextTriggerTime V t s) t)"
  shows "time < sv_trigger (tm_ComputeNextTriggerTime V t s) t"
proof -
  have r: "v_now V s < sv_trigger (tr_ComputeNextTriggerTime V t (sv_put t (tm_kind_update g) s)) t"
    if "0 < tr_period (g (tm_kind (sv_timers s t)))" for g
  proof -
    let ?n = "max (v_now V s) (sv_trigger s t)" and ?p = "tr_period (g (tm_kind (sv_timers s t)))"
    have "(?n - sv_trigger s t) smod ?p < ?p" using smod_period [of "?n - sv_trigger s t" ?p] that by simp
    then show ?thesis by (simp add: tr_ComputeNextTriggerTime_def Let_def)
  qed
  have same: "sv_put t (tm_kind_update (\<lambda>k. k)) s = s"
    by (cases "sv_timers s t") (simp add: sv_put_def fun_upd_idem)
  show ?thesis
  proof (cases "tm_kind (sv_timers s t)")
    case Single_shot
    then show ?thesis using assms by (simp add: tm_ComputeNextTriggerTime_def tm_Armed_def)
  next
    case (Repeating p)
    then show ?thesis using assms r [of "\<lambda>k. k"] by (simp add: tm_ComputeNextTriggerTime_def prompt_def tr_period_def same)
  next
    case (Limited p n)
    then show ?thesis using assms r [of "\<lambda>k. Limited (tr_period k) (tl_howMany k - 1)"]
      by (auto simp: tm_ComputeNextTriggerTime_def tl_ComputeNextTriggerTime_def Let_def prompt_def tr_period_def
          tl_howMany_def tm_Armed_def split: if_splits)
  next
    case (Limited_closing p n c)
    then show ?thesis using assms r [of tc_count_down]
      by (auto simp: tm_ComputeNextTriggerTime_def tc_ComputeNextTriggerTime_def Let_def prompt_def tr_period_def
          tc_howMany_def tc_count_down_def tm_Armed_def split: if_splits)
  next
    case (Alternating d1 d2 a1 a2 i start)
    then show ?thesis using assms
      by (auto simp: tm_ComputeNextTriggerTime_def ta_ComputeNextTriggerTime_def Let_def prompt_def ta_triggerStart_def
          ta_advance_def split: if_splits)
  next
    case (Alarm d)
    then show ?thesis using assms start_of_day_next [of "v_rate V" "v_now V s"]
      by (auto simp: tm_ComputeNextTriggerTime_def al_compute_def Let_def prompt_def al_midnight_def)
  qed
qed

end

section \<open>The earliest timer\<close>

lemma scan_some:
  "f e \<le> time \<Longrightarrow> \<exists>t. sv_scan f time ts (Some e) m = (Some t, m \<or> (\<exists>u \<in> set ts. f u \<le> time)) \<and> t \<in> insert e (set ts) \<and>
    f t \<le> f e \<and> (\<forall>u \<in> set ts. f t \<le> f u \<or> time < f u)"
proof (induction ts arbitrary: e m)
  case (Cons x ts)
  show ?case
  proof (cases "f x \<le> time")
    case True
    define e' where "e' = (if f e > f x then x else e)"
    have "f e' \<le> time" "f e' \<le> f e" "f e' \<le> f x" "e' \<in> {e, x}" using Cons.prems True by (auto simp: e'_def)
    moreover have "sv_scan f time (x # ts) (Some e) m = sv_scan f time ts (Some e') True" using True by (simp add: e'_def)
    ultimately show ?thesis using Cons.IH [of e' True] True by fastforce
  next
    case False
    then show ?thesis using Cons.IH [OF Cons.prems, of m] by auto
  qed
qed simp

lemma scan_none: "(\<forall>u \<in> set ts. time < f u) \<Longrightarrow> sv_scan f time ts None m = (None, m)"
  by (induction ts) auto

lemma scan_cases:
  assumes "distinct ts"
  obtains "\<forall>u \<in> set ts. time < f u" "sv_scan f time ts None False = (None, False)"
  | t m where "sv_scan f time ts None False = (Some t, m)" "t \<in> set ts" "f t \<le> time"
      "\<forall>u \<in> set ts. f t \<le> f u \<or> time < f u" "m \<longleftrightarrow> (\<exists>u \<in> set ts. u \<noteq> t \<and> f u \<le> time)"
proof (cases "\<forall>u \<in> set ts. time < f u")
  case True
  then show ?thesis using that(1) scan_none by blast
next
  case False
  then obtain ys e zs where ts: "ts = ys @ e # zs" "f e \<le> time" "\<forall>u \<in> set ys. time < f u"
    using split_list_first_prop [of ts "\<lambda>u. f u \<le> time"] by (metis not_le)
  have skip: "(\<forall>u \<in> set ys. time < f u) \<Longrightarrow> sv_scan f time (ys @ e # zs) None False = sv_scan f time zs (Some e) False" for ys
    using ts(2) by (induction ys) auto
  have "sv_scan f time ts None False = sv_scan f time zs (Some e) False" unfolding ts(1) by (rule skip) (rule ts(3))
  then obtain t where t: "sv_scan f time ts None False = (Some t, \<exists>u \<in> set zs. f u \<le> time)" "t \<in> insert e (set zs)"
    "f t \<le> f e" "\<forall>u \<in> set zs. f t \<le> f u \<or> time < f u"
    using scan_some [where f = f and e = e and time = time and ts = zs and m = False] ts(2) by auto
  show ?thesis
  proof (rule that(2) [OF t(1)])
    show "t \<in> set ts" "f t \<le> time" "\<forall>u \<in> set ts. f t \<le> f u \<or> time < f u" using ts t by auto
    have "t = e \<or> (t \<in> set zs \<and> e \<noteq> t \<and> e \<in> set ts)" "e \<notin> set zs" "\<forall>u \<in> set ts. f u \<le> time \<longrightarrow> u = e \<or> u \<in> set zs"
      using t(2) ts assms by (auto simp: not_less [symmetric])
    then show "(\<exists>u \<in> set zs. f u \<le> time) \<longleftrightarrow> (\<exists>u \<in> set ts. u \<noteq> t \<and> f u \<le> time)"
      using ts \<open>f t \<le> time\<close> by (auto; metis)
  qed
qed


section \<open>Triggering what is due\<close>

definition due :: "int \<Rightarrow> ('f, 'z) service_scheme \<Rightarrow> nat set" where
  "due time s = {t \<in> set (sv_scheduled s). sv_trigger s t \<le> time}"

lemma finite_due [simp]: "finite (due time s)"
  by (simp add: due_def)

context timer_class begin

lemma release_inv:
  assumes "sv_inv agrees s"
  shows "sv_inv agrees (sv_release V s)" "sv_timers (sv_release V s) = sv_timers s" "\<not> sv_hold (sv_release V s)"
    "sv_scheduled (sv_release V s) = sv_scheduled s"
proof -
  define s1 where "s1 = s\<lparr>sv_hold := False\<rparr>"
  have "agrees s1" using assms by (auto simp: s1_def sv_inv_def elim: agrees_ext)
  moreover have "sv_release V s = (if sv_update s1 then sv_ComputeNextTrigger V s1 else s1)"
    by (simp add: sv_release_def s1_def Let_def)
  ultimately show "sv_inv agrees (sv_release V s)" "sv_timers (sv_release V s) = sv_timers s" "\<not> sv_hold (sv_release V s)"
    "sv_scheduled (sv_release V s) = sv_scheduled s"
    using assms compute_next_ok [of s1]
    by (auto simp: sv_inv_def s1_def sv_wf_def sv_next_ok_def sv_kinds_but_def compute_agrees)
qed

lemma hold_inv:
  assumes "sv_inv agrees s"
  shows "sv_inv agrees (s\<lparr>sv_hold := True\<rparr>)"
proof -
  have "agrees (s\<lparr>sv_hold := True\<rparr>)" using assms by (auto simp: sv_inv_def elim: agrees_ext)
  then show ?thesis using assms by (simp add: sv_inv_def sv_wf_def sv_next_ok_def sv_kinds_but_def)
qed

end

text \<open>Actions that leave alone the timers that are due.\<close>

definition leaves_due :: "int \<Rightarrow> ('f action \<Rightarrow> ('f, 'z) service_scheme \<Rightarrow> ('f, 'z) service_scheme) \<Rightarrow> bool" where
  "leaves_due time run = (\<forall>a s u. u \<in> due time s \<longrightarrow> sv_timers (run a s) u = sv_timers s u)"

text \<open>A client whose actions may cancel timers and start them, but not for a time that is due already.\<close>

locale later_client = timer_class V agrees
  for V :: "('f, 'z) service_scheme service_class" and agrees :: "('f, 'z) service_scheme \<Rightarrow> bool" +
  fixes run :: "'f action \<Rightarrow> ('f, 'z) service_scheme \<Rightarrow> ('f, 'z) service_scheme" and time :: int
    and able :: "('f, 'z) service_scheme \<Rightarrow> bool"
  assumes run_inv: "sv_inv agrees s \<Longrightarrow> able s \<Longrightarrow> sv_inv agrees (run a s)"
    and run_hold: "sv_hold (run a s) = sv_hold s"
    and run_now: "v_now V (run a s) = v_now V s"
    and run_later: "sv_inv agrees s \<Longrightarrow> able s \<Longrightarrow> t \<in> due time (run a s) \<Longrightarrow>
      t \<in> due time s \<and> sv_timers (run a s) t = sv_timers s t"
    and run_able: "sv_inv agrees s \<Longrightarrow> able s \<Longrightarrow> able (run a s)"
    and able_now: "able s \<Longrightarrow> v_now V s' = v_now V s \<Longrightarrow> v_resolution V s' = v_resolution V s \<Longrightarrow> able s'"
begin

lemma round_done:
  assumes "sv_inv agrees s" "able s" "time \<le> v_now V s"
    "\<forall>t \<in> due time s. prompt (v_rate V) (v_now V s) time (tm_kind (sv_timers s t))"
  obtains l again s' where "sv_round V run time s = (l, again, s')" "sv_inv agrees s'" "able s'" "sv_hold s' = sv_hold s"
    "v_now V s' = v_now V s" "\<forall>t \<in> due time s'. t \<in> due time s \<and> sv_timers s' t = sv_timers s t"
    "\<not> again \<longrightarrow> due time s' = {}" "again \<longrightarrow> 2 \<le> card (due time s)"
    "due time s = {} \<and> l = [] \<or> (\<exists>t. l = [(t, sv_trigger s t)] \<and> t \<in> due time s - due time s' \<and>
       (\<forall>u \<in> due time s. sv_trigger s t \<le> sv_trigger s u))"
    "leaves_due time run \<longrightarrow> due time s = due time s' \<union> fst ` set l"
proof -
  have wf: "distinct (sv_scheduled s)" "\<And>t. t \<in> set (sv_scheduled s) \<Longrightarrow> tm_Armed (sv_timers s t)"
    using assms(1) by (auto simp: sv_inv_def sv_wf_def)
  define s1 where "s1 = s\<lparr>sv_iterator := None\<rparr>"
  have s1: "sv_timers s1 = sv_timers s" "sv_hold s1 = sv_hold s" "due time s1 = due time s"
    "v_now V s1 = v_now V s" "v_resolution V s1 = v_resolution V s"
    by (auto simp: s1_def due_def intro: now_ext resolution_ext)
  have "agrees s1" using assms(1) by (auto simp: s1_def sv_inv_def elim: agrees_ext)
  then have inv1: "sv_inv agrees s1" using assms(1) unfolding s1_def
    by (simp add: sv_inv_def sv_wf_def sv_next_ok_def sv_kinds_but_def)
  show ?thesis
  proof (cases rule: scan_cases [OF wf(1), of time "sv_trigger s"])
    case 1
    then have "sv_round V run time s = ([], False, s1)" by (simp add: sv_round_def s1_def)
    moreover have "due time s = {}" using 1(1) by (auto simp: due_def)
    ultimately show ?thesis using that [of "[]" False s1] inv1 s1 able_now [OF assms(2) s1(4,5)] by simp
  next
    case (2 t again)
    define s2 where "s2 = tm_ComputeNextTriggerTime V t s1"
    have armed: "tm_Armed (sv_timers s1 t)" using 2(2) wf(2) s1 by simp
    then obtain a where a: "tm_Action (sv_timers s1 t) = Some a" using inv_armed(2) [OF inv1] by blast
    have inv2: "sv_inv agrees s2" unfolding s2_def using inv1 armed by (rule compute_trigger_inv)
    have now2: "v_now V s2 = v_now V s" "v_resolution V s2 = v_resolution V s" "sv_hold s2 = sv_hold s"
      using s1 by (simp_all add: s2_def compute_trigger_others)
    have able2: "able s2" by (rule able_now [OF assms(2) now2(1,2)])
    have td: "t \<in> due time s" using 2(2,3) by (simp add: due_def)
    have due2: "u \<in> due time s \<and> u \<noteq> t \<and> sv_timers s2 u = sv_timers s u" if "u \<in> due time s2" for u
    proof -
      have arm: "tm_Armed (sv_timers s2 u)" "sv_trigger s2 u \<le> time" using that inv2
        by (auto simp: due_def sv_inv_def sv_wf_def)
      have "u \<noteq> t"
        using compute_trigger_moves_on [of s1 time t] arm assms(3,4) td s1 by (auto simp: s2_def)
      moreover from this have "sv_timers s2 u = sv_timers s u" using s1 by (simp add: s2_def compute_trigger_others)
      moreover from this have "u \<in> due time s" using arm assms(1) by (auto simp: due_def sv_inv_def sv_wf_def)
      ultimately show ?thesis by simp
    qed
    define s3 where "s3 = run a s2"
    have due3: "u \<in> due time s \<and> u \<noteq> t \<and> sv_timers s3 u = sv_timers s u" if "u \<in> due time s3" for u
      using run_later [OF inv2 able2, of u a] due2 [of u] that by (simp add: s3_def)
    have "sv_round V run time s = ([(t, sv_trigger s t)], again, s3)"
      using 2(1) a by (simp add: sv_round_def s1_def [symmetric] Let_def s2_def s3_def)
    moreover have "2 \<le> card (due time s)" if again
    proof -
      from that obtain u where "u \<in> due time s" "u \<noteq> t" using 2(5) by (auto simp: due_def)
      then have "card {t, u} \<le> card (due time s)" using td by (intro card_mono) simp_all
      then show ?thesis using \<open>u \<noteq> t\<close> by simp
    qed
    moreover have "due time s3 = {}" if "\<not> again"
      using 2(5) that due3 by (fastforce simp: due_def [of time s])
    moreover have "\<forall>u \<in> due time s. sv_trigger s t \<le> sv_trigger s u" using 2(4) by (auto simp: due_def)
    moreover have "sv_inv agrees s3" "able s3" "sv_hold s3 = sv_hold s" "v_now V s3 = v_now V s"
      using inv2 able2 now2 by (simp_all add: s3_def run_inv run_able run_hold run_now)
    moreover have "due time s = due time s3 \<union> fst ` set [(t, sv_trigger s t)]" if "leaves_due time run"
    proof -
      have "u \<in> due time s3" if "u \<in> due time s" "u \<noteq> t" for u
      proof -
        have "sv_timers s2 u = sv_timers s u" using that(2) s1 by (simp add: s2_def compute_trigger_others)
        then have "u \<in> due time s2" using that(1) inv2 assms(1) by (auto simp: due_def sv_inv_def sv_wf_def)
        then have "sv_timers s3 u = sv_timers s u" using \<open>leaves_due time run\<close> \<open>sv_timers s2 u = _\<close>
          by (simp add: leaves_due_def s3_def)
        then show ?thesis using that(1) \<open>sv_inv agrees s3\<close> assms(1) by (auto simp: due_def sv_inv_def sv_wf_def)
      qed
      then show ?thesis using due3 td by auto
    qed
    ultimately show ?thesis using that [of "[(t, sv_trigger s t)]" again s3] due3 td by blast
  qed
qed

lemma rounds_done:
  assumes "sv_inv agrees s" "able s" "time \<le> v_now V s"
    "\<forall>t \<in> due time s. prompt (v_rate V) (v_now V s) time (tm_kind (sv_timers s t))" "card (due time s) \<le> n" "0 < n"
  shows "\<exists>l s'. sv_rounds n V run time s = Some (l, s') \<and> sv_inv agrees s' \<and> sv_hold s' = sv_hold s \<and>
    v_now V s' = v_now V s \<and> due time s' = {} \<and> sorted (map snd l) \<and> distinct (map fst l) \<and>
    (\<forall>(t, x) \<in> set l. t \<in> due time s \<and> x = sv_trigger s t) \<and> (leaves_due time run \<longrightarrow> fst ` set l = due time s)"
  using assms
proof (induction n arbitrary: s)
  case (Suc n)
  obtain l again s' where r: "sv_round V run time s = (l, again, s')" "sv_inv agrees s'" "able s'" "sv_hold s' = sv_hold s"
    "v_now V s' = v_now V s" "\<forall>t \<in> due time s'. t \<in> due time s \<and> sv_timers s' t = sv_timers s t"
    "\<not> again \<longrightarrow> due time s' = {}" "again \<longrightarrow> 2 \<le> card (due time s)"
    "due time s = {} \<and> l = [] \<or> (\<exists>t. l = [(t, sv_trigger s t)] \<and> t \<in> due time s - due time s' \<and>
       (\<forall>u \<in> due time s. sv_trigger s t \<le> sv_trigger s u))"
    "leaves_due time run \<longrightarrow> due time s = due time s' \<union> fst ` set l"
    by (rule round_done [OF Suc.prems(1-4)], rule that; assumption)
  show ?case
  proof (cases again)
    case False
    then show ?thesis using r by auto
  next
    case True
    then have two: "2 \<le> card (due time s)" using r(8) by simp
    then have "due time s \<noteq> {}" by auto
    then obtain t where t: "l = [(t, sv_trigger s t)]" "t \<in> due time s" "t \<notin> due time s'"
      "\<forall>u \<in> due time s. sv_trigger s t \<le> sv_trigger s u" using r(9) by auto
    have "card (due time s') < card (due time s)"
      by (rule psubset_card_mono) (use r(6) t in auto)
    then have c: "card (due time s') \<le> n" using Suc.prems(5) by simp
    show ?thesis
    proof -
      have "0 < n" using two Suc.prems(5) by simp
      then obtain l' s'' where i: "sv_rounds n V run time s' = Some (l', s'')" "sv_inv agrees s''" "sv_hold s'' = sv_hold s'"
        "v_now V s'' = v_now V s'" "due time s'' = {}" "sorted (map snd l')" "distinct (map fst l')"
        "\<forall>(t, x) \<in> set l'. t \<in> due time s' \<and> x = sv_trigger s' t" "leaves_due time run \<longrightarrow> fst ` set l' = due time s'"
        using Suc.IH [OF r(2,3), OF _ _ c] Suc.prems(3,4) r(5,6) by (auto simp: r(5))
      have l': "u \<in> due time s \<and> u \<noteq> t \<and> x = sv_trigger s u \<and> sv_trigger s t \<le> x" if "(u, x) \<in> set l'" for u x
        using that i(8) r(6) t(3,4) by fastforce
      have rounds: "sv_rounds (Suc n) V run time s = Some ((t, sv_trigger s t) # l', s'')"
        using True by (simp add: r(1) i(1) t(1))
      have "sorted (map snd ((t, sv_trigger s t) # l'))" "distinct (map fst ((t, sv_trigger s t) # l'))"
        using i(6,7) l' by (auto, blast)
      moreover have "\<forall>(u, x) \<in> set ((t, sv_trigger s t) # l'). u \<in> due time s \<and> x = sv_trigger s u"
        using l' t(2) by auto
      moreover have "sv_hold s'' = sv_hold s" "v_now V s'' = v_now V s" using i(3,4) r(4,5) by simp_all
      moreover have "leaves_due time run \<longrightarrow> fst ` set ((t, sv_trigger s t) # l') = due time s"
        using i(9) r(10) t(1) by auto
      ultimately show ?thesis using rounds i(2,5) by blast
    qed
  qed
qed simp

lemma progressed_done:
  assumes "sv_inv agrees s" "able s" "time \<le> v_now V s"
    "\<forall>t \<in> due time s. prompt (v_rate V) (v_now V s) time (tm_kind (sv_timers s t))" "card (due time s) \<le> n" "0 < n"
  shows "\<exists>l s'. sv_Progressed n V run time s = Some (l, s') \<and> sv_inv agrees s' \<and> \<not> sv_hold s' \<and> due time s' = {} \<and>
    sorted (map snd l) \<and> distinct (map fst l) \<and> (\<forall>(t, x) \<in> set l. t \<in> due time s \<and> x = sv_trigger s t) \<and>
    (leaves_due time run \<longrightarrow> fst ` set l = due time s)"
proof -
  let ?s = "s\<lparr>sv_hold := True\<rparr>"
  have n: "v_now V ?s = v_now V s" "v_resolution V ?s = v_resolution V s" by (auto intro: now_ext resolution_ext)
  have d: "due time ?s = due time s" by (simp add: due_def)
  from rounds_done [OF hold_inv [OF assms(1)] able_now [OF assms(2) n], of n]
  obtain l s' where r: "sv_rounds n V run time ?s = Some (l, s')" "sv_inv agrees s'" "due time s' = {}"
    "sorted (map snd l)" "distinct (map fst l)" "\<forall>(t, x) \<in> set l. t \<in> due time s \<and> x = sv_trigger s t"
    "leaves_due time run \<longrightarrow> fst ` set l = due time s"
    using assms(3-) by (auto simp: n d)
  then show ?thesis using release_inv [OF r(2)] by (auto simp: sv_Progressed_def due_def)
qed

end

end
