(* ===== verification/Timer_Clients.thy ===== *)
theory Timer_Clients
  imports Timer_Service
begin

text \<open>
  Clients of a timer service: calls to its timers as commands, actions that give commands, and jumps
  of time. The commands are those that exist for the class of a timer. Over any derived class that keeps the contract,
  every sequence of calls keeps the invariant of the service, and triggering what is due with actions that
  start timers for later calls every due timer that is not cancelled, in order.
\<close>

section \<open>Commands\<close>

datatype 'f command =
    Start_at nat int 'f
  | Start_for nat int 'f
  | Start_repeating nat int 'f
  | Start_limited nat u32 int 'f
  | Start_alternating nat int 'f int 'f
  | Start_alarm nat int 'f
  | Cancel_timer nat

fun command_timer :: "'f command \<Rightarrow> nat" where
  "command_timer (Start_at t x f) = t"
| "command_timer (Start_for t d f) = t"
| "command_timer (Start_repeating t d f) = t"
| "command_timer (Start_limited t n d f) = t"
| "command_timer (Start_alternating t d1 f1 d2 f2) = t"
| "command_timer (Start_alarm t d f) = t"
| "command_timer (Cancel_timer t) = t"

text \<open>Whether the class of a timer has the operation.\<close>

fun command_fits :: "'f command \<Rightarrow> 'f timer_kind \<Rightarrow> bool" where
  "command_fits (Start_at t x f) k = (k = Single_shot)"
| "command_fits (Start_for t d f) k = (k = Single_shot)"
| "command_fits (Start_repeating t d f) k = (case k of Repeating p \<Rightarrow> True | _ \<Rightarrow> False)"
| "command_fits (Start_limited t n d f) k = (case k of Limited p m \<Rightarrow> True | _ \<Rightarrow> False)"
| "command_fits (Start_alternating t d1 f1 d2 f2) k = (case k of Alternating e1 e2 a1 a2 i x \<Rightarrow> True | _ \<Rightarrow> False)"
| "command_fits (Start_alarm t d f) k = (case k of Alarm e \<Rightarrow> True | _ \<Rightarrow> False)"
| "command_fits (Cancel_timer t) k = True"

fun command_run :: "('f, 'z) service_scheme service_class \<Rightarrow> 'f command \<Rightarrow> ('f, 'z) service_scheme \<Rightarrow>
    ('f, 'z) service_scheme" where
  "command_run V (Start_at t x f) s = ts_start_at V t x (Act f) s"
| "command_run V (Start_for t d f) s = ts_start_for V t d (Act f) s"
| "command_run V (Start_repeating t d f) s = tr_StartTimer V t d (Act f) s"
| "command_run V (Start_limited t n d f) s = tl_Start V t n d (Act f) s"
| "command_run V (Start_alternating t d1 f1 d2 f2) s = ta_Start V t d1 (Act f1) d2 (Act f2) s"
| "command_run V (Start_alarm t d f) s = al_Start V t d (Act f) s"
| "command_run V (Cancel_timer t) s = tm_Cancel V t s"

definition command :: "('f, 'z) service_scheme service_class \<Rightarrow> 'f command \<Rightarrow> ('f, 'z) service_scheme \<Rightarrow>
    ('f, 'z) service_scheme" where
  "command V c s = (if command_fits c (tm_kind (sv_timers s (command_timer c))) then command_run V c s else s)"

text \<open>When a command starts its timer for a time after \<open>time\<close>.\<close>

fun command_later :: "int \<Rightarrow> int \<Rightarrow> int \<Rightarrow> int \<Rightarrow> 'f command \<Rightarrow> bool" where
  "command_later rate now res time (Start_at t x f) = (time < x + res)"
| "command_later rate now res time (Start_for t d f) = (0 < d + res)"
| "command_later rate now res time (Start_repeating t d f) = (0 < d + res)"
| "command_later rate now res time (Start_limited t n d f) = (0 < d + res)"
| "command_later rate now res time (Start_alternating t d1 f1 d2 f2) = (0 < d1 + res)"
| "command_later rate now res time (Start_alarm t d f) = (0 \<le> d \<and> alarm_range rate now)"
| "command_later rate now res time (Cancel_timer t) = True"

text \<open>An action of the client gives commands, which may depend on the state when it is called.\<close>

definition script :: "('f, 'z) service_scheme service_class \<Rightarrow> ('f \<Rightarrow> ('f, 'z) service_scheme \<Rightarrow> 'f command list) \<Rightarrow>
    'f action \<Rightarrow> ('f, 'z) service_scheme \<Rightarrow> ('f, 'z) service_scheme" where
  "script V cl a s = (case a of Act f \<Rightarrow> fold (command V) (cl f s) s | Empty_function \<Rightarrow> s)"

definition scripts_later :: "('f, 'z) service_scheme service_class \<Rightarrow> ('f \<Rightarrow> ('f, 'z) service_scheme \<Rightarrow> 'f command list) \<Rightarrow>
    int \<Rightarrow> ('f, 'z) service_scheme \<Rightarrow> bool" where
  "scripts_later V cl time s = (time \<le> v_now V s \<and> (\<forall>f s'. v_now V s' = v_now V s \<longrightarrow> v_resolution V s' = v_resolution V s \<longrightarrow>
     (\<forall>c \<in> set (cl f s'). command_later (v_rate V) (v_now V s) (v_resolution V s) time c)))"

context timer_class begin

lemma command_inv:
  assumes "sv_inv agrees s"
  shows "sv_inv agrees (command V c s)"
  using assms
  by (cases c) (auto simp: command_def cancel_inv' start_at_inv start_for_inv start_limited_inv start_alternating_inv
      start_alarm_inv split: timer_kind.splits intro: start_repeating_inv)

lemma command_others:
  "u \<noteq> command_timer c \<Longrightarrow> sv_timers (command V c s) u = sv_timers s u"
  "sv_hold (command V c s) = sv_hold s" "v_now V (command V c s) = v_now V s"
  "v_resolution V (command V c s) = v_resolution V s"
  by (cases c; simp add: command_def ts_start_at_def ts_start_for_def tr_StartTimer_def tl_Start_def ta_Start_def
      ta_ComputeNextTriggerTime_def al_Start_def al_compute_def Let_def)+

lemma command_moves_on:
  assumes "command_later (v_rate V) (v_now V s) (v_resolution V s) time c" "time \<le> v_now V s" "t = command_timer c"
    "tm_Armed (sv_timers (command V c s) t)" "sv_trigger (command V c s) t \<le> time"
  shows "sv_timers (command V c s) t = sv_timers s t"
  using assms start_of_day_next [of "v_rate V" "v_now V s"]
  by (cases c) (auto simp: command_def ts_start_at_def ts_start_for_def tr_StartTimer_def tl_Start_def ta_Start_def
      ta_ComputeNextTriggerTime_def al_Start_def al_compute_def Let_def tm_Armed_def tr_set_period_def tr_period_def
      ta_triggerStart_def ta_advance_def al_midnight_def split: if_splits timer_kind.splits)

lemma commands_inv: "sv_inv agrees s \<Longrightarrow> sv_inv agrees (fold (command V) cs s)"
  by (induction cs arbitrary: s) (simp_all add: command_inv)

lemma commands_others:
  "sv_hold (fold (command V) cs s) = sv_hold s" "v_now V (fold (command V) cs s) = v_now V s"
  "v_resolution V (fold (command V) cs s) = v_resolution V s"
  by (induction cs arbitrary: s) (simp_all add: command_others)

lemma commands_later:
  assumes "sv_inv agrees s" "\<forall>c \<in> set cs. command_later (v_rate V) (v_now V s) (v_resolution V s) time c"
    "time \<le> v_now V s" "t \<in> due time (fold (command V) cs s)"
  shows "t \<in> due time s \<and> sv_timers (fold (command V) cs s) t = sv_timers s t"
  using assms
proof (induction cs arbitrary: s)
  case (Cons c cs)
  let ?s = "command V c s"
  have i: "sv_inv agrees ?s" using Cons.prems(1) by (rule command_inv)
  have t: "t \<in> due time ?s \<and> sv_timers (fold (command V) cs ?s) t = sv_timers ?s t"
    by (rule Cons.IH [OF i]) (use Cons.prems in \<open>simp_all add: command_others\<close>)
  then have armed: "tm_Armed (sv_timers ?s t)" "sv_trigger ?s t \<le> time"
    using i by (auto simp: due_def sv_inv_def sv_wf_def)
  have "sv_timers ?s t = sv_timers s t"
    using command_moves_on [of s time c t] command_others(1) [of t c s] Cons.prems armed by (cases "t = command_timer c") auto
  then show ?case using t armed Cons.prems(1) by (auto simp: due_def sv_inv_def sv_wf_def)
qed simp

text \<open>Any actions keep the invariant; actions that start timers for later keep what the triggering relies on.\<close>

lemma script_inv: "sv_inv agrees s \<Longrightarrow> sv_inv agrees (script V cl a s)"
  by (cases a) (simp_all add: script_def commands_inv)

lemma round_inv:
  assumes "sv_inv agrees s" "\<And>s a. sv_inv agrees s \<Longrightarrow> sv_inv agrees (run a s)" "sv_round V run time s = (l, again, s')"
  shows "sv_inv agrees s'"
proof -
  define s1 where "s1 = s\<lparr>sv_iterator := None\<rparr>"
  have "agrees s1" using assms(1) by (auto simp: s1_def sv_inv_def elim: agrees_ext)
  then have inv1: "sv_inv agrees s1" using assms(1) unfolding s1_def
    by (simp add: sv_inv_def sv_wf_def sv_next_ok_def sv_kinds_but_def)
  have wf: "distinct (sv_scheduled s)" "\<And>t. t \<in> set (sv_scheduled s) \<Longrightarrow> tm_Armed (sv_timers s1 t)"
    using assms(1) by (auto simp: s1_def sv_inv_def sv_wf_def)
  show ?thesis
  proof (cases rule: scan_cases [OF wf(1), of time "sv_trigger s"])
    case 1
    then show ?thesis using assms(3) inv1 by (simp add: sv_round_def s1_def)
  next
    case (2 t again')
    have "tm_Action (sv_timers s1 t) \<noteq> None" using inv_armed(2) [OF inv1 wf(2)] 2(2) by blast
    then show ?thesis using 2 assms(3) compute_trigger_inv [OF inv1 wf(2)] assms(2)
      by (auto simp: sv_round_def s1_def [symmetric] Let_def split: option.splits)
  qed
qed

lemma rounds_inv:
  assumes "sv_inv agrees s" "\<And>s a. sv_inv agrees s \<Longrightarrow> sv_inv agrees (run a s)" "sv_rounds n V run time s = Some (l, s')"
  shows "sv_inv agrees s'"
  using assms(1,3)
proof (induction n arbitrary: s l)
  case (Suc n)
  obtain m again s1 where r: "sv_round V run time s = (m, again, s1)" by (cases "sv_round V run time s") auto
  have "sv_inv agrees s1" by (rule round_inv [OF Suc.prems(1) assms(2) r])
  then show ?case using Suc.prems(2) Suc.IH [of s1] r by (auto split: if_splits option.splits)
qed simp

lemma progressed_inv:
  assumes "sv_inv agrees s" "sv_Progressed n V (script V cl) time s = Some (l, s')"
  shows "sv_inv agrees s' \<and> \<not> sv_hold s'"
proof -
  obtain s1 where r: "sv_rounds n V (script V cl) time (s\<lparr>sv_hold := True\<rparr>) = Some (l, s1)" and s': "s' = sv_release V s1"
    using assms(2) by (auto simp: sv_Progressed_def split: option.splits)
  have "sv_inv agrees s1" by (rule rounds_inv [OF hold_inv [OF assms(1)] script_inv r])
  then show ?thesis unfolding s' using release_inv by blast
qed

end

text \<open>A client whose actions start timers for later only keeps the contract on which triggering relies.\<close>

sublocale timer_class \<subseteq> scripts: later_client V agrees "script V cl" time "scripts_later V cl time" for cl time
proof
  fix s a t
  assume inv: "sv_inv agrees s" and later: "scripts_later V cl time s"
  show "sv_inv agrees (script V cl a s)" using inv by (rule script_inv)
  show "scripts_later V cl time (script V cl a s)"
    using later by (cases a) (simp_all add: script_def scripts_later_def commands_others)
  show "t \<in> due time s \<and> sv_timers (script V cl a s) t = sv_timers s t" if "t \<in> due time (script V cl a s)"
    using that commands_later [OF inv, of _ time t] later by (cases a) (auto simp: script_def scripts_later_def)
next
  fix a s
  show "sv_hold (script V cl a s) = sv_hold s" "v_now V (script V cl a s) = v_now V s"
    by (cases a; simp add: script_def commands_others)+
next
  fix s s'
  assume "scripts_later V cl time s" "v_now V s' = v_now V s" "v_resolution V s' = v_resolution V s"
  then show "scripts_later V cl time s'" by (simp add: scripts_later_def)
qed

section \<open>Jumps\<close>

text \<open>The trigger of a timer after a jump.\<close>

definition jump_trigger :: "int \<Rightarrow> int \<Rightarrow> int \<Rightarrow> 'f timer \<Rightarrow> int" where
  "jump_trigger rate from_time to tm = (case tm_kind tm of
      Alarm d \<Rightarrow> (let x = al_StartOfDay rate to + d in if x \<ge> to then x else x + day_seconds * rate)
    | _ \<Rightarrow> tm_next tm + (to - from_time))"

lemma next_node_in: "t \<notin> set xs \<Longrightarrow> next_node t (xs @ t # ys) = (case ys of [] \<Rightarrow> None | y # zs \<Rightarrow> Some y)"
  by (induction xs) (auto split: list.splits)

context timer_class begin

lemma compute_iterator [simp]: "sv_iterator (sv_ComputeNextTrigger V s) = sv_iterator s"
  by simp

lemma set_next_iterator [simp]: "sv_iterator (tm_SetNextTriggerTime V t x a s) = sv_iterator s"
  by (auto simp: tm_SetNextTriggerTime_def Let_def sv_RegisterTimer_def sv_UpdateTriggerTime_def)

lemma jumped_timer:
  assumes "tm_Armed (sv_timers s t)"
  shows "sv_timers (tm_Jumped V t f to s) = (sv_timers s)(t := (sv_timers s t)
      \<lparr>tm_next := jump_trigger (v_rate V) f to (sv_timers s t), tm_action := tm_Action (sv_timers s t)\<rparr>)"
    "sv_scheduled (tm_Jumped V t f to s) = sv_scheduled s" "sv_iterator (tm_Jumped V t f to s) = sv_iterator s"
    "sv_hold (tm_Jumped V t f to s) = sv_hold s"
  using assms by (auto simp: tm_Jumped_def al_Jumped_def Let_def jump_trigger_def al_midnight_def split: timer_kind.splits)

lemma iterator_inv: "sv_inv agrees s \<Longrightarrow> sv_inv agrees (s\<lparr>sv_iterator := i\<rparr>)"
proof -
  assume a: "sv_inv agrees s"
  then have "agrees (s\<lparr>sv_iterator := i\<rparr>)" by (auto simp: sv_inv_def elim: agrees_ext)
  then show ?thesis using a by (simp add: sv_inv_def sv_wf_def sv_next_ok_def sv_kinds_but_def)
qed

lemma jump_loop_done:
  assumes "sv_inv agrees s" "sv_scheduled s = xs @ ts" "sv_iterator s = (case ts of [] \<Rightarrow> None | t # us \<Rightarrow> Some t)"
    "length ts \<le> n"
  shows "\<exists>s'. sv_jump_loop n V f to s = Some s' \<and> sv_inv agrees s' \<and> sv_scheduled s' = sv_scheduled s \<and>
    (\<forall>t. sv_trigger s' t = (if t \<in> set ts then jump_trigger (v_rate V) f to (sv_timers s t) else sv_trigger s t)) \<and>
    (\<forall>t. tm_kind (sv_timers s' t) = tm_kind (sv_timers s t))"
  using assms
proof (induction ts arbitrary: s xs n)
  case Nil
  then show ?case by (subst sv_jump_loop.simps) simp
next
  case (Cons t ts)
  then obtain m where n: "n = Suc m" "length ts \<le> m" by (cases n) auto
  define s1 where "s1 = s\<lparr>sv_iterator := next_node t (sv_scheduled s)\<rparr>"
  have inv1: "sv_inv agrees s1" unfolding s1_def by (rule iterator_inv) (rule Cons.prems)
  have d: "distinct (xs @ t # ts)" "tm_Armed (sv_timers s t)"
    using Cons.prems(1,2) by (auto simp: sv_inv_def sv_wf_def)
  define s2 where "s2 = tm_Jumped V t f to s1"
  have armed: "tm_Armed (sv_timers s1 t)" using d by (simp add: s1_def)
  note j = jumped_timer [OF armed, of f to, folded s2_def]
  have inv2: "sv_inv agrees s2" unfolding s2_def by (rule jumped_timer_inv [OF inv1 armed])
  have "sv_scheduled s2 = (xs @ [t]) @ ts" "sv_iterator s2 = (case ts of [] \<Rightarrow> None | t # us \<Rightarrow> Some t)"
    using j Cons.prems(2) d by (simp_all add: s1_def next_node_in)
  from Cons.IH [OF inv2 this n(2)] obtain s' where s': "sv_jump_loop m V f to s2 = Some s'" "sv_inv agrees s'"
    "sv_scheduled s' = sv_scheduled s2"
    "\<forall>u. sv_trigger s' u = (if u \<in> set ts then jump_trigger (v_rate V) f to (sv_timers s2 u) else sv_trigger s2 u)"
    "\<forall>u. tm_kind (sv_timers s' u) = tm_kind (sv_timers s2 u)" by blast
  have "sv_jump_loop n V f to s = Some s'"
    using s'(1) Cons.prems(3) by (subst sv_jump_loop.simps) (simp add: n(1) s2_def s1_def)
  moreover have "sv_scheduled s' = sv_scheduled s" using s'(3) j by (simp add: s1_def)
  moreover have "sv_trigger s' u = (if u \<in> set (t # ts) then jump_trigger (v_rate V) f to (sv_timers s u) else sv_trigger s u)"
    for u using s'(4) j d by (auto simp: s1_def)
  moreover have "tm_kind (sv_timers s' u) = tm_kind (sv_timers s u)" for u
    using s'(5) j by (simp add: s1_def)
  ultimately show ?case using s'(2) by blast
qed

lemma jumped_done:
  assumes "sv_inv agrees s" "length (sv_scheduled s) \<le> n"
  shows "\<exists>s'. sv_Jumped n V f to s = Some s' \<and> sv_inv agrees s' \<and> \<not> sv_hold s' \<and> sv_scheduled s' = sv_scheduled s \<and>
    (\<forall>t \<in> set (sv_scheduled s). sv_trigger s' t = jump_trigger (v_rate V) f to (sv_timers s t)) \<and>
    (\<forall>t. tm_kind (sv_timers s' t) = tm_kind (sv_timers s t))"
proof -
  define s2 where "s2 = s\<lparr>sv_hold := True, sv_iterator := (case sv_scheduled s of [] \<Rightarrow> None | t # ts \<Rightarrow> Some t)\<rparr>"
  have "agrees s2" using assms(1) by (auto simp: s2_def sv_inv_def elim: agrees_ext)
  then have i2: "sv_inv agrees s2" using assms(1)
    by (simp add: s2_def sv_inv_def sv_wf_def sv_next_ok_def sv_kinds_but_def)
  have e2: "sv_Jumped n V f to s = map_option (sv_release V) (sv_jump_loop n V f to s2)"
    by (simp add: sv_Jumped_def s2_def Let_def)
  have t2: "sv_timers s2 = sv_timers s" "sv_scheduled s2 = sv_scheduled s" by (simp_all add: s2_def)
  have "sv_scheduled s2 = [] @ sv_scheduled s" "sv_iterator s2 = (case sv_scheduled s of [] \<Rightarrow> None | t # us \<Rightarrow> Some t)"
    by (simp_all add: s2_def)
  from jump_loop_done [OF i2 this assms(2)] obtain s' where s': "sv_jump_loop n V f to s2 = Some s'" "sv_inv agrees s'"
    "sv_scheduled s' = sv_scheduled s"
    "\<forall>t. sv_trigger s' t = (if t \<in> set (sv_scheduled s) then jump_trigger (v_rate V) f to (sv_timers s t) else sv_trigger s t)"
    "\<forall>t. tm_kind (sv_timers s' t) = tm_kind (sv_timers s t)" unfolding t2 by blast
  show ?thesis unfolding e2 s'(1) using s' release_inv [OF s'(2)] by auto
qed

end

text \<open>While updates are held, moving an armed timer does not call the derived class, and after a jump it is called only
  when the next trigger has changed.\<close>

lemma next_node_set: "next_node t xs = Some u \<Longrightarrow> u \<in> set xs"
  by (induction xs) (auto split: if_splits list.splits)

context timer_class begin

lemma weaker_class: "timer_class V (\<lambda>_. True)"
  by unfold_locales (rule changed now_changed now_ext resolution_changed resolution_ext TrueI; assumption?)+

lemma set_next_quiet:
  assumes "sv_hold s" "tm_Armed (sv_timers s t)"
  shows "service.more (tm_SetNextTriggerTime V t x a s) = service.more s" "sv_next (tm_SetNextTriggerTime V t x a s) = sv_next s"
  using assms by (simp_all add: tm_SetNextTriggerTime_def sv_UpdateTriggerTime_def sv_ComputeNextTrigger_def Let_def)

lemma jumped_timer_quiet:
  assumes "sv_hold s" "tm_Armed (sv_timers s t)"
  shows "service.more (tm_Jumped V t f to s) = service.more s" "sv_next (tm_Jumped V t f to s) = sv_next s"
  using assms by (simp_all add: tm_Jumped_def al_Jumped_def Let_def set_next_quiet split: timer_kind.split)

lemma jump_loop_quiet:
  "sv_inv agrees s \<Longrightarrow> sv_hold s \<Longrightarrow> \<forall>t. sv_iterator s = Some t \<longrightarrow> t \<in> set (sv_scheduled s) \<Longrightarrow>
   sv_jump_loop n V f to s = Some s' \<Longrightarrow> service.more s' = service.more s \<and> sv_next s' = sv_next s \<and> sv_hold s'"
proof (induction n arbitrary: s)
  case 0
  then show ?case by (subst (asm) sv_jump_loop.simps) (auto split: option.splits)
next
  case (Suc n)
  show ?case
  proof (cases "sv_iterator s")
    case None
    then show ?thesis using Suc.prems by (subst (asm) sv_jump_loop.simps) simp
  next
    case (Some t)
    define s1 where "s1 = s\<lparr>sv_iterator := next_node t (sv_scheduled s)\<rparr>"
    have s1: "sv_inv agrees s1" "sv_hold s1" "tm_Armed (sv_timers s1 t)" "sv_next s1 = sv_next s" "service.more s1 = service.more s"
      using iterator_inv [OF Suc.prems(1)] Suc.prems(1-3) Some by (auto simp: s1_def sv_inv_def sv_wf_def)
    have r: "sv_jump_loop n V f to (tm_Jumped V t f to s1) = Some s'"
      using Suc.prems(4) Some by (subst (asm) sv_jump_loop.simps) (simp add: s1_def)
    note j = jumped_timer [OF s1(3), of f to] jumped_timer_quiet [OF s1(2,3), of f to]
    have "\<forall>u. sv_iterator (tm_Jumped V t f to s1) = Some u \<longrightarrow> u \<in> set (sv_scheduled (tm_Jumped V t f to s1))"
      using j by (auto simp: s1_def dest: next_node_set)
    from Suc.IH [OF jumped_timer_inv [OF s1(1,3)] _ this r] show ?thesis using j s1 by simp
  qed
qed

lemma jumped_quiet:
  assumes "sv_inv agrees s" "sv_Jumped n V f to s = Some s'" "sv_next s' = sv_next s"
  shows "service.more s' = service.more s"
proof -
  define s2 where "s2 = s\<lparr>sv_hold := True, sv_iterator := (case sv_scheduled s of [] \<Rightarrow> None | t # ts \<Rightarrow> Some t)\<rparr>"
  obtain s3 where s3: "sv_jump_loop n V f to s2 = Some s3" "s' = sv_release V s3"
    using assms(2) by (auto simp: sv_Jumped_def s2_def Let_def)
  have "agrees s2" using assms(1) by (auto simp: s2_def sv_inv_def elim: agrees_ext)
  then have i2: "sv_inv agrees s2" using assms(1)
    by (simp add: s2_def sv_inv_def sv_wf_def sv_next_ok_def sv_kinds_but_def)
  have "service.more s3 = service.more s \<and> sv_next s3 = sv_next s"
    using jump_loop_quiet [OF i2 _ _ s3(1)] by (auto simp: s2_def split: list.splits)
  moreover have "service.more (sv_release V s3) = service.more s3" if "sv_next (sv_release V s3) = sv_next s3"
    using that by (auto simp: sv_release_def sv_ComputeNextTrigger_def Let_def split: if_splits)
  ultimately show ?thesis using assms(3) s3(2) by simp
qed

end

text \<open>When nothing is due, nothing is called and nothing is waited for again.\<close>

lemma nothing_due:
  assumes "\<not> sv_hold s" "\<not> sv_update s" "\<forall>t \<in> set (sv_scheduled s). time < sv_trigger s t"
  shows "sv_Progressed (Suc n) V run time s = Some ([], s\<lparr>sv_iterator := None\<rparr>)"
proof -
  have "sv_scan (sv_trigger s) time (sv_scheduled s) None False = (None, False)" using assms(3) by (rule scan_none)
  moreover have "s\<lparr>sv_hold := False\<rparr> = s" using assms(1) by (cases s) simp
  then have "s\<lparr>sv_iterator := None, sv_hold := False\<rparr> = s\<lparr>sv_iterator := None\<rparr>" using assms(1) by (cases s) simp
  ultimately show ?thesis using assms(2) by (simp add: sv_Progressed_def sv_round_def sv_release_def Let_def)
qed

section \<open>Histories\<close>

text \<open>Everything a derived class and its clients do: commands, progress with the actions of the client, and
  jumps, each with enough rounds.\<close>

datatype 'f event = Do "'f command" | Progress nat int | Jump nat int int

definition event_step :: "('f, 'z) service_scheme service_class \<Rightarrow> ('f \<Rightarrow> ('f, 'z) service_scheme \<Rightarrow> 'f command list) \<Rightarrow>
    'f event \<Rightarrow> ('f, 'z) service_scheme \<Rightarrow> ('f, 'z) service_scheme option" where
  "event_step V cl e s = (case e of
      Do c \<Rightarrow> Some (command V c s)
    | Progress n time \<Rightarrow> map_option snd (sv_Progressed n V (script V cl) time s)
    | Jump n f to \<Rightarrow> sv_Jumped n V f to s)"

fun event_run :: "('f, 'z) service_scheme service_class \<Rightarrow> ('f \<Rightarrow> ('f, 'z) service_scheme \<Rightarrow> 'f command list) \<Rightarrow>
    'f event list \<Rightarrow> ('f, 'z) service_scheme \<Rightarrow> ('f, 'z) service_scheme option" where
  "event_run V cl [] s = Some s"
| "event_run V cl (e # es) s = (case event_step V cl e s of None \<Rightarrow> None | Some s1 \<Rightarrow> event_run V cl es s1)"

context timer_class begin

lemma jump_loop_inv:
  "sv_inv agrees s \<Longrightarrow> sv_scheduled s = xs @ ts \<Longrightarrow> sv_iterator s = (case ts of [] \<Rightarrow> None | t # us \<Rightarrow> Some t) \<Longrightarrow>
    n < length ts \<Longrightarrow> sv_jump_loop n V f to s = None"
proof (induction n arbitrary: s xs ts)
  case 0
  then show ?case by (subst sv_jump_loop.simps) (cases ts; auto)
next
  case (Suc n)
  then obtain t us where ts: "ts = t # us" "n < length us" by (cases ts) auto
  define s1 where "s1 = s\<lparr>sv_iterator := next_node t (sv_scheduled s)\<rparr>"
  have inv1: "sv_inv agrees s1" unfolding s1_def by (rule iterator_inv) (rule Suc.prems)
  have d: "distinct (xs @ t # us)" "tm_Armed (sv_timers s1 t)"
    using Suc.prems(1,2) by (auto simp: s1_def ts(1) sv_inv_def sv_wf_def)
  note j = jumped_timer [OF d(2), of f to]
  have "sv_jump_loop n V f to (tm_Jumped V t f to s1) = None"
    by (rule Suc.IH [OF jumped_timer_inv [OF inv1 d(2)], where xs = "xs @ [t]" and ts = us])
      (use j Suc.prems(2) d ts in \<open>simp_all add: s1_def next_node_in\<close>)
  then show ?case using Suc.prems(3) by (subst sv_jump_loop.simps) (simp add: ts s1_def)
qed

lemma event_step_inv:
  assumes "sv_inv agrees s" "\<not> sv_hold s" "event_step V cl e s = Some s'"
  shows "sv_inv agrees s' \<and> \<not> sv_hold s'"
proof (cases e)
  case (Do c)
  then show ?thesis using assms command_inv [OF assms(1)] by (auto simp: event_step_def command_others)
next
  case (Progress n time)
  then show ?thesis using assms progressed_inv [OF assms(1)] by (auto simp: event_step_def)
next
  case (Jump n f to)
  show ?thesis
  proof (cases "length (sv_scheduled s) \<le> n")
    case True
    then show ?thesis using assms jumped_done [OF assms(1), of n f to] Jump by (auto simp: event_step_def)
  next
    case False
    define s2 where "s2 = s\<lparr>sv_hold := True, sv_iterator := (case sv_scheduled s of [] \<Rightarrow> None | t # ts \<Rightarrow> Some t)\<rparr>"
    have "agrees s2" using assms(1) by (auto simp: s2_def sv_inv_def elim: agrees_ext)
    then have "sv_inv agrees s2" using assms(1)
      by (simp add: s2_def sv_inv_def sv_wf_def sv_next_ok_def sv_kinds_but_def)
    then have "sv_jump_loop n V f to s2 = None"
      by (rule jump_loop_inv [where xs = "[]" and ts = "sv_scheduled s"]) (use False in \<open>auto simp: s2_def\<close>)
    then show ?thesis using assms(3) Jump by (simp add: event_step_def sv_Jumped_def s2_def Let_def)
  qed
qed

lemma event_run_inv:
  "sv_inv agrees s \<Longrightarrow> \<not> sv_hold s \<Longrightarrow> event_run V cl es s = Some s' \<Longrightarrow> sv_inv agrees s' \<and> \<not> sv_hold s'"
  by (induction es arbitrary: s) (auto split: option.splits dest: event_step_inv)

lemma event_run_next:
  assumes "sv_inv agrees s" "\<not> sv_hold s" "event_run V cl es s = Some s'"
  shows "sv_next s' = earliest (sv_trigger s') (sv_scheduled s') \<and> agrees s' \<and>
    (\<forall>t. t \<in> set (sv_scheduled s') \<longleftrightarrow> tm_Armed (sv_timers s' t))"
  using event_run_inv [OF assms] by (auto simp: sv_inv_def sv_next_ok_def sv_wf_def)

end

end
