(* ===== verification/Timer_Classes.thy ===== *)
theory Timer_Classes
  imports Timer_Clients
begin

text \<open>
  The classes that derive from \<open>TimerService\<close>: \<open>TickOnInterruptTimerService\<close> (TickOnInterruptTimerService.cpp), which counts the
  ticks of an interrupt, and \<open>DerivedTimerService\<close> and \<open>ScalableDerivedTimerService\<close> (the files of the same names), whose time
  is that of another service, shifted or scaled, and which wait with a timer of that service. Each is shown to keep
  the contract of Timer_Service.
\<close>

section \<open>Fields of a derived class\<close>

text \<open>What \<open>NextTriggerChanged\<close> leaves alone, every operation of the service leaves alone.\<close>

locale timer_field = timer_class V agrees
  for V :: "('f, 'z) service_scheme service_class" and agrees :: "('f, 'z) service_scheme \<Rightarrow> bool" +
  fixes kept :: "('f, 'z) service_scheme \<Rightarrow> 'k"
  assumes kept_changed: "kept (v_changed V s) = kept s"
    and kept_ext: "service.more s' = service.more s \<Longrightarrow> kept s' = kept s"
begin

lemma kept_fields [simp]:
  "kept (s\<lparr>sv_update := u\<rparr>) = kept s" "kept (s\<lparr>sv_next := x\<rparr>) = kept s" "kept (s\<lparr>sv_scheduled := ts\<rparr>) = kept s"
  "kept (s\<lparr>sv_iterator := i\<rparr>) = kept s" "kept (s\<lparr>sv_hold := h\<rparr>) = kept s" "kept (s\<lparr>sv_failed := e\<rparr>) = kept s"
  "kept (sv_put t g s) = kept s"
  by (rule kept_ext; simp)+

lemma compute_kept [simp]: "kept (sv_ComputeNextTrigger V s) = kept s"
  by (simp add: sv_ComputeNextTrigger_def Let_def kept_changed)

lemma set_next_kept [simp]: "kept (tm_SetNextTriggerTime V t x a s) = kept s"
  by (simp add: tm_SetNextTriggerTime_def sv_RegisterTimer_def sv_UpdateTriggerTime_def Let_def kept_changed)

lemma cancel_kept [simp]: "kept (tm_Cancel V t s) = kept s"
  by (simp add: tm_Cancel_def sv_UnregisterTimer_def Let_def)

lemma compute_trigger_kept: "kept (tm_ComputeNextTriggerTime V t s) = kept s"
  by (simp add: tm_ComputeNextTriggerTime_def tr_ComputeNextTriggerTime_def tl_ComputeNextTriggerTime_def
      tc_ComputeNextTriggerTime_def ta_ComputeNextTriggerTime_def al_compute_def Let_def split: timer_kind.split)

lemma command_kept: "kept (command V c s) = kept s"
  by (cases c; simp add: command_def ts_start_at_def ts_start_for_def tr_StartTimer_def tl_Start_def ta_Start_def
      ta_ComputeNextTriggerTime_def al_Start_def al_compute_def Let_def)

lemma commands_kept: "kept (fold (command V) cs s) = kept s"
  by (induction cs arbitrary: s) (simp_all add: command_kept)

lemma script_kept: "kept (script V cl a s) = kept s"
  by (cases a) (simp_all add: script_def commands_kept)

lemma round_kept: "sv_round V (script V cl) time s = (l, again, s') \<Longrightarrow> kept s' = kept s"
  by (auto simp: sv_round_def Let_def compute_trigger_kept script_kept split: prod.splits option.splits)

lemma rounds_kept: "sv_rounds n V (script V cl) time s = Some (l, s') \<Longrightarrow> kept s' = kept s"
proof (induction n arbitrary: s l)
  case (Suc n)
  obtain m again s1 where r: "sv_round V (script V cl) time s = (m, again, s1)"
    by (cases "sv_round V (script V cl) time s") auto
  then show ?case using Suc.prems Suc.IH [of s1] round_kept [OF r] by (auto split: if_splits option.splits)
qed simp

lemma progressed_kept: "sv_Progressed n V (script V cl) time s = Some (l, s') \<Longrightarrow> kept s' = kept s"
  by (auto simp: sv_Progressed_def sv_release_def Let_def dest: rounds_kept split: option.splits)

end

section \<open>TickOnInterruptTimerService\<close>

text \<open>\<open>tk_events\<close> counts the calls to \<open>ProcessTicks\<close> that wait in the event dispatcher.\<close>

record 'f tick_service = "'f service" +
  tk_systemTime :: int
  tk_resolution :: int
  tk_nextNotification :: u32
  tk_progressed :: u32
  tk_notificationScheduled :: bool
  tk_events :: nat

definition tk_never :: u32 where
  "tk_never = 2 ^ 31 - 1"

text \<open>The ticks to the next notification, of which the lower 32 bits are kept.\<close>

definition tk_ticks_to :: "int \<Rightarrow> int \<Rightarrow> int \<Rightarrow> u32" where
  "tk_ticks_to systemTime resolution nextTrigger =
    (if nextTrigger \<noteq> time_max then
       let durationToNextNotification = (if nextTrigger > systemTime then nextTrigger - systemTime else 0)
       in min (word_of_int ((durationToNextNotification + resolution - 1) sdiv resolution)) tk_never
     else tk_never)"

definition tk_CalculateNextTrigger :: "'f tick_service \<Rightarrow> 'f tick_service" where
  "tk_CalculateNextTrigger s =
    s\<lparr>tk_nextNotification := tk_ticks_to (tk_systemTime s) (tk_resolution s) (sv_next s)\<rparr>"

definition tk_NextTriggerChanged :: "'f tick_service \<Rightarrow> 'f tick_service" where
  "tk_NextTriggerChanged s = tk_CalculateNextTrigger s"

definition tk_Now :: "'f tick_service \<Rightarrow> int" where
  "tk_Now s = tk_systemTime s + uint (tk_progressed s) * tk_resolution s"

definition tick_class :: "int \<Rightarrow> 'f tick_service service_class" where
  "tick_class rate = \<lparr>v_changed = tk_NextTriggerChanged, v_now = tk_Now, v_resolution = tk_resolution, v_rate = rate\<rparr>"

text \<open>The constructor asserts that there is an event dispatcher.\<close>

definition tk_construct :: "bool \<Rightarrow> int \<Rightarrow> 'f tick_service \<Rightarrow> 'f tick_service result" where
  "tk_construct dispatcherSet resolution s = really_assert dispatcherSet (Inr (tk_CalculateNextTrigger ((sv_construct s)
    \<lparr>tk_systemTime := 0, tk_resolution := resolution, tk_nextNotification := 0, tk_progressed := 0,
     tk_notificationScheduled := False, tk_events := 0\<rparr>)))"

definition tk_SetResolution :: "int \<Rightarrow> 'f tick_service \<Rightarrow> 'f tick_service" where
  "tk_SetResolution resolution s = tk_NextTriggerChanged (s\<lparr>tk_resolution := resolution\<rparr>)"

definition tk_TimeProgressed :: "nat \<Rightarrow> int \<Rightarrow> ('f action \<Rightarrow> 'f tick_service \<Rightarrow> 'f tick_service) \<Rightarrow> int \<Rightarrow> 'f tick_service \<Rightarrow>
    ((nat \<times> int) list \<times> 'f tick_service) option" where
  "tk_TimeProgressed n rate run amount s =
    (let s1 = s\<lparr>tk_systemTime := tk_systemTime s + amount\<rparr>
     in sv_Progressed n (tick_class rate) run (tk_systemTime s1) s1)"

definition tk_SystemTickInterrupt :: "'f tick_service \<Rightarrow> 'f tick_service" where
  "tk_SystemTickInterrupt s =
    (let s1 = s\<lparr>tk_progressed := tk_progressed s + 1\<rparr>
     in if tk_progressed s1 \<ge> tk_nextNotification s1 then
          let before = tk_notificationScheduled s1;
              s2 = s1\<lparr>tk_notificationScheduled := True\<rparr>
          in if \<not> before then s2\<lparr>tk_events := tk_events s2 + 1\<rparr> else s2
        else s1)"

text \<open>\<open>ProcessTicks\<close>, called from the dispatcher, in the pieces between which an interrupt can fall: progress, the
  comparison, and storing its result, after which it is called again if that is true.\<close>

definition tk_process_progress :: "nat \<Rightarrow> int \<Rightarrow> ('f action \<Rightarrow> 'f tick_service \<Rightarrow> 'f tick_service) \<Rightarrow> 'f tick_service \<Rightarrow>
    ((nat \<times> int) list \<times> 'f tick_service) option" where
  "tk_process_progress n rate run s =
    (let s1 = s\<lparr>tk_events := tk_events s - 1\<rparr>;
         amount = uint (tk_progressed s1) * tk_resolution s1
     in map_option (\<lambda>(l, s2). (l, tk_NextTriggerChanged s2))
          (tk_TimeProgressed n rate run amount (s1\<lparr>tk_progressed := 0\<rparr>)))"

definition tk_process_compare :: "'f tick_service \<Rightarrow> bool" where
  "tk_process_compare s = (tk_progressed s \<ge> tk_nextNotification s)"

definition tk_process_store :: "bool \<Rightarrow> 'f tick_service \<Rightarrow> 'f tick_service" where
  "tk_process_store reschedule s =
    (let s1 = s\<lparr>tk_notificationScheduled := reschedule\<rparr>
     in if reschedule then s1\<lparr>tk_events := tk_events s1 + 1\<rparr> else s1)"

definition tk_ProcessTicks :: "nat \<Rightarrow> int \<Rightarrow> ('f action \<Rightarrow> 'f tick_service \<Rightarrow> 'f tick_service) \<Rightarrow> 'f tick_service \<Rightarrow>
    ((nat \<times> int) list \<times> 'f tick_service) option" where
  "tk_ProcessTicks n rate run s =
    map_option (\<lambda>(l, s1). (l, tk_process_store (tk_process_compare s1) s1)) (tk_process_progress n rate run s)"

section \<open>DerivedTimerService\<close>

text \<open>The derived service holds the service it derives from, of which it uses one timer (\<open>tid\<close>). \<open>token\<close> stands for the
  function object that it starts that timer with; calling it is \<open>dv_trigger\<close>.\<close>

record ('f, 'b) derived_service = "'f service" +
  dv_base :: 'b
  dv_shift :: int
  dv_nextTrigger :: int

definition dv_NextTriggerChanged :: "('g, 'y) service_scheme service_class \<Rightarrow> nat \<Rightarrow> 'g \<Rightarrow>
    ('f, ('g, 'y) service_scheme) derived_service \<Rightarrow> ('f, ('g, 'y) service_scheme) derived_service" where
  "dv_NextTriggerChanged B tid token s =
    (let s1 = s\<lparr>dv_nextTrigger := sv_next s - dv_shift s\<rparr>
     in if sv_next s1 \<noteq> time_max then s1\<lparr>dv_base := ts_start_at B tid (dv_nextTrigger s1) (Act token) (dv_base s1)\<rparr>
        else s1\<lparr>dv_base := tm_Cancel B tid (dv_base s1)\<rparr>)"

definition dv_Now :: "('g, 'y) service_scheme service_class \<Rightarrow> ('f, ('g, 'y) service_scheme) derived_service \<Rightarrow> int" where
  "dv_Now B s = v_now B (dv_base s) + dv_shift s"

definition dv_Resolution :: "('g, 'y) service_scheme service_class \<Rightarrow> ('f, ('g, 'y) service_scheme) derived_service \<Rightarrow> int" where
  "dv_Resolution B s = v_resolution B (dv_base s)"

definition derived_class :: "('g, 'y) service_scheme service_class \<Rightarrow> nat \<Rightarrow> 'g \<Rightarrow>
    ('f, ('g, 'y) service_scheme) derived_service service_class" where
  "derived_class B tid token = \<lparr>v_changed = dv_NextTriggerChanged B tid token, v_now = dv_Now B,
    v_resolution = dv_Resolution B, v_rate = v_rate B\<rparr>"

definition dv_construct :: "('f, 'b) derived_service \<Rightarrow> ('f, 'b) derived_service" where
  "dv_construct s = (sv_construct s)\<lparr>dv_shift := 0\<rparr>"

text \<open>What the timer of the other service does when it is triggered.\<close>

definition dv_trigger :: "nat \<Rightarrow> ('g, 'y) service_scheme service_class \<Rightarrow> nat \<Rightarrow> 'g \<Rightarrow>
    ('f action \<Rightarrow> ('f, ('g, 'y) service_scheme) derived_service \<Rightarrow> ('f, ('g, 'y) service_scheme) derived_service) \<Rightarrow>
    ('f, ('g, 'y) service_scheme) derived_service \<Rightarrow>
    ((nat \<times> int) list \<times> ('f, ('g, 'y) service_scheme) derived_service) option" where
  "dv_trigger n B tid token run s = sv_Progressed n (derived_class B tid token) run (dv_nextTrigger s + dv_shift s) s"

definition dv_Shift :: "nat \<Rightarrow> ('g, 'y) service_scheme service_class \<Rightarrow> nat \<Rightarrow> 'g \<Rightarrow> int \<Rightarrow>
    ('f, ('g, 'y) service_scheme) derived_service \<Rightarrow> ('f, ('g, 'y) service_scheme) derived_service option" where
  "dv_Shift n B tid token shift s =
    (let oldTime = dv_Now B s;
         s1 = s\<lparr>dv_shift := shift\<rparr>
     in sv_Jumped n (derived_class B tid token) oldTime (dv_Now B s1) s1)"

definition dv_GetCurrentShift :: "('f, 'b) derived_service \<Rightarrow> int" where
  "dv_GetCurrentShift s = dv_shift s"

section \<open>ScalableDerivedTimerService\<close>

record ('f, 'b) scalable_service = "'f service" +
  sd_base :: 'b
  sd_shift :: int
  sd_factor :: int
  sd_startPoint :: int
  sd_nextTrigger :: int

definition sd_ScaleTime :: "('f, 'b) scalable_service \<Rightarrow> int \<Rightarrow> int" where
  "sd_ScaleTime s time = sd_startPoint s + (time - sd_startPoint s + sd_shift s) * sd_factor s"

definition sd_UnscaleTime :: "('f, 'b) scalable_service \<Rightarrow> int \<Rightarrow> int" where
  "sd_UnscaleTime s time = (time - sd_startPoint s) sdiv sd_factor s - sd_shift s + sd_startPoint s"

definition sd_NextTriggerChanged :: "('g, 'y) service_scheme service_class \<Rightarrow> nat \<Rightarrow> 'g \<Rightarrow>
    ('f, ('g, 'y) service_scheme) scalable_service \<Rightarrow> ('f, ('g, 'y) service_scheme) scalable_service" where
  "sd_NextTriggerChanged B tid token s =
    (let s1 = s\<lparr>sd_nextTrigger := sd_UnscaleTime s (sv_next s)\<rparr>
     in if sv_next s1 \<noteq> time_max then s1\<lparr>sd_base := ts_start_at B tid (sd_nextTrigger s1) (Act token) (sd_base s1)\<rparr>
        else s1\<lparr>sd_base := tm_Cancel B tid (sd_base s1)\<rparr>)"

definition sd_Now :: "('g, 'y) service_scheme service_class \<Rightarrow> ('f, ('g, 'y) service_scheme) scalable_service \<Rightarrow> int" where
  "sd_Now B s = sd_ScaleTime s (v_now B (sd_base s))"

definition sd_Resolution :: "('g, 'y) service_scheme service_class \<Rightarrow> ('f, ('g, 'y) service_scheme) scalable_service \<Rightarrow> int" where
  "sd_Resolution B s = v_resolution B (sd_base s) * sd_factor s"

definition scalable_class :: "('g, 'y) service_scheme service_class \<Rightarrow> nat \<Rightarrow> 'g \<Rightarrow>
    ('f, ('g, 'y) service_scheme) scalable_service service_class" where
  "scalable_class B tid token = \<lparr>v_changed = sd_NextTriggerChanged B tid token, v_now = sd_Now B,
    v_resolution = sd_Resolution B, v_rate = v_rate B\<rparr>"

definition sd_construct :: "('f, 'b) scalable_service \<Rightarrow> ('f, 'b) scalable_service" where
  "sd_construct s = (sv_construct s)\<lparr>sd_shift := 0, sd_factor := 1, sd_startPoint := 0\<rparr>"

definition sd_trigger :: "nat \<Rightarrow> ('g, 'y) service_scheme service_class \<Rightarrow> nat \<Rightarrow> 'g \<Rightarrow>
    ('f action \<Rightarrow> ('f, ('g, 'y) service_scheme) scalable_service \<Rightarrow> ('f, ('g, 'y) service_scheme) scalable_service) \<Rightarrow>
    ('f, ('g, 'y) service_scheme) scalable_service \<Rightarrow>
    ((nat \<times> int) list \<times> ('f, ('g, 'y) service_scheme) scalable_service) option" where
  "sd_trigger n B tid token run s = sv_Progressed n (scalable_class B tid token) run (sd_ScaleTime s (sd_nextTrigger s)) s"

definition sd_Shift :: "('g, 'y) service_scheme service_class \<Rightarrow> nat \<Rightarrow> 'g \<Rightarrow> int \<Rightarrow>
    ('f, ('g, 'y) service_scheme) scalable_service \<Rightarrow> ('f, ('g, 'y) service_scheme) scalable_service" where
  "sd_Shift B tid token shift s = sd_NextTriggerChanged B tid token (s\<lparr>sd_shift := shift\<rparr>)"

definition sd_Scale :: "('g, 'y) service_scheme service_class \<Rightarrow> nat \<Rightarrow> 'g \<Rightarrow> int \<Rightarrow>
    ('f, ('g, 'y) service_scheme) scalable_service \<Rightarrow> ('f, ('g, 'y) service_scheme) scalable_service" where
  "sd_Scale B tid token factor s =
    (let s1 = s\<lparr>sd_startPoint := sd_Now B s\<rparr>;
         s2 = s1\<lparr>sd_factor := factor\<rparr>;
         s3 = s2\<lparr>sd_shift := sd_shift s2 + (sd_startPoint s2 - sd_Now B s2)\<rparr>
     in sd_NextTriggerChanged B tid token s3)"

definition sd_GetCurrentShift :: "('f, 'b) scalable_service \<Rightarrow> int" where
  "sd_GetCurrentShift s = sd_shift s"


section \<open>The contract of the classes\<close>

text \<open>Rewriting with a derived service whose field is a service itself.\<close>

lemma dv_base_simps [simp]:
  "sv_timers (s\<lparr>dv_base := x\<rparr>) = sv_timers s"
  "sv_scheduled (s\<lparr>dv_base := x\<rparr>) = sv_scheduled s"
  "sv_iterator (s\<lparr>dv_base := x\<rparr>) = sv_iterator s"
  "sv_next (s\<lparr>dv_base := x\<rparr>) = sv_next s" "sv_hold (s\<lparr>dv_base := x\<rparr>) = sv_hold s"
  "sv_update (s\<lparr>dv_base := x\<rparr>) = sv_update s" "sv_failed (s\<lparr>dv_base := x\<rparr>) = sv_failed s"
  "dv_shift (s\<lparr>dv_base := x\<rparr>) = dv_shift s"
  "dv_nextTrigger (s\<lparr>dv_base := x\<rparr>) = dv_nextTrigger s"
  by simp_all

lemma sd_base_simps [simp]:
  "sv_timers (s\<lparr>sd_base := x\<rparr>) = sv_timers s"
  "sv_scheduled (s\<lparr>sd_base := x\<rparr>) = sv_scheduled s"
  "sv_iterator (s\<lparr>sd_base := x\<rparr>) = sv_iterator s"
  "sv_next (s\<lparr>sd_base := x\<rparr>) = sv_next s" "sv_hold (s\<lparr>sd_base := x\<rparr>) = sv_hold s"
  "sv_update (s\<lparr>sd_base := x\<rparr>) = sv_update s" "sv_failed (s\<lparr>sd_base := x\<rparr>) = sv_failed s"
  "sd_shift (s\<lparr>sd_base := x\<rparr>) = sd_shift s"
  "sd_factor (s\<lparr>sd_base := x\<rparr>) = sd_factor s"
  "sd_startPoint (s\<lparr>sd_base := x\<rparr>) = sd_startPoint s"
  "sd_nextTrigger (s\<lparr>sd_base := x\<rparr>) = sd_nextTrigger s"
  by simp_all

definition tk_agrees :: "'f tick_service \<Rightarrow> bool" where
  "tk_agrees s = (tk_nextNotification s = tk_ticks_to (tk_systemTime s) (tk_resolution s) (sv_next s))"

lemma tick_laws:
  "service.truncate (tk_NextTriggerChanged s) = service.truncate s"
  "tk_Now (tk_NextTriggerChanged s) = tk_Now s" "tk_resolution (tk_NextTriggerChanged s) = tk_resolution s"
  "tk_agrees (tk_NextTriggerChanged s)"
  by (simp_all add: tk_NextTriggerChanged_def tk_CalculateNextTrigger_def service.truncate_def tk_Now_def tk_agrees_def)

lemma tk_more:
  "service.more s = \<lparr>tk_systemTime = tk_systemTime s, tk_resolution = tk_resolution s,
     tk_nextNotification = tk_nextNotification s, tk_progressed = tk_progressed s,
     tk_notificationScheduled = tk_notificationScheduled s, tk_events = tk_events s\<rparr>"
  by (cases s) simp

lemma tk_ext:
  "service.more s' = service.more s \<Longrightarrow> tk_Now s' = tk_Now s \<and> tk_resolution s' = tk_resolution s \<and>
     tk_systemTime s' = tk_systemTime s \<and> tk_nextNotification s' = tk_nextNotification s"
  by (simp add: tk_more tk_Now_def)

lemma v_resolution_tick: "v_resolution (tick_class rate) = tk_resolution"
  by (simp add: tick_class_def)

interpretation tick: timer_class "tick_class rate" tk_agrees for rate
  by unfold_locales (auto simp: tick_class_def tick_laws, auto simp: tk_agrees_def dest!: tk_ext)

text \<open>While the time advances, the notification is not yet the one of the next trigger.\<close>

interpretation tick_progress: timer_class "tick_class rate" "\<lambda>_. True" for rate
  by unfold_locales (auto simp: tick_class_def tick_laws dest!: tk_ext)

lemma tk_flags_changed [simp]:
  "tk_events (tk_NextTriggerChanged s) = tk_events s"
  "tk_notificationScheduled (tk_NextTriggerChanged s) = tk_notificationScheduled s"
  "tk_progressed (tk_NextTriggerChanged s) = tk_progressed s" "tk_systemTime (tk_NextTriggerChanged s) = tk_systemTime s"
  by (simp_all add: tk_NextTriggerChanged_def tk_CalculateNextTrigger_def)

interpretation tick_flags: timer_field "tick_class rate" "\<lambda>_. True" 
  "\<lambda>s. (tk_events s, tk_notificationScheduled s, tk_progressed s, tk_systemTime s, tk_resolution s)" for rate
  by unfold_locales (simp_all add: tick_class_def tk_more tick_laws)

text \<open>The timer of the other service waits for the next trigger, unless there is none or it is out of range.\<close>

definition waits_for :: "('g, 'y) service_scheme service_class \<Rightarrow> nat \<Rightarrow> int \<Rightarrow> bool \<Rightarrow> ('g, 'y) service_scheme \<Rightarrow> bool" where
  "waits_for B tid time some b =
    (if some \<and> time < time_max - v_resolution B b then
       tm_Armed (sv_timers b tid) \<and> sv_trigger b tid = time + v_resolution B b
     else \<not> tm_Armed (sv_timers b tid))"

definition dv_agrees :: "('g, 'y) service_scheme service_class \<Rightarrow> nat \<Rightarrow>
    ('f, ('g, 'y) service_scheme) derived_service \<Rightarrow> bool" where
  "dv_agrees B tid s = (dv_nextTrigger s = sv_next s - dv_shift s \<and>
     waits_for B tid (dv_nextTrigger s) (sv_next s \<noteq> time_max) (dv_base s))"

definition sd_agrees :: "('g, 'y) service_scheme service_class \<Rightarrow> nat \<Rightarrow>
    ('f, ('g, 'y) service_scheme) scalable_service \<Rightarrow> bool" where
  "sd_agrees B tid s = (sd_nextTrigger s = sd_UnscaleTime s (sv_next s) \<and>
     waits_for B tid (sd_nextTrigger s) (sv_next s \<noteq> time_max) (sd_base s))"

lemma dv_more: "service.more s = \<lparr>dv_base = dv_base s, dv_shift = dv_shift s, dv_nextTrigger = dv_nextTrigger s\<rparr>"
  by (cases s) simp

lemma sd_more: "service.more s = \<lparr>sd_base = sd_base s, sd_shift = sd_shift s, sd_factor = sd_factor s,
    sd_startPoint = sd_startPoint s, sd_nextTrigger = sd_nextTrigger s\<rparr>"
  by (cases s) simp

context timer_class begin

lemma start_at_waits: "waits_for V tid time True (ts_start_at V tid time (Act f) s)"
  by (simp add: waits_for_def ts_start_at_def tm_Armed_def)

lemma start_at_others [simp]:
  "v_now V (ts_start_at V t x a s) = v_now V s" "v_resolution V (ts_start_at V t x a s) = v_resolution V s"
  by (simp_all add: ts_start_at_def)

lemma cancel_waits: "waits_for V tid time False (tm_Cancel V tid s)"
  by (simp add: waits_for_def tm_Armed_def)

lemma derived_laws: "timer_class (derived_class V tid token) (dv_agrees V tid)"
proof
  fix s s' :: "('f2, ('f, 'z) service_scheme) derived_service"
  show "service.truncate (v_changed (derived_class V tid token) s) = service.truncate s"
    by (simp add: derived_class_def dv_NextTriggerChanged_def Let_def service.truncate_def)
  show "dv_agrees V tid (v_changed (derived_class V tid token) s)"
    by (simp add: derived_class_def dv_NextTriggerChanged_def Let_def dv_agrees_def start_at_waits cancel_waits)
  show "v_now (derived_class V tid token) (v_changed (derived_class V tid token) s) = v_now (derived_class V tid token) s"
    "v_resolution (derived_class V tid token) (v_changed (derived_class V tid token) s)
      = v_resolution (derived_class V tid token) s"
    by (simp_all add: derived_class_def dv_NextTriggerChanged_def Let_def dv_Now_def dv_Resolution_def)
  assume m: "service.more s' = service.more s"
  then show "v_now (derived_class V tid token) s' = v_now (derived_class V tid token) s"
    "v_resolution (derived_class V tid token) s' = v_resolution (derived_class V tid token) s"
    by (simp_all add: dv_more derived_class_def dv_Now_def dv_Resolution_def)
  show "dv_agrees V tid s'" if "dv_agrees V tid s" "sv_next s' = sv_next s"
    using m that by (auto simp: dv_more dv_agrees_def)
qed

lemma scalable_laws: "timer_class (scalable_class V tid token) (sd_agrees V tid)"
proof
  fix s s' :: "('f2, ('f, 'z) service_scheme) scalable_service"
  show "service.truncate (v_changed (scalable_class V tid token) s) = service.truncate s"
    by (simp add: scalable_class_def sd_NextTriggerChanged_def Let_def service.truncate_def)
  show "sd_agrees V tid (v_changed (scalable_class V tid token) s)"
    by (simp add: scalable_class_def sd_NextTriggerChanged_def Let_def sd_agrees_def start_at_waits cancel_waits
        sd_UnscaleTime_def)
  show "v_now (scalable_class V tid token) (v_changed (scalable_class V tid token) s) = v_now (scalable_class V tid token) s"
    "v_resolution (scalable_class V tid token) (v_changed (scalable_class V tid token) s)
      = v_resolution (scalable_class V tid token) s"
    by (simp_all add: scalable_class_def sd_NextTriggerChanged_def Let_def sd_Now_def sd_Resolution_def sd_ScaleTime_def)
  assume m: "service.more s' = service.more s"
  then show "v_now (scalable_class V tid token) s' = v_now (scalable_class V tid token) s"
    "v_resolution (scalable_class V tid token) s' = v_resolution (scalable_class V tid token) s"
    by (simp_all add: sd_more scalable_class_def sd_Now_def sd_Resolution_def sd_ScaleTime_def)
  show "sd_agrees V tid s'" if "sd_agrees V tid s" "sv_next s' = sv_next s"
    using m that by (auto simp: sd_more sd_agrees_def sd_UnscaleTime_def)
qed

end

text \<open>Services derived from one that counts ticks.\<close>

interpretation derived: timer_class "derived_class (tick_class rate) tid token" "dv_agrees (tick_class rate) tid"
  for rate tid token by (rule tick.derived_laws)

interpretation scalable: timer_class "scalable_class (tick_class rate) tid token" "sd_agrees (tick_class rate) tid"
  for rate tid token by (rule tick.scalable_laws)


section \<open>Properties of the service that counts ticks\<close>

lemma construct_inv:
  assumes "\<forall>t. \<not> tm_Armed (sv_timers s t)" "agrees (sv_construct s)"
  shows "sv_inv agrees (sv_construct s)"
  using assms by (simp add: sv_inv_def sv_construct_def sv_wf_def sv_next_ok_def sv_kinds_but_def)

lemma tk_construct_inv:
  assumes "\<forall>t. \<not> tm_Armed (sv_timers s t)"
  shows "\<exists>s'. tk_construct True resolution s = Inr s' \<and> sv_inv tk_agrees s' \<and> \<not> sv_hold s'"
  using assms by (simp add: sv_inv_def tk_construct_def sv_construct_def sv_wf_def sv_next_ok_def sv_kinds_but_def
        tk_CalculateNextTrigger_def tk_agrees_def)

text \<open>A notification is never later than the first tick at which the next trigger is reached.\<close>

lemma tk_ticks_to_early:
  assumes "0 < resolution" "nextTrigger \<noteq> time_max" "systemTime < nextTrigger" "0 \<le> k"
    "nextTrigger \<le> systemTime + k * resolution"
  shows "uint (tk_ticks_to systemTime resolution nextTrigger) \<le> k"
proof -
  define q where "q = (nextTrigger - systemTime + resolution - 1) sdiv resolution"
  have q: "q = (nextTrigger - systemTime + resolution - 1) div resolution" unfolding q_def
    by (rule sdiv_nonneg) (use assms in simp_all)
  define d where "d = nextTrigger - systemTime + resolution - 1"
  have "d div resolution * resolution + d mod resolution = d" "0 \<le> d mod resolution" using assms(1) by simp_all
  then have "q * resolution \<le> d" unfolding q d_def [symmetric] by linarith
  moreover have "d < (k + 1) * resolution" using assms(1,5) by (simp add: d_def algebra_simps)
  ultimately have "q * resolution < (k + 1) * resolution" by linarith
  then have "q < k + 1" using assms(1) by simp
  moreover have "0 \<le> q" using assms by (simp add: q pos_imp_zdiv_nonneg_iff)
  ultimately have "uint (word_of_int q :: u32) \<le> k" using zmod_le_nonneg_dividend [of q "2 ^ 32"] by (simp add: uint_word_of_int)
  moreover have "uint (min a b) \<le> uint a" for a b :: u32 by (simp add: min_def word_le_def)
  ultimately show ?thesis
    using assms(2,3) by (simp add: tk_ticks_to_def Let_def q_def) (meson order_trans)
qed

text \<open>The service with its interrupt, its client and the dispatcher. \<open>ProcessTicks\<close> takes three steps; the interrupt
  can fall in between.\<close>

datatype tick_phase = Idle | Ticks_progressed | Ticks_compared bool

inductive tick_step :: "int \<Rightarrow> ('f \<Rightarrow> 'f tick_service \<Rightarrow> 'f command list) \<Rightarrow>
    'f tick_service \<times> tick_phase \<Rightarrow> 'f tick_service \<times> tick_phase \<Rightarrow> bool" for rate cl where
  client: "tick_step rate cl (s, Idle) (command (tick_class rate) c s, Idle)"
| resolution: "tick_step rate cl (s, Idle) (tk_SetResolution r s, Idle)"
| interrupt: "tick_step rate cl (s, ph) (tk_SystemTickInterrupt s, ph)"
| progress: "0 < tk_events s \<Longrightarrow> tk_process_progress n rate (script (tick_class rate) cl) s = Some (l, s') \<Longrightarrow>
    tick_step rate cl (s, Idle) (s', Ticks_progressed)"
| compare: "tick_step rate cl (s, Ticks_progressed) (s, Ticks_compared (tk_process_compare s))"
| store: "tick_step rate cl (s, Ticks_compared b) (tk_process_store b s, Idle)"

inductive tick_reachable :: "int \<Rightarrow> ('f \<Rightarrow> 'f tick_service \<Rightarrow> 'f command list) \<Rightarrow>
    'f tick_service \<times> tick_phase \<Rightarrow> bool" for rate cl where
  start: "\<forall>t. \<not> tm_Armed (sv_timers s t) \<Longrightarrow> tk_construct True r s = Inr s' \<Longrightarrow> tick_reachable rate cl (s', Idle)"
| step: "tick_reachable rate cl y \<Longrightarrow> tick_step rate cl y z \<Longrightarrow> tick_reachable rate cl z"

definition tick_inv :: "'f tick_service \<times> tick_phase \<Rightarrow> bool" where
  "tick_inv y = (case y of (s, ph) \<Rightarrow> sv_inv tk_agrees s \<and> \<not> sv_hold s \<and>
     (if ph = Idle then tk_events s = (if tk_notificationScheduled s then 1 else 0)
      else tk_notificationScheduled s \<and> tk_events s = 0))"

lemma tick_interrupt_inv:
  assumes "sv_inv tk_agrees s"
  shows "sv_inv tk_agrees (tk_SystemTickInterrupt s)" "sv_hold (tk_SystemTickInterrupt s) = sv_hold s"
  using assms by (auto simp: tk_SystemTickInterrupt_def Let_def sv_inv_def sv_wf_def sv_next_ok_def sv_kinds_but_def tk_agrees_def)

lemma tick_store_inv:
  assumes "sv_inv tk_agrees s"
  shows "sv_inv tk_agrees (tk_process_store b s)" "sv_hold (tk_process_store b s) = sv_hold s"
  using assms by (auto simp: tk_process_store_def Let_def sv_inv_def sv_wf_def sv_next_ok_def sv_kinds_but_def tk_agrees_def)

lemma tick_changed_inv:
  assumes "sv_inv (\<lambda>_. True) s"
  shows "sv_inv tk_agrees (tk_NextTriggerChanged s)" "sv_hold (tk_NextTriggerChanged s) = sv_hold s"
  using assms by (auto simp: tk_NextTriggerChanged_def tk_CalculateNextTrigger_def sv_inv_def sv_wf_def sv_next_ok_def
      sv_kinds_but_def tk_agrees_def)

text \<open>The time that the first piece of \<open>ProcessTicks\<close> sets before it triggers what is due.\<close>

definition tk_caught_up :: "'f tick_service \<Rightarrow> 'f tick_service" where
  "tk_caught_up s = s\<lparr>tk_events := tk_events s - 1, tk_progressed := 0, tk_systemTime := tk_Now s\<rparr>"

lemma process_progress_eq:
  "tk_process_progress n rate run s =
     map_option (\<lambda>(l, s2). (l, tk_NextTriggerChanged s2)) (sv_Progressed n (tick_class rate) run (tk_Now s) (tk_caught_up s))"
  by (simp add: tk_process_progress_def tk_TimeProgressed_def tk_caught_up_def tk_Now_def Let_def)

lemma caught_up:
  "sv_inv agrees s \<Longrightarrow> sv_inv (\<lambda>_. True) (tk_caught_up s)" "sv_timers (tk_caught_up s) = sv_timers s"
  "due now (tk_caught_up s) = due now s" "tk_Now (tk_caught_up s) = tk_Now s"
  "tk_resolution (tk_caught_up s) = tk_resolution s" "tk_notificationScheduled (tk_caught_up s) = tk_notificationScheduled s"
  "tk_events (tk_caught_up s) = tk_events s - 1"
  by (simp_all add: tk_caught_up_def due_def tk_Now_def sv_inv_def sv_wf_def sv_next_ok_def sv_kinds_but_def)

lemma process_progress_inv:
  assumes "sv_inv tk_agrees s" "tk_process_progress n rate (script (tick_class rate) cl) s = Some (l, s')"
  shows "sv_inv tk_agrees s'" "\<not> sv_hold s'" "tk_notificationScheduled s' = tk_notificationScheduled s"
    "tk_events s' = tk_events s - 1"
proof -
  obtain s2 where r: "sv_Progressed n (tick_class rate) (script (tick_class rate) cl) (tk_Now s) (tk_caught_up s) = Some (l, s2)"
    and s': "s' = tk_NextTriggerChanged s2" using assms(2) by (auto simp: process_progress_eq)
  have "sv_inv (\<lambda>_. True) s2 \<and> \<not> sv_hold s2" by (rule tick_progress.progressed_inv [OF caught_up(1) [OF assms(1)] r])
  then show "sv_inv tk_agrees s'" "\<not> sv_hold s'" using tick_changed_inv unfolding s' by auto
  show "tk_notificationScheduled s' = tk_notificationScheduled s" "tk_events s' = tk_events s - 1"
    using tick_flags.progressed_kept [OF r] by (simp_all add: s' caught_up)
qed

lemma tick_step_inv: "tick_step rate cl y z \<Longrightarrow> tick_inv y \<Longrightarrow> tick_inv z"
proof (induction rule: tick_step.induct)
  case (client s c)
  then show ?case using tick.command_inv [of s rate c] tick.command_others(2) [of rate c s] tick_flags.command_kept [of rate c s]
    by (simp add: tick_inv_def)
next
  case (resolution s r)
  have "sv_inv (\<lambda>_. True) (s\<lparr>tk_resolution := r\<rparr>)"
    using resolution by (simp add: tick_inv_def sv_inv_def sv_wf_def sv_next_ok_def sv_kinds_but_def)
  then show ?case using resolution tick_changed_inv [of "s\<lparr>tk_resolution := r\<rparr>"] by (simp add: tick_inv_def tk_SetResolution_def)
next
  case (interrupt s ph)
  then show ?case using tick_interrupt_inv [of s]
    by (auto simp: tick_inv_def) (auto simp: tk_SystemTickInterrupt_def Let_def split: if_splits)
next
  case (progress s n l s')
  then have n: "sv_inv tk_agrees s" "tk_notificationScheduled s" "tk_events s = 1" by (auto simp: tick_inv_def split: if_splits)
  show ?case using process_progress_inv [OF n(1) progress(2)] n by (simp add: tick_inv_def)
next
  case (compare s)
  then show ?case by (simp add: tick_inv_def)
next
  case (store s b)
  then show ?case using tick_store_inv [of s b] by (cases b) (auto simp: tick_inv_def tk_process_store_def Let_def)
qed

lemma tick_reachable_inv: "tick_reachable rate cl y \<Longrightarrow> tick_inv y"
proof (induction rule: tick_reachable.induct)
  case (start s r s')
  then show ?case using tk_construct_inv [OF start(1), of r] by (auto simp: tick_inv_def tk_construct_def tk_CalculateNextTrigger_def)
qed (rule tick_step_inv)

text \<open>C39: Processing the ticks triggers what is due, in order. Take a TickOnInterruptTimerService in any state that calls to its
  timers (starting single shot, repeating, limited repeating, alternating and alarm timers, and cancelling any), changes of the resolution,
  interrupts and earlier calls of \<open>ProcessTicks\<close> can reach, also when interrupts fell before or after the latter's comparison, and process its ticks with no interrupt in between. Let the client's actions start timers only for later than
  the time that the ticks have reached, let the periods of the repeating timers that are due be positive, let the due alternating
  timers be less than one duration late, and let the due alarms be at a time of the day that is not negative, on a day in the range of
  the calendar. Then as many rounds as timers are due are enough; the timers that are called were
  all due, are called once each and in the order of their triggers, and no timer is due any more; every timer
  that was due is called when the actions leave alone the timers that are due. No assertion has failed, the next trigger is the earliest
  of the armed timers, and the next notification is the one for it.\<close>

theorem ticks_trigger_due:
  fixes s :: "'f tick_service"
  assumes "tick_reachable rate cl (s, Idle)" "now = tk_Now s" "scripts_later (tick_class rate) cl now s"
    "\<forall>t \<in> due now s. prompt rate now now (tm_kind (sv_timers s t))" "card (due now s) \<le> n" "0 < n"
  shows "\<exists>l s'. tk_ProcessTicks n rate (script (tick_class rate) cl) s = Some (l, s') \<and>
    sorted (map snd l) \<and> distinct (map fst l) \<and> (\<forall>(t, x) \<in> set l. t \<in> due now s \<and> x = sv_trigger s t) \<and>
    (leaves_due now (script (tick_class rate) cl) \<longrightarrow> fst ` set l = due now s) \<and> due now s' = {} \<and> \<not> sv_failed s' \<and>
    sv_next s' = earliest (sv_trigger s') (sv_scheduled s') \<and>
    tk_nextNotification s' = tk_ticks_to (tk_systemTime s') (tk_resolution s') (sv_next s')"
proof -
  have inv: "sv_inv tk_agrees s" using tick_reachable_inv [OF assms(1)] by (simp add: tick_inv_def)
  have v: "v_now (tick_class rate) (tk_caught_up s) = now" "v_rate (tick_class rate) = rate"
    using assms(2) by (simp_all add: tick_class_def caught_up)
  have later: "scripts_later (tick_class rate) cl now (tk_caught_up s)"
    using assms(3) by (simp add: scripts_later_def tick_class_def caught_up)
  from tick_progress.scripts.progressed_done [OF caught_up(1) [OF inv] later, unfolded v caught_up, OF order_refl assms(4-6)]
  obtain l s2 where r: "sv_Progressed n (tick_class rate) (script (tick_class rate) cl) now (tk_caught_up s) = Some (l, s2)"
    "sv_inv (\<lambda>_. True) s2" "due now s2 = {}" "sorted (map snd l)" "distinct (map fst l)"
    "\<forall>(t, x) \<in> set l. t \<in> due now s \<and> x = sv_trigger s t" "\<not> sv_hold s2"
    "leaves_due now (script (tick_class rate) cl) \<longrightarrow> fst ` set l = due now s" by blast
  define s3 where "s3 = tk_process_store (tk_process_compare (tk_NextTriggerChanged s2)) (tk_NextTriggerChanged s2)"
  have "tk_ProcessTicks n rate (script (tick_class rate) cl) s = Some (l, s3)"
    using r(1) by (simp add: tk_ProcessTicks_def process_progress_eq assms(2) s3_def)
  moreover have "sv_inv tk_agrees s3" "\<not> sv_hold s3"
    unfolding s3_def using tick_store_inv tick_changed_inv [OF r(2)] r(7) by auto
  moreover have "due now s3 = {}"
    using r(3) by (simp add: s3_def due_def tk_process_store_def tk_NextTriggerChanged_def tk_CalculateNextTrigger_def Let_def)
  ultimately show ?thesis using r(4-6,8) by (auto simp: sv_inv_def sv_wf_def sv_next_ok_def tk_agrees_def)
qed

text \<open>A timer that is started for a time in the future, and ticks to beyond that time.\<close>

definition blank_ticks :: "unit tick_service" where
  "blank_ticks = \<lparr>sv_timers = (\<lambda>_. tm_construct Single_shot), sv_scheduled = [], sv_iterator = None, sv_next = 0, sv_hold = False,
     sv_update = False, sv_failed = False, tk_systemTime = 0, tk_resolution = 0, tk_nextNotification = 0, tk_progressed = 0,
     tk_notificationScheduled = False, tk_events = 0\<rparr>"

lemma sample_ticks:
  obtains s :: "unit tick_service" where "tick_reachable 1 (\<lambda>_ _. []) (s, Idle)" "tk_Now s = 2" "due 2 s = {0}" "tm_kind (sv_timers s 0) = Single_shot"
proof -
  obtain s1 where s1: "tk_construct True 1 blank_ticks = Inr s1" by (simp add: tk_construct_def)
  let ?s2 = "command (tick_class 1) (Start_at 0 1 ()) s1"
  let ?s3 = "tk_SystemTickInterrupt (tk_SystemTickInterrupt ?s2)"
  have blank: "sv_timers s1 = (\<lambda>_. tm_construct Single_shot)" "sv_scheduled s1 = []" "tk_progressed s1 = 0"
    "tk_systemTime s1 = 0" "tk_resolution s1 = 1"
    using s1 by (auto simp: tk_construct_def tk_CalculateNextTrigger_def sv_construct_def blank_ticks_def)
  have "tick_reachable 1 (\<lambda>_ _. []) (s1, Idle)"
    by (rule tick_reachable.start [OF _ s1]) (simp add: blank_ticks_def tm_construct_def tm_Armed_def)
  then have "tick_reachable 1 (\<lambda>_ _. []) (?s3, Idle)" by (meson tick_reachable.step tick_step.client tick_step.interrupt)
  moreover have "sv_timers ?s2 = (\<lambda>_. tm_construct Single_shot)(0 := (tm_construct Single_shot)\<lparr>tm_next := 2, tm_action := Some (Act ())\<rparr>)"
    "sv_scheduled ?s2 = [0]"
    using blank by (simp_all add: command_def ts_start_at_def tm_construct_def time_max_def tm_Armed_def v_resolution_tick)
  moreover have "tk_progressed ?s2 = 0" "tk_systemTime ?s2 = 0" "tk_resolution ?s2 = 1"
    using tick_flags.command_kept [of 1 "Start_at 0 1 ()" s1] blank by simp_all
  moreover have "sv_timers (tk_SystemTickInterrupt s) = sv_timers s" "sv_scheduled (tk_SystemTickInterrupt s) = sv_scheduled s"
    "tk_progressed (tk_SystemTickInterrupt s) = tk_progressed s + 1" "tk_systemTime (tk_SystemTickInterrupt s) = tk_systemTime s"
    "tk_resolution (tk_SystemTickInterrupt s) = tk_resolution s" for s :: "unit tick_service"
    by (simp_all add: tk_SystemTickInterrupt_def Let_def)
  ultimately show ?thesis by (intro that [of ?s3]) (auto simp: tk_Now_def due_def tm_construct_def)
qed

theorem ticks_trigger_due_witness:
  "\<exists>(s :: unit tick_service) l s'. tk_Now s = 2 \<and> tk_ProcessTicks 1 1 (script (tick_class 1) (\<lambda>_ _. [])) s = Some (l, s') \<and> fst ` set l = {0 :: nat}"
proof -
  obtain s :: "unit tick_service" where s: "tick_reachable 1 (\<lambda>_ _. []) (s, Idle)" "tk_Now s = 2" "due 2 s = {0}" "tm_kind (sv_timers s 0) = Single_shot"
    by (rule sample_ticks)
  have "scripts_later (tick_class 1) (\<lambda>_ _. []) 2 s" using s(2) by (simp add: scripts_later_def tick_class_def)
  moreover have "\<forall>t \<in> due 2 s. prompt 1 2 2 (tm_kind (sv_timers s t))" using s(3,4) by (simp add: prompt_def)
  moreover have "card (due 2 s) \<le> 1" using s(3) by simp
  ultimately obtain l s' where r: "tk_ProcessTicks 1 1 (script (tick_class 1) (\<lambda>_ _. [])) s = Some (l, s')"
      "leaves_due 2 (script (tick_class 1) (\<lambda>_ _. []) :: unit action \<Rightarrow> _) \<longrightarrow> fst ` set l = due 2 s"
    using ticks_trigger_due [OF s(1) s(2) [symmetric], of 1] zero_less_one [where 'a = nat] by blast
  have "script (tick_class 1) (\<lambda>_ _. []) a s = s" for a and s :: "unit tick_service"
    by (cases a) (simp_all add: script_def)
  then have "leaves_due 2 (script (tick_class 1) (\<lambda>_ _. []) :: unit action \<Rightarrow> unit tick_service \<Rightarrow> unit tick_service)"
    unfolding leaves_due_def by metis
  with r(2) have "fst ` set l = {0}" unfolding s(3) by (rule mp)
  with s(2) r(1) show ?thesis by (intro exI conjI)
qed

lemma word_step: "p + 1 \<noteq> (0 :: u32) \<Longrightarrow> p < p + 1"
  using unatSuc [of p] by (simp add: word_less_nat_alt add.commute)

text \<open>An interrupt can fall between the comparison at the end of \<open>ProcessTicks\<close> and the storing of its
  result. If that interrupt counts the tick of the next notification, the notification is not scheduled, by neither of them: after both
  nothing waits in the dispatcher although the ticks have reached the notification, until the next tick.\<close>

lemma tick_between_compare_and_store:
  assumes "tk_notificationScheduled s" "tk_progressed s + 1 = tk_nextNotification s" "0 < tk_nextNotification s"
    "tk_nextNotification s \<le> tk_never" "tk_events s = 0"
  shows "tk_process_compare (tk_SystemTickInterrupt s) \<and>
    (let s' = tk_process_store (tk_process_compare s) (tk_SystemTickInterrupt s)
     in tk_events s' = 0 \<and> \<not> tk_notificationScheduled s' \<and> tk_progressed s' \<ge> tk_nextNotification s' \<and>
       tk_events (tk_SystemTickInterrupt s') = 1)"
proof -
  define n where "n = tk_nextNotification s"
  have n: "tk_progressed s + 1 = n" "n \<noteq> 0" "n \<le> tk_never" using assms(2-4) by (auto simp: n_def)
  have "\<not> n \<le> tk_progressed s" using word_step [of "tk_progressed s"] n by auto
  moreover have "n + 1 \<noteq> 0"
  proof
    assume "n + 1 = 0"
    then have "n = - 1" by (simp add: eq_neg_iff_add_eq_0)
    then have "uint n = 2 ^ 32 - 1" by (simp add: uint_word_ariths)
    then show False using n(3) by (simp add: tk_never_def word_le_def)
  qed
  then have "n \<le> n + 1" using word_step [of n] by simp
  ultimately show ?thesis using assms(1,5) n
    by (simp add: tk_process_compare_def tk_process_store_def tk_SystemTickInterrupt_def Let_def n_def [symmetric])
qed

section \<open>What the derived services lose\<close>

interpretation derived_any: timer_class "derived_class (tick_class rate) tid token" "\<lambda>_. True"
  for rate tid token by (rule derived.weaker_class)

lemma earliest_le: "t \<in> set ts \<Longrightarrow> earliest f ts \<le> f t"
  using earliest_le_iff [of "earliest f ts" f ts] by simp

text \<open>\<open>DerivedTimerService::Shift\<close> starts the timer of the other service again only when the next trigger has changed. An
  alarm keeps its trigger when time jumps within a day, so that this timer still waits for the time that
  belongs to the old shift; when the shift has become smaller, nothing is due yet when it is triggered, and
  as the next trigger does not change then either, nothing waits for the alarm any more.\<close>

lemma rate_derived: "v_rate (derived_class (tick_class rate) tid token) = rate"
  by (simp add: derived_class_def tick_class_def)

lemma derived_shift_loses_alarm:
  fixes s :: "('f, 'g tick_service) derived_service"
  assumes "sv_inv (dv_agrees (tick_class rate) tid) s" "\<not> sv_hold s" "length (sv_scheduled s) \<le> n" "shift < dv_shift s"
    and "earliest (\<lambda>t. jump_trigger rate (dv_Now (tick_class rate) s) (v_now (tick_class rate) (dv_base s) + shift) (sv_timers s t))
      (sv_scheduled s) = sv_next s"
  shows "\<exists>s'. dv_Shift n (tick_class rate) tid token shift s = Some s' \<and> dv_base s' = dv_base s \<and> sv_next s' = sv_next s \<and>
    dv_trigger (Suc m) (tick_class rate) tid token run s' = Some ([], s'\<lparr>sv_iterator := None\<rparr>)"
proof -
  let ?s = "s\<lparr>dv_shift := shift\<rparr>" and ?V = "derived_class (tick_class rate) tid token"
    and ?f = "dv_Now (tick_class rate) s" and ?to = "v_now (tick_class rate) (dv_base s) + shift"
  have inv: "sv_inv (\<lambda>_. True) ?s" using assms(1) by (simp add: sv_inv_def sv_wf_def sv_next_ok_def sv_kinds_but_def)
  have "length (sv_scheduled ?s) \<le> n" using assms(3) by simp
  have sc: "sv_scheduled ?s = sv_scheduled s" "sv_timers ?s = sv_timers s" by simp_all
  from derived_any.jumped_done [OF inv \<open>length (sv_scheduled ?s) \<le> n\<close>, of rate tid token ?f ?to] obtain s' where
    s': "sv_Jumped n ?V ?f ?to ?s = Some s'" "sv_inv (\<lambda>_. True) s'" "\<not> sv_hold s'" "sv_scheduled s' = sv_scheduled s"
      "\<forall>t \<in> set (sv_scheduled s). sv_trigger s' t = jump_trigger rate ?f ?to (sv_timers s t)" unfolding sc rate_derived by blast
  have next_eq: "sv_next s' = earliest (sv_trigger s') (sv_scheduled s')" "\<not> sv_update s'"
    using s'(2,3) by (auto simp: sv_inv_def sv_next_ok_def)
  have "earliest (sv_trigger s') (sv_scheduled s') = sv_next s"
    unfolding s'(4) assms(5) [symmetric] by (rule earliest_cong) (use s'(5) in simp)
  then have same: "sv_next s' = sv_next s" by (simp add: next_eq(1))
  have "service.more s' = service.more ?s"
    by (rule derived_any.jumped_quiet [OF inv s'(1)]) (simp add: same)
  then have more: "dv_base s' = dv_base s" "dv_shift s' = shift" "dv_nextTrigger s' = dv_nextTrigger s"
    by (simp_all add: dv_more)
  have old: "dv_nextTrigger s = sv_next s - dv_shift s" using assms(1) by (simp add: sv_inv_def dv_agrees_def)
  have "dv_nextTrigger s' + dv_shift s' < sv_trigger s' t" if "t \<in> set (sv_scheduled s')" for t
    using earliest_le [OF that, of "sv_trigger s'"] next_eq(1) same more old assms(4) by simp
  then have "dv_trigger (Suc m) (tick_class rate) tid token run s' = Some ([], s'\<lparr>sv_iterator := None\<rparr>)"
    unfolding dv_trigger_def by (intro nothing_due s'(3) next_eq(2)) simp
  then show ?thesis using s'(1) more same by (simp add: dv_Shift_def Let_def dv_Now_def)
qed

text \<open>\<open>ScalableDerivedTimerService\<close> rounds the next trigger down when it computes when the timer of the other service is to be
  triggered. When the trigger is not a multiple of the factor behind the start point, it is not due
  then, and as it does not change, nothing waits for it any more.\<close>

lemma scaled_trigger_lost:
  assumes "sv_inv (sd_agrees B tid) s" "\<not> sv_hold s" "0 < sd_factor s" "sd_startPoint s \<le> sv_next s"
    and "(sv_next s - sd_startPoint s) mod sd_factor s \<noteq> 0"
  shows "sd_trigger (Suc n) B tid token run s = Some ([], s\<lparr>sv_iterator := None\<rparr>)"
proof -
  define d where "d = sv_next s - sd_startPoint s"
  have next_eq: "sv_next s = earliest (sv_trigger s) (sv_scheduled s)" "\<not> sv_update s" "sd_nextTrigger s = sd_UnscaleTime s (sv_next s)"
    using assms(1,2) by (auto simp: sv_inv_def sv_next_ok_def sd_agrees_def)
  have "d div sd_factor s * sd_factor s + d mod sd_factor s = d" "0 \<le> d mod sd_factor s" "d mod sd_factor s \<noteq> 0"
    using assms(3,5) by (simp_all add: d_def)
  then have "d div sd_factor s * sd_factor s < d" by linarith
  moreover have "d sdiv sd_factor s = d div sd_factor s" using assms(3,4) by (intro sdiv_nonneg) (simp_all add: d_def)
  ultimately have "sd_ScaleTime s (sd_nextTrigger s) < sv_next s"
    by (simp add: next_eq(3) sd_ScaleTime_def sd_UnscaleTime_def d_def [symmetric]) (simp add: d_def)
  then have "\<forall>t \<in> set (sv_scheduled s). sd_ScaleTime s (sd_nextTrigger s) < sv_trigger s t"
    using earliest_le [of _ "sv_scheduled s" "sv_trigger s"] next_eq(1) by fastforce
  then show ?thesis unfolding sd_trigger_def by (intro nothing_due assms(2) next_eq(2))
qed

end
