(* ===== verification/Spec2Isabelle.thy ===== *)
theory Spec2Isabelle
  imports Bounded_Deque Bounded_Vector Bounded_Forward_List Intrusive_List Intrusive_Forward_List Memory_Range Atomic_Byte_Queue Stream_Writers Stream_Counting Stream_Buffering Text_Roundtrip
    Message_Communication_Cobs Proto_Message Sesame_Handshake Sesame_Cobs Irq_Queue Configuration_Factory Json_Merge Timer_Classes
begin

text \<open>
  A verification development beside the embedded infrastructure library (embedded-infra-lib): containers
  of fixed capacity, queues shared with interrupts, byte streams, the wire format of protobuf messages,
  JSON, two message protocols for serial lines and the store of a device's configuration. The library runs on
  microcontrollers without a heap and without exceptions: capacities are fixed, a failed check stops the program
  (\<open>really_assert\<close>), and asynchronous operations report through callbacks. These are the properties that
  matter for it, so these are modelled: what is stored where, what happens when there is no room,
  which checks fail when, and in which orders the callbacks of the components can come.

  \<^bold>\<open>How the program is modelled.\<close> A class is a record with the class's fields, a method a function
  from the record to the new record and the result, in a sum type: \<open>Inl\<close> with a fault where the code
  asserts, leaves the valid range or loops for ever, \<open>Inr\<close> otherwise (Prelude). \<open>size_t\<close> is an unbounded number
  in the containers, whose sizes are bounded by their storage, and a word of 32 bits where the code computes
  with values that may wrap around: the targets have 32-bit pointers and are little-endian (only the differences of
  \<open>BoundedString\<close> are taken with 64 bits, as where the tests run). Element types are
  trivially copyable: moving an element copies it and destruction has no effect, so that storage is a
  list of slots. Pointers and iterators into a storage are indices. A function that hands itself on as a
  callback is split at the calls that wait, one definition for each piece, and what is pending is part of the state.

  \<^bold>\<open>Containers\<close> (infra/util). Slots: the element-moving loops of BoundedDeque.hpp and BoundedVector.hpp
  over any store of slots. Refinement: a bounded sequence as the specification of both and what it
  means to implement it. Bounded_Deque: \<open>BoundedDeque\<close> as a ring with start and size, with every
  operation, and its iterator; Bounded_Vector: \<open>BoundedVector\<close>. Each has an invariant that every operation
  keeps, the effect of every operation on the abstract list of elements, faults included, and the
  refinement of the bounded sequence by any sequence of operations. Linked: chains of pointers through nodes.
  Bounded_List: \<open>BoundedList\<close> (BoundedList.hpp) with its free list, the refinement of a sequence with positions, the
  nodes every operation leaves in place, and \<open>swap\<close>, which fails when exactly one of the lists is empty.
  Bounded_Forward_List: the singly linked \<open>BoundedForwardList\<close> in the same way, whose \<open>operator<\<close> is no order, and whose \<open>swap\<close> fails. Intrusive_List: \<open>IntrusiveList\<close>
  (IntrusiveList.hpp), lists that share a memory of nodes, as a refinement under the caller's obligations; its \<open>swap\<close>, and
  \<open>pop_back\<close> of the only element, are shown to leave a list that cannot be gone over. Intrusive_Forward_List: the singly
  linked \<open>IntrusiveForwardList\<close> in the same way. Memory_Range: \<open>MemoryRange\<close>, a pair of addresses,
  with the trimming and comparing operations, over an explicit memory.
  Bounded_String: \<open>BoundedString\<close> (BoundedString.hpp), a range of characters and a length, with \<open>memmove\<close> and
  the storing loops giving \<open>Out_of_bounds\<close> where they leave the range; Bounded_String_Laws: what each operation does
  to the text, what searching finds, and the refinement of a text of limited length; \<open>replace\<close> is shown to leave
  its storage, and \<open>erase\<close> of the rest behind the end to make the text longer.

  \<^bold>\<open>Queues shared with interrupts.\<close> Ring: arithmetic of rings that keep one slot free.
  Atomic_Byte_Queue: infra/stream/AtomicByteQueue.cpp, with the stores of \<open>Push\<close> and \<open>Pop\<close> separated so that an
  interrupt can fall between them; the invariant of all reachable interleavings, and the interleaving
  that corrupts the queue. Irq_Queue: infra/event/QueueForOneReaderOneIrqWriter.hpp in the same way,
  with the notification that it schedules.

  \<^bold>\<open>Streams\<close> (infra/stream). Streams: the error policies and the contracts of readers as locales. A reader is
  a record of functions, the overrides of the class's virtual functions, so that the adapters
  are written over any reader. Each reader of Stream_Readers (byte range, string, vector, deque, atomic
  queue), of Stream_Adapters and Stream_Counting (limited, counting) and of Stream_Buffering is shown to satisfy the contract
  it promises by an interpretation, given that its input does; a contract that the code does not keep in
  full is stated where it ends. Stream_Writers: the writers, the limited and the buffering writer, saved markers.
  Text_Output: numbers, text and base64 as the pieces that \<open>TextOutputStream\<close> inserts into a writer, and the writer of
  StringOutputStream.cpp over a bounded string; Text_Input: \<open>TextInputStream\<close> over any reader, each operation shown to be
  a scanner of the bytes that remain, failures included; Text_Roundtrip: what is written is read back.

  \<^bold>\<open>Message formats.\<close> Cobs_Codec: consistent overhead byte stuffing as functions on lists, encoding, decoding and
  decoding with sizes. Message_Communication_Cobs:
  services/message_communication/MessageCommunicationCobs.cpp, the sender as a chain of callbacks and the receiver on pieces of any size, shown to
  implement the codec. Proto_Wire: the wire format of protobuf as functions on lists. Proto_Formatter and Proto_Parser:
  infra/syntax/ProtoFormatter.cpp and ProtoParser.cpp over the contracts of streams, with nested messages and
  malformed input; Proto_Message: both together.

  \<^bold>\<open>JSON\<close> (infra/syntax/Json.cpp, JsonFormatter.cpp and EscapeCharacterHelper.cpp). Json_String: decoding the raw text of a
  string and escaping a text. Json_Tokenizer: the tokens, with what each text starts with. Json_Reader: the iterators over
  objects and arrays, which read the text again for every question, and look-up; for every text they end without a
  fault. Json_Formatter: the object and array formatters and \<open>Merge\<close>. Json_Roundtrip: what any sequence of calls to
  nested formatters writes is read back. Json_Merge: \<open>Merge\<close> implements a merge of trees.

  \<^bold>\<open>Sesame\<close> (services/sesame), a protocol with flow control over a serial line. Sesame_Windowed: every handler
  and state object of SesameWindowed.cpp. Sesame_Network: two of them over a medium, as a step relation, with the
  invariant that accounts for every byte of the receive buffers. Sesame_Progress: the steps that serve
  requests decrease a measure, and when none is possible no request waits. Sesame_Handshake: starting up, one side before the
  other, and both at once, when their handshakes cross and the flow control fails.
  Sesame_Cobs_Sender and Sesame_Cobs_Receiver: the two halves of SesameCobs.cpp; Sesame_Cobs: both
  together, with the encoded sizes that Sesame_Windowed relies on.

  The medium of Sesame_Network keeps messages in order and loses none; a client requests messages of at most
  \<open>MaxSendMessageSize\<close> while no request waits; \<open>Reset\<close> and \<open>Stop\<close> are modelled as functions, and are no steps of the
  network, since a reset of one side only loses the accounting of the bytes; the observer of a component
  holds at most one received message; a message's encoded size is the same at both ends, which
  Sesame_Cobs shows of \<open>SesameCobs\<close>. The size of a message is the parameter \<open>ms\<close> of the handlers (\<open>MessageSize\<close> is
  virtual), the one of \<open>SesameCobs\<close> in the theorems on progress.

  \<^bold>\<open>The configuration store\<close> (services/util/ConfigurationStore.cpp and .hpp, hal/interfaces). Flash: \<open>FlashBase\<close> over the
  device of test_doubles/FlashStub.cpp, and what each operation does to the bytes. Configuration_Blob: \<open>ConfigurationBlobFlash\<close>,
  with the flash's callbacks as tasks. Configuration_Store: \<open>ConfigurationStoreImpl\<close>, the lambdas that it
  hands to its blobs as the constructors of a datatype. Configuration_Phases: what is true while each of them is
  pending, and what each completion does. Configuration_Durability: the system with its client and with power failures as
  a step relation, the invariant, and that what was durable survives. Configuration_Factory: the store
  with a third blob for the factory default. The hash and the generated code of the
  configuration are parameters; a power failure may leave any content that the hash tells from a valid blob. The client changes,
  writes and unlocks the configuration only while the store is neither recovering nor erasing, and erases only while it is idle.

  \<^bold>\<open>Time\<close> (infra/timer). Partitioned_Time: PartitionedTime.cpp, a time as date and time of the day and back, with the
  truncating division and the widths of the code; the date follows the calendar day by day, before 1970 too. Timer_Service: \<open>Timer\<close> with its derived classes and \<open>TimerService\<close>, over the
  virtual functions of the class that derives from the service; the list of timers is the sequence that Intrusive_Forward_List implements.
  The invariant is that the next trigger is the earliest of the armed timers, unless an update is held; triggering what is due calls the
  timers in order. Timer_Clients: calls to timers as commands, actions that give commands, jumps of time, and histories of these.
  Timer_Classes: \<open>TickOnInterruptTimerService\<close> with its interrupt, \<open>DerivedTimerService\<close> and \<open>ScalableDerivedTimerService\<close>, each
  shown to keep the contract with the service; a tick that is noticed late, an alarm that is lost when its service is shifted, and a
  trigger that is lost by rounding.

  \<^bold>\<open>Bounds and fuel.\<close> The loops that end by decreasing a size are total functions. Where the number of callbacks
  depends on the other side, a function takes the number of callbacks it may use, and a theorem says how
  many are enough: \<open>2 n + 4\<close> for a message of \<open>n\<close> bytes (\<open>tx_run\<close>, \<open>sc_run\<close>), since every frame takes an overhead
  byte and a piece of data, and the delimiters and the empty frame at the end take four more; as many rounds as
  a value has bytes for \<open>pld_skip\<close> and one more for the parser's loops.

  \<^bold>\<open>Not modelled.\<close> Drivers, boards, the HAL's implementations and the vendored code under external are glue to
  hardware or not part of the library's own logic. Templates that only hold or forward (Function,
  WithStorage, ProxyCreator, Observer, SharedPtr) have no behaviour of their own here; a callback is the point
  where a handler continues. Of the network, BLE and echo components, and of the syntax components other than protobuf and JSON, nothing is
  modelled: they are listed in the manifest with a reason each. Destruction order, placement of objects in storage, and non-trivial element
  types are outside the model of memory.
\<close>

end
